(* ===== verification/Prelude.thy ===== *)
theory Prelude
  imports Main "HOL-Library.Monad_Syntax"
begin

text \<open>
  What every component shares: the option monad that carries a Python run (\<open>None\<close> is a run that
  raises an exception or does not return), the loop combinator that models \<open>while\<close> loops with its
  total and partial correctness rules, Python's list indexing, and generic list lemmas.
\<close>

named_theorems vcs \<open>rules that split a program into its verification conditions\<close>

subsection \<open>Loops\<close>

text \<open>
  A \<open>while\<close> loop of the source is a body that maps the loop state either to the value the loop
  leaves with (\<open>Inl\<close>) or to the next loop state (\<open>Inr\<close>); the body itself may raise (\<open>None\<close>).
\<close>

partial_function (option) loop :: "('s \<Rightarrow> ('r + 's) option) \<Rightarrow> 's \<Rightarrow> 'r option" where
  "loop body s = Option.bind (body s) (\<lambda>x. case x of Inl r \<Rightarrow> Some r | Inr s' \<Rightarrow> loop body s')"

lemma loop_done: "body s = Some (Inl r) \<Longrightarrow> loop body s = Some r"
  by (simp add: loop.simps [of body s])

lemma loop_next: "body s = Some (Inr s') \<Longrightarrow> loop body s = loop body s'"
  by (simp add: loop.simps [of body s])

lemma loop_raise: "body s = None \<Longrightarrow> loop body s = None"
  by (simp add: loop.simps [of body s])

text \<open>Total correctness: an invariant, a well-founded relation, and no exception.\<close>

lemma loop_total:
  assumes wf: "wf R" and init: "I s"
    and step: "\<And>s. I s \<Longrightarrow> \<exists>x. body s = Some x \<and>
        (case x of Inl r \<Rightarrow> Q r | Inr s' \<Rightarrow> I s' \<and> (s', s) \<in> R)"
  shows "\<exists>r. loop body s = Some r \<and> Q r"
  using wf init
proof (induction s rule: wf_induct_rule)
  case (less s)
  obtain x where x: "body s = Some x"
      "case x of Inl r \<Rightarrow> Q r | Inr s' \<Rightarrow> I s' \<and> (s', s) \<in> R"
    using step [OF less.prems] by blast
  show ?case
  proof (cases x)
    case (Inl r)
    with x show ?thesis by (auto simp: loop_done)
  next
    case (Inr s')
    with x less.IH [of s'] show ?thesis by (auto simp: loop_next)
  qed
qed

lemma loop_measure:
  fixes f :: "'s \<Rightarrow> nat"
  assumes init: "I s"
    and step: "\<And>s. I s \<Longrightarrow> \<exists>x. body s = Some x \<and>
        (case x of Inl r \<Rightarrow> Q r | Inr s' \<Rightarrow> I s' \<and> f s' < f s)"
  shows "\<exists>r. loop body s = Some r \<and> Q r"
proof (rule loop_total [where R = "measure f" and I = I])
  fix t assume "I t"
  then show "\<exists>x. body t = Some x \<and>
      (case x of Inl r \<Rightarrow> Q r | Inr s' \<Rightarrow> I s' \<and> (s', t) \<in> measure f)"
    using step [of t] by (auto split: sum.splits)
qed (use init in auto)

text \<open>Partial correctness: the invariant holds for the state the loop leaves from.\<close>

lemma loop_partial:
  fixes body :: "'s \<Rightarrow> ('r + 's) option"
  assumes ret: "loop body s = Some r" and init: "I s"
    and step: "\<And>s s'. I s \<Longrightarrow> body s = Some (Inr s') \<Longrightarrow> I s'"
    and leave: "\<And>s r. I s \<Longrightarrow> body s = Some (Inl r) \<Longrightarrow> Q r"
  shows "Q r"
proof -
  have "body = body \<longrightarrow> I s \<longrightarrow> Q r"
  proof (rule loop.raw_induct [where P = "\<lambda>b s r. b = body \<longrightarrow> I s \<longrightarrow> Q r", OF _ ret])
    fix lp :: "('s \<Rightarrow> ('r + 's) option) \<Rightarrow> 's \<Rightarrow> 'r option" and b s r
    assume IH: "\<And>b s r. lp b s = Some r \<Longrightarrow> b = body \<longrightarrow> I s \<longrightarrow> Q r"
      and eq: "Option.bind (b s) (\<lambda>x. case x of Inl r \<Rightarrow> Some r | Inr s' \<Rightarrow> lp b s') = Some r"
    show "b = body \<longrightarrow> I s \<longrightarrow> Q r"
    proof (intro impI)
      assume b: "b = body" and s: "I s"
      from eq obtain x where x: "b s = Some x" by (cases "b s") auto
      show "Q r"
      proof (cases x)
        case (Inl r')
        with x eq b s leave show ?thesis by auto
      next
        case (Inr s')
        with x eq have "lp b s' = Some r" by simp
        then show ?thesis using IH step x Inr b s by blast
      qed
    qed
  qed
  with init show ?thesis by simp
qed

subsection \<open>Lists of results\<close>

lemma those_map_Some: "those (map (\<lambda>x. Some (f x)) xs) = Some (map f xs)"
  by (induction xs) auto

lemma those_map_cong:
  "(\<And>x. x \<in> set xs \<Longrightarrow> f x = Some (g x)) \<Longrightarrow> those (map f xs) = Some (map g xs)"
  using those_map_Some [of g xs] by (metis map_cong)

subsection \<open>Python lists and strings\<close>

text \<open>\<open>xs[i]\<close>: a negative index counts from the end, an index out of range raises IndexError.\<close>

definition py_get :: "'a list \<Rightarrow> int \<Rightarrow> 'a option" where
  "py_get xs i =
     (let n = int (length xs); j = (if i < 0 then n + i else i)
      in if 0 \<le> j \<and> j < n then Some (xs ! nat j) else None)"

lemma py_get_nat [simp]: "k < length xs \<Longrightarrow> py_get xs (int k) = Some (xs ! k)"
  by (simp add: py_get_def)

text \<open>\<open>xs[i], xs[j] = xs[j], xs[i]\<close>\<close>

definition swap :: "nat \<Rightarrow> nat \<Rightarrow> 'a list \<Rightarrow> 'a list" where
  "swap i j xs = xs[i := xs ! j, j := xs ! i]"

lemma length_swap [simp]: "length (swap i j xs) = length xs"
  by (simp add: swap_def)

lemma set_swap [simp]: "i < length xs \<Longrightarrow> j < length xs \<Longrightarrow> set (swap i j xs) = set xs"
  unfolding swap_def by (rule set_swap)

lemma distinct_swap [simp]:
  "i < length xs \<Longrightarrow> j < length xs \<Longrightarrow> distinct (swap i j xs) = distinct xs"
  unfolding swap_def by (rule distinct_swap)

lemma nth_swap:
  "i < length xs \<Longrightarrow> j < length xs \<Longrightarrow> k < length xs \<Longrightarrow>
     swap i j xs ! k = (if k = j then xs ! i else if k = i then xs ! j else xs ! k)"
  by (auto simp: swap_def nth_list_update)

text \<open>Decimal rendering of a number, as an f-string prints it.\<close>

definition digit :: "nat \<Rightarrow> char" where
  "digit d = char_of (48 + d)"

fun show_nat :: "nat \<Rightarrow> string" where
  "show_nat n = (if n < 10 then [digit n] else show_nat (n div 10) @ [digit (n mod 10)])"

declare show_nat.simps [simp del]

definition show_int :: "int \<Rightarrow> string" where
  "show_int i = (if i < 0 then ''-'' @ show_nat (nat (- i)) else show_nat (nat i))"

fun join :: "string \<Rightarrow> string list \<Rightarrow> string" where
  "join sep [] = []"
| "join sep [x] = x"
| "join sep (x # xs) = x @ sep @ join sep xs"

lemma digit_inj: "a < 10 \<Longrightarrow> b < 10 \<Longrightarrow> digit a = digit b \<Longrightarrow> a = b"
  unfolding digit_def
  by (drule arg_cong [where f = "of_char :: char \<Rightarrow> nat"]) simp

lemma show_nat_not_Nil: "show_nat n \<noteq> []" "[] \<noteq> show_nat n"
  by (subst show_nat.simps, simp)+

lemma show_nat_inj: "show_nat m = show_nat n \<Longrightarrow> m = n"
proof (induction m arbitrary: n rule: show_nat.induct)
  case (1 m)
  have m: "show_nat m = (if m < 10 then [digit m] else show_nat (m div 10) @ [digit (m mod 10)])"
    by (rule show_nat.simps)
  have n: "show_nat n = (if n < 10 then [digit n] else show_nat (n div 10) @ [digit (n mod 10)])"
    by (rule show_nat.simps)
  show ?case
  proof (cases "m < 10")
    case True
    with "1.prems" m n show ?thesis
      by (auto split: if_splits simp: show_nat_not_Nil intro: digit_inj)
  next
    case False
    with "1.prems" m n have n10: "\<not> n < 10"
      by (auto split: if_splits simp: show_nat_not_Nil)
    with False "1.prems" m n have "show_nat (m div 10) = show_nat (n div 10)"
      and "digit (m mod 10) = digit (n mod 10)" by auto
    with "1.IH" False have "m div 10 = n div 10" and "m mod 10 = n mod 10"
      by (auto intro: digit_inj)
    then show ?thesis by (metis div_mult_mod_eq)
  qed
qed

text \<open>Every bit of a word \<open>x\<close> of the source has the name \<open>f"{x}[{i}]"\<close>.\<close>

definition bit_name :: "string \<Rightarrow> nat \<Rightarrow> string" where
  "bit_name x i = x @ ''['' @ show_nat i @ '']''"

lemma bit_name_inj: "bit_name x i = bit_name x j \<Longrightarrow> i = j"
  by (auto simp: bit_name_def intro: show_nat_inj)

subsection \<open>Lists\<close>

lemma distinct_nth_inj: "distinct xs \<Longrightarrow> i < length xs \<Longrightarrow> j < length xs \<Longrightarrow> xs ! i = xs ! j \<Longrightarrow> i = j"
  by (simp add: nth_eq_iff_index_eq)

lemma mem_iff_nth: "x \<in> set xs \<longleftrightarrow> (\<exists>i < length xs. xs ! i = x)"
  by (auto simp: in_set_conv_nth)

end
