(* ===== verification/Signals.thy ===== *)
theory Signals
  imports Prelude "HOL-Library.State_Monad"
begin

text \<open>
  The signal DAG of \<open>circuit.py\<close>: class \<open>Sig\<close> and the smart constructors \<open>CONST\<close> to \<open>ITE\<close>.
  A node carries its identity \<open>Sig.id\<close>; the class counter \<open>Sig._n\<close> is the state of the \<open>alloc\<close>
  monad, so two nodes built separately differ even when they are structurally equal, which is what
  the caches keyed by \<open>Sig.id\<close> see. \<open>sval\<close> is the Boolean function a node denotes, and
  \<open>builds\<close> is the specification of a construction: it keeps the identities of a pool of nodes
  unique, and its result satisfies a property.
\<close>

subsection \<open>Nodes\<close>

datatype sig =
    SConst (sid: nat) bool
  | SVar (sid: nat) string
  | SNot (sid: nat) sig
  | SAnd (sid: nat) "sig list"
  | SOr (sid: nat) "sig list"
  | SXor (sid: nat) sig sig
  | SIte (sid: nat) sig sig sig

fun args :: "sig \<Rightarrow> sig list" where
  "args (SConst _ _) = []"
| "args (SVar _ _) = []"
| "args (SNot _ a) = [a]"
| "args (SAnd _ xs) = xs"
| "args (SOr _ xs) = xs"
| "args (SXor _ a b) = [a, b]"
| "args (SIte _ c t e) = [c, t, e]"

lemma size_args: "x \<in> set (args s) \<Longrightarrow> size x < size s"
  by (cases s) (auto dest: size_list_estimation' [where f = size] simp: less_Suc_eq_le)

text \<open>The function a node denotes under a valuation of the variable names.\<close>

fun sval :: "(string \<Rightarrow> bool) \<Rightarrow> sig \<Rightarrow> bool" where
  "sval \<rho> (SConst _ b) = b"
| "sval \<rho> (SVar _ x) = \<rho> x"
| "sval \<rho> (SNot _ a) = (\<not> sval \<rho> a)"
| "sval \<rho> (SAnd _ xs) = list_all (sval \<rho>) xs"
| "sval \<rho> (SOr _ xs) = list_ex (sval \<rho>) xs"
| "sval \<rho> (SXor _ a b) = (sval \<rho> a \<noteq> sval \<rho> b)"
| "sval \<rho> (SIte _ c t e) = (if sval \<rho> c then sval \<rho> t else sval \<rho> e)"

text \<open>The variable names a node reads.\<close>

fun svars :: "sig \<Rightarrow> string set" where
  "svars (SConst _ _) = {}"
| "svars (SVar _ x) = {x}"
| "svars (SNot _ a) = svars a"
| "svars (SAnd _ xs) = (\<Union>x \<in> set xs. svars x)"
| "svars (SOr _ xs) = (\<Union>x \<in> set xs. svars x)"
| "svars (SXor _ a b) = svars a \<union> svars b"
| "svars (SIte _ c t e) = svars c \<union> svars t \<union> svars e"

lemma sval_cong: "(\<And>x. x \<in> svars s \<Longrightarrow> \<rho> x = \<rho>' x) \<Longrightarrow> sval \<rho> s = sval \<rho>' s"
  by (induction s rule: svars.induct) (auto simp: list_all_iff list_ex_iff)

lemma svars_args: "x \<in> set (args s) \<Longrightarrow> svars x \<subseteq> svars s"
  by (cases s) auto

subsection \<open>Allocation and the smart constructors\<close>

type_synonym 'a alloc = "(nat, 'a) state"

definition fresh_id :: "nat alloc" where
  "fresh_id = State (\<lambda>n. (n, Suc n))"

definition node :: "(nat \<Rightarrow> sig) \<Rightarrow> sig alloc" where
  "node c = do { i \<leftarrow> fresh_id; State_Monad.return (c i) }"

text \<open>A list comprehension whose elements are built from left to right.\<close>

primrec alloc_map :: "('a \<Rightarrow> 'b alloc) \<Rightarrow> 'a list \<Rightarrow> 'b list alloc" where
  "alloc_map f [] = State_Monad.return []"
| "alloc_map f (x # xs) =
     do { y \<leftarrow> f x; ys \<leftarrow> alloc_map f xs; State_Monad.return (y # ys) }"

definition CONST_s :: "bool \<Rightarrow> sig alloc" where
  "CONST_s b = node (\<lambda>i. SConst i b)"

text \<open>The module constants: the first two nodes built when \<open>circuit.py\<close> is imported.\<close>

definition TRUE_s :: sig where "TRUE_s = SConst 0 True"
definition FALSE_s :: sig where "FALSE_s = SConst 1 False"

definition VAR_s :: "string \<Rightarrow> sig alloc" where
  "VAR_s x = node (\<lambda>i. SVar i x)"

fun NOT_s :: "sig \<Rightarrow> sig alloc" where
  "NOT_s (SConst _ b) = CONST_s (\<not> b)"
| "NOT_s (SNot _ a) = State_Monad.return a"
| "NOT_s a = node (\<lambda>i. SNot i a)"

text \<open>The loop over the operands: \<open>None\<close> when a controlling constant returns early.\<close>

fun and_args :: "sig list \<Rightarrow> sig list option" where
  "and_args [] = Some []"
| "and_args (SConst _ b # xs) = (if \<not> b then None else and_args xs)"
| "and_args (x # xs) = map_option (Cons x) (and_args xs)"

definition AND_s :: "sig list \<Rightarrow> sig alloc" where
  "AND_s xs =
     (case and_args xs of
        None \<Rightarrow> State_Monad.return FALSE_s
      | Some out \<Rightarrow>
          (if out = [] then State_Monad.return TRUE_s
           else if length out = 1 then State_Monad.return (out ! 0)
           else node (\<lambda>i. SAnd i out)))"

fun or_args :: "sig list \<Rightarrow> sig list option" where
  "or_args [] = Some []"
| "or_args (SConst _ b # xs) = (if b then None else or_args xs)"
| "or_args (x # xs) = map_option (Cons x) (or_args xs)"

definition OR_s :: "sig list \<Rightarrow> sig alloc" where
  "OR_s xs =
     (case or_args xs of
        None \<Rightarrow> State_Monad.return TRUE_s
      | Some out \<Rightarrow>
          (if out = [] then State_Monad.return FALSE_s
           else if length out = 1 then State_Monad.return (out ! 0)
           else node (\<lambda>i. SOr i out)))"

definition XOR_s :: "sig \<Rightarrow> sig \<Rightarrow> sig alloc" where
  "XOR_s a b =
     (case a of
        SConst _ v \<Rightarrow> (if \<not> v then State_Monad.return b else NOT_s b)
      | _ \<Rightarrow>
        (case b of
           SConst _ v \<Rightarrow> (if \<not> v then State_Monad.return a else NOT_s a)
         | _ \<Rightarrow> node (\<lambda>i. SXor i a b)))"

definition XNOR_s :: "sig \<Rightarrow> sig \<Rightarrow> sig alloc" where
  "XNOR_s a b = do { x \<leftarrow> XOR_s a b; NOT_s x }"

definition IMPLIES_s :: "sig \<Rightarrow> sig \<Rightarrow> sig alloc" where
  "IMPLIES_s a b = do { na \<leftarrow> NOT_s a; OR_s [na, b] }"

definition IFF_s :: "sig \<Rightarrow> sig \<Rightarrow> sig alloc" where
  "IFF_s a b = XNOR_s a b"

definition ITE_s :: "sig \<Rightarrow> sig \<Rightarrow> sig \<Rightarrow> sig alloc" where
  "ITE_s c t e =
     (case c of
        SConst _ v \<Rightarrow> State_Monad.return (if v then t else e)
      | _ \<Rightarrow> node (\<lambda>i. SIte i c t e))"

subsection \<open>Pools of nodes with unique identities\<close>

definition pool :: "sig set \<Rightarrow> bool" where
  "pool P \<longleftrightarrow> inj_on sid P \<and> (\<forall>s \<in> P. set (args s) \<subseteq> P)"

definition pool_ok :: "nat \<Rightarrow> sig set \<Rightarrow> bool" where
  "pool_ok n P \<longleftrightarrow> pool P \<and> {TRUE_s, FALSE_s} \<subseteq> P \<and> (\<forall>s \<in> P. sid s < n)"

lemma poolD_id: "pool P \<Longrightarrow> s \<in> P \<Longrightarrow> t \<in> P \<Longrightarrow> sid s = sid t \<Longrightarrow> s = t"
  by (auto simp: pool_def inj_on_def)

lemma poolD_args: "pool P \<Longrightarrow> s \<in> P \<Longrightarrow> x \<in> set (args s) \<Longrightarrow> x \<in> P"
  by (auto simp: pool_def)

lemma pool_ok_start: "pool_ok 2 {TRUE_s, FALSE_s}"
  by (auto simp: pool_ok_def pool_def TRUE_s_def FALSE_s_def)

lemma pool_ok_insert:
  "pool_ok n P \<Longrightarrow> sid s = n \<Longrightarrow> set (args s) \<subseteq> P \<Longrightarrow> pool_ok (Suc n) (insert s P)"
  by (fastforce simp: pool_ok_def pool_def inj_on_def less_Suc_eq)

text \<open>
  \<open>builds A S m Q\<close>: from any pool that holds \<open>A\<close>, the construction \<open>m\<close> extends the pool to one
  that holds the nodes \<open>S r\<close> of its result \<open>r\<close>, and \<open>Q r\<close> holds.
\<close>

definition builds :: "sig set \<Rightarrow> ('a \<Rightarrow> sig set) \<Rightarrow> 'a alloc \<Rightarrow> ('a \<Rightarrow> bool) \<Rightarrow> bool" where
  "builds A S m Q \<longleftrightarrow>
     (\<forall>n P. pool_ok n P \<and> A \<subseteq> P \<longrightarrow>
        (\<exists>r n' P'. run_state m n = (r, n') \<and> n \<le> n' \<and> pool_ok n' P' \<and> P \<subseteq> P' \<and> S r \<subseteq> P' \<and> Q r))"

lemma buildsE:
  assumes "builds A S m Q" "pool_ok n P" "A \<subseteq> P"
  obtains r n' P' where "run_state m n = (r, n')" "n \<le> n'" "pool_ok n' P'" "P \<subseteq> P'" "S r \<subseteq> P'" "Q r"
  using assms unfolding builds_def by blast

lemma builds_return [vcs]: "S x \<subseteq> A \<union> {TRUE_s, FALSE_s} \<Longrightarrow> Q x \<Longrightarrow> builds A S (State_Monad.return x) Q"
  by (fastforce simp: builds_def pool_ok_def)

lemma builds_node [vcs]:
  assumes "\<And>i. sid (c i) = i" and "\<And>i. set (args (c i)) \<subseteq> A" and "\<And>i. Q (c i)"
  shows "builds A (\<lambda>r. {r}) (node c) Q"
  unfolding builds_def
proof (intro allI impI)
  fix n P assume P: "pool_ok n P \<and> A \<subseteq> P"
  have "set (args (c n)) \<subseteq> P"
    using P assms(2) [of n] by (rule subset_trans [rotated, OF conjunct2])
  then have "pool_ok (Suc n) (insert (c n) P)"
    using P assms(1) by (intro pool_ok_insert) auto
  then show "\<exists>r n' P'. run_state (node c) n = (r, n') \<and> n \<le> n' \<and> pool_ok n' P' \<and> P \<subseteq> P'
      \<and> {r} \<subseteq> P' \<and> Q r"
    using assms by (fastforce simp: node_def fresh_id_def)
qed

lemma builds_bind:
  assumes m: "builds A Sm m Qm" and f: "\<And>x. Qm x \<Longrightarrow> builds (A \<union> Sm x) S (f x) Q"
  shows "builds A S (m \<bind> f) Q"
  unfolding builds_def
proof (intro allI impI)
  fix n P assume P: "pool_ok n P \<and> A \<subseteq> P"
  obtain x n1 P1 where 1: "run_state m n = (x, n1)" "n \<le> n1" "pool_ok n1 P1" "P \<subseteq> P1"
      "Sm x \<subseteq> P1" "Qm x"
    using buildsE [OF m] P by metis
  have "A \<union> Sm x \<subseteq> P1" using P 1 by blast
  with f [OF \<open>Qm x\<close>] 1 obtain y n2 P2 where "run_state (f x) n1 = (y, n2)" "n1 \<le> n2"
      "pool_ok n2 P2" "P1 \<subseteq> P2" "S y \<subseteq> P2" "Q y"
    by (metis buildsE)
  with 1 show "\<exists>r n' P'. run_state (m \<bind> f) n = (r, n') \<and> n \<le> n' \<and> pool_ok n' P' \<and> P \<subseteq> P'
      \<and> S r \<subseteq> P' \<and> Q r"
    by (intro exI [of _ y] exI [of _ n2] exI [of _ P2]) auto
qed

lemma builds_weaken:
  assumes m: "builds A S m Q" and AB: "A \<subseteq> B \<union> {TRUE_s, FALSE_s}"
    and S: "\<And>x. Q x \<Longrightarrow> S' x \<subseteq> S x \<union> B \<union> {TRUE_s, FALSE_s}" and Q: "\<And>x. Q x \<Longrightarrow> Q' x"
  shows "builds B S' m Q'"
  unfolding builds_def
proof (intro allI impI)
  fix n P assume P: "pool_ok n P \<and> B \<subseteq> P"
  then have TF: "B \<union> {TRUE_s, FALSE_s} \<subseteq> P" by (simp add: pool_ok_def)
  obtain r n' P' where r: "run_state m n = (r, n')" "n \<le> n'" "pool_ok n' P'" "P \<subseteq> P'" "S r \<subseteq> P'" "Q r"
    using buildsE [OF m conjunct1 [OF P] order_trans [OF AB TF]] by metis
  have "S' r \<subseteq> P'"
    by (rule order_trans [OF S [OF \<open>Q r\<close>]]) (use r(4,5) TF in blast)
  with r Q [OF \<open>Q r\<close>] show "\<exists>r n' P'. run_state m n = (r, n') \<and> n \<le> n' \<and> pool_ok n' P' \<and> P \<subseteq> P'
      \<and> S' r \<subseteq> P' \<and> Q' r"
    by (intro exI [of _ r] exI [of _ n'] exI [of _ P']) simp
qed

lemma builds_alloc_map:
  assumes "\<And>x. x \<in> set xs \<Longrightarrow> builds A S (f x) (Q x)"
  shows "builds A (\<lambda>ys. \<Union>y \<in> set ys. S y) (alloc_map f xs) (list_all2 Q xs)"
  using assms
proof (induction xs)
  case Nil
  show ?case by (simp, rule builds_return) auto
next
  case (Cons x xs)
  have hd: "builds A S (f x) (Q x)" and
    tl: "builds A (\<lambda>ys. \<Union>y \<in> set ys. S y) (alloc_map f xs) (list_all2 Q xs)"
    using Cons by auto
  have "builds (A \<union> S y) (\<lambda>ys. \<Union>y \<in> set ys. S y) (alloc_map f xs \<bind> (\<lambda>ys. State_Monad.return (y # ys)))
     (list_all2 Q (x # xs))" if "Q x y" for y
    by (rule builds_bind [OF builds_weaken [OF tl], where Sm = "\<lambda>ys. \<Union>y \<in> set ys. S y"])
      (use that in \<open>auto intro!: builds_return\<close>)
  then show ?case by (auto intro!: builds_bind [OF hd])
qed

subsection \<open>The smart constructors build the functions they name\<close>

definition denotes :: "((string \<Rightarrow> bool) \<Rightarrow> bool) \<Rightarrow> string set \<Rightarrow> sig \<Rightarrow> bool" where
  "denotes f X r \<longleftrightarrow> (\<forall>\<rho>. sval \<rho> r = f \<rho>) \<and> svars r \<subseteq> X"

lemma sval_TRUE [simp]: "sval \<rho> TRUE_s" and sval_FALSE [simp]: "\<not> sval \<rho> FALSE_s"
  and svars_TRUE [simp]: "svars TRUE_s = {}" and svars_FALSE [simp]: "svars FALSE_s = {}"
  by (simp_all add: TRUE_s_def FALSE_s_def)

lemma denotes_sval: "denotes (\<lambda>\<rho>. sval \<rho> s) (svars s) s"
  by (simp add: denotes_def)

lemma builds_CONST: "builds {} (\<lambda>r. {r}) (CONST_s b) (denotes (\<lambda>_. b) {})"
  unfolding CONST_s_def by (rule vcs) (auto simp: denotes_def)

lemma builds_VAR: "builds {} (\<lambda>r. {r}) (VAR_s x) (denotes (\<lambda>\<rho>. \<rho> x) {x})"
  unfolding VAR_s_def by (rule vcs) (auto simp: denotes_def)

lemma builds_NOT: "builds {a} (\<lambda>r. {r}) (NOT_s a) (denotes (\<lambda>\<rho>. \<not> sval \<rho> a) (svars a))"
proof (cases a)
  case (SConst i b)
  show ?thesis unfolding SConst
    by (simp, rule builds_weaken [OF builds_CONST]) (auto simp: denotes_def)
next
  case (SNot i x)
  have "x \<in> P" if "pool_ok n P" "{SNot i x} \<subseteq> P" for n P
    using that poolD_args [of P "SNot i x" x] by (simp add: pool_ok_def)
  then show ?thesis unfolding SNot builds_def
    by (simp add: denotes_def) blast
qed (auto simp: denotes_def intro!: builds_node)

lemma and_args_None: "and_args xs = None \<Longrightarrow> \<not> list_all (sval \<rho>) xs"
  by (induction xs rule: and_args.induct) (auto split: if_splits)

lemma and_args_Some:
  "and_args xs = Some out \<Longrightarrow> set out \<subseteq> set xs \<and> list_all (sval \<rho>) out = list_all (sval \<rho>) xs"
  by (induction xs arbitrary: out rule: and_args.induct) (auto split: if_splits)

lemma or_args_None: "or_args xs = None \<Longrightarrow> list_ex (sval \<rho>) xs"
  by (induction xs rule: or_args.induct) (auto split: if_splits)

lemma or_args_Some:
  "or_args xs = Some out \<Longrightarrow> set out \<subseteq> set xs \<and> list_ex (sval \<rho>) out = list_ex (sval \<rho>) xs"
  by (induction xs arbitrary: out rule: or_args.induct) (auto split: if_splits)

lemma builds_AND:
  "builds (set xs) (\<lambda>r. {r}) (AND_s xs) (denotes (\<lambda>\<rho>. \<forall>x \<in> set xs. sval \<rho> x) (\<Union>x \<in> set xs. svars x))"
proof (cases "and_args xs")
  case None
  then show ?thesis
    using and_args_None [OF None]
    by (auto simp: AND_s_def denotes_def list_all_iff intro!: builds_return)
next
  case (Some out)
  have sub: "set out \<subseteq> set xs" and val: "\<And>\<rho>. list_all (sval \<rho>) out = (\<forall>x \<in> set xs. sval \<rho> x)"
    using and_args_Some [OF Some] by (auto simp: list_all_iff)
  consider "out = []" | x where "out = [x]" | "length out \<noteq> 1" "out \<noteq> []"
    by (cases out) auto
  then show ?thesis
  proof cases
    case 1
    then show ?thesis using Some val by (auto simp: AND_s_def denotes_def intro!: builds_return)
  next
    case 2
    then show ?thesis using Some sub val by (auto simp: AND_s_def denotes_def intro!: builds_return)
  next
    case 3
    then show ?thesis using Some val subsetD [OF sub]
      by (auto simp: AND_s_def denotes_def intro!: builds_node) blast?
  qed
qed

lemma builds_OR:
  "builds (set xs) (\<lambda>r. {r}) (OR_s xs) (denotes (\<lambda>\<rho>. \<exists>x \<in> set xs. sval \<rho> x) (\<Union>x \<in> set xs. svars x))"
proof (cases "or_args xs")
  case None
  then show ?thesis
    using or_args_None [OF None]
    by (auto simp: OR_s_def denotes_def list_ex_iff intro!: builds_return)
next
  case (Some out)
  have sub: "set out \<subseteq> set xs" and val: "\<And>\<rho>. list_ex (sval \<rho>) out = (\<exists>x \<in> set xs. sval \<rho> x)"
    using or_args_Some [OF Some] by (auto simp: list_ex_iff)
  consider "out = []" | x where "out = [x]" | "length out \<noteq> 1" "out \<noteq> []"
    by (cases out) auto
  then show ?thesis
  proof cases
    case 1
    then show ?thesis using Some val by (auto simp: OR_s_def denotes_def intro!: builds_return)
  next
    case 2
    then show ?thesis using Some sub val by (auto simp: OR_s_def denotes_def intro!: builds_return)
  next
    case 3
    then show ?thesis using Some val subsetD [OF sub]
      by (auto simp: OR_s_def denotes_def intro!: builds_node) blast?
  qed
qed

lemma builds_NOT_of:
  "a \<in> A \<Longrightarrow> denotes f X a \<Longrightarrow> builds A (\<lambda>r. {r}) (NOT_s a) (denotes (\<lambda>\<rho>. \<not> f \<rho>) X)"
  by (rule builds_weaken [OF builds_NOT]) (auto simp: denotes_def)

lemma builds_XOR:
  "builds {a, b} (\<lambda>r. {r}) (XOR_s a b) (denotes (\<lambda>\<rho>. sval \<rho> a \<noteq> sval \<rho> b) (svars a \<union> svars b))"
proof -
  have n: "builds {a, b} (\<lambda>r. {r}) (NOT_s y) (denotes f (svars a \<union> svars b))"
    if "y \<in> {a, b}" "\<And>\<rho>. f \<rho> = (\<not> sval \<rho> y)" for y f
    by (rule builds_weaken [OF builds_NOT]) (use that in \<open>auto simp: denotes_def\<close>)
  have r: "builds {a, b} (\<lambda>r. {r}) (State_Monad.return y) (denotes f (svars a \<union> svars b))"
    if "y \<in> {a, b}" "\<And>\<rho>. f \<rho> = sval \<rho> y" for y f
    using that by (intro builds_return) (auto simp: denotes_def)
  show ?thesis
  proof (cases "\<exists>i v. a = SConst i v")
    case True
    then obtain i v where a: "a = SConst i v" by blast
    show ?thesis
      using n [of b "\<lambda>\<rho>. sval \<rho> a \<noteq> sval \<rho> b"] r [of b "\<lambda>\<rho>. sval \<rho> a \<noteq> sval \<rho> b"] a
      by (cases v) (simp_all add: XOR_s_def)
  next
    case a: False
    show ?thesis
    proof (cases "\<exists>i v. b = SConst i v")
      case True
      then obtain i v where b: "b = SConst i v" by blast
      with a have "XOR_s a b = (if v then NOT_s a else State_Monad.return a)"
        by (cases a) (auto simp: XOR_s_def)
      then show ?thesis
        using n [of a "\<lambda>\<rho>. sval \<rho> a \<noteq> sval \<rho> b"] r [of a "\<lambda>\<rho>. sval \<rho> a \<noteq> sval \<rho> b"] b
        by (cases v) simp_all
    next
      case False
      with a have "XOR_s a b = node (\<lambda>i. SXor i a b)"
        by (cases a; cases b) (auto simp: XOR_s_def)
      then show ?thesis by (auto simp: denotes_def intro!: builds_node)
    qed
  qed
qed

lemma builds_XNOR:
  "builds {a, b} (\<lambda>r. {r}) (XNOR_s a b) (denotes (\<lambda>\<rho>. sval \<rho> a = sval \<rho> b) (svars a \<union> svars b))"
  unfolding XNOR_s_def
  by (rule builds_bind [OF builds_XOR], rule builds_weaken [OF builds_NOT]) (auto simp: denotes_def)

lemma builds_IMPLIES:
  "builds {a, b} (\<lambda>r. {r}) (IMPLIES_s a b) (denotes (\<lambda>\<rho>. sval \<rho> a \<longrightarrow> sval \<rho> b) (svars a \<union> svars b))"
  unfolding IMPLIES_s_def
  by (rule builds_bind [OF builds_NOT_of [OF _ denotes_sval]], simp,
      rule builds_weaken [OF builds_OR]) (auto simp: denotes_def)

lemma builds_ITE:
  "builds {c, t, e} (\<lambda>r. {r}) (ITE_s c t e)
     (denotes (\<lambda>\<rho>. if sval \<rho> c then sval \<rho> t else sval \<rho> e) (svars c \<union> svars t \<union> svars e))"
  by (cases c) (auto simp: ITE_s_def denotes_def intro!: vcs)

end
