(* ===== verification/Ternary.thy ===== *)
theory Ternary
  imports Signals
begin

text \<open>
  The traversals of the signal DAG in \<open>circuit.py\<close>: \<open>ternary_eval\<close> (three-valued simulation with
  an explicit stack and a memo keyed by \<open>Sig.id\<close>), \<open>support\<close> and \<open>count_gates\<close>. Each is shown to
  return, with the value of its recursive specification (\<open>tval\<close>, \<open>svars\<close>, the distinct gates).
  A stack is a list whose head is the Python list's last element.
\<close>

subsection \<open>Kleene's three-valued logic\<close>

type_synonym tern = "bool option"   \<comment> \<open>0, 1, and \<open>None\<close> for X\<close>

definition tern_and :: "tern list \<Rightarrow> tern" where
  "tern_and vals =
     (if Some False \<in> set vals then Some False else if None \<in> set vals then None else Some True)"

definition tern_or :: "tern list \<Rightarrow> tern" where
  "tern_or vals =
     (if Some True \<in> set vals then Some True else if None \<in> set vals then None else Some False)"

definition tern_xor :: "tern \<Rightarrow> tern \<Rightarrow> tern" where
  "tern_xor a b = (case (a, b) of (Some x, Some y) \<Rightarrow> Some (x \<noteq> y) | _ \<Rightarrow> None)"

definition tern_ite :: "tern \<Rightarrow> tern \<Rightarrow> tern \<Rightarrow> tern" where
  "tern_ite c t e =
     (case c of Some b \<Rightarrow> (if b then t else e)
      | None \<Rightarrow> (if t = e \<and> t \<noteq> None then t else None))"

fun tval :: "(string \<Rightarrow> tern) \<Rightarrow> sig \<Rightarrow> tern" where
  "tval \<rho> (SConst _ b) = Some b"
| "tval \<rho> (SVar _ x) = \<rho> x"
| "tval \<rho> (SNot _ a) = map_option Not (tval \<rho> a)"
| "tval \<rho> (SAnd _ xs) = tern_and (map (tval \<rho>) xs)"
| "tval \<rho> (SOr _ xs) = tern_or (map (tval \<rho>) xs)"
| "tval \<rho> (SXor _ a b) = tern_xor (tval \<rho> a) (tval \<rho> b)"
| "tval \<rho> (SIte _ c t e) = tern_ite (tval \<rho> c) (tval \<rho> t) (tval \<rho> e)"

subsection \<open>\<open>ternary_eval\<close>\<close>

text \<open>The value of a gate from the values of its operands, in operand order.\<close>

fun gate_val :: "sig \<Rightarrow> tern list \<Rightarrow> tern option" where
  "gate_val (SNot _ _) [v] = Some (map_option Not v)"
| "gate_val (SAnd _ _) vals = Some (tern_and vals)"
| "gate_val (SOr _ _) vals = Some (tern_or vals)"
| "gate_val (SXor _ _ _) [a, b] = Some (tern_xor a b)"
| "gate_val (SIte _ _ _ _) [c, t, e] = Some (tern_ite c t e)"
| "gate_val _ _ = None"

type_synonym tern_memo = "nat \<rightharpoonup> tern"

definition tern_body ::
    "(string \<rightharpoonup> tern) \<Rightarrow> sig list \<times> tern_memo \<Rightarrow> (tern_memo + sig list \<times> tern_memo) option" where
  "tern_body env st = (case st of (stack, memo) \<Rightarrow>
     (case stack of
        [] \<Rightarrow> Some (Inl memo)
      | s # rest \<Rightarrow>
          if memo (sid s) \<noteq> None then Some (Inr (rest, memo))
          else (case s of
            SConst _ b \<Rightarrow> Some (Inr (rest, memo(sid s \<mapsto> Some b)))
          | SVar _ x \<Rightarrow> do { v \<leftarrow> env x; Some (Inr (rest, memo(sid s \<mapsto> v))) }
          | _ \<Rightarrow>
              let todo = filter (\<lambda>a. memo (sid a) = None) (args s) in
              if todo \<noteq> [] then Some (Inr (rev todo @ stack, memo))
              else do { r \<leftarrow> gate_val s (map (\<lambda>a. the (memo (sid a))) (args s));
                        Some (Inr (rest, memo(sid s \<mapsto> r))) })))"

definition ternary_eval ::
    "sig \<Rightarrow> (string \<rightharpoonup> tern) \<Rightarrow> tern_memo \<Rightarrow> (tern \<times> tern_memo) option" where
  "ternary_eval sig env memo =
     do { memo' \<leftarrow> loop (tern_body env) ([sig], memo); v \<leftarrow> memo' (sid sig); Some (v, memo') }"

text \<open>A memo agrees with the specification on the nodes of a pool.\<close>

definition tenv :: "(string \<rightharpoonup> tern) \<Rightarrow> string \<Rightarrow> tern" where
  "tenv env x = (case env x of None \<Rightarrow> None | Some v \<Rightarrow> v)"

definition tmemo_ok :: "sig set \<Rightarrow> (string \<rightharpoonup> tern) \<Rightarrow> tern_memo \<Rightarrow> bool" where
  "tmemo_ok P env memo \<longleftrightarrow> (\<forall>x \<in> P. \<forall>v. memo (sid x) = Some v \<longrightarrow> v = tval (tenv env) x)"

lemma tmemo_ok_upd:
  "tmemo_ok P env memo \<Longrightarrow> pool P \<Longrightarrow> s \<in> P \<Longrightarrow> v = tval (tenv env) s \<Longrightarrow> tmemo_ok P env (memo(sid s \<mapsto> v))"
  by (auto simp: tmemo_ok_def dest: poolD_id)

definition tern_done :: "sig set \<Rightarrow> (string \<rightharpoonup> tern) \<Rightarrow> sig list \<Rightarrow> sig list \<Rightarrow> tern_memo \<Rightarrow> bool" where
  "tern_done P env xs rest memo \<longleftrightarrow> (\<exists>memo'. tmemo_ok P env memo' \<and> memo \<subseteq>\<^sub>m memo' \<and>
      (\<forall>x \<in> set xs. memo' (sid x) \<noteq> None) \<and>
      loop (tern_body env) (xs @ rest, memo) = loop (tern_body env) (rest, memo'))"

lemma map_le_upd_fresh: "m k = None \<Longrightarrow> m \<subseteq>\<^sub>m m(k \<mapsto> v)"
  by (auto simp: map_le_def)

lemma tern_done_list:
  assumes "\<And>x rest memo. x \<in> set xs \<Longrightarrow> tmemo_ok P env memo \<Longrightarrow> tern_done P env [x] rest memo"
    and "tmemo_ok P env memo"
  shows "tern_done P env xs rest memo"
  using assms
proof (induction xs arbitrary: memo)
  case Nil
  then show ?case by (auto simp: tern_done_def)
next
  case (Cons x xs)
  from Cons.prems have "tern_done P env [x] (xs @ rest) memo" by simp
  then obtain m1 where m1: "tmemo_ok P env m1" "memo \<subseteq>\<^sub>m m1" "m1 (sid x) \<noteq> None"
    "loop (tern_body env) (x # xs @ rest, memo) = loop (tern_body env) (xs @ rest, m1)"
    by (auto simp: tern_done_def)
  from Cons.IH [OF Cons.prems(1) m1(1)] obtain m2 where m2: "tmemo_ok P env m2" "m1 \<subseteq>\<^sub>m m2"
    "\<forall>y \<in> set xs. m2 (sid y) \<noteq> None"
    "loop (tern_body env) (xs @ rest, m1) = loop (tern_body env) (rest, m2)"
    by (auto simp: tern_done_def)
  have "m2 (sid x) \<noteq> None" using m1(3) m2(2) by (auto simp: map_le_def dom_def)
  with m1 m2 show ?case unfolding tern_done_def
    by (intro exI [of _ m2]) (auto intro: map_le_trans)
qed

lemma gate_val_ok:
  assumes "tmemo_ok P env memo" "set (args s) \<subseteq> P" "\<forall>a \<in> set (args s). memo (sid a) \<noteq> None"
    and "\<And>i b. s \<noteq> SConst i b" "\<And>i x. s \<noteq> SVar i x"
  shows "gate_val s (map (\<lambda>a. the (memo (sid a))) (args s)) = Some (tval (tenv env) s)"
proof -
  have "map (\<lambda>a. the (memo (sid a))) (args s) = map (tval (tenv env)) (args s)"
    using assms(1-3) by (auto simp: tmemo_ok_def)
  with assms(4,5) show ?thesis by (cases s) (auto simp del: map_eq_conv)
qed

lemma tern_body_gate:
  assumes "memo (sid s) = None" "\<And>i b. s \<noteq> SConst i b" "\<And>i x. s \<noteq> SVar i x"
  shows "tern_body env (s # rest, memo) =
     (let todo = filter (\<lambda>a. memo (sid a) = None) (args s) in
      if todo \<noteq> [] then Some (Inr (rev todo @ s # rest, memo))
      else do { r \<leftarrow> gate_val s (map (\<lambda>a. the (memo (sid a))) (args s)); Some (Inr (rest, memo(sid s \<mapsto> r))) })"
  using assms by (cases s) (auto simp: tern_body_def)

lemma tern_done_single:
  assumes P: "pool P" "s \<in> P" and env: "svars s \<subseteq> dom env" and memo: "tmemo_ok P env memo"
  shows "tern_done P env [s] rest memo"
  using P(2) env memo
proof (induction "size s" arbitrary: s rest memo rule: less_induct)
  case less
  show ?case
  proof (cases "memo (sid s)")
    case (Some v)
    then have "loop (tern_body env) (s # rest, memo) = loop (tern_body env) (rest, memo)"
      by (intro loop_next) (simp add: tern_body_def)
    with Some less.prems show ?thesis unfolding tern_done_def by (intro exI [of _ memo]) auto
  next
    case None
    have finish: "tern_done P env [s] rest memo"
      if "loop (tern_body env) (s # rest, memo) = loop (tern_body env) (rest, m(sid s \<mapsto> tval (tenv env) s))"
        "tmemo_ok P env m" "memo \<subseteq>\<^sub>m m" "m (sid s) = None" for m
      using that less.prems P(1) unfolding tern_done_def
      by (intro exI [of _ "m(sid s \<mapsto> tval (tenv env) s)"])
        (auto intro: tmemo_ok_upd map_le_trans map_le_upd_fresh)
    consider i b where "s = SConst i b" | i x where "s = SVar i x"
      | "\<And>i b. s \<noteq> SConst i b" "\<And>i x. s \<noteq> SVar i x" by (cases s) auto
    then show ?thesis
    proof cases
      case 1
      then show ?thesis using None less.prems
        by (intro finish [of memo] loop_next) (auto simp: tern_body_def)
    next
      case 2
      then obtain v where "env x = Some v" using less.prems by auto
      with 2 None less.prems show ?thesis
        by (intro finish [of memo] loop_next) (auto simp: tern_body_def tenv_def)
    next
      case 3
      define todo where "todo = filter (\<lambda>a. memo (sid a) = None) (args s)"
      have sub: "set (args s) \<subseteq> P" using P(1) less.prems(1) by (auto dest: poolD_args)
      have step: "loop (tern_body env) (s # rest, m) = loop (tern_body env) (rest, m(sid s \<mapsto> tval (tenv env) s))"
        if "tmemo_ok P env m" "m (sid s) = None" "\<forall>a \<in> set (args s). m (sid a) \<noteq> None" for m
        by (intro loop_next) (use that 3 gate_val_ok [OF that(1) sub that(3) 3] in
          \<open>auto simp: tern_body_gate filter_empty_conv\<close>)
      have dn: "tern_done P env (rev todo) (s # rest) memo"
      proof (rule tern_done_list)
        fix x rest m assume x: "x \<in> set (rev todo)" and m: "tmemo_ok P env m"
        then have "x \<in> set (args s)" by (simp add: todo_def)
        with m show "tern_done P env [x] rest m"
          using sub svars_args [of x s] less.prems(2) by (intro less.hyps) (auto intro: size_args)
      qed (rule less.prems)
      then obtain m where m: "tmemo_ok P env m" "memo \<subseteq>\<^sub>m m" "\<forall>x \<in> set todo. m (sid x) \<noteq> None"
        "loop (tern_body env) (rev todo @ s # rest, memo) = loop (tern_body env) (s # rest, m)"
        by (auto simp: tern_done_def)
      have all: "\<forall>a \<in> set (args s). m (sid a) \<noteq> None"
      proof
        fix a assume "a \<in> set (args s)"
        then show "m (sid a) \<noteq> None"
          using m(2,3) by (cases "memo (sid a)") (auto simp: todo_def map_le_def dom_def)
      qed
      have "loop (tern_body env) (s # rest, memo) = loop (tern_body env) (s # rest, m)"
      proof (cases "todo = []")
        case True
        with m(4) show ?thesis by simp
      next
        case False
        with None 3 have "loop (tern_body env) (s # rest, memo) = loop (tern_body env) (rev todo @ s # rest, memo)"
          by (intro loop_next) (simp add: tern_body_gate todo_def Let_def)
        with m(4) show ?thesis by simp
      qed
      note chain = this
      show ?thesis
      proof (cases "m (sid s)")
        case None
        show ?thesis by (rule finish [OF _ m(1,2) None]) (use chain step [OF m(1) None all] in simp)
      next
        case (Some v)
        then have "loop (tern_body env) (s # rest, m) = loop (tern_body env) (rest, m)"
          by (intro loop_next) (simp add: tern_body_def)
        with chain Some m show ?thesis unfolding tern_done_def by (intro exI [of _ m]) auto
      qed
    qed
  qed
qed

text \<open>\<open>ternary_eval\<close> returns, with the three-valued value of the node.\<close>

lemma ternary_eval_tval:
  assumes "pool P" "s \<in> P" "svars s \<subseteq> dom env" "tmemo_ok P env memo"
  shows "\<exists>memo'. ternary_eval s env memo = Some (tval (tenv env) s, memo') \<and> tmemo_ok P env memo'"
proof -
  from tern_done_single [OF assms, of "[]"] obtain m where m: "tmemo_ok P env m" "m (sid s) \<noteq> None"
    "loop (tern_body env) ([s], memo) = loop (tern_body env) ([], m)"
    by (auto simp: tern_done_def)
  have "loop (tern_body env) ([], m) = Some m" by (rule loop_done) (simp add: tern_body_def)
  with m assms(2) show ?thesis by (auto simp: ternary_eval_def tmemo_ok_def)
qed

lemma tmemo_ok_empty [simp]: "tmemo_ok P env Map.empty"
  by (simp add: tmemo_ok_def)

subsection \<open>Information order\<close>

definition refines :: "tern \<Rightarrow> tern \<Rightarrow> bool" where
  "refines u v \<longleftrightarrow> u = None \<or> u = v"

lemma tern_and_Some: "tern_and vs = Some b \<longleftrightarrow>
    (if b then \<forall>v \<in> set vs. v = Some True else Some False \<in> set vs)"
  by (auto simp: tern_and_def) (metis (full_types) not_None_eq)+

lemma tern_or_Some: "tern_or vs = Some b \<longleftrightarrow>
    (if b then Some True \<in> set vs else \<forall>v \<in> set vs. v = Some False)"
  by (auto simp: tern_or_def) (metis (full_types) not_None_eq)+

lemma tval_mono: "(\<And>x. x \<in> svars s \<Longrightarrow> refines (\<rho> x) (\<rho>' x)) \<Longrightarrow> tval \<rho> s = Some b \<Longrightarrow> tval \<rho>' s = Some b"
proof (induction s arbitrary: b rule: svars.induct)
  case (2 i x)
  then show ?case by (auto simp: refines_def)
next
  case (4 i xs)
  have "tval \<rho>' x = Some c" if "x \<in> set xs" "tval \<rho> x = Some c" for x c
    by (rule "4.IH" [OF that(1) _ that(2)]) (use "4.prems"(1) that(1) in auto)
  with "4.prems"(2) show ?case
    by (cases b) (auto simp: tern_and_Some image_iff, metis)
next
  case (5 i xs)
  have "tval \<rho>' x = Some c" if "x \<in> set xs" "tval \<rho> x = Some c" for x c
    by (rule "5.IH" [OF that(1) _ that(2)]) (use "5.prems"(1) that(1) in auto)
  with "5.prems"(2) show ?case
    by (cases b) (auto simp: tern_or_Some image_iff, metis)
next
  case (6 i a c)
  then show ?case by (auto simp: tern_xor_def split: option.splits)
next
  case (7 i c t e)
  have ih: "tval \<rho>' c = Some v" if "tval \<rho> c = Some v" for v
    by (rule "7.IH"(1) [OF _ that]) (use "7.prems"(1) in auto)
  have it: "tval \<rho>' t = Some v" if "tval \<rho> t = Some v" for v
    by (rule "7.IH"(2) [OF _ that]) (use "7.prems"(1) in auto)
  have ie: "tval \<rho>' e = Some v" if "tval \<rho> e = Some v" for v
    by (rule "7.IH"(3) [OF _ that]) (use "7.prems"(1) in auto)
  show ?case
  proof (cases "tval \<rho> c")
    case None
    then have "tval \<rho> t = Some b" "tval \<rho> e = Some b"
      using "7.prems"(2) by (auto simp: tern_ite_def split: if_splits)
    then show ?thesis by (simp add: it ie tern_ite_def split: option.splits)
  next
    case (Some v)
    then show ?thesis using "7.prems"(2) by (auto simp: ih it ie tern_ite_def split: if_splits)
  qed
qed auto

lemma tval_total: "tval (\<lambda>x. Some (\<rho> x)) s = Some (sval \<rho> s)"
  by (induction s rule: svars.induct)
    (auto simp: tern_and_Some tern_or_Some tern_xor_def tern_ite_def list_all_iff list_ex_iff image_iff
      intro!: bexI)

lemma tval_sound:
  assumes "tval \<rho> s = Some b" and "\<And>x. x \<in> svars s \<Longrightarrow> refines (\<rho> x) (Some (\<sigma> x))"
  shows "sval \<sigma> s = b"
  using tval_mono [of s \<rho> "\<lambda>x. Some (\<sigma> x)", OF assms(2,1)] by (simp add: tval_total)

subsection \<open>\<open>support\<close>: the names a node reads\<close>

text \<open>All nodes of the DAG below a node.\<close>

fun nodes :: "sig \<Rightarrow> sig set" where
  "nodes (SConst i b) = {SConst i b}"
| "nodes (SVar i x) = {SVar i x}"
| "nodes (SNot i a) = insert (SNot i a) (nodes a)"
| "nodes (SAnd i xs) = insert (SAnd i xs) (\<Union>x \<in> set xs. nodes x)"
| "nodes (SOr i xs) = insert (SOr i xs) (\<Union>x \<in> set xs. nodes x)"
| "nodes (SXor i a b) = insert (SXor i a b) (nodes a \<union> nodes b)"
| "nodes (SIte i c t e) = insert (SIte i c t e) (nodes c \<union> nodes t \<union> nodes e)"

lemma nodes_unfold: "nodes s = insert s (\<Union>x \<in> set (args s). nodes x)"
  by (cases s) auto

lemma nodes_self: "s \<in> nodes s"
  by (subst nodes_unfold) simp

lemma finite_nodes: "finite (nodes s)"
  by (induction s rule: svars.induct) auto

lemma nodes_args_closed: "t \<in> nodes s \<Longrightarrow> set (args t) \<subseteq> nodes s"
proof (induction s rule: svars.induct)
  case (4 i xs)
  then show ?case using nodes_self by fastforce
next
  case (5 i xs)
  then show ?case using nodes_self by fastforce
qed (use nodes_self in auto)

lemma nodes_least: "s \<in> S \<Longrightarrow> (\<And>t. t \<in> S \<Longrightarrow> set (args t) \<subseteq> S) \<Longrightarrow> nodes s \<subseteq> S"
proof (induction "size s" arbitrary: s rule: less_induct)
  case less
  have "nodes x \<subseteq> S" if "x \<in> set (args s)" for x
    using less.hyps [OF size_args [OF that]] less.prems that by blast
  with less.prems(1) show ?case by (subst nodes_unfold) auto
qed

lemma nodes_pool: "pool P \<Longrightarrow> s \<in> P \<Longrightarrow> nodes s \<subseteq> P"
  by (rule nodes_least) (auto simp: pool_def)

lemma svars_nodes: "svars s = {x. \<exists>i. SVar i x \<in> nodes s}"
  by (induction s rule: svars.induct) auto

definition support_body ::
    "nat set \<times> string set \<times> sig list \<Rightarrow> (string set + nat set \<times> string set \<times> sig list) option" where
  "support_body st = (case st of (seen, out, stack) \<Rightarrow>
     (case stack of
        [] \<Rightarrow> Some (Inl out)
      | s # rest \<Rightarrow>
          if sid s \<in> seen then Some (Inr (seen, out, rest))
          else (case s of
            SVar _ x \<Rightarrow> Some (Inr (insert (sid s) seen, insert x out, rest))
          | _ \<Rightarrow> Some (Inr (insert (sid s) seen, out, rev (args s) @ rest)))))"

definition support :: "sig \<Rightarrow> string set option" where
  "support sig = loop support_body ({}, {}, [sig])"

definition support_inv :: "sig \<Rightarrow> nat set \<times> string set \<times> sig list \<Rightarrow> bool" where
  "support_inv s st \<longleftrightarrow> (case st of (seen, out, stack) \<Rightarrow>
     set stack \<subseteq> nodes s \<and> seen \<subseteq> sid ` nodes s \<and> (s \<in> set stack \<or> sid s \<in> seen) \<and>
     out = {x. \<exists>i. SVar i x \<in> nodes s \<and> i \<in> seen} \<and>
     (\<forall>t \<in> nodes s. sid t \<in> seen \<longrightarrow> (\<forall>a \<in> set (args t). a \<in> set stack \<or> sid a \<in> seen)))"

lemma support_body_step:
  assumes "inj_on sid (nodes s)" "support_inv s (seen, out, t # rest)"
  shows "\<exists>st'. support_body (seen, out, t # rest) = Some (Inr st') \<and> support_inv s st' \<and>
     (case st' of (seen', _, stack') \<Rightarrow> (seen' = seen \<and> length stack' = length rest) \<or>
        (\<exists>n \<in> sid ` nodes s - seen. seen' = insert n seen))"
proof (cases "sid t \<in> seen")
  case True
  with assms(2) show ?thesis
    by (auto simp: support_body_def support_inv_def)
next
  case False
  have t: "t \<in> nodes s" and inj: "\<And>x. x \<in> nodes s \<Longrightarrow> sid x = sid t \<Longrightarrow> x = t"
    using assms by (auto simp: support_inv_def inj_on_def)
  have sub: "set (args t) \<subseteq> nodes s" using nodes_args_closed [OF t] .
  define out' where "out' = (case t of SVar _ x \<Rightarrow> insert x out | _ \<Rightarrow> out)"
  have body: "support_body (seen, out, t # rest) = Some (Inr (insert (sid t) seen, out', rev (args t) @ rest))"
    using False by (cases t) (auto simp: support_body_def out'_def)
  have out': "out' = {x. \<exists>i. SVar i x \<in> nodes s \<and> i \<in> insert (sid t) seen}"
  proof (cases "\<exists>i x. t = SVar i x")
    case True
    then obtain i x where tx: "t = SVar i x" by blast
    with inj [of "SVar i y" for y] assms(2) t show ?thesis
      by (auto simp: support_inv_def out'_def)
  next
    case f: False
    then have "out' = out" by (cases t) (auto simp: out'_def)
    moreover have "i \<noteq> sid t" if "SVar i x \<in> nodes s" for i x
    proof
      assume "i = sid t"
      then have "SVar i x = t" using inj [OF that] by simp
      with f show False by blast
    qed
    ultimately show ?thesis using assms(2) by (auto simp: support_inv_def)
  qed
  have "support_inv s (insert (sid t) seen, out', rev (args t) @ rest)"
    using assms(2) t sub out' inj unfolding support_inv_def
    by (auto simp del: insert_iff simp: insert_iff [of _ "sid t" seen])
  with body False t show ?thesis by auto
qed

lemma support_svars:
  assumes "pool P" "s \<in> P"
  shows "support s = Some (svars s)"
proof -
  have inj: "inj_on sid (nodes s)"
    using nodes_pool [OF assms] assms(1) by (auto simp: pool_def intro: inj_on_subset)
  have fin: "finite (sid ` nodes s)" by (simp add: finite_nodes)
  have "\<exists>r. loop support_body ({}, {}, [s]) = Some r \<and> r = svars s"
  proof (rule loop_total [where I = "support_inv s" and R =
        "measures [\<lambda>(seen, _, _). card (sid ` nodes s - seen), \<lambda>(_, _, stack). length stack]"])
    show "support_inv s ({}, {}, [s])" by (simp add: support_inv_def nodes_self)
    fix st assume I: "support_inv s st"
    obtain seen out stack where st: "st = (seen, out, stack)" by (cases st)
    show "\<exists>x. support_body st = Some x \<and> (case x of Inl r \<Rightarrow> r = svars s
        | Inr st' \<Rightarrow> support_inv s st' \<and> (st', st) \<in> measures
            [\<lambda>(seen, _, _). card (sid ` nodes s - seen), \<lambda>(_, _, stack). length stack])"
    proof (cases stack)
      case Nil
      define S where "S = {t \<in> nodes s. sid t \<in> seen}"
      have "nodes s \<subseteq> S"
        using I st Nil nodes_args_closed by (intro nodes_least) (fastforce simp: S_def support_inv_def nodes_self)+
      then have "out = svars s"
        using I st Nil by (force simp: svars_nodes S_def support_inv_def)
      with st Nil show ?thesis by (simp add: support_body_def)
    next
      case (Cons t rest)
      have card: "card (sid ` nodes s - insert n seen) < card (sid ` nodes s - seen)"
        if "n \<in> sid ` nodes s - seen" for n
        using that fin by (intro psubset_card_mono) auto
      from support_body_step [OF inj I [unfolded st Cons]] obtain st' where
        "support_body st = Some (Inr st')" "support_inv s st'"
        "case st' of (seen', _, stack') \<Rightarrow> (seen' = seen \<and> length stack' = length rest) \<or>
          (\<exists>n \<in> sid ` nodes s - seen. seen' = insert n seen)"
        unfolding st Cons by blast
      moreover obtain seen' out' stack' where st': "st' = (seen', out', stack')" by (cases st')
      ultimately have "card (sid ` nodes s - seen') < card (sid ` nodes s - seen) \<or>
          seen' = seen \<and> length stack' < length (t # rest)"
        using card by (simp only: prod.case) (metis length_Cons lessI)
      then have "(st', st) \<in> measures
          [\<lambda>(seen, _, _). card (sid ` nodes s - seen), \<lambda>(_, _, stack). length stack]"
        unfolding st st' Cons by auto
      with \<open>support_body st = Some (Inr st')\<close> \<open>support_inv s st'\<close> show ?thesis by auto
    qed
  qed simp
  then show ?thesis by (simp add: support_def)
qed

subsection \<open>\<open>count_gates\<close>\<close>

fun is_leaf :: "sig \<Rightarrow> bool" where
  "is_leaf (SConst _ _) = True" | "is_leaf (SVar _ _) = True" | "is_leaf _ = False"

text \<open>The inner function \<open>go\<close>, on the set \<open>seen\<close> it mutates.\<close>

fun gates_go :: "sig \<Rightarrow> nat set \<Rightarrow> nat set" and gates_list :: "sig list \<Rightarrow> nat set \<Rightarrow> nat set" where
  "gates_go s seen =
     (if is_leaf s \<or> sid s \<in> seen then seen
      else (case s of
        SNot i a \<Rightarrow> gates_go a (insert i seen)
      | SAnd i xs \<Rightarrow> gates_list xs (insert i seen)
      | SOr i xs \<Rightarrow> gates_list xs (insert i seen)
      | SXor i a b \<Rightarrow> gates_go b (gates_go a (insert i seen))
      | SIte i c t e \<Rightarrow> gates_go e (gates_go t (gates_go c (insert i seen)))
      | _ \<Rightarrow> seen))"
| "gates_list [] seen = seen"
| "gates_list (x # xs) seen = gates_list xs (gates_go x seen)"

definition count_gates :: "sig \<Rightarrow> nat" where
  "count_gates s = card (gates_go s {})"

definition gate_ids :: "sig \<Rightarrow> nat set" where
  "gate_ids s = sid ` {t \<in> nodes s. \<not> is_leaf t}"

lemma gates_go_args:
  "\<not> is_leaf s \<Longrightarrow> sid s \<notin> seen \<Longrightarrow> gates_go s seen = gates_list (args s) (insert (sid s) seen)"
  by (cases s) simp_all

lemma gates_go_skip: "is_leaf s \<or> sid s \<in> seen \<Longrightarrow> gates_go s seen = seen"
  by simp

declare gates_go.simps [simp del]

lemma nodes_trans: "t \<in> nodes s \<Longrightarrow> nodes t \<subseteq> nodes s"
  by (rule nodes_least) (auto dest: nodes_args_closed)

lemma size_nodes: "t \<in> nodes s \<Longrightarrow> size t \<le> size s"
proof (induction "size s" arbitrary: s rule: less_induct)
  case less
  from less.prems consider "t = s" | x where "x \<in> set (args s)" "t \<in> nodes x"
    by (subst (asm) nodes_unfold) auto
  then show ?case
  proof cases
    case 2
    with less.hyps [OF size_args [OF 2(1)]] size_args [OF 2(1)] show ?thesis by simp
  qed simp
qed

lemma gate_ids_unfold: "\<not> is_leaf s \<Longrightarrow> gate_ids s = insert (sid s) (\<Union>x \<in> set (args s). gate_ids x)"
  unfolding gate_ids_def by (subst nodes_unfold) auto

lemma gate_ids_leaf: "is_leaf s \<Longrightarrow> gate_ids s = {}"
  by (cases s) (auto simp: gate_ids_def)

text \<open>What has been seen below \<open>s\<close> has been seen completely.\<close>

definition seen_closed :: "sig \<Rightarrow> nat set \<Rightarrow> bool" where
  "seen_closed s seen \<longleftrightarrow> (\<forall>t \<in> nodes s. \<not> is_leaf t \<and> sid t \<in> seen \<longrightarrow> gate_ids t \<subseteq> seen)"

lemma seen_closed_Un:
  assumes "pool P" "x \<in> P" "y \<in> P" "seen_closed y seen"
  shows "seen_closed y (seen \<union> gate_ids x)"
proof -
  have "gate_ids t \<subseteq> gate_ids x" if t: "t \<in> nodes y" "sid t \<in> gate_ids x" for t
  proof -
    obtain u where u: "u \<in> nodes x" "sid u = sid t" using t(2) by (auto simp: gate_ids_def)
    then have "u = t" using nodes_pool [OF assms(1)] assms(2,3) t(1) by (intro poolD_id [OF assms(1)]) auto
    with u nodes_trans [of t x] show ?thesis by (auto simp: gate_ids_def)
  qed
  with assms(4) show ?thesis by (auto simp: seen_closed_def)
qed

lemma gates_list_ids:
  assumes go: "\<And>x seen. x \<in> set xs \<Longrightarrow> seen_closed x seen \<Longrightarrow> gates_go x seen = seen \<union> gate_ids x"
    and P: "pool P" "set xs \<subseteq> P" and "\<forall>x \<in> set xs. seen_closed x seen"
  shows "gates_list xs seen = seen \<union> (\<Union>x \<in> set xs. gate_ids x)"
  using go P(2) assms(4)
proof (induction xs arbitrary: seen)
  case (Cons x xs)
  have "gates_list xs (seen \<union> gate_ids x) = (seen \<union> gate_ids x) \<union> (\<Union>y \<in> set xs. gate_ids y)"
    using Cons.prems seen_closed_Un [OF P(1)] by (intro Cons.IH) auto
  then show ?case using Cons.prems by auto
qed simp

lemma gates_go_ids:
  assumes "pool P" "s \<in> P" "seen_closed s seen"
  shows "gates_go s seen = seen \<union> gate_ids s"
  using assms(2,3)
proof (induction "size s" arbitrary: s seen rule: less_induct)
  case less
  consider "is_leaf s" | "\<not> is_leaf s" "sid s \<in> seen" | "\<not> is_leaf s" "sid s \<notin> seen" by blast
  then show ?case
  proof cases
    case 1
    then show ?thesis by (simp add: gates_go_skip gate_ids_leaf)
  next
    case 2
    then have "gate_ids s \<subseteq> seen" using less.prems(2) nodes_self by (auto simp: seen_closed_def)
    with 2 show ?thesis by (auto simp: gates_go_skip)
  next
    case 3
    have sub: "set (args s) \<subseteq> P" using less.prems(1) assms(1) by (auto dest: poolD_args)
    have "seen_closed x (insert (sid s) seen)" if "x \<in> set (args s)" for x
    proof -
      have xs: "nodes x \<subseteq> nodes s" using that by (subst (2) nodes_unfold) auto
      have "sid t \<noteq> sid s" if t: "t \<in> nodes x" for t
      proof
        assume "sid t = sid s"
        then have "t = s" using nodes_pool [OF assms(1) less.prems(1)] xs t less.prems(1)
          by (intro poolD_id [OF assms(1)]) auto
        with size_nodes [OF t] size_args [OF \<open>x \<in> set (args s)\<close>] show False by simp
      qed
      with less.prems(2) xs show ?thesis by (auto simp: seen_closed_def)
    qed
    then have "gates_list (args s) (insert (sid s) seen) =
        insert (sid s) seen \<union> (\<Union>x \<in> set (args s). gate_ids x)"
      using less.hyps size_args sub by (intro gates_list_ids [OF _ assms(1)]) auto
    with 3 show ?thesis by (simp add: gates_go_args gate_ids_unfold)
  qed
qed

lemma count_gates_ids: "pool P \<Longrightarrow> s \<in> P \<Longrightarrow> count_gates s = card {t \<in> nodes s. \<not> is_leaf t}"
  using nodes_pool [of P s]
  by (simp add: count_gates_def gates_go_ids seen_closed_def gate_ids_def)
    (intro card_image, auto simp: pool_def intro: inj_on_subset)

end
