(* ===== verification/Bitvec.thy ===== *)
theory Bitvec
  imports Signals
begin

text \<open>
  The bit-vectors of \<open>circuit.py\<close> (class \<open>BV\<close> and \<open>bv_var\<close> to \<open>bv_sub\<close>): least significant bit
  first lists of nodes. \<open>bvv\<close> reads a vector as a number under a valuation; the theorems say that
  each circuit computes its arithmetic function modulo \<open>2 ^ width\<close>.
\<close>

subsection \<open>The constructions\<close>

type_synonym bv = "sig list"   \<comment> \<open>\<open>BV.bits\<close>; \<open>BV.width\<close> is the length\<close>

definition bv_var :: "string \<Rightarrow> nat \<Rightarrow> bv alloc" where
  "bv_var x w = alloc_map (\<lambda>i. VAR_s (bit_name x i)) [0..<w]"

definition bv_const :: "int \<Rightarrow> nat \<Rightarrow> bv alloc" where
  "bv_const v w = alloc_map (\<lambda>i. CONST_s (odd (v div 2 ^ i))) [0..<w]"

text \<open>\<open>bits + [FALSE] * (w - width)\<close>\<close>

definition pad :: "bv \<Rightarrow> nat \<Rightarrow> bv" where
  "pad a w = a @ replicate (w - length a) FALSE_s"

definition bv_eq :: "bv \<Rightarrow> bv \<Rightarrow> sig alloc" where
  "bv_eq a b =
     (let w = max (length a) (length b) in
      do { xs \<leftarrow> alloc_map (\<lambda>(x, y). XNOR_s x y) (zip (pad a w) (pad b w)); AND_s xs })"

definition bv_eq_const :: "bv \<Rightarrow> int \<Rightarrow> sig alloc" where
  "bv_eq_const a k = do { c \<leftarrow> bv_const k (length a); bv_eq a c }"

definition bv_ge_const :: "bv \<Rightarrow> int \<Rightarrow> sig alloc" where
  "bv_ge_const a k =
     do { xs \<leftarrow> alloc_map (\<lambda>v. do { e \<leftarrow> bv_eq_const a v; AND_s [e] }) [k..2 ^ length a - 1]; OR_s xs }"

definition bv_ite :: "sig \<Rightarrow> bv \<Rightarrow> bv \<Rightarrow> bv alloc" where
  "bv_ite c a b =
     (let w = max (length a) (length b) in alloc_map (\<lambda>(x, y). ITE_s c x y) (zip (pad a w) (pad b w)))"

fun inc_bits :: "sig \<Rightarrow> bv \<Rightarrow> bv alloc" where
  "inc_bits carry [] = State_Monad.return []"
| "inc_bits carry (b # bs) =
     do { s \<leftarrow> XOR_s b carry; carry' \<leftarrow> AND_s [b, carry]; out \<leftarrow> inc_bits carry' bs;
          State_Monad.return (s # out) }"

definition bv_inc :: "bv \<Rightarrow> bv alloc" where
  "bv_inc a = inc_bits TRUE_s a"

fun dec_bits :: "sig \<Rightarrow> bv \<Rightarrow> bv alloc" where
  "dec_bits borrow [] = State_Monad.return []"
| "dec_bits borrow (b # bs) =
     do { s \<leftarrow> XOR_s b borrow; nb \<leftarrow> NOT_s b; borrow' \<leftarrow> AND_s [nb, borrow];
          out \<leftarrow> dec_bits borrow' bs; State_Monad.return (s # out) }"

definition bv_dec :: "bv \<Rightarrow> bv alloc" where
  "bv_dec a = dec_bits TRUE_s a"

text \<open>\<open>w = width or max(a.width, b.width)\<close>: Python's \<open>or\<close> also replaces a width of 0.\<close>

definition the_width :: "nat option \<Rightarrow> bv \<Rightarrow> bv \<Rightarrow> nat" where
  "the_width width a b =
     (case width of Some (Suc n) \<Rightarrow> Suc n | _ \<Rightarrow> max (length a) (length b))"

fun add_bits :: "sig \<Rightarrow> (sig \<times> sig) list \<Rightarrow> bv alloc" where
  "add_bits carry [] = State_Monad.return []"
| "add_bits carry ((x, y) # xys) =
     do { xy \<leftarrow> XOR_s x y; s \<leftarrow> XOR_s xy carry;
          g \<leftarrow> AND_s [x, y]; xy' \<leftarrow> XOR_s x y; p \<leftarrow> AND_s [carry, xy']; carry' \<leftarrow> OR_s [g, p];
          out \<leftarrow> add_bits carry' xys; State_Monad.return (s # out) }"

definition bv_add :: "bv \<Rightarrow> bv \<Rightarrow> nat option \<Rightarrow> bv alloc" where
  "bv_add a b width =
     (let w = the_width width a b in
      add_bits FALSE_s (zip (take w (pad a w)) (take w (pad b w))))"

fun mul_rows :: "bv \<Rightarrow> nat \<Rightarrow> nat \<Rightarrow> bv \<Rightarrow> bv \<Rightarrow> bv alloc" where
  "mul_rows a w i [] acc = State_Monad.return acc"
| "mul_rows a w i (bbit # bs) acc =
     do { row \<leftarrow> alloc_map (\<lambda>x. AND_s [bbit, x]) (take (w - i) a);
          acc' \<leftarrow> bv_add acc (replicate i FALSE_s @ row) (Some w);
          mul_rows a w (Suc i) bs acc' }"

definition bv_mul :: "bv \<Rightarrow> bv \<Rightarrow> nat option \<Rightarrow> bv alloc" where
  "bv_mul a b width =
     (let w = the_width width a b in mul_rows a w 0 (take w b) (replicate w FALSE_s))"

definition bv_sub :: "bv \<Rightarrow> bv \<Rightarrow> nat option \<Rightarrow> bv alloc" where
  "bv_sub a b width =
     (let w = the_width width a b in
      do { nb \<leftarrow> alloc_map NOT_s (take w (pad b w)); neg_b \<leftarrow> bv_inc nb; bv_add a neg_b (Some w) })"

subsection \<open>Reading a vector\<close>

fun bits_nat :: "bool list \<Rightarrow> nat" where
  "bits_nat [] = 0"
| "bits_nat (b # bs) = of_bool b + 2 * bits_nat bs"

definition bvv :: "(string \<Rightarrow> bool) \<Rightarrow> bv \<Rightarrow> nat" where
  "bvv \<rho> a = bits_nat (map (sval \<rho>) a)"

definition bv_vars :: "bv \<Rightarrow> string set" where
  "bv_vars a = (\<Union>x \<in> set a. svars x)"

lemma bvv_Nil [simp]: "bvv \<rho> [] = 0"
  and bvv_Cons [simp]: "bvv \<rho> (x # xs) = of_bool (sval \<rho> x) + 2 * bvv \<rho> xs"
  by (simp_all add: bvv_def)

lemma bv_vars_Nil [simp]: "bv_vars [] = {}"
  and bv_vars_Cons [simp]: "bv_vars (x # xs) = svars x \<union> bv_vars xs"
  and bv_vars_append [simp]: "bv_vars (xs @ ys) = bv_vars xs \<union> bv_vars ys"
  by (auto simp: bv_vars_def)

lemma bv_vars_mono: "set xs \<subseteq> set ys \<Longrightarrow> bv_vars xs \<subseteq> bv_vars ys"
  by (auto simp: bv_vars_def)

lemma bvv_append: "bvv \<rho> (xs @ ys) = bvv \<rho> xs + 2 ^ length xs * bvv \<rho> ys"
  by (induction xs) (auto simp: algebra_simps)

lemma bvv_replicate_FALSE [simp]: "bvv \<rho> (replicate n FALSE_s) = 0"
  by (induction n) auto

lemma bv_vars_replicate_FALSE [simp]: "bv_vars (replicate n FALSE_s) = {}"
  by (induction n) auto

lemma bvv_less: "bvv \<rho> xs < 2 ^ length xs"
  by (induction xs) auto

lemma bvv_take: "bvv \<rho> (take w xs) = bvv \<rho> xs mod 2 ^ w"
proof (cases "w \<le> length xs")
  case True
  have "bvv \<rho> xs = bvv \<rho> (take w xs) + 2 ^ w * bvv \<rho> (drop w xs)"
    using bvv_append [of \<rho> "take w xs" "drop w xs"] True by (simp add: min_def)
  moreover have "bvv \<rho> (take w xs) < 2 ^ w"
    using bvv_less [of \<rho> "take w xs"] True by (simp add: min_absorb2)
  ultimately show ?thesis by simp
next
  case False
  then have "bvv \<rho> xs < 2 ^ w"
    using bvv_less [of \<rho> xs] by (meson less_le_trans linorder_not_le nat_less_le one_le_numeral power_increasing)
  with False show ?thesis by simp
qed

lemma bvv_pad [simp]: "bvv \<rho> (pad a w) = bvv \<rho> a"
  by (simp add: pad_def bvv_append)

lemma bv_vars_pad [simp]: "bv_vars (pad a w) = bv_vars a"
  by (simp add: pad_def)

lemma length_pad [simp]: "length (pad a w) = max (length a) w"
  by (auto simp: pad_def)

lemma set_pad: "set (pad a w) \<subseteq> set a \<union> {TRUE_s, FALSE_s}"
  by (auto simp: pad_def)

lemma bits_nat_inj: "length xs = length ys \<Longrightarrow> bits_nat xs = bits_nat ys \<Longrightarrow> xs = ys"
proof (induction xs ys rule: list_induct2)
  case (Cons x xs y ys)
  from Cons.prems have "x = y" and "bits_nat xs = bits_nat ys"
    by (auto simp: of_bool_def split: if_splits) presburger+
  with Cons show ?case by simp
qed simp

lemma bvv_eq_iff:
  assumes "length a = length b"
  shows "bvv \<rho> a = bvv \<rho> b \<longleftrightarrow> list_all2 (\<lambda>x y. sval \<rho> x = sval \<rho> y) a b"
proof -
  have "bvv \<rho> a = bvv \<rho> b \<longleftrightarrow> map (sval \<rho>) a = map (sval \<rho>) b"
    unfolding bvv_def using bits_nat_inj [of "map (sval \<rho>) a" "map (sval \<rho>) b"] assms by auto
  also have "\<dots> \<longleftrightarrow> list_all2 (\<lambda>x y. sval \<rho> x = sval \<rho> y) a b"
    using assms by (auto simp: list_all2_conv_all_nth list_eq_iff_nth_eq)
  finally show ?thesis .
qed

subsection \<open>The circuits compute their functions\<close>

definition bv_denotes :: "((string \<Rightarrow> bool) \<Rightarrow> nat) \<Rightarrow> string set \<Rightarrow> nat \<Rightarrow> bv \<Rightarrow> bool" where
  "bv_denotes f X w r \<longleftrightarrow> length r = w \<and> (\<forall>\<rho>. bvv \<rho> r = f \<rho>) \<and> bv_vars r \<subseteq> X"

lemma builds_AND_of:
  "set xs \<subseteq> A \<union> {TRUE_s, FALSE_s} \<Longrightarrow> builds A (\<lambda>r. {r}) (AND_s xs)
     (denotes (\<lambda>\<rho>. \<forall>x \<in> set xs. sval \<rho> x) (\<Union>x \<in> set xs. svars x))"
  by (rule builds_weaken [OF builds_AND]) auto

lemma builds_OR_of:
  "set xs \<subseteq> A \<union> {TRUE_s, FALSE_s} \<Longrightarrow> builds A (\<lambda>r. {r}) (OR_s xs)
     (denotes (\<lambda>\<rho>. \<exists>x \<in> set xs. sval \<rho> x) (\<Union>x \<in> set xs. svars x))"
  by (rule builds_weaken [OF builds_OR]) auto

lemma builds_XOR_of:
  "{a, b} \<subseteq> A \<union> {TRUE_s, FALSE_s} \<Longrightarrow> builds A (\<lambda>r. {r}) (XOR_s a b)
     (denotes (\<lambda>\<rho>. sval \<rho> a \<noteq> sval \<rho> b) (svars a \<union> svars b))"
  by (rule builds_weaken [OF builds_XOR]) auto

lemma builds_NOT_in:
  "a \<in> A \<union> {TRUE_s, FALSE_s} \<Longrightarrow> builds A (\<lambda>r. {r}) (NOT_s a) (denotes (\<lambda>\<rho>. \<not> sval \<rho> a) (svars a))"
  by (rule builds_weaken [OF builds_NOT]) auto

lemma builds_ITE_of:
  "{c, t, e} \<subseteq> A \<union> {TRUE_s, FALSE_s} \<Longrightarrow> builds A (\<lambda>r. {r}) (ITE_s c t e)
     (denotes (\<lambda>\<rho>. if sval \<rho> c then sval \<rho> t else sval \<rho> e) (svars c \<union> svars t \<union> svars e))"
  by (rule builds_weaken [OF builds_ITE]) auto

lemmas builds_gates = builds_AND_of builds_OR_of builds_XOR_of builds_NOT_in builds_ITE_of

lemma bv_denotes_mapI:
  assumes "list_all2 (\<lambda>i. denotes (f i) (X i)) is r"
  shows "length r = length is" and "bvv \<rho> r = bits_nat (map (\<lambda>i. f i \<rho>) is)"
    and "bv_vars r \<subseteq> (\<Union>i \<in> set is. X i)"
  using assms by (induction rule: list_all2_induct) (auto simp: denotes_def)

lemma Union_singletons [simp]: "(\<Union>y \<in> set ys. {y}) = set ys"
  by simp

lemma builds_bv_var:
  "builds {} set (bv_var x w)
     (bv_denotes (\<lambda>\<rho>. bits_nat (map (\<lambda>i. \<rho> (bit_name x i)) [0..<w])) (bit_name x ` {..<w}) w)"
  unfolding bv_var_def
  by (rule builds_weaken [OF builds_alloc_map [OF builds_VAR]])
    (auto simp: bv_denotes_def bv_denotes_mapI(1,2) dest!: bv_denotes_mapI(3) set_mp)

lemma bits_nat_odd: "bits_nat (map (\<lambda>i. odd (v div 2 ^ i)) [0..<w]) = nat (v mod 2 ^ w)"
proof (induction w arbitrary: v)
  case (Suc w)
  have "map (\<lambda>i. odd (v div 2 ^ i)) [0..<Suc w] = odd v # map (\<lambda>i. odd ((v div 2) div 2 ^ i)) [0..<w]"
    by (simp add: upt_conv_Cons map_Suc_upt [symmetric] zdiv_zmult2_eq del: upt_Suc)
  moreover have "v mod (2 * 2 ^ w) = 2 * (v div 2 mod 2 ^ w) + v mod 2"
    by (rule zmod_zmult2_eq) simp
  then have "nat (v mod 2 ^ Suc w) = of_bool (odd v) + 2 * nat (v div 2 mod 2 ^ w)"
    by (auto simp: nat_add_distrib nat_mult_distrib odd_iff_mod_2_eq_one even_iff_mod_2_eq_zero)
  ultimately show ?case using Suc by simp
qed simp

lemma builds_bv_const:
  "builds {} set (bv_const v w) (bv_denotes (\<lambda>\<rho>. nat (v mod 2 ^ w)) {} w)"
  unfolding bv_const_def
  by (rule builds_weaken [OF builds_alloc_map [OF builds_CONST]])
    (auto simp: bv_denotes_def bv_denotes_mapI(1,2) bits_nat_odd dest!: bv_denotes_mapI(3))

text \<open>One full step of a ripple circuit: a sum bit below the vector of the remaining bits.\<close>

lemma ripple_step:
  fixes s r x c :: bool and rest n :: nat
  assumes "of_bool s + 2 * k = m" and "rest = k + n"
  shows "of_bool s + 2 * (rest mod 2 ^ w) = (m + 2 * n) mod (2 * 2 ^ w)"
proof -
  have "(m + 2 * n) = of_bool s + 2 * rest" using assms by simp
  then show ?thesis by (simp add: mod_mult2_eq)
qed

lemma bv_denotes_Cons:
  assumes "denotes f X s" and "bv_denotes g Y n out"
  shows "bv_denotes (\<lambda>\<rho>. of_bool (f \<rho>) + 2 * g \<rho>) (X \<union> Y) (Suc n) (s # out)"
  using assms by (auto simp: bv_denotes_def denotes_def)

lemma bv_denotes_weaken:
  "bv_denotes f X w r \<Longrightarrow> (\<And>\<rho>. f \<rho> = g \<rho>) \<Longrightarrow> X \<subseteq> Y \<Longrightarrow> bv_denotes g Y w r"
  by (auto simp: bv_denotes_def)

lemma denotes_weaken: "denotes f X r \<Longrightarrow> (\<And>\<rho>. f \<rho> = g \<rho>) \<Longrightarrow> X \<subseteq> Y \<Longrightarrow> denotes g Y r"
  by (auto simp: denotes_def)

lemma builds_bv_weaken:
  "builds A set m (bv_denotes f X w) \<Longrightarrow> (\<And>\<rho>. f \<rho> = g \<rho>) \<Longrightarrow> X \<subseteq> Y \<Longrightarrow> builds A set m (bv_denotes g Y w)"
  by (erule builds_weaken) (auto intro: bv_denotes_weaken)

lemma builds_sig_weaken:
  "builds A (\<lambda>r. {r}) m (denotes f X) \<Longrightarrow> A \<subseteq> B \<union> {TRUE_s, FALSE_s} \<Longrightarrow> (\<And>\<rho>. f \<rho> = g \<rho>) \<Longrightarrow> X \<subseteq> Y \<Longrightarrow>
   builds B (\<lambda>r. {r}) m (denotes g Y)"
  by (erule builds_weaken) (auto intro: denotes_weaken)

lemma builds_inc_bits:
  "insert c (set bs) \<subseteq> A \<union> {TRUE_s, FALSE_s} \<Longrightarrow>
   builds A set (inc_bits c bs)
     (bv_denotes (\<lambda>\<rho>. (bvv \<rho> bs + of_bool (sval \<rho> c)) mod 2 ^ length bs) (bv_vars bs \<union> svars c) (length bs))"
proof (induction bs arbitrary: c A)
  case Nil
  then show ?case by (auto simp: bv_denotes_def intro!: builds_return)
next
  case (Cons b bs)
  have 1: "builds A (\<lambda>r. {r}) (XOR_s b c) (denotes (\<lambda>\<rho>. sval \<rho> b \<noteq> sval \<rho> c) (svars b \<union> svars c))"
    by (rule builds_XOR_of) (use Cons.prems in simp)
  have 2: "builds (A \<union> {s}) (\<lambda>r. {r}) (AND_s [b, c])
      (denotes (\<lambda>\<rho>. \<forall>x \<in> set [b, c]. sval \<rho> x) (\<Union>x \<in> set [b, c]. svars x))" for s
    by (rule builds_AND_of) (use Cons.prems in auto)
  have 3: "builds (A \<union> {s} \<union> {c'}) set (inc_bits c' bs)
      (bv_denotes (\<lambda>\<rho>. (bvv \<rho> bs + of_bool (sval \<rho> c')) mod 2 ^ length bs) (bv_vars bs \<union> svars c') (length bs))"
    for s c' by (rule Cons.IH) (use Cons.prems in auto)
  have 4: "builds (A \<union> {s} \<union> {c'} \<union> set out) set (State_Monad.return (s # out))
      (bv_denotes (\<lambda>\<rho>. (bvv \<rho> (b # bs) + of_bool (sval \<rho> c)) mod 2 ^ length (b # bs))
        (bv_vars (b # bs) \<union> svars c) (length (b # bs)))"
    if s: "denotes (\<lambda>\<rho>. sval \<rho> b \<noteq> sval \<rho> c) (svars b \<union> svars c) s"
      and c': "denotes (\<lambda>\<rho>. \<forall>x \<in> set [b, c]. sval \<rho> x) (\<Union>x \<in> set [b, c]. svars x) c'"
      and out: "bv_denotes (\<lambda>\<rho>. (bvv \<rho> bs + of_bool (sval \<rho> c')) mod 2 ^ length bs)
        (bv_vars bs \<union> svars c') (length bs) out" for s c' out
  proof (rule builds_return)
    have "of_bool (sval \<rho> b \<noteq> sval \<rho> c) + 2 * ((bvv \<rho> bs + of_bool (sval \<rho> c')) mod 2 ^ length bs)
        = (of_bool (sval \<rho> b) + of_bool (sval \<rho> c) + 2 * bvv \<rho> bs) mod (2 * 2 ^ length bs)" for \<rho>
      by (rule ripple_step [where k = "of_bool (sval \<rho> c')"]) (use c' in \<open>auto simp: denotes_def\<close>)
    then show "bv_denotes (\<lambda>\<rho>. (bvv \<rho> (b # bs) + of_bool (sval \<rho> c)) mod 2 ^ length (b # bs))
        (bv_vars (b # bs) \<union> svars c) (length (b # bs)) (s # out)"
      using bv_denotes_Cons [OF s out] c'
      by (auto simp: denotes_def add_ac intro: bv_denotes_weaken)
  qed auto
  show ?case unfolding inc_bits.simps
    by (rule builds_bind [OF 1 builds_bind [OF 2 builds_bind [OF 3 4]]])
qed

lemma builds_bv_inc:
  "set a \<subseteq> A \<union> {TRUE_s, FALSE_s} \<Longrightarrow>
   builds A set (bv_inc a) (bv_denotes (\<lambda>\<rho>. (bvv \<rho> a + 1) mod 2 ^ length a) (bv_vars a) (length a))"
  unfolding bv_inc_def
  by (rule builds_weaken [OF builds_inc_bits]) (auto simp: bv_denotes_def)

lemma builds_dec_bits:
  "insert c (set bs) \<subseteq> A \<union> {TRUE_s, FALSE_s} \<Longrightarrow>
   builds A set (dec_bits c bs)
     (bv_denotes (\<lambda>\<rho>. (bvv \<rho> bs + of_bool (sval \<rho> c) * (2 ^ length bs - 1)) mod 2 ^ length bs)
        (bv_vars bs \<union> svars c) (length bs))"
proof (induction bs arbitrary: c A)
  case Nil
  then show ?case by (auto simp: bv_denotes_def intro!: builds_return)
next
  case (Cons b bs)
  have 1: "builds A (\<lambda>r. {r}) (XOR_s b c) (denotes (\<lambda>\<rho>. sval \<rho> b \<noteq> sval \<rho> c) (svars b \<union> svars c))"
    by (rule builds_XOR_of) (use Cons.prems in simp)
  have 2: "builds (A \<union> {s}) (\<lambda>r. {r}) (NOT_s b) (denotes (\<lambda>\<rho>. \<not> sval \<rho> b) (svars b))" for s
    by (rule builds_NOT_in) (use Cons.prems in auto)
  have 3: "builds (A \<union> {s} \<union> {nb}) (\<lambda>r. {r}) (AND_s [nb, c])
      (denotes (\<lambda>\<rho>. \<forall>x \<in> set [nb, c]. sval \<rho> x) (\<Union>x \<in> set [nb, c]. svars x))" for s nb
    by (rule builds_AND_of) (use Cons.prems in auto)
  have 4: "builds (A \<union> {s} \<union> {nb} \<union> {c'}) set (dec_bits c' bs)
      (bv_denotes (\<lambda>\<rho>. (bvv \<rho> bs + of_bool (sval \<rho> c') * (2 ^ length bs - 1)) mod 2 ^ length bs)
        (bv_vars bs \<union> svars c') (length bs))"
    for s nb c' by (rule Cons.IH) (use Cons.prems in auto)
  have 5: "builds (A \<union> {s} \<union> {nb} \<union> {c'} \<union> set out) set (State_Monad.return (s # out))
      (bv_denotes (\<lambda>\<rho>. (bvv \<rho> (b # bs) + of_bool (sval \<rho> c) * (2 ^ length (b # bs) - 1)) mod 2 ^ length (b # bs))
        (bv_vars (b # bs) \<union> svars c) (length (b # bs)))"
    if s: "denotes (\<lambda>\<rho>. sval \<rho> b \<noteq> sval \<rho> c) (svars b \<union> svars c) s"
      and nb: "denotes (\<lambda>\<rho>. \<not> sval \<rho> b) (svars b) nb"
      and c': "denotes (\<lambda>\<rho>. \<forall>x \<in> set [nb, c]. sval \<rho> x) (\<Union>x \<in> set [nb, c]. svars x) c'"
      and out: "bv_denotes (\<lambda>\<rho>. (bvv \<rho> bs + of_bool (sval \<rho> c') * (2 ^ length bs - 1)) mod 2 ^ length bs)
        (bv_vars bs \<union> svars c') (length bs) out" for s nb c' out
  proof (rule builds_return)
    have c'_val: "sval \<rho> c' \<longleftrightarrow> \<not> sval \<rho> b \<and> sval \<rho> c" for \<rho>
      using c' nb by (simp add: denotes_def)
    have eq: "of_bool (sval \<rho> b \<noteq> sval \<rho> c)
          + 2 * ((bvv \<rho> bs + of_bool (sval \<rho> c') * (2 ^ length bs - 1)) mod 2 ^ length bs)
        = (bvv \<rho> (b # bs) + of_bool (sval \<rho> c) * (2 ^ length (b # bs) - 1)) mod 2 ^ length (b # bs)" for \<rho>
    proof -
      have "of_bool (sval \<rho> b \<noteq> sval \<rho> c) + 2 * ((bvv \<rho> bs + of_bool (sval \<rho> c') * (2 ^ length bs - 1)) mod 2 ^ length bs)
        = (of_bool (sval \<rho> b \<noteq> sval \<rho> c) + 2 * (bvv \<rho> bs + of_bool (sval \<rho> c') * (2 ^ length bs - 1))) mod (2 * 2 ^ length bs)"
        by (simp add: mod_mult2_eq)
      also have "\<dots> = (bvv \<rho> (b # bs) + of_bool (sval \<rho> c) * (2 ^ length (b # bs) - 1)) mod (2 * 2 ^ length bs)"
      proof (cases "sval \<rho> b \<and> sval \<rho> c")
        case True
        have "1 + 2 * bvv \<rho> bs + (2 * 2 ^ length bs - 1) = 2 * bvv \<rho> bs + 2 * 2 ^ length bs"
          by (simp add: Suc_le_eq)
        with True show ?thesis by (simp add: c'_val)
      next
        case False
        have "Suc (2 * bvv \<rho> bs + 2 * (2 ^ length bs - Suc 0)) = 2 * bvv \<rho> bs + 2 * 2 ^ length bs - Suc 0"
          using one_le_power [of "2::nat" "length bs"] by linarith
        with False show ?thesis by (auto simp: c'_val distrib_left)
      qed
      finally show ?thesis by simp
    qed
    have "svars c' \<subseteq> svars b \<union> svars c" using c' nb by (auto simp: denotes_def)
    then have X: "(svars b \<union> svars c) \<union> (bv_vars bs \<union> svars c') \<subseteq> bv_vars (b # bs) \<union> svars c" by auto
    show "bv_denotes (\<lambda>\<rho>. (bvv \<rho> (b # bs) + of_bool (sval \<rho> c) * (2 ^ length (b # bs) - 1)) mod 2 ^ length (b # bs))
        (bv_vars (b # bs) \<union> svars c) (length (b # bs)) (s # out)"
      using bv_denotes_weaken [OF bv_denotes_Cons [OF s out] eq X] by simp
  qed auto
  show ?case unfolding dec_bits.simps
    by (rule builds_bind [OF 1 builds_bind [OF 2 builds_bind [OF 3 builds_bind [OF 4 5]]]])
qed

lemma builds_bv_dec:
  "set a \<subseteq> A \<union> {TRUE_s, FALSE_s} \<Longrightarrow>
   builds A set (bv_dec a)
     (bv_denotes (\<lambda>\<rho>. (bvv \<rho> a + (2 ^ length a - 1)) mod 2 ^ length a) (bv_vars a) (length a))"
  unfolding bv_dec_def
  by (rule builds_weaken [OF builds_dec_bits]) (auto simp: bv_denotes_def)

lemma builds_add_bits:
  "insert c (set (map fst xys) \<union> set (map snd xys)) \<subseteq> A \<union> {TRUE_s, FALSE_s} \<Longrightarrow>
   builds A set (add_bits c xys)
     (bv_denotes (\<lambda>\<rho>. (bvv \<rho> (map fst xys) + bvv \<rho> (map snd xys) + of_bool (sval \<rho> c)) mod 2 ^ length xys)
        (bv_vars (map fst xys) \<union> bv_vars (map snd xys) \<union> svars c) (length xys))"
proof (induction xys arbitrary: c A)
  case Nil
  then show ?case by (auto simp: bv_denotes_def intro!: builds_return)
next
  case (Cons xy xys)
  obtain x y where xy: "xy = (x, y)" by (cases xy)
  let ?xor = "denotes (\<lambda>\<rho>. sval \<rho> x \<noteq> sval \<rho> y) (svars x \<union> svars y)"
  have 1: "builds B (\<lambda>r. {r}) (XOR_s x y) ?xor" if "A \<subseteq> B" for B
    by (rule builds_XOR_of) (use Cons.prems xy that in auto)
  have 2: "builds (A \<union> {p}) (\<lambda>r. {r}) (XOR_s p c) (denotes (\<lambda>\<rho>. sval \<rho> p \<noteq> sval \<rho> c) (svars p \<union> svars c))" for p
    by (rule builds_XOR_of) (use Cons.prems in auto)
  have 3: "builds (A \<union> {p} \<union> {s}) (\<lambda>r. {r}) (AND_s [x, y])
      (denotes (\<lambda>\<rho>. \<forall>z \<in> set [x, y]. sval \<rho> z) (\<Union>z \<in> set [x, y]. svars z))" for p s
    by (rule builds_AND_of) (use Cons.prems xy in auto)
  have 4: "builds (A \<union> {p} \<union> {s} \<union> {g} \<union> {q}) (\<lambda>r. {r}) (AND_s [c, q])
      (denotes (\<lambda>\<rho>. \<forall>z \<in> set [c, q]. sval \<rho> z) (\<Union>z \<in> set [c, q]. svars z))" for p s g q
    by (rule builds_AND_of) (use Cons.prems xy in auto)
  have 5: "builds (A \<union> {p} \<union> {s} \<union> {g} \<union> {q} \<union> {r}) (\<lambda>r. {r}) (OR_s [g, r])
      (denotes (\<lambda>\<rho>. \<exists>z \<in> set [g, r]. sval \<rho> z) (\<Union>z \<in> set [g, r]. svars z))" for p s g q r
    by (rule builds_OR_of) auto
  have 6: "builds (A \<union> {p} \<union> {s} \<union> {g} \<union> {q} \<union> {r} \<union> {c'}) set (add_bits c' xys)
     (bv_denotes (\<lambda>\<rho>. (bvv \<rho> (map fst xys) + bvv \<rho> (map snd xys) + of_bool (sval \<rho> c')) mod 2 ^ length xys)
        (bv_vars (map fst xys) \<union> bv_vars (map snd xys) \<union> svars c') (length xys))" for p s g q r c'
    by (rule Cons.IH) (use Cons.prems in auto)
  have 7: "builds (A \<union> {p} \<union> {s} \<union> {g} \<union> {q} \<union> {r} \<union> {c'} \<union> set out) set (State_Monad.return (s # out))
     (bv_denotes (\<lambda>\<rho>. (bvv \<rho> (map fst (xy # xys)) + bvv \<rho> (map snd (xy # xys)) + of_bool (sval \<rho> c))
          mod 2 ^ length (xy # xys))
        (bv_vars (map fst (xy # xys)) \<union> bv_vars (map snd (xy # xys)) \<union> svars c) (length (xy # xys)))"
    if p: "?xor p" and s: "denotes (\<lambda>\<rho>. sval \<rho> p \<noteq> sval \<rho> c) (svars p \<union> svars c) s"
      and g: "denotes (\<lambda>\<rho>. \<forall>z \<in> set [x, y]. sval \<rho> z) (\<Union>z \<in> set [x, y]. svars z) g"
      and q: "?xor q" and r: "denotes (\<lambda>\<rho>. \<forall>z \<in> set [c, q]. sval \<rho> z) (\<Union>z \<in> set [c, q]. svars z) r"
      and c': "denotes (\<lambda>\<rho>. \<exists>z \<in> set [g, r]. sval \<rho> z) (\<Union>z \<in> set [g, r]. svars z) c'"
      and out: "bv_denotes (\<lambda>\<rho>. (bvv \<rho> (map fst xys) + bvv \<rho> (map snd xys) + of_bool (sval \<rho> c')) mod 2 ^ length xys)
        (bv_vars (map fst xys) \<union> bv_vars (map snd xys) \<union> svars c') (length xys) out" for p s g q r c' out
  proof (rule builds_return)
    have c'_val: "sval \<rho> c' \<longleftrightarrow> sval \<rho> x \<and> sval \<rho> y \<or> sval \<rho> c \<and> (sval \<rho> x \<noteq> sval \<rho> y)" for \<rho>
      using c' g r q by (auto simp: denotes_def)
    have s_val: "sval \<rho> s \<longleftrightarrow> ((sval \<rho> x \<noteq> sval \<rho> y) \<noteq> sval \<rho> c)" for \<rho>
      using s p by (auto simp: denotes_def)
    have X: "svars s \<subseteq> svars x \<union> svars y \<union> svars c" "svars c' \<subseteq> svars x \<union> svars y \<union> svars c"
      using s p g q r c' by (force simp: denotes_def)+
    have s': "denotes (\<lambda>\<rho>. sval \<rho> s) (svars x \<union> svars y \<union> svars c) s"
      using X by (simp add: denotes_def)
    have "of_bool (sval \<rho> s) + 2 * ((bvv \<rho> (map fst xys) + bvv \<rho> (map snd xys) + of_bool (sval \<rho> c')) mod 2 ^ length xys)
        = ((of_bool (sval \<rho> x) + of_bool (sval \<rho> y) + of_bool (sval \<rho> c))
            + 2 * (bvv \<rho> (map fst xys) + bvv \<rho> (map snd xys))) mod (2 * 2 ^ length xys)" for \<rho>
      by (rule ripple_step [where k = "of_bool (sval \<rho> c')"]) (auto simp: c'_val s_val)
    then show "bv_denotes (\<lambda>\<rho>. (bvv \<rho> (map fst (xy # xys)) + bvv \<rho> (map snd (xy # xys)) + of_bool (sval \<rho> c))
          mod 2 ^ length (xy # xys))
        (bv_vars (map fst (xy # xys)) \<union> bv_vars (map snd (xy # xys)) \<union> svars c) (length (xy # xys)) (s # out)"
      using bv_denotes_Cons [OF s' out] X xy
      by (auto simp: distrib_left add_ac intro: bv_denotes_weaken)
  qed auto
  show ?case unfolding add_bits.simps xy
    by (rule builds_bind [OF 1 [OF order_refl] builds_bind [OF 2 builds_bind [OF 3 builds_bind [OF 1
         builds_bind [OF 4 builds_bind [OF 5 builds_bind [OF 6 7 [unfolded xy]]]]]]]]) blast
qed

lemma builds_bv_add:
  assumes "set a \<union> set b \<subseteq> A \<union> {TRUE_s, FALSE_s}"
  shows "builds A set (bv_add a b width)
     (bv_denotes (\<lambda>\<rho>. (bvv \<rho> a + bvv \<rho> b) mod 2 ^ the_width width a b)
        (bv_vars a \<union> bv_vars b) (the_width width a b))"
proof -
  let ?w = "the_width width a b"
  let ?z = "zip (take ?w (pad a ?w)) (take ?w (pad b ?w))"
  have fst: "map fst ?z = take ?w (pad a ?w)" and snd: "map snd ?z = take ?w (pad b ?w)"
    by (simp_all add: min_def)
  have sub: "set (take n (pad a m)) \<subseteq> A \<union> {TRUE_s, FALSE_s}" "set (take n (pad b m)) \<subseteq> A \<union> {TRUE_s, FALSE_s}" for n m
    using assms set_pad [of a m] set_pad [of b m] set_take_subset [of n "pad a m"] set_take_subset [of n "pad b m"]
    by blast+
  have vars: "bv_vars (take n (pad c m)) \<subseteq> bv_vars c" for n m c
    using bv_vars_mono [OF set_take_subset [of n "pad c m"]] by simp
  have b: "builds A set (add_bits FALSE_s ?z)
     (bv_denotes (\<lambda>\<rho>. (bvv \<rho> (map fst ?z) + bvv \<rho> (map snd ?z) + of_bool (sval \<rho> FALSE_s)) mod 2 ^ length ?z)
        (bv_vars (map fst ?z) \<union> bv_vars (map snd ?z) \<union> svars FALSE_s) (length ?z))"
    by (rule builds_add_bits, unfold fst snd) (use sub in auto)
  have len: "length ?z = ?w" by simp
  have val: "(bvv \<rho> (map fst ?z) + bvv \<rho> (map snd ?z) + of_bool (sval \<rho> FALSE_s)) mod 2 ^ length ?z
      = (bvv \<rho> a + bvv \<rho> b) mod 2 ^ ?w" for \<rho>
    unfolding fst snd len by (simp add: bvv_take mod_add_eq)
  have X: "bv_vars (map fst ?z) \<union> bv_vars (map snd ?z) \<union> svars FALSE_s \<subseteq> bv_vars a \<union> bv_vars b"
    unfolding fst snd using vars [of ?w a ?w] vars [of ?w b ?w] by auto
  from builds_bv_weaken [OF b [unfolded len] val [unfolded len] X]
  show ?thesis unfolding bv_add_def Let_def .
qed

lemma builds_mul_rows:
  assumes "set a \<union> set bs \<union> set acc \<subseteq> A \<union> {TRUE_s, FALSE_s}" "i + length bs \<le> w" "length acc = w"
  shows "builds A set (mul_rows a w i bs acc)
     (bv_denotes (\<lambda>\<rho>. (bvv \<rho> acc + 2 ^ i * (bvv \<rho> a * bvv \<rho> bs)) mod 2 ^ w)
        (bv_vars a \<union> bv_vars bs \<union> bv_vars acc) w)"
  using assms
proof (induction bs arbitrary: i acc A)
  case Nil
  then show ?case
    using bvv_less by (auto simp: bv_denotes_def intro!: builds_return)
next
  case (Cons b bs)
  then have w: "0 < w" "i < w" by auto
  let ?and = "\<lambda>x. denotes (\<lambda>\<rho>. \<forall>z \<in> set [b, x]. sval \<rho> z) (\<Union>z \<in> set [b, x]. svars z)"
  have 1: "builds A set (alloc_map (\<lambda>x. AND_s [b, x]) (take (w - i) a)) (list_all2 ?and (take (w - i) a))"
  proof (rule builds_weaken [OF builds_alloc_map])
    show "builds A (\<lambda>r. {r}) (AND_s [b, x]) (?and x)" if "x \<in> set (take (w - i) a)" for x
      by (rule builds_AND_of) (use Cons.prems(1) set_mp [OF set_take_subset that] in auto)
  qed auto
  let ?Q = "\<lambda>row. bv_denotes (\<lambda>\<rho>. (bvv \<rho> acc + bvv \<rho> (replicate i FALSE_s @ row)) mod 2 ^ w)
       (bv_vars acc \<union> bv_vars (replicate i FALSE_s @ row)) w"
  have tw: "the_width (Some w) x y = w" for x y
    using w by (cases w) (auto simp: the_width_def)
  have 2: "builds (A \<union> set row) set (bv_add acc (replicate i FALSE_s @ row) (Some w)) (?Q row)" for row
  proof -
    have "set acc \<union> set (replicate i FALSE_s @ row) \<subseteq> (A \<union> set row) \<union> {TRUE_s, FALSE_s}"
      using Cons.prems(1) by auto
    from builds_bv_add [OF this, of "Some w", unfolded tw] show ?thesis .
  qed
  have 3: "builds (A \<union> set row \<union> set acc') set (mul_rows a w (Suc i) bs acc')
     (bv_denotes (\<lambda>\<rho>. (bvv \<rho> acc + 2 ^ i * (bvv \<rho> a * bvv \<rho> (b # bs))) mod 2 ^ w)
        (bv_vars a \<union> bv_vars (b # bs) \<union> bv_vars acc) w)"
    if row: "list_all2 ?and (take (w - i) a) row" and acc': "?Q row acc'" for row acc'
  proof -
    have len: "length acc' = w" using acc' by (simp add: bv_denotes_def)
    have rv: "bvv \<rho> row = of_bool (sval \<rho> b) * (bvv \<rho> a mod 2 ^ (w - i))" for \<rho>
      unfolding bvv_take [symmetric] using row
      by (induction rule: list_all2_induct) (auto simp: denotes_def)
    have rX: "bv_vars row \<subseteq> svars b \<union> bv_vars a"
    proof -
      have "bv_vars row \<subseteq> svars b \<union> bv_vars (take (w - i) a)"
        using row by (induction rule: list_all2_induct) (auto simp: denotes_def)
      also have "\<dots> \<subseteq> svars b \<union> bv_vars a"
        using bv_vars_mono [OF set_take_subset] by blast
      finally show ?thesis .
    qed
    have X: "bv_vars acc' \<subseteq> bv_vars acc \<union> svars b \<union> bv_vars a"
      using acc' rX by (auto simp: bv_denotes_def)
    have pw: "(2::nat) ^ w = 2 ^ i * 2 ^ (w - i)"
      using w by (simp add: power_add [symmetric])
    have "bvv \<rho> acc' = (bvv \<rho> acc + 2 ^ i * (of_bool (sval \<rho> b) * bvv \<rho> a)) mod 2 ^ w" for \<rho>
    proof -
      have m: "2 ^ i * (bvv \<rho> a mod 2 ^ (w - i)) = (2 ^ i * bvv \<rho> a) mod 2 ^ w"
        unfolding pw by (rule mult_mod_right)
      have "bvv \<rho> acc' = (bvv \<rho> acc + 2 ^ i * bvv \<rho> row) mod 2 ^ w"
        using acc' by (simp add: bv_denotes_def bvv_append)
      then show ?thesis by (cases "sval \<rho> b") (simp_all add: rv m mod_add_right_eq)
    qed
    then have v: "(bvv \<rho> acc' + 2 ^ Suc i * (bvv \<rho> a * bvv \<rho> bs)) mod 2 ^ w
        = (bvv \<rho> acc + 2 ^ i * (bvv \<rho> a * bvv \<rho> (b # bs))) mod 2 ^ w" for \<rho>
      by (simp only: mod_add_left_eq) (simp add: algebra_simps)
    have IH: "builds (A \<union> set row \<union> set acc') set (mul_rows a w (Suc i) bs acc')
       (bv_denotes (\<lambda>\<rho>. (bvv \<rho> acc' + 2 ^ Suc i * (bvv \<rho> a * bvv \<rho> bs)) mod 2 ^ w)
          (bv_vars a \<union> bv_vars bs \<union> bv_vars acc') w)"
      by (rule Cons.IH) (use Cons.prems len in auto)
    have "bv_vars a \<union> bv_vars bs \<union> bv_vars acc' \<subseteq> bv_vars a \<union> bv_vars (b # bs) \<union> bv_vars acc"
      using X by auto
    from builds_bv_weaken [OF IH v this] show ?thesis .
  qed
  show ?case unfolding mul_rows.simps
    by (rule builds_bind [OF 1 builds_bind [OF 2 3]])
qed

lemma builds_bv_mul:
  assumes "set a \<union> set b \<subseteq> A \<union> {TRUE_s, FALSE_s}"
  shows "builds A set (bv_mul a b width)
     (bv_denotes (\<lambda>\<rho>. (bvv \<rho> a * bvv \<rho> b) mod 2 ^ the_width width a b)
        (bv_vars a \<union> bv_vars b) (the_width width a b))"
proof -
  let ?w = "the_width width a b"
  have m: "builds A set (mul_rows a ?w 0 (take ?w b) (replicate ?w FALSE_s))
     (bv_denotes (\<lambda>\<rho>. (bvv \<rho> (replicate ?w FALSE_s) + 2 ^ 0 * (bvv \<rho> a * bvv \<rho> (take ?w b))) mod 2 ^ ?w)
        (bv_vars a \<union> bv_vars (take ?w b) \<union> bv_vars (replicate ?w FALSE_s)) ?w)"
    by (rule builds_mul_rows) (use assms set_take_subset [of ?w b] in auto)
  have v: "(bvv \<rho> (replicate ?w FALSE_s) + 2 ^ 0 * (bvv \<rho> a * bvv \<rho> (take ?w b))) mod 2 ^ ?w
     = (bvv \<rho> a * bvv \<rho> b) mod 2 ^ ?w" for \<rho>
    by (simp add: bvv_take mod_mult_right_eq)
  have X: "bv_vars a \<union> bv_vars (take ?w b) \<union> bv_vars (replicate ?w FALSE_s) \<subseteq> bv_vars a \<union> bv_vars b"
    using bv_vars_mono [OF set_take_subset] by auto
  from builds_bv_weaken [OF m v X] show ?thesis unfolding bv_mul_def Let_def .
qed

lemma bvv_complement:
  assumes "list_all2 (\<lambda>x. denotes (\<lambda>\<rho>. \<not> sval \<rho> x) (svars x)) xs ys"
  shows "length ys = length xs" and "bvv \<rho> ys + bvv \<rho> xs + 1 = 2 ^ length xs" and "bv_vars ys \<subseteq> bv_vars xs"
proof -
  have "length ys = length xs \<and> bvv \<rho> ys + bvv \<rho> xs + 1 = 2 ^ length xs \<and> bv_vars ys \<subseteq> bv_vars xs"
    using assms
  proof (induction rule: list_all2_induct)
    case (Cons x xs y ys)
    have "of_bool (sval \<rho> y) + of_bool (sval \<rho> x) = (1::nat)" and "svars y \<subseteq> svars x"
      using Cons.hyps(1) by (auto simp: denotes_def)
    then show ?case using Cons.IH by auto
  qed simp
  then show "length ys = length xs" and "bvv \<rho> ys + bvv \<rho> xs + 1 = 2 ^ length xs" and "bv_vars ys \<subseteq> bv_vars xs"
    by auto
qed

lemma complement_plus_one:
  fixes a b n m :: nat
  assumes "n + b mod m + 1 = m"
  shows "int ((a + (n + 1) mod m) mod m) = (int a - int b) mod int m"
proof -
  have "int n + int b mod int m + 1 = int m" using assms by (simp flip: zmod_int)
  then have n: "int n = int m - 1 - int b mod int m" by simp
  have "int ((a + (n + 1) mod m) mod m) = (int a + (int m - int b mod int m)) mod int m"
    by (simp add: zmod_int mod_add_right_eq n)
  also have "\<dots> = (int a - int b mod int m + int m) mod int m" by (simp add: algebra_simps)
  also have "\<dots> = (int a - int b) mod int m" by (simp add: mod_diff_right_eq)
  finally show ?thesis .
qed

definition sub_val :: "nat \<Rightarrow> nat \<Rightarrow> nat \<Rightarrow> nat" where
  "sub_val w a b = nat ((int a - int b) mod 2 ^ w)"

lemma builds_bv_sub:
  assumes "set a \<union> set b \<subseteq> A \<union> {TRUE_s, FALSE_s}"
  shows "builds A set (bv_sub a b width)
     (bv_denotes (\<lambda>\<rho>. sub_val (the_width width a b) (bvv \<rho> a) (bvv \<rho> b))
        (bv_vars a \<union> bv_vars b) (the_width width a b))"
proof -
  let ?w = "the_width width a b"
  let ?b = "take ?w (pad b ?w)"
  let ?not = "\<lambda>x. denotes (\<lambda>\<rho>. \<not> sval \<rho> x) (svars x)"
  have len: "length ?b = ?w" by simp
  have sub: "set ?b \<subseteq> A \<union> {TRUE_s, FALSE_s}"
    using assms set_pad [of b ?w] set_take_subset [of ?w "pad b ?w"] by blast
  have X: "bv_vars ?b \<subseteq> bv_vars b"
    using bv_vars_mono [OF set_take_subset [of ?w "pad b ?w"]] by simp
  have 1: "builds A set (alloc_map NOT_s ?b) (list_all2 ?not ?b)"
  proof (rule builds_weaken [OF builds_alloc_map])
    show "builds A (\<lambda>r. {r}) (NOT_s x) (?not x)" if "x \<in> set ?b" for x
      by (rule builds_NOT_in) (use sub that in blast)
  qed auto
  have 2: "builds (A \<union> set nb) set (bv_inc nb)
      (bv_denotes (\<lambda>\<rho>. (bvv \<rho> nb + 1) mod 2 ^ length nb) (bv_vars nb) (length nb))" for nb
    by (rule builds_bv_inc) auto
  have 3: "builds (A \<union> set nb \<union> set neg) set (bv_add a neg (Some ?w))
      (bv_denotes (\<lambda>\<rho>. sub_val ?w (bvv \<rho> a) (bvv \<rho> b)) (bv_vars a \<union> bv_vars b) ?w)"
    if nb: "list_all2 ?not ?b nb"
      and neg: "bv_denotes (\<lambda>\<rho>. (bvv \<rho> nb + 1) mod 2 ^ length nb) (bv_vars nb) (length nb) neg" for nb neg
  proof -
    have neg_len: "length neg = ?w" and neg_v: "bvv \<rho> neg = (bvv \<rho> nb + 1) mod 2 ^ ?w"
      and neg_X: "bv_vars neg \<subseteq> bv_vars b" for \<rho>
      using neg bvv_complement(1,3) [OF nb] X len unfolding bv_denotes_def by (simp, simp, blast)
    have "set a \<union> set neg \<subseteq> (A \<union> set nb \<union> set neg) \<union> {TRUE_s, FALSE_s}" using assms by auto
    from builds_bv_add [OF this, of "Some ?w"]
    have add: "builds (A \<union> set nb \<union> set neg) set (bv_add a neg (Some ?w))
       (bv_denotes (\<lambda>\<rho>. (bvv \<rho> a + bvv \<rho> neg) mod 2 ^ the_width (Some ?w) a neg)
         (bv_vars a \<union> bv_vars neg) (the_width (Some ?w) a neg))" .
    have tw: "the_width (Some ?w) a neg = ?w"
    proof (cases ?w)
      case 0
      then show ?thesis using neg_len by (auto simp: the_width_def split: option.splits nat.splits)
    qed (simp add: the_width_def)
    have "bvv \<rho> nb + bvv \<rho> b mod 2 ^ ?w + 1 = 2 ^ ?w" for \<rho>
      using bvv_complement(2) [OF nb, of \<rho>] len by (simp add: bvv_take)
    from complement_plus_one [OF this] have v: "(bvv \<rho> a + bvv \<rho> neg) mod 2 ^ ?w = sub_val ?w (bvv \<rho> a) (bvv \<rho> b)" for \<rho>
      by (simp add: sub_val_def neg_v nat_eq_iff2 del: of_nat_mod)
    have "bv_vars a \<union> bv_vars neg \<subseteq> bv_vars a \<union> bv_vars b" using neg_X by auto
    from builds_bv_weaken [OF add [unfolded tw] v this] show ?thesis .
  qed
  show ?thesis unfolding bv_sub_def Let_def
    by (rule builds_bind [OF 1 builds_bind [OF 2 3]])
qed

lemma builds_bv_eq:
  assumes "set a \<union> set b \<subseteq> A \<union> {TRUE_s, FALSE_s}"
  shows "builds A (\<lambda>r. {r}) (bv_eq a b) (denotes (\<lambda>\<rho>. bvv \<rho> a = bvv \<rho> b) (bv_vars a \<union> bv_vars b))"
proof -
  let ?w = "max (length a) (length b)"
  let ?z = "zip (pad a ?w) (pad b ?w)"
  let ?eq = "\<lambda>(x, y). denotes (\<lambda>\<rho>. sval \<rho> x = sval \<rho> y) (svars x \<union> svars y)"
  have sub: "{x, y} \<subseteq> A \<union> {TRUE_s, FALSE_s}" if "(x, y) \<in> set ?z" for x y
    using assms set_pad [of a ?w] set_pad [of b ?w] set_zip_leftD [OF that] set_zip_rightD [OF that] by auto
  have 1: "builds A set (alloc_map (\<lambda>(x, y). XNOR_s x y) ?z) (list_all2 ?eq ?z)"
  proof (rule builds_weaken [OF builds_alloc_map])
    show "builds A (\<lambda>r. {r}) (case p of (x, y) \<Rightarrow> XNOR_s x y) (?eq p)" if "p \<in> set ?z" for p
      using sub that by (cases p) (auto intro!: builds_weaken [OF builds_XNOR])
  qed auto
  have 2: "builds (A \<union> set xs) (\<lambda>r. {r}) (AND_s xs) (denotes (\<lambda>\<rho>. bvv \<rho> a = bvv \<rho> b) (bv_vars a \<union> bv_vars b))"
    if xs: "list_all2 ?eq ?z xs" for xs
  proof -
    have l: "length (pad a ?w) = length (pad b ?w)" by simp
    have v: "(\<forall>x \<in> set xs. sval \<rho> x) \<longleftrightarrow> bvv \<rho> a = bvv \<rho> b" for \<rho>
    proof -
      have "(\<forall>x \<in> set xs. sval \<rho> x) \<longleftrightarrow> (\<forall>(x, y) \<in> set ?z. sval \<rho> x = sval \<rho> y)"
        using xs by (induction rule: list_all2_induct) (auto simp: denotes_def)
      also have "\<dots> \<longleftrightarrow> bvv \<rho> (pad a ?w) = bvv \<rho> (pad b ?w)"
        by (simp only: bvv_eq_iff [OF l] list_all2_iff l) simp
      finally show ?thesis by simp
    qed
    have X: "(\<Union>x \<in> set xs. svars x) \<subseteq> (\<Union>(x, y) \<in> set ?z. svars x \<union> svars y)"
      using xs by (induction rule: list_all2_induct) (auto simp: denotes_def)
    also have "\<dots> \<subseteq> bv_vars (pad a ?w) \<union> bv_vars (pad b ?w)"
      by (auto simp: bv_vars_def dest: set_zip_leftD set_zip_rightD)
    finally have X: "(\<Union>x \<in> set xs. svars x) \<subseteq> bv_vars a \<union> bv_vars b" by simp
    show ?thesis by (rule builds_sig_weaken [OF builds_AND _ v X]) auto
  qed
  show ?thesis unfolding bv_eq_def Let_def by (rule builds_bind [OF 1 2])
qed

lemma builds_bv_eq_const:
  assumes "set a \<subseteq> A \<union> {TRUE_s, FALSE_s}"
  shows "builds A (\<lambda>r. {r}) (bv_eq_const a k)
    (denotes (\<lambda>\<rho>. int (bvv \<rho> a) = k mod 2 ^ length a) (bv_vars a))"
proof -
  have 1: "builds A set (bv_const k (length a)) (bv_denotes (\<lambda>\<rho>. nat (k mod 2 ^ length a)) {} (length a))"
    by (rule builds_weaken [OF builds_bv_const]) auto
  have 2: "builds (A \<union> set c) (\<lambda>r. {r}) (bv_eq a c) (denotes (\<lambda>\<rho>. int (bvv \<rho> a) = k mod 2 ^ length a) (bv_vars a))"
    if "bv_denotes (\<lambda>\<rho>. nat (k mod 2 ^ length a)) {} (length a) c" for c
  proof -
    have c: "int (bvv \<rho> c) = k mod 2 ^ length a" and X: "bv_vars c = {}" for \<rho>
      using that by (auto simp: bv_denotes_def)
    have v: "bvv \<rho> a = bvv \<rho> c \<longleftrightarrow> int (bvv \<rho> a) = k mod 2 ^ length a" for \<rho>
      unfolding c [of \<rho>, symmetric] by simp
    show ?thesis
      by (rule builds_sig_weaken [OF builds_bv_eq [of a c "A \<union> set c"] _ v]) (use assms X in auto)
  qed
  show ?thesis unfolding bv_eq_const_def by (rule builds_bind [OF 1 2])
qed

lemma builds_bv_ge_const:
  assumes "set a \<subseteq> A \<union> {TRUE_s, FALSE_s}"
  shows "builds A (\<lambda>r. {r}) (bv_ge_const a k) (denotes (\<lambda>\<rho>. k \<le> int (bvv \<rho> a)) (bv_vars a))"
proof -
  let ?r = "[k..2 ^ length a - 1]"
  let ?eq = "\<lambda>v. denotes (\<lambda>\<rho>. int (bvv \<rho> a) = v mod 2 ^ length a) (bv_vars a)"
  have 0: "builds (A \<union> {e}) (\<lambda>r. {r}) (AND_s [e]) (?eq v)" if "?eq v e" for v e
    by (rule builds_weaken [OF builds_AND]) (use that in \<open>auto simp: denotes_def\<close>)
  have 1: "builds A set (alloc_map (\<lambda>v. do { e \<leftarrow> bv_eq_const a v; AND_s [e] }) ?r) (list_all2 ?eq ?r)"
  proof (rule builds_weaken [OF builds_alloc_map])
    show "builds A (\<lambda>r. {r}) (do { e \<leftarrow> bv_eq_const a v; AND_s [e] }) (?eq v)" for v
      by (rule builds_bind [OF builds_bv_eq_const [OF assms] 0])
  qed auto
  have 2: "builds (A \<union> set xs) (\<lambda>r. {r}) (OR_s xs) (denotes (\<lambda>\<rho>. k \<le> int (bvv \<rho> a)) (bv_vars a))"
    if xs: "list_all2 ?eq ?r xs" for xs
  proof -
    have v: "(\<exists>x \<in> set xs. sval \<rho> x) \<longleftrightarrow> k \<le> int (bvv \<rho> a)" for \<rho>
    proof -
      let ?n = "int (bvv \<rho> a)"
      have n: "0 \<le> ?n" "?n < 2 ^ length a" using bvv_less [of \<rho> a] by (simp_all add: of_nat_less_iff flip: of_nat_power)
      have "(\<exists>x \<in> set xs. sval \<rho> x) \<longleftrightarrow> (\<exists>v \<in> set ?r. ?n = v mod 2 ^ length a)"
        using xs by (induction rule: list_all2_induct) (auto simp: denotes_def)
      also have "\<dots> \<longleftrightarrow> k \<le> ?n"
      proof
        assume "\<exists>v \<in> set ?r. ?n = v mod 2 ^ length a"
        then obtain v where v: "k \<le> v" "v < 2 ^ length a" "?n = v mod 2 ^ length a" by auto
        then show "k \<le> ?n" by (cases "0 \<le> v") (use n in auto)
      next
        assume "k \<le> ?n"
        then show "\<exists>v \<in> set ?r. ?n = v mod 2 ^ length a" using n by (intro bexI [of _ ?n]) auto
      qed
      finally show ?thesis .
    qed
    have X: "(\<Union>x \<in> set xs. svars x) \<subseteq> bv_vars a"
      using xs by (induction rule: list_all2_induct) (auto simp: denotes_def)
    show ?thesis by (rule builds_sig_weaken [OF builds_OR _ v X]) auto
  qed
  show ?thesis unfolding bv_ge_const_def by (rule builds_bind [OF 1 2])
qed

end
