(* ===== verification/Float64.thy ===== *)
theory Float64
  imports Complex_Main
begin

text \<open>
  Python's \<open>float\<close> (IEEE 754 binary64) as the VSIDS activities of \<open>cdcl.py\<close> use it: a finite float is
  the rational number it denotes, and every arithmetic operation rounds its exact result to the
  nearest multiple of the unit in the last place, ties to even, subnormals included. The solver
  rescales before any activity comes near the largest float, so infinities do not occur.
\<close>

type_synonym f64 = rat

fun ilog2 :: "int \<Rightarrow> nat" where
  "ilog2 n = (if n < 2 then 0 else Suc (ilog2 (n div 2)))"

declare ilog2.simps [simp del]

definition pow2 :: "int \<Rightarrow> rat" where
  "pow2 e = (if 0 \<le> e then 2 ^ nat e else 1 / 2 ^ nat (- e))"

text \<open>The exponent of the leading bit of a positive rational.\<close>

definition exponent :: "rat \<Rightarrow> int" where
  "exponent x =
     (let (n, d) = quotient_of x; e = int (ilog2 n) - int (ilog2 d)
      in if pow2 e \<le> x then e else e - 1)"

definition ulp :: "rat \<Rightarrow> rat" where
  "ulp x = pow2 (max (exponent x - 52) (- 1074))"

definition round_even :: "rat \<Rightarrow> int" where
  "round_even q =
     (let f = \<lfloor>q\<rfloor>; r = q - of_int f
      in if r < 1 / 2 then f else if 1 / 2 < r then f + 1 else if even f then f else f + 1)"

definition rnd :: "rat \<Rightarrow> f64" where
  "rnd x =
     (if x = 0 then 0
      else let u = ulp \<bar>x\<bar> in sgn x * (of_int (round_even (\<bar>x\<bar> / u)) * u))"

lemma pow2_pos: "0 < pow2 e"
  by (simp add: pow2_def)

lemma round_even_nonneg: "0 \<le> q \<Longrightarrow> 0 \<le> round_even q"
  unfolding round_even_def Let_def by (auto simp: le_floor_iff)

lemma round_even_error: "\<bar>of_int (round_even q) - q\<bar> \<le> 1 / 2"
  using floor_correct [of q] unfolding round_even_def Let_def by auto

text \<open>Rounding keeps the sign and moves a number by at most half a unit in the last place.\<close>

lemma rnd_nonneg: "0 \<le> x \<Longrightarrow> 0 \<le> rnd x"
  unfolding rnd_def ulp_def Let_def
  by (auto intro!: mult_nonneg_nonneg round_even_nonneg divide_nonneg_nonneg less_imp_le [OF pow2_pos])

lemma rnd_error: "\<bar>rnd x - x\<bar> \<le> ulp \<bar>x\<bar> / 2"
proof (cases "x = 0")
  case True
  then show ?thesis using pow2_pos by (simp add: rnd_def ulp_def less_imp_le)
next
  case False
  let ?u = "ulp \<bar>x\<bar>" and ?q = "\<bar>x\<bar> / ulp \<bar>x\<bar>"
  have u: "0 < ?u" by (simp add: ulp_def pow2_pos)
  have 1: "x = sgn x * (?q * ?u)" using u by (simp add: sgn_mult_abs)
  have 2: "rnd x = sgn x * (of_int (round_even ?q) * ?u)"
    using False by (simp add: rnd_def Let_def)
  have "rnd x - x = sgn x * (of_int (round_even ?q) - ?q) * ?u"
    by (subst 2, subst (4) 1) (simp only: left_diff_distrib right_diff_distrib mult.assoc)
  then have "\<bar>rnd x - x\<bar> = \<bar>of_int (round_even ?q) - ?q\<bar> * ?u"
    using False u by (simp add: abs_mult)
  also have "\<dots> \<le> 1 / 2 * ?u"
    by (rule mult_right_mono [OF round_even_error]) (use u in simp)
  finally show ?thesis by simp
qed

text \<open>The constants of the solver.\<close>

definition f_1e100 :: f64 where "f_1e100 = rnd (10 ^ 100)"
definition f_1em100 :: f64 where "f_1em100 = rnd (1 / 10 ^ 100)"
definition f_decay :: f64 where "f_decay = rnd (1 / rnd (95 / 100))"   \<comment> \<open>\<open>1.0 / 0.95\<close>\<close>

definition fadd :: "f64 \<Rightarrow> f64 \<Rightarrow> f64" where "fadd x y = rnd (x + y)"
definition fmul :: "f64 \<Rightarrow> f64 \<Rightarrow> f64" where "fmul x y = rnd (x * y)"

lemma fadd_nonneg: "0 \<le> x \<Longrightarrow> 0 \<le> y \<Longrightarrow> 0 \<le> fadd x y"
  and fmul_nonneg: "0 \<le> x \<Longrightarrow> 0 \<le> y \<Longrightarrow> 0 \<le> fmul x y"
  by (simp_all add: fadd_def fmul_def rnd_nonneg)

lemma f_consts_nonneg: "0 \<le> f_1em100" "0 \<le> f_decay"
  by (simp_all add: f_1em100_def f_decay_def rnd_nonneg)

end
