(* ===== verification/Solver.thy ===== *)
theory Solver
  imports Prelude Float64
begin

text \<open>
  The CDCL solver of \<open>cdcl.py\<close>: class \<open>Solver\<close> as a record and its methods as functions on it.
  Clause objects live in the heap \<open>cdb\<close> and are referred to by their index there, which is the
  object identity the watch lists, the reasons, \<open>clauses\<close> and \<open>learnts\<close> share, so that swapping
  two literals of a clause is seen by all of them. The dictionaries are total functions: the source
  reads them only at the variables \<open>new_var\<close> handed out. The attributes \<open>_empty\<close> and \<open>_true_lit\<close>,
  which the source attaches later, are fields with the value \<open>getattr\<close> defaults to. The functions
  are polymorphic in the record's extension, which holds the attributes of subclasses.
\<close>

subsection \<open>State\<close>

record clause =
  lits :: "int list"
  learnt :: bool

record solver =
  n_vars :: nat
  cdb :: "clause list"
  clauses :: "nat list"
  learnts :: "nat list"
  watches :: "int \<Rightarrow> nat list"
  assign :: "nat \<Rightarrow> bool option"
  level :: "nat \<Rightarrow> int"
  reason :: "nat \<Rightarrow> nat option"
  trail :: "int list"
  trail_lim :: "nat list"
  qhead :: nat
  activity :: "nat \<Rightarrow> f64"
  var_inc :: f64
  var_decay :: f64
  phase :: "nat \<Rightarrow> bool"
  seen :: "nat \<Rightarrow> bool"
  conflict_core :: "int list"
  empty_flag :: bool
  true_lit :: "int option"

definition lvar :: "int \<Rightarrow> nat" where   \<comment> \<open>\<open>var(lit)\<close>\<close>
  "lvar l = nat \<bar>l\<bar>"

definition Solver :: solver where
  "Solver = \<lparr>n_vars = 0, cdb = [], clauses = [], learnts = [], watches = (\<lambda>_. []),
     assign = (\<lambda>_. None), level = (\<lambda>_. - 1), reason = (\<lambda>_. None), trail = [], trail_lim = [],
     qhead = 0, activity = (\<lambda>_. 0), var_inc = 1, var_decay = f_decay, phase = (\<lambda>_. False),
     seen = (\<lambda>_. False), conflict_core = [], empty_flag = False, true_lit = None\<rparr>"

definition clits :: "'a solver_scheme \<Rightarrow> nat \<Rightarrow> int list" where
  "clits s c = lits (cdb s ! c)"

definition set_clits :: "nat \<Rightarrow> int list \<Rightarrow> 'a solver_scheme \<Rightarrow> 'a solver_scheme" where
  "set_clits c ls s = s\<lparr>cdb := (cdb s)[c := (cdb s ! c)\<lparr>lits := ls\<rparr>]\<rparr>"

subsection \<open>Construction\<close>

definition new_var :: "'a solver_scheme \<Rightarrow> nat \<times> 'a solver_scheme" where
  "new_var s =
     (let v = Suc (n_vars s) in
      (v, s\<lparr>n_vars := v, assign := (assign s)(v := None), level := (level s)(v := - 1),
            reason := (reason s)(v := None), activity := (activity s)(v := 0),
            phase := (phase s)(v := False), seen := (seen s)(v := False)\<rparr>))"

primrec new_vars :: "nat \<Rightarrow> 'a solver_scheme \<Rightarrow> nat list \<times> 'a solver_scheme" where
  "new_vars 0 s = ([], s)"
| "new_vars (Suc k) s =
     (let (v, s1) = new_var s; (vs, s2) = new_vars k s1 in (v # vs, s2))"

definition val :: "'a solver_scheme \<Rightarrow> int \<Rightarrow> bool option" where   \<comment> \<open>\<open>value\<close>\<close>
  "val s l = (case assign s (lvar l) of None \<Rightarrow> None | Some a \<Rightarrow> Some (if l > 0 then a else \<not> a))"

definition decision_level :: "'a solver_scheme \<Rightarrow> nat" where
  "decision_level s = length (trail_lim s)"

definition enqueue :: "int \<Rightarrow> nat option \<Rightarrow> 'a solver_scheme \<Rightarrow> bool \<times> 'a solver_scheme" where
  "enqueue l r s =
     (case val s l of
        Some b \<Rightarrow> (b, s)
      | None \<Rightarrow>
          (True, s\<lparr>assign := (assign s)(lvar l := Some (l > 0)),
                   level := (level s)(lvar l := int (decision_level s)),
                   reason := (reason s)(lvar l := r),
                   phase := (phase s)(lvar l := (l > 0)),
                   trail := trail s @ [l]\<rparr>))"

definition new_decision_level :: "'a solver_scheme \<Rightarrow> 'a solver_scheme" where
  "new_decision_level s = s\<lparr>trail_lim := trail_lim s @ [length (trail s)]\<rparr>"

definition unassign :: "int \<Rightarrow> 'a solver_scheme \<Rightarrow> 'a solver_scheme" where
  "unassign l s = s\<lparr>assign := (assign s)(lvar l := None), reason := (reason s)(lvar l := None),
                    level := (level s)(lvar l := - 1)\<rparr>"

definition cancel_until :: "nat \<Rightarrow> 'a solver_scheme \<Rightarrow> 'a solver_scheme" where
  "cancel_until lvl s =
     (if decision_level s \<le> lvl then s
      else
        let n = trail_lim s ! lvl;
            s1 = fold unassign (rev (drop n (trail s))) s;
            s2 = s1\<lparr>trail := take n (trail s1), trail_lim := take lvl (trail_lim s1)\<rparr>
        in s2\<lparr>qhead := min (qhead s2) (length (trail s2))\<rparr>)"

definition attach :: "nat \<Rightarrow> 'a solver_scheme \<Rightarrow> 'a solver_scheme" where
  "attach c s =
     (let p = - (clits s c ! 0); s1 = s\<lparr>watches := (watches s)(p := watches s p @ [c])\<rparr>;
          q = - (clits s1 c ! 1)
      in s1\<lparr>watches := (watches s1)(q := watches s1 q @ [c])\<rparr>)"

text \<open>The loop over the literals of a new clause: \<open>None\<close> for a tautology.\<close>

fun dedupe :: "int list \<Rightarrow> int list \<Rightarrow> int list option" where
  "dedupe out [] = Some out"
| "dedupe out (l # ls) =
     (if - l \<in> set out then None
      else if l \<in> set out then dedupe out ls
      else dedupe (out @ [l]) ls)"

definition add_clause :: "int list \<Rightarrow> 'a solver_scheme \<Rightarrow> bool \<times> 'a solver_scheme" where
  "add_clause ls s0 =
     (let s = cancel_until 0 s0 in
      case dedupe [] ls of
        None \<Rightarrow> (True, s)
      | Some out \<Rightarrow>
          if length out = 0 then (False, s\<lparr>empty_flag := True\<rparr>)
          else if length out = 1 then
            (let (ok, s1) = enqueue (out ! 0) None s
             in (ok, if \<not> ok then s1\<lparr>empty_flag := True\<rparr> else s1))
          else
            let c = length (cdb s);
                s1 = s\<lparr>cdb := cdb s @ [\<lparr>lits = out, learnt = False\<rparr>], clauses := clauses s @ [c]\<rparr>
            in (True, attach c s1))"

subsection \<open>Unit propagation\<close>

text \<open>
  The inner loop over the watch list of \<open>p\<close>, \<open>c # ws\<close> being the clauses still to visit. A clause
  that finds another watch goes to the list of that literal, which is not false and hence never to
  the list being visited (\<open>visit_moves\<close> below), so the list can be read once at the start.
\<close>

fun visit :: "int \<Rightarrow> nat list \<Rightarrow> nat list \<Rightarrow> 'a solver_scheme \<Rightarrow> nat option \<times> 'a solver_scheme" where
  "visit p [] new_ws s = (None, s\<lparr>watches := (watches s)(p := new_ws)\<rparr>)"
| "visit p (c # ws) new_ws s =
     (let false_lit = - p;
          s1 = (if clits s c ! 0 = false_lit then set_clits c (swap 0 1 (clits s c)) s else s);
          first = clits s1 c ! 0
      in if val s1 first = Some True then visit p ws (new_ws @ [c]) s1
         else case find (\<lambda>k. val s1 (clits s1 c ! k) \<noteq> Some False) [2..<length (clits s1 c)] of
           Some k \<Rightarrow>
             (let s2 = set_clits c (swap 1 k (clits s1 c)) s1; q = - (clits s2 c ! 1);
                  s3 = s2\<lparr>watches := (watches s2)(q := watches s2 q @ [c])\<rparr>
              in visit p ws new_ws s3)
         | None \<Rightarrow>
             if val s1 first = Some False then
               (Some c, s1\<lparr>watches := (watches s1)(p := (new_ws @ [c]) @ ws), qhead := length (trail s1)\<rparr>)
             else visit p ws (new_ws @ [c]) (snd (enqueue first (Some c) s1)))"

definition propagate_body ::
  "'a solver_scheme \<Rightarrow> ((nat option \<times> 'a solver_scheme) + 'a solver_scheme) option" where
  "propagate_body s =
     (if qhead s < length (trail s) then
        let p = trail s ! qhead s; s1 = s\<lparr>qhead := qhead s + 1\<rparr>
        in case visit p (watches s1 p) [] s1 of
             (Some c, s2) \<Rightarrow> Some (Inl (Some c, s2))
           | (None, s2) \<Rightarrow> Some (Inr s2)
      else Some (Inl (None, s)))"

definition propagate :: "'a solver_scheme \<Rightarrow> (nat option \<times> 'a solver_scheme) option" where
  "propagate = loop propagate_body"

subsection \<open>VSIDS\<close>

definition bump :: "nat \<Rightarrow> 'a solver_scheme \<Rightarrow> 'a solver_scheme" where
  "bump v s =
     (let s1 = s\<lparr>activity := (activity s)(v := fadd (activity s v) (var_inc s))\<rparr>
      in if activity s1 v > f_1e100 then
           s1\<lparr>activity := (\<lambda>u. fmul (activity s1 u) f_1em100), var_inc := fmul (var_inc s1) f_1em100\<rparr>
         else s1)"

definition decay :: "'a solver_scheme \<Rightarrow> 'a solver_scheme" where
  "decay s = s\<lparr>var_inc := fmul (var_inc s) (var_decay s)\<rparr>"

definition pick_branch :: "'a solver_scheme \<Rightarrow> int" where
  "pick_branch s =
     (let (best, _) =
        fold (\<lambda>v (best, best_a).
                if assign s v = None \<and> activity s v > best_a then (v, activity s v) else (best, best_a))
          [1..<n_vars s + 1] (0, - 1)
      in if best = 0 then 0 else if phase s best then int best else - int best)"

subsection \<open>Conflict analysis\<close>

text \<open>One antecedent clause: the loop \<open>for q in confl.lits\<close>, with the state \<open>(learnt, counter, s)\<close>.\<close>

definition analyze_lit ::
  "nat \<Rightarrow> int \<Rightarrow> int \<Rightarrow> int list \<times> int \<times> 'a solver_scheme \<Rightarrow> int list \<times> int \<times> 'a solver_scheme" where
  "analyze_lit cur p q = (\<lambda>(learnt, counter, s).
     if q = p then (learnt, counter, s)
     else let v = lvar q in
       if \<not> seen s v \<and> level s v > 0 then
         let s1 = bump v (s\<lparr>seen := (seen s)(v := True)\<rparr>)
         in if level s1 v \<ge> int cur then (learnt, counter + 1, s1) else (learnt @ [q], counter, s1)
       else (learnt, counter, s))"

text \<open>The scan \<open>while not seen[var(self.trail[idx])]: idx -= 1\<close>.\<close>

definition scan_body :: "'a solver_scheme \<Rightarrow> int \<Rightarrow> (int + int) option" where
  "scan_body s idx = do {
     l \<leftarrow> py_get (trail s) idx;
     Some (if seen s (lvar l) then Inl idx else Inr (idx - 1)) }"

definition analyze_body ::
  "nat \<Rightarrow> int list \<times> int \<times> int \<times> int \<times> nat \<times> 'a solver_scheme \<Rightarrow>
     ((int list \<times> int \<times> 'a solver_scheme) +
      (int list \<times> int \<times> int \<times> int \<times> nat \<times> 'a solver_scheme)) option" where
  "analyze_body cur = (\<lambda>(learnt0, counter0, p0, idx0, confl, s0).
     let (learnt, counter, s) = fold (analyze_lit cur p0) (clits s0 confl) (learnt0, counter0, s0) in
     do {
       idx \<leftarrow> loop (scan_body s) idx0;
       p \<leftarrow> py_get (trail s) idx;
       let s = s\<lparr>seen := (seen s)(lvar p := False)\<rparr>;
       let counter = counter - 1;
       if counter \<le> 0 then Some (Inl (learnt, p, s))
       else do {
         confl \<leftarrow> reason s (lvar p);
         Some (Inr (learnt, counter, p, idx - 1, confl, s)) }})"

definition backjump_index :: "'a solver_scheme \<Rightarrow> int list \<Rightarrow> nat" where   \<comment> \<open>the loop for \<open>mx\<close>\<close>
  "backjump_index s ls =
     fold (\<lambda>k mx. if level s (lvar (ls ! k)) > level s (lvar (ls ! mx)) then k else mx)
       [2..<length ls] 1"

definition clear_seen :: "int list \<Rightarrow> 'a solver_scheme \<Rightarrow> 'a solver_scheme" where
  "clear_seen ls s = fold (\<lambda>q s. s\<lparr>seen := (seen s)(lvar q := False)\<rparr>) ls s"

definition analyze :: "nat \<Rightarrow> 'a solver_scheme \<Rightarrow> (int list \<times> int \<times> 'a solver_scheme) option" where
  "analyze confl s0 = do {
     (learnt, p, s) \<leftarrow> loop (analyze_body (decision_level s0))
        ([0], 0, 0, int (length (trail s0)) - 1, confl, s0);
     let learnt = learnt[0 := - p];
     let (learnt, bj) =
       (if length learnt = 1 then (learnt, 0)
        else let learnt = swap 1 (backjump_index s learnt) learnt
             in (learnt, level s (lvar (learnt ! 1))));
     Some (learnt, bj, clear_seen learnt s) }"

text \<open>Method \<open>_record\<close>.\<close>

definition record_learnt :: "int list \<Rightarrow> 'a solver_scheme \<Rightarrow> 'a solver_scheme" where
  "record_learnt ls s =
     (if length ls = 1 then snd (enqueue (ls ! 0) None (cancel_until 0 s))
      else
        let c = length (cdb s);
            s1 = s\<lparr>cdb := cdb s @ [\<lparr>lits = ls, learnt = True\<rparr>], learnts := learnts s @ [c]\<rparr>
        in snd (enqueue (ls ! 0) (Some c) (attach c s1)))"

subsection \<open>Search\<close>

text \<open>
  The walk of \<open>_assumption_core\<close> over the implication graph; its state is the set \<open>core\<close>, the set
  \<open>seen\<close> and the stack, whose top is the head here.
\<close>

definition core_body ::
  "'a solver_scheme \<Rightarrow> int list \<Rightarrow> int set \<times> nat set \<times> nat list \<Rightarrow>
     (int set + (int set \<times> nat set \<times> nat list)) option" where
  "core_body s assumed = (\<lambda>(core, seen, stack).
     case stack of
       [] \<Rightarrow> Some (Inl core)
     | v # stack \<Rightarrow>
         (case reason s v of
            None \<Rightarrow> Some (Inr (core \<union> set (filter (\<lambda>a. lvar a = v) assumed), seen, stack))
          | Some r \<Rightarrow>
              let (seen', stack') =
                fold (\<lambda>q (sn, st). if lvar q \<notin> sn \<and> level s (lvar q) > 0
                                    then (insert (lvar q) sn, lvar q # st) else (sn, st))
                  (clits s r) (seen, stack)
              in Some (Inr (core, seen', stack'))))"

definition assumption_core :: "int \<Rightarrow> int list \<Rightarrow> 'a solver_scheme \<Rightarrow> int list option" where
  "assumption_core failed assumed s = do {
     core \<leftarrow> loop (core_body s assumed) ({failed}, {lvar failed}, [lvar failed]);
     Some (filter (\<lambda>a. a \<in> core) assumed) }"

definition restart_next :: "nat \<Rightarrow> nat" where   \<comment> \<open>\<open>max(100, int(prev * 1.5))\<close>\<close>
  "restart_next prev = max 100 (nat \<lfloor>fmul (of_nat prev) (3 / 2)\<rfloor>)"

text \<open>One round of \<open>solve\<close>'s loop on \<open>(restart_base, restart_at, conflicts, ui, s)\<close>.\<close>

definition solve_conflict ::
  "nat \<Rightarrow> nat \<times> nat \<times> nat \<times> nat \<times> 'a solver_scheme \<Rightarrow>
     ((bool \<times> 'a solver_scheme) + (nat \<times> nat \<times> nat \<times> nat \<times> 'a solver_scheme)) option" where
  "solve_conflict confl = (\<lambda>(restart_base, restart_at, conflicts0, ui, s).
     let conflicts = conflicts0 + 1 in
     if decision_level s = 0 then Some (Inl (False, s))
     else do {
       (learnt, bj, s) \<leftarrow> analyze confl s;
       let s = decay (record_learnt learnt (cancel_until (nat bj) s));
       Some (Inr (if conflicts \<ge> restart_at then
                    let restart_base = restart_next restart_base
                    in (restart_base, conflicts + restart_base, conflicts, 0, cancel_until 0 s)
                  else (restart_base, restart_at, conflicts, 0, s))) })"

definition decide :: "int \<Rightarrow> 'a solver_scheme \<Rightarrow> 'a solver_scheme" where
  "decide l s = snd (enqueue l None (new_decision_level s))"

definition solve_branch ::
  "int list \<Rightarrow> nat \<times> nat \<times> nat \<times> nat \<times> 'a solver_scheme \<Rightarrow>
     ((bool \<times> 'a solver_scheme) + (nat \<times> nat \<times> nat \<times> nat \<times> 'a solver_scheme)) option" where
  "solve_branch assumptions = (\<lambda>(restart_base, restart_at, conflicts, ui, s).
     if ui < length assumptions then
       let a = assumptions ! ui; ui = ui + 1 in
       (case val s a of
          Some True \<Rightarrow> Some (Inr (restart_base, restart_at, conflicts, ui, s))
        | Some False \<Rightarrow> do {
            core \<leftarrow> assumption_core a (take ui assumptions) s;
            Some (Inl (False, s\<lparr>conflict_core := core\<rparr>)) }
        | None \<Rightarrow> Some (Inr (restart_base, restart_at, conflicts, ui, decide a s)))
     else
       let l = pick_branch s in
       if l = 0 then Some (Inl (True, s))
       else Some (Inr (restart_base, restart_at, conflicts, ui, decide l s)))"

definition solve_body ::
  "int list \<Rightarrow> nat \<times> nat \<times> nat \<times> nat \<times> 'a solver_scheme \<Rightarrow>
     ((bool \<times> 'a solver_scheme) + (nat \<times> nat \<times> nat \<times> nat \<times> 'a solver_scheme)) option" where
  "solve_body assumptions = (\<lambda>(restart_base, restart_at, conflicts, ui, s). do {
     (confl, s) \<leftarrow> propagate s;
     (case confl of
        Some c \<Rightarrow> solve_conflict c (restart_base, restart_at, conflicts, ui, s)
      | None \<Rightarrow> solve_branch assumptions (restart_base, restart_at, conflicts, ui, s)) })"

definition solve :: "int list \<Rightarrow> 'a solver_scheme \<Rightarrow> (bool \<times> 'a solver_scheme) option" where
  "solve assumptions s0 =
     (if empty_flag s0 then Some (False, s0)
      else
        let s = (cancel_until 0 s0)\<lparr>qhead := 0, conflict_core := []\<rparr> in
        do {
          (confl, s) \<leftarrow> propagate s;
          (case confl of
             Some _ \<Rightarrow> Some (False, s)
           | None \<Rightarrow> loop (solve_body assumptions) (100, 100, 0, 0, s)) })"

subsection \<open>Results\<close>

definition get_value :: "nat \<Rightarrow> 'a solver_scheme \<Rightarrow> bool" where
  "get_value v s = (case assign s v of Some a \<Rightarrow> a | None \<Rightarrow> False)"

definition model_of :: "'a solver_scheme \<Rightarrow> nat \<rightharpoonup> bool" where   \<comment> \<open>method \<open>model\<close>\<close>
  "model_of s v = (if 1 \<le> v \<and> v \<le> n_vars s then Some (get_value v s) else None)"

end
