(* ===== verification/Solver_Inv.thy ===== *)
theory Solver_Inv
  imports Solver
begin

text \<open>
  What the solver of \<open>cdcl.py\<close> promises and the invariant it works under. \<open>mods s\<close> is the abstract
  value of a solver: the assignments that satisfy every clause and every root-level fact. \<open>inv\<close> says
  what the trail, the levels, the reasons and the watch lists have to do with each other; \<open>W\<close> is the
  two-watched-literal invariant up to a position of the trail. The lemmas here are those of the
  methods that neither propagate nor search.
\<close>

subsection \<open>Literals and models\<close>

definition lit_ok :: "nat \<Rightarrow> int \<Rightarrow> bool" where
  "lit_ok n l \<longleftrightarrow> l \<noteq> 0 \<and> lvar l \<le> n"

definition sat_lit :: "(nat \<Rightarrow> bool) \<Rightarrow> int \<Rightarrow> bool" where
  "sat_lit m l = (if l > 0 then m (lvar l) else \<not> m (lvar l))"

definition sat_clause :: "(nat \<Rightarrow> bool) \<Rightarrow> int list \<Rightarrow> bool" where
  "sat_clause m ls \<longleftrightarrow> (\<exists>l \<in> set ls. sat_lit m l)"

lemma lvar_minus [simp]: "lvar (- l) = lvar l"
  by (simp add: lvar_def)

lemma sat_lit_minus [simp]: "l \<noteq> 0 \<Longrightarrow> sat_lit m (- l) \<longleftrightarrow> \<not> sat_lit m l"
  by (auto simp: sat_lit_def)

lemma lit_ok_minus [simp]: "lit_ok n (- l) = lit_ok n l"
  by (simp add: lit_ok_def)

lemma lit_ok_mono: "lit_ok n l \<Longrightarrow> n \<le> n' \<Longrightarrow> lit_ok n' l"
  by (simp add: lit_ok_def)

lemma lvar_eq_iff: "lvar a = lvar b \<longleftrightarrow> a = b \<or> a = - b"
  by (auto simp: lvar_def)

lemma sat_lit_eq: "sat_lit m l \<longleftrightarrow> m (lvar l) = (0 < l)"
  by (auto simp: sat_lit_def)

lemma sat_lit_cong: "m (lvar l) = m' (lvar l) \<Longrightarrow> sat_lit m l = sat_lit m' l"
  by (simp add: sat_lit_def)

definition root_trail :: "'a solver_scheme \<Rightarrow> int list" where
  "root_trail s = (case trail_lim s of [] \<Rightarrow> trail s | n # _ \<Rightarrow> take n (trail s))"

definition mods :: "'a solver_scheme \<Rightarrow> (nat \<Rightarrow> bool) set" where
  "mods s = {m. \<not> empty_flag s \<and> (\<forall>c \<in> set (cdb s). sat_clause m (lits c)) \<and>
               (\<forall>l \<in> set (root_trail s). sat_lit m l)}"

text \<open>The clauses and root units as sets of literals: what a search only ever adds to.\<close>

definition facts :: "'a solver_scheme \<Rightarrow> int set set" where
  "facts s = (\<lambda>c. set (lits c)) ` set (cdb s) \<union> (\<lambda>l. {l}) ` set (root_trail s)"

subsection \<open>Decision levels of trail positions\<close>

definition lv :: "nat list \<Rightarrow> nat \<Rightarrow> nat" where
  "lv lims i = length (filter (\<lambda>n. n \<le> i) lims)"

lemma lv_le: "lv lims i \<le> length lims"
  by (simp add: lv_def)

lemma lv_Nil [simp]: "lv [] i = 0"
  by (simp add: lv_def)

lemma lv_append: "lv (xs @ ys) i = lv xs i + lv ys i"
  by (simp add: lv_def)

lemma lv_all: "(\<And>n. n \<in> set lims \<Longrightarrow> n \<le> i) \<Longrightarrow> lv lims i = length lims"
  by (simp add: lv_def)

lemma lv_none: "(\<And>n. n \<in> set lims \<Longrightarrow> i < n) \<Longrightarrow> lv lims i = 0"
  by (simp add: lv_def linorder_not_le)

lemma lv_mono: "i \<le> j \<Longrightarrow> lv lims i \<le> lv lims j"
  unfolding lv_def by (induction lims) auto

lemma sorted_split:
  assumes "sorted_wrt (<) lims" "k < length lims"
  shows "n \<in> set (take k lims) \<Longrightarrow> n < lims ! k" "n \<in> set (drop k lims) \<Longrightarrow> lims ! k \<le> (n::nat)"
proof -
  have eq: "lims = take k lims @ lims ! k # drop (Suc k) lims" using assms(2) by (rule id_take_nth_drop)
  have "sorted_wrt (<) (take k lims @ lims ! k # drop (Suc k) lims)" using assms(1) eq by simp
  moreover have "drop k lims = lims ! k # drop (Suc k) lims" using assms(2) by (simp add: Cons_nth_drop_Suc)
  ultimately show "n \<in> set (take k lims) \<Longrightarrow> n < lims ! k" "n \<in> set (drop k lims) \<Longrightarrow> lims ! k \<le> n"
    by (auto simp: sorted_wrt_append)
qed

lemma lv_take:
  assumes "sorted_wrt (<) lims" "k < length lims" "i < lims ! k"
  shows "lv (take k lims) i = lv lims i" "lv lims i \<le> k"
proof -
  have "lv (drop k lims) i = 0"
    using sorted_split(2) [OF assms(1,2)] assms(3) by (intro lv_none) fastforce
  then show 1: "lv (take k lims) i = lv lims i" using lv_append [of "take k lims" "drop k lims" i] by simp
  show "lv lims i \<le> k" using lv_le [of "take k lims" i] 1 assms(2) by simp
qed

lemma lv_ge:
  assumes "sorted_wrt (<) lims" "k < length lims" "lims ! k \<le> i"
  shows "k < lv lims i"
proof -
  have "lv (take (Suc k) lims) i = length (take (Suc k) lims)"
    using sorted_split(1) [OF assms(1,2)] assms by (intro lv_all) (fastforce simp: take_Suc_conv_app_nth)
  then show ?thesis using lv_append [of "take (Suc k) lims" "drop (Suc k) lims" i] assms(2) by simp
qed

lemma lv_iff:
  "sorted_wrt (<) lims \<Longrightarrow> k < length lims \<Longrightarrow> k < lv lims i \<longleftrightarrow> lims ! k \<le> i"
  using lv_ge [of lims k i] lv_take(2) [of lims k i] by linarith

subsection \<open>The invariant\<close>

definition trail_ok :: "'a solver_scheme \<Rightarrow> bool" where
  "trail_ok s \<longleftrightarrow> distinct (map lvar (trail s)) \<and>
     (\<forall>l \<in> set (trail s). lit_ok (n_vars s) l \<and> assign s (lvar l) = Some (0 < l)) \<and>
     (\<forall>v. assign s v \<noteq> None \<longrightarrow> v \<in> lvar ` set (trail s))"

definition lim_ok :: "'a solver_scheme \<Rightarrow> bool" where
  "lim_ok s \<longleftrightarrow> sorted_wrt (<) (trail_lim s) \<and> (\<forall>n \<in> set (trail_lim s). n < length (trail s)) \<and>
     qhead s \<le> length (trail s)"

definition level_ok :: "'a solver_scheme \<Rightarrow> bool" where
  "level_ok s \<longleftrightarrow> (\<forall>i < length (trail s). level s (lvar (trail s ! i)) = int (lv (trail_lim s) i))"

definition clause_ok :: "nat \<Rightarrow> int list \<Rightarrow> bool" where
  "clause_ok n ls \<longleftrightarrow> 2 \<le> length ls \<and> distinct (map lvar ls) \<and> (\<forall>l \<in> set ls. lit_ok n l)"

definition reason_ok :: "'a solver_scheme \<Rightarrow> bool" where
  "reason_ok s \<longleftrightarrow> (\<forall>i < length (trail s).
     (case reason s (lvar (trail s ! i)) of
        None \<Rightarrow> lv (trail_lim s) i = 0 \<or> i \<in> set (trail_lim s)
      | Some c \<Rightarrow> i \<notin> set (trail_lim s) \<and> c < length (cdb s) \<and> trail s ! i \<in> set (clits s c) \<and>
          (\<forall>q \<in> set (clits s c). q \<noteq> trail s ! i \<longrightarrow> - q \<in> set (take i (trail s)))))"

definition watches_ok :: "'a solver_scheme \<Rightarrow> bool" where
  "watches_ok s \<longleftrightarrow> (\<forall>p. distinct (watches s p) \<and>
     (\<forall>c. c \<in> set (watches s p) \<longleftrightarrow> c < length (cdb s) \<and> (clits s c ! 0 = - p \<or> clits s c ! 1 = - p)))"

definition binv :: "'a solver_scheme \<Rightarrow> bool" where
  "binv s \<longleftrightarrow> trail_ok s \<and> lim_ok s \<and> level_ok s \<and> (\<forall>c \<in> set (cdb s). clause_ok (n_vars s) (lits c)) \<and>
     reason_ok s \<and> watches_ok s"

definition vsids_ok :: "'a solver_scheme \<Rightarrow> bool" where
  "vsids_ok s \<longleftrightarrow> (\<forall>v. 0 \<le> activity s v) \<and> 0 \<le> var_inc s \<and> 0 \<le> var_decay s"

definition inv :: "'a solver_scheme \<Rightarrow> bool" where
  "inv s \<longleftrightarrow> binv s \<and> vsids_ok s \<and> (\<forall>v. \<not> seen s v)"

text \<open>
  The watch invariant up to position \<open>n\<close> of the trail: when a watched literal was falsified before
  \<open>n\<close>, the other watched literal is true, and not at a later level.
\<close>

definition watch_ok :: "'a solver_scheme \<Rightarrow> nat \<Rightarrow> int \<Rightarrow> int \<Rightarrow> bool" where
  "watch_ok s n a b \<longleftrightarrow> (- a \<in> set (take n (trail s)) \<longrightarrow>
     b \<in> set (trail s) \<and> level s (lvar b) \<le> level s (lvar a))"

definition W :: "'a solver_scheme \<Rightarrow> nat \<Rightarrow> bool" where
  "W s n \<longleftrightarrow> (\<forall>c < length (cdb s). watch_ok s n (clits s c ! 0) (clits s c ! 1) \<and>
                                   watch_ok s n (clits s c ! 1) (clits s c ! 0))"

definition cur_start :: "'a solver_scheme \<Rightarrow> nat" where   \<comment> \<open>where the current level begins\<close>
  "cur_start s = (if trail_lim s = [] then 0 else last (trail_lim s))"

lemmas binv_parts = binv_def trail_ok_def lim_ok_def level_ok_def reason_ok_def watches_ok_def

lemma W_0 [simp]: "W s 0"
  by (simp add: W_def watch_ok_def)

lemma W_mono: "W s n \<Longrightarrow> n' \<le> n \<Longrightarrow> W s n'"
  unfolding W_def watch_ok_def using set_take_subset_set_take [of n' n "trail s"] by blast

lemma clits_clause_ok: "binv s \<Longrightarrow> c < length (cdb s) \<Longrightarrow> clause_ok (n_vars s) (clits s c)"
  by (simp add: binv_def clits_def)

lemma val_trail:
  assumes "trail_ok s" "l \<noteq> 0"
  shows "val s l = Some True \<longleftrightarrow> l \<in> set (trail s)" "val s l = Some False \<longleftrightarrow> - l \<in> set (trail s)"
proof -
  have *: "assign s (lvar l) = Some (0 < l) \<longleftrightarrow> l \<in> set (trail s)"
    and **: "assign s (lvar l) = Some (l < 0) \<longleftrightarrow> - l \<in> set (trail s)"
    using assms by (force simp: trail_ok_def lvar_eq_iff lit_ok_def)+
  have "val s l = Some True \<longleftrightarrow> assign s (lvar l) = Some (0 < l)"
    "val s l = Some False \<longleftrightarrow> assign s (lvar l) = Some (l < 0)"
    using assms(2) by (auto simp: val_def split: option.splits)
  then show "val s l = Some True \<longleftrightarrow> l \<in> set (trail s)" "val s l = Some False \<longleftrightarrow> - l \<in> set (trail s)"
    using * ** by simp_all
qed

lemma val_None: "val s l = None \<longleftrightarrow> assign s (lvar l) = None"
  by (simp add: val_def split: option.splits)

lemma trail_consistent: "trail_ok s \<Longrightarrow> l \<in> set (trail s) \<Longrightarrow> - l \<notin> set (trail s)"
proof
  assume ok: "trail_ok s" and l: "l \<in> set (trail s)" "- l \<in> set (trail s)"
  from ok have *: "\<forall>l \<in> set (trail s). l \<noteq> 0 \<and> assign s (lvar l) = Some (0 < l)"
    by (simp add: trail_ok_def lit_ok_def)
  then have "assign s (lvar l) = Some (0 < l)" "l \<noteq> 0" "assign s (lvar (- l)) = Some (0 < - l)"
    using l by blast+
  then show False by auto
qed

lemma unassigned_iff: "trail_ok s \<Longrightarrow> assign s v = None \<longleftrightarrow> v \<notin> lvar ` set (trail s)"
  by (force simp: trail_ok_def)

lemma trail_length: "trail_ok s \<Longrightarrow> length (trail s) \<le> n_vars s"
proof -
  assume ok: "trail_ok s"
  have "lvar ` set (trail s) \<subseteq> {1..n_vars s}" using ok by (auto simp: trail_ok_def lit_ok_def lvar_def)
  then have "card (lvar ` set (trail s)) \<le> n_vars s" using card_mono [of "{1..n_vars s}"] by force
  moreover have "card (lvar ` set (trail s)) = length (trail s)"
    using ok distinct_card [of "map lvar (trail s)"] by (simp add: trail_ok_def)
  ultimately show ?thesis by simp
qed

lemma finite_facts_bound:
  assumes "binv s"
  shows "facts s \<subseteq> Pow {- int (n_vars s)..int (n_vars s)}"
proof -
  have *: "lit_ok n l \<Longrightarrow> l \<in> {- int n..int n}" for n l by (auto simp: lit_ok_def lvar_def)
  have "set (root_trail s) \<subseteq> set (trail s)"
    by (auto simp: root_trail_def split: list.splits dest: in_set_takeD)
  then show ?thesis using assms * unfolding facts_def binv_def clause_ok_def trail_ok_def by blast
qed

subsection \<open>What an operation keeps\<close>

text \<open>\<open>keeps s s'\<close>: the same variables, models and subclass attributes; no fact is lost.\<close>

definition keeps :: "'a solver_scheme \<Rightarrow> 'a solver_scheme \<Rightarrow> bool" where
  "keeps s s' \<longleftrightarrow> n_vars s' = n_vars s \<and> mods s' = mods s \<and> facts s \<subseteq> facts s' \<and>
     empty_flag s' = empty_flag s \<and> true_lit s' = true_lit s \<and> conflict_core s' = conflict_core s \<and>
     solver.more s' = solver.more s"

lemma keeps_refl [simp, intro]: "keeps s s"
  by (simp add: keeps_def)

lemma keeps_trans [trans]: "keeps s s' \<Longrightarrow> keeps s' s'' \<Longrightarrow> keeps s s''"
  by (auto simp: keeps_def)

lemma keepsD: "keeps s s' \<Longrightarrow> n_vars s' = n_vars s" "keeps s s' \<Longrightarrow> mods s' = mods s"
  "keeps s s' \<Longrightarrow> facts s \<subseteq> facts s'" "keeps s s' \<Longrightarrow> empty_flag s' = empty_flag s"
  "keeps s s' \<Longrightarrow> true_lit s' = true_lit s" "keeps s s' \<Longrightarrow> conflict_core s' = conflict_core s" "keeps s s' \<Longrightarrow> solver.more s' = solver.more s"
  by (simp_all add: keeps_def)

subsection \<open>Assigning a literal\<close>

text \<open>The effect of assigning \<open>l\<close> when its variable is free, with \<open>lims\<close> the levels afterwards.\<close>

definition push :: "int \<Rightarrow> nat option \<Rightarrow> nat list \<Rightarrow> 'a solver_scheme \<Rightarrow> 'a solver_scheme" where
  "push l r lims s = s\<lparr>assign := (assign s)(lvar l := Some (l > 0)),
     level := (level s)(lvar l := int (length lims)), reason := (reason s)(lvar l := r),
     phase := (phase s)(lvar l := (l > 0)), trail := trail s @ [l], trail_lim := lims\<rparr>"

lemma push_simps [simp]:
  "n_vars (push l r lims s) = n_vars s" "cdb (push l r lims s) = cdb s"
  "watches (push l r lims s) = watches s" "assign (push l r lims s) = (assign s)(lvar l := Some (l > 0))"
  "level (push l r lims s) = (level s)(lvar l := int (length lims))"
  "reason (push l r lims s) = (reason s)(lvar l := r)" "trail (push l r lims s) = trail s @ [l]"
  "trail_lim (push l r lims s) = lims" "qhead (push l r lims s) = qhead s"
  "activity (push l r lims s) = activity s" "var_inc (push l r lims s) = var_inc s"
  "var_decay (push l r lims s) = var_decay s" "seen (push l r lims s) = seen s"
  "conflict_core (push l r lims s) = conflict_core s" "empty_flag (push l r lims s) = empty_flag s"
  "true_lit (push l r lims s) = true_lit s" "solver.more (push l r lims s) = solver.more s"
  "clits (push l r lims s) = clits s"
  by (simp_all add: push_def clits_def fun_eq_iff)

lemma enqueue_push: "val s l = None \<Longrightarrow> enqueue l r s = (True, push l r (trail_lim s) s)"
  by (cases s) (simp add: enqueue_def push_def decision_level_def)

lemma enqueue_assigned: "val s l = Some b \<Longrightarrow> enqueue l r s = (b, s)"
  by (simp add: enqueue_def)

lemma decide_push: "val s l = None \<Longrightarrow> decide l s = push l None (trail_lim s @ [length (trail s)]) s"
  by (cases s) (simp add: decide_def new_decision_level_def enqueue_def push_def decision_level_def val_def)

lemma binv_push:
  assumes inv: "binv s" and l: "lit_ok (n_vars s) l" "val s l = None"
    and lims: "lims = trail_lim s \<or> lims = trail_lim s @ [length (trail s)]"
    and r: "case r of
         None \<Rightarrow> lims = [] \<or> lims = trail_lim s @ [length (trail s)]
       | Some c \<Rightarrow> lims = trail_lim s \<and> c < length (cdb s) \<and> l \<in> set (clits s c) \<and>
           (\<forall>q \<in> set (clits s c). q \<noteq> l \<longrightarrow> - q \<in> set (trail s))"
  shows "binv (push l r lims s)"
proof -
  let ?s = "push l r lims s" and ?n = "length (trail s)"
  have tr: "trail_ok s" and lim: "lim_ok s" and lev: "level_ok s" and rs: "reason_ok s"
    using inv by (simp_all add: binv_def)
  have free: "lvar l \<notin> lvar ` set (trail s)" using l(2) unassigned_iff [OF tr] by (simp add: val_None)
  have neq: "lvar (trail s ! i) \<noteq> lvar l" if "i < ?n" for i
    using free nth_mem [OF that] by (metis image_eqI)
  have lt: "\<forall>n \<in> set (trail_lim s). n < ?n" using lim by (simp add: lim_ok_def)
  have lvs: "lv lims i = lv (trail_lim s) i" if "i < ?n" for i
    using lims that by (auto simp: lv_append lv_def)
  have lvn: "lv lims ?n = length lims" using lims lt by (intro lv_all) (auto simp: less_imp_le)
  have ne: "\<forall>a \<in> set (trail s). lvar a \<noteq> lvar l" using free by (metis image_eqI)
  have "trail_ok ?s" using tr free ne l(1) by (auto simp: trail_ok_def)
  moreover have "lim_ok ?s"
    using lim lt lims by (auto simp: lim_ok_def sorted_wrt_append less_SucI)
  moreover have "level_ok ?s"
    using lev lvn lvs neq by (auto simp: level_ok_def less_Suc_eq nth_append)
  moreover have "reason_ok ?s"
    unfolding reason_ok_def
  proof (intro allI impI)
    fix i assume i: "i < length (trail ?s)"
    show "case reason ?s (lvar (trail ?s ! i)) of
        None \<Rightarrow> lv (trail_lim ?s) i = 0 \<or> i \<in> set (trail_lim ?s)
      | Some c \<Rightarrow> i \<notin> set (trail_lim ?s) \<and> c < length (cdb ?s) \<and> trail ?s ! i \<in> set (clits ?s c) \<and>
          (\<forall>q \<in> set (clits ?s c). q \<noteq> trail ?s ! i \<longrightarrow> - q \<in> set (take i (trail ?s)))"
    proof (cases "i < ?n")
      case True
      have mem: "i \<in> set lims \<longleftrightarrow> i \<in> set (trail_lim s)" using lims True by auto
      show ?thesis using rs True neq [OF True] lvs [OF True] mem
        by (auto simp: reason_ok_def nth_append split: option.splits)
    next
      case False
      with i have "i = ?n" by simp
      then show ?thesis using r lt by (auto split: option.splits)
    qed
  qed
  moreover have "watches_ok ?s" using inv by (simp add: binv_def watches_ok_def)
  ultimately show ?thesis using inv by (simp add: binv_def)
qed

lemma root_trail_push:
  assumes "lim_ok s" "lims = trail_lim s \<or> lims = trail_lim s @ [length (trail s)]"
  shows "root_trail (push l r lims s) = (if lims = [] then root_trail s @ [l] else root_trail s)"
proof (cases "trail_lim s")
  case Nil
  then show ?thesis using assms by (auto simp: root_trail_def)
next
  case (Cons n ns)
  then have "n < length (trail s)" using assms by (simp add: lim_ok_def)
  then show ?thesis using assms Cons by (auto simp: root_trail_def)
qed

lemma keeps_push:
  assumes "lim_ok s" "lims = trail_lim s \<or> lims = trail_lim s @ [length (trail s)]"
    and "lims = [] \<Longrightarrow> \<forall>m \<in> mods s. sat_lit m l"
  shows "keeps s (push l r lims s)"
  using root_trail_push [OF assms(1,2), of l r] assms(3)
  by (auto simp: keeps_def mods_def facts_def)

lemma W_push:
  assumes "binv s" "val s l = None" "W s n" "n \<le> length (trail s)"
    "lims = trail_lim s \<or> lims = trail_lim s @ [length (trail s)]"
  shows "W (push l r lims s) n"
proof -
  have tr: "trail_ok s" using assms(1) by (simp add: binv_def)
  have free: "lvar l \<notin> lvar ` set (trail s)" using assms(2) unassigned_iff [OF tr] by (simp add: val_None)
  have *: "watch_ok s n a b \<Longrightarrow> watch_ok (push l r lims s) n a b" for a b
  proof -
    assume w: "watch_ok s n a b"
    have "lvar a \<noteq> lvar l \<and> lvar b \<noteq> lvar l"
      if "- a \<in> set (take n (trail s))" "b \<in> set (trail s)"
      using that free in_set_takeD [OF that(1)] by (metis image_eqI lvar_minus)
    then show ?thesis using w assms(4) by (auto simp: watch_ok_def)
  qed
  show ?thesis using assms(3) * by (simp add: W_def)
qed

subsection \<open>Backtracking\<close>

lemma fold_unassign:
  "fold unassign ls s = s\<lparr>assign := (\<lambda>v. if v \<in> lvar ` set ls then None else assign s v),
     reason := (\<lambda>v. if v \<in> lvar ` set ls then None else reason s v),
     level := (\<lambda>v. if v \<in> lvar ` set ls then - 1 else level s v)\<rparr>"
proof (induction ls arbitrary: s)
  case Nil
  show ?case by (cases s) simp
next
  case (Cons l ls)
  show ?case by (simp add: Cons.IH) (cases s, auto simp: unassign_def fun_eq_iff)
qed

lemma cancel_until_ge: "length (trail_lim s) \<le> k \<Longrightarrow> cancel_until k s = s"
  by (simp add: cancel_until_def decision_level_def)

lemma cancel_until_simps:
  assumes "k < length (trail_lim s)" "trail_lim s ! k \<le> length (trail s)"
  defines "n \<equiv> trail_lim s ! k" and "s' \<equiv> cancel_until k s"
  shows "n_vars s' = n_vars s" "cdb s' = cdb s" "watches s' = watches s"
    "assign s' = (\<lambda>v. if v \<in> lvar ` set (drop n (trail s)) then None else assign s v)"
    "reason s' = (\<lambda>v. if v \<in> lvar ` set (drop n (trail s)) then None else reason s v)"
    "level s' = (\<lambda>v. if v \<in> lvar ` set (drop n (trail s)) then - 1 else level s v)"
    "trail s' = take n (trail s)" "trail_lim s' = take k (trail_lim s)" "qhead s' = min (qhead s) n"
  using assms(1,2) unfolding s'_def n_def cancel_until_def
  by (simp_all add: decision_level_def Let_def fold_unassign)

lemma cancel_until_frame [simp]:
  "n_vars (cancel_until k s) = n_vars s" "cdb (cancel_until k s) = cdb s"
  "clauses (cancel_until k s) = clauses s" "learnts (cancel_until k s) = learnts s"
  "watches (cancel_until k s) = watches s"
  "activity (cancel_until k s) = activity s" "var_inc (cancel_until k s) = var_inc s"
  "var_decay (cancel_until k s) = var_decay s" "phase (cancel_until k s) = phase s"
  "seen (cancel_until k s) = seen s" "conflict_core (cancel_until k s) = conflict_core s"
  "empty_flag (cancel_until k s) = empty_flag s" "true_lit (cancel_until k s) = true_lit s"
  "solver.more (cancel_until k s) = solver.more s" "clits (cancel_until k s) = clits s"
  by (simp_all add: cancel_until_def Let_def fold_unassign clits_def fun_eq_iff)

lemma trail_lim_cancel [simp]: "trail_lim (cancel_until k s) = take k (trail_lim s)"
  by (simp add: cancel_until_def Let_def fold_unassign decision_level_def)

lemma binv_cancel:
  assumes inv: "binv s"
  shows "binv (cancel_until k s)"
proof (cases "k < length (trail_lim s)")
  case False
  then show ?thesis using inv by (simp add: cancel_until_ge)
next
  case k: True
  let ?s = "cancel_until k s" and ?n = "trail_lim s ! k"
  have tr: "trail_ok s" and lim: "lim_ok s" and lev: "level_ok s" and rs: "reason_ok s"
    using inv by (simp_all add: binv_def)
  have sorted: "sorted_wrt (<) (trail_lim s)" using lim by (simp add: lim_ok_def)
  have n: "?n < length (trail s)" using lim k by (simp add: lim_ok_def)
  note sel = cancel_until_simps [OF k less_imp_le [OF n]]
  have split: "trail s = take ?n (trail s) @ drop ?n (trail s)" by simp
  have dist: "distinct (map lvar (take ?n (trail s)) @ map lvar (drop ?n (trail s)))"
    using tr by (simp add: trail_ok_def flip: map_append)
  then have disj: "lvar l \<notin> lvar ` set (drop ?n (trail s))" if "l \<in> set (take ?n (trail s))" for l
    using that by auto
  have keep: "lvar (trail s ! i) \<notin> lvar ` set (drop ?n (trail s))" if "i < ?n" for i
    using disj [of "trail s ! i"] that n by (metis in_set_conv_nth length_take min.absorb4 nth_take)
  have "trail_ok ?s"
    unfolding trail_ok_def sel
  proof (intro conjI ballI allI impI)
    show "distinct (map lvar (take ?n (trail s)))" using dist by simp
    fix l assume l: "l \<in> set (take ?n (trail s))"
    then show "lit_ok (n_vars s) l"
      and "(if lvar l \<in> lvar ` set (drop ?n (trail s)) then None else assign s (lvar l)) = Some (0 < l)"
      using tr disj [OF l] in_set_takeD [OF l] by (simp_all add: trail_ok_def)
  next
    fix v assume v: "(if v \<in> lvar ` set (drop ?n (trail s)) then None else assign s v) \<noteq> None"
    then have "v \<in> lvar ` set (trail s)" using tr by (auto simp: trail_ok_def split: if_splits)
    with v show "v \<in> lvar ` set (take ?n (trail s))"
      by (subst (asm) (2) split) (auto split: if_splits simp del: append_take_drop_id)
  qed
  moreover have "lim_ok ?s"
    using lim n sorted_split(1) [OF sorted k]
    by (auto simp: lim_ok_def sel intro: sorted_wrt_take)
  moreover have "level_ok ?s"
    using lev n keep lv_take(1) [OF sorted k] by (auto simp: level_ok_def sel)
  moreover have "reason_ok ?s"
    unfolding reason_ok_def
  proof (intro allI impI)
    fix i assume "i < length (trail ?s)"
    then have i: "i < ?n" "i < length (trail s)" using n by (simp_all add: sel)
    have mem: "i \<in> set (take k (trail_lim s)) \<longleftrightarrow> i \<in> set (trail_lim s)"
      using sorted_split(2) [OF sorted k, of i] i set_take_subset [of k "trail_lim s"]
      by (metis Un_iff append_take_drop_id linorder_not_less set_append)
    have "take i (take ?n (trail s)) = take i (trail s)" using i by (simp add: min_absorb1)
    then show "case reason ?s (lvar (trail ?s ! i)) of
        None \<Rightarrow> lv (trail_lim ?s) i = 0 \<or> i \<in> set (trail_lim ?s)
      | Some c \<Rightarrow> i \<notin> set (trail_lim ?s) \<and> c < length (cdb ?s) \<and> trail ?s ! i \<in> set (clits ?s c) \<and>
          (\<forall>q \<in> set (clits ?s c). q \<noteq> trail ?s ! i \<longrightarrow> - q \<in> set (take i (trail ?s)))"
      using rs i keep [OF i(1)] lv_take(1) [OF sorted k i(1)] mem
      by (auto simp: reason_ok_def sel split: option.splits)
  qed
  moreover have "watches_ok ?s" using inv by (simp add: binv_def watches_ok_def)
  ultimately show ?thesis using inv by (simp add: binv_def)
qed

lemma root_trail_cancel:
  assumes "lim_ok s"
  shows "root_trail (cancel_until k s) = root_trail s"
proof (cases "k < length (trail_lim s)")
  case False
  then show ?thesis by (simp add: cancel_until_ge)
next
  case k: True
  then obtain n ns where lims: "trail_lim s = n # ns" by (cases "trail_lim s") auto
  have le: "trail_lim s ! k \<le> length (trail s)" using assms k by (simp add: lim_ok_def less_imp_le)
  have "n \<le> trail_lim s ! k"
    using assms k lims by (cases k) (auto simp: lim_ok_def less_imp_le)
  then show ?thesis using lims k cancel_until_simps(7) [OF k le]
    by (cases k) (auto simp: root_trail_def min_absorb1)
qed

lemma keeps_cancel: "binv s \<Longrightarrow> keeps s (cancel_until k s)"
  using root_trail_cancel [of s k] by (auto simp: keeps_def mods_def facts_def binv_def)

lemma inv_cancel: "inv s \<Longrightarrow> inv (cancel_until k s)"
  by (simp add: inv_def binv_cancel vsids_ok_def)

lemma cancel_qhead_le: "binv s \<Longrightarrow> qhead (cancel_until k s) \<le> length (trail (cancel_until k s))"
  using binv_cancel [of s k] by (simp add: binv_def lim_ok_def)

subsection \<open>New variables\<close>

lemma inv_Solver: "inv Solver"
  by (simp add: inv_def binv_def trail_ok_def lim_ok_def level_ok_def reason_ok_def watches_ok_def
      vsids_ok_def Solver_def f_consts_nonneg)

lemma mods_Solver: "mods Solver = UNIV"
  by (simp add: mods_def root_trail_def Solver_def)

lemma new_var_simps [simp]:
  "fst (new_var s) = Suc (n_vars s)" "n_vars (snd (new_var s)) = Suc (n_vars s)"
  "cdb (snd (new_var s)) = cdb s" "watches (snd (new_var s)) = watches s"
  "trail (snd (new_var s)) = trail s" "trail_lim (snd (new_var s)) = trail_lim s"
  "qhead (snd (new_var s)) = qhead s" "empty_flag (snd (new_var s)) = empty_flag s"
  "true_lit (snd (new_var s)) = true_lit s" "solver.more (snd (new_var s)) = solver.more s"
  "clits (snd (new_var s)) = clits s"
  by (simp_all add: new_var_def clits_def fun_eq_iff Let_def)

lemma inv_new_var:
  assumes "inv s"
  shows "inv (snd (new_var s))"
proof -
  let ?s = "snd (new_var s)" and ?v = "Suc (n_vars s)"
  have b: "binv s" using assms by (simp add: inv_def)
  have tr: "trail_ok s" using b by (simp add: binv_def)
  have neq: "\<forall>l \<in> set (trail s). lvar l \<noteq> ?v" using tr by (force simp: trail_ok_def lit_ok_def)
  then have neq': "lvar (trail s ! i) \<noteq> ?v" if "i < length (trail s)" for i using that by simp
  have "trail_ok ?s" using tr neq
    by (auto simp: trail_ok_def new_var_def Let_def lit_ok_def le_SucI)
  moreover have "lim_ok ?s" using b by (simp add: binv_def lim_ok_def)
  moreover have "level_ok ?s" using b neq' by (simp add: binv_def level_ok_def new_var_def Let_def)
  moreover have "\<forall>c \<in> set (cdb ?s). clause_ok (n_vars ?s) (lits c)"
    using b by (auto simp: binv_def clause_ok_def lit_ok_def le_SucI)
  moreover have "reason_ok ?s" using b neq'
    by (simp add: binv_def reason_ok_def new_var_def Let_def clits_def cong: option.case_cong)
  moreover have "watches_ok ?s" using b by (simp add: binv_def watches_ok_def)
  moreover have "vsids_ok ?s" "\<forall>v. \<not> seen ?s v"
    using assms by (simp_all add: inv_def vsids_ok_def new_var_def Let_def)
  ultimately show ?thesis by (simp add: inv_def binv_def)
qed

lemma root_trail_new_var [simp]: "root_trail (snd (new_var s)) = root_trail s"
  by (simp add: root_trail_def split: list.splits)

lemma mods_new_var [simp]: "mods (snd (new_var s)) = mods s"
  by (simp add: mods_def)

subsection \<open>Adding clauses\<close>

lemma dedupe_None: "dedupe out ls = None \<Longrightarrow> \<exists>l \<in> set ls. - l \<in> set (out @ ls)"
  by (induction out ls rule: dedupe.induct) (fastforce split: if_splits)+

lemma dedupe_Some:
  "dedupe out ls = Some out' \<Longrightarrow> distinct (map lvar out) \<Longrightarrow>
     set out' = set out \<union> set ls \<and> distinct (map lvar out')"
proof (induction ls arbitrary: out)
  case Nil
  then show ?case by simp
next
  case (Cons l ls)
  show ?case
  proof (cases "l \<in> set out")
    case True
    with Cons.prems have "dedupe out ls = Some out'" by (simp split: if_splits)
    from Cons.IH [OF this Cons.prems(2)] True show ?thesis by auto
  next
    case False
    with Cons.prems(1) have l: "- l \<notin> set out" and d: "dedupe (out @ [l]) ls = Some out'"
      by (simp_all split: if_splits)
    have "lvar a \<noteq> lvar l" if "a \<in> set out" for a using that False l by (auto simp: lvar_eq_iff)
    then have "lvar l \<notin> lvar ` set out" by (metis imageE)
    with Cons.prems(2) have "distinct (map lvar (out @ [l]))" by simp
    from Cons.IH [OF d this] show ?thesis by auto
  qed
qed

lemma tautology_sat:
  assumes "dedupe [] ls = None" "\<And>l. l \<in> set ls \<Longrightarrow> l \<noteq> 0"
  shows "sat_clause m ls"
proof -
  obtain l where "l \<in> set ls" "- l \<in> set ls" using dedupe_None [OF assms(1)] by auto
  moreover have "sat_lit m l \<or> sat_lit m (- l)" using assms(2) [of l] calculation by simp
  ultimately show ?thesis by (auto simp: sat_clause_def)
qed

lemma attach_simps [simp]:
  "n_vars (attach c s) = n_vars s" "cdb (attach c s) = cdb s" "assign (attach c s) = assign s"
  "level (attach c s) = level s" "reason (attach c s) = reason s" "trail (attach c s) = trail s"
  "trail_lim (attach c s) = trail_lim s" "qhead (attach c s) = qhead s"
  "activity (attach c s) = activity s" "var_inc (attach c s) = var_inc s"
  "var_decay (attach c s) = var_decay s" "seen (attach c s) = seen s"
  "conflict_core (attach c s) = conflict_core s" "empty_flag (attach c s) = empty_flag s"
  "true_lit (attach c s) = true_lit s" "solver.more (attach c s) = solver.more s"
  "clits (attach c s) = clits s"
  by (simp_all add: attach_def Let_def clits_def fun_eq_iff)

text \<open>\<open>s1\<close> is \<open>s\<close> with one more clause on the heap, not yet attached.\<close>

definition alloc_of :: "'a solver_scheme \<Rightarrow> int list \<Rightarrow> 'a solver_scheme \<Rightarrow> bool" where
  "alloc_of s ls s1 \<longleftrightarrow> (\<exists>b. cdb s1 = cdb s @ [\<lparr>lits = ls, learnt = b\<rparr>]) \<and> n_vars s1 = n_vars s \<and>
     watches s1 = watches s \<and> assign s1 = assign s \<and> level s1 = level s \<and> reason s1 = reason s \<and>
     trail s1 = trail s \<and> trail_lim s1 = trail_lim s \<and> qhead s1 = qhead s \<and>
     empty_flag s1 = empty_flag s \<and> true_lit s1 = true_lit s \<and> conflict_core s1 = conflict_core s \<and>
     solver.more s1 = solver.more s"

lemma binv_attach:
  assumes inv: "binv s" and cl: "clause_ok (n_vars s) ls" and s1: "alloc_of s ls s1"
  shows "binv (attach (length (cdb s)) s1)"
proof -
  let ?s = "attach (length (cdb s)) s1" and ?c = "length (cdb s)"
  obtain b where cdb: "cdb s1 = cdb s @ [\<lparr>lits = ls, learnt = b\<rparr>]" using s1 by (auto simp: alloc_of_def)
  note eq = s1 [unfolded alloc_of_def]
  have old: "clits ?s c = clits s c" if "c < ?c" for c using that cdb by (simp add: clits_def nth_append)
  have new: "clits s1 ?c = ls" using cdb by (simp add: clits_def)
  have ls: "ls ! 0 \<noteq> ls ! 1" "2 \<le> length ls"
    using cl nth_eq_iff_index_eq [of "map lvar ls" 0 1] by (force simp: clause_ok_def)+
  have w: "watches ?s p = (if p = - (ls ! 0) \<or> p = - (ls ! 1) then watches s p @ [?c] else watches s p)" for p
    using eq ls(1) by (simp add: attach_def Let_def new) (simp add: clits_def cdb)
  have "watches_ok ?s"
    unfolding watches_ok_def
  proof (intro allI conjI)
    fix p
    have ws: "distinct (watches s p)" "c \<in> set (watches s p) \<longleftrightarrow> c < ?c \<and> (clits s c ! 0 = - p \<or> clits s c ! 1 = - p)"
      for c using inv by (simp_all add: binv_def watches_ok_def)
    then show "distinct (watches ?s p)" by (simp add: w)
    show "c \<in> set (watches ?s p) \<longleftrightarrow> c < length (cdb ?s) \<and> (clits ?s c ! 0 = - p \<or> clits ?s c ! 1 = - p)" for c
    proof (cases "c = ?c")
      case True
      then show ?thesis using ws(2) [of ?c] new cdb by (auto simp: w)
    next
      case False
      then show ?thesis using ws(2) [of c] old [of c] cdb by (auto simp: w less_Suc_eq)
    qed
  qed
  moreover have "reason_ok ?s"
  proof -
    have "reason_ok s" using inv by (simp add: binv_def)
    then show ?thesis using eq old cdb
      by (auto simp: reason_ok_def split: option.splits)
  qed
  ultimately show ?thesis using inv eq cl cdb
    by (auto simp: binv_def trail_ok_def lim_ok_def level_ok_def)
qed

lemma mods_attach:
  assumes "alloc_of s ls s1"
  shows "mods (attach c s1) = mods s \<inter> {m. sat_clause m ls}" "facts s \<subseteq> facts (attach c s1)"
    "set ls \<in> facts (attach c s1)"
  using assms by (auto simp: mods_def facts_def root_trail_def alloc_of_def split: list.splits)

lemma add_clause_cases:
  assumes inv: "inv s" and ls: "\<forall>l \<in> set ls. lit_ok (n_vars s) l"
  defines "r \<equiv> add_clause ls s"
  shows "inv (snd r) \<and> mods (snd r) = mods s \<inter> {m. sat_clause m ls} \<and> n_vars (snd r) = n_vars s \<and>
     true_lit (snd r) = true_lit s \<and> solver.more (snd r) = solver.more s \<and> trail_lim (snd r) = [] \<and>
     (\<not> fst r \<longrightarrow> empty_flag (snd r))"
proof -
  define t where "t = cancel_until 0 s"
  have t: "inv t" "mods t = mods s" "n_vars t = n_vars s" "true_lit t = true_lit s"
    "solver.more t = solver.more s" "trail_lim t = []"
    using inv_cancel [OF inv] keeps_cancel [of s 0] inv unfolding t_def
    by (simp_all add: inv_def keeps_def)
  have b: "binv t" "trail_ok t" "lim_ok t" using t(1) by (simp_all add: inv_def binv_def)
  have root: "root_trail t = trail t" using t(6) by (simp add: root_trail_def)
  show ?thesis
  proof (cases "dedupe [] ls")
    case None
    then have "r = (True, t)" by (simp add: r_def add_clause_def t_def)
    moreover have "sat_clause m ls" for m using tautology_sat [OF None] ls by (auto simp: lit_ok_def)
    ultimately show ?thesis using t by simp
  next
    case (Some out)
    from dedupe_Some [OF Some] have out: "set out = set ls" "distinct (map lvar out)" by simp_all
    have same: "sat_clause m ls \<longleftrightarrow> sat_clause m out" for m using out(1) by (simp add: sat_clause_def)
    have unit: "sat_clause m [l] \<longleftrightarrow> sat_lit m l" for m l by (simp add: sat_clause_def)
    consider "out = []" | l where "out = [l]" | "2 \<le> length out"
      by (cases out; cases "tl out") auto
    then show ?thesis
    proof cases
      case 1
      then have "r = (False, t\<lparr>empty_flag := True\<rparr>)" using Some by (simp add: r_def add_clause_def t_def)
      then show ?thesis using t 1 out
        by (auto simp: inv_def binv_parts vsids_ok_def mods_def sat_clause_def clits_def cong: option.case_cong)
    next
      case (2 l)
      have l: "lit_ok (n_vars t) l" using ls out(1) 2 t(3) by auto
      then have l0: "l \<noteq> 0" by (simp add: lit_ok_def)
      have r: "r = (let (ok, s1) = enqueue l None t in (ok, if \<not> ok then s1\<lparr>empty_flag := True\<rparr> else s1))"
        using Some 2 by (simp add: r_def add_clause_def t_def)
      show ?thesis
      proof (cases "val t l")
        case None
        have "inv (push l None [] t)"
          using binv_push [OF b(1) l None, of "[]" None] t(1,6) by (simp add: inv_def vsids_ok_def)
        moreover have "mods (push l None [] t) = mods t \<inter> {m. sat_lit m l}"
          using root_trail_push [OF b(3), of "[]" l None] t(6) by (auto simp: mods_def)
        ultimately show ?thesis using enqueue_push [OF None, of None] t r
          by (simp add: same 2 unit)
      next
        case (Some v)
        show ?thesis
        proof (cases v)
          case True
          with Some val_trail [OF b(2) l0] root have "l \<in> set (root_trail t)" by simp
          then have "mods t \<subseteq> {m. sat_lit m l}" by (auto simp: mods_def)
          then show ?thesis using Some True enqueue_assigned [OF Some, of None] t r
            by (auto simp: same 2 unit)
        next
          case False
          with Some val_trail [OF b(2) l0] root have "- l \<in> set (root_trail t)" by simp
          then have "mods t \<inter> {m. sat_lit m l} = {}" using l0 by (auto simp: mods_def)
          then have "mods s \<inter> {m. sat_clause m ls} = {}" using t(2) by (simp add: same 2 unit)
          moreover have "r = (False, t\<lparr>empty_flag := True\<rparr>)"
            using r Some False enqueue_assigned [OF Some, of None] by simp
          ultimately show ?thesis using t
            by (simp add: inv_def binv_parts vsids_ok_def mods_def clits_def cong: option.case_cong)
        qed
      qed
    next
      case 3
      define s1 where "s1 = t\<lparr>cdb := cdb t @ [\<lparr>lits = out, learnt = False\<rparr>],
          clauses := clauses t @ [length (cdb t)]\<rparr>"
      have "out \<noteq> []" "length out \<noteq> 1" using 3 by auto
      then have r: "r = (True, attach (length (cdb t)) s1)"
        using Some by (simp add: r_def add_clause_def t_def s1_def Let_def)
      have al: "alloc_of t out s1" by (auto simp: alloc_of_def s1_def)
      have "clause_ok (n_vars t) out" using 3 out ls t(3) by (simp add: clause_ok_def)
      from binv_attach [OF b(1) this al] have "inv (snd r)"
        using t(1) by (simp add: r inv_def vsids_ok_def s1_def)
      then show ?thesis using mods_attach(1) [OF al, of "length (cdb t)"] t r
        by (simp add: same s1_def)
    qed
  qed
qed

end
