(* ===== verification/Solver_Propagate.thy ===== *)
theory Solver_Propagate
  imports Solver_Inv "HOL-Library.Multiset"
begin

text \<open>
  Unit propagation of \<open>cdcl.py\<close>: visiting the watch list of a literal keeps the invariant, moves the
  watch invariant \<open>W\<close> one trail position further, and reports only clauses that are false;
  \<open>propagate\<close> returns for every solver in the invariant.
\<close>

lemma clits_set_clits:
  "c < length (cdb s) \<Longrightarrow> clits (set_clits c ls s) d = (if d = c then ls else clits s d)"
  by (simp add: clits_def set_clits_def nth_list_update)

lemma set_clits_simps [simp]:
  "n_vars (set_clits c ls s) = n_vars s" "length (cdb (set_clits c ls s)) = length (cdb s)"
  "watches (set_clits c ls s) = watches s" "assign (set_clits c ls s) = assign s"
  "level (set_clits c ls s) = level s" "reason (set_clits c ls s) = reason s"
  "trail (set_clits c ls s) = trail s" "trail_lim (set_clits c ls s) = trail_lim s"
  "qhead (set_clits c ls s) = qhead s" "activity (set_clits c ls s) = activity s"
  "var_inc (set_clits c ls s) = var_inc s" "var_decay (set_clits c ls s) = var_decay s"
  "seen (set_clits c ls s) = seen s" "conflict_core (set_clits c ls s) = conflict_core s"
  "empty_flag (set_clits c ls s) = empty_flag s" "true_lit (set_clits c ls s) = true_lit s"
  "solver.more (set_clits c ls s) = solver.more s" "val (set_clits c ls s) = val s"
  by (simp_all add: set_clits_def val_def fun_eq_iff)

lemma set_cdb_set_clits:
  assumes "c < length (cdb s)" "set ls = set (clits s c)"
  shows "(\<lambda>c. set (lits c)) ` set (cdb (set_clits c ls s)) = (\<lambda>c. set (lits c)) ` set (cdb s)"
proof -
  have "map (\<lambda>c. set (lits c)) (cdb (set_clits c ls s)) = map (\<lambda>c. set (lits c)) (cdb s)"
    using assms by (auto simp: set_clits_def clits_def map_update intro: list_update_same_conv [THEN iffD2])
  from arg_cong [OF this, of set] show ?thesis by simp
qed

lemma root_trail_cong:
  "trail s' = trail s \<Longrightarrow> trail_lim s' = trail_lim s \<Longrightarrow> root_trail s' = root_trail s"
  by (simp add: root_trail_def cong: list.case_cong)

lemma keeps_set_clits:
  assumes "c < length (cdb s)" "set ls = set (clits s c)"
  shows "keeps s ((set_clits c ls s)\<lparr>watches := w\<rparr>)"
proof -
  have sat: "(\<forall>c \<in> set cs. sat_clause m (lits c)) \<longleftrightarrow>
      (\<forall>x \<in> (\<lambda>c. set (lits c)) ` set cs. \<exists>l \<in> x. sat_lit m l)" for m cs
    by (auto simp: sat_clause_def)
  have "root_trail ((set_clits c ls s)\<lparr>watches := w\<rparr>) = root_trail s" by (rule root_trail_cong) simp_all
  then show ?thesis
    by (simp add: keeps_def mods_def facts_def sat set_cdb_set_clits [OF assms])
qed

lemma binv_set_clits:
  assumes inv: "binv s" and c: "c < length (cdb s)" and ls: "mset ls = mset (clits s c)"
    and w: "\<And>p. distinct (w p) \<and> (\<forall>d. d \<in> set (w p) \<longleftrightarrow> d < length (cdb s) \<and>
        ((if d = c then ls else clits s d) ! 0 = - p \<or> (if d = c then ls else clits s d) ! 1 = - p))"
  shows "binv ((set_clits c ls s)\<lparr>watches := w\<rparr>)"
proof -
  let ?s = "(set_clits c ls s)\<lparr>watches := w\<rparr>"
  have cl: "clits ?s d = (if d = c then ls else clits s d)" for d
    using clits_set_clits [OF c] by (simp add: clits_def)
  have set: "set (clits ?s d) = set (clits s d)" for d using ls by (auto simp: cl dest: mset_eq_setD)
  have "clause_ok (n_vars s) (clits s c)" using clits_clause_ok [OF inv c] .
  moreover have "distinct (map lvar ls) \<longleftrightarrow> distinct (map lvar (clits s c))"
    by (rule mset_eq_imp_distinct_iff) (simp add: ls)
  ultimately have "clause_ok (n_vars s) ls"
    using ls by (auto simp: clause_ok_def dest: mset_eq_setD mset_eq_length)
  then have cls: "\<forall>d \<in> set (cdb ?s). clause_ok (n_vars s) (lits d)"
    using inv by (auto simp: binv_def set_clits_def dest!: set_update_subset_insert [THEN subsetD])
  have "reason_ok ?s" using inv by (simp add: binv_def reason_ok_def set cong: option.case_cong)
  moreover have "watches_ok ?s" using w by (simp add: watches_ok_def cl)
  ultimately show ?thesis using inv cls by (simp add: binv_def trail_ok_def lim_ok_def level_ok_def)
qed

lemma cur_start_level:
  "lim_ok s \<Longrightarrow> cur_start s \<le> i \<Longrightarrow> lv (trail_lim s) i = length (trail_lim s)"
proof (intro lv_all)
  fix n assume lim: "lim_ok s" and i: "cur_start s \<le> i" and n: "n \<in> set (trail_lim s)"
  show "n \<le> i"
  proof (cases "trail_lim s" rule: rev_cases)
    case Nil
    then show ?thesis using n by simp
  next
    case (snoc ns k)
    then have "n \<le> k" using lim n by (auto simp: lim_ok_def sorted_wrt_append less_imp_le)
    then show ?thesis using i snoc by (simp add: cur_start_def)
  qed
qed

lemma watch_ok_push:
  assumes "trail_ok s" "val s l = None" "watch_ok s n a b" "n \<le> length (trail s)"
  shows "watch_ok (push l r lims s) n a b"
proof -
  have free: "lvar l \<notin> lvar ` set (trail s)"
    using assms(2) unassigned_iff [OF assms(1)] by (simp add: val_None)
  have "lvar a \<noteq> lvar l \<and> lvar b \<noteq> lvar l"
    if "- a \<in> set (take n (trail s))" "b \<in> set (trail s)"
    using that free in_set_takeD [OF that(1)] by (metis image_eqI lvar_minus)
  then show ?thesis using assms(3,4) by (auto simp: watch_ok_def)
qed

lemma watch_ok_cong:
  "trail s' = trail s \<Longrightarrow> level s' = level s \<Longrightarrow> watch_ok s' n a b = watch_ok s n a b"
  by (simp add: watch_ok_def)

lemma level_le: "binv s \<Longrightarrow> l \<in> set (trail s) \<Longrightarrow> level s (lvar l) \<le> int (length (trail_lim s))"
  using lv_le by (fastforce simp: binv_def level_ok_def in_set_conv_nth)

subsection \<open>Visiting a watch list\<close>

definition pair_ok :: "'a solver_scheme \<Rightarrow> nat \<Rightarrow> nat \<Rightarrow> bool" where
  "pair_ok s n c \<longleftrightarrow> watch_ok s n (clits s c ! 0) (clits s c ! 1) \<and>
                    watch_ok s n (clits s c ! 1) (clits s c ! 0)"

lemma W_pair: "W s n \<longleftrightarrow> (\<forall>c < length (cdb s). pair_ok s n c)"
  by (simp add: W_def pair_ok_def)

lemma pair_ok_mono: "pair_ok s n c \<Longrightarrow> n' \<le> n \<Longrightarrow> pair_ok s n' c"
  unfolding pair_ok_def watch_ok_def using set_take_subset_set_take [of n' n "trail s"] by blast

definition visiting :: "int \<Rightarrow> nat \<Rightarrow> nat list \<Rightarrow> nat list \<Rightarrow> 'a solver_scheme \<Rightarrow> bool" where
  "visiting p q new_ws ws s \<longleftrightarrow> inv (s\<lparr>watches := (watches s)(p := new_ws @ ws)\<rparr>) \<and>
     q < length (trail s) \<and> trail s ! q = p \<and> cur_start s \<le> q \<and> qhead s = Suc q \<and>
     (\<forall>c < length (cdb s). pair_ok s (if c \<in> set ws then q else Suc q) c)"

definition conflict_at :: "'a solver_scheme \<Rightarrow> nat \<Rightarrow> bool" where
  "conflict_at s c \<longleftrightarrow> c < length (cdb s) \<and> (\<forall>l \<in> set (clits s c). - l \<in> set (trail s)) \<and>
     (\<exists>l \<in> set (clits s c). level s (lvar l) = int (length (trail_lim s)))"

definition visited :: "nat \<Rightarrow> 'a solver_scheme \<Rightarrow> nat option \<Rightarrow> 'a solver_scheme \<Rightarrow> bool" where
  "visited q s r s' \<longleftrightarrow> keeps s s' \<and> trail_lim s' = trail_lim s \<and> (\<exists>ext. trail s' = trail s @ ext) \<and>
     inv s' \<and> (case r of
        None \<Rightarrow> W s' (Suc q) \<and> qhead s' = Suc q
      | Some c \<Rightarrow> W s' q \<and> qhead s' = length (trail s') \<and> conflict_at s' c)"

lemma visited_trans:
  "keeps s s1 \<Longrightarrow> trail_lim s1 = trail_lim s \<Longrightarrow> (\<exists>ext. trail s1 = trail s @ ext) \<Longrightarrow>
     visited q s1 r s' \<Longrightarrow> visited q s r s'"
  unfolding visited_def by (auto intro: keeps_trans)

lemma visiting_parts:
  assumes "visiting p q new_ws ws s"
  shows "trail_ok s" "lim_ok s" "level_ok s" "p \<noteq> 0" "p \<in> set (trail s)"
    "level s (lvar p) = int (length (trail_lim s))" "set ws \<subseteq> {..<length (cdb s)}"
    "c < length (cdb s) \<Longrightarrow> clause_ok (n_vars s) (clits s c)" "distinct (new_ws @ ws)"
    "c \<in> set (new_ws @ ws) \<longleftrightarrow> c < length (cdb s) \<and> (clits s c ! 0 = - p \<or> clits s c ! 1 = - p)"
proof -
  let ?t = "s\<lparr>watches := (watches s)(p := new_ws @ ws)\<rparr>"
  have inv: "binv ?t" using assms by (simp add: visiting_def inv_def)
  then show "trail_ok s" "lim_ok s" "level_ok s"
    by (simp_all add: binv_def trail_ok_def lim_ok_def level_ok_def)
  have q: "q < length (trail s)" "trail s ! q = p" "cur_start s \<le> q"
    using assms by (simp_all add: visiting_def)
  then show p: "p \<in> set (trail s)" by auto
  then show "p \<noteq> 0" using \<open>trail_ok s\<close> by (auto simp: trail_ok_def lit_ok_def)
  show "level s (lvar p) = int (length (trail_lim s))"
    using \<open>level_ok s\<close> q cur_start_level [OF \<open>lim_ok s\<close> q(3)] by (auto simp: level_ok_def)
  have w: "watches_ok ?t" using inv by (simp add: binv_def)
  from w [unfolded watches_ok_def, rule_format, of p]
  show "distinct (new_ws @ ws)"
    "c \<in> set (new_ws @ ws) \<longleftrightarrow> c < length (cdb s) \<and> (clits s c ! 0 = - p \<or> clits s c ! 1 = - p)" for c
    by (auto simp: clits_def)
  then show "set ws \<subseteq> {..<length (cdb s)}" by auto
  show "clause_ok (n_vars s) (clits s c)" if "c < length (cdb s)"
    using clits_clause_ok [OF inv, of c] that by (simp add: clits_def)
qed

text \<open>A clause that finds another watch never goes to the list being visited.\<close>

lemma visit_moves:
  assumes "visiting p q new_ws ws s" "val s l \<noteq> Some False"
  shows "- l \<noteq> p"
proof
  assume "- l = p"
  with visiting_parts(4,5) [OF assms(1)] have "l \<noteq> 0" "- l \<in> set (trail s)" by auto
  with val_trail(2) [OF visiting_parts(1) [OF assms(1)]] assms(2) show False by simp
qed

lemma swap_mset: "i < length xs \<Longrightarrow> j < length xs \<Longrightarrow> mset (swap i j xs) = mset xs"
  unfolding swap_def by (rule mset_swap)

text \<open>Ordering the two watches of the clause at the head of the list.\<close>

definition order_watch :: "int \<Rightarrow> nat \<Rightarrow> 'a solver_scheme \<Rightarrow> 'a solver_scheme" where
  "order_watch p c s = (if clits s c ! 0 = - p then set_clits c (swap 0 1 (clits s c)) s else s)"

lemma order_watch:
  assumes v: "visiting p q new_ws (c # ws) s"
  defines "s1 \<equiv> order_watch p c s"
  shows "visiting p q new_ws (c # ws) s1" "clits s1 c ! 1 = - p" "keeps s s1"
    "trail s1 = trail s" "trail_lim s1 = trail_lim s"
proof -
  note parts = visiting_parts [OF v]
  have c: "c < length (cdb s)" and cp: "clits s c ! 0 = - p \<or> clits s c ! 1 = - p"
    using parts(10) [of c] by auto
  let ?ls = "swap 0 1 (clits s c)"
  have len: "0 < length (clits s c)" "1 < length (clits s c)"
    using parts(8) [OF c] by (auto simp: clause_ok_def)
  have ls: "mset ?ls = mset (clits s c)" "?ls ! 0 = clits s c ! 1" "?ls ! 1 = clits s c ! 0"
    using swap_mset [OF len] nth_swap [OF len len(1)] nth_swap [OF len len(2)] by simp_all
  have t: "trail s1 = trail s" "trail_lim s1 = trail_lim s" "level s1 = level s"
    "cur_start s1 = cur_start s" "qhead s1 = qhead s" "length (cdb s1) = length (cdb s)"
    by (simp_all add: s1_def order_watch_def cur_start_def)
  show "trail s1 = trail s" "trail_lim s1 = trail_lim s" by (fact t)+
  show "clits s1 c ! 1 = - p"
    using cp ls by (auto simp: s1_def order_watch_def clits_set_clits [OF c])
  have set: "set ?ls = set (clits s c)" using ls(1) by (rule mset_eq_setD)
  show "keeps s s1"
  proof (cases "clits s c ! 0 = - p")
    case True
    have "s1 = (set_clits c ?ls s)\<lparr>watches := watches s\<rparr>" using True
      by (cases s) (simp add: s1_def order_watch_def set_clits_def)
    then show ?thesis using keeps_set_clits [OF c set] by simp
  qed (simp add: s1_def order_watch_def)
  have pair: "pair_ok s1 n d = pair_ok s n d" for n d
    using t ls watch_ok_cong [of s1 s] clits_set_clits [OF c]
    by (auto simp: pair_ok_def s1_def order_watch_def)
  show "visiting p q new_ws (c # ws) s1"
  proof (cases "clits s c ! 0 = - p")
    case False
    then have "s1 = s" by (simp add: s1_def order_watch_def)
    then show ?thesis using v by simp
  next
    case True
    let ?t = "s\<lparr>watches := (watches s)(p := new_ws @ c # ws)\<rparr>"
    let ?t1 = "s1\<lparr>watches := (watches s1)(p := new_ws @ c # ws)\<rparr>"
    have inv: "inv ?t" using v by (simp add: visiting_def)
    have t1: "?t1 = (set_clits c ?ls ?t)\<lparr>watches := watches ?t\<rparr>"
      using True by (cases s) (simp add: s1_def order_watch_def set_clits_def)
    have "binv ?t1"
      unfolding t1
    proof (rule binv_set_clits)
      show "binv ?t" using inv by (simp add: inv_def)
      show "c < length (cdb ?t)" using c by simp
      show "mset ?ls = mset (clits ?t c)" using ls(1) by (simp add: clits_def)
      fix p'
      have "watches_ok ?t" using inv by (simp add: inv_def binv_def)
      then show "distinct (watches ?t p') \<and> (\<forall>d. d \<in> set (watches ?t p') \<longleftrightarrow> d < length (cdb ?t) \<and>
          ((if d = c then ?ls else clits ?t d) ! 0 = - p' \<or> (if d = c then ?ls else clits ?t d) ! 1 = - p'))"
        using ls(2,3) unfolding watches_ok_def by (auto simp: clits_def)
    qed
    then have "inv ?t1" using inv by (simp add: inv_def vsids_ok_def s1_def order_watch_def)
    then show ?thesis using v t pair unfolding visiting_def by simp
  qed
qed

text \<open>The first watch is true: the clause stays where it is.\<close>

lemma visit_true:
  assumes v: "visiting p q new_ws (c # ws) s" and c1: "clits s c ! 1 = - p"
    and first: "val s (clits s c ! 0) = Some True"
  shows "visiting p q (new_ws @ [c]) ws s"
proof -
  note parts = visiting_parts [OF v]
  have c: "c < length (cdb s)" using parts(7) by simp
  let ?f = "clits s c ! 0"
  have "?f \<in> set (clits s c)" using parts(8) [OF c] by (intro nth_mem) (auto simp: clause_ok_def)
  then have f0: "?f \<noteq> 0" using parts(8) [OF c] by (auto simp: clause_ok_def lit_ok_def)
  have mem: "?f \<in> set (trail s)" using val_trail(1) [OF parts(1) f0] first by simp
  have "level s (lvar ?f) \<le> level s (lvar p)"
    using parts(6) mem parts(3) lv_le [of "trail_lim s"] by (auto simp: level_ok_def in_set_conv_nth)
  then have "pair_ok s (Suc q) c"
    using mem trail_consistent [OF parts(1) mem] c1
    by (auto simp: pair_ok_def watch_ok_def dest: in_set_takeD)
  then have "pair_ok s (if d \<in> set ws then q else Suc q) d" if "d < length (cdb s)" for d
    using v that parts(9) unfolding visiting_def by (cases "d = c") (auto split: if_splits)
  then show ?thesis using v unfolding visiting_def by simp
qed

text \<open>A later literal is not false: it becomes the second watch.\<close>

lemma visit_move:
  assumes v: "visiting p q new_ws (c # ws) s" and c1: "clits s c ! 1 = - p"
    and k: "2 \<le> k" "k < length (clits s c)" "val s (clits s c ! k) \<noteq> Some False"
  defines "ls \<equiv> swap 1 k (clits s c)"
  defines "s2 \<equiv> set_clits c ls s"
  defines "s3 \<equiv> s2\<lparr>watches := (watches s2)(- (ls ! 1) := watches s2 (- (ls ! 1)) @ [c])\<rparr>"
  shows "visiting p q new_ws ws s3" "keeps s s3" "trail s3 = trail s" "trail_lim s3 = trail_lim s"
proof -
  note parts = visiting_parts [OF v]
  have c: "c < length (cdb s)" using parts(7) by simp
  let ?f = "clits s c ! 0" and ?k = "clits s c ! k"
  have one: "1 < length (clits s c)" and zero: "0 < length (clits s c)" using k by linarith+
  have ls: "mset ls = mset (clits s c)" "ls ! 0 = ?f" "ls ! 1 = ?k"
    using swap_mset [OF one k(2)] nth_swap [OF one k(2) zero] nth_swap [OF one k(2) one] k
    by (auto simp: ls_def)
  have dist: "distinct (clits s c)" using parts(8) [OF c] by (auto simp: clause_ok_def distinct_map)
  have "?f \<noteq> ?k" "?f \<noteq> clits s c ! 1" "?k \<noteq> clits s c ! 1"
    using k one zero by (simp_all add: nth_eq_iff_index_eq [OF dist])
  then have neq: "?f \<noteq> ?k" "?f \<noteq> - p" "?k \<noteq> - p" using c1 by simp_all
  have kp: "- ?k \<noteq> p" using visit_moves [OF v k(3)] .
  have set: "set ls = set (clits s c)" using ls(1) by (rule mset_eq_setD)
  show keeps: "keeps s s3" unfolding s3_def s2_def by (rule keeps_set_clits [OF c set])
  have t: "trail s3 = trail s" "trail_lim s3 = trail_lim s" "level s3 = level s"
    "cur_start s3 = cur_start s" "qhead s3 = qhead s" "length (cdb s3) = length (cdb s)"
    by (simp_all add: s3_def s2_def cur_start_def)
  show "trail s3 = trail s" "trail_lim s3 = trail_lim s" by (fact t)+
  have cl: "clits s3 d = (if d = c then ls else clits s d)" for d
    using clits_set_clits [OF c] by (simp add: s3_def s2_def clits_def)
  let ?t = "s\<lparr>watches := (watches s)(p := new_ws @ c # ws)\<rparr>"
  let ?w = "(watches s)(- ?k := watches s (- ?k) @ [c], p := new_ws @ ws)"
  let ?t3 = "s3\<lparr>watches := (watches s3)(p := new_ws @ ws)\<rparr>"
  have inv: "inv ?t" using v by (simp add: visiting_def)
  have t3: "?t3 = (set_clits c ls ?t)\<lparr>watches := ?w\<rparr>"
    unfolding s3_def s2_def ls(3) using kp by (cases s) (simp add: set_clits_def)
  have "binv ?t3"
    unfolding t3
  proof (rule binv_set_clits)
    show "binv ?t" using inv by (simp add: inv_def)
    show "c < length (cdb ?t)" using c by simp
    show "mset ls = mset (clits ?t c)" using ls(1) by (simp add: clits_def)
    fix p'
    have w: "watches_ok ?t" using inv by (simp add: inv_def binv_def)
    have wp: "distinct (watches ?t p')" "d \<in> set (watches ?t p') \<longleftrightarrow>
        d < length (cdb s) \<and> (clits s d ! 0 = - p' \<or> clits s d ! 1 = - p')" for d
      using w unfolding watches_ok_def by (auto simp: clits_def)
    show "distinct (?w p') \<and> (\<forall>d. d \<in> set (?w p') \<longleftrightarrow> d < length (cdb ?t) \<and>
        ((if d = c then ls else clits ?t d) ! 0 = - p' \<or> (if d = c then ls else clits ?t d) ! 1 = - p'))"
    proof (cases "p' = p")
      case True
      have "d \<in> set (new_ws @ ws) \<longleftrightarrow> d < length (cdb s) \<and>
          ((if d = c then ls else clits s d) ! 0 = - p \<or> (if d = c then ls else clits s d) ! 1 = - p)" for d
        using parts(9) parts(10) [of d] neq(2,3) ls(2,3) by (cases "d = c") auto
      then show ?thesis using True parts(9) by (simp add: clits_def)
    next
      case False
      have w': "watches ?t p' = watches s p'" using False by simp
      have cw: "c \<in> set (watches s p') \<longleftrightarrow> ?f = - p'"
        using wp(2) [of c] c c1 False unfolding w' by auto
      have eq: "?w p' = (if p' = - ?k then watches s p' @ [c] else watches s p')"
        using False kp by auto
      have "d \<in> set (?w p') \<longleftrightarrow> d < length (cdb s) \<and>
          ((if d = c then ls else clits s d) ! 0 = - p' \<or> (if d = c then ls else clits s d) ! 1 = - p')" for d
        using wp(2) [of d] cw c ls(2,3) unfolding w' eq by (cases "d = c") auto
      moreover have "distinct (?w p')" using wp(1) cw neq(1) unfolding w' eq by auto
      ultimately show ?thesis by (simp add: clits_def)
    qed
  qed
  then have inv3: "inv ?t3" using inv by (simp add: inv_def vsids_ok_def s3_def s2_def)
  have old: "pair_ok s q c" using v c unfolding visiting_def by (auto split: if_splits)
  have kf: "- ?k \<notin> set (trail s)"
    using val_trail(2) [OF parts(1), of ?k] k(3) parts(8) [OF c] nth_mem [OF k(2)]
    by (auto simp: clause_ok_def lit_ok_def)
  have ff: "- ?f \<notin> set (take (Suc q) (trail s))"
  proof
    assume "- ?f \<in> set (take (Suc q) (trail s))"
    moreover have "take (Suc q) (trail s) = take q (trail s) @ [p]"
      using v by (auto simp: visiting_def take_Suc_conv_app_nth)
    ultimately have "- ?f \<in> set (take q (trail s))" using neq(2) by auto
    then have "- p \<in> set (trail s)" using old c1 by (simp add: pair_ok_def watch_ok_def)
    then show False using trail_consistent [OF parts(1,5)] by simp
  qed
  have "pair_ok s3 (Suc q) c"
    using kf ff ls(2,3) t by (auto simp: pair_ok_def cl watch_ok_def dest: in_set_takeD)
  moreover have "pair_ok s3 n d = pair_ok s n d" if "d \<noteq> c" for n d
    using that t by (simp add: pair_ok_def cl watch_ok_def)
  moreover have "c \<notin> set ws" using parts(9) by simp
  ultimately have "pair_ok s3 (if d \<in> set ws then q else Suc q) d" if "d < length (cdb s)" for d
    using v that unfolding visiting_def by (cases "d = c") (auto split: if_splits)
  then show "visiting p q new_ws ws s3" using v t inv3 unfolding visiting_def by simp
qed

text \<open>All other literals are false: the first watch is forced, or the clause is a conflict.\<close>

lemma visit_others_false:
  assumes v: "visiting p q new_ws (c # ws) s" and c1: "clits s c ! 1 = - p"
    and no: "find (\<lambda>k. val s (clits s c ! k) \<noteq> Some False) [2..<length (clits s c)] = None"
    and l: "l \<in> set (clits s c)" "l \<noteq> clits s c ! 0"
  shows "- l \<in> set (trail s)"
proof -
  note parts = visiting_parts [OF v]
  have c: "c < length (cdb s)" using parts(7) by simp
  have l0: "l \<noteq> 0" using l(1) parts(8) [OF c] by (auto simp: clause_ok_def lit_ok_def)
  obtain k where k: "k < length (clits s c)" "l = clits s c ! k" using l(1) by (auto simp: in_set_conv_nth)
  then have "k \<noteq> 0" using l(2) by (cases k) auto
  show ?thesis
  proof (cases "k = 1")
    case True
    then show ?thesis using k c1 parts(5) by simp
  next
    case False
    then have "k \<in> set [2..<length (clits s c)]" using \<open>k \<noteq> 0\<close> k by auto
    then have "val s l = Some False" using no k(2) by (auto simp: find_None_iff)
    then show ?thesis using val_trail(2) [OF parts(1) l0] by simp
  qed
qed

lemma visit_unit:
  assumes v: "visiting p q new_ws (c # ws) s" and c1: "clits s c ! 1 = - p"
    and no: "find (\<lambda>k. val s (clits s c ! k) \<noteq> Some False) [2..<length (clits s c)] = None"
    and first: "val s (clits s c ! 0) = None"
  defines "s3 \<equiv> push (clits s c ! 0) (Some c) (trail_lim s) s"
  shows "visiting p q (new_ws @ [c]) ws s3" "keeps s s3" "trail s3 = trail s @ [clits s c ! 0]"
    "trail_lim s3 = trail_lim s"
proof -
  note parts = visiting_parts [OF v] and others = visit_others_false [OF v c1 no]
  let ?f = "clits s c ! 0"
  have c: "c < length (cdb s)" using parts(7) by simp
  have f: "?f \<in> set (clits s c)" using parts(8) [OF c] by (intro nth_mem) (auto simp: clause_ok_def)
  then have fok: "lit_ok (n_vars s) ?f" using parts(8) [OF c] by (simp add: clause_ok_def)
  let ?t = "s\<lparr>watches := (watches s)(p := new_ws @ c # ws)\<rparr>"
  have inv: "inv ?t" using v by (simp add: visiting_def)
  have "val ?t ?f = None" using first by (simp add: val_def)
  then have "binv (push ?f (Some c) (trail_lim s) ?t)"
    using inv fok c f others by (intro binv_push) (auto simp: inv_def clits_def)
  moreover have "push ?f (Some c) (trail_lim s) ?t = s3\<lparr>watches := (watches s3)(p := (new_ws @ [c]) @ ws)\<rparr>"
    by (cases s) (simp add: s3_def push_def)
  ultimately have inv3: "inv (s3\<lparr>watches := (watches s3)(p := (new_ws @ [c]) @ ws)\<rparr>)"
    using inv by (simp add: inv_def vsids_ok_def s3_def)
  have imp: "sat_lit m ?f" if root: "trail_lim s = []" and m: "m \<in> mods s" for m
  proof -
    obtain l where l: "l \<in> set (clits s c)" "sat_lit m l"
      using m nth_mem [OF c] by (auto simp: mods_def sat_clause_def clits_def)
    have "\<not> sat_lit m l" if "l \<noteq> ?f"
    proof -
      have "- l \<in> set (root_trail s)" using others [OF l(1) that] root by (simp add: root_trail_def)
      then have "sat_lit m (- l)" using m by (simp add: mods_def)
      moreover have "l \<noteq> 0" using l(1) parts(8) [OF c] by (auto simp: clause_ok_def lit_ok_def)
      ultimately show ?thesis by simp
    qed
    then show ?thesis using l by auto
  qed
  show "keeps s s3" unfolding s3_def using imp by (intro keeps_push [OF parts(2)]) auto
  show "trail s3 = trail s @ [?f]" "trail_lim s3 = trail_lim s" by (simp_all add: s3_def)
  have q: "q < length (trail s)" using v by (simp add: visiting_def)
  have "- ?f \<notin> set (trail s)" using val_trail(2) [OF parts(1), of ?f] first fok by (auto simp: lit_ok_def)
  moreover have "lvar p \<noteq> lvar ?f"
    using first parts(5) unassigned_iff [OF parts(1)] by (metis image_eqI val_None)
  ultimately have "pair_ok s3 (Suc q) c"
    using parts(6) c1 q fok
    by (auto simp: pair_ok_def s3_def watch_ok_def lit_ok_def dest: in_set_takeD)
  moreover have "pair_ok s3 n d" if "pair_ok s n d" "n \<le> length (trail s)" for n d
    using that watch_ok_push [OF parts(1) first] by (simp add: pair_ok_def s3_def)
  moreover have "c \<notin> set ws" using parts(9) by simp
  ultimately have "pair_ok s3 (if d \<in> set ws then q else Suc q) d" if "d < length (cdb s)" for d
    using v that q unfolding visiting_def by (cases "d = c") (auto split: if_splits)
  then show "visiting p q (new_ws @ [c]) ws s3"
    using v inv3 unfolding visiting_def by (auto simp: s3_def cur_start_def nth_append)
qed

lemma visit_conflict:
  assumes v: "visiting p q new_ws (c # ws) s" and c1: "clits s c ! 1 = - p"
    and no: "find (\<lambda>k. val s (clits s c ! k) \<noteq> Some False) [2..<length (clits s c)] = None"
    and first: "val s (clits s c ! 0) = Some False"
  shows "visited q s (Some c)
     (s\<lparr>watches := (watches s)(p := (new_ws @ [c]) @ ws), qhead := length (trail s)\<rparr>)" (is "visited _ _ _ ?s")
proof -
  note parts = visiting_parts [OF v] and others = visit_others_false [OF v c1 no]
  have c: "c < length (cdb s)" using parts(7) by simp
  have ok: "clause_ok (n_vars s) (clits s c)" by (rule parts(8) [OF c])
  then have mem: "clits s c ! 0 \<in> set (clits s c)" "clits s c ! 1 \<in> set (clits s c)"
    by (auto simp: clause_ok_def intro!: nth_mem)
  have "clits s c ! 0 \<noteq> 0" using ok mem by (auto simp: clause_ok_def lit_ok_def)
  then have all: "- l \<in> set (trail s)" if "l \<in> set (clits s c)" for l
    using others [OF that] val_trail(2) [OF parts(1)] first by metis
  have "keeps s ?s" by (simp add: keeps_def mods_def facts_def root_trail_def cong: list.case_cong)
  moreover have "inv ?s"
    using v unfolding visiting_def inv_def binv_parts vsids_ok_def clits_def
    by (simp cong: option.case_cong)
  moreover have "pair_ok s q d" if "d < length (cdb s)" for d
    using v that pair_ok_mono [of s "Suc q" d q] unfolding visiting_def by (auto split: if_splits)
  then have "W ?s q" unfolding W_pair pair_ok_def watch_ok_def clits_def by simp
  moreover have "\<exists>l \<in> set (clits s c). level s (lvar l) = int (length (trail_lim s))"
    using mem(2) c1 parts(6) by (intro bexI [of _ "- p"]) auto
  then have "conflict_at ?s c" using c all unfolding conflict_at_def by (simp add: clits_def)
  ultimately show ?thesis by (simp add: visited_def)
qed

lemma visit_visited:
  "visiting p q new_ws ws s \<Longrightarrow> visit p ws new_ws s = (r, s') \<Longrightarrow> visited q s r s'"
proof (induction ws arbitrary: new_ws s)
  case Nil
  have s': "r = None" "s' = s\<lparr>watches := (watches s)(p := new_ws)\<rparr>" using Nil.prems(2) by auto
  have "keeps s s'" unfolding s' by (simp add: keeps_def mods_def facts_def root_trail_def cong: list.case_cong)
  moreover have "W s' (Suc q)"
    using Nil.prems(1) unfolding s' visiting_def W_pair pair_ok_def watch_ok_def clits_def by simp
  ultimately show ?case using Nil.prems(1) by (simp add: visited_def s' visiting_def)
next
  case (Cons c ws)
  define s1 where "s1 = order_watch p c s"
  note ow = order_watch [OF Cons.prems(1), folded s1_def]
  have v1: "visiting p q new_ws (c # ws) s1" by (rule ow(1))
  have lift: "visited q s r s'" if "visited q s1 r s'"
    using visited_trans [OF ow(3,5) _ that] ow(4) by simp
  have eq: "visit p (c # ws) new_ws s =
     (let first = clits s1 c ! 0
      in if val s1 first = Some True then visit p ws (new_ws @ [c]) s1
         else case find (\<lambda>k. val s1 (clits s1 c ! k) \<noteq> Some False) [2..<length (clits s1 c)] of
           Some k \<Rightarrow>
             (let s2 = set_clits c (swap 1 k (clits s1 c)) s1; q = - (clits s2 c ! 1);
                  s3 = s2\<lparr>watches := (watches s2)(q := watches s2 q @ [c])\<rparr>
              in visit p ws new_ws s3)
         | None \<Rightarrow>
             if val s1 first = Some False then
               (Some c, s1\<lparr>watches := (watches s1)(p := (new_ws @ [c]) @ ws), qhead := length (trail s1)\<rparr>)
             else visit p ws (new_ws @ [c]) (snd (enqueue first (Some c) s1)))"
    unfolding s1_def order_watch_def visit.simps Let_def by (rule refl)
  let ?find = "find (\<lambda>k. val s1 (clits s1 c ! k) \<noteq> Some False) [2..<length (clits s1 c)]"
  have c: "c < length (cdb s1)" using visiting_parts(7) [OF v1] by simp
  show ?case
  proof (cases "val s1 (clits s1 c ! 0) = Some True")
    case True
    then have "visit p ws (new_ws @ [c]) s1 = (r, s')" using Cons.prems(2) eq by simp
    from Cons.IH [OF visit_true [OF v1 ow(2) True] this] show ?thesis by (rule lift)
  next
    case nt: False
    show ?thesis
    proof (cases ?find)
      case (Some k)
      then have k: "2 \<le> k" "k < length (clits s1 c)" "val s1 (clits s1 c ! k) \<noteq> Some False"
        by (auto simp: find_Some_iff)
      note mv = visit_move [OF v1 ow(2) k]
      have "clits (set_clits c (swap 1 k (clits s1 c)) s1) c = swap 1 k (clits s1 c)"
        by (simp add: clits_set_clits [OF c])
      with Cons.prems(2) eq nt Some have "visit p ws new_ws
          ((set_clits c (swap 1 k (clits s1 c)) s1)
             \<lparr>watches := (watches (set_clits c (swap 1 k (clits s1 c)) s1))
                (- (swap 1 k (clits s1 c) ! 1) :=
                   watches (set_clits c (swap 1 k (clits s1 c)) s1) (- (swap 1 k (clits s1 c) ! 1)) @ [c])\<rparr>)
          = (r, s')" by (simp add: Let_def)
      from Cons.IH [OF mv(1) this] show ?thesis
        by (intro lift, rule_tac visited_trans [OF mv(2,4)]) (simp_all add: mv(3))
    next
      case None
      show ?thesis
      proof (cases "val s1 (clits s1 c ! 0)")
        case (Some b)
        with nt have fls: "val s1 (clits s1 c ! 0) = Some False" by simp
        with Cons.prems(2) eq None have "r = Some c"
          "s' = s1\<lparr>watches := (watches s1)(p := (new_ws @ [c]) @ ws), qhead := length (trail s1)\<rparr>"
          by (simp_all add: Let_def)
        then show ?thesis using visit_conflict [OF v1 ow(2) None fls] lift by simp
      next
        case none: None
        note un = visit_unit [OF v1 ow(2) None none]
        from Cons.prems(2) eq None none
        have "visit p ws (new_ws @ [c]) (push (clits s1 c ! 0) (Some c) (trail_lim s1) s1) = (r, s')"
          by (simp add: Let_def enqueue_push [OF none])
        from Cons.IH [OF un(1) this] show ?thesis
          by (intro lift, rule_tac visited_trans [OF un(2,4)]) (simp_all add: un(3))
      qed
    qed
  qed
qed

subsection \<open>The propagation loop\<close>

text \<open>What \<open>propagate\<close> returns, from a state whose queue is inside the current level.\<close>

definition ready :: "'a solver_scheme \<Rightarrow> bool" where
  "ready s \<longleftrightarrow> inv s \<and> W s (qhead s) \<and> cur_start s \<le> qhead s"

definition propagated :: "'a solver_scheme \<Rightarrow> nat option \<times> 'a solver_scheme \<Rightarrow> bool" where
  "propagated s = (\<lambda>(r, s'). keeps s s' \<and> trail_lim s' = trail_lim s \<and> (\<exists>ext. trail s' = trail s @ ext) \<and>
     inv s' \<and> cur_start s' \<le> qhead s' \<and> qhead s' = length (trail s') \<and>
     (case r of None \<Rightarrow> W s' (length (trail s'))
              | Some c \<Rightarrow> W s' (cur_start s') \<and> conflict_at s' c))"

lemma visiting_start:
  assumes "ready s" "qhead s < length (trail s)"
  defines "s1 \<equiv> s\<lparr>qhead := qhead s + 1\<rparr>" and "p \<equiv> trail s ! qhead s"
  shows "visiting p (qhead s) [] (watches s1 p) s1" "keeps s s1"
proof -
  have inv: "inv s" and w: "W s (qhead s)" and cs: "cur_start s \<le> qhead s"
    using assms(1) by (simp_all add: ready_def)
  have "s1\<lparr>watches := (watches s1)(p := [] @ watches s1 p)\<rparr> = s1" by (cases s) (simp add: s1_def)
  moreover have "inv s1"
    using inv assms(2) unfolding inv_def binv_parts vsids_ok_def s1_def clits_def
    by (simp cong: option.case_cong)
  moreover have "pair_ok s1 (if d \<in> set (watches s1 p) then qhead s else Suc (qhead s)) d"
    if d: "d < length (cdb s1)" for d
  proof (cases "d \<in> set (watches s1 p)")
    case True
    then show ?thesis using w d by (simp add: W_pair pair_ok_def watch_ok_def s1_def clits_def)
  next
    case False
    then have "clits s d ! 0 \<noteq> - p" "clits s d ! 1 \<noteq> - p"
      using inv d by (auto simp: inv_def binv_def watches_ok_def s1_def)
    moreover have "take (Suc (qhead s)) (trail s) = take (qhead s) (trail s) @ [p]"
      using assms(2) by (simp add: p_def take_Suc_conv_app_nth)
    ultimately show ?thesis using False w d
      by (auto simp: W_pair pair_ok_def watch_ok_def s1_def clits_def)
  qed
  ultimately show "visiting p (qhead s) [] (watches s1 p) s1"
    using assms(2) cs by (auto simp: visiting_def s1_def p_def cur_start_def)
  show "keeps s s1" by (simp add: keeps_def mods_def facts_def root_trail_def s1_def cong: list.case_cong)
qed

lemma propagate_ok:
  assumes "ready s"
  shows "\<exists>r. propagate s = Some r \<and> propagated s r"
  unfolding propagate_def
proof (rule loop_measure [where f = "\<lambda>t. n_vars t - qhead t" and
    I = "\<lambda>t. ready t \<and> keeps s t \<and> trail_lim t = trail_lim s \<and> (\<exists>ext. trail t = trail s @ ext)"])
  show "ready s \<and> keeps s s \<and> trail_lim s = trail_lim s \<and> (\<exists>ext. trail s = trail s @ ext)"
    using assms by simp
next
  fix t assume I: "ready t \<and> keeps s t \<and> trail_lim t = trail_lim s \<and> (\<exists>ext. trail t = trail s @ ext)"
  then have inv: "inv t" and cs: "cur_start t \<le> qhead t" by (simp_all add: ready_def)
  have lim: "lim_ok t" and tr: "trail_ok t" using inv by (simp_all add: inv_def binv_def)
  show "\<exists>x. propagate_body t = Some x \<and> (case x of Inl r \<Rightarrow> propagated s r
      | Inr t' \<Rightarrow> (ready t' \<and> keeps s t' \<and> trail_lim t' = trail_lim s \<and> (\<exists>ext. trail t' = trail s @ ext)) \<and>
          n_vars t' - qhead t' < n_vars t - qhead t)"
  proof (cases "qhead t < length (trail t)")
    case False
    then have "qhead t = length (trail t)" using lim by (simp add: lim_ok_def)
    moreover have "propagate_body t = Some (Inl (None, t))" using False by (simp add: propagate_body_def)
    ultimately show ?thesis using I by (simp add: propagated_def ready_def)
  next
    case True
    define t1 where "t1 = t\<lparr>qhead := qhead t + 1\<rparr>"
    define p where "p = trail t ! qhead t"
    note start = visiting_start [OF conjunct1 [OF I] True, folded t1_def p_def]
    obtain r t2 where visit: "visit p (watches t1 p) [] t1 = (r, t2)" by fastforce
    have vd: "visited (qhead t) t1 r t2" using visit_visited [OF start(1) visit] .
    then have t2: "keeps t1 t2" "trail_lim t2 = trail_lim t1" "\<exists>ext. trail t2 = trail t1 @ ext" "inv t2"
      by (simp_all add: visited_def)
    have "trail t1 = trail t" "trail_lim t1 = trail_lim t" by (simp_all add: t1_def)
    with t2 I have ext: "\<exists>ext. trail t2 = trail s @ ext" "trail_lim t2 = trail_lim s" by auto
    have keeps: "keeps s t2" using I start(2) t2(1) keeps_trans by blast
    have cs2: "cur_start t2 = cur_start t" using ext(2) I by (simp add: cur_start_def)
    have body: "propagate_body t = (case visit p (watches t1 p) [] t1 of
        (Some c, s2) \<Rightarrow> Some (Inl (Some c, s2)) | (None, s2) \<Rightarrow> Some (Inr s2))"
      using True by (simp add: propagate_body_def t1_def p_def Let_def)
    show ?thesis
    proof (cases r)
      case None
      have n: "n_vars t2 = n_vars t" using keepsD(1) [OF keeps] I keepsD(1) by metis
      have "qhead t < n_vars t" using True trail_length [OF tr] by simp
      then have "ready t2" "n_vars t2 - qhead t2 < n_vars t - qhead t"
        using vd None cs cs2 n by (simp_all add: visited_def ready_def)
      then show ?thesis using body visit None keeps ext by simp
    next
      case (Some c)
      have "W t2 (qhead t)" "qhead t2 = length (trail t2)" "conflict_at t2 c"
        using vd Some by (simp_all add: visited_def)
      moreover have "cur_start t2 \<le> length (trail t2)"
        using cs cs2 True t2(3) by (auto simp: t1_def)
      ultimately have "propagated s (r, t2)"
        using Some keeps ext t2(4) W_mono [of t2 "qhead t" "cur_start t2"] cs cs2
        by (simp add: propagated_def)
      then show ?thesis using body visit Some by simp
    qed
  qed
qed

end
