(* ===== verification/Solver_Analyze.thy ===== *)
theory Solver_Analyze
  imports Solver_Propagate
begin

text \<open>
  Conflict analysis of \<open>cdcl.py\<close>: \<open>analyze\<close> returns for every conflict above the root level, and the
  clause it returns is false under the trail, has exactly one literal of the current level, and is
  satisfied by every model of the solver.
\<close>

subsection \<open>States that differ in the analysis scratch only\<close>

definition same :: "'a solver_scheme \<Rightarrow> 'a solver_scheme \<Rightarrow> bool" where
  "same s t \<longleftrightarrow> t = s\<lparr>seen := seen t, activity := activity t, var_inc := var_inc t\<rparr>"

lemma same_simps:
  assumes "same s t"
  shows "n_vars t = n_vars s" "cdb t = cdb s" "watches t = watches s" "assign t = assign s"
    "level t = level s" "reason t = reason s" "trail t = trail s" "trail_lim t = trail_lim s"
    "qhead t = qhead s" "var_decay t = var_decay s" "empty_flag t = empty_flag s" "clits t = clits s"
    "true_lit t = true_lit s" "solver.more t = solver.more s" "conflict_core t = conflict_core s"
  by (subst assms [unfolded same_def], simp add: clits_def fun_eq_iff)+

lemma same_refl [simp]: "same s s"
  by (cases s) (simp add: same_def)

lemma same_trans: "same s t \<Longrightarrow> same t u \<Longrightarrow> same s u"
proof -
  assume st: "same s t" and tu: "same t u"
  have "u = t\<lparr>seen := seen u, activity := activity u, var_inc := var_inc u\<rparr>" using tu by (simp add: same_def)
  also have "\<dots> = s\<lparr>seen := seen u, activity := activity u, var_inc := var_inc u\<rparr>"
    by (subst st [unfolded same_def]) simp
  finally show ?thesis by (simp add: same_def)
qed

lemma same_seen [simp]: "same s (s\<lparr>seen := f\<rparr>)"
  by (simp add: same_def)

lemma same_bump: "same s (bump v s)" "seen (bump v s) = seen s"
  by (simp_all add: bump_def same_def Let_def)

lemma vsids_bump: "vsids_ok s \<Longrightarrow> vsids_ok (bump v s)"
  by (auto simp: vsids_ok_def bump_def Let_def intro!: fadd_nonneg fmul_nonneg f_consts_nonneg)

lemma vsids_seen [simp]: "vsids_ok (s\<lparr>seen := f\<rparr>) = vsids_ok s"
  by (simp add: vsids_ok_def)

lemma root_iff:
  assumes "binv s" "l \<in> set (trail s)" "level s (lvar l) \<le> 0"
  shows "l \<in> set (root_trail s)"
proof -
  obtain i where i: "i < length (trail s)" "trail s ! i = l" using assms(2) by (auto simp: in_set_conv_nth)
  have "lv (trail_lim s) i = 0" using assms(1,3) i by (auto simp: binv_def level_ok_def)
  then have "\<forall>n \<in> set (trail_lim s). i < n" by (auto simp: lv_def filter_empty_conv linorder_not_le)
  then show ?thesis using i by (auto simp: root_trail_def in_set_conv_nth split: list.splits)
qed

lemma root_level:
  assumes "binv s" "l \<in> set (root_trail s)"
  shows "level s (lvar l) = 0"
proof -
  have lim: "sorted_wrt (<) (trail_lim s)" using assms(1) by (simp add: binv_def lim_ok_def)
  have lev: "level s (lvar (trail s ! i)) = int (lv (trail_lim s) i)" if "i < length (trail s)" for i
    using assms(1) that by (simp add: binv_def level_ok_def)
  show ?thesis
  proof (cases "trail_lim s")
    case Nil
    then show ?thesis using assms(2) lev by (auto simp: root_trail_def in_set_conv_nth)
  next
    case (Cons n ns)
    then obtain i where i: "i < n" "i < length (trail s)" "trail s ! i = l"
      using assms(2) by (auto simp: root_trail_def in_set_conv_nth)
    moreover have "lv (trail_lim s) i = 0"
      using lim Cons i(1) by (intro lv_none) auto
    ultimately show ?thesis using lev by auto
  qed
qed

text \<open>A model that disagrees with the trail on \<open>v\<close> satisfies the literal of \<open>v\<close> that is false there.\<close>

lemma disagree_sat:
  assumes "trail_ok s" "- q \<in> set (trail s)" "assign s (lvar q) \<noteq> Some (m (lvar q))"
  shows "sat_lit m q"
proof -
  have "assign s (lvar q) = Some (0 < - q)" "q \<noteq> 0"
    using assms(1,2) by (auto simp: trail_ok_def lit_ok_def dest!: bspec)
  then show ?thesis using assms(3) by (auto simp: sat_lit_def)
qed

lemma sat_disagree:
  assumes "trail_ok s" "- q \<in> set (trail s)" "sat_lit m q"
  shows "assign s (lvar q) \<noteq> Some (m (lvar q))"
proof -
  have "assign s (lvar q) = Some (0 < - q)" "q \<noteq> 0"
    using assms(1,2) by (auto simp: trail_ok_def lit_ok_def dest!: bspec)
  then show ?thesis using assms(3) by (auto simp: sat_lit_def split: if_splits)
qed

subsection \<open>One antecedent clause\<close>

text \<open>
  The literals gathered so far: \<open>lrn\<close> (after its placeholder) holds the false literals of lower levels,
  the seen variables of the current level are counted and lie in the first \<open>n\<close> trail positions.
\<close>

definition gathered :: "'a solver_scheme \<Rightarrow> nat \<Rightarrow> int list \<times> int \<times> 'a solver_scheme \<Rightarrow> bool" where
  "gathered s n = (\<lambda>(lrn, counter, t). same s t \<and> vsids_ok t \<and> length lrn \<ge> 1 \<and>
     distinct (map lvar (tl lrn)) \<and>
     (\<forall>q \<in> set (tl lrn). - q \<in> set (trail s) \<and> 0 < level s (lvar q) \<and>
        level s (lvar q) < int (length (trail_lim s)) \<and> seen t (lvar q)) \<and>
     (\<forall>v. seen t v \<longrightarrow> level s v \<ge> int (length (trail_lim s)) \<or> v \<in> lvar ` set (tl lrn)) \<and>
     counter = int (card {v. seen t v \<and> level s v \<ge> int (length (trail_lim s))}) \<and>
     {v. seen t v \<and> level s v \<ge> int (length (trail_lim s))} \<subseteq> lvar ` set (take n (trail s)))"

lemma gathered_lit:
  assumes g: "gathered s n (lrn, counter, t)"
    and q: "q \<noteq> p \<Longrightarrow> - q \<in> set (trail s) \<and>
          (level s (lvar q) \<ge> int (length (trail_lim s)) \<longrightarrow> - q \<in> set (take n (trail s)))"
    and r: "analyze_lit (length (trail_lim s)) p q (lrn, counter, t) = (lrn', counter', t')"
  shows "gathered s n (lrn', counter', t')" "\<And>v. seen t v \<Longrightarrow> seen t' v"
    "q \<noteq> p \<Longrightarrow> seen t' (lvar q) \<or> level s (lvar q) \<le> 0"
proof -
  let ?cur = "int (length (trail_lim s))" and ?v = "lvar q"
  have st: "same s t" using g by (simp add: gathered_def)
  note sel = same_simps [OF st]
  have "gathered s n (lrn', counter', t') \<and> (\<forall>v. seen t v \<longrightarrow> seen t' v) \<and>
     (q \<noteq> p \<longrightarrow> seen t' ?v \<or> level s ?v \<le> 0)"
  proof (cases "q = p \<or> seen t ?v \<or> level s ?v \<le> 0")
    case True
    then have "analyze_lit (length (trail_lim s)) p q (lrn, counter, t) = (lrn, counter, t)"
      by (auto simp: analyze_lit_def Let_def sel(5))
    then have "lrn' = lrn" "counter' = counter" "t' = t" using r by simp_all
    then show ?thesis using g True by auto
  next
    case False
    define t1 where "t1 = bump ?v (t\<lparr>seen := (seen t)(?v := True)\<rparr>)"
    have seen1: "seen t1 = (seen t)(?v := True)" by (simp add: t1_def same_bump)
    have "same t t1" unfolding t1_def by (rule same_trans [OF same_seen same_bump(1)])
    then have s1: "same s t1" by (rule same_trans [OF st])
    have vs: "vsids_ok t1" using g unfolding t1_def gathered_def by (simp add: vsids_bump)
    have r': "(lrn', counter', t') =
        (if level s ?v \<ge> ?cur then (lrn, counter + 1, t1) else (lrn @ [q], counter, t1))"
      using r False by (simp add: analyze_lit_def Let_def sel(5) same_simps(5) [OF s1] flip: t1_def)
    have q': "- q \<in> set (trail s)" using q False by blast
    let ?C = "\<lambda>t. {v. seen t v \<and> level s v \<ge> ?cur}"
    have fin: "finite (?C t)" using g by (auto simp: gathered_def intro: finite_subset)
    show ?thesis
    proof (cases "level s ?v \<ge> ?cur")
      case True
      have C: "?C t1 = insert ?v (?C t)" using True by (auto simp: seen1)
      have "card (?C t1) = Suc (card (?C t))" using C fin False by simp
      moreover have "?v \<in> lvar ` set (take n (trail s))"
        using q False True by (metis image_eqI lvar_minus)
      ultimately show ?thesis using g r' True s1 vs C unfolding gathered_def by (auto simp: seen1)
    next
      case False2: False
      have C: "?C t1 = ?C t" using False2 by (auto simp: seen1)
      have lrn: "length lrn \<ge> 1" "\<forall>q' \<in> set (tl lrn). seen t (lvar q')" using g by (auto simp: gathered_def)
      then have "tl (lrn @ [q]) = tl lrn @ [q]" by (cases lrn) auto
      moreover have "?v \<notin> lvar ` set (tl lrn)" using lrn(2) False by auto
      ultimately show ?thesis using g r' False False2 s1 vs C q' unfolding gathered_def by (auto simp: seen1)
    qed
  qed
  then show "gathered s n (lrn', counter', t')" "\<And>v. seen t v \<Longrightarrow> seen t' v"
    "q \<noteq> p \<Longrightarrow> seen t' (lvar q) \<or> level s (lvar q) \<le> 0" by auto
qed

lemma gathered_clause:
  assumes "gathered s n (lrn, counter, t)"
    and "\<forall>q \<in> set qs. q \<noteq> p \<longrightarrow> - q \<in> set (trail s) \<and>
          (level s (lvar q) \<ge> int (length (trail_lim s)) \<longrightarrow> - q \<in> set (take n (trail s)))"
    and "fold (analyze_lit (length (trail_lim s)) p) qs (lrn, counter, t) = (lrn', counter', t')"
  shows "gathered s n (lrn', counter', t') \<and> (\<forall>v. seen t v \<longrightarrow> seen t' v) \<and>
    (\<forall>q \<in> set qs. q \<noteq> p \<longrightarrow> seen t' (lvar q) \<or> level s (lvar q) \<le> 0)"
  using assms
proof (induction qs arbitrary: lrn counter t)
  case Nil
  then show ?case by simp
next
  case (Cons q qs)
  obtain l1 c1 t1 where r: "analyze_lit (length (trail_lim s)) p q (lrn, counter, t) = (l1, c1, t1)"
    by (rule prod_cases3)
  have q: "q \<noteq> p \<Longrightarrow> - q \<in> set (trail s) \<and>
      (level s (lvar q) \<ge> int (length (trail_lim s)) \<longrightarrow> - q \<in> set (take n (trail s)))"
    using Cons.prems(2) by simp
  note g = gathered_lit [OF Cons.prems(1) q r]
  have "fold (analyze_lit (length (trail_lim s)) p) qs (l1, c1, t1) = (lrn', counter', t')"
    using Cons.prems(3) r by simp
  from Cons.IH [OF g(1) _ this] Cons.prems(2) show ?case using g(2,3) by auto
qed

subsection \<open>The analysis loop\<close>

lemma scan_ok:
  assumes "i \<le> k" "k < length (trail t)" "seen t (lvar (trail t ! i))"
  shows "\<exists>j. loop (scan_body t) (int k) = Some (int j) \<and> i \<le> j \<and> j \<le> k \<and>
     seen t (lvar (trail t ! j)) \<and> (\<forall>x. j < x \<and> x \<le> k \<longrightarrow> \<not> seen t (lvar (trail t ! x)))"
proof -
  have "\<exists>r. loop (scan_body t) (int k) = Some r \<and> (\<exists>j. r = int j \<and> i \<le> j \<and> j \<le> k \<and>
     seen t (lvar (trail t ! j)) \<and> (\<forall>x. j < x \<and> x \<le> k \<longrightarrow> \<not> seen t (lvar (trail t ! x))))"
  proof (rule loop_measure [where f = nat and
      I = "\<lambda>z. \<exists>j. z = int j \<and> i \<le> j \<and> j \<le> k \<and> (\<forall>x. j < x \<and> x \<le> k \<longrightarrow> \<not> seen t (lvar (trail t ! x)))"])
    show "\<exists>j. int k = int j \<and> i \<le> j \<and> j \<le> k \<and> (\<forall>x. j < x \<and> x \<le> k \<longrightarrow> \<not> seen t (lvar (trail t ! x)))"
      using assms(1) by auto
  next
    fix z assume "\<exists>j. z = int j \<and> i \<le> j \<and> j \<le> k \<and> (\<forall>x. j < x \<and> x \<le> k \<longrightarrow> \<not> seen t (lvar (trail t ! x)))"
    then obtain j where j: "z = int j" "i \<le> j" "j \<le> k" "\<forall>x. j < x \<and> x \<le> k \<longrightarrow> \<not> seen t (lvar (trail t ! x))"
      by blast
    have body: "scan_body t z = Some (if seen t (lvar (trail t ! j)) then Inl z else Inr (z - 1))"
      using j(1,3) assms(2) by (simp add: scan_body_def)
    show "\<exists>x. scan_body t z = Some x \<and>
        (case x of
           Inl r \<Rightarrow> \<exists>j. r = int j \<and> i \<le> j \<and> j \<le> k \<and> seen t (lvar (trail t ! j)) \<and>
             (\<forall>x. j < x \<and> x \<le> k \<longrightarrow> \<not> seen t (lvar (trail t ! x)))
         | Inr z' \<Rightarrow> (\<exists>j. z' = int j \<and> i \<le> j \<and> j \<le> k \<and>
             (\<forall>x. j < x \<and> x \<le> k \<longrightarrow> \<not> seen t (lvar (trail t ! x)))) \<and> nat z' < nat z)"
    proof (cases "seen t (lvar (trail t ! j))")
      case True
      then show ?thesis using body j by auto
    next
      case False
      then have ij: "i < j" using assms(3) j(2) by (metis le_neq_implies_less)
      have "\<not> seen t (lvar (trail t ! x))" if "j - 1 < x" "x \<le> k" for x
        using False j(4) that by (cases "x = j") auto
      then have "z - 1 = int (j - 1) \<and> i \<le> j - 1 \<and> j - 1 \<le> k \<and> nat (z - 1) < nat z"
        "\<forall>x. j - 1 < x \<and> x \<le> k \<longrightarrow> \<not> seen t (lvar (trail t ! x))" using ij j by auto
      then show ?thesis using body False by auto
    qed
  qed
  then show ?thesis by auto
qed

definition analyzing ::
  "'a solver_scheme \<Rightarrow> int list \<times> int \<times> int \<times> int \<times> nat \<times> 'a solver_scheme \<Rightarrow> bool" where
  "analyzing s = (\<lambda>(lrn, counter, p, idx, confl, t). \<exists>n. idx = int n - 1 \<and> n \<le> length (trail s) \<and>
     gathered s n (lrn, counter, t) \<and> confl < length (cdb s) \<and>
     (\<forall>q \<in> set (clits s confl). q \<noteq> p \<longrightarrow> - q \<in> set (trail s) \<and>
        (level s (lvar q) \<ge> int (length (trail_lim s)) \<longrightarrow> - q \<in> set (take n (trail s)))) \<and>
     (if p = 0 then \<exists>q \<in> set (clits s confl). level s (lvar q) \<ge> int (length (trail_lim s))
      else counter > 0 \<and>
        (\<forall>m \<in> mods s. (\<exists>v. seen t v \<and> assign s v \<noteq> Some (m v)) \<or> sat_lit m (- p))))"

text \<open>What the loop leaves with: \<open>-p\<close> and \<open>tl lrn\<close> are the learned clause.\<close>

definition analyzed :: "'a solver_scheme \<Rightarrow> int list \<times> int \<times> 'a solver_scheme \<Rightarrow> bool" where
  "analyzed s = (\<lambda>(lrn, p, t). \<exists>c. gathered s 0 (lrn, c, t) \<and> p \<in> set (trail s) \<and>
     level s (lvar p) = int (length (trail_lim s)) \<and>
     (\<forall>m \<in> mods s. (\<exists>q \<in> set (tl lrn). sat_lit m q) \<or> sat_lit m (- p)))"

lemma clause_disagrees:
  assumes inv: "binv s" and c: "confl < length (cdb s)" and m: "m \<in> mods s"
    and false: "\<forall>q \<in> set (clits s confl). q \<noteq> p \<longrightarrow> - q \<in> set (trail s)"
    and seen: "\<forall>q \<in> set (clits s confl). q \<noteq> p \<longrightarrow> f (lvar q) \<or> level s (lvar q) \<le> 0"
    and p: "p \<noteq> 0 \<Longrightarrow> (\<exists>v. f v \<and> assign s v \<noteq> Some (m v)) \<or> sat_lit m (- p)"
  shows "\<exists>v. f v \<and> assign s v \<noteq> Some (m v)"
proof -
  have tr: "trail_ok s" using inv by (simp add: binv_def)
  obtain q where q: "q \<in> set (clits s confl)" "sat_lit m q"
    using m nth_mem [OF c] by (auto simp: mods_def sat_clause_def clits_def)
  have q0: "q \<noteq> 0" using clits_clause_ok [OF inv c] q(1) by (auto simp: clause_ok_def lit_ok_def)
  show ?thesis
  proof (cases "q = p")
    case True
    then show ?thesis using p q(2) q0 by auto
  next
    case False
    have nq: "- q \<in> set (trail s)" using false q(1) False by simp
    have "\<not> level s (lvar q) \<le> 0"
    proof
      assume "level s (lvar q) \<le> 0"
      then have "- q \<in> set (root_trail s)" using root_iff [OF inv nq] by simp
      then have "sat_lit m (- q)" using m by (simp add: mods_def)
      then show False using q(2) q0 by simp
    qed
    then have "f (lvar q)" using seen q(1) False by blast
    then show ?thesis using sat_disagree [OF tr nq q(2)] by blast
  qed
qed

lemma analyze_body_ok:
  assumes inv: "binv s" and lims: "trail_lim s \<noteq> []"
    and a: "analyzing s (lrn, counter, p, idx, confl, t)"
  shows "\<exists>x. analyze_body (length (trail_lim s)) (lrn, counter, p, idx, confl, t) = Some x \<and>
     (case x of Inl r \<Rightarrow> analyzed s r
      | Inr st \<Rightarrow> analyzing s st \<and> fst (snd (snd (snd st))) < idx \<and> 0 \<le> idx)"
proof -
  let ?cur = "int (length (trail_lim s))"
  have tr: "trail_ok s" and lim: "lim_ok s" and lev: "level_ok s" and rs: "reason_ok s"
    using inv by (simp_all add: binv_def)
  from a obtain n where n: "idx = int n - 1" "n \<le> length (trail s)" and g: "gathered s n (lrn, counter, t)"
    and c: "confl < length (cdb s)" and lits: "\<forall>q \<in> set (clits s confl). q \<noteq> p \<longrightarrow> - q \<in> set (trail s) \<and>
        (level s (lvar q) \<ge> ?cur \<longrightarrow> - q \<in> set (take n (trail s)))"
    and p: "if p = 0 then \<exists>q \<in> set (clits s confl). level s (lvar q) \<ge> ?cur
      else counter > 0 \<and>
        (\<forall>m \<in> mods s. (\<exists>v. seen t v \<and> assign s v \<noteq> Some (m v)) \<or> sat_lit m (- p))"
    unfolding analyzing_def by auto
  have clt: "clits t = clits s" using g same_simps by (auto simp: gathered_def)
  obtain lrn' counter' t' where
    f: "fold (analyze_lit (length (trail_lim s)) p) (clits s confl) (lrn, counter, t) = (lrn', counter', t')"
    by (rule prod_cases3)
  have g': "gathered s n (lrn', counter', t')" and mono: "\<forall>v. seen t v \<longrightarrow> seen t' v"
    and seen: "\<forall>q \<in> set (clits s confl). q \<noteq> p \<longrightarrow> seen t' (lvar q) \<or> level s (lvar q) \<le> 0"
    using gathered_clause [OF g lits f] by auto
  have st': "same s t'" using g' by (simp add: gathered_def)
  note sel = same_simps [OF st']
  let ?C = "{v. seen t' v \<and> level s v \<ge> ?cur}"
  have C: "counter' = int (card ?C)" "?C \<subseteq> lvar ` set (take n (trail s))" using g' by (simp_all add: gathered_def)
  have fin: "finite ?C" using C(2) by (rule finite_subset) simp
  have "?C \<noteq> {}"
  proof (cases "p = 0")
    case True
    then obtain q where q: "q \<in> set (clits s confl)" "level s (lvar q) \<ge> ?cur" using p by auto
    have "q \<noteq> 0" using clits_clause_ok [OF inv c] q(1) by (auto simp: clause_ok_def lit_ok_def)
    moreover have "\<not> level s (lvar q) \<le> 0" using q(2) lims by (cases "trail_lim s") auto
    ultimately have "seen t' (lvar q)" using seen q(1) True by metis
    then show ?thesis using q(2) by blast
  next
    case False
    then have "0 < card {v. seen t v \<and> level s v \<ge> ?cur}" using p g by (simp add: gathered_def)
    then obtain v where "seen t v" "level s v \<ge> ?cur" by (auto simp: card_gt_0_iff)
    then show ?thesis using mono by blast
  qed
  then obtain i where i: "i < n" "i < length (trail s)" "lvar (trail s ! i) \<in> ?C"
    using C(2) by (fastforce simp: in_set_conv_nth)
  have n0: "idx = int (n - 1)" "i \<le> n - 1" "n - 1 < length (trail t')" using n i sel(7) by auto
  obtain j where j: "loop (scan_body t') idx = Some (int j)" "i \<le> j" "j \<le> n - 1"
    "seen t' (lvar (trail s ! j))" "\<forall>x. j < x \<and> x \<le> n - 1 \<longrightarrow> \<not> seen t' (lvar (trail s ! x))"
    using scan_ok [OF n0(2,3)] i(3) n0(1) sel(7) by auto
  define p' where "p' = trail s ! j"
  have jn: "j < length (trail s)" "j < n" using j(3) n0 n i(1) by auto
  have p': "p' \<in> set (trail s)" "p' \<noteq> 0" using jn tr by (auto simp: p'_def trail_ok_def lit_ok_def)
  have leq: "level s (lvar (trail s ! x)) = int (lv (trail_lim s) x)" if "x < length (trail s)" for x
    using lev that by (simp add: level_ok_def)
  have lvj: "lv (trail_lim s) j = length (trail_lim s)"
    using leq [OF i(2)] i(3) lv_mono [OF j(2), of "trail_lim s"] lv_le [of "trail_lim s" j] by simp
  then have levp: "level s (lvar p') = ?cur" using leq [OF jn(1)] by (simp add: p'_def)
  define t1 where "t1 = t'\<lparr>seen := (seen t')(lvar p' := False)\<rparr>"
  have rt: "reason t1 = reason s" by (simp add: t1_def sel(6))
  let ?C1 = "{v. seen t1 v \<and> level s v \<ge> ?cur}"
  have pC: "lvar p' \<in> ?C" using j(4) levp by (simp add: p'_def)
  have C1: "?C1 = ?C - {lvar p'}" by (auto simp: t1_def)
  have "0 < card ?C" using fin pC by (metis card_gt_0_iff empty_iff)
  then have card: "counter' - 1 = int (card ?C1)"
    unfolding C1 C(1) using card_Diff_singleton [OF pC] by linarith
  have sub1: "?C1 \<subseteq> lvar ` set (take j (trail s))"
  proof
    fix v assume v: "v \<in> ?C1"
    then have "v \<in> lvar ` set (take n (trail s))" using C(2) C1 by blast
    then obtain x where x: "x < n" "x < length (trail s)" "v = lvar (trail s ! x)"
      by (auto simp: in_set_conv_nth)
    have "x \<noteq> j" using v x(3) C1 by (auto simp: p'_def)
    moreover have "\<not> j < x" using v x j(5) C1 by auto
    ultimately have "x < j" by simp
    then have "trail s ! x \<in> set (take j (trail s))" using jn by (auto simp: in_set_conv_nth)
    then show "v \<in> lvar ` set (take j (trail s))" using x(3) by blast
  qed
  have lowp: "lvar p' \<notin> lvar ` set (tl lrn')" using g' levp by (auto simp: gathered_def)
  have g1: "gathered s j (lrn', counter' - 1, t1)"
    unfolding gathered_def prod.case
  proof (intro conjI)
    show "same s t1" unfolding t1_def by (rule same_trans [OF st' same_seen])
    show "vsids_ok t1" "1 \<le> length lrn'" "distinct (map lvar (tl lrn'))"
      using g' by (simp_all add: gathered_def t1_def)
    have "\<forall>q \<in> set (tl lrn'). lvar q \<noteq> lvar p'" using lowp by (metis image_eqI)
    then show "\<forall>q \<in> set (tl lrn'). - q \<in> set (trail s) \<and> 0 < level s (lvar q) \<and>
        level s (lvar q) < ?cur \<and> seen t1 (lvar q)" using g' by (simp add: gathered_def t1_def)
    show "\<forall>v. seen t1 v \<longrightarrow> ?cur \<le> level s v \<or> v \<in> lvar ` set (tl lrn')"
      using g' by (simp add: gathered_def t1_def)
  qed (use card sub1 in auto)
  have dis: "\<exists>v. seen t' v \<and> assign s v \<noteq> Some (m v)" if m: "m \<in> mods s" for m
  proof (rule clause_disagrees [OF inv c m, of p])
    assume "p \<noteq> 0"
    then have "(\<exists>v. seen t v \<and> assign s v \<noteq> Some (m v)) \<or> sat_lit m (- p)" using p m by simp
    then show "(\<exists>v. seen t' v \<and> assign s v \<noteq> Some (m v)) \<or> sat_lit m (- p)" using mono by blast
  qed (use lits seen in auto)
  have satp: "sat_lit m (- p')" if "assign s (lvar p') \<noteq> Some (m (lvar p'))" for m
    using disagree_sat [OF tr, of "- p'"] p' that by simp
  have body: "analyze_body (length (trail_lim s)) (lrn, counter, p, idx, confl, t) =
    (if counter' - 1 \<le> 0 then Some (Inl (lrn', p', t1))
     else do { confl \<leftarrow> reason s (lvar p'); Some (Inr (lrn', counter' - 1, p', int j - 1, confl, t1)) })"
    using f j(1) jn(1) same_simps [OF same_trans [OF st' same_seen]]
    by (simp add: analyze_body_def clt Let_def sel(6,7) p'_def [symmetric] t1_def [symmetric] rt)
  show ?thesis
  proof (cases "counter' - 1 \<le> 0")
    case True
    then have empty: "?C1 = {}" using card fin C1 by simp
    then have sub: "\<And>v. seen t1 v \<Longrightarrow> v \<in> lvar ` set (tl lrn')" using g1 unfolding gathered_def by blast
    have "(\<exists>q \<in> set (tl lrn'). sat_lit m q) \<or> sat_lit m (- p')" if m: "m \<in> mods s" for m
    proof -
      from dis [OF m] obtain v where v: "seen t' v" "assign s v \<noteq> Some (m v)" by blast
      show ?thesis
      proof (cases "v = lvar p'")
        case True
        then show ?thesis using v satp by simp
      next
        case False
        then have "seen t1 v" using v(1) by (simp add: t1_def)
        then obtain q where q: "q \<in> set (tl lrn')" "v = lvar q" using sub by blast
        then have "- q \<in> set (trail s)" using g1 by (simp add: gathered_def)
        then show ?thesis using disagree_sat [OF tr] q v(2) by blast
      qed
    qed
    moreover have "gathered s 0 (lrn', counter' - 1, t1)"
      using g1 unfolding gathered_def prod.case by (simp only: empty) simp
    ultimately have "analyzed s (lrn', p', t1)" using p'(1) levp unfolding analyzed_def by blast
    then show ?thesis using body True by simp
  next
    case False
    have "?C1 \<noteq> {}"
    proof
      assume "?C1 = {}"
      then have "card ?C1 = 0" by (simp only: card.empty)
      with card False show False by linarith
    qed
    then obtain x where x: "x < j" "lvar (trail s ! x) \<in> ?C1" "x < length (trail s)"
      using sub1 jn by (fastforce simp: in_set_conv_nth)
    have "lv (trail_lim s) x = length (trail_lim s)"
      using leq [OF x(3)] x(2) lv_le [of "trail_lim s" x] by simp
    then have "\<forall>k \<in> set (trail_lim s). k \<le> x" unfolding lv_def
      by (metis filter_id_conv length_filter_less less_irrefl)
    then have "j \<notin> set (trail_lim s)" "lv (trail_lim s) j \<noteq> 0" using x(1) lvj lims by auto
    then obtain c' where c': "reason s (lvar p') = Some c'" "c' < length (cdb s)"
      "\<forall>q \<in> set (clits s c'). q \<noteq> p' \<longrightarrow> - q \<in> set (take j (trail s))"
      using rs [unfolded reason_ok_def, rule_format, OF jn(1)] unfolding p'_def
      by (auto split: option.splits)
    have "analyzing s (lrn', counter' - 1, p', int j - 1, c', t1)"
      unfolding analyzing_def
    proof (clarify, intro exI [of _ j] conjI)
      show "\<forall>q \<in> set (clits s c'). q \<noteq> p' \<longrightarrow> - q \<in> set (trail s) \<and>
          (level s (lvar q) \<ge> ?cur \<longrightarrow> - q \<in> set (take j (trail s)))"
        using c'(3) in_set_takeD by metis
      have "(\<exists>v. seen t1 v \<and> assign s v \<noteq> Some (m v)) \<or> sat_lit m (- p')" if "m \<in> mods s" for m
      proof -
        from dis [OF that] obtain v where v: "seen t' v" "assign s v \<noteq> Some (m v)" by blast
        then show ?thesis using satp [of m] by (cases "v = lvar p'") (auto simp: t1_def)
      qed
      then show "if p' = 0 then \<exists>q \<in> set (clits s c'). level s (lvar q) \<ge> ?cur
        else counter' - 1 > 0 \<and>
          (\<forall>m \<in> mods s. (\<exists>v. seen t1 v \<and> assign s v \<noteq> Some (m v)) \<or> sat_lit m (- p'))"
        using p'(2) False by auto
    qed (use jn g1 c' in auto)
    then show ?thesis using body False c'(1) n(1) jn by auto
  qed
qed

subsection \<open>The learned clause\<close>

lemma fold_argmax:
  assumes "\<forall>k \<in> set ks. k < n" "i < (n::nat)" and f: "\<And>k mx. f k mx = (if (g k :: int) > g mx then k else mx)"
  shows "fold f ks i \<in> insert i (set ks)" "k \<in> insert i (set ks) \<Longrightarrow> g k \<le> g (fold f ks i)"
  using assms(1,2)
proof (induction ks arbitrary: i k)
  case (Cons x ks)
  { case 1 then show ?case using Cons.IH(1) [of "f x i"] by (auto simp: f) }
  { case 2 then show ?case using Cons.IH(2) [of "f x i" "f x i"] Cons.IH(2) [of k "f x i"]
      by (auto simp: f split: if_splits) }
qed simp_all

lemma backjump_index:
  assumes "2 \<le> length ls"
  shows "1 \<le> backjump_index s ls" "backjump_index s ls < length ls"
    "1 \<le> k \<Longrightarrow> k < length ls \<Longrightarrow> level s (lvar (ls ! k)) \<le> level s (lvar (ls ! backjump_index s ls))"
proof -
  let ?f = "\<lambda>k mx. if level s (lvar (ls ! k)) > level s (lvar (ls ! mx)) then k else mx"
  note am = fold_argmax [of "[2..<length ls]" "length ls" 1 ?f "\<lambda>k. level s (lvar (ls ! k))"]
  have "backjump_index s ls \<in> insert 1 {2..<length ls}"
    using am(1) assms unfolding backjump_index_def by simp
  then show "1 \<le> backjump_index s ls" "backjump_index s ls < length ls" using assms by auto
  assume "1 \<le> k" "k < length ls"
  then have "k \<in> insert 1 (set [2..<length ls])" by auto
  from am(2) [OF _ _ _ this] show "level s (lvar (ls ! k)) \<le> level s (lvar (ls ! backjump_index s ls))"
    using assms unfolding backjump_index_def by simp
qed

lemma clear_seen:
  "clear_seen ls s = s\<lparr>seen := (\<lambda>v. seen s v \<and> v \<notin> lvar ` set ls)\<rparr>"
proof (induction ls arbitrary: s)
  case Nil
  then show ?case by (cases s) (simp add: clear_seen_def)
next
  case (Cons l ls)
  have "clear_seen (l # ls) s = clear_seen ls (s\<lparr>seen := (seen s)(lvar l := False)\<rparr>)"
    by (simp add: clear_seen_def)
  also have "\<dots> = s\<lparr>seen := (\<lambda>v. seen s v \<and> v \<notin> lvar ` set (l # ls))\<rparr>"
    unfolding Cons.IH by (cases s) (auto simp: fun_eq_iff)
  finally show ?case .
qed

text \<open>The promise of \<open>analyze\<close>.\<close>

definition learned :: "'a solver_scheme \<Rightarrow> int list \<Rightarrow> int \<Rightarrow> bool" where
  "learned s ls bj \<longleftrightarrow> ls \<noteq> [] \<and> distinct (map lvar ls) \<and> (\<forall>l \<in> set ls. - l \<in> set (trail s)) \<and>
     level s (lvar (ls ! 0)) = int (length (trail_lim s)) \<and>
     0 \<le> bj \<and> bj < int (length (trail_lim s)) \<and>
     (\<forall>l \<in> set (tl ls). 0 < level s (lvar l) \<and> level s (lvar l) \<le> bj) \<and>
     (if length ls = 1 then bj = 0 else level s (lvar (ls ! 1)) = bj) \<and>
     (\<forall>m \<in> mods s. sat_clause m ls)"

lemma analyze_ok:
  assumes inv: "inv s" and lims: "trail_lim s \<noteq> []" and c: "conflict_at s c"
  shows "\<exists>ls bj t. analyze c s = Some (ls, bj, t) \<and> learned s ls bj \<and> inv t \<and> same s t"
proof -
  let ?cur = "int (length (trail_lim s))"
  have b: "binv s" and tr: "trail_ok s" using inv by (simp_all add: inv_def binv_def)
  have start: "analyzing s ([0], 0, 0, int (length (trail s)) - 1, c, s)"
    unfolding analyzing_def gathered_def
    using inv c by (auto simp: conflict_at_def inv_def intro!: exI [of _ "length (trail s)"] bexI)
  have "\<exists>r. loop (analyze_body (decision_level s)) ([0], 0, 0, int (length (trail s)) - 1, c, s) = Some r \<and>
      analyzed s r"
  proof (rule loop_measure [where I = "analyzing s" and f = "\<lambda>(_, _, _, idx, _, _). nat (idx + 1)"])
    show "analyzing s ([0], 0, 0, int (length (trail s)) - 1, c, s)" by (rule start)
  next
    fix st assume a: "analyzing s st"
    obtain lrn counter p idx confl t where st: "st = (lrn, counter, p, idx, confl, t)"
      by (metis prod_cases6)
    from analyze_body_ok [OF b lims a [unfolded st]] st
    show "\<exists>x. analyze_body (decision_level s) st = Some x \<and> (case x of Inl r \<Rightarrow> analyzed s r
      | Inr st' \<Rightarrow> analyzing s st' \<and>
         (\<lambda>(_, _, _, idx, _, _). nat (idx + 1)) st' < (\<lambda>(_, _, _, idx, _, _). nat (idx + 1)) st)"
      unfolding decision_level_def by (fastforce split: sum.splits)
  qed
  then obtain lrn p t where lp: "loop (analyze_body (decision_level s))
      ([0], 0, 0, int (length (trail s)) - 1, c, s) = Some (lrn, p, t)" and an: "analyzed s (lrn, p, t)" by auto
  from an obtain n where g: "gathered s 0 (lrn, n, t)" and p: "p \<in> set (trail s)" "level s (lvar p) = ?cur"
    and imp: "\<forall>m \<in> mods s. (\<exists>q \<in> set (tl lrn). sat_lit m q) \<or> sat_lit m (- p)"
    by (auto simp: analyzed_def)
  have st: "same s t" "vsids_ok t" "1 \<le> length lrn" using g by (simp_all add: gathered_def)
  define l1 where "l1 = lrn[0 := - p]"
  have l1: "l1 = - p # tl lrn" using st(3) by (cases lrn) (auto simp: l1_def)
  have low: "\<forall>q \<in> set (tl lrn). - q \<in> set (trail s) \<and> 0 < level s (lvar q) \<and> level s (lvar q) < ?cur"
    and dist: "distinct (map lvar (tl lrn))" using g by (auto simp: gathered_def)
  have sub: "seen t v \<Longrightarrow> v \<in> lvar ` set (tl lrn)" for v using g by (auto simp: gathered_def)
  have pd: "lvar p \<notin> lvar ` set (tl lrn)" using low p(2) by auto
  have dist1: "distinct (map lvar l1)" using l1 dist pd by simp
  have all: "\<forall>l \<in> set l1. - l \<in> set (trail s)" using l1 low p(1) by auto
  have sat: "sat_clause m l1" if "m \<in> mods s" for m using imp that l1 by (auto simp: sat_clause_def)
  define mx where "mx = backjump_index t l1"
  define ls where "ls = (if length l1 = 1 then l1 else swap 1 mx l1)"
  define bj where "bj = (if length l1 = 1 then 0 else level t (lvar (ls ! 1)))"
  have res: "analyze c s = Some (ls, bj, clear_seen ls t)"
  proof -
    have "length lrn = length l1" by (simp add: l1_def)
    then show ?thesis unfolding analyze_def lp by (simp add: l1_def [symmetric] ls_def bj_def mx_def Let_def)
  qed
  have lt: "level t = level s" using same_simps(5) [OF st(1)] .
  have mset: "mset ls = mset l1" "ls ! 0 = l1 ! 0" "length ls = length l1"
    "length l1 \<noteq> 1 \<Longrightarrow> ls ! 1 = l1 ! mx \<and> 1 \<le> mx \<and> mx < length l1"
  proof -
    have "length l1 \<noteq> 1 \<Longrightarrow> 1 < length l1 \<and> 1 \<le> mx \<and> mx < length l1"
      using backjump_index(1,2) [of l1 t] l1 unfolding mx_def by (cases "tl lrn") auto
    moreover have "l1 \<noteq> []" using l1 by simp
    ultimately show "mset ls = mset l1" "ls ! 0 = l1 ! 0" "length ls = length l1"
      "length l1 \<noteq> 1 \<Longrightarrow> ls ! 1 = l1 ! mx \<and> 1 \<le> mx \<and> mx < length l1"
      using nth_swap [of 1 l1 mx 0] nth_swap [of 1 l1 mx 1] swap_mset [of 1 l1 mx]
      by (auto simp: ls_def simp del: One_nat_def)
  qed
  have set: "set ls = set l1" using mset(1) by (rule mset_eq_setD)
  have dls: "distinct (map lvar ls)"
    using dist1 mset_eq_imp_distinct_iff [of "map lvar ls" "map lvar l1"] mset(1) by simp
  have "learned s ls bj"
    unfolding learned_def
  proof (intro conjI)
    show "ls \<noteq> []" using mset(3) l1 by auto
    show "distinct (map lvar ls)" by (fact dls)
    show "\<forall>l \<in> set ls. - l \<in> set (trail s)" using all set by simp
    show "level s (lvar (ls ! 0)) = ?cur" using mset(2) l1 p(2) by simp
    have tls: "set (tl ls) \<subseteq> set (tl lrn)"
    proof
      fix l assume l: "l \<in> set (tl ls)"
      have "ls = - p # tl ls" using mset(2,3) l1 by (cases ls) auto
      then have "lvar l \<noteq> lvar p" using dls l by (metis distinct.simps(2) image_eqI list.map(2) list.set_map lvar_minus)
      moreover have "l \<in> set l1" using l set by (metis list.set_sel(2) tl_Nil)
      ultimately show "l \<in> set (tl lrn)" using l1 by auto
    qed
    have bj: "0 \<le> bj \<and> bj < ?cur \<and> (\<forall>l \<in> set (tl ls). level s (lvar l) \<le> bj)"
    proof (cases "length l1 = 1")
      case True
      then have "tl ls = []" using mset(3) by (cases ls) auto
      then show ?thesis using True lims by (simp add: bj_def)
    next
      case False
      then have mx: "ls ! 1 = l1 ! mx" "1 \<le> mx" "mx < length l1" using mset(4) by simp_all
      then have "l1 ! mx \<in> set (tl lrn)" using l1 by (cases mx) auto
      then have "0 < bj" "bj < ?cur" using low mx(1) False by (simp_all add: bj_def lt)
      moreover have "level s (lvar l) \<le> bj" if "l \<in> set (tl ls)" for l
      proof -
        have "l \<in> set (tl lrn)" using that tls by blast
        then obtain k where k: "k < length (tl lrn)" "l = tl lrn ! k" by (auto simp: in_set_conv_nth)
        have "Suc k < length l1" "l = l1 ! Suc k"
          by (simp_all only: l1 length_Cons nth_Cons_Suc Suc_less_eq k)
        then show ?thesis using backjump_index(3) [of l1 "Suc k" t] False mx(1)
          by (simp add: bj_def mx_def [symmetric] lt)
      qed
      ultimately show ?thesis by auto
    qed
    then show "0 \<le> bj" "bj < ?cur" by simp_all
    show "\<forall>l \<in> set (tl ls). 0 < level s (lvar l) \<and> level s (lvar l) \<le> bj" using bj tls low by auto
    show "if length ls = 1 then bj = 0 else level s (lvar (ls ! 1)) = bj"
      using mset(3) by (simp add: bj_def lt)
    show "\<forall>m \<in> mods s. sat_clause m ls" using sat set by (simp add: sat_clause_def)
  qed
  moreover have "same s (clear_seen ls t)" unfolding clear_seen by (rule same_trans [OF st(1) same_seen])
  moreover have "\<not> seen (clear_seen ls t) v" for v using sub [of v] set l1 by (auto simp: clear_seen)
  moreover have "inv (clear_seen ls t)"
  proof -
    have "binv u" if "same s u" for u
      using b same_simps [OF that] by (simp add: binv_parts cong: option.case_cong)
    moreover have "vsids_ok (clear_seen ls t)" using st(2) by (simp add: clear_seen)
    ultimately show ?thesis
      using \<open>same s (clear_seen ls t)\<close> \<open>\<And>v. \<not> seen (clear_seen ls t) v\<close> by (simp add: inv_def)
  qed
  ultimately show ?thesis using res by blast
qed

lemma keeps_same: "same s t \<Longrightarrow> keeps s t"
  using same_simps [of s t] by (auto simp: keeps_def mods_def facts_def root_trail_def cong: list.case_cong)

end
