(* ===== verification/Solver_Search.thy ===== *)
theory Solver_Search
  imports Solver_Analyze
begin

text \<open>
  The search of \<open>cdcl.py\<close>: \<open>solve\<close> returns for every solver in the invariant, answers True exactly
  when the clauses and assumptions have a model, leaves one in the assignment, and otherwise leaves a
  genuine unsat core. Termination rests on the number of facts, which every conflict increases.
\<close>

subsection \<open>Backtracking and the watch invariant\<close>

lemma trail_pos_level:
  assumes "binv s" "l \<in> set (trail s)" "k < length (trail_lim s)"
  shows "level s (lvar l) \<le> int k \<longleftrightarrow> l \<in> set (take (trail_lim s ! k) (trail s))"
proof -
  have lev: "level s (lvar (trail s ! i)) = int (lv (trail_lim s) i)" if "i < length (trail s)" for i
    using assms(1) that by (simp add: binv_def level_ok_def)
  have sorted: "sorted_wrt (<) (trail_lim s)" using assms(1) by (simp add: binv_def lim_ok_def)
  have iff: "level s (lvar (trail s ! i)) \<le> int k \<longleftrightarrow> i < trail_lim s ! k" if "i < length (trail s)" for i
    using lev [OF that] lv_iff [OF sorted assms(3), of i] by linarith
  obtain i where i: "i < length (trail s)" "l = trail s ! i" using assms(2) by (auto simp: in_set_conv_nth)
  have dist: "distinct (trail s)" using assms(1) by (auto simp: binv_def trail_ok_def distinct_map)
  show ?thesis
  proof
    assume "level s (lvar l) \<le> int k"
    then show "l \<in> set (take (trail_lim s ! k) (trail s))" using iff i by (auto simp: in_set_conv_nth)
  next
    assume "l \<in> set (take (trail_lim s ! k) (trail s))"
    then obtain x where "x < trail_lim s ! k" "x < length (trail s)" "l = trail s ! x"
      by (auto simp: in_set_conv_nth)
    then show "level s (lvar l) \<le> int k" using iff by blast
  qed
qed

lemma cancel_lit:
  assumes "binv s" "k < length (trail_lim s)" "l \<in> set (trail s)" "level s (lvar l) \<le> int k"
  shows "l \<in> set (trail (cancel_until k s))" "level (cancel_until k s) (lvar l) = level s (lvar l)"
proof -
  have n: "trail_lim s ! k \<le> length (trail s)" using assms(1,2) by (simp add: binv_def lim_ok_def less_imp_le)
  note sel = cancel_until_simps [OF assms(2) n]
  show mem: "l \<in> set (trail (cancel_until k s))" using trail_pos_level [OF assms(1,3,2)] assms(4) by (simp add: sel)
  obtain i where i: "i < length (trail (cancel_until k s))" "l = trail (cancel_until k s) ! i"
    using mem by (auto simp: in_set_conv_nth)
  have "level_ok (cancel_until k s)" "level_ok s" using binv_cancel [OF assms(1)] assms(1) by (simp_all add: binv_def)
  then show "level (cancel_until k s) (lvar l) = level s (lvar l)"
    using i n lv_take(1) [of "trail_lim s" k i] assms(1,2) unfolding level_ok_def
    by (auto simp: sel binv_def lim_ok_def)
qed

lemma W_cancel:
  assumes inv: "binv s" and W: "W s n" and k: "k < length (trail_lim s)" and n: "n \<le> trail_lim s ! k"
  shows "W (cancel_until k s) n"
proof -
  have le: "trail_lim s ! k \<le> length (trail s)" using inv k by (simp add: binv_def lim_ok_def less_imp_le)
  note sel = cancel_until_simps [OF k le]
  have "watch_ok (cancel_until k s) n a b" if w: "watch_ok s n a b" for a b
    unfolding watch_ok_def
  proof
    assume "- a \<in> set (take n (trail (cancel_until k s)))"
    then have a: "- a \<in> set (take n (trail s))" using n by (simp add: sel min_absorb1)
    then have at: "- a \<in> set (trail s)" "- a \<in> set (take (trail_lim s ! k) (trail s))"
      using n set_take_subset_set_take [of n "trail_lim s ! k" "trail s"] by (auto dest: in_set_takeD)
    then have la: "level s (lvar a) \<le> int k" using trail_pos_level [OF inv at(1) k] by simp
    from w a have b: "b \<in> set (trail s)" "level s (lvar b) \<le> level s (lvar a)" by (simp_all add: watch_ok_def)
    then show "b \<in> set (trail (cancel_until k s)) \<and>
        level (cancel_until k s) (lvar b) \<le> level (cancel_until k s) (lvar a)"
      using cancel_lit [OF inv k b(1)] cancel_lit(2) [OF inv k at(1)] la by simp
  qed
  then show ?thesis using W by (simp add: W_def)
qed

lemma cur_start_cancel:
  assumes "lim_ok s" "k < length (trail_lim s)"
  shows "cur_start (cancel_until k s) \<le> trail_lim s ! k" "cur_start (cancel_until k s) \<le> cur_start s"
    "trail_lim s ! k \<le> cur_start s"
proof -
  have sorted: "sorted_wrt (<) (trail_lim s)" using assms(1) by (simp add: lim_ok_def)
  show 1: "cur_start (cancel_until k s) \<le> trail_lim s ! k"
    using sorted_split(1) [OF sorted assms(2), of "last (take k (trail_lim s))"]
    by (auto simp: cur_start_def less_imp_le)
  have "trail_lim s \<noteq> []" using assms(2) by auto
  then have "last (trail_lim s) \<in> set (drop k (trail_lim s))"
    using assms(2) by (metis last_drop last_in_set drop_eq_Nil linorder_not_le)
  then show 2: "trail_lim s ! k \<le> cur_start s"
    using sorted_split(2) [OF sorted assms(2)] \<open>trail_lim s \<noteq> []\<close> by (simp add: cur_start_def)
  show "cur_start (cancel_until k s) \<le> cur_start s" using 1 2 by simp
qed

lemma ready_cancel:
  assumes "ready s"
  shows "ready (cancel_until k s)"
proof (cases "k < length (trail_lim s)")
  case False
  then show ?thesis using assms by (simp add: cancel_until_ge)
next
  case k: True
  have inv: "inv s" "binv s" "lim_ok s" and W: "W s (qhead s)" and cs: "cur_start s \<le> qhead s"
    using assms by (simp_all add: ready_def inv_def binv_def)
  have le: "trail_lim s ! k \<le> length (trail s)" using inv(3) k by (simp add: lim_ok_def less_imp_le)
  note sel = cancel_until_simps [OF k le]
  have "W (cancel_until k s) (min (qhead s) (trail_lim s ! k))"
    using W_mono [OF W, of "min (qhead s) (trail_lim s ! k)"] by (intro W_cancel [OF inv(2) _ k]) auto
  then show ?thesis
    using inv_cancel [OF inv(1)] cur_start_cancel [OF inv(3) k] cs by (simp add: ready_def sel)
qed

subsection \<open>Recording a learned clause\<close>

lemma facts_new:
  assumes inv: "inv s" and W: "W s (cur_start s)" and l: "learned s ls bj" and lims: "trail_lim s \<noteq> []"
  shows "set ls \<notin> facts s"
proof
  assume "set ls \<in> facts s"
  have b: "binv s" and tr: "trail_ok s" using inv by (simp_all add: inv_def binv_def)
  have all: "- q \<in> set (trail s)" if "q \<in> set ls" for q using l that by (simp add: learned_def)
  have cons: "q \<notin> set (trail s)" if "q \<in> set ls" for q using trail_consistent [OF tr all [OF that]] by simp
  from \<open>set ls \<in> facts s\<close> consider c where "c < length (cdb s)" "set ls = set (clits s c)"
    | r where "r \<in> set (root_trail s)" "set ls = {r}"
    by (auto simp: facts_def in_set_conv_nth clits_def)
  then show False
  proof cases
    case 2
    then have "r \<in> set (trail s)" by (auto simp: root_trail_def split: list.splits dest: in_set_takeD)
    then show False using cons 2(2) by auto
  next
    case (1 c)
    have cl: "clause_ok (n_vars s) (clits s c)" by (rule clits_clause_ok [OF b 1(1)])
    let ?a = "clits s c ! 0" and ?b = "clits s c ! 1"
    have mem: "?a \<in> set ls" "?b \<in> set ls" using cl 1(2) by (auto simp: clause_ok_def intro!: nth_mem)
    have "distinct (clits s c)" using cl by (auto simp: clause_ok_def distinct_map)
    moreover have "0 < length (clits s c)" "1 < length (clits s c)" using cl by (auto simp: clause_ok_def)
    ultimately have ne: "?a \<noteq> ?b" by (simp add: nth_eq_iff_index_eq)
    have early: "- q \<in> set (take (cur_start s) (trail s))" if q: "q \<in> set ls" "q \<noteq> ls ! 0" for q
    proof -
      have "q \<in> set (tl ls)" using q by (cases ls) auto
      then have "level s (lvar q) < int (length (trail_lim s))" using l by (auto simp: learned_def)
      then have "level s (lvar (- q)) \<le> int (length (trail_lim s) - 1)" by simp
      then have "- q \<in> set (take (trail_lim s ! (length (trail_lim s) - 1)) (trail s))"
        using trail_pos_level [OF b all [OF q(1)], of "length (trail_lim s) - 1"] lims by simp
      then show ?thesis using lims by (simp add: cur_start_def last_conv_nth)
    qed
    have w: "watch_ok s (cur_start s) ?a ?b" "watch_ok s (cur_start s) ?b ?a" using W 1(1) by (simp_all add: W_def)
    show False
    proof (cases "?a = ls ! 0")
      case True
      then have "- ?b \<in> set (take (cur_start s) (trail s))" using early mem(2) ne by simp
      then show False using w(2) cons [OF mem(1)] by (simp add: watch_ok_def)
    next
      case False
      then have "- ?a \<in> set (take (cur_start s) (trail s))" using early mem(1) by simp
      then show False using w(1) cons [OF mem(2)] by (simp add: watch_ok_def)
    qed
  qed
qed

lemma record_ok:
  assumes inv: "inv s" and W: "W s (cur_start s)" and l: "learned s ls bj" and lims: "trail_lim s \<noteq> []"
    and qh: "qhead s = length (trail s)"
  defines "u \<equiv> cancel_until (nat bj) s"
  defines "v \<equiv> record_learnt ls u"
  shows "ready v \<and> keeps s v \<and> set ls \<in> facts v \<and> trail_lim v = trail_lim u \<and> trail v = trail u @ [ls ! 0]"
proof -
  have b: "binv s" and tr: "trail_ok s" and lim: "lim_ok s" using inv by (simp_all add: inv_def binv_def)
  let ?k = "nat bj"
  have bj: "0 \<le> bj" "bj < int (length (trail_lim s))" "?k < length (trail_lim s)"
    using l by (auto simp: learned_def)
  have le: "trail_lim s ! ?k \<le> length (trail s)" using lim bj(3) by (simp add: lim_ok_def less_imp_le)
  note sel = cancel_until_simps [OF bj(3) le, folded u_def]
  have cs: "cur_start u \<le> trail_lim s ! ?k" "trail_lim s ! ?k \<le> cur_start s"
    using cur_start_cancel [OF lim bj(3)] by (simp_all add: u_def)
  have qu: "qhead u = length (trail u)" using qh le sel(7,9) by simp
  have iu: "inv u" "binv u" "trail_ok u" "lim_ok u"
    using inv_cancel [OF inv, of ?k] by (simp_all add: u_def inv_def binv_def)
  have Wu: "W u (qhead u)" unfolding u_def
    using W_cancel [OF b W_mono [OF W cs(2)] bj(3) order_refl] sel(9) qh le by (simp add: u_def min_absorb2)
  have ku: "keeps s u" unfolding u_def by (rule keeps_cancel [OF b])
  have ne: "ls \<noteq> []" using l by (simp add: learned_def)
  let ?l = "ls ! 0"
  have mem: "?l \<in> set ls" using ne by simp
  have all: "- q \<in> set (trail s)" if "q \<in> set ls" for q using l that by (simp add: learned_def)
  have oks: "lit_ok (n_vars u) q" if "q \<in> set ls" for q
    using all [OF that] tr keepsD(1) [OF ku] by (auto simp: trail_ok_def dest!: bspec)
  have low: "- q \<in> set (trail u)" "level u (lvar q) = level s (lvar q)" if q: "q \<in> set ls" "q \<noteq> ?l" for q
  proof -
    have "q \<in> set (tl ls)" using q by (cases ls) auto
    then have "level s (lvar (- q)) \<le> int ?k" using l bj(1) by (auto simp: learned_def)
    from cancel_lit [OF b bj(3) all [OF q(1)] this]
    show "- q \<in> set (trail u)" "level u (lvar q) = level s (lvar q)" by (simp_all add: u_def)
  qed
  have "- ?l \<notin> set (trail u)"
  proof
    assume "- ?l \<in> set (trail u)"
    then have "level s (lvar (- ?l)) \<le> int ?k" using trail_pos_level [OF b all [OF mem] bj(3)] by (simp add: sel(7))
    then show False using l bj by (simp add: learned_def)
  qed
  moreover have "?l \<notin> set (trail u)"
    using trail_consistent [OF tr all [OF mem]] sel(7) by (auto dest: in_set_takeD)
  ultimately have none: "val u ?l = None"
    using val_trail [OF iu(3), of ?l] oks [OF mem] by (cases "val u ?l") (auto simp: lit_ok_def)
  have mods: "\<forall>m \<in> mods u. sat_clause m ls" using l keepsD(2) [OF ku] by (simp add: learned_def)
  show ?thesis
  proof (cases "length ls = 1")
    case True
    then have bj0: "bj = 0" and ls: "ls = [?l]" using l by (auto simp: learned_def length_Suc_conv)
    then have tu: "trail_lim u = []" by (simp add: u_def)
    have v: "v = push ?l None [] u"
      using True enqueue_push [OF none, of None] tu by (simp add: v_def record_learnt_def cancel_until_ge)
    have sat: "\<forall>m \<in> mods u. sat_lit m ?l" using mods ls by (metis list.set(1,2) sat_clause_def singletonD)
    have k: "keeps u v" unfolding v using tu sat by (intro keeps_push [OF iu(4)]) auto
    have "binv v" unfolding v using tu by (intro binv_push [OF iu(2) oks [OF mem] none]) auto
    then have "inv v" using iu(1) by (simp add: inv_def vsids_ok_def v)
    moreover have "W v (qhead v)" unfolding v
      using tu qu W_push [OF iu(2) none Wu, of "[]" None] by simp
    moreover have "root_trail v = root_trail u @ [?l]" unfolding v using root_trail_push [OF iu(4), of "[]"] tu by simp
    then have "{?l} \<in> facts v" by (simp add: facts_def)
    then have "set ls \<in> facts v" by (subst ls) simp
    ultimately show ?thesis using keeps_trans [OF ku k] tu by (simp add: v ready_def cur_start_def)
  next
    case False
    define c where "c = length (cdb u)"
    define u1 where "u1 = u\<lparr>cdb := cdb u @ [\<lparr>lits = ls, learnt = True\<rparr>], learnts := learnts u @ [c]\<rparr>"
    define u2 where "u2 = attach c u1"
    have al: "alloc_of u ls u1" by (auto simp: alloc_of_def u1_def)
    have len: "2 \<le> length ls" using False ne by (cases ls; cases "tl ls") auto
    have cok: "clause_ok (n_vars u) ls" using l len oks by (simp add: clause_ok_def learned_def)
    have b2: "binv u2" unfolding u2_def c_def by (rule binv_attach [OF iu(2) cok al])
    have eq: "trail u2 = trail u" "trail_lim u2 = trail_lim u" "level u2 = level u" "qhead u2 = qhead u"
      "n_vars u2 = n_vars u" "assign u2 = assign u" "length (cdb u2) = Suc c"
      by (simp_all add: u2_def u1_def c_def)
    have cc: "clits u2 c = ls" "\<And>d. d < c \<Longrightarrow> clits u2 d = clits u d"
      by (simp_all add: u2_def u1_def c_def clits_def nth_append)
    have none2: "val u2 ?l = None" using none eq by (simp add: val_None)
    have v: "v = push ?l (Some c) (trail_lim u2) u2"
      using False enqueue_push [OF none2, of "Some c"]
      by (simp add: v_def record_learnt_def c_def u1_def u2_def Let_def)
    have "binv v" unfolding v using oks [OF mem] eq none2 cc mem low
      by (intro binv_push [OF b2]) auto
    moreover have "vsids_ok u2" "\<forall>v. \<not> seen u2 v" using iu(1) by (simp_all add: inv_def vsids_ok_def u2_def u1_def)
    ultimately have iv: "inv v" by (simp add: inv_def vsids_ok_def v)
    have k12: "keeps u u2" using mods_attach [OF al, of c] mods al
      by (auto simp: keeps_def u2_def alloc_of_def)
    have two: "ls ! 1 \<in> set ls" "ls ! 1 \<noteq> ?l"
      using len l nth_eq_iff_index_eq [of ls 1 0] by (auto simp: learned_def distinct_map)
    have lev1: "level s (lvar (ls ! 1)) = bj" using l False by (simp add: learned_def)
    have "ls ! 1 \<in> set (tl ls)" using two by (cases ls) auto
    then have "bj > 0" using l lev1 by (auto simp: learned_def)
    then have tl: "length (trail_lim u2) = nat bj" "trail_lim u2 \<noteq> []" using bj eq(2) sel(8) by auto
    have k2: "keeps u2 v" unfolding v using tl b2 by (intro keeps_push) (auto simp: binv_def)
    have tr2: "trail_ok u2" using b2 by (simp add: binv_def)
    have "W v (qhead v)"
      unfolding W_def
    proof (intro allI impI)
      fix d assume d: "d < length (cdb v)"
      have sel_v: "clits v = clits u2" "qhead v = qhead u" "length (cdb v) = Suc c" using eq by (simp_all add: v)
      show "watch_ok v (qhead v) (clits v d ! 0) (clits v d ! 1) \<and> watch_ok v (qhead v) (clits v d ! 1) (clits v d ! 0)"
      proof (cases "d = c")
        case False
        then have dc: "d < c" using d sel_v by simp
        have "watch_ok u2 (qhead u) x y" if "watch_ok u (qhead u) x y" for x y
          using that eq by (simp add: watch_ok_def)
        then have "watch_ok v (qhead u) x y" if "watch_ok u (qhead u) x y" for x y
          unfolding v using that qu eq(1) by (intro watch_ok_push [OF tr2 none2]) auto
        then show ?thesis using Wu dc cc(2) [OF dc] by (simp add: W_def sel_v c_def)
      next
        case True
        have "?l \<in> set (trail v)" "level v (lvar ?l) = bj" using tl bj by (simp_all add: v)
        moreover have "lvar (ls ! 1) \<noteq> lvar ?l"
          using l len nth_eq_iff_index_eq [of "map lvar ls" 1 0] by (force simp: learned_def)
        then have "level v (lvar (ls ! 1)) = bj" using low(2) [OF two] lev1 eq(3) by (simp add: v)
        moreover have "- ?l \<notin> set (take (qhead v) (trail v))"
          using \<open>- ?l \<notin> set (trail u)\<close> qu eq by (auto simp: v)
        ultimately show ?thesis using True cc(1) by (simp add: watch_ok_def sel_v)
      qed
    qed
    moreover have "cur_start v \<le> qhead v" using cs(1) eq qu sel(7) le by (auto simp: v cur_start_def)
    moreover have "set ls \<in> facts u2" using mods_attach(3) [OF al, of c] by (simp add: u2_def)
    then have "set ls \<in> facts v" using keepsD(3) [OF k2] by blast
    ultimately show ?thesis using iv keeps_trans [OF ku keeps_trans [OF k12 k2]] eq by (simp add: v ready_def)
  qed
qed

subsection \<open>Branching\<close>

lemma pick_branch_cases:
  assumes "vsids_ok s"
  shows "(pick_branch s = 0 \<and> (\<forall>v \<in> {1..n_vars s}. assign s v \<noteq> None)) \<or>
     (lit_ok (n_vars s) (pick_branch s) \<and> val s (pick_branch s) = None)"
proof -
  let ?f = "\<lambda>v (best, best_a). if assign s v = None \<and> activity s v > best_a then (v, activity s v) else (best, best_a)"
  have act: "0 \<le> activity s v" for v using assms by (simp add: vsids_ok_def)
  have "case fold ?f [1..<n + 1] (0, - 1) of (best, best_a) \<Rightarrow>
      (best = 0 \<and> best_a = - 1 \<and> (\<forall>v \<in> {1..n}. assign s v \<noteq> None)) \<or>
      (1 \<le> best \<and> best \<le> n \<and> assign s best = None)" for n
  proof (induction n)
    case (Suc n)
    have "[1..<Suc n + 1] = [1..<n + 1] @ [Suc n]" by simp
    then show ?case using Suc act [of "Suc n"]
      by (auto simp del: upt_Suc split: prod.splits if_splits simp: atLeastAtMostSuc_conv)
  qed simp
  from this [of "n_vars s"] show ?thesis
    unfolding pick_branch_def val_None lit_ok_def
    by (auto split: prod.splits if_splits simp: lvar_def simp del: upt_Suc)
qed

lemma decide_ready:
  assumes inv: "inv s" and W: "W s (length (trail s))" and q: "qhead s = length (trail s)"
    and l: "lit_ok (n_vars s) l" "val s l = None"
  shows "ready (decide l s)" "keeps s (decide l s)" "trail (decide l s) = trail s @ [l]"
    "trail_lim (decide l s) = trail_lim s @ [length (trail s)]"
proof -
  have b: "binv s" "lim_ok s" using inv by (simp_all add: inv_def binv_def)
  note d = decide_push [OF l(2)]
  have "binv (decide l s)" unfolding d by (intro binv_push [OF b(1) l]) auto
  then have "inv (decide l s)" using inv by (simp add: inv_def vsids_ok_def d)
  moreover have "W (decide l s) (qhead (decide l s))" unfolding d using q
    by (simp add: W_push [OF b(1) l(2) W])
  ultimately show "ready (decide l s)" using q by (simp add: ready_def d cur_start_def)
  show "keeps s (decide l s)" unfolding d by (intro keeps_push [OF b(2)]) auto
  show "trail (decide l s) = trail s @ [l]" "trail_lim (decide l s) = trail_lim s @ [length (trail s)]"
    by (simp_all add: d)
qed

text \<open>
  Every decision is an assumption, or was made when all assumptions held at lower levels.
\<close>

definition dec_ok :: "int list \<Rightarrow> 'a solver_scheme \<Rightarrow> bool" where
  "dec_ok A s \<longleftrightarrow> (\<forall>L < length (trail_lim s). \<exists>j \<le> length A.
     (\<forall>i < j. A ! i \<in> set (trail s) \<and> level s (lvar (A ! i)) \<le> int L) \<and>
     (j < length A \<longrightarrow> trail s ! (trail_lim s ! L) = A ! j))"

lemma dec_ok_cancel:
  assumes inv: "binv s" and d: "dec_ok A s"
  shows "dec_ok A (cancel_until k s)"
proof (cases "k < length (trail_lim s)")
  case False
  then show ?thesis using d by (simp add: cancel_until_ge)
next
  case k: True
  have le: "trail_lim s ! k \<le> length (trail s)" and sorted: "sorted_wrt (<) (trail_lim s)"
    using inv k by (simp_all add: binv_def lim_ok_def less_imp_le)
  note sel = cancel_until_simps [OF k le]
  show ?thesis
    unfolding dec_ok_def
  proof (intro allI impI)
    fix L assume "L < length (trail_lim (cancel_until k s))"
    then have L: "L < k" "L < length (trail_lim s)" by (simp_all add: sel)
    then obtain j where j: "j \<le> length A" "\<forall>i < j. A ! i \<in> set (trail s) \<and> level s (lvar (A ! i)) \<le> int L"
      "j < length A \<longrightarrow> trail s ! (trail_lim s ! L) = A ! j" using d unfolding dec_ok_def by blast
    have "trail_lim s ! L < trail_lim s ! k" using sorted L k by (simp add: sorted_wrt_iff_nth_less)
    then have "trail (cancel_until k s) ! (trail_lim (cancel_until k s) ! L) = trail s ! (trail_lim s ! L)"
      using L(1) by (simp add: sel)
    moreover have "A ! i \<in> set (trail (cancel_until k s)) \<and> level (cancel_until k s) (lvar (A ! i)) \<le> int L"
      if "i < j" for i
      using cancel_lit [OF inv k, of "A ! i"] j(2) that L(1) by fastforce
    ultimately show "\<exists>j \<le> length A. (\<forall>i < j. A ! i \<in> set (trail (cancel_until k s)) \<and>
        level (cancel_until k s) (lvar (A ! i)) \<le> int L) \<and>
        (j < length A \<longrightarrow> trail (cancel_until k s) ! (trail_lim (cancel_until k s) ! L) = A ! j)"
      using j(1,3) by metis
  qed
qed

lemma dec_ok_extend:
  assumes inv: "binv s" "binv t" and d: "dec_ok A s"
    and t: "trail t = trail s @ ext" "trail_lim t = trail_lim s"
  shows "dec_ok A t"
  unfolding dec_ok_def
proof (intro allI impI)
  fix L assume "L < length (trail_lim t)"
  then have L: "L < length (trail_lim s)" using t by simp
  then obtain j where j: "j \<le> length A" "\<forall>i < j. A ! i \<in> set (trail s) \<and> level s (lvar (A ! i)) \<le> int L"
    "j < length A \<longrightarrow> trail s ! (trail_lim s ! L) = A ! j" using d unfolding dec_ok_def by blast
  have "trail_lim s ! L < length (trail s)" using inv(1) L by (simp add: binv_def lim_ok_def)
  then have "trail t ! (trail_lim t ! L) = trail s ! (trail_lim s ! L)" using t by (simp add: nth_append)
  moreover have "A ! i \<in> set (trail t) \<and> level t (lvar (A ! i)) \<le> int L" if "i < j" for i
  proof -
    have m: "A ! i \<in> set (trail s)" "level s (lvar (A ! i)) \<le> int L" using j(2) that by auto
    then have "A ! i \<in> set (take (trail_lim s ! L) (trail s))" using trail_pos_level [OF inv(1) m(1) L] by simp
    then have "A ! i \<in> set (take (trail_lim t ! L) (trail t))" using t by simp
    then show ?thesis using trail_pos_level [OF inv(2), of "A ! i" L] L t m(1) by simp
  qed
  ultimately show "\<exists>j \<le> length A. (\<forall>i < j. A ! i \<in> set (trail t) \<and> level t (lvar (A ! i)) \<le> int L) \<and>
      (j < length A \<longrightarrow> trail t ! (trail_lim t ! L) = A ! j)"
    using j(1,3) by metis
qed

lemma dec_ok_decide:
  assumes inv: "inv s" "binv (decide l s)" and d: "dec_ok A s" and l: "val s l = None"
    and ui: "ui \<le> length A" "\<forall>i < ui. A ! i \<in> set (trail s)" "ui < length A \<Longrightarrow> l = A ! ui"
  shows "dec_ok A (decide l s)"
  unfolding dec_ok_def
proof (intro allI impI)
  have b: "binv s" "lim_ok s" "trail_ok s" using inv(1) by (simp_all add: inv_def binv_def)
  let ?t = "decide l s"
  have t: "trail ?t = trail s @ [l]" "trail_lim ?t = trail_lim s @ [length (trail s)]"
    by (simp_all add: decide_push [OF l])
  have free: "lvar l \<notin> lvar ` set (trail s)" using l unassigned_iff [OF b(3)] by (simp add: val_None)
  have lev: "level ?t (lvar x) = level s (lvar x)" if "x \<in> set (trail s)" for x
    using free that by (auto simp: decide_push [OF l]) (metis image_eqI)
  fix L assume "L < length (trail_lim ?t)"
  then consider "L < length (trail_lim s)" | "L = length (trail_lim s)" using t by fastforce
  then show "\<exists>j \<le> length A. (\<forall>i < j. A ! i \<in> set (trail ?t) \<and> level ?t (lvar (A ! i)) \<le> int L) \<and>
      (j < length A \<longrightarrow> trail ?t ! (trail_lim ?t ! L) = A ! j)"
  proof cases
    case 1
    then obtain j where j: "j \<le> length A" "\<forall>i < j. A ! i \<in> set (trail s) \<and> level s (lvar (A ! i)) \<le> int L"
      "j < length A \<longrightarrow> trail s ! (trail_lim s ! L) = A ! j" using d unfolding dec_ok_def by blast
    have "trail_lim s ! L < length (trail s)" using b(2) 1 by (simp add: lim_ok_def)
    then show ?thesis using j lev 1 t by (intro exI [of _ j]) (auto simp: nth_append)
  next
    case 2
    then show ?thesis using ui lev level_le [OF b(1)] t
      by (intro exI [of _ ui]) (auto simp: nth_append)
  qed
qed

subsection \<open>The failed-assumption core\<close>

definition core_inv :: "'a solver_scheme \<Rightarrow> int \<Rightarrow> int list \<Rightarrow> int set \<times> nat set \<times> nat list \<Rightarrow> bool" where
  "core_inv s failed B = (\<lambda>(core, sn, stack). failed \<in> core \<and> core \<subseteq> insert failed (set B) \<and>
     sn \<subseteq> lvar ` set (trail s) \<and> set stack \<subseteq> sn \<and> lvar failed \<in> sn \<and>
     (\<forall>v \<in> sn - set stack.
        (case reason s v of
           None \<Rightarrow> \<forall>b \<in> set B. lvar b = v \<longrightarrow> b \<in> core
         | Some c \<Rightarrow> \<forall>q \<in> set (clits s c). lvar q \<in> sn \<or> level s (lvar q) \<le> 0)))"

lemma core_push:
  assumes "\<forall>q \<in> set qs. lvar q \<in> V" "sn \<subseteq> V" "set stack \<subseteq> sn" "finite V"
    and "fold (\<lambda>q (sn, st). if lvar q \<notin> sn \<and> level s (lvar q) > 0
           then (insert (lvar q) sn, lvar q # st) else (sn, st)) qs (sn, stack) = (sn', stack')"
  shows "sn \<subseteq> sn'" "sn' \<subseteq> V" "set stack' \<subseteq> sn'" "sn' - set stack' = sn - set stack"
    "\<forall>q \<in> set qs. lvar q \<in> sn' \<or> level s (lvar q) \<le> 0"
    "2 * card (V - sn') + length stack' \<le> 2 * card (V - sn) + length stack"
proof -
  have "sn \<subseteq> sn' \<and> sn' \<subseteq> V \<and> set stack' \<subseteq> sn' \<and> sn' - set stack' = sn - set stack \<and>
     (\<forall>q \<in> set qs. lvar q \<in> sn' \<or> level s (lvar q) \<le> 0) \<and>
     2 * card (V - sn') + length stack' \<le> 2 * card (V - sn) + length stack"
    using assms
  proof (induction qs arbitrary: sn stack)
    case Nil
    then show ?case by simp
  next
    case (Cons q qs)
    show ?case
    proof (cases "lvar q \<notin> sn \<and> level s (lvar q) > 0")
      case True
      have "card (V - sn) = Suc (card (V - insert (lvar q) sn))"
      proof -
        have "lvar q \<in> V - sn" using True Cons.prems(1) by simp
        then have "card (V - sn) = Suc (card (V - sn - {lvar q}))"
          using Cons.prems(4) by (intro card.remove) auto
        moreover have "V - sn - {lvar q} = V - insert (lvar q) sn" by auto
        ultimately show ?thesis by simp
      qed
      moreover have "insert (lvar q) sn \<subseteq> V" "set (lvar q # stack) \<subseteq> insert (lvar q) sn"
        using Cons.prems(1-3) by auto
      moreover have "insert (lvar q) sn - set (lvar q # stack) = sn - set stack"
        using True Cons.prems(3) by auto
      ultimately show ?thesis
        using Cons.IH [of "insert (lvar q) sn" "lvar q # stack"] Cons.prems True by auto
    next
      case False
      then show ?thesis using Cons.IH [of sn stack] Cons.prems by auto
    qed
  qed
  then show "sn \<subseteq> sn'" "sn' \<subseteq> V" "set stack' \<subseteq> sn'" "sn' - set stack' = sn - set stack"
    "\<forall>q \<in> set qs. lvar q \<in> sn' \<or> level s (lvar q) \<le> 0"
    "2 * card (V - sn') + length stack' \<le> 2 * card (V - sn) + length stack" by simp_all
qed

lemma core_loop:
  assumes b: "binv s" and f: "- failed \<in> set (trail s)"
  shows "\<exists>core. loop (core_body s B) ({failed}, {lvar failed}, [lvar failed]) = Some core \<and>
     (\<exists>sn. core_inv s failed B (core, sn, []))"
proof (rule loop_measure [where I = "core_inv s failed B" and
    f = "\<lambda>(core, sn, stack). 2 * card (lvar ` set (trail s) - sn) + length stack"])
  have "lvar failed \<in> lvar ` set (trail s)" using f by (metis image_eqI lvar_minus)
  then show "core_inv s failed B ({failed}, {lvar failed}, [lvar failed])" by (simp add: core_inv_def)
next
  fix st assume I: "core_inv s failed B st"
  obtain core sn stack where st: "st = (core, sn, stack)" by (metis prod_cases3)
  let ?V = "lvar ` set (trail s)"
  show "\<exists>x. core_body s B st = Some x \<and> (case x of Inl core \<Rightarrow> \<exists>sn. core_inv s failed B (core, sn, [])
    | Inr st' \<Rightarrow> core_inv s failed B st' \<and>
        (case st' of (core, sn, stack) \<Rightarrow> 2 * card (?V - sn) + length stack)
        < (case st of (core, sn, stack) \<Rightarrow> 2 * card (?V - sn) + length stack))"
  proof (cases stack)
    case Nil
    then show ?thesis using I st by (auto simp: core_body_def)
  next
    case (Cons v stack1)
    show ?thesis
    proof (cases "reason s v")
      case None
      have "core_inv s failed B (core \<union> set (filter (\<lambda>a. lvar a = v) B), sn, stack1)"
        unfolding core_inv_def prod.case
      proof (intro conjI ballI)
        fix w assume w: "w \<in> sn - set stack1"
        show "case reason s w of
            None \<Rightarrow> \<forall>b \<in> set B. lvar b = w \<longrightarrow> b \<in> core \<union> set (filter (\<lambda>a. lvar a = v) B)
          | Some c \<Rightarrow> \<forall>q \<in> set (clits s c). lvar q \<in> sn \<or> level s (lvar q) \<le> 0"
        proof (cases "w = v")
          case True
          then show ?thesis using None by simp
        next
          case False
          then have "w \<in> sn - set stack" using w Cons by simp
          then show ?thesis using I unfolding st core_inv_def by (fastforce split: option.splits)
        qed
      qed (use I in \<open>auto simp: st Cons core_inv_def\<close>)
      then show ?thesis using None by (simp add: st Cons core_body_def)
    next
      case (Some c)
      have v: "v \<in> ?V" using I by (auto simp: st Cons core_inv_def)
      then obtain i where i: "i < length (trail s)" "v = lvar (trail s ! i)" by (auto simp: in_set_conv_nth)
      have qs: "lvar q \<in> ?V" if q: "q \<in> set (clits s c)" for q
      proof (cases "q = trail s ! i")
        case True
        then show ?thesis using i by auto
      next
        case False
        have "reason_ok s" using b by (simp add: binv_def)
        then have "- q \<in> set (take i (trail s))"
          using i Some q False unfolding reason_ok_def by (auto split: option.splits)
        then have "- q \<in> set (trail s)" by (rule in_set_takeD)
        then show ?thesis by (metis image_eqI lvar_minus)
      qed
      obtain sn' stack' where fold: "fold (\<lambda>q (sn, st). if lvar q \<notin> sn \<and> level s (lvar q) > 0
           then (insert (lvar q) sn, lvar q # st) else (sn, st)) (clits s c) (sn, stack1) = (sn', stack')"
        by fastforce
      have sub: "sn \<subseteq> ?V" "set stack1 \<subseteq> sn" "v \<in> sn" using I by (auto simp: st Cons core_inv_def)
      note cp = core_push [OF _ sub(1,2) _ fold]
      have qs': "\<forall>q \<in> set (clits s c). lvar q \<in> ?V" using qs by blast
      have "core_inv s failed B (core, sn', stack')"
        unfolding core_inv_def prod.case
      proof (intro conjI ballI)
        fix w assume "w \<in> sn' - set stack'"
        then have w: "w \<in> sn - set stack1" using cp(4) [OF qs'] by simp
        show "case reason s w of None \<Rightarrow> \<forall>b \<in> set B. lvar b = w \<longrightarrow> b \<in> core
            | Some c \<Rightarrow> \<forall>q \<in> set (clits s c). lvar q \<in> sn' \<or> level s (lvar q) \<le> 0"
        proof (cases "w = v")
          case True
          then show ?thesis using Some cp(5) [OF qs'] by simp
        next
          case False
          then have "w \<in> sn - set stack" using w Cons by simp
          then have "case reason s w of None \<Rightarrow> \<forall>b \<in> set B. lvar b = w \<longrightarrow> b \<in> core
              | Some c \<Rightarrow> \<forall>q \<in> set (clits s c). lvar q \<in> sn \<or> level s (lvar q) \<le> 0"
            using I by (simp add: st core_inv_def)
          then show ?thesis using cp(1) [OF qs'] by (cases "reason s w") (simp, simp, blast)
        qed
      qed (use I cp(1-3) [OF qs'] in \<open>auto simp: st core_inv_def\<close>)
      moreover have "2 * card (?V - sn') + length stack' < 2 * card (?V - sn) + length stack"
        using cp(6) [OF qs'] Cons by simp
      ultimately show ?thesis using Some fold by (simp add: st Cons core_body_def)
    qed
  qed
qed

text \<open>When an assumption is false, the walk reaches assumptions that no model satisfies together.\<close>

lemma assumption_core_ok:
  assumes inv: "inv s" and d: "dec_ok A s" and ui: "ui < length A" "\<forall>i < ui. A ! i \<in> set (trail s)"
    and f: "- (A ! ui) \<in> set (trail s)"
  shows "\<exists>core. assumption_core (A ! ui) (take (Suc ui) A) s = Some core \<and> set core \<subseteq> set A \<and>
     \<not> (\<exists>m \<in> mods s. \<forall>a \<in> set core. sat_lit m a)"
proof -
  let ?a = "A ! ui" and ?B = "take (Suc ui) A"
  have b: "binv s" and tr: "trail_ok s" and lev: "level_ok s" and rs: "reason_ok s" and lim: "lim_ok s"
    using inv by (simp_all add: inv_def binv_def)
  obtain core sn where loop: "loop (core_body s ?B) ({?a}, {lvar ?a}, [lvar ?a]) = Some core"
    and ci: "core_inv s ?a ?B (core, sn, [])" using core_loop [OF b f, of ?B] by auto
  have aB: "?a \<in> set ?B" using ui(1) by (auto simp: in_set_conv_nth)
  have core: "?a \<in> core" "core \<subseteq> set ?B" using ci aB by (auto simp: core_inv_def)
  have res: "assumption_core ?a ?B s = Some (filter (\<lambda>a. a \<in> core) ?B)" by (simp add: assumption_core_def loop)
  have set: "set (filter (\<lambda>a. a \<in> core) ?B) = core" using core(2) by auto
  have dec: "trail s ! i \<in> set ?B" if i: "i \<in> set (trail_lim s)" for i
  proof -
    obtain L where L: "L < length (trail_lim s)" "trail_lim s ! L = i" using i by (auto simp: in_set_conv_nth)
    then obtain j where j: "j \<le> length A" "\<forall>x < j. A ! x \<in> set (trail s)" "j < length A \<longrightarrow> trail s ! i = A ! j"
      using d unfolding dec_ok_def by blast
    have il: "i < length (trail s)" using lim i by (simp add: lim_ok_def)
    have "\<not> ui < j" using j(2) trail_consistent [OF tr f] by auto
    moreover have "j \<noteq> ui"
    proof
      assume "j = ui"
      then have "?a \<in> set (trail s)" using j(3) ui(1) il by (metis nth_mem)
      then show False using trail_consistent [OF tr] f by blast
    qed
    ultimately have "j < Suc ui" "j < length A" using ui(1) by simp_all
    then show ?thesis using j(3) by (auto simp: in_set_conv_nth)
  qed
  have "False" if m: "m \<in> mods s" "\<forall>a \<in> core. sat_lit m a" for m
  proof -
    have agree: "\<forall>v. v \<in> sn \<longrightarrow> v = lvar (trail s ! i) \<longrightarrow> i < length (trail s) \<longrightarrow> sat_lit m (trail s ! i)" for i
    proof (induction i rule: less_induct)
      case (less i)
      show ?case
      proof (intro allI impI)
        fix v assume v: "v \<in> sn" "v = lvar (trail s ! i)" and i: "i < length (trail s)"
        let ?l = "trail s ! i"
        have root: "sat_lit m q" if "q \<in> set (trail s)" "level s (lvar q) \<le> 0" for q
          using root_iff [OF b that] m(1) by (simp add: mods_def)
        show "sat_lit m ?l"
        proof (cases "reason s v")
          case None
          then have "lv (trail_lim s) i = 0 \<or> i \<in> set (trail_lim s)"
            using rs i v(2) unfolding reason_ok_def by (auto split: option.splits)
          then show ?thesis
          proof
            assume "lv (trail_lim s) i = 0"
            then show ?thesis using root [of ?l] lev i by (simp add: level_ok_def)
          next
            assume "i \<in> set (trail_lim s)"
            then have "?l \<in> set ?B" by (rule dec)
            then have "?l \<in> core" using ci v None by (auto simp: core_inv_def)
            then show ?thesis using m(2) by blast
          qed
        next
          case (Some c)
          have rc: "c < length (cdb s)" "\<forall>q \<in> set (clits s c). q \<noteq> ?l \<longrightarrow> - q \<in> set (take i (trail s))"
            using rs i v(2) Some unfolding reason_ok_def by (auto split: option.splits)
          obtain q where q: "q \<in> set (clits s c)" "sat_lit m q"
            using m(1) nth_mem [OF rc(1)] by (auto simp: mods_def sat_clause_def clits_def)
          have q0: "q \<noteq> 0" using clits_clause_ok [OF b rc(1)] q(1) by (auto simp: clause_ok_def lit_ok_def)
          have "q = ?l"
          proof (rule ccontr)
            assume "q \<noteq> ?l"
            then have nq: "- q \<in> set (take i (trail s))" using rc(2) q(1) by blast
            then obtain x where x: "x < i" "x < length (trail s)" "trail s ! x = - q"
              by (auto simp: in_set_conv_nth)
            have "case reason s v of None \<Rightarrow> \<forall>b \<in> set ?B. lvar b = v \<longrightarrow> b \<in> core
                | Some c \<Rightarrow> \<forall>q \<in> set (clits s c). lvar q \<in> sn \<or> level s (lvar q) \<le> 0"
              using ci v(1) by (simp add: core_inv_def)
            then have "lvar q \<in> sn \<or> level s (lvar q) \<le> 0" using Some q(1) by simp
            then have "sat_lit m (- q)"
            proof
              assume "lvar q \<in> sn"
              moreover have "lvar q = lvar (trail s ! x)" using x(3) by simp
              ultimately have "sat_lit m (trail s ! x)" using less.IH x(1,2) by blast
              then show ?thesis by (simp only: x(3))
            next
              assume "level s (lvar q) \<le> 0"
              then show ?thesis using root [of "- q"] in_set_takeD [OF nq] by simp
            qed
            then show False using q(2) q0 by simp
          qed
          then show ?thesis using q(2) by simp
        qed
      qed
    qed
    obtain i where i: "i < length (trail s)" "trail s ! i = - ?a" using f by (auto simp: in_set_conv_nth)
    have "lvar ?a \<in> sn" using ci by (simp add: core_inv_def)
    moreover have "lvar ?a = lvar (trail s ! i)" by (simp only: i(2) lvar_minus)
    ultimately have "sat_lit m (trail s ! i)" using agree i(1) by blast
    then have "sat_lit m (- ?a)" by (simp only: i(2))
    moreover have "sat_lit m ?a" using m(2) core(1) by blast
    moreover have "?a \<noteq> 0" using f tr by (auto simp: trail_ok_def lit_ok_def dest!: bspec)
    ultimately show False by simp
  qed
  then have "\<not> (\<exists>m \<in> mods s. \<forall>a \<in> set (filter (\<lambda>a. a \<in> core) ?B). sat_lit m a)"
    unfolding set by blast
  moreover have "set (filter (\<lambda>a. a \<in> core) ?B) \<subseteq> set A" by (auto dest: in_set_takeD)
  ultimately show ?thesis using res by blast
qed

subsection \<open>The search loop\<close>

lemma card_facts:
  assumes "binv s"
  shows "finite (facts s)" "card (facts s) \<le> card (Pow {- int (n_vars s)..int (n_vars s)})"
  using finite_facts_bound [OF assms] by (auto intro: finite_subset card_mono)

lemma root_conflict:
  assumes "inv s" "conflict_at s c" "trail_lim s = []"
  shows "mods s = {}"
proof -
  have "\<not> sat_clause m (clits s c)" if m: "m \<in> mods s" for m
  proof -
    have "\<not> sat_lit m l" if l: "l \<in> set (clits s c)" for l
    proof -
      have "- l \<in> set (root_trail s)" using assms(2,3) l by (simp add: conflict_at_def root_trail_def)
      then have "sat_lit m (- l)" using m by (simp add: mods_def)
      moreover have "l \<noteq> 0"
        using assms(1,2) clits_clause_ok [of s c] l by (auto simp: inv_def conflict_at_def clause_ok_def lit_ok_def)
      ultimately show ?thesis by simp
    qed
    then show ?thesis by (auto simp: sat_clause_def)
  qed
  moreover have "sat_clause m (clits s c)" if "m \<in> mods s" for m
    using that assms(2) by (auto simp: mods_def conflict_at_def clits_def)
  ultimately show ?thesis by blast
qed

lemma learned_same: "same s t \<Longrightarrow> learned s ls bj \<Longrightarrow> learned t ls bj"
  using same_simps [of s t] keepsD(2) [OF keeps_same, of s t] by (auto simp: learned_def)

lemma ready_decay: "ready s \<Longrightarrow> ready (decay s)" "keeps s (decay s)" "dec_ok A s \<Longrightarrow> dec_ok A (decay s)"
proof -
  have "binv (decay s) = binv s" by (simp add: decay_def binv_parts clits_def cong: option.case_cong)
  moreover have "vsids_ok s \<Longrightarrow> vsids_ok (decay s)" by (simp add: vsids_ok_def decay_def fmul_nonneg)
  ultimately show "ready s \<Longrightarrow> ready (decay s)"
    by (auto simp: ready_def inv_def W_def watch_ok_def cur_start_def) (auto simp: decay_def clits_def)
  show "keeps s (decay s)" by (simp add: keeps_def mods_def facts_def root_trail_def decay_def cong: list.case_cong)
  show "dec_ok A s \<Longrightarrow> dec_ok A (decay s)" by (simp add: dec_ok_def decay_def)
qed

lemma solve_conflict_ok:
  assumes inv: "inv s" and W: "W s (cur_start s)" and c: "conflict_at s c" and q: "qhead s = length (trail s)"
    and d: "dec_ok A s"
  shows "\<exists>x. solve_conflict c (rb, ra, cf, ui, s) = Some x \<and> (case x of
       Inl (b, s') \<Rightarrow> \<not> b \<and> s' = s \<and> mods s = {}
     | Inr (rb', ra', cf', ui', s') \<Rightarrow> ui' = 0 \<and> ready s' \<and> keeps s s' \<and> dec_ok A s' \<and>
         card (facts s) < card (facts s'))"
proof (cases "trail_lim s = []")
  case True
  then show ?thesis using root_conflict [OF inv c] by (simp add: solve_conflict_def decision_level_def)
next
  case False
  obtain ls bj t where an: "analyze c s = Some (ls, bj, t)" and l: "learned s ls bj" and it: "inv t" and st: "same s t"
    using analyze_ok [OF inv False c] by blast
  note sel = same_simps [OF st]
  define u where "u = cancel_until (nat bj) t"
  define v where "v = record_learnt ls u"
  have cs: "cur_start t = cur_start s" by (simp add: cur_start_def sel)
  have Wt: "W t (cur_start t)" using W by (simp add: W_def watch_ok_def cs sel)
  note lt = learned_same [OF st l]
  have rec: "ready v" "keeps t v" "set ls \<in> facts v" "trail_lim v = trail_lim u" "trail v = trail u @ [ls ! 0]"
    using record_ok [OF it Wt lt] False q by (simp_all add: sel u_def v_def)
  have bt: "binv t" "binv u" "binv v" using it rec(1) binv_cancel by (auto simp: inv_def u_def ready_def)
  have new: "set ls \<notin> facts t" using facts_new [OF it Wt lt] False by (simp add: sel)
  have "dec_ok A t" using d by (simp add: dec_ok_def sel)
  then have "dec_ok A u" unfolding u_def by (rule dec_ok_cancel [OF bt(1)])
  then have dv: "dec_ok A v" by (rule dec_ok_extend [OF bt(2,3) _ rec(5,4)])
  define w where "w = decay v"
  have w: "ready w" "keeps s w" "dec_ok A w"
    using ready_decay(1) [OF rec(1)] ready_decay(3) [OF dv] unfolding w_def
    by (auto intro: keeps_trans [OF keeps_same [OF st] keeps_trans [OF rec(2) ready_decay(2)]])
  have "insert (set ls) (facts t) \<subseteq> facts w"
    using rec(3) keepsD(3) [OF rec(2)] keepsD(3) [OF ready_decay(2) [of v]] by (auto simp: w_def)
  moreover have "facts t = facts s" by (simp add: facts_def root_trail_def sel cong: list.case_cong)
  moreover have bw: "binv w" using w(1) by (simp add: ready_def inv_def)
  ultimately have "card (insert (set ls) (facts s)) \<le> card (facts w)"
    by (intro card_mono) (simp_all add: card_facts(1))
  then have less: "card (facts s) < card (facts w)"
    using new \<open>facts t = facts s\<close> card_facts(1) [of s] inv by (simp add: inv_def)
  have "card (facts w) \<le> card (facts (cancel_until 0 w))"
    using keepsD(3) [OF keeps_cancel [OF bw]] card_facts(1) [OF binv_cancel [OF bw]] by (rule card_mono [rotated])
  then have "ready (cancel_until 0 w) \<and> keeps s (cancel_until 0 w) \<and> dec_ok A (cancel_until 0 w) \<and>
      card (facts s) < card (facts (cancel_until 0 w))"
    using ready_cancel [OF w(1)] keeps_trans [OF w(2) keeps_cancel [OF bw]] dec_ok_cancel [OF bw w(3)] less by simp
  then show ?thesis using False an w less
    by (simp add: solve_conflict_def decision_level_def Let_def u_def [symmetric] v_def [symmetric] w_def [symmetric])
qed

definition solved :: "int list \<Rightarrow> 'a solver_scheme \<Rightarrow> bool \<times> 'a solver_scheme \<Rightarrow> bool" where
  "solved A s = (\<lambda>(b, s'). inv s' \<and> n_vars s' = n_vars s \<and> mods s' = mods s \<and> true_lit s' = true_lit s \<and>
     empty_flag s' = empty_flag s \<and> solver.more s' = solver.more s \<and>
     (if b then (\<lambda>v. get_value v s') \<in> mods s \<and> (\<forall>a \<in> set A. sat_lit (\<lambda>v. get_value v s') a)
      else \<not> (\<exists>m \<in> mods s. \<forall>a \<in> set A. sat_lit m a) \<and>
        (\<not> empty_flag s \<longrightarrow> set (conflict_core s') \<subseteq> set A) \<and>
        \<not> (\<exists>m \<in> mods s. \<forall>a \<in> set (conflict_core s'). sat_lit m a)))"

text \<open>With every variable assigned and no conflict, the assignment is a model.\<close>

lemma total_model:
  assumes inv: "inv s" and W: "W s (length (trail s))" and full: "\<forall>v \<in> {1..n_vars s}. assign s v \<noteq> None"
    and e: "\<not> empty_flag s"
  shows "(\<lambda>v. get_value v s) \<in> mods s" "l \<in> set (trail s) \<Longrightarrow> sat_lit (\<lambda>v. get_value v s) l"
proof -
  have b: "binv s" "trail_ok s" using inv by (simp_all add: inv_def binv_def)
  let ?m = "\<lambda>v. get_value v s"
  have sat: "sat_lit ?m l" if "l \<in> set (trail s)" for l
    using b(2) that by (auto simp: trail_ok_def sat_lit_def get_value_def)
  then show "l \<in> set (trail s) \<Longrightarrow> sat_lit ?m l" by blast
  have "sat_clause ?m (clits s c)" if c: "c < length (cdb s)" for c
  proof -
    have cl: "clause_ok (n_vars s) (clits s c)" by (rule clits_clause_ok [OF b(1) c])
    let ?a = "clits s c ! 0" and ?b = "clits s c ! 1"
    have mem: "?a \<in> set (clits s c)" "?b \<in> set (clits s c)" using cl by (auto simp: clause_ok_def intro!: nth_mem)
    then have ok: "lit_ok (n_vars s) ?a" using cl by (simp add: clause_ok_def)
    then have "lvar ?a \<in> {1..n_vars s}" by (auto simp: lit_ok_def lvar_def)
    then obtain v where v: "val s ?a = Some v" using full val_None [of s ?a] by fastforce
    have "?a \<in> set (trail s) \<or> ?b \<in> set (trail s)"
    proof (cases v)
      case True
      then show ?thesis using v val_trail(1) [OF b(2), of ?a] ok by (simp add: lit_ok_def)
    next
      case False
      then have "- ?a \<in> set (trail s)" using v val_trail(2) [OF b(2), of ?a] ok by (simp add: lit_ok_def)
      then show ?thesis using W c by (simp add: W_def watch_ok_def)
    qed
    then show ?thesis using mem sat by (auto simp: sat_clause_def)
  qed
  then have "\<forall>c \<in> set (cdb s). sat_clause ?m (lits c)" by (auto simp: in_set_conv_nth clits_def)
  moreover have "\<forall>l \<in> set (root_trail s). sat_lit ?m l"
    using sat by (auto simp: root_trail_def split: list.splits dest: in_set_takeD)
  ultimately show "?m \<in> mods s" using e by (simp add: mods_def)
qed

definition searching ::
  "int list \<Rightarrow> 'a solver_scheme \<Rightarrow> nat \<times> nat \<times> nat \<times> nat \<times> 'a solver_scheme \<Rightarrow> bool" where
  "searching A s0 = (\<lambda>(rb, ra, cf, ui, s). ready s \<and> keeps s0 s \<and> ui \<le> length A \<and>
     (\<forall>i < ui. A ! i \<in> set (trail s)) \<and> dec_ok A s)"

definition search_measure ::
  "int list \<Rightarrow> nat \<Rightarrow> ((nat \<times> nat \<times> nat \<times> nat \<times> 'a solver_scheme) \<times>
      (nat \<times> nat \<times> nat \<times> nat \<times> 'a solver_scheme)) set" where
  "search_measure A n = measures
     [\<lambda>(_, _, _, _, s). card (Pow {- int n..int n}) - card (facts s),
      \<lambda>(_, _, _, _, s). n - length (trail s),
      \<lambda>(_, _, _, ui, _). length A - ui]"

lemma solve_branch_ok:
  assumes inv: "inv s" and W: "W s (length (trail s))" and q: "qhead s = length (trail s)"
    and k: "keeps s0 s" and e: "\<not> empty_flag s0" "conflict_core s0 = []" and d: "dec_ok A s"
    and ui: "ui \<le> length A" "\<forall>i < ui. A ! i \<in> set (trail s)" and A: "\<forall>a \<in> set A. lit_ok (n_vars s0) a"
  shows "\<exists>x. solve_branch A (rb, ra, cf, ui, s) = Some x \<and> (case x of
       Inl r \<Rightarrow> solved A s0 r
     | Inr st \<Rightarrow> searching A s0 st \<and> (st, (rb, ra, cf, ui, s)) \<in> search_measure A (n_vars s0))"
proof -
  have b: "binv s" "trail_ok s" using inv by (simp_all add: inv_def binv_def)
  have n: "n_vars s = n_vars s0" "mods s = mods s0" using keepsD [OF k] by simp_all
  have ready: "ready s" using inv W q b(1) unfolding ready_def
    by (auto simp: cur_start_def binv_def lim_ok_def less_imp_le)
  have step: "searching A s0 (rb, ra, cf, ui', decide l s) \<and>
      ((rb, ra, cf, ui', decide l s), (rb, ra, cf, ui, s)) \<in> search_measure A (n_vars s0)"
    if l: "lit_ok (n_vars s) l" "val s l = None" and ui': "ui < length A \<Longrightarrow> l = A ! ui"
      "ui' = (if ui < length A then ui + 1 else ui)" for l ui'
  proof -
    note dr = decide_ready [OF inv W q l]
    have bd: "binv (decide l s)" using dr(1) by (simp add: ready_def inv_def)
    have "dec_ok A (decide l s)" using dec_ok_decide [OF inv bd d l(2) ui] ui'(1) by simp
    moreover have "\<forall>i < ui'. A ! i \<in> set (trail (decide l s))"
      using ui(2) ui' by (auto simp: dr(3) less_Suc_eq split: if_splits)
    ultimately have "searching A s0 (rb, ra, cf, ui', decide l s)"
      using dr(1) keeps_trans [OF k dr(2)] ui(1) ui'(2) by (auto simp: searching_def)
    moreover have "card (facts s) \<le> card (facts (decide l s))"
      using keepsD(3) [OF dr(2)] card_facts(1) [OF bd] by (rule card_mono [rotated])
    moreover have "length (trail (decide l s)) \<le> n_vars s0"
      using trail_length [of "decide l s"] bd keepsD(1) [OF dr(2)] n(1) by (simp add: binv_def)
    ultimately show ?thesis using dr(3) by (auto simp: search_measure_def)
  qed
  show ?thesis
  proof (cases "ui < length A")
    case True
    let ?a = "A ! ui"
    have a: "lit_ok (n_vars s) ?a" using A True n(1) by simp
    then have a0: "?a \<noteq> 0" by (simp add: lit_ok_def)
    show ?thesis
    proof (cases "val s ?a")
      case None
      then show ?thesis using step [OF a None, of "ui + 1"] True by (simp add: solve_branch_def)
    next
      case (Some v)
      show ?thesis
      proof (cases v)
        case v: True
        then have "?a \<in> set (trail s)" using Some val_trail(1) [OF b(2) a0] by simp
        then have "\<forall>i < Suc ui. A ! i \<in> set (trail s)" using ui(2) by (auto simp: less_Suc_eq)
        then have "searching A s0 (rb, ra, cf, ui + 1, s)"
          using ready k True d by (simp add: searching_def)
        moreover have "((rb, ra, cf, ui + 1, s), (rb, ra, cf, ui, s)) \<in> search_measure A (n_vars s0)"
          using True by (simp add: search_measure_def)
        ultimately show ?thesis using Some v True by (simp add: solve_branch_def)
      next
        case False
        then have "- ?a \<in> set (trail s)" using Some val_trail(2) [OF b(2) a0] by simp
        from assumption_core_ok [OF inv d True ui(2) this] obtain core
          where core: "assumption_core ?a (take (Suc ui) A) s = Some core" "set core \<subseteq> set A"
            "\<not> (\<exists>m \<in> mods s. \<forall>a \<in> set core. sat_lit m a)" by blast
        let ?s = "s\<lparr>conflict_core := core\<rparr>"
        have "inv ?s" using inv unfolding inv_def binv_parts vsids_ok_def clits_def
          by (simp cong: option.case_cong)
        moreover have "mods ?s = mods s" by (simp add: mods_def root_trail_def cong: list.case_cong)
        moreover have "\<not> (\<exists>m \<in> mods s. \<forall>a \<in> set A. sat_lit m a)" using core(2,3) by blast
        ultimately have "solved A s0 (False, ?s)"
          using core n keepsD [OF k] by (simp add: solved_def)
        then show ?thesis using Some False True core(1) by (simp add: solve_branch_def)
      qed
    qed
  next
    case False
    show ?thesis
    proof (cases "pick_branch s = 0")
      case True
      then have full: "\<forall>v \<in> {1..n_vars s}. assign s v \<noteq> None"
        using pick_branch_cases [of s] inv by (auto simp: inv_def lit_ok_def)
      have es: "\<not> empty_flag s" using keepsD [OF k] e by simp
      note tm = total_model [OF inv W full es]
      have "\<forall>a \<in> set A. sat_lit (\<lambda>v. get_value v s) a"
        using tm(2) ui False by (auto simp: in_set_conv_nth)
      then have "solved A s0 (True, s)" using tm(1) inv n keepsD [OF k] by (simp add: solved_def)
      then show ?thesis using True False by (simp add: solve_branch_def)
    next
      case nz: False
      then have "lit_ok (n_vars s) (pick_branch s)" "val s (pick_branch s) = None"
        using pick_branch_cases [of s] inv by (auto simp: inv_def)
      from step [OF this, of ui] False show ?thesis using nz by (simp add: solve_branch_def)
    qed
  qed
qed

lemma dec_ok_propagated:
  assumes "ready s" "propagated s (r, t)" "dec_ok A s"
  shows "dec_ok A t"
proof -
  obtain ext where ext: "trail t = trail s @ ext" using assms(2) by (auto simp: propagated_def)
  have t: "binv s" "binv t" "trail_lim t = trail_lim s"
    using assms(1,2) by (simp_all add: ready_def inv_def propagated_def)
  show ?thesis by (rule dec_ok_extend [OF t(1,2) assms(3) ext t(3)])
qed

lemma solve_body_ok:
  assumes s: "searching A s0 (rb, ra, cf, ui, s)" and e: "\<not> empty_flag s0" "conflict_core s0 = []"
    and A: "\<forall>a \<in> set A. lit_ok (n_vars s0) a"
  shows "\<exists>x. solve_body A (rb, ra, cf, ui, s) = Some x \<and> (case x of
       Inl r \<Rightarrow> solved A s0 r
     | Inr st \<Rightarrow> searching A s0 st \<and> (st, (rb, ra, cf, ui, s)) \<in> search_measure A (n_vars s0))"
proof -
  have ready: "ready s" and k: "keeps s0 s" and ui: "ui \<le> length A" "\<forall>i < ui. A ! i \<in> set (trail s)"
    and d: "dec_ok A s" using s by (simp_all add: searching_def)
  obtain r t where pr: "propagate s = Some (r, t)" and pp: "propagated s (r, t)"
    using propagate_ok [OF ready] by auto
  have t: "keeps s t" "inv t" "qhead t = length (trail t)" "\<exists>ext. trail t = trail s @ ext"
    using pp by (simp_all add: propagated_def)
  have bt: "binv t" using t(2) by (simp add: inv_def)
  have kt: "keeps s0 t" by (rule keeps_trans [OF k t(1)])
  have dt: "dec_ok A t" by (rule dec_ok_propagated [OF ready pp d])
  have uit: "\<forall>i < ui. A ! i \<in> set (trail t)" using ui(2) t(4) by auto
  have nt: "n_vars t = n_vars s0" "n_vars s = n_vars s0" using keepsD(1) [OF kt] keepsD(1) [OF k] by simp_all
  have grow: "card (facts s) \<le> card (facts t)" "length (trail s) \<le> length (trail t)"
    "card (facts t) \<le> card (Pow {- int (n_vars s0)..int (n_vars s0)})"
    using keepsD(3) [OF t(1)] card_facts [OF bt] t(4) nt by (auto intro: card_mono)
  show ?thesis
  proof (cases r)
    case None
    then have W: "W t (length (trail t))" using pp by (simp add: propagated_def)
    from solve_branch_ok [OF t(2) W t(3) kt e dt ui(1) uit A, of rb ra cf]
    obtain x where x: "solve_branch A (rb, ra, cf, ui, t) = Some x" "case x of Inl r \<Rightarrow> solved A s0 r
       | Inr st \<Rightarrow> searching A s0 st \<and> (st, (rb, ra, cf, ui, t)) \<in> search_measure A (n_vars s0)" by blast
    have "(st, (rb, ra, cf, ui, s)) \<in> search_measure A (n_vars s0)"
      if "(st, (rb, ra, cf, ui, t)) \<in> search_measure A (n_vars s0)" for st
    proof -
      let ?N = "card (Pow {- int (n_vars s0)..int (n_vars s0)})"
      have "?N - card (facts t) \<le> ?N - card (facts s)" using grow(1) by (rule diff_le_mono2)
      moreover have "n_vars s0 - length (trail t) \<le> n_vars s0 - length (trail s)"
        using grow(2) by (rule diff_le_mono2)
      moreover obtain rb' ra' cf' ui' u where "st = (rb', ra', cf', ui', u)" by (metis prod_cases5)
      ultimately show ?thesis using that unfolding search_measure_def in_measures prod.case by linarith
    qed
    then have "case x of Inl r \<Rightarrow> solved A s0 r
       | Inr st \<Rightarrow> searching A s0 st \<and> (st, (rb, ra, cf, ui, s)) \<in> search_measure A (n_vars s0)"
      using x(2) by (cases x) auto
    then show ?thesis using x(1) None pr by (simp add: solve_body_def)
  next
    case (Some c)
    then have W: "W t (cur_start t)" "conflict_at t c" using pp by (simp_all add: propagated_def)
    from solve_conflict_ok [OF t(2) W t(3) dt, of rb ra cf ui]
    obtain x where x: "solve_conflict c (rb, ra, cf, ui, t) = Some x" "case x of
       Inl (b, s') \<Rightarrow> \<not> b \<and> s' = t \<and> mods t = {}
     | Inr (rb', ra', cf', ui', s') \<Rightarrow> ui' = 0 \<and> ready s' \<and> keeps t s' \<and> dec_ok A s' \<and>
         card (facts t) < card (facts s')" by blast
    have "case x of Inl r \<Rightarrow> solved A s0 r
       | Inr st \<Rightarrow> searching A s0 st \<and> (st, (rb, ra, cf, ui, s)) \<in> search_measure A (n_vars s0)"
    proof (cases x)
      case (Inl r)
      then have "r = (False, t)" "mods t = {}" using x(2) by auto
      then have "solved A s0 r" using t(2) keepsD [OF kt] e by (simp add: solved_def)
      then show ?thesis using Inl by simp
    next
      case (Inr st)
      obtain rb' ra' cf' ui' s' where st: "st = (rb', ra', cf', ui', s')" by (metis prod_cases5)
      have s': "ui' = 0" "ready s'" "keeps t s'" "dec_ok A s'" "card (facts t) < card (facts s')"
        using x(2) Inr st by simp_all
      have "card (facts s') \<le> card (Pow {- int (n_vars s0)..int (n_vars s0)})"
        using card_facts(2) [of s'] s'(2) keepsD(1) [OF s'(3)] nt by (simp add: ready_def inv_def)
      then have "card (Pow {- int (n_vars s0)..int (n_vars s0)}) - card (facts s')
          < card (Pow {- int (n_vars s0)..int (n_vars s0)}) - card (facts s)"
        using s'(5) grow(1) by linarith
      then show ?thesis using Inr st s' keeps_trans [OF kt s'(3)]
        by (simp add: searching_def search_measure_def)
    qed
    then show ?thesis using x(1) Some pr by (simp add: solve_body_def)
  qed
qed

text \<open>The promise of \<open>solve\<close>.\<close>

lemma solve_ok:
  assumes inv: "inv s0" and A: "\<forall>a \<in> set A. lit_ok (n_vars s0) a"
  shows "\<exists>r. solve A s0 = Some r \<and> solved A s0 r"
proof (cases "empty_flag s0")
  case True
  then have "mods s0 = {}" by (simp add: mods_def)
  then have "solved A s0 (False, s0)" using inv True by (simp add: solved_def)
  then show ?thesis using True by (simp add: solve_def)
next
  case e: False
  define s where "s = (cancel_until 0 s0)\<lparr>qhead := 0, conflict_core := []\<rparr>"
  have ic: "inv (cancel_until 0 s0)" by (rule inv_cancel [OF inv])
  have kc: "keeps s0 (cancel_until 0 s0)" using inv by (intro keeps_cancel) (simp add: inv_def)
  have tl: "trail_lim s = []" by (simp add: s_def)
  have inv0: "inv s" using ic unfolding s_def inv_def binv_parts vsids_ok_def clits_def
    by (simp cong: option.case_cong)
  have ms: "mods s = mods s0" using keepsD(2) [OF kc]
    by (simp add: s_def mods_def root_trail_def cong: list.case_cong)
  have fr: "n_vars s = n_vars s0" "empty_flag s = empty_flag s0" "true_lit s = true_lit s0"
    "solver.more s = solver.more s0" "conflict_core s = []" by (simp_all add: s_def)
  have ready: "ready s" using inv0 tl by (simp add: ready_def s_def cur_start_def)
  obtain r t where pr: "propagate s = Some (r, t)" and pp: "propagated s (r, t)"
    using propagate_ok [OF ready] by auto
  have t: "keeps s t" "inv t" "trail_lim t = []" using pp tl by (simp_all add: propagated_def)
  have lift: "solved A s0 x" if "solved A s x" for x using that ms fr
    by (cases x) (simp add: solved_def split: if_splits)
  have sol: "solve A s0 = (case r of Some _ \<Rightarrow> Some (False, t)
      | None \<Rightarrow> loop (solve_body A) (100, 100, 0, 0, t))"
    using e pr by (simp add: solve_def s_def [symmetric] Let_def)
  show ?thesis
  proof (cases r)
    case (Some c)
    then have "conflict_at t c" using pp by (simp add: propagated_def)
    then have "mods t = {}" by (rule root_conflict [OF t(2) _ t(3)])
    then have "solved A s (False, t)" using t(2) keepsD [OF t(1)] fr by (simp add: solved_def)
    then show ?thesis using sol Some lift by simp
  next
    case None
    have "ready t" using t(2,3) pp None W_mono by (simp add: propagated_def ready_def cur_start_def)
    then have "searching A s (100, 100, 0, 0, t)" using t by (simp add: searching_def dec_ok_def)
    then have "\<exists>x. loop (solve_body A) (100, 100, 0, 0, t) = Some x \<and> solved A s x"
    proof (rule loop_total [where R = "search_measure A (n_vars s)" and I = "searching A s", rotated])
      show "wf (search_measure A (n_vars s))" unfolding search_measure_def by (rule wf_measures)
      fix st assume st: "searching A s st"
      obtain rb ra cf ui u where eq: "st = (rb, ra, cf, ui, u)" by (metis prod_cases5)
      show "\<exists>x. solve_body A st = Some x \<and> (case x of Inl r \<Rightarrow> solved A s r
          | Inr st' \<Rightarrow> searching A s st' \<and> (st', st) \<in> search_measure A (n_vars s))"
        unfolding eq using solve_body_ok [OF st [unfolded eq]] e fr A by simp
    qed
    then show ?thesis using sol None lift by auto
  qed
qed

end
