(* ===== verification/Encode.thy ===== *)
theory Encode
  imports Signals Solver_Search
begin

text \<open>
  The Tseitin encoding of \<open>circuit.py\<close>: \<open>tseitin\<close> adds the clauses of a signal to a solver and returns
  the literal of its root. The method \<open>add_clause\<close> it calls is a parameter, since two subclasses of
  \<open>Solver\<close> override it; the locale \<open>clause_sink\<close> states what every override has to keep, and the
  correctness of the encoding is proved from that alone. Naming the gates for the trace
  (\<open>_name_gate\<close>) and Python's recursion limit are not modelled.
\<close>

subsection \<open>The encoder\<close>

type_synonym env = "string \<rightharpoonup> int"     \<comment> \<open>variable name to literal\<close>
type_synonym lit_memo = "nat \<rightharpoonup> int"   \<comment> \<open>\<open>Sig.id\<close> to literal\<close>
type_synonym 'a adder = "int list \<Rightarrow> 'a solver_scheme \<Rightarrow> bool \<times> 'a solver_scheme"

definition get_true_lit :: "'a adder \<Rightarrow> 'a solver_scheme \<Rightarrow> int \<times> 'a solver_scheme" where
  "get_true_lit add s =
     (case true_lit s of
        Some t \<Rightarrow> (t, s)
      | None \<Rightarrow>
          let (v, s1) = new_var s; t = int v; s2 = snd (add [t] s1)
          in (t, s2\<lparr>true_lit := Some t\<rparr>))"

fun gate_clauses :: "sig \<Rightarrow> int \<Rightarrow> int list \<Rightarrow> int list list option" where
  "gate_clauses (SAnd _ _) y ls = Some (map (\<lambda>l. [- y, l]) ls @ [y # map uminus ls])"
| "gate_clauses (SOr _ _) y ls = Some ((- y # ls) # map (\<lambda>l. [y, - l]) ls)"
| "gate_clauses (SXor _ _ _) y [a, b] = Some [[- y, - a, - b], [- y, a, b], [y, - a, b], [y, a, - b]]"
| "gate_clauses (SIte _ _ _ _) y [c, t, e] = Some [[- c, - t, y], [- c, t, - y], [c, - e, y], [c, e, - y]]"
| "gate_clauses _ _ _ = None"

primrec add_clauses :: "'a adder \<Rightarrow> int list list \<Rightarrow> 'a solver_scheme \<Rightarrow> 'a solver_scheme" where
  "add_clauses add [] s = s"
| "add_clauses add (c # cs) s = add_clauses add cs (snd (add c s))"

text \<open>The gate's fresh variable and its defining clauses.\<close>

definition add_gate ::
  "'a adder \<Rightarrow> sig \<Rightarrow> int list \<Rightarrow> lit_memo \<Rightarrow> 'a solver_scheme \<Rightarrow> (int \<times> lit_memo \<times> 'a solver_scheme) option" where
  "add_gate add g ls memo s = do {
     let (v, s1) = new_var s;
     let y = int v;
     cls \<leftarrow> gate_clauses g y ls;
     Some (y, memo(sid g \<mapsto> y), add_clauses add cls s1) }"

text \<open>A size that decreases along the mutual recursion of the encoder.\<close>

fun weight :: "sig \<Rightarrow> nat" where
  "weight (SNot _ a) = Suc (Suc (weight a))"
| "weight (SAnd _ xs) = Suc (sum_list (map (\<lambda>x. Suc (weight x)) xs))"
| "weight (SOr _ xs) = Suc (sum_list (map (\<lambda>x. Suc (weight x)) xs))"
| "weight (SXor _ a b) = Suc (Suc (weight a) + Suc (weight b))"
| "weight (SIte _ c t e) = Suc (Suc (weight c) + Suc (weight t) + Suc (weight e))"
| "weight _ = 1"

lemma weight_args: "sum_list (map (\<lambda>x. Suc (weight x)) (args g)) < weight g"
  by (cases g) auto

lemma weight_arg: "a \<in> set (args g) \<Longrightarrow> weight a < weight g"
  using weight_args [of g] member_le_sum_list [of "Suc (weight a)" "map (\<lambda>x. Suc (weight x)) (args g)"] by force

fun is_leaf_sig :: "sig \<Rightarrow> bool" where
  "is_leaf_sig (SConst _ _) = True"
| "is_leaf_sig (SVar _ _) = True"
| "is_leaf_sig _ = False"

function tseitin ::
  "'a adder \<Rightarrow> sig \<Rightarrow> env \<Rightarrow> lit_memo \<Rightarrow> 'a solver_scheme \<Rightarrow> (int \<times> lit_memo \<times> 'a solver_scheme) option" and
  tseitin_args ::
  "'a adder \<Rightarrow> sig list \<Rightarrow> env \<Rightarrow> lit_memo \<Rightarrow> 'a solver_scheme \<Rightarrow>
     (int list \<times> lit_memo \<times> 'a solver_scheme) option" where
  "tseitin add g env memo s =
     (case g of
        SConst _ b \<Rightarrow> let (t, s1) = get_true_lit add s in Some (if b then t else - t, memo, s1)
      | SVar _ x \<Rightarrow> do { l \<leftarrow> env x; Some (l, memo, s) }
      | _ \<Rightarrow>
        (case memo (sid g) of
           Some l \<Rightarrow> Some (l, memo, s)
         | None \<Rightarrow>
           (case g of
              SNot _ a \<Rightarrow> do {
                (l, memo, s) \<leftarrow> tseitin add a env memo s;
                Some (- l, memo(sid g \<mapsto> - l), s) }
            | _ \<Rightarrow> do {
                (ls, memo, s) \<leftarrow> tseitin_args add (args g) env memo s;
                add_gate add g ls memo s })))"
| "tseitin_args add [] env memo s = Some ([], memo, s)"
| "tseitin_args add (a # as) env memo s = do {
     (l, memo, s) \<leftarrow> tseitin add a env memo s;
     (ls, memo, s) \<leftarrow> tseitin_args add as env memo s;
     Some (l # ls, memo, s) }"

  by pat_completeness auto

termination
  by (relation "measure (\<lambda>x. case x of Inl (_, g, _) \<Rightarrow> weight g
                                    | Inr (_, gs, _) \<Rightarrow> sum_list (map (\<lambda>x. Suc (weight x)) gs))")
    (auto simp: weight_args)

declare tseitin.simps [simp del]

subsection \<open>What an encoding keeps\<close>

definition sinv :: "'a solver_scheme \<Rightarrow> bool" where
  "sinv s \<longleftrightarrow> inv s \<and> (\<forall>t. true_lit s = Some t \<longrightarrow> lit_ok (n_vars s) t \<and> (\<forall>m \<in> mods s. sat_lit m t))"

text \<open>
  \<open>extends s s'\<close>: \<open>s'\<close> has more variables and more clauses, and every model of \<open>s\<close> extends to one of \<open>s'\<close>.
\<close>

definition extends :: "'a solver_scheme \<Rightarrow> 'a solver_scheme \<Rightarrow> bool" where
  "extends s s' \<longleftrightarrow> sinv s' \<and> n_vars s \<le> n_vars s' \<and> mods s' \<subseteq> mods s \<and>
     (\<forall>m \<in> mods s. \<exists>m' \<in> mods s'. \<forall>v \<le> n_vars s. m' v = m v)"

lemma extends_refl: "sinv s \<Longrightarrow> extends s s"
  by (auto simp: extends_def)

lemma extends_trans [trans]: "extends s s' \<Longrightarrow> extends s' s'' \<Longrightarrow> extends s s''"
  unfolding extends_def by (meson le_trans subset_trans)

lemma extendsD: "extends s s' \<Longrightarrow> sinv s'" "extends s s' \<Longrightarrow> n_vars s \<le> n_vars s'"
  "extends s s' \<Longrightarrow> mods s' \<subseteq> mods s" "extends s s' \<Longrightarrow> m \<in> mods s' \<Longrightarrow> m \<in> mods s"
  by (auto simp: extends_def)

lemma lit_ok_cong: "lit_ok n l \<Longrightarrow> (\<And>v. v \<le> n \<Longrightarrow> m v = m' v) \<Longrightarrow> sat_lit m l = sat_lit m' l"
  by (auto simp: lit_ok_def sat_lit_def)

lemma mods_cong:
  assumes "binv s" "\<And>v. v \<le> n_vars s \<Longrightarrow> m v = m' v" "m \<in> mods s"
  shows "m' \<in> mods s"
proof -
  have "sat_lit m' l" if "lit_ok (n_vars s) l" "sat_lit m l" for l
    using lit_ok_cong [OF that(1), of m m'] assms(2) that(2) by blast
  moreover have "lit_ok (n_vars s) l" if "l \<in> set (root_trail s)" for l
    using assms(1) that
    by (auto simp: binv_def trail_ok_def root_trail_def split: list.splits dest: in_set_takeD)
  moreover have "lit_ok (n_vars s) l" if "c \<in> set (cdb s)" "l \<in> set (lits c)" for c l
    using assms(1) that by (auto simp: binv_def clause_ok_def)
  ultimately show ?thesis using assms(3) unfolding mods_def sat_clause_def by blast
qed

definition eval_env :: "env \<Rightarrow> (nat \<Rightarrow> bool) \<Rightarrow> string \<Rightarrow> bool" where
  "eval_env env m x = (case env x of Some l \<Rightarrow> sat_lit m l | None \<Rightarrow> False)"

definition env_ok :: "nat \<Rightarrow> env \<Rightarrow> string set \<Rightarrow> bool" where
  "env_ok n env X \<longleftrightarrow> (\<forall>x \<in> X. \<exists>l. env x = Some l \<and> lit_ok n l)"

definition memo_ok :: "sig set \<Rightarrow> env \<Rightarrow> lit_memo \<Rightarrow> 'a solver_scheme \<Rightarrow> bool" where
  "memo_ok P env memo s \<longleftrightarrow> (\<forall>g \<in> P. \<forall>l. memo (sid g) = Some l \<longrightarrow>
     lit_ok (n_vars s) l \<and> (\<forall>m \<in> mods s. sat_lit m l = sval (eval_env env m) g))"

lemma memo_ok_empty [simp]: "memo_ok P env Map.empty s"
  by (simp add: memo_ok_def)

lemma memo_ok_extends: "memo_ok P env memo s \<Longrightarrow> extends s s' \<Longrightarrow> memo_ok P env memo s'"
  unfolding memo_ok_def extends_def by (meson lit_ok_mono subsetD)

lemma memo_ok_upd:
  assumes "memo_ok P env memo s" "pool P" "g \<in> P" "lit_ok (n_vars s) l"
    "\<forall>m \<in> mods s. sat_lit m l = sval (eval_env env m) g"
  shows "memo_ok P env (memo(sid g \<mapsto> l)) s"
  unfolding memo_ok_def
proof (intro ballI allI impI)
  fix h k assume h: "h \<in> P" "(memo(sid g \<mapsto> l)) (sid h) = Some k"
  show "lit_ok (n_vars s) k \<and> (\<forall>m \<in> mods s. sat_lit m k = sval (eval_env env m) h)"
  proof (cases "sid h = sid g")
    case True
    then have "h = g" using poolD_id [OF assms(2) h(1) assms(3)] by simp
    then show ?thesis using h(2) assms(4,5) by simp
  next
    case False
    then show ?thesis using h assms(1) by (simp add: memo_ok_def)
  qed
qed

lemma env_ok_mono: "env_ok n env X \<Longrightarrow> n \<le> n' \<Longrightarrow> Y \<subseteq> X \<Longrightarrow> env_ok n' env Y"
  unfolding env_ok_def by (meson lit_ok_mono subsetD)

lemma eval_env_cong:
  assumes "env_ok n env X" "\<And>v. v \<le> n \<Longrightarrow> m v = m' v" "svars g \<subseteq> X"
  shows "sval (eval_env env m) g = sval (eval_env env m') g"
proof (rule sval_cong)
  fix x assume "x \<in> svars g"
  then obtain l where "env x = Some l" "lit_ok n l" using assms(1,3) by (auto simp: env_ok_def)
  then show "eval_env env m x = eval_env env m' x" using lit_ok_cong [of n l m m'] assms(2) by (simp add: eval_env_def)
qed

subsection \<open>The defining clauses of a gate\<close>

fun gate_fun :: "sig \<Rightarrow> bool list \<Rightarrow> bool" where
  "gate_fun (SAnd _ _) bs = list_all (\<lambda>b. b) bs"
| "gate_fun (SOr _ _) bs = list_ex (\<lambda>b. b) bs"
| "gate_fun (SXor _ _ _) [a, b] = (a \<noteq> b)"
| "gate_fun (SIte _ _ _ _) [c, t, e] = (if c then t else e)"
| "gate_fun _ _ = False"

fun is_gate :: "sig \<Rightarrow> bool" where
  "is_gate (SAnd _ _) = True"
| "is_gate (SOr _ _) = True"
| "is_gate (SXor _ _ _) = True"
| "is_gate (SIte _ _ _ _) = True"
| "is_gate _ = False"

lemma gate_fun_sval: "is_gate g \<Longrightarrow> gate_fun g (map (sval \<rho>) (args g)) = sval \<rho> g"
  by (cases g) (auto simp: list_all_iff list_ex_iff)

lemma gate_clauses_defined: "is_gate g \<Longrightarrow> length ls = length (args g) \<Longrightarrow> \<exists>cls. gate_clauses g y ls = Some cls"
  by (cases g) (auto simp: length_Suc_conv numeral_2_eq_2 numeral_3_eq_3)

lemma gate_clauses_ok:
  assumes "gate_clauses g y ls = Some cls" "length ls = length (args g)" "\<forall>l \<in> set ls. l \<noteq> 0" "y \<noteq> 0"
  shows "(\<forall>c \<in> set cls. sat_clause m c) \<longleftrightarrow> sat_lit m y = gate_fun g (map (sat_lit m) ls)"
proof (cases g)
  case (SAnd i xs)
  then have "cls = map (\<lambda>l. [- y, l]) ls @ [y # map uminus ls]" using assms(1) by simp
  moreover have "sat_clause m (map uminus ls) \<longleftrightarrow> (\<exists>l \<in> set ls. \<not> sat_lit m l)"
    using assms(3) by (auto simp: sat_clause_def)
  ultimately show ?thesis using SAnd assms(3,4) by (auto simp: sat_clause_def list_all_iff)
next
  case (SOr i xs)
  then show ?thesis using assms by (auto simp: sat_clause_def list_ex_iff) blast
next
  case (SXor i a b)
  then obtain p q where "ls = [p, q]" using assms(2) by (auto simp: length_Suc_conv numeral_2_eq_2)
  then show ?thesis using SXor assms by (auto simp: sat_clause_def)
next
  case (SIte i c t e)
  then obtain p q r where "ls = [p, q, r]" using assms(2) by (auto simp: length_Suc_conv numeral_3_eq_3)
  then show ?thesis using SIte assms by (auto simp: sat_clause_def)
qed (use assms in auto)

lemma gate_clauses_lits:
  "gate_clauses g y ls = Some cls \<Longrightarrow> c \<in> set cls \<Longrightarrow> l \<in> set c \<Longrightarrow> lvar l = lvar y \<or> lvar l \<in> lvar ` set ls"
  by (induction g y ls rule: gate_clauses.induct) auto

definition encoded :: "sig set \<Rightarrow> env \<Rightarrow> 'a solver_scheme \<Rightarrow> sig \<Rightarrow> int \<times> lit_memo \<times> 'a solver_scheme \<Rightarrow> bool" where
  "encoded P env s g = (\<lambda>(l, memo', s'). extends s s' \<and> memo_ok P env memo' s' \<and> lit_ok (n_vars s') l \<and>
     (\<forall>m \<in> mods s'. sat_lit m l = sval (eval_env env m) g))"

subsection \<open>The interface to the solver\<close>

text \<open>What every \<open>add_clause\<close> the encoder may call keeps.\<close>

locale clause_sink =
  fixes add :: "int list \<Rightarrow> 'a solver_scheme \<Rightarrow> bool \<times> 'a solver_scheme"
  assumes add_ok: "inv s \<Longrightarrow> \<forall>l \<in> set ls. lit_ok (n_vars s) l \<Longrightarrow>
    inv (snd (add ls s)) \<and> mods (snd (add ls s)) = mods s \<inter> {m. sat_clause m ls} \<and>
    n_vars (snd (add ls s)) = n_vars s \<and> true_lit (snd (add ls s)) = true_lit s"
begin

lemma add_clauses_ok:
  assumes "inv s" "\<forall>c \<in> set cls. \<forall>l \<in> set c. lit_ok (n_vars s) l"
  shows "inv (add_clauses add cls s) \<and>
    mods (add_clauses add cls s) = mods s \<inter> {m. \<forall>c \<in> set cls. sat_clause m c} \<and>
    n_vars (add_clauses add cls s) = n_vars s \<and> true_lit (add_clauses add cls s) = true_lit s"
  using assms
proof (induction cls arbitrary: s)
  case Nil
  then show ?case by simp
next
  case (Cons c cls)
  have "\<forall>l \<in> set c. lit_ok (n_vars s) l" using Cons.prems(2) by simp
  note a = add_ok [OF Cons.prems(1) this]
  then have "inv (snd (add c s))" "\<forall>c' \<in> set cls. \<forall>l \<in> set c'. lit_ok (n_vars (snd (add c s))) l"
    using Cons.prems(2) by auto
  from Cons.IH [OF this] a show ?case by auto
qed

text \<open>A fresh variable with defining clauses: the definition fixes its value and nothing else.\<close>

lemma define_var:
  assumes s: "sinv s" and lits: "\<forall>c \<in> set cls. \<forall>l \<in> set c. lit_ok (Suc (n_vars s)) l"
    and cls: "\<And>m. (\<forall>c \<in> set cls. sat_clause m c) \<longleftrightarrow> m (Suc (n_vars s)) = f m"
    and f: "\<And>m m'. (\<forall>v \<le> n_vars s. m v = m' v) \<Longrightarrow> f m = f m'"
  defines "s' \<equiv> add_clauses add cls (snd (new_var s))"
  shows "extends s s'" "n_vars s' = Suc (n_vars s)" "\<forall>m \<in> mods s'. m (Suc (n_vars s)) = f m"
    "true_lit s' = true_lit s"
proof -
  let ?v = "Suc (n_vars s)" and ?s1 = "snd (new_var s)"
  have i: "inv s" "binv s" using s by (simp_all add: sinv_def inv_def)
  have i1: "inv ?s1" by (rule inv_new_var [OF i(1)])
  have "\<forall>c \<in> set cls. \<forall>l \<in> set c. lit_ok (n_vars ?s1) l" using lits by simp
  note ac = add_clauses_ok [OF i1 this, folded s'_def]
  then have s': "inv s'" "mods s' = mods s \<inter> {m. m ?v = f m}" "n_vars s' = ?v" "true_lit s' = true_lit s"
    by (simp_all add: cls)
  show "n_vars s' = ?v" "\<forall>m \<in> mods s'. m ?v = f m" "true_lit s' = true_lit s" using s' by simp_all
  have "sinv s'" using s s' by (auto simp: sinv_def intro: lit_ok_mono)
  moreover have "\<exists>m' \<in> mods s'. \<forall>v \<le> n_vars s. m' v = m v" if m: "m \<in> mods s" for m
  proof -
    let ?m = "m(?v := f m)"
    have agree: "\<And>v. v \<le> n_vars s \<Longrightarrow> m v = ?m v" by simp
    have "?m \<in> mods s" by (rule mods_cong [OF i(2) agree m])
    moreover have "f ?m = f m" using f agree by metis
    ultimately have "?m \<in> mods s'" by (simp add: s'(2))
    then show ?thesis using agree by (intro bexI [of _ ?m]) auto
  qed
  ultimately show "extends s s'" using s' by (simp add: extends_def)
qed

lemma add_gate_ok:
  assumes s: "sinv s" and g: "is_gate g" "length ls = length (args g)" and ls: "\<forall>l \<in> set ls. lit_ok (n_vars s) l"
  shows "\<exists>s'. add_gate add g ls memo s = Some (int (Suc (n_vars s)), memo(sid g \<mapsto> int (Suc (n_vars s))), s') \<and>
    extends s s' \<and> n_vars s' = Suc (n_vars s) \<and>
    (\<forall>m \<in> mods s'. sat_lit m (int (Suc (n_vars s))) = gate_fun g (map (sat_lit m) ls))"
proof -
  let ?y = "int (Suc (n_vars s))"
  obtain cls where cls: "gate_clauses g ?y ls = Some cls" using gate_clauses_defined [OF g] by blast
  have nz: "\<forall>l \<in> set ls. l \<noteq> 0" using ls by (simp add: lit_ok_def)
  have lv: "lvar ?y = Suc (n_vars s)" by (simp add: lvar_def)
  have lits: "\<forall>c \<in> set cls. \<forall>l \<in> set c. lit_ok (Suc (n_vars s)) l"
  proof (intro ballI)
    fix c l assume cl: "c \<in> set cls" "l \<in> set c"
    have "lvar l = lvar ?y \<or> lvar l \<in> lvar ` set ls" by (rule gate_clauses_lits [OF cls cl])
    moreover have "0 < lvar k" if "k \<in> set ls" for k using nz that by (auto simp: lvar_def)
    ultimately have "0 < lvar l \<and> lvar l \<le> Suc (n_vars s)" using ls lv by (auto simp: lit_ok_def le_SucI)
    then show "lit_ok (Suc (n_vars s)) l" by (auto simp: lit_ok_def lvar_def)
  qed
  let ?f = "\<lambda>m. gate_fun g (map (sat_lit m) ls)"
  have c: "(\<forall>c \<in> set cls. sat_clause m c) \<longleftrightarrow> m (Suc (n_vars s)) = ?f m" for m
    using gate_clauses_ok [OF cls g(2) nz, of m] lv by (simp add: sat_lit_def)
  have f: "?f m = ?f m'" if "\<forall>v \<le> n_vars s. m v = m' v" for m m'
  proof -
    have "sat_lit m l = sat_lit m' l" if "l \<in> set ls" for l
      using ls that lit_ok_cong [of "n_vars s" l m m'] \<open>\<forall>v \<le> n_vars s. m v = m' v\<close> by blast
    then have "map (sat_lit m) ls = map (sat_lit m') ls" by simp
    then show ?thesis by (rule arg_cong)
  qed
  note dv = define_var [OF s lits c f]
  have "add_gate add g ls memo s = Some (?y, memo(sid g \<mapsto> ?y), add_clauses add cls (snd (new_var s)))"
    using cls by (simp add: add_gate_def split_beta Let_def)
  then show ?thesis using dv(1-3) lv by (simp add: sat_lit_def)
qed

lemma get_true_lit_ok:
  assumes s: "sinv s"
  shows "\<exists>t s'. get_true_lit add s = (t, s') \<and> extends s s' \<and> lit_ok (n_vars s') t \<and> (\<forall>m \<in> mods s'. sat_lit m t)"
proof (cases "true_lit s")
  case (Some t)
  then show ?thesis using s extends_refl [OF s] by (auto simp: get_true_lit_def sinv_def)
next
  case None
  let ?v = "Suc (n_vars s)"
  let ?s2 = "add_clauses add [[int ?v]] (snd (new_var s))"
  have lv: "lvar (int ?v) = ?v" by (simp add: lvar_def)
  have lits: "\<forall>c \<in> set [[int ?v]]. \<forall>l \<in> set c. lit_ok ?v l" by (simp add: lit_ok_def lvar_def)
  have "(\<forall>c \<in> set [[int ?v]]. sat_clause m c) \<longleftrightarrow> m ?v = True" for m
    using lv by (simp add: sat_clause_def sat_lit_def)
  note dv = define_var [OF s lits this refl]
  let ?s3 = "?s2\<lparr>true_lit := Some (int ?v)\<rparr>"
  have eq: "mods ?s3 = mods ?s2" by (simp add: mods_def root_trail_def cong: list.case_cong)
  have "inv ?s2" using dv(1) by (simp add: extends_def sinv_def)
  then have "inv ?s3" unfolding inv_def binv_parts vsids_ok_def clits_def by (simp cong: option.case_cong)
  moreover have "\<forall>m \<in> mods ?s3. sat_lit m (int ?v)" using dv(3) lv unfolding eq by (simp add: sat_lit_def)
  ultimately have "sinv ?s3" using dv(2) lv by (simp add: sinv_def lit_ok_def)
  then have "extends s ?s3" using dv(1,2) unfolding extends_def eq by simp
  moreover have "get_true_lit add s = (int ?v, ?s3)"
    using None by (simp add: get_true_lit_def split_beta Let_def)
  moreover have "lit_ok (n_vars ?s3) (int ?v)" using dv(2) lv by (simp add: lit_ok_def)
  ultimately show ?thesis using \<open>\<forall>m \<in> mods ?s3. sat_lit m (int ?v)\<close> by blast
qed

text \<open>The encoder returns, and its literal has the value of the signal in every model.\<close>

lemma tseitin_args_ok:
  assumes a: "\<forall>g \<in> set gs. \<forall>s memo. sinv s \<longrightarrow> env_ok (n_vars s) env (svars g) \<longrightarrow> memo_ok P env memo s \<longrightarrow>
      (\<exists>r. tseitin add g env memo s = Some r \<and> encoded P env s g r)"
    and "sinv s" "env_ok (n_vars s) env (\<Union>g \<in> set gs. svars g)" "memo_ok P env memo s"
  shows "\<exists>ls memo' s'. tseitin_args add gs env memo s = Some (ls, memo', s') \<and> extends s s' \<and>
        memo_ok P env memo' s' \<and> list_all2 (\<lambda>l g. lit_ok (n_vars s') l \<and>
          (\<forall>m \<in> mods s'. sat_lit m l = sval (eval_env env m) g)) ls gs"
  using assms
proof (induction gs arbitrary: s memo)
  case Nil
  then show ?case by (auto intro: extends_refl)
next
  case (Cons g gs)
  have "env_ok (n_vars s) env (svars g)" using Cons.prems(3) by (rule env_ok_mono) auto
  then have "\<exists>r. tseitin add g env memo s = Some r \<and> encoded P env s g r"
    using Cons.prems(1,2,4) by simp
  then obtain l memo1 s1 where t: "tseitin add g env memo s = Some (l, memo1, s1)"
    and e: "encoded P env s g (l, memo1, s1)" by auto
  then have x: "extends s s1" "memo_ok P env memo1 s1" by (simp_all add: encoded_def)
  have "env_ok (n_vars s1) env (\<Union>g \<in> set gs. svars g)"
    using Cons.prems(3) extendsD(2) [OF x(1)] by (rule env_ok_mono) auto
  from Cons.IH [OF _ extendsD(1) [OF x(1)] this x(2)] Cons.prems(1)
  obtain ls memo2 s2 where a: "tseitin_args add gs env memo1 s1 = Some (ls, memo2, s2)" "extends s1 s2"
    "memo_ok P env memo2 s2" "list_all2 (\<lambda>l g. lit_ok (n_vars s2) l \<and>
          (\<forall>m \<in> mods s2. sat_lit m l = sval (eval_env env m) g)) ls gs" by auto
  have "lit_ok (n_vars s2) l \<and> (\<forall>m \<in> mods s2. sat_lit m l = sval (eval_env env m) g)"
    using e extendsD(2,4) [OF a(2)] by (auto simp: encoded_def intro: lit_ok_mono)
  then show ?case using t a extends_trans [OF x(1) a(2)] by auto
qed

lemma tseitin_gate:
  assumes "is_gate g" "memo (sid g) = None"
  shows "tseitin add g env memo s = Option.bind (tseitin_args add (args g) env memo s)
     (\<lambda>(ls, memo, s). add_gate add g ls memo s)"
  using assms by (subst tseitin.simps) (cases g; simp)

lemma tseitin_ok:
  assumes pool: "pool P"
  shows "g \<in> P \<Longrightarrow> sinv s \<Longrightarrow> env_ok (n_vars s) env (svars g) \<Longrightarrow> memo_ok P env memo s \<Longrightarrow>
      \<exists>r. tseitin add g env memo s = Some r \<and> encoded P env s g r"
proof (induction "weight g" arbitrary: g s memo rule: less_induct)
  case less
  have IH: "\<forall>a \<in> set (args g). \<forall>s memo. sinv s \<longrightarrow> env_ok (n_vars s) env (svars a) \<longrightarrow> memo_ok P env memo s \<longrightarrow>
      (\<exists>r. tseitin add a env memo s = Some r \<and> encoded P env s a r)"
    using less.hyps weight_arg poolD_args [OF pool less.prems(1)] by blast
  have memo: "encoded P env s g (l, memo, s)" if "memo (sid g) = Some l" for l
    using that less.prems extends_refl unfolding encoded_def memo_ok_def by auto
  consider (const) i b where "g = SConst i b" | (var) i x where "g = SVar i x"
    | (hit) l where "memo (sid g) = Some l" "\<not> is_leaf_sig g"
    | (not) i a where "g = SNot i a" "memo (sid g) = None"
    | (gate) "is_gate g" "memo (sid g) = None"
    by (cases g; cases "memo (sid g)") auto
  then show ?case
  proof cases
    case const
    obtain t s' where t: "get_true_lit add s = (t, s')" "extends s s'" "lit_ok (n_vars s') t"
      "\<forall>m \<in> mods s'. sat_lit m t" using get_true_lit_ok [OF less.prems(2)] by blast
    have "tseitin add g env memo s = Some (if b then t else - t, memo, s')"
      using const t(1) by (simp add: tseitin.simps)
    moreover have "t \<noteq> 0" using t(3) by (simp add: lit_ok_def)
    ultimately show ?thesis using const t memo_ok_extends [OF less.prems(4) t(2)]
      by (auto simp: encoded_def)
  next
    case var
    then obtain l where "env x = Some l" "lit_ok (n_vars s) l" using less.prems(3) by (auto simp: env_ok_def)
    then show ?thesis using var less.prems extends_refl
      by (auto simp: tseitin.simps encoded_def eval_env_def)
  next
    case hit
    then have "tseitin add g env memo s = Some (l, memo, s)" by (cases g) (simp_all add: tseitin.simps)
    then show ?thesis using memo [OF hit(1)] by blast
  next
    case not
    have "env_ok (n_vars s) env (svars a)" using less.prems(3) not(1) by simp
    then have "\<exists>r. tseitin add a env memo s = Some r \<and> encoded P env s a r"
      using IH less.prems(2,4) not(1) by simp
    then obtain l memo1 s1 where t: "tseitin add a env memo s = Some (l, memo1, s1)"
      and e: "encoded P env s a (l, memo1, s1)" by auto
    have r: "tseitin add g env memo s = Some (- l, memo1(sid g \<mapsto> - l), s1)"
      unfolding not(1) using not(2) t by (subst tseitin.simps) (simp add: not(1))
    have l: "lit_ok (n_vars s1) (- l)" "\<forall>m \<in> mods s1. sat_lit m (- l) = sval (eval_env env m) g"
      using e not(1) by (auto simp: encoded_def lit_ok_def)
    have "memo_ok P env (memo1(sid g \<mapsto> - l)) s1"
      using e by (intro memo_ok_upd [OF _ pool less.prems(1) l]) (simp add: encoded_def)
    then show ?thesis using r e l by (simp add: encoded_def)
  next
    case gate
    have "svars g = (\<Union>a \<in> set (args g). svars a)" using gate(1) by (cases g) auto
    then have "env_ok (n_vars s) env (\<Union>a \<in> set (args g). svars a)" using less.prems(3) by simp
    from tseitin_args_ok [OF IH less.prems(2) this less.prems(4)]
    obtain ls memo1 s1 where a: "tseitin_args add (args g) env memo s = Some (ls, memo1, s1)" "extends s s1"
      "memo_ok P env memo1 s1" and la: "list_all2 (\<lambda>l g. lit_ok (n_vars s1) l \<and>
          (\<forall>m \<in> mods s1. sat_lit m l = sval (eval_env env m) g)) ls (args g)" by blast
    have len: "length ls = length (args g)" using la by (rule list_all2_lengthD)
    have ok: "\<forall>l \<in> set ls. lit_ok (n_vars s1) l" using la by (auto simp: list_all2_conv_all_nth in_set_conv_nth)
    have vals: "map (sat_lit m) ls = map (sval (eval_env env m)) (args g)" if "m \<in> mods s1" for m
      using la that by (auto simp: list_all2_conv_all_nth intro: nth_equalityI)
    let ?y = "int (Suc (n_vars s1))"
    obtain s2 where s2: "add_gate add g ls memo1 s1 = Some (?y, memo1(sid g \<mapsto> ?y), s2)" "extends s1 s2"
      "n_vars s2 = Suc (n_vars s1)" "\<forall>m \<in> mods s2. sat_lit m ?y = gate_fun g (map (sat_lit m) ls)"
      using add_gate_ok [OF extendsD(1) [OF a(2)] gate(1) len ok] by blast
    have r: "tseitin add g env memo s = Some (?y, memo1(sid g \<mapsto> ?y), s2)"
      using tseitin_gate [OF gate(1), where memo = memo, OF gate(2)] a(1) s2(1) by simp
    have y: "lit_ok (n_vars s2) ?y" using s2(3) by (simp add: lit_ok_def lvar_def)
    have val: "\<forall>m \<in> mods s2. sat_lit m ?y = sval (eval_env env m) g"
      using s2(4) vals extendsD(4) [OF s2(2)] gate_fun_sval [OF gate(1)] by simp
    have "memo_ok P env (memo1(sid g \<mapsto> ?y)) s2"
      by (rule memo_ok_upd [OF memo_ok_extends [OF a(3) s2(2)] pool less.prems(1) y val])
    then show ?thesis using r y val extends_trans [OF a(2) s2(2)] by (simp add: encoded_def)
  qed
qed

lemma tseitinE:
  assumes "pool P" "g \<in> P" "sinv s" "env_ok (n_vars s) env X" "svars g \<subseteq> X" "memo_ok P env memo s"
  obtains l memo' s' where "tseitin add g env memo s = Some (l, memo', s')" "extends s s'"
    "memo_ok P env memo' s'" "lit_ok (n_vars s') l" "\<forall>m \<in> mods s'. sat_lit m l = sval (eval_env env m) g"
proof -
  obtain r where r: "tseitin add g env memo s = Some r" "encoded P env s g r"
    using tseitin_ok [OF assms(1-3) env_ok_mono [OF assms(4) order_refl assms(5)] assms(6)] by blast
  obtain l memo' s' where "r = (l, memo', s')" by (metis prod_cases3)
  then show ?thesis using r that by (simp add: encoded_def)
qed

end

text \<open>\<open>Solver.add_clause\<close> itself.\<close>

interpretation cdcl: clause_sink add_clause
  by unfold_locales (simp add: add_clause_cases)

end
