(* ===== verification/TransSys.thy ===== *)
theory TransSys
  imports Bitvec Encode
begin

text \<open>
  Transition systems of \<open>circuit.py\<close> (class \<open>TransitionSystem\<close>), their semantics, and the time frames
  built from them: \<open>fresh_frame\<close>, \<open>next_env\<close>, \<open>assert_init\<close>, \<open>bad_lit\<close> and \<open>tie\<close>. A frame is the
  environment dictionary of the source with its entry \<open>"__memo__"\<close> as a field of its own. The
  relation \<open>chain\<close> says that the models of a solver are exactly the valuations of a list of frames
  that satisfy a constraint; every frame operation has a rule for it.
\<close>

subsection \<open>Transition systems\<close>

record trans_system =
  ts_name :: string
  ts_state :: "string list"
  ts_inputs :: "string list"
  ts_next :: "string \<rightharpoonup> sig"
  ts_init :: "string \<rightharpoonup> bool"
  ts_bad :: "sig option"
  ts_liveness :: "(sig \<times> sig) list"
  ts_assumptions :: "sig list"
  ts_covers :: "sig list"

definition TransitionSystem :: "string \<Rightarrow> trans_system" where
  "TransitionSystem name = \<lparr>ts_name = name, ts_state = [], ts_inputs = [], ts_next = Map.empty,
     ts_init = Map.empty, ts_bad = None, ts_liveness = [], ts_assumptions = [], ts_covers = []\<rparr>"

definition add_state_bit :: "string \<Rightarrow> bool \<Rightarrow> sig \<Rightarrow> trans_system \<Rightarrow> trans_system" where
  "add_state_bit name init nxt ts = ts\<lparr>ts_state := ts_state ts @ [name],
     ts_init := (ts_init ts)(name \<mapsto> init), ts_next := (ts_next ts)(name \<mapsto> nxt)\<rparr>"

definition add_state_bv :: "string \<Rightarrow> bv \<Rightarrow> int \<Rightarrow> bv \<Rightarrow> trans_system \<Rightarrow> trans_system option" where
  "add_state_bv name now init nxt ts =
     (if length nxt < length now then None
      else Some (fold (\<lambda>i. add_state_bit (bit_name name i) (odd (init div 2 ^ i)) (nxt ! i)) [0..<length now] ts))"

definition add_input :: "string \<Rightarrow> trans_system \<Rightarrow> trans_system \<times> sig alloc" where
  "add_input name ts = (ts\<lparr>ts_inputs := ts_inputs ts @ [name]\<rparr>, VAR_s name)"

subsection \<open>Semantics\<close>

text \<open>
  A valuation \<open>\<rho>\<close> gives the state bits and the inputs of one cycle. The property may read inputs, so
  it is evaluated at the valuation of its cycle.
\<close>

definition ts_names :: "trans_system \<Rightarrow> string set" where
  "ts_names ts = set (ts_state ts) \<union> set (ts_inputs ts)"

definition is_init :: "trans_system \<Rightarrow> (string \<Rightarrow> bool) \<Rightarrow> bool" where
  "is_init ts \<rho> \<longleftrightarrow> (\<forall>n \<in> set (ts_state ts). Some (\<rho> n) = ts_init ts n)"

definition step :: "trans_system \<Rightarrow> (string \<Rightarrow> bool) \<Rightarrow> (string \<Rightarrow> bool) \<Rightarrow> bool" where
  "step ts \<rho> \<rho>' \<longleftrightarrow> (\<forall>n \<in> set (ts_state ts). \<forall>g. ts_next ts n = Some g \<longrightarrow> \<rho>' n = sval \<rho> g)"

definition is_bad :: "trans_system \<Rightarrow> (string \<Rightarrow> bool) \<Rightarrow> bool" where
  "is_bad ts \<rho> \<longleftrightarrow> (\<forall>b. ts_bad ts = Some b \<longrightarrow> sval \<rho> b)"

definition run :: "trans_system \<Rightarrow> nat \<Rightarrow> (nat \<Rightarrow> string \<Rightarrow> bool) \<Rightarrow> bool" where
  "run ts k \<rho> \<longleftrightarrow> (\<forall>i < k. step ts (\<rho> i) (\<rho> (Suc i)))"

definition cex :: "trans_system \<Rightarrow> nat \<Rightarrow> (nat \<Rightarrow> string \<Rightarrow> bool) \<Rightarrow> bool" where
  "cex ts k \<rho> \<longleftrightarrow> is_init ts (\<rho> 0) \<and> run ts k \<rho> \<and> is_bad ts (\<rho> k)"

definition safe :: "trans_system \<Rightarrow> bool" where
  "safe ts \<longleftrightarrow> (\<forall>k \<rho>. \<not> cex ts k \<rho>)"

text \<open>What the engines rely on: the dictionaries are total on the state, the functions read declared names.\<close>

definition wf_ts :: "sig set \<Rightarrow> trans_system \<Rightarrow> bool" where
  "wf_ts P ts \<longleftrightarrow> pool P \<and> distinct (ts_state ts @ ts_inputs ts) \<and>
     (\<forall>n \<in> set (ts_state ts). ts_init ts n \<noteq> None \<and>
        (\<exists>g. ts_next ts n = Some g \<and> g \<in> P \<and> svars g \<subseteq> ts_names ts)) \<and>
     (\<exists>b. ts_bad ts = Some b \<and> b \<in> P \<and> svars b \<subseteq> ts_names ts)"

lemma step_cong:
  assumes "wf_ts P ts" "\<forall>x \<in> ts_names ts. \<rho> x = \<sigma> x" "\<forall>x \<in> ts_names ts. \<rho>' x = \<sigma>' x"
  shows "step ts \<rho> \<rho>' = step ts \<sigma> \<sigma>'"
proof -
  have "\<rho>' n = sval \<rho> g \<longleftrightarrow> \<sigma>' n = sval \<sigma> g" if "n \<in> set (ts_state ts)" "ts_next ts n = Some g" for n g
  proof -
    have "svars g \<subseteq> ts_names ts" using assms(1) that by (fastforce simp: wf_ts_def)
    then have "sval \<rho> g = sval \<sigma> g" using assms(2) by (intro sval_cong) blast
    then show ?thesis using assms(3) that(1) by (simp add: ts_names_def)
  qed
  then show ?thesis by (auto simp: step_def)
qed

lemma bad_cong:
  assumes "wf_ts P ts" "\<forall>x \<in> ts_names ts. \<rho> x = \<sigma> x"
  shows "is_bad ts \<rho> = is_bad ts \<sigma>"
proof -
  obtain b where b: "ts_bad ts = Some b" "svars b \<subseteq> ts_names ts" using assms(1) by (auto simp: wf_ts_def)
  then have "sval \<rho> b = sval \<sigma> b" using assms(2) by (intro sval_cong) blast
  then show ?thesis using b(1) by (simp add: is_bad_def)
qed

lemma init_cong: "\<forall>x \<in> ts_names ts. \<rho> x = \<sigma> x \<Longrightarrow> is_init ts \<rho> = is_init ts \<sigma>"
  by (auto simp: is_init_def ts_names_def)

subsection \<open>Proof principles\<close>

text \<open>
  What the engines conclude from their queries, for any initial, transition and bad predicates.
\<close>

locale safety =
  fixes I :: "'v \<Rightarrow> bool" and R :: "'v \<Rightarrow> 'v \<Rightarrow> bool" and B :: "'v \<Rightarrow> bool"
begin

lemma run_invariant:
  assumes "I (\<rho> 0)" "\<forall>i < n. R (\<rho> i) (\<rho> (Suc i))" "\<And>x. I x \<Longrightarrow> V x" "\<And>x y. V x \<Longrightarrow> R x y \<Longrightarrow> V y"
  shows "k \<le> n \<Longrightarrow> V (\<rho> k)"
  by (induction k) (use assms in auto)

lemma inductive_safe:
  assumes "\<And>x. I x \<Longrightarrow> V x" "\<And>x y. V x \<Longrightarrow> R x y \<Longrightarrow> V y" "\<And>x. V x \<Longrightarrow> \<not> B x"
  shows "\<not> (I (\<rho> 0) \<and> (\<forall>i < n. R (\<rho> i) (\<rho> (Suc i))) \<and> B (\<rho> n))"
  using run_invariant [of \<rho> n V n] assms by blast

lemma k_induction_safe:
  assumes base: "\<And>n \<rho>. n < k \<Longrightarrow> \<not> (I (\<rho> 0) \<and> (\<forall>i < n. R (\<rho> i) (\<rho> (Suc i))) \<and> B (\<rho> n))"
    and ind: "\<And>\<rho>. \<forall>i < k. R (\<rho> i) (\<rho> (Suc i)) \<Longrightarrow> \<forall>i < k. \<not> B (\<rho> i) \<Longrightarrow> \<not> B (\<rho> k)"
  shows "\<not> (I (\<rho> 0) \<and> (\<forall>i < n. R (\<rho> i) (\<rho> (Suc i))) \<and> B (\<rho> n))"
proof (induction n rule: less_induct)
  case (less n)
  show ?case
  proof (cases "n < k")
    case True
    then show ?thesis by (rule base)
  next
    case False
    show ?thesis
    proof
      assume cex: "I (\<rho> 0) \<and> (\<forall>i < n. R (\<rho> i) (\<rho> (Suc i))) \<and> B (\<rho> n)"
      let ?\<sigma> = "\<lambda>i. \<rho> (n - k + i)"
      have "\<forall>i < k. \<not> B (?\<sigma> i)"
      proof (intro allI impI)
        fix i assume "i < k"
        then have "n - k + i < n" using False by simp
        then show "\<not> B (?\<sigma> i)" using less [of "n - k + i"] cex by auto
      qed
      moreover have "\<forall>i < k. R (?\<sigma> i) (?\<sigma> (Suc i))" using cex False by auto
      ultimately have "\<not> B (?\<sigma> k)" by (intro ind)
      then show False using cex False by simp
    qed
  qed
qed

end

interpretation reach: safety "is_init ts" "step ts" "is_bad ts" for ts .

subsection \<open>Frames\<close>

record frame =
  fenv :: env
  fmemo :: lit_memo

primrec alloc_names :: "string list \<Rightarrow> env \<Rightarrow> 'a solver_scheme \<Rightarrow> env \<times> 'a solver_scheme" where
  "alloc_names [] env s = (env, s)"
| "alloc_names (x # xs) env s =
     (let (v, s1) = new_var s in alloc_names xs (env(x \<mapsto> int v)) s1)"

definition fresh_frame :: "trans_system \<Rightarrow> 'a solver_scheme \<Rightarrow> frame \<times> 'a solver_scheme" where
  "fresh_frame ts s =
     (let (env, s1) = alloc_names (ts_state ts) Map.empty s;
          (env, s2) = alloc_names (ts_inputs ts) env s1
      in (\<lparr>fenv = env, fmemo = Map.empty\<rparr>, s2))"

text \<open>The literals of the next-state functions \<open>fs\<close> (name and function), under one environment and cache.\<close>

primrec encode_next ::
  "'a adder \<Rightarrow> (string \<times> sig option) list \<Rightarrow> env \<Rightarrow> env \<Rightarrow> lit_memo \<Rightarrow> 'a solver_scheme \<Rightarrow>
     (env \<times> lit_memo \<times> 'a solver_scheme) option" where
  "encode_next add [] env out memo s = Some (out, memo, s)"
| "encode_next add (f # fs) env out memo s = do {
     g \<leftarrow> snd f;
     (l, memo, s) \<leftarrow> tseitin add g env memo s;
     encode_next add fs env (out(fst f \<mapsto> l)) memo s }"

text \<open>The result is the new frame, the old frame with its cache grown, and the solver.\<close>

definition next_env :: "trans_system \<Rightarrow> frame \<Rightarrow> 'a solver_scheme \<Rightarrow> (frame \<times> frame \<times> 'a solver_scheme) option" where
  "next_env ts f s = do {
     (out, memo, s) \<leftarrow> encode_next add_clause (map (\<lambda>n. (n, ts_next ts n)) (ts_state ts)) (fenv f)
        Map.empty (fmemo f) s;
     let (out, s) = alloc_names (ts_inputs ts) out s;
     Some (\<lparr>fenv = out, fmemo = Map.empty\<rparr>, f\<lparr>fmemo := memo\<rparr>, s) }"

primrec assert_names :: "(string \<times> bool option) list \<Rightarrow> env \<Rightarrow> 'a solver_scheme \<Rightarrow> 'a solver_scheme option" where
  "assert_names [] env s = Some s"
| "assert_names (x # xs) env s = do {
     l \<leftarrow> env (fst x);
     b \<leftarrow> snd x;
     assert_names xs env (snd (add_clause [if b then l else - l] s)) }"

definition assert_init :: "trans_system \<Rightarrow> frame \<Rightarrow> 'a solver_scheme \<Rightarrow> 'a solver_scheme option" where
  "assert_init ts f s = assert_names (map (\<lambda>n. (n, ts_init ts n)) (ts_state ts)) (fenv f) s"

definition bad_lit :: "trans_system \<Rightarrow> frame \<Rightarrow> 'a solver_scheme \<Rightarrow> (int \<times> frame \<times> 'a solver_scheme) option" where
  "bad_lit ts f s = do {
     b \<leftarrow> ts_bad ts;
     (l, memo, s) \<leftarrow> tseitin add_clause b (fenv f) (fmemo f) s;
     Some (l, f\<lparr>fmemo := memo\<rparr>, s) }"

text \<open>\<open>a \<leftrightarrow> b\<close> for every state bit.\<close>

primrec tie_names :: "string list \<Rightarrow> env \<Rightarrow> env \<Rightarrow> 'a solver_scheme \<Rightarrow> 'a solver_scheme option" where
  "tie_names [] nxt env s = Some s"
| "tie_names (x # xs) nxt env s = do {
     a \<leftarrow> nxt x;
     b \<leftarrow> env x;
     tie_names xs nxt env (snd (add_clause [a, - b] (snd (add_clause [- a, b] s)))) }"

definition tie_frames :: "trans_system \<Rightarrow> frame \<Rightarrow> frame \<Rightarrow> 'a solver_scheme \<Rightarrow> 'a solver_scheme option" where
  "tie_frames ts env_a env_next s = tie_names (ts_state ts) (fenv env_next) (fenv env_a) s"

text \<open>\<open>solver.get_value(env[...])\<close>: reading the assignment at a name.\<close>

definition get_name :: "'a solver_scheme \<Rightarrow> env \<Rightarrow> string \<Rightarrow> bool option" where
  "get_name s env x = do { l \<leftarrow> env x; if l > 0 then Some (get_value (nat l) s) else None }"

definition read_bits :: "(string \<Rightarrow> bool option) \<Rightarrow> string \<Rightarrow> nat \<Rightarrow> nat option" where
  "read_bits get x w = do {
     bs \<leftarrow> those (map (\<lambda>i. get (bit_name x i)) [0..<w]);
     Some (\<Sum>i \<leftarrow> [0..<w]. if bs ! i then 2 ^ i else 0) }"

definition read_bv :: "'a solver_scheme \<Rightarrow> env \<Rightarrow> string \<Rightarrow> nat \<Rightarrow> nat option" where
  "read_bv s env x w = read_bits (get_name s env) x w"

end
