(* ===== verification/Frames.thy ===== *)
theory Frames
  imports TransSys
begin

text \<open>
  The correctness of the frame operations of \<open>circuit.py\<close>, as rules for \<open>chain\<close>: the models of the
  solver are, on the frames' variables, exactly the sequences of valuations that satisfy a
  constraint. The engines compose these rules.
\<close>

definition fval :: "frame \<Rightarrow> (nat \<Rightarrow> bool) \<Rightarrow> string \<Rightarrow> bool" where
  "fval f m = eval_env (fenv f) m"

definition frame_ok :: "sig set \<Rightarrow> trans_system \<Rightarrow> 'a solver_scheme \<Rightarrow> frame \<Rightarrow> bool" where
  "frame_ok P ts s f \<longleftrightarrow> env_ok (n_vars s) (fenv f) (ts_names ts) \<and> memo_ok P (fenv f) (fmemo f) s"

type_synonym seq = "nat \<Rightarrow> string \<Rightarrow> bool"

definition local_on :: "nat \<Rightarrow> string set \<Rightarrow> (seq \<Rightarrow> bool) \<Rightarrow> bool" where
  "local_on n X C \<longleftrightarrow> (\<forall>\<rho> \<rho>'. (\<forall>i < n. \<forall>x \<in> X. \<rho> i x = \<rho>' i x) \<longrightarrow> C \<rho> = C \<rho>')"

definition fvals :: "frame list \<Rightarrow> (nat \<Rightarrow> bool) \<Rightarrow> seq" where
  "fvals fs m i = fval (fs ! i) m"

definition chain :: "sig set \<Rightarrow> trans_system \<Rightarrow> 'a solver_scheme \<Rightarrow> frame list \<Rightarrow> (seq \<Rightarrow> bool) \<Rightarrow> bool" where
  "chain P ts s fs C \<longleftrightarrow> sinv s \<and> (\<forall>f \<in> set fs. frame_ok P ts s f) \<and>
     local_on (length fs) (ts_names ts) C \<and> (\<forall>m \<in> mods s. C (fvals fs m)) \<and>
     (\<forall>\<rho>. C \<rho> \<longrightarrow> (\<exists>m \<in> mods s. \<forall>i < length fs. \<forall>x \<in> ts_names ts. fvals fs m i x = \<rho> i x))"

text \<open>A satisfiable chain is a satisfiable constraint.\<close>

lemma chain_models: "chain P ts s fs C \<Longrightarrow> mods s \<noteq> {} \<longleftrightarrow> (\<exists>\<rho>. C \<rho>)"
  unfolding chain_def by blast

lemma chain_sound: "chain P ts s fs C \<Longrightarrow> m \<in> mods s \<Longrightarrow> C (fvals fs m)"
  by (simp add: chain_def)

lemma frame_ok_extends: "frame_ok P ts s f \<Longrightarrow> extends s s' \<Longrightarrow> frame_ok P ts s' f"
  unfolding frame_ok_def using env_ok_mono [OF _ extendsD(2) order_refl] memo_ok_extends by blast

lemma eval_env_agree:
  assumes "env_ok n env X" "x \<in> X" "\<forall>v \<le> n. m' v = m v"
  shows "eval_env env m' x = eval_env env m x"
proof -
  obtain l where "env x = Some l" "lit_ok n l" using assms(1,2) by (auto simp: env_ok_def)
  then show ?thesis using lit_ok_cong [of n l m' m] assms(3) by (simp add: eval_env_def)
qed

lemma local_conj: "local_on n X C \<Longrightarrow> local_on n X D \<Longrightarrow> local_on n X (\<lambda>\<rho>. C \<rho> \<and> D \<rho>)"
  unfolding local_on_def by blast

lemma local_mono: "local_on n X C \<Longrightarrow> n \<le> n' \<Longrightarrow> local_on n' X C"
  by (simp add: local_on_def)

text \<open>The solver grows while the frames stay: the constraint gains what the new clauses say.\<close>

lemma chain_grow:
  assumes ch: "chain P ts s fs C" and ext: "sinv s'" "n_vars s \<le> n_vars s'" "mods s' \<subseteq> mods s"
    and fs: "length fs' = length fs" "\<forall>i < length fs. fenv (fs' ! i) = fenv (fs ! i) \<and> frame_ok P ts s' (fs' ! i)"
    and D: "local_on (length fs) (ts_names ts) D"
    and sound: "\<And>m. m \<in> mods s' \<Longrightarrow> D (fvals fs m)"
    and complete: "\<And>m. m \<in> mods s \<Longrightarrow> D (fvals fs m) \<Longrightarrow> \<exists>m' \<in> mods s'. \<forall>v \<le> n_vars s. m' v = m v"
  shows "chain P ts s' fs' (\<lambda>\<rho>. C \<rho> \<and> D \<rho>)"
  unfolding chain_def
proof (intro conjI ballI allI impI)
  have C: "local_on (length fs) (ts_names ts) C" using ch by (simp add: chain_def)
  have eq: "fvals fs' m i = fvals fs m i" if "i < length fs" for m i
    using fs that by (simp add: fvals_def fval_def)
  have eqC: "C (fvals fs' m) = C (fvals fs m)" "D (fvals fs' m) = D (fvals fs m)" for m
    using C D eq unfolding local_on_def by metis+
  show "sinv s'" by (fact ext)
  show "frame_ok P ts s' f" if "f \<in> set fs'" for f using that fs by (auto simp: in_set_conv_nth)
  show "local_on (length fs') (ts_names ts) (\<lambda>\<rho>. C \<rho> \<and> D \<rho>)" using local_conj [OF C D] fs(1) by simp
  show "C (fvals fs' m)" if "m \<in> mods s'" for m using chain_sound [OF ch] that ext(3) eqC by blast
  show "D (fvals fs' m)" if "m \<in> mods s'" for m using sound that eqC by blast
  fix \<rho> assume \<rho>: "C \<rho> \<and> D \<rho>"
  then obtain m where m: "m \<in> mods s" "\<forall>i < length fs. \<forall>x \<in> ts_names ts. fvals fs m i x = \<rho> i x"
    using ch unfolding chain_def by blast
  have "D (fvals fs m)" using D \<rho> m(2) unfolding local_on_def by blast
  then obtain m' where m': "m' \<in> mods s'" "\<forall>v \<le> n_vars s. m' v = m v" using complete [OF m(1)] by blast
  have "fvals fs' m' i x = \<rho> i x" if i: "i < length fs" "x \<in> ts_names ts" for i x
  proof -
    have "frame_ok P ts s (fs ! i)" using ch i by (simp add: chain_def)
    then have "fvals fs m' i x = fvals fs m i x" using eval_env_agree [OF _ i(2) m'(2)]
      by (simp add: frame_ok_def fvals_def fval_def)
    then show ?thesis using m(2) i eq [OF i(1)] by simp
  qed
  then show "\<exists>m \<in> mods s'. \<forall>i < length fs'. \<forall>x \<in> ts_names ts. fvals fs' m i x = \<rho> i x"
    using m'(1) fs(1) by auto
qed

lemma chain_C: "chain P ts s fs (\<lambda>\<rho>. C \<rho> \<and> True) = chain P ts s fs C"
  by simp

lemma chain_extends:
  assumes ch: "chain P ts s fs C" and ext: "extends s s'"
    and fs: "length fs' = length fs" "\<forall>i < length fs. fenv (fs' ! i) = fenv (fs ! i) \<and> frame_ok P ts s' (fs' ! i)"
  shows "chain P ts s' fs' C"
  using chain_grow [OF ch _ _ _ fs, where D = "\<lambda>_. True"] ext
  unfolding extends_def by (simp add: local_on_def)

text \<open>Adding clauses whose meaning on the frames is \<open>D\<close>.\<close>

lemma chain_clause:
  assumes ch: "chain P ts s fs C" and ls: "\<forall>l \<in> set ls. lit_ok (n_vars s) l"
    and D: "local_on (length fs) (ts_names ts) D" "\<And>m. m \<in> mods s \<Longrightarrow> sat_clause m ls = D (fvals fs m)"
  shows "chain P ts (snd (add_clause ls s)) fs (\<lambda>\<rho>. C \<rho> \<and> D \<rho>)"
proof -
  let ?s = "snd (add_clause ls s)"
  have s: "sinv s" "inv s" using ch by (simp_all add: chain_def sinv_def)
  note ac = add_clause_cases [OF s(2) ls]
  have "sinv ?s" using ac s by (auto simp: sinv_def)
  moreover have "frame_ok P ts ?s f" if "f \<in> set fs" for f
    using ch that ac by (fastforce simp: chain_def frame_ok_def memo_ok_def)
  ultimately show ?thesis using ac D(2)
    by (intro chain_grow [OF ch _ _ _ refl _ D(1)]) auto
qed

lemma chain_start: "chain P ts Solver [] (\<lambda>_. True)"
  by (simp add: chain_def sinv_def inv_Solver mods_Solver local_on_def) (simp add: Solver_def)

subsection \<open>Fresh names\<close>

lemma sinv_new_var: "sinv s \<Longrightarrow> sinv (snd (new_var s))"
  by (auto simp: sinv_def inv_new_var intro: lit_ok_mono)

lemma alloc_names:
  assumes "alloc_names xs env s = (env', s')" "sinv s" "distinct xs"
  shows "sinv s' \<and> n_vars s' = n_vars s + length xs \<and> mods s' = mods s \<and>
     (\<forall>x. x \<notin> set xs \<longrightarrow> env' x = env x) \<and> (\<forall>i < length xs. env' (xs ! i) = Some (int (Suc (n_vars s + i))))"
  using assms
proof (induction xs arbitrary: env s)
  case Nil
  then show ?case by simp
next
  case (Cons x xs)
  have s1: "sinv (snd (new_var s))" by (rule sinv_new_var [OF Cons.prems(2)])
  have "alloc_names xs (env(x \<mapsto> int (Suc (n_vars s)))) (snd (new_var s)) = (env', s')"
    using Cons.prems(1) by (simp add: split_beta)
  note IH = Cons.IH [OF this s1]
  have "distinct xs" "x \<notin> set xs" using Cons.prems(3) by simp_all
  with IH have r: "sinv s'" "n_vars s' = Suc (n_vars s) + length xs" "mods s' = mods s"
    "\<forall>y. y \<notin> set xs \<longrightarrow> env' y = (env(x \<mapsto> int (Suc (n_vars s)))) y"
    "\<forall>i < length xs. env' (xs ! i) = Some (int (Suc (Suc (n_vars s) + i)))" by simp_all
  have "env' ((x # xs) ! i) = Some (int (Suc (n_vars s + i)))" if "i < length (x # xs)" for i
    using r(4,5) \<open>x \<notin> set xs\<close> that by (cases i) auto
  then show ?case using r by auto
qed

lemma alloc_choice:
  assumes al: "alloc_names xs env s = (env', s')" and s: "sinv s" and d: "distinct xs" and m: "m \<in> mods s"
  shows "\<exists>m' \<in> mods s'. (\<forall>v \<le> n_vars s. m' v = m v) \<and> (\<forall>x \<in> set xs. eval_env env' m' x = \<rho> x)"
proof -
  note a = alloc_names [OF al s d]
  let ?m = "\<lambda>v. if v \<le> n_vars s then m v else \<rho> (xs ! (v - n_vars s - 1))"
  have b: "binv s" using s by (simp add: sinv_def inv_def)
  have "?m \<in> mods s" by (rule mods_cong [OF b _ m]) simp
  moreover have "eval_env env' ?m x = \<rho> x" if x: "x \<in> set xs" for x
  proof -
    obtain i where i: "i < length xs" "x = xs ! i" using x by (auto simp: in_set_conv_nth)
    have "env' x = Some (int (Suc (n_vars s + i)))" using a i by simp
    then show ?thesis using i
      by (simp add: eval_env_def sat_lit_def lvar_def del: of_nat_Suc of_nat_add)
  qed
  ultimately show ?thesis using a by (intro bexI [of _ ?m]) auto
qed

lemma alloc_env_ok:
  assumes "alloc_names xs env s = (env', s')" "sinv s" "distinct xs"
  shows "env_ok (n_vars s') env' (set xs)"
  using alloc_names [OF assms] by (auto simp: env_ok_def in_set_conv_nth lit_ok_def lvar_def)

lemma alloc_append:
  "alloc_names ys (fst (alloc_names xs env s)) (snd (alloc_names xs env s)) = alloc_names (xs @ ys) env s"
  by (induction xs arbitrary: env s) (simp_all add: split_beta)

text \<open>A new frame at the end of the chain is unconstrained.\<close>

lemma chain_add_frame:
  assumes ch: "chain P ts s fs C" and s': "sinv s'" "n_vars s \<le> n_vars s'" "mods s' \<subseteq> mods s"
    and f: "frame_ok P ts s' f" "\<forall>f \<in> set fs. frame_ok P ts s' f" and n: "length fs = n"
    and D: "local_on (Suc n) (ts_names ts) D" "\<And>m. m \<in> mods s' \<Longrightarrow> D (fvals (fs @ [f]) m)"
    and complete: "\<And>m \<rho>. m \<in> mods s \<Longrightarrow> \<forall>i < n. \<forall>x \<in> ts_names ts. fvals fs m i x = \<rho> i x \<Longrightarrow> D \<rho> \<Longrightarrow>
      \<exists>m' \<in> mods s'. (\<forall>v \<le> n_vars s. m' v = m v) \<and> (\<forall>x \<in> ts_names ts. fval f m' x = \<rho> n x)"
  shows "chain P ts s' (fs @ [f]) (\<lambda>\<rho>. C \<rho> \<and> D \<rho>)"
  unfolding chain_def
proof (intro conjI ballI allI impI)
  have C: "local_on n (ts_names ts) C" using ch n by (simp add: chain_def)
  show "sinv s'" by (fact s')
  show "frame_ok P ts s' g" if "g \<in> set (fs @ [f])" for g using that f by auto
  show "local_on (length (fs @ [f])) (ts_names ts) (\<lambda>\<rho>. C \<rho> \<and> D \<rho>)"
    using local_conj [OF local_mono [OF C, of "Suc n"] D(1)] n by simp
  show "C (fvals (fs @ [f]) m)" if "m \<in> mods s'" for m
  proof -
    have "C (fvals fs m)" using chain_sound [OF ch] that s'(3) by blast
    moreover have "fvals (fs @ [f]) m i = fvals fs m i" if "i < n" for i
      using that n by (simp add: fvals_def nth_append)
    ultimately show ?thesis using C unfolding local_on_def by metis
  qed
  show "D (fvals (fs @ [f]) m)" if "m \<in> mods s'" for m using D(2) [OF that] .
  fix \<rho> assume \<rho>: "C \<rho> \<and> D \<rho>"
  then obtain m where m: "m \<in> mods s" "\<forall>i < n. \<forall>x \<in> ts_names ts. fvals fs m i x = \<rho> i x"
    using ch n unfolding chain_def by blast
  obtain m' where m': "m' \<in> mods s'" "\<forall>v \<le> n_vars s. m' v = m v" "\<forall>x \<in> ts_names ts. fval f m' x = \<rho> n x"
    using complete [OF m] \<rho> by blast
  have "fvals (fs @ [f]) m' i x = \<rho> i x" if i: "i < Suc n" "x \<in> ts_names ts" for i x
  proof (cases "i = n")
    case True
    then show ?thesis using m'(3) i n by (simp add: fvals_def nth_append)
  next
    case False
    then have il: "i < n" using i by simp
    then have "frame_ok P ts s (fs ! i)" using ch n by (simp add: chain_def)
    then have "fvals fs m' i x = fvals fs m i x" using eval_env_agree [OF _ i(2) m'(2)]
      by (simp add: frame_ok_def fvals_def fval_def)
    then show ?thesis using m(2) i il n by (simp add: fvals_def nth_append)
  qed
  then show "\<exists>m \<in> mods s'. \<forall>i < length (fs @ [f]). \<forall>x \<in> ts_names ts. fvals (fs @ [f]) m i x = \<rho> i x"
    using m'(1) n by (intro bexI [of _ m']) auto
qed

lemma chain_fresh:
  assumes wf: "wf_ts P ts" and ch: "chain P ts s fs C" and f: "fresh_frame ts s = (f, s')"
  shows "chain P ts s' (fs @ [f]) C" "\<forall>x l. fenv f x = Some l \<longrightarrow> l > 0"
proof -
  let ?xs = "ts_state ts @ ts_inputs ts"
  have d: "distinct ?xs" using wf by (simp add: wf_ts_def)
  have s: "sinv s" using ch by (simp add: chain_def)
  have al: "alloc_names ?xs Map.empty s = (fenv f, s')"
    using f unfolding fresh_frame_def by (auto simp: split_beta alloc_append [symmetric])
  have fm: "fmemo f = Map.empty" using f by (auto simp: fresh_frame_def split_beta)
  note a = alloc_names [OF al s d]
  have names: "ts_names ts = set ?xs" by (simp add: ts_names_def)
  have fok: "frame_ok P ts s' f" using alloc_env_ok [OF al s d] fm by (simp add: frame_ok_def names)
  have "extends s s'" using a by (auto simp: extends_def)
  then have "frame_ok P ts s' g" if "g \<in> set fs" for g
    using ch that by (auto simp: chain_def intro: frame_ok_extends)
  then have "chain P ts s' (fs @ [f]) (\<lambda>\<rho>. C \<rho> \<and> True)"
  proof (intro chain_add_frame [OF ch, where D = "\<lambda>_. True"])
    fix m \<rho> assume m: "m \<in> mods s"
    show "\<exists>m' \<in> mods s'. (\<forall>v \<le> n_vars s. m' v = m v) \<and>
        (\<forall>x \<in> ts_names ts. fval f m' x = \<rho> (length fs) x)"
      using alloc_choice [OF al s d m, of "\<rho> (length fs)"] by (simp add: names fval_def)
  qed (use a fok in \<open>auto simp: local_on_def\<close>)
  then show "chain P ts s' (fs @ [f]) C" by simp
  show "\<forall>x l. fenv f x = Some l \<longrightarrow> l > 0"
  proof (intro allI impI)
    fix x l assume l: "fenv f x = Some l"
    then have "x \<in> set ?xs" using a by fastforce
    then obtain i where "i < length ?xs" "?xs ! i = x" by (meson in_set_conv_nth)
    then show "l > 0" using a l by (metis of_nat_0_less_iff option.inject zero_less_Suc)
  qed
qed

subsection \<open>Initial states and the property\<close>

text \<open>Asserting values on names: the clauses hold exactly in the models with those values.\<close>

lemma assert_names_ok:
  assumes "sinv s" "env_ok (n_vars s) env (fst ` set xs)" "\<forall>x \<in> set xs. snd x \<noteq> None"
  shows "\<exists>s'. assert_names xs env s = Some s' \<and> sinv s' \<and> n_vars s' = n_vars s \<and>
     mods s' = mods s \<inter> {m. \<forall>(x, b) \<in> set xs. b = Some (eval_env env m x)}"
  using assms
proof (induction xs arbitrary: s)
  case Nil
  then show ?case by simp
next
  case (Cons xb xs)
  obtain x v where xb: "xb = (x, Some v)" using Cons.prems(3) by (cases xb) auto
  obtain l where l: "env x = Some l" "lit_ok (n_vars s) l" using Cons.prems(2) xb by (auto simp: env_ok_def)
  let ?c = "[if v then l else - l]" and ?s = "snd (add_clause [if v then l else - l] s)"
  have "\<forall>k \<in> set ?c. lit_ok (n_vars s) k" using l(2) by simp
  note ac = add_clause_cases [OF _ this]
  have i: "inv s" using Cons.prems(1) by (simp add: sinv_def)
  have l0: "l \<noteq> 0" using l(2) by (simp add: lit_ok_def)
  have c: "sat_clause m ?c \<longleftrightarrow> eval_env env m x = v" for m
    using l(1) l0 by (simp add: sat_clause_def eval_env_def)
  have s: "sinv ?s" "n_vars ?s = n_vars s" "mods ?s = mods s \<inter> {m. eval_env env m x = v}"
    using ac [OF i] Cons.prems(1) c by (auto simp: sinv_def)
  have "env_ok (n_vars ?s) env (fst ` set xs)" using Cons.prems(2) s(2) by (auto simp: env_ok_def)
  from Cons.IH [OF s(1) this] Cons.prems(3) s(2,3) l(1) xb show ?case by auto
qed

lemma chain_init:
  assumes wf: "wf_ts P ts" and ch: "chain P ts s fs C" and i: "i < length fs"
  shows "\<exists>s'. assert_init ts (fs ! i) s = Some s' \<and> chain P ts s' fs (\<lambda>\<rho>. C \<rho> \<and> is_init ts (\<rho> i))"
proof -
  let ?xs = "map (\<lambda>n. (n, ts_init ts n)) (ts_state ts)"
  have s: "sinv s" and fo: "frame_ok P ts s (fs ! i)" using ch i by (simp_all add: chain_def)
  have "env_ok (n_vars s) (fenv (fs ! i)) (fst ` set ?xs)"
    using fo by (rule_tac env_ok_mono [of _ _ "ts_names ts"]) (auto simp: frame_ok_def ts_names_def)
  moreover have "\<forall>x \<in> set ?xs. snd x \<noteq> None" using wf by (auto simp: wf_ts_def)
  ultimately obtain s' where s': "assert_names ?xs (fenv (fs ! i)) s = Some s'" "sinv s'" "n_vars s' = n_vars s"
    "mods s' = mods s \<inter> {m. \<forall>(x, b) \<in> set ?xs. b = Some (eval_env (fenv (fs ! i)) m x)}"
    using assert_names_ok [OF s] by blast
  have eq: "(\<forall>(x, b) \<in> set ?xs. b = Some (eval_env (fenv (fs ! i)) m x)) \<longleftrightarrow> is_init ts (fvals fs m i)" for m
    by (auto simp: is_init_def fvals_def fval_def)
  have fr: "frame_ok P ts s' f" if "f \<in> set fs" for f
    using ch that s' by (fastforce simp: chain_def frame_ok_def memo_ok_def)
  have loc: "local_on (length fs) (ts_names ts) (\<lambda>\<rho>. is_init ts (\<rho> i))"
    unfolding local_on_def using i init_cong by blast
  have "chain P ts s' fs (\<lambda>\<rho>. C \<rho> \<and> is_init ts (\<rho> i))"
  proof (rule chain_grow [OF ch s'(2) _ _ refl _ loc])
    show "is_init ts (fvals fs m i)" if "m \<in> mods s'" for m using that s'(4) eq by blast
    show "\<exists>m' \<in> mods s'. \<forall>v \<le> n_vars s. m' v = m v" if "m \<in> mods s" "is_init ts (fvals fs m i)" for m
      using that s'(4) eq by blast
  qed (use s' fr in auto)
  then show ?thesis using s'(1) by (auto simp: assert_init_def)
qed

lemma chain_bad:
  assumes wf: "wf_ts P ts" and ch: "chain P ts s fs C" and i: "i < length fs"
  shows "\<exists>l f s'. bad_lit ts (fs ! i) s = Some (l, f, s') \<and> chain P ts s' (fs[i := f]) C \<and>
     lit_ok (n_vars s') l \<and> fenv f = fenv (fs ! i) \<and>
     (\<forall>m \<in> mods s'. sat_lit m l = is_bad ts (fvals fs m i))"
proof -
  let ?f = "fs ! i"
  obtain b where b: "ts_bad ts = Some b" "b \<in> P" "svars b \<subseteq> ts_names ts" using wf by (auto simp: wf_ts_def)
  have s: "sinv s" and fo: "frame_ok P ts s ?f" using ch i by (simp_all add: chain_def)
  have pool: "pool P" using wf by (simp add: wf_ts_def)
  obtain l memo s' where t: "tseitin add_clause b (fenv ?f) (fmemo ?f) s = Some (l, memo, s')"
    and e: "extends s s'" "memo_ok P (fenv ?f) memo s'" "lit_ok (n_vars s') l"
    "\<forall>m \<in> mods s'. sat_lit m l = sval (eval_env (fenv ?f) m) b"
    using fo unfolding frame_ok_def by (metis cdcl.tseitinE [OF pool b(2) s _ b(3)])
  let ?f' = "?f\<lparr>fmemo := memo\<rparr>"
  have fo': "frame_ok P ts s' ?f'" using frame_ok_extends [OF fo e(1)] e(2) by (simp add: frame_ok_def)
  have "frame_ok P ts s' ((fs[i := ?f']) ! j)" if "j < length fs" for j
    using that fo' ch frame_ok_extends [OF _ e(1)] by (cases "j = i") (auto simp: chain_def)
  then have "chain P ts s' (fs[i := ?f']) C"
    using i by (intro chain_extends [OF ch e(1)]) (auto simp: nth_list_update)
  then show ?thesis using t b(1) e by (auto simp: bad_lit_def is_bad_def fvals_def fval_def)
qed

text \<open>Asserting the property, or its violation, at a frame.\<close>

lemma chain_assert_bad:
  assumes wf: "wf_ts P ts" and ch: "chain P ts s fs C" and i: "i < length fs"
    and l: "lit_ok (n_vars s) l" "\<forall>m \<in> mods s. sat_lit m l = is_bad ts (fvals fs m i)"
  shows "chain P ts (snd (add_clause [l] s)) fs (\<lambda>\<rho>. C \<rho> \<and> is_bad ts (\<rho> i))"
    "chain P ts (snd (add_clause [- l] s)) fs (\<lambda>\<rho>. C \<rho> \<and> \<not> is_bad ts (\<rho> i))"
proof -
  have loc: "local_on (length fs) (ts_names ts) (\<lambda>\<rho>. is_bad ts (\<rho> i))"
    unfolding local_on_def using i bad_cong [OF wf] by blast
  have l0: "l \<noteq> 0" using l(1) by (simp add: lit_ok_def)
  show "chain P ts (snd (add_clause [l] s)) fs (\<lambda>\<rho>. C \<rho> \<and> is_bad ts (\<rho> i))"
    using l by (intro chain_clause [OF ch _ loc]) (auto simp: sat_clause_def)
  have "local_on (length fs) (ts_names ts) (\<lambda>\<rho>. \<not> is_bad ts (\<rho> i))"
    using loc by (simp add: local_on_def)
  then show "chain P ts (snd (add_clause [- l] s)) fs (\<lambda>\<rho>. C \<rho> \<and> \<not> is_bad ts (\<rho> i))"
    using l l0 by (intro chain_clause [OF ch]) (auto simp: sat_clause_def)
qed

subsection \<open>Next-state functions\<close>

lemma encode_next_ok:
  assumes "sinv s" "pool P" "env_ok (n_vars s) env X" "memo_ok P env memo s" "distinct (map fst fs)"
    "\<forall>(n, g) \<in> set fs. \<exists>h. g = Some h \<and> h \<in> P \<and> svars h \<subseteq> X"
  shows "\<exists>out' memo' s'. encode_next add_clause fs env out memo s = Some (out', memo', s') \<and>
     extends s s' \<and> memo_ok P env memo' s' \<and> (\<forall>x. x \<notin> fst ` set fs \<longrightarrow> out' x = out x) \<and>
     (\<forall>(n, g) \<in> set fs. \<exists>l. out' n = Some l \<and> lit_ok (n_vars s') l \<and>
        (\<forall>m \<in> mods s'. sat_lit m l = sval (eval_env env m) (the g)))"
  using assms
proof (induction fs arbitrary: out memo s)
  case Nil
  then show ?case by (auto intro: extends_refl)
next
  case (Cons f fs)
  obtain n h where f: "f = (n, Some h)" "h \<in> P" "svars h \<subseteq> X" using Cons.prems(6) by (cases f) auto
  obtain l memo1 s1 where r: "tseitin add_clause h env memo s = Some (l, memo1, s1)"
    and e: "extends s s1" "memo_ok P env memo1 s1" "lit_ok (n_vars s1) l"
    "\<forall>m \<in> mods s1. sat_lit m l = sval (eval_env env m) h"
    by (rule cdcl.tseitinE [OF Cons.prems(2) f(2) Cons.prems(1,3) f(3) Cons.prems(4)])
  have envX: "env_ok (n_vars s1) env X" using Cons.prems(3) extendsD(2) [OF e(1)] by (rule env_ok_mono) simp
  have d: "distinct (map fst fs)" and hs: "\<forall>(n, g) \<in> set fs. \<exists>h. g = Some h \<and> h \<in> P \<and> svars h \<subseteq> X"
    using Cons.prems(5,6) by simp_all
  obtain out' memo' s' where IH: "encode_next add_clause fs env (out(n \<mapsto> l)) memo1 s1 = Some (out', memo', s')"
    "extends s1 s'" "memo_ok P env memo' s'" "\<forall>x. x \<notin> fst ` set fs \<longrightarrow> out' x = (out(n \<mapsto> l)) x"
    "\<forall>(n, g) \<in> set fs. \<exists>l. out' n = Some l \<and> lit_ok (n_vars s') l \<and>
        (\<forall>m \<in> mods s'. sat_lit m l = sval (eval_env env m) (the g))"
    using Cons.IH [OF extendsD(1) [OF e(1)] Cons.prems(2) envX e(2) d hs, of "out(n \<mapsto> l)"] by blast
  have "n \<notin> fst ` set fs" using Cons.prems(5) f(1) by simp
  then have "out' n = Some l" using IH(4) by simp
  moreover have "lit_ok (n_vars s') l" "\<forall>m \<in> mods s'. sat_lit m l = sval (eval_env env m) h"
    using e(3,4) extendsD(2,4) [OF IH(2)] by (auto intro: lit_ok_mono)
  moreover have "encode_next add_clause (f # fs) env out memo s = Some (out', memo', s')"
    using r IH(1) by (simp add: f(1))
  moreover have "\<forall>x. x \<notin> fst ` set (f # fs) \<longrightarrow> out' x = out x" using IH(4) f(1) by simp
  ultimately show ?case using extends_trans [OF e(1) IH(2)] IH(3,5) f(1) by auto
qed

lemma wf_next:
  assumes "wf_ts P ts"
  shows "\<forall>(n, g) \<in> set (map (\<lambda>n. (n, ts_next ts n)) (ts_state ts)). \<exists>h. g = Some h \<and> h \<in> P \<and> svars h \<subseteq> ts_names ts"
    "distinct (map fst (map (\<lambda>n. (n, ts_next ts n)) (ts_state ts)))"
  using assms by (auto simp: wf_ts_def comp_def)

text \<open>\<open>next_env\<close> adds a frame that is one step after frame \<open>i\<close>.\<close>

lemma next_env_ok:
  assumes wf: "wf_ts P ts" and s: "sinv s" and f: "frame_ok P ts s f"
  shows "\<exists>f1 f' s'. next_env ts f s = Some (f1, f', s') \<and> extends s s' \<and> fenv f' = fenv f \<and>
     frame_ok P ts s' f' \<and> frame_ok P ts s' f1 \<and> (\<forall>m \<in> mods s'. step ts (fval f m) (fval f1 m)) \<and>
     (\<forall>m \<in> mods s. \<forall>\<rho>. step ts (fval f m) \<rho> \<longrightarrow> (\<exists>m' \<in> mods s'. (\<forall>v \<le> n_vars s. m' v = m v) \<and>
        (\<forall>x \<in> ts_names ts. fval f1 m' x = \<rho> x)))"
proof -
  let ?fs = "map (\<lambda>n. (n, ts_next ts n)) (ts_state ts)"
  have pool: "pool P" and d: "distinct (ts_inputs ts)" "set (ts_state ts) \<inter> set (ts_inputs ts) = {}"
    using wf by (auto simp: wf_ts_def)
  have fo: "env_ok (n_vars s) (fenv f) (ts_names ts)" "memo_ok P (fenv f) (fmemo f) s"
    using f by (simp_all add: frame_ok_def)
  obtain out memo s1 where en: "encode_next add_clause ?fs (fenv f) Map.empty (fmemo f) s = Some (out, memo, s1)"
    "extends s s1" "memo_ok P (fenv f) memo s1"
    "\<forall>(n, g) \<in> set ?fs. \<exists>l. out n = Some l \<and> lit_ok (n_vars s1) l \<and>
        (\<forall>m \<in> mods s1. sat_lit m l = sval (eval_env (fenv f) m) (the g))"
    using encode_next_ok [OF s pool fo wf_next(2,1) [OF wf]] by blast
  obtain out2 s2 where al: "alloc_names (ts_inputs ts) out s1 = (out2, s2)" by fastforce
  note a = alloc_names [OF al extendsD(1) [OF en(2)] d(1)]
  let ?f1 = "\<lparr>fenv = out2, fmemo = Map.empty\<rparr>" and ?f' = "f\<lparr>fmemo := memo\<rparr>"
  have x12: "extends s1 s2" using a by (auto simp: extends_def)
  note x = extends_trans [OF en(2) x12]
  have res: "next_env ts f s = Some (?f1, ?f', s2)" using en(1) al by (simp add: next_env_def)
  have outS: "out2 n = out n" if "n \<in> set (ts_state ts)" for n using a d(2) that by blast
  have lits: "\<exists>l g. out2 n = Some l \<and> lit_ok (n_vars s1) l \<and> ts_next ts n = Some g \<and> svars g \<subseteq> ts_names ts \<and>
      (\<forall>m \<in> mods s1. sat_lit m l = sval (fval f m) g)" if n: "n \<in> set (ts_state ts)" for n
    using en(4) n outS [OF n] wf_next(1) [OF wf] by (fastforce simp: fval_def)
  have "env_ok (n_vars s2) out2 (ts_names ts)"
    unfolding env_ok_def
  proof
    fix y assume "y \<in> ts_names ts"
    then consider "y \<in> set (ts_state ts)" | "y \<in> set (ts_inputs ts)" by (auto simp: ts_names_def)
    then show "\<exists>l. out2 y = Some l \<and> lit_ok (n_vars s2) l"
    proof cases
      case 1
      then show ?thesis using lits [OF 1] extendsD(2) [OF x12] lit_ok_mono by blast
    next
      case 2
      then show ?thesis using alloc_env_ok [OF al extendsD(1) [OF en(2)] d(1)] by (simp add: env_ok_def)
    qed
  qed
  then have f1: "frame_ok P ts s2 ?f1" by (simp add: frame_ok_def)
  have f': "frame_ok P ts s2 ?f'"
    using frame_ok_extends [OF f x] memo_ok_extends [OF en(3) x12] by (simp add: frame_ok_def)
  have st: "step ts (fval f m) (fval ?f1 m)" if "m \<in> mods s2" for m
    using lits extendsD(4) [OF x12 that] by (fastforce simp: step_def fval_def eval_env_def)
  have "\<exists>m' \<in> mods s2. (\<forall>v \<le> n_vars s. m' v = m v) \<and> (\<forall>y \<in> ts_names ts. fval ?f1 m' y = \<rho> y)"
    if m: "m \<in> mods s" and \<rho>: "step ts (fval f m) \<rho>" for m \<rho>
  proof -
    obtain m1 where m1: "m1 \<in> mods s1" "\<forall>v \<le> n_vars s. m1 v = m v" using en(2) m by (auto simp: extends_def)
    obtain m2 where m2: "m2 \<in> mods s2" "\<forall>v \<le> n_vars s1. m2 v = m1 v" "\<forall>y \<in> set (ts_inputs ts). eval_env out2 m2 y = \<rho> y"
      using alloc_choice [OF al extendsD(1) [OF en(2)] d(1) m1(1), of \<rho>] by blast
    have agree: "\<forall>v \<le> n_vars s. m2 v = m v" using m1(2) m2(2) extendsD(2) [OF en(2)] by auto
    have same: "fval f m2 y = fval f m y" if "y \<in> ts_names ts" for y
      using eval_env_agree [OF fo(1) that agree] by (simp add: fval_def)
    have "fval ?f1 m2 n = \<rho> n" if n: "n \<in> set (ts_state ts)" for n
    proof -
      obtain l g where l: "out2 n = Some l" "ts_next ts n = Some g" "svars g \<subseteq> ts_names ts"
        "\<forall>m \<in> mods s1. sat_lit m l = sval (fval f m) g" using lits [OF n] by blast
      have "fval ?f1 m2 n = sval (fval f m2) g"
        using l(1,4) extendsD(4) [OF x12 m2(1)] by (simp add: fval_def eval_env_def)
      also have "\<dots> = sval (fval f m) g" using same l(3) by (intro sval_cong) blast
      also have "\<dots> = \<rho> n" using \<rho> n l(2) by (simp add: step_def)
      finally show ?thesis .
    qed
    then show ?thesis using m2(1,3) agree by (auto simp: ts_names_def fval_def)
  qed
  then show ?thesis using res x f1 f' st by auto
qed

end
