(* ===== verification/Heapq.thy ===== *)
theory Heapq
  imports Main "HOL-Library.Multiset"
begin

text \<open>
  Python's \<open>heapq\<close>, as IC3's obligation queue uses it: \<open>heappush\<close> and \<open>heappop\<close> on a list, with the
  comparison of the elements as an argument. The elements there are pairs of a level and a cube, which
  are ordered by the level first and by set inclusion on equal levels, so the order is partial; the
  locale \<open>levelled\<close> states what is enough for a pop to return an element of the smallest level.
\<close>

subsection \<open>The operations\<close>

function siftdown :: "('a \<Rightarrow> 'a \<Rightarrow> bool) \<Rightarrow> 'a list \<Rightarrow> nat \<Rightarrow> 'a \<Rightarrow> 'a list" where
  "siftdown lt heap p x =
     (if 0 < p \<and> lt x (heap ! ((p - 1) div 2))
      then siftdown lt (heap[p := heap ! ((p - 1) div 2)]) ((p - 1) div 2) x
      else heap[p := x])"
  by pat_completeness auto
termination by (relation "measure (\<lambda>(_, _, p, _). p)") auto

declare siftdown.simps [simp del]

definition small_child :: "('a \<Rightarrow> 'a \<Rightarrow> bool) \<Rightarrow> 'a list \<Rightarrow> nat \<Rightarrow> nat" where
  "small_child lt heap p =
     (if 2 * p + 2 < length heap \<and> \<not> lt (heap ! (2 * p + 1)) (heap ! (2 * p + 2)) then 2 * p + 2 else 2 * p + 1)"

function siftup :: "('a \<Rightarrow> 'a \<Rightarrow> bool) \<Rightarrow> 'a list \<Rightarrow> nat \<Rightarrow> 'a \<Rightarrow> 'a list" where
  "siftup lt heap p x =
     (if 2 * p + 1 < length heap
      then siftup lt (heap[p := heap ! small_child lt heap p]) (small_child lt heap p) x
      else siftdown lt heap p x)"
  by pat_completeness auto
termination by (relation "measure (\<lambda>(_, heap, p, _). length heap - p)") (auto simp: small_child_def)

declare siftup.simps [simp del]

definition heappush :: "('a \<Rightarrow> 'a \<Rightarrow> bool) \<Rightarrow> 'a list \<Rightarrow> 'a \<Rightarrow> 'a list" where
  "heappush lt heap x = siftdown lt (heap @ [x]) (length heap) x"

text \<open>\<open>None\<close> is the IndexError on an empty heap.\<close>

definition heappop :: "('a \<Rightarrow> 'a \<Rightarrow> bool) \<Rightarrow> 'a list \<Rightarrow> ('a \<times> 'a list) option" where
  "heappop lt heap =
     (if heap = [] then None
      else let lastelt = last heap; heap = butlast heap in
        if heap = [] then Some (lastelt, [])
        else Some (heap ! 0, siftup lt heap 0 lastelt))"

subsection \<open>The elements stay\<close>

lemma mset_move:
  assumes "p < length xs" "q < length xs" "p \<noteq> q"
  shows "mset (xs[p := xs ! q, q := x]) = mset (xs[p := x])"
proof -
  have "mset ((xs[p := x])[p := xs[p := x] ! q, q := xs[p := x] ! p]) = mset (xs[p := x])"
    using assms by (intro mset_swap) auto
  then show ?thesis using assms by simp
qed

lemma mset_siftdown: "p < length heap \<Longrightarrow> mset (siftdown lt heap p x) = mset (heap[p := x])"
proof (induction lt heap p x rule: siftdown.induct)
  case (1 lt heap p x)
  let ?q = "(p - 1) div 2"
  show ?case
  proof (cases "0 < p \<and> lt x (heap ! ?q)")
    case True
    then have q: "?q < length heap" "?q \<noteq> p" using "1.prems" by auto
    have "mset (siftdown lt heap p x) = mset (heap[p := heap ! ?q, ?q := x])"
      using "1.IH" [OF True] True q(1) by (simp add: siftdown.simps [of lt heap p x])
    then show ?thesis using mset_move [OF "1.prems" q(1)] q(2) by simp
  next
    case False
    then show ?thesis by (subst siftdown.simps) (simp only: if_False)
  qed
qed

lemma length_siftdown [simp]: "length (siftdown lt heap p x) = length heap"
  by (induction lt heap p x rule: siftdown.induct) (subst siftdown.simps, simp)

lemma small_child_bounds:
  "2 * p + 1 < length heap \<Longrightarrow> small_child lt heap p < length heap \<and> p < small_child lt heap p"
  by (simp add: small_child_def)

lemma mset_siftup: "p < length heap \<Longrightarrow> mset (siftup lt heap p x) = mset (heap[p := x])"
proof (induction lt heap p x rule: siftup.induct)
  case (1 lt heap p x)
  let ?c = "small_child lt heap p"
  show ?case
  proof (cases "2 * p + 1 < length heap")
    case True
    note b = small_child_bounds [OF True, of lt]
    have "mset (siftup lt heap p x) = mset (heap[p := heap ! ?c, ?c := x])"
      using "1.IH" [OF True] True b by (simp add: siftup.simps [of lt heap p x])
    then show ?thesis using mset_move [OF "1.prems", of ?c] b by simp
  qed (simp add: siftup.simps [of lt heap p x] mset_siftdown "1.prems")
qed

lemma mset_heappush: "mset (heappush lt heap x) = add_mset x (mset heap)"
  by (simp add: heappush_def mset_siftdown)

lemma mset_heappop: "heappop lt heap = Some (x, heap') \<Longrightarrow> mset heap = add_mset x (mset heap')"
proof -
  assume pop: "heappop lt heap = Some (x, heap')"
  then have ne: "heap \<noteq> []" by (auto simp: heappop_def)
  then obtain ys y where h: "heap = ys @ [y]" by (metis rev_exhaust)
  show ?thesis
  proof (cases ys)
    case Nil
    then show ?thesis using pop h by (simp add: heappop_def)
  next
    case (Cons z zs)
    have "mset (siftup lt ys 0 y) = mset (ys[0 := y])" by (rule mset_siftup) (simp add: Cons)
    then show ?thesis using pop h Cons by (auto simp: heappop_def Let_def)
  qed
qed

lemma heappop_total: "heap \<noteq> [] \<Longrightarrow> \<exists>x heap'. heappop lt heap = Some (x, heap')"
  by (auto simp: heappop_def Let_def)

subsection \<open>A pop returns an element of the smallest level\<close>

locale levelled =
  fixes lt :: "'a \<Rightarrow> 'a \<Rightarrow> bool" and key :: "'a \<Rightarrow> nat"
  assumes lt_key: "lt x y \<Longrightarrow> key x \<le> key y"
    and not_lt_key: "\<not> lt x y \<Longrightarrow> key y \<le> key x"
begin

definition heap_ok :: "'a list \<Rightarrow> bool" where
  "heap_ok h \<longleftrightarrow> (\<forall>i. 0 < i \<and> i < length h \<longrightarrow> key (h ! ((i - 1) div 2)) \<le> key (h ! i))"

text \<open>All of the heap but the entry at \<open>p\<close>, whose children are above its parent.\<close>

definition hole_ok :: "'a list \<Rightarrow> nat \<Rightarrow> bool" where
  "hole_ok h p \<longleftrightarrow>
     (\<forall>i. 0 < i \<and> i < length h \<and> i \<noteq> p \<and> (i - 1) div 2 \<noteq> p \<longrightarrow> key (h ! ((i - 1) div 2)) \<le> key (h ! i)) \<and>
     (\<forall>i. 0 < i \<and> i < length h \<and> (i - 1) div 2 = p \<and> 0 < p \<longrightarrow> key (h ! ((p - 1) div 2)) \<le> key (h ! i))"

lemma siftdown_ok:
  "p < length h \<Longrightarrow> hole_ok h p \<Longrightarrow>
   \<forall>i. 0 < i \<and> i < length h \<and> (i - 1) div 2 = p \<longrightarrow> key x \<le> key (h ! i) \<Longrightarrow> heap_ok (siftdown lt h p x)"
proof (induction p arbitrary: h rule: less_induct)
  case (less p)
  let ?q = "(p - 1) div 2"
  note hole1 = less.prems(2) [unfolded hole_ok_def, THEN conjunct1, rule_format]
  note hole2 = less.prems(2) [unfolded hole_ok_def, THEN conjunct2, rule_format]
  note kids = less.prems(3) [rule_format]
  show ?case
  proof (cases "0 < p \<and> lt x (h ! ?q)")
    case True
    let ?h = "h[p := h ! ?q]"
    have q: "?q < p" "?q < length h" using True less.prems(1) by auto
    have xq: "key x \<le> key (h ! ?q)" using True lt_key by blast
    have up: "key (h ! ((?q - 1) div 2)) \<le> key (h ! ?q)" if "0 < ?q"
    proof -
      have "(?q - 1) div 2 < p" using that q by linarith
      then show ?thesis using hole1 [of ?q] q that by simp
    qed
    have sib: "key (h ! ?q) \<le> key (h ! i)" if "0 < i" "i < length h" "(i - 1) div 2 = ?q" "i \<noteq> p" for i
      using hole1 [of i] that q by auto
    have "hole_ok ?h ?q"
      unfolding hole_ok_def
    proof (intro conjI allI impI)
      fix i assume i: "0 < i \<and> i < length ?h \<and> i \<noteq> ?q \<and> (i - 1) div 2 \<noteq> ?q"
      then have ip: "i \<noteq> p" by auto
      show "key (?h ! ((i - 1) div 2)) \<le> key (?h ! i)"
        using i ip hole1 [of i] hole2 [of i] True less.prems(1) by (cases "(i - 1) div 2 = p") auto
    next
      fix i assume i: "0 < i \<and> i < length ?h \<and> (i - 1) div 2 = ?q \<and> 0 < ?q"
      then show "key (?h ! ((?q - 1) div 2)) \<le> key (?h ! i)"
      proof -
        have "(?q - 1) div 2 \<noteq> p" using q by linarith
        then show ?thesis
          using up sib [of i] q less.prems(1) i by (cases "i = p") (auto intro: order_trans)
      qed
    qed
    moreover have "key x \<le> key (?h ! i)" if "0 < i" "i < length ?h" "(i - 1) div 2 = ?q" for i
      using that xq sib [of i] less.prems(1) by (cases "i = p") auto
    ultimately have "heap_ok (siftdown lt ?h ?q x)" using less.IH [OF q(1), of ?h] q(2) by simp
    then show ?thesis using True by (simp add: siftdown.simps [of lt h p x])
  next
    case False
    have "key (h[p := x] ! ((i - 1) div 2)) \<le> key (h[p := x] ! i)" if i: "0 < i" "i < length h" for i
    proof -
      consider "i = p" | "(i - 1) div 2 = p" "i \<noteq> p" | "i \<noteq> p" "(i - 1) div 2 \<noteq> p" by blast
      then show ?thesis
      proof cases
        case 1
        then have "?q \<noteq> p" "\<not> lt x (h ! ?q)" using i False by auto
        then show ?thesis using 1 i not_lt_key by simp
      next
        case 2
        then show ?thesis using kids [of i] i less.prems(1) by simp
      next
        case 3
        then show ?thesis using hole1 [of i] i by simp
      qed
    qed
    moreover have "siftdown lt h p x = h[p := x]"
      using False by (subst siftdown.simps) (simp only: if_False)
    ultimately show ?thesis by (simp add: heap_ok_def)
  qed
qed

lemma siftup_ok: "p < length h \<Longrightarrow> hole_ok h p \<Longrightarrow> heap_ok (siftup lt h p x)"
proof (induction "length h - p" arbitrary: h p rule: less_induct)
  case less
  note hole1 = less.prems(2) [unfolded hole_ok_def, THEN conjunct1, rule_format]
  note hole2 = less.prems(2) [unfolded hole_ok_def, THEN conjunct2, rule_format]
  show ?case
  proof (cases "2 * p + 1 < length h")
    case True
    let ?c = "small_child lt h p"
    let ?h = "h[p := h ! ?c]"
    note b = small_child_bounds [OF True, of lt]
    have par: "(?c - 1) div 2 = p" by (simp add: small_child_def)
    have kids: "key (h ! ?c) \<le> key (h ! i)" if i: "0 < i" "i < length h" "(i - 1) div 2 = p" for i
    proof -
      have "i = 2 * p + 1 \<or> i = 2 * p + 2" using i by auto
      then show ?thesis
        using i(2) lt_key [of "h ! (2 * p + 1)" "h ! (2 * p + 2)"] not_lt_key [of "h ! (2 * p + 1)" "h ! (2 * p + 2)"]
        by (auto simp: small_child_def)
    qed
    have "hole_ok ?h ?c"
      unfolding hole_ok_def
    proof (intro conjI allI impI)
      fix i assume i: "0 < i \<and> i < length ?h \<and> i \<noteq> ?c \<and> (i - 1) div 2 \<noteq> ?c"
      consider "i = p" "(i - 1) div 2 \<noteq> p" | "(i - 1) div 2 = p" "i \<noteq> p" | "i \<noteq> p" "(i - 1) div 2 \<noteq> p"
        using i by force
      then show "key (?h ! ((i - 1) div 2)) \<le> key (?h ! i)"
      proof cases
        case 1
        then show ?thesis using hole2 [of ?c] par b i by auto
      next
        case 2
        then show ?thesis using kids [of i] i less.prems(1) by simp
      next
        case 3
        then show ?thesis using hole1 [of i] i by simp
      qed
    next
      fix i assume i: "0 < i \<and> i < length ?h \<and> (i - 1) div 2 = ?c \<and> 0 < ?c"
      then have "i \<noteq> p" "i \<noteq> ?c" using b by auto
      then show "key (?h ! ((?c - 1) div 2)) \<le> key (?h ! i)"
        using i hole1 [of i] par b less.prems(1) by auto
    qed
    then have "heap_ok (siftup lt ?h ?c x)" using less.hyps [of ?h ?c] b less.prems(1) diff_less_mono2 [of p ?c "length h"] by simp
    then show ?thesis using True by (simp add: siftup.simps [of lt h p x])
  next
    case False
    have "i < length h \<Longrightarrow> 0 < i \<Longrightarrow> (i - 1) div 2 \<noteq> p" for i using False by auto
    then show ?thesis
      using siftdown_ok [OF less.prems] False by (auto simp: siftup.simps [of lt h p x])
  qed
qed

lemma push_ok: "heap_ok h \<Longrightarrow> heap_ok (heappush lt h x)"
  unfolding heappush_def
proof (rule siftdown_ok)
  assume h: "heap_ok h"
  have "(i - 1) div 2 < length h" if "i < Suc (length h)" "0 < i" for i using that by simp
  moreover have "(length h - 1) div 2 \<noteq> length h" if "0 < length h" using that by linarith
  ultimately show "hole_ok (h @ [x]) (length h)"
    using h unfolding hole_ok_def heap_ok_def by (auto simp: nth_append less_Suc_eq)
qed auto

lemma root_least: "heap_ok h \<Longrightarrow> i < length h \<Longrightarrow> key (h ! 0) \<le> key (h ! i)"
proof (induction i rule: less_induct)
  case (less i)
  show ?case
  proof (cases "i = 0")
    case False
    then have "key (h ! 0) \<le> key (h ! ((i - 1) div 2))" using less by simp
    also have "\<dots> \<le> key (h ! i)" using less.prems False by (simp add: heap_ok_def)
    finally show ?thesis .
  qed simp
qed

lemma pop_ok:
  assumes h: "heap_ok h" and pop: "heappop lt h = Some (x, h')"
  shows "heap_ok h'" "\<forall>y \<in> set h. key x \<le> key y"
proof -
  have ne: "h \<noteq> []" using pop by (auto simp: heappop_def)
  then obtain ys y where hy: "h = ys @ [y]" by (metis rev_exhaust)
  have least: "\<forall>z \<in> set h. key (h ! 0) \<le> key z" using root_least [OF h] by (auto simp: in_set_conv_nth)
  show "heap_ok h'"
  proof (cases "ys = []")
    case True
    then show ?thesis using pop hy by (simp add: heappop_def heap_ok_def)
  next
    case False
    have "(i - 1) div 2 < length ys" if "i < length ys" for i using that by simp
    then have "hole_ok ys 0" using h hy unfolding hole_ok_def heap_ok_def by (auto simp: nth_append)
    then show ?thesis using siftup_ok [of 0 ys y] pop hy False by (auto simp: heappop_def Let_def)
  qed
  have "x = h ! 0" using pop hy by (cases ys) (auto simp: heappop_def Let_def)
  then show "\<forall>y \<in> set h. key x \<le> key y" using least by simp
qed

end

end
