(* ===== verification/Ic3.thy ===== *)
theory Ic3
  imports Frames Ternary Heapq
begin

text \<open>
  IC3 / PDR (\<open>ic3.py\<close>): class \<open>IC3\<close> as a record and its methods as functions on it. A cube or a clause is
  a set of signed, 1-based indices of state bits, as in the source. Python does not fix the order in
  which a set is iterated; the record \<open>traversal\<close> supplies one for cubes and one for frames, and the
  theorems hold for every choice. A query starts from a fresh solver each time, so the only state
  between queries is the frames, the counterexample cube and the cache of supports.
\<close>

subsection \<open>State\<close>

type_synonym cube = "int set"

record traversal =
  of_cube :: "cube \<Rightarrow> int list"
  of_frame :: "cube set \<Rightarrow> cube list"

record engine =
  frames :: "cube set list"
  found :: "cube option"
  sups :: "nat \<rightharpoonup> string set"

definition IC3 :: engine where
  "IC3 = \<lparr>frames = [{}, {}], found = None, sups = Map.empty\<rparr>"

subsection \<open>Query construction\<close>

definition query :: "trans_system \<Rightarrow> string list option \<Rightarrow> (solver \<times> frame \<times> env) option" where
  "query ts need = do {
     let (cur, s) = fresh_frame ts Solver;
     (nxt, memo, s) \<leftarrow> encode_next add_clause
        (map (\<lambda>n. (n, ts_next ts n)) (case need of None \<Rightarrow> ts_state ts | Some ns \<Rightarrow> ns))
        (fenv cur) Map.empty (fmemo cur) s;
     Some (s, cur\<lparr>fmemo := memo\<rparr>, nxt) }"

text \<open>Methods \<open>_cur\<close> and \<open>_nxt\<close>: the literal of a signed index in an environment.\<close>

definition bit_of :: "trans_system \<Rightarrow> int \<Rightarrow> string option" where
  "bit_of ts l = py_get (ts_state ts) (\<bar>l\<bar> - 1)"

definition bit_lit :: "trans_system \<Rightarrow> env \<Rightarrow> int \<Rightarrow> int option" where
  "bit_lit ts env l = do { n \<leftarrow> bit_of ts l; v \<leftarrow> env n; Some (if l > 0 then v else - v) }"

definition add_cube_clause :: "trans_system \<Rightarrow> env \<Rightarrow> int list \<Rightarrow> solver \<Rightarrow> solver option" where
  "add_cube_clause ts env ls s = do { ks \<leftarrow> those (map (bit_lit ts env) ls); Some (snd (add_clause ks s)) }"

primrec add_units :: "trans_system \<Rightarrow> env \<Rightarrow> int list \<Rightarrow> solver \<Rightarrow> solver option" where
  "add_units ts env [] s = Some s"
| "add_units ts env (l # ls) s = do { s \<leftarrow> add_cube_clause ts env [l] s; add_units ts env ls s }"

definition init_lits :: "trans_system \<Rightarrow> int list option" where
  "init_lits ts = those (map (\<lambda>i. map_option (\<lambda>b. if b then int i + 1 else - (int i + 1))
     (ts_init ts (ts_state ts ! i))) [0..<length (ts_state ts)])"

definition ic_assert_init :: "trans_system \<Rightarrow> env \<Rightarrow> solver \<Rightarrow> solver option" where
  "ic_assert_init ts cur s = do { ls \<leftarrow> init_lits ts; add_units ts cur ls s }"

primrec assert_clauses :: "traversal \<Rightarrow> trans_system \<Rightarrow> env \<Rightarrow> cube list \<Rightarrow> solver \<Rightarrow> solver option" where
  "assert_clauses tr ts cur [] s = Some s"
| "assert_clauses tr ts cur (cl # cls) s = do {
     s \<leftarrow> add_cube_clause ts cur (of_cube tr cl) s;
     assert_clauses tr ts cur cls s }"

definition assert_frame :: "traversal \<Rightarrow> trans_system \<Rightarrow> cube set list \<Rightarrow> env \<Rightarrow> nat \<Rightarrow> solver \<Rightarrow> solver option" where
  "assert_frame tr ts fr cur i s =
     (if i = 0 then ic_assert_init ts cur s
      else assert_clauses tr ts cur (concat (map (of_frame tr) (drop i fr))) s)"

definition state_cube :: "trans_system \<Rightarrow> solver \<Rightarrow> env \<Rightarrow> cube option" where
  "state_cube ts s cur = do {
     bs \<leftarrow> those (map (get_name s cur) (ts_state ts));
     Some (set (map (\<lambda>i. if bs ! i then int i + 1 else - (int i + 1)) [0..<length (ts_state ts)])) }"

definition model_env :: "trans_system \<Rightarrow> solver \<Rightarrow> env \<Rightarrow> (string \<rightharpoonup> tern) option" where
  "model_env ts s cur = do {
     let names = ts_state ts @ ts_inputs ts;
     bs \<leftarrow> those (map (get_name s cur) names);
     Some (map_of (zip names (map Some bs))) }"

subsection \<open>Ternary lifting\<close>

definition sup_of :: "sig \<Rightarrow> engine \<Rightarrow> (string set \<times> engine) option" where
  "sup_of g e =
     (case sups e (sid g) of
        Some X \<Rightarrow> Some (X, e)
      | None \<Rightarrow> do { X \<leftarrow> support g; Some (X, e\<lparr>sups := (sups e)(sid g \<mapsto> X)\<rparr>) })"

primrec sups_of :: "(sig \<times> bool) list \<Rightarrow> engine \<Rightarrow> (string set list \<times> engine) option" where
  "sups_of [] e = Some ([], e)"
| "sups_of (t # ts) e = do {
     (X, e) \<leftarrow> sup_of (fst t) e;
     (Xs, e) \<leftarrow> sups_of ts e;
     Some (X # Xs, e) }"

text \<open>The generator inside \<open>all(...)\<close>: it stops at the first target that is not definite at its value.\<close>

fun targets_hold :: "string \<Rightarrow> (string \<rightharpoonup> tern) \<Rightarrow> ((sig \<times> bool) \<times> string set) list \<Rightarrow> tern_memo \<Rightarrow> bool option" where
  "targets_hold n lifted [] memo = Some True"
| "targets_hold n lifted (((t, req), X) # rest) memo =
     (if n \<in> X then do {
        (v, memo) \<leftarrow> ternary_eval t lifted memo;
        if v = Some req then targets_hold n lifted rest memo else Some False }
      else targets_hold n lifted rest memo)"

primrec lift_sims ::
  "((sig \<times> bool) \<times> string set) list \<Rightarrow> string list \<Rightarrow> (string \<rightharpoonup> tern) \<Rightarrow> (string \<rightharpoonup> tern) option" where
  "lift_sims targets [] lifted = Some lifted"
| "lift_sims targets (n # ns) lifted = do {
     saved \<leftarrow> lifted n;
     (case saved of
        None \<Rightarrow> lift_sims targets ns lifted
      | Some b \<Rightarrow> do {
          let tried = lifted(n \<mapsto> None);
          ok \<leftarrow> targets_hold n tried targets Map.empty;
          lift_sims targets ns (if ok then tried else tried(n \<mapsto> Some b)) }) }"

definition env_cube :: "trans_system \<Rightarrow> (string \<rightharpoonup> tern) \<Rightarrow> cube" where
  "env_cube ts env = set (map (\<lambda>i. if env (ts_state ts ! i) = Some (Some True) then int i + 1 else - (int i + 1))
     (filter (\<lambda>i. env (ts_state ts ! i) \<noteq> Some None) [0..<length (ts_state ts)]))"

definition lift ::
  "trans_system \<Rightarrow> (string \<rightharpoonup> tern) \<Rightarrow> (sig \<times> bool) list \<Rightarrow> engine \<Rightarrow> (cube \<times> engine) option" where
  "lift ts env targets e = do {
     (Xs, e) \<leftarrow> sups_of targets e;
     let cone = \<Union> (set Xs);
     let lifted = fold (\<lambda>n env. if n \<notin> cone then env(n \<mapsto> None) else env) (ts_state ts) env;
     lifted \<leftarrow> lift_sims (zip targets Xs) (ts_state ts) lifted;
     let cube = env_cube ts lifted;
     Some (if cube = {} then env_cube ts env else cube, e) }"

subsection \<open>Queries\<close>

definition bad_cube :: "traversal \<Rightarrow> trans_system \<Rightarrow> nat \<Rightarrow> engine \<Rightarrow> (cube option \<times> engine) option" where
  "bad_cube tr ts k e = do {
     (s, cur, _) \<leftarrow> query ts (Some []);
     s \<leftarrow> assert_frame tr ts (frames e) (fenv cur) k s;
     b \<leftarrow> ts_bad ts;
     (bad, cur, s) \<leftarrow> bad_lit ts cur s;
     let s = snd (add_clause [bad] s);
     (sat, s) \<leftarrow> solve [] s;
     if sat then do {
       env \<leftarrow> model_env ts s (fenv cur);
       (c, e) \<leftarrow> lift ts env [(b, True)] e;
       Some (Some c, e) }
     else Some (None, e) }"

definition predecessor ::
  "traversal \<Rightarrow> trans_system \<Rightarrow> cube \<Rightarrow> nat \<Rightarrow> engine \<Rightarrow> (cube option \<times> engine) option" where
  "predecessor tr ts cube i e = do {
     need \<leftarrow> those (map (bit_of ts) (of_cube tr cube));
     (s, cur, nxt) \<leftarrow> query ts (Some need);
     s \<leftarrow> assert_frame tr ts (frames e) (fenv cur) i s;
     s \<leftarrow> add_cube_clause ts (fenv cur) (map uminus (of_cube tr cube)) s;
     s \<leftarrow> add_units ts nxt (of_cube tr cube) s;
     (sat, s) \<leftarrow> solve [] s;
     if sat then do {
       targets \<leftarrow> those (map (\<lambda>l. do { n \<leftarrow> bit_of ts l; g \<leftarrow> ts_next ts n; Some (g, l > 0) }) (of_cube tr cube));
       env \<leftarrow> model_env ts s (fenv cur);
       (c, e) \<leftarrow> lift ts env targets e;
       Some (Some c, e) }
     else Some (None, e) }"

definition init_intersects :: "traversal \<Rightarrow> trans_system \<Rightarrow> cube \<Rightarrow> bool option" where
  "init_intersects tr ts cube = do {
     (s, cur, _) \<leftarrow> query ts (Some []);
     s \<leftarrow> ic_assert_init ts (fenv cur) s;
     s \<leftarrow> add_units ts (fenv cur) (of_cube tr cube) s;
     map_option fst (solve [] s) }"

definition inductive_rel :: "traversal \<Rightarrow> trans_system \<Rightarrow> cube set list \<Rightarrow> cube \<Rightarrow> nat \<Rightarrow> bool option" where
  "inductive_rel tr ts fr clause i = do {
     need \<leftarrow> those (map (bit_of ts) (of_cube tr clause));
     (s, cur, nxt) \<leftarrow> query ts (Some need);
     s \<leftarrow> assert_frame tr ts fr (fenv cur) i s;
     s \<leftarrow> add_cube_clause ts (fenv cur) (of_cube tr clause) s;
     s \<leftarrow> add_units ts nxt (map uminus (of_cube tr clause)) s;
     map_option (\<lambda>r. \<not> fst r) (solve [] s) }"

definition init_intersects_bad :: "trans_system \<Rightarrow> bool option" where
  "init_intersects_bad ts = do {
     (s, cur, _) \<leftarrow> query ts (Some []);
     s \<leftarrow> ic_assert_init ts (fenv cur) s;
     (bad, cur, s) \<leftarrow> bad_lit ts cur s;
     map_option fst (solve [] (snd (add_clause [bad] s))) }"

subsection \<open>Generalization and blocking\<close>

text \<open>One literal of \<open>_generalize\<close>: the tests of the \<open>and\<close> run from left to right.\<close>

fun generalize_lits :: "traversal \<Rightarrow> trans_system \<Rightarrow> cube set list \<Rightarrow> nat \<Rightarrow> int list \<Rightarrow> cube \<Rightarrow> cube option" where
  "generalize_lits tr ts fr i [] cube = Some cube"
| "generalize_lits tr ts fr i (l # ls) cube =
     (let cand = cube - {l} in
      if cand = {} then generalize_lits tr ts fr i ls cube
      else do {
        hits \<leftarrow> init_intersects tr ts cand;
        drop_it \<leftarrow> (if hits then Some False else inductive_rel tr ts fr (uminus ` cand) (i - 1));
        generalize_lits tr ts fr i ls (if drop_it then cand else cube) })"

definition generalize :: "traversal \<Rightarrow> trans_system \<Rightarrow> cube set list \<Rightarrow> cube \<Rightarrow> nat \<Rightarrow> cube option" where
  "generalize tr ts fr cube i = generalize_lits tr ts fr i (of_cube tr cube) cube"

text \<open>Adding a clause to a frame removes the clauses it subsumes.\<close>

definition insert_clause :: "cube \<Rightarrow> cube set \<Rightarrow> cube set" where
  "insert_clause clause F = insert clause (F - {cl \<in> F. clause \<subset> cl})"

definition add_blocked :: "cube \<Rightarrow> nat \<Rightarrow> engine \<Rightarrow> engine option" where
  "add_blocked clause top_i e =
     (if top_i < length (frames e)
      then Some (e\<lparr>frames := map (\<lambda>j. if 1 \<le> j \<and> j \<le> top_i then insert_clause clause (frames e ! j) else frames e ! j)
                    [0..<length (frames e)]\<rparr>)
      else None)"

text \<open>Tuples compare by level, then by proper inclusion of the cubes.\<close>

type_synonym obligation = "nat \<times> cube"

definition olt :: "obligation \<Rightarrow> obligation \<Rightarrow> bool" where
  "olt a b \<longleftrightarrow> fst a < fst b \<or> fst a = fst b \<and> snd a \<subset> snd b"

definition block_body ::
  "traversal \<Rightarrow> trans_system \<Rightarrow> obligation list \<times> engine \<Rightarrow> ((bool \<times> engine) + (obligation list \<times> engine)) option" where
  "block_body tr ts = (\<lambda>(Q, e).
     if Q = [] then Some (Inl (True, e))
     else do {
       ((i, s), Q) \<leftarrow> heappop olt Q;
       if i = 0 then do {
         hits \<leftarrow> init_intersects tr ts s;
         Some (if hits then Inl (False, e\<lparr>found := Some s\<rparr>) else Inr (Q, e)) }
       else do {
         (pred, e) \<leftarrow> predecessor tr ts s (i - 1) e;
         (case pred of
            None \<Rightarrow> do {
              g \<leftarrow> generalize tr ts (frames e) s i;
              e \<leftarrow> add_blocked (uminus ` g) i e;
              Some (Inr (if i < length (frames e) - 1 then heappush olt Q (i + 1, s) else Q, e)) }
          | Some p \<Rightarrow> Some (Inr (heappush olt (heappush olt Q (i - 1, p)) (i, s), e))) }})"

definition block :: "traversal \<Rightarrow> trans_system \<Rightarrow> cube \<Rightarrow> nat \<Rightarrow> engine \<Rightarrow> (bool \<times> engine) option" where
  "block tr ts bad k e = loop (block_body tr ts) ([(k, bad)], e)"

subsection \<open>Propagation and the main loop\<close>

fun push_level :: "traversal \<Rightarrow> trans_system \<Rightarrow> nat \<Rightarrow> cube list \<Rightarrow> engine \<Rightarrow> engine option" where
  "push_level tr ts i [] e = Some e"
| "push_level tr ts i (cl # cls) e =
     (if cl \<in> frames e ! (i + 1) then push_level tr ts i cls e
      else do {
        ind \<leftarrow> inductive_rel tr ts (frames e) cl i;
        push_level tr ts i cls
          (if ind then e\<lparr>frames := (frames e)[i + 1 := insert_clause cl (frames e ! (i + 1))]\<rparr> else e) })"

fun push_levels :: "traversal \<Rightarrow> trans_system \<Rightarrow> nat list \<Rightarrow> engine \<Rightarrow> (nat option \<times> engine) option" where
  "push_levels tr ts [] e = Some (None, e)"
| "push_levels tr ts (i # is) e = do {
     e \<leftarrow> push_level tr ts i (of_frame tr (frames e ! i)) e;
     if frames e ! i \<noteq> {} \<and> frames e ! i \<subseteq> frames e ! (i + 1) then Some (Some (i + 1), e)
     else push_levels tr ts is e }"

definition ic_propagate :: "traversal \<Rightarrow> trans_system \<Rightarrow> engine \<Rightarrow> (nat option \<times> engine) option" where
  "ic_propagate tr ts e = push_levels tr ts [1..<length (frames e) - 1] e"

datatype ic3_result = UNSAFE_INIT | UNSAFE nat | SAFE nat "cube set" | UNKNOWN nat

text \<open>The inner \<open>while True\<close>: False when a bad cube could not be blocked.\<close>

definition clean_body :: "traversal \<Rightarrow> trans_system \<Rightarrow> nat \<Rightarrow> engine \<Rightarrow> ((bool \<times> engine) + engine) option" where
  "clean_body tr ts k e = do {
     (bad, e) \<leftarrow> bad_cube tr ts k e;
     (case bad of
        None \<Rightarrow> Some (Inl (True, e))
      | Some b \<Rightarrow> do {
          (ok, e) \<leftarrow> block tr ts b k e;
          Some (if ok then Inr e else Inl (False, e)) }) }"

definition ic3_body :: "traversal \<Rightarrow> trans_system \<Rightarrow> nat \<Rightarrow> engine \<Rightarrow> ((ic3_result \<times> engine) + engine) option" where
  "ic3_body tr ts max_frames e =
     (if \<not> length (frames e) - 1 < max_frames then Some (Inl (UNKNOWN max_frames, e))
      else do {
        let k = length (frames e) - 1;
        (ok, e) \<leftarrow> loop (clean_body tr ts k) e;
        if \<not> ok then Some (Inl (UNSAFE k, e))
        else if \<forall>f \<in> set (tl (frames e)). f = {} then Some (Inl (SAFE k {}, e))
        else do {
          (conv, e) \<leftarrow> ic_propagate tr ts (e\<lparr>frames := frames e @ [{}]\<rparr>);
          (case conv of
             Some c \<Rightarrow> Some (Inl (SAFE k (\<Union> (set (drop c (frames e)))), e))
           | None \<Rightarrow> Some (Inr e)) }})"

definition ic3_solve :: "traversal \<Rightarrow> trans_system \<Rightarrow> nat \<Rightarrow> engine \<Rightarrow> (ic3_result \<times> engine) option" where
  "ic3_solve tr ts max_frames e = do {
     hits \<leftarrow> init_intersects_bad ts;
     if hits then Some (UNSAFE_INIT, e) else loop (ic3_body tr ts max_frames) e }"

definition clause_str :: "traversal \<Rightarrow> trans_system \<Rightarrow> cube \<Rightarrow> string option" where
  "clause_str tr ts clause = do {
     parts \<leftarrow> those (map (\<lambda>l. map_option (\<lambda>n. if l > 0 then n else ''!'' @ n) (bit_of ts l))
        (sort_key (\<lambda>l. \<bar>l\<bar>) (of_cube tr clause)));
     Some (''('' @ concat (map (\<lambda>(i, p). if i = 0 then p else '' | '' @ p) (zip [0..<length parts] parts)) @ '')'') }"

end
