(* ===== verification/Bmc.thy ===== *)
theory Bmc
  imports Frames "HOL-Library.Sublist"
begin

text \<open>
  Bounded model checking (\<open>bmc.py\<close>) and k-induction (\<open>kinduction.py\<close>). The unrolling of the source is
  a chain of frames, so its queries are questions about runs of the transition system; the decoding
  of a counterexample (\<open>trace\<close>) is parameterised by the function that reads a bit, which is the solver's
  assignment in the code and a run of the system in the theorems.
\<close>

subsection \<open>Unrolling\<close>

text \<open>\<open>bmc.tie\<close>: the frame of \<open>env_from\<close> comes back with its cache grown.\<close>

definition bmc_tie ::
  "trans_system \<Rightarrow> frame \<Rightarrow> frame \<Rightarrow> 'a solver_scheme \<Rightarrow> (frame \<times> 'a solver_scheme) option" where
  "bmc_tie ts env_from env_to s = do {
     (nxt, env_from, s) \<leftarrow> next_env ts env_from s;
     s \<leftarrow> tie_names (ts_state ts) (fenv nxt) (fenv env_to) s;
     Some (env_from, s) }"

primrec unroll_steps ::
  "trans_system \<Rightarrow> nat \<Rightarrow> frame list \<Rightarrow> 'a solver_scheme \<Rightarrow> (frame list \<times> 'a solver_scheme) option" where
  "unroll_steps ts 0 envs s = Some (envs, s)"
| "unroll_steps ts (Suc i) envs s = do {
     (envs, s) \<leftarrow> unroll_steps ts i envs s;
     let (f, s) = fresh_frame ts s;
     let envs = envs @ [f];
     (e, s) \<leftarrow> bmc_tie ts (envs ! i) (envs ! (i + 1)) s;
     Some (envs[i := e], s) }"

definition unroll ::
  "trans_system \<Rightarrow> nat \<Rightarrow> bool \<Rightarrow> 'a solver_scheme \<Rightarrow> (frame list \<times> 'a solver_scheme) option" where
  "unroll ts k from_init s = do {
     let (f, s) = fresh_frame ts s;
     s \<leftarrow> (if from_init then assert_init ts f s else Some s);
     unroll_steps ts k [f] s }"

subsection \<open>Decoding a counterexample\<close>

type_synonym row = "string \<rightharpoonup> nat"

text \<open>\<open>st.split("[")[0]\<close> and the count of the bits of that base.\<close>

definition base_name :: "string \<Rightarrow> string" where
  "base_name st = takeWhile (\<lambda>c. c \<noteq> CHR ''['') st"

definition is_indexed :: "string \<Rightarrow> bool" where
  "is_indexed st \<longleftrightarrow> CHR ''['' \<in> set st"

definition base_width :: "string list \<Rightarrow> string \<Rightarrow> nat" where
  "base_width names base = length (filter (prefix (base @ ''['')) names)"

fun trace_row ::
  "(string \<Rightarrow> bool option) \<Rightarrow> string list \<Rightarrow> string list \<Rightarrow> string set \<Rightarrow> row \<Rightarrow> row option" where
  "trace_row get names [] seen_bv row = Some row"
| "trace_row get names (st # sts) seen_bv row =
     (let base = base_name st in
      if is_indexed st \<and> base \<notin> seen_bv then do {
        v \<leftarrow> read_bits get base (base_width names base);
        trace_row get names sts (insert base seen_bv) (row(base \<mapsto> v)) }
      else if \<not> is_indexed st then do {
        b \<leftarrow> get st;
        trace_row get names sts seen_bv (row(st \<mapsto> of_bool b)) }
      else trace_row get names sts seen_bv row)"

definition decode_row :: "trans_system \<Rightarrow> (string \<Rightarrow> bool option) \<Rightarrow> row option" where
  "decode_row ts get = trace_row get (ts_state ts) (ts_state ts) {} Map.empty"

definition trace :: "'a solver_scheme \<Rightarrow> trans_system \<Rightarrow> frame list \<Rightarrow> row list option" where
  "trace s ts envs = those (map (\<lambda>f. decode_row ts (get_name s (fenv f))) envs)"

subsection \<open>The engines\<close>

datatype bmc_result = CEX nat "row list" | SAFE_UP_TO nat

text \<open>One depth of \<open>bmc\<close>: the query, and the trace when it is satisfiable.\<close>

definition bmc_query :: "trans_system \<Rightarrow> nat \<Rightarrow> (row list option) option" where
  "bmc_query ts k = do {
     (envs, s) \<leftarrow> unroll ts k True Solver;
     (l, f, s) \<leftarrow> bad_lit ts (envs ! k) s;
     let envs = envs[k := f];
     let s = snd (add_clause [l] s);
     (sat, s) \<leftarrow> solve [] s;
     if sat then map_option Some (trace s ts envs) else Some None }"

fun bmc_depths :: "trans_system \<Rightarrow> nat list \<Rightarrow> nat \<Rightarrow> bmc_result option" where
  "bmc_depths ts [] kmax = Some (SAFE_UP_TO kmax)"
| "bmc_depths ts (k # ks) kmax = do {
     r \<leftarrow> bmc_query ts k;
     (case r of Some tr \<Rightarrow> Some (CEX k tr) | None \<Rightarrow> bmc_depths ts ks kmax) }"

definition bmc :: "trans_system \<Rightarrow> nat \<Rightarrow> bmc_result option" where
  "bmc ts kmax = bmc_depths ts [0..<kmax + 1] kmax"

text \<open>The pair \<open>(s, env0)\<close> lets the caller read the witness state.\<close>

definition one_step_inductive :: "trans_system \<Rightarrow> (bool \<times> solver \<times> frame) option" where
  "one_step_inductive ts = do {
     let (env0, s) = fresh_frame ts Solver;
     (l, env0, s) \<leftarrow> bad_lit ts env0 s;
     let s = snd (add_clause [- l] s);
     (nxt, env0, s) \<leftarrow> next_env ts env0 s;
     (l', nxt, s) \<leftarrow> bad_lit ts nxt s;
     let s = snd (add_clause [l'] s);
     (sat, s) \<leftarrow> solve [] s;
     Some (sat, s, env0) }"

datatype kind_result = KCEX nat "row list" | PROVED nat | STALLED nat "row list option"

primrec fresh_frames ::
  "trans_system \<Rightarrow> nat \<Rightarrow> frame list \<Rightarrow> 'a solver_scheme \<Rightarrow> frame list \<times> 'a solver_scheme" where
  "fresh_frames ts 0 envs s = (envs, s)"
| "fresh_frames ts (Suc n) envs s = (let (f, s) = fresh_frame ts s in fresh_frames ts n (envs @ [f]) s)"

text \<open>The loops over \<open>range(k)\<close> that tie the frames and that assume the property in them.\<close>

primrec tie_all ::
  "trans_system \<Rightarrow> nat \<Rightarrow> frame list \<Rightarrow> 'a solver_scheme \<Rightarrow> (frame list \<times> 'a solver_scheme) option" where
  "tie_all ts 0 envs s = Some (envs, s)"
| "tie_all ts (Suc i) envs s = do {
     (envs, s) \<leftarrow> tie_all ts i envs s;
     (e, s) \<leftarrow> bmc_tie ts (envs ! i) (envs ! (i + 1)) s;
     Some (envs[i := e], s) }"

primrec assume_good ::
  "trans_system \<Rightarrow> nat \<Rightarrow> frame list \<Rightarrow> 'a solver_scheme \<Rightarrow> (frame list \<times> 'a solver_scheme) option" where
  "assume_good ts 0 envs s = Some (envs, s)"
| "assume_good ts (Suc i) envs s = do {
     (envs, s) \<leftarrow> assume_good ts i envs s;
     (l, f, s) \<leftarrow> bad_lit ts (envs ! i) s;
     Some (envs[i := f], snd (add_clause [- l] s)) }"

definition kind_step :: "trans_system \<Rightarrow> nat \<Rightarrow> (bool \<times> solver \<times> frame list) option" where
  "kind_step ts k = do {
     let (envs, s) = fresh_frames ts (k + 1) [] Solver;
     (envs, s) \<leftarrow> tie_all ts k envs s;
     (envs, s) \<leftarrow> assume_good ts k envs s;
     (l, f, s) \<leftarrow> bad_lit ts (envs ! k) s;
     let envs = envs[k := f];
     let s = snd (add_clause [l] s);
     (sat, s) \<leftarrow> solve [] s;
     Some (sat, s, envs) }"

fun kind_depths :: "trans_system \<Rightarrow> nat list \<Rightarrow> nat \<Rightarrow> row list option \<Rightarrow> kind_result option" where
  "kind_depths ts [] kmax last_cti = Some (STALLED kmax last_cti)"
| "kind_depths ts (k # ks) kmax last_cti = do {
     base \<leftarrow> bmc ts (k - 1);
     (case base of
        CEX _ tr \<Rightarrow> Some (KCEX k tr)
      | SAFE_UP_TO _ \<Rightarrow> do {
          (step_sat, s, envs) \<leftarrow> kind_step ts k;
          if \<not> step_sat then Some (PROVED k)
          else do { cti \<leftarrow> trace s ts envs; kind_depths ts ks kmax (Some cti) } }) }"

definition k_induction :: "trans_system \<Rightarrow> nat \<Rightarrow> kind_result option" where
  "k_induction ts kmax = kind_depths ts [1..<kmax + 1] kmax None"

subsection \<open>Unrolling builds the runs of the system\<close>

lemma tie_names_ok:
  assumes "sinv s" "env_ok (n_vars s) nxt (set xs)" "env_ok (n_vars s) env (set xs)"
  shows "\<exists>s'. tie_names xs nxt env s = Some s' \<and> sinv s' \<and> n_vars s' = n_vars s \<and>
     mods s' = mods s \<inter> {m. \<forall>x \<in> set xs. eval_env nxt m x = eval_env env m x}"
  using assms
proof (induction xs arbitrary: s)
  case Nil
  then show ?case by simp
next
  case (Cons x xs)
  obtain a b where a: "nxt x = Some a" "lit_ok (n_vars s) a" and b: "env x = Some b" "lit_ok (n_vars s) b"
    using Cons.prems(2,3) by (auto simp: env_ok_def)
  let ?s1 = "snd (add_clause [- a, b] s)" and ?s2 = "snd (add_clause [a, - b] (snd (add_clause [- a, b] s)))"
  have i: "inv s" using Cons.prems(1) by (simp add: sinv_def)
  have nz: "a \<noteq> 0" "b \<noteq> 0" using a(2) b(2) by (simp_all add: lit_ok_def)
  note ac1 = add_clause_cases [OF i, of "[- a, b]"]
  note ac2 = add_clause_cases [of ?s1 "[a, - b]"]
  have 1: "inv ?s1" "n_vars ?s1 = n_vars s" "true_lit ?s1 = true_lit s" "mods ?s1 = mods s \<inter> {m. sat_clause m [- a, b]}"
    using ac1 a(2) b(2) by simp_all
  have 2: "inv ?s2" "n_vars ?s2 = n_vars s" "true_lit ?s2 = true_lit s" "mods ?s2 = mods ?s1 \<inter> {m. sat_clause m [a, - b]}"
    using ac2 1 a(2) b(2) by simp_all
  have m: "mods ?s2 = mods s \<inter> {m. eval_env nxt m x = eval_env env m x}"
    unfolding 2(4) 1(4) using a(1) b(1) nz by (auto simp: sat_clause_def eval_env_def)
  have s2: "sinv ?s2" using Cons.prems(1) 2(1-3) m by (auto simp: sinv_def)
  have e: "env_ok (n_vars ?s2) nxt (set xs)" "env_ok (n_vars ?s2) env (set xs)"
    using Cons.prems(2,3) 2(2) by (simp_all add: env_ok_def)
  from Cons.IH [OF s2 e] a(1) b(1) m 2(2) show ?case by auto
qed

lemma chain_tie:
  assumes wf: "wf_ts P ts" and ch: "chain P ts s fs C" and i: "i < length fs" and j: "j < length fs"
  shows "\<exists>f s'. bmc_tie ts (fs ! i) (fs ! j) s = Some (f, s') \<and> fenv f = fenv (fs ! i) \<and>
    chain P ts s' (fs[i := f]) (\<lambda>\<rho>. C \<rho> \<and> step ts (\<rho> i) (\<rho> j))"
proof -
  have s: "sinv s" and fi: "frame_ok P ts s (fs ! i)" and fj: "frame_ok P ts s (fs ! j)"
    using ch i j by (simp_all add: chain_def)
  obtain f1 f s1 where n: "next_env ts (fs ! i) s = Some (f1, f, s1)" "extends s s1" "fenv f = fenv (fs ! i)"
    "frame_ok P ts s1 f" "frame_ok P ts s1 f1" "\<forall>m \<in> mods s1. step ts (fval (fs ! i) m) (fval f1 m)"
    "\<forall>m \<in> mods s. \<forall>\<rho>. step ts (fval (fs ! i) m) \<rho> \<longrightarrow> (\<exists>m' \<in> mods s1. (\<forall>v \<le> n_vars s. m' v = m v) \<and>
        (\<forall>x \<in> ts_names ts. fval f1 m' x = \<rho> x))"
    using next_env_ok [OF wf s fi] by blast
  have st: "set (ts_state ts) \<subseteq> ts_names ts" by (simp add: ts_names_def)
  have e1: "env_ok (n_vars s1) (fenv f1) (set (ts_state ts))"
    using n(5) env_ok_mono [OF _ order_refl st] by (simp add: frame_ok_def)
  have e2: "env_ok (n_vars s1) (fenv (fs ! j)) (set (ts_state ts))"
    using fj env_ok_mono [OF _ extendsD(2) [OF n(2)] st] by (simp add: frame_ok_def)
  obtain s2 where t: "tie_names (ts_state ts) (fenv f1) (fenv (fs ! j)) s1 = Some s2" "sinv s2" "n_vars s2 = n_vars s1"
    "mods s2 = mods s1 \<inter> {m. \<forall>x \<in> set (ts_state ts). eval_env (fenv f1) m x = eval_env (fenv (fs ! j)) m x}"
    using tie_names_ok [OF extendsD(1) [OF n(2)] e1 e2] by blast
  have fr: "frame_ok P ts s2 g" if "frame_ok P ts s1 g" for g
    using that t(3,4) by (auto simp: frame_ok_def memo_ok_def)
  have fr2: "frame_ok P ts s2 ((fs[i := f]) ! k)" "fenv ((fs[i := f]) ! k) = fenv (fs ! k)" if "k < length fs" for k
    using that fr [OF n(4)] fr [OF frame_ok_extends [OF _ n(2)]] ch n(3)
    by (cases "k = i"; auto simp: chain_def)+
  have loc: "local_on (length fs) (ts_names ts) (\<lambda>\<rho>. step ts (\<rho> i) (\<rho> j))"
    unfolding local_on_def using i j step_cong [OF wf] by blast
  have "chain P ts s2 (fs[i := f]) (\<lambda>\<rho>. C \<rho> \<and> step ts (\<rho> i) (\<rho> j))"
  proof (rule chain_grow [OF ch t(2) _ _ _ _ loc])
    show "step ts (fvals fs m i) (fvals fs m j)" if "m \<in> mods s2" for m
      using that n(6) t(4) by (auto simp: step_def fvals_def fval_def)
  next
    fix m assume m: "m \<in> mods s" "step ts (fvals fs m i) (fvals fs m j)"
    then obtain m' where m': "m' \<in> mods s1" "\<forall>v \<le> n_vars s. m' v = m v" "\<forall>x \<in> ts_names ts. fval f1 m' x = fval (fs ! j) m x"
      using n(7) by (fastforce simp: fvals_def)
    have "fval (fs ! j) m' x = fval (fs ! j) m x" if "x \<in> ts_names ts" for x
      using eval_env_agree [OF _ that m'(2)] fj by (simp add: frame_ok_def fval_def)
    then have "m' \<in> mods s2" using m'(1,3) st t(4) by (auto simp: fval_def)
    then show "\<exists>m' \<in> mods s2. \<forall>v \<le> n_vars s. m' v = m v" using m'(2) by blast
  qed (use t n(2) fr2 in \<open>auto simp: extends_def\<close>)
  then show ?thesis using n(1,3) t(1) by (simp add: bmc_tie_def)
qed

text \<open>Frames whose variables are read with \<open>get_value\<close> hold positive literals only.\<close>

definition pos :: "frame list \<Rightarrow> bool" where
  "pos fs \<longleftrightarrow> (\<forall>f \<in> set fs. \<forall>x l. fenv f x = Some l \<longrightarrow> l > 0)"

lemma pos_upd: "pos fs \<Longrightarrow> i < length fs \<Longrightarrow> fenv f = fenv (fs ! i) \<Longrightarrow> pos (fs[i := f])"
  unfolding pos_def using set_update_subset_insert [of fs i f] nth_mem [of i fs] by (metis insertE subsetD)

lemma chain_fresh':
  assumes "wf_ts P ts" "chain P ts s fs C" "pos fs"
  obtains f s' where "fresh_frame ts s = (f, s')" "chain P ts s' (fs @ [f]) C" "pos (fs @ [f])"
proof -
  obtain f s' where f: "fresh_frame ts s = (f, s')" by fastforce
  from chain_fresh [OF assms(1,2) f] assms(3) that [OF f] show ?thesis by (auto simp: pos_def)
qed

lemma chain_cong: "chain P ts s fs C \<Longrightarrow> (\<And>\<rho>. C \<rho> = D \<rho>) \<Longrightarrow> chain P ts s fs D"
  by (subgoal_tac "C = D") auto

definition steps :: "trans_system \<Rightarrow> nat \<Rightarrow> seq \<Rightarrow> bool" where
  "steps ts k \<rho> \<longleftrightarrow> (\<forall>i < k. step ts (\<rho> i) (\<rho> (Suc i)))"

lemma steps_run: "steps ts k = run ts k"
  by (simp add: steps_def run_def fun_eq_iff)

lemma unroll_steps_ok:
  assumes "wf_ts P ts" "chain P ts s [f] C" "pos [f]"
  shows "\<exists>envs s'. unroll_steps ts k [f] s = Some (envs, s') \<and> length envs = Suc k \<and> pos envs \<and>
    chain P ts s' envs (\<lambda>\<rho>. C \<rho> \<and> run ts k \<rho>)"
proof (induction k)
  case 0
  show ?case using assms by (simp add: run_def)
next
  case (Suc k)
  then obtain envs s1 where IH: "unroll_steps ts k [f] s = Some (envs, s1)" "length envs = Suc k" "pos envs"
    "chain P ts s1 envs (\<lambda>\<rho>. C \<rho> \<and> run ts k \<rho>)" by blast
  obtain g s2 where g: "fresh_frame ts s1 = (g, s2)" "chain P ts s2 (envs @ [g]) (\<lambda>\<rho>. C \<rho> \<and> run ts k \<rho>)" "pos (envs @ [g])"
    using chain_fresh' [OF assms(1) IH(4,3)] by blast
  have len: "k < length (envs @ [g])" "Suc k < length (envs @ [g])" using IH(2) by simp_all
  obtain h s3 where h: "bmc_tie ts ((envs @ [g]) ! k) ((envs @ [g]) ! Suc k) s2 = Some (h, s3)"
    "fenv h = fenv ((envs @ [g]) ! k)"
    "chain P ts s3 ((envs @ [g])[k := h]) (\<lambda>\<rho>. (C \<rho> \<and> run ts k \<rho>) \<and> step ts (\<rho> k) (\<rho> (Suc k)))"
    using chain_tie [OF assms(1) g(2) len] by blast
  have "chain P ts s3 ((envs @ [g])[k := h]) (\<lambda>\<rho>. C \<rho> \<and> run ts (Suc k) \<rho>)"
    by (rule chain_cong [OF h(3)]) (auto simp: run_def less_Suc_eq)
  then show ?case using IH(1,2) g(1) h(1) pos_upd [OF g(3) len(1) h(2)] by simp
qed

lemma unroll_ok:
  assumes "wf_ts P ts"
  shows "\<exists>envs s. unroll ts k True Solver = Some (envs, s) \<and> length envs = Suc k \<and> pos envs \<and>
    chain P ts s envs (\<lambda>\<rho>. is_init ts (\<rho> 0) \<and> run ts k \<rho>)"
proof -
  obtain f s1 where f: "fresh_frame ts Solver = (f, s1)" "chain P ts s1 [f] (\<lambda>_. True)" "pos [f]"
    using chain_fresh' [OF assms chain_start] by (auto simp: pos_def)
  obtain s2 where s2: "assert_init ts f s1 = Some s2" "chain P ts s2 [f] (\<lambda>\<rho>. True \<and> is_init ts (\<rho> 0))"
    using chain_init [OF assms f(2), of 0] by auto
  have "chain P ts s2 [f] (\<lambda>\<rho>. is_init ts (\<rho> 0))" using s2(2) by simp
  from unroll_steps_ok [OF assms this f(3), of k] show ?thesis using f(1) s2(1) by (auto simp: unroll_def)
qed

subsection \<open>Queries and traces\<close>

lemma chain_solve:
  assumes "chain P ts s fs C"
  shows "\<exists>b s'. solve [] s = Some (b, s') \<and> (b \<longleftrightarrow> (\<exists>\<rho>. C \<rho>)) \<and>
    (b \<longrightarrow> C (fvals fs (\<lambda>v. get_value v s')))"
proof -
  have "inv s" using assms by (simp add: chain_def sinv_def)
  then obtain b s' where r: "solve [] s = Some (b, s')" "solved [] s (b, s')"
    using solve_ok [of s "[]"] by auto
  have "b \<longleftrightarrow> mods s \<noteq> {}" using r(2) by (cases b) (auto simp: solved_def)
  moreover have "C (fvals fs (\<lambda>v. get_value v s'))" if b
    using r(2) that by (intro chain_sound [OF assms]) (simp add: solved_def)
  ultimately show ?thesis using r(1) chain_models [OF assms] by auto
qed

text \<open>Trace decoding reads the bits of the state only.\<close>

definition traceable :: "string list \<Rightarrow> bool" where
  "traceable names \<longleftrightarrow> (\<forall>st \<in> set names. is_indexed st \<longrightarrow>
     (\<forall>i < base_width names (base_name st). bit_name (base_name st) i \<in> set names))"

definition word_at :: "string list \<Rightarrow> (string \<Rightarrow> bool) \<Rightarrow> string \<Rightarrow> nat" where
  "word_at names \<rho> base = (\<Sum>i \<leftarrow> [0..<base_width names base]. if \<rho> (bit_name base i) then 2 ^ i else 0)"

lemma read_bits_total:
  assumes "\<forall>i < w. get (bit_name x i) = Some (\<rho> (bit_name x i))"
  shows "read_bits get x w = Some (\<Sum>i \<leftarrow> [0..<w]. if \<rho> (bit_name x i) then 2 ^ i else 0)"
proof -
  have "those (map (\<lambda>i. get (bit_name x i)) [0..<w]) = Some (map (\<lambda>i. \<rho> (bit_name x i)) [0..<w])"
    by (rule those_map_cong) (use assms in simp)
  moreover have m: "map (\<lambda>i. if map (\<lambda>i. \<rho> (bit_name x i)) [0..<w] ! i then 2 ^ i else 0) [0..<w]
      = map (\<lambda>i. if \<rho> (bit_name x i) then 2 ^ i else (0::nat)) [0..<w]"
    by (rule map_cong) auto
  ultimately show ?thesis unfolding read_bits_def by (simp del: sum_list.Nil add: m [symmetric])
qed

definition row_val :: "string list \<Rightarrow> (string \<Rightarrow> bool) \<Rightarrow> string list \<Rightarrow> string set \<Rightarrow> row \<Rightarrow> row" where
  "row_val names \<rho> sts sn row k =
     (if k \<in> set (filter (\<lambda>st. \<not> is_indexed st) sts) then Some (of_bool (\<rho> k))
      else if k \<in> base_name ` set (filter is_indexed sts) - sn then Some (word_at names \<rho> k)
      else row k)"

definition no_clash :: "string list \<Rightarrow> bool" where
  "no_clash names \<longleftrightarrow> (\<forall>st \<in> set names. is_indexed st \<longrightarrow> base_name st \<notin> set names)"

lemma trace_row_val:
  assumes get: "\<forall>x \<in> set names. get x = Some (\<rho> x)" and tr: "traceable names" and nc: "no_clash names"
  shows "set sts \<subseteq> set names \<Longrightarrow> trace_row get names sts sn row = Some (row_val names \<rho> sts sn row)"
proof (induction sts arbitrary: sn row)
  case Nil
  show ?case by (simp add: row_val_def fun_eq_iff)
next
  case (Cons st sts)
  let ?b = "base_name st"
  have st: "st \<in> set names" using Cons.prems by simp
  show ?case
  proof (cases "is_indexed st")
    case True
    have rd: "read_bits get ?b (base_width names ?b) = Some (word_at names \<rho> ?b)"
      unfolding word_at_def
      by (rule read_bits_total) (use True get tr st in \<open>auto simp: traceable_def\<close>)
    have nb: "?b \<notin> set sts" using True nc st Cons.prems by (auto simp: no_clash_def)
    have neq: "st \<noteq> ?b" using True nc st by (auto simp: no_clash_def)
    show ?thesis
    proof (cases "?b \<in> sn")
      case T: True
      then show ?thesis using True Cons by (auto simp: Let_def row_val_def fun_eq_iff)
    next
      case False
      have "row_val names \<rho> sts (insert ?b sn) (row(?b \<mapsto> word_at names \<rho> ?b)) = row_val names \<rho> (st # sts) sn row"
        using True False nb neq by (auto simp: row_val_def fun_eq_iff)
      then show ?thesis using True False rd Cons by (simp add: Let_def)
    qed
  next
    case False
    have "row_val names \<rho> sts sn (row(st \<mapsto> of_bool (\<rho> st))) = row_val names \<rho> (st # sts) sn row"
    proof
      fix k
      have "st \<notin> base_name ` set (filter is_indexed sts)" using nc Cons.prems st by (auto simp: no_clash_def)
      then show "row_val names \<rho> sts sn (row(st \<mapsto> of_bool (\<rho> st))) k = row_val names \<rho> (st # sts) sn row k"
        using False by (auto simp: row_val_def)
    qed
    then show ?thesis using False get st Cons by (simp add: Let_def)
  qed
qed

text \<open>The row of a valuation: one-bit registers by name, words by the name of their bits.\<close>

definition row_of :: "trans_system \<Rightarrow> (string \<Rightarrow> bool) \<Rightarrow> row" where
  "row_of ts \<rho> = row_val (ts_state ts) \<rho> (ts_state ts) {} Map.empty"

definition readable :: "trans_system \<Rightarrow> bool" where
  "readable ts \<longleftrightarrow> traceable (ts_state ts) \<and> no_clash (ts_state ts)"

lemma get_name_eval:
  assumes "env_ok n (fenv f) X" "\<forall>x l. fenv f x = Some l \<longrightarrow> l > 0" "x \<in> X"
  shows "get_name s (fenv f) x = Some (fval f (\<lambda>v. get_value v s) x)"
proof -
  obtain l where "fenv f x = Some l" "0 < l" using assms unfolding env_ok_def by blast
  then show ?thesis by (simp add: get_name_def fval_def eval_env_def sat_lit_def lvar_def)
qed

lemma trace_ok:
  assumes "readable ts" "pos envs" "\<forall>f \<in> set envs. frame_ok P ts t f"
  shows "trace s ts envs = Some (map (\<lambda>i. row_of ts (fvals envs (\<lambda>v. get_value v s) i)) [0..<length envs])"
proof -
  have "decode_row ts (get_name s (fenv f)) = Some (row_of ts (fval f (\<lambda>v. get_value v s)))" if "f \<in> set envs" for f
    unfolding decode_row_def row_of_def
  proof (rule trace_row_val)
    have "get_name s (fenv f) x = Some (fval f (\<lambda>v. get_value v s) x)" if x: "x \<in> set (ts_state ts)" for x
    proof (rule get_name_eval)
      show "env_ok (n_vars t) (fenv f) (ts_names ts)" using assms(3) \<open>f \<in> set envs\<close> by (simp add: frame_ok_def)
    qed (use assms(2) \<open>f \<in> set envs\<close> x in \<open>auto simp: pos_def ts_names_def\<close>)
    then show "\<forall>x \<in> set (ts_state ts). get_name s (fenv f) x = Some (fval f (\<lambda>v. get_value v s) x)" by blast
  qed (use assms(1) in \<open>auto simp: readable_def\<close>)
  then have "trace s ts envs = Some (map (\<lambda>f. row_of ts (fval f (\<lambda>v. get_value v s))) envs)"
    unfolding trace_def by (rule those_map_cong)
  also have "map (\<lambda>f. row_of ts (fval f (\<lambda>v. get_value v s))) envs =
      map (\<lambda>i. row_of ts (fvals envs (\<lambda>v. get_value v s) i)) [0..<length envs]"
    by (rule nth_equalityI) (simp_all add: fvals_def)
  finally show ?thesis .
qed

text \<open>Asking whether frame \<open>k\<close> can be bad, at the end of any chain.\<close>

lemma chain_ask_bad:
  assumes wf: "wf_ts P ts" and ch: "chain P ts s envs C" and k: "k < length envs" and rd: "readable ts" and ps: "pos envs"
  shows "\<exists>l f s1 sat s2. bad_lit ts (envs ! k) s = Some (l, f, s1) \<and>
    solve [] (snd (add_clause [l] s1)) = Some (sat, s2) \<and>
    (sat \<longleftrightarrow> (\<exists>\<rho>. C \<rho> \<and> is_bad ts (\<rho> k))) \<and>
    (sat \<longrightarrow> (\<exists>\<rho>. C \<rho> \<and> is_bad ts (\<rho> k) \<and>
       trace s2 ts (envs[k := f]) = Some (map (\<lambda>i. row_of ts (\<rho> i)) [0..<length envs])))"
proof -
  obtain l f s1 where b: "bad_lit ts (envs ! k) s = Some (l, f, s1)" "chain P ts s1 (envs[k := f]) C"
    "lit_ok (n_vars s1) l" "fenv f = fenv (envs ! k)" "\<forall>m \<in> mods s1. sat_lit m l = is_bad ts (fvals envs m k)"
    using chain_bad [OF wf ch k] by blast
  have eq: "fvals (envs[k := f]) m k = fvals envs m k" for m
    using k b(4) by (simp add: fvals_def fval_def)
  have k': "k < length (envs[k := f])" using k by simp
  have b5: "\<forall>m \<in> mods s1. sat_lit m l = is_bad ts (fvals (envs[k := f]) m k)" using b(5) eq by simp
  note ch2 = chain_assert_bad(1) [OF wf b(2) k' b(3) b5]
  obtain sat s2 where s: "solve [] (snd (add_clause [l] s1)) = Some (sat, s2)"
    "sat \<longleftrightarrow> (\<exists>\<rho>. C \<rho> \<and> is_bad ts (\<rho> k))"
    "sat \<longrightarrow> C (fvals (envs[k := f]) (\<lambda>v. get_value v s2)) \<and> is_bad ts (fvals (envs[k := f]) (\<lambda>v. get_value v s2) k)"
    using chain_solve [OF ch2] by blast
  have "trace s2 ts (envs[k := f]) =
      Some (map (\<lambda>i. row_of ts (fvals (envs[k := f]) (\<lambda>v. get_value v s2) i)) [0..<length (envs[k := f])])"
    by (rule trace_ok [OF rd pos_upd [OF ps k b(4)], where P = P and t = "snd (add_clause [l] s1)"])
      (use ch2 in \<open>simp add: chain_def\<close>)
  then show ?thesis using b(1) s by auto
qed

lemma bmc_query_ok:
  assumes wf: "wf_ts P ts" and rd: "readable ts"
  shows "\<exists>r. bmc_query ts k = Some r \<and> (case r of
      None \<Rightarrow> \<forall>\<rho>. \<not> cex ts k \<rho>
    | Some tr \<Rightarrow> \<exists>\<rho>. cex ts k \<rho> \<and> tr = map (\<lambda>i. row_of ts (\<rho> i)) [0..<Suc k])"
proof -
  obtain envs s where u: "unroll ts k True Solver = Some (envs, s)" "length envs = Suc k" "pos envs"
    "chain P ts s envs (\<lambda>\<rho>. is_init ts (\<rho> 0) \<and> run ts k \<rho>)"
    using unroll_ok [OF wf] by blast
  have k: "k < length envs" using u(2) by simp
  obtain l f s1 sat s2 where q: "bad_lit ts (envs ! k) s = Some (l, f, s1)"
    "solve [] (snd (add_clause [l] s1)) = Some (sat, s2)"
    "sat \<longleftrightarrow> (\<exists>\<rho>. (is_init ts (\<rho> 0) \<and> run ts k \<rho>) \<and> is_bad ts (\<rho> k))"
    "sat \<longrightarrow> (\<exists>\<rho>. (is_init ts (\<rho> 0) \<and> run ts k \<rho>) \<and> is_bad ts (\<rho> k) \<and>
       trace s2 ts (envs[k := f]) = Some (map (\<lambda>i. row_of ts (\<rho> i)) [0..<length envs]))"
    using chain_ask_bad [OF wf u(4) k rd u(3)] by blast
  show ?thesis
  proof (cases sat)
    case True
    then obtain \<rho> where "cex ts k \<rho>"
      "trace s2 ts (envs[k := f]) = Some (map (\<lambda>i. row_of ts (\<rho> i)) [0..<Suc k])"
      using q(4) u(2) by (auto simp: cex_def)
    then show ?thesis using u(1) q(1,2) True by (auto simp: bmc_query_def simp del: upt_Suc)
  next
    case False
    then show ?thesis using u(1) q by (auto simp: bmc_query_def cex_def)
  qed
qed

definition bmc_ok :: "trans_system \<Rightarrow> nat \<Rightarrow> bmc_result \<Rightarrow> bool" where
  "bmc_ok ts kmax r \<longleftrightarrow> (case r of
     CEX k tr \<Rightarrow> k \<le> kmax \<and> (\<forall>j < k. \<forall>\<rho>. \<not> cex ts j \<rho>) \<and>
       (\<exists>\<rho>. cex ts k \<rho> \<and> tr = map (\<lambda>i. row_of ts (\<rho> i)) [0..<Suc k])
   | SAFE_UP_TO d \<Rightarrow> d = kmax \<and> (\<forall>j \<le> kmax. \<forall>\<rho>. \<not> cex ts j \<rho>))"

lemma bmc_depths_ok:
  assumes "wf_ts P ts" "readable ts"
  shows "k \<le> Suc kmax \<Longrightarrow> \<forall>j < k. \<forall>\<rho>. \<not> cex ts j \<rho> \<Longrightarrow>
    \<exists>r. bmc_depths ts [k..<Suc kmax] kmax = Some r \<and> bmc_ok ts kmax r"
proof (induction "Suc kmax - k" arbitrary: k)
  case 0
  then show ?case by (auto simp: bmc_ok_def)
next
  case (Suc d)
  then have k: "k < Suc kmax" by simp
  obtain r where r: "bmc_query ts k = Some r" "case r of None \<Rightarrow> \<forall>\<rho>. \<not> cex ts k \<rho>
    | Some tr \<Rightarrow> \<exists>\<rho>. cex ts k \<rho> \<and> tr = map (\<lambda>i. row_of ts (\<rho> i)) [0..<Suc k]"
    using bmc_query_ok [OF assms] by blast
  have u: "[k..<Suc kmax] = k # [Suc k..<Suc kmax]" using k by (rule upt_conv_Cons)
  show ?case
  proof (cases r)
    case None
    then have "\<forall>j < Suc k. \<forall>\<rho>. \<not> cex ts j \<rho>" using r(2) Suc.prems(2) by (auto simp: less_Suc_eq)
    with Suc.hyps(1) [of "Suc k"] Suc.hyps(2) k r(1) None u show ?thesis by (auto simp del: upt_Suc)
  next
    case (Some tr)
    then have "bmc_ok ts kmax (CEX k tr)" using r(2) Suc.prems(2) k by (auto simp: bmc_ok_def simp del: upt_Suc)
    then show ?thesis using r(1) Some u by (simp del: upt_Suc)
  qed
qed

lemma bmc_correct: "wf_ts P ts \<Longrightarrow> readable ts \<Longrightarrow> \<exists>r. bmc ts kmax = Some r \<and> bmc_ok ts kmax r"
  using bmc_depths_ok [of P ts 0 kmax] by (simp add: bmc_def del: upt_Suc)

subsection \<open>Induction\<close>

lemma one_step_inductive_ok:
  assumes wf: "wf_ts P ts"
  shows "\<exists>sat s env0. one_step_inductive ts = Some (sat, s, env0) \<and>
    (sat \<longleftrightarrow> (\<exists>\<rho> \<rho>'. \<not> is_bad ts \<rho> \<and> step ts \<rho> \<rho>' \<and> is_bad ts \<rho>'))"
proof -
  obtain f s1 where f: "fresh_frame ts Solver = (f, s1)" "chain P ts s1 [f] (\<lambda>_. True)" "pos [f]"
    using chain_fresh' [OF wf chain_start] by (auto simp: pos_def)
  obtain l f1 s2 where b: "bad_lit ts f s1 = Some (l, f1, s2)" "chain P ts s2 [f1] (\<lambda>_. True)"
    "lit_ok (n_vars s2) l" "fenv f1 = fenv f" "\<forall>m \<in> mods s2. sat_lit m l = is_bad ts (fvals [f] m 0)"
    using chain_bad [OF wf f(2), of 0] by auto
  have b5: "\<forall>m \<in> mods s2. sat_lit m l = is_bad ts (fvals [f1] m 0)"
    using b(4,5) by (simp add: fvals_def fval_def)
  let ?s3 = "snd (add_clause [- l] s2)"
  have c3: "chain P ts ?s3 [f1] (\<lambda>\<rho>. True \<and> \<not> is_bad ts (\<rho> 0))"
    using chain_assert_bad(2) [OF wf b(2) _ b(3) b5] by simp
  then have s3: "sinv ?s3" "frame_ok P ts ?s3 f1" by (simp_all add: chain_def)
  obtain n f2 s4 where n: "next_env ts f1 ?s3 = Some (n, f2, s4)" "extends ?s3 s4" "fenv f2 = fenv f1"
    "frame_ok P ts s4 f2" "frame_ok P ts s4 n" "\<forall>m \<in> mods s4. step ts (fval f1 m) (fval n m)"
    "\<forall>m \<in> mods ?s3. \<forall>\<rho>. step ts (fval f1 m) \<rho> \<longrightarrow> (\<exists>m' \<in> mods s4. (\<forall>v \<le> n_vars ?s3. m' v = m v) \<and>
        (\<forall>x \<in> ts_names ts. fval n m' x = \<rho> x))"
    using next_env_ok [OF wf s3] by blast
  have loc: "local_on (Suc 1) (ts_names ts) (\<lambda>\<rho>. step ts (\<rho> 0) (\<rho> 1))"
    unfolding local_on_def using step_cong [OF wf] by (metis lessI zero_less_Suc)
  have "chain P ts s4 ([f1] @ [n]) (\<lambda>\<rho>. (True \<and> \<not> is_bad ts (\<rho> 0)) \<and> step ts (\<rho> 0) (\<rho> 1))"
  proof (rule chain_add_frame [OF c3 _ _ _ n(5) _ _ loc])
    show "step ts (fvals ([f1] @ [n]) m 0) (fvals ([f1] @ [n]) m 1)" if "m \<in> mods s4" for m
      using n(6) that by (simp add: fvals_def)
  next
    fix m \<rho> assume m: "m \<in> mods ?s3" "\<forall>i<1. \<forall>x\<in>ts_names ts. fvals [f1] m i x = \<rho> i x" "step ts (\<rho> 0) (\<rho> 1)"
    have "step ts (fval f1 m) (\<rho> 1) = step ts (\<rho> 0) (\<rho> 1)"
      by (rule step_cong [OF wf]) (use m(2) in \<open>auto simp: fvals_def\<close>)
    then show "\<exists>m'\<in>mods s4. (\<forall>v\<le>n_vars ?s3. m' v = m v) \<and> (\<forall>x\<in>ts_names ts. fval n m' x = \<rho> 1 x)"
      using n(7) m(1,3) by blast
  qed (use n frame_ok_extends [OF s3(2) n(2)] in \<open>auto simp: extends_def\<close>)
  then have c4: "chain P ts s4 [f1, n] (\<lambda>\<rho>. \<not> is_bad ts (\<rho> 0) \<and> step ts (\<rho> 0) (\<rho> 1))" by simp
  obtain l' n' s5 where b': "bad_lit ts n s4 = Some (l', n', s5)"
    "chain P ts s5 ([f1, n][1 := n']) (\<lambda>\<rho>. \<not> is_bad ts (\<rho> 0) \<and> step ts (\<rho> 0) (\<rho> 1))"
    "lit_ok (n_vars s5) l'" "fenv n' = fenv n" "\<forall>m \<in> mods s5. sat_lit m l' = is_bad ts (fvals [f1, n] m 1)"
    using chain_bad [OF wf c4, of 1] by auto
  have b5': "\<forall>m \<in> mods s5. sat_lit m l' = is_bad ts (fvals ([f1, n][1 := n']) m 1)"
    using b'(4,5) by (simp add: fvals_def fval_def)
  have len: "1 < length ([f1, n][1 := n'])" by simp
  note c5 = chain_assert_bad(1) [OF wf b'(2) len b'(3) b5']
  obtain sat s6 where s6: "solve [] (snd (add_clause [l'] s5)) = Some (sat, s6)"
    "sat \<longleftrightarrow> (\<exists>\<rho> :: seq. (\<not> is_bad ts (\<rho> 0) \<and> step ts (\<rho> 0) (\<rho> 1)) \<and> is_bad ts (\<rho> 1))"
    using chain_solve [OF c5] by blast
  have "(\<exists>\<rho> :: seq. (\<not> is_bad ts (\<rho> 0) \<and> step ts (\<rho> 0) (\<rho> 1)) \<and> is_bad ts (\<rho> 1)) \<longleftrightarrow>
      (\<exists>\<rho> \<rho>'. \<not> is_bad ts \<rho> \<and> step ts \<rho> \<rho>' \<and> is_bad ts \<rho>')" (is "?L = ?R")
  proof
    assume ?R
    then obtain \<rho> \<rho>' where "\<not> is_bad ts \<rho>" "step ts \<rho> \<rho>'" "is_bad ts \<rho>'" by blast
    then show ?L by (intro exI [of _ "\<lambda>i. if i = 0 then \<rho> else \<rho>'"]) auto
  qed blast
  then show ?thesis using f(1) b(1) n(1) b'(1) s6 by (simp add: one_step_inductive_def)
qed

lemma fresh_frames_ok:
  assumes "wf_ts P ts"
  shows "chain P ts s fs C \<Longrightarrow> pos fs \<Longrightarrow> \<exists>envs s'. fresh_frames ts n fs s = (envs, s') \<and>
    length envs = length fs + n \<and> pos envs \<and> chain P ts s' envs C"
proof (induction n arbitrary: fs s)
  case (Suc n)
  from chain_fresh' [OF assms Suc.prems] obtain f s' where f: "fresh_frame ts s = (f, s')"
    "chain P ts s' (fs @ [f]) C" "pos (fs @ [f])" .
  from Suc.IH [OF f(2,3)] f(1) show ?case by auto
qed auto

lemma tie_all_ok:
  assumes "wf_ts P ts" "chain P ts s fs C" "pos fs"
  shows "k < length fs \<Longrightarrow> \<exists>envs s'. tie_all ts k fs s = Some (envs, s') \<and> length envs = length fs \<and> pos envs \<and>
    chain P ts s' envs (\<lambda>\<rho>. C \<rho> \<and> run ts k \<rho>)"
proof (induction k)
  case 0
  then show ?case using assms by (simp add: run_def)
next
  case (Suc k)
  then obtain envs s1 where IH: "tie_all ts k fs s = Some (envs, s1)" "length envs = length fs" "pos envs"
    "chain P ts s1 envs (\<lambda>\<rho>. C \<rho> \<and> run ts k \<rho>)" by auto
  have len: "k < length envs" "Suc k < length envs" using IH(2) Suc.prems by simp_all
  obtain h s2 where h: "bmc_tie ts (envs ! k) (envs ! Suc k) s1 = Some (h, s2)" "fenv h = fenv (envs ! k)"
    "chain P ts s2 (envs[k := h]) (\<lambda>\<rho>. (C \<rho> \<and> run ts k \<rho>) \<and> step ts (\<rho> k) (\<rho> (Suc k)))"
    using chain_tie [OF assms(1) IH(4) len] by blast
  have "chain P ts s2 (envs[k := h]) (\<lambda>\<rho>. C \<rho> \<and> run ts (Suc k) \<rho>)"
    by (rule chain_cong [OF h(3)]) (auto simp: run_def less_Suc_eq)
  then show ?case using IH(1,2) h(1) pos_upd [OF IH(3) len(1) h(2)] by simp
qed

lemma assume_good_ok:
  assumes "wf_ts P ts" "chain P ts s fs C" "pos fs"
  shows "k < length fs \<Longrightarrow> \<exists>envs s'. assume_good ts k fs s = Some (envs, s') \<and> length envs = length fs \<and> pos envs \<and>
    chain P ts s' envs (\<lambda>\<rho>. C \<rho> \<and> (\<forall>i < k. \<not> is_bad ts (\<rho> i)))"
proof (induction k)
  case 0
  then show ?case using assms by simp
next
  case (Suc k)
  then obtain envs s1 where IH: "assume_good ts k fs s = Some (envs, s1)" "length envs = length fs" "pos envs"
    "chain P ts s1 envs (\<lambda>\<rho>. C \<rho> \<and> (\<forall>i < k. \<not> is_bad ts (\<rho> i)))" by auto
  have k: "k < length envs" using IH(2) Suc.prems by simp
  obtain l f s2 where b: "bad_lit ts (envs ! k) s1 = Some (l, f, s2)"
    "chain P ts s2 (envs[k := f]) (\<lambda>\<rho>. C \<rho> \<and> (\<forall>i < k. \<not> is_bad ts (\<rho> i)))"
    "lit_ok (n_vars s2) l" "fenv f = fenv (envs ! k)" "\<forall>m \<in> mods s2. sat_lit m l = is_bad ts (fvals envs m k)"
    using chain_bad [OF assms(1) IH(4) k] by blast
  have b5: "\<forall>m \<in> mods s2. sat_lit m l = is_bad ts (fvals (envs[k := f]) m k)"
    using b(4,5) k by (simp add: fvals_def fval_def)
  have "k < length (envs[k := f])" using k by simp
  from chain_assert_bad(2) [OF assms(1) b(2) this b(3) b5]
  have "chain P ts (snd (add_clause [- l] s2)) (envs[k := f]) (\<lambda>\<rho>. C \<rho> \<and> (\<forall>i < Suc k. \<not> is_bad ts (\<rho> i)))"
    by (rule chain_cong) (auto simp: less_Suc_eq)
  then show ?case using IH(1,2) b(1) pos_upd [OF IH(3) k b(4)] by simp
qed

definition cti :: "trans_system \<Rightarrow> nat \<Rightarrow> seq \<Rightarrow> bool" where
  "cti ts k \<rho> \<longleftrightarrow> run ts k \<rho> \<and> (\<forall>i < k. \<not> is_bad ts (\<rho> i)) \<and> is_bad ts (\<rho> k)"

lemma kind_step_ok:
  assumes wf: "wf_ts P ts" and rd: "readable ts"
  shows "\<exists>sat s envs. kind_step ts k = Some (sat, s, envs) \<and> (sat \<longleftrightarrow> (\<exists>\<rho>. cti ts k \<rho>)) \<and>
    (sat \<longrightarrow> (\<exists>\<rho>. cti ts k \<rho> \<and> trace s ts envs = Some (map (\<lambda>i. row_of ts (\<rho> i)) [0..<Suc k])))"
proof -
  obtain e1 s1 where 1: "fresh_frames ts (k + 1) [] Solver = (e1, s1)" "length e1 = Suc k" "pos e1"
    "chain P ts s1 e1 (\<lambda>_. True)"
    using fresh_frames_ok [OF wf chain_start, of "k + 1"] by (auto simp: pos_def)
  obtain e2 s2 where 2: "tie_all ts k e1 s1 = Some (e2, s2)" "length e2 = Suc k" "pos e2"
    "chain P ts s2 e2 (\<lambda>\<rho>. True \<and> run ts k \<rho>)"
    using tie_all_ok [OF wf 1(4,3), of k] 1(2) by auto
  obtain e3 s3 where 3: "assume_good ts k e2 s2 = Some (e3, s3)" "length e3 = Suc k" "pos e3"
    "chain P ts s3 e3 (\<lambda>\<rho>. (True \<and> run ts k \<rho>) \<and> (\<forall>i < k. \<not> is_bad ts (\<rho> i)))"
    using assume_good_ok [OF wf 2(4,3), of k] 2(2) by auto
  have k: "k < length e3" using 3(2) by simp
  have c: "((True \<and> run ts k \<rho>) \<and> (\<forall>i < k. \<not> is_bad ts (\<rho> i))) \<and> is_bad ts (\<rho> k) \<longleftrightarrow> cti ts k \<rho>"
    "((True \<and> run ts k \<rho>) \<and> (\<forall>i < k. \<not> is_bad ts (\<rho> i))) \<and> is_bad ts (\<rho> k) \<and> R \<longleftrightarrow> cti ts k \<rho> \<and> R" for \<rho> R
    unfolding cti_def by blast+
  note 4 = chain_ask_bad [OF wf 3(4) k rd 3(3), unfolded c 3(2)]
  from 4 show ?thesis using 1(1) 2(1) 3(1) by (auto simp: kind_step_def simp del: upt_Suc)
qed

definition kind_ok :: "trans_system \<Rightarrow> nat \<Rightarrow> kind_result \<Rightarrow> bool" where
  "kind_ok ts kmax r \<longleftrightarrow> (case r of
     PROVED k \<Rightarrow> k \<in> {1..kmax} \<and> safe ts
   | KCEX k tr \<Rightarrow> k \<in> {1..kmax} \<and> (\<forall>j < k - 1. \<forall>\<rho>. \<not> cex ts j \<rho>) \<and>
       (\<exists>\<rho>. cex ts (k - 1) \<rho> \<and> tr = map (\<lambda>i. row_of ts (\<rho> i)) [0..<k])
   | STALLED m c \<Rightarrow> m = kmax \<and> (\<forall>j < kmax. \<forall>\<rho>. \<not> cex ts j \<rho>) \<and> (\<forall>k \<in> {1..kmax}. \<exists>\<rho>. cti ts k \<rho>) \<and>
       (if kmax = 0 then c = None
        else \<exists>\<rho>. cti ts kmax \<rho> \<and> c = Some (map (\<lambda>i. row_of ts (\<rho> i)) [0..<Suc kmax])))"

lemma k_inductive_safe:
  assumes "\<forall>j < k. \<forall>\<rho>. \<not> cex ts j \<rho>" "\<not> (\<exists>\<rho>. cti ts k \<rho>)"
  shows "safe ts"
  unfolding safe_def cex_def run_def
  using reach.k_induction_safe [of k ts] assms unfolding cex_def cti_def run_def by blast

lemma kind_depths_ok:
  assumes "wf_ts P ts" "readable ts"
  shows "1 \<le> k \<Longrightarrow> k \<le> Suc kmax \<Longrightarrow> \<forall>j < k - 1. \<forall>\<rho>. \<not> cex ts j \<rho> \<Longrightarrow> \<forall>j \<in> {1..<k}. \<exists>\<rho>. cti ts j \<rho> \<Longrightarrow>
    (if k = 1 then c = None else \<exists>\<rho>. cti ts (k - 1) \<rho> \<and> c = Some (map (\<lambda>i. row_of ts (\<rho> i)) [0..<k])) \<Longrightarrow>
    \<exists>r. kind_depths ts [k..<Suc kmax] kmax c = Some r \<and> kind_ok ts kmax r"
proof (induction "Suc kmax - k" arbitrary: k c)
  case 0
  then have "k = Suc kmax" by simp
  moreover have "{1..<Suc kmax} = {1..kmax}" by auto
  ultimately have "kind_ok ts kmax (STALLED kmax c)" using 0
    by (cases "kmax = 0") (simp_all add: kind_ok_def del: upt_Suc)
  then show ?case using \<open>k = Suc kmax\<close> by simp
next
  case (Suc d)
  then have k: "k < Suc kmax" by simp
  have u: "[k..<Suc kmax] = k # [Suc k..<Suc kmax]" using k by (rule upt_conv_Cons)
  obtain r where r: "bmc ts (k - 1) = Some r" "bmc_ok ts (k - 1) r" using bmc_correct [OF assms] by blast
  show ?case
  proof (cases r)
    case (CEX j tr)
    then have "j = k - 1" using r(2) Suc.prems(3) by (auto simp: bmc_ok_def) (meson linorder_neqE_nat not_le)
    then have "kind_ok ts kmax (KCEX k tr)" using r(2) CEX Suc.prems k
      by (auto simp: bmc_ok_def kind_ok_def simp del: upt_Suc)
    then show ?thesis using r(1) CEX u by (simp del: upt_Suc)
  next
    case (SAFE_UP_TO d')
    then have base: "\<forall>j < k. \<forall>\<rho>. \<not> cex ts j \<rho>" using r(2) Suc.prems(1) by (auto simp: bmc_ok_def)
    obtain sat s envs where q: "kind_step ts k = Some (sat, s, envs)" "sat \<longleftrightarrow> (\<exists>\<rho>. cti ts k \<rho>)"
      "sat \<longrightarrow> (\<exists>\<rho>. cti ts k \<rho> \<and> trace s ts envs = Some (map (\<lambda>i. row_of ts (\<rho> i)) [0..<Suc k]))"
      using kind_step_ok [OF assms, of k] by blast
    show ?thesis
    proof (cases sat)
      case False
      then have "kind_ok ts kmax (PROVED k)"
        using k_inductive_safe [OF base] q(2) Suc.prems(1) k by (simp add: kind_ok_def)
      then show ?thesis using r(1) SAFE_UP_TO u q(1) False by (simp del: upt_Suc)
    next
      case True
      then obtain \<rho> where \<rho>: "cti ts k \<rho>" "trace s ts envs = Some (map (\<lambda>i. row_of ts (\<rho> i)) [0..<Suc k])"
        using q(3) by blast
      let ?c = "Some (map (\<lambda>i. row_of ts (\<rho> i)) [0..<Suc k])"
      have "\<exists>r. kind_depths ts [Suc k..<Suc kmax] kmax ?c = Some r \<and> kind_ok ts kmax r"
      proof (rule Suc.hyps(1))
        show "\<forall>j \<in> {1..<Suc k}. \<exists>\<rho>. cti ts j \<rho>" using Suc.prems(4) \<rho>(1) by (auto simp: less_Suc_eq)
        show "if Suc k = 1 then ?c = None
          else \<exists>\<rho>. cti ts (Suc k - 1) \<rho> \<and> ?c = Some (map (\<lambda>i. row_of ts (\<rho> i)) [0..<Suc k])"
          using \<rho>(1) Suc.prems(1) by (auto simp del: upt_Suc)
      qed (use Suc.hyps(2) k base in auto)
      then show ?thesis using r(1) SAFE_UP_TO u q(1) True \<rho>(2) by (simp del: upt_Suc)
    qed
  qed
qed

lemma k_induction_correct:
  "wf_ts P ts \<Longrightarrow> readable ts \<Longrightarrow> \<exists>r. k_induction ts kmax = Some r \<and> kind_ok ts kmax r"
  using kind_depths_ok [of P ts 1 kmax None] by (simp add: k_induction_def del: upt_Suc)

end
