(* ===== verification/Ic3_Query.thy ===== *)
theory Ic3_Query
  imports Ic3 Bmc
begin

text \<open>
  What the queries of \<open>ic3.py\<close> decide. A query is a chain of one frame whose constraint speaks of the
  current state; the literals of the next-state functions it encodes are read through \<open>reads\<close>. Each
  method that asks the solver gets a lemma that says which set of states it found empty, and the cubes
  that ternary lifting returns are characterised by the states they contain.
\<close>

subsection \<open>Cubes, clauses and frames as sets of states\<close>

definition lit_at :: "trans_system \<Rightarrow> (string \<Rightarrow> bool) \<Rightarrow> int \<Rightarrow> bool" where
  "lit_at ts \<rho> l \<longleftrightarrow> \<rho> (ts_state ts ! nat (\<bar>l\<bar> - 1)) = (l > 0)"

definition next_at :: "trans_system \<Rightarrow> (string \<Rightarrow> bool) \<Rightarrow> int \<Rightarrow> bool" where
  "next_at ts \<rho> l \<longleftrightarrow> sval \<rho> (the (ts_next ts (ts_state ts ! nat (\<bar>l\<bar> - 1)))) = (l > 0)"

definition in_range :: "trans_system \<Rightarrow> int \<Rightarrow> bool" where
  "in_range ts l \<longleftrightarrow> 1 \<le> \<bar>l\<bar> \<and> \<bar>l\<bar> \<le> int (length (ts_state ts))"

definition cube_wf :: "trans_system \<Rightarrow> cube \<Rightarrow> bool" where
  "cube_wf ts c \<longleftrightarrow> finite c \<and> c \<noteq> {} \<and> (\<forall>l \<in> c. in_range ts l \<and> - l \<notin> c)"

definition in_cube :: "trans_system \<Rightarrow> cube \<Rightarrow> (string \<Rightarrow> bool) \<Rightarrow> bool" where
  "in_cube ts c \<rho> \<longleftrightarrow> (\<forall>l \<in> c. lit_at ts \<rho> l)"

definition sat_cl :: "trans_system \<Rightarrow> cube \<Rightarrow> (string \<Rightarrow> bool) \<Rightarrow> bool" where
  "sat_cl ts c \<rho> \<longleftrightarrow> (\<exists>l \<in> c. lit_at ts \<rho> l)"

definition frame_at :: "trans_system \<Rightarrow> cube set list \<Rightarrow> nat \<Rightarrow> (string \<Rightarrow> bool) \<Rightarrow> bool" where
  "frame_at ts fr i \<rho> \<longleftrightarrow>
     (if i = 0 then is_init ts \<rho> else \<forall>j. i \<le> j \<and> j < length fr \<longrightarrow> (\<forall>cl \<in> fr ! j. sat_cl ts cl \<rho>))"

definition frames_wf :: "trans_system \<Rightarrow> cube set list \<Rightarrow> bool" where
  "frames_wf ts fr \<longleftrightarrow> (\<forall>F \<in> set fr. finite F \<and> (\<forall>cl \<in> F. cube_wf ts cl))"

definition traversal_ok :: "traversal \<Rightarrow> bool" where
  "traversal_ok tr \<longleftrightarrow> (\<forall>c. finite c \<longrightarrow> set (of_cube tr c) = c \<and> distinct (of_cube tr c)) \<and>
     (\<forall>F. finite F \<and> (\<forall>c \<in> F. finite c) \<longrightarrow> set (of_frame tr F) = F \<and> distinct (of_frame tr F))"

lemma in_rangeD: "in_range ts l \<Longrightarrow> nat (\<bar>l\<bar> - 1) < length (ts_state ts)" "in_range ts l \<Longrightarrow> l \<noteq> 0"
  by (auto simp: in_range_def)

lemma in_range_minus [simp]: "in_range ts (- l) = in_range ts l"
  by (simp add: in_range_def)

lemma lit_at_minus: "l \<noteq> 0 \<Longrightarrow> lit_at ts \<rho> (- l) \<longleftrightarrow> \<not> lit_at ts \<rho> l"
  by (auto simp: lit_at_def)

lemma next_at_minus: "l \<noteq> 0 \<Longrightarrow> next_at ts \<rho> (- l) \<longleftrightarrow> \<not> next_at ts \<rho> l"
  by (auto simp: next_at_def)

lemma sat_cl_uminus: "\<forall>l \<in> c. in_range ts l \<Longrightarrow> sat_cl ts (uminus ` c) \<rho> \<longleftrightarrow> \<not> in_cube ts c \<rho>"
proof -
  assume c: "\<forall>l \<in> c. in_range ts l"
  have "lit_at ts \<rho> (- l) = (\<not> lit_at ts \<rho> l)" if "l \<in> c" for l
    using in_rangeD(2) lit_at_minus c that by blast
  then show ?thesis by (auto simp: sat_cl_def in_cube_def)
qed

lemma cube_wf_uminus [simp]: "cube_wf ts (uminus ` c) = cube_wf ts c"
  unfolding cube_wf_def by (auto simp: image_iff finite_image_iff)

lemma bit_of_range: "in_range ts l \<Longrightarrow> bit_of ts l = Some (ts_state ts ! nat (\<bar>l\<bar> - 1))"
  by (auto simp: bit_of_def py_get_def in_range_def Let_def)

lemma state_bit_inj:
  assumes "distinct (ts_state ts)" "in_range ts l" "in_range ts k"
    "ts_state ts ! nat (\<bar>l\<bar> - 1) = ts_state ts ! nat (\<bar>k\<bar> - 1)"
  shows "k = l \<or> k = - l"
proof -
  have "nat (\<bar>l\<bar> - 1) = nat (\<bar>k\<bar> - 1)" using assms in_rangeD(1) by (metis nth_eq_iff_index_eq)
  then show ?thesis using assms(2,3) by (auto simp: in_range_def)
qed

lemma lit_at_cong: "in_range ts l \<Longrightarrow> \<forall>n \<in> set (ts_state ts). \<rho> n = \<rho>' n \<Longrightarrow> lit_at ts \<rho> l = lit_at ts \<rho>' l"
  by (simp add: lit_at_def in_rangeD)

lemma in_cube_cong: "cube_wf ts c \<Longrightarrow> \<forall>n \<in> set (ts_state ts). \<rho> n = \<rho>' n \<Longrightarrow> in_cube ts c \<rho> = in_cube ts c \<rho>'"
  unfolding in_cube_def cube_wf_def using lit_at_cong by blast

lemma sat_cl_cong: "cube_wf ts c \<Longrightarrow> \<forall>n \<in> set (ts_state ts). \<rho> n = \<rho>' n \<Longrightarrow> sat_cl ts c \<rho> = sat_cl ts c \<rho>'"
  unfolding sat_cl_def cube_wf_def using lit_at_cong by blast

lemma frame_at_cong:
  assumes "frames_wf ts fr" "\<forall>n \<in> set (ts_state ts). \<rho> n = \<rho>' n"
  shows "frame_at ts fr i \<rho> = frame_at ts fr i \<rho>'"
proof -
  have "is_init ts \<rho> = is_init ts \<rho>'" using assms(2) by (simp add: is_init_def)
  moreover have "sat_cl ts cl \<rho> = sat_cl ts cl \<rho>'" if "j < length fr" "cl \<in> fr ! j" for j cl
    using assms that nth_mem [OF that(1)] sat_cl_cong unfolding frames_wf_def by blast
  ultimately show ?thesis unfolding frame_at_def by auto
qed

lemma next_at_step:
  assumes "in_range ts l" "wf_ts P ts" "step ts \<rho> \<rho>'"
  shows "lit_at ts \<rho>' l = next_at ts \<rho> l"
proof -
  let ?n = "ts_state ts ! nat (\<bar>l\<bar> - 1)"
  have n: "?n \<in> set (ts_state ts)" using in_rangeD(1) [OF assms(1)] by simp
  then obtain g where "ts_next ts ?n = Some g" using assms(2) unfolding wf_ts_def by blast
  then show ?thesis using assms(3) n by (simp add: step_def lit_at_def next_at_def)
qed

text \<open>Every valuation has a successor, whose inputs are free.\<close>

definition succ_of :: "trans_system \<Rightarrow> (string \<Rightarrow> bool) \<Rightarrow> string \<Rightarrow> bool" where
  "succ_of ts \<rho> n = (case ts_next ts n of Some g \<Rightarrow> sval \<rho> g | None \<Rightarrow> False)"

lemma step_succ_of: "step ts \<rho> (succ_of ts \<rho>)"
  by (simp add: step_def succ_of_def)

lemma step_state_cong: "\<forall>n \<in> set (ts_state ts). \<sigma> n = \<sigma>' n \<Longrightarrow> step ts \<rho> \<sigma> = step ts \<rho> \<sigma>'"
  by (auto simp: step_def)

subsection \<open>Clauses over a query\<close>

definition reads ::
  "trans_system \<Rightarrow> solver \<Rightarrow> frame \<Rightarrow> env \<Rightarrow> ((string \<Rightarrow> bool) \<Rightarrow> int \<Rightarrow> bool) \<Rightarrow> int set \<Rightarrow> bool" where
  "reads ts s cur env h L \<longleftrightarrow> (\<forall>l \<in> L. \<exists>k. bit_lit ts env l = Some k \<and> lit_ok (n_vars s) k \<and>
     (\<forall>m \<in> mods s. sat_lit m k = h (fval cur m) l))"

lemma reads_mono:
  "reads ts s cur env h L \<Longrightarrow> n_vars s \<le> n_vars s' \<Longrightarrow> mods s' \<subseteq> mods s \<Longrightarrow> L' \<subseteq> L \<Longrightarrow> reads ts s' cur env h L'"
  unfolding reads_def by (meson lit_ok_mono subsetD)

lemma those_choice: "\<forall>x \<in> set xs. \<exists>y. f x = Some y \<and> R x y \<Longrightarrow> \<exists>ys. those (map f xs) = Some ys \<and> list_all2 R xs ys"
  by (induction xs) auto

lemma add_cube_clause_ok:
  assumes ch: "chain P ts s [cur] (\<lambda>\<rho>. C (\<rho> 0))" and rd: "reads ts s cur env h (set ls)"
    and h: "\<And>\<rho> \<rho>' l. \<forall>x \<in> ts_names ts. \<rho> x = \<rho>' x \<Longrightarrow> l \<in> set ls \<Longrightarrow> h \<rho> l = h \<rho>' l"
  shows "\<exists>s'. add_cube_clause ts env ls s = Some s' \<and> chain P ts s' [cur] (\<lambda>\<rho>. C (\<rho> 0) \<and> (\<exists>l \<in> set ls. h (\<rho> 0) l)) \<and>
    n_vars s' = n_vars s \<and> mods s' \<subseteq> mods s"
proof -
  obtain ks where ks: "those (map (bit_lit ts env) ls) = Some ks"
    "list_all2 (\<lambda>l k. lit_ok (n_vars s) k \<and> (\<forall>m \<in> mods s. sat_lit m k = h (fval cur m) l)) ls ks"
    using those_choice [OF rd [unfolded reads_def]] by blast
  have ok: "\<forall>k \<in> set ks. lit_ok (n_vars s) k" using ks(2) by (auto simp: list_all2_conv_all_nth in_set_conv_nth)
  have len: "length ks = length ls" using ks(2) by (simp add: list_all2_lengthD)
  have sat: "sat_clause m ks = (\<exists>l \<in> set ls. h (fvals [cur] m 0) l)" if m: "m \<in> mods s" for m
  proof -
    have eq: "sat_lit m (ks ! i) = h (fval cur m) (ls ! i)" if "i < length ls" for i
      using ks(2) m that by (simp add: list_all2_conv_all_nth)
    have "sat_clause m ks \<longleftrightarrow> (\<exists>i < length ls. sat_lit m (ks ! i))"
      unfolding sat_clause_def by (metis len in_set_conv_nth nth_mem)
    also have "\<dots> \<longleftrightarrow> (\<exists>i < length ls. h (fval cur m) (ls ! i))" using eq by blast
    also have "\<dots> \<longleftrightarrow> (\<exists>l \<in> set ls. h (fval cur m) l)" by (metis in_set_conv_nth)
    finally show ?thesis by (simp add: fvals_def)
  qed
  have loc: "local_on (length [cur]) (ts_names ts) (\<lambda>\<rho>. \<exists>l \<in> set ls. h (\<rho> 0) l)"
    unfolding local_on_def
  proof (intro allI impI)
    fix \<rho> \<rho>' :: seq assume "\<forall>i < length [cur]. \<forall>x \<in> ts_names ts. \<rho> i x = \<rho>' i x"
    then have "\<forall>x \<in> ts_names ts. \<rho> 0 x = \<rho>' 0 x" by simp
    then show "(\<exists>l \<in> set ls. h (\<rho> 0) l) = (\<exists>l \<in> set ls. h (\<rho>' 0) l)" using h by blast
  qed
  have "inv s" using ch by (simp add: chain_def sinv_def)
  note ac = add_clause_cases [OF this ok]
  show ?thesis using chain_clause [OF ch ok loc sat] ks(1) ac by (simp add: add_cube_clause_def)
qed

lemma add_units_ok:
  assumes "reads ts s cur env h (set ls)"
    "\<And>\<rho> \<rho>' l. \<forall>x \<in> ts_names ts. \<rho> x = \<rho>' x \<Longrightarrow> l \<in> set ls \<Longrightarrow> h \<rho> l = h \<rho>' l"
    "chain P ts s [cur] (\<lambda>\<rho>. C (\<rho> 0))"
  shows "\<exists>s'. add_units ts env ls s = Some s' \<and> chain P ts s' [cur] (\<lambda>\<rho>. C (\<rho> 0) \<and> (\<forall>l \<in> set ls. h (\<rho> 0) l)) \<and>
    n_vars s' = n_vars s \<and> mods s' \<subseteq> mods s"
  using assms
proof (induction ls arbitrary: s C)
  case Nil
  then show ?case by simp
next
  case (Cons l ls)
  have "reads ts s cur env h (set [l])" by (rule reads_mono [OF Cons.prems(1)]) auto
  from add_cube_clause_ok [OF Cons.prems(3) this] Cons.prems(2)
  obtain s1 where 1: "add_cube_clause ts env [l] s = Some s1"
    "chain P ts s1 [cur] (\<lambda>\<rho>. C (\<rho> 0) \<and> (\<exists>l \<in> set [l]. h (\<rho> 0) l))" "n_vars s1 = n_vars s" "mods s1 \<subseteq> mods s"
    by auto
  have "chain P ts s1 [cur] (\<lambda>\<rho>. (\<lambda>\<rho>. C \<rho> \<and> h \<rho> l) (\<rho> 0))" by (rule chain_cong [OF 1(2)]) auto
  moreover have "reads ts s1 cur env h (set ls)" by (rule reads_mono [OF Cons.prems(1)]) (use 1 in auto)
  ultimately obtain s2 where 2: "add_units ts env ls s1 = Some s2"
    "chain P ts s2 [cur] (\<lambda>\<rho>. (\<lambda>\<rho>. C \<rho> \<and> h \<rho> l) (\<rho> 0) \<and> (\<forall>l \<in> set ls. h (\<rho> 0) l))"
    "n_vars s2 = n_vars s1" "mods s2 \<subseteq> mods s1"
    using Cons.IH [of s1 "\<lambda>\<rho>. C \<rho> \<and> h \<rho> l"] Cons.prems(2) by auto
  have "chain P ts s2 [cur] (\<lambda>\<rho>. C (\<rho> 0) \<and> (\<forall>l \<in> set (l # ls). h (\<rho> 0) l))"
    by (rule chain_cong [OF 2(2)]) auto
  then show ?case using 1 2 by auto
qed

lemma reads_cur:
  assumes "chain P ts s [cur] C" "\<forall>l \<in> L. in_range ts l"
  shows "reads ts s cur (fenv cur) (lit_at ts) L"
  unfolding reads_def
proof
  fix l assume l: "l \<in> L"
  let ?n = "ts_state ts ! nat (\<bar>l\<bar> - 1)"
  have r: "in_range ts l" using assms(2) l by blast
  have "?n \<in> ts_names ts" using in_rangeD(1) [OF r] by (simp add: ts_names_def)
  then obtain k where k: "fenv cur ?n = Some k" "lit_ok (n_vars s) k"
    using assms(1) by (auto simp: chain_def frame_ok_def env_ok_def)
  have "k \<noteq> 0" using k(2) by (simp add: lit_ok_def)
  then show "\<exists>k. bit_lit ts (fenv cur) l = Some k \<and> lit_ok (n_vars s) k \<and> (\<forall>m \<in> mods s. sat_lit m k = lit_at ts (fval cur m) l)"
    using k by (auto simp: bit_lit_def bit_of_range [OF r] lit_at_def fval_def eval_env_def)
qed

lemma lit_at_names: "\<forall>x \<in> ts_names ts. \<rho> x = \<rho>' x \<Longrightarrow> in_range ts l \<Longrightarrow> lit_at ts \<rho> l = lit_at ts \<rho>' l"
  by (rule lit_at_cong) (auto simp: ts_names_def)

lemma next_at_names:
  assumes "wf_ts P ts" "\<forall>x \<in> ts_names ts. \<rho> x = \<rho>' x" "in_range ts l"
  shows "next_at ts \<rho> l = next_at ts \<rho>' l"
proof -
  let ?n = "ts_state ts ! nat (\<bar>l\<bar> - 1)"
  have "?n \<in> set (ts_state ts)" using in_rangeD(1) [OF assms(3)] by simp
  then obtain g where "ts_next ts ?n = Some g" "svars g \<subseteq> ts_names ts" using assms(1) unfolding wf_ts_def by blast
  moreover from this have "sval \<rho> g = sval \<rho>' g" using assms(2) by (intro sval_cong) blast
  ultimately show ?thesis by (simp add: next_at_def)
qed

text \<open>A query: the current frame is free, and the needed next-state functions are readable.\<close>

lemma query_ok:
  assumes wf: "wf_ts P ts" and ls: "\<forall>l \<in> set ls. in_range ts l" "distinct ls" "\<forall>l \<in> set ls. - l \<notin> set ls"
  shows "\<exists>s cur nxt. query ts (Some (map (\<lambda>l. ts_state ts ! nat (\<bar>l\<bar> - 1)) ls)) = Some (s, cur, nxt) \<and>
    chain P ts s [cur] (\<lambda>\<rho>. (\<lambda>_. True) (\<rho> 0)) \<and> pos [cur] \<and> reads ts s cur nxt (next_at ts) (set ls)"
proof -
  obtain f s1 where f: "fresh_frame ts Solver = (f, s1)" "chain P ts s1 [f] (\<lambda>_. True)" "pos [f]"
    using chain_fresh' [OF wf chain_start] by (auto simp: pos_def)
  let ?bit = "\<lambda>l. ts_state ts ! nat (\<bar>l\<bar> - 1)"
  let ?fs = "map (\<lambda>n. (n, ts_next ts n)) (map ?bit ls)"
  have pool: "pool P" and d: "distinct (ts_state ts)" using wf by (simp_all add: wf_ts_def)
  have s: "sinv s1" and fo: "frame_ok P ts s1 f" using f(2) by (simp_all add: chain_def)
  have fo': "env_ok (n_vars s1) (fenv f) (ts_names ts)" "memo_ok P (fenv f) (fmemo f) s1"
    using fo by (simp_all add: frame_ok_def)
  have "inj_on ?bit (set ls)"
  proof (rule inj_onI)
    fix l k assume "l \<in> set ls" "k \<in> set ls" "?bit l = ?bit k"
    then show "l = k" using state_bit_inj [OF d, of l k] ls(1,3) by auto
  qed
  then have dist: "distinct (map fst ?fs)" using ls(2) by (simp add: distinct_map comp_def)
  have nx: "\<forall>(n, g) \<in> set ?fs. \<exists>h. g = Some h \<and> h \<in> P \<and> svars h \<subseteq> ts_names ts"
    using wf ls(1) in_rangeD(1) unfolding wf_ts_def by (auto simp: Ball_def)
  obtain out memo s2 where en: "encode_next add_clause ?fs (fenv f) Map.empty (fmemo f) s1 = Some (out, memo, s2)"
    "extends s1 s2" "memo_ok P (fenv f) memo s2"
    "\<forall>(n, g) \<in> set ?fs. \<exists>l. out n = Some l \<and> lit_ok (n_vars s2) l \<and>
        (\<forall>m \<in> mods s2. sat_lit m l = sval (eval_env (fenv f) m) (the g))"
    using encode_next_ok [OF s pool fo' dist nx] by blast
  let ?f = "f\<lparr>fmemo := memo\<rparr>"
  have "frame_ok P ts s2 ?f" using frame_ok_extends [OF fo en(2)] en(3) by (simp add: frame_ok_def)
  then have "chain P ts s2 [?f] (\<lambda>_. True)" by (intro chain_extends [OF f(2) en(2)]) auto
  moreover have "pos [?f]" using f(3) by (simp add: pos_def)
  moreover have "reads ts s2 ?f out (next_at ts) (set ls)"
    unfolding reads_def
  proof
    fix l assume l: "l \<in> set ls"
    have r: "in_range ts l" using ls(1) l by blast
    obtain k where k: "out (?bit l) = Some k" "lit_ok (n_vars s2) k"
      "\<forall>m \<in> mods s2. sat_lit m k = sval (eval_env (fenv f) m) (the (ts_next ts (?bit l)))"
      using en(4) l by fastforce
    have "k \<noteq> 0" using k(2) by (simp add: lit_ok_def)
    then show "\<exists>k. bit_lit ts out l = Some k \<and> lit_ok (n_vars s2) k \<and> (\<forall>m \<in> mods s2. sat_lit m k = next_at ts (fval ?f m) l)"
      using k by (auto simp: bit_lit_def bit_of_range [OF r] next_at_def fval_def)
  qed
  ultimately show ?thesis using f(1) en(1) by (simp add: query_def)
qed

subsection \<open>Asserting frames\<close>

lemma init_lits_ok:
  assumes "wf_ts P ts"
  shows "\<exists>ls. init_lits ts = Some ls \<and> (\<forall>l \<in> set ls. in_range ts l) \<and>
    (\<forall>\<rho>. (\<forall>l \<in> set ls. lit_at ts \<rho> l) = is_init ts \<rho>)"
proof -
  let ?S = "ts_state ts"
  define f where "f i = (if the (ts_init ts (?S ! i)) then int i + 1 else - (int i + 1))" for i
  have i: "ts_init ts (?S ! i) = Some (the (ts_init ts (?S ! i)))" if "i < length ?S" for i
    using assms nth_mem [OF that] by (auto simp: wf_ts_def)
  have those: "those (map (\<lambda>i. map_option (\<lambda>b. if b then int i + 1 else - (int i + 1)) (ts_init ts (?S ! i))) [0..<length ?S])
      = Some (map f [0..<length ?S])"
  proof (rule those_map_cong)
    fix j assume "j \<in> set [0..<length ?S]"
    then show "map_option (\<lambda>b. if b then int j + 1 else - (int j + 1)) (ts_init ts (?S ! j)) = Some (f j)"
      unfolding f_def by (subst i) auto
  qed
  have rng: "\<forall>l \<in> set (map f [0..<length ?S]). in_range ts l" by (auto simp: f_def in_range_def)
  have lit: "lit_at ts \<rho> (f j) \<longleftrightarrow> Some (\<rho> (?S ! j)) = ts_init ts (?S ! j)" if "j < length ?S" for \<rho> j
    by (subst i [OF that]) (auto simp: lit_at_def f_def)
  have "(\<forall>l \<in> set (map f [0..<length ?S]). lit_at ts \<rho> l) = is_init ts \<rho>" for \<rho>
  proof -
    have "(\<forall>l \<in> set (map f [0..<length ?S]). lit_at ts \<rho> l) \<longleftrightarrow> (\<forall>j < length ?S. lit_at ts \<rho> (f j))" by auto
    also have "\<dots> \<longleftrightarrow> (\<forall>j < length ?S. Some (\<rho> (?S ! j)) = ts_init ts (?S ! j))" using lit by blast
    also have "\<dots> \<longleftrightarrow> is_init ts \<rho>" unfolding is_init_def by (metis in_set_conv_nth)
    finally show ?thesis .
  qed
  then show ?thesis using those rng by (simp add: init_lits_def)
qed

lemma assert_init_ok:
  assumes wf: "wf_ts P ts" and ch: "chain P ts s [cur] (\<lambda>\<rho>. C (\<rho> 0))"
  shows "\<exists>s'. ic_assert_init ts (fenv cur) s = Some s' \<and> chain P ts s' [cur] (\<lambda>\<rho>. C (\<rho> 0) \<and> is_init ts (\<rho> 0)) \<and>
    n_vars s' = n_vars s \<and> mods s' \<subseteq> mods s"
proof -
  obtain ls where ls: "init_lits ts = Some ls" "\<forall>l \<in> set ls. in_range ts l"
    "\<forall>\<rho>. (\<forall>l \<in> set ls. lit_at ts \<rho> l) = is_init ts \<rho>"
    using init_lits_ok [OF wf] by blast
  have "\<exists>s'. add_units ts (fenv cur) ls s = Some s' \<and>
      chain P ts s' [cur] (\<lambda>\<rho>. C (\<rho> 0) \<and> (\<forall>l \<in> set ls. lit_at ts (\<rho> 0) l)) \<and> n_vars s' = n_vars s \<and> mods s' \<subseteq> mods s"
    using lit_at_names ls(2) by (intro add_units_ok [OF reads_cur [OF ch ls(2)] _ ch]) blast
  then show ?thesis using ls(1,3) by (simp add: ic_assert_init_def)
qed

lemma assert_clauses_ok:
  assumes "traversal_ok tr"
  shows "\<forall>cl \<in> set cls. cube_wf ts cl \<Longrightarrow> chain P ts s [cur] (\<lambda>\<rho>. C (\<rho> 0)) \<Longrightarrow>
    \<exists>s'. assert_clauses tr ts (fenv cur) cls s = Some s' \<and>
      chain P ts s' [cur] (\<lambda>\<rho>. C (\<rho> 0) \<and> (\<forall>cl \<in> set cls. sat_cl ts cl (\<rho> 0))) \<and>
      n_vars s' = n_vars s \<and> mods s' \<subseteq> mods s"
proof (induction cls arbitrary: s C)
  case Nil
  then show ?case by simp
next
  case (Cons cl cls)
  have cl: "set (of_cube tr cl) = cl" "\<forall>l \<in> cl. in_range ts l"
    using assms Cons.prems(1) by (auto simp: traversal_ok_def cube_wf_def)
  have rng: "\<forall>l \<in> set (of_cube tr cl). in_range ts l" using cl by simp
  have "\<exists>s'. add_cube_clause ts (fenv cur) (of_cube tr cl) s = Some s' \<and>
      chain P ts s' [cur] (\<lambda>\<rho>. C (\<rho> 0) \<and> (\<exists>l \<in> set (of_cube tr cl). lit_at ts (\<rho> 0) l)) \<and>
      n_vars s' = n_vars s \<and> mods s' \<subseteq> mods s"
    using lit_at_names rng by (intro add_cube_clause_ok [OF Cons.prems(2) reads_cur [OF Cons.prems(2) rng]]) blast
  then obtain s1 where 1: "add_cube_clause ts (fenv cur) (of_cube tr cl) s = Some s1"
    "chain P ts s1 [cur] (\<lambda>\<rho>. C (\<rho> 0) \<and> (\<exists>l \<in> set (of_cube tr cl). lit_at ts (\<rho> 0) l))"
    "n_vars s1 = n_vars s" "mods s1 \<subseteq> mods s" by blast
  have "chain P ts s1 [cur] (\<lambda>\<rho>. (\<lambda>\<rho>. C \<rho> \<and> sat_cl ts cl \<rho>) (\<rho> 0))"
    by (rule chain_cong [OF 1(2)]) (simp add: sat_cl_def cl)
  with Cons.IH [of s1 "\<lambda>\<rho>. C \<rho> \<and> sat_cl ts cl \<rho>"] Cons.prems(1)
  obtain s2 where 2: "assert_clauses tr ts (fenv cur) cls s1 = Some s2"
    "chain P ts s2 [cur] (\<lambda>\<rho>. (\<lambda>\<rho>. C \<rho> \<and> sat_cl ts cl \<rho>) (\<rho> 0) \<and> (\<forall>cl \<in> set cls. sat_cl ts cl (\<rho> 0)))"
    "n_vars s2 = n_vars s1" "mods s2 \<subseteq> mods s1" by auto
  have "chain P ts s2 [cur] (\<lambda>\<rho>. C (\<rho> 0) \<and> (\<forall>cl \<in> set (cl # cls). sat_cl ts cl (\<rho> 0)))"
    by (rule chain_cong [OF 2(2)]) auto
  then show ?case using 1 2 by auto
qed

lemma assert_frame_ok:
  assumes wf: "wf_ts P ts" and tr: "traversal_ok tr" and fr: "frames_wf ts fr"
    and ch: "chain P ts s [cur] (\<lambda>\<rho>. C (\<rho> 0))"
  shows "\<exists>s'. assert_frame tr ts fr (fenv cur) i s = Some s' \<and>
    chain P ts s' [cur] (\<lambda>\<rho>. C (\<rho> 0) \<and> frame_at ts fr i (\<rho> 0)) \<and> n_vars s' = n_vars s \<and> mods s' \<subseteq> mods s"
proof (cases "i = 0")
  case True
  then show ?thesis using assert_init_ok [OF wf ch] by (simp add: assert_frame_def frame_at_def)
next
  case False
  let ?cls = "concat (map (of_frame tr) (drop i fr))"
  have mem: "cl \<in> set ?cls \<longleftrightarrow> (\<exists>j. i \<le> j \<and> j < length fr \<and> cl \<in> fr ! j)" for cl
  proof -
    have F: "set (of_frame tr F) = F" if "F \<in> set (drop i fr)" for F
    proof -
      have "finite F \<and> (\<forall>c \<in> F. finite c)"
        using fr in_set_dropD [OF that] by (simp add: frames_wf_def cube_wf_def)
      then show ?thesis using tr by (simp add: traversal_ok_def)
    qed
    have "cl \<in> set ?cls \<longleftrightarrow> (\<exists>F \<in> set (drop i fr). cl \<in> set (of_frame tr F))" by auto
    also have "\<dots> \<longleftrightarrow> (\<exists>F \<in> set (drop i fr). cl \<in> F)"
      using F by (simp cong: bex_cong)
    also have "\<dots> \<longleftrightarrow> (\<exists>j < length fr - i. cl \<in> fr ! (i + j))"
    proof
      assume "\<exists>F \<in> set (drop i fr). cl \<in> F"
      then obtain j where "j < length (drop i fr)" "cl \<in> drop i fr ! j" by (metis in_set_conv_nth)
      then show "\<exists>j < length fr - i. cl \<in> fr ! (i + j)" by auto
    next
      assume "\<exists>j < length fr - i. cl \<in> fr ! (i + j)"
      then obtain j where "j < length (drop i fr)" "cl \<in> drop i fr ! j" by auto
      then show "\<exists>F \<in> set (drop i fr). cl \<in> F" using nth_mem by blast
    qed
    also have "\<dots> \<longleftrightarrow> (\<exists>j. i \<le> j \<and> j < length fr \<and> cl \<in> fr ! j)"
    proof
      assume "\<exists>j. i \<le> j \<and> j < length fr \<and> cl \<in> fr ! j"
      then obtain j where "i \<le> j" "j < length fr" "cl \<in> fr ! j" by blast
      then show "\<exists>j < length fr - i. cl \<in> fr ! (i + j)" by (intro exI [of _ "j - i"]) auto
    next
      assume "\<exists>j < length fr - i. cl \<in> fr ! (i + j)"
      then obtain j where "j < length fr - i" "cl \<in> fr ! (i + j)" by blast
      then show "\<exists>j. i \<le> j \<and> j < length fr \<and> cl \<in> fr ! j" by (intro exI [of _ "i + j"]) auto
    qed
    finally show ?thesis .
  qed
  have wfc: "\<forall>cl \<in> set ?cls. cube_wf ts cl"
  proof
    fix cl assume "cl \<in> set ?cls"
    then obtain j where "j < length fr" "cl \<in> fr ! j" using mem by blast
    then show "cube_wf ts cl" using fr nth_mem [of j fr] unfolding frames_wf_def by blast
  qed
  have "(\<forall>cl \<in> set ?cls. sat_cl ts cl \<rho>) = frame_at ts fr i \<rho>" for \<rho>
    using False mem unfolding frame_at_def Ball_def by (simp only: if_False) blast
  then show ?thesis using assert_clauses_ok [OF tr wfc ch] False by (simp add: assert_frame_def)
qed

subsection \<open>The Boolean queries\<close>

lemma cube_wfD:
  assumes "traversal_ok tr" "cube_wf ts c"
  shows "set (of_cube tr c) = c" "distinct (of_cube tr c)" "\<forall>l \<in> set (of_cube tr c). in_range ts l"
    "\<forall>l \<in> set (of_cube tr c). - l \<notin> set (of_cube tr c)"
    "those (map (bit_of ts) (of_cube tr c)) = Some (map (\<lambda>l. ts_state ts ! nat (\<bar>l\<bar> - 1)) (of_cube tr c))"
proof -
  show 1: "set (of_cube tr c) = c" "distinct (of_cube tr c)"
    using assms by (auto simp: traversal_ok_def cube_wf_def)
  show 2: "\<forall>l \<in> set (of_cube tr c). in_range ts l" and "\<forall>l \<in> set (of_cube tr c). - l \<notin> set (of_cube tr c)"
    using assms(2) 1 by (auto simp: cube_wf_def)
  show "those (map (bit_of ts) (of_cube tr c)) = Some (map (\<lambda>l. ts_state ts ! nat (\<bar>l\<bar> - 1)) (of_cube tr c))"
    by (rule those_map_cong) (use 2 bit_of_range in blast)
qed

lemma solve_fst:
  assumes "chain P ts s fs C"
  shows "map_option fst (solve [] s) = Some (\<exists>\<rho>. C \<rho>)"
  using chain_solve [OF assms] by auto

lemma seq_ex: "(\<exists>\<rho> :: seq. Q (\<rho> 0)) \<longleftrightarrow> (\<exists>\<rho>. Q \<rho>)"
proof
  assume "\<exists>\<rho>. Q \<rho>"
  then obtain \<rho> where "Q \<rho>" by blast
  then show "\<exists>\<rho> :: seq. Q (\<rho> 0)" by (intro exI [of _ "\<lambda>_. \<rho>"])
qed blast

lemma query_none:
  assumes "wf_ts P ts"
  shows "\<exists>s cur nxt. query ts (Some []) = Some (s, cur, nxt) \<and> chain P ts s [cur] (\<lambda>\<rho>. (\<lambda>_. True) (\<rho> 0)) \<and> pos [cur]"
  using query_ok [OF assms, of "[]"] by auto

lemma init_intersects_ok:
  assumes wf: "wf_ts P ts" and tr: "traversal_ok tr" and c: "cube_wf ts c"
  shows "init_intersects tr ts c = Some (\<exists>\<rho>. is_init ts \<rho> \<and> in_cube ts c \<rho>)"
proof -
  obtain s cur nxt where q: "query ts (Some []) = Some (s, cur, nxt)" "chain P ts s [cur] (\<lambda>\<rho>. (\<lambda>_. True) (\<rho> 0))"
    using query_none [OF wf] by blast
  obtain s1 where 1: "ic_assert_init ts (fenv cur) s = Some s1"
    "chain P ts s1 [cur] (\<lambda>\<rho>. (\<lambda>_. True) (\<rho> 0) \<and> is_init ts (\<rho> 0))"
    using assert_init_ok [OF wf q(2)] by blast
  have ch1: "chain P ts s1 [cur] (\<lambda>\<rho>. (is_init ts) (\<rho> 0))" using 1(2) by simp
  note cd = cube_wfD [OF tr c]
  have "\<exists>s'. add_units ts (fenv cur) (of_cube tr c) s1 = Some s' \<and>
      chain P ts s' [cur] (\<lambda>\<rho>. is_init ts (\<rho> 0) \<and> (\<forall>l \<in> set (of_cube tr c). lit_at ts (\<rho> 0) l)) \<and>
      n_vars s' = n_vars s1 \<and> mods s' \<subseteq> mods s1"
    using lit_at_names cd(3) by (intro add_units_ok [OF reads_cur [OF ch1 cd(3)] _ ch1]) blast
  then obtain s2 where 2: "add_units ts (fenv cur) (of_cube tr c) s1 = Some s2"
    "chain P ts s2 [cur] (\<lambda>\<rho>. is_init ts (\<rho> 0) \<and> (\<forall>l \<in> set (of_cube tr c). lit_at ts (\<rho> 0) l))" by blast
  have "map_option fst (solve [] s2) = Some (\<exists>\<rho>. is_init ts \<rho> \<and> in_cube ts c \<rho>)"
    using solve_fst [OF 2(2)] seq_ex [of "\<lambda>\<rho>. is_init ts \<rho> \<and> in_cube ts c \<rho>"] by (simp add: in_cube_def cd(1))
  then show ?thesis using q(1) 1(1) 2(1) by (simp add: init_intersects_def)
qed

text \<open>The step query shared by \<open>_inductive_rel\<close> and \<open>_predecessor\<close>.\<close>

lemma step_query_ok:
  assumes wf: "wf_ts P ts" and tr: "traversal_ok tr" and fr: "frames_wf ts fr"
    and ls: "\<forall>l \<in> set ls. in_range ts l" "distinct ls" "\<forall>l \<in> set ls. - l \<notin> set ls"
    and cl: "\<forall>l \<in> set cl. in_range ts l" and us: "\<forall>l \<in> set us. l \<in> set ls \<or> - l \<in> set ls"
  shows "\<exists>s cur nxt s1 s2 s3.
    query ts (Some (map (\<lambda>l. ts_state ts ! nat (\<bar>l\<bar> - 1)) ls)) = Some (s, cur, nxt) \<and>
    assert_frame tr ts fr (fenv cur) i s = Some s1 \<and>
    add_cube_clause ts (fenv cur) cl s1 = Some s2 \<and> add_units ts nxt us s2 = Some s3 \<and> pos [cur] \<and>
    chain P ts s3 [cur] (\<lambda>\<rho>. frame_at ts fr i (\<rho> 0) \<and> (\<exists>l \<in> set cl. lit_at ts (\<rho> 0) l) \<and> (\<forall>l \<in> set us. next_at ts (\<rho> 0) l))"
proof -
  obtain s cur nxt where q: "query ts (Some (map (\<lambda>l. ts_state ts ! nat (\<bar>l\<bar> - 1)) ls)) = Some (s, cur, nxt)"
    "chain P ts s [cur] (\<lambda>\<rho>. (\<lambda>_. True) (\<rho> 0))" "pos [cur]" "reads ts s cur nxt (next_at ts) (set ls)"
    using query_ok [OF wf ls] by blast
  obtain s1 where 1: "assert_frame tr ts fr (fenv cur) i s = Some s1"
    "chain P ts s1 [cur] (\<lambda>\<rho>. (\<lambda>_. True) (\<rho> 0) \<and> frame_at ts fr i (\<rho> 0))" "n_vars s1 = n_vars s" "mods s1 \<subseteq> mods s"
    using assert_frame_ok [OF wf tr fr q(2)] by blast
  have ch1: "chain P ts s1 [cur] (\<lambda>\<rho>. (frame_at ts fr i) (\<rho> 0))" using 1(2) by simp
  have "\<exists>s2. add_cube_clause ts (fenv cur) cl s1 = Some s2 \<and>
      chain P ts s2 [cur] (\<lambda>\<rho>. frame_at ts fr i (\<rho> 0) \<and> (\<exists>l \<in> set cl. lit_at ts (\<rho> 0) l)) \<and>
      n_vars s2 = n_vars s1 \<and> mods s2 \<subseteq> mods s1"
    using lit_at_names cl by (intro add_cube_clause_ok [OF ch1 reads_cur [OF ch1 cl]]) blast
  then obtain s2 where 2: "add_cube_clause ts (fenv cur) cl s1 = Some s2"
    "chain P ts s2 [cur] (\<lambda>\<rho>. (\<lambda>\<rho>. frame_at ts fr i \<rho> \<and> (\<exists>l \<in> set cl. lit_at ts \<rho> l)) (\<rho> 0))"
    "n_vars s2 = n_vars s1" "mods s2 \<subseteq> mods s1" by blast
  have r2: "reads ts s2 cur nxt (next_at ts) (set ls)" by (rule reads_mono [OF q(4)]) (use 1 2 in auto)
  have rus: "\<forall>l \<in> set us. in_range ts l" using us ls(1) in_range_minus by blast
  have "reads ts s2 cur nxt (next_at ts) (set us)"
    unfolding reads_def
  proof
    fix l assume l: "l \<in> set us"
    have r: "in_range ts l" using rus l by blast
    then have l0: "l \<noteq> 0" by (rule in_rangeD(2))
    show "\<exists>k. bit_lit ts nxt l = Some k \<and> lit_ok (n_vars s2) k \<and> (\<forall>m \<in> mods s2. sat_lit m k = next_at ts (fval cur m) l)"
    proof (cases "l \<in> set ls")
      case True
      then show ?thesis using r2 by (simp add: reads_def)
    next
      case False
      then have "- l \<in> set ls" using us l by blast
      then obtain k where k: "bit_lit ts nxt (- l) = Some k" "lit_ok (n_vars s2) k"
        "\<forall>m \<in> mods s2. sat_lit m k = next_at ts (fval cur m) (- l)"
        using r2 unfolding reads_def by blast
      have "bit_lit ts nxt l = Some (- k)" using k(1) l0 unfolding bit_lit_def bit_of_def
        by (auto split: if_splits simp: bind_eq_Some_conv)
      moreover have "k \<noteq> 0" using k(2) by (simp add: lit_ok_def)
      ultimately show ?thesis using k(2,3) next_at_minus [OF l0] by auto
    qed
  qed
  then have "\<exists>s3. add_units ts nxt us s2 = Some s3 \<and>
      chain P ts s3 [cur] (\<lambda>\<rho>. (\<lambda>\<rho>. frame_at ts fr i \<rho> \<and> (\<exists>l \<in> set cl. lit_at ts \<rho> l)) (\<rho> 0) \<and>
        (\<forall>l \<in> set us. next_at ts (\<rho> 0) l)) \<and> n_vars s3 = n_vars s2 \<and> mods s3 \<subseteq> mods s2"
    using next_at_names [OF wf] rus by (intro add_units_ok [OF _ _ 2(2)]) blast+
  then obtain s3 where 3: "add_units ts nxt us s2 = Some s3"
    "chain P ts s3 [cur] (\<lambda>\<rho>. (\<lambda>\<rho>. frame_at ts fr i \<rho> \<and> (\<exists>l \<in> set cl. lit_at ts \<rho> l)) (\<rho> 0) \<and>
        (\<forall>l \<in> set us. next_at ts (\<rho> 0) l))" by blast
  have "chain P ts s3 [cur] (\<lambda>\<rho>. frame_at ts fr i (\<rho> 0) \<and> (\<exists>l \<in> set cl. lit_at ts (\<rho> 0) l) \<and> (\<forall>l \<in> set us. next_at ts (\<rho> 0) l))"
    by (rule chain_cong [OF 3(2)]) auto
  then show ?thesis using q(1,3) 1(1) 2(1) 3(1) by blast
qed

lemma inductive_rel_ok:
  assumes wf: "wf_ts P ts" and tr: "traversal_ok tr" and fr: "frames_wf ts fr" and c: "cube_wf ts c"
  shows "inductive_rel tr ts fr c i =
    Some (\<forall>\<rho>. frame_at ts fr i \<rho> \<and> sat_cl ts c \<rho> \<longrightarrow> (\<exists>l \<in> c. next_at ts \<rho> l))"
proof -
  note cd = cube_wfD [OF tr c]
  have us: "\<forall>l \<in> set (map uminus (of_cube tr c)). l \<in> set (of_cube tr c) \<or> - l \<in> set (of_cube tr c)" by auto
  obtain s cur nxt s1 s2 s3 where q:
    "query ts (Some (map (\<lambda>l. ts_state ts ! nat (\<bar>l\<bar> - 1)) (of_cube tr c))) = Some (s, cur, nxt)"
    "assert_frame tr ts fr (fenv cur) i s = Some s1"
    "add_cube_clause ts (fenv cur) (of_cube tr c) s1 = Some s2"
    "add_units ts nxt (map uminus (of_cube tr c)) s2 = Some s3"
    and ch: "chain P ts s3 [cur] (\<lambda>\<rho>. frame_at ts fr i (\<rho> 0) \<and> (\<exists>l \<in> set (of_cube tr c). lit_at ts (\<rho> 0) l) \<and>
      (\<forall>l \<in> set (map uminus (of_cube tr c)). next_at ts (\<rho> 0) l))"
    using step_query_ok [OF wf tr fr cd(3,2,4) cd(3) us] by blast
  have "(\<forall>l \<in> set (map uminus (of_cube tr c)). next_at ts \<rho> l) \<longleftrightarrow> \<not> (\<exists>l \<in> c. next_at ts \<rho> l)" for \<rho>
    using cd(1,3) in_rangeD(2) next_at_minus by (metis (mono_tags, lifting) imageE image_eqI list.set_map)
  then have "map_option fst (solve [] s3) =
      Some (\<exists>\<rho>. frame_at ts fr i \<rho> \<and> sat_cl ts c \<rho> \<and> \<not> (\<exists>l \<in> c. next_at ts \<rho> l))"
    using solve_fst [OF ch] seq_ex [of "\<lambda>\<rho>. frame_at ts fr i \<rho> \<and> sat_cl ts c \<rho> \<and> \<not> (\<exists>l \<in> c. next_at ts \<rho> l)"]
    by (simp add: sat_cl_def cd(1))
  then obtain r where "solve [] s3 = Some r"
    "fst r = (\<exists>\<rho>. frame_at ts fr i \<rho> \<and> sat_cl ts c \<rho> \<and> \<not> (\<exists>l \<in> c. next_at ts \<rho> l))"
    by (cases "solve [] s3") auto
  then show ?thesis using q cd(5) by (auto simp: inductive_rel_def)
qed

lemma query_bad_ok:
  assumes wf: "wf_ts P ts" and ch: "chain P ts s [cur] (\<lambda>\<rho>. C (\<rho> 0))" and ps: "pos [cur]"
  shows "\<exists>l cur' s1. bad_lit ts cur s = Some (l, cur', s1) \<and> fenv cur' = fenv cur \<and>
    chain P ts (snd (add_clause [l] s1)) [cur'] (\<lambda>\<rho>. C (\<rho> 0) \<and> is_bad ts (\<rho> 0)) \<and> pos [cur']"
proof -
  obtain l f s1 where b: "bad_lit ts cur s = Some (l, f, s1)" "chain P ts s1 [f] (\<lambda>\<rho>. C (\<rho> 0))"
    "lit_ok (n_vars s1) l" "fenv f = fenv cur" "\<forall>m \<in> mods s1. sat_lit m l = is_bad ts (fvals [cur] m 0)"
    using chain_bad [OF wf ch, of 0] by auto
  have b5: "\<forall>m \<in> mods s1. sat_lit m l = is_bad ts (fvals [f] m 0)"
    using b(4,5) by (simp add: fvals_def fval_def)
  show ?thesis using chain_assert_bad(1) [OF wf b(2) _ b(3) b5] b(1,4) ps by (simp add: pos_def)
qed

lemma init_intersects_bad_ok:
  assumes wf: "wf_ts P ts"
  shows "init_intersects_bad ts = Some (\<exists>\<rho>. is_init ts \<rho> \<and> is_bad ts \<rho>)"
proof -
  obtain s cur nxt where q: "query ts (Some []) = Some (s, cur, nxt)" "chain P ts s [cur] (\<lambda>\<rho>. (\<lambda>_. True) (\<rho> 0))" "pos [cur]"
    using query_none [OF wf] by blast
  obtain s1 where 1: "ic_assert_init ts (fenv cur) s = Some s1"
    "chain P ts s1 [cur] (\<lambda>\<rho>. (\<lambda>_. True) (\<rho> 0) \<and> is_init ts (\<rho> 0))"
    using assert_init_ok [OF wf q(2)] by blast
  have ch1: "chain P ts s1 [cur] (\<lambda>\<rho>. (is_init ts) (\<rho> 0))" using 1(2) by simp
  obtain l cur' s2 where b: "bad_lit ts cur s1 = Some (l, cur', s2)"
    "chain P ts (snd (add_clause [l] s2)) [cur'] (\<lambda>\<rho>. is_init ts (\<rho> 0) \<and> is_bad ts (\<rho> 0))"
    using query_bad_ok [OF wf ch1 q(3)] by blast
  show ?thesis using q(1) 1(1) b(1) solve_fst [OF b(2)] seq_ex [of "\<lambda>\<rho>. is_init ts \<rho> \<and> is_bad ts \<rho>"]
    by (simp add: init_intersects_bad_def)
qed

subsection \<open>Ternary lifting\<close>

definition cache_ok :: "sig set \<Rightarrow> engine \<Rightarrow> bool" where
  "cache_ok P e \<longleftrightarrow> (\<forall>g \<in> P. \<forall>X. sups e (sid g) = Some X \<longrightarrow> X = svars g)"

definition same_frames :: "engine \<Rightarrow> engine \<Rightarrow> bool" where
  "same_frames e e' \<longleftrightarrow> frames e' = frames e \<and> found e' = found e"

lemma sup_of_ok:
  assumes "pool P" "g \<in> P" "cache_ok P e"
  shows "\<exists>e'. sup_of g e = Some (svars g, e') \<and> cache_ok P e' \<and> same_frames e e'"
proof (cases "sups e (sid g)")
  case None
  have "cache_ok P (e\<lparr>sups := (sups e)(sid g \<mapsto> svars g)\<rparr>)"
    unfolding cache_ok_def
  proof (intro ballI allI impI)
    fix h X assume h: "h \<in> P" "sups (e\<lparr>sups := (sups e)(sid g \<mapsto> svars g)\<rparr>) (sid h) = Some X"
    show "X = svars h"
    proof (cases "sid h = sid g")
      case True
      then have "h = g" using poolD_id [OF assms(1) h(1) assms(2)] by simp
      then show ?thesis using h(2) by simp
    next
      case False
      then show ?thesis using h assms(3) by (simp add: cache_ok_def)
    qed
  qed
  then show ?thesis using None by (simp add: sup_of_def support_svars [OF assms(1,2)] same_frames_def)
next
  case (Some X)
  then show ?thesis using assms(2,3) by (auto simp: sup_of_def cache_ok_def same_frames_def)
qed

lemma sups_of_ok:
  assumes "pool P"
  shows "\<forall>t \<in> set targets. fst t \<in> P \<Longrightarrow> cache_ok P e \<Longrightarrow>
    \<exists>e'. sups_of targets e = Some (map (\<lambda>t. svars (fst t)) targets, e') \<and> cache_ok P e' \<and> same_frames e e'"
proof (induction targets arbitrary: e)
  case Nil
  then show ?case by (simp add: same_frames_def)
next
  case (Cons t ts)
  have tP: "fst t \<in> P" using Cons.prems(1) by simp
  obtain e1 where 1: "sup_of (fst t) e = Some (svars (fst t), e1)" "cache_ok P e1" "same_frames e e1"
    using sup_of_ok [OF assms tP Cons.prems(2)] by blast
  have "\<forall>t \<in> set ts. fst t \<in> P" using Cons.prems(1) by simp
  from Cons.IH [OF this 1(2)] 1 show ?case by (auto simp: same_frames_def)
qed

definition definite :: "(string \<rightharpoonup> tern) \<Rightarrow> (sig \<times> bool) list \<Rightarrow> bool" where
  "definite E targets \<longleftrightarrow> (\<forall>t \<in> set targets. tval (tenv E) (fst t) = Some (snd t))"

lemma targets_hold_ok:
  assumes "pool P"
  shows "\<forall>t \<in> set targets. fst t \<in> P \<and> svars (fst t) \<subseteq> dom E \<Longrightarrow> tmemo_ok P E memo \<Longrightarrow>
    targets_hold n E (zip targets (map (\<lambda>t. svars (fst t)) targets)) memo =
      Some (\<forall>t \<in> set targets. n \<in> svars (fst t) \<longrightarrow> tval (tenv E) (fst t) = Some (snd t))"
proof (induction targets arbitrary: memo)
  case Nil
  then show ?case by simp
next
  case (Cons t ts)
  obtain g req where t: "t = (g, req)" by fastforce
  have g: "g \<in> P" "svars g \<subseteq> dom E" using Cons.prems(1) t by auto
  obtain memo' where e: "ternary_eval g E memo = Some (tval (tenv E) g, memo')" "tmemo_ok P E memo'"
    using ternary_eval_tval [OF assms g Cons.prems(2)] by blast
  have ts: "\<forall>t \<in> set ts. fst t \<in> P \<and> svars (fst t) \<subseteq> dom E" using Cons.prems(1) by simp
  show ?case
    using Cons.IH [OF ts e(2)] Cons.IH [OF ts Cons.prems(2)] e(1) t by auto
qed

lemma definite_mono:
  assumes "definite E targets" "\<And>t x. t \<in> set targets \<Longrightarrow> x \<in> svars (fst t) \<Longrightarrow> E' x = E x"
  shows "definite E' targets"
  unfolding definite_def
proof
  fix t assume t: "t \<in> set targets"
  show "tval (tenv E') (fst t) = Some (snd t)"
    by (rule tval_mono [of _ "tenv E"]) (use assms t in \<open>auto simp: definite_def refines_def tenv_def\<close>)
qed

lemma lift_sims_ok:
  assumes P: "pool P" and tg: "\<forall>t \<in> set targets. fst t \<in> P \<and> svars (fst t) \<subseteq> X"
  shows "X \<subseteq> dom E \<Longrightarrow> set ns \<subseteq> dom E \<Longrightarrow> definite E targets \<Longrightarrow>
    \<exists>E'. lift_sims (zip targets (map (\<lambda>t. svars (fst t)) targets)) ns E = Some E' \<and> definite E' targets \<and>
      (\<forall>n. E' n = E n \<or> (n \<in> set ns \<and> E' n = Some None))"
proof (induction ns arbitrary: E)
  case Nil
  then show ?case by simp
next
  case (Cons n ns)
  obtain v where v: "E n = Some v" using Cons.prems(2) by auto
  show ?case
  proof (cases v)
    case None
    have "X \<subseteq> dom E" "set ns \<subseteq> dom E" using Cons.prems(1,2) by auto
    from Cons.IH [OF this Cons.prems(3)] obtain E' where
      "lift_sims (zip targets (map (\<lambda>t. svars (fst t)) targets)) ns E = Some E'" "definite E' targets"
      "\<forall>m. E' m = E m \<or> (m \<in> set ns \<and> E' m = Some None)" by blast
    moreover from this(1) have "lift_sims (zip targets (map (\<lambda>t. svars (fst t)) targets)) (n # ns) E = Some E'"
      using v None by simp
    ultimately show ?thesis by (metis list.set_intros(2))
  next
    case (Some b)
    let ?E = "E(n \<mapsto> None)"
    have "\<forall>t \<in> set targets. fst t \<in> P \<and> svars (fst t) \<subseteq> dom ?E" using tg Cons.prems(1) by auto
    from targets_hold_ok [OF P this, of Map.empty n]
    have th: "targets_hold n ?E (zip targets (map (\<lambda>t. svars (fst t)) targets)) Map.empty =
        Some (\<forall>t \<in> set targets. n \<in> svars (fst t) \<longrightarrow> tval (tenv ?E) (fst t) = Some (snd t))"
      by (simp add: tmemo_ok_def)
    have undo: "E(n \<mapsto> None, n \<mapsto> Some b) = E" using v Some by auto
    show ?thesis
    proof (cases "\<forall>t \<in> set targets. n \<in> svars (fst t) \<longrightarrow> tval (tenv ?E) (fst t) = Some (snd t)")
      case True
      have "definite ?E targets"
        unfolding definite_def
      proof
        fix t assume t: "t \<in> set targets"
        show "tval (tenv ?E) (fst t) = Some (snd t)"
        proof (cases "n \<in> svars (fst t)")
          case False
          have "definite E [t]" using Cons.prems(3) t by (simp add: definite_def)
          then have "definite ?E [t]" by (rule definite_mono) (use False in auto)
          then show ?thesis by (simp add: definite_def)
        qed (use True t in blast)
      qed
      moreover have "X \<subseteq> dom ?E" "set ns \<subseteq> dom ?E" using Cons.prems(1,2) by auto
      ultimately obtain E' where E': "lift_sims (zip targets (map (\<lambda>t. svars (fst t)) targets)) ns ?E = Some E'"
        "definite E' targets" "\<forall>m. E' m = ?E m \<or> (m \<in> set ns \<and> E' m = Some None)"
        using Cons.IH by blast
      have "\<forall>m. E' m = E m \<or> (m \<in> set (n # ns) \<and> E' m = Some None)"
      proof
        fix m show "E' m = E m \<or> (m \<in> set (n # ns) \<and> E' m = Some None)"
          using E'(3) [rule_format, of m] by (cases "m = n") auto
      qed
      then show ?thesis using E'(1,2) v Some th True by (simp del: fun_upd_apply)
    next
      case False
      have "X \<subseteq> dom E" "set ns \<subseteq> dom E" using Cons.prems(1,2) by auto
      from Cons.IH [OF this Cons.prems(3)] show ?thesis
        using v Some th False undo by (auto simp del: fun_upd_apply)
    qed
  qed
qed

lemma env_cube_ok:
  assumes d: "distinct (ts_state ts)" and E: "\<forall>n \<in> set (ts_state ts). E n = Some None \<or> E n = Some (Some (\<rho> n))"
  shows "in_cube ts (env_cube ts E) \<rho>' \<longleftrightarrow> (\<forall>n \<in> set (ts_state ts). E n \<noteq> Some None \<longrightarrow> \<rho>' n = \<rho> n)"
    "env_cube ts E \<noteq> {} \<Longrightarrow> cube_wf ts (env_cube ts E)"
proof -
  let ?S = "ts_state ts"
  let ?I = "{i. i < length ?S \<and> E (?S ! i) \<noteq> Some None}"
  define f where "f i = (if \<rho> (?S ! i) then int i + 1 else - (int i + 1))" for i
  have c: "env_cube ts E = f ` ?I"
  proof -
    have "(if E (?S ! i) = Some (Some True) then int i + 1 else - (int i + 1)) = f i"
      if "i < length ?S" "E (?S ! i) \<noteq> Some None" for i
      using E nth_mem [OF that(1)] that(2) by (auto simp: f_def)
    then show ?thesis unfolding env_cube_def by (auto simp: image_iff)
  qed
  have lit: "lit_at ts \<rho>' (f i) \<longleftrightarrow> \<rho>' (?S ! i) = \<rho> (?S ! i)" for i
    by (auto simp: lit_at_def f_def)
  have "in_cube ts (env_cube ts E) \<rho>' \<longleftrightarrow> (\<forall>i \<in> ?I. \<rho>' (?S ! i) = \<rho> (?S ! i))"
    unfolding c in_cube_def using lit by blast
  also have "\<dots> \<longleftrightarrow> (\<forall>n \<in> set ?S. E n \<noteq> Some None \<longrightarrow> \<rho>' n = \<rho> n)"
    by (simp add: all_set_conv_all_nth) blast
  finally show "in_cube ts (env_cube ts E) \<rho>' \<longleftrightarrow> (\<forall>n \<in> set ?S. E n \<noteq> Some None \<longrightarrow> \<rho>' n = \<rho> n)" .
  have "in_range ts (f i)" if "i \<in> ?I" for i using that by (auto simp: f_def in_range_def)
  moreover have "- f i \<noteq> f j" for i j by (auto simp: f_def)
  ultimately show "cube_wf ts (env_cube ts E)" if "env_cube ts E \<noteq> {}"
    using that unfolding cube_wf_def c by auto
qed

lemma lift_ok:
  assumes wf: "wf_ts P ts" and ne: "ts_state ts \<noteq> []" and cache: "cache_ok P e"
    and E: "\<forall>n \<in> ts_names ts. E n = Some (Some (\<rho> n))"
    and tg: "\<forall>t \<in> set targets. fst t \<in> P \<and> svars (fst t) \<subseteq> ts_names ts \<and> sval \<rho> (fst t) = snd t"
  shows "\<exists>c e'. lift ts E targets e = Some (c, e') \<and> cache_ok P e' \<and> same_frames e e' \<and> cube_wf ts c \<and> in_cube ts c \<rho> \<and>
    (\<forall>\<rho>'. in_cube ts c \<rho>' \<and> (\<forall>x \<in> set (ts_inputs ts). \<rho>' x = \<rho> x) \<longrightarrow> (\<forall>t \<in> set targets. sval \<rho>' (fst t) = snd t))"
proof -
  let ?S = "ts_state ts" and ?Xs = "map (\<lambda>t. svars (fst t)) targets"
  have pool: "pool P" and d: "distinct ?S" using wf by (simp_all add: wf_ts_def)
  have SN: "set ?S \<subseteq> ts_names ts" by (simp add: ts_names_def)
  obtain e' where e': "sups_of targets e = Some (?Xs, e')" "cache_ok P e'" "same_frames e e'"
    using sups_of_ok [OF pool _ cache, of targets] tg by blast
  let ?cone = "\<Union> (set ?Xs)"
  define E1 where "E1 = fold (\<lambda>n env. if n \<notin> ?cone then env(n \<mapsto> None) else env) ?S E"
  have fold: "fold (\<lambda>n env. if n \<notin> C then env(n \<mapsto> None) else env) ns G m =
      (if m \<in> set ns \<and> m \<notin> C then Some None else G m)" for C ns G and m :: string
    by (induction ns arbitrary: G) auto
  have E1: "E1 m = (if m \<in> set ?S \<and> m \<notin> ?cone then Some None else E m)" for m
    unfolding E1_def by (rule fold)
  have "definite E targets"
    unfolding definite_def
  proof
    fix t assume t: "t \<in> set targets"
    have "tval (\<lambda>x. Some (\<rho> x)) (fst t) = Some (snd t)" using tg t by (simp add: tval_total)
    then show "tval (tenv E) (fst t) = Some (snd t)"
    proof (rule tval_mono [rotated])
      fix x assume "x \<in> svars (fst t)"
      then have "x \<in> ts_names ts" using tg t by blast
      then show "refines (Some (\<rho> x)) (tenv E x)" using E by (simp add: refines_def tenv_def)
    qed
  qed
  then have def1: "definite E1 targets" by (rule definite_mono) (auto simp: E1)
  have dom1: "ts_names ts \<subseteq> dom E1" using E by (auto simp: E1)
  have tgX: "\<forall>t \<in> set targets. fst t \<in> P \<and> svars (fst t) \<subseteq> ts_names ts" using tg by blast
  obtain E2 where E2: "lift_sims (zip targets ?Xs) ?S E1 = Some E2" "definite E2 targets"
    "\<forall>n. E2 n = E1 n \<or> (n \<in> set ?S \<and> E2 n = Some None)"
    using lift_sims_ok [OF pool tgX dom1 order_trans [OF SN dom1] def1] by blast
  have E2S: "\<forall>n \<in> ts_names ts. E2 n = Some None \<or> E2 n = Some (Some (\<rho> n))"
  proof
    fix n assume "n \<in> ts_names ts"
    then show "E2 n = Some None \<or> E2 n = Some (Some (\<rho> n))"
      using E2(3) [rule_format, of n] E1 [of n] E by (auto split: if_splits)
  qed
  have E2I: "E2 n = Some (Some (\<rho> n))" if "n \<in> set (ts_inputs ts)" for n
  proof -
    have "n \<notin> set ?S" using wf that by (auto simp: wf_ts_def)
    then show ?thesis using E2(3) [rule_format, of n] E1 [of n] E that by (auto simp: ts_names_def)
  qed
  text \<open>A cube read off an environment in which the targets are definite.\<close>
  have good: "cube_wf ts (env_cube ts G) \<and> in_cube ts (env_cube ts G) \<rho> \<and>
      (\<forall>\<rho>'. in_cube ts (env_cube ts G) \<rho>' \<and> (\<forall>x \<in> set (ts_inputs ts). \<rho>' x = \<rho> x) \<longrightarrow>
        (\<forall>t \<in> set targets. sval \<rho>' (fst t) = snd t))"
    if G: "definite G targets" "\<forall>n \<in> ts_names ts. G n = Some None \<or> G n = Some (Some (\<rho> n))"
      "env_cube ts G \<noteq> {}" for G
  proof -
    have GS: "\<forall>n \<in> set ?S. G n = Some None \<or> G n = Some (Some (\<rho> n))" using G(2) SN by blast
    note ec = env_cube_ok [OF d GS]
    have "sval \<rho>' (fst t) = snd t" if t: "t \<in> set targets" and r: "in_cube ts (env_cube ts G) \<rho>'"
      "\<forall>x \<in> set (ts_inputs ts). \<rho>' x = \<rho> x" for \<rho>' t
    proof (rule tval_sound)
      show "tval (tenv G) (fst t) = Some (snd t)" using G(1) t by (simp add: definite_def)
      fix x assume "x \<in> svars (fst t)"
      then have x: "x \<in> ts_names ts" using tg t by blast
      have "G x \<noteq> Some None \<Longrightarrow> \<rho>' x = \<rho> x"
        using x r ec(1) [of \<rho>'] by (auto simp: ts_names_def)
      then show "refines (tenv G x) (Some (\<rho>' x))" using G(2) x by (auto simp: refines_def tenv_def)
    qed
    then show ?thesis using ec(2) [OF G(3)] ec(1) [of \<rho>] by blast
  qed
  have neE: "env_cube ts E \<noteq> {}"
  proof -
    have "?S ! 0 \<in> ts_names ts" using ne SN by auto
    then have "E (?S ! 0) \<noteq> Some None" using E by auto
    then have "0 \<in> set (filter (\<lambda>i. E (?S ! i) \<noteq> Some None) [0..<length ?S])" using ne by simp
    then show ?thesis unfolding env_cube_def by (auto simp del: set_filter)
  qed
  have gE: "\<forall>n \<in> ts_names ts. E n = Some None \<or> E n = Some (Some (\<rho> n))" using E by blast
  have run: "lift ts E targets e = Some (if env_cube ts E2 = {} then env_cube ts E else env_cube ts E2, e')"
    using e'(1) E2(1) by (simp add: lift_def E1_def Let_def)
  show ?thesis
    using run e'(2,3) good [OF E2(2) E2S] good [OF \<open>definite E targets\<close> gE neE]
    by (cases "env_cube ts E2 = {}") auto
qed

subsection \<open>The queries that return cubes\<close>

lemma model_env_ok:
  assumes "wf_ts P ts" "frame_ok P ts s' cur" "pos [cur]"
  shows "\<exists>E. model_env ts s (fenv cur) = Some E \<and> (\<forall>n \<in> ts_names ts. E n = Some (Some (fval cur (\<lambda>v. get_value v s) n)))"
proof -
  let ?names = "ts_state ts @ ts_inputs ts" and ?\<rho> = "fval cur (\<lambda>v. get_value v s)"
  have names: "set ?names = ts_names ts" by (simp add: ts_names_def)
  have d: "distinct ?names" using assms(1) by (simp add: wf_ts_def)
  have "get_name s (fenv cur) n = Some (?\<rho> n)" if "n \<in> set ?names" for n
  proof (rule get_name_eval)
    show "env_ok (n_vars s') (fenv cur) (ts_names ts)" using assms(2) by (simp add: frame_ok_def)
    show "\<forall>x l. fenv cur x = Some l \<longrightarrow> l > 0" using assms(3) by (simp add: pos_def)
    show "n \<in> ts_names ts" using that names by blast
  qed
  then have th: "those (map (get_name s (fenv cur)) ?names) = Some (map ?\<rho> ?names)"
    by (rule those_map_cong)
  have "map_of (zip ?names (map Some (map ?\<rho> ?names))) n = Some (Some (?\<rho> n))" if "n \<in> ts_names ts" for n
  proof -
    have "zip ?names (map Some (map ?\<rho> ?names)) = map (\<lambda>x. (x, Some (?\<rho> x))) ?names"
      by (simp only: zip_map2 zip_same_conv_map map_map comp_def prod.case)
    then show ?thesis using that names by (simp only: map_of_map_restrict restrict_in comp_def)
  qed
  then show ?thesis using th by (simp only: model_env_def Let_def bind.bind_lunit option.simps) blast
qed

lemma chain_solve_model:
  assumes wf: "wf_ts P ts" and ch: "chain P ts s [cur] (\<lambda>\<rho>. C (\<rho> 0))" and ps: "pos [cur]"
  shows "\<exists>b s'. solve [] s = Some (b, s') \<and> (b \<longleftrightarrow> (\<exists>\<rho>. C \<rho>)) \<and>
    (b \<longrightarrow> (\<exists>E \<rho>. model_env ts s' (fenv cur) = Some E \<and> C \<rho> \<and> (\<forall>n \<in> ts_names ts. E n = Some (Some (\<rho> n)))))"
proof -
  obtain b s' where r: "solve [] s = Some (b, s')" "b \<longleftrightarrow> (\<exists>\<rho> :: seq. C (\<rho> 0))"
    "b \<longrightarrow> C (fvals [cur] (\<lambda>v. get_value v s') 0)"
    using chain_solve [OF ch] by blast
  have "frame_ok P ts s cur" using ch by (simp add: chain_def)
  from model_env_ok [OF wf this ps, of s'] r seq_ex [of C] show ?thesis
    by (auto simp: fvals_def)
qed

definition agree_in :: "trans_system \<Rightarrow> (string \<Rightarrow> bool) \<Rightarrow> (string \<Rightarrow> bool) \<Rightarrow> bool" where
  "agree_in ts \<rho> \<rho>' \<longleftrightarrow> (\<forall>x \<in> set (ts_inputs ts). \<rho>' x = \<rho> x)"

lemma bad_cube_ok:
  assumes wf: "wf_ts P ts" and tr: "traversal_ok tr" and fr: "frames_wf ts (frames e)" and cache: "cache_ok P e"
    and ne: "ts_state ts \<noteq> [] \<or> \<not> (\<exists>\<rho>. frame_at ts (frames e) k \<rho> \<and> is_bad ts \<rho>)"
  shows "\<exists>r e'. bad_cube tr ts k e = Some (r, e') \<and> cache_ok P e' \<and> same_frames e e' \<and>
    (case r of
       None \<Rightarrow> \<not> (\<exists>\<rho>. frame_at ts (frames e) k \<rho> \<and> is_bad ts \<rho>)
     | Some c \<Rightarrow> cube_wf ts c \<and> (\<exists>\<rho>. frame_at ts (frames e) k \<rho> \<and> in_cube ts c \<rho> \<and>
         (\<forall>\<rho>'. in_cube ts c \<rho>' \<and> agree_in ts \<rho> \<rho>' \<longrightarrow> is_bad ts \<rho>')))"
proof -
  obtain b where b: "ts_bad ts = Some b" "b \<in> P" "svars b \<subseteq> ts_names ts" using wf by (auto simp: wf_ts_def)
  obtain s cur nxt where q: "query ts (Some []) = Some (s, cur, nxt)" "chain P ts s [cur] (\<lambda>\<rho>. (\<lambda>_. True) (\<rho> 0))" "pos [cur]"
    using query_none [OF wf] by blast
  obtain s1 where 1: "assert_frame tr ts (frames e) (fenv cur) k s = Some s1"
    "chain P ts s1 [cur] (\<lambda>\<rho>. (\<lambda>_. True) (\<rho> 0) \<and> frame_at ts (frames e) k (\<rho> 0))"
    using assert_frame_ok [OF wf tr fr q(2)] by blast
  have ch1: "chain P ts s1 [cur] (\<lambda>\<rho>. (frame_at ts (frames e) k) (\<rho> 0))" using 1(2) by simp
  obtain l cur' s2 where 2: "bad_lit ts cur s1 = Some (l, cur', s2)" "fenv cur' = fenv cur"
    "chain P ts (snd (add_clause [l] s2)) [cur'] (\<lambda>\<rho>. frame_at ts (frames e) k (\<rho> 0) \<and> is_bad ts (\<rho> 0))" "pos [cur']"
    using query_bad_ok [OF wf ch1 q(3)] by blast
  have ch2: "chain P ts (snd (add_clause [l] s2)) [cur'] (\<lambda>\<rho>. (\<lambda>\<rho>. frame_at ts (frames e) k \<rho> \<and> is_bad ts \<rho>) (\<rho> 0))"
    using 2(3) by simp
  obtain sat s3 where 3: "solve [] (snd (add_clause [l] s2)) = Some (sat, s3)"
    "sat \<longleftrightarrow> (\<exists>\<rho>. frame_at ts (frames e) k \<rho> \<and> is_bad ts \<rho>)"
    "sat \<longrightarrow> (\<exists>E \<rho>. model_env ts s3 (fenv cur') = Some E \<and> (frame_at ts (frames e) k \<rho> \<and> is_bad ts \<rho>) \<and>
       (\<forall>n \<in> ts_names ts. E n = Some (Some (\<rho> n))))"
    using chain_solve_model [OF wf ch2 2(4)] by blast
  show ?thesis
  proof (cases sat)
    case False
    have "bad_cube tr ts k e = Some (None, e)" using q(1) 1(1) b(1) 2(1) 3(1) False by (simp add: bad_cube_def)
    then show ?thesis using 3(2) False cache by (auto simp: same_frames_def)
  next
    case True
    then obtain E \<rho> where E: "model_env ts s3 (fenv cur') = Some E" "frame_at ts (frames e) k \<rho>" "is_bad ts \<rho>"
      "\<forall>n \<in> ts_names ts. E n = Some (Some (\<rho> n))" using 3(3) by blast
    have ne': "ts_state ts \<noteq> []" using ne E(2,3) by blast
    have "\<forall>t \<in> set [(b, True)]. fst t \<in> P \<and> svars (fst t) \<subseteq> ts_names ts \<and> sval \<rho> (fst t) = snd t"
      using b E(3) by (simp add: is_bad_def)
    then obtain c e' where c: "lift ts E [(b, True)] e = Some (c, e')" "cache_ok P e'" "same_frames e e'" "cube_wf ts c"
      "in_cube ts c \<rho>" "\<forall>\<rho>'. in_cube ts c \<rho>' \<and> (\<forall>x \<in> set (ts_inputs ts). \<rho>' x = \<rho> x) \<longrightarrow> (\<forall>t \<in> set [(b, True)]. sval \<rho>' (fst t) = snd t)"
      using lift_ok [OF wf ne' cache E(4)] by blast
    have "bad_cube tr ts k e = Some (Some c, e')"
      using q(1) 1(1) b(1) 2(1,2) 3(1) True E(1) c(1) by (simp add: bad_cube_def)
    then show ?thesis using c(2-6) E(2) b(1) by (auto simp: is_bad_def agree_in_def)
  qed
qed

lemma predecessor_ok:
  assumes wf: "wf_ts P ts" and tr: "traversal_ok tr" and fr: "frames_wf ts (frames e)" and cache: "cache_ok P e"
    and c: "cube_wf ts cube"
  shows "\<exists>r e'. predecessor tr ts cube i e = Some (r, e') \<and> cache_ok P e' \<and> same_frames e e' \<and>
    (case r of
       None \<Rightarrow> \<not> (\<exists>\<rho>. frame_at ts (frames e) i \<rho> \<and> \<not> in_cube ts cube \<rho> \<and> (\<forall>l \<in> cube. next_at ts \<rho> l))
     | Some p \<Rightarrow> cube_wf ts p \<and> (\<exists>\<rho>. frame_at ts (frames e) i \<rho> \<and> in_cube ts p \<rho> \<and>
         (\<forall>\<rho>'. in_cube ts p \<rho>' \<and> agree_in ts \<rho> \<rho>' \<longrightarrow> (\<forall>l \<in> cube. next_at ts \<rho>' l))))"
proof -
  note cd = cube_wfD [OF tr c]
  let ?ls = "of_cube tr cube"
  let ?bit = "\<lambda>l. ts_state ts ! nat (\<bar>l\<bar> - 1)"
  have r1: "\<forall>l \<in> set (map uminus ?ls). in_range ts l" using cd(3) by auto
  have us: "\<forall>l \<in> set ?ls. l \<in> set ?ls \<or> - l \<in> set ?ls" by blast
  let ?C = "\<lambda>\<rho>. frame_at ts (frames e) i \<rho> \<and> (\<exists>l \<in> set (map uminus ?ls). lit_at ts \<rho> l) \<and> (\<forall>l \<in> set ?ls. next_at ts \<rho> l)"
  obtain s cur nxt s1 s2 s3 where q: "query ts (Some (map ?bit ?ls)) = Some (s, cur, nxt)"
    "assert_frame tr ts (frames e) (fenv cur) i s = Some s1"
    "add_cube_clause ts (fenv cur) (map uminus ?ls) s1 = Some s2" "add_units ts nxt ?ls s2 = Some s3" and ps: "pos [cur]"
    and ch: "chain P ts s3 [cur] (\<lambda>\<rho>. ?C (\<rho> 0))"
    using step_query_ok [OF wf tr fr cd(3,2,4) r1 us] by blast
  have C: "?C \<rho> \<longleftrightarrow> frame_at ts (frames e) i \<rho> \<and> \<not> in_cube ts cube \<rho> \<and> (\<forall>l \<in> cube. next_at ts \<rho> l)" for \<rho>
  proof -
    have "(\<exists>l \<in> set (map uminus ?ls). lit_at ts \<rho> l) \<longleftrightarrow> sat_cl ts (uminus ` cube) \<rho>" by (simp add: sat_cl_def cd(1))
    also have "\<dots> \<longleftrightarrow> \<not> in_cube ts cube \<rho>" using cd(1,3) by (intro sat_cl_uminus) simp
    finally show ?thesis by (simp add: cd(1))
  qed
  obtain sat s4 where 4: "solve [] s3 = Some (sat, s4)" "sat \<longleftrightarrow> (\<exists>\<rho>. ?C \<rho>)"
    "sat \<longrightarrow> (\<exists>E \<rho>. model_env ts s4 (fenv cur) = Some E \<and> ?C \<rho> \<and> (\<forall>n \<in> ts_names ts. E n = Some (Some (\<rho> n))))"
    using chain_solve_model [OF wf ch ps] by blast
  show ?thesis
  proof (cases sat)
    case False
    have "predecessor tr ts cube i e = Some (None, e)" using q cd(5) 4(1) False by (simp add: predecessor_def)
    moreover have "\<not> (\<exists>\<rho>. frame_at ts (frames e) i \<rho> \<and> \<not> in_cube ts cube \<rho> \<and> (\<forall>l \<in> cube. next_at ts \<rho> l))"
      using False unfolding 4(2) C .
    ultimately show ?thesis using cache by (auto simp: same_frames_def)
  next
    case True
    then obtain E \<rho> where E: "model_env ts s4 (fenv cur) = Some E" "?C \<rho>"
      "\<forall>n \<in> ts_names ts. E n = Some (Some (\<rho> n))" using 4(3) by blast
    define tgs where "tgs = map (\<lambda>l. (the (ts_next ts (?bit l)), l > 0)) ?ls"
    have nxt_of: "\<exists>g. ts_next ts (?bit l) = Some g \<and> g \<in> P \<and> svars g \<subseteq> ts_names ts" if "l \<in> set ?ls" for l
    proof -
      have "?bit l \<in> set (ts_state ts)" using cd(3) that in_rangeD(1) by auto
      then show ?thesis using wf unfolding wf_ts_def by blast
    qed
    have tg: "those (map (\<lambda>l. do { n \<leftarrow> bit_of ts l; g \<leftarrow> ts_next ts n; Some (g, l > 0) }) ?ls) = Some tgs"
      unfolding tgs_def
    proof (rule those_map_cong)
      fix l assume l: "l \<in> set ?ls"
      have "bit_of ts l = Some (?bit l)" using cd(3) l bit_of_range by blast
      then show "do { n \<leftarrow> bit_of ts l; g \<leftarrow> ts_next ts n; Some (g, l > 0) } = Some (the (ts_next ts (?bit l)), l > 0)"
        using nxt_of [OF l] by auto
    qed
    have nx: "next_at ts \<rho>' l \<longleftrightarrow> sval \<rho>' (the (ts_next ts (?bit l))) = (l > 0)" for \<rho>' l by (simp add: next_at_def)
    have tgok: "\<forall>t \<in> set tgs. fst t \<in> P \<and> svars (fst t) \<subseteq> ts_names ts \<and> sval \<rho> (fst t) = snd t"
      unfolding tgs_def using nxt_of E(2) nx by fastforce
    have "ts_state ts \<noteq> []" using c in_rangeD(1) unfolding cube_wf_def by fastforce
    from lift_ok [OF wf this cache E(3) tgok] obtain p e' where p: "lift ts E tgs e = Some (p, e')" "cache_ok P e'"
      "same_frames e e'" "cube_wf ts p" "in_cube ts p \<rho>"
      "\<forall>\<rho>'. in_cube ts p \<rho>' \<and> (\<forall>x \<in> set (ts_inputs ts). \<rho>' x = \<rho> x) \<longrightarrow> (\<forall>t \<in> set tgs. sval \<rho>' (fst t) = snd t)"
      by blast
    have run: "predecessor tr ts cube i e = Some (Some p, e')"
      using q cd(5) 4(1) True E(1) p(1) tg by (simp add: predecessor_def)
    have "\<forall>l \<in> cube. next_at ts \<rho>' l" if "\<forall>t \<in> set tgs. sval \<rho>' (fst t) = snd t" for \<rho>'
      using that nx cd(1) unfolding tgs_def by auto
    then show ?thesis using run p(2-6) E(2) unfolding agree_in_def by auto
  qed
qed

end
