(* ===== verification/Ic3_Search.thy ===== *)
theory Ic3_Search
  imports Ic3_Query
begin

text \<open>
  Correctness and termination of IC3's search. \<open>sound\<close> is the contract of the frames: they contain the
  initial states and every step from one lands in the next. Obligations are cubes whose states all lead
  to a violation (\<open>doomed\<close>) and that no run reaches in fewer steps than their level (\<open>unreach\<close>); the
  second fact is what makes blocking a cube sound although a lifted cube is tested against the initial
  states at level 0 only. Blocking terminates because a blocked obligation that was found by a query
  removes a state from a frame.
\<close>

subsection \<open>Frames\<close>

definition sat_all :: "trans_system \<Rightarrow> cube set \<Rightarrow> (string \<Rightarrow> bool) \<Rightarrow> bool" where
  "sat_all ts F \<rho> \<longleftrightarrow> (\<forall>cl \<in> F. sat_cl ts cl \<rho>)"

lemma sat_insert_clause: "sat_all ts (insert_clause c F) \<rho> \<longleftrightarrow> sat_cl ts c \<rho> \<and> sat_all ts F \<rho>"
  unfolding sat_all_def insert_clause_def sat_cl_def by auto

lemma frame_at_sat_all:
  "frame_at ts fr i \<rho> \<longleftrightarrow> (if i = 0 then is_init ts \<rho> else \<forall>j. i \<le> j \<and> j < length fr \<longrightarrow> sat_all ts (fr ! j) \<rho>)"
  by (simp add: frame_at_def sat_all_def)

lemma frame_mono: "1 \<le> i \<Longrightarrow> i \<le> j \<Longrightarrow> frame_at ts fr i \<rho> \<Longrightarrow> frame_at ts fr j \<rho>"
  unfolding frame_at_def by (auto split: if_splits) (meson order_trans)

definition sound :: "trans_system \<Rightarrow> cube set list \<Rightarrow> bool" where
  "sound ts fr \<longleftrightarrow> 2 \<le> length fr \<and> (\<forall>\<rho>. is_init ts \<rho> \<longrightarrow> frame_at ts fr 1 \<rho>) \<and>
     (\<forall>i \<rho> \<rho>'. Suc i < length fr \<and> frame_at ts fr i \<rho> \<and> step ts \<rho> \<rho>' \<longrightarrow> frame_at ts fr (Suc i) \<rho>')"

lemma sound_init: "sound ts fr \<Longrightarrow> is_init ts \<rho> \<Longrightarrow> frame_at ts fr i \<rho>"
  using frame_mono [of 1 i ts fr \<rho>] by (cases "i = 0") (auto simp: sound_def frame_at_def)

lemma sound_reach:
  assumes "sound ts fr" "is_init ts (\<rho> 0)"
  shows "run ts m \<rho> \<Longrightarrow> m < length fr \<Longrightarrow> frame_at ts fr m (\<rho> m)"
proof (induction m)
  case 0
  then show ?case using assms by (simp add: frame_at_def)
next
  case (Suc m)
  then have "frame_at ts fr m (\<rho> m)" "step ts (\<rho> m) (\<rho> (Suc m))" by (auto simp: run_def)
  then show ?case using assms(1) Suc.prems(2) unfolding sound_def by blast
qed

text \<open>The frames of \<open>fr'\<close> are those of \<open>fr\<close> with one more clause up to level \<open>i\<close>.\<close>

definition strengthened :: "trans_system \<Rightarrow> cube \<Rightarrow> nat \<Rightarrow> cube set list \<Rightarrow> cube set list \<Rightarrow> bool" where
  "strengthened ts c i fr fr' \<longleftrightarrow> length fr' = length fr \<and>
     (\<forall>m \<rho>. frame_at ts fr' m \<rho> \<longleftrightarrow> frame_at ts fr m \<rho> \<and> (1 \<le> m \<and> m \<le> i \<longrightarrow> sat_cl ts c \<rho>))"

lemma strengthenedD: "strengthened ts c i fr fr' \<Longrightarrow> frame_at ts fr' m \<rho> \<Longrightarrow> frame_at ts fr m \<rho>"
  by (simp add: strengthened_def)

lemma strengthened_upd:
  assumes len: "length fr' = length fr" and i: "i < length fr"
    and upd: "\<And>j. j < length fr \<Longrightarrow> fr' ! j = (if J j then insert_clause c (fr ! j) else fr ! j)"
    and J: "J i" "\<And>j. J j \<Longrightarrow> j \<le> i"
  shows "strengthened ts c i fr fr'"
  unfolding strengthened_def
proof (intro conjI allI)
  show "length fr' = length fr" by (fact len)
  fix m \<rho>
  show "frame_at ts fr' m \<rho> \<longleftrightarrow> frame_at ts fr m \<rho> \<and> (1 \<le> m \<and> m \<le> i \<longrightarrow> sat_cl ts c \<rho>)"
  proof (cases "m = 0")
    case False
    have at: "sat_all ts (fr' ! j) \<rho> \<longleftrightarrow> sat_all ts (fr ! j) \<rho> \<and> (J j \<longrightarrow> sat_cl ts c \<rho>)" if "j < length fr" for j
      using upd [OF that] by (auto simp: sat_insert_clause)
    have below: "m \<le> i" if "m \<le> j" "J j" for j using J(2) [OF that(2)] that(1) by simp
    have "frame_at ts fr' m \<rho> \<longleftrightarrow> (\<forall>j. m \<le> j \<and> j < length fr \<longrightarrow> sat_all ts (fr ! j) \<rho> \<and> (J j \<longrightarrow> sat_cl ts c \<rho>))"
      using False at len by (auto simp: frame_at_sat_all)
    also have "\<dots> \<longleftrightarrow> frame_at ts fr m \<rho> \<and> (m \<le> i \<longrightarrow> sat_cl ts c \<rho>)"
      using False i J(1) below by (auto simp: frame_at_sat_all)
    finally show ?thesis using False by simp
  qed (simp add: frame_at_def)
qed

lemma sound_strengthened:
  assumes s: "sound ts fr" and st: "strengthened ts c i fr fr'"
    and init: "\<And>\<rho>. is_init ts \<rho> \<Longrightarrow> sat_cl ts c \<rho>"
    and ind: "\<And>\<rho> \<rho>'. frame_at ts fr (i - 1) \<rho> \<Longrightarrow> sat_cl ts c \<rho> \<Longrightarrow> step ts \<rho> \<rho>' \<Longrightarrow> sat_cl ts c \<rho>'"
  shows "sound ts fr'"
  unfolding sound_def
proof (intro conjI allI impI)
  show "2 \<le> length fr'" using s st by (simp add: sound_def strengthened_def)
  show "frame_at ts fr' 1 \<rho>" if "is_init ts \<rho>" for \<rho>
    using st init [OF that] sound_init [OF s that] by (simp add: strengthened_def)
  fix j \<rho> \<rho>' assume j: "Suc j < length fr' \<and> frame_at ts fr' j \<rho> \<and> step ts \<rho> \<rho>'"
  then have f: "frame_at ts fr j \<rho>" "Suc j < length fr" "step ts \<rho> \<rho>'"
    using strengthenedD [OF st] st by (auto simp: strengthened_def)
  then have "frame_at ts fr (Suc j) \<rho>'" using s unfolding sound_def by blast
  moreover have "sat_cl ts c \<rho>'" if ji: "Suc j \<le> i"
  proof (cases "j = 0")
    case True
    then have i0: "is_init ts \<rho>" using f(1) by (simp add: frame_at_def)
    show ?thesis by (rule ind [OF sound_init [OF s i0] init [OF i0] f(3)])
  next
    case False
    then have "frame_at ts fr (i - 1) \<rho>" using frame_mono [of j "i - 1" ts fr \<rho>] f(1) ji by simp
    moreover have "sat_cl ts c \<rho>" using st j False ji unfolding strengthened_def by auto
    ultimately show ?thesis using ind f(3) by blast
  qed
  ultimately show "frame_at ts fr' (Suc j) \<rho>'" using st by (simp add: strengthened_def)
qed

lemma finite_insert_clause: "finite F \<Longrightarrow> finite (insert_clause c F)"
  by (simp add: insert_clause_def)

lemma frames_wf_upd:
  assumes "frames_wf ts fr" "cube_wf ts c" "length fr' = length fr"
    "\<And>j. j < length fr \<Longrightarrow> fr' ! j = (if J j then insert_clause c (fr ! j) else fr ! j)"
  shows "frames_wf ts fr'"
  unfolding frames_wf_def
proof
  fix F assume "F \<in> set fr'"
  then obtain j where j: "j < length fr" "F = fr' ! j" using assms(3) by (auto simp: in_set_conv_nth)
  have "finite (fr ! j)" "\<forall>cl \<in> fr ! j. cube_wf ts cl" using assms(1) nth_mem [OF j(1)] by (auto simp: frames_wf_def)
  then show "finite F \<and> (\<forall>cl \<in> F. cube_wf ts cl)"
    using assms(2,4) j by (auto simp: insert_clause_def)
qed

lemma add_blocked_ok:
  assumes "i < length (frames e)" "1 \<le> i" "frames_wf ts (frames e)" "cube_wf ts c"
  shows "\<exists>e'. add_blocked c i e = Some e' \<and> strengthened ts c i (frames e) (frames e') \<and>
    frames_wf ts (frames e') \<and> sups e' = sups e"
proof -
  let ?fr = "map (\<lambda>j. if 1 \<le> j \<and> j \<le> i then insert_clause c (frames e ! j) else frames e ! j) [0..<length (frames e)]"
  have upd: "?fr ! j = (if 1 \<le> j \<and> j \<le> i then insert_clause c (frames e ! j) else frames e ! j)"
    if "j < length (frames e)" for j using that by simp
  have "strengthened ts c i (frames e) ?fr"
    by (rule strengthened_upd [OF _ assms(1) upd]) (use assms(2) in auto)
  moreover have "frames_wf ts ?fr" by (rule frames_wf_upd [OF assms(3,4) _ upd]) auto
  ultimately show ?thesis using assms(1) by (simp add: add_blocked_def)
qed

subsection \<open>Obligations\<close>

definition doomed :: "trans_system \<Rightarrow> cube \<Rightarrow> bool" where
  "doomed ts s \<longleftrightarrow> (\<forall>\<rho>. in_cube ts s \<rho> \<longrightarrow>
     (\<exists>d \<sigma>. (\<forall>n \<in> set (ts_state ts). \<sigma> 0 n = \<rho> n) \<and> run ts d \<sigma> \<and> is_bad ts (\<sigma> d)))"

definition unreach :: "trans_system \<Rightarrow> nat \<Rightarrow> cube \<Rightarrow> bool" where
  "unreach ts i s \<longleftrightarrow> (\<forall>m < i. \<forall>\<rho>. is_init ts (\<rho> 0) \<and> run ts m \<rho> \<longrightarrow> \<not> in_cube ts s (\<rho> m))"

text \<open>The valuation \<open>\<rho>\<close> with the inputs of \<open>\<rho>0\<close>.\<close>

definition with_inputs :: "trans_system \<Rightarrow> (string \<Rightarrow> bool) \<Rightarrow> (string \<Rightarrow> bool) \<Rightarrow> string \<Rightarrow> bool" where
  "with_inputs ts \<rho>0 \<rho> x = (if x \<in> set (ts_inputs ts) then \<rho>0 x else \<rho> x)"

lemma with_inputs:
  assumes "wf_ts P ts"
  shows "n \<in> set (ts_state ts) \<Longrightarrow> with_inputs ts \<rho>0 \<rho> n = \<rho> n" "agree_in ts \<rho>0 (with_inputs ts \<rho>0 \<rho>)"
  using assms by (auto simp: with_inputs_def agree_in_def wf_ts_def)

lemma init_state_cong: "\<forall>n \<in> set (ts_state ts). \<rho> n = \<rho>' n \<Longrightarrow> is_init ts \<rho> = is_init ts \<rho>'"
  by (simp add: is_init_def)

text \<open>\<open>p\<close> leads into \<open>s\<close> under the inputs of \<open>\<rho>0\<close>.\<close>

definition leads :: "trans_system \<Rightarrow> cube \<Rightarrow> cube \<Rightarrow> bool" where
  "leads ts p s \<longleftrightarrow> (\<exists>\<rho>0. \<forall>\<rho>. in_cube ts p \<rho> \<and> agree_in ts \<rho>0 \<rho> \<longrightarrow> (\<forall>l \<in> s. next_at ts \<rho> l))"

lemma leads_step:
  assumes wf: "wf_ts P ts" and p: "cube_wf ts p" and s: "cube_wf ts s" and l: "leads ts p s" and \<rho>: "in_cube ts p \<rho>"
  shows "\<exists>\<rho>1. (\<forall>n \<in> set (ts_state ts). \<rho>1 n = \<rho> n) \<and> (\<forall>\<rho>'. step ts \<rho>1 \<rho>' \<longrightarrow> in_cube ts s \<rho>')"
proof -
  obtain \<rho>0 where \<rho>0: "\<forall>\<rho>. in_cube ts p \<rho> \<and> agree_in ts \<rho>0 \<rho> \<longrightarrow> (\<forall>l \<in> s. next_at ts \<rho> l)"
    using l by (auto simp: leads_def)
  let ?\<rho> = "with_inputs ts \<rho>0 \<rho>"
  note wi = with_inputs [OF wf]
  have "in_cube ts p ?\<rho>" using \<rho> in_cube_cong [OF p] wi(1) by metis
  then have n: "\<forall>l \<in> s. next_at ts ?\<rho> l" using \<rho>0 wi(2) by blast
  have "in_cube ts s \<rho>'" if "step ts ?\<rho> \<rho>'" for \<rho>'
    unfolding in_cube_def
  proof
    fix l assume "l \<in> s"
    moreover have "in_range ts l" using s \<open>l \<in> s\<close> by (simp add: cube_wf_def)
    ultimately show "lit_at ts \<rho>' l" using n next_at_step [OF _ wf that] by blast
  qed
  then show ?thesis using wi(1) by blast
qed

lemma doomed_leads:
  assumes wf: "wf_ts P ts" and p: "cube_wf ts p" and s: "cube_wf ts s" and l: "leads ts p s" and d: "doomed ts s"
  shows "doomed ts p"
  unfolding doomed_def
proof (intro allI impI)
  fix \<rho> assume "in_cube ts p \<rho>"
  then obtain \<rho>1 where \<rho>1: "\<forall>n \<in> set (ts_state ts). \<rho>1 n = \<rho> n" "\<forall>\<rho>'. step ts \<rho>1 \<rho>' \<longrightarrow> in_cube ts s \<rho>'"
    using leads_step [OF wf p s l] by blast
  then have "in_cube ts s (succ_of ts \<rho>1)" using step_succ_of by blast
  then obtain d \<sigma> where \<sigma>: "\<forall>n \<in> set (ts_state ts). \<sigma> 0 n = succ_of ts \<rho>1 n" "run ts d \<sigma>" "is_bad ts (\<sigma> d)"
    using d unfolding doomed_def by blast
  let ?\<tau> = "\<lambda>i. case i of 0 \<Rightarrow> \<rho>1 | Suc j \<Rightarrow> \<sigma> j"
  have "step ts \<rho>1 (\<sigma> 0)" using step_state_cong [OF \<sigma>(1)] step_succ_of by blast
  then have "run ts (Suc d) ?\<tau>" using \<sigma>(2) by (auto simp: run_def split: nat.splits)
  then show "\<exists>d \<sigma>. (\<forall>n \<in> set (ts_state ts). \<sigma> 0 n = \<rho> n) \<and> run ts d \<sigma> \<and> is_bad ts (\<sigma> d)"
    using \<rho>1(1) \<sigma>(3) by (intro exI [of _ "Suc d"] exI [of _ ?\<tau>]) simp
qed

lemma run_cong_upto: "\<forall>j \<le> m. \<rho> j = \<rho>' j \<Longrightarrow> run ts m \<rho> = run ts m \<rho>'"
  by (auto simp: run_def)

lemma unreach_leads:
  assumes wf: "wf_ts P ts" and p: "cube_wf ts p" and s: "cube_wf ts s" and l: "leads ts p s" and u: "unreach ts i s"
  shows "unreach ts (i - 1) p"
  unfolding unreach_def
proof (intro allI impI notI)
  fix m \<rho> assume m: "m < i - 1" and r: "is_init ts (\<rho> 0) \<and> run ts m \<rho>" and c: "in_cube ts p (\<rho> m)"
  obtain \<rho>1 where \<rho>1: "\<forall>n \<in> set (ts_state ts). \<rho>1 n = \<rho> m n" "\<forall>\<rho>'. step ts \<rho>1 \<rho>' \<longrightarrow> in_cube ts s \<rho>'"
    using leads_step [OF wf p s l c] by blast
  let ?\<sigma> = "\<lambda>j. if j < m then \<rho> j else if j = m then \<rho>1 else succ_of ts \<rho>1"
  have "run ts (Suc m) ?\<sigma>"
    unfolding run_def
  proof (intro allI impI)
    fix j assume j: "j < Suc m"
    show "step ts (?\<sigma> j) (?\<sigma> (Suc j))"
    proof (cases "j = m")
      case True
      then show ?thesis using step_succ_of by simp
    next
      case False
      then have "step ts (\<rho> j) (\<rho> (Suc j))" using j r by (simp add: run_def)
      then show ?thesis using False j \<rho>1(1) step_state_cong [of ts \<rho>1 "\<rho> m" "\<rho> j"] by (cases "Suc j = m") auto
    qed
  qed
  moreover have "is_init ts (?\<sigma> 0)"
    using r \<rho>1(1) init_state_cong [of ts \<rho>1 "\<rho> 0"] by (cases "m = 0") auto
  moreover have "in_cube ts s (?\<sigma> (Suc m))" using \<rho>1(2) step_succ_of by simp
  moreover have "Suc m < i" using m by simp
  ultimately show False using u [unfolded unreach_def, rule_format, of "Suc m" ?\<sigma>] by simp
qed

lemma unreach_mono: "unreach ts i s \<Longrightarrow> j \<le> i \<Longrightarrow> unreach ts j s"
  by (simp add: unreach_def)

lemma unreach_blocked:
  assumes "sound ts fr" "1 \<le> i" "i < length fr" "\<And>\<rho>. frame_at ts fr i \<rho> \<Longrightarrow> \<not> in_cube ts s \<rho>"
  shows "unreach ts (Suc i) s"
  unfolding unreach_def
proof (intro allI impI)
  fix m \<rho> assume m: "m < Suc i" and r: "is_init ts (\<rho> 0) \<and> run ts m \<rho>"
  have "frame_at ts fr m (\<rho> m)" using sound_reach [OF assms(1)] r m assms(3) by auto
  moreover from this have "frame_at ts fr i (\<rho> m)"
    using sound_init [OF assms(1)] frame_mono [of m i ts fr "\<rho> m"] m
    by (cases "m = 0") (auto simp: frame_at_def)
  ultimately show "\<not> in_cube ts s (\<rho> m)" using assms(4) by blast
qed

subsection \<open>Generalization\<close>

text \<open>A cube that may be blocked at level \<open>i\<close>.\<close>

definition blockable :: "trans_system \<Rightarrow> cube set list \<Rightarrow> nat \<Rightarrow> cube \<Rightarrow> bool" where
  "blockable ts fr i g \<longleftrightarrow> cube_wf ts g \<and> (\<forall>\<rho>. is_init ts \<rho> \<longrightarrow> \<not> in_cube ts g \<rho>) \<and>
     (\<forall>\<rho>. frame_at ts fr (i - 1) \<rho> \<and> \<not> in_cube ts g \<rho> \<longrightarrow> \<not> (\<forall>l \<in> g. next_at ts \<rho> l))"

lemma generalize_lits_ok:
  assumes wf: "wf_ts P ts" and tr: "traversal_ok tr" and fr: "frames_wf ts fr"
  shows "blockable ts fr i c \<Longrightarrow> \<exists>g. generalize_lits tr ts fr i ls c = Some g \<and> g \<subseteq> c \<and> blockable ts fr i g"
proof (induction ls arbitrary: c)
  case Nil
  then show ?case by simp
next
  case (Cons l ls)
  let ?d = "c - {l}"
  show ?case
  proof (cases "?d = {}")
    case True
    then show ?thesis using Cons by (simp add: Let_def)
  next
    case False
    then have d: "cube_wf ts ?d" using Cons.prems by (auto simp: blockable_def cube_wf_def)
    then have dm: "cube_wf ts (uminus ` ?d)" by simp
    have rng: "\<forall>l \<in> ?d. in_range ts l" using d by (simp add: cube_wf_def)
    obtain b where b: "init_intersects tr ts ?d = Some b" "b \<longleftrightarrow> (\<exists>\<rho>. is_init ts \<rho> \<and> in_cube ts ?d \<rho>)"
      using init_intersects_ok [OF wf tr d] by blast
    have ind: "inductive_rel tr ts fr (uminus ` ?d) (i - 1) =
        Some (\<forall>\<rho>. frame_at ts fr (i - 1) \<rho> \<and> \<not> in_cube ts ?d \<rho> \<longrightarrow> \<not> (\<forall>l \<in> ?d. next_at ts \<rho> l))" (is "_ = Some ?r")
    proof -
      have "(\<exists>l \<in> uminus ` ?d. next_at ts \<rho> l) \<longleftrightarrow> \<not> (\<forall>l \<in> ?d. next_at ts \<rho> l)" for \<rho>
      proof -
        have "next_at ts \<rho> (- l) = (\<not> next_at ts \<rho> l)" if "l \<in> ?d" for l
        proof -
          have "l \<noteq> 0" using that rng in_rangeD(2) by blast
          then show ?thesis by (rule next_at_minus)
        qed
        then show ?thesis by simp
      qed
      then show ?thesis using inductive_rel_ok [OF wf tr fr dm, of "i - 1"] sat_cl_uminus [OF rng] by simp
    qed
    show ?thesis
    proof (cases "\<not> b \<and> ?r")
      case True
      then have "blockable ts fr i ?d" using d b(2) unfolding blockable_def by blast
      from Cons.IH [OF this] show ?thesis using False True b(1) ind by (auto simp: Let_def)
    next
      case F: False
      from Cons.IH [OF Cons.prems] show ?thesis using False F b(1) ind by (auto simp: Let_def)
    qed
  qed
qed

subsection \<open>Blocking an obligation\<close>

interpretation ob: levelled olt fst
  by unfold_locales (auto simp: olt_def)

definition obligation_ok :: "trans_system \<Rightarrow> nat \<Rightarrow> obligation \<Rightarrow> bool" where
  "obligation_ok ts k o' \<longleftrightarrow> fst o' \<le> k \<and> cube_wf ts (snd o') \<and> doomed ts (snd o') \<and> unreach ts (fst o') (snd o')"

definition engine_ok :: "sig set \<Rightarrow> trans_system \<Rightarrow> nat \<Rightarrow> engine \<Rightarrow> bool" where
  "engine_ok P ts k e \<longleftrightarrow> sound ts (frames e) \<and> frames_wf ts (frames e) \<and> cache_ok P e \<and> length (frames e) = Suc k"

definition tighter :: "trans_system \<Rightarrow> nat \<Rightarrow> cube set list \<Rightarrow> cube set list \<Rightarrow> bool" where
  "tighter ts k fr fr' \<longleftrightarrow> (\<forall>i \<le> k. \<forall>\<rho>. frame_at ts fr' i \<rho> \<longrightarrow> frame_at ts fr i \<rho>)"

definition blocking :: "sig set \<Rightarrow> trans_system \<Rightarrow> nat \<Rightarrow> engine \<Rightarrow> cube \<Rightarrow> obligation list \<times> engine \<Rightarrow> bool" where
  "blocking P ts k e0 bad = (\<lambda>(Q, e). engine_ok P ts k e \<and> tighter ts k (frames e0) (frames e) \<and> ob.heap_ok Q \<and>
     (\<forall>o' \<in> set Q. obligation_ok ts k o') \<and>
     ((k, bad) \<in> set Q \<or> (\<forall>\<rho>. frame_at ts (frames e) k \<rho> \<longrightarrow> \<not> in_cube ts bad \<rho>)))"

text \<open>The states left in the frames, counted as sets of true bits.\<close>

definition val_of :: "trans_system \<Rightarrow> nat set \<Rightarrow> string \<Rightarrow> bool" where
  "val_of ts X n \<longleftrightarrow> (\<exists>j \<in> X. j < length (ts_state ts) \<and> ts_state ts ! j = n)"

definition left :: "trans_system \<Rightarrow> cube set list \<Rightarrow> nat \<Rightarrow> nat set set" where
  "left ts fr i = {X. X \<subseteq> {..<length (ts_state ts)} \<and> frame_at ts fr i (val_of ts X)}"

definition mass :: "trans_system \<Rightarrow> nat \<Rightarrow> cube set list \<Rightarrow> nat" where
  "mass ts k fr = (\<Sum>i \<in> {1..k}. card (left ts fr i))"

lemma finite_left: "finite (left ts fr i)"
  by (rule finite_subset [of _ "Pow {..<length (ts_state ts)}"]) (auto simp: left_def)

lemma left_mono: "tighter ts k fr fr' \<Longrightarrow> i \<le> k \<Longrightarrow> left ts fr' i \<subseteq> left ts fr i"
  by (auto simp: left_def tighter_def)

lemma mass_mono: "tighter ts k fr fr' \<Longrightarrow> mass ts k fr' \<le> mass ts k fr"
  unfolding mass_def by (intro sum_mono card_mono finite_left left_mono) auto

lemma mass_less:
  assumes t: "tighter ts k fr fr'" and i: "1 \<le> i" "i \<le> k" and d: "distinct (ts_state ts)"
    and w: "frames_wf ts fr" "frames_wf ts fr'" "frame_at ts fr i \<rho>" "\<not> frame_at ts fr' i \<rho>"
  shows "mass ts k fr' < mass ts k fr"
proof -
  let ?X = "{j. j < length (ts_state ts) \<and> \<rho> (ts_state ts ! j)}"
  have X: "\<forall>n \<in> set (ts_state ts). \<rho> n = val_of ts ?X n"
  proof
    fix n assume "n \<in> set (ts_state ts)"
    then obtain j where j: "j < length (ts_state ts)" "ts_state ts ! j = n" by (auto simp: in_set_conv_nth)
    show "\<rho> n = val_of ts ?X n"
      unfolding val_of_def using j d by (auto simp: nth_eq_iff_index_eq)
  qed
  have "?X \<in> left ts fr i" "?X \<notin> left ts fr' i"
    using w(3,4) frame_at_cong [OF w(1) X] frame_at_cong [OF w(2) X] by (auto simp: left_def)
  then have "left ts fr' i \<subset> left ts fr i" using left_mono [OF t i(2)] by blast
  then have "card (left ts fr' i) < card (left ts fr i)" by (intro psubset_card_mono finite_left)
  moreover have "card (left ts fr' j) \<le> card (left ts fr j)" if "j \<in> {1..k}" for j
    using that by (intro card_mono finite_left left_mono [OF t]) auto
  ultimately show ?thesis
    unfolding mass_def using i by (intro sum_strict_mono_ex1) auto
qed

definition debt :: "nat \<Rightarrow> obligation list \<Rightarrow> nat" where
  "debt k Q = (\<Sum>o' \<in># mset Q. Suc k - fst o')"

text \<open>The lowest obligation is the only one of its level and contains a state of its frame.\<close>

definition descending :: "trans_system \<Rightarrow> obligation list \<Rightarrow> cube set list \<Rightarrow> bool" where
  "descending ts Q fr \<longleftrightarrow> (\<exists>i s. (i, s) \<in> set Q \<and> count (image_mset fst (mset Q)) i = 1 \<and>
     (\<forall>o' \<in> set Q. i \<le> fst o') \<and> (\<exists>\<rho>. frame_at ts fr i \<rho> \<and> in_cube ts s \<rho>))"

definition mes :: "trans_system \<Rightarrow> nat \<Rightarrow> obligation list \<times> engine \<Rightarrow> nat \<times> nat \<times> nat" where
  "mes ts k = (\<lambda>(Q, e). (mass ts k (frames e),
     if descending ts Q (frames e) then (0, Min (fst ` set Q)) else (1, debt k Q)))"

definition mes_rel :: "((nat \<times> nat \<times> nat) \<times> (nat \<times> nat \<times> nat)) set" where
  "mes_rel = less_than <*lex*> less_than <*lex*> less_than"

lemma wf_mes: "wf (inv_image mes_rel f)"
  unfolding mes_rel_def by (intro wf_inv_image wf_lex_prod wf_less_than)

lemma popped_live:
  assumes "descending ts Q fr" "heappop olt Q = Some ((i, s), Q')" "ob.heap_ok Q"
  shows "\<exists>\<rho>. frame_at ts fr i \<rho> \<and> in_cube ts s \<rho>" "Min (fst ` set Q) = i"
proof -
  have m: "mset Q = add_mset (i, s) (mset Q')" by (rule mset_heappop [OF assms(2)])
  then have iQ: "(i, s) \<in> set Q" by (metis set_mset_mset union_single_eq_member)
  have least: "\<forall>y \<in> set Q. i \<le> fst y" using ob.pop_ok(2) [OF assms(3,2)] by simp
  obtain j t where j: "(j, t) \<in> set Q" "count (image_mset fst (mset Q)) j = 1" "\<forall>o' \<in> set Q. j \<le> fst o'"
    "\<exists>\<rho>. frame_at ts fr j \<rho> \<and> in_cube ts t \<rho>"
    using assms(1) by (auto simp: descending_def)
  have ji: "j = i" using j(1,3) least iQ by fastforce
  have "(j, t) = (i, s)"
  proof (rule ccontr)
    assume "(j, t) \<noteq> (i, s)"
    moreover have "(i, t) \<in># add_mset (i, s) (mset Q')" using j(1) ji unfolding m [symmetric] by simp
    ultimately have "(i, t) \<in># mset Q'" using ji by auto
    then have "i \<in># image_mset fst (mset Q')" by force
    then show False using j(2) m ji by (simp add: count_eq_zero_iff)
  qed
  then show "\<exists>\<rho>. frame_at ts fr i \<rho> \<and> in_cube ts s \<rho>" using j(4) by simp
  show "Min (fst ` set Q) = i"
    using least iQ by (intro Min_eqI) force+
qed

text \<open>Removing the popped obligation, or moving it one level up, pays the debt.\<close>

lemma mes_pop:
  assumes pop: "heappop olt Q = Some ((i, s), Q1)" and hp: "ob.heap_ok Q" and ik: "i \<le> k"
    and Q': "Q' = Q1 \<or> Q' = heappush olt Q1 (Suc i, s)"
    and le: "mass ts k fr' \<le> mass ts k fr"
    and less: "descending ts Q fr \<Longrightarrow> mass ts k fr' < mass ts k fr"
    and e: "frames e = fr" "frames e' = fr'"
  shows "(mes ts k (Q', e'), mes ts k (Q, e)) \<in> mes_rel"
proof (cases "mass ts k fr' < mass ts k fr")
  case True
  then show ?thesis using e by (simp add: mes_def mes_rel_def)
next
  case False
  then have eq: "mass ts k fr' = mass ts k fr" and nd: "\<not> descending ts Q fr" using le less by auto
  have m: "mset Q = add_mset (i, s) (mset Q1)" by (rule mset_heappop [OF pop])
  have "debt k Q' < debt k Q"
    using Q' ik unfolding debt_def m by (auto simp: mset_heappush)
  then show ?thesis using eq nd e by (simp add: mes_def mes_rel_def)
qed

text \<open>A predecessor is the new, live minimum.\<close>

lemma mes_pred:
  assumes pop: "heappop olt Q = Some ((i, s), Q1)" and hp: "ob.heap_ok Q" and i: "1 \<le> i"
    and live: "frame_at ts fr (i - 1) \<rho>" "in_cube ts p \<rho>" and e: "frames e = fr" "frames e' = fr"
  shows "(mes ts k (heappush olt (heappush olt Q1 (i - 1, p)) (i, s), e'), mes ts k (Q, e)) \<in> mes_rel"
proof -
  let ?Q = "heappush olt (heappush olt Q1 (i - 1, p)) (i, s)"
  have m: "mset Q = add_mset (i, s) (mset Q1)" by (rule mset_heappop [OF pop])
  have m': "mset ?Q = add_mset (i - 1, p) (mset Q)" by (simp add: m mset_heappush add_mset_commute)
  have set': "set ?Q = insert (i - 1, p) (set Q)" using m' by (metis set_mset_add_mset_insert set_mset_mset)
  have least: "\<forall>y \<in> set Q. i \<le> fst y" using ob.pop_ok(2) [OF hp pop] by simp
  have "i - 1 \<notin># image_mset fst (mset Q)"
  proof
    assume "i - 1 \<in># image_mset fst (mset Q)"
    then obtain y where "y \<in> set Q" "fst y = i - 1" by auto
    then show False using least i by force
  qed
  then have "count (image_mset fst (mset Q)) (i - 1) = 0" by (simp only: count_eq_zero_iff not_False_eq_True)
  then have "count (image_mset fst (mset ?Q)) (i - 1) = 1" unfolding m' by simp
  moreover have "\<forall>o' \<in> set ?Q. i - 1 \<le> fst o'" using least unfolding set' by fastforce
  ultimately have d: "descending ts ?Q fr" using live set' unfolding descending_def by blast
  have min: "Min (fst ` set ?Q) = i - 1"
  proof (rule Min_eqI)
    show "i - 1 \<le> y" if "y \<in> fst ` set ?Q" for y using that least unfolding set' by fastforce
    show "i - 1 \<in> fst ` set ?Q" unfolding set' by force
  qed simp
  show ?thesis
  proof (cases "descending ts Q fr")
    case True
    then have "Min (fst ` set Q) = i" using popped_live(2) [OF _ pop hp] by blast
    then show ?thesis using True d min i e by (simp add: mes_def mes_rel_def)
  next
    case False
    then show ?thesis using d e by (simp add: mes_def mes_rel_def)
  qed
qed

definition blocked :: "sig set \<Rightarrow> trans_system \<Rightarrow> nat \<Rightarrow> engine \<Rightarrow> cube \<Rightarrow> bool \<times> engine \<Rightarrow> bool" where
  "blocked P ts k e0 bad = (\<lambda>(ok, e).
     if ok then engine_ok P ts k e \<and> tighter ts k (frames e0) (frames e) \<and>
       (\<forall>\<rho>. frame_at ts (frames e) k \<rho> \<longrightarrow> \<not> in_cube ts bad \<rho>)
     else \<exists>d \<rho>. cex ts d \<rho>)"

lemma doomed_cex:
  assumes "doomed ts s" "is_init ts \<rho>" "in_cube ts s \<rho>"
  shows "\<exists>d \<rho>. cex ts d \<rho>"
proof -
  obtain d \<sigma> where \<sigma>: "\<forall>n \<in> set (ts_state ts). \<sigma> 0 n = \<rho> n" "run ts d \<sigma>" "is_bad ts (\<sigma> d)"
    using assms(1,3) unfolding doomed_def by blast
  then have "is_init ts (\<sigma> 0)" using assms(2) init_state_cong by blast
  then show ?thesis using \<sigma> unfolding cex_def by blast
qed

lemma tighter_trans: "tighter ts k a b \<Longrightarrow> tighter ts k b c \<Longrightarrow> tighter ts k a c"
  by (simp add: tighter_def)

lemma set_heappush: "set (heappush lt Q x) = insert x (set Q)"
  using mset_heappush [of lt Q x] by (metis set_mset_add_mset_insert set_mset_mset)

lemma set_heappop: "heappop lt Q = Some (x, Q') \<Longrightarrow> set Q = insert x (set Q')"
  using mset_heappop [of lt Q x Q'] by (metis set_mset_add_mset_insert set_mset_mset)

lemma strengthened_tighter: "strengthened ts c i fr fr' \<Longrightarrow> tighter ts k fr fr'"
  by (simp add: tighter_def strengthened_def)

text \<open>No predecessor: the generalized cube is blocked up to level \<open>i\<close>.\<close>

lemma block_none:
  assumes wf: "wf_ts P ts" and tr: "traversal_ok tr" and e: "engine_ok P ts k e" and i: "1 \<le> i" "i \<le> k"
    and s: "cube_wf ts s" "unreach ts i s"
    and np: "\<not> (\<exists>\<rho>. frame_at ts (frames e) (i - 1) \<rho> \<and> \<not> in_cube ts s \<rho> \<and> (\<forall>l \<in> s. next_at ts \<rho> l))"
  shows "\<exists>g e'. generalize tr ts (frames e) s i = Some g \<and> add_blocked (uminus ` g) i e = Some e' \<and>
    engine_ok P ts k e' \<and> tighter ts k (frames e) (frames e') \<and>
    (\<forall>\<rho>. frame_at ts (frames e') i \<rho> \<longrightarrow> \<not> in_cube ts s \<rho>)"
proof -
  have fr: "frames_wf ts (frames e)" "sound ts (frames e)" "length (frames e) = Suc k" and cache: "cache_ok P e"
    using e by (simp_all add: engine_ok_def)
  have noinit: "\<not> in_cube ts s \<rho>" if "is_init ts \<rho>" for \<rho>
    using s(2) [unfolded unreach_def, rule_format, of 0 "\<lambda>_. \<rho>"] that i by (simp add: run_def)
  have "blockable ts (frames e) i s" using s(1) noinit np by (auto simp: blockable_def)
  then obtain g where g: "generalize tr ts (frames e) s i = Some g" "g \<subseteq> s" "blockable ts (frames e) i g"
    using generalize_lits_ok [OF wf tr fr(1)] unfolding generalize_def by blast
  have gw: "cube_wf ts g" using g(3) by (simp add: blockable_def)
  then have rng: "\<forall>l \<in> g. in_range ts l" by (simp add: cube_wf_def)
  note sc = sat_cl_uminus [OF rng]
  obtain e' where e': "add_blocked (uminus ` g) i e = Some e'" "strengthened ts (uminus ` g) i (frames e) (frames e')"
    "frames_wf ts (frames e')" "sups e' = sups e"
    using add_blocked_ok [of i e ts "uminus ` g"] fr i gw by auto
  have "sound ts (frames e')"
  proof (rule sound_strengthened [OF fr(2) e'(2)])
    show "sat_cl ts (uminus ` g) \<rho>" if "is_init ts \<rho>" for \<rho> using g(3) that sc by (simp add: blockable_def)
    fix \<rho> \<rho>' assume a: "frame_at ts (frames e) (i - 1) \<rho>" "sat_cl ts (uminus ` g) \<rho>" "step ts \<rho> \<rho>'"
    then have "\<not> (\<forall>l \<in> g. next_at ts \<rho> l)" using g(3) sc by (auto simp: blockable_def)
    then have "\<not> in_cube ts g \<rho>'" using next_at_step [OF _ wf a(3)] rng by (auto simp: in_cube_def)
    then show "sat_cl ts (uminus ` g) \<rho>'" using sc by simp
  qed
  then have "engine_ok P ts k e'" using e'(2-4) fr(3) cache by (simp add: engine_ok_def cache_ok_def strengthened_def)
  moreover have "\<not> in_cube ts s \<rho>" if "frame_at ts (frames e') i \<rho>" for \<rho>
  proof
    assume "in_cube ts s \<rho>"
    then have "in_cube ts g \<rho>" using g(2) by (auto simp: in_cube_def)
    then show False using that e'(2) i sc by (simp add: strengthened_def)
  qed
  ultimately show ?thesis using g(1) e'(1) strengthened_tighter [OF e'(2)] by blast
qed

lemma block_step:
  assumes wf: "wf_ts P ts" and tr: "traversal_ok tr" and bl: "blocking P ts k e0 bad (Q, e)"
  shows "\<exists>x. block_body tr ts (Q, e) = Some x \<and> (case x of Inl r \<Rightarrow> blocked P ts k e0 bad r
    | Inr st' \<Rightarrow> blocking P ts k e0 bad st' \<and> (st', (Q, e)) \<in> inv_image mes_rel (mes ts k))"
proof (cases "Q = []")
  case True
  then show ?thesis using bl by (auto simp: block_body_def blocking_def blocked_def)
next
  case False
  have ok: "engine_ok P ts k e" and tg: "tighter ts k (frames e0) (frames e)" and hp: "ob.heap_ok Q"
    and obs: "\<forall>o' \<in> set Q. obligation_ok ts k o'"
    and bd: "(k, bad) \<in> set Q \<or> (\<forall>\<rho>. frame_at ts (frames e) k \<rho> \<longrightarrow> \<not> in_cube ts bad \<rho>)"
    using bl by (simp_all add: blocking_def)
  have fr: "frames_wf ts (frames e)" "sound ts (frames e)" "length (frames e) = Suc k" and cache: "cache_ok P e"
    using ok by (simp_all add: engine_ok_def)
  have d: "distinct (ts_state ts)" using wf by (simp add: wf_ts_def)
  obtain i s Q1 where pop: "heappop olt Q = Some ((i, s), Q1)" using heappop_total [OF False, of olt] by auto
  have setQ: "set Q = insert (i, s) (set Q1)" by (rule set_heappop [OF pop])
  have hp1: "ob.heap_ok Q1" by (rule ob.pop_ok(1) [OF hp pop])
  have o_is: "i \<le> k" "cube_wf ts s" "doomed ts s" "unreach ts i s"
    using obs setQ by (auto simp: obligation_ok_def)
  show ?thesis
  proof (cases "i = 0")
    case True
    obtain b where b: "init_intersects tr ts s = Some b" "b \<longleftrightarrow> (\<exists>\<rho>. is_init ts \<rho> \<and> in_cube ts s \<rho>)"
      using init_intersects_ok [OF wf tr o_is(2)] by blast
    show ?thesis
    proof (cases b)
      case b': True
      then have "\<exists>d \<rho>. cex ts d \<rho>" using doomed_cex [OF o_is(3)] b(2) by blast
      then show ?thesis using False pop True b(1) b' by (simp add: block_body_def blocked_def)
    next
      case b': False
      have bd1: "(k, bad) \<in> set Q1 \<or> (\<forall>\<rho>. frame_at ts (frames e) k \<rho> \<longrightarrow> \<not> in_cube ts bad \<rho>)"
        using bd setQ True b b' by (auto simp: frame_at_def)
      have "\<not> descending ts Q (frames e)"
        using popped_live(1) [OF _ pop hp] True b b' by (auto simp: frame_at_def)
      then have "(mes ts k (Q1, e), mes ts k (Q, e)) \<in> mes_rel"
        by (intro mes_pop [OF pop hp o_is(1)]) auto
      moreover have "blocking P ts k e0 bad (Q1, e)"
        using ok tg hp1 obs setQ bd1 by (simp add: blocking_def)
      ultimately show ?thesis using False pop True b(1) b' by (simp add: block_body_def)
    qed
  next
    case i0: False
    then have i1: "1 \<le> i" by simp
    obtain r e1 where p: "predecessor tr ts s (i - 1) e = Some (r, e1)" "cache_ok P e1" "same_frames e e1"
      "case r of None \<Rightarrow> \<not> (\<exists>\<rho>. frame_at ts (frames e) (i - 1) \<rho> \<and> \<not> in_cube ts s \<rho> \<and> (\<forall>l \<in> s. next_at ts \<rho> l))
       | Some p \<Rightarrow> cube_wf ts p \<and> (\<exists>\<rho>. frame_at ts (frames e) (i - 1) \<rho> \<and> in_cube ts p \<rho> \<and>
         (\<forall>\<rho>'. in_cube ts p \<rho>' \<and> agree_in ts \<rho> \<rho>' \<longrightarrow> (\<forall>l \<in> s. next_at ts \<rho>' l)))"
      using predecessor_ok [OF wf tr fr(1) cache o_is(2)] by blast
    have fe1: "frames e1 = frames e" using p(3) by (simp add: same_frames_def)
    have ok1: "engine_ok P ts k e1" using ok p(2) fe1 by (simp add: engine_ok_def)
    show ?thesis
    proof (cases r)
      case None
      have np: "\<not> (\<exists>\<rho>. frame_at ts (frames e1) (i - 1) \<rho> \<and> \<not> in_cube ts s \<rho> \<and> (\<forall>l \<in> s. next_at ts \<rho> l))"
        using p(4) None fe1 by simp
      obtain g e2 where g: "generalize tr ts (frames e1) s i = Some g" "add_blocked (uminus ` g) i e1 = Some e2"
        "engine_ok P ts k e2" "tighter ts k (frames e1) (frames e2)"
        "\<forall>\<rho>. frame_at ts (frames e2) i \<rho> \<longrightarrow> \<not> in_cube ts s \<rho>"
        using block_none [OF wf tr ok1 i1 o_is(1,2,4) np] by blast
      have fr2: "frames_wf ts (frames e2)" "sound ts (frames e2)" "length (frames e2) = Suc k"
        using g(3) by (simp_all add: engine_ok_def)
      let ?Q = "if i < length (frames e2) - 1 then heappush olt Q1 (i + 1, s) else Q1"
      have tg2: "tighter ts k (frames e) (frames e2)" using g(4) fe1 by simp
      have less: "mass ts k (frames e2) < mass ts k (frames e)" if ds: "descending ts Q (frames e)"
      proof -
        obtain \<rho> where "frame_at ts (frames e) i \<rho>" "in_cube ts s \<rho>" using popped_live(1) [OF ds pop hp] by blast
        then show ?thesis using mass_less [OF tg2 i1 o_is(1) d fr(1) fr2(1)] g(5) by blast
      qed
      have m: "(mes ts k (?Q, e2), mes ts k (Q, e)) \<in> mes_rel"
        by (rule mes_pop [OF pop hp o_is(1) _ mass_mono [OF tg2] less refl refl]) auto
      have hpQ: "ob.heap_ok ?Q" using hp1 ob.push_ok by simp
      have sub: "set ?Q \<subseteq> insert (i + 1, s) (set Q1)" "set Q1 \<subseteq> set ?Q" by (auto simp: set_heappush)
      have new: "obligation_ok ts k (i + 1, s)" if "i < length (frames e2) - 1"
        using that fr2(3) o_is(2,3) unreach_blocked [OF fr2(2) i1 _ g(5) [rule_format]]
        by (simp add: obligation_ok_def)
      have obs': "\<forall>o' \<in> set ?Q. obligation_ok ts k o'"
        using obs setQ new by (auto simp: set_heappush)
      have bd': "(k, bad) \<in> set ?Q \<or> (\<forall>\<rho>. frame_at ts (frames e2) k \<rho> \<longrightarrow> \<not> in_cube ts bad \<rho>)"
      proof -
        have "(\<forall>\<rho>. frame_at ts (frames e2) k \<rho> \<longrightarrow> \<not> in_cube ts bad \<rho>)"
          if "(k, bad) = (i, s) \<or> (\<forall>\<rho>. frame_at ts (frames e) k \<rho> \<longrightarrow> \<not> in_cube ts bad \<rho>)"
          using that g(5) tg2 by (auto simp: tighter_def)
        then show ?thesis using bd setQ sub(2) by blast
      qed
      have "blocking P ts k e0 bad (?Q, e2)"
        using g(3) tighter_trans [OF tg tg2] hpQ obs' bd' by (simp add: blocking_def)
      moreover have "block_body tr ts (Q, e) = Some (Inr (?Q, e2))"
        using False pop i0 p(1) None g(1,2) by (simp add: block_body_def)
      ultimately show ?thesis using m by simp
    next
      case (Some pc)
      then have pw: "cube_wf ts pc" using p(4) by simp
      obtain \<rho> where \<rho>: "frame_at ts (frames e) (i - 1) \<rho>" "in_cube ts pc \<rho>"
        "\<forall>\<rho>'. in_cube ts pc \<rho>' \<and> agree_in ts \<rho> \<rho>' \<longrightarrow> (\<forall>l \<in> s. next_at ts \<rho>' l)"
        using p(4) Some by auto
      have ld: "leads ts pc s" using \<rho>(3) by (auto simp: leads_def)
      let ?Q = "heappush olt (heappush olt Q1 (i - 1, pc)) (i, s)"
      have new: "obligation_ok ts k (i - 1, pc)"
        using pw o_is doomed_leads [OF wf pw o_is(2) ld] unreach_leads [OF wf pw o_is(2) ld]
        by (simp add: obligation_ok_def)
      have setQ': "set ?Q = insert (i, s) (insert (i - 1, pc) (set Q1))" by (simp add: set_heappush)
      have "blocking P ts k e0 bad (?Q, e1)"
        using ok1 tg fe1 hp1 ob.push_ok obs new bd unfolding blocking_def prod.case setQ' setQ by auto
      moreover have "(mes ts k (?Q, e1), mes ts k (Q, e)) \<in> mes_rel"
        by (rule mes_pred [OF pop hp i1 \<rho>(1,2) refl fe1])
      moreover have "block_body tr ts (Q, e) = Some (Inr (?Q, e1))"
        using False pop i0 p(1) Some by (simp add: block_body_def)
      ultimately show ?thesis by simp
    qed
  qed
qed

lemma block_ok:
  assumes wf: "wf_ts P ts" and tr: "traversal_ok tr" and e: "engine_ok P ts k e" and b: "obligation_ok ts k (k, bad)"
  shows "\<exists>r. block tr ts bad k e = Some r \<and> blocked P ts k e bad r"
  unfolding block_def
proof (rule loop_total [where R = "inv_image mes_rel (mes ts k)" and I = "blocking P ts k e bad"])
  show "wf (inv_image mes_rel (mes ts k))" by (rule wf_mes)
  show "blocking P ts k e bad ([(k, bad)], e)"
    using e b by (simp add: blocking_def tighter_def ob.heap_ok_def)
  fix st assume "blocking P ts k e bad st"
  then show "\<exists>x. block_body tr ts st = Some x \<and> (case x of Inl r \<Rightarrow> blocked P ts k e bad r
    | Inr s' \<Rightarrow> blocking P ts k e bad s' \<and> (s', st) \<in> inv_image mes_rel (mes ts k))"
    using block_step [OF wf tr] by (cases st) blast
qed

end
