(* ===== verification/Ic3_Solve.thy ===== *)
theory Ic3_Solve
  imports Ic3_Search
begin

text \<open>
  The outer loop of \<open>ic3.py\<close>: cleaning the frontier, pushing clauses forward, and the fixpoint. The
  result is that \<open>solve\<close> returns on every well-formed system, and that each of its answers is
  right: \<open>SAFE\<close> comes with an inductive invariant.
\<close>

subsection \<open>Cleaning the frontier\<close>

definition no_short :: "trans_system \<Rightarrow> nat \<Rightarrow> bool" where
  "no_short ts k \<longleftrightarrow> (\<forall>m < k. \<forall>\<rho>. \<not> cex ts m \<rho>)"

lemma bad_obligation:
  assumes wf: "wf_ts P ts" and ns: "no_short ts k" and c: "cube_wf ts c"
    and b: "\<forall>\<rho>'. in_cube ts c \<rho>' \<and> agree_in ts \<rho>0 \<rho>' \<longrightarrow> is_bad ts \<rho>'"
  shows "obligation_ok ts k (k, c)"
proof -
  note wi = with_inputs [OF wf, of _ \<rho>0]
  have bad: "is_bad ts (with_inputs ts \<rho>0 \<rho>)" if i: "in_cube ts c \<rho>" for \<rho>
  proof -
    have "in_cube ts c (with_inputs ts \<rho>0 \<rho>)" using i in_cube_cong [OF c, of "with_inputs ts \<rho>0 \<rho>" \<rho>] wi(1) by simp
    then show ?thesis using b with_inputs(2) [OF wf, of \<rho>0 \<rho>] by blast
  qed
  have "doomed ts c"
    unfolding doomed_def
  proof (intro allI impI)
    fix \<rho> assume "in_cube ts c \<rho>"
    then show "\<exists>d \<sigma>. (\<forall>n \<in> set (ts_state ts). \<sigma> 0 n = \<rho> n) \<and> run ts d \<sigma> \<and> is_bad ts (\<sigma> d)"
      using bad wi(1) by (intro exI [of _ 0] exI [of _ "\<lambda>_. with_inputs ts \<rho>0 \<rho>"]) (simp add: run_def)
  qed
  moreover have "unreach ts k c"
    unfolding unreach_def
  proof (intro allI impI notI)
    fix m \<rho> assume m: "m < k" and r: "is_init ts (\<rho> 0) \<and> run ts m \<rho>" and inc: "in_cube ts c (\<rho> m)"
    let ?\<sigma> = "\<lambda>j. if j = m then with_inputs ts \<rho>0 (\<rho> m) else \<rho> j"
    have eq: "step ts (?\<sigma> j) (?\<sigma> (Suc j)) = step ts (\<rho> j) (\<rho> (Suc j))" if "j < m" for j
      using that wi(1) step_state_cong [of ts "with_inputs ts \<rho>0 (\<rho> m)" "\<rho> m" "\<rho> j"] by auto
    have "run ts m ?\<sigma>" using r eq by (auto simp: run_def)
    moreover have "is_init ts (?\<sigma> 0)"
      using r wi(1) init_state_cong [of ts "with_inputs ts \<rho>0 (\<rho> 0)" "\<rho> 0"] by (cases "m = 0") auto
    ultimately have "cex ts m ?\<sigma>" using bad [OF inc] by (simp add: cex_def)
    then show False using ns m unfolding no_short_def by blast
  qed
  ultimately show ?thesis using c by (simp add: obligation_ok_def)
qed

definition clean :: "sig set \<Rightarrow> trans_system \<Rightarrow> nat \<Rightarrow> bool \<times> engine \<Rightarrow> bool" where
  "clean P ts k = (\<lambda>(ok, e). if ok then engine_ok P ts k e \<and> (\<forall>\<rho>. frame_at ts (frames e) k \<rho> \<longrightarrow> \<not> is_bad ts \<rho>)
     else \<exists>d \<rho>. cex ts d \<rho>)"

lemma clean_ok:
  assumes wf: "wf_ts P ts" and tr: "traversal_ok tr" and e: "engine_ok P ts k e" and k: "1 \<le> k" and ns: "no_short ts k"
  shows "\<exists>r. loop (clean_body tr ts k) e = Some r \<and> clean P ts k r"
proof (rule loop_measure [where I = "engine_ok P ts k" and f = "\<lambda>e. mass ts k (frames e)", OF e])
  fix e assume e: "engine_ok P ts k e"
  have fr: "frames_wf ts (frames e)" and cache: "cache_ok P e" using e by (simp_all add: engine_ok_def)
  have d: "distinct (ts_state ts)" using wf by (simp add: wf_ts_def)
  have "\<not> is_bad ts \<rho>" if "ts_state ts = []" for \<rho>
    using ns k that unfolding no_short_def cex_def
    by (auto simp: is_init_def run_def dest!: spec [of _ 0] spec [of _ "\<lambda>_. \<rho>"])
  then have ne: "ts_state ts \<noteq> [] \<or> \<not> (\<exists>\<rho>. frame_at ts (frames e) k \<rho> \<and> is_bad ts \<rho>)" by blast
  obtain r e1 where b: "bad_cube tr ts k e = Some (r, e1)" "cache_ok P e1" "same_frames e e1"
    "case r of None \<Rightarrow> \<not> (\<exists>\<rho>. frame_at ts (frames e) k \<rho> \<and> is_bad ts \<rho>)
     | Some c \<Rightarrow> cube_wf ts c \<and> (\<exists>\<rho>. frame_at ts (frames e) k \<rho> \<and> in_cube ts c \<rho> \<and>
         (\<forall>\<rho>'. in_cube ts c \<rho>' \<and> agree_in ts \<rho> \<rho>' \<longrightarrow> is_bad ts \<rho>'))"
    using bad_cube_ok [OF wf tr fr cache ne] by blast
  have fe1: "frames e1 = frames e" using b(3) by (simp add: same_frames_def)
  have e1: "engine_ok P ts k e1" using e b(2) fe1 by (simp add: engine_ok_def)
  show "\<exists>x. clean_body tr ts k e = Some x \<and> (case x of Inl r \<Rightarrow> clean P ts k r
    | Inr s' \<Rightarrow> engine_ok P ts k s' \<and> mass ts k (frames s') < mass ts k (frames e))"
  proof (cases r)
    case None
    then show ?thesis using b(1,4) e1 fe1 by (simp add: clean_body_def clean_def)
  next
    case (Some c)
    then obtain \<rho> where \<rho>: "cube_wf ts c" "frame_at ts (frames e) k \<rho>" "in_cube ts c \<rho>"
      "\<forall>\<rho>'. in_cube ts c \<rho>' \<and> agree_in ts \<rho> \<rho>' \<longrightarrow> is_bad ts \<rho>'" using b(4) by auto
    obtain ok e2 where bl: "block tr ts c k e1 = Some (ok, e2)" "blocked P ts k e1 c (ok, e2)"
      using block_ok [OF wf tr e1 bad_obligation [OF wf ns \<rho>(1,4)]] by auto
    show ?thesis
    proof (cases ok)
      case True
      then have e2: "engine_ok P ts k e2" "tighter ts k (frames e) (frames e2)" "\<not> frame_at ts (frames e2) k \<rho>"
        using bl(2) \<rho>(3) fe1 by (auto simp: blocked_def)
      have "mass ts k (frames e2) < mass ts k (frames e)"
        using mass_less [OF e2(2) k order_refl d fr _ \<rho>(2) e2(3)] e2(1) by (simp add: engine_ok_def)
      then show ?thesis using b(1) Some bl(1) True e2(1) by (simp add: clean_body_def)
    next
      case False
      then show ?thesis using b(1) Some bl by (simp add: clean_body_def clean_def blocked_def)
    qed
  qed
qed

lemma no_short_Suc:
  assumes "engine_ok P ts k e" "\<forall>\<rho>. frame_at ts (frames e) k \<rho> \<longrightarrow> \<not> is_bad ts \<rho>" "no_short ts k"
  shows "no_short ts (Suc k)"
proof -
  have "\<not> cex ts k \<rho>" for \<rho>
    using sound_reach [of ts "frames e" \<rho> k] assms(1,2) by (auto simp: cex_def engine_ok_def)
  then show ?thesis using assms(3) by (auto simp: no_short_def less_Suc_eq)
qed

subsection \<open>Pushing clauses forward\<close>

lemma frame_at_append [simp]: "frame_at ts (fr @ [{}]) i \<rho> = frame_at ts fr i \<rho>"
  by (auto simp: frame_at_def nth_append less_Suc_eq)

lemma engine_ok_append:
  assumes e: "engine_ok P ts k e"
  shows "engine_ok P ts (Suc k) (e\<lparr>frames := frames e @ [{}]\<rparr>)"
proof -
  have s: "sound ts (frames e)" and len: "length (frames e) = Suc k" using e by (simp_all add: engine_ok_def)
  have "sound ts (frames e @ [{}])"
    unfolding sound_def frame_at_append
  proof (intro conjI allI impI)
    fix i \<rho> \<rho>' assume i: "Suc i < length (frames e @ [{}]) \<and> frame_at ts (frames e) i \<rho> \<and> step ts \<rho> \<rho>'"
    show "frame_at ts (frames e) (Suc i) \<rho>'"
    proof (cases "Suc i < length (frames e)")
      case True
      then show ?thesis using s i unfolding sound_def by blast
    next
      case False
      then show ?thesis by (auto simp: frame_at_def)
    qed
  qed (use s in \<open>auto simp: sound_def\<close>)
  then show ?thesis using e len by (auto simp: engine_ok_def frames_wf_def cache_ok_def)
qed

lemma push_level_ok:
  assumes wf: "wf_ts P ts" and tr: "traversal_ok tr" and i: "1 \<le> i" "i < k"
  shows "engine_ok P ts k e \<Longrightarrow> set cls \<subseteq> frames e ! i \<Longrightarrow>
    \<exists>e'. push_level tr ts i cls e = Some e' \<and> engine_ok P ts k e' \<and> tighter ts k (frames e) (frames e')"
proof (induction cls arbitrary: e)
  case Nil
  then show ?case by (simp add: tighter_def)
next
  case (Cons cl cls)
  have fr: "frames_wf ts (frames e)" "sound ts (frames e)" "length (frames e) = Suc k" and cache: "cache_ok P e"
    using Cons.prems(1) by (simp_all add: engine_ok_def)
  have il: "i < length (frames e)" "Suc i < length (frames e)" using fr(3) i by simp_all
  have cl: "cl \<in> frames e ! i" "set cls \<subseteq> frames e ! i" using Cons.prems(2) by auto
  have cw: "cube_wf ts cl" using fr(1) nth_mem [OF il(1)] cl(1) unfolding frames_wf_def by blast
  show ?case
  proof (cases "cl \<in> frames e ! (i + 1)")
    case True
    then show ?thesis using Cons.IH [OF Cons.prems(1) cl(2)] by simp
  next
    case False
    let ?r = "\<forall>\<rho>. frame_at ts (frames e) i \<rho> \<and> sat_cl ts cl \<rho> \<longrightarrow> (\<exists>l \<in> cl. next_at ts \<rho> l)"
    have ind: "inductive_rel tr ts (frames e) cl i = Some ?r" by (rule inductive_rel_ok [OF wf tr fr(1) cw])
    show ?thesis
    proof (cases ?r)
      case True
      let ?fr = "(frames e)[i + 1 := insert_clause cl (frames e ! (i + 1))]"
      let ?e = "e\<lparr>frames := ?fr\<rparr>"
      have upd: "?fr ! j = (if j = i + 1 then insert_clause cl (frames e ! j) else frames e ! j)"
        if "j < length (frames e)" for j using that by auto
      have len: "length ?fr = length (frames e)" by simp
      have st: "strengthened ts cl (i + 1) (frames e) ?fr"
        by (rule strengthened_upd [OF len _ upd]) (use il in auto)
      have inF: "sat_cl ts cl \<rho>" if "frame_at ts (frames e) i \<rho>" for \<rho>
        using that cl(1) il(1) i(1) by (auto simp: frame_at_def)
      have "sound ts ?fr"
      proof (rule sound_strengthened [OF fr(2) st])
        show "sat_cl ts cl \<rho>" if "is_init ts \<rho>" for \<rho> by (rule inF [OF sound_init [OF fr(2) that]])
        fix \<rho> \<rho>' assume a: "frame_at ts (frames e) (i + 1 - 1) \<rho>" "sat_cl ts cl \<rho>" "step ts \<rho> \<rho>'"
        then obtain l where "l \<in> cl" "next_at ts \<rho> l" using True by auto
        then show "sat_cl ts cl \<rho>'"
          using next_at_step [OF _ wf a(3)] cw unfolding cube_wf_def sat_cl_def by blast
      qed
      moreover have "frames_wf ts ?fr" by (rule frames_wf_upd [OF fr(1) cw len upd])
      ultimately have e': "engine_ok P ts k ?e" using fr(3) cache by (simp add: engine_ok_def cache_ok_def)
      have sub: "set cls \<subseteq> frames ?e ! i" using cl(2) by simp
      obtain e2 where e2: "push_level tr ts i cls ?e = Some e2" "engine_ok P ts k e2" "tighter ts k (frames ?e) (frames e2)"
        using Cons.IH [OF e' sub] by blast
      have "tighter ts k (frames e) (frames e2)"
        using tighter_trans [OF strengthened_tighter [OF st, of k]] e2(3) by simp
      moreover have "push_level tr ts i (cl # cls) e = push_level tr ts i cls ?e" using False ind True by (simp del: fun_upd_apply)
      ultimately show ?thesis using e2(1,2) by simp
    next
      case F: False
      then have "push_level tr ts i (cl # cls) e = push_level tr ts i cls e" using False ind by (simp only: push_level.simps) simp
      then show ?thesis using Cons.IH [OF Cons.prems(1) cl(2)] by simp
    qed
  qed
qed

lemma push_levels_ok:
  assumes wf: "wf_ts P ts" and tr: "traversal_ok tr"
  shows "engine_ok P ts k e \<Longrightarrow> \<forall>i \<in> set is. 1 \<le> i \<and> i < k \<Longrightarrow>
    \<exists>c e'. push_levels tr ts is e = Some (c, e') \<and> engine_ok P ts k e' \<and> tighter ts k (frames e) (frames e') \<and>
      (\<forall>c'. c = Some c' \<longrightarrow> 2 \<le> c' \<and> c' \<le> k \<and> (\<forall>\<rho>. frame_at ts (frames e') c' \<rho> \<longrightarrow> frame_at ts (frames e') (c' - 1) \<rho>))"
proof (induction "is" arbitrary: e)
  case Nil
  then show ?case by (simp add: tighter_def)
next
  case (Cons i "is")
  have i: "1 \<le> i" "i < k" using Cons.prems(2) by simp_all
  have "finite (frames e ! i) \<and> (\<forall>c \<in> frames e ! i. finite c)"
    using Cons.prems(1) i nth_mem [of i "frames e"] by (auto simp: engine_ok_def frames_wf_def cube_wf_def)
  then have "set (of_frame tr (frames e ! i)) \<subseteq> frames e ! i" using tr by (simp add: traversal_ok_def)
  then obtain e1 where e1: "push_level tr ts i (of_frame tr (frames e ! i)) e = Some e1" "engine_ok P ts k e1"
    "tighter ts k (frames e) (frames e1)"
    using push_level_ok [OF wf tr i Cons.prems(1)] by blast
  show ?case
  proof (cases "frames e1 ! i \<noteq> {} \<and> frames e1 ! i \<subseteq> frames e1 ! (i + 1)")
    case True
    have "frame_at ts (frames e1) i \<rho>" if f: "frame_at ts (frames e1) (Suc i) \<rho>" for \<rho>
      unfolding frame_at_sat_all
    proof (simp add: i(1) [THEN less_le_trans [OF zero_less_one, THEN less_imp_neq, symmetric]], intro allI impI)
      fix j assume j: "i \<le> j \<and> j < length (frames e1)"
      have len: "Suc i < length (frames e1)" using e1(2) i by (simp add: engine_ok_def)
      have later: "sat_all ts (frames e1 ! j') \<rho>" if "Suc i \<le> j'" "j' < length (frames e1)" for j'
        using f that by (simp add: frame_at_sat_all)
      show "sat_all ts (frames e1 ! j) \<rho>"
      proof (cases "j = i")
        case eq: True
        have "sat_all ts (frames e1 ! Suc i) \<rho>" by (rule later [OF order_refl len])
        then show ?thesis using True eq by (auto simp: sat_all_def)
      next
        case False
        then show ?thesis using later j by simp
      qed
    qed
    then show ?thesis using e1 True i by (auto simp: )
  next
    case False
    obtain c e2 where e2: "push_levels tr ts is e1 = Some (c, e2)" "engine_ok P ts k e2" "tighter ts k (frames e1) (frames e2)"
      "\<forall>c'. c = Some c' \<longrightarrow> 2 \<le> c' \<and> c' \<le> k \<and> (\<forall>\<rho>. frame_at ts (frames e2) c' \<rho> \<longrightarrow> frame_at ts (frames e2) (c' - 1) \<rho>)"
      using Cons.IH [OF e1(2)] Cons.prems(2) by auto
    then show ?thesis using e1(1) False tighter_trans [OF e1(3) e2(3)] by auto
  qed
qed

subsection \<open>The main loop\<close>

definition inductive_invariant :: "trans_system \<Rightarrow> cube set \<Rightarrow> bool" where
  "inductive_invariant ts iv \<longleftrightarrow> (\<forall>\<rho>. is_init ts \<rho> \<longrightarrow> sat_all ts iv \<rho>) \<and>
     (\<forall>\<rho> \<rho>'. sat_all ts iv \<rho> \<and> step ts \<rho> \<rho>' \<longrightarrow> sat_all ts iv \<rho>') \<and>
     (\<forall>\<rho>. sat_all ts iv \<rho> \<longrightarrow> \<not> is_bad ts \<rho>)"

lemma inductive_invariant_safe: "inductive_invariant ts iv \<Longrightarrow> safe ts"
  unfolding safe_def cex_def run_def inductive_invariant_def
  using reach.inductive_safe [of ts "sat_all ts iv"] by blast

definition ic3_ok :: "trans_system \<Rightarrow> nat \<Rightarrow> ic3_result \<Rightarrow> bool" where
  "ic3_ok ts max_frames r \<longleftrightarrow> (case r of
     UNSAFE_INIT \<Rightarrow> \<exists>\<rho>. cex ts 0 \<rho>
   | UNSAFE k \<Rightarrow> no_short ts k \<and> (\<exists>d \<rho>. cex ts d \<rho>)
   | SAFE k iv \<Rightarrow> inductive_invariant ts iv
   | UNKNOWN m \<Rightarrow> m = max_frames \<and> no_short ts m)"

lemma ic3_body_ok:
  assumes wf: "wf_ts P ts" and tr: "traversal_ok tr" and e: "engine_ok P ts k e" and k: "1 \<le> k" and ns: "no_short ts k"
  shows "\<exists>x. ic3_body tr ts mx e = Some x \<and> (case x of Inl r \<Rightarrow> ic3_ok ts mx (fst r)
    | Inr e' \<Rightarrow> k < mx \<and> engine_ok P ts (Suc k) e' \<and> no_short ts (Suc k))"
proof -
  have len: "length (frames e) - 1 = k" using e by (simp add: engine_ok_def)
  show ?thesis
  proof (cases "k < mx")
    case False
    then show ?thesis using len ns by (auto simp: ic3_body_def ic3_ok_def no_short_def)
  next
    case True
    obtain ok e1 where c: "loop (clean_body tr ts k) e = Some (ok, e1)" "clean P ts k (ok, e1)"
      using clean_ok [OF wf tr e k ns] by auto
    show ?thesis
    proof (cases ok)
      case False
      then show ?thesis using True len c ns by (simp add: ic3_body_def clean_def ic3_ok_def)
    next
      case ok: True
      then have e1: "engine_ok P ts k e1" and nb: "\<forall>\<rho>. frame_at ts (frames e1) k \<rho> \<longrightarrow> \<not> is_bad ts \<rho>"
        using c(2) by (simp_all add: clean_def)
      have s1: "sound ts (frames e1)" and len1: "length (frames e1) = Suc k" using e1 by (simp_all add: engine_ok_def)
      show ?thesis
      proof (cases "\<forall>f \<in> set (tl (frames e1)). f = {}")
        case empty: True
        have "frame_at ts (frames e1) k \<rho>" for \<rho>
        proof -
          have "frames e1 ! k \<in> set (tl (frames e1))"
            using len1 k nth_tl [of "k - 1" "frames e1"] nth_mem [of "k - 1" "tl (frames e1)"] by simp
          then have "frames e1 ! k = {}" using empty by blast
          moreover have "j = k" if "k \<le> j" "j < length (frames e1)" for j using that len1 by simp
          ultimately show ?thesis using k by (auto simp: frame_at_def)
        qed
        then have "inductive_invariant ts {}" using nb by (simp add: inductive_invariant_def sat_all_def)
        then show ?thesis using True len c(1) ok empty by (simp add: ic3_body_def Let_def ic3_ok_def)
      next
        case False
        let ?e = "e1\<lparr>frames := frames e1 @ [{}]\<rparr>"
        have e2: "engine_ok P ts (Suc k) ?e" by (rule engine_ok_append [OF e1])
        have rng: "\<forall>i \<in> set [1..<length (frames ?e) - 1]. 1 \<le> i \<and> i < Suc k" using len1 by auto
        obtain cv e3 where p: "push_levels tr ts [1..<length (frames ?e) - 1] ?e = Some (cv, e3)" "engine_ok P ts (Suc k) e3"
          "tighter ts (Suc k) (frames ?e) (frames e3)"
          "\<forall>c'. cv = Some c' \<longrightarrow> 2 \<le> c' \<and> c' \<le> Suc k \<and> (\<forall>\<rho>. frame_at ts (frames e3) c' \<rho> \<longrightarrow> frame_at ts (frames e3) (c' - 1) \<rho>)"
          using push_levels_ok [OF wf tr e2 rng] by blast
        have ps: "ic_propagate tr ts ?e = Some (cv, e3)" using p(1) by (simp add: ic_propagate_def)
        have s3: "sound ts (frames e3)" and len3: "length (frames e3) = Suc (Suc k)" using p(2) by (simp_all add: engine_ok_def)
        show ?thesis
        proof (cases cv)
          case None
          then show ?thesis
            using True len c(1) ok False ps p(2) no_short_Suc [OF e1 nb ns] by (auto simp: ic3_body_def Let_def)
        next
          case (Some c')
          then have c': "2 \<le> c'" "c' \<le> Suc k" "\<forall>\<rho>. frame_at ts (frames e3) c' \<rho> \<longrightarrow> frame_at ts (frames e3) (c' - 1) \<rho>"
            using p(4) by auto
          let ?inv = "\<Union> (set (drop c' (frames e3)))"
          have inv: "sat_all ts ?inv \<rho> \<longleftrightarrow> frame_at ts (frames e3) c' \<rho>" for \<rho>
          proof -
            have "sat_all ts ?inv \<rho> \<longleftrightarrow> (\<forall>F \<in> set (drop c' (frames e3)). sat_all ts F \<rho>)" by (auto simp: sat_all_def)
            also have "\<dots> \<longleftrightarrow> (\<forall>j < length (frames e3) - c'. sat_all ts (frames e3 ! (c' + j)) \<rho>)"
              by (simp add: all_set_conv_all_nth)
            also have "\<dots> \<longleftrightarrow> (\<forall>j. c' \<le> j \<and> j < length (frames e3) \<longrightarrow> sat_all ts (frames e3 ! j) \<rho>)"
            proof
              assume a: "\<forall>j < length (frames e3) - c'. sat_all ts (frames e3 ! (c' + j)) \<rho>"
              show "\<forall>j. c' \<le> j \<and> j < length (frames e3) \<longrightarrow> sat_all ts (frames e3 ! j) \<rho>"
              proof (intro allI impI)
                fix j assume j: "c' \<le> j \<and> j < length (frames e3)"
                then have "j - c' < length (frames e3) - c'" by linarith
                then show "sat_all ts (frames e3 ! j) \<rho>" using a [rule_format, of "j - c'"] j by simp
              qed
            qed auto
            finally show ?thesis using c'(1) by (simp add: frame_at_sat_all)
          qed
          have "\<not> is_bad ts \<rho>" if "frame_at ts (frames e3) c' \<rho>" for \<rho>
          proof -
            have "frame_at ts (frames e3) k \<rho>"
              using c' that frame_mono [of "c' - 1" k ts "frames e3" \<rho>] by simp
            then have "frame_at ts (frames ?e) k \<rho>" using p(3) unfolding tighter_def by (meson le_SucI order_refl)
            then show ?thesis using nb by simp
          qed
          moreover have "frame_at ts (frames e3) c' \<rho>'" if "frame_at ts (frames e3) c' \<rho>" "step ts \<rho> \<rho>'" for \<rho> \<rho>'
          proof -
            have "frame_at ts (frames e3) (c' - 1) \<rho>" "Suc (c' - 1) < length (frames e3)" using that(1) c' len3 by auto
            then have "frame_at ts (frames e3) (Suc (c' - 1)) \<rho>'" using s3 that(2) unfolding sound_def by blast
            then show ?thesis using c'(1) by simp
          qed
          ultimately have "inductive_invariant ts ?inv"
            unfolding inductive_invariant_def inv using sound_init [OF s3] by blast
          then show ?thesis using True len c(1) ok False ps Some by (auto simp: ic3_body_def Let_def ic3_ok_def)
        qed
      qed
    qed
  qed
qed

lemma engine_ok_IC3: "engine_ok P ts 1 IC3"
proof -
  have "frame_at ts [{}, {}] (Suc i) \<rho>" for i \<rho> by (auto simp: frame_at_def nth_Cons')
  then show ?thesis by (auto simp: engine_ok_def IC3_def sound_def frames_wf_def cache_ok_def)
qed

lemma ic3_correct:
  assumes wf: "wf_ts P ts" and tr: "traversal_ok tr"
  shows "\<exists>r e. ic3_solve tr ts mx IC3 = Some (r, e) \<and> ic3_ok ts mx r"
proof (cases "\<exists>\<rho>. is_init ts \<rho> \<and> is_bad ts \<rho>")
  case True
  then obtain \<rho> where "is_init ts \<rho>" "is_bad ts \<rho>" by blast
  then have "cex ts 0 (\<lambda>_. \<rho>)" by (simp add: cex_def run_def)
  then show ?thesis using True init_intersects_bad_ok [OF wf] by (auto simp: ic3_solve_def ic3_ok_def)
next
  case False
  let ?I = "\<lambda>e. \<exists>k. 1 \<le> k \<and> engine_ok P ts k e \<and> no_short ts k"
  have "no_short ts 1" using False by (auto simp: no_short_def cex_def)
  then have init: "?I IC3" using engine_ok_IC3 by blast
  have "\<exists>r. loop (ic3_body tr ts mx) IC3 = Some r \<and> ic3_ok ts mx (fst r)"
  proof (rule loop_measure [where I = ?I and f = "\<lambda>e. mx - (length (frames e) - 1)", OF init])
    fix e assume "?I e"
    then obtain k where k: "1 \<le> k" "engine_ok P ts k e" "no_short ts k" by blast
    obtain x where x: "ic3_body tr ts mx e = Some x" "case x of Inl r \<Rightarrow> ic3_ok ts mx (fst r)
      | Inr e' \<Rightarrow> k < mx \<and> engine_ok P ts (Suc k) e' \<and> no_short ts (Suc k)"
      using ic3_body_ok [OF wf tr k(2,1,3)] by blast
    show "\<exists>x. ic3_body tr ts mx e = Some x \<and> (case x of Inl r \<Rightarrow> ic3_ok ts mx (fst r)
      | Inr s' \<Rightarrow> ?I s' \<and> mx - (length (frames s') - 1) < mx - (length (frames e) - 1))"
    proof (cases x)
      case (Inr e')
      then have e': "k < mx" "engine_ok P ts (Suc k) e'" "no_short ts (Suc k)" using x(2) by simp_all
      have "?I e'" using e'(2,3) by (intro exI [of _ "Suc k"]) simp
      moreover have "length (frames e) = Suc k" "length (frames e') = Suc (Suc k)"
        using k(2) e'(2) by (simp_all add: engine_ok_def)
      ultimately show ?thesis using x(1) Inr e'(1) by auto
    qed (use x in auto)
  qed
  then show ?thesis using False init_intersects_bad_ok [OF wf] by (auto simp: ic3_solve_def)
qed

end
