(* ===== verification/Liveness.thy ===== *)
theory Liveness
  imports Frames
begin

text \<open>
  Liveness as safety (\<open>liveness.py\<close>): \<open>apply_assumptions\<close> guards the property by the environment
  assumptions, \<open>liveness_to_safety\<close> turns a response property into the reachability of a closed loop.
  Both build a new transition system, with fresh nodes, in the allocation monad; \<open>None\<close> is the
  exception of a missing dictionary entry. The rule \<open>runs_bind\<close> steps through such a construction.
\<close>

subsection \<open>The constructions\<close>

primrec add_inputs :: "string list \<Rightarrow> trans_system \<Rightarrow> trans_system alloc" where
  "add_inputs [] L = State_Monad.return L"
| "add_inputs (x # xs) L = do { _ \<leftarrow> snd (add_input x L); add_inputs xs (fst (add_input x L)) }"

primrec carry_state :: "trans_system \<Rightarrow> string list \<Rightarrow> trans_system \<Rightarrow> trans_system option" where
  "carry_state ts [] L = Some L"
| "carry_state ts (n # ns) L = do {
     b \<leftarrow> ts_init ts n;
     g \<leftarrow> ts_next ts n;
     carry_state ts ns (add_state_bit n b g L) }"

definition apply_assumptions :: "trans_system \<Rightarrow> trans_system option alloc" where
  "apply_assumptions ts =
     (if ts_assumptions ts = [] then State_Monad.return (Some ts)
      else do {
        L \<leftarrow> add_inputs (ts_inputs ts) (TransitionSystem (ts_name ts));
        (case (carry_state ts (ts_state ts) L, ts_bad ts) of
           (Some L, Some b) \<Rightarrow> do {
             assm \<leftarrow> AND_s (ts_assumptions ts);
             aok \<leftarrow> VAR_s ''__assm_ok'';
             held \<leftarrow> AND_s [aok, assm];
             let L = add_state_bit ''__assm_ok'' True held L;
             bad \<leftarrow> AND_s [b, aok, assm];
             State_Monad.return (Some (L\<lparr>ts_bad := Some bad, ts_liveness := ts_liveness ts,
               ts_assumptions := ts_assumptions ts\<rparr>)) }
         | _ \<Rightarrow> State_Monad.return None) })"

definition shadow :: "string \<Rightarrow> string" where
  "shadow w = ''__shadow_'' @ w"

primrec add_shadows :: "sig \<Rightarrow> string list \<Rightarrow> trans_system \<Rightarrow> trans_system alloc" where
  "add_shadows saved [] L = State_Monad.return L"
| "add_shadows saved (w # ws) L = do {
     old \<leftarrow> VAR_s (shadow w);
     now \<leftarrow> VAR_s w;
     g \<leftarrow> ITE_s saved old now;
     add_shadows saved ws (add_state_bit (shadow w) False g L) }"

definition l2s_guard :: "trans_system \<Rightarrow> trans_system \<Rightarrow> (trans_system \<times> sig) alloc" where
  "l2s_guard ts L =
     (if ts_assumptions ts = [] then State_Monad.return (L, TRUE_s)
      else do {
        assm_now \<leftarrow> AND_s (ts_assumptions ts);
        aok \<leftarrow> VAR_s ''__assm_ok'';
        held \<leftarrow> AND_s [aok, assm_now];
        guard \<leftarrow> AND_s [aok, assm_now];
        State_Monad.return (add_state_bit ''__assm_ok'' True held L, guard) })"

definition match_shadow :: "string \<Rightarrow> sig alloc" where
  "match_shadow w = do { now \<leftarrow> VAR_s w; old \<leftarrow> VAR_s (shadow w); XNOR_s now old }"

text \<open>The obligation monitor and the oracle latch.\<close>

definition l2s_obligation :: "sig \<Rightarrow> sig \<Rightarrow> sig \<Rightarrow> trans_system \<Rightarrow> (sig \<times> sig \<times> trans_system) alloc" where
  "l2s_obligation a b save L = do {
     pending \<leftarrow> VAR_s ''__pending'';
     owed \<leftarrow> OR_s [pending, a];
     nb \<leftarrow> NOT_s b;
     pn \<leftarrow> AND_s [owed, nb];
     let L = add_state_bit ''__pending'' False pn L;
     p \<leftarrow> NOT_s pending;
     saved \<leftarrow> VAR_s ''__saved'';
     sn \<leftarrow> OR_s [saved, save];
     State_Monad.return (p, saved, add_state_bit ''__saved'' False sn L) }"

text \<open>Whether the good event occurred since the save.\<close>

definition l2s_trigger :: "sig \<Rightarrow> sig \<Rightarrow> sig \<Rightarrow> trans_system \<Rightarrow> (sig \<times> trans_system) alloc" where
  "l2s_trigger saved save p L = do {
     trig \<leftarrow> VAR_s ''__triggered'';
     inside \<leftarrow> OR_s [saved, save];
     seen_p \<leftarrow> OR_s [trig, p];
     tn \<leftarrow> ITE_s inside seen_p FALSE_s;
     State_Monad.return (trig, add_state_bit ''__triggered'' False tn L) }"

text \<open>The registers of the monitor, after the design is carried over.\<close>

definition l2s_latches :: "trans_system \<Rightarrow> sig \<Rightarrow> sig \<Rightarrow> sig \<Rightarrow> trans_system \<Rightarrow> (sig \<times> sig \<times> sig \<times> trans_system) alloc" where
  "l2s_latches ts a b save L = do {
     (p, saved, L) \<leftarrow> l2s_obligation a b save L;
     L \<leftarrow> add_shadows saved (ts_state ts @ [''__pending'']) L;
     (trig, L) \<leftarrow> l2s_trigger saved save p L;
     (L, assm_guard) \<leftarrow> l2s_guard ts L;
     State_Monad.return (saved, trig, assm_guard, L) }"

definition l2s_monitor :: "trans_system \<Rightarrow> sig \<Rightarrow> sig \<Rightarrow> sig \<Rightarrow> trans_system \<Rightarrow> trans_system alloc" where
  "l2s_monitor ts a b save L = do {
     (saved, trig, assm_guard, L) \<leftarrow> l2s_latches ts a b save L;
     eqs \<leftarrow> alloc_map match_shadow (ts_state ts @ [''__pending'']);
     loop_closed \<leftarrow> AND_s eqs;
     nt \<leftarrow> NOT_s trig;
     bad \<leftarrow> AND_s [saved, loop_closed, nt, assm_guard];
     State_Monad.return (L\<lparr>ts_bad := Some bad\<rparr>) }"

definition liveness_to_safety :: "trans_system \<Rightarrow> int \<Rightarrow> trans_system option alloc" where
  "liveness_to_safety ts idx =
     (case py_get (ts_liveness ts) idx of
        None \<Rightarrow> State_Monad.return None
      | Some (a, b) \<Rightarrow> do {
          L \<leftarrow> add_inputs (ts_inputs ts) (TransitionSystem (ts_name ts @ ''_L2S''));
          save \<leftarrow> snd (add_input ''__save'' L);
          (case carry_state ts (ts_state ts) (fst (add_input ''__save'' L)) of
             None \<Rightarrow> State_Monad.return None
           | Some L \<Rightarrow> do {
               L \<leftarrow> l2s_monitor ts a b save L;
               State_Monad.return (Some L) }) })"

subsection \<open>Stepping through a construction\<close>

text \<open>Each constructor from a pool: the run of the allocator, and the node it yields in the larger pool.\<close>

lemma take_node:
  assumes "builds A (\<lambda>r. {r}) m (denotes F X)" "pool_ok n P" "A \<subseteq> P"
  obtains v n' P' where "run_state m n = (v, n')" "pool_ok n' P'" "P \<subseteq> P'" "v \<in> P'" "\<And>\<rho>. sval \<rho> v = F \<rho>" "svars v \<subseteq> X"
  by (rule buildsE [OF assms], rule that) (auto simp: denotes_def)

lemmas take_VAR = take_node [OF builds_VAR]
  and take_AND = take_node [OF builds_AND]
  and take_OR = take_node [OF builds_OR]
  and take_NOT = take_node [OF builds_NOT]
  and take_ITE = take_node [OF builds_ITE]
  and take_XNOR = take_node [OF builds_XNOR]

subsection \<open>Building a transition system\<close>

definition sys_ok :: "sig set \<Rightarrow> string set \<Rightarrow> trans_system \<Rightarrow> bool" where
  "sys_ok P N ts \<longleftrightarrow> (\<forall>n \<in> set (ts_state ts). ts_init ts n \<noteq> None \<and>
     (\<exists>g. ts_next ts n = Some g \<and> g \<in> P \<and> svars g \<subseteq> N))"

lemma sys_ok_mono: "sys_ok P N ts \<Longrightarrow> P \<subseteq> P' \<Longrightarrow> N \<subseteq> N' \<Longrightarrow> sys_ok P' N' ts"
  unfolding sys_ok_def by blast

lemma sys_ok_add:
  "sys_ok P N ts \<Longrightarrow> g \<in> P \<Longrightarrow> svars g \<subseteq> N \<Longrightarrow> sys_ok P N (add_state_bit n b g ts)"
  by (auto simp: sys_ok_def add_state_bit_def)

lemma step_add:
  "n \<notin> set (ts_state ts) \<Longrightarrow> step (add_state_bit n b g ts) \<rho> \<rho>' \<longleftrightarrow> step ts \<rho> \<rho>' \<and> \<rho>' n = sval \<rho> g"
  by (auto simp: step_def add_state_bit_def)

lemma init_add:
  "n \<notin> set (ts_state ts) \<Longrightarrow> is_init (add_state_bit n b g ts) \<rho> \<longleftrightarrow> is_init ts \<rho> \<and> \<rho> n = b"
  by (auto simp: is_init_def add_state_bit_def)

lemma state_add [simp]: "ts_state (add_state_bit n b g ts) = ts_state ts @ [n]"
  "ts_inputs (add_state_bit n b g ts) = ts_inputs ts"
  by (simp_all add: add_state_bit_def)

lemma sys_upd [simp]:
  "step (ts\<lparr>ts_bad := x\<rparr>) = step ts" "step (ts\<lparr>ts_liveness := l\<rparr>) = step ts" "step (ts\<lparr>ts_assumptions := as\<rparr>) = step ts"
  "is_init (ts\<lparr>ts_bad := x\<rparr>) = is_init ts" "is_init (ts\<lparr>ts_liveness := l\<rparr>) = is_init ts"
  "is_init (ts\<lparr>ts_assumptions := as\<rparr>) = is_init ts"
  by (simp_all add: fun_eq_iff step_def is_init_def)

lemma run_add_inputs:
  assumes "pool_ok n P"
  obtains n' P' where "run_state (add_inputs xs L) n = (L\<lparr>ts_inputs := ts_inputs L @ xs\<rparr>, n')" "pool_ok n' P'" "P \<subseteq> P'"
proof -
  have "\<exists>n' P'. run_state (add_inputs xs L) n = (L\<lparr>ts_inputs := ts_inputs L @ xs\<rparr>, n') \<and> pool_ok n' P' \<and> P \<subseteq> P'"
    using assms
  proof (induction xs arbitrary: n P L)
    case (Cons x xs)
    obtain v n1 P1 where 1: "run_state (VAR_s x) n = (v, n1)" "pool_ok n1 P1" "P \<subseteq> P1"
      by (rule take_VAR [OF Cons.prems empty_subsetI]) (rule that)
    show ?case
      using Cons.IH [OF 1(2), of "L\<lparr>ts_inputs := ts_inputs L @ [x]\<rparr>"] 1(1,3) by (auto simp: add_input_def)
  qed auto
  then show ?thesis using that by blast
qed

text \<open>The design carried verbatim: the same initial values and next-state functions.\<close>

lemma carry_state_ok:
  assumes "sys_ok P N ts"
  shows "set ns \<subseteq> set (ts_state ts) \<Longrightarrow> distinct ns \<Longrightarrow> set ns \<inter> set (ts_state L) = {} \<Longrightarrow> sys_ok P N L \<Longrightarrow>
    \<exists>L'. carry_state ts ns L = Some L' \<and> ts_state L' = ts_state L @ ns \<and> ts_inputs L' = ts_inputs L \<and> sys_ok P N L' \<and>
      (\<forall>\<rho> \<rho>'. step L' \<rho> \<rho>' \<longleftrightarrow> step L \<rho> \<rho>' \<and> (\<forall>n \<in> set ns. \<forall>g. ts_next ts n = Some g \<longrightarrow> \<rho>' n = sval \<rho> g)) \<and>
      (\<forall>\<rho>. is_init L' \<rho> \<longleftrightarrow> is_init L \<rho> \<and> (\<forall>n \<in> set ns. Some (\<rho> n) = ts_init ts n))"
proof (induction ns arbitrary: L)
  case (Cons n ns)
  obtain b g where bg: "ts_init ts n = Some b" "ts_next ts n = Some g" "g \<in> P" "svars g \<subseteq> N"
    using assms Cons.prems(1) by (auto simp: sys_ok_def)
  let ?L = "add_state_bit n b g L"
  have n: "n \<notin> set (ts_state L)" using Cons.prems(3) by auto
  have "sys_ok P N ?L" using Cons.prems(4) bg(3,4) by (rule sys_ok_add)
  moreover have "set ns \<inter> set (ts_state ?L) = {}" using Cons.prems(2,3) by auto
  ultimately obtain L' where L': "carry_state ts ns ?L = Some L'" "ts_state L' = ts_state ?L @ ns"
    "ts_inputs L' = ts_inputs ?L" "sys_ok P N L'"
    "\<forall>\<rho> \<rho>'. step L' \<rho> \<rho>' \<longleftrightarrow> step ?L \<rho> \<rho>' \<and> (\<forall>n \<in> set ns. \<forall>g. ts_next ts n = Some g \<longrightarrow> \<rho>' n = sval \<rho> g)"
    "\<forall>\<rho>. is_init L' \<rho> \<longleftrightarrow> is_init ?L \<rho> \<and> (\<forall>n \<in> set ns. Some (\<rho> n) = ts_init ts n)"
    using Cons.IH [of ?L] Cons.prems(1,2) by auto
  show ?case using L' bg(1,2) n by (auto simp: step_add init_add)
qed simp

subsection \<open>Assumptions\<close>

definition assumed :: "trans_system \<Rightarrow> (string \<Rightarrow> bool) \<Rightarrow> bool" where
  "assumed ts \<rho> \<longleftrightarrow> (\<forall>a \<in> set (ts_assumptions ts). sval \<rho> a)"

definition assumptions_ok :: "sig set \<Rightarrow> trans_system \<Rightarrow> bool" where
  "assumptions_ok P ts \<longleftrightarrow> set (ts_assumptions ts) \<subseteq> P \<and> (\<forall>a \<in> set (ts_assumptions ts). svars a \<subseteq> ts_names ts)"

lemma assumed_cong: "assumptions_ok P ts \<Longrightarrow> \<forall>x \<in> ts_names ts. \<rho> x = \<sigma> x \<Longrightarrow> assumed ts \<rho> = assumed ts \<sigma>"
  unfolding assumed_def assumptions_ok_def using sval_cong [of _ \<rho> \<sigma>] by (simp add: subset_iff)

text \<open>A latch that starts high and stays high while the assumptions hold.\<close>

definition latched :: "(nat \<Rightarrow> bool) \<Rightarrow> (nat \<Rightarrow> bool) \<Rightarrow> nat \<Rightarrow> bool" where
  "latched l as k \<longleftrightarrow> l 0 \<and> (\<forall>i < k. l (Suc i) = (l i \<and> as i))"

lemma latched_iff: "latched l as k \<Longrightarrow> i \<le> k \<Longrightarrow> l i \<longleftrightarrow> (\<forall>j < i. as j)"
  by (induction i) (auto simp: latched_def less_Suc_eq)

lemma latched_all: "latched l as k \<Longrightarrow> l k \<and> as k \<longleftrightarrow> (\<forall>j \<le> k. as j)"
  using latched_iff [of l as k k] by (auto simp: le_less)

lemma latched_make: "latched (\<lambda>i. \<forall>j < i. as j) as k"
  by (auto simp: latched_def less_Suc_eq)

lemma guarded_cex:
  assumes wf: "wf_ts P ts" and as: "assumptions_ok P ts" and fresh: "x \<notin> ts_names ts"
    and L: "\<And>\<rho> \<rho>'. step L \<rho> \<rho>' \<longleftrightarrow> step ts \<rho> \<rho>' \<and> \<rho>' x = (\<rho> x \<and> assumed ts \<rho>)"
      "\<And>\<rho>. is_init L \<rho> \<longleftrightarrow> is_init ts \<rho> \<and> \<rho> x" "\<And>\<rho>. is_bad L \<rho> \<longleftrightarrow> is_bad ts \<rho> \<and> \<rho> x \<and> assumed ts \<rho>"
  shows "(\<exists>\<rho>. cex L k \<rho>) \<longleftrightarrow> (\<exists>\<rho>. cex ts k \<rho> \<and> (\<forall>i \<le> k. assumed ts (\<rho> i)))"
proof
  assume "\<exists>\<rho>. cex L k \<rho>"
  then obtain \<rho> where \<rho>: "cex L k \<rho>" by blast
  then have "latched (\<lambda>i. \<rho> i x) (\<lambda>i. assumed ts (\<rho> i)) k" "cex ts k \<rho>" "\<rho> k x" "assumed ts (\<rho> k)"
    by (auto simp: cex_def run_def L latched_def)
  then show "\<exists>\<rho>. cex ts k \<rho> \<and> (\<forall>i \<le> k. assumed ts (\<rho> i))" using latched_all by blast
next
  assume "\<exists>\<rho>. cex ts k \<rho> \<and> (\<forall>i \<le> k. assumed ts (\<rho> i))"
  then obtain \<rho> where \<rho>: "cex ts k \<rho>" "\<forall>i \<le> k. assumed ts (\<rho> i)" by blast
  let ?\<sigma> = "\<lambda>i. (\<rho> i)(x := \<forall>j < i. assumed ts (\<rho> j))"
  have eq: "\<forall>n \<in> ts_names ts. ?\<sigma> i n = \<rho> i n" for i using fresh by auto
  have a: "assumed ts (?\<sigma> i) = assumed ts (\<rho> i)" for i by (rule assumed_cong [OF as eq])
  have st: "step ts (?\<sigma> i) (?\<sigma> (Suc i)) = step ts (\<rho> i) (\<rho> (Suc i))" for i by (rule step_cong [OF wf eq eq])
  have l: "latched (\<lambda>i. ?\<sigma> i x) (\<lambda>i. assumed ts (\<rho> i)) k" using latched_make by simp
  have "cex L k ?\<sigma>"
    unfolding cex_def run_def L a st bad_cong [OF wf eq] init_cong [OF eq]
    using \<rho> l by (auto simp: cex_def run_def latched_def)
  then show "\<exists>\<rho>. cex L k \<rho>" by blast
qed

lemma sys_ok_wf: "wf_ts P ts \<Longrightarrow> sys_ok P (ts_names ts) ts"
  by (auto simp: wf_ts_def sys_ok_def)

lemma sys_ok_names:
  "sys_ok P N L \<Longrightarrow> pool P \<Longrightarrow> N = ts_names L \<Longrightarrow> distinct (ts_state L @ ts_inputs L) \<Longrightarrow> b \<in> P \<Longrightarrow> svars b \<subseteq> N \<Longrightarrow>
   ts_bad L = Some b \<Longrightarrow> wf_ts P L"
  by (simp add: sys_ok_def wf_ts_def)

lemma wf_ts_upd: "wf_ts P (ts\<lparr>ts_liveness := l, ts_assumptions := as\<rparr>) = wf_ts P ts"
  by (simp add: wf_ts_def ts_names_def)

lemma apply_assumptions_ok:
  assumes wf: "wf_ts P ts" and as: "assumptions_ok P ts" and fresh: "''__assm_ok'' \<notin> ts_names ts" and P: "pool_ok n P"
  obtains L n' P' where "run_state (apply_assumptions ts) n = (Some L, n')" "pool_ok n' P'" "P \<subseteq> P'" "wf_ts P' L"
    "\<And>k. (\<exists>\<rho>. cex L k \<rho>) \<longleftrightarrow> (\<exists>\<rho>. cex ts k \<rho> \<and> (\<forall>i \<le> k. assumed ts (\<rho> i)))"
proof (cases "ts_assumptions ts = []")
  case True
  then show ?thesis using that [of ts n P] wf P by (simp add: apply_assumptions_def assumed_def)
next
  case False
  let ?x = "''__assm_ok''" let ?N = "insert ?x (ts_names ts)"
  obtain b where b: "ts_bad ts = Some b" "b \<in> P" "svars b \<subseteq> ts_names ts" using wf by (auto simp: wf_ts_def)
  have d: "distinct (ts_state ts @ ts_inputs ts)" using wf by (simp add: wf_ts_def)
  let ?L0 = "TransitionSystem (ts_name ts)\<lparr>ts_inputs := ts_inputs (TransitionSystem (ts_name ts)) @ ts_inputs ts\<rparr>"
  have L0: "set (ts_state ts) \<inter> set (ts_state ?L0) = {}" "sys_ok P (ts_names ts) ?L0"
    by (simp_all add: TransitionSystem_def sys_ok_def)
  obtain L where L: "carry_state ts (ts_state ts) ?L0 = Some L" "ts_state L = ts_state ts" "ts_inputs L = ts_inputs ts"
    "sys_ok P (ts_names ts) L" "\<And>\<rho> \<rho>'. step L \<rho> \<rho>' \<longleftrightarrow> step ts \<rho> \<rho>'" "\<And>\<rho>. is_init L \<rho> \<longleftrightarrow> is_init ts \<rho>"
    using carry_state_ok [OF sys_ok_wf [OF wf] subset_refl _ L0] d
    by (auto simp: TransitionSystem_def step_def is_init_def)
  have new: "?x \<notin> set (ts_state L)" using fresh L(2) by (simp add: ts_names_def)
  obtain n1 P1 where 1: "run_state (add_inputs (ts_inputs ts) (TransitionSystem (ts_name ts))) n = (?L0, n1)"
    "pool_ok n1 P1" "P \<subseteq> P1" by (rule run_add_inputs [OF P])
  have "set (ts_assumptions ts) \<subseteq> P1" using as 1(3) by (auto simp: assumptions_ok_def)
  then obtain assm n2 P2 where 2: "run_state (AND_s (ts_assumptions ts)) n1 = (assm, n2)" "pool_ok n2 P2" "P1 \<subseteq> P2" "assm \<in> P2"
    "\<And>\<rho>. sval \<rho> assm = (\<forall>x \<in> set (ts_assumptions ts). sval \<rho> x)" "svars assm \<subseteq> (\<Union>x \<in> set (ts_assumptions ts). svars x)"
    by (rule take_AND [OF 1(2)]) (rule that)
  obtain aok n3 P3 where 3: "run_state (VAR_s ?x) n2 = (aok, n3)" "pool_ok n3 P3" "P2 \<subseteq> P3" "aok \<in> P3"
    "\<And>\<rho>. sval \<rho> aok = \<rho> ?x" "svars aok \<subseteq> {?x}" by (rule take_VAR [OF 2(2) empty_subsetI]) (rule that)
  have "set [aok, assm] \<subseteq> P3" using 2(4) 3(3,4) by auto
  then obtain held n4 P4 where 4: "run_state (AND_s [aok, assm]) n3 = (held, n4)" "pool_ok n4 P4" "P3 \<subseteq> P4" "held \<in> P4"
    "\<And>\<rho>. sval \<rho> held = (\<forall>x \<in> set [aok, assm]. sval \<rho> x)" "svars held \<subseteq> (\<Union>x \<in> set [aok, assm]. svars x)"
    by (rule take_AND [OF 3(2)]) (rule that)
  have "set [b, aok, assm] \<subseteq> P4" using b(2) 1(3) 2(3,4) 3(3,4) 4(3) by auto
  then obtain bad n5 P5 where 5: "run_state (AND_s [b, aok, assm]) n4 = (bad, n5)" "pool_ok n5 P5" "P4 \<subseteq> P5" "bad \<in> P5"
    "\<And>\<rho>. sval \<rho> bad = (\<forall>x \<in> set [b, aok, assm]. sval \<rho> x)" "svars bad \<subseteq> (\<Union>x \<in> set [b, aok, assm]. svars x)"
    by (rule take_AND [OF 4(2)]) (rule that)
  have assm: "sval \<rho> assm = assumed ts \<rho>" "svars assm \<subseteq> ts_names ts" for \<rho>
    using 2(5,6) as unfolding assumed_def assumptions_ok_def by blast+
  let ?L = "add_state_bit ?x True held L"
  let ?R = "?L\<lparr>ts_bad := Some bad, ts_liveness := ts_liveness ts, ts_assumptions := ts_assumptions ts\<rparr>"
  have sup: "P \<subseteq> P5" using 1(3) 2(3) 3(3) 4(3) 5(3) by blast
  have v: "svars held \<subseteq> ?N" "svars bad \<subseteq> ?N" using 3(6) 4(6) 5(6) assm(2) b(3) by auto
  have "run_state (apply_assumptions ts) n = (Some ?R, n5)"
    using False 1(1) 2(1) 3(1) 4(1) 5(1) L(1) b(1) by (simp add: apply_assumptions_def)
  moreover have "wf_ts P5 ?R"
    unfolding wf_ts_upd
  proof (rule sys_ok_names [OF _ _ refl _ 5(4)])
    have "sys_ok P5 ?N ?L"
      by (rule sys_ok_add [OF sys_ok_mono [OF L(4) sup subset_insertI]]) (use 4(4) 5(3) v(1) in auto)
    then show "sys_ok P5 (ts_names (?L\<lparr>ts_bad := Some bad\<rparr>)) (?L\<lparr>ts_bad := Some bad\<rparr>)"
      using L(2,3) by (simp add: sys_ok_def ts_names_def)
    show "distinct (ts_state (?L\<lparr>ts_bad := Some bad\<rparr>) @ ts_inputs (?L\<lparr>ts_bad := Some bad\<rparr>))"
      using d new L(2,3) fresh by (auto simp: ts_names_def)
    show "svars bad \<subseteq> ts_names (?L\<lparr>ts_bad := Some bad\<rparr>)" using v(2) L(2,3) by (simp add: ts_names_def)
  qed (use 5(2) in \<open>simp_all add: pool_ok_def\<close>)
  moreover have "(\<exists>\<rho>. cex ?R k \<rho>) \<longleftrightarrow> (\<exists>\<rho>. cex ts k \<rho> \<and> (\<forall>i \<le> k. assumed ts (\<rho> i)))" for k
  proof (rule guarded_cex [OF wf as fresh])
    show "step ?R \<rho> \<rho>' \<longleftrightarrow> step ts \<rho> \<rho>' \<and> \<rho>' ?x = (\<rho> ?x \<and> assumed ts \<rho>)" for \<rho> \<rho>'
      by (simp add: step_add [OF new] L(5) 3(5) 4(5) assm(1))
    show "is_init ?R \<rho> \<longleftrightarrow> is_init ts \<rho> \<and> \<rho> ?x" for \<rho> by (simp add: init_add [OF new] L(6))
    show "is_bad ?R \<rho> \<longleftrightarrow> is_bad ts \<rho> \<and> \<rho> ?x \<and> assumed ts \<rho>" for \<rho>
      by (simp add: is_bad_def b(1) 3(5) 5(5) assm(1))
  qed
  ultimately show ?thesis using that 5(2) sup by blast
qed

subsection \<open>The monitor\<close>

lemma run_add_shadows:
  assumes "distinct ws" "\<And>\<rho>. sval \<rho> saved = \<rho> x" "svars saved \<subseteq> {x}"
  shows "pool_ok n P \<Longrightarrow> saved \<in> P \<Longrightarrow> shadow ` set ws \<inter> set (ts_state L) = {} \<Longrightarrow>
    \<exists>n' P' L'. run_state (add_shadows saved ws L) n = (L', n') \<and> pool_ok n' P' \<and> P \<subseteq> P' \<and>
      ts_state L' = ts_state L @ map shadow ws \<and> ts_inputs L' = ts_inputs L \<and>
      (\<forall>N. sys_ok P N L \<and> insert x (set ws \<union> shadow ` set ws) \<subseteq> N \<longrightarrow> sys_ok P' N L') \<and>
      (\<forall>\<rho> \<rho>'. step L' \<rho> \<rho>' \<longleftrightarrow> step L \<rho> \<rho>' \<and> (\<forall>w \<in> set ws. \<rho>' (shadow w) = (if \<rho> x then \<rho> (shadow w) else \<rho> w))) \<and>
      (\<forall>\<rho>. is_init L' \<rho> \<longleftrightarrow> is_init L \<rho> \<and> (\<forall>w \<in> set ws. \<not> \<rho> (shadow w)))"
  using assms(1)
proof (induction ws arbitrary: n P L)
  case (Cons w ws)
  obtain old n1 P1 where 1: "run_state (VAR_s (shadow w)) n = (old, n1)" "pool_ok n1 P1" "P \<subseteq> P1" "old \<in> P1"
    "\<And>\<rho>. sval \<rho> old = \<rho> (shadow w)" "svars old \<subseteq> {shadow w}"
    by (rule take_VAR [OF Cons.prems(1) empty_subsetI]) (rule that)
  obtain now n2 P2 where 2: "run_state (VAR_s w) n1 = (now, n2)" "pool_ok n2 P2" "P1 \<subseteq> P2" "now \<in> P2"
    "\<And>\<rho>. sval \<rho> now = \<rho> w" "svars now \<subseteq> {w}"
    by (rule take_VAR [OF 1(2) empty_subsetI]) (rule that)
  have "{saved, old, now} \<subseteq> P2" using Cons.prems(2) 1(3,4) 2(3,4) by auto
  then obtain g n3 P3 where 3: "run_state (ITE_s saved old now) n2 = (g, n3)" "pool_ok n3 P3" "P2 \<subseteq> P3" "g \<in> P3"
    "\<And>\<rho>. sval \<rho> g = (if sval \<rho> saved then sval \<rho> old else sval \<rho> now)" "svars g \<subseteq> svars saved \<union> svars old \<union> svars now"
    by (rule take_ITE [OF 2(2)]) (rule that)
  let ?L = "add_state_bit (shadow w) False g L"
  have new: "shadow w \<notin> set (ts_state L)" using Cons.prems(3) by auto
  have inj: "shadow ` set ws \<inter> set (ts_state ?L) = {}" using Cons.prems(3,4) by (auto simp: shadow_def)
  have dw: "distinct ws" using Cons.prems(4) by simp
  have sv: "saved \<in> P3" using Cons.prems(2) 1(3) 2(3) 3(3) by blast
  obtain n' P' L' where L': "run_state (add_shadows saved ws ?L) n3 = (L', n')" "pool_ok n' P'" "P3 \<subseteq> P'"
    "ts_state L' = ts_state ?L @ map shadow ws" "ts_inputs L' = ts_inputs ?L"
    "\<forall>N. sys_ok P3 N ?L \<and> insert x (set ws \<union> shadow ` set ws) \<subseteq> N \<longrightarrow> sys_ok P' N L'"
    "\<forall>\<rho> \<rho>'. step L' \<rho> \<rho>' \<longleftrightarrow> step ?L \<rho> \<rho>' \<and> (\<forall>w \<in> set ws. \<rho>' (shadow w) = (if \<rho> x then \<rho> (shadow w) else \<rho> w))"
    "\<forall>\<rho>. is_init L' \<rho> \<longleftrightarrow> is_init ?L \<rho> \<and> (\<forall>w \<in> set ws. \<not> \<rho> (shadow w))"
    by (rule exE [OF Cons.IH [OF 3(2) sv inj dw]], elim exE conjE) (rule that)
  have sub: "P \<subseteq> P3" using 1(3) 2(3) 3(3) by blast
  have "sys_ok P' N L'" if N: "sys_ok P N L" "insert x (set (w # ws) \<union> shadow ` set (w # ws)) \<subseteq> N" for N
  proof -
    have "svars g \<subseteq> N" using 1(6) 2(6) 3(6) assms(3) N(2) by auto
    then have "sys_ok P3 N ?L" using sys_ok_add [OF sys_ok_mono [OF N(1) sub order_refl] 3(4)] by blast
    then show ?thesis using L'(6) N(2) by auto
  qed
  moreover have "run_state (add_shadows saved (w # ws) L) n = (L', n')" using 1(1) 2(1) 3(1) L'(1) by simp
  moreover have "ts_state L' = ts_state L @ map shadow (w # ws)" "ts_inputs L' = ts_inputs L" using L'(4,5) by simp_all
  moreover have "step L' \<rho> \<rho>' \<longleftrightarrow> step L \<rho> \<rho>' \<and>
      (\<forall>w \<in> set (w # ws). \<rho>' (shadow w) = (if \<rho> x then \<rho> (shadow w) else \<rho> w))" for \<rho> \<rho>'
    using L'(7) by (auto simp: step_add [OF new] 3(5) 1(5) 2(5) assms(2))
  moreover have "is_init L' \<rho> \<longleftrightarrow> is_init L \<rho> \<and> (\<forall>w \<in> set (w # ws). \<not> \<rho> (shadow w))" for \<rho>
    using L'(8) by (auto simp: init_add [OF new])
  ultimately show ?case using L'(2,3) sub by blast
qed auto

lemma builds_match_shadow:
  "builds {} (\<lambda>r. {r}) (match_shadow w) (denotes (\<lambda>\<rho>. \<rho> w = \<rho> (shadow w)) {w, shadow w})"
  unfolding builds_def
proof (intro allI impI)
  fix n P assume P: "pool_ok n P \<and> {} \<subseteq> P"
  obtain now n1 P1 where 1: "run_state (VAR_s w) n = (now, n1)" "pool_ok n1 P1" "P \<subseteq> P1" "now \<in> P1" "n \<le> n1"
    "denotes (\<lambda>\<rho>. \<rho> w) {w} now"
    by (rule buildsE [OF builds_VAR [of w] conjunct1 [OF P] empty_subsetI], rule that) auto
  obtain old n2 P2 where 2: "run_state (VAR_s (shadow w)) n1 = (old, n2)" "pool_ok n2 P2" "P1 \<subseteq> P2" "old \<in> P2" "n1 \<le> n2"
    "denotes (\<lambda>\<rho>. \<rho> (shadow w)) {shadow w} old"
    by (rule buildsE [OF builds_VAR [of "shadow w"] 1(2) empty_subsetI], rule that) auto
  have "{now, old} \<subseteq> P2" using 1(4) 2(3,4) by auto
  then obtain v n3 P3 where 3: "run_state (XNOR_s now old) n2 = (v, n3)" "pool_ok n3 P3" "P2 \<subseteq> P3" "v \<in> P3" "n2 \<le> n3"
    "denotes (\<lambda>\<rho>. sval \<rho> now = sval \<rho> old) (svars now \<union> svars old) v"
    by (rule buildsE [OF builds_XNOR 2(2)]) (rule that, auto)
  have "run_state (match_shadow w) n = (v, n3)" using 1(1) 2(1) 3(1) by (simp add: match_shadow_def)
  moreover have "denotes (\<lambda>\<rho>. \<rho> w = \<rho> (shadow w)) {w, shadow w} v"
    unfolding denotes_def
  proof (intro conjI allI)
    show "sval \<rho> v = (\<rho> w = \<rho> (shadow w))" for \<rho> using 1(6) 2(6) 3(6) by (simp add: denotes_def)
    show "svars v \<subseteq> {w, shadow w}" using 1(6) 2(6) 3(6) unfolding denotes_def by blast
  qed
  moreover have "n \<le> n3" "P \<subseteq> P3" "{v} \<subseteq> P3" using 1(3,5) 2(3,5) 3(3-5) by auto
  ultimately show "\<exists>r n' P'. run_state (match_shadow w) n = (r, n') \<and> n \<le> n' \<and> pool_ok n' P' \<and> P \<subseteq> P' \<and> {r} \<subseteq> P' \<and>
      denotes (\<lambda>\<rho>. \<rho> w = \<rho> (shadow w)) {w, shadow w} r" using 3(2) by blast
qed

lemma take_matches:
  assumes "pool_ok n P"
  obtains eqs n' P' where "run_state (alloc_map match_shadow ws) n = (eqs, n')" "pool_ok n' P'" "P \<subseteq> P'" "set eqs \<subseteq> P'"
    "\<And>\<rho>. (\<forall>e \<in> set eqs. sval \<rho> e) = (\<forall>w \<in> set ws. \<rho> w = \<rho> (shadow w))" "(\<Union>e \<in> set eqs. svars e) \<subseteq> set ws \<union> shadow ` set ws"
proof -
  let ?Q = "list_all2 (\<lambda>w. denotes (\<lambda>\<rho>. \<rho> w = \<rho> (shadow w)) {w, shadow w}) ws"
  have "builds {} (\<lambda>ys. \<Union>y \<in> set ys. {y}) (alloc_map match_shadow ws) ?Q"
    by (rule builds_alloc_map) (rule builds_match_shadow)
  then obtain eqs n' P' where e: "run_state (alloc_map match_shadow ws) n = (eqs, n')" "pool_ok n' P'" "P \<subseteq> P'"
    "(\<Union>y \<in> set eqs. {y}) \<subseteq> P'" "?Q eqs"
    by (rule buildsE [OF _ assms empty_subsetI]) (rule that)
  have "(\<forall>e \<in> set eqs. sval \<rho> e) = (\<forall>w \<in> set ws. \<rho> w = \<rho> (shadow w))" for \<rho>
    using e(5) by (induction rule: list_all2_induct) (auto simp: denotes_def)
  moreover have "(\<Union>e \<in> set eqs. svars e) \<subseteq> set ws \<union> shadow ` set ws"
    using e(5) by (induction rule: list_all2_induct) (auto simp: denotes_def)
  ultimately show ?thesis using that e by simp
qed

end
