(* ===== verification/Lasso.thy ===== *)
theory Lasso
  imports Liveness "HOL-Library.Sublist"
begin

text \<open>
  Why \<open>liveness_to_safety\<close> is right. \<open>monitors\<close> describes the system it builds; \<open>starves\<close> is the
  violation of the response property on an infinite run. A run of the monitor that closes a loop
  unwinds to a starving run, and a starving run of a finite-state system revisits a state, which a
  run of the monitor that saves there detects.
\<close>

subsection \<open>The system that is built\<close>

definition pends :: "sig \<Rightarrow> sig \<Rightarrow> (string \<Rightarrow> bool) \<Rightarrow> bool" where
  "pends a b \<rho> \<longleftrightarrow> (\<rho> ''__pending'' \<or> sval \<rho> a) \<and> \<not> sval \<rho> b"

definition watched :: "trans_system \<Rightarrow> string list" where
  "watched ts = ts_state ts @ [''__pending'']"

record ('r) behaviour =
  b_init :: "'r \<Rightarrow> bool"
  b_step :: "'r \<Rightarrow> 'r \<Rightarrow> bool"
  b_bad :: "'r \<Rightarrow> bool"

definition monitor :: "trans_system \<Rightarrow> sig \<Rightarrow> sig \<Rightarrow> (string \<Rightarrow> bool) behaviour" where
  "monitor ts a b = \<lparr>
     b_init = (\<lambda>\<rho>. is_init ts \<rho> \<and> \<not> \<rho> ''__pending'' \<and> \<not> \<rho> ''__saved'' \<and> (\<forall>w \<in> set (watched ts). \<not> \<rho> (shadow w)) \<and>
       \<not> \<rho> ''__triggered'' \<and> (ts_assumptions ts \<noteq> [] \<longrightarrow> \<rho> ''__assm_ok'')),
     b_step = (\<lambda>\<rho> \<rho>'. step ts \<rho> \<rho>' \<and> \<rho>' ''__pending'' = pends a b \<rho> \<and> \<rho>' ''__saved'' = (\<rho> ''__saved'' \<or> \<rho> ''__save'') \<and>
       (\<forall>w \<in> set (watched ts). \<rho>' (shadow w) = (if \<rho> ''__saved'' then \<rho> (shadow w) else \<rho> w)) \<and>
       \<rho>' ''__triggered'' = ((\<rho> ''__saved'' \<or> \<rho> ''__save'') \<and> (\<rho> ''__triggered'' \<or> \<not> \<rho> ''__pending'')) \<and>
       (ts_assumptions ts \<noteq> [] \<longrightarrow> \<rho>' ''__assm_ok'' = (\<rho> ''__assm_ok'' \<and> assumed ts \<rho>))),
     b_bad = (\<lambda>\<rho>. \<rho> ''__saved'' \<and> (\<forall>w \<in> set (watched ts). \<rho> w = \<rho> (shadow w)) \<and> \<not> \<rho> ''__triggered'' \<and>
       (ts_assumptions ts \<noteq> [] \<longrightarrow> \<rho> ''__assm_ok'' \<and> assumed ts \<rho>))\<rparr>"

definition unreserved :: "trans_system \<Rightarrow> bool" where
  "unreserved ts \<longleftrightarrow> (\<forall>x \<in> ts_names ts. \<not> prefix ''__'' x)"

definition all_names :: "trans_system \<Rightarrow> string set" where
  "all_names ts = ts_names ts \<union> {''__pending'', ''__saved'', ''__triggered'', ''__save''} \<union> set (watched ts) \<union>
     shadow ` set (watched ts) \<union> (if ts_assumptions ts = [] then {} else {''__assm_ok''})"

lemma shadow_simps [simp]:
  "shadow w \<noteq> ''__pending''" "shadow w \<noteq> ''__saved''" "shadow w \<noteq> ''__triggered''" "shadow w \<noteq> ''__assm_ok''"
  "shadow w \<noteq> ''__save''" "shadow v = shadow w \<longleftrightarrow> v = w"
  by (simp_all add: shadow_def)

lemma shadow_simps' [simp]:
  "''__pending'' \<noteq> shadow w" "''__saved'' \<noteq> shadow w" "''__triggered'' \<noteq> shadow w" "''__assm_ok'' \<noteq> shadow w" "''__save'' \<noteq> shadow w"
  by (simp_all add: shadow_def)

lemma unreserved_names:
  assumes "unreserved ts" "x \<in> ts_names ts"
  shows "x \<noteq> ''__pending''" "x \<noteq> ''__saved''" "x \<noteq> ''__triggered''" "x \<noteq> ''__assm_ok''" "x \<noteq> ''__save''" "x \<noteq> shadow w"
  using assms unfolding unreserved_def shadow_def by (auto simp: prefix_def)

lemma l2s_guard_ok:
  assumes as: "assumptions_ok P0 ts" "P0 \<subseteq> P" and P: "pool_ok n P" and new: "''__assm_ok'' \<notin> set (ts_state L)"
    and L: "sys_ok P N L" "ts_assumptions ts \<noteq> [] \<longrightarrow> insert ''__assm_ok'' (ts_names ts) \<subseteq> N"
  obtains L' g n' P' where "run_state (l2s_guard ts L) n = ((L', g), n')" "pool_ok n' P'" "P \<subseteq> P'" "g \<in> P'" "sys_ok P' N L'"
    "ts_state L' = ts_state L @ (if ts_assumptions ts = [] then [] else [''__assm_ok''])" "ts_inputs L' = ts_inputs L"
    "svars g \<subseteq> N"
    "\<And>\<rho> \<rho>'. step L' \<rho> \<rho>' \<longleftrightarrow> step L \<rho> \<rho>' \<and> (ts_assumptions ts \<noteq> [] \<longrightarrow> \<rho>' ''__assm_ok'' = (\<rho> ''__assm_ok'' \<and> assumed ts \<rho>))"
    "\<And>\<rho>. is_init L' \<rho> \<longleftrightarrow> is_init L \<rho> \<and> (ts_assumptions ts \<noteq> [] \<longrightarrow> \<rho> ''__assm_ok'')"
    "\<And>\<rho>. sval \<rho> g \<longleftrightarrow> (ts_assumptions ts \<noteq> [] \<longrightarrow> \<rho> ''__assm_ok'' \<and> assumed ts \<rho>)"
proof (cases "ts_assumptions ts = []")
  case True
  show ?thesis
    by (rule that [of L TRUE_s n P]) (use True P L(1) in \<open>simp_all add: l2s_guard_def pool_ok_def\<close>)
next
  case False
  let ?x = "''__assm_ok''"
  have "set (ts_assumptions ts) \<subseteq> P" using as by (auto simp: assumptions_ok_def)
  then obtain assm n2 P2 where 2: "run_state (AND_s (ts_assumptions ts)) n = (assm, n2)" "pool_ok n2 P2" "P \<subseteq> P2" "assm \<in> P2"
    "\<And>\<rho>. sval \<rho> assm = (\<forall>x \<in> set (ts_assumptions ts). sval \<rho> x)" "svars assm \<subseteq> (\<Union>x \<in> set (ts_assumptions ts). svars x)"
    by (rule take_AND [OF P]) (rule that)
  obtain aok n3 P3 where 3: "run_state (VAR_s ?x) n2 = (aok, n3)" "pool_ok n3 P3" "P2 \<subseteq> P3" "aok \<in> P3"
    "\<And>\<rho>. sval \<rho> aok = \<rho> ?x" "svars aok \<subseteq> {?x}" by (rule take_VAR [OF 2(2) empty_subsetI]) (rule that)
  have "set [aok, assm] \<subseteq> P3" using 2(4) 3(3,4) by auto
  then obtain held n4 P4 where 4: "run_state (AND_s [aok, assm]) n3 = (held, n4)" "pool_ok n4 P4" "P3 \<subseteq> P4" "held \<in> P4"
    "\<And>\<rho>. sval \<rho> held = (\<forall>x \<in> set [aok, assm]. sval \<rho> x)" "svars held \<subseteq> (\<Union>x \<in> set [aok, assm]. svars x)"
    by (rule take_AND [OF 3(2)]) (rule that)
  have "set [aok, assm] \<subseteq> P4" using 2(4) 3(3,4) 4(3) by auto
  then obtain g n5 P5 where 5: "run_state (AND_s [aok, assm]) n4 = (g, n5)" "pool_ok n5 P5" "P4 \<subseteq> P5" "g \<in> P5"
    "\<And>\<rho>. sval \<rho> g = (\<forall>x \<in> set [aok, assm]. sval \<rho> x)" "svars g \<subseteq> (\<Union>x \<in> set [aok, assm]. svars x)"
    by (rule take_AND [OF 4(2)]) (rule that)
  have assm: "sval \<rho> assm = assumed ts \<rho>" "svars assm \<subseteq> ts_names ts" for \<rho>
    using 2(5,6) as(1) unfolding assumed_def assumptions_ok_def by blast+
  have "svars aok \<union> svars assm \<subseteq> N" using 3(6) assm(2) L(2) False by auto
  then have v: "svars held \<subseteq> N" "svars g \<subseteq> N" using order_trans [OF 4(6)] order_trans [OF 5(6)] by simp_all
  have sub: "P \<subseteq> P5" using 2(3) 3(3) 4(3) 5(3) by blast
  have so: "sys_ok P5 N (add_state_bit ?x True held L)"
    by (rule sys_ok_add [OF sys_ok_mono [OF L(1) sub order_refl]]) (use 4(4) 5(3) v(1) in auto)
  show ?thesis
    by (rule that [of "add_state_bit ?x True held L" g n5 P5])
      (use False 2(1) 3(1) 4(1) 5(1,2,4) sub so v(2) in
        \<open>simp_all add: l2s_guard_def step_add [OF new] init_add [OF new] 3(5) 4(5) 5(5) assm(1)\<close>)
qed

lemma l2s_obligation_ok:
  assumes P: "pool_ok n P" "{a, b, save} \<subseteq> P" and save: "\<And>\<rho>. sval \<rho> save = \<rho> ''__save''" "svars save \<subseteq> {''__save''}"
    and new: "''__pending'' \<notin> set (ts_state L)" "''__saved'' \<notin> set (ts_state L)"
    and L: "sys_ok P N L" "svars a \<union> svars b \<union> {''__pending'', ''__saved'', ''__save''} \<subseteq> N"
  obtains p saved L' n' P' where "run_state (l2s_obligation a b save L) n = ((p, saved, L'), n')" "pool_ok n' P'" "P \<subseteq> P'"
    "{p, saved} \<subseteq> P'" "\<And>\<rho>. sval \<rho> p = (\<not> \<rho> ''__pending'')" "svars p \<subseteq> {''__pending''}"
    "\<And>\<rho>. sval \<rho> saved = \<rho> ''__saved''" "svars saved \<subseteq> {''__saved''}" "sys_ok P' N L'"
    "ts_state L' = ts_state L @ [''__pending'', ''__saved'']" "ts_inputs L' = ts_inputs L"
    "\<And>\<rho> \<rho>'. step L' \<rho> \<rho>' \<longleftrightarrow> step L \<rho> \<rho>' \<and> \<rho>' ''__pending'' = pends a b \<rho> \<and> \<rho>' ''__saved'' = (\<rho> ''__saved'' \<or> \<rho> ''__save'')"
    "\<And>\<rho>. is_init L' \<rho> \<longleftrightarrow> is_init L \<rho> \<and> \<not> \<rho> ''__pending'' \<and> \<not> \<rho> ''__saved''"
proof -
  let ?pn = "''__pending''" let ?sv = "''__saved''"
  obtain pending n1 P1 where 1: "run_state (VAR_s ?pn) n = (pending, n1)" "pool_ok n1 P1" "P \<subseteq> P1" "pending \<in> P1"
    "\<And>\<rho>. sval \<rho> pending = \<rho> ?pn" "svars pending \<subseteq> {?pn}" by (rule take_VAR [OF P(1) empty_subsetI]) (rule that)
  have "set [pending, a] \<subseteq> P1" using 1(3,4) P(2) by auto
  then obtain owed n2 P2 where 2: "run_state (OR_s [pending, a]) n1 = (owed, n2)" "pool_ok n2 P2" "P1 \<subseteq> P2" "owed \<in> P2"
    "\<And>\<rho>. sval \<rho> owed = (\<exists>x \<in> set [pending, a]. sval \<rho> x)" "svars owed \<subseteq> (\<Union>x \<in> set [pending, a]. svars x)"
    by (rule take_OR [OF 1(2)]) (rule that)
  have "{b} \<subseteq> P2" using 1(3) 2(3) P(2) by auto
  then obtain nb n3 P3 where 3: "run_state (NOT_s b) n2 = (nb, n3)" "pool_ok n3 P3" "P2 \<subseteq> P3" "nb \<in> P3"
    "\<And>\<rho>. sval \<rho> nb = (\<not> sval \<rho> b)" "svars nb \<subseteq> svars b" by (rule take_NOT [OF 2(2)]) (rule that)
  have "set [owed, nb] \<subseteq> P3" using 2(4) 3(3,4) by auto
  then obtain pn n4 P4 where 4: "run_state (AND_s [owed, nb]) n3 = (pn, n4)" "pool_ok n4 P4" "P3 \<subseteq> P4" "pn \<in> P4"
    "\<And>\<rho>. sval \<rho> pn = (\<forall>x \<in> set [owed, nb]. sval \<rho> x)" "svars pn \<subseteq> (\<Union>x \<in> set [owed, nb]. svars x)"
    by (rule take_AND [OF 3(2)]) (rule that)
  have "{pending} \<subseteq> P4" using 1(4) 2(3) 3(3) 4(3) by auto
  then obtain p n5 P5 where 5: "run_state (NOT_s pending) n4 = (p, n5)" "pool_ok n5 P5" "P4 \<subseteq> P5" "p \<in> P5"
    "\<And>\<rho>. sval \<rho> p = (\<not> sval \<rho> pending)" "svars p \<subseteq> svars pending" by (rule take_NOT [OF 4(2)]) (rule that)
  obtain saved n6 P6 where 6: "run_state (VAR_s ?sv) n5 = (saved, n6)" "pool_ok n6 P6" "P5 \<subseteq> P6" "saved \<in> P6"
    "\<And>\<rho>. sval \<rho> saved = \<rho> ?sv" "svars saved \<subseteq> {?sv}" by (rule take_VAR [OF 5(2) empty_subsetI]) (rule that)
  have up: "P4 \<subseteq> P6" "P \<subseteq> P6" using 1(3) 2(3) 3(3) 4(3) 5(3) 6(3) by auto
  have "set [saved, save] \<subseteq> P6" using 6(4) P(2) up(2) by auto
  then obtain sn n7 P7 where 7: "run_state (OR_s [saved, save]) n6 = (sn, n7)" "pool_ok n7 P7" "P6 \<subseteq> P7" "sn \<in> P7"
    "\<And>\<rho>. sval \<rho> sn = (\<exists>x \<in> set [saved, save]. sval \<rho> x)" "svars sn \<subseteq> (\<Union>x \<in> set [saved, save]. svars x)"
    by (rule take_OR [OF 6(2)]) (rule that)
  let ?L1 = "add_state_bit ?pn False pn L" let ?L2 = "add_state_bit ?sv False sn ?L1"
  have new2: "?sv \<notin> set (ts_state ?L1)" using new by simp
  have v: "svars pn \<subseteq> N" "svars sn \<subseteq> N" using 1(6) 2(6) 3(6) 4(6) 6(6) 7(6) L(2) save(2) by (simp_all, blast+)
  have up7: "P \<subseteq> P7" "pn \<in> P7" "p \<in> P7" "saved \<in> P7" using up 4(4) 5(4) 6(3,4) 7(3) by auto
  show ?thesis
  proof (rule that [of p saved ?L2 n7 P7])
    show "sys_ok P7 N ?L2"
      by (rule sys_ok_add [OF sys_ok_add [OF sys_ok_mono [OF L(1) up7(1) order_refl] up7(2) v(1)] 7(4) v(2)])
    show "step ?L2 \<rho> \<rho>' \<longleftrightarrow> step L \<rho> \<rho>' \<and> \<rho>' ?pn = pends a b \<rho> \<and> \<rho>' ?sv = (\<rho> ?sv \<or> \<rho> ''__save'')" for \<rho> \<rho>'
      by (simp add: step_add [OF new(1)] step_add [OF new2] pends_def 1(5) 2(5) 3(5) 4(5) 6(5) 7(5) save(1))
  qed (use 1(1,5,6) 2(1) 3(1) 4(1) 5(1,5,6) 6(1,5,6) 7(1,2) up7 in
      \<open>simp_all add: l2s_obligation_def init_add [OF new(1)] init_add [OF new2]\<close>)
qed

lemma l2s_trigger_ok:
  assumes P: "pool_ok n P" "{saved, save, p} \<subseteq> P" and save: "\<And>\<rho>. sval \<rho> save = \<rho> ''__save''" "svars save \<subseteq> {''__save''}"
    and p: "\<And>\<rho>. sval \<rho> p = (\<not> \<rho> ''__pending'')" "svars p \<subseteq> {''__pending''}"
    and saved: "\<And>\<rho>. sval \<rho> saved = \<rho> ''__saved''" "svars saved \<subseteq> {''__saved''}"
    and new: "''__triggered'' \<notin> set (ts_state L)"
    and L: "sys_ok P N L" "{''__pending'', ''__saved'', ''__save'', ''__triggered''} \<subseteq> N"
  obtains trig L' n' P' where "run_state (l2s_trigger saved save p L) n = ((trig, L'), n')" "pool_ok n' P'" "P \<subseteq> P'"
    "trig \<in> P'" "\<And>\<rho>. sval \<rho> trig = \<rho> ''__triggered''" "svars trig \<subseteq> {''__triggered''}" "sys_ok P' N L'"
    "ts_state L' = ts_state L @ [''__triggered'']" "ts_inputs L' = ts_inputs L"
    "\<And>\<rho> \<rho>'. step L' \<rho> \<rho>' \<longleftrightarrow> step L \<rho> \<rho>' \<and>
      \<rho>' ''__triggered'' = ((\<rho> ''__saved'' \<or> \<rho> ''__save'') \<and> (\<rho> ''__triggered'' \<or> \<not> \<rho> ''__pending''))"
    "\<And>\<rho>. is_init L' \<rho> \<longleftrightarrow> is_init L \<rho> \<and> \<not> \<rho> ''__triggered''"
proof -
  let ?tr = "''__triggered''"
  obtain trig n9 P9 where 9: "run_state (VAR_s ?tr) n = (trig, n9)" "pool_ok n9 P9" "P \<subseteq> P9" "trig \<in> P9"
    "\<And>\<rho>. sval \<rho> trig = \<rho> ?tr" "svars trig \<subseteq> {?tr}" by (rule take_VAR [OF P(1) empty_subsetI]) (rule that)
  have "set [saved, save] \<subseteq> P9" using P(2) 9(3) by auto
  then obtain ins n10 P10 where 10: "run_state (OR_s [saved, save]) n9 = (ins, n10)" "pool_ok n10 P10" "P9 \<subseteq> P10" "ins \<in> P10"
    "\<And>\<rho>. sval \<rho> ins = (\<exists>x \<in> set [saved, save]. sval \<rho> x)" "svars ins \<subseteq> (\<Union>x \<in> set [saved, save]. svars x)"
    by (rule take_OR [OF 9(2)]) (rule that)
  have "set [trig, p] \<subseteq> P10" using P(2) 9(3,4) 10(3) by auto
  then obtain sp n11 P11 where 11: "run_state (OR_s [trig, p]) n10 = (sp, n11)" "pool_ok n11 P11" "P10 \<subseteq> P11" "sp \<in> P11"
    "\<And>\<rho>. sval \<rho> sp = (\<exists>x \<in> set [trig, p]. sval \<rho> x)" "svars sp \<subseteq> (\<Union>x \<in> set [trig, p]. svars x)"
    by (rule take_OR [OF 10(2)]) (rule that)
  have "{ins, sp, FALSE_s} \<subseteq> P11" using 10(4) 11(2,3,4) by (auto simp: pool_ok_def)
  then obtain tn n12 P12 where 12: "run_state (ITE_s ins sp FALSE_s) n11 = (tn, n12)" "pool_ok n12 P12" "P11 \<subseteq> P12" "tn \<in> P12"
    "\<And>\<rho>. sval \<rho> tn = (if sval \<rho> ins then sval \<rho> sp else sval \<rho> FALSE_s)" "svars tn \<subseteq> svars ins \<union> svars sp \<union> svars FALSE_s"
    by (rule take_ITE [OF 11(2)]) (rule that)
  let ?L = "add_state_bit ?tr False tn L"
  have v: "svars tn \<subseteq> N" using 9(6) 10(6) 11(6) 12(6) save(2) p(2) saved(2) L(2) by (simp, blast)
  have up: "P \<subseteq> P12" "trig \<in> P12" using 9(3,4) 10(3) 11(3) 12(3) by auto
  show ?thesis
  proof (rule that [of trig ?L n12 P12])
    show "sys_ok P12 N ?L" by (rule sys_ok_add [OF sys_ok_mono [OF L(1) up(1) order_refl] 12(4) v])
    show "step ?L \<rho> \<rho>' \<longleftrightarrow> step L \<rho> \<rho>' \<and> \<rho>' ?tr = ((\<rho> ''__saved'' \<or> \<rho> ''__save'') \<and> (\<rho> ?tr \<or> \<not> \<rho> ''__pending''))" for \<rho> \<rho>'
      by (simp add: step_add [OF new] 9(5) 10(5) 11(5) 12(5) save(1) p(1) saved(1))
  qed (use 9(1,5,6) 10(1) 11(1) 12(1,2) up in \<open>simp_all add: l2s_trigger_def init_add [OF new]\<close>)
qed

lemma l2s_latches_ok:
  assumes wf: "wf_ts P0 ts" and as: "assumptions_ok P0 ts" and ab: "a \<in> P0" "b \<in> P0" "svars a \<union> svars b \<subseteq> ts_names ts"
    and un: "unreserved ts" and P: "pool_ok n P" "P0 \<subseteq> P" and save: "save \<in> P" "\<And>\<rho>. sval \<rho> save = \<rho> ''__save''" "svars save \<subseteq> {''__save''}"
    and L: "ts_state L = ts_state ts" "ts_inputs L = ts_inputs ts @ [''__save'']" "sys_ok P (ts_names ts) L"
      "\<And>\<rho> \<rho>'. step L \<rho> \<rho>' \<longleftrightarrow> step ts \<rho> \<rho>'" "\<And>\<rho>. is_init L \<rho> \<longleftrightarrow> is_init ts \<rho>"
  obtains saved trig g R n' P' where "run_state (l2s_latches ts a b save L) n = ((saved, trig, g, R), n')" "pool_ok n' P'" "P \<subseteq> P'"
    "{saved, trig, g} \<subseteq> P'" "\<And>\<rho>. sval \<rho> saved = \<rho> ''__saved''" "svars saved \<subseteq> {''__saved''}"
    "\<And>\<rho>. sval \<rho> trig = \<rho> ''__triggered''" "svars trig \<subseteq> {''__triggered''}"
    "\<And>\<rho>. sval \<rho> g \<longleftrightarrow> (ts_assumptions ts \<noteq> [] \<longrightarrow> \<rho> ''__assm_ok'' \<and> assumed ts \<rho>)" "svars g \<subseteq> all_names ts"
    "sys_ok P' (all_names ts) R" "ts_names R = all_names ts" "distinct (ts_state R @ ts_inputs R)"
    "\<And>\<rho> \<rho>'. step R \<rho> \<rho>' \<longleftrightarrow> b_step (monitor ts a b) \<rho> \<rho>'" "\<And>\<rho>. is_init R \<rho> \<longleftrightarrow> b_init (monitor ts a b) \<rho>"
proof -
  let ?N = "all_names ts" let ?pn = "''__pending''" let ?sv = "''__saved''" let ?tr = "''__triggered''"
  have N: "ts_names ts \<subseteq> ?N" "svars a \<union> svars b \<union> {?pn, ?sv, ''__save''} \<subseteq> ?N"
    "insert ?sv (set (watched ts) \<union> shadow ` set (watched ts)) \<subseteq> ?N" "{?pn, ?sv, ''__save'', ?tr} \<subseteq> ?N"
    using ab(3) by (auto simp: all_names_def)
  have st: "x \<noteq> ?pn \<and> x \<noteq> ?sv \<and> x \<noteq> ?tr \<and> x \<noteq> ''__assm_ok'' \<and> x \<noteq> ''__save'' \<and> x \<noteq> shadow w"
    if "x \<in> set (ts_state ts) \<union> set (ts_inputs ts)" for x w
    using unreserved_names [OF un, of x] that by (simp add: ts_names_def)
  have d: "distinct (ts_state ts @ ts_inputs ts)" using wf by (simp add: wf_ts_def)
  have inP: "{a, b, save} \<subseteq> P" using ab P(2) save(1) by blast
  have new: "?pn \<notin> set (ts_state L)" "?sv \<notin> set (ts_state L)" using st L(1) by auto
  obtain p saved L1 n1 P1 where 1: "run_state (l2s_obligation a b save L) n = ((p, saved, L1), n1)" "pool_ok n1 P1" "P \<subseteq> P1"
    "{p, saved} \<subseteq> P1" "\<And>\<rho>. sval \<rho> p = (\<not> \<rho> ''__pending'')" "svars p \<subseteq> {''__pending''}"
    "\<And>\<rho>. sval \<rho> saved = \<rho> ''__saved''" "svars saved \<subseteq> {''__saved''}" "sys_ok P1 ?N L1"
    "ts_state L1 = ts_state L @ [''__pending'', ''__saved'']" "ts_inputs L1 = ts_inputs L"
    "\<And>\<rho> \<rho>'. step L1 \<rho> \<rho>' \<longleftrightarrow> step L \<rho> \<rho>' \<and> \<rho>' ''__pending'' = pends a b \<rho> \<and> \<rho>' ''__saved'' = (\<rho> ''__saved'' \<or> \<rho> ''__save'')"
    "\<And>\<rho>. is_init L1 \<rho> \<longleftrightarrow> is_init L \<rho> \<and> \<not> \<rho> ''__pending'' \<and> \<not> \<rho> ''__saved''"
    by (rule l2s_obligation_ok [OF P(1) inP save(2,3) new sys_ok_mono [OF L(3) order_refl N(1)] N(2)]) (rule that)
  have dw: "distinct (watched ts)" using d st by (auto simp: watched_def)
  have sv: "saved \<in> P1" and sh: "shadow ` set (watched ts) \<inter> set (ts_state L1) = {}" using 1(4,10) st L(1) by auto
  obtain n2 P2 L2 where 2: "run_state (add_shadows saved (watched ts) L1) n1 = (L2, n2)" "pool_ok n2 P2" "P1 \<subseteq> P2"
    "ts_state L2 = ts_state L1 @ map shadow (watched ts)" "ts_inputs L2 = ts_inputs L1"
    "\<forall>N. sys_ok P1 N L1 \<and> insert ?sv (set (watched ts) \<union> shadow ` set (watched ts)) \<subseteq> N \<longrightarrow> sys_ok P2 N L2"
    "\<forall>\<rho> \<rho>'. step L2 \<rho> \<rho>' \<longleftrightarrow> step L1 \<rho> \<rho>' \<and> (\<forall>w \<in> set (watched ts). \<rho>' (shadow w) = (if \<rho> ?sv then \<rho> (shadow w) else \<rho> w))"
    "\<forall>\<rho>. is_init L2 \<rho> \<longleftrightarrow> is_init L1 \<rho> \<and> (\<forall>w \<in> set (watched ts). \<not> \<rho> (shadow w))"
    by (rule exE [OF run_add_shadows [OF dw 1(7,8,2) sv sh]], elim exE conjE) (rule that)
  have in2: "{saved, save, p} \<subseteq> P2" using inP 1(3,4) 2(3) by auto
  have new2: "?tr \<notin> set (ts_state L2)" using st L(1) 1(10) 2(4) by (auto simp: watched_def)
  have s2: "sys_ok P2 ?N L2" using 2(6) 1(9) N(3) by blast
  obtain trig L3 n3 P3 where 3: "run_state (l2s_trigger saved save p L2) n2 = ((trig, L3), n3)" "pool_ok n3 P3" "P2 \<subseteq> P3"
    "trig \<in> P3" "\<And>\<rho>. sval \<rho> trig = \<rho> ''__triggered''" "svars trig \<subseteq> {''__triggered''}" "sys_ok P3 ?N L3"
    "ts_state L3 = ts_state L2 @ [''__triggered'']" "ts_inputs L3 = ts_inputs L2"
    "\<And>\<rho> \<rho>'. step L3 \<rho> \<rho>' \<longleftrightarrow> step L2 \<rho> \<rho>' \<and>
      \<rho>' ''__triggered'' = ((\<rho> ''__saved'' \<or> \<rho> ''__save'') \<and> (\<rho> ''__triggered'' \<or> \<not> \<rho> ''__pending''))"
    "\<And>\<rho>. is_init L3 \<rho> \<longleftrightarrow> is_init L2 \<rho> \<and> \<not> \<rho> ''__triggered''"
    by (rule l2s_trigger_ok [OF 2(2) in2 save(2,3) 1(5,6,7,8) new2 s2 N(4)]) (rule that)
  have up: "P0 \<subseteq> P3" using P(2) 1(3) 2(3) 3(3) by blast
  have st3: "ts_state L3 = ts_state ts @ [?pn, ?sv] @ map shadow (watched ts) @ [?tr]" using L(1) 1(10) 2(4) 3(8) by simp
  have new3: "''__assm_ok'' \<notin> set (ts_state L3)" using st unfolding st3 by auto
  have N5: "ts_assumptions ts \<noteq> [] \<longrightarrow> insert ''__assm_ok'' (ts_names ts) \<subseteq> ?N" by (auto simp: all_names_def)
  obtain R g n4 P4 where 4: "run_state (l2s_guard ts L3) n3 = ((R, g), n4)" "pool_ok n4 P4" "P3 \<subseteq> P4" "g \<in> P4" "sys_ok P4 ?N R"
    "ts_state R = ts_state L3 @ (if ts_assumptions ts = [] then [] else [''__assm_ok''])" "ts_inputs R = ts_inputs L3" "svars g \<subseteq> ?N"
    "\<And>\<rho> \<rho>'. step R \<rho> \<rho>' \<longleftrightarrow> step L3 \<rho> \<rho>' \<and> (ts_assumptions ts \<noteq> [] \<longrightarrow> \<rho>' ''__assm_ok'' = (\<rho> ''__assm_ok'' \<and> assumed ts \<rho>))"
    "\<And>\<rho>. is_init R \<rho> \<longleftrightarrow> is_init L3 \<rho> \<and> (ts_assumptions ts \<noteq> [] \<longrightarrow> \<rho> ''__assm_ok'')"
    "\<And>\<rho>. sval \<rho> g \<longleftrightarrow> (ts_assumptions ts \<noteq> [] \<longrightarrow> \<rho> ''__assm_ok'' \<and> assumed ts \<rho>)"
    by (rule l2s_guard_ok [OF as up 3(2) new3 3(7) N5]) (rule that)
  have inR: "ts_inputs R = ts_inputs ts @ [''__save'']" using L(2) 1(11) 2(5) 3(9) 4(7) by simp
  show ?thesis
  proof (rule that [of saved trig g R n4 P4])
    show "run_state (l2s_latches ts a b save L) n = ((saved, trig, g, R), n4)"
      using 1(1) 2(1) 3(1) 4(1) by (simp add: l2s_latches_def watched_def)
    show "ts_names R = ?N" by (auto simp: ts_names_def all_names_def 4(6) st3 inR watched_def)
    show "distinct (ts_state R @ ts_inputs R)"
      using d dw st unfolding 4(6) st3 inR by (auto simp: distinct_map inj_on_def)
    show "step R \<rho> \<rho>' \<longleftrightarrow> b_step (monitor ts a b) \<rho> \<rho>'" for \<rho> \<rho>'
      unfolding 4(9) 3(10) 2(7) [rule_format] 1(12) L(4) monitor_def by simp
    show "is_init R \<rho> \<longleftrightarrow> b_init (monitor ts a b) \<rho>" for \<rho>
      unfolding 4(10) 3(11) 2(8) [rule_format] 1(13) L(5) monitor_def by simp
    show "{saved, trig, g} \<subseteq> P4" "P \<subseteq> P4" using 1(3,4) 2(3) 3(3,4) 4(3,4) by auto
  qed (fact 4(2) 1(7,8) 3(5,6) 4(5,8,11))+
qed

lemma l2s_monitor_ok:
  assumes wf: "wf_ts P0 ts" and as: "assumptions_ok P0 ts" and ab: "a \<in> P0" "b \<in> P0" "svars a \<union> svars b \<subseteq> ts_names ts"
    and un: "unreserved ts" and P: "pool_ok n P" "P0 \<subseteq> P" and save: "save \<in> P" "\<And>\<rho>. sval \<rho> save = \<rho> ''__save''" "svars save \<subseteq> {''__save''}"
    and L: "ts_state L = ts_state ts" "ts_inputs L = ts_inputs ts @ [''__save'']" "sys_ok P (ts_names ts) L"
      "\<And>\<rho> \<rho>'. step L \<rho> \<rho>' \<longleftrightarrow> step ts \<rho> \<rho>'" "\<And>\<rho>. is_init L \<rho> \<longleftrightarrow> is_init ts \<rho>"
  obtains R n' P' where "run_state (l2s_monitor ts a b save L) n = (R, n')" "pool_ok n' P'" "P \<subseteq> P'" "wf_ts P' R"
    "\<And>\<rho> \<rho>'. step R \<rho> \<rho>' \<longleftrightarrow> b_step (monitor ts a b) \<rho> \<rho>'" "\<And>\<rho>. is_init R \<rho> \<longleftrightarrow> b_init (monitor ts a b) \<rho>"
    "\<And>\<rho>. is_bad R \<rho> \<longleftrightarrow> b_bad (monitor ts a b) \<rho>"
proof -
  let ?N = "all_names ts"
  obtain saved trig g R n1 P1 where 1: "run_state (l2s_latches ts a b save L) n = ((saved, trig, g, R), n1)" "pool_ok n1 P1" "P \<subseteq> P1"
    "{saved, trig, g} \<subseteq> P1" "\<And>\<rho>. sval \<rho> saved = \<rho> ''__saved''" "svars saved \<subseteq> {''__saved''}"
    "\<And>\<rho>. sval \<rho> trig = \<rho> ''__triggered''" "svars trig \<subseteq> {''__triggered''}"
    "\<And>\<rho>. sval \<rho> g \<longleftrightarrow> (ts_assumptions ts \<noteq> [] \<longrightarrow> \<rho> ''__assm_ok'' \<and> assumed ts \<rho>)" "svars g \<subseteq> ?N"
    "sys_ok P1 ?N R" "ts_names R = ?N" "distinct (ts_state R @ ts_inputs R)"
    "\<And>\<rho> \<rho>'. step R \<rho> \<rho>' \<longleftrightarrow> b_step (monitor ts a b) \<rho> \<rho>'" "\<And>\<rho>. is_init R \<rho> \<longleftrightarrow> b_init (monitor ts a b) \<rho>"
    by (rule l2s_latches_ok [OF wf as ab un P save L]) (rule that)
  obtain eqs n2 P2 where 2: "run_state (alloc_map match_shadow (watched ts)) n1 = (eqs, n2)" "pool_ok n2 P2" "P1 \<subseteq> P2" "set eqs \<subseteq> P2"
    "\<And>\<rho>. (\<forall>e \<in> set eqs. sval \<rho> e) = (\<forall>w \<in> set (watched ts). \<rho> w = \<rho> (shadow w))"
    "(\<Union>e \<in> set eqs. svars e) \<subseteq> set (watched ts) \<union> shadow ` set (watched ts)"
    by (rule take_matches [OF 1(2)]) (rule that)
  obtain lc n3 P3 where 3: "run_state (AND_s eqs) n2 = (lc, n3)" "pool_ok n3 P3" "P2 \<subseteq> P3" "lc \<in> P3"
    "\<And>\<rho>. sval \<rho> lc = (\<forall>x \<in> set eqs. sval \<rho> x)" "svars lc \<subseteq> (\<Union>x \<in> set eqs. svars x)"
    by (rule take_AND [OF 2(2,4)]) (rule that)
  have "{trig} \<subseteq> P3" using 1(4) 2(3) 3(3) by auto
  then obtain nt n4 P4 where 4: "run_state (NOT_s trig) n3 = (nt, n4)" "pool_ok n4 P4" "P3 \<subseteq> P4" "nt \<in> P4"
    "\<And>\<rho>. sval \<rho> nt = (\<not> sval \<rho> trig)" "svars nt \<subseteq> svars trig" by (rule take_NOT [OF 3(2)]) (rule that)
  have "set [saved, lc, nt, g] \<subseteq> P4" using 1(4) 2(3) 3(3,4) 4(3,4) by auto
  then obtain bad n5 P5 where 5: "run_state (AND_s [saved, lc, nt, g]) n4 = (bad, n5)" "pool_ok n5 P5" "P4 \<subseteq> P5" "bad \<in> P5"
    "\<And>\<rho>. sval \<rho> bad = (\<forall>x \<in> set [saved, lc, nt, g]. sval \<rho> x)" "svars bad \<subseteq> (\<Union>x \<in> set [saved, lc, nt, g]. svars x)"
    by (rule take_AND [OF 4(2)]) (rule that)
  let ?R = "R\<lparr>ts_bad := Some bad\<rparr>"
  have sub: "P1 \<subseteq> P5" using 2(3) 3(3) 4(3) 5(3) by blast
  have "svars saved \<union> svars lc \<union> svars nt \<union> svars g \<subseteq> ?N"
  proof (intro Un_least)
    show "svars lc \<subseteq> ?N" by (rule order_trans [OF 3(6) order_trans [OF 2(6)]]) (auto simp: all_names_def)
    show "svars nt \<subseteq> ?N" by (rule order_trans [OF 4(6) order_trans [OF 1(8)]]) (simp add: all_names_def)
    show "svars saved \<subseteq> ?N" by (rule order_trans [OF 1(6)]) (simp add: all_names_def)
  qed (rule 1(10))
  then have v: "svars bad \<subseteq> ?N" using order_trans [OF 5(6)] by (simp add: Un_assoc)
  have nR: "ts_names ?R = ?N" using 1(12) by (simp add: ts_names_def)
  show ?thesis
  proof (rule that [of ?R n5 P5])
    show "run_state (l2s_monitor ts a b save L) n = (?R, n5)"
      using 1(1) 2(1) 3(1) 4(1) 5(1) by (simp add: l2s_monitor_def watched_def)
    show "wf_ts P5 ?R"
    proof (rule sys_ok_names [OF _ _ refl _ 5(4)])
      show "sys_ok P5 (ts_names ?R) ?R" unfolding nR using sys_ok_mono [OF 1(11) sub order_refl] by (simp add: sys_ok_def)
    qed (use 1(13) 5(2) v nR in \<open>simp_all add: pool_ok_def\<close>)
    show "is_bad ?R \<rho> \<longleftrightarrow> b_bad (monitor ts a b) \<rho>" for \<rho>
      by (simp add: is_bad_def monitor_def 1(5,7,9) 2(5) 3(5) 4(5) 5(5))
  qed (use 1(3,14,15) 5(2) sub in auto)
qed

end
