(* ===== verification/Lasso_Proof.thy ===== *)
theory Lasso_Proof
  imports Lasso
begin

text \<open>
  The two directions of liveness as safety, over the behaviour \<open>monitor\<close> of the system that is built.
\<close>

definition starves :: "trans_system \<Rightarrow> sig \<Rightarrow> sig \<Rightarrow> seq \<Rightarrow> bool" where
  "starves ts a b \<rho> \<longleftrightarrow> is_init ts (\<rho> 0) \<and> (\<forall>i. step ts (\<rho> i) (\<rho> (Suc i))) \<and> (\<forall>i. assumed ts (\<rho> i)) \<and>
     (\<exists>i. sval (\<rho> i) a \<and> (\<forall>j \<ge> i. \<not> sval (\<rho> j) b))"

definition loops :: "trans_system \<Rightarrow> sig \<Rightarrow> sig \<Rightarrow> nat \<Rightarrow> seq \<Rightarrow> bool" where
  "loops ts a b k \<sigma> \<longleftrightarrow> b_init (monitor ts a b) (\<sigma> 0) \<and> (\<forall>i < k. b_step (monitor ts a b) (\<sigma> i) (\<sigma> (Suc i))) \<and>
     b_bad (monitor ts a b) (\<sigma> k)"

subsection \<open>A closed loop unwinds\<close>

text \<open>A sticky latch that is set at the end was set at one step and stays set from then on.\<close>

lemma latch_set:
  assumes "\<not> s 0" "\<forall>i < k. s (Suc i) = (s i \<or> t i)" "s k"
  obtains p where "p < k" "t p" "\<forall>j \<le> k. s j \<longleftrightarrow> p < j"
proof -
  have "\<exists>p < k. t p \<and> (\<forall>j \<le> k. s j \<longleftrightarrow> p < j)" using assms
  proof (induction k)
    case (Suc k)
    show ?case
    proof (cases "s k")
      case True
      then obtain p where "p < k" "t p" "\<forall>j \<le> k. s j \<longleftrightarrow> p < j" using Suc by auto
      then show ?thesis using Suc.prems(3) by (intro exI [of _ p]) (auto simp: le_Suc_eq)
    next
      case False
      have down: "\<not> s j" if "j \<le> k" for j
      proof
        assume "s j"
        from \<open>j \<le> k\<close> have "s k"
          by (induction rule: dec_induct) (use \<open>s j\<close> Suc.prems(2) in auto)
        then show False using False by simp
      qed
      moreover have "t k" using Suc.prems(2,3) False by auto
      ultimately show ?thesis using Suc.prems(3) by (intro exI [of _ k]) (auto simp: le_Suc_eq)
    qed
  qed simp
  then show ?thesis using that by blast
qed

lemma owed:
  assumes "\<not> q 0" "\<forall>i < k. q (Suc i) = ((q i \<or> a i) \<and> \<not> b i)" "m \<le> k" "q m"
  shows "\<exists>i < m. a i \<and> (\<forall>j. i \<le> j \<and> j < m \<longrightarrow> \<not> b j)"
  using assms(3,4)
proof (induction m)
  case (Suc m)
  then have m: "(q m \<or> a m) \<and> \<not> b m" using assms(2) by auto
  show ?case
  proof (cases "a m")
    case True
    then show ?thesis using m by (intro exI [of _ m]) (auto simp: less_Suc_eq)
  next
    case False
    then obtain i where "i < m" "a i" "\<forall>j. i \<le> j \<and> j < m \<longrightarrow> \<not> b j" using Suc m by auto
    then show ?thesis using m by (intro exI [of _ i]) (auto simp: less_Suc_eq)
  qed
qed (use assms(1) in simp)

lemma step_state: "\<forall>n \<in> set (ts_state ts). \<sigma> n = \<sigma>' n \<Longrightarrow> step ts \<rho> \<sigma> = step ts \<rho> \<sigma>'"
  by (simp add: step_def)

text \<open>The positions of a run that repeats the cycle from \<open>p\<close> to \<open>k\<close>.\<close>

definition loop_pos :: "nat \<Rightarrow> nat \<Rightarrow> nat \<Rightarrow> nat" where
  "loop_pos p k j = (if j < p then j else p + (j - p) mod (k - p))"

lemma loop_pos_less: "p < k \<Longrightarrow> loop_pos p k j < k"
  by (auto simp: loop_pos_def) (metis add_diff_inverse_nat less_imp_le_nat mod_less_divisor nat_add_left_cancel_less not_less zero_less_diff)

lemma loop_pos_Suc:
  assumes "p < k"
  shows "loop_pos p k (Suc j) = Suc (loop_pos p k j) \<or> loop_pos p k (Suc j) = p \<and> Suc (loop_pos p k j) = k"
proof (cases "j < p")
  case True
  then show ?thesis using assms by (auto simp: loop_pos_def)
next
  case False
  then have "Suc j - p = Suc (j - p)" by simp
  then show ?thesis using False assms by (simp add: loop_pos_def mod_Suc) auto
qed

lemma unwind:
  assumes l: "loops ts a b k \<sigma>"
  shows "\<exists>\<rho>. starves ts a b \<rho>"
proof -
  let ?q = "\<lambda>i. \<sigma> i ''__pending''" let ?s = "\<lambda>i. \<sigma> i ''__saved''" let ?t = "\<lambda>i. \<sigma> i ''__triggered''"
  note defs = loops_def monitor_def
  obtain p where p: "p < k" "\<sigma> p ''__save''" "\<forall>j \<le> k. ?s j \<longleftrightarrow> p < j"
    using latch_set [of ?s k "\<lambda>i. \<sigma> i ''__save''"] l by (auto simp: defs)
  have shadow: "\<sigma> j (shadow w) = \<sigma> p w" if "p < j" "j \<le> k" "w \<in> set (watched ts)" for j w
    using that(1,2)
  proof (induction j)
    case (Suc j)
    then have "\<sigma> (Suc j) (shadow w) = (if ?s j then \<sigma> j (shadow w) else \<sigma> j w)" using l that(3) by (auto simp: defs)
    then show ?case using Suc p(3) by (cases "p = j") auto
  qed simp
  have same: "\<sigma> k w = \<sigma> p w" if "w \<in> set (watched ts)" for w
    using l shadow [OF p(1) order_refl that] that by (simp add: defs)
  have t: "?t (Suc i) = ((?s i \<or> \<sigma> i ''__save'') \<and> (?t i \<or> \<not> ?q i))" if "i < k" for i using l that by (auto simp: defs)
  have pend: "?q j \<and> \<not> ?t j" if "p \<le> j" "j < k" for j
  proof -
    have "\<not> ?t (Suc j)" if "p \<le> j" "j < k" for j
      using that(2,1)
    proof (induction rule: strict_inc_induct)
      case (base j)
      then show ?case using l by (simp add: defs)
    next
      case (step j)
      then have "?s (Suc j)" using p(3) by simp
      then show ?case using t [of "Suc j"] step by auto
    qed
    from this [OF that] show ?thesis using t [OF that(2)] p(2,3) that by (cases "j = p") auto
  qed
  have qs: "\<forall>i < k. ?q (Suc i) = ((?q i \<or> sval (\<sigma> i) a) \<and> \<not> sval (\<sigma> i) b)" "\<not> ?q 0"
    using l by (auto simp: defs pends_def)
  have qp: "?q p" using pend p(1) by blast
  obtain i where i: "i < p" "sval (\<sigma> i) a" "\<forall>j. i \<le> j \<and> j < p \<longrightarrow> \<not> sval (\<sigma> j) b"
    using owed [OF qs(2,1) less_imp_le [OF p(1)] qp] by blast
  have nb: "\<not> sval (\<sigma> j) b" if "p \<le> j" "j < k" for j
  proof -
    have "?q (Suc j)"
    proof (cases "Suc j = k")
      case True
      then show ?thesis using same [of "''__pending''"] qp by (simp add: watched_def)
    qed (use pend [of "Suc j"] that in simp)
    then show ?thesis using qs(1) that(2) by blast
  qed
  have as: "assumed ts (\<sigma> j)" if "j \<le> k" for j
  proof (cases "ts_assumptions ts = []")
    case False
    then have "latched (\<lambda>i. \<sigma> i ''__assm_ok'') (\<lambda>i. assumed ts (\<sigma> i)) k" "\<sigma> k ''__assm_ok''" "assumed ts (\<sigma> k)"
      using l by (auto simp: defs latched_def)
    then show ?thesis using latched_all that by blast
  qed (simp add: assumed_def)
  let ?\<rho> = "\<lambda>j. \<sigma> (loop_pos p k j)"
  note less = loop_pos_less [OF p(1)]
  have st: "step ts (\<sigma> j) (\<sigma> (Suc j))" if "j < k" for j using l that by (simp add: defs)
  have "step ts (?\<rho> j) (?\<rho> (Suc j))" for j
  proof (cases "loop_pos p k (Suc j) = Suc (loop_pos p k j)")
    case True
    then show ?thesis using st [OF less] by simp
  next
    case False
    then have "loop_pos p k (Suc j) = p" "Suc (loop_pos p k j) = k" using loop_pos_Suc [OF p(1)] by auto
    then show ?thesis using st [OF less, of j] step_state [of ts "\<sigma> k" "\<sigma> p"] same by (simp add: watched_def)
  qed
  moreover have "is_init ts (?\<rho> 0)" using l p(1) i(1) by (simp add: defs loop_pos_def)
  moreover have "sval (?\<rho> i) a" using i(1,2) by (simp add: loop_pos_def)
  moreover have "\<not> sval (?\<rho> j) b" if "i \<le> j" for j
  proof (cases "j < p")
    case True
    then show ?thesis using i(3) that by (simp add: loop_pos_def)
  next
    case False
    then have "p \<le> loop_pos p k j" by (simp add: loop_pos_def)
    then show ?thesis by (rule nb [OF _ less])
  qed
  moreover have "assumed ts (?\<rho> j)" for j by (rule as [OF less_imp_le [OF less]])
  ultimately have "starves ts a b ?\<rho>" unfolding starves_def by (intro conjI allI exI [of _ i] impI) simp_all
  then show ?thesis by blast
qed

subsection \<open>A starving run closes a loop\<close>

text \<open>A run of a finite-state system visits some state twice after any position.\<close>

lemma revisits:
  fixes \<rho> :: seq
  obtains p k where "i \<le> p" "p < k" "\<forall>n \<in> set xs. \<rho> p n = \<rho> k n"
proof -
  let ?f = "\<lambda>j. {n \<in> set xs. \<rho> (i + j) n}"
  have "finite (range ?f)" by (rule finite_subset [of _ "Pow (set xs)"]) auto
  then obtain j where inf: "infinite {j' \<in> UNIV. ?f j' = ?f j}" using pigeonhole_infinite [OF infinite_UNIV_nat, of ?f] by blast
  then have "\<not> {j' \<in> UNIV. ?f j' = ?f j} \<subseteq> {..j}" using finite_subset finite_atMost by blast
  then obtain j' where j': "?f j' = ?f j" "\<not> j' \<le> j" by auto
  have "\<rho> (i + j) n = \<rho> (i + j') n" if "n \<in> set xs" for n using j'(1) that by (auto simp: set_eq_iff)
  then show ?thesis using that [of "i + j" "i + j'"] j'(2) by simp
qed

primrec obligation_at :: "seq \<Rightarrow> sig \<Rightarrow> sig \<Rightarrow> nat \<Rightarrow> bool" where
  "obligation_at \<rho> a b 0 = False"
| "obligation_at \<rho> a b (Suc i) = ((obligation_at \<rho> a b i \<or> sval (\<rho> i) a) \<and> \<not> sval (\<rho> i) b)"

lemma obligation_stuck:
  assumes "sval (\<rho> i) a" "\<forall>j \<ge> i. \<not> sval (\<rho> j) b"
  shows "i < j \<Longrightarrow> obligation_at \<rho> a b j"
  by (induction j) (use assms in \<open>auto simp: less_Suc_eq\<close>)

text \<open>The run of the monitor that saves at \<open>p\<close>.\<close>

definition saving :: "seq \<Rightarrow> sig \<Rightarrow> sig \<Rightarrow> nat \<Rightarrow> seq" where
  "saving \<rho> a b p i x =
     (if x = ''__pending'' then obligation_at \<rho> a b i
      else if x = ''__saved'' then p < i
      else if x = ''__save'' then i = p
      else if x = ''__triggered'' then False
      else if x = ''__assm_ok'' then True
      else if prefix ''__shadow_'' x then
        i \<noteq> 0 \<and> (if drop 9 x = ''__pending'' then obligation_at \<rho> a b (min (i - 1) p) else \<rho> (min (i - 1) p) (drop 9 x))
      else \<rho> i x)"

lemma saving_simps [simp]:
  "saving \<rho> a b p i ''__pending'' = obligation_at \<rho> a b i" "saving \<rho> a b p i ''__saved'' = (p < i)"
  "saving \<rho> a b p i ''__save'' = (i = p)" "\<not> saving \<rho> a b p i ''__triggered''" "saving \<rho> a b p i ''__assm_ok''"
  "saving \<rho> a b p i (shadow w) = (i \<noteq> 0 \<and> (if w = ''__pending'' then obligation_at \<rho> a b (min (i - 1) p) else \<rho> (min (i - 1) p) w))"
  by (simp_all add: saving_def shadow_def)

lemma saving_name:
  assumes "unreserved ts" "x \<in> ts_names ts"
  shows "saving \<rho> a b p i x = \<rho> i x"
proof -
  have "\<not> prefix ''__shadow_'' x" using unreserved_names(6) [OF assms] by (auto simp: prefix_def shadow_def)
  then show ?thesis using unreserved_names [OF assms] by (simp add: saving_def)
qed

lemma wind:
  assumes wf: "wf_ts P ts" and as: "assumptions_ok P ts" and ab: "svars a \<union> svars b \<subseteq> ts_names ts"
    and un: "unreserved ts" and st: "starves ts a b \<rho>"
  shows "\<exists>k \<sigma>. loops ts a b k \<sigma>"
proof -
  obtain i where i: "sval (\<rho> i) a" "\<forall>j \<ge> i. \<not> sval (\<rho> j) b" using st by (auto simp: starves_def)
  obtain p k where pk: "Suc i \<le> p" "p < k" "\<forall>n \<in> set (ts_state ts). \<rho> p n = \<rho> k n" by (rule revisits)
  let ?q = "obligation_at \<rho> a b" let ?\<sigma> = "saving \<rho> a b p"
  have stuck: "?q j" if "i < j" for j by (rule obligation_stuck [OF i that])
  note nm = saving_name [OF un]
  have eq: "\<forall>n \<in> ts_names ts. ?\<sigma> j n = \<rho> j n" for j using nm by blast
  have sv: "sval (?\<sigma> j) a = sval (\<rho> j) a" "sval (?\<sigma> j) b = sval (\<rho> j) b" for j
    using ab eq by (auto intro!: sval_cong)
  have asm: "assumed ts (?\<sigma> j)" for j using assumed_cong [OF as eq] st by (simp add: starves_def)
  have watch: "?\<sigma> j w = (if w = ''__pending'' then ?q j else \<rho> j w)" if "w \<in> set (watched ts)" for j w
    using that nm [of w] by (auto simp: watched_def ts_names_def)
  have "b_init (monitor ts a b) (?\<sigma> 0)"
    using st init_cong [OF eq] by (simp add: monitor_def starves_def)
  moreover have "b_step (monitor ts a b) (?\<sigma> j) (?\<sigma> (Suc j))" for j
  proof -
    have "step ts (?\<sigma> j) (?\<sigma> (Suc j))" using st step_cong [OF wf eq eq] by (simp add: starves_def)
    moreover have "j = p \<or> p < j \<Longrightarrow> ?q j" using stuck pk(1) by auto
    moreover have "min j p = (if p < j then p else j)" "p < j \<longrightarrow> min (j - Suc 0) p = p" "p < j \<longrightarrow> 0 < j" by auto
    ultimately show ?thesis
      using asm watch by (auto simp: monitor_def pends_def sv)
  qed
  moreover have "b_bad (monitor ts a b) (?\<sigma> k)"
  proof -
    have "?q k" "?q p" using stuck pk(1,2) by auto
    moreover have "\<rho> k w = \<rho> p w" if "w \<in> set (watched ts)" "w \<noteq> ''__pending''" for w
      using pk(3) that by (simp add: watched_def)
    moreover have "min (k - 1) p = p" "k \<noteq> 0" using pk(2) by auto
    ultimately show ?thesis using asm watch pk(2) by (simp add: monitor_def)
  qed
  ultimately show ?thesis unfolding loops_def by blast
qed

subsection \<open>The transformation\<close>

lemma liveness_to_safety_ok:
  assumes wf: "wf_ts P ts" and as: "assumptions_ok P ts" and un: "unreserved ts" and P: "pool_ok n P"
    and ab: "py_get (ts_liveness ts) idx = Some (a, b)" "a \<in> P" "b \<in> P" "svars a \<union> svars b \<subseteq> ts_names ts"
  shows "\<exists>L n' P'. run_state (liveness_to_safety ts idx) n = (Some L, n') \<and> pool_ok n' P' \<and> P \<subseteq> P' \<and> wf_ts P' L \<and>
    ((\<exists>k \<sigma>. cex L k \<sigma>) \<longleftrightarrow> (\<exists>\<rho>. starves ts a b \<rho>))"
proof -
  have d: "distinct (ts_state ts @ ts_inputs ts)" using wf by (simp add: wf_ts_def)
  let ?L0 = "TransitionSystem (ts_name ts @ ''_L2S'')\<lparr>ts_inputs := ts_inputs (TransitionSystem (ts_name ts @ ''_L2S'')) @ ts_inputs ts\<rparr>"
  let ?L1 = "?L0\<lparr>ts_inputs := ts_inputs ?L0 @ [''__save'']\<rparr>"
  obtain n1 P1 where 1: "run_state (add_inputs (ts_inputs ts) (TransitionSystem (ts_name ts @ ''_L2S''))) n = (?L0, n1)"
    "pool_ok n1 P1" "P \<subseteq> P1" by (rule run_add_inputs [OF P])
  obtain save n2 P2 where 2: "run_state (VAR_s ''__save'') n1 = (save, n2)" "pool_ok n2 P2" "P1 \<subseteq> P2" "save \<in> P2"
    "\<And>\<rho>. sval \<rho> save = \<rho> ''__save''" "svars save \<subseteq> {''__save''}" by (rule take_VAR [OF 1(2) empty_subsetI]) (rule that)
  have sub: "P \<subseteq> P2" using 1(3) 2(3) by blast
  have L1: "set (ts_state ts) \<inter> set (ts_state ?L1) = {}" "sys_ok P2 (ts_names ts) ?L1"
    by (simp_all add: TransitionSystem_def sys_ok_def)
  obtain L where L: "carry_state ts (ts_state ts) ?L1 = Some L" "ts_state L = ts_state ts" "ts_inputs L = ts_inputs ts @ [''__save'']"
    "sys_ok P2 (ts_names ts) L" "\<And>\<rho> \<rho>'. step L \<rho> \<rho>' \<longleftrightarrow> step ts \<rho> \<rho>'" "\<And>\<rho>. is_init L \<rho> \<longleftrightarrow> is_init ts \<rho>"
    using carry_state_ok [OF sys_ok_mono [OF sys_ok_wf [OF wf] sub order_refl] subset_refl _ L1] d
    by (auto simp: TransitionSystem_def step_def is_init_def)
  obtain R n3 P3 where 3: "run_state (l2s_monitor ts a b save L) n2 = (R, n3)" "pool_ok n3 P3" "P2 \<subseteq> P3" "wf_ts P3 R"
    "\<And>\<rho> \<rho>'. step R \<rho> \<rho>' \<longleftrightarrow> b_step (monitor ts a b) \<rho> \<rho>'" "\<And>\<rho>. is_init R \<rho> \<longleftrightarrow> b_init (monitor ts a b) \<rho>"
    "\<And>\<rho>. is_bad R \<rho> \<longleftrightarrow> b_bad (monitor ts a b) \<rho>"
    by (rule l2s_monitor_ok [OF wf as ab(2-4) un 2(2) sub 2(4-6) L(2-6)]) (rule that)
  have "cex R k \<sigma> \<longleftrightarrow> loops ts a b k \<sigma>" for k \<sigma> by (simp add: cex_def run_def loops_def 3(5-7))
  then have "(\<exists>k \<sigma>. cex R k \<sigma>) \<longleftrightarrow> (\<exists>\<rho>. starves ts a b \<rho>)"
    using unwind wind [OF wf as ab(4) un] by metis
  moreover have "run_state (liveness_to_safety ts idx) n = (Some R, n3)"
    using ab(1) 1(1) 2(1) 3(1) L(1) by (simp add: liveness_to_safety_def add_input_def)
  ultimately show ?thesis using 3(2,3,4) sub by blast
qed

end
