(* ===== verification/Query.thy ===== *)
theory Query
  imports Frames
begin

text \<open>
  Queries: what the engines beyond the plain frames do with a solver. \<open>grows D s s'\<close> says that \<open>s'\<close>
  has, on the variables of \<open>s\<close>, the models of \<open>s\<close> that satisfy \<open>D\<close>; the steps that build a query
  (fresh names, an encoded and asserted signal) have a rule each, they compose, and the answer of
  \<open>solve\<close> is read off the composition.
\<close>

subsection \<open>Growing a query\<close>

definition bounded :: "nat \<Rightarrow> ((nat \<Rightarrow> bool) \<Rightarrow> bool) \<Rightarrow> bool" where
  "bounded n D \<longleftrightarrow> (\<forall>m m'. (\<forall>v \<le> n. m v = m' v) \<longrightarrow> D m = D m')"

definition grows :: "((nat \<Rightarrow> bool) \<Rightarrow> bool) \<Rightarrow> 'a solver_scheme \<Rightarrow> 'a solver_scheme \<Rightarrow> bool" where
  "grows D s s' \<longleftrightarrow> sinv s' \<and> n_vars s \<le> n_vars s' \<and> mods s' \<subseteq> mods s \<and> (\<forall>m \<in> mods s'. D m) \<and>
     (\<forall>m \<in> mods s. D m \<longrightarrow> (\<exists>m' \<in> mods s'. \<forall>v \<le> n_vars s. m' v = m v))"

lemma boundedI: "(\<And>m m'. \<forall>v \<le> n. m v = m' v \<Longrightarrow> D m = D m') \<Longrightarrow> bounded n D"
  by (simp add: bounded_def)

lemma boundedD: "bounded n D \<Longrightarrow> \<forall>v \<le> n. m v = m' v \<Longrightarrow> D m = D m'"
  unfolding bounded_def by blast

lemma bounded_conj: "bounded n D \<Longrightarrow> bounded n E \<Longrightarrow> bounded n (\<lambda>m. D m \<and> E m)"
  by (rule boundedI) (rule conj_cong, erule (1) boundedD [of n D], erule (1) boundedD [of n E])

lemma bounded_mono: "bounded n D \<Longrightarrow> n \<le> n' \<Longrightarrow> bounded n' D"
  by (rule boundedI) (erule boundedD, auto)

lemma bounded_not: "bounded n D \<Longrightarrow> bounded n (\<lambda>m. \<not> D m)"
  unfolding bounded_def by blast

lemma bounded_true [simp]: "bounded n (\<lambda>_. b)"
  by (simp add: bounded_def)

lemma bounded_all: "(\<And>x. x \<in> A \<Longrightarrow> bounded n (D x)) \<Longrightarrow> bounded n (\<lambda>m. \<forall>x \<in> A. D x m)"
  by (rule boundedI) (rule ball_cong [OF refl], rule boundedD)

lemma bounded_sval: "env_ok n env X \<Longrightarrow> svars g \<subseteq> X \<Longrightarrow> bounded n (\<lambda>m. sval (eval_env env m) g)"
  by (rule boundedI) (rule eval_env_cong, auto)

lemma bounded_lit: "lit_ok n l \<Longrightarrow> bounded n (\<lambda>m. sat_lit m l)"
  by (rule boundedI) (rule lit_ok_cong, auto)

lemma bounded_clause: "\<forall>l \<in> set ls. lit_ok n l \<Longrightarrow> bounded n (\<lambda>m. sat_clause m ls)"
proof (rule boundedI)
  fix m m' :: "nat \<Rightarrow> bool" assume a: "\<forall>l \<in> set ls. lit_ok n l" "\<forall>v \<le> n. m v = m' v"
  have "sat_lit m l = sat_lit m' l" if "l \<in> set ls" for l
    using boundedD [OF bounded_lit a(2)] a(1) that by blast
  then show "sat_clause m ls = sat_clause m' ls" by (simp add: sat_clause_def)
qed

lemma growsD:
  assumes "grows D s s'"
  shows "sinv s'" "n_vars s \<le> n_vars s'" "mods s' \<subseteq> mods s" "m \<in> mods s' \<Longrightarrow> D m" "m \<in> mods s' \<Longrightarrow> m \<in> mods s"
    "m \<in> mods s \<Longrightarrow> D m \<Longrightarrow> \<exists>m' \<in> mods s'. \<forall>v \<le> n_vars s. m' v = m v"
  using assms unfolding grows_def by blast+

lemma grows_refl: "sinv s \<Longrightarrow> grows (\<lambda>_. True) s s"
  by (auto simp: grows_def)

lemma grows_extends: "extends s s' \<Longrightarrow> grows (\<lambda>_. True) s s'"
  by (simp add: grows_def extends_def)

lemma grows_cong: "grows D s s' \<Longrightarrow> (\<And>m. D m = E m) \<Longrightarrow> grows E s s'"
  by (simp add: grows_def)

lemma grows_trans:
  assumes 1: "grows D s s1" and 2: "grows E s1 s2" and E: "bounded (n_vars s) E"
  shows "grows (\<lambda>m. D m \<and> E m) s s2"
  unfolding grows_def
proof (intro conjI ballI impI)
  show "sinv s2" "n_vars s \<le> n_vars s2" "mods s2 \<subseteq> mods s"
    using growsD(1) [OF 2] le_trans [OF growsD(2) [OF 1] growsD(2) [OF 2]] subset_trans [OF growsD(3) [OF 2] growsD(3) [OF 1]] .
  show "E m" "D m" if "m \<in> mods s2" for m using growsD(4,5) [OF 2 that] growsD(4) [OF 1] by blast+
  fix m assume m: "m \<in> mods s" "D m \<and> E m"
  obtain m1 where m1: "m1 \<in> mods s1" "\<forall>v \<le> n_vars s. m1 v = m v" using growsD(6) [OF 1 m(1)] m(2) by blast
  have "E m1" using boundedD [OF E m1(2)] m(2) by simp
  then obtain m2 where m2: "m2 \<in> mods s2" "\<forall>v \<le> n_vars s1. m2 v = m1 v" using growsD(6) [OF 2 m1(1)] by blast
  then show "\<exists>m' \<in> mods s2. \<forall>v \<le> n_vars s. m' v = m v" using m1(2) growsD(2) [OF 1] by (metis le_trans)
qed

lemma memo_ok_grows: "memo_ok P env memo s \<Longrightarrow> grows D s s' \<Longrightarrow> memo_ok P env memo s'"
  unfolding memo_ok_def using growsD(2,5) lit_ok_mono by meson

lemma env_ok_grows: "env_ok (n_vars s) env X \<Longrightarrow> grows D s s' \<Longrightarrow> env_ok (n_vars s') env X"
  using env_ok_mono growsD(2) by blast

lemma grows_solve:
  assumes "grows D s s'"
  shows "\<exists>b s''. solve [] s' = Some (b, s'') \<and> (b \<longleftrightarrow> (\<exists>m \<in> mods s. D m)) \<and>
    (b \<longrightarrow> (\<lambda>v. get_value v s'') \<in> mods s \<and> D (\<lambda>v. get_value v s''))"
proof -
  have "inv s'" using growsD(1) [OF assms] by (simp add: sinv_def)
  then obtain b s'' where r: "solve [] s' = Some (b, s'')" "solved [] s' (b, s'')"
    using solve_ok [of s' "[]"] by auto
  have sat: "(\<lambda>v. get_value v s'') \<in> mods s'" if b using r(2) that by (simp add: solved_def)
  have "\<exists>m \<in> mods s'. True" if "m \<in> mods s" "D m" for m using growsD(6) [OF assms that] by blast
  moreover have "\<not> (\<exists>m \<in> mods s'. True)" if "\<not> b" using r(2) that by (simp add: solved_def)
  ultimately show ?thesis using r(1) sat growsD(4,5) [OF assms] by blast
qed

subsection \<open>Asserting literals and signals\<close>

context clause_sink begin

lemma grows_clause:
  assumes s: "sinv s" and ls: "\<forall>l \<in> set ls. lit_ok (n_vars s) l"
  shows "grows (\<lambda>m. sat_clause m ls) s (snd (add ls s))"
proof -
  have "inv s" using s by (simp add: sinv_def)
  note a = add_ok [OF this ls]
  then have "sinv (snd (add ls s))" using s by (auto simp: sinv_def)
  then show ?thesis using a by (auto simp: grows_def)
qed

lemma grows_lit:
  assumes "sinv s" "lit_ok (n_vars s) l"
  shows "grows (\<lambda>m. sat_lit m l) s (snd (add [l] s))"
  using grows_clause [of s "[l]"] assms by (simp add: sat_clause_def)

text \<open>An encoded signal, asserted with the literal or with its negation.\<close>

lemma assert_sig:
  assumes "pool P" "g \<in> P" "sinv s" "env_ok (n_vars s) env X" "svars g \<subseteq> X" "memo_ok P env memo s"
  obtains l memo' s' where "tseitin add g env memo s = Some (l, memo', s')" "extends s s'" "lit_ok (n_vars s') l"
    "\<And>b. grows (\<lambda>m. sval (eval_env env m) g = b) s (snd (add [if b then l else - l] s'))"
    "\<And>b. memo_ok P env memo' (snd (add [if b then l else - l] s'))"
proof -
  obtain l memo' s' where t: "tseitin add g env memo s = Some (l, memo', s')" "extends s s'"
    "memo_ok P env memo' s'" "lit_ok (n_vars s') l" "\<forall>m \<in> mods s'. sat_lit m l = sval (eval_env env m) g"
    by (rule tseitinE [OF assms])
  have g: "grows (\<lambda>m. sval (eval_env env m) g = b) s (snd (add [if b then l else - l] s'))"
    "memo_ok P env memo' (snd (add [if b then l else - l] s'))" for b
  proof -
    let ?l = "if b then l else - l"
    have ok: "lit_ok (n_vars s') ?l" using t(4) by (auto simp: lit_ok_def)
    have nz: "l \<noteq> 0" using t(4) by (simp add: lit_ok_def)
    have val: "sat_lit m ?l = (sval (eval_env env m) g = b)" if "m \<in> mods s'" for m
      using t(5) that nz by (cases b) auto
    note c = grows_lit [OF extendsD(1) [OF t(2)] ok]
    show "grows (\<lambda>m. sval (eval_env env m) g = b) s (snd (add [?l] s'))"
      unfolding grows_def
    proof (intro conjI ballI impI)
      show "sinv (snd (add [?l] s'))" "n_vars s \<le> n_vars (snd (add [?l] s'))" "mods (snd (add [?l] s')) \<subseteq> mods s"
        using growsD(1) [OF c] le_trans [OF extendsD(2) [OF t(2)] growsD(2) [OF c]]
          subset_trans [OF growsD(3) [OF c] extendsD(3) [OF t(2)]] .
      show "sval (eval_env env m) g = b" if "m \<in> mods (snd (add [?l] s'))" for m
        using val growsD(4,5) [OF c that] by blast
      fix m assume m: "m \<in> mods s" "sval (eval_env env m) g = b"
      then obtain m1 where m1: "m1 \<in> mods s'" "\<forall>v \<le> n_vars s. m1 v = m v" using t(2) by (auto simp: extends_def)
      have "sval (eval_env env m1) g = sval (eval_env env m) g" by (rule eval_env_cong [OF assms(4) _ assms(5)]) (use m1(2) in blast)
      then have "sat_lit m1 ?l" using val [OF m1(1)] m(2) by simp
      then obtain m2 where "m2 \<in> mods (snd (add [?l] s'))" "\<forall>v \<le> n_vars s'. m2 v = m1 v" using growsD(6) [OF c m1(1)] by blast
      then show "\<exists>m' \<in> mods (snd (add [?l] s')). \<forall>v \<le> n_vars s. m' v = m v" using m1(2) extendsD(2) [OF t(2)] by (metis le_trans)
    qed
    show "memo_ok P env memo' (snd (add [?l] s'))" by (rule memo_ok_grows [OF t(3) c])
  qed
  show ?thesis by (rule that [OF t(1,2,4) g])
qed

lemma grows_sval: "grows (\<lambda>m. sval (eval_env env m) g = True) s s' \<Longrightarrow> grows (\<lambda>m. sval (eval_env env m) g) s s'"
  by (erule grows_cong) simp

end

subsection \<open>Growing pools\<close>

definition memo_in :: "sig set \<Rightarrow> env \<Rightarrow> lit_memo \<Rightarrow> 'a solver_scheme \<Rightarrow> bool" where
  "memo_in P env memo s \<longleftrightarrow> memo_ok P env memo s \<and> dom memo \<subseteq> sid ` P"

lemma memo_in_empty [simp]: "memo_in P env Map.empty s"
  by (simp add: memo_in_def)

lemma memo_in_pool:
  assumes m: "memo_in P env memo s" and P': "pool P'" "P \<subseteq> P'"
  shows "memo_in P' env memo s"
proof -
  have "memo_ok P' env memo s"
    unfolding memo_ok_def
  proof (intro ballI allI impI)
    fix g l assume g: "g \<in> P'" "memo (sid g) = Some l"
    then obtain h where h: "h \<in> P" "sid h = sid g" using m by (force simp: memo_in_def)
    then have "h = g" using poolD_id [OF P'(1)] g(1) P'(2) by blast
    then show "lit_ok (n_vars s) l \<and> (\<forall>m \<in> mods s. sat_lit m l = sval (eval_env env m) g)"
      using m h(1) g(2) by (auto simp: memo_in_def memo_ok_def)
  qed
  then show ?thesis using m P'(2) unfolding memo_in_def by blast
qed

lemma memo_in_grows: "memo_in P env memo s \<Longrightarrow> grows D s s' \<Longrightarrow> memo_in P env memo s'"
  unfolding memo_in_def using memo_ok_grows by blast

context clause_sink begin

text \<open>The cache holds nodes of the pool only, so that it survives when the pool grows.\<close>

lemma tseitin_args_dom:
  assumes "\<forall>g \<in> set gs. \<forall>memo s l memo' s'. tseitin add g env memo s = Some (l, memo', s') \<longrightarrow> dom memo' \<subseteq> dom memo \<union> D"
  shows "tseitin_args add gs env memo s = Some (ls, memo', s') \<Longrightarrow> dom memo' \<subseteq> dom memo \<union> D"
  using assms
proof (induction gs arbitrary: memo s ls)
  case (Cons g gs)
  obtain l memo1 s1 ls' where a: "tseitin add g env memo s = Some (l, memo1, s1)" "tseitin_args add gs env memo1 s1 = Some (ls', memo', s')"
    using Cons.prems(1) by (auto simp: bind_eq_Some_conv)
  have "dom memo1 \<subseteq> dom memo \<union> D" using Cons.prems(2) a(1) by (meson list.set_intros(1))
  moreover have "dom memo' \<subseteq> dom memo1 \<union> D" by (rule Cons.IH [OF a(2)]) (use Cons.prems(2) in \<open>meson list.set_intros(2)\<close>)
  ultimately show ?case by blast
qed simp

lemma tseitin_dom:
  assumes P: "pool P"
  shows "g \<in> P \<Longrightarrow> tseitin add g env memo s = Some (l, memo', s') \<Longrightarrow> dom memo' \<subseteq> dom memo \<union> sid ` P"
proof (induction "weight g" arbitrary: g memo s l memo' s' rule: less_induct)
  case less
  have IH: "\<forall>a \<in> set (args g). \<forall>memo s l memo' s'. tseitin add a env memo s = Some (l, memo', s') \<longrightarrow> dom memo' \<subseteq> dom memo \<union> sid ` P"
    using less.hyps weight_arg poolD_args [OF P less.prems(1)] by blast
  consider (const) i b where "g = SConst i b" | (var) i x where "g = SVar i x"
    | (hit) k where "memo (sid g) = Some k" "\<not> is_leaf_sig g"
    | (not) i a where "g = SNot i a" "memo (sid g) = None"
    | (gate) "is_gate g" "memo (sid g) = None"
    by (cases g; cases "memo (sid g)") auto
  then show ?case
  proof cases
    case const
    then show ?thesis using less.prems(2) by (auto simp: tseitin.simps split_beta Let_def)
  next
    case var
    then show ?thesis using less.prems(2) by (auto simp: tseitin.simps bind_eq_Some_conv)
  next
    case hit
    then show ?thesis using less.prems(2) by (cases g) (auto simp: tseitin.simps)
  next
    case not
    then have "tseitin add g env memo s = do { (l, memo, s) \<leftarrow> tseitin add a env memo s; Some (- l, memo(sid g \<mapsto> - l), s) }"
      by (subst tseitin.simps) simp
    then obtain k memo1 where a: "tseitin add a env memo s = Some (k, memo1, s')" "memo' = memo1(sid g \<mapsto> - k)"
      using less.prems(2) by (cases "tseitin add a env memo s") auto
    have "a \<in> set (args g)" using not(1) by simp
    then have "dom memo1 \<subseteq> dom memo \<union> sid ` P" using IH a(1) by blast
    then show ?thesis using less.prems(1) a(2) by auto
  next
    case gate
    obtain ls memo1 s1 where a: "tseitin_args add (args g) env memo s = Some (ls, memo1, s1)" "add_gate add g ls memo1 s1 = Some (l, memo', s')"
      using less.prems(2) tseitin_gate [OF gate(1), where memo = memo, OF gate(2)] by (auto simp: bind_eq_Some_conv)
    have "dom memo1 \<subseteq> dom memo \<union> sid ` P" by (rule tseitin_args_dom [OF IH a(1)])
    moreover obtain y where "memo' = memo1(sid g \<mapsto> y)" using a(2) by (auto simp: add_gate_def split_beta Let_def bind_eq_Some_conv)
    ultimately show ?thesis using less.prems(1) by auto
  qed
qed

lemma assert_sig_in:
  assumes "pool P" "g \<in> P" "sinv s" "env_ok (n_vars s) env X" "svars g \<subseteq> X" "memo_in P env memo s"
  obtains l memo' s' where "tseitin add g env memo s = Some (l, memo', s')" "extends s s'" "lit_ok (n_vars s') l"
    "\<And>b. grows (\<lambda>m. sval (eval_env env m) g = b) s (snd (add [if b then l else - l] s'))"
    "\<And>b. memo_in P env memo' (snd (add [if b then l else - l] s'))"
proof -
  have mo: "memo_ok P env memo s" using assms(6) by (simp add: memo_in_def)
  obtain l memo' s' where t: "tseitin add g env memo s = Some (l, memo', s')" "extends s s'" "lit_ok (n_vars s') l"
    "\<And>b. grows (\<lambda>m. sval (eval_env env m) g = b) s (snd (add [if b then l else - l] s'))"
    "\<And>b. memo_ok P env memo' (snd (add [if b then l else - l] s'))"
    by (rule assert_sig [OF assms(1-5) mo]) (rule that)
  have "dom memo' \<subseteq> sid ` P" using tseitin_dom [OF assms(1,2) t(1)] assms(6) unfolding memo_in_def by blast
  then have "memo_in P env memo' (snd (add [if b then l else - l] s'))" for b using t(5) unfolding memo_in_def by blast
  then show ?thesis by (rule that [OF t(1-4)])
qed

end

subsection \<open>Fresh names\<close>

lemma grows_alloc:
  assumes "alloc_names xs env s = (env', s')" "sinv s" "distinct xs"
  shows "grows (\<lambda>_. True) s s'" "env_ok (n_vars s') env' (set xs)" "mods s' = mods s"
    "\<And>X. env_ok (n_vars s) env X \<Longrightarrow> env_ok (n_vars s') env' (X \<union> set xs)"
    "\<And>x m. x \<notin> set xs \<Longrightarrow> eval_env env' m x = eval_env env m x"
proof -
  note a = alloc_names [OF assms]
  show "grows (\<lambda>_. True) s s'" "mods s' = mods s" using a by (auto simp: grows_def)
  show e: "env_ok (n_vars s') env' (set xs)" by (rule alloc_env_ok [OF assms])
  show "eval_env env' m x = eval_env env m x" if "x \<notin> set xs" for x m using a that by (simp add: eval_env_def)
  fix X assume X: "env_ok (n_vars s) env X"
  show "env_ok (n_vars s') env' (X \<union> set xs)"
    unfolding env_ok_def
  proof
    fix x assume "x \<in> X \<union> set xs"
    then show "\<exists>l. env' x = Some l \<and> lit_ok (n_vars s') l"
    proof (cases "x \<in> set xs")
      case False
      then have "x \<in> X" "env' x = env x" using \<open>x \<in> X \<union> set xs\<close> a by auto
      then show ?thesis using X a lit_ok_mono [of "n_vars s" _ "n_vars s'"] unfolding env_ok_def by auto
    qed (use e in \<open>simp add: env_ok_def\<close>)
  qed
qed

end
