(* ===== verification/Dpll.thy ===== *)
theory Dpll
  imports Signals
begin

text \<open>
  The proof-producing DPLL of \<open>interp.py\<close>: \<open>Proof\<close>, \<open>resolve\<close>, \<open>dpll_prove\<close>, and the labelling
  \<open>mcmillan\<close> that reads an interpolant off a proof. A clause is a finite set of literals, as the frozenset
  of the source; the order in which Python iterates one matters only for the operands of the
  disjunction at a leaf and is the parameter \<open>ord\<close> there.
\<close>

subsection \<open>Proof objects\<close>

type_synonym pclause = "int set"

datatype tag = TagA | TagB

datatype pstep = Leaf tag | Res pclause pclause int

type_synonym refutation = "pclause \<rightharpoonup> pstep"

text \<open>\<open>setdefault\<close>: the first derivation of a clause is kept.\<close>

definition add_leaf :: "pclause \<Rightarrow> tag \<Rightarrow> refutation \<Rightarrow> refutation" where
  "add_leaf c t p = (if p c = None then p(c \<mapsto> Leaf t) else p)"

definition add_res :: "pclause \<Rightarrow> pclause \<Rightarrow> pclause \<Rightarrow> int \<Rightarrow> refutation \<Rightarrow> refutation" where
  "add_res c left right pivot p = (if p c = None then p(c \<mapsto> Res left right pivot) else p)"

definition resolve :: "pclause \<Rightarrow> pclause \<Rightarrow> int \<Rightarrow> pclause" where
  "resolve c1 c2 x = {l \<in> c1. l \<noteq> x} \<union> {l \<in> c2. l \<noteq> - x}"

subsection \<open>The search\<close>

type_synonym asg = "int \<rightharpoonup> bool"

definition satisfied :: "asg \<Rightarrow> pclause \<Rightarrow> bool" where
  "satisfied a c \<longleftrightarrow> (\<exists>l \<in> c. a \<bar>l\<bar> = Some (l > 0))"

definition unassigned :: "asg \<Rightarrow> pclause \<Rightarrow> pclause" where
  "unassigned a c = {l \<in> c. a \<bar>l\<bar> = None}"

text \<open>One pass over the clauses: a conflict ends it, the first unit clause is remembered.\<close>

fun scan :: "asg \<Rightarrow> pclause list \<Rightarrow> (int \<times> pclause) option \<Rightarrow> pclause option \<times> (int \<times> pclause) option" where
  "scan a [] unit = (None, unit)"
| "scan a (c # cs) unit =
     (if satisfied a c then scan a cs unit
      else let un = unassigned a c in
        if un = {} then (Some c, unit)
        else scan a cs (if card un = 1 \<and> unit = None then Some (the_elem un, c) else unit))"

type_synonym trail_state = "asg \<times> (int \<rightharpoonup> pclause) \<times> int list"

text \<open>One round of unit propagation; the loop leaves with the conflict, if there is one.\<close>

definition bcp_body ::
  "pclause list \<Rightarrow> trail_state \<Rightarrow> ((pclause option \<times> trail_state) + trail_state) option" where
  "bcp_body clauses = (\<lambda>(a, reason, order).
     case scan a clauses None of
       (Some c, _) \<Rightarrow> Some (Inl (Some c, a, reason, order))
     | (None, Some (u, c)) \<Rightarrow> Some (Inr (a(\<bar>u\<bar> \<mapsto> u > 0), reason(u \<mapsto> c), order @ [u]))
     | (None, None) \<Rightarrow> Some (Inl (None, a, reason, order)))"

text \<open>Resolving the conflict with the reasons of the propagated literals, the latest first.\<close>

primrec explain :: "int list \<Rightarrow> (int \<rightharpoonup> pclause) \<Rightarrow> pclause \<Rightarrow> refutation \<Rightarrow> pclause \<times> refutation" where
  "explain [] reason c p = (c, p)"
| "explain (l # ls) reason c p =
     (case reason l of
        Some r \<Rightarrow>
          if - l \<in> c then let nc = resolve c r (- l) in explain ls reason nc (add_res nc c r (- l) p)
          else explain ls reason c p
      | None \<Rightarrow> explain ls reason c p)"

text \<open>\<open>rec\<close>: None is a satisfying assignment, a clause is the conflict.\<close>

partial_function (option) dpll_rec ::
  "pclause list \<Rightarrow> int list \<Rightarrow> asg \<Rightarrow> refutation \<Rightarrow> (pclause option \<times> refutation) option" where
  "dpll_rec clauses allvars a p = do {
     (confl, a, reason, order) \<leftarrow> loop (bcp_body clauses) (a, Map.empty, []);
     (case confl of
        Some c \<Rightarrow> let (c, p) = explain (rev order) reason c p in Some (Some c, p)
      | None \<Rightarrow>
          (case filter (\<lambda>v. a v = None) allvars of
             [] \<Rightarrow> Some (None, p)
           | x # _ \<Rightarrow> do {
               (r0, p) \<leftarrow> dpll_rec clauses allvars (a(x \<mapsto> False)) p;
               (case r0 of
                  None \<Rightarrow> Some (None, p)
                | Some c0 \<Rightarrow>
                    if x \<notin> c0 \<and> - x \<notin> c0 then Some (Some c0, p)
                    else do {
                      (r1, p) \<leftarrow> dpll_rec clauses allvars (a(x \<mapsto> True)) p;
                      (case r1 of
                         None \<Rightarrow> Some (None, p)
                       | Some c1 \<Rightarrow>
                           if x \<notin> c1 \<and> - x \<notin> c1 then Some (Some c1, p)
                           else let piv = (if x \<in> c0 then x else - x); nc = resolve c0 c1 piv
                                in Some (Some nc, add_res nc c0 c1 piv p)) }) })) }"

datatype dpll_result = SAT | UNSAT pclause refutation

definition tagged_leaves :: "(pclause \<times> tag) list \<Rightarrow> refutation" where
  "tagged_leaves ts = fold (\<lambda>(c, t). add_leaf c t) ts Map.empty"

definition dpll_prove :: "(pclause \<times> tag) list \<Rightarrow> dpll_result option" where
  "dpll_prove ts = do {
     let clauses = map fst ts;
     let allvars = sorted_list_of_set (\<Union>c \<in> set clauses. abs ` c);
     (r, p) \<leftarrow> dpll_rec clauses allvars Map.empty (tagged_leaves ts);
     Some (case r of None \<Rightarrow> SAT | Some c \<Rightarrow> UNSAT c p) }"

subsection \<open>McMillan's labelling\<close>

text \<open>The memo is threaded, and the counter of the node identities with it.\<close>

partial_function (option) itp ::
  "refutation \<Rightarrow> (int \<Rightarrow> bool) \<Rightarrow> (int \<Rightarrow> sig alloc) \<Rightarrow> (pclause \<Rightarrow> int list) \<Rightarrow> pclause \<Rightarrow> (pclause \<rightharpoonup> sig) \<Rightarrow> nat \<Rightarrow>
     ((sig \<times> (pclause \<rightharpoonup> sig)) \<times> nat) option" where
  "itp p glob lit_sig ord c memo n =
     (case memo c of
        Some r \<Rightarrow> Some ((r, memo), n)
      | None \<Rightarrow>
          (case (case p c of None \<Rightarrow> Leaf TagA | Some s \<Rightarrow> s) of
             Leaf TagB \<Rightarrow> Some ((TRUE_s, memo(c \<mapsto> TRUE_s)), n)
           | Leaf TagA \<Rightarrow>
               (let (g, n) = run_state (alloc_map lit_sig (filter (\<lambda>l. glob \<bar>l\<bar>) (ord c))) n;
                    (r, n) = (if g \<noteq> [] then run_state (OR_s g) n else (FALSE_s, n))
                in Some ((r, memo(c \<mapsto> r)), n))
           | Res left right piv \<Rightarrow> do {
               ((il, memo), n) \<leftarrow> itp p glob lit_sig ord left memo n;
               ((ir, memo), n) \<leftarrow> itp p glob lit_sig ord right memo n;
               let (r, n) = run_state (if \<not> glob \<bar>piv\<bar> then OR_s [il, ir] else AND_s [il, ir]) n;
               Some ((r, memo(c \<mapsto> r)), n) }))"

definition mcmillan ::
  "refutation \<Rightarrow> pclause \<Rightarrow> (int \<Rightarrow> bool) \<Rightarrow> (int \<Rightarrow> sig alloc) \<Rightarrow> (pclause \<Rightarrow> int list) \<Rightarrow> nat \<Rightarrow> (sig \<times> nat) option" where
  "mcmillan p root glob lit_sig ord n = map_option (\<lambda>((r, _), n). (r, n)) (itp p glob lit_sig ord root Map.empty n)"

subsection \<open>Proofs are sound\<close>

definition pmodel :: "(int \<Rightarrow> bool) \<Rightarrow> pclause \<Rightarrow> bool" where
  "pmodel m c \<longleftrightarrow> (\<exists>l \<in> c. m \<bar>l\<bar> = (l > 0))"

text \<open>A valid proof: leaves are given clauses, resolvents are genuine, and no derivation is circular.\<close>

definition derivations :: "pclause set \<Rightarrow> pclause set \<Rightarrow> refutation \<Rightarrow> (pclause \<Rightarrow> nat) \<Rightarrow> bool" where
  "derivations A B p rank \<longleftrightarrow> (\<forall>c s. p c = Some s \<longrightarrow> finite c \<and> 0 \<notin> c \<and> (case s of
     Leaf TagA \<Rightarrow> c \<in> A | Leaf TagB \<Rightarrow> c \<in> B
   | Res l r x \<Rightarrow> c = resolve l r x \<and> p l \<noteq> None \<and> p r \<noteq> None \<and> rank l < rank c \<and> rank r < rank c \<and> x \<noteq> 0))"

definition valid :: "pclause set \<Rightarrow> pclause set \<Rightarrow> refutation \<Rightarrow> bool" where
  "valid A B p \<longleftrightarrow> (\<exists>rank. derivations A B p rank)"

lemma resolve_sound: "pmodel m c1 \<Longrightarrow> pmodel m c2 \<Longrightarrow> x \<noteq> 0 \<Longrightarrow> pmodel m (resolve c1 c2 x)"
proof -
  assume c: "pmodel m c1" "pmodel m c2" "x \<noteq> 0"
  show "pmodel m (resolve c1 c2 x)"
  proof (cases "m \<bar>x\<bar> = (x > 0)")
    case True
    obtain l where l: "l \<in> c2" "m \<bar>l\<bar> = (l > 0)" using c(2) by (auto simp: pmodel_def)
    then have "l \<noteq> - x" using True c(3) by auto
    then show ?thesis using l by (auto simp: pmodel_def resolve_def)
  next
    case False
    obtain l where l: "l \<in> c1" "m \<bar>l\<bar> = (l > 0)" using c(1) by (auto simp: pmodel_def)
    then have "l \<noteq> x" using False by auto
    then show ?thesis using l by (auto simp: pmodel_def resolve_def)
  qed
qed

lemma derivations_step:
  assumes "derivations A B p rank" "p c = Some s"
  shows "finite c" "0 \<notin> c" "s = Leaf TagA \<Longrightarrow> c \<in> A" "s = Leaf TagB \<Longrightarrow> c \<in> B"
    "s = Res l r x \<Longrightarrow> c = resolve l r x \<and> p l \<noteq> None \<and> p r \<noteq> None \<and> rank l < rank c \<and> rank r < rank c \<and> x \<noteq> 0"
  using assms unfolding derivations_def by force+

text \<open>Induction over the derivation of a clause.\<close>

lemma derivation_induct:
  assumes d: "derivations A B p rank" and c: "p c \<noteq> None"
    and A: "\<And>c. p c = Some (Leaf TagA) \<Longrightarrow> c \<in> A \<Longrightarrow> Q c"
    and B: "\<And>c. p c = Some (Leaf TagB) \<Longrightarrow> c \<in> B \<Longrightarrow> Q c"
    and R: "\<And>c l r x. p c = Some (Res l r x) \<Longrightarrow> c = resolve l r x \<Longrightarrow> x \<noteq> 0 \<Longrightarrow> p l \<noteq> None \<Longrightarrow> p r \<noteq> None \<Longrightarrow> Q l \<Longrightarrow> Q r \<Longrightarrow> Q c"
  shows "Q c"
  using c
proof (induction c rule: measure_induct_rule [where f = rank])
  case (less c)
  then obtain s where s: "p c = Some s" by blast
  show ?case
  proof (cases s)
    case (Leaf t)
    then show ?thesis using A B s derivations_step(3,4) [OF d s] by (cases t) auto
  next
    case (Res l r x)
    then have "c = resolve l r x \<and> p l \<noteq> None \<and> p r \<noteq> None \<and> rank l < rank c \<and> rank r < rank c \<and> x \<noteq> 0"
      by (rule derivations_step(5) [OF d s])
    then show ?thesis using R [OF s [unfolded Res]] less.IH by blast
  qed
qed

lemma derived_implied:
  assumes "valid A B p" "p c \<noteq> None" "\<forall>c \<in> A \<union> B. pmodel m c"
  shows "pmodel m c"
proof -
  obtain rank where d: "derivations A B p rank" using assms(1) by (auto simp: valid_def)
  show ?thesis
    by (rule derivation_induct [OF d assms(2)]) (use assms(3) resolve_sound in auto)
qed

lemma valid_add:
  assumes v: "valid A B p" and s: "case s of Leaf TagA \<Rightarrow> c \<in> A | Leaf TagB \<Rightarrow> c \<in> B
      | Res l r x \<Rightarrow> c = resolve l r x \<and> p l \<noteq> None \<and> p r \<noteq> None \<and> x \<noteq> 0"
    and c: "finite c" "0 \<notin> c" "p c = None"
  shows "valid A B (p(c \<mapsto> s))"
proof -
  obtain rank where d: "derivations A B p rank" using v by (auto simp: valid_def)
  let ?rank = "rank(c := case s of Leaf _ \<Rightarrow> 0 | Res l r x \<Rightarrow> Suc (max (rank l) (rank r)))"
  have "derivations A B (p(c \<mapsto> s)) ?rank"
    unfolding derivations_def
  proof (intro allI impI)
    fix c' s' assume s': "(p(c \<mapsto> s)) c' = Some s'"
    show "finite c' \<and> 0 \<notin> c' \<and> (case s' of Leaf TagA \<Rightarrow> c' \<in> A | Leaf TagB \<Rightarrow> c' \<in> B
       | Res l r x \<Rightarrow> c' = resolve l r x \<and> (p(c \<mapsto> s)) l \<noteq> None \<and> (p(c \<mapsto> s)) r \<noteq> None \<and> ?rank l < ?rank c' \<and> ?rank r < ?rank c' \<and> x \<noteq> 0)"
    proof (cases "c' = c")
      case True
      then have s'': "s' = s" using s' by simp
      show ?thesis
      proof (cases s)
        case (Leaf t)
        then show ?thesis using s s'' c True by (cases t) simp_all
      next
        case (Res l r x)
        then have "p l \<noteq> None" "p r \<noteq> None" "c = resolve l r x" "x \<noteq> 0" using s by simp_all
        moreover from this c(3) have "l \<noteq> c" "r \<noteq> c" by auto
        ultimately show ?thesis unfolding s'' True Res using c(1,2) by (simp add: less_Suc_eq_le)
      qed
    next
      case False
      then have p: "p c' = Some s'" using s' by simp
      show ?thesis
      proof (cases s')
        case (Leaf t)
        then show ?thesis using derivations_step(1-4) [OF d p] by (cases t) auto
      next
        case (Res l r x)
        then show ?thesis
          using derivations_step(1,2,5) [OF d p] False c(3) by auto
      qed
    qed
  qed
  then show ?thesis by (auto simp: valid_def)
qed

lemma finite_resolve: "finite c1 \<Longrightarrow> finite c2 \<Longrightarrow> finite (resolve c1 c2 x)" "0 \<notin> c1 \<Longrightarrow> 0 \<notin> c2 \<Longrightarrow> 0 \<notin> resolve c1 c2 x"
  by (simp_all add: resolve_def)

lemma valid_clause: "valid A B p \<Longrightarrow> p c \<noteq> None \<Longrightarrow> finite c \<and> 0 \<notin> c"
  unfolding valid_def derivations_def by blast

lemma valid_add_res:
  assumes "valid A B p" "p c1 \<noteq> None" "p c2 \<noteq> None" "x \<noteq> 0"
  shows "valid A B (add_res (resolve c1 c2 x) c1 c2 x p)" "p \<subseteq>\<^sub>m add_res (resolve c1 c2 x) c1 c2 x p"
    "add_res (resolve c1 c2 x) c1 c2 x p (resolve c1 c2 x) \<noteq> None"
  using assms valid_clause [OF assms(1,2)] valid_clause [OF assms(1,3)]
  by (auto simp: add_res_def map_le_def finite_resolve intro!: valid_add)

lemma map_le_dom: "p \<subseteq>\<^sub>m q \<Longrightarrow> p c \<noteq> None \<Longrightarrow> q c \<noteq> None"
  by (force simp: map_le_def dom_def)

lemma explain_ok:
  assumes "\<forall>l r. reason l = Some r \<longrightarrow> p0 r \<noteq> None \<and> l \<noteq> 0"
  shows "valid A B p \<Longrightarrow> p c \<noteq> None \<Longrightarrow> p0 \<subseteq>\<^sub>m p \<Longrightarrow> explain ls reason c p = (c', p') \<Longrightarrow>
    valid A B p' \<and> p \<subseteq>\<^sub>m p' \<and> p' c' \<noteq> None"
proof (induction ls arbitrary: c p)
  case (Cons l ls)
  show ?case
  proof (cases "\<exists>r. reason l = Some r \<and> - l \<in> c")
    case True
    then obtain r where r: "reason l = Some r" "- l \<in> c" by blast
    let ?nc = "resolve c r (- l)"
    have "p r \<noteq> None" "- l \<noteq> 0" using assms r(1) map_le_dom [OF Cons.prems(3)] by auto
    note a = valid_add_res [OF Cons.prems(1,2) this]
    have "explain ls reason ?nc (add_res ?nc c r (- l) p) = (c', p')" using Cons.prems(4) r by (simp add: Let_def)
    from Cons.IH [OF a(1,3) map_le_trans [OF Cons.prems(3) a(2)] this] show ?thesis using map_le_trans [OF a(2)] by blast
  next
    case False
    then show ?thesis using Cons by (auto split: option.splits)
  qed
qed simp

subsection \<open>The search terminates, and \<open>SAT\<close> is right\<close>

lemma scan_conflict: "scan a cs u = (Some c, u') \<Longrightarrow> c \<in> set cs \<and> \<not> satisfied a c \<and> unassigned a c = {}"
  by (induction a cs u rule: scan.induct) (auto simp: Let_def split: if_splits)

lemma scan_unit:
  "scan a cs u = (None, Some (l, c)) \<Longrightarrow> (\<forall>c \<in> set cs. finite c) \<Longrightarrow>
   u = Some (l, c) \<or> c \<in> set cs \<and> \<not> satisfied a c \<and> unassigned a c = {l}"
proof (induction a cs u rule: scan.induct)
  case (2 a d cs u)
  show ?case
  proof (cases "satisfied a d \<or> unassigned a d = {} \<or> \<not> (card (unassigned a d) = 1 \<and> u = None)")
    case True
    then show ?thesis using 2 by (auto simp: Let_def split: if_splits)
  next
    case False
    then have "card (unassigned a d) = 1" "u = None" by blast+
    then obtain x where x: "unassigned a d = {x}" "u = None" by (auto simp: card_1_singleton_iff)
    then have "scan a cs (Some (x, d)) = (None, Some (l, c))" using 2(3) False by (simp add: Let_def)
    then have "Some (x, d) = Some (l, c) \<or> c \<in> set cs \<and> \<not> satisfied a c \<and> unassigned a c = {l}"
      using 2(2) [OF _ refl] False x 2(4) by simp
    then show ?thesis using x False by auto
  qed
qed simp

lemma scan_none: "scan a cs u = (None, u') \<Longrightarrow> c \<in> set cs \<Longrightarrow> satisfied a c \<or> unassigned a c \<noteq> {}"
  by (induction a cs u rule: scan.induct) (auto simp: Let_def split: if_splits)

definition wf_clauses :: "pclause list \<Rightarrow> int list \<Rightarrow> bool" where
  "wf_clauses cs vs \<longleftrightarrow> (\<forall>c \<in> set cs. finite c \<and> 0 \<notin> c) \<and> set vs = (\<Union>c \<in> set cs. abs ` c)"

definition free :: "int list \<Rightarrow> asg \<Rightarrow> nat" where
  "free vs a = card {v \<in> set vs. a v = None}"

lemma free_less: "v \<in> set vs \<Longrightarrow> a v = None \<Longrightarrow> a' v \<noteq> None \<Longrightarrow> a \<subseteq>\<^sub>m a' \<Longrightarrow> free vs a' < free vs a"
  unfolding free_def by (rule psubset_card_mono) (auto simp: map_le_def dom_def, force)

definition bcp_exit :: "pclause list \<Rightarrow> asg \<Rightarrow> trail_state \<Rightarrow> bool" where
  "bcp_exit cs a = (\<lambda>(a', reason, order). a \<subseteq>\<^sub>m a' \<and> (\<forall>l r. reason l = Some r \<longrightarrow> r \<in> set cs \<and> l \<noteq> 0))"

lemma bcp_ok:
  assumes wf: "wf_clauses cs vs"
  shows "\<exists>confl a' reason order. loop (bcp_body cs) (a, Map.empty, []) = Some (confl, a', reason, order) \<and>
    bcp_exit cs a (a', reason, order) \<and>
    (case confl of Some c \<Rightarrow> c \<in> set cs | None \<Rightarrow> \<forall>c \<in> set cs. satisfied a' c \<or> unassigned a' c \<noteq> {})"
proof -
  let ?Q = "\<lambda>(confl, st). bcp_exit cs a st \<and>
    (case confl of Some c \<Rightarrow> c \<in> set cs | None \<Rightarrow> \<forall>c \<in> set cs. satisfied (fst st) c \<or> unassigned (fst st) c \<noteq> {})"
  have "\<exists>r. loop (bcp_body cs) (a, Map.empty, []) = Some r \<and> ?Q r"
  proof (rule loop_measure [where I = "bcp_exit cs a" and f = "\<lambda>st. free vs (fst st)"])
    show "bcp_exit cs a (a, Map.empty, [])" by (simp add: bcp_exit_def)
    fix st assume I: "bcp_exit cs a st"
    obtain a' reason order where st: "st = (a', reason, order)" by (cases st)
    show "\<exists>x. bcp_body cs st = Some x \<and> (case x of Inl r \<Rightarrow> ?Q r | Inr s' \<Rightarrow> bcp_exit cs a s' \<and> free vs (fst s') < free vs (fst st))"
    proof (cases "scan a' cs None")
      case (Pair confl unit)
      show ?thesis
      proof (cases confl)
        case (Some c)
        then show ?thesis using I scan_conflict [of a' cs None c unit] Pair st by (simp add: bcp_body_def)
      next
        case None
        show ?thesis
        proof (cases unit)
          case None
          then show ?thesis using I scan_none [of a' cs None None] Pair \<open>confl = None\<close> st by (auto simp: bcp_body_def)
        next
          case (Some uc)
          then obtain u c where uc: "unit = Some (u, c)" by (cases uc) auto
          have "c \<in> set cs \<and> unassigned a' c = {u}"
            using scan_unit [of a' cs None u c] Pair \<open>confl = None\<close> uc wf by (simp add: wf_clauses_def)
          then have u: "c \<in> set cs" "u \<in> c" "a' \<bar>u\<bar> = None" by (auto simp: unassigned_def)
          then have u': "u \<noteq> 0" "\<bar>u\<bar> \<in> set vs" using wf unfolding wf_clauses_def by auto
          have "a' \<subseteq>\<^sub>m a'(\<bar>u\<bar> \<mapsto> u > 0)" using u(3) by (auto simp: map_le_def)
          then have "free vs (a'(\<bar>u\<bar> \<mapsto> u > 0)) < free vs a'" "a \<subseteq>\<^sub>m a'(\<bar>u\<bar> \<mapsto> u > 0)"
            using free_less [of "\<bar>u\<bar>" vs a' "a'(\<bar>u\<bar> \<mapsto> u > 0)"] u(3) u'(2) I st map_le_trans by (auto simp: bcp_exit_def)
          then show ?thesis using I Pair \<open>confl = None\<close> uc st u(1) u'(1) by (auto simp: bcp_body_def bcp_exit_def)
        qed
      qed
    qed
  qed
  then obtain r0 where r0: "loop (bcp_body cs) (a, Map.empty, []) = Some r0" "?Q r0" by blast
  obtain confl a' reason order where r0': "r0 = (confl, a', reason, order)" by (cases r0) auto
  note r = r0 [unfolded r0']
  have "case confl of Some c \<Rightarrow> c \<in> set cs | None \<Rightarrow> \<forall>c \<in> set cs. satisfied a' c \<or> unassigned a' c \<noteq> {}"
    using r(2) by (simp only: prod.case fst_conv)
  moreover have "bcp_exit cs a (a', reason, order)" using r(2) by (simp only: prod.case)
  ultimately show ?thesis using r(1) by blast
qed

definition completes :: "asg \<Rightarrow> (int \<Rightarrow> bool) \<Rightarrow> bool" where
  "completes a m \<longleftrightarrow> (\<forall>v b. a v = Some b \<longrightarrow> m v = b)"

lemma completes_mono: "a \<subseteq>\<^sub>m a' \<Longrightarrow> completes a' m \<Longrightarrow> completes a m"
  unfolding completes_def map_le_def by (metis domI)

lemma dpll_rec_ok:
  assumes wf: "wf_clauses cs vs"
  shows "valid A B p \<Longrightarrow> \<forall>c \<in> set cs. p c \<noteq> None \<Longrightarrow> \<exists>r p'. dpll_rec cs vs a p = Some (r, p') \<and> valid A B p' \<and> p \<subseteq>\<^sub>m p' \<and>
    (case r of None \<Rightarrow> \<exists>m. completes a m \<and> (\<forall>c \<in> set cs. pmodel m c) | Some c \<Rightarrow> p' c \<noteq> None)"
proof (induction "free vs a" arbitrary: a p rule: less_induct)
  case less
  obtain confl a' reason order where b: "loop (bcp_body cs) (a, Map.empty, []) = Some (confl, a', reason, order)"
    "a \<subseteq>\<^sub>m a'" "\<forall>l r. reason l = Some r \<longrightarrow> r \<in> set cs \<and> l \<noteq> 0"
    "case confl of Some c \<Rightarrow> c \<in> set cs | None \<Rightarrow> \<forall>c \<in> set cs. satisfied a' c \<or> unassigned a' c \<noteq> {}"
    using bcp_ok [OF wf, of a] by (auto simp: bcp_exit_def)
  show ?case
  proof (cases confl)
    case (Some c)
    obtain c' p' where e: "explain (rev order) reason c p = (c', p')" by fastforce
    have "\<forall>l r. reason l = Some r \<longrightarrow> p r \<noteq> None \<and> l \<noteq> 0" using b(3) less.prems(2) by blast
    moreover have "p c \<noteq> None" using b(4) Some less.prems(2) by simp
    ultimately have "valid A B p' \<and> p \<subseteq>\<^sub>m p' \<and> p' c' \<noteq> None"
      using explain_ok [OF _ less.prems(1) _ map_le_refl e] by blast
    then show ?thesis using b(1) Some e by (subst dpll_rec.simps) simp
  next
    case None
    show ?thesis
    proof (cases "filter (\<lambda>v. a' v = None) vs")
      case Nil
      have "pmodel (\<lambda>v. a' v = Some True) c" if c: "c \<in> set cs" for c
      proof -
        have dom: "a' \<bar>l\<bar> \<noteq> None" if "l \<in> c" for l
          using Nil that c wf unfolding wf_clauses_def filter_empty_conv by blast
        have "satisfied a' c \<or> unassigned a' c \<noteq> {}" using b(4) None c by simp
        moreover have "unassigned a' c = {}" using dom by (auto simp: unassigned_def)
        ultimately have "satisfied a' c" by simp
        then obtain l where "l \<in> c" "a' \<bar>l\<bar> = Some (l > 0)" by (auto simp: satisfied_def)
        then show ?thesis unfolding pmodel_def by (intro bexI [of _ l]) auto
      qed
      moreover have "completes a (\<lambda>v. a' v = Some True)"
        by (rule completes_mono [OF b(2)]) (auto simp: completes_def)
      ultimately have "\<exists>m. completes a m \<and> (\<forall>c \<in> set cs. pmodel m c)" by blast
      then show ?thesis using b(1) None Nil less.prems(1) by (subst dpll_rec.simps) simp
    next
      case (Cons x xs)
      then have x: "x \<in> set vs" "a' x = None" using filter_eq_ConsD [OF Cons] by auto
      have "a x = None" using b(2) x(2) by (metis domIff map_le_def)
      then have up: "a \<subseteq>\<^sub>m a'(x \<mapsto> v)" for v using b(2) by (auto simp: map_le_def)
      have "free vs (a'(x \<mapsto> v)) < free vs a'" for v by (rule free_less [of x]) (use x in \<open>auto simp: map_le_def\<close>)
      moreover have "free vs a' \<le> free vs a"
      proof -
        have "a v = None" if "a' v = None" for v using that b(2) by (metis domIff map_le_def)
        then show ?thesis unfolding free_def by (intro card_mono) auto
      qed
      ultimately have sm: "free vs (a'(x \<mapsto> v)) < free vs a" for v by (meson less_le_trans)
      have x0: "x \<noteq> 0" using x(1) wf by (auto simp: wf_clauses_def)
      obtain r0 p0 where 0: "dpll_rec cs vs (a'(x \<mapsto> False)) p = Some (r0, p0)" "valid A B p0" "p \<subseteq>\<^sub>m p0"
        "case r0 of None \<Rightarrow> \<exists>m. completes (a'(x \<mapsto> False)) m \<and> (\<forall>c \<in> set cs. pmodel m c) | Some c \<Rightarrow> p0 c \<noteq> None"
        using less.hyps [OF sm less.prems] by blast
      have sat: "\<exists>m. completes a m \<and> (\<forall>c \<in> set cs. pmodel m c)" if "\<exists>m. completes (a'(x \<mapsto> v)) m \<and> (\<forall>c \<in> set cs. pmodel m c)" for v
        using that completes_mono [OF up] by blast
      have p0: "\<forall>c \<in> set cs. p0 c \<noteq> None" using less.prems(2) map_le_dom [OF 0(3)] by blast
      obtain r1 p1 where 1: "dpll_rec cs vs (a'(x \<mapsto> True)) p0 = Some (r1, p1)" "valid A B p1" "p0 \<subseteq>\<^sub>m p1"
        "case r1 of None \<Rightarrow> \<exists>m. completes (a'(x \<mapsto> True)) m \<and> (\<forall>c \<in> set cs. pmodel m c) | Some c \<Rightarrow> p1 c \<noteq> None"
        using less.hyps [OF sm 0(2) p0] by blast
      have eq: "dpll_rec cs vs a p = do {
          (r0, p) \<leftarrow> dpll_rec cs vs (a'(x \<mapsto> False)) p;
          (case r0 of
             None \<Rightarrow> Some (None, p)
           | Some c0 \<Rightarrow>
               if x \<notin> c0 \<and> - x \<notin> c0 then Some (Some c0, p)
               else do {
                 (r1, p) \<leftarrow> dpll_rec cs vs (a'(x \<mapsto> True)) p;
                 (case r1 of
                    None \<Rightarrow> Some (None, p)
                  | Some c1 \<Rightarrow>
                      if x \<notin> c1 \<and> - x \<notin> c1 then Some (Some c1, p)
                      else let piv = (if x \<in> c0 then x else - x); nc = resolve c0 c1 piv
                           in Some (Some nc, add_res nc c0 c1 piv p)) }) }"
        by (subst dpll_rec.simps) (simp add: b(1) None Cons)
      show ?thesis
      proof (cases r0)
        case None
        then show ?thesis unfolding eq using 0 sat by auto
      next
        case (Some c0)
        have p1c0: "p1 c0 \<noteq> None" using 0(4) Some map_le_dom [OF 1(3)] by simp
        show ?thesis
        proof (cases "x \<notin> c0 \<and> - x \<notin> c0")
          case True
          then show ?thesis unfolding eq using 0 Some by auto
        next
          case False
          show ?thesis
          proof (cases r1)
            case None
            then show ?thesis unfolding eq using 0 1 Some False sat map_le_trans [OF 0(3) 1(3)] by auto
          next
            case r1: (Some c1)
            let ?piv = "if x \<in> c0 then x else - x"
            have "p1 c1 \<noteq> None" "?piv \<noteq> 0" using 1(4) r1 x0 by auto
            note a = valid_add_res [OF 1(2) p1c0 this]
            show ?thesis
            proof (cases "x \<notin> c1 \<and> - x \<notin> c1")
              case True
              then show ?thesis unfolding eq using 0 1 Some False r1 map_le_trans [OF 0(3) 1(3)] by auto
            next
              case F: False
              have "dpll_rec cs vs a p = Some (Some (resolve c0 c1 ?piv), add_res (resolve c0 c1 ?piv) c0 c1 ?piv p1)"
                unfolding eq using 0(1) 1(1) Some False r1 F by (simp add: Let_def) blast
              then show ?thesis using a map_le_trans [OF map_le_trans [OF 0(3) 1(3)] a(2)] by auto
            qed
          qed
        qed
      qed
    qed
  qed
qed

definition tagged :: "tag \<Rightarrow> (pclause \<times> tag) list \<Rightarrow> pclause set" where
  "tagged t ts = {c. (c, t) \<in> set ts}"

lemma tagged_leaves_ok:
  assumes "\<forall>(c, t) \<in> set ts. finite c \<and> 0 \<notin> c"
  shows "valid (tagged TagA ts) (tagged TagB ts) (tagged_leaves ts) \<and> (\<forall>(c, t) \<in> set ts. tagged_leaves ts c \<noteq> None)"
proof -
  have run: "valid A B (fold (\<lambda>(c, t). add_leaf c t) xs p) \<and> p \<subseteq>\<^sub>m fold (\<lambda>(c, t). add_leaf c t) xs p \<and>
    (\<forall>(c, t) \<in> set xs. fold (\<lambda>(c, t). add_leaf c t) xs p c \<noteq> None)"
    if "valid A B p" "tagged TagA xs \<subseteq> A" "tagged TagB xs \<subseteq> B" "\<forall>(c, t) \<in> set xs. finite c \<and> 0 \<notin> c" for xs A B p
    using that
  proof (induction xs arbitrary: p)
    case (Cons x xs)
    obtain c t where x: "x = (c, t)" by (cases x)
    let ?p = "add_leaf c t p"
    have "valid A B ?p"
      using Cons.prems by (cases t) (auto simp: add_leaf_def x tagged_def intro!: valid_add)
    moreover have "p \<subseteq>\<^sub>m ?p" "?p c \<noteq> None" by (auto simp: add_leaf_def map_le_def)
    moreover have "tagged TagA xs \<subseteq> A" "tagged TagB xs \<subseteq> B" "\<forall>(c, t) \<in> set xs. finite c \<and> 0 \<notin> c"
      using Cons.prems by (auto simp: tagged_def)
    ultimately show ?case using Cons.IH [of ?p] map_le_trans map_le_dom by (fastforce simp: x)
  qed auto
  have "valid (tagged TagA ts) (tagged TagB ts) Map.empty" by (auto simp: valid_def derivations_def)
  from run [OF this order_refl order_refl assms] show ?thesis unfolding tagged_leaves_def by blast
qed

lemma dpll_prove_ok:
  assumes wf: "\<forall>(c, t) \<in> set ts. finite c \<and> 0 \<notin> c"
  shows "\<exists>r. dpll_prove ts = Some r \<and> (case r of
      SAT \<Rightarrow> \<exists>m. \<forall>(c, t) \<in> set ts. pmodel m c
    | UNSAT c p \<Rightarrow> valid (tagged TagA ts) (tagged TagB ts) p \<and> p c \<noteq> None)"
proof -
  let ?cs = "map fst ts" and ?vs = "sorted_list_of_set (\<Union>c \<in> set (map fst ts). abs ` c)"
  have fin: "finite (\<Union>c \<in> set (map fst ts). abs ` c)" using wf by auto
  have "wf_clauses ?cs ?vs" using wf fin by (auto simp: wf_clauses_def)
  moreover have "valid (tagged TagA ts) (tagged TagB ts) (tagged_leaves ts)" "\<forall>c \<in> set ?cs. tagged_leaves ts c \<noteq> None"
    using tagged_leaves_ok [OF wf] by auto
  ultimately obtain r p' where r: "dpll_rec ?cs ?vs Map.empty (tagged_leaves ts) = Some (r, p')"
    "valid (tagged TagA ts) (tagged TagB ts) p'"
    "case r of None \<Rightarrow> \<exists>m. completes Map.empty m \<and> (\<forall>c \<in> set ?cs. pmodel m c) | Some c \<Rightarrow> p' c \<noteq> None"
    using dpll_rec_ok by blast
  show ?thesis
  proof (cases r)
    case None
    then have "dpll_prove ts = Some SAT" using r(1) by (simp add: dpll_prove_def)
    moreover obtain m where "\<forall>c \<in> set ?cs. pmodel m c" using r(3) None by auto
    then have "\<forall>(c, t) \<in> set ts. pmodel m c" by (simp add: split_beta)
    ultimately show ?thesis by auto
  next
    case (Some c)
    then have "dpll_prove ts = Some (UNSAT c p')" using r(1) by (simp add: dpll_prove_def)
    then show ?thesis using r(2,3) Some by simp
  qed
qed

lemma refutation_unsat:
  assumes "valid (tagged TagA ts) (tagged TagB ts) p" "p {} \<noteq> None"
  shows "\<not> (\<exists>m. \<forall>(c, t) \<in> set ts. pmodel m c)"
proof
  assume "\<exists>m. \<forall>(c, t) \<in> set ts. pmodel m c"
  then obtain m where "\<forall>c \<in> tagged TagA ts \<union> tagged TagB ts. pmodel m c" by (auto simp: tagged_def)
  from derived_implied [OF assms this] show False by (simp add: pmodel_def)
qed

subsection \<open>Partial interpolants\<close>

text \<open>
  The function a node of the labelling denotes, over the literals of the proof: \<open>lv \<rho>\<close> is the valuation
  of the global variables that \<open>\<rho>\<close> gives.
\<close>

definition lit_holds :: "(int \<Rightarrow> bool) \<Rightarrow> int \<Rightarrow> bool" where
  "lit_holds m l \<longleftrightarrow> m \<bar>l\<bar> = (l > 0)"

definition names_lits :: "(int \<Rightarrow> bool) \<Rightarrow> (int \<Rightarrow> sig alloc) \<Rightarrow> ((string \<Rightarrow> bool) \<Rightarrow> int \<Rightarrow> bool) \<Rightarrow> string set \<Rightarrow> bool" where
  "names_lits glob lit_sig lv X \<longleftrightarrow>
     (\<forall>l. glob \<bar>l\<bar> \<and> l \<noteq> 0 \<longrightarrow> builds {} (\<lambda>r. {r}) (lit_sig l) (denotes (\<lambda>\<rho>. lit_holds (lv \<rho>) l) X))"

definition ord_ok :: "(pclause \<Rightarrow> int list) \<Rightarrow> bool" where
  "ord_ok ord \<longleftrightarrow> (\<forall>c. finite c \<longrightarrow> set (ord c) = c)"

text \<open>What a label says of its clause, on either side of the cut.\<close>

definition over :: "pclause set \<Rightarrow> (int \<Rightarrow> bool) \<Rightarrow> ((string \<Rightarrow> bool) \<Rightarrow> int \<Rightarrow> bool) \<Rightarrow> pclause \<Rightarrow> sig \<Rightarrow> bool" where
  "over A glob lv c g \<longleftrightarrow> (\<forall>\<rho> m. (\<forall>d \<in> A. pmodel m d) \<and> (\<forall>v. glob v \<longrightarrow> m v = lv \<rho> v) \<longrightarrow>
     sval \<rho> g \<or> (\<exists>l \<in> c. \<not> glob \<bar>l\<bar> \<and> lit_holds m l))"

definition under :: "pclause set \<Rightarrow> (int \<Rightarrow> bool) \<Rightarrow> ((string \<Rightarrow> bool) \<Rightarrow> int \<Rightarrow> bool) \<Rightarrow> pclause \<Rightarrow> sig \<Rightarrow> bool" where
  "under B glob lv c g \<longleftrightarrow> (\<forall>\<rho> m. (\<forall>d \<in> B. pmodel m d) \<and> (\<forall>v. glob v \<longrightarrow> m v = lv \<rho> v) \<and> sval \<rho> g \<longrightarrow>
     (\<exists>l \<in> c. glob \<bar>l\<bar> \<and> lit_holds m l))"

definition labels ::
  "refutation \<Rightarrow> pclause set \<Rightarrow> pclause set \<Rightarrow> (int \<Rightarrow> bool) \<Rightarrow> ((string \<Rightarrow> bool) \<Rightarrow> int \<Rightarrow> bool) \<Rightarrow> string set \<Rightarrow> sig set \<Rightarrow> pclause \<Rightarrow> sig \<Rightarrow> bool" where
  "labels p A B glob lv X P c g \<longleftrightarrow> g \<in> P \<and> svars g \<subseteq> X \<and> over A glob lv c g \<and>
     ((\<forall>d \<in> B. \<forall>l \<in> d. glob \<bar>l\<bar>) \<longrightarrow> under B glob lv c g)"

lemma labels_mono: "labels p A B glob lv X P c g \<Longrightarrow> P \<subseteq> P' \<Longrightarrow> labels p A B glob lv X P' c g"
  unfolding labels_def by blast

lemma lit_holds_uminus: "l \<noteq> 0 \<Longrightarrow> lit_holds m (- l) = (\<not> lit_holds m l)"
  unfolding lit_holds_def by (cases "l > 0") auto

text \<open>A resolution: conjunction on a global pivot, disjunction on any other.\<close>

lemma label_res:
  assumes l: "labels p A B glob lv X P c1 g1" and r: "labels p A B glob lv X P c2 g2" and x: "x \<noteq> 0"
    and g: "g \<in> P" "svars g \<subseteq> X" "\<And>\<rho>. sval \<rho> g = (if glob \<bar>x\<bar> then sval \<rho> g1 \<and> sval \<rho> g2 else sval \<rho> g1 \<or> sval \<rho> g2)"
  shows "labels p A B glob lv X P (resolve c1 c2 x) g"
  unfolding labels_def
proof (intro conjI impI)
  show "over A glob lv (resolve c1 c2 x) g"
    unfolding over_def
  proof (intro allI impI)
    fix \<rho> m assume a: "(\<forall>d \<in> A. pmodel m d) \<and> (\<forall>v. glob v \<longrightarrow> m v = lv \<rho> v)"
    have 1: "sval \<rho> g1 \<or> (\<exists>l \<in> c1. \<not> glob \<bar>l\<bar> \<and> lit_holds m l)" and 2: "sval \<rho> g2 \<or> (\<exists>l \<in> c2. \<not> glob \<bar>l\<bar> \<and> lit_holds m l)"
      using l r a unfolding labels_def over_def by blast+
    show "sval \<rho> g \<or> (\<exists>l \<in> resolve c1 c2 x. \<not> glob \<bar>l\<bar> \<and> lit_holds m l)"
    proof (rule ccontr)
      assume n: "\<not> (sval \<rho> g \<or> (\<exists>l \<in> resolve c1 c2 x. \<not> glob \<bar>l\<bar> \<and> lit_holds m l))"
      have only: "l = x" if "l \<in> c1" "\<not> glob \<bar>l\<bar>" "lit_holds m l" for l using n that by (auto simp: resolve_def)
      have only': "l = - x" if "l \<in> c2" "\<not> glob \<bar>l\<bar>" "lit_holds m l" for l using n that by (auto simp: resolve_def)
      show False
      proof (cases "glob \<bar>x\<bar>")
        case True
        then have "sval \<rho> g1" "sval \<rho> g2" using 1 2 only only' by (metis abs_minus_cancel)+
        then show False using n g(3) True by simp
      next
        case False
        then have "lit_holds m x" "lit_holds m (- x)" using n g(3) 1 2 only only' by (metis (no_types))+
        then show False using lit_holds_uminus [OF x] by simp
      qed
    qed
  qed
  show "under B glob lv (resolve c1 c2 x) g" if B: "\<forall>d \<in> B. \<forall>l \<in> d. glob \<bar>l\<bar>"
    unfolding under_def
  proof (intro allI impI)
    fix \<rho> m assume a: "(\<forall>d \<in> B. pmodel m d) \<and> (\<forall>v. glob v \<longrightarrow> m v = lv \<rho> v) \<and> sval \<rho> g"
    have 1: "sval \<rho> g1 \<Longrightarrow> \<exists>l \<in> c1. glob \<bar>l\<bar> \<and> lit_holds m l" and 2: "sval \<rho> g2 \<Longrightarrow> \<exists>l \<in> c2. glob \<bar>l\<bar> \<and> lit_holds m l"
      using l r a B unfolding labels_def under_def by blast+
    show "\<exists>l \<in> resolve c1 c2 x. glob \<bar>l\<bar> \<and> lit_holds m l"
    proof (cases "glob \<bar>x\<bar>")
      case True
      then obtain l1 l2 where "l1 \<in> c1" "glob \<bar>l1\<bar>" "lit_holds m l1" "l2 \<in> c2" "glob \<bar>l2\<bar>" "lit_holds m l2"
        using 1 2 a g(3) by auto
      moreover have "l1 \<noteq> x \<or> l2 \<noteq> - x" using calculation lit_holds_uminus [OF x] by auto
      ultimately show ?thesis unfolding resolve_def by auto
    next
      case False
      then have "sval \<rho> g1 \<or> sval \<rho> g2" using a g(3) by simp
      then show ?thesis using 1 2 False unfolding resolve_def by (metis (mono_tags, lifting) UnI1 UnI2 abs_minus_cancel mem_Collect_eq)
    qed
  qed
qed (rule g)+

text \<open>A leaf of A: its global literals.\<close>

lemma label_leaf:
  assumes nl: "names_lits glob lit_sig lv X" and ord: "ord_ok ord" and c: "c \<in> A" "finite c" "0 \<notin> c" and P: "pool_ok n P"
  obtains g n' P' where "(let (g, n) = run_state (alloc_map lit_sig (filter (\<lambda>l. glob \<bar>l\<bar>) (ord c))) n
      in if g \<noteq> [] then run_state (OR_s g) n else (FALSE_s, n)) = (g, n')"
    "pool_ok n' P'" "P \<subseteq> P'" "labels p A B glob lv X P' c g"
proof -
  let ?ls = "filter (\<lambda>l. glob \<bar>l\<bar>) (ord c)"
  have sc: "set ?ls = {l \<in> c. glob \<bar>l\<bar>}" using ord c(2) by (auto simp: ord_ok_def)
  let ?Q = "\<lambda>l. denotes (\<lambda>\<rho>. lit_holds (lv \<rho>) l) X"
  have "builds {} (\<lambda>ys. \<Union>y \<in> set ys. {y}) (alloc_map lit_sig ?ls) (list_all2 ?Q ?ls)"
    by (rule builds_alloc_map) (use nl sc c(3) in \<open>auto simp: names_lits_def\<close>)
  then obtain gs n1 P1 where 1: "run_state (alloc_map lit_sig ?ls) n = (gs, n1)" "pool_ok n1 P1" "P \<subseteq> P1"
    "(\<Union>y \<in> set gs. {y}) \<subseteq> P1" "list_all2 ?Q ?ls gs"
    by (rule buildsE [OF _ P empty_subsetI]) (rule that)
  have ex: "(\<exists>g \<in> set gs. sval \<rho> g) = (\<exists>l \<in> set ?ls. lit_holds (lv \<rho>) l)" for \<rho>
    using 1(5) by (induction rule: list_all2_induct) (auto simp: denotes_def)
  have vars: "(\<Union>g \<in> set gs. svars g) \<subseteq> X"
    using 1(5) by (induction rule: list_all2_induct) (auto simp: denotes_def)
  have lab: "labels p A B glob lv X P' c g" if "g \<in> P'" "svars g \<subseteq> X" "\<And>\<rho>. sval \<rho> g = (\<exists>l \<in> set ?ls. lit_holds (lv \<rho>) l)" for g P'
    unfolding labels_def over_def under_def
  proof (intro conjI impI allI)
    fix \<rho> m assume m: "(\<forall>d \<in> A. pmodel m d) \<and> (\<forall>v. glob v \<longrightarrow> m v = lv \<rho> v)"
    then obtain l where "l \<in> c" "lit_holds m l" using c(1) unfolding pmodel_def lit_holds_def by blast
    then show "sval \<rho> g \<or> (\<exists>l \<in> c. \<not> glob \<bar>l\<bar> \<and> lit_holds m l)"
      using m unfolding that(3) sc lit_holds_def by (cases "glob \<bar>l\<bar>") auto
  next
    fix \<rho> m assume "(\<forall>d \<in> B. pmodel m d) \<and> (\<forall>v. glob v \<longrightarrow> m v = lv \<rho> v) \<and> sval \<rho> g"
    then show "\<exists>l \<in> c. glob \<bar>l\<bar> \<and> lit_holds m l" unfolding that(3) sc lit_holds_def by auto
  qed (fact that(1,2))+
  show ?thesis
  proof (cases "gs = []")
    case True
    have "FALSE_s \<in> P1" using 1(2) by (simp add: pool_ok_def)
    moreover have "sval \<rho> FALSE_s = (\<exists>l \<in> set ?ls. lit_holds (lv \<rho>) l)" for \<rho> using ex [of \<rho>] True by simp
    ultimately show ?thesis using 1 True by (intro that [of FALSE_s n1 P1] lab) simp_all
  next
    case False
    have "set gs \<subseteq> P1" using 1(4) by blast
    then obtain g n2 P2 where 2: "run_state (OR_s gs) n1 = (g, n2)" "pool_ok n2 P2" "P1 \<subseteq> P2" "{g} \<subseteq> P2"
      "denotes (\<lambda>\<rho>. \<exists>x \<in> set gs. sval \<rho> x) (\<Union>x \<in> set gs. svars x) g"
      by (rule buildsE [OF builds_OR 1(2)]) (rule that)
    have "labels p A B glob lv X P2 c g"
      using 2(4,5) vars ex unfolding denotes_def by (intro lab) auto
    then show ?thesis using 1(1,3) 2(1-3) False by (intro that [of g n2 P2]) auto
  qed
qed

definition labelled ::
  "refutation \<Rightarrow> pclause set \<Rightarrow> pclause set \<Rightarrow> (int \<Rightarrow> bool) \<Rightarrow> ((string \<Rightarrow> bool) \<Rightarrow> int \<Rightarrow> bool) \<Rightarrow> string set \<Rightarrow> sig set \<Rightarrow>
     (pclause \<rightharpoonup> sig) \<Rightarrow> bool" where
  "labelled p A B glob lv X P memo \<longleftrightarrow> (\<forall>c g. memo c = Some g \<longrightarrow> labels p A B glob lv X P c g)"

lemma labelled_upd:
  "labelled p A B glob lv X P memo \<Longrightarrow> P \<subseteq> P' \<Longrightarrow> labels p A B glob lv X P' c g \<Longrightarrow> labelled p A B glob lv X P' (memo(c \<mapsto> g))"
  unfolding labelled_def using labels_mono by (metis map_upd_Some_unfold)

lemma label_B:
  assumes "c \<in> B" "TRUE_s \<in> P"
  shows "labels p A B glob lv X P c TRUE_s"
proof -
  have "under B glob lv c TRUE_s" if "\<forall>d \<in> B. \<forall>l \<in> d. glob \<bar>l\<bar>"
    unfolding under_def using assms(1) that unfolding pmodel_def lit_holds_def by blast
  then show ?thesis using assms(2) by (simp add: labels_def over_def)
qed

lemma itp_ok:
  assumes d: "derivations A B p rank" and nl: "names_lits glob lit_sig lv X" and ord: "ord_ok ord"
  shows "p c \<noteq> None \<Longrightarrow> pool_ok n P \<Longrightarrow> labelled p A B glob lv X P memo \<Longrightarrow>
    \<exists>g memo' n' P'. itp p glob lit_sig ord c memo n = Some ((g, memo'), n') \<and> pool_ok n' P' \<and> P \<subseteq> P' \<and>
      labelled p A B glob lv X P' memo' \<and> labels p A B glob lv X P' c g"
proof (induction c arbitrary: n P memo rule: measure_induct_rule [where f = rank])
  case (less c)
  obtain s where s: "p c = Some s" using less.prems(1) by blast
  show ?case
  proof (cases "memo c")
    case (Some g)
    then have "itp p glob lit_sig ord c memo n = Some ((g, memo), n)" by (simp add: itp.simps)
    then show ?thesis using less.prems Some by (auto simp: labelled_def)
  next
    case memo: None
    show ?thesis
    proof (cases s)
      case (Leaf t)
      show ?thesis
      proof (cases t)
        case TagA
        have c: "c \<in> A" "finite c" "0 \<notin> c" using derivations_step(1,2,3) [OF d s] Leaf TagA by auto
        obtain g n' P' where g: "(let (g, n) = run_state (alloc_map lit_sig (filter (\<lambda>l. glob \<bar>l\<bar>) (ord c))) n
            in if g \<noteq> [] then run_state (OR_s g) n else (FALSE_s, n)) = (g, n')"
          "pool_ok n' P'" "P \<subseteq> P'" "labels p A B glob lv X P' c g"
          by (rule label_leaf [OF nl ord c less.prems(2)]) (rule that)
        have "itp p glob lit_sig ord c memo n = Some ((g, memo(c \<mapsto> g)), n')"
          using g(1) by (subst itp.simps) (simp add: memo s Leaf TagA split_beta Let_def)
        then show ?thesis using g(2-4) labelled_upd [OF less.prems(3) g(3,4)] by blast
      next
        case TagB
        have "c \<in> B" "TRUE_s \<in> P" using derivations_step(4) [OF d s] Leaf TagB less.prems(2) by (auto simp: pool_ok_def)
        then have "labels p A B glob lv X P c TRUE_s" by (rule label_B)
        moreover have "itp p glob lit_sig ord c memo n = Some ((TRUE_s, memo(c \<mapsto> TRUE_s)), n)"
          by (subst itp.simps) (simp add: memo s Leaf TagB)
        ultimately show ?thesis using less.prems(2,3) labelled_upd by blast
      qed
    next
      case (Res l r x)
      have r: "c = resolve l r x" "p l \<noteq> None" "p r \<noteq> None" "rank l < rank c" "rank r < rank c" "x \<noteq> 0"
        using derivations_step(5) [OF d s Res] by blast+
      obtain il m1 n1 P1 where 1: "itp p glob lit_sig ord l memo n = Some ((il, m1), n1)" "pool_ok n1 P1" "P \<subseteq> P1"
        "labelled p A B glob lv X P1 m1" "labels p A B glob lv X P1 l il"
        using less.IH [OF r(4,2) less.prems(2,3)] by blast
      obtain ir m2 n2 P2 where 2: "itp p glob lit_sig ord r m1 n1 = Some ((ir, m2), n2)" "pool_ok n2 P2" "P1 \<subseteq> P2"
        "labelled p A B glob lv X P2 m2" "labels p A B glob lv X P2 r ir"
        using less.IH [OF r(5,3) 1(2,4)] by blast
      have in2: "set [il, ir] \<subseteq> P2" using 1(5) 2(3,5) by (auto simp: labels_def)
      have vars: "svars il \<subseteq> X" "svars ir \<subseteq> X" using 1(5) 2(5) by (simp_all add: labels_def)
      obtain g n3 P3 where 3: "run_state (if \<not> glob \<bar>x\<bar> then OR_s [il, ir] else AND_s [il, ir]) n2 = (g, n3)" "pool_ok n3 P3" "P2 \<subseteq> P3"
        "g \<in> P3" "svars g \<subseteq> X" "\<And>\<rho>. sval \<rho> g = (if glob \<bar>x\<bar> then sval \<rho> il \<and> sval \<rho> ir else sval \<rho> il \<or> sval \<rho> ir)"
      proof (cases "glob \<bar>x\<bar>")
        case True
        obtain v n' P' where v: "run_state (AND_s [il, ir]) n2 = (v, n')" "pool_ok n' P'" "P2 \<subseteq> P'" "{v} \<subseteq> P'"
          "denotes (\<lambda>\<rho>. \<forall>x \<in> set [il, ir]. sval \<rho> x) (\<Union>x \<in> set [il, ir]. svars x) v"
          by (rule buildsE [OF builds_AND 2(2) in2]) (rule that)
        then show ?thesis using True vars by (intro that [of v n' P']) (auto simp: denotes_def)
      next
        case False
        obtain v n' P' where v: "run_state (OR_s [il, ir]) n2 = (v, n')" "pool_ok n' P'" "P2 \<subseteq> P'" "{v} \<subseteq> P'"
          "denotes (\<lambda>\<rho>. \<exists>x \<in> set [il, ir]. sval \<rho> x) (\<Union>x \<in> set [il, ir]. svars x) v"
          by (rule buildsE [OF builds_OR 2(2) in2]) (rule that)
        then show ?thesis using False vars by (intro that [of v n' P']) (auto simp: denotes_def)
      qed
      have lab: "labels p A B glob lv X P3 c g"
        unfolding r(1)
        by (rule label_res [OF labels_mono [OF labels_mono [OF 1(5) 2(3)] 3(3)] labels_mono [OF 2(5) 3(3)] r(6) 3(4-6)])
      have "itp p glob lit_sig ord c memo n = Some ((g, m2(c \<mapsto> g)), n3)"
        using 1(1) 2(1) 3(1) by (subst itp.simps) (simp add: memo s Res)
      then show ?thesis using lab 1(3) 2(3) 3(2,3) labelled_upd [OF 2(4) 3(3) lab] by blast
    qed
  qed
qed

lemma mcmillan_ok:
  assumes v: "valid A B p" and c: "p c \<noteq> None" and nl: "names_lits glob lit_sig lv X" and ord: "ord_ok ord" and P: "pool_ok n P"
  shows "\<exists>g n' P'. mcmillan p c glob lit_sig ord n = Some (g, n') \<and> pool_ok n' P' \<and> P \<subseteq> P' \<and> labels p A B glob lv X P' c g"
proof -
  obtain rank where d: "derivations A B p rank" using v by (auto simp: valid_def)
  have "labelled p A B glob lv X P Map.empty" by (simp add: labelled_def)
  from itp_ok [OF d nl ord c P this] show ?thesis by (auto simp: mcmillan_def)
qed

subsection \<open>The properties\<close>

declare loop.simps [code] dpll_rec.simps [code] itp.simps [code]

text \<open>The textbook refutation: \<open>x\<close>, \<open>x \<longrightarrow> y\<close> on the side of A, \<open>\<not> y\<close> on the side of B.\<close>

definition textbook :: "(pclause \<times> tag) list" where
  "textbook = [({1}, TagA), ({- 1, 2}, TagA), ({- 2}, TagB)]"

lemma textbook_refuted: "\<exists>p. dpll_prove textbook = Some (UNSAT {} p)"
proof -
  have "case dpll_prove textbook of Some (UNSAT c p) \<Rightarrow> c = {} | _ \<Rightarrow> False" unfolding textbook_def by code_simp
  then show ?thesis by (auto split: option.splits dpll_result.splits)
qed

text \<open>C20. The proof search returns on every list of clauses; \<open>SAT\<close> comes with a model; otherwise every
  step of the proof is a genuine resolution over given clauses, so the root clause follows from
  them, and a root that is empty refutes them.\<close>

theorem dpll_prove_sound:
  assumes "\<forall>(c, t) \<in> set ts. finite c \<and> 0 \<notin> c"
  shows "\<exists>r. dpll_prove ts = Some r \<and> (case r of
      SAT \<Rightarrow> \<exists>m. \<forall>(c, t) \<in> set ts. pmodel m c
    | UNSAT c p \<Rightarrow> valid (tagged TagA ts) (tagged TagB ts) p \<and> p c \<noteq> None \<and>
        (\<forall>m. (\<forall>(d, t) \<in> set ts. pmodel m d) \<longrightarrow> pmodel m c))"
proof -
  obtain r where r: "dpll_prove ts = Some r" "case r of
      SAT \<Rightarrow> \<exists>m. \<forall>(c, t) \<in> set ts. pmodel m c
    | UNSAT c p \<Rightarrow> valid (tagged TagA ts) (tagged TagB ts) p \<and> p c \<noteq> None"
    using dpll_prove_ok [OF assms] by blast
  have "pmodel m c" if "r = UNSAT c p" "\<forall>(d, t) \<in> set ts. pmodel m d" for c p m
  proof (rule derived_implied)
    show "valid (tagged TagA ts) (tagged TagB ts) p" "p c \<noteq> None" using r(2) that(1) by simp_all
    show "\<forall>c \<in> tagged TagA ts \<union> tagged TagB ts. pmodel m c" using that(2) by (auto simp: tagged_def)
  qed
  then show ?thesis using r by (auto split: dpll_result.splits)
qed

theorem dpll_prove_sound_witness:
  "\<exists>r. dpll_prove textbook = Some r \<and> (case r of
      SAT \<Rightarrow> \<exists>m. \<forall>(c, t) \<in> set textbook. pmodel m c
    | UNSAT c p \<Rightarrow> valid (tagged TagA textbook) (tagged TagB textbook) p \<and> p c \<noteq> None \<and>
        (\<forall>m. (\<forall>(d, t) \<in> set textbook. pmodel m d) \<longrightarrow> pmodel m c))"
  by (rule dpll_prove_sound) (simp add: textbook_def)

text \<open>The answer \<open>UNSAT\<close> alone is no refutation: on these five clauses, which have a model, the pruning of
  a branch whose conflict does not mention the decided variable returns the unit clause \<open>\<not> x2\<close>.\<close>

theorem dpll_prove_misrules:
  "\<exists>ts p m. list_all (\<lambda>(c, t). pmodel m c) ts \<and> dpll_prove ts = Some (UNSAT {- 2} p)"
proof -
  let ?mis = "[({1, 2}, TagA), ({- 2, 3, 4}, TagA), ({- 2, 3, - 4}, TagA), ({- 2, - 3, 4}, TagA), ({- 2, - 3, - 4 :: int}, TagA)]"
  have "case dpll_prove ?mis of Some (UNSAT c p) \<Rightarrow> c = {- 2} | _ \<Rightarrow> False" by code_simp
  then obtain p where "dpll_prove ?mis = Some (UNSAT {- 2} p)" by (auto split: option.splits dpll_result.splits)
  moreover have "list_all (\<lambda>(c, t). pmodel (\<lambda>v. v = 1) c) ?mis" by (simp add: pmodel_def)
  ultimately show ?thesis by blast
qed

text \<open>The literals of the textbook example, named as the self-test does.\<close>

definition y_sig :: "int \<Rightarrow> sig alloc" where
  "y_sig l = (if l = 2 then VAR_s ''y'' else if l = - 2 then State_Monad.bind (VAR_s ''y'') NOT_s else State_Monad.return FALSE_s)"

lemma y_sig_ok: "names_lits (\<lambda>v. v = 2) y_sig (\<lambda>\<rho> v. \<rho> ''y'') {''y''}"
  unfolding names_lits_def
proof (intro allI impI)
  fix l :: int assume "\<bar>l\<bar> = 2 \<and> l \<noteq> 0"
  then consider "l = 2" | "l = - 2" by linarith
  then show "builds {} (\<lambda>r. {r}) (y_sig l) (denotes (\<lambda>\<rho>. lit_holds (\<lambda>v. \<rho> ''y'') l) {''y''})"
  proof cases
    case 1
    show ?thesis unfolding 1 y_sig_def lit_holds_def by (simp add: builds_VAR)
  next
    case 2
    have n: "builds ({} \<union> {a}) (\<lambda>r. {r}) (NOT_s a) (denotes (\<lambda>\<rho>. \<not> \<rho> ''y'') {''y''})"
      if "denotes (\<lambda>\<rho>. \<rho> ''y'') {''y''} a" for a
      by (rule builds_weaken [OF builds_NOT]) (use that in \<open>simp_all add: denotes_def\<close>, blast?)
    have "builds {} (\<lambda>r. {r}) (State_Monad.bind (VAR_s ''y'') NOT_s) (denotes (\<lambda>\<rho>. \<not> \<rho> ''y'') {''y''})"
      by (rule builds_bind [OF builds_VAR n])
    then show ?thesis unfolding 2 y_sig_def lit_holds_def by simp
  qed
qed

text \<open>C21. McMillan's labelling of a valid proof returns, for every order in which the clauses are iterated. Every
  model of A satisfies the interpolant or a local literal of the root; when B reads only global
  variables, a model of B in which the interpolant holds satisfies a global literal of the root. With an
  empty root these are the two halves of Craig's theorem.\<close>

theorem mcmillan_interpolates:
  assumes "valid A B p" "p c \<noteq> None" "names_lits glob lit_sig lv X" "ord_ok ord" "pool_ok n P"
  shows "\<exists>g n' P'. mcmillan p c glob lit_sig ord n = Some (g, n') \<and> pool_ok n' P' \<and> P \<subseteq> P' \<and> g \<in> P' \<and> svars g \<subseteq> X \<and>
    over A glob lv c g \<and> ((\<forall>d \<in> B. \<forall>l \<in> d. glob \<bar>l\<bar>) \<longrightarrow> under B glob lv c g)"
  using mcmillan_ok [OF assms] by (simp add: labels_def)

theorem mcmillan_interpolates_witness:
  "\<exists>p g n'. dpll_prove textbook = Some (UNSAT {} p) \<and>
     mcmillan p {} (\<lambda>v. v = 2) y_sig sorted_list_of_set 2 = Some (g, n') \<and> (\<forall>\<rho>. sval \<rho> g \<longleftrightarrow> \<rho> ''y'')"
proof -
  obtain p where p: "dpll_prove textbook = Some (UNSAT {} p)" using textbook_refuted by blast
  have "\<forall>(c, t) \<in> set textbook. finite c \<and> 0 \<notin> c" by (simp add: textbook_def)
  from dpll_prove_ok [OF this] p have v: "valid (tagged TagA textbook) (tagged TagB textbook) p" "p {} \<noteq> None" by auto
  have "ord_ok sorted_list_of_set" by (simp add: ord_ok_def)
  note m = mcmillan_interpolates [OF v y_sig_ok this pool_ok_start]
  obtain g n' where
    g: "mcmillan p {} (\<lambda>v. v = 2) y_sig sorted_list_of_set 2 = Some (g, n')"
      "over (tagged TagA textbook) (\<lambda>v. v = 2) (\<lambda>\<rho> v. \<rho> ''y'') {} g"
      "(\<forall>d \<in> tagged TagB textbook. \<forall>l \<in> d. \<bar>l\<bar> = 2) \<longrightarrow> under (tagged TagB textbook) (\<lambda>v. v = 2) (\<lambda>\<rho> v. \<rho> ''y'') {} g"
    using m by (elim exE conjE) (rule that)
  have t: "tagged TagA textbook = {{1}, {- 1, 2}}" "tagged TagB textbook = {{- 2}}"
    by (auto simp: tagged_def textbook_def)
  have "sval \<rho> g \<longleftrightarrow> \<rho> ''y''" for \<rho>
  proof
    assume s: "sval \<rho> g"
    show "\<rho> ''y''"
    proof (rule ccontr)
      assume "\<not> \<rho> ''y''"
      then have "\<exists>l \<in> {}. (\<lambda>v. v = 2) \<bar>l\<bar> \<and> lit_holds (\<lambda>_. \<rho> ''y'') l"
        using g(3) s unfolding t under_def by (auto simp: pmodel_def)
      then show False by simp
    qed
  next
    assume "\<rho> ''y''"
    then show "sval \<rho> g" using g(2) [unfolded t over_def, rule_format, of "\<lambda>_. True" \<rho>] by (simp add: pmodel_def)
  qed
  then show ?thesis using p g(1) by blast
qed

end
