(* ===== verification/Recorder.thy ===== *)
theory Recorder
  imports Query
begin

text \<open>
  Class \<open>_Rec\<close> of \<open>interp.py\<close>: a solver that also logs the clauses it is given. The locale
  \<open>logging_sink\<close> extends \<open>clause_sink\<close> by a property that every \<open>add_clause\<close> keeps, and shows that
  the encoder keeps it; its interpretation on \<open>_Rec\<close> says that the log has the models of the solver.
\<close>

subsection \<open>The class\<close>

record rec_solver = solver +
  log :: "int set list"

definition rec_add :: "int list \<Rightarrow> rec_solver \<Rightarrow> bool \<times> rec_solver" where
  "rec_add ls s = add_clause ls
     (case dedupe [] ls of
        Some out \<Rightarrow> if out \<noteq> [] then s\<lparr>log := log s @ [set out]\<rparr> else s
      | None \<Rightarrow> s)"

definition Rec :: rec_solver where
  "Rec = solver.extend Solver \<lparr>log = []\<rparr>"

subsection \<open>What the encoder keeps\<close>

locale logging_sink = clause_sink add for add :: "int list \<Rightarrow> 'a solver_scheme \<Rightarrow> bool \<times> 'a solver_scheme" +
  fixes J :: "'a solver_scheme \<Rightarrow> bool"
  assumes J_add: "inv s \<Longrightarrow> \<forall>l \<in> set ls. lit_ok (n_vars s) l \<Longrightarrow> ls \<noteq> [] \<Longrightarrow> J s \<Longrightarrow> J (snd (add ls s))"
    and J_new: "inv s \<Longrightarrow> J s \<Longrightarrow> J (snd (new_var s))"
    and J_true: "J s \<Longrightarrow> J (s\<lparr>true_lit := t\<rparr>)"
begin

lemma add_clauses_J:
  assumes "inv s" "\<forall>c \<in> set cls. c \<noteq> [] \<and> (\<forall>l \<in> set c. lit_ok (n_vars s) l)" "J s"
  shows "J (add_clauses add cls s)"
  using assms
proof (induction cls arbitrary: s)
  case (Cons c cls)
  have l: "\<forall>l \<in> set c. lit_ok (n_vars s) l" using Cons.prems(2) by simp
  have "J (snd (add c s))" using J_add [OF Cons.prems(1) l] Cons.prems(2,3) by simp
  then show ?case using Cons.IH [of "snd (add c s)"] add_ok [OF Cons.prems(1) l] Cons.prems(2) by simp
qed simp

lemma gate_clauses_nonempty: "gate_clauses g y ls = Some cls \<Longrightarrow> \<forall>c \<in> set cls. c \<noteq> []"
  by (induction g y ls rule: gate_clauses.induct) auto

lemma add_gate_J:
  assumes s: "sinv s" "J s" and g: "add_gate add g ls memo s = Some (l, memo', s')" and ls: "\<forall>l \<in> set ls. lit_ok (n_vars s) l"
  shows "J s'"
proof -
  let ?y = "int (Suc (n_vars s))"
  obtain cls where cls: "gate_clauses g ?y ls = Some cls" "s' = add_clauses add cls (snd (new_var s))"
    using g by (auto simp: add_gate_def split_beta Let_def bind_eq_Some_conv)
  have i: "inv s" using s(1) by (simp add: sinv_def)
  have "lit_ok (Suc (n_vars s)) l" if "c \<in> set cls" "l \<in> set c" for c l
  proof -
    have "lvar l = lvar ?y \<or> lvar l \<in> lvar ` set ls" by (rule gate_clauses_lits [OF cls(1) that])
    moreover have "0 < lvar k" if "k \<in> set ls" for k using ls that by (auto simp: lvar_def lit_ok_def)
    ultimately have "0 < lvar l \<and> lvar l \<le> Suc (n_vars s)" using ls by (auto simp: lit_ok_def le_SucI lvar_def)
    then show ?thesis by (auto simp: lit_ok_def lvar_def)
  qed
  moreover have "n_vars (snd (new_var s)) = Suc (n_vars s)" by simp
  ultimately have "\<forall>c \<in> set cls. c \<noteq> [] \<and> (\<forall>l \<in> set c. lit_ok (n_vars (snd (new_var s))) l)"
    using gate_clauses_nonempty [OF cls(1)] by metis
  then show ?thesis unfolding cls(2) by (rule add_clauses_J [OF inv_new_var [OF i] _ J_new [OF i s(2)]])
qed

lemma get_true_lit_J:
  assumes s: "sinv s" "J s" and t: "get_true_lit add s = (t, s')"
  shows "J s'"
proof (cases "true_lit s")
  case (Some t)
  then show ?thesis using t s(2) by (simp add: get_true_lit_def)
next
  case None
  let ?v = "Suc (n_vars s)"
  have i: "inv s" using s(1) by (simp add: sinv_def)
  have "\<forall>l \<in> set [int ?v]. lit_ok (n_vars (snd (new_var s))) l" by (simp add: lit_ok_def lvar_def)
  from J_add [OF inv_new_var [OF i] this _ J_new [OF i s(2)]]
  have "J (snd (add [int ?v] (snd (new_var s))))" by simp
  then show ?thesis using t None J_true by (auto simp: get_true_lit_def split_beta Let_def)
qed

definition keeps_J :: "sig set \<Rightarrow> env \<Rightarrow> sig \<Rightarrow> bool" where
  "keeps_J P env g \<longleftrightarrow> (\<forall>s memo l memo' s'. sinv s \<longrightarrow> env_ok (n_vars s) env (svars g) \<longrightarrow> memo_ok P env memo s \<longrightarrow> J s \<longrightarrow>
     tseitin add g env memo s = Some (l, memo', s') \<longrightarrow> J s')"

lemma tseitin_args_J:
  assumes pool: "pool P" and k: "\<forall>g \<in> set gs. keeps_J P env g"
  shows "set gs \<subseteq> P \<Longrightarrow> sinv s \<Longrightarrow> env_ok (n_vars s) env (\<Union>g \<in> set gs. svars g) \<Longrightarrow> memo_ok P env memo s \<Longrightarrow> J s \<Longrightarrow>
    tseitin_args add gs env memo s = Some (ls, memo', s') \<Longrightarrow> J s'"
  using k
proof (induction gs arbitrary: s memo ls)
  case (Cons g gs)
  have e: "env_ok (n_vars s) env (svars g)" using Cons.prems(3) by (rule env_ok_mono) auto
  have g: "g \<in> P" using Cons.prems(1) by simp
  obtain l memo1 s1 where t: "tseitin add g env memo s = Some (l, memo1, s1)" "encoded P env s g (l, memo1, s1)"
    using tseitin_ok [OF pool g Cons.prems(2) e Cons.prems(4)] by auto
  then have x: "extends s s1" "memo_ok P env memo1 s1" by (simp_all add: encoded_def)
  have J1: "J s1" using Cons.prems(2,4,5,7) e t(1) by (auto simp: keeps_J_def)
  obtain ls' where r: "tseitin_args add gs env memo1 s1 = Some (ls', memo', s')"
    using Cons.prems(6) t(1) by (auto simp: bind_eq_Some_conv)
  have "env_ok (n_vars s1) env (\<Union>g \<in> set gs. svars g)"
    using Cons.prems(3) extendsD(2) [OF x(1)] by (rule env_ok_mono) auto
  from Cons.IH [OF _ extendsD(1) [OF x(1)] this x(2) J1 r] show ?case using Cons.prems(1,7) by simp
qed simp

lemma tseitin_J:
  assumes pool: "pool P"
  shows "g \<in> P \<Longrightarrow> keeps_J P env g"
proof (induction "weight g" arbitrary: g rule: less_induct)
  case less
  have IH: "\<forall>a \<in> set (args g). keeps_J P env a"
    using less.hyps weight_arg poolD_args [OF pool less.prems] by blast
  have argsP: "set (args g) \<subseteq> P" using poolD_args [OF pool less.prems] by blast
  show ?case
    unfolding keeps_J_def
  proof (intro allI impI)
    fix s memo l memo' s'
    assume h: "sinv s" "env_ok (n_vars s) env (svars g)" "memo_ok P env memo s" "J s"
      "tseitin add g env memo s = Some (l, memo', s')"
    consider (const) i b where "g = SConst i b" | (var) i x where "g = SVar i x"
      | (hit) k where "memo (sid g) = Some k" "\<not> is_leaf_sig g"
      | (not) i a where "g = SNot i a" "memo (sid g) = None"
      | (gate) "is_gate g" "memo (sid g) = None"
      by (cases g; cases "memo (sid g)") auto
    then show "J s'"
    proof cases
      case const
      then obtain t where "get_true_lit add s = (t, s')" using h(5) by (auto simp: tseitin.simps split_beta Let_def prod_eq_iff)
      then show ?thesis by (rule get_true_lit_J [OF h(1,4)])
    next
      case var
      then show ?thesis using h(4,5) by (auto simp: tseitin.simps bind_eq_Some_conv)
    next
      case hit
      then show ?thesis using h(4,5) by (cases g) (auto simp: tseitin.simps)
    next
      case not
      then have "tseitin add g env memo s = do { (l, memo, s) \<leftarrow> tseitin add a env memo s; Some (- l, memo(sid g \<mapsto> - l), s) }"
        by (subst tseitin.simps) simp
      then obtain k memo1 where "tseitin add a env memo s = Some (k, memo1, s')"
        using h(5) by (cases "tseitin add a env memo s") auto
      then show ?thesis using IH h(1-4) not(1) unfolding keeps_J_def by auto
    next
      case gate
      have "svars g = (\<Union>a \<in> set (args g). svars a)" using gate(1) by (cases g) auto
      then have e: "env_ok (n_vars s) env (\<Union>a \<in> set (args g). svars a)" using h(2) by simp
      have tok: "\<forall>a \<in> set (args g). \<forall>s memo. sinv s \<longrightarrow> env_ok (n_vars s) env (svars a) \<longrightarrow> memo_ok P env memo s \<longrightarrow>
          (\<exists>r. tseitin add a env memo s = Some r \<and> encoded P env s a r)"
        using tseitin_ok [OF pool] argsP by blast
      obtain ls memo1 s1 where a: "tseitin_args add (args g) env memo s = Some (ls, memo1, s1)" "extends s s1"
        "list_all2 (\<lambda>l g. lit_ok (n_vars s1) l \<and> (\<forall>m \<in> mods s1. sat_lit m l = sval (eval_env env m) g)) ls (args g)"
        using tseitin_args_ok [OF tok h(1) e h(3)] by blast
      have "J s1" by (rule tseitin_args_J [OF pool IH argsP h(1) e h(3,4) a(1)])
      moreover have "\<forall>l \<in> set ls. lit_ok (n_vars s1) l" using a(3) by (auto simp: list_all2_conv_all_nth in_set_conv_nth)
      moreover have "add_gate add g ls memo1 s1 = Some (l, memo', s')"
        using h(5) tseitin_gate [OF gate(1), where memo = memo, OF gate(2)] a(1) by simp
      ultimately show ?thesis using add_gate_J extendsD(1) [OF a(2)] by blast
    qed
  qed
qed

end

subsection \<open>The recording solver\<close>

text \<open>A model of the logged clauses, over the variables as integers.\<close>

definition log_models :: "rec_solver \<Rightarrow> (nat \<Rightarrow> bool) set" where
  "log_models s = {m. \<forall>c \<in> set (log s). \<exists>l \<in> c. sat_lit m l}"

definition logs :: "(nat \<Rightarrow> bool) set \<Rightarrow> rec_solver \<Rightarrow> bool" where
  "logs K s \<longleftrightarrow> mods s = K \<inter> log_models s \<and> (\<forall>c \<in> set (log s). finite c \<and> 0 \<notin> c)"

lemma log_upd [simp]: "inv (s\<lparr>log := x\<rparr>) = inv s" "mods (s\<lparr>log := x\<rparr>) = mods s" "n_vars (s\<lparr>log := x\<rparr>) = n_vars s"
  "true_lit (s\<lparr>log := x\<rparr>) = true_lit s"
proof -
  show "inv (s\<lparr>log := x\<rparr>) = inv s" unfolding inv_def binv_parts vsids_ok_def clits_def by (simp cong: option.case_cong)
  show "mods (s\<lparr>log := x\<rparr>) = mods s" unfolding mods_def root_trail_def by (simp cong: list.case_cong)
qed simp_all

lemma more_log: "solver.more (s :: rec_solver) = solver.more t \<Longrightarrow> log s = log t"
  by (cases s; cases t) simp

lemma more_new_var: "solver.more (snd (new_var s)) = solver.more s"
  by (simp add: new_var_def Let_def)

lemma logs_more: "solver.more (s :: rec_solver) = solver.more t \<Longrightarrow> mods s = mods t \<Longrightarrow> logs K s = logs K t"
  using more_log [of s t] by (simp add: logs_def log_models_def)

lemma rec_add_ok:
  assumes inv: "inv s" and ls: "\<forall>l \<in> set ls. lit_ok (n_vars s) l"
  shows "inv (snd (rec_add ls s)) \<and> mods (snd (rec_add ls s)) = mods s \<inter> {m. sat_clause m ls} \<and>
    n_vars (snd (rec_add ls s)) = n_vars s \<and> true_lit (snd (rec_add ls s)) = true_lit s"
    "ls \<noteq> [] \<Longrightarrow> logs K s \<Longrightarrow> logs K (snd (rec_add ls s))"
proof -
  let ?s = "case dedupe [] ls of Some out \<Rightarrow> if out \<noteq> [] then s\<lparr>log := log s @ [set out]\<rparr> else s | None \<Rightarrow> s"
  have i: "inv ?s" "mods ?s = mods s" "n_vars ?s = n_vars s" "true_lit ?s = true_lit s"
    using inv by (simp_all split: option.split)
  have r: "rec_add ls s = add_clause ls ?s" by (simp add: rec_add_def)
  have "\<forall>l \<in> set ls. lit_ok (n_vars ?s) l" using ls i(3) by simp
  note a = add_clause_cases [OF i(1) this, folded r]
  then show "inv (snd (rec_add ls s)) \<and> mods (snd (rec_add ls s)) = mods s \<inter> {m. sat_clause m ls} \<and>
    n_vars (snd (rec_add ls s)) = n_vars s \<and> true_lit (snd (rec_add ls s)) = true_lit s" using i by simp
  assume ne: "ls \<noteq> []" and L: "logs K s"
  have lg: "log (snd (rec_add ls s)) = log ?s" using a by (intro more_log) simp
  have nz: "0 \<notin> set ls" using ls by (auto simp: lit_ok_def)
  show "logs K (snd (rec_add ls s))"
  proof (cases "dedupe [] ls")
    case None
    then obtain l where "l \<in> set ls" "- l \<in> set ls" using dedupe_None [OF None] by auto
    then have "sat_clause m ls" for m
      using nz sat_lit_minus [of l m] unfolding sat_clause_def by (cases "l = 0") blast+
    then show ?thesis using L a i(2) None lg by (simp add: logs_def log_models_def)
  next
    case (Some out)
    then have out: "set out = set ls" using dedupe_Some [of "[]" ls out] by simp
    then have "out \<noteq> []" using ne by auto
    then have "log (snd (rec_add ls s)) = log s @ [set ls]" using lg Some out by simp
    then show ?thesis using L a i(2) nz by (auto simp: logs_def log_models_def sat_clause_def)
  qed
qed

interpretation recorder: logging_sink rec_add "logs K" for K
proof unfold_locales
  fix s :: rec_solver and ls assume "inv s" "\<forall>l \<in> set ls. lit_ok (n_vars s) l"
  then show "inv (snd (rec_add ls s)) \<and> mods (snd (rec_add ls s)) = mods s \<inter> {m. sat_clause m ls} \<and>
    n_vars (snd (rec_add ls s)) = n_vars s \<and> true_lit (snd (rec_add ls s)) = true_lit s"
    and "ls \<noteq> [] \<Longrightarrow> logs K s \<Longrightarrow> logs K (snd (rec_add ls s))" using rec_add_ok by blast+
next
  fix s :: rec_solver assume "inv s" "logs K s"
  then show "logs K (snd (new_var s))"
    using logs_more [of "snd (new_var s)" s K] by (simp add: more_new_var)
next
  fix s :: rec_solver and t assume "logs K s"
  moreover have "mods (s\<lparr>true_lit := t\<rparr>) = mods s" by (simp add: mods_def root_trail_def cong: list.case_cong)
  ultimately show "logs K (s\<lparr>true_lit := t\<rparr>)" by (simp add: logs_def log_models_def)
qed

end
