(* ===== verification/Interp.thy ===== *)
theory Interp
  imports Query Dpll Recorder Bmc
begin

text \<open>
  Interpolation-based model checking (\<open>itp_mc\<close> of \<open>interp.py\<close>) and the queries it is made of. The
  iteration order of a clause is the parameter \<open>ord\<close>; the counter of the node identities is threaded.
\<close>

subsection \<open>Satisfiability and implication over the state\<close>

primrec assert_sigs :: "sig list \<Rightarrow> env \<Rightarrow> lit_memo \<Rightarrow> 'a solver_scheme \<Rightarrow> 'a solver_scheme option" where
  "assert_sigs [] env memo s = Some s"
| "assert_sigs (g # gs) env memo s = do {
     (l, memo, s) \<leftarrow> tseitin add_clause g env memo s;
     assert_sigs gs env memo (snd (add_clause [l] s)) }"

definition itp_sat :: "sig list \<Rightarrow> trans_system \<Rightarrow> bool option" where
  "itp_sat gs ts = do {
     let (cur, s) = alloc_names (ts_state ts) Map.empty Solver;
     let (cur, s) = alloc_names (ts_inputs ts) cur s;
     s \<leftarrow> assert_sigs gs cur Map.empty s;
     (sat, s) \<leftarrow> solve [] s;
     Some sat }"

definition implies_s :: "sig \<Rightarrow> sig \<Rightarrow> trans_system \<Rightarrow> nat \<Rightarrow> (bool \<times> nat) option" where
  "implies_s a b ts n = do {
     let (nb, n) = run_state (NOT_s b) n;
     sat \<leftarrow> itp_sat [a, nb] ts;
     Some (\<not> sat, n) }"

subsection \<open>The one-step query\<close>

primrec rec_tie ::
  "trans_system \<Rightarrow> env \<Rightarrow> env \<Rightarrow> string list \<Rightarrow> lit_memo \<Rightarrow> rec_solver \<Rightarrow> (lit_memo \<times> rec_solver) option" where
  "rec_tie ts cur nxt [] memo s = Some (memo, s)"
| "rec_tie ts cur nxt (n # ns) memo s = do {
     g \<leftarrow> ts_next ts n;
     (f, memo, s) \<leftarrow> tseitin rec_add g cur memo s;
     v \<leftarrow> nxt n;
     let s = snd (rec_add [- f, v] s);
     let s = snd (rec_add [f, - v] s);
     rec_tie ts cur nxt ns memo s }"

definition nxt_name :: "trans_system \<Rightarrow> env \<Rightarrow> int \<Rightarrow> string option" where
  "nxt_name ts nxt v = find (\<lambda>n. nxt n = Some v) (ts_state ts)"

definition nxt_sig :: "trans_system \<Rightarrow> env \<Rightarrow> int \<Rightarrow> sig alloc" where
  "nxt_sig ts nxt l =
     (case nxt_name ts nxt \<bar>l\<bar> of
        Some n \<Rightarrow> if l > 0 then VAR_s n else State_Monad.bind (VAR_s n) NOT_s
      | None \<Rightarrow> State_Monad.return FALSE_s)"

text \<open>The result: the tagged clauses, and the variables of the next state by name.\<close>

definition build_query :: "trans_system \<Rightarrow> sig \<Rightarrow> ((pclause \<times> tag) list \<times> env) option" where
  "build_query ts R = do {
     let (cur, s) = alloc_names (ts_state ts) Map.empty Rec;
     let (cur, s) = alloc_names (ts_inputs ts) cur s;
     let (nxt, s) = alloc_names (ts_state ts) Map.empty s;
     (memo, s) \<leftarrow> rec_tie ts cur nxt (ts_state ts) Map.empty s;
     (l, memo, s) \<leftarrow> tseitin rec_add R cur memo s;
     let s = snd (rec_add [l] s);
     let A = log s;
     let s = s\<lparr>log := []\<rparr>;
     let (bad_env, s) = alloc_names (ts_inputs ts) nxt s;
     b \<leftarrow> ts_bad ts;
     (l, memoB, s) \<leftarrow> tseitin rec_add b bad_env Map.empty s;
     let s = snd (rec_add [l] s);
     let B = log s;
     Some (map (\<lambda>c. (c, TagA)) A @ map (\<lambda>c. (c, TagB)) B, nxt) }"

definition is_global :: "trans_system \<Rightarrow> env \<Rightarrow> int \<Rightarrow> bool" where
  "is_global ts nxt v \<longleftrightarrow> nxt_name ts nxt v \<noteq> None"

subsection \<open>The loop\<close>

datatype itp_result = ITP_UNSAFE | ITP_SAFE sig | ITP_UNKNOWN string

fun itp_loop ::
  "trans_system \<Rightarrow> (pclause \<Rightarrow> int list) \<Rightarrow> sig \<Rightarrow> nat \<Rightarrow> sig \<Rightarrow> nat \<Rightarrow> (itp_result \<times> nat) option" where
  "itp_loop ts ord init 0 R n = Some (ITP_UNKNOWN ''iteration limit'', n)"
| "itp_loop ts ord init (Suc its) R n = do {
     (tagged, nxt) \<leftarrow> build_query ts R;
     res \<leftarrow> dpll_prove tagged;
     (case res of
        SAT \<Rightarrow> do {
          (i1, n) \<leftarrow> implies_s R init ts n;
          (i2, n) \<leftarrow> (if i1 then implies_s init R ts n else Some (False, n));
          Some (if i1 \<and> i2 then ITP_UNSAFE else ITP_UNKNOWN ''k=1 over-approx too coarse'', n) }
      | UNSAT c p \<Rightarrow> do {
          (I, n) \<leftarrow> mcmillan p c (is_global ts nxt) (nxt_sig ts nxt) ord n;
          (closed, n) \<leftarrow> implies_s I R ts n;
          if closed then Some (ITP_SAFE R, n)
          else let (R, n) = run_state (OR_s [R, I]) n in itp_loop ts ord init its R n }) }"

definition init_sig :: "trans_system \<Rightarrow> nat \<Rightarrow> (sig \<times> nat) option" where
  "init_sig ts n = do {
     bs \<leftarrow> those (map (ts_init ts) (ts_state ts));
     Some (run_state (State_Monad.bind
       (alloc_map (\<lambda>(x, b). if b then VAR_s x else State_Monad.bind (VAR_s x) NOT_s) (zip (ts_state ts) bs))
       AND_s) n) }"

definition itp_mc :: "trans_system \<Rightarrow> (pclause \<Rightarrow> int list) \<Rightarrow> nat \<Rightarrow> nat \<Rightarrow> nat \<Rightarrow> (itp_result \<times> nat) option" where
  "itp_mc ts ord max_iter bmc_depth n = do {
     screen \<leftarrow> bmc ts bmc_depth;
     (case screen of
        CEX _ _ \<Rightarrow> Some (ITP_UNSAFE, n)
      | SAFE_UP_TO _ \<Rightarrow> do { (R, n) \<leftarrow> init_sig ts n; itp_loop ts ord R max_iter R n }) }"

subsection \<open>Implication is decided\<close>

lemma assert_sigs_ok:
  assumes pool: "pool P" and X: "\<forall>g \<in> set gs. g \<in> P \<and> svars g \<subseteq> X"
  shows "sinv s \<Longrightarrow> env_ok (n_vars s) env X \<Longrightarrow> memo_ok P env memo s \<Longrightarrow>
    \<exists>s'. assert_sigs gs env memo s = Some s' \<and> grows (\<lambda>m. \<forall>g \<in> set gs. sval (eval_env env m) g) s s'"
  using X
proof (induction gs arbitrary: memo s)
  case Nil
  then show ?case by (simp add: grows_refl)
next
  case (Cons g gs)
  have g: "g \<in> P" "svars g \<subseteq> X" using Cons.prems(4) by simp_all
  obtain l memo1 s1 where t: "tseitin add_clause g env memo s = Some (l, memo1, s1)"
    and gr: "\<And>b. grows (\<lambda>m. sval (eval_env env m) g = b) s (snd (add_clause [if b then l else - l] s1))"
    and mo: "\<And>b. memo_ok P env memo1 (snd (add_clause [if b then l else - l] s1))"
    by (rule cdcl.assert_sig [OF pool g(1) Cons.prems(1,2) g(2) Cons.prems(3)]) (rule that)
  let ?s = "snd (add_clause [l] s1)"
  have g1: "grows (\<lambda>m. sval (eval_env env m) g) s ?s" using gr [of True] by (simp add: grows_def)
  have m1: "memo_ok P env memo1 ?s" using mo [of True] by simp
  obtain s' where s': "assert_sigs gs env memo1 ?s = Some s'" "grows (\<lambda>m. \<forall>g \<in> set gs. sval (eval_env env m) g) ?s s'"
    using Cons.IH [OF growsD(1) [OF g1] env_ok_grows [OF Cons.prems(2) g1] m1] Cons.prems(4) by auto
  have "bounded (n_vars s) (\<lambda>m. \<forall>g \<in> set gs. sval (eval_env env m) g)"
    by (rule bounded_all, rule bounded_sval [OF Cons.prems(2)]) (use Cons.prems(4) in simp)
  from grows_trans [OF g1 s'(2) this] have "grows (\<lambda>m. \<forall>g \<in> set (g # gs). sval (eval_env env m) g) s s'"
    by (rule grows_cong) simp
  then show ?case using t s'(1) by simp
qed

lemma itp_sat_ok:
  assumes wf: "wf_ts P ts" and gs: "\<forall>g \<in> set gs. g \<in> P' \<and> svars g \<subseteq> ts_names ts" and P': "pool P'"
  shows "\<exists>b. itp_sat gs ts = Some b \<and> (b \<longleftrightarrow> (\<exists>\<rho>. \<forall>g \<in> set gs. sval \<rho> g))"
proof -
  let ?xs = "ts_state ts @ ts_inputs ts"
  have d: "distinct ?xs" using wf by (simp add: wf_ts_def)
  obtain cur s1 where al: "alloc_names ?xs Map.empty (Solver :: solver) = (cur, s1)" by fastforce
  have s0: "sinv (Solver :: solver)" by (simp add: sinv_def inv_Solver) (simp add: Solver_def)
  note ga = grows_alloc [OF al s0 d]
  have X: "set ?xs = ts_names ts" by (simp add: ts_names_def)
  have gX: "\<forall>g \<in> set gs. g \<in> P' \<and> svars g \<subseteq> set ?xs" using gs X by simp
  obtain s2 where s2: "assert_sigs gs cur Map.empty s1 = Some s2" "grows (\<lambda>m. \<forall>g \<in> set gs. sval (eval_env cur m) g) s1 s2"
    using assert_sigs_ok [OF P' gX growsD(1) [OF ga(1)] ga(2) memo_ok_empty] by blast
  obtain b s3 where b: "solve [] s2 = Some (b, s3)" "b \<longleftrightarrow> (\<exists>m \<in> mods s1. \<forall>g \<in> set gs. sval (eval_env cur m) g)"
    using grows_solve [OF s2(2)] by blast
  have "itp_sat gs ts = Some b" using al s2(1) b(1) alloc_append [of "ts_inputs ts" "ts_state ts" Map.empty "Solver :: solver"]
    by (simp add: itp_sat_def split_beta)
  moreover have "\<exists>m \<in> mods s1. \<forall>g \<in> set gs. sval (eval_env cur m) g" if \<rho>: "\<forall>g \<in> set gs. sval \<rho> g" for \<rho>
  proof -
    obtain m where m: "m \<in> mods s1" "\<forall>x \<in> set ?xs. eval_env cur m x = \<rho> x"
      using alloc_choice [OF al s0 d, of "\<lambda>_. True" \<rho>] by (auto simp: mods_Solver)
    have "sval (eval_env cur m) g = sval \<rho> g" if "g \<in> set gs" for g
      by (rule sval_cong) (use m(2) gs X that in auto)
    then show ?thesis using m(1) \<rho> by auto
  qed
  ultimately show ?thesis using b(2) by blast
qed

lemma implies_s_ok:
  assumes wf: "wf_ts P ts" and P: "pool_ok n P'" and ab: "{a, b} \<subseteq> P'" "svars a \<union> svars b \<subseteq> ts_names ts"
  obtains r n' P'' where "implies_s a b ts n = Some (r, n')" "pool_ok n' P''" "P' \<subseteq> P''"
    "r \<longleftrightarrow> (\<forall>\<rho>. sval \<rho> a \<longrightarrow> sval \<rho> b)"
proof -
  have "{b} \<subseteq> P'" using ab(1) by simp
  then obtain nb n' P'' where nb: "run_state (NOT_s b) n = (nb, n')" "pool_ok n' P''" "P' \<subseteq> P''" "{nb} \<subseteq> P''"
    "denotes (\<lambda>\<rho>. \<not> sval \<rho> b) (svars b) nb"
    by (rule buildsE [OF builds_NOT P]) (rule that)
  have "\<forall>g \<in> set [a, nb]. g \<in> P'' \<and> svars g \<subseteq> ts_names ts" using ab nb(3-5) by (auto simp: denotes_def)
  moreover have "pool P''" using nb(2) by (simp add: pool_ok_def)
  ultimately obtain r where r: "itp_sat [a, nb] ts = Some r" "r \<longleftrightarrow> (\<exists>\<rho>. \<forall>g \<in> set [a, nb]. sval \<rho> g)"
    using itp_sat_ok [OF wf] by blast
  have "implies_s a b ts n = Some (\<not> r, n')" using nb(1) r(1) by (simp add: implies_s_def)
  moreover have "(\<not> r) \<longleftrightarrow> (\<forall>\<rho>. sval \<rho> a \<longrightarrow> sval \<rho> b)" using r(2) nb(5) by (simp add: denotes_def)
  ultimately show ?thesis using nb(2,3) by (intro that)
qed

subsection \<open>The query is the one-step reachability question\<close>

lemma inv_extend: "inv (solver.extend s e) = inv s" "mods (solver.extend s e) = mods s"
  "n_vars (solver.extend s e) = n_vars s" "true_lit (solver.extend s e) = true_lit s"
proof -
  show "inv (solver.extend s e) = inv s" unfolding inv_def binv_parts vsids_ok_def clits_def
    by (simp add: solver.defs cong: option.case_cong)
  show "mods (solver.extend s e) = mods s" unfolding mods_def root_trail_def by (simp add: solver.defs cong: list.case_cong)
qed (simp_all add: solver.defs)

lemma Rec_ok: "sinv Rec" "mods Rec = UNIV" "logs UNIV Rec" "n_vars Rec = 0"
proof -
  have t: "true_lit Solver = None" "n_vars Solver = 0" by (simp_all add: Solver_def)
  have l: "log Rec = []" by (simp add: Rec_def solver.defs)
  show "sinv Rec" "mods Rec = UNIV" "n_vars Rec = 0"
    using inv_Solver mods_Solver t by (simp_all add: Rec_def inv_extend sinv_def)
  then show "logs UNIV Rec" by (simp add: logs_def log_models_def l)
qed

context logging_sink begin

lemma alloc_J: "sinv s \<Longrightarrow> J s \<Longrightarrow> J (snd (alloc_names xs env s))"
proof (induction xs arbitrary: env s)
  case (Cons x xs)
  have "inv s" using Cons.prems(1) by (simp add: sinv_def)
  then show ?case using Cons.IH [OF sinv_new_var [OF Cons.prems(1)] J_new] Cons.prems(2) by (simp add: split_beta)
qed simp

lemma assert_J:
  assumes "pool P" "g \<in> P" "sinv s" "env_ok (n_vars s) env X" "svars g \<subseteq> X" "memo_ok P env memo s" "J s"
    and t: "tseitin add g env memo s = Some (l, memo', s')"
  shows "J s'" "\<forall>k \<in> set ls. lit_ok (n_vars s') k \<Longrightarrow> ls \<noteq> [] \<Longrightarrow> J (snd (add ls s'))"
proof -
  have e: "env_ok (n_vars s) env (svars g)" by (rule env_ok_mono [OF assms(4) order_refl assms(5)])
  show j: "J s'" using tseitin_J [OF assms(1,2)] assms(3,6,7) e t unfolding keeps_J_def by blast
  obtain r where "tseitin add g env memo s = Some r" "encoded P env s g r"
    using tseitin_ok [OF assms(1-3) e assms(6)] by blast
  then have "sinv s'" using t extendsD(1) by (auto simp: encoded_def)
  then show "J (snd (add ls s'))" if "\<forall>k \<in> set ls. lit_ok (n_vars s') k" "ls \<noteq> []"
    using J_add [of s' ls] that j by (simp add: sinv_def)
qed

end

text \<open>Tying the next state: every model gives the next-state names the values of their functions.\<close>

definition tied :: "trans_system \<Rightarrow> env \<Rightarrow> env \<Rightarrow> string list \<Rightarrow> (nat \<Rightarrow> bool) \<Rightarrow> bool" where
  "tied ts cur nxt ns m \<longleftrightarrow> (\<forall>x \<in> set ns. eval_env nxt m x = sval (eval_env cur m) (the (ts_next ts x)))"

lemma bounded_tied:
  assumes "\<forall>x \<in> set ns. \<exists>g. ts_next ts x = Some g \<and> svars g \<subseteq> X" "env_ok n cur X" "env_ok n nxt (set ns)"
  shows "bounded n (tied ts cur nxt ns)"
  unfolding tied_def
proof (rule bounded_all)
  fix x assume x: "x \<in> set ns"
  then obtain g where g: "ts_next ts x = Some g" "svars g \<subseteq> X" using assms(1) by blast
  obtain l where l: "nxt x = Some l" "lit_ok n l" using assms(3) x by (auto simp: env_ok_def)
  have eq: "eval_env nxt m x = eval_env nxt m' x" "sval (eval_env cur m) g = sval (eval_env cur m') g"
    if "\<forall>v \<le> n. m v = m' v" for m m'
    using boundedD [OF bounded_lit [OF l(2)] that] boundedD [OF bounded_sval [OF assms(2) g(2)] that] l(1)
    by (simp_all add: eval_env_def)
  show "bounded n (\<lambda>m. eval_env nxt m x = sval (eval_env cur m) (the (ts_next ts x)))"
  proof (rule boundedI)
    fix m m' :: "nat \<Rightarrow> bool" assume a: "\<forall>v \<le> n. m v = m' v"
    show "(eval_env nxt m x = sval (eval_env cur m) (the (ts_next ts x))) = (eval_env nxt m' x = sval (eval_env cur m') (the (ts_next ts x)))"
      using eq [OF a] by (simp add: g(1))
  qed
qed

lemma rec_tie_ok:
  assumes pool: "pool P" and nx: "\<forall>x \<in> set ns. \<exists>g. ts_next ts x = Some g \<and> g \<in> P \<and> svars g \<subseteq> X"
  shows "sinv s \<Longrightarrow> env_ok (n_vars s) cur X \<Longrightarrow> env_ok (n_vars s) nxt (set ns) \<Longrightarrow> memo_ok P cur memo s \<Longrightarrow> logs K s \<Longrightarrow>
    \<exists>memo' s'. rec_tie ts cur nxt ns memo s = Some (memo', s') \<and> grows (tied ts cur nxt ns) s s' \<and>
      memo_ok P cur memo' s' \<and> logs K s'"
  using nx
proof (induction ns arbitrary: memo s)
  case Nil
  then show ?case by (simp add: tied_def grows_refl)
next
  case (Cons x ns)
  obtain g where g: "ts_next ts x = Some g" "g \<in> P" "svars g \<subseteq> X" using Cons.prems(6) by auto
  obtain v where v: "nxt x = Some v" "lit_ok (n_vars s) v" using Cons.prems(3) by (auto simp: env_ok_def)
  obtain f memo1 s1 where t: "tseitin rec_add g cur memo s = Some (f, memo1, s1)" "extends s s1"
    "memo_ok P cur memo1 s1" "lit_ok (n_vars s1) f" "\<forall>m \<in> mods s1. sat_lit m f = sval (eval_env cur m) g"
    by (rule recorder.tseitinE [OF pool g(2) Cons.prems(1,2) g(3) Cons.prems(4)])
  have v1: "lit_ok (n_vars s1) v" using v(2) extendsD(2) [OF t(2)] by (rule lit_ok_mono)
  let ?s2 = "snd (rec_add [- f, v] s1)" and ?D = "\<lambda>m. eval_env nxt m x = sval (eval_env cur m) g"
  let ?s3 = "snd (rec_add [f, - v] ?s2)"
  have ok1: "\<forall>l \<in> set [- f, v]. lit_ok (n_vars s1) l" using t(4) v1 by simp
  note c1 = recorder.grows_clause [OF extendsD(1) [OF t(2)] ok1]
  have inv1: "inv s1" using extendsD(1) [OF t(2)] by (simp add: sinv_def)
  have n2: "n_vars ?s2 = n_vars s1" using rec_add_ok(1) [OF inv1 ok1] by simp
  have ok2: "\<forall>l \<in> set [f, - v]. lit_ok (n_vars ?s2) l" using t(4) v1 n2 by simp
  note c2 = recorder.grows_clause [OF growsD(1) [OF c1] ok2]
  have b2: "bounded (n_vars s1) (\<lambda>m. sat_clause m [f, - v])"
    using bounded_clause [of "[f, - v]" "n_vars s1"] t(4) v1 by simp
  have c3: "grows (\<lambda>m. sat_clause m [- f, v] \<and> sat_clause m [f, - v]) s1 ?s3" by (rule grows_trans [OF c1 c2 b2])
  have nz: "f \<noteq> 0" "v \<noteq> 0" using t(4) v1 by (simp_all add: lit_ok_def)
  have c3': "grows ?D s1 ?s3"
    unfolding grows_def
  proof (intro conjI ballI impI)
    have eq: "(sat_clause m [- f, v] \<and> sat_clause m [f, - v]) = ?D m" if "m \<in> mods s1" for m
      using t(5) that nz v(1) by (auto simp: sat_clause_def eval_env_def)
    show "sinv ?s3" "n_vars s1 \<le> n_vars ?s3" "mods ?s3 \<subseteq> mods s1" using growsD(1-3) [OF c3] .
    show "?D m" if "m \<in> mods ?s3" for m using eq growsD(4,5) [OF c3 that] by blast
    show "\<exists>m' \<in> mods ?s3. \<forall>v \<le> n_vars s1. m' v = m v" if "m \<in> mods s1" "?D m" for m
      using eq [OF that(1)] growsD(6) [OF c3 that(1)] that(2) by blast
  qed
  have e: "env_ok (n_vars s) nxt (set [x])" using Cons.prems(3) by (rule env_ok_mono) auto
  have bD: "bounded (n_vars s) ?D"
    using bounded_tied [OF _ Cons.prems(2) e, of ts] g by (simp add: tied_def [abs_def])
  have g1: "grows ?D s ?s3"
    by (rule grows_cong [OF grows_trans [OF grows_extends [OF t(2)] c3' bD]]) simp
  have L1: "logs K s1" by (rule recorder.assert_J(1) [OF pool g(2) Cons.prems(1,2) g(3) Cons.prems(4,5) t(1)])
  have inv2: "inv ?s2" using growsD(1) [OF c1] by (simp add: sinv_def)
  have L3: "logs K ?s3" using recorder.J_add [OF inv2 ok2 _ recorder.J_add [OF inv1 ok1 _ L1]] by simp
  have mo: "memo_ok P cur memo1 ?s3" by (rule memo_ok_grows [OF t(3) c3])
  have en: "env_ok (n_vars s) nxt (set ns)" using Cons.prems(3) by (rule env_ok_mono) auto
  have nx': "\<forall>x \<in> set ns. \<exists>g. ts_next ts x = Some g \<and> g \<in> P \<and> svars g \<subseteq> X" using Cons.prems(6) by simp
  obtain memo' s' where IH: "rec_tie ts cur nxt ns memo1 ?s3 = Some (memo', s')" "grows (tied ts cur nxt ns) ?s3 s'"
      "memo_ok P cur memo' s'" "logs K s'"
    using Cons.IH [OF growsD(1) [OF g1] env_ok_grows [OF Cons.prems(2) g1] env_ok_grows [OF en g1] mo L3 nx'] by blast
  have nx'': "\<forall>x \<in> set ns. \<exists>g. ts_next ts x = Some g \<and> svars g \<subseteq> X" using nx' by blast
  have "grows (tied ts cur nxt (x # ns)) s s'"
    by (rule grows_cong [OF grows_trans [OF g1 IH(2) bounded_tied [OF nx'' Cons.prems(2) en]]])
      (simp add: tied_def g(1))
  then show ?case using t(1) v(1) IH(1,3,4) by (simp add: g(1))
qed

text \<open>Models over integers, as the proof objects read them, and over the solver's variables.\<close>

lemma pmodel_sat: "0 \<notin> c \<Longrightarrow> pmodel m c \<longleftrightarrow> (\<exists>l \<in> c. sat_lit (\<lambda>k. m (int k)) l)"
proof -
  assume "0 \<notin> c"
  then have "(m \<bar>l\<bar> = (l > 0)) = sat_lit (\<lambda>k. m (int k)) l" if "l \<in> c" for l
    using that by (cases "l > 0") (auto simp: sat_lit_def lvar_def)
  then show ?thesis by (auto simp: pmodel_def)
qed

lemma log_models_pmodel: "\<forall>c \<in> set (log s). 0 \<notin> c \<Longrightarrow> (\<forall>c \<in> set (log s). pmodel m c) \<longleftrightarrow> (\<lambda>k. m (int k)) \<in> log_models s"
  by (simp add: log_models_def pmodel_sat)

definition nxt_val :: "trans_system \<Rightarrow> env \<Rightarrow> (string \<Rightarrow> bool) \<Rightarrow> int \<Rightarrow> bool" where
  "nxt_val ts nxt \<rho> v = (case nxt_name ts nxt v of Some n \<Rightarrow> \<rho> n | None \<Rightarrow> False)"

lemma nxt_name_Some: "nxt_name ts nxt v = Some n \<Longrightarrow> n \<in> set (ts_state ts) \<and> nxt n = Some v"
  by (auto simp: nxt_name_def find_Some_iff)

lemma nxt_sig_ok: "names_lits (is_global ts nxt) (nxt_sig ts nxt) (nxt_val ts nxt) (set (ts_state ts))"
  unfolding names_lits_def
proof (intro allI impI)
  fix l :: int assume "is_global ts nxt \<bar>l\<bar> \<and> l \<noteq> 0"
  then obtain n where n: "nxt_name ts nxt \<bar>l\<bar> = Some n" "n \<in> set (ts_state ts)" "l \<noteq> 0"
    using nxt_name_Some by (auto simp: is_global_def)
  have pos: "builds {} (\<lambda>r. {r}) (VAR_s n) (denotes (\<lambda>\<rho>. \<rho> n) (set (ts_state ts)))"
    by (rule builds_sig_weaken [OF builds_VAR]) (use n(2) in auto)
  have "builds ({} \<union> {a}) (\<lambda>r. {r}) (NOT_s a) (denotes (\<lambda>\<rho>. \<not> \<rho> n) (set (ts_state ts)))"
    if "denotes (\<lambda>\<rho>. \<rho> n) (set (ts_state ts)) a" for a
    by (rule builds_sig_weaken [OF builds_NOT]) (use that in \<open>auto simp: denotes_def\<close>)
  from builds_bind [OF pos this]
  have "builds {} (\<lambda>r. {r}) (State_Monad.bind (VAR_s n) NOT_s) (denotes (\<lambda>\<rho>. \<not> \<rho> n) (set (ts_state ts)))" .
  then show "builds {} (\<lambda>r. {r}) (nxt_sig ts nxt l) (denotes (\<lambda>\<rho>. lit_holds (nxt_val ts nxt \<rho>) l) (set (ts_state ts)))"
    using pos n(1,3) by (cases "l > 0") (simp_all add: nxt_sig_def lit_holds_def nxt_val_def)
qed

text \<open>The clauses of A: the frontier and one transition.\<close>

lemma query_A:
  assumes wf: "wf_ts P ts" and P': "pool P'" "P \<subseteq> P'" and R: "R \<in> P'" "svars R \<subseteq> ts_names ts"
  obtains cur nxt s2 memo s3 l memo' s4 where
    "alloc_names (ts_state ts @ ts_inputs ts) Map.empty Rec = (cur, s2)"
    "alloc_names (ts_state ts) Map.empty s2 = (nxt, s3)"
    "\<exists>sT. rec_tie ts cur nxt (ts_state ts) Map.empty s3 = Some (memo, sT) \<and> tseitin rec_add R cur memo sT = Some (l, memo', s4)"
    "sinv (snd (rec_add [l] s4))" "logs UNIV (snd (rec_add [l] s4))"
    "env_ok (n_vars (snd (rec_add [l] s4))) nxt (set (ts_state ts))"
    "\<And>n v. nxt n = Some v \<Longrightarrow> v > 0"
    "\<And>m. m \<in> mods (snd (rec_add [l] s4)) \<Longrightarrow> sval (eval_env cur m) R \<and>
       (\<forall>x \<in> set (ts_state ts). eval_env nxt m x = sval (eval_env cur m) (the (ts_next ts x)))"
    "\<And>\<rho> \<rho>'. sval \<rho> R \<Longrightarrow> step ts \<rho> \<rho>' \<Longrightarrow> \<exists>m \<in> mods (snd (rec_add [l] s4)). \<forall>x \<in> set (ts_state ts). eval_env nxt m x = \<rho>' x"
proof -
  let ?xs = "ts_state ts @ ts_inputs ts"
  have X: "set ?xs = ts_names ts" by (simp add: ts_names_def)
  have d: "distinct ?xs" "distinct (ts_state ts)" using wf by (simp_all add: wf_ts_def)
  obtain cur s2 where a1: "alloc_names ?xs Map.empty Rec = (cur, s2)" by fastforce
  obtain nxt s3 where a2: "alloc_names (ts_state ts) Map.empty s2 = (nxt, s3)" by fastforce
  note g1 = grows_alloc [OF a1 Rec_ok(1) d(1)]
  note g2 = grows_alloc [OF a2 growsD(1) [OF g1(1)] d(2)]
  have "logs UNIV s2" using recorder.alloc_J [OF Rec_ok(1,3), of ?xs Map.empty] a1 by simp
  from recorder.alloc_J [OF growsD(1) [OF g1(1)] this, of "ts_state ts" Map.empty]
  have L3: "logs UNIV s3" using a2 by simp
  have s3: "sinv s3" by (rule growsD(1) [OF g2(1)])
  have ec: "env_ok (n_vars s3) cur (ts_names ts)" using env_ok_grows [OF g1(2) g2(1)] X by simp
  have en: "env_ok (n_vars s3) nxt (set (ts_state ts))" by (rule g2(2))
  have nx: "\<forall>x \<in> set (ts_state ts). \<exists>g. ts_next ts x = Some g \<and> g \<in> P' \<and> svars g \<subseteq> ts_names ts"
    using wf P'(2) unfolding wf_ts_def by blast
  obtain memo sT where t: "rec_tie ts cur nxt (ts_state ts) Map.empty s3 = Some (memo, sT)"
    "grows (tied ts cur nxt (ts_state ts)) s3 sT" "memo_ok P' cur memo sT" "logs UNIV sT"
    using rec_tie_ok [OF P'(1) nx s3 ec en memo_ok_empty L3] by blast
  obtain l memo' s4 where r: "tseitin rec_add R cur memo sT = Some (l, memo', s4)" "lit_ok (n_vars s4) l"
    "\<And>b. grows (\<lambda>m. sval (eval_env cur m) R = b) sT (snd (rec_add [if b then l else - l] s4))"
    by (rule recorder.assert_sig [OF P'(1) R(1) growsD(1) [OF t(2)] env_ok_grows [OF ec t(2)] R(2) t(3)]) (rule that)
  let ?sA = "snd (rec_add [l] s4)"
  have gR: "grows (\<lambda>m. sval (eval_env cur m) R) sT ?sA" using r(3) [of True] by (simp add: grows_def)
  have gA: "grows (\<lambda>m. tied ts cur nxt (ts_state ts) m \<and> sval (eval_env cur m) R) s3 ?sA"
    by (rule grows_trans [OF t(2) gR bounded_sval [OF ec R(2)]])
  have LA: "logs UNIV ?sA"
    using recorder.assert_J(2) [OF P'(1) R(1) growsD(1) [OF t(2)] env_ok_grows [OF ec t(2)] R(2) t(3,4) r(1), of "[l]"] r(2) by simp
  show ?thesis
  proof (rule that [OF a1 a2 exI [of _ sT] growsD(1) [OF gA] LA env_ok_grows [OF en gA]])
    show "rec_tie ts cur nxt (ts_state ts) Map.empty s3 = Some (memo, sT) \<and> tseitin rec_add R cur memo sT = Some (l, memo', s4)"
      using t(1) r(1) by simp
    show "v > 0" if "nxt n = Some v" for n v
    proof -
      note an = alloc_names [OF a2 growsD(1) [OF g1(1)] d(2)]
      have "n \<in> set (ts_state ts)" using an that by fastforce
      then obtain i where "i < length (ts_state ts)" "n = ts_state ts ! i" by (auto simp: in_set_conv_nth)
      then show ?thesis using an that by (metis of_nat_0_less_iff option.inject zero_less_Suc)
    qed
    show "sval (eval_env cur m) R \<and> (\<forall>x \<in> set (ts_state ts). eval_env nxt m x = sval (eval_env cur m) (the (ts_next ts x)))"
      if "m \<in> mods ?sA" for m
      using growsD(4) [OF gA that] by (simp add: tied_def)
    fix \<rho> \<rho>' assume \<rho>: "sval \<rho> R" "step ts \<rho> \<rho>'"
    obtain m2 where m2: "m2 \<in> mods s2" "\<forall>x \<in> set ?xs. eval_env cur m2 x = \<rho> x"
      using alloc_choice [OF a1 Rec_ok(1) d(1), of "\<lambda>_. True" \<rho>] by (auto simp: Rec_ok)
    obtain m3 where m3: "m3 \<in> mods s3" "\<forall>v \<le> n_vars s2. m3 v = m2 v" "\<forall>x \<in> set (ts_state ts). eval_env nxt m3 x = \<rho>' x"
      using alloc_choice [OF a2 growsD(1) [OF g1(1)] d(2) m2(1), of \<rho>'] by blast
    have c: "eval_env cur m3 x = \<rho> x" if "x \<in> ts_names ts" for x
      using eval_env_agree [OF g1(2) _ m3(2)] m2(2) that X by metis
    have sv: "sval (eval_env cur m3) g = sval \<rho> g" if "svars g \<subseteq> ts_names ts" for g
      by (rule sval_cong) (use c that in blast)
    have "tied ts cur nxt (ts_state ts) m3"
      unfolding tied_def
    proof
      fix x assume x: "x \<in> set (ts_state ts)"
      then obtain g where "ts_next ts x = Some g" "svars g \<subseteq> ts_names ts" using nx by blast
      then show "eval_env nxt m3 x = sval (eval_env cur m3) (the (ts_next ts x))"
        using m3(3) x \<rho>(2) sv by (simp add: step_def)
    qed
    then obtain m where m: "m \<in> mods ?sA" "\<forall>v \<le> n_vars s3. m v = m3 v" using growsD(6) [OF gA m3(1)] sv [OF R(2)] \<rho>(1) by blast
    have "eval_env nxt m x = \<rho>' x" if "x \<in> set (ts_state ts)" for x
      using eval_env_agree [OF en that m(2)] m3(3) that by simp
    then show "\<exists>m \<in> mods ?sA. \<forall>x \<in> set (ts_state ts). eval_env nxt m x = \<rho>' x" using m(1) by blast
  qed
qed

lemma sinv_log: "sinv (s\<lparr>log := x\<rparr>) = sinv s"
  by (simp add: sinv_def)

lemma build_query_ok:
  assumes wf: "wf_ts P ts" and P': "pool P'" "P \<subseteq> P'" and R: "R \<in> P'" "svars R \<subseteq> ts_names ts"
  obtains cs nxt where "build_query ts R = Some (cs, nxt)" "\<forall>(c, t) \<in> set cs. finite c \<and> 0 \<notin> c"
    "\<And>\<rho> \<rho>'. sval \<rho> R \<Longrightarrow> step ts \<rho> \<rho>' \<Longrightarrow>
       \<exists>m. (\<forall>c \<in> tagged TagA cs. pmodel m c) \<and> (\<forall>v. is_global ts nxt v \<longrightarrow> m v = nxt_val ts nxt \<rho>' v)"
    "(\<exists>m. \<forall>(c, t) \<in> set cs. pmodel m c) \<longleftrightarrow> (\<exists>\<rho> \<rho>'. sval \<rho> R \<and> step ts \<rho> \<rho>' \<and> is_bad ts \<rho>')"
proof -
  let ?xs = "ts_state ts @ ts_inputs ts"
  obtain cur nxt s2 memo s3 l memo' s4 where q:
    "alloc_names ?xs Map.empty Rec = (cur, s2)" "alloc_names (ts_state ts) Map.empty s2 = (nxt, s3)"
    "\<exists>sT. rec_tie ts cur nxt (ts_state ts) Map.empty s3 = Some (memo, sT) \<and> tseitin rec_add R cur memo sT = Some (l, memo', s4)"
    and sA: "sinv (snd (rec_add [l] s4))" "logs UNIV (snd (rec_add [l] s4))"
      "env_ok (n_vars (snd (rec_add [l] s4))) nxt (set (ts_state ts))"
    and npos: "\<And>n v. nxt n = Some v \<Longrightarrow> v > 0"
    and sound: "\<And>m. m \<in> mods (snd (rec_add [l] s4)) \<Longrightarrow> sval (eval_env cur m) R \<and>
       (\<forall>x \<in> set (ts_state ts). eval_env nxt m x = sval (eval_env cur m) (the (ts_next ts x)))"
    and complete: "\<And>\<rho> \<rho>'. sval \<rho> R \<Longrightarrow> step ts \<rho> \<rho>' \<Longrightarrow> \<exists>m \<in> mods (snd (rec_add [l] s4)). \<forall>x \<in> set (ts_state ts). eval_env nxt m x = \<rho>' x"
    by (rule query_A [OF assms]) (rule that)
  define sA where "sA = snd (rec_add [l] s4)"
  let ?s = "sA\<lparr>log := []\<rparr>" and ?A = "log sA"
  note sA = sA [folded sA_def] and sound = sound [folded sA_def] and complete = complete [folded sA_def]
  have X: "set ?xs = ts_names ts" by (simp add: ts_names_def)
  have d: "distinct (ts_inputs ts)" "set (ts_state ts) \<inter> set (ts_inputs ts) = {}" using wf by (auto simp: wf_ts_def)
  have s: "sinv ?s" "logs (mods sA) ?s" "mods ?s = mods sA" using sA by (simp_all add: sinv_log logs_def log_models_def)
  obtain benv s5 where a: "alloc_names (ts_inputs ts) nxt ?s = (benv, s5)" by fastforce
  note g = grows_alloc [OF a s(1) d(1)]
  have L5: "logs (mods sA) s5" using recorder.alloc_J [OF s(1,2), of "ts_inputs ts" nxt] a by simp
  have eb: "env_ok (n_vars s5) benv (ts_names ts)" using g(4) [of "set (ts_state ts)"] sA(3) by (simp add: ts_names_def)
  obtain b where b: "ts_bad ts = Some b" "b \<in> P'" "svars b \<subseteq> ts_names ts" using wf P'(2) unfolding wf_ts_def by blast
  obtain lb memoB s6 where r: "tseitin rec_add b benv Map.empty s5 = Some (lb, memoB, s6)" "lit_ok (n_vars s6) lb"
    "\<And>c. grows (\<lambda>m. sval (eval_env benv m) b = c) s5 (snd (rec_add [if c then lb else - lb] s6))"
    by (rule recorder.assert_sig [OF P'(1) b(2) growsD(1) [OF g(1)] eb b(3) memo_ok_empty]) (rule that)
  define sB where "sB = snd (rec_add [lb] s6)"
  have gB: "grows (\<lambda>m. sval (eval_env benv m) b) s5 sB" using r(3) [of True] by (simp add: grows_def sB_def)
  have LB: "logs (mods sA) sB" unfolding sB_def
    by (rule recorder.assert_J(2) [OF P'(1) b(2) growsD(1) [OF g(1)] eb b(3) memo_ok_empty L5 r(1)]) (use r(2) in simp_all)
  let ?B = "log sB" and ?cs = "map (\<lambda>c. (c, TagA)) (log sA) @ map (\<lambda>c. (c, TagB)) (log sB)"
  have run: "build_query ts R = Some (?cs, nxt)"
    using q a r(1) b(1) alloc_append [of "ts_inputs ts" "ts_state ts" Map.empty Rec]
    by (auto simp: build_query_def split_beta sA_def sB_def Let_def)
  have mA: "mods sA = log_models sA" using sA(2) by (simp add: logs_def)
  have mB: "mods sB = log_models sA \<inter> log_models sB" using LB mA by (simp add: logs_def)
  have z: "\<forall>c \<in> set ?A. finite c \<and> 0 \<notin> c" "\<forall>c \<in> set ?B. finite c \<and> 0 \<notin> c" using sA(2) LB by (simp_all add: logs_def)
  have tA: "tagged TagA ?cs = set ?A" by (auto simp: tagged_def)
  have pA: "(\<forall>c \<in> set ?A. pmodel m c) \<longleftrightarrow> (\<lambda>k. m (int k)) \<in> mods sA" for m
    using log_models_pmodel [of sA m] z(1) mA by blast
  have pB: "(\<forall>(c, t) \<in> set ?cs. pmodel m c) \<longleftrightarrow> (\<lambda>k. m (int k)) \<in> mods sB" for m
    using log_models_pmodel [of sA m] log_models_pmodel [of sB m] z mB by auto
  have id: "(\<lambda>k. (\<lambda>v. m (nat v)) (int k)) = m" for m :: "nat \<Rightarrow> bool" by simp
  have bst: "eval_env benv m x = eval_env nxt m x" if "x \<in> set (ts_state ts)" for m x using g(5) that d(2) by blast
  show ?thesis
  proof (rule that [OF run])
    show "\<forall>(c, t) \<in> set ?cs. finite c \<and> 0 \<notin> c" using z by auto
    fix \<rho> \<rho>' assume "sval \<rho> R" "step ts \<rho> \<rho>'"
    then obtain m where m: "m \<in> mods sA" "\<forall>x \<in> set (ts_state ts). eval_env nxt m x = \<rho>' x" using complete by blast
    have "(\<forall>c \<in> set ?A. pmodel (\<lambda>v. m (nat v)) c)" unfolding pA id using m(1) .
    moreover have "m (nat v) = nxt_val ts nxt \<rho>' v" if v: "is_global ts nxt v" for v
    proof -
      obtain n where n: "nxt_name ts nxt v = Some n" using v by (auto simp: is_global_def)
      then have n': "n \<in> set (ts_state ts)" "nxt n = Some v" using nxt_name_Some by blast+
      then have "eval_env nxt m n = m (nat v)" using npos [OF n'(2)] by (simp add: eval_env_def sat_lit_def lvar_def)
      then show ?thesis using m(2) n n'(1) by (simp add: nxt_val_def)
    qed
    ultimately show "\<exists>m. (\<forall>c \<in> tagged TagA ?cs. pmodel m c) \<and> (\<forall>v. is_global ts nxt v \<longrightarrow> m v = nxt_val ts nxt \<rho>' v)"
      unfolding tA by blast
  next
    show "(\<exists>m. \<forall>(c, t) \<in> set ?cs. pmodel m c) \<longleftrightarrow> (\<exists>\<rho> \<rho>'. sval \<rho> R \<and> step ts \<rho> \<rho>' \<and> is_bad ts \<rho>')" (is "?L \<longleftrightarrow> ?R")
    proof
      assume ?L
      then obtain m where m: "m \<in> mods sB" using pB by blast
      have mA': "m \<in> mods sA" using m mA mB by blast
      have "step ts (eval_env cur m) (eval_env benv m)"
        unfolding step_def using sound [OF mA'] bst by auto
      moreover have "is_bad ts (eval_env benv m)" using growsD(4) [OF gB m] b(1) by (simp add: is_bad_def)
      ultimately show ?R using sound [OF mA'] by blast
    next
      assume ?R
      then obtain \<rho> \<rho>' where \<rho>: "sval \<rho> R" "step ts \<rho> \<rho>'" "is_bad ts \<rho>'" by blast
      then obtain m where m: "m \<in> mods sA" "\<forall>x \<in> set (ts_state ts). eval_env nxt m x = \<rho>' x" using complete by blast
      obtain m5 where m5: "m5 \<in> mods s5" "\<forall>v \<le> n_vars ?s. m5 v = m v" "\<forall>x \<in> set (ts_inputs ts). eval_env benv m5 x = \<rho>' x"
        using alloc_choice [OF a s(1) d(1), of m \<rho>'] m(1) s(3) by blast
      have "eval_env benv m5 x = \<rho>' x" if "x \<in> ts_names ts" for x
      proof (cases "x \<in> set (ts_inputs ts)")
        case False
        then have x: "x \<in> set (ts_state ts)" using that by (simp add: ts_names_def)
        have "eval_env nxt m5 x = eval_env nxt m x" by (rule eval_env_agree [OF sA(3) x]) (use m5(2) in simp)
        then show ?thesis using bst [OF x] m(2) x by simp
      qed (use m5(3) in blast)
      then have "sval (eval_env benv m5) b = sval \<rho>' b" by (intro sval_cong) (use b(3) in blast)
      then have "sval (eval_env benv m5) b" using \<rho>(3) b(1) by (simp add: is_bad_def)
      then obtain m6 where "m6 \<in> mods sB" using growsD(6) [OF gB m5(1)] by blast
      then have "\<forall>(c, t) \<in> set ?cs. pmodel (\<lambda>v. m6 (nat v)) c" unfolding pB id .
      then show ?L by blast
    qed
  qed
qed

subsection \<open>The answers\<close>

lemma builds_state_lit:
  "builds {} (\<lambda>r. {r}) (case xb of (x, b) \<Rightarrow> if b then VAR_s x else State_Monad.bind (VAR_s x) NOT_s)
     (denotes (\<lambda>\<rho>. \<rho> (fst xb) = snd xb) {fst xb})"
proof (cases xb)
  case (Pair x b)
  have "builds ({} \<union> {a}) (\<lambda>r. {r}) (NOT_s a) (denotes (\<lambda>\<rho>. \<not> \<rho> x) {x})" if "denotes (\<lambda>\<rho>. \<rho> x) {x} a" for a
    by (rule builds_sig_weaken [OF builds_NOT]) (use that in \<open>auto simp: denotes_def\<close>)
  from builds_bind [OF builds_VAR this] show ?thesis using builds_VAR [of x] Pair by (cases b) simp_all
qed

lemma init_sig_ok:
  assumes wf: "wf_ts P ts" and P: "pool_ok n P"
  obtains R n' P' where "init_sig ts n = Some (R, n')" "pool_ok n' P'" "P \<subseteq> P'" "R \<in> P'" "svars R \<subseteq> ts_names ts"
    "\<And>\<rho>. sval \<rho> R \<longleftrightarrow> is_init ts \<rho>"
proof -
  let ?st = "ts_state ts" and ?lit = "\<lambda>(x, b). if b then VAR_s x else State_Monad.bind (VAR_s x) NOT_s"
  define bs where "bs = map (\<lambda>x. the (ts_init ts x)) ?st"
  have i: "ts_init ts x = Some (the (ts_init ts x))" if "x \<in> set ?st" for x using wf that by (auto simp: wf_ts_def)
  have those: "those (map (ts_init ts) ?st) = Some bs" unfolding bs_def by (rule those_map_cong) (rule i)
  obtain gs n1 P1 where g: "run_state (alloc_map ?lit (zip ?st bs)) n = (gs, n1)" "pool_ok n1 P1" "P \<subseteq> P1" "(\<Union>y \<in> set gs. {y}) \<subseteq> P1"
    "list_all2 (\<lambda>xb. denotes (\<lambda>\<rho>. \<rho> (fst xb) = snd xb) {fst xb}) (zip ?st bs) gs"
    by (rule buildsE [OF builds_alloc_map [OF builds_state_lit] P]) (simp, rule that)
  have g4: "set gs \<subseteq> P1" using g(4) by auto
  obtain R n' P' where R: "run_state (AND_s gs) n1 = (R, n')" "pool_ok n' P'" "P1 \<subseteq> P'" "{R} \<subseteq> P'"
    "denotes (\<lambda>\<rho>. \<forall>x \<in> set gs. sval \<rho> x) (\<Union>x \<in> set gs. svars x) R"
    by (rule buildsE [OF builds_AND g(2) g4]) (rule that)
  have len: "length gs = length ?st" "length bs = length ?st" using list_all2_lengthD [OF g(5)] by (simp_all add: bs_def)
  have at: "denotes (\<lambda>\<rho>. \<rho> (?st ! k) = the (ts_init ts (?st ! k))) {?st ! k} (gs ! k)" if "k < length ?st" for k
    using list_all2_nthD2 [OF g(5), of k] that len by (simp add: bs_def)
  have "sval \<rho> R \<longleftrightarrow> is_init ts \<rho>" for \<rho>
  proof -
    have "sval \<rho> R \<longleftrightarrow> (\<forall>k < length ?st. sval \<rho> (gs ! k))" using R(5) len by (simp add: denotes_def all_set_conv_all_nth)
    also have "\<dots> \<longleftrightarrow> (\<forall>k < length ?st. \<rho> (?st ! k) = the (ts_init ts (?st ! k)))" using at by (simp add: denotes_def)
    also have "\<dots> \<longleftrightarrow> (\<forall>x \<in> set ?st. \<rho> x = the (ts_init ts x))" by (simp add: all_set_conv_all_nth)
    also have "\<dots> \<longleftrightarrow> is_init ts \<rho>"
    proof -
      have "(\<rho> x = the (ts_init ts x)) = (Some (\<rho> x) = ts_init ts x)" if "x \<in> set ?st" for x using i [OF that] by (cases "ts_init ts x") auto
      then show ?thesis by (simp add: is_init_def)
    qed
    finally show ?thesis .
  qed
  moreover have "svars R \<subseteq> ts_names ts"
  proof -
    have "svars (gs ! k) \<subseteq> ts_names ts" if k: "k < length ?st" for k
    proof -
      have "svars (gs ! k) \<subseteq> {?st ! k}" using at [OF k] by (simp add: denotes_def)
      moreover have "{?st ! k} \<subseteq> ts_names ts" using nth_mem [OF k] by (simp add: ts_names_def)
      ultimately show ?thesis by (rule subset_trans)
    qed
    then have "\<forall>x \<in> set gs. svars x \<subseteq> ts_names ts" using len(1) by (simp add: all_set_conv_all_nth)
    then have "(\<Union>x \<in> set gs. svars x) \<subseteq> ts_names ts" by (intro UN_least) (erule bspec)
    moreover have "svars R \<subseteq> (\<Union>x \<in> set gs. svars x)" using R(5) by (simp add: denotes_def)
    ultimately show ?thesis by (rule subset_trans [rotated])
  qed
  moreover have "init_sig ts n = Some (R, n')" using those g(1) R(1) by (simp add: init_sig_def)
  ultimately show ?thesis using R(2-4) g(3) by (intro that) auto
qed

text \<open>A frontier the loop closed: if the last query was refuted by the empty clause, it is inductive.\<close>

definition closed_by :: "trans_system \<Rightarrow> sig \<Rightarrow> bool" where
  "closed_by ts R \<longleftrightarrow> (\<exists>cs nxt c p. build_query ts R = Some (cs, nxt) \<and> dpll_prove cs = Some (UNSAT c p) \<and>
     (c = {} \<longrightarrow> (\<forall>\<rho> \<rho>'. sval \<rho> R \<and> step ts \<rho> \<rho>' \<longrightarrow> sval \<rho>' R \<and> \<not> is_bad ts \<rho>')))"

lemma itp_loop_ok:
  assumes wf: "wf_ts P ts" and ord: "ord_ok ord" and init: "\<And>\<rho>. sval \<rho> init \<longleftrightarrow> is_init ts \<rho>" "svars init \<subseteq> ts_names ts"
  shows "pool_ok n P' \<Longrightarrow> P \<subseteq> P' \<Longrightarrow> {R, init} \<subseteq> P' \<Longrightarrow> svars R \<subseteq> ts_names ts \<Longrightarrow> (\<forall>\<rho>. is_init ts \<rho> \<longrightarrow> sval \<rho> R) \<Longrightarrow>
    \<exists>r n'. itp_loop ts ord init its R n = Some (r, n') \<and> (case r of
       ITP_UNSAFE \<Rightarrow> \<exists>\<rho> \<rho>'. is_init ts \<rho> \<and> step ts \<rho> \<rho>' \<and> is_bad ts \<rho>'
     | ITP_SAFE R' \<Rightarrow> (\<forall>\<rho>. is_init ts \<rho> \<longrightarrow> sval \<rho> R') \<and> closed_by ts R'
     | ITP_UNKNOWN _ \<Rightarrow> True) \<and> (\<exists>P''. pool_ok n' P'' \<and> P' \<subseteq> P'')"
proof (induction its arbitrary: n P' R)
  case (Suc its)
  have pool: "pool P'" using Suc.prems(1) by (simp add: pool_ok_def)
  have R: "R \<in> P'" using Suc.prems(3) by simp
  obtain cs nxt where q: "build_query ts R = Some (cs, nxt)" "\<forall>(c, t) \<in> set cs. finite c \<and> 0 \<notin> c"
    "\<And>\<rho> \<rho>'. sval \<rho> R \<Longrightarrow> step ts \<rho> \<rho>' \<Longrightarrow>
       \<exists>m. (\<forall>c \<in> tagged TagA cs. pmodel m c) \<and> (\<forall>v. is_global ts nxt v \<longrightarrow> m v = nxt_val ts nxt \<rho>' v)"
    "(\<exists>m. \<forall>(c, t) \<in> set cs. pmodel m c) \<longleftrightarrow> (\<exists>\<rho> \<rho>'. sval \<rho> R \<and> step ts \<rho> \<rho>' \<and> is_bad ts \<rho>')"
    by (rule build_query_ok [OF wf pool Suc.prems(2) R Suc.prems(4)]) (rule that)
  obtain r where r: "dpll_prove cs = Some r" "case r of
      SAT \<Rightarrow> \<exists>m. \<forall>(c, t) \<in> set cs. pmodel m c
    | UNSAT c p \<Rightarrow> valid (tagged TagA cs) (tagged TagB cs) p \<and> p c \<noteq> None" using dpll_prove_ok [OF q(2)] by blast
  show ?case
  proof (cases r)
    case SAT
    have one: "\<exists>\<rho> \<rho>'. sval \<rho> R \<and> step ts \<rho> \<rho>' \<and> is_bad ts \<rho>'" using q(4) r(2) SAT by simp
    obtain i1 n1 P1 where 1: "implies_s R init ts n = Some (i1, n1)" "pool_ok n1 P1" "P' \<subseteq> P1" "i1 \<longleftrightarrow> (\<forall>\<rho>. sval \<rho> R \<longrightarrow> sval \<rho> init)"
      by (rule implies_s_ok [OF wf Suc.prems(1,3)]) (use Suc.prems(4) init(2) in simp, rule that)
    have in1: "{init, R} \<subseteq> P1" using Suc.prems(3) 1(3) by blast
    obtain i2 n2 P2 where 2: "implies_s init R ts n1 = Some (i2, n2)" "pool_ok n2 P2" "P1 \<subseteq> P2" "i2 \<longleftrightarrow> (\<forall>\<rho>. sval \<rho> init \<longrightarrow> sval \<rho> R)"
      by (rule implies_s_ok [OF wf 1(2) in1]) (use Suc.prems(4) init(2) in simp, rule that)
    have "\<exists>\<rho> \<rho>'. is_init ts \<rho> \<and> step ts \<rho> \<rho>' \<and> is_bad ts \<rho>'" if i1 using one that 1(4) init(1) by blast
    moreover have "\<exists>P''. pool_ok n1 P'' \<and> P' \<subseteq> P''" "\<exists>P''. pool_ok n2 P'' \<and> P' \<subseteq> P''" using 1(2,3) 2(2,3) by blast+
    ultimately show ?thesis using q(1) r(1) SAT 1(1) 2(1) by (cases i1; cases i2) simp_all
  next
    case (UNSAT c p)
    have v: "valid (tagged TagA cs) (tagged TagB cs) p" "p c \<noteq> None" using r(2) UNSAT by simp_all
    obtain I n1 P1 where I: "mcmillan p c (is_global ts nxt) (nxt_sig ts nxt) ord n = Some (I, n1)" "pool_ok n1 P1" "P' \<subseteq> P1"
      "labels p (tagged TagA cs) (tagged TagB cs) (is_global ts nxt) (nxt_val ts nxt) (set (ts_state ts)) P1 c I"
      using mcmillan_ok [OF v nxt_sig_ok ord Suc.prems(1)] by blast
    have Iv: "svars I \<subseteq> ts_names ts" "I \<in> P1" using I(4) by (auto simp: labels_def ts_names_def)
    have in1: "{I, R} \<subseteq> P1" using Iv(2) R I(3) by blast
    obtain cl n2 P2 where 2: "implies_s I R ts n1 = Some (cl, n2)" "pool_ok n2 P2" "P1 \<subseteq> P2" "cl \<longleftrightarrow> (\<forall>\<rho>. sval \<rho> I \<longrightarrow> sval \<rho> R)"
      by (rule implies_s_ok [OF wf I(2) in1]) (use Suc.prems(4) Iv(1) in simp, rule that)
    show ?thesis
    proof (cases cl)
      case True
      have "sval \<rho>' R \<and> \<not> is_bad ts \<rho>'" if c: "c = {}" and s: "sval \<rho> R" "step ts \<rho> \<rho>'" for \<rho> \<rho>'
      proof
        obtain m where m: "\<forall>c \<in> tagged TagA cs. pmodel m c" "\<forall>v. is_global ts nxt v \<longrightarrow> m v = nxt_val ts nxt \<rho>' v"
          using q(3) [OF s] by blast
        have "sval \<rho>' I" using I(4) m c unfolding labels_def over_def by blast
        then show "sval \<rho>' R" using 2(4) True by blast
        show "\<not> is_bad ts \<rho>'" using refutation_unsat [OF v(1)] v(2) c q(4) s by blast
      qed
      then have "closed_by ts R" unfolding closed_by_def using q(1) r(1) UNSAT by blast
      moreover have "\<exists>P''. pool_ok n2 P'' \<and> P' \<subseteq> P''" using I(3) 2(2,3) by blast
      ultimately show ?thesis using Suc.prems(5) q(1) r(1) UNSAT I(1) 2(1) True by simp
    next
      case False
      have in2: "set [R, I] \<subseteq> P2" using in1 2(3) by auto
      obtain R' n3 P3 where 3: "run_state (OR_s [R, I]) n2 = (R', n3)" "pool_ok n3 P3" "P2 \<subseteq> P3" "{R'} \<subseteq> P3"
        "denotes (\<lambda>\<rho>. \<exists>x \<in> set [R, I]. sval \<rho> x) (\<Union>x \<in> set [R, I]. svars x) R'"
        by (rule buildsE [OF builds_OR 2(2) in2]) (rule that)
      have a: "P \<subseteq> P3" "{R', init} \<subseteq> P3" using Suc.prems(2,3) I(3) 2(3) 3(3,4) by blast+
      have b: "svars R' \<subseteq> ts_names ts" using 3(5) Suc.prems(4) Iv(1) by (auto simp: denotes_def)
      have c: "\<forall>\<rho>. is_init ts \<rho> \<longrightarrow> sval \<rho> R'" using 3(5) Suc.prems(5) by (simp add: denotes_def)
      obtain r' n' P4 where r': "itp_loop ts ord init its R' n3 = Some (r', n')" "case r' of
          ITP_UNSAFE \<Rightarrow> \<exists>\<rho> \<rho>'. is_init ts \<rho> \<and> step ts \<rho> \<rho>' \<and> is_bad ts \<rho>'
        | ITP_SAFE R' \<Rightarrow> (\<forall>\<rho>. is_init ts \<rho> \<longrightarrow> sval \<rho> R') \<and> closed_by ts R' | ITP_UNKNOWN _ \<Rightarrow> True" "pool_ok n' P4" "P3 \<subseteq> P4"
        by (rule exE [OF Suc.IH [OF 3(2) a b c]], elim exE conjE) (rule that)
      have "P' \<subseteq> P4" using I(3) 2(3) 3(3) r'(4) by blast
      moreover have "itp_loop ts ord init (Suc its) R n = Some (r', n')"
        using q(1) r(1) UNSAT I(1) 2(1) False 3(1) r'(1) by simp
      ultimately show ?thesis using r'(2,3) by blast
    qed
  qed
qed auto

lemma itp_mc_ok:
  assumes wf: "wf_ts P ts" "readable ts" and ord: "ord_ok ord" and P: "pool_ok n P"
  shows "\<exists>r n'. itp_mc ts ord max_iter d n = Some (r, n') \<and> (case r of
      ITP_UNSAFE \<Rightarrow> \<exists>k \<rho>. cex ts k \<rho>
    | ITP_SAFE R \<Rightarrow> (\<forall>k \<le> d. \<forall>\<rho>. \<not> cex ts k \<rho>) \<and> (\<forall>\<rho>. is_init ts \<rho> \<longrightarrow> sval \<rho> R) \<and> closed_by ts R
    | ITP_UNKNOWN _ \<Rightarrow> \<forall>k \<le> d. \<forall>\<rho>. \<not> cex ts k \<rho>) \<and> (\<exists>P'. pool_ok n' P' \<and> P \<subseteq> P')"
proof -
  obtain b where b: "bmc ts d = Some b" "bmc_ok ts d b" using bmc_correct [OF wf] by blast
  show ?thesis
  proof (cases b)
    case (CEX k tr)
    then have "\<exists>\<rho>. cex ts k \<rho>" using b(2) by (auto simp: bmc_ok_def)
    then show ?thesis using b(1) CEX P by (auto simp: itp_mc_def)
  next
    case (SAFE_UP_TO e)
    then have none: "\<forall>k \<le> d. \<forall>\<rho>. \<not> cex ts k \<rho>" using b(2) by (simp add: bmc_ok_def)
    obtain R n1 P1 where R: "init_sig ts n = Some (R, n1)" "pool_ok n1 P1" "P \<subseteq> P1" "R \<in> P1" "svars R \<subseteq> ts_names ts"
      "\<And>\<rho>. sval \<rho> R \<longleftrightarrow> is_init ts \<rho>" by (rule init_sig_ok [OF wf(1) P]) (rule that)
    obtain r n' P2 where r: "itp_loop ts ord R max_iter R n1 = Some (r, n')" "case r of
       ITP_UNSAFE \<Rightarrow> \<exists>\<rho> \<rho>'. is_init ts \<rho> \<and> step ts \<rho> \<rho>' \<and> is_bad ts \<rho>'
     | ITP_SAFE R' \<Rightarrow> (\<forall>\<rho>. is_init ts \<rho> \<longrightarrow> sval \<rho> R') \<and> closed_by ts R' | ITP_UNKNOWN _ \<Rightarrow> True"
      "pool_ok n' P2" "P1 \<subseteq> P2"
      using itp_loop_ok [OF wf(1) ord R(6,5,2,3) _ R(5)] R(4,6) by blast
    have "\<exists>k \<rho>. cex ts k \<rho>" if "is_init ts \<rho>" "step ts \<rho> \<rho>'" "is_bad ts \<rho>'" for \<rho> \<rho>'
      by (rule exI [of _ 1], rule exI [of _ "\<lambda>i. if i = 0 then \<rho> else \<rho>'"]) (use that in \<open>simp add: cex_def run_def\<close>)
    then have "case r of
        ITP_UNSAFE \<Rightarrow> \<exists>k \<rho>. cex ts k \<rho>
      | ITP_SAFE R \<Rightarrow> (\<forall>k \<le> d. \<forall>\<rho>. \<not> cex ts k \<rho>) \<and> (\<forall>\<rho>. is_init ts \<rho> \<longrightarrow> sval \<rho> R) \<and> closed_by ts R
      | ITP_UNKNOWN _ \<Rightarrow> \<forall>k \<le> d. \<forall>\<rho>. \<not> cex ts k \<rho>"
      using r(2) none by (auto split: itp_result.splits)
    moreover have "itp_mc ts ord max_iter d n = Some (r, n')" using b(1) SAFE_UP_TO R(1) r(1) by (simp add: itp_mc_def)
    moreover have "P \<subseteq> P2" using R(3) r(4) by blast
    ultimately show ?thesis using r(3) by blast
  qed
qed

lemma closed_safe:
  assumes none: "\<forall>\<rho>. \<not> cex ts 0 \<rho>" and init: "\<forall>\<rho>. is_init ts \<rho> \<longrightarrow> sval \<rho> R"
    and closed: "\<forall>\<rho> \<rho>'. sval \<rho> R \<and> step ts \<rho> \<rho>' \<longrightarrow> sval \<rho>' R \<and> \<not> is_bad ts \<rho>'"
  shows "safe ts"
proof -
  have "\<not> cex ts k \<rho>" for k \<rho>
  proof
    assume c: "cex ts k \<rho>"
    have st: "step ts (\<rho> i) (\<rho> (Suc i))" if "i < k" for i using c that by (simp add: cex_def run_def)
    have R: "i \<le> k \<Longrightarrow> sval (\<rho> i) R" for i
    proof (induction i)
      case 0
      then show ?case using c init by (simp add: cex_def)
    next
      case (Suc i)
      then show ?case using st [of i] closed [rule_format, of "\<rho> i" "\<rho> (Suc i)"] by simp
    qed
    show False
    proof (cases k)
      case 0
      then show False using c none by simp
    next
      case (Suc j)
      then show False using R [of j] st [of j] c closed [rule_format, of "\<rho> j" "\<rho> (Suc j)"] by (simp add: cex_def)
    qed
  qed
  then show ?thesis by (simp add: safe_def)
qed

end
