(* ===== verification/Cegar.thy ===== *)
theory Cegar
  imports Ic3_Solve Ternary
begin

text \<open>
  Counterexample-guided abstraction refinement by localization (\<open>cegar.py\<close>): the abstraction
  \<open>localize\<close>, the shortest abstract counterexample, its replay on the concrete design by simulation, the
  refinement candidates of class \<open>_Frontier\<close>, and the loop. A valuation that is a dictionary is a map; the
  simulated values are those of ternary simulation. What the rounds print is left out. The loop's rounds
  are bounded by \<open>max_rounds\<close> in the source, so they are a structural recursion.
\<close>

subsection \<open>The abstraction\<close>

primrec keep_bits :: "trans_system \<Rightarrow> string set \<Rightarrow> string list \<Rightarrow> trans_system \<Rightarrow> trans_system option" where
  "keep_bits ts keep [] a = Some a"
| "keep_bits ts keep (n # ns) a =
     (if n \<in> keep then
        do { i \<leftarrow> ts_init ts n; g \<leftarrow> ts_next ts n; keep_bits ts keep ns (add_state_bit n i g a) }
      else keep_bits ts keep ns a)"

definition localize :: "trans_system \<Rightarrow> string set \<Rightarrow> trans_system option" where
  "localize ts keep =
     do { a \<leftarrow> keep_bits ts keep (ts_state ts) (TransitionSystem (ts_name ts @ ''+loc''));
          Some (a\<lparr>ts_inputs := ts_inputs ts @ filter (\<lambda>n. n \<notin> keep) (ts_state ts), ts_bad := ts_bad ts,
            ts_assumptions := ts_assumptions ts\<rparr>) }"

subsection \<open>The abstract counterexample\<close>

type_synonym valuation = "string \<rightharpoonup> bool"

definition read_frame :: "'a solver_scheme \<Rightarrow> frame \<Rightarrow> string list \<Rightarrow> valuation option" where
  "read_frame s f names =
     do { vs \<leftarrow> those (map (get_name s (fenv f)) names); Some (map_of (zip names vs)) }"

definition abs_query :: "trans_system \<Rightarrow> nat \<Rightarrow> (valuation list option) option" where
  "abs_query abs_ts k =
     do { (envs, s) \<leftarrow> unroll abs_ts k True Solver;
          (l, f, s) \<leftarrow> bad_lit abs_ts (envs ! k) s;
          let s = snd (add_clause [l] s);
          (sat, s) \<leftarrow> solve [] s;
          if sat then map_option Some (those (map (\<lambda>e. read_frame s e (ts_state abs_ts @ ts_inputs abs_ts)) envs))
          else Some None }"

primrec abs_cex_depths :: "trans_system \<Rightarrow> nat list \<Rightarrow> (valuation list option) option" where
  "abs_cex_depths abs_ts [] = Some None"
| "abs_cex_depths abs_ts (k # ks) =
     do { r \<leftarrow> abs_query abs_ts k;
          (case r of Some cx \<Rightarrow> Some (Some cx) | None \<Rightarrow> abs_cex_depths abs_ts ks) }"

definition abs_cex :: "trans_system \<Rightarrow> nat \<Rightarrow> (valuation list option) option" where
  "abs_cex abs_ts kmax = abs_cex_depths abs_ts [0..<kmax + 1]"

subsection \<open>The replay\<close>

type_synonym cycle = "string \<rightharpoonup> tern"

primrec put_inputs :: "string list \<Rightarrow> valuation \<Rightarrow> cycle \<Rightarrow> cycle option" where
  "put_inputs [] st env = Some env"
| "put_inputs (i # is) st env = do { b \<leftarrow> st i; put_inputs is st (env(i \<mapsto> Some b)) }"

primrec eval_nexts :: "trans_system \<Rightarrow> cycle \<Rightarrow> string list \<Rightarrow> tern_memo \<Rightarrow> cycle \<Rightarrow> cycle option" where
  "eval_nexts ts env [] memo out = Some out"
| "eval_nexts ts env (n # ns) memo out =
     do { g \<leftarrow> ts_next ts n; (v, memo) \<leftarrow> ternary_eval g env memo; eval_nexts ts env ns memo (out(n \<mapsto> v)) }"

primrec sim_cycles :: "trans_system \<Rightarrow> valuation list \<Rightarrow> nat \<Rightarrow> cycle \<Rightarrow> cycle list \<Rightarrow>
    (nat option \<times> cycle list) option" where
  "sim_cycles ts [] t state rows = Some (None, rows)"
| "sim_cycles ts (st # sts) t state rows =
     do { env \<leftarrow> put_inputs (ts_inputs ts) st state;
          let rows = rows @ [env];
          b \<leftarrow> ts_bad ts;
          (v, memo) \<leftarrow> ternary_eval b env Map.empty;
          if v = Some True then Some (Some t, rows)
          else if sts \<noteq> [] then
            do { state \<leftarrow> eval_nexts ts env (ts_state ts) memo Map.empty; sim_cycles ts sts (t + 1) state rows }
          else Some (None, rows) }"

definition init_cycle :: "trans_system \<Rightarrow> cycle option" where
  "init_cycle ts =
     do { vs \<leftarrow> those (map (ts_init ts) (ts_state ts)); Some (map_of (zip (ts_state ts) (map Some vs))) }"

definition simulate :: "trans_system \<Rightarrow> valuation list \<Rightarrow> (nat option \<times> cycle list) option" where
  "simulate ts cx = do { state \<leftarrow> init_cycle ts; sim_cycles ts cx 0 state [] }"

subsection \<open>The refinement candidates\<close>

record frontier =
  fr_ts :: trans_system
  fr_sup :: "string \<rightharpoonup> string set"   \<comment> \<open>the supports computed so far\<close>
  fr_bad_sup :: "string set"

definition Frontier :: "trans_system \<Rightarrow> frontier option" where
  "Frontier ts =
     do { b \<leftarrow> ts_bad ts; S \<leftarrow> support b; Some \<lparr>fr_ts = ts, fr_sup = Map.empty, fr_bad_sup = S\<rparr> }"

definition next_sup :: "string \<Rightarrow> frontier \<Rightarrow> (string set \<times> frontier) option" where
  "next_sup n fr =
     (case fr_sup fr n of
        Some S \<Rightarrow> Some (S, fr)
      | None \<Rightarrow> do { g \<leftarrow> ts_next (fr_ts fr) n; S \<leftarrow> support g;
                     Some (S, fr\<lparr>fr_sup := (fr_sup fr)(n \<mapsto> S)\<rparr>) })"

primrec union_sups :: "string list \<Rightarrow> string set \<Rightarrow> frontier \<Rightarrow> (string set \<times> frontier) option" where
  "union_sups [] r fr = Some (r, fr)"
| "union_sups (n # ns) r fr = do { (S, fr) \<leftarrow> next_sup n fr; union_sups ns (r \<union> S) fr }"

text \<open>The order in which the set \<open>keep\<close> is iterated changes neither the result nor the cache; the
  argument is the list it was built from.\<close>

definition read_bits_of :: "string list \<Rightarrow> frontier \<Rightarrow> (string list \<times> frontier) option" where
  "read_bits_of keep fr =
     do { (r, fr) \<leftarrow> union_sups keep (fr_bad_sup fr) fr;
          Some (filter (\<lambda>n. n \<in> r \<and> n \<notin> set keep) (ts_state (fr_ts fr)), fr) }"

text \<open>The freed bits with an invented value in one cycle, and the first cycle that has one\<close>

primrec diverging :: "string list \<Rightarrow> valuation \<Rightarrow> cycle \<Rightarrow> string list option" where
  "diverging [] c r = Some []"
| "diverging (n # ns) c r =
     do { x \<leftarrow> c n; y \<leftarrow> r n; ds \<leftarrow> diverging ns c r; Some (if Some x \<noteq> y then n # ds else ds) }"

fun first_div :: "string list \<Rightarrow> valuation list \<Rightarrow> cycle list \<Rightarrow> string list option" where
  "first_div frontier cs [] = Some []"
| "first_div frontier [] (r # rs) = None"
| "first_div frontier (c # cs) (r # rs) =
     do { d \<leftarrow> diverging frontier c r; if d \<noteq> [] then Some d else first_div frontier cs rs }"

subsection \<open>The loop\<close>

datatype cegar_result =
    CE_SAFE nat "string list" nat "cube set"        \<comment> \<open>rounds, kept bits, frames, invariant\<close>
  | CE_UNSAFE nat "string list" nat "cycle list"    \<comment> \<open>rounds, kept bits, depth, trace\<close>
  | CE_UNKNOWN nat "string list"

text \<open>\<open>r.get("frames", r.get("depth", 0))\<close> of an \<open>UNSAFE\<close> answer\<close>

fun unsafe_depth :: "ic3_result \<Rightarrow> nat option" where
  "unsafe_depth UNSAFE_INIT = Some 0"
| "unsafe_depth (UNSAFE k) = Some k"
| "unsafe_depth _ = None"

text \<open>One spurious round: the bits to keep in the next one\<close>

definition refine :: "trans_system \<Rightarrow> frontier \<Rightarrow> string list \<Rightarrow> valuation list \<Rightarrow> cycle list \<Rightarrow>
    (string list \<times> frontier) option" where
  "refine ts fr keep cx rows =
     do { (front, fr) \<leftarrow> read_bits_of keep fr;
          d \<leftarrow> first_div front cx rows;
          let d = (if d = [] then front else d);
          Some (filter (\<lambda>n. n \<in> set keep \<or> n \<in> set d) (ts_state ts), fr) }"

text \<open>\<open>fuel\<close> rounds are left, \<open>rno\<close> is the number of the current one\<close>

primrec cegar_rounds :: "traversal \<Rightarrow> trans_system \<Rightarrow> nat \<Rightarrow> nat \<Rightarrow> nat \<Rightarrow> frontier \<Rightarrow> string list \<Rightarrow>
    cegar_result option" where
  "cegar_rounds tr ts max_frames 0 rno fr keep = Some (CE_UNKNOWN (rno - 1) keep)"
| "cegar_rounds tr ts max_frames (Suc fuel) rno fr keep =
     do { abs_ts \<leftarrow> localize ts (set keep);
          (r, e) \<leftarrow> ic3_solve tr abs_ts max_frames IC3;
          (case r of
             SAFE k iv \<Rightarrow> Some (CE_SAFE rno keep k iv)
           | UNKNOWN k \<Rightarrow> Some (CE_UNKNOWN rno keep)
           | _ \<Rightarrow> do {
               k \<leftarrow> unsafe_depth r;
               c \<leftarrow> abs_cex abs_ts (k + 2);
               (case c of
                  None \<Rightarrow> Some (CE_UNKNOWN rno keep)
                | Some cx \<Rightarrow> do {
                    (bad_at, rows) \<leftarrow> simulate ts cx;
                    (case bad_at of
                       Some t \<Rightarrow> Some (CE_UNSAFE rno keep t (take (t + 1) rows))
                     | None \<Rightarrow> do {
                         (keep, fr) \<leftarrow> refine ts fr keep cx rows;
                         cegar_rounds tr ts max_frames fuel (rno + 1) fr keep }) }) }) }"

definition cegar :: "traversal \<Rightarrow> trans_system \<Rightarrow> nat \<Rightarrow> nat \<Rightarrow> cegar_result option" where
  "cegar tr ts max_frames max_rounds =
     do { fr \<leftarrow> Frontier ts;
          cegar_rounds tr ts max_frames max_rounds 1 fr
            (filter (\<lambda>n. n \<in> fr_bad_sup fr) (ts_state ts)) }"

subsection \<open>The abstraction has every concrete behaviour\<close>

lemma keep_bits_ok:
  assumes "\<forall>n \<in> set ns. ts_init ts n \<noteq> None \<and> ts_next ts n \<noteq> None"
  shows "\<exists>a'. keep_bits ts keep ns a = Some a' \<and> ts_state a' = ts_state a @ filter (\<lambda>n. n \<in> keep) ns \<and>
    ts_init a' = (\<lambda>n. if n \<in> set ns \<inter> keep then ts_init ts n else ts_init a n) \<and>
    ts_next a' = (\<lambda>n. if n \<in> set ns \<inter> keep then ts_next ts n else ts_next a n)"
  using assms
proof (induction ns arbitrary: a)
  case (Cons n ns)
  obtain i g where n: "ts_init ts n = Some i" "ts_next ts n = Some g" using Cons.prems by auto
  show ?case
    using Cons.IH [of a] Cons.IH [of "add_state_bit n i g a"] Cons.prems n
    by (cases "n \<in> keep") (auto simp: add_state_bit_def fun_eq_iff)
qed simp

lemma localize_ok:
  assumes wf: "wf_ts P ts"
  obtains a where "localize ts keep = Some a" "wf_ts P a" "ts_names a = ts_names ts"
    "\<And>k \<rho>. cex ts k \<rho> \<Longrightarrow> cex a k \<rho>"
proof -
  have "\<forall>n \<in> set (ts_state ts). ts_init ts n \<noteq> None \<and> ts_next ts n \<noteq> None"
    using wf by (auto simp: wf_ts_def)
  note k = keep_bits_ok [OF this, of keep]
  define e where "e = TransitionSystem (ts_name ts @ ''+loc'')"
  have e: "ts_state e = []" "ts_init e = Map.empty" "ts_next e = Map.empty" by (simp_all add: e_def TransitionSystem_def)
  from k [of e] obtain a0 where a0: "keep_bits ts keep (ts_state ts) e = Some a0"
    "ts_state a0 = filter (\<lambda>n. n \<in> keep) (ts_state ts)"
    "ts_init a0 = (\<lambda>n. if n \<in> set (ts_state ts) \<inter> keep then ts_init ts n else None)"
    "ts_next a0 = (\<lambda>n. if n \<in> set (ts_state ts) \<inter> keep then ts_next ts n else None)"
    unfolding e by auto
  define a where "a = a0\<lparr>ts_inputs := ts_inputs ts @ filter (\<lambda>n. n \<notin> keep) (ts_state ts), ts_bad := ts_bad ts,
      ts_assumptions := ts_assumptions ts\<rparr>"
  have nm: "ts_names a = ts_names ts" by (auto simp: ts_names_def a_def a0(2))
  have "wf_ts P a"
    using wf unfolding wf_ts_def nm by (auto simp: a_def a0 distinct_filter)
  moreover have "cex a k \<rho>" if "cex ts k \<rho>" for k \<rho>
    using that by (auto simp: cex_def is_init_def is_bad_def run_def step_def a_def a0)
  moreover have "localize ts keep = Some a" by (simp add: localize_def a0(1) a_def flip: e_def)
  ultimately show ?thesis using that nm by blast
qed

subsection \<open>The queries return\<close>

definition reads_all :: "trans_system \<Rightarrow> valuation \<Rightarrow> bool" where
  "reads_all ts c \<longleftrightarrow> ts_names ts \<subseteq> dom c"

lemma read_frame_ok:
  assumes "env_ok n (fenv f) (ts_names ts)" "pos [f]"
  obtains c where "read_frame s f (ts_state ts @ ts_inputs ts) = Some c" "reads_all ts c"
proof -
  let ?ns = "ts_state ts @ ts_inputs ts"
  have "those (map (get_name s (fenv f)) ?ns) = Some (map (fval f (\<lambda>v. get_value v s)) ?ns)"
    by (rule those_map_cong, rule get_name_eval [OF assms(1)])
      (use assms(2) in \<open>auto simp: pos_def ts_names_def\<close>)
  then have "read_frame s f ?ns = Some (map_of (zip ?ns (map (fval f (\<lambda>v. get_value v s)) ?ns)))"
    by (simp add: read_frame_def)
  then show ?thesis by (rule that) (simp add: reads_all_def ts_names_def)
qed

lemma abs_query_ok:
  assumes wf: "wf_ts P ts"
  shows "\<exists>r. abs_query ts k = Some r \<and> (\<forall>cx. r = Some cx \<longrightarrow> list_all (reads_all ts) cx)"
proof -
  obtain envs s where u: "unroll ts k True Solver = Some (envs, s)" "length envs = Suc k" "pos envs"
    "chain P ts s envs (\<lambda>\<rho>. is_init ts (\<rho> 0) \<and> run ts k \<rho>)"
    using unroll_ok [OF wf] by blast
  have k: "k < length envs" using u(2) by simp
  obtain l f s1 where b: "bad_lit ts (envs ! k) s = Some (l, f, s1)"
    "chain P ts s1 (envs[k := f]) (\<lambda>\<rho>. is_init ts (\<rho> 0) \<and> run ts k \<rho>)" "lit_ok (n_vars s1) l" "fenv f = fenv (envs ! k)"
    "\<forall>m \<in> mods s1. sat_lit m l = is_bad ts (fvals envs m k)"
    using chain_bad [OF wf u(4) k] by blast
  have eq: "fvals (envs[k := f]) m k = fvals envs m k" for m
    using k b(4) by (simp add: fvals_def fval_def)
  have k': "k < length (envs[k := f])" using k by simp
  have b5: "\<forall>m \<in> mods s1. sat_lit m l = is_bad ts (fvals (envs[k := f]) m k)" using b(5) eq by simp
  obtain sat s2 where s: "solve [] (snd (add_clause [l] s1)) = Some (sat, s2)"
    using chain_solve [OF chain_assert_bad(1) [OF wf b(2) k' b(3) b5]] by blast
  have "\<exists>c. read_frame s2 e (ts_state ts @ ts_inputs ts) = Some c \<and> reads_all ts c" if e: "e \<in> set envs" for e
  proof -
    have "env_ok (n_vars s) (fenv e) (ts_names ts)" using u(4) e by (simp add: chain_def frame_ok_def)
    moreover have "pos [e]" using u(3) e by (simp add: pos_def)
    ultimately show ?thesis using read_frame_ok by blast
  qed
  then obtain g where g: "\<And>e. e \<in> set envs \<Longrightarrow> read_frame s2 e (ts_state ts @ ts_inputs ts) = Some (g e)"
      "\<And>e. e \<in> set envs \<Longrightarrow> reads_all ts (g e)" by metis
  have "those (map (\<lambda>e. read_frame s2 e (ts_state ts @ ts_inputs ts)) envs) = Some (map g envs)"
    by (rule those_map_cong) (rule g)
  then show ?thesis using u(1) b(1) s g(2) by (simp add: abs_query_def list_all_iff)
qed

lemma abs_cex_ok:
  assumes wf: "wf_ts P ts"
  shows "\<exists>r. abs_cex ts kmax = Some r \<and> (\<forall>cx. r = Some cx \<longrightarrow> list_all (reads_all ts) cx)"
proof -
  have "\<exists>r. abs_cex_depths ts ks = Some r \<and> (\<forall>cx. r = Some cx \<longrightarrow> list_all (reads_all ts) cx)" for ks
  proof (induction ks)
    case (Cons k ks)
    obtain r where "abs_query ts k = Some r" "\<forall>cx. r = Some cx \<longrightarrow> list_all (reads_all ts) cx"
      using abs_query_ok [OF wf] by blast
    with Cons.IH show ?case by (cases r) auto
  qed simp
  then show ?thesis by (simp add: abs_cex_def)
qed

subsection \<open>The replay is a run of the concrete design\<close>

definition definite_on :: "string set \<Rightarrow> cycle \<Rightarrow> bool" where
  "definite_on X env \<longleftrightarrow> (\<forall>x \<in> X. \<exists>b. env x = Some (Some b))"

definition cycle_val :: "cycle \<Rightarrow> string \<Rightarrow> bool" where
  "cycle_val env x \<longleftrightarrow> env x = Some (Some True)"

lemma definite_on_val: "definite_on X env \<Longrightarrow> x \<in> X \<Longrightarrow> env x = Some (Some (cycle_val env x))"
  by (auto simp: definite_on_def cycle_val_def)

lemma put_inputs_ok:
  assumes "set is \<subseteq> dom st"
  shows "\<exists>env'. put_inputs is st env = Some env' \<and> (\<forall>x. x \<notin> set is \<longrightarrow> env' x = env x) \<and> definite_on (set is) env'"
  using assms
proof (induction "is" arbitrary: env)
  case (Cons i "is")
  obtain b where b: "st i = Some b" using Cons.prems by auto
  define env1 where "env1 = env(i \<mapsto> Some b)"
  obtain env' where e: "put_inputs is st env1 = Some env'" "\<forall>x. x \<notin> set is \<longrightarrow> env' x = env1 x" "definite_on (set is) env'"
    using Cons.IH [of env1] Cons.prems by auto
  have "definite_on (set (i # is)) env'" using e(2,3) by (cases "i \<in> set is") (auto simp: definite_on_def env1_def)
  moreover have "env' x = env x" if "x \<notin> set (i # is)" for x using e(2) that by (simp add: env1_def)
  ultimately show ?case using e(1) b by (simp add: env1_def)
qed (simp add: definite_on_def)

lemma ternary_definite:
  assumes "pool P" "g \<in> P" "svars g \<subseteq> X" "definite_on X env" "tmemo_ok P env memo"
  shows "\<exists>memo'. ternary_eval g env memo = Some (Some (sval (cycle_val env) g), memo') \<and> tmemo_ok P env memo'"
proof -
  have d: "svars g \<subseteq> dom env" using assms(3,4) by (auto simp: definite_on_def)
  have "tval (tenv env) g = Some (sval (cycle_val env) g)"
  proof (rule tval_mono [where \<rho> = "\<lambda>x. Some (cycle_val env x)"])
    show "tval (\<lambda>x. Some (cycle_val env x)) g = Some (sval (cycle_val env) g)" by (rule tval_total)
    show "refines (Some (cycle_val env x)) (tenv env x)" if "x \<in> svars g" for x
      using definite_on_val [OF assms(4)] assms(3) that by (auto simp: refines_def tenv_def)
  qed
  with ternary_eval_tval [OF assms(1,2) d assms(5)] show ?thesis by simp
qed

lemma eval_nexts_ok:
  assumes wf: "wf_ts P ts" and env: "definite_on (ts_names ts) env"
  shows "set ns \<subseteq> set (ts_state ts) \<Longrightarrow> tmemo_ok P env memo \<Longrightarrow>
    \<exists>out'. eval_nexts ts env ns memo out = Some out' \<and> (\<forall>x. x \<notin> set ns \<longrightarrow> out' x = out x) \<and>
      (\<forall>n \<in> set ns. \<forall>g. ts_next ts n = Some g \<longrightarrow> out' n = Some (Some (sval (cycle_val env) g)))"
proof (induction ns arbitrary: memo out)
  case (Cons n ns)
  obtain g where g: "ts_next ts n = Some g" "g \<in> P" "svars g \<subseteq> ts_names ts" and P: "pool P"
    using wf Cons.prems(1) by (auto simp: wf_ts_def)
  obtain memo' where m: "ternary_eval g env memo = Some (Some (sval (cycle_val env) g), memo')" "tmemo_ok P env memo'"
    using ternary_definite [OF P g(2,3) env Cons.prems(2)] by blast
  define o1 where "o1 = out(n \<mapsto> Some (sval (cycle_val env) g))"
  obtain out' where o: "eval_nexts ts env ns memo' o1 = Some out'" "\<forall>x. x \<notin> set ns \<longrightarrow> out' x = o1 x"
    "\<forall>n \<in> set ns. \<forall>g. ts_next ts n = Some g \<longrightarrow> out' n = Some (Some (sval (cycle_val env) g))"
    using Cons.IH [OF _ m(2), of o1] Cons.prems(1) by auto
  have "out' n = Some (Some (sval (cycle_val env) g))" using o(2,3) g(1) by (cases "n \<in> set ns") (auto simp: o1_def)
  moreover have "out' x = out x" if "x \<notin> set (n # ns)" for x using o(2) that by (simp add: o1_def)
  moreover have "eval_nexts ts env (n # ns) memo out = Some out'" using g(1) m(1) o(1) by (simp add: o1_def)
  ultimately show ?case using o(3) g(1) by simp
qed simp

text \<open>The rows so far are a run from reset, and \<open>state\<close> continues it.\<close>

definition sim_run :: "trans_system \<Rightarrow> cycle list \<Rightarrow> bool" where
  "sim_run ts rows \<longleftrightarrow> list_all (definite_on (ts_names ts)) rows \<and>
     (0 < length rows \<longrightarrow> is_init ts (cycle_val (rows ! 0))) \<and>
     (\<forall>i. Suc i < length rows \<longrightarrow> step ts (cycle_val (rows ! i)) (cycle_val (rows ! Suc i)))"

definition sim_state :: "trans_system \<Rightarrow> cycle list \<Rightarrow> cycle \<Rightarrow> bool" where
  "sim_state ts rows st \<longleftrightarrow> (\<forall>n \<in> set (ts_state ts).
     if rows = [] then st n = map_option Some (ts_init ts n)
     else \<forall>g. ts_next ts n = Some g \<longrightarrow> st n = Some (Some (sval (cycle_val (last rows)) g)))"

lemma sim_run_snoc:
  assumes wf: "wf_ts P ts" and "sim_run ts rows" "sim_state ts rows st" "definite_on (ts_names ts) env"
    and st: "\<And>n. n \<in> set (ts_state ts) \<Longrightarrow> env n = st n"
  shows "sim_run ts (rows @ [env])"
proof (cases "rows = []")
  case True
  have "is_init ts (cycle_val env)"
    using assms(3) st wf True unfolding is_init_def sim_state_def wf_ts_def cycle_val_def by force
  with True assms(4) show ?thesis by (simp add: sim_run_def)
next
  case False
  have "step ts (cycle_val (last rows)) (cycle_val env)"
    using assms(3) st False by (auto simp: step_def sim_state_def cycle_val_def)
  moreover have "last rows = rows ! i" if "Suc i = length rows" for i
    using that by (simp add: last_conv_nth [OF False] flip: that)
  ultimately have "step ts (cycle_val (rows ! i)) (cycle_val env)" if "Suc i = length rows" for i
    using that by metis
  with False assms(2,4) show ?thesis
    by (auto simp: sim_run_def nth_append less_Suc_eq)
qed

lemma sim_cycles_ok:
  assumes wf: "wf_ts P ts"
  shows "list_all (reads_all ts) cs \<Longrightarrow> sim_run ts rows \<Longrightarrow> sim_state ts rows st \<Longrightarrow>
    \<exists>r rows'. sim_cycles ts cs (length rows) st rows = Some (r, rows') \<and> sim_run ts rows' \<and>
      length rows' \<le> length rows + length cs \<and>
      (case r of None \<Rightarrow> True | Some t \<Rightarrow> t < length rows' \<and> is_bad ts (cycle_val (rows' ! t)))"
proof (induction cs arbitrary: rows st)
  case Nil
  then show ?case by simp
next
  case (Cons c cs)
  have ns: "set (ts_state ts) \<inter> set (ts_inputs ts) = {}" and P: "pool P" using wf by (auto simp: wf_ts_def)
  obtain env where env: "put_inputs (ts_inputs ts) c st = Some env" "\<forall>x. x \<notin> set (ts_inputs ts) \<longrightarrow> env x = st x"
      "definite_on (set (ts_inputs ts)) env"
    using put_inputs_ok [of "ts_inputs ts" c st] Cons.prems(1) by (auto simp: reads_all_def ts_names_def)
  have st: "env n = st n" if "n \<in> set (ts_state ts)" for n using env(2) ns that by blast
  have "\<exists>b. st n = Some (Some b)" if "n \<in> set (ts_state ts)" for n
    using Cons.prems(3) wf that by (cases "rows = []") (fastforce simp: sim_state_def wf_ts_def)+
  then have d: "definite_on (ts_names ts) env" using env(3) st by (auto simp: definite_on_def ts_names_def)
  have run: "sim_run ts (rows @ [env])" by (rule sim_run_snoc [OF wf Cons.prems(2,3) d st])
  obtain b where b: "ts_bad ts = Some b" "b \<in> P" "svars b \<subseteq> ts_names ts" using wf by (auto simp: wf_ts_def)
  have "tmemo_ok P env Map.empty" by (simp add: tmemo_ok_def)
  from ternary_definite [OF P b(2,3) d this] obtain memo where
    m: "ternary_eval b env Map.empty = Some (Some (sval (cycle_val env) b), memo)" "tmemo_ok P env memo" by blast
  show ?case
  proof (cases "sval (cycle_val env) b")
    case True
    then show ?thesis using env(1) b(1) m(1) run by (auto simp: is_bad_def nth_append)
  next
    case False
    obtain st' where st': "eval_nexts ts env (ts_state ts) memo Map.empty = Some st'"
      "\<forall>n \<in> set (ts_state ts). \<forall>g. ts_next ts n = Some g \<longrightarrow> st' n = Some (Some (sval (cycle_val env) g))"
      using eval_nexts_ok [OF wf d order_refl m(2), of Map.empty] by blast
    have "sim_state ts (rows @ [env]) st'" using st'(2) by (simp add: sim_state_def)
    from Cons.IH [OF _ run this] Cons.prems(1) obtain r rows' where
      "sim_cycles ts cs (length (rows @ [env])) st' (rows @ [env]) = Some (r, rows')" "sim_run ts rows'"
      "length rows' \<le> length (rows @ [env]) + length cs"
      "case r of None \<Rightarrow> True | Some t \<Rightarrow> t < length rows' \<and> is_bad ts (cycle_val (rows' ! t))" by auto
    with False env(1) b(1) m(1) st'(1) run show ?thesis by (cases "cs = []") auto
  qed
qed

subsection \<open>Refinement keeps state bits\<close>

definition frontier_ok :: "trans_system \<Rightarrow> frontier \<Rightarrow> bool" where
  "frontier_ok ts fr \<longleftrightarrow> fr_ts fr = ts"

lemma union_sups_ok:
  assumes wf: "wf_ts P ts"
  shows "set ns \<subseteq> set (ts_state ts) \<Longrightarrow> frontier_ok ts fr \<Longrightarrow> \<exists>r' fr'. union_sups ns r fr = Some (r', fr') \<and> frontier_ok ts fr'"
proof (induction ns arbitrary: r fr)
  case (Cons n ns)
  obtain g where g: "ts_next ts n = Some g" "g \<in> P" and P: "pool P"
    using wf Cons.prems(1) by (auto simp: wf_ts_def)
  have "\<exists>S fr1. next_sup n fr = Some (S, fr1) \<and> frontier_ok ts fr1"
    using Cons.prems(2) g(1) support_svars [OF P g(2)]
    by (auto simp: next_sup_def frontier_ok_def split: option.splits)
  then obtain S fr1 where "next_sup n fr = Some (S, fr1)" "frontier_ok ts fr1" by blast
  with Cons.IH [of fr1 "r \<union> S"] Cons.prems(1) show ?case by auto
qed simp

lemma diverging_ok:
  assumes "reads_all ts c" "definite_on (ts_names ts) r"
  shows "set ns \<subseteq> ts_names ts \<Longrightarrow> \<exists>d. diverging ns c r = Some d"
proof (induction ns)
  case (Cons n ns)
  then show ?case using assms definite_on_val [OF assms(2), of n] by (auto simp: reads_all_def)
qed simp

lemma first_div_ok:
  "set front \<subseteq> ts_names ts \<Longrightarrow> list_all (reads_all ts) cs \<Longrightarrow> list_all (definite_on (ts_names ts)) rs \<Longrightarrow> length rs \<le> length cs \<Longrightarrow>
    \<exists>d. first_div front cs rs = Some d"
proof (induction front cs rs rule: first_div.induct)
  case (3 front c cs r rs)
  obtain d where "diverging front c r = Some d" using diverging_ok [OF _ _ 3(2)] 3(3,4) by auto
  then show ?case using 3 by auto
qed auto

lemma refine_ok:
  assumes wf: "wf_ts P ts" and keep: "set keep \<subseteq> set (ts_state ts)" and fr: "frontier_ok ts fr"
    and cx: "list_all (reads_all ts) cx" and rows: "sim_run ts rows" "length rows \<le> length cx"
  shows "\<exists>keep' fr'. refine ts fr keep cx rows = Some (keep', fr') \<and> set keep \<subseteq> set keep' \<and>
    set keep' \<subseteq> set (ts_state ts) \<and> frontier_ok ts fr'"
proof -
  obtain r fr' where u: "union_sups keep (fr_bad_sup fr) fr = Some (r, fr')" "frontier_ok ts fr'"
    using union_sups_ok [OF wf keep fr] by blast
  define front where "front = filter (\<lambda>n. n \<in> r \<and> n \<notin> set keep) (ts_state (fr_ts fr'))"
  have rb: "read_bits_of keep fr = Some (front, fr')" by (simp add: read_bits_of_def u front_def)
  have "set front \<subseteq> ts_names ts" using u(2) by (auto simp: front_def frontier_ok_def ts_names_def)
  from first_div_ok [OF this cx _ rows(2)] rows(1) obtain d where "first_div front cx rows = Some d"
    by (auto simp: sim_run_def)
  with rb u(2) keep show ?thesis by (auto simp: refine_def Let_def)
qed

subsection \<open>The verdicts are those of the concrete design\<close>

definition cegar_ok :: "trans_system \<Rightarrow> cegar_result \<Rightarrow> bool" where
  "cegar_ok ts r \<longleftrightarrow> (case r of
     CE_SAFE m keep k iv \<Rightarrow> set keep \<subseteq> set (ts_state ts) \<and> safe ts
   | CE_UNSAFE m keep t rows \<Rightarrow> length rows = Suc t \<and> cex ts t (\<lambda>i. cycle_val (rows ! i))
   | CE_UNKNOWN m keep \<Rightarrow> True)"

lemma simulate_ok:
  assumes wf: "wf_ts P ts" and cx: "list_all (reads_all ts) cx"
  shows "\<exists>r rows. simulate ts cx = Some (r, rows) \<and> sim_run ts rows \<and> length rows \<le> length cx \<and>
    (case r of None \<Rightarrow> True | Some t \<Rightarrow> t < length rows \<and> is_bad ts (cycle_val (rows ! t)))"
proof -
  have ini: "ts_init ts n = Some (the (ts_init ts n))" if "n \<in> set (ts_state ts)" for n
    using wf that by (auto simp: wf_ts_def)
  let ?vs = "map (\<lambda>n. the (ts_init ts n)) (ts_state ts)"
  have "those (map (ts_init ts) (ts_state ts)) = Some ?vs" by (rule those_map_cong) (rule ini)
  then have i: "init_cycle ts = Some (map_of (zip (ts_state ts) (map Some ?vs)))" by (simp add: init_cycle_def)
  have "map_of (zip (ts_state ts) (map Some ?vs)) n = map_option Some (ts_init ts n)" if "n \<in> set (ts_state ts)" for n
    using that ini [OF that] by (cases "ts_init ts n") (simp_all add: map_of_zip_map)
  then have "sim_state ts [] (map_of (zip (ts_state ts) (map Some ?vs)))" by (simp add: sim_state_def)
  from sim_cycles_ok [OF wf cx _ this] i show ?thesis by (auto simp: simulate_def sim_run_def)
qed

lemma sim_run_cex:
  assumes "sim_run ts rows" "t < length rows" "is_bad ts (cycle_val (rows ! t))"
  shows "cex ts t (\<lambda>i. cycle_val (take (t + 1) rows ! i))"
  using assms by (auto simp: cex_def run_def sim_run_def)

lemma cegar_rounds_ok:
  assumes wf: "wf_ts P ts" and tr: "traversal_ok tr"
  shows "set keep \<subseteq> set (ts_state ts) \<Longrightarrow> frontier_ok ts fr \<Longrightarrow>
    \<exists>r. cegar_rounds tr ts mx fuel rno fr keep = Some r \<and> cegar_ok ts r"
proof (induction fuel arbitrary: rno fr keep)
  case 0
  then show ?case by (simp add: cegar_ok_def)
next
  case (Suc fuel)
  obtain a where a: "localize ts (set keep) = Some a" "wf_ts P a" "ts_names a = ts_names ts"
    "\<And>k \<rho>. cex ts k \<rho> \<Longrightarrow> cex a k \<rho>"
    using localize_ok [OF wf] by blast
  obtain r e where r: "ic3_solve tr a mx IC3 = Some (r, e)" "ic3_ok a mx r"
    using ic3_correct [OF a(2) tr] by blast
  have replay: "\<exists>r. (do { c \<leftarrow> abs_cex a d;
               (case c of
                  None \<Rightarrow> Some (CE_UNKNOWN rno keep)
                | Some cx \<Rightarrow> do {
                    (bad_at, rows) \<leftarrow> simulate ts cx;
                    (case bad_at of
                       Some t \<Rightarrow> Some (CE_UNSAFE rno keep t (take (t + 1) rows))
                     | None \<Rightarrow> do {
                         (keep, fr) \<leftarrow> refine ts fr keep cx rows;
                         cegar_rounds tr ts mx fuel (rno + 1) fr keep }) }) }) = Some r \<and> cegar_ok ts r" for d
  proof -
    obtain c where c: "abs_cex a d = Some c" "\<forall>cx. c = Some cx \<longrightarrow> list_all (reads_all a) cx"
      using abs_cex_ok [OF a(2)] by blast
    show ?thesis
    proof (cases c)
      case None
      with c show ?thesis by (simp add: cegar_ok_def)
    next
      case (Some cx)
      then have cx: "list_all (reads_all ts) cx" using c(2) a(3) by (simp add: reads_all_def [abs_def])
      obtain b rows where s: "simulate ts cx = Some (b, rows)" "sim_run ts rows" "length rows \<le> length cx"
        "case b of None \<Rightarrow> True | Some t \<Rightarrow> t < length rows \<and> is_bad ts (cycle_val (rows ! t))"
        using simulate_ok [OF wf cx] by blast
      show ?thesis
      proof (cases b)
        case None
        obtain keep' fr' where "refine ts fr keep cx rows = Some (keep', fr')"
          "set keep' \<subseteq> set (ts_state ts)" "frontier_ok ts fr'"
          using refine_ok [OF wf Suc.prems cx s(2,3)] by blast
        with Suc.IH [of keep' fr' "rno + 1"] c(1) s(1) Some None show ?thesis by simp
      next
        case (Some t)
        with c(1) s \<open>c = Some cx\<close> sim_run_cex [OF s(2), of t] show ?thesis by (simp add: cegar_ok_def)
      qed
    qed
  qed
  have safe: "safe ts" if "safe a" using that a(4) by (auto simp: safe_def)
  show ?case
  proof (cases r)
    case (SAFE k iv)
    then have "safe a" using r(2) inductive_invariant_safe by (simp add: ic3_ok_def)
    then show ?thesis using SAFE a(1) r(1) safe Suc.prems(1) by (simp add: cegar_ok_def)
  next
    case (UNKNOWN k)
    then show ?thesis using a(1) r(1) by (simp add: cegar_ok_def)
  next
    case UNSAFE_INIT
    then show ?thesis using a(1) r(1) replay [of "0 + 2"] by simp
  next
    case (UNSAFE k)
    then show ?thesis using a(1) r(1) replay [of "k + 2"] by simp
  qed
qed

lemma cegar_correct:
  assumes "wf_ts P ts" "traversal_ok tr"
  shows "\<exists>r. cegar tr ts max_frames max_rounds = Some r \<and> cegar_ok ts r"
proof -
  obtain b where b: "ts_bad ts = Some b" "b \<in> P" and P: "pool P" using assms(1) by (auto simp: wf_ts_def)
  have fr: "Frontier ts = Some \<lparr>fr_ts = ts, fr_sup = Map.empty, fr_bad_sup = svars b\<rparr>"
    using b support_svars [OF P b(2)] by (simp add: Frontier_def)
  show ?thesis
    using cegar_rounds_ok [OF assms, of "filter (\<lambda>n. n \<in> svars b) (ts_state ts)" "\<lparr>fr_ts = ts, fr_sup = Map.empty, fr_bad_sup = svars b\<rparr>"]
    by (auto simp: cegar_def fr frontier_ok_def)
qed

end
