(* ===== verification/Prove.thy ===== *)
theory Prove
  imports Ic3_Solve Lasso_Proof Interp Cegar
begin

text \<open>
  The driver \<open>prove.py\<close>: the escalation over the engines, the run on a design with its safety property, its
  covers and its response properties, and the verdict of \<open>--check\<close>. A run returns the dictionary of
  verdicts, an association list in insertion order; the printed lines and the labels of \<open>_short\<close> are left
  out. The design is what the reader of SystemVerilog (\<open>frontend.load\<close>) returned.
\<close>

subsection \<open>The escalation\<close>

type_synonym verdicts = "(string \<times> string) list"

fun bmc_verdict :: "bmc_result \<Rightarrow> string" where
  "bmc_verdict (CEX _ _) = ''CEX''"
| "bmc_verdict (SAFE_UP_TO _) = ''SAFE-UP-TO''"

fun kind_verdict :: "kind_result \<Rightarrow> string" where
  "kind_verdict (PROVED _) = ''PROVED''"
| "kind_verdict (KCEX _ _) = ''CEX''"
| "kind_verdict (STALLED _ _) = ''STALLED''"

fun ic3_verdict :: "ic3_result \<Rightarrow> string" where
  "ic3_verdict UNSAFE_INIT = ''UNSAFE''"
| "ic3_verdict (UNSAFE _) = ''UNSAFE''"
| "ic3_verdict (SAFE _ _) = ''SAFE''"
| "ic3_verdict (UNKNOWN _) = ''UNKNOWN''"

fun itp_verdict :: "itp_result \<Rightarrow> string" where
  "itp_verdict ITP_UNSAFE = ''UNSAFE''"
| "itp_verdict (ITP_SAFE _) = ''SAFE''"
| "itp_verdict (ITP_UNKNOWN _) = ''UNKNOWN''"

text \<open>The witness state of a failed one-step query; the loop is that of the trace decoder of \<open>bmc.py\<close>.\<close>

definition decode :: "'a solver_scheme \<Rightarrow> frame \<Rightarrow> trans_system \<Rightarrow> row option" where
  "decode s env ts = decode_row ts (get_name s (fenv env))"

definition try_cdcl :: "trans_system \<Rightarrow> string option" where
  "try_cdcl ts = do {
     (sat, s, env0) \<leftarrow> one_step_inductive ts;
     if sat then do { wit \<leftarrow> decode s env0 ts; Some ''SAT'' } else Some ''UNSAT'' }"

text \<open>\<open>r["cti"][-2] if r.get("cti") else None\<close>\<close>

fun shown_cti :: "kind_result \<Rightarrow> row option option" where
  "shown_cti (STALLED _ (Some c)) = (if c = [] then Some None else map_option Some (py_get c (- 2)))"
| "shown_cti _ = Some None"

definition try_kind :: "trans_system \<Rightarrow> nat \<Rightarrow> string option" where
  "try_kind ts kmax_ind = do { r \<leftarrow> k_induction ts kmax_ind; c \<leftarrow> shown_cti r; Some (kind_verdict r) }"

definition try_ic3 :: "traversal \<Rightarrow> trans_system \<Rightarrow> string option" where
  "try_ic3 tr ts = do { (r, e) \<leftarrow> ic3_solve tr ts 40 IC3; Some (ic3_verdict r) }"

definition try_interp :: "(pclause \<Rightarrow> int list) \<Rightarrow> trans_system \<Rightarrow> nat \<Rightarrow> (string \<times> nat) option" where
  "try_interp ord ts n = do { (r, n) \<leftarrow> itp_mc ts ord 80 12 n; Some (itp_verdict r, n) }"

text \<open>\<open>if name in engines\<close>: the entry the engine's verdict makes in the dictionary.\<close>

definition when_in :: "string list \<Rightarrow> string \<Rightarrow> string option \<Rightarrow> verdicts option" where
  "when_in engines name v = (if name \<in> set engines then map_option (\<lambda>v. [(name, v)]) v else Some [])"

definition escalate ::
  "traversal \<Rightarrow> (pclause \<Rightarrow> int list) \<Rightarrow> trans_system \<Rightarrow> string list \<Rightarrow> nat \<Rightarrow> nat \<Rightarrow> nat \<Rightarrow> (verdicts \<times> nat) option" where
  "escalate tr ord ts engines kmax_bmc kmax_ind n = do {
     v1 \<leftarrow> when_in engines ''cdcl'' (try_cdcl ts);
     v2 \<leftarrow> when_in engines ''bmc'' (map_option bmc_verdict (bmc ts kmax_bmc));
     v3 \<leftarrow> when_in engines ''kind'' (try_kind ts kmax_ind);
     v4 \<leftarrow> when_in engines ''ic3'' (try_ic3 tr ts);
     if ''interp'' \<in> set engines then do {
       (v, n) \<leftarrow> try_interp ord ts n;
       Some (v1 @ v2 @ v3 @ v4 @ [(''interp'', v)], n) }
     else Some (v1 @ v2 @ v3 @ v4, n) }"

subsection \<open>The run on a design\<close>

definition run_safety ::
  "traversal \<Rightarrow> (pclause \<Rightarrow> int list) \<Rightarrow> trans_system \<Rightarrow> string list \<Rightarrow> nat \<Rightarrow> nat \<Rightarrow> nat \<Rightarrow> (verdicts \<times> nat) option" where
  "run_safety tr ord ts engines kmax_bmc kmax_ind n =
     (if ts_bad ts = Some FALSE_s then Some ([], n)
      else case run_state (apply_assumptions ts) n of
        (None, _) \<Rightarrow> None
      | (Some target, n) \<Rightarrow> escalate tr ord target engines kmax_bmc kmax_ind n)"

definition cover_system :: "trans_system \<Rightarrow> sig \<Rightarrow> trans_system" where
  "cover_system ts cv = (TransitionSystem (ts_name ts @ ''+cover''))
     \<lparr>ts_state := ts_state ts, ts_inputs := ts_inputs ts, ts_next := ts_next ts, ts_init := ts_init ts,
      ts_assumptions := ts_assumptions ts, ts_bad := Some cv\<rparr>"

text \<open>Whether each cover was reached; the results are printed only.\<close>

primrec run_covers :: "trans_system \<Rightarrow> nat \<Rightarrow> sig list \<Rightarrow> nat \<Rightarrow> (bool list \<times> nat) option" where
  "run_covers ts kmax_bmc [] n = Some ([], n)"
| "run_covers ts kmax_bmc (cv # cvs) n =
     (case run_state (apply_assumptions (cover_system ts cv)) n of
        (None, _) \<Rightarrow> None
      | (Some t3, n) \<Rightarrow> do {
          r \<leftarrow> bmc t3 kmax_bmc;
          (rs, n) \<leftarrow> run_covers ts kmax_bmc cvs n;
          Some ((bmc_verdict r = ''CEX'') # rs, n) })"

definition live_verdict :: "traversal \<Rightarrow> trans_system \<Rightarrow> nat \<Rightarrow> string option" where
  "live_verdict tr L kmax_bmc = do {
     r \<leftarrow> bmc L kmax_bmc;
     if bmc_verdict r = ''CEX'' then Some ''FAILS''
     else do { v \<leftarrow> try_ic3 tr L; Some (if v = ''SAFE'' then ''HOLDS'' else ''FAILS'') } }"

definition live_name :: "nat \<Rightarrow> string" where
  "live_name i = ''live'' @ show_nat i"

primrec run_lives :: "traversal \<Rightarrow> trans_system \<Rightarrow> nat \<Rightarrow> nat list \<Rightarrow> nat \<Rightarrow> (verdicts \<times> nat) option" where
  "run_lives tr ts kmax_bmc [] n = Some ([], n)"
| "run_lives tr ts kmax_bmc (i # ids) n =
     (case run_state (liveness_to_safety ts (int i)) n of
        (None, _) \<Rightarrow> None
      | (Some L, n) \<Rightarrow> do {
          v \<leftarrow> live_verdict tr L kmax_bmc;
          (vs, n) \<leftarrow> run_lives tr ts kmax_bmc ids n;
          Some ((live_name i, v) # vs, n) })"

definition prove_run ::
  "traversal \<Rightarrow> (pclause \<Rightarrow> int list) \<Rightarrow> trans_system \<Rightarrow> string list \<Rightarrow> nat \<Rightarrow> nat \<Rightarrow> nat \<Rightarrow> (verdicts \<times> nat) option" where
  "prove_run tr ord ts engines kmax_bmc kmax_ind n = do {
     (safety, n) \<leftarrow> run_safety tr ord ts engines kmax_bmc kmax_ind n;
     (covered, n) \<leftarrow> run_covers ts kmax_bmc (ts_covers ts) n;
     (lives, n) \<leftarrow> run_lives tr ts kmax_bmc [0..<length (ts_liveness ts)] n;
     Some (safety @ lives, n) }"

text \<open>The verdict of \<open>--check\<close>.\<close>

definition refuted :: "verdicts \<Rightarrow> bool" where
  "refuted vs \<longleftrightarrow> map_of vs ''bmc'' = Some ''CEX'' \<or> map_of vs ''kind'' = Some ''CEX'' \<or>
     map_of vs ''ic3'' = Some ''UNSAFE'' \<or> map_of vs ''interp'' = Some ''UNSAFE''"

definition check_ok :: "verdicts \<Rightarrow> bool" where
  "check_ok vs =
     (let safety_ok = (map_of vs ''ic3'' = None \<or> map_of vs ''ic3'' = Some ''SAFE'' \<and> \<not> refuted vs);
          live_ok = list_all (\<lambda>(k, v). prefix ''live'' k \<longrightarrow> v = ''HOLDS'') vs
      in safety_ok \<and> live_ok)"

text \<open>The exit status of the other two modes that read a design: bounded checking only, and refinement.\<close>

definition check_bounded :: "trans_system \<Rightarrow> nat \<Rightarrow> bool option" where
  "check_bounded ts depth = map_option (\<lambda>r. bmc_verdict r \<noteq> ''CEX'') (bmc ts depth)"

definition check_cegar :: "traversal \<Rightarrow> trans_system \<Rightarrow> nat \<Rightarrow> bool option" where
  "check_cegar tr ts n =
     (case run_state (apply_assumptions ts) n of
        (None, _) \<Rightarrow> None
      | (Some target, _) \<Rightarrow> do {
          r \<leftarrow> cegar tr target 40 200;
          Some (case r of CE_SAFE _ _ _ _ \<Rightarrow> True | _ \<Rightarrow> False) })"

text \<open>\<open>run_liveness\<close>: the first response property, with the engines that can settle it.\<close>

definition live_engines :: "string list \<Rightarrow> string list" where
  "live_engines engines =
     (let es = filter (\<lambda>e. e \<in> {''bmc'', ''kind'', ''ic3'', ''interp''}) engines
      in if es = [] then [''bmc'', ''ic3''] else es)"

definition run_liveness ::
  "traversal \<Rightarrow> (pclause \<Rightarrow> int list) \<Rightarrow> trans_system \<Rightarrow> string list \<Rightarrow> nat \<Rightarrow> nat \<Rightarrow> nat \<Rightarrow>
     (trans_system \<times> verdicts \<times> nat) option" where
  "run_liveness tr ord ts engines kmax_bmc kmax_ind n =
     (case run_state (liveness_to_safety ts 0) n of
        (None, _) \<Rightarrow> None
      | (Some L, n) \<Rightarrow> do {
          (vs, n) \<leftarrow> escalate tr ord L (live_engines engines) kmax_bmc kmax_ind n;
          let holds = (map_of vs ''ic3'' = Some ''SAFE'');
          let lasso = (map_of vs ''ic3'' = Some ''UNSAFE'' \<or> map_of vs ''bmc'' = Some ''CEX'' \<or>
            map_of vs ''kind'' = Some ''CEX'');
          Some (L, vs @ [(''liveness'', if holds \<and> \<not> lasso then ''HOLDS'' else if lasso then ''FAILS'' else ''UNKNOWN'')], n) })"

subsection \<open>The derived systems can be decoded\<close>

definition readable_names :: "string list \<Rightarrow> bool" where
  "readable_names ns \<longleftrightarrow> traceable ns \<and> no_clash ns"

lemma readable_iff: "readable ts = readable_names (ts_state ts)"
  by (simp add: readable_def readable_names_def)

lemma base_no_bracket: "CHR ''['' \<notin> set (base_name x)"
  unfolding base_name_def by (auto dest: set_takeWhileD)

lemma base_of_prefix: "CHR ''['' \<notin> set b \<Longrightarrow> prefix (b @ ''['') y \<Longrightarrow> base_name y = b"
  unfolding base_name_def prefix_def by (induction b arbitrary: y) auto

lemma base_of_plain: "\<not> is_indexed y \<Longrightarrow> base_name y = y"
  by (auto simp: base_name_def is_indexed_def takeWhile_eq_all_conv)

lemma base_width_append:
  "base_name x \<notin> base_name ` set ms \<Longrightarrow> base_width (ns @ ms) (base_name x) = base_width ns (base_name x) \<and>
     base_width (ms @ ns) (base_name x) = base_width ns (base_name x)"
proof -
  assume d: "base_name x \<notin> base_name ` set ms"
  have "\<not> prefix (base_name x @ ''['') y" if "y \<in> set ms" for y
    using base_of_prefix [OF base_no_bracket, of x y] d that by (metis imageI)
  then have "filter (prefix (base_name x @ ''['')) ms = []" by (simp add: filter_empty_conv)
  then show ?thesis by (simp add: base_width_def)
qed

lemma readable_append:
  assumes "readable_names ns" "readable_names ms" "base_name ` set ns \<inter> base_name ` set ms = {}"
  shows "readable_names (ns @ ms)"
proof -
  have w: "base_width (ns @ ms) (base_name x) = base_width ns (base_name x)" if "x \<in> set ns" for x
    using base_width_append [of x ms ns] assms(3) that by blast
  have w': "base_width (ns @ ms) (base_name x) = base_width ms (base_name x)" if "x \<in> set ms" for x
    using base_width_append [of x ns ms] assms(3) that by blast
  have plain: "base_name y = y" if "y = base_name x" for x y
    using that base_of_plain [of y] base_no_bracket [of x] by (simp add: is_indexed_def)
  have c: "base_name x \<notin> set ms" if "x \<in> set ns" for x using plain [of "base_name x" x] assms(3) that by force
  have c': "base_name x \<notin> set ns" if "x \<in> set ms" for x using plain [of "base_name x" x] assms(3) that by force
  show ?thesis
    using assms(1,2) w w' c c' unfolding readable_names_def traceable_def no_clash_def by auto
qed

lemma readable_plain: "list_all (\<lambda>x. \<not> is_indexed x) ns \<Longrightarrow> readable_names ns"
  by (auto simp: readable_names_def traceable_def no_clash_def list_all_iff)

lemma base_shadow [simp]: "base_name (shadow x) = shadow (base_name x)" "is_indexed (shadow x) = is_indexed x"
  by (simp_all add: shadow_def base_name_def is_indexed_def)

lemma width_shadow: "base_width (map shadow ns) (shadow b) = base_width ns b"
proof -
  have "prefix (shadow b @ ''['') (shadow y) = prefix (b @ ''['') y" for y by (simp add: shadow_def)
  then have "filter (prefix (shadow b @ ''['')) (map shadow ns) = map shadow (filter (prefix (b @ ''['')) ns)"
    by (simp add: filter_map comp_def)
  then show ?thesis by (simp add: base_width_def)
qed

lemma readable_shadows: "readable_names ns \<Longrightarrow> readable_names (map shadow ns)"
proof -
  assume r: "readable_names ns"
  have b: "bit_name (shadow y) i = shadow (bit_name y i)" for y i by (simp add: bit_name_def shadow_def)
  show ?thesis
    using r unfolding readable_names_def traceable_def no_clash_def by (auto simp: width_shadow b)
qed

lemma reserved_base: "\<not> prefix ''__'' x \<Longrightarrow> \<not> prefix ''__'' (base_name x)"
  by (metis base_name_def prefix_order.trans takeWhile_is_prefix)

text \<open>The names of the state bits of the derived systems.\<close>

lemma state_add_inputs: "run_state (add_inputs xs L) n = (L', n') \<Longrightarrow> ts_state L' = ts_state L"
  by (induction xs arbitrary: L n) (auto simp: add_input_def split: prod.splits)

lemma state_carry: "carry_state ts ns L = Some L' \<Longrightarrow> ts_state L' = ts_state L @ ns"
  by (induction ns arbitrary: L) (auto split: bind_splits)

lemma state_shadows: "run_state (add_shadows saved ws L) n = (L', n') \<Longrightarrow> ts_state L' = ts_state L @ map shadow ws"
  by (induction ws arbitrary: L n) (auto split: prod.splits)

lemma state_guarded:
  assumes "run_state (apply_assumptions ts) n = (Some L, n')"
  shows "ts_state L = ts_state ts @ (if ts_assumptions ts = [] then [] else [''__assm_ok''])"
proof (cases "ts_assumptions ts = []")
  case False
  obtain L0 n0 where 0: "run_state (add_inputs (ts_inputs ts) (TransitionSystem (ts_name ts))) n = (L0, n0)" by fastforce
  have "ts_state L0 = []" using state_add_inputs [OF 0] by (simp add: TransitionSystem_def)
  then show ?thesis
    using assms False 0 state_carry [of ts "ts_state ts" L0]
    by (auto simp: apply_assumptions_def Let_def split: prod.splits option.splits)
qed (use assms in \<open>auto simp: apply_assumptions_def\<close>)

lemma state_l2s:
  assumes "run_state (liveness_to_safety ts idx) n = (Some L, n')"
  shows "ts_state L = ts_state ts @ [''__pending'', ''__saved''] @ map shadow (ts_state ts @ [''__pending'']) @
    [''__triggered''] @ (if ts_assumptions ts = [] then [] else [''__assm_ok''])"
proof -
  let ?N = "TransitionSystem (ts_name ts @ ''_L2S'')"
  obtain L0 n0 where 0: "run_state (add_inputs (ts_inputs ts) ?N) n = (L0, n0)" by fastforce
  have s0: "ts_state L0 = []" using state_add_inputs [OF 0] by (simp add: TransitionSystem_def)
  show ?thesis
    using assms 0 s0
    by (auto simp: liveness_to_safety_def l2s_monitor_def l2s_latches_def l2s_obligation_def l2s_trigger_def l2s_guard_def
        add_input_def Let_def split: prod.splits option.splits if_splits dest!: state_carry state_shadows)
qed

lemma readable_append_reserved:
  assumes "readable_names (ts_state ts)" "unreserved ts" "readable_names ms" "list_all (\<lambda>y. prefix ''__'' (base_name y)) ms"
  shows "readable_names (ts_state ts @ ms)"
proof (rule readable_append [OF assms(1,3)])
  have "\<not> prefix ''__'' (base_name x)" if "x \<in> set (ts_state ts)" for x
    using assms(2) that by (intro reserved_base) (auto simp: unreserved_def ts_names_def)
  then have "base_name ` set (ts_state ts) \<subseteq> {b. \<not> prefix ''__'' b}" by blast
  moreover have "base_name ` set ms \<subseteq> {b. prefix ''__'' b}" using assms(4) by (auto simp: list_all_iff)
  ultimately show "base_name ` set (ts_state ts) \<inter> base_name ` set ms = {}" by blast
qed

lemma base_reserved [simp]: "base_name ''__pending'' = ''__pending''" "base_name ''__saved'' = ''__saved''"
  "base_name ''__triggered'' = ''__triggered''" "base_name ''__assm_ok'' = ''__assm_ok''" "prefix ''__'' (shadow x)"
  by (simp_all add: base_name_def shadow_def)

lemma readable_guarded:
  assumes "readable ts" "unreserved ts" "run_state (apply_assumptions ts) n = (Some L, n')"
  shows "readable L"
proof -
  have "readable_names (ts_state ts @ [''__assm_ok''])"
    by (rule readable_append_reserved [OF _ assms(2) readable_plain])
      (use assms(1) in \<open>simp_all add: readable_iff is_indexed_def\<close>)
  then show ?thesis using assms(1) by (auto simp: readable_iff state_guarded [OF assms(3)])
qed

lemma readable_l2s:
  assumes "readable ts" "unreserved ts" "run_state (liveness_to_safety ts idx) n = (Some L, n')"
  shows "readable L"
proof -
  let ?ns = "ts_state ts" and ?aok = "if ts_assumptions ts = [] then [] else [''__assm_ok'']"
  have rd: "readable_names ?ns" using assms(1) by (simp add: readable_iff)
  have "readable_names (?ns @ [''__pending''])"
    by (rule readable_append_reserved [OF rd assms(2) readable_plain]) (simp_all add: is_indexed_def)
  note 2 = readable_shadows [OF this]
  have 3: "readable_names ([''__triggered''] @ ?aok)" by (rule readable_plain) (simp add: is_indexed_def)
  have 4: "readable_names [''__pending'', ''__saved'']" by (rule readable_plain) (simp add: is_indexed_def)
  have 5: "readable_names (map shadow (?ns @ [''__pending'']) @ [''__triggered''] @ ?aok)"
    by (rule readable_append [OF 2 3]) auto
  have 6: "readable_names ([''__pending'', ''__saved''] @ map shadow (?ns @ [''__pending'']) @ [''__triggered''] @ ?aok)"
    by (rule readable_append [OF 4 5]) auto
  have "readable_names (?ns @ [''__pending'', ''__saved''] @ map shadow (?ns @ [''__pending'']) @ [''__triggered''] @ ?aok)"
    by (rule readable_append_reserved [OF rd assms(2) 6]) (simp add: list_all_iff)
  then show ?thesis by (simp add: readable_iff state_l2s [OF assms(3)])
qed

subsection \<open>The engines' verdicts\<close>

lemma py_get_last_but_one: "2 \<le> length c \<Longrightarrow> py_get c (- 2) \<noteq> None"
  by (simp add: py_get_def)

lemma one_step_frame:
  "one_step_inductive ts = Some (sat, s, env0) \<Longrightarrow> fenv env0 = fenv (fst (fresh_frame ts Solver))"
  by (auto simp: one_step_inductive_def bad_lit_def next_env_def Let_def split: bind_splits prod.splits)

lemma try_cdcl_ok: "wf_ts P ts \<Longrightarrow> readable ts \<Longrightarrow> \<exists>v. try_cdcl ts = Some v"
proof -
  assume wf: "wf_ts P ts" and rd: "readable ts"
  obtain sat s env0 where o: "one_step_inductive ts = Some (sat, s, env0)" using one_step_inductive_ok [OF wf] by blast
  obtain f s1 where f: "fresh_frame ts Solver = (f, s1)" "chain P ts s1 [f] (\<lambda>_. True)" "pos [f]"
    using chain_fresh' [OF wf chain_start] by (auto simp: pos_def)
  have e: "fenv env0 = fenv f" using one_step_frame [OF o] f(1) by simp
  have "decode s f ts = Some (row_of ts (fval f (\<lambda>v. get_value v s)))"
    unfolding decode_def decode_row_def row_of_def
  proof (rule trace_row_val)
    have "get_name s (fenv f) x = Some (fval f (\<lambda>v. get_value v s) x)" if x: "x \<in> set (ts_state ts)" for x
    proof (rule get_name_eval)
      show "env_ok (n_vars s1) (fenv f) (ts_names ts)" using f(2) by (simp add: chain_def frame_ok_def)
    qed (use f(3) x in \<open>auto simp: pos_def ts_names_def\<close>)
    then show "\<forall>x \<in> set (ts_state ts). get_name s (fenv f) x = Some (fval f (\<lambda>v. get_value v s) x)" by blast
  qed (use rd in \<open>auto simp: readable_def\<close>)
  then have "decode s env0 ts \<noteq> None" by (simp add: decode_def e)
  then show ?thesis using o by (auto simp: try_cdcl_def)
qed

lemma try_bmc_ok: "wf_ts P ts \<Longrightarrow> readable ts \<Longrightarrow>
  \<exists>r. bmc ts kmax = Some r \<and> (bmc_verdict r = ''CEX'' \<longrightarrow> \<not> safe ts)"
  using bmc_correct [of P ts kmax] by (fastforce simp: bmc_ok_def safe_def split: bmc_result.splits)

lemma try_kind_ok:
  assumes "wf_ts P ts" "readable ts"
  shows "\<exists>v. try_kind ts kmax = Some v \<and> (v = ''CEX'' \<longrightarrow> \<not> safe ts)"
proof -
  obtain r where r: "k_induction ts kmax = Some r" "kind_ok ts kmax r" using k_induction_correct [OF assms] by blast
  have "shown_cti r \<noteq> None"
  proof (cases r)
    case (STALLED m c)
    then show ?thesis
      using r(2) py_get_last_but_one [of "the c"] by (cases c) (auto simp: kind_ok_def split: if_splits simp del: upt_Suc)
  qed simp_all
  moreover have "kind_verdict r = ''CEX'' \<longrightarrow> \<not> safe ts"
    using r(2) by (cases r) (auto simp: kind_ok_def safe_def)
  ultimately show ?thesis using r(1) by (auto simp: try_kind_def)
qed

lemma try_ic3_ok:
  assumes "wf_ts P ts" "traversal_ok tr"
  shows "\<exists>v. try_ic3 tr ts = Some v \<and> (v = ''SAFE'' \<longrightarrow> safe ts) \<and> (v = ''UNSAFE'' \<longrightarrow> \<not> safe ts)"
proof -
  obtain r e where r: "ic3_solve tr ts 40 IC3 = Some (r, e)" "ic3_ok ts 40 r" using ic3_correct [OF assms] by blast
  then show ?thesis
    by (cases r) (auto simp: try_ic3_def ic3_ok_def safe_def dest: inductive_invariant_safe)
qed

lemma try_interp_ok:
  assumes "wf_ts P ts" "readable ts" "ord_ok ord" "pool_ok n P"
  shows "\<exists>v n' P'. try_interp ord ts n = Some (v, n') \<and> pool_ok n' P' \<and> P \<subseteq> P' \<and> (v = ''UNSAFE'' \<longrightarrow> \<not> safe ts)"
proof -
  obtain r n' P' where r: "itp_mc ts ord 80 12 n = Some (r, n')" "pool_ok n' P'" "P \<subseteq> P'"
    "r = ITP_UNSAFE \<Longrightarrow> \<exists>k \<rho>. cex ts k \<rho>"
    using itp_mc_ok [OF assms, of 80 12] by fastforce
  have "itp_verdict r = ''UNSAFE'' \<longrightarrow> \<not> safe ts" using r(4) by (cases r) (auto simp: safe_def)
  then show ?thesis using r(1-3) by (auto simp: try_interp_def)
qed

lemma when_in_Some: "when_in engines name (Some x) = Some (if name \<in> set engines then [(name, x)] else [])"
  by (simp add: when_in_def)

text \<open>What the dictionary says about the system: entries for the chosen engines, none of them wrong.\<close>

definition sound_verdicts :: "trans_system \<Rightarrow> string list \<Rightarrow> verdicts \<Rightarrow> bool" where
  "sound_verdicts L engines vs \<longleftrightarrow> (map_of vs ''ic3'' = None \<longleftrightarrow> ''ic3'' \<notin> set engines) \<and>
     (map_of vs ''ic3'' = Some ''SAFE'' \<longrightarrow> safe L) \<and> (refuted vs \<longrightarrow> \<not> safe L) \<and>
     list_all (\<lambda>(k, v). \<not> prefix ''live'' k) vs"

lemma sound_entries:
  assumes "v2 = ''CEX'' \<longrightarrow> \<not> safe L" "v3 = ''CEX'' \<longrightarrow> \<not> safe L" "v4 = ''SAFE'' \<longrightarrow> safe L"
    "v4 = ''UNSAFE'' \<longrightarrow> \<not> safe L" "v5 = ''UNSAFE'' \<longrightarrow> \<not> safe L"
  shows "sound_verdicts L engines
    ((if ''cdcl'' \<in> set engines then [(''cdcl'', v1)] else []) @ (if ''bmc'' \<in> set engines then [(''bmc'', v2)] else []) @
     (if ''kind'' \<in> set engines then [(''kind'', v3)] else []) @ (if ''ic3'' \<in> set engines then [(''ic3'', v4)] else []) @
     (if ''interp'' \<in> set engines then [(''interp'', v5)] else []))"
  using assms by (simp add: sound_verdicts_def refuted_def map_add_def split: option.splits)

lemma escalate_ok:
  assumes "wf_ts P ts" "readable ts" "traversal_ok tr" "ord_ok ord" "pool_ok n P"
  shows "\<exists>vs n' P'. escalate tr ord ts engines kb ki n = Some (vs, n') \<and> pool_ok n' P' \<and> P \<subseteq> P' \<and> sound_verdicts ts engines vs"
proof -
  obtain v1 where 1: "try_cdcl ts = Some v1" using try_cdcl_ok [OF assms(1,2)] by blast
  obtain r where 2: "bmc ts kb = Some r" "bmc_verdict r = ''CEX'' \<longrightarrow> \<not> safe ts" using try_bmc_ok [OF assms(1,2)] by blast
  obtain v3 where 3: "try_kind ts ki = Some v3" "v3 = ''CEX'' \<longrightarrow> \<not> safe ts" using try_kind_ok [OF assms(1,2)] by blast
  obtain v4 where 4: "try_ic3 tr ts = Some v4" "v4 = ''SAFE'' \<longrightarrow> safe ts" "v4 = ''UNSAFE'' \<longrightarrow> \<not> safe ts"
    using try_ic3_ok [OF assms(1,3)] by blast
  obtain v5 n' P' where 5: "try_interp ord ts n = Some (v5, n')" "pool_ok n' P'" "P \<subseteq> P'" "v5 = ''UNSAFE'' \<longrightarrow> \<not> safe ts"
    using try_interp_ok [OF assms(1,2,4,5)] by blast
  note s = sound_entries [OF 2(2) 3(2) 4(2,3) 5(4), of engines v1]
  show ?thesis
  proof (cases "''interp'' \<in> set engines")
    case True
    with s 5(2,3) show ?thesis unfolding escalate_def 1 2(1) 3(1) 4(1) 5(1) option.map(2) when_in_Some by simp blast
  next
    case False
    with s assms(5) show ?thesis unfolding escalate_def 1 2(1) 3(1) 4(1) 5(1) option.map(2) when_in_Some by simp blast
  qed
qed

subsection \<open>The run is right\<close>

definition violable :: "trans_system \<Rightarrow> bool" where
  "violable ts \<longleftrightarrow> (\<exists>k \<rho>. cex ts k \<rho> \<and> (\<forall>i \<le> k. assumed ts (\<rho> i)))"

definition covers_ok :: "sig set \<Rightarrow> trans_system \<Rightarrow> bool" where
  "covers_ok P ts \<longleftrightarrow> (\<forall>c \<in> set (ts_covers ts). c \<in> P \<and> svars c \<subseteq> ts_names ts)"

definition responses_ok :: "sig set \<Rightarrow> trans_system \<Rightarrow> bool" where
  "responses_ok P ts \<longleftrightarrow> (\<forall>(a, b) \<in> set (ts_liveness ts). a \<in> P \<and> b \<in> P \<and> svars a \<union> svars b \<subseteq> ts_names ts)"

text \<open>A design that the driver can work on, over the nodes \<open>P\<close>.\<close>

definition design_ok :: "sig set \<Rightarrow> trans_system \<Rightarrow> bool" where
  "design_ok P ts \<longleftrightarrow> wf_ts P ts \<and> readable ts \<and> assumptions_ok P ts \<and> unreserved ts \<and> covers_ok P ts \<and> responses_ok P ts"

lemma design_ok_mono:
  assumes "design_ok P ts" "P \<subseteq> P'" "pool P'"
  shows "design_ok P' ts"
proof -
  have "wf_ts P' ts" using assms unfolding design_ok_def wf_ts_def by blast
  moreover have "assumptions_ok P' ts" using assms(1,2) unfolding design_ok_def assumptions_ok_def by blast
  moreover have "covers_ok P' ts" using assms(1,2) unfolding design_ok_def covers_ok_def by blast
  moreover have "responses_ok P' ts" using assms(1,2) unfolding design_ok_def responses_ok_def by blast
  ultimately show ?thesis using assms(1) by (simp add: design_ok_def)
qed

lemma not_assm_ok: "unreserved ts \<Longrightarrow> ''__assm_ok'' \<notin> ts_names ts"
  by (auto simp: unreserved_def)

lemma guarded_ok:
  assumes "wf_ts P ts" "readable ts" "assumptions_ok P ts" "unreserved ts" "pool_ok n P"
  obtains L n' P' where "run_state (apply_assumptions ts) n = (Some L, n')" "pool_ok n' P'" "P \<subseteq> P'" "wf_ts P' L" "readable L"
    "safe L \<longleftrightarrow> \<not> violable ts"
proof -
  obtain L n' P' where L: "run_state (apply_assumptions ts) n = (Some L, n')" "pool_ok n' P'" "P \<subseteq> P'" "wf_ts P' L"
    "\<And>k. (\<exists>\<rho>. cex L k \<rho>) \<longleftrightarrow> (\<exists>\<rho>. cex ts k \<rho> \<and> (\<forall>i \<le> k. assumed ts (\<rho> i)))"
    by (rule apply_assumptions_ok [OF assms(1,3) not_assm_ok [OF assms(4)] assms(5)]) (rule that)
  have sf: "safe L \<longleftrightarrow> \<not> violable ts" using L(5) unfolding safe_def violable_def by blast
  show ?thesis by (rule that [OF L(1-4) readable_guarded [OF assms(2,4) L(1)] sf])
qed

text \<open>What the safety part of the dictionary means for the design.\<close>

definition safety_sound :: "trans_system \<Rightarrow> string list \<Rightarrow> verdicts \<Rightarrow> bool" where
  "safety_sound ts engines vs \<longleftrightarrow> (refuted vs \<longrightarrow> violable ts) \<and> (map_of vs ''ic3'' = Some ''SAFE'' \<longrightarrow> \<not> violable ts) \<and>
     (''ic3'' \<in> set engines \<longrightarrow> map_of vs ''ic3'' = None \<longrightarrow> \<not> violable ts) \<and> list_all (\<lambda>(k, v). \<not> prefix ''live'' k) vs"

lemma never_bad: "ts_bad ts = Some FALSE_s \<Longrightarrow> \<not> violable ts"
  by (simp add: violable_def cex_def is_bad_def)

lemma run_safety_ok:
  assumes "design_ok P ts" "traversal_ok tr" "ord_ok ord" "pool_ok n P"
  shows "\<exists>vs n' P'. run_safety tr ord ts engines kb ki n = Some (vs, n') \<and> pool_ok n' P' \<and> P \<subseteq> P' \<and>
    safety_sound ts engines vs"
proof (cases "ts_bad ts = Some FALSE_s")
  case True
  then have "run_safety tr ord ts engines kb ki n = Some ([], n)" "safety_sound ts engines []"
    using never_bad by (simp_all add: run_safety_def safety_sound_def refuted_def)
  then show ?thesis using assms(4) by blast
next
  case False
  have d: "wf_ts P ts" "readable ts" "assumptions_ok P ts" "unreserved ts" using assms(1) by (simp_all add: design_ok_def)
  obtain L n1 P1 where L: "run_state (apply_assumptions ts) n = (Some L, n1)" "pool_ok n1 P1" "P \<subseteq> P1" "wf_ts P1 L"
    "readable L" "safe L \<longleftrightarrow> \<not> violable ts" by (rule guarded_ok [OF d assms(4)])
  obtain vs n' P' where e: "escalate tr ord L engines kb ki n1 = Some (vs, n')" "pool_ok n' P'" "P1 \<subseteq> P'"
    "sound_verdicts L engines vs" using escalate_ok [OF L(4,5) assms(2,3) L(2)] by blast
  have "run_safety tr ord ts engines kb ki n = Some (vs, n')" using False L(1) e(1) by (simp add: run_safety_def)
  moreover have "safety_sound ts engines vs" using e(4) L(6) by (simp add: safety_sound_def sound_verdicts_def)
  ultimately show ?thesis using e(2,3) L(3) by blast
qed

text \<open>The covers only allocate nodes; every one is searched for.\<close>

lemma cover_names [simp]: "ts_names (cover_system ts c) = ts_names ts" "ts_state (cover_system ts c) = ts_state ts"
  "ts_assumptions (cover_system ts c) = ts_assumptions ts"
  by (simp_all add: cover_system_def ts_names_def TransitionSystem_def)

lemma cover_wf:
  assumes "wf_ts P ts" "c \<in> P" "svars c \<subseteq> ts_names ts"
  shows "wf_ts P (cover_system ts c)"
  using assms unfolding wf_ts_def cover_names by (simp add: cover_system_def TransitionSystem_def)

lemma run_covers_ok:
  assumes "design_ok P ts" "pool_ok n P" "set cvs \<subseteq> set (ts_covers ts)"
  shows "\<exists>rs n' P'. run_covers ts kb cvs n = Some (rs, n') \<and> pool_ok n' P' \<and> P \<subseteq> P'"
  using assms
proof (induction cvs arbitrary: n P)
  case Nil
  then show ?case by auto
next
  case (Cons c cvs)
  let ?C = "cover_system ts c"
  have d: "wf_ts P ts" "readable ts" "assumptions_ok P ts" "unreserved ts" and c: "c \<in> P" "svars c \<subseteq> ts_names ts"
    using Cons.prems by (auto simp: design_ok_def covers_ok_def)
  have C: "readable ?C" "assumptions_ok P ?C" "unreserved ?C"
    using d by (simp_all add: readable_def assumptions_ok_def unreserved_def)
  obtain L n1 P1 where L: "run_state (apply_assumptions ?C) n = (Some L, n1)" "pool_ok n1 P1" "P \<subseteq> P1" "wf_ts P1 L"
    "readable L" by (rule guarded_ok [OF cover_wf [OF d(1) c] C Cons.prems(2)])
  obtain r where r: "bmc L kb = Some r" using try_bmc_ok [OF L(4,5)] by blast
  have "design_ok P1 ts" using design_ok_mono [OF Cons.prems(1) L(3)] L(2) by (simp add: pool_ok_def)
  from Cons.IH [OF this L(2)] Cons.prems(3) obtain rs n' P' where
    "run_covers ts kb cvs n1 = Some (rs, n')" "pool_ok n' P'" "P1 \<subseteq> P'" by auto
  then show ?case using L(1,3) r by auto
qed

subsection \<open>The response properties\<close>

lemma live_verdict_ok:
  assumes "wf_ts P L" "readable L" "traversal_ok tr"
  shows "\<exists>v. live_verdict tr L kb = Some v \<and> (v = ''HOLDS'' \<longrightarrow> safe L)"
proof -
  obtain r where r: "bmc L kb = Some r" using try_bmc_ok [OF assms(1,2)] by blast
  obtain v where v: "try_ic3 tr L = Some v" "v = ''SAFE'' \<longrightarrow> safe L" using try_ic3_ok [OF assms(1,3)] by blast
  show ?thesis using r v by (simp add: live_verdict_def)
qed

definition met :: "trans_system \<Rightarrow> nat \<Rightarrow> bool" where
  "met ts i \<longleftrightarrow> (\<forall>\<rho>. \<not> starves ts (fst (ts_liveness ts ! i)) (snd (ts_liveness ts ! i)) \<rho>)"

lemma run_lives_ok:
  assumes "design_ok P ts" "traversal_ok tr" "pool_ok n P" "set ids \<subseteq> {..<length (ts_liveness ts)}"
  shows "\<exists>vs n'. run_lives tr ts kb ids n = Some (vs, n') \<and> list_all (\<lambda>(k, v). prefix ''live'' k) vs \<and>
    (list_all (\<lambda>(k, v). v = ''HOLDS'') vs \<longrightarrow> list_all (met ts) ids)"
  using assms(1,3,4)
proof (induction ids arbitrary: n P)
  case Nil
  then show ?case by auto
next
  case (Cons i ids)
  have d: "wf_ts P ts" "readable ts" "assumptions_ok P ts" "unreserved ts" "responses_ok P ts"
    using Cons.prems(1) by (auto simp: design_ok_def)
  obtain a b where ab: "ts_liveness ts ! i = (a, b)" by fastforce
  have i: "i < length (ts_liveness ts)" using Cons.prems(3) by simp
  then have "(a, b) \<in> set (ts_liveness ts)" using ab by (metis nth_mem)
  then have m: "a \<in> P" "b \<in> P" "svars a \<union> svars b \<subseteq> ts_names ts" using d(5) by (auto simp: responses_ok_def)
  have g: "py_get (ts_liveness ts) (int i) = Some (a, b)" using i ab by (simp add: py_get_def)
  obtain L n1 P1 where L: "run_state (liveness_to_safety ts (int i)) n = (Some L, n1)" "pool_ok n1 P1" "P \<subseteq> P1" "wf_ts P1 L"
    "(\<exists>k \<sigma>. cex L k \<sigma>) \<longleftrightarrow> (\<exists>\<rho>. starves ts a b \<rho>)"
    using liveness_to_safety_ok [OF d(1,3,4) Cons.prems(2) g m] by blast
  obtain v where v: "live_verdict tr L kb = Some v" "v = ''HOLDS'' \<longrightarrow> safe L"
    using live_verdict_ok [OF L(4) readable_l2s [OF d(2,4) L(1)] assms(2)] by blast
  have h: "v = ''HOLDS'' \<longrightarrow> met ts i" using v(2) L(5) ab by (auto simp: met_def safe_def)
  have "design_ok P1 ts" using design_ok_mono [OF Cons.prems(1) L(3)] L(2) by (simp add: pool_ok_def)
  from Cons.IH [OF this L(2)] Cons.prems(3) obtain vs n' where vs: "run_lives tr ts kb ids n1 = Some (vs, n')"
    "list_all (\<lambda>(k, v). prefix ''live'' k) vs" "list_all (\<lambda>(k, v). v = ''HOLDS'') vs \<longrightarrow> list_all (met ts) ids" by auto
  show ?case using L(1) v(1) vs h by (simp add: live_name_def)
qed

subsection \<open>The verdict of the check\<close>

lemma map_of_live: "list_all (\<lambda>(k, v). prefix ''live'' k) ls \<Longrightarrow> \<not> prefix ''live'' x \<Longrightarrow> map_of ls x = None"
  by (induction ls) auto

lemma check_parts:
  assumes "list_all (\<lambda>(k, v). prefix ''live'' k) ls"
  shows "map_of (vs @ ls) ''ic3'' = map_of vs ''ic3''" "refuted (vs @ ls) = refuted vs"
    "check_ok (vs @ ls) \<Longrightarrow> list_all (\<lambda>(k, v). v = ''HOLDS'') ls"
proof -
  have *: "map_of ls ''bmc'' = None" "map_of ls ''kind'' = None" "map_of ls ''ic3'' = None" "map_of ls ''interp'' = None"
    by (simp_all add: map_of_live [OF assms])
  then show "map_of (vs @ ls) ''ic3'' = map_of vs ''ic3''" "refuted (vs @ ls) = refuted vs"
    by (simp_all add: refuted_def map_add_def split: option.splits)
  show "list_all (\<lambda>(k, v). v = ''HOLDS'') ls" if "check_ok (vs @ ls)"
  proof -
    have "list_all (\<lambda>(k, v). prefix ''live'' k \<longrightarrow> v = ''HOLDS'') ls" using that by (simp add: check_ok_def Let_def)
    with assms show ?thesis by (induction ls) auto
  qed
qed

lemma check_correct:
  assumes "design_ok P ts" "traversal_ok tr" "ord_ok ord" "pool_ok n P"
  shows "\<exists>vs n'. prove_run tr ord ts engines kb ki n = Some (vs, n') \<and> (refuted vs \<longrightarrow> violable ts) \<and>
    (check_ok vs \<longrightarrow> list_all (met ts) [0..<length (ts_liveness ts)] \<and> (''ic3'' \<in> set engines \<longrightarrow> \<not> violable ts))"
proof -
  obtain vs n1 P1 where s: "run_safety tr ord ts engines kb ki n = Some (vs, n1)" "pool_ok n1 P1" "P \<subseteq> P1"
    "safety_sound ts engines vs" using run_safety_ok [OF assms] by blast
  have d1: "design_ok P1 ts" using design_ok_mono [OF assms(1) s(3)] s(2) by (simp add: pool_ok_def)
  obtain rs n2 P2 where c: "run_covers ts kb (ts_covers ts) n1 = Some (rs, n2)" "pool_ok n2 P2" "P1 \<subseteq> P2"
    using run_covers_ok [OF d1 s(2) order_refl] by blast
  have d2: "design_ok P2 ts" using design_ok_mono [OF d1 c(3)] c(2) by (simp add: pool_ok_def)
  obtain ls n' where l: "run_lives tr ts kb [0..<length (ts_liveness ts)] n2 = Some (ls, n')"
    "list_all (\<lambda>(k, v). prefix ''live'' k) ls"
    "list_all (\<lambda>(k, v). v = ''HOLDS'') ls \<longrightarrow> list_all (met ts) [0..<length (ts_liveness ts)]"
    using run_lives_ok [OF d2 assms(2) c(2), of "[0..<length (ts_liveness ts)]" kb] by (metis atLeast0LessThan order_refl set_upt)
  have "prove_run tr ord ts engines kb ki n = Some (vs @ ls, n')" using s(1) c(1) l(1) by (simp add: prove_run_def)
  moreover have "refuted (vs @ ls) \<longrightarrow> violable ts" using s(4) by (simp add: check_parts(2) [OF l(2)] safety_sound_def)
  moreover have "\<not> violable ts" if "check_ok (vs @ ls)" "''ic3'' \<in> set engines"
    using that s(4) by (auto simp: check_ok_def Let_def check_parts(1) [OF l(2)] safety_sound_def)
  moreover have "list_all (met ts) [0..<length (ts_liveness ts)]" if "check_ok (vs @ ls)"
    using check_parts(3) [OF l(2) that] l(3) by blast
  ultimately show ?thesis by blast
qed

text \<open>Without \<open>ic3\<close> among the engines the check looks at the response properties only: a counterexample that
  bounded model checking reported does not fail it.\<close>

lemma check_needs_ic3: "check_ok [(''bmc'', ''CEX'')] \<and> refuted [(''bmc'', ''CEX'')]"
  by (simp add: check_ok_def refuted_def)

subsection \<open>The other modes\<close>

lemma check_cegar_correct:
  assumes "design_ok P ts" "traversal_ok tr" "pool_ok n P"
  shows "\<exists>ok. check_cegar tr ts n = Some ok \<and> (ok \<longrightarrow> \<not> violable ts)"
proof -
  have d: "wf_ts P ts" "readable ts" "assumptions_ok P ts" "unreserved ts" using assms(1) by (simp_all add: design_ok_def)
  obtain L n1 P1 where L: "run_state (apply_assumptions ts) n = (Some L, n1)" "pool_ok n1 P1" "P \<subseteq> P1" "wf_ts P1 L"
    "readable L" "safe L \<longleftrightarrow> \<not> violable ts" by (rule guarded_ok [OF d assms(3)])
  obtain r where "cegar tr L 40 200 = Some r" "cegar_ok L r" using cegar_correct [OF L(4) assms(2)] by blast
  then show ?thesis using L(1,6) by (cases r) (auto simp: check_cegar_def cegar_ok_def)
qed

lemma check_bounded_correct:
  assumes "design_ok P ts"
  shows "\<exists>ok. check_bounded ts depth = Some ok \<and> (ok \<longleftrightarrow> (\<forall>j \<le> depth. \<forall>\<rho>. \<not> cex ts j \<rho>))"
proof -
  obtain r where r: "bmc ts depth = Some r" "bmc_ok ts depth r" using bmc_correct assms unfolding design_ok_def by blast
  then show ?thesis by (cases r) (auto simp: check_bounded_def bmc_ok_def)
qed

end
