(* ===== verification/Smt_Term.thy ===== *)
theory Smt_Term
  imports Bitvec "HOL-Library.AList" "HOL-Library.Multiset" "HOL-Library.List_Lexorder" "HOL-Library.Char_ord"
begin

text \<open>
  The term layer of \<open>smt.py\<close>: class \<open>Term\<close> with its constructors, the display of a term, and the
  word-level theory solver \<open>normal_form\<close>. A Python dictionary that is iterated is an association list in
  insertion order. The constructors carry exactly the fields the source sets: \<open>kind\<close> is the constructor,
  \<open>args\<close> the subterms, \<open>name\<close> and \<open>val\<close> the rest. Strings are compared by code point.
\<close>

subsection \<open>Terms\<close>

datatype bitop = AND_k | OR_k | XOR_k
datatype cmpop = EQ_k | NE_k | ULT_k | ULE_k | UGT_k | UGE_k
datatype shop = SHL_k | LSHR_k

datatype trm =
    TVar string
  | TConst int
  | TAdd "trm list"
  | TSub trm trm
  | TNeg trm
  | TMul trm trm
  | TSelect trm trm
  | TStore trm trm trm
  | TIte trm trm trm
  | TBit bitop trm trm
  | TNot trm
  | TCmp cmpop trm trm
  | TExtract trm nat nat
  | TConcat "trm list"
  | TZext trm nat
  | TShift shop trm trm

fun kind :: "trm \<Rightarrow> string" where
  "kind (TVar _) = ''var''"
| "kind (TConst _) = ''const''"
| "kind (TAdd _) = ''add''"
| "kind (TSub _ _) = ''sub''"
| "kind (TNeg _) = ''neg''"
| "kind (TMul _ _) = ''mul''"
| "kind (TSelect _ _) = ''select''"
| "kind (TStore _ _ _) = ''store''"
| "kind (TIte _ _ _) = ''ite''"
| "kind (TBit b _ _) = (case b of AND_k \<Rightarrow> ''and'' | OR_k \<Rightarrow> ''or'' | XOR_k \<Rightarrow> ''xor'')"
| "kind (TNot _) = ''not''"
| "kind (TCmp c _ _) = (case c of EQ_k \<Rightarrow> ''eq'' | NE_k \<Rightarrow> ''ne'' | ULT_k \<Rightarrow> ''ult'' | ULE_k \<Rightarrow> ''ule''
     | UGT_k \<Rightarrow> ''ugt'' | UGE_k \<Rightarrow> ''uge'')"
| "kind (TExtract _ _ _) = ''extract''"
| "kind (TConcat _) = ''concat''"
| "kind (TZext _ _) = ''zext''"
| "kind (TShift s _ _) = (case s of SHL_k \<Rightarrow> ''shl'' | LSHR_k \<Rightarrow> ''lshr'')"

fun targs :: "trm \<Rightarrow> trm list" where
  "targs (TVar _) = []"
| "targs (TConst _) = []"
| "targs (TAdd ts) = ts"
| "targs (TSub a b) = [a, b]"
| "targs (TNeg a) = [a]"
| "targs (TMul a b) = [a, b]"
| "targs (TSelect a i) = [a, i]"
| "targs (TStore a i v) = [a, i, v]"
| "targs (TIte c a b) = [c, a, b]"
| "targs (TBit _ a b) = [a, b]"
| "targs (TNot a) = [a]"
| "targs (TCmp _ a b) = [a, b]"
| "targs (TExtract a _ _) = [a]"
| "targs (TConcat ts) = ts"
| "targs (TZext a _) = [a]"
| "targs (TShift _ a b) = [a, b]"

text \<open>\<open>Term(t.kind, args=..., name=t.name, val=t.val)\<close>: the same node over other subterms.\<close>

fun with_args :: "trm \<Rightarrow> trm list \<Rightarrow> trm" where
  "with_args (TAdd _) ts = TAdd ts"
| "with_args (TSub _ _) [a, b] = TSub a b"
| "with_args (TNeg _) [a] = TNeg a"
| "with_args (TMul _ _) [a, b] = TMul a b"
| "with_args (TSelect _ _) [a, i] = TSelect a i"
| "with_args (TStore _ _ _) [a, i, v] = TStore a i v"
| "with_args (TIte _ _ _) [c, a, b] = TIte c a b"
| "with_args (TBit k _ _) [a, b] = TBit k a b"
| "with_args (TNot _) [a] = TNot a"
| "with_args (TCmp k _ _) [a, b] = TCmp k a b"
| "with_args (TExtract _ hi lo) [a] = TExtract a hi lo"
| "with_args (TConcat _) ts = TConcat ts"
| "with_args (TZext _ w) [a] = TZext a w"
| "with_args (TShift k _ _) [a, b] = TShift k a b"
| "with_args t _ = t"

lemma with_args_id [simp]: "with_args t (targs t) = t"
  by (cases t) simp_all

lemma targs_with_args: "length ts = length (targs t) \<Longrightarrow> targs (with_args t ts) = ts"
  by (cases t) (auto simp: length_Suc_conv numeral_2_eq_2 numeral_3_eq_3)

fun tvars :: "trm \<Rightarrow> string set" where
  "tvars (TVar x) = {x}"
| "tvars t = (\<Union>a \<in> set (targs t). tvars a)"

lemma size_targs: "a \<in> set (targs t) \<Longrightarrow> size a < size t"
  by (cases t) (auto simp: less_Suc_eq_le intro: size_list_estimation' [OF _ order_refl])

text \<open>The atom \<open>(= t1 t2)\<close>.\<close>

record eq_atom =
  eq_t1 :: trm
  eq_t2 :: trm

definition Eq :: "trm \<Rightarrow> trm \<Rightarrow> eq_atom" where
  "Eq a b = \<lparr>eq_t1 = a, eq_t2 = b\<rparr>"

subsection \<open>Display\<close>

fun show_trm :: "trm \<Rightarrow> string" where
  "show_trm (TVar x) = x"
| "show_trm (TConst v) = show_int v"
| "show_trm (TAdd ts) = ''(+ '' @ join '' '' (map show_trm ts) @ '')''"
| "show_trm (TSub a b) = ''(- '' @ show_trm a @ '' '' @ show_trm b @ '')''"
| "show_trm (TNeg a) = ''(- '' @ show_trm a @ '')''"
| "show_trm (TMul a b) = ''(* '' @ show_trm a @ '' '' @ show_trm b @ '')''"
| "show_trm (TSelect a i) = ''(select '' @ show_trm a @ '' '' @ show_trm i @ '')''"
| "show_trm (TStore a i v) = ''(store '' @ show_trm a @ '' '' @ show_trm i @ '' '' @ show_trm v @ '')''"
| "show_trm _ = ''?''"

definition show_atom :: "eq_atom \<Rightarrow> string" where
  "show_atom e = ''(= '' @ show_trm (eq_t1 e) @ '' '' @ show_trm (eq_t2 e) @ '')''"

subsection \<open>Polynomial normal forms\<close>

type_synonym monomial = "string list"
type_synonym poly = "(monomial \<times> int) list"

definition coeff :: "poly \<Rightarrow> monomial \<Rightarrow> int" where   \<comment> \<open>\<open>out.get(m, 0)\<close>\<close>
  "coeff d m = (case map_of d m of Some c \<Rightarrow> c | None \<Rightarrow> 0)"

definition accum :: "int \<Rightarrow> monomial \<Rightarrow> int \<Rightarrow> poly \<Rightarrow> poly" where
  "accum M m c out = AList.update m ((coeff out m + c) mod M) out"

definition poly_add :: "int \<Rightarrow> poly \<Rightarrow> poly \<Rightarrow> poly" where
  "poly_add M d out = fold (\<lambda>(m, c). accum M m c) d out"

definition poly_mul :: "int \<Rightarrow> poly \<Rightarrow> poly \<Rightarrow> poly" where
  "poly_mul M d1 d2 = fold (\<lambda>(m1, c1). fold (\<lambda>(m2, c2). accum M (sort (m1 @ m2)) (c1 * c2)) d2) d1 []"

text \<open>A size under which \<open>a - b\<close> is larger than its expansion \<open>a + (- b)\<close>.\<close>

fun nfsize :: "trm \<Rightarrow> nat" where
  "nfsize (TAdd ts) = Suc (sum_list (map (\<lambda>t. Suc (nfsize t)) ts))"
| "nfsize (TSub a b) = 6 + nfsize a + nfsize b"
| "nfsize (TNeg a) = Suc (nfsize a)"
| "nfsize (TMul a b) = Suc (nfsize a + nfsize b)"
| "nfsize _ = 1"

function nf :: "nat \<Rightarrow> trm \<Rightarrow> poly option" and nf_sum :: "nat \<Rightarrow> trm list \<Rightarrow> poly \<Rightarrow> poly option" where
  "nf w (TConst v) = Some [([], v mod 2 ^ w)]"
| "nf w (TVar x) = Some [([x], 1)]"
| "nf w (TNeg a) = do { d \<leftarrow> nf w a; Some (map (\<lambda>(m, c). (m, (- c) mod 2 ^ w)) d) }"
| "nf w (TAdd ts) = nf_sum w ts []"
| "nf w (TSub a b) = nf w (TAdd [a, TNeg b])"
| "nf w (TMul a b) = do { d1 \<leftarrow> nf w a; d2 \<leftarrow> nf w b; Some (poly_mul (2 ^ w) d1 d2) }"
| "nf w (TSelect a i) = None"
| "nf w (TStore a i v) = None"
| "nf w (TIte c a b) = None"
| "nf w (TBit k a b) = None"
| "nf w (TNot a) = None"
| "nf w (TCmp k a b) = None"
| "nf w (TExtract a hi lo) = None"
| "nf w (TConcat ts) = None"
| "nf w (TZext a n) = None"
| "nf w (TShift k a b) = None"
| "nf_sum w [] out = Some out"
| "nf_sum w (a # as) out = do { d \<leftarrow> nf w a; nf_sum w as (poly_add (2 ^ w) d out) }"
  by pat_completeness auto

termination
  by (relation "measure (\<lambda>x. case x of Inl (_, t) \<Rightarrow> nfsize t | Inr (_, ts, _) \<Rightarrow> sum_list (map (\<lambda>t. Suc (nfsize t)) ts))")
    auto

definition normal_form :: "trm \<Rightarrow> nat \<Rightarrow> poly option" where
  "normal_form t w = do { d \<leftarrow> nf w t; Some (filter (\<lambda>(m, c). c mod 2 ^ w \<noteq> 0) d) }"

text \<open>Equality of dictionaries.\<close>

definition dict_eq :: "poly \<Rightarrow> poly \<Rightarrow> bool" where
  "dict_eq d1 d2 \<longleftrightarrow> (\<forall>m \<in> set (map fst d1 @ map fst d2). map_of d1 m = map_of d2 m)"

definition provably_equal :: "trm \<Rightarrow> trm \<Rightarrow> nat \<Rightarrow> bool option" where
  "provably_equal a b w = do { d1 \<leftarrow> normal_form a w; d2 \<leftarrow> normal_form b w; Some (dict_eq d1 d2) }"

subsection \<open>Soundness of the normal form\<close>

text \<open>The integer polynomial an arithmetic term denotes; its bit-vector value is the residue mod \<open>2\<^sup>w\<close>.\<close>

fun teval :: "(string \<Rightarrow> int) \<Rightarrow> trm \<Rightarrow> int" where
  "teval \<sigma> (TVar x) = \<sigma> x"
| "teval \<sigma> (TConst v) = v"
| "teval \<sigma> (TAdd ts) = (\<Sum>t \<leftarrow> ts. teval \<sigma> t)"
| "teval \<sigma> (TSub a b) = teval \<sigma> a - teval \<sigma> b"
| "teval \<sigma> (TNeg a) = - teval \<sigma> a"
| "teval \<sigma> (TMul a b) = teval \<sigma> a * teval \<sigma> b"
| "teval \<sigma> _ = 0"

fun arith :: "trm \<Rightarrow> bool" where
  "arith (TVar x) = True"
| "arith (TConst v) = True"
| "arith (TAdd ts) = (ts \<noteq> [] \<and> (\<forall>t \<in> set ts. arith t))"
| "arith (TSub a b) = (arith a \<and> arith b)"
| "arith (TNeg a) = arith a"
| "arith (TMul a b) = (arith a \<and> arith b)"
| "arith _ = False"

definition mono :: "(string \<Rightarrow> int) \<Rightarrow> monomial \<Rightarrow> int" where
  "mono \<sigma> m = (\<Prod>x \<leftarrow> m. \<sigma> x)"

definition peval :: "(string \<Rightarrow> int) \<Rightarrow> poly \<Rightarrow> int" where
  "peval \<sigma> d = (\<Sum>(m, c) \<leftarrow> d. c * mono \<sigma> m)"

abbreviation keys :: "poly \<Rightarrow> monomial list" where
  "keys d \<equiv> map fst d"

lemma mono_append: "mono \<sigma> (m1 @ m2) = mono \<sigma> m1 * mono \<sigma> m2"
  by (simp add: mono_def)

lemma mono_sort: "mono \<sigma> (sort m) = mono \<sigma> m"
proof -
  have "prod_list (map \<sigma> (sort m)) = prod_list (map \<sigma> m)"
    by (simp only: prod_mset_prod_list [symmetric] mset_map mset_sort)
  then show ?thesis by (simp add: mono_def)
qed

lemma peval_update:
  "distinct (keys d) \<Longrightarrow> peval \<sigma> (AList.update m v d) = peval \<sigma> d + (v - coeff d m) * mono \<sigma> m"
proof (induction d)
  case (Cons kc d)
  have "coeff d m = 0" if "m \<notin> set (keys d)" using that by (simp add: coeff_def map_of_eq_None_iff [THEN iffD2])
  then show ?case using Cons by (auto simp: peval_def coeff_def algebra_simps split: prod.splits option.splits)
qed (simp add: peval_def coeff_def)

lemma distinct_accum: "distinct (keys d) \<Longrightarrow> distinct (keys (accum M m c d))"
  by (simp add: accum_def distinct_update)

lemma peval_accum:
  assumes "distinct (keys d)"
  shows "peval \<sigma> (accum M m c d) mod M = (peval \<sigma> d + c * mono \<sigma> m) mod M"
proof -
  have "peval \<sigma> (accum M m c d) = peval \<sigma> d + ((coeff d m + c) mod M - coeff d m) * mono \<sigma> m"
    unfolding accum_def by (rule peval_update [OF assms])
  also have "\<dots> mod M = (peval \<sigma> d + ((coeff d m + c) - coeff d m) * mono \<sigma> m) mod M"
    by (intro mod_add_cong mod_mult_cong mod_diff_cong refl mod_mod_trivial)
  finally show ?thesis by simp
qed

lemma poly_add_ok:
  "distinct (keys out) \<Longrightarrow> distinct (keys (poly_add M d out)) \<and>
   peval \<sigma> (poly_add M d out) mod M = (peval \<sigma> d + peval \<sigma> out) mod M"
proof (induction d arbitrary: out)
  case (Cons mc d)
  obtain m c where mc: "mc = (m, c)" by fastforce
  note IH = Cons.IH [OF distinct_accum [OF Cons.prems], of M m c]
  have "peval \<sigma> (poly_add M d (accum M m c out)) mod M = (peval \<sigma> d + peval \<sigma> (accum M m c out)) mod M" using IH by blast
  also have "\<dots> = (peval \<sigma> d + (peval \<sigma> out + c * mono \<sigma> m)) mod M"
    by (intro mod_add_cong peval_accum [OF Cons.prems] refl)
  finally show ?case using IH by (simp add: mc poly_add_def peval_def algebra_simps)
qed (simp add: poly_add_def peval_def)

lemma fold_row_ok:
  "distinct (keys out) \<Longrightarrow> distinct (keys (fold (\<lambda>(m2, c2). accum M (sort (m1 @ m2)) (c1 * c2)) d2 out)) \<and>
   peval \<sigma> (fold (\<lambda>(m2, c2). accum M (sort (m1 @ m2)) (c1 * c2)) d2 out) mod M =
     (c1 * mono \<sigma> m1 * peval \<sigma> d2 + peval \<sigma> out) mod M"
proof (induction d2 arbitrary: out)
  case (Cons mc d)
  obtain m c where mc: "mc = (m, c)" by fastforce
  let ?o = "accum M (sort (m1 @ m)) (c1 * c) out"
  note IH = Cons.IH [OF distinct_accum [OF Cons.prems], of M "sort (m1 @ m)" "c1 * c"]
  have "peval \<sigma> (fold (\<lambda>(m2, c2). accum M (sort (m1 @ m2)) (c1 * c2)) d ?o) mod M = (c1 * mono \<sigma> m1 * peval \<sigma> d + peval \<sigma> ?o) mod M"
    using IH by blast
  also have "\<dots> = (c1 * mono \<sigma> m1 * peval \<sigma> d + (peval \<sigma> out + c1 * c * mono \<sigma> (sort (m1 @ m)))) mod M"
    by (intro mod_add_cong peval_accum [OF Cons.prems] refl)
  finally show ?case using IH by (simp add: mc peval_def mono_sort mono_append algebra_simps)
qed (simp add: peval_def)

lemma poly_mul_ok:
  "distinct (keys (poly_mul M d1 d2)) \<and> peval \<sigma> (poly_mul M d1 d2) mod M = (peval \<sigma> d1 * peval \<sigma> d2) mod M"
proof -
  let ?row = "\<lambda>(m1, c1). fold (\<lambda>(m2, c2). accum M (sort (m1 @ m2)) (c1 * c2)) d2"
  have "distinct (keys (fold ?row d1 out)) \<and> peval \<sigma> (fold ?row d1 out) mod M = (peval \<sigma> d1 * peval \<sigma> d2 + peval \<sigma> out) mod M"
    if "distinct (keys out)" for out
    using that
  proof (induction d1 arbitrary: out)
    case (Cons mc d)
    obtain m c where mc: "mc = (m, c)" by fastforce
    note row = fold_row_ok [OF Cons.prems, of M m c d2 \<sigma>]
    let ?o = "?row (m, c) out"
    have "peval \<sigma> (fold ?row d ?o) mod M = (peval \<sigma> d * peval \<sigma> d2 + peval \<sigma> ?o) mod M" using Cons.IH [of ?o] row by simp
    also have "\<dots> = (peval \<sigma> d * peval \<sigma> d2 + (c * mono \<sigma> m * peval \<sigma> d2 + peval \<sigma> out)) mod M"
      by (intro mod_add_cong refl) (use row in simp)
    finally show ?case using Cons.IH [of ?o] row by (simp add: mc peval_def algebra_simps)
  qed (simp add: peval_def)
  from this [of "[]"] show ?thesis by (simp add: poly_mul_def peval_def)
qed

lemma peval_neg: "peval \<sigma> (map (\<lambda>(m, c). (m, (- c) mod M)) d) mod M = (- peval \<sigma> d) mod M"
proof (induction d)
  case (Cons mc d)
  obtain m c where mc: "mc = (m, c)" by fastforce
  let ?f = "map (\<lambda>(m, c). (m, (- c) mod M))"
  have "peval \<sigma> (?f (mc # d)) mod M = ((- c) mod M * mono \<sigma> m + peval \<sigma> (?f d)) mod M"
    by (simp add: mc peval_def)
  also have "\<dots> = ((- c) * mono \<sigma> m + - peval \<sigma> d) mod M"
    by (intro mod_add_cong mod_mult_cong Cons.IH refl mod_mod_trivial)
  finally show ?case by (simp add: mc peval_def)
qed (simp add: peval_def)

lemma keys_neg: "keys (map (\<lambda>(m, c). (m, f c)) d) = keys d"
  by (induction d) auto

lemma nf_ok:
  "nf w t = Some d \<Longrightarrow> distinct (keys d) \<and> peval \<sigma> d mod 2 ^ w = teval \<sigma> t mod 2 ^ w"
  "nf_sum w ts out = Some d \<Longrightarrow> distinct (keys out) \<Longrightarrow>
     distinct (keys d) \<and> peval \<sigma> d mod 2 ^ w = (peval \<sigma> out + (\<Sum>t \<leftarrow> ts. teval \<sigma> t)) mod 2 ^ w"
proof (induction w t and w ts out arbitrary: d and d rule: nf_nf_sum.induct)
  case (3 w a)
  then obtain e where e: "nf w a = Some e" "d = map (\<lambda>(m, c). (m, (- c) mod 2 ^ w)) e" by (auto simp: bind_eq_Some_conv)
  have "(- peval \<sigma> e) mod 2 ^ w = (- teval \<sigma> a) mod 2 ^ w" using 3(1) [OF e(1)] by (intro mod_minus_cong) simp
  then show ?case using 3(1) [OF e(1)] unfolding e(2) keys_neg by (simp add: peval_neg)
next
  case (6 w a b)
  then obtain d1 d2 where d: "nf w a = Some d1" "nf w b = Some d2" "d = poly_mul (2 ^ w) d1 d2" by (auto simp: bind_eq_Some_conv)
  have "(peval \<sigma> d1 * peval \<sigma> d2) mod 2 ^ w = (teval \<sigma> a * teval \<sigma> b) mod 2 ^ w"
    using 6(1) [OF d(1)] 6(2) [OF d(1,2)] by (intro mod_mult_cong) simp_all
  then show ?case using poly_mul_ok [of "2 ^ w" d1 d2 \<sigma>] by (simp add: d(3))
next
  case (18 w a as out)
  then obtain e where e: "nf w a = Some e" "nf_sum w as (poly_add (2 ^ w) e out) = Some d" by (auto simp: bind_eq_Some_conv)
  note p = poly_add_ok [OF 18(4), of "2 ^ w" e \<sigma>]
  have "peval \<sigma> (poly_add (2 ^ w) e out) mod 2 ^ w = (teval \<sigma> a + peval \<sigma> out) mod 2 ^ w"
    using p mod_add_cong [of "peval \<sigma> e" "2 ^ w" "teval \<sigma> a" "peval \<sigma> out" "peval \<sigma> out"] 18(1) [OF e(1)] by simp
  then have "(peval \<sigma> (poly_add (2 ^ w) e out) + (\<Sum>t \<leftarrow> as. teval \<sigma> t)) mod 2 ^ w = (teval \<sigma> a + peval \<sigma> out + (\<Sum>t \<leftarrow> as. teval \<sigma> t)) mod 2 ^ w"
    by (rule mod_add_cong) simp
  then show ?case using 18(2) [OF e] p by (simp add: ac_simps)
qed (auto simp: peval_def mono_def)

lemma nf_arith: "arith t \<Longrightarrow> \<exists>d. nf w t = Some d" "\<forall>t \<in> set ts. arith t \<Longrightarrow> \<exists>d. nf_sum w ts out = Some d"
  by (induction w t and w ts out rule: nf_nf_sum.induct) (auto simp: bind_eq_Some_conv)

lemma peval_filter: "peval \<sigma> (filter (\<lambda>(m, c). c mod M \<noteq> 0) d) mod M = peval \<sigma> d mod M"
proof (induction d)
  case (Cons mc d)
  obtain m c where mc: "mc = (m, c)" by fastforce
  let ?f = "filter (\<lambda>(m, c). c mod M \<noteq> 0)"
  have z: "(c * mono \<sigma> m + peval \<sigma> (?f d)) mod M = (c * mono \<sigma> m + peval \<sigma> d) mod M"
    by (rule mod_add_cong) (simp_all add: Cons.IH)
  have "(c * mono \<sigma> m + peval \<sigma> d) mod M = peval \<sigma> d mod M" if "c mod M = 0"
    using that mod_add_cong [of "c * mono \<sigma> m" M 0 "peval \<sigma> d" "peval \<sigma> d"] by auto
  then show ?case using z Cons.IH by (auto simp: mc peval_def)
qed simp

lemma distinct_keys_filter: "distinct (keys d) \<Longrightarrow> distinct (keys (filter P d))"
  by (rule distinct_map_filter)

lemma normal_form_ok:
  assumes "normal_form t w = Some d"
  shows "distinct (keys d)" "peval \<sigma> d mod 2 ^ w = teval \<sigma> t mod 2 ^ w"
  using assms nf_ok(1) [of w t _ \<sigma>]
  by (auto simp: normal_form_def bind_eq_Some_conv peval_filter intro: distinct_keys_filter)

lemma peval_set: "distinct (keys d) \<Longrightarrow> peval \<sigma> d = (\<Sum>m \<in> set (keys d). coeff d m * mono \<sigma> m)"
proof (induction d)
  case (Cons mc d)
  obtain m c where mc: "mc = (m, c)" by fastforce
  have m: "m \<notin> set (keys d)" using Cons.prems by (simp add: mc)
  have "(\<Sum>k \<in> set (keys d). coeff (mc # d) k * mono \<sigma> k) = (\<Sum>k \<in> set (keys d). coeff d k * mono \<sigma> k)"
    by (rule sum.cong) (use m in \<open>auto simp: coeff_def mc\<close>)
  then show ?case using Cons m by (simp add: mc peval_def) (simp add: coeff_def)
qed (simp add: peval_def)

lemma dict_eq_peval:
  assumes "dict_eq d1 d2" "distinct (keys d1)" "distinct (keys d2)"
  shows "peval \<sigma> d1 = peval \<sigma> d2"
proof -
  have e: "map_of d1 m = map_of d2 m" if "m \<in> set (keys d1) \<union> set (keys d2)" for m
    using assms(1) that unfolding dict_eq_def set_append by blast
  have k: "m \<in> set (keys d) \<longleftrightarrow> map_of d m \<noteq> None" for d m by (simp add: map_of_eq_None_iff)
  have s: "set (keys d1) = set (keys d2)"
  proof (rule set_eqI)
    fix m
    show "m \<in> set (keys d1) \<longleftrightarrow> m \<in> set (keys d2)"
    proof (cases "m \<in> set (keys d1) \<union> set (keys d2)")
      case True
      then show ?thesis using e [OF True] k [of m d1] k [of m d2] by simp
    qed blast
  qed
  have "(\<Sum>m \<in> set (keys d1). coeff d1 m * mono \<sigma> m) = (\<Sum>m \<in> set (keys d2). coeff d2 m * mono \<sigma> m)"
    by (rule sum.cong [OF s]) (use e s in \<open>simp only: coeff_def UnCI\<close>)
  then show ?thesis unfolding peval_set [OF assms(2)] peval_set [OF assms(3)] .
qed

lemma provably_equal_sound:
  assumes "provably_equal a b w = Some True"
  shows "teval \<sigma> a mod 2 ^ w = teval \<sigma> b mod 2 ^ w"
proof -
  obtain d1 d2 where d: "normal_form a w = Some d1" "normal_form b w = Some d2" "dict_eq d1 d2"
    using assms by (auto simp: provably_equal_def bind_eq_Some_conv)
  show ?thesis
    using dict_eq_peval [OF d(3) normal_form_ok(1) [OF d(1)] normal_form_ok(1) [OF d(2)], of \<sigma>]
      normal_form_ok(2) [OF d(1), of \<sigma>] normal_form_ok(2) [OF d(2), of \<sigma>] by simp
qed

lemma provably_equal_returns: "arith a \<Longrightarrow> arith b \<Longrightarrow> \<exists>r. provably_equal a b w = Some r"
  using nf_arith(1) [of a w] nf_arith(1) [of b w] by (auto simp: provably_equal_def normal_form_def)

end
