(* ===== verification/Smt.thy ===== *)
theory Smt
  imports Smt_Term Query
begin

text \<open>
  Bit-blasting and the DPLL(T) loop of \<open>smt.py\<close>: \<open>lower\<close>, \<open>_CountSolver\<close>, \<open>bitblast_equiv\<close>, the theory check
  over polynomial normal forms, \<open>_bitblast_all\<close>, and the loop of \<open>solve\<close>. The counter of the node
  identities is threaded through everything that builds gates.
\<close>

subsection \<open>Lowering terms to gates\<close>

function lower :: "trm \<Rightarrow> nat \<Rightarrow> nat \<Rightarrow> (bv \<times> nat) option" and
  lower_sum :: "trm list \<Rightarrow> nat \<Rightarrow> bv \<Rightarrow> nat \<Rightarrow> (bv \<times> nat) option" where
  "lower (TConst v) w n = Some (run_state (bv_const v w) n)"
| "lower (TVar x) w n = Some (run_state (bv_var x w) n)"
| "lower (TNeg a) w n = do {
     (b, n) \<leftarrow> lower a w n;
     Some (run_state (State_Monad.bind (alloc_map NOT_s b) bv_inc) n) }"
| "lower (TSub a b) w n = lower (TAdd [a, TNeg b]) w n"
| "lower (TAdd []) w n = None"
| "lower (TAdd (t # ts)) w n = do { (acc, n) \<leftarrow> lower t w n; lower_sum ts w acc n }"
| "lower (TMul a b) w n = do {
     (x, n) \<leftarrow> lower a w n;
     (y, n) \<leftarrow> lower b w n;
     Some (run_state (bv_mul x y (Some w)) n) }"
| "lower (TSelect a i) w n = None"
| "lower (TStore a i v) w n = None"
| "lower (TIte c a b) w n = None"
| "lower (TBit k a b) w n = None"
| "lower (TNot a) w n = None"
| "lower (TCmp k a b) w n = None"
| "lower (TExtract a hi lo) w n = None"
| "lower (TConcat ts) w n = None"
| "lower (TZext a k) w n = None"
| "lower (TShift k a b) w n = None"
| "lower_sum [] w acc n = Some (acc, n)"
| "lower_sum (t # ts) w acc n = do {
     (b, n) \<leftarrow> lower t w n;
     let (acc, n) = run_state (bv_add acc b (Some w)) n;
     lower_sum ts w acc n }"
  by pat_completeness auto

termination
  by (relation "measure (\<lambda>x. case x of Inl (t, _, _) \<Rightarrow> nfsize t | Inr (ts, _, _, _) \<Rightarrow> sum_list (map (\<lambda>t. Suc (nfsize t)) ts))")
    auto

fun var_names :: "trm \<Rightarrow> string set \<Rightarrow> string set" where
  "var_names (TVar x) out = insert x out"
| "var_names t out = fold var_names (targs t) out"

definition differ_s :: "bv \<Rightarrow> bv \<Rightarrow> sig alloc" where
  "differ_s A B = State_Monad.bind (alloc_map (\<lambda>(x, y). XOR_s x y) (zip A B)) OR_s"

subsection \<open>The counting solver\<close>

record count_solver = solver +
  n_clauses :: nat

definition CountSolver :: count_solver where
  "CountSolver = solver.extend Solver \<lparr>n_clauses = 0\<rparr>"

fun taut_scan :: "int set \<Rightarrow> int list \<Rightarrow> bool" where
  "taut_scan met [] = False"
| "taut_scan met (l # ls) = (if - l \<in> met then True else taut_scan (insert l met) ls)"

definition count_add :: "int list \<Rightarrow> count_solver \<Rightarrow> bool \<times> count_solver" where
  "count_add ls s = add_clause ls
     (if \<not> taut_scan {} ls \<and> ls \<noteq> [] then s\<lparr>n_clauses := n_clauses s + 1\<rparr> else s)"

subsection \<open>Bit-blasting a miter\<close>

definition word_bits :: "string set \<Rightarrow> nat \<Rightarrow> string list" where
  "word_bits names w = concat (map (\<lambda>x. map (bit_name x) [0..<w]) (sorted_list_of_set names))"

definition read_words :: "'a solver_scheme \<Rightarrow> env \<Rightarrow> string set \<Rightarrow> nat \<Rightarrow> (string \<times> nat) list option" where
  "read_words s env names w = those (map (\<lambda>x. map_option (Pair x) (read_bv s env x w)) (sorted_list_of_set names))"

datatype bb_result = COUNTED nat | BB_SAT "(string \<times> nat) list" nat | BB_UNSAT nat

definition bitblast_equiv :: "trm \<Rightarrow> trm \<Rightarrow> nat \<Rightarrow> bool \<Rightarrow> nat \<Rightarrow> (bb_result \<times> nat) option" where
  "bitblast_equiv a b w count_only n = do {
     let names = var_names b (var_names a {});
     let (env, s) = alloc_names (word_bits names w) Map.empty CountSolver;
     (A, n) \<leftarrow> lower a w n;
     (B, n) \<leftarrow> lower b w n;
     let (d, n) = run_state (differ_s A B) n;
     (l, memo, s) \<leftarrow> tseitin count_add d env Map.empty s;
     let s = snd (count_add [l] s);
     if count_only then Some (COUNTED (n_clauses s), n)
     else do {
       (sat, s) \<leftarrow> solve [] s;
       if sat then do {
         wit \<leftarrow> read_words s env names w;
         Some (BB_SAT wit (n_clauses s), n) }
       else Some (BB_UNSAT (n_clauses s), n) } }"

subsection \<open>The theory check\<close>

type_synonym subst = "(string \<rightharpoonup> trm) \<times> (string \<rightharpoonup> nat)"   \<comment> \<open>\<open>subst\<close> and \<open>eq_used\<close>\<close>

definition bind_var :: "trm \<Rightarrow> trm \<Rightarrow> nat \<Rightarrow> subst \<Rightarrow> subst option" where
  "bind_var x t i sb = (case x of TVar v \<Rightarrow> if fst sb v = None then Some ((fst sb)(v \<mapsto> t), (snd sb)(v \<mapsto> i)) else None | _ \<Rightarrow> None)"

definition collect :: "(nat \<Rightarrow> bool) \<Rightarrow> nat \<times> eq_atom \<Rightarrow> subst \<Rightarrow> subst" where
  "collect truth = (\<lambda>(i, e) sb.
     if \<not> truth i then sb
     else case bind_var (eq_t1 e) (eq_t2 e) i sb of
         Some sb' \<Rightarrow> sb'
       | None \<Rightarrow> (case bind_var (eq_t2 e) (eq_t1 e) i sb of Some sb' \<Rightarrow> sb' | None \<Rightarrow> sb))"

text \<open>Chasing a chain of variables, with the names met and the atoms used.\<close>

definition chase_body ::
  "subst \<Rightarrow> trm \<times> string set \<times> nat set \<Rightarrow> ((trm \<times> nat set) + (trm \<times> string set \<times> nat set)) option" where
  "chase_body sb = (\<lambda>(t, met, used).
     case t of
       TVar x \<Rightarrow>
         (case fst sb x of
            Some u \<Rightarrow> if x \<in> met then Some (Inl (t, used))
              else do { i \<leftarrow> snd sb x; Some (Inr (u, insert x met, insert i used)) }
          | None \<Rightarrow> Some (Inl (t, used)))
     | _ \<Rightarrow> Some (Inl (t, used)))"

text \<open>\<open>apply\<close> on a list of terms, from left to right; a cyclic substitution has no value.\<close>

partial_function (option) apply_all :: "subst \<Rightarrow> trm list \<Rightarrow> nat set \<Rightarrow> (trm list \<times> nat set) option" where
  "apply_all sb ts used =
     (case ts of
        [] \<Rightarrow> Some ([], used)
      | t # ts \<Rightarrow> do {
          (t, used) \<leftarrow> loop (chase_body sb) (t, {}, used);
          (as, used) \<leftarrow> apply_all sb (targs t) used;
          (ts, used) \<leftarrow> apply_all sb ts used;
          Some (with_args t as # ts, used) })"

fun check_diseqs :: "(nat \<Rightarrow> bool) \<Rightarrow> subst \<Rightarrow> nat \<Rightarrow> (nat \<times> eq_atom) list \<Rightarrow> nat set option option" where
  "check_diseqs truth sb w [] = Some None"
| "check_diseqs truth sb w ((i, e) # es) =
     (if truth i then check_diseqs truth sb w es
      else do {
        (ab, used) \<leftarrow> apply_all sb [eq_t1 e, eq_t2 e] {};
        eq \<leftarrow> provably_equal (ab ! 0) (ab ! 1) w;
        if eq then Some (Some (insert i used)) else check_diseqs truth sb w es })"

definition theory_check :: "eq_atom list \<Rightarrow> (nat \<Rightarrow> bool) \<Rightarrow> nat \<Rightarrow> nat set option option" where
  "theory_check atoms truth w =
     check_diseqs truth (fold (collect truth) (enumerate 1 atoms) (Map.empty, Map.empty)) w (enumerate 1 atoms)"

subsection \<open>Bit-blasting an assignment\<close>

fun blast_atoms ::
  "(nat \<Rightarrow> bool) \<Rightarrow> nat \<Rightarrow> env \<Rightarrow> (nat \<times> eq_atom) list \<Rightarrow> lit_memo \<Rightarrow> count_solver \<Rightarrow> nat \<Rightarrow> (count_solver \<times> nat) option" where
  "blast_atoms truth w env [] memo s n = Some (s, n)"
| "blast_atoms truth w env ((i, e) # es) memo s n = do {
     (A, n) \<leftarrow> lower (eq_t1 e) w n;
     (B, n) \<leftarrow> lower (eq_t2 e) w n;
     let (d, n) = run_state (differ_s A B) n;
     (l, memo, s) \<leftarrow> tseitin count_add d env memo s;
     blast_atoms truth w env es memo (snd (count_add [if \<not> truth i then l else - l] s)) n }"

definition atom_names :: "eq_atom list \<Rightarrow> string set" where
  "atom_names atoms = fold (\<lambda>e out. var_names (eq_t2 e) (var_names (eq_t1 e) out)) atoms {}"

definition bitblast_all ::
  "eq_atom list \<Rightarrow> (nat \<Rightarrow> bool) \<Rightarrow> nat \<Rightarrow> nat \<Rightarrow> ((string \<times> nat) list option \<times> nat) option" where
  "bitblast_all atoms truth w n = do {
     let names = atom_names atoms;
     let (env, s) = alloc_names (word_bits names w) Map.empty CountSolver;
     (s, n) \<leftarrow> blast_atoms truth w env (enumerate 1 atoms) Map.empty s n;
     (sat, s) \<leftarrow> solve [] s;
     if sat then do { wit \<leftarrow> read_words s env names w; Some (Some wit, n) } else Some (None, n) }"

definition model_via_bitblast :: "eq_atom list \<Rightarrow> (nat \<Rightarrow> bool) \<Rightarrow> nat \<Rightarrow> nat \<Rightarrow> ((string \<times> nat) list \<times> nat) option" where
  "model_via_bitblast atoms truth w n = do {
     (r, n) \<leftarrow> bitblast_all atoms truth w n;
     Some (case r of Some wit \<Rightarrow> wit | None \<Rightarrow> [], n) }"

subsection \<open>The loop\<close>

datatype smt_result = SMT_UNSAT "int list list" | SMT_SAT "(nat \<times> bool) list" | SMT_SAT_BB "(string \<times> nat) list"

type_synonym smt_state = "solver \<times> int list list \<times> nat"

definition blocking :: "(nat \<Rightarrow> bool) \<Rightarrow> nat list \<Rightarrow> int list" where
  "blocking truth ids = map (\<lambda>i. if truth i then - int i else int i) ids"

definition dpllt_body ::
  "eq_atom list \<Rightarrow> nat \<Rightarrow> bool \<Rightarrow> smt_state \<Rightarrow> ((smt_result \<times> nat) + smt_state) option" where
  "dpllt_body atoms w allow_bitblast = (\<lambda>(s, lemmas, n). do {
     (sat, s) \<leftarrow> solve [] s;
     if \<not> sat then Some (Inl (SMT_UNSAT lemmas, n))
     else do {
       let truth = (\<lambda>i. get_value i s);
       let s = cancel_until 0 s;
       conflict \<leftarrow> theory_check atoms truth w;
       (case conflict of
          None \<Rightarrow>
            if \<not> allow_bitblast then Some (Inl (SMT_SAT (map (\<lambda>i. (i, truth i)) [1..<length atoms + 1]), n))
            else do {
              (rb, n) \<leftarrow> bitblast_all atoms truth w n;
              (case rb of
                 None \<Rightarrow> let lem = blocking truth [1..<length atoms + 1]
                   in Some (Inr (snd (add_clause lem s), lemmas @ [lem], n))
               | Some wit \<Rightarrow> Some (Inl (SMT_SAT_BB wit, n))) }
        | Some C \<Rightarrow> let lem = blocking truth (sorted_list_of_set C)
            in Some (Inr (snd (add_clause lem s), lemmas @ [lem], n))) } })"

primrec add_cnf :: "int list list \<Rightarrow> solver \<Rightarrow> solver" where
  "add_cnf [] s = s"
| "add_cnf (cl # cls) s = add_cnf cls (snd (add_clause cl s))"

text \<open>\<open>solve\<close> on array-free atoms.\<close>

definition dpllt :: "eq_atom list \<Rightarrow> int list list \<Rightarrow> nat \<Rightarrow> bool \<Rightarrow> nat \<Rightarrow> (smt_result \<times> nat) option" where
  "dpllt atoms cnf w allow_bitblast n =
     loop (dpllt_body atoms w allow_bitblast) (add_cnf cnf (snd (new_vars (length atoms) Solver)), [], n)"

subsection \<open>Lowering is exact\<close>

definition word_val :: "nat \<Rightarrow> (string \<Rightarrow> bool) \<Rightarrow> string \<Rightarrow> int" where
  "word_val w \<rho> x = int (bits_nat (map (\<lambda>i. \<rho> (bit_name x i)) [0..<w]))"

definition bit_names :: "nat \<Rightarrow> string set \<Rightarrow> string set" where
  "bit_names w X = (\<Union>x \<in> X. bit_name x ` {..<w})"

definition lowered :: "nat \<Rightarrow> trm \<Rightarrow> bv \<Rightarrow> bool" where
  "lowered w t = bv_denotes (\<lambda>\<rho>. nat (teval (word_val w \<rho>) t mod 2 ^ w)) (bit_names w (tvars t)) w"

lemma builds_neg:
  assumes "set b \<subseteq> A"
  shows "builds A set (State_Monad.bind (alloc_map NOT_s b) bv_inc)
    (bv_denotes (\<lambda>\<rho>. nat ((- int (bvv \<rho> b)) mod 2 ^ length b)) (bv_vars b) (length b))"
proof -
  let ?not = "\<lambda>x. denotes (\<lambda>\<rho>. \<not> sval \<rho> x) (svars x)"
  have 1: "builds A set (alloc_map NOT_s b) (list_all2 ?not b)"
  proof (rule builds_weaken [OF builds_alloc_map])
    show "builds A (\<lambda>r. {r}) (NOT_s x) (?not x)" if "x \<in> set b" for x
      by (rule builds_NOT_in) (use assms that in blast)
  qed auto
  have 2: "builds (A \<union> set nb) set (bv_inc nb)
      (bv_denotes (\<lambda>\<rho>. nat ((- int (bvv \<rho> b)) mod 2 ^ length b)) (bv_vars b) (length b))"
    if nb: "list_all2 ?not b nb" for nb
  proof -
    have "set nb \<subseteq> (A \<union> set nb) \<union> {TRUE_s, FALSE_s}" by blast
    note i = builds_bv_inc [OF this, unfolded bvv_complement(1) [OF nb]]
    have "bvv \<rho> nb + bvv \<rho> b mod 2 ^ length b + 1 = 2 ^ length b" for \<rho>
      using bvv_complement(2) [OF nb, of \<rho>] bvv_less [of \<rho> b] by simp
    from complement_plus_one [where a = 0, OF this]
    have "(bvv \<rho> nb + 1) mod 2 ^ length b = nat ((- int (bvv \<rho> b)) mod 2 ^ length b)" for \<rho>
      by (simp add: nat_eq_iff2 del: of_nat_mod)
    then show ?thesis by (rule builds_bv_weaken [OF i _ bvv_complement(3) [OF nb]])
  qed
  show ?thesis by (rule builds_bind [OF 1 2])
qed

lemma the_width_same: "length a = w \<Longrightarrow> length b = w \<Longrightarrow> the_width (Some w) a b = w"
  by (cases w) (simp_all add: the_width_def)

lemma word_val_range: "0 \<le> word_val w \<rho> x" "word_val w \<rho> x < 2 ^ w"
proof -
  have "bits_nat bs < 2 ^ length bs" for bs by (induction bs) auto
  from this [of "map (\<lambda>i. \<rho> (bit_name x i)) [0..<w]"] show "word_val w \<rho> x < 2 ^ w"
    by (simp add: word_val_def)
qed (simp add: word_val_def)

lemma nat_mod_eq:
  fixes a b :: int and x y :: nat
  assumes "x = nat (a mod 2 ^ w)" "y = nat (b mod 2 ^ w)"
  shows "(x + y) mod 2 ^ w = nat ((a + b) mod 2 ^ w)" "(x * y) mod 2 ^ w = nat ((a * b) mod 2 ^ w)"
    "nat ((- int x) mod 2 ^ w) = nat ((- a) mod 2 ^ w)"
proof -
  have i: "int x = a mod 2 ^ w" "int y = b mod 2 ^ w" using assms by simp_all
  have "int ((x + y) mod 2 ^ w) = (a + b) mod 2 ^ w" by (simp add: zmod_int i mod_add_eq)
  then show "(x + y) mod 2 ^ w = nat ((a + b) mod 2 ^ w)" by (metis nat_int)
  have "int ((x * y) mod 2 ^ w) = (a * b) mod 2 ^ w" by (simp add: zmod_int i mod_mult_eq)
  then show "(x * y) mod 2 ^ w = nat ((a * b) mod 2 ^ w)" by (metis nat_int)
  show "nat ((- int x) mod 2 ^ w) = nat ((- a) mod 2 ^ w)" by (simp add: i mod_minus_eq)
qed

lemma bit_names_mono: "X \<subseteq> Y \<Longrightarrow> bit_names w X \<subseteq> bit_names w Y"
  by (auto simp: bit_names_def)

lemma lower_ok:
  "arith t \<Longrightarrow> pool_ok n P \<Longrightarrow> \<exists>b n' P'. lower t w n = Some (b, n') \<and> pool_ok n' P' \<and> P \<subseteq> P' \<and> set b \<subseteq> P' \<and> lowered w t b"
  "\<forall>t \<in> set ts. arith t \<Longrightarrow> pool_ok n P \<Longrightarrow> set acc \<subseteq> P \<Longrightarrow> bv_denotes f X w acc \<Longrightarrow>
     f = (\<lambda>\<rho>. nat (g \<rho> mod 2 ^ w)) \<Longrightarrow>
     \<exists>b n' P'. lower_sum ts w acc n = Some (b, n') \<and> pool_ok n' P' \<and> P \<subseteq> P' \<and> set b \<subseteq> P' \<and>
       bv_denotes (\<lambda>\<rho>. nat ((g \<rho> + (\<Sum>t \<leftarrow> ts. teval (word_val w \<rho>) t)) mod 2 ^ w)) (X \<union> bit_names w (\<Union>t \<in> set ts. tvars t)) w b"
proof (induction t w n and ts w acc n arbitrary: P and P f X g rule: lower_lower_sum.induct)
  case (1 v w n)
  obtain b n' P' where b: "run_state (bv_const v w) n = (b, n')" "pool_ok n' P'" "P \<subseteq> P'" "set b \<subseteq> P'"
    "bv_denotes (\<lambda>\<rho>. nat (v mod 2 ^ w)) {} w b"
    by (rule buildsE [OF builds_bv_const 1(2) empty_subsetI]) (rule that)
  then show ?case by (auto simp: lowered_def bv_denotes_def)
next
  case (2 x w n)
  obtain b n' P' where b: "run_state (bv_var x w) n = (b, n')" "pool_ok n' P'" "P \<subseteq> P'" "set b \<subseteq> P'"
    "bv_denotes (\<lambda>\<rho>. bits_nat (map (\<lambda>i. \<rho> (bit_name x i)) [0..<w])) (bit_name x ` {..<w}) w b"
    by (rule buildsE [OF builds_bv_var 2(2) empty_subsetI]) (rule that)
  have "bits_nat (map (\<lambda>i. \<rho> (bit_name x i)) [0..<w]) = nat (word_val w \<rho> x mod 2 ^ w)" for \<rho>
    using word_val_range [of w \<rho> x] by (simp add: word_val_def)
  then have "lowered w (TVar x) b" using b(5) by (simp add: lowered_def bv_denotes_def bit_names_def)
  then show ?case using b(1-4) by auto
next
  case (3 a w n)
  obtain b n1 P1 where b: "lower a w n = Some (b, n1)" "pool_ok n1 P1" "P \<subseteq> P1" "set b \<subseteq> P1" "lowered w a b"
    using 3(1) [OF _ 3(3)] 3(2) by auto
  obtain c n' P' where c: "run_state (State_Monad.bind (alloc_map NOT_s b) bv_inc) n1 = (c, n')" "pool_ok n' P'" "P1 \<subseteq> P'" "set c \<subseteq> P'"
    "bv_denotes (\<lambda>\<rho>. nat ((- int (bvv \<rho> b)) mod 2 ^ length b)) (bv_vars b) (length b) c"
    by (rule buildsE [OF builds_neg [OF order_refl] b(2,4)]) (rule that)
  have len: "length b = w" using b(5) by (simp add: lowered_def bv_denotes_def)
  have "nat ((- int (bvv \<rho> b)) mod 2 ^ w) = nat ((- teval (word_val w \<rho>) a) mod 2 ^ w)" for \<rho>
    using b(5) by (intro nat_mod_eq(3)) (simp_all add: lowered_def bv_denotes_def)
  then have "lowered w (TNeg a) c" using c(5) b(5) len by (auto simp: lowered_def bv_denotes_def)
  then show ?case using b(1) c(1,2,4) order_trans [OF b(3) c(3)] by auto
next
  case (4 a b w n)
  have "arith (TAdd [a, TNeg b])" using 4(2) by simp
  from 4(1) [OF this 4(3)] obtain x n' P' where x: "lower (TAdd [a, TNeg b]) w n = Some (x, n')" "pool_ok n' P'" "P \<subseteq> P'" "set x \<subseteq> P'" "lowered w (TAdd [a, TNeg b]) x"
    by blast
  then have "lowered w (TSub a b) x" by (simp add: lowered_def)
  then show ?case using x(1-4) by auto
next
  case (6 t ts w n)
  obtain acc n1 P1 where b: "lower t w n = Some (acc, n1)" "pool_ok n1 P1" "P \<subseteq> P1" "set acc \<subseteq> P1" "lowered w t acc"
    using 6(1) [OF _ 6(4)] 6(3) by auto
  have ts: "\<forall>t \<in> set ts. arith t" using 6(3) by simp
  obtain c n' P' where c: "lower_sum ts w acc n1 = Some (c, n')" "pool_ok n' P'" "P1 \<subseteq> P'" "set c \<subseteq> P'"
    "bv_denotes (\<lambda>\<rho>. nat ((teval (word_val w \<rho>) t + (\<Sum>t \<leftarrow> ts. teval (word_val w \<rho>) t)) mod 2 ^ w)) (bit_names w (tvars t) \<union> bit_names w (\<Union>t \<in> set ts. tvars t)) w c"
    using 6(2) [OF b(1) refl ts b(2,4) b(5) [unfolded lowered_def] refl] by blast
  have "lowered w (TAdd (t # ts)) c" using c(5) by (simp add: lowered_def bit_names_def image_Un)
  then show ?case using b(1) c(1,2,4) order_trans [OF b(3) c(3)] by auto
next
  case (7 a b w n)
  obtain x n1 P1 where x: "lower a w n = Some (x, n1)" "pool_ok n1 P1" "P \<subseteq> P1" "set x \<subseteq> P1" "lowered w a x"
    using 7(1) [OF _ 7(4)] 7(3) by auto
  obtain y n2 P2 where y: "lower b w n1 = Some (y, n2)" "pool_ok n2 P2" "P1 \<subseteq> P2" "set y \<subseteq> P2" "lowered w b y"
    using 7(2) [OF x(1) refl _ x(2)] 7(3) by auto
  have "set x \<union> set y \<subseteq> P2 \<union> {TRUE_s, FALSE_s}" using x(4) y(3,4) by blast
  note m = builds_bv_mul [OF this, of "Some w"]
  have len: "length x = w" "length y = w" using x(5) y(5) by (simp_all add: lowered_def bv_denotes_def)
  note tw = the_width_same [OF len]
  obtain z n' P' where z: "run_state (bv_mul x y (Some w)) n2 = (z, n')" "pool_ok n' P'" "P2 \<subseteq> P'" "set z \<subseteq> P'"
    "bv_denotes (\<lambda>\<rho>. (bvv \<rho> x * bvv \<rho> y) mod 2 ^ w) (bv_vars x \<union> bv_vars y) w z"
    by (rule buildsE [OF m [unfolded tw] y(2) order_refl]) (rule that)
  have "(bvv \<rho> x * bvv \<rho> y) mod 2 ^ w = nat (teval (word_val w \<rho>) (TMul a b) mod 2 ^ w)" for \<rho>
    using x(5) y(5) nat_mod_eq(2) by (simp add: lowered_def bv_denotes_def)
  moreover have "bv_vars x \<union> bv_vars y \<subseteq> bit_names w (tvars (TMul a b))"
    using x(5) y(5) by (auto simp: lowered_def bv_denotes_def bit_names_def)
  ultimately have "lowered w (TMul a b) z" using z(5) by (auto simp: lowered_def bv_denotes_def)
  then show ?case using x(1) y(1) z(1,2,4) order_trans [OF x(3) order_trans [OF y(3) z(3)]] by auto
next
  case (18 w acc n)
  then show ?case by (auto simp: bit_names_def)
next
  case (19 t ts w acc n)
  obtain b n1 P1 where b: "lower t w n = Some (b, n1)" "pool_ok n1 P1" "P \<subseteq> P1" "set b \<subseteq> P1" "lowered w t b"
    using 19(1) [OF _ 19(4)] 19(3) by auto
  have "set acc \<union> set b \<subseteq> P1 \<union> {TRUE_s, FALSE_s}" using 19(5) b(3,4) by blast
  note m = builds_bv_add [OF this, of "Some w"]
  have len: "length acc = w" "length b = w" using 19(6) b(5) by (simp_all add: lowered_def bv_denotes_def)
  note tw = the_width_same [OF len]
  obtain acc' n2 P2 where z: "run_state (bv_add acc b (Some w)) n1 = (acc', n2)" "pool_ok n2 P2" "P1 \<subseteq> P2" "set acc' \<subseteq> P2"
    "bv_denotes (\<lambda>\<rho>. (bvv \<rho> acc + bvv \<rho> b) mod 2 ^ w) (bv_vars acc \<union> bv_vars b) w acc'"
    by (rule buildsE [OF m [unfolded tw] b(2) order_refl]) (rule that)
  have "(bvv \<rho> acc + bvv \<rho> b) mod 2 ^ w = nat ((g \<rho> + teval (word_val w \<rho>) t) mod 2 ^ w)" for \<rho>
    using 19(6,7) b(5) by (intro nat_mod_eq(1)) (simp_all add: lowered_def bv_denotes_def)
  then have z': "bv_denotes (\<lambda>\<rho>. nat ((g \<rho> + teval (word_val w \<rho>) t) mod 2 ^ w)) (X \<union> bit_names w (tvars t)) w acc'"
    using z(5) 19(6) b(5) unfolding bv_denotes_def lowered_def by (simp, blast)
  have ts: "\<forall>t \<in> set ts. arith t" using 19(3) by simp
  obtain c n' P' where c: "lower_sum ts w acc' n2 = Some (c, n')" "pool_ok n' P'" "P2 \<subseteq> P'" "set c \<subseteq> P'"
    "bv_denotes (\<lambda>\<rho>. nat ((g \<rho> + teval (word_val w \<rho>) t + (\<Sum>t \<leftarrow> ts. teval (word_val w \<rho>) t)) mod 2 ^ w)) (X \<union> bit_names w (tvars t) \<union> bit_names w (\<Union>t \<in> set ts. tvars t)) w c"
    using 19(2) [OF b(1) refl z(1) [symmetric] refl ts z(2,4) z' refl] by blast
  have "X \<union> bit_names w (tvars t) \<union> bit_names w (\<Union>t \<in> set ts. tvars t) = X \<union> bit_names w (\<Union>t \<in> set (t # ts). tvars t)"
    by (auto simp: bit_names_def)
  then show ?case using b(1) z(1) c order_trans [OF b(3) order_trans [OF z(3) c(3)]] by (auto simp: ac_simps)
qed simp_all

subsection \<open>Words and their bits\<close>

lemma show_nat_digits: "c \<in> set (show_nat n) \<Longrightarrow> c \<noteq> CHR ''[''"
proof (induction n rule: show_nat.induct)
  case (1 n)
  have "digit d \<noteq> CHR ''[''" if "d < 10" for d
  proof
    assume "digit d = CHR ''[''"
    from arg_cong [OF this, of "of_char :: char \<Rightarrow> nat"] that show False by (simp add: digit_def)
  qed
  then have d: "digit (k mod 10) \<noteq> CHR ''[''" for k by simp
  show ?case
  proof (cases "n < 10")
    case True
    then show ?thesis using 1(2) d [of n] by (subst (asm) show_nat.simps) simp
  next
    case False
    then have "c \<in> set (show_nat (n div 10)) \<or> c = digit (n mod 10)" using 1(2) by (subst (asm) show_nat.simps) auto
    then show ?thesis
    proof
      show ?thesis if "c \<in> set (show_nat (n div 10))" using 1(1) [OF False that] .
      show ?thesis if "c = digit (n mod 10)" unfolding that by (rule d)
    qed
  qed
qed

lemma bit_name_inj2: "bit_name x i = bit_name y j \<longleftrightarrow> x = y \<and> i = j"
proof
  assume e: "bit_name x i = bit_name y j"
  have d: "dropWhile (\<lambda>c. c \<noteq> CHR ''['') (rev (butlast (bit_name z k))) = CHR ''['' # rev z" for z k
    using show_nat_digits [of _ k] by (simp add: bit_name_def butlast_append dropWhile_append)
  have "x = y" using d [of x i] d [of y j] e by simp
  then show "x = y \<and> i = j" using e bit_name_inj by blast
qed simp

lemma bits_nat_snoc: "bits_nat (bs @ [b]) = bits_nat bs + 2 ^ length bs * of_bool b"
  by (induction bs) (simp_all add: algebra_simps)

lemma bits_nat_sum: "(\<Sum>i \<leftarrow> [0..<w]. if f i then 2 ^ i else 0) = bits_nat (map f [0..<w])"
  by (induction w) (simp_all add: bits_nat_snoc)

text \<open>The bits of given integers, as a valuation of the bit names.\<close>

definition bits_of :: "(string \<Rightarrow> int) \<Rightarrow> string \<Rightarrow> bool" where
  "bits_of \<sigma> y \<longleftrightarrow> (\<exists>x i. y = bit_name x i \<and> odd (\<sigma> x div 2 ^ i))"

lemma word_val_bits_of: "word_val w (bits_of \<sigma>) x = \<sigma> x mod 2 ^ w"
proof -
  have "map (\<lambda>i. bits_of \<sigma> (bit_name x i)) [0..<w] = map (\<lambda>i. odd (\<sigma> x div 2 ^ i)) [0..<w]"
    by (simp add: bits_of_def bit_name_inj2)
  then show ?thesis unfolding word_val_def by (simp only: bits_nat_odd) simp
qed

lemma word_val_cong: "\<forall>y \<in> bit_name x ` {..<w}. \<rho> y = \<rho>' y \<Longrightarrow> word_val w \<rho> x = word_val w \<rho>' x"
proof -
  assume "\<forall>y \<in> bit_name x ` {..<w}. \<rho> y = \<rho>' y"
  then have "map (\<lambda>i. \<rho> (bit_name x i)) [0..<w] = map (\<lambda>i. \<rho>' (bit_name x i)) [0..<w]" by simp
  then show ?thesis unfolding word_val_def by (simp only:)
qed

lemma teval_cong: "(\<And>x. x \<in> tvars t \<Longrightarrow> \<sigma> x mod 2 ^ w = \<tau> x mod 2 ^ w) \<Longrightarrow> teval \<sigma> t mod 2 ^ w = teval \<tau> t mod 2 ^ w"
proof (induction t)
  case (TAdd ts)
  have "(\<Sum>t \<leftarrow> us. teval \<sigma> t) mod 2 ^ w = (\<Sum>t \<leftarrow> us. teval \<tau> t) mod 2 ^ w" if "set us \<subseteq> set ts" for us
    using that
  proof (induction us)
    case (Cons u us)
    have "teval \<sigma> u mod 2 ^ w = teval \<tau> u mod 2 ^ w" using TAdd Cons.prems by force
    then show ?case using Cons by (auto intro: mod_add_cong)
  qed simp
  then show ?case by simp
next
  case (TSub a b)
  then show ?case by (auto intro!: mod_diff_cong)
next
  case (TNeg a)
  then show ?case by (auto intro!: mod_minus_cong)
next
  case (TMul a b)
  then show ?case by (auto intro!: mod_mult_cong)
qed simp_all

lemma finite_tvars [simp]: "finite (tvars t)"
  by (induction t) simp_all

lemma var_names: "var_names t out = out \<union> tvars t"
proof (induction t arbitrary: out)
  case (TAdd ts)
  have "fold var_names us out = out \<union> (\<Union>u \<in> set us. tvars u)" if "set us \<subseteq> set ts" for us
    using that TAdd by (induction us arbitrary: out) auto
  then show ?case by simp
next
  case (TConcat ts)
  have "fold var_names us out = out \<union> (\<Union>u \<in> set us. tvars u)" if "set us \<subseteq> set ts" for us
    using that TConcat by (induction us arbitrary: out) auto
  then show ?case by simp
qed auto

definition atom_vars :: "eq_atom \<Rightarrow> string set" where
  "atom_vars e = tvars (eq_t1 e) \<union> tvars (eq_t2 e)"

lemma atom_names: "atom_names atoms = (\<Union>e \<in> set atoms. atom_vars e)"
proof -
  have "fold (\<lambda>e out. var_names (eq_t2 e) (var_names (eq_t1 e) out)) atoms out = out \<union> (\<Union>e \<in> set atoms. atom_vars e)" for out
    by (induction atoms arbitrary: out) (auto simp: var_names atom_vars_def)
  then show ?thesis by (simp add: atom_names_def)
qed

subsection \<open>The solver with its words\<close>

lemma count_upd [simp]: "inv (s\<lparr>n_clauses := x\<rparr>) = inv s" "mods (s\<lparr>n_clauses := x\<rparr>) = mods s" "n_vars (s\<lparr>n_clauses := x\<rparr>) = n_vars s"
  "true_lit (s\<lparr>n_clauses := x\<rparr>) = true_lit s"
proof -
  show "inv (s\<lparr>n_clauses := x\<rparr>) = inv s" unfolding inv_def binv_parts vsids_ok_def clits_def by (simp cong: option.case_cong)
  show "mods (s\<lparr>n_clauses := x\<rparr>) = mods s" unfolding mods_def root_trail_def by (simp cong: list.case_cong)
qed simp_all

interpretation counter: clause_sink count_add
proof unfold_locales
  fix s :: count_solver and ls assume s: "inv s" "\<forall>l \<in> set ls. lit_ok (n_vars s) l"
  let ?s = "if \<not> taut_scan {} ls \<and> ls \<noteq> [] then s\<lparr>n_clauses := n_clauses s + 1\<rparr> else s"
  have i: "inv ?s" "mods ?s = mods s" "n_vars ?s = n_vars s" "true_lit ?s = true_lit s" using s(1) by simp_all
  have "\<forall>l \<in> set ls. lit_ok (n_vars ?s) l" using s(2) i(3) by simp
  from add_clause_cases [OF i(1) this]
  show "inv (snd (count_add ls s)) \<and> mods (snd (count_add ls s)) = mods s \<inter> {m. sat_clause m ls} \<and>
    n_vars (snd (count_add ls s)) = n_vars s \<and> true_lit (snd (count_add ls s)) = true_lit s"
    unfolding count_add_def using i by simp
qed

definition word_env :: "string set \<Rightarrow> nat \<Rightarrow> env \<Rightarrow> 'a solver_scheme \<Rightarrow> bool" where
  "word_env names w env s \<longleftrightarrow> sinv s \<and> env_ok (n_vars s) env (bit_names w names) \<and> (\<forall>x l. env x = Some l \<longrightarrow> l > 0) \<and>
     (\<forall>\<sigma>. \<exists>m \<in> mods s. \<forall>x \<in> names. word_val w (eval_env env m) x = \<sigma> x mod 2 ^ w)"

lemma alloc_pos:
  assumes "alloc_names xs Map.empty s = (env, s')" "sinv s" "distinct xs" "env x = Some l"
  shows "l > 0"
proof -
  note a = alloc_names [OF assms(1-3)]
  have "x \<in> set xs" using a assms(4) by fastforce
  then obtain i where "i < length xs" "x = xs ! i" by (auto simp: in_set_conv_nth)
  then show ?thesis using a assms(4) by (metis of_nat_0_less_iff option.inject zero_less_Suc)
qed

lemma word_bits_ok:
  assumes "finite names"
  shows "distinct (word_bits names w)" "set (word_bits names w) = bit_names w names"
proof -
  have "distinct (concat (map (\<lambda>x. map (bit_name x) [0..<w]) xs))" if "distinct xs" for xs
    using that by (induction xs) (auto simp: distinct_map inj_on_def bit_name_inj2)
  then show "distinct (word_bits names w)" using assms by (simp add: word_bits_def)
  show "set (word_bits names w) = bit_names w names" using assms by (auto simp: word_bits_def bit_names_def)
qed

lemma CountSolver_ok: "sinv CountSolver" "mods CountSolver = UNIV" "n_vars CountSolver = 0"
proof -
  have e: "inv (solver.extend s e) = inv s" "mods (solver.extend s e) = mods s" for s :: solver and e :: "'z"
  proof -
    show "inv (solver.extend s e) = inv s" unfolding inv_def binv_parts vsids_ok_def clits_def
      by (simp add: solver.defs cong: option.case_cong)
    show "mods (solver.extend s e) = mods s" unfolding mods_def root_trail_def by (simp add: solver.defs cong: list.case_cong)
  qed
  have "true_lit CountSolver = None" "n_vars CountSolver = 0" by (simp_all add: CountSolver_def Solver_def solver.defs)
  then show "sinv CountSolver" "mods CountSolver = UNIV" "n_vars CountSolver = 0"
    using inv_Solver mods_Solver by (simp_all add: CountSolver_def e sinv_def)
qed

lemma word_env_start:
  assumes "finite names" "alloc_names (word_bits names w) Map.empty CountSolver = (env, s)"
  shows "word_env names w env s"
proof -
  note d = word_bits_ok [OF assms(1), of w]
  note g = grows_alloc [OF assms(2) CountSolver_ok(1) d(1)]
  have "\<exists>m \<in> mods s. \<forall>x \<in> names. word_val w (eval_env env m) x = \<sigma> x mod 2 ^ w" for \<sigma>
  proof -
    obtain m where m: "m \<in> mods s" "\<forall>y \<in> set (word_bits names w). eval_env env m y = bits_of \<sigma> y"
      using alloc_choice [OF assms(2) CountSolver_ok(1) d(1), of "\<lambda>_. True" "bits_of \<sigma>"] by (auto simp: CountSolver_ok)
    have "word_val w (eval_env env m) x = \<sigma> x mod 2 ^ w" if "x \<in> names" for x
      unfolding word_val_bits_of [symmetric] by (rule word_val_cong) (use m(2) that d(2) in \<open>auto simp: bit_names_def\<close>)
    then show ?thesis using m(1) by blast
  qed
  then show ?thesis using growsD(1) [OF g(1)] g(2) d(2) alloc_pos [OF assms(2) CountSolver_ok(1) d(1)] by (simp add: word_env_def)
qed

lemma read_words_ok:
  assumes e: "env_ok n env (bit_names w names)" "\<forall>x l. env x = Some l \<longrightarrow> l > 0" and fin: "finite names"
  shows "read_words s env names w = Some (map (\<lambda>x. (x, nat (word_val w (eval_env env (\<lambda>v. get_value v s)) x))) (sorted_list_of_set names))"
proof -
  have g: "get_name s env y = Some (eval_env env (\<lambda>v. get_value v s) y)" if y: "y \<in> bit_names w names" for y
  proof -
    obtain l where "env y = Some l" "0 < l" using e y unfolding env_ok_def by blast
    then show ?thesis by (simp add: get_name_def eval_env_def sat_lit_def lvar_def)
  qed
  have "read_bv s env x w = Some (nat (word_val w (eval_env env (\<lambda>v. get_value v s)) x))" if "x \<in> names" for x
  proof -
    let ?\<rho> = "eval_env env (\<lambda>v. get_value v s)"
    have "those (map (\<lambda>i. get_name s env (bit_name x i)) [0..<w]) = Some (map (\<lambda>i. ?\<rho> (bit_name x i)) [0..<w])"
    proof -
      have m: "map (\<lambda>i. get_name s env (bit_name x i)) [0..<w] = map Some (map (\<lambda>i. ?\<rho> (bit_name x i)) [0..<w])"
        using g [of "bit_name x _"] that by (fastforce simp: bit_names_def)
      have "those (map Some ys) = Some ys" for ys :: "bool list" by (induction ys) simp_all
      then show ?thesis unfolding m by blast
    qed
    moreover have "(\<Sum>i \<leftarrow> [0..<w]. if map (\<lambda>i. ?\<rho> (bit_name x i)) [0..<w] ! i then 2 ^ i else 0) = nat (word_val w ?\<rho> x)"
    proof -
      have "map (\<lambda>i. if map (\<lambda>i. ?\<rho> (bit_name x i)) [0..<w] ! i then 2 ^ i else 0) [0..<w] = map (\<lambda>i. if ?\<rho> (bit_name x i) then 2 ^ i else (0::nat)) [0..<w]"
        by (rule map_cong) auto
      then show ?thesis by (simp only: bits_nat_sum word_val_def nat_int)
    qed
    ultimately show ?thesis unfolding read_bv_def read_bits_def by (simp only: bind.bind_lunit)
  qed
  then have m: "map (\<lambda>x. map_option (Pair x) (read_bv s env x w)) (sorted_list_of_set names) =
      map Some (map (\<lambda>x. (x, nat (word_val w (eval_env env (\<lambda>v. get_value v s)) x))) (sorted_list_of_set names))"
    using fin by simp
  have "those (map Some ys) = Some ys" for ys :: "(string \<times> nat) list" by (induction ys) simp_all
  then show ?thesis unfolding read_words_def m by blast
qed

definition wit_val :: "(string \<times> nat) list \<Rightarrow> string \<Rightarrow> int" where
  "wit_val wit x = (case map_of wit x of Some v \<Rightarrow> int v | None \<Rightarrow> 0)"

lemma wit_val_words:
  assumes "finite names" "x \<in> names"
  shows "wit_val (map (\<lambda>x. (x, nat (word_val w \<rho> x))) (sorted_list_of_set names)) x = word_val w \<rho> x"
  using assms word_val_range(1) [of w \<rho> x] by (simp add: wit_val_def map_of_map_restrict)

subsection \<open>Bit-blasting is exact\<close>

lemma builds_differ:
  assumes "set a \<union> set b \<subseteq> A" and l: "length a = length b"
  shows "builds A (\<lambda>r. {r}) (differ_s a b) (denotes (\<lambda>\<rho>. bvv \<rho> a \<noteq> bvv \<rho> b) (bv_vars a \<union> bv_vars b))"
proof -
  let ?z = "zip a b"
  let ?ne = "\<lambda>(x, y). denotes (\<lambda>\<rho>. sval \<rho> x \<noteq> sval \<rho> y) (svars x \<union> svars y)"
  have sub: "{x, y} \<subseteq> A \<union> {TRUE_s, FALSE_s}" if "(x, y) \<in> set ?z" for x y
    using assms set_zip_leftD [OF that] set_zip_rightD [OF that] by auto
  have 1: "builds A set (alloc_map (\<lambda>(x, y). XOR_s x y) ?z) (list_all2 ?ne ?z)"
  proof (rule builds_weaken [OF builds_alloc_map])
    show "builds A (\<lambda>r. {r}) (case p of (x, y) \<Rightarrow> XOR_s x y) (?ne p)" if "p \<in> set ?z" for p
      using sub that by (cases p) (auto intro!: builds_weaken [OF builds_XOR])
  qed auto
  have 2: "builds (A \<union> set xs) (\<lambda>r. {r}) (OR_s xs) (denotes (\<lambda>\<rho>. bvv \<rho> a \<noteq> bvv \<rho> b) (bv_vars a \<union> bv_vars b))"
    if xs: "list_all2 ?ne ?z xs" for xs
  proof -
    have v: "(\<exists>x \<in> set xs. sval \<rho> x) \<longleftrightarrow> bvv \<rho> a \<noteq> bvv \<rho> b" for \<rho>
    proof -
      have "(\<exists>x \<in> set xs. sval \<rho> x) \<longleftrightarrow> \<not> (\<forall>(x, y) \<in> set ?z. sval \<rho> x = sval \<rho> y)"
        using xs by (induction rule: list_all2_induct) (auto simp: denotes_def)
      also have "(\<forall>(x, y) \<in> set ?z. sval \<rho> x = sval \<rho> y) \<longleftrightarrow> bvv \<rho> a = bvv \<rho> b"
        by (simp only: bvv_eq_iff [OF l] list_all2_iff l) simp
      finally show ?thesis .
    qed
    have "(\<Union>x \<in> set xs. svars x) \<subseteq> (\<Union>(x, y) \<in> set ?z. svars x \<union> svars y)"
      using xs by (induction rule: list_all2_induct) (auto simp: denotes_def)
    also have "\<dots> \<subseteq> bv_vars a \<union> bv_vars b"
      by (auto simp: bv_vars_def dest: set_zip_leftD set_zip_rightD)
    finally have X: "(\<Union>x \<in> set xs. svars x) \<subseteq> bv_vars a \<union> bv_vars b" .
    show ?thesis by (rule builds_sig_weaken [OF builds_OR _ v X]) auto
  qed
  show ?thesis unfolding differ_s_def by (rule builds_bind [OF 1 2])
qed

definition equal_at :: "nat \<Rightarrow> (string \<Rightarrow> int) \<Rightarrow> trm \<Rightarrow> trm \<Rightarrow> bool" where
  "equal_at w \<sigma> a b \<longleftrightarrow> teval \<sigma> a mod 2 ^ w = teval \<sigma> b mod 2 ^ w"

lemma equal_at_cong:
  assumes "\<forall>x \<in> tvars a \<union> tvars b. \<sigma> x mod 2 ^ w = \<tau> x mod 2 ^ w"
  shows "equal_at w \<sigma> a b = equal_at w \<tau> a b"
  unfolding equal_at_def using teval_cong [of a \<sigma> w \<tau>] teval_cong [of b \<sigma> w \<tau>] assms by simp

lemma miter_ok:
  assumes a: "arith a" and b: "arith b" and P: "pool_ok n P"
  obtains A B d n1 n2 n' P' where "lower a w n = Some (A, n1)" "lower b w n1 = Some (B, n2)" "run_state (differ_s A B) n2 = (d, n')"
    "pool_ok n' P'" "P \<subseteq> P'" "d \<in> P'" "svars d \<subseteq> bit_names w (tvars a \<union> tvars b)"
    "\<And>\<rho>. sval \<rho> d \<longleftrightarrow> \<not> equal_at w (word_val w \<rho>) a b"
proof -
  obtain A n1 P1 where A: "lower a w n = Some (A, n1)" "pool_ok n1 P1" "P \<subseteq> P1" "set A \<subseteq> P1" "lowered w a A"
    using lower_ok(1) [OF a P] by blast
  obtain B n2 P2 where B: "lower b w n1 = Some (B, n2)" "pool_ok n2 P2" "P1 \<subseteq> P2" "set B \<subseteq> P2" "lowered w b B"
    using lower_ok(1) [OF b A(2)] by blast
  have AB: "set A \<union> set B \<subseteq> P2" using A(4) B(3,4) by blast
  have len: "length A = w" "length B = w" using A(5) B(5) by (simp_all add: lowered_def bv_denotes_def)
  then have l: "length A = length B" by simp
  obtain d n' P' where d: "run_state (differ_s A B) n2 = (d, n')" "pool_ok n' P'" "P2 \<subseteq> P'" "{d} \<subseteq> P'"
    "denotes (\<lambda>\<rho>. bvv \<rho> A \<noteq> bvv \<rho> B) (bv_vars A \<union> bv_vars B) d"
    by (rule buildsE [OF builds_differ [OF order_refl l] B(2) AB]) (rule that)
  have "bv_vars A \<union> bv_vars B \<subseteq> bit_names w (tvars a \<union> tvars b)"
    using A(5) B(5) by (auto simp: lowered_def bv_denotes_def bit_names_def)
  then have v: "svars d \<subseteq> bit_names w (tvars a \<union> tvars b)" using d(5) unfolding denotes_def by blast
  have "sval \<rho> d \<longleftrightarrow> \<not> equal_at w (word_val w \<rho>) a b" for \<rho>
  proof -
    have "sval \<rho> d \<longleftrightarrow> nat (teval (word_val w \<rho>) a mod 2 ^ w) \<noteq> nat (teval (word_val w \<rho>) b mod 2 ^ w)"
      using d(5) A(5) B(5) by (simp add: denotes_def lowered_def bv_denotes_def)
    then show ?thesis by (simp add: equal_at_def eq_nat_nat_iff)
  qed
  then show ?thesis using A(1) B(1) d(1,2,4) v order_trans [OF A(3) order_trans [OF B(3) d(3)]] by (intro that) auto
qed

definition atom_true :: "nat \<Rightarrow> (string \<Rightarrow> int) \<Rightarrow> eq_atom \<Rightarrow> bool" where
  "atom_true w \<sigma> e = equal_at w \<sigma> (eq_t1 e) (eq_t2 e)"

definition arith_atom :: "eq_atom \<Rightarrow> bool" where
  "arith_atom e \<longleftrightarrow> arith (eq_t1 e) \<and> arith (eq_t2 e)"

lemma bounded_equal:
  assumes "env_ok n env (bit_names w X)" "tvars a \<union> tvars b \<subseteq> X"
  shows "bounded n (\<lambda>m. equal_at w (word_val w (eval_env env m)) a b)"
proof (rule boundedI)
  fix m m' :: "nat \<Rightarrow> bool" assume m: "\<forall>v \<le> n. m v = m' v"
  have e: "eval_env env m y = eval_env env m' y" if "y \<in> bit_names w X" for y
    by (rule eval_env_agree [OF assms(1) that]) (use m in simp)
  have "word_val w (eval_env env m) x = word_val w (eval_env env m') x" if x: "x \<in> tvars a \<union> tvars b" for x
  proof (rule word_val_cong, rule ballI)
    fix y assume "y \<in> bit_name x ` {..<w}"
    then have "y \<in> bit_names w X" using assms(2) x unfolding bit_names_def by blast
    then show "eval_env env m y = eval_env env m' y" by (rule e)
  qed
  then show "equal_at w (word_val w (eval_env env m)) a b = equal_at w (word_val w (eval_env env m')) a b"
    by (intro equal_at_cong) simp
qed

lemma blast_atoms_ok:
  "\<forall>(i, e) \<in> set es. arith_atom e \<and> atom_vars e \<subseteq> X \<Longrightarrow> pool_ok n P \<Longrightarrow> sinv s \<Longrightarrow> env_ok (n_vars s) env (bit_names w X) \<Longrightarrow>
   memo_in P env memo s \<Longrightarrow>
   \<exists>s' n' P'. blast_atoms truth w env es memo s n = Some (s', n') \<and> pool_ok n' P' \<and> P \<subseteq> P' \<and>
     grows (\<lambda>m. \<forall>(i, e) \<in> set es. truth i = atom_true w (word_val w (eval_env env m)) e) s s'"
proof (induction es arbitrary: n P s memo)
  case Nil
  then show ?case by (auto simp: grows_refl)
next
  case (Cons ie es)
  obtain i e where ie: "ie = (i, e)" by fastforce
  have e: "arith (eq_t1 e)" "arith (eq_t2 e)" "tvars (eq_t1 e) \<union> tvars (eq_t2 e) \<subseteq> X"
    using Cons.prems(1) by (auto simp: ie arith_atom_def atom_vars_def)
  obtain A B d n1 n2 n3 P3 where d: "lower (eq_t1 e) w n = Some (A, n1)" "lower (eq_t2 e) w n1 = Some (B, n2)"
    "run_state (differ_s A B) n2 = (d, n3)" "pool_ok n3 P3" "P \<subseteq> P3" "d \<in> P3"
    "svars d \<subseteq> bit_names w (tvars (eq_t1 e) \<union> tvars (eq_t2 e))"
    "\<And>\<rho>. sval \<rho> d \<longleftrightarrow> \<not> equal_at w (word_val w \<rho>) (eq_t1 e) (eq_t2 e)"
    by (rule miter_ok [OF e(1,2) Cons.prems(2)]) (rule that)
  have pool: "pool P3" using d(4) by (simp add: pool_ok_def)
  have dX: "svars d \<subseteq> bit_names w X" using d(7) bit_names_mono [OF e(3)] by (rule order_trans)
  obtain l memo1 s1 where t: "tseitin count_add d env memo s = Some (l, memo1, s1)"
    "\<And>b. grows (\<lambda>m. sval (eval_env env m) d = b) s (snd (count_add [if b then l else - l] s1))"
    "\<And>b. memo_in P3 env memo1 (snd (count_add [if b then l else - l] s1))"
    by (rule counter.assert_sig_in [OF pool d(6) Cons.prems(3,4) dX memo_in_pool [OF Cons.prems(5) pool d(5)]]) (rule that)
  let ?s = "snd (count_add [if \<not> truth i then l else - l] s1)"
  have g1: "grows (\<lambda>m. truth i = atom_true w (word_val w (eval_env env m)) e) s ?s"
    by (rule grows_cong [OF t(2)]) (auto simp: d(8) atom_true_def)
  have es: "\<forall>(i, e) \<in> set es. arith_atom e \<and> atom_vars e \<subseteq> X" using Cons.prems(1) by simp
  obtain s' n' P' where IH: "blast_atoms truth w env es memo1 ?s n3 = Some (s', n')" "pool_ok n' P'" "P3 \<subseteq> P'"
    "grows (\<lambda>m. \<forall>(i, e) \<in> set es. truth i = atom_true w (word_val w (eval_env env m)) e) ?s s'"
    using Cons.IH [OF es d(4) growsD(1) [OF g1] env_ok_grows [OF Cons.prems(4) g1] t(3)] by blast
  have "bounded (n_vars s) (\<lambda>m. \<forall>(i, e) \<in> set es. truth i = atom_true w (word_val w (eval_env env m)) e)"
  proof (rule bounded_all)
    fix p assume p: "p \<in> set es"
    obtain j f where jf: "p = (j, f)" by fastforce
    have "bounded (n_vars s) (\<lambda>m. equal_at w (word_val w (eval_env env m)) (eq_t1 f) (eq_t2 f))"
      by (rule bounded_equal [OF Cons.prems(4)]) (use es p jf in \<open>auto simp: atom_vars_def\<close>)
    then show "bounded (n_vars s) (\<lambda>m. case p of (i, e) \<Rightarrow> truth i = atom_true w (word_val w (eval_env env m)) e)"
      unfolding jf atom_true_def bounded_def by auto
  qed
  from grows_trans [OF g1 IH(4) this]
  have "grows (\<lambda>m. \<forall>(i, e) \<in> set (ie # es). truth i = atom_true w (word_val w (eval_env env m)) e) s s'"
    by (rule grows_cong) (simp add: ie)
  then show ?case using d(1-3) t(1) IH(1,2) order_trans [OF d(5) IH(3)] by (auto simp: ie)
qed

lemma enumerate_mem: "(i, e) \<in> set (enumerate 1 xs) \<longleftrightarrow> 1 \<le> i \<and> i \<le> length xs \<and> e = xs ! (i - 1)"
  by (auto simp: in_set_enumerate_eq)

lemma bitblast_all_ok:
  assumes ar: "\<forall>e \<in> set atoms. arith_atom e" and P: "pool_ok n P"
  shows "\<exists>r n' P'. bitblast_all atoms truth w n = Some (r, n') \<and> pool_ok n' P' \<and> P \<subseteq> P' \<and>
    (case r of
       None \<Rightarrow> \<not> (\<exists>\<sigma>. \<forall>(i, e) \<in> set (enumerate 1 atoms). truth i = atom_true w \<sigma> e)
     | Some wit \<Rightarrow> \<forall>(i, e) \<in> set (enumerate 1 atoms). truth i = atom_true w (wit_val wit) e)"
proof -
  let ?X = "\<Union>e \<in> set atoms. atom_vars e" and ?es = "enumerate 1 atoms"
  have fin: "finite ?X" by (simp add: atom_vars_def)
  obtain env s where al: "alloc_names (word_bits ?X w) Map.empty CountSolver = (env, s)" by fastforce
  have we: "sinv s" "env_ok (n_vars s) env (bit_names w ?X)" "\<forall>x l. env x = Some l \<longrightarrow> l > 0"
    "\<And>\<sigma>. \<exists>m \<in> mods s. \<forall>x \<in> ?X. word_val w (eval_env env m) x = \<sigma> x mod 2 ^ w"
    using word_env_start [OF fin al] by (auto simp: word_env_def)
  have in_es: "e \<in> set atoms" if "(i, e) \<in> set ?es" for i e using that unfolding enumerate_mem by auto
  have es: "\<forall>(i, e) \<in> set ?es. arith_atom e \<and> atom_vars e \<subseteq> ?X" using in_es ar by blast
  obtain s' n' P' where b: "blast_atoms truth w env ?es Map.empty s n = Some (s', n')" "pool_ok n' P'" "P \<subseteq> P'"
     "grows (\<lambda>m. \<forall>(i, e) \<in> set ?es. truth i = atom_true w (word_val w (eval_env env m)) e) s s'"
    using blast_atoms_ok [OF es P we(1,2) memo_in_empty] by blast
  obtain sat s'' where r: "solve [] s' = Some (sat, s'')"
    "sat \<longleftrightarrow> (\<exists>m \<in> mods s. \<forall>(i, e) \<in> set ?es. truth i = atom_true w (word_val w (eval_env env m)) e)"
    "sat \<longrightarrow> (\<forall>(i, e) \<in> set ?es. truth i = atom_true w (word_val w (eval_env env (\<lambda>v. get_value v s''))) e)"
    using grows_solve [OF b(4)] by blast
  let ?wit = "map (\<lambda>x. (x, nat (word_val w (eval_env env (\<lambda>v. get_value v s'')) x))) (sorted_list_of_set ?X)"
  have rw: "read_words s'' env ?X w = Some ?wit" by (rule read_words_ok [OF we(2,3) fin])
  have run: "bitblast_all atoms truth w n = Some (if sat then Some ?wit else None, n')"
    using al b(1) r(1) rw by (simp add: bitblast_all_def atom_names)
  have wit: "atom_true w (wit_val ?wit) e = atom_true w (word_val w (eval_env env (\<lambda>v. get_value v s''))) e" if "(i, e) \<in> set ?es" for i e
    unfolding atom_true_def
  proof (rule equal_at_cong, rule ballI)
    fix x assume "x \<in> tvars (eq_t1 e) \<union> tvars (eq_t2 e)"
    then have "x \<in> ?X" using in_es [OF that] unfolding atom_vars_def by blast
    from wit_val_words [OF fin this]
    show "wit_val ?wit x mod 2 ^ w = word_val w (eval_env env (\<lambda>v. get_value v s'')) x mod 2 ^ w" by (rule arg_cong)
  qed
  show ?thesis
  proof (cases sat)
    case True
    then have "\<forall>(i, e) \<in> set ?es. truth i = atom_true w (wit_val ?wit) e" using r(3) wit by auto
    then show ?thesis using run True b(2,3) by auto
  next
    case False
    have "\<not> (\<forall>(i, e) \<in> set ?es. truth i = atom_true w \<sigma> e)" for \<sigma>
    proof
      assume \<sigma>: "\<forall>(i, e) \<in> set ?es. truth i = atom_true w \<sigma> e"
      obtain m where m: "m \<in> mods s" "\<forall>x \<in> ?X. word_val w (eval_env env m) x = \<sigma> x mod 2 ^ w" using we(4) by blast
      have "atom_true w (word_val w (eval_env env m)) e = atom_true w \<sigma> e" if "(i, e) \<in> set ?es" for i e
        unfolding atom_true_def by (rule equal_at_cong) (use m(2) in_es [OF that] in \<open>auto simp: atom_vars_def\<close>)
      then have "\<forall>(i, e) \<in> set ?es. truth i = atom_true w (word_val w (eval_env env m)) e" using \<sigma> by auto
      then show False using r(2) m(1) False by blast
    qed
    then show ?thesis using run False b(2,3) by auto
  qed
qed

lemma bitblast_equiv_ok:
  assumes ar: "arith a" "arith b" and P: "pool_ok n P"
  shows "\<exists>r n' P'. bitblast_equiv a b w count_only n = Some (r, n') \<and> pool_ok n' P' \<and> P \<subseteq> P' \<and>
    (case r of
       COUNTED k \<Rightarrow> count_only
     | BB_UNSAT k \<Rightarrow> \<not> count_only \<and> (\<forall>\<sigma>. equal_at w \<sigma> a b)
     | BB_SAT wit k \<Rightarrow> \<not> count_only \<and> \<not> equal_at w (wit_val wit) a b)"
proof -
  let ?X = "tvars a \<union> tvars b"
  have fin: "finite ?X" by simp
  have names: "var_names b (var_names a {}) = ?X" by (simp add: var_names)
  obtain env s where al: "alloc_names (word_bits ?X w) Map.empty CountSolver = (env, s)" by fastforce
  have we: "sinv s" "env_ok (n_vars s) env (bit_names w ?X)" "\<forall>x l. env x = Some l \<longrightarrow> l > 0"
    "\<And>\<sigma>. \<exists>m \<in> mods s. \<forall>x \<in> ?X. word_val w (eval_env env m) x = \<sigma> x mod 2 ^ w"
    using word_env_start [OF fin al] by (auto simp: word_env_def)
  obtain A B d n1 n2 n3 P3 where d: "lower a w n = Some (A, n1)" "lower b w n1 = Some (B, n2)"
    "run_state (differ_s A B) n2 = (d, n3)" "pool_ok n3 P3" "P \<subseteq> P3" "d \<in> P3" "svars d \<subseteq> bit_names w ?X"
    "\<And>\<rho>. sval \<rho> d \<longleftrightarrow> \<not> equal_at w (word_val w \<rho>) a b"
    by (rule miter_ok [OF ar P]) (rule that)
  have pool: "pool P3" using d(4) by (simp add: pool_ok_def)
  obtain l memo1 s1 where t: "tseitin count_add d env Map.empty s = Some (l, memo1, s1)"
    "\<And>b. grows (\<lambda>m. sval (eval_env env m) d = b) s (snd (count_add [if b then l else - l] s1))"
    by (rule counter.assert_sig_in [OF pool d(6) we(1,2) d(7) memo_in_empty]) (rule that)
  have g: "grows (\<lambda>m. \<not> equal_at w (word_val w (eval_env env m)) a b) s (snd (count_add [l] s1))"
    using t(2) [of True] by (simp add: d(8))
  obtain sat s'' where r: "solve [] (snd (count_add [l] s1)) = Some (sat, s'')"
    "sat \<longleftrightarrow> (\<exists>m \<in> mods s. \<not> equal_at w (word_val w (eval_env env m)) a b)"
    "sat \<longrightarrow> \<not> equal_at w (word_val w (eval_env env (\<lambda>v. get_value v s''))) a b"
    using grows_solve [OF g] by blast
  let ?wit = "map (\<lambda>x. (x, nat (word_val w (eval_env env (\<lambda>v. get_value v s'')) x))) (sorted_list_of_set ?X)"
  have rw: "read_words s'' env ?X w = Some ?wit" by (rule read_words_ok [OF we(2,3) fin])
  let ?k = "n_clauses (snd (count_add [l] s1))" and ?k' = "n_clauses s''"
  have run: "bitblast_equiv a b w count_only n =
      Some (if count_only then COUNTED ?k else if sat then BB_SAT ?wit ?k' else BB_UNSAT ?k', n3)"
    using al d(1-3) t(1) r(1) rw by (simp add: bitblast_equiv_def names)
  have "\<not> equal_at w (wit_val ?wit) a b" if sat
  proof -
    have "equal_at w (wit_val ?wit) a b = equal_at w (word_val w (eval_env env (\<lambda>v. get_value v s''))) a b"
      by (rule equal_at_cong) (use wit_val_words [OF fin] in auto)
    then show ?thesis using r(3) that by simp
  qed
  moreover have "equal_at w \<sigma> a b" if "\<not> sat" for \<sigma>
  proof -
    obtain m where m: "m \<in> mods s" "\<forall>x \<in> ?X. word_val w (eval_env env m) x = \<sigma> x mod 2 ^ w" using we(4) by blast
    have "equal_at w (word_val w (eval_env env m)) a b = equal_at w \<sigma> a b" by (rule equal_at_cong) (use m(2) in auto)
    then show ?thesis using r(2) m(1) that by blast
  qed
  ultimately show ?thesis using run d(4,5) by auto
qed

end
