(* ===== verification/Smt_Loop.thy ===== *)
theory Smt_Loop
  imports Smt
begin

text \<open>
  The correctness of the theory check and of the DPLL(T) loop of \<open>smt.py\<close>: a conflict is a set of
  literals that no valuation satisfies; the loop ends, and its answers are right. The substitution
  that the true equalities induce must not be cyclic, since the source recurses without bound on a
  cyclic one; \<open>ranked\<close> is that condition.
\<close>

subsection \<open>The theory check is sound\<close>

definition atom_at :: "eq_atom list \<Rightarrow> nat \<Rightarrow> eq_atom \<Rightarrow> bool" where
  "atom_at atoms i e \<longleftrightarrow> 1 \<le> i \<and> i \<le> length atoms \<and> e = atoms ! (i - 1)"

definition entails :: "eq_atom list \<Rightarrow> nat \<Rightarrow> nat set \<Rightarrow> trm \<Rightarrow> trm \<Rightarrow> bool" where
  "entails atoms w used a b \<longleftrightarrow> (\<forall>\<sigma>. (\<forall>i \<in> used. \<forall>e. atom_at atoms i e \<longrightarrow> atom_true w \<sigma> e) \<longrightarrow> equal_at w \<sigma> a b)"

definition true_ids :: "eq_atom list \<Rightarrow> (nat \<Rightarrow> bool) \<Rightarrow> nat set" where
  "true_ids atoms truth = {i. 1 \<le> i \<and> i \<le> length atoms \<and> truth i}"

definition link :: "eq_atom list \<Rightarrow> nat \<Rightarrow> string \<Rightarrow> trm \<Rightarrow> bool" where
  "link atoms i x u \<longleftrightarrow> (\<exists>e. atom_at atoms i e \<and> (eq_t1 e = TVar x \<and> eq_t2 e = u \<or> eq_t2 e = TVar x \<and> eq_t1 e = u))"

definition sub_ok :: "eq_atom list \<Rightarrow> (nat \<Rightarrow> bool) \<Rightarrow> subst \<Rightarrow> bool" where
  "sub_ok atoms truth sb \<longleftrightarrow> finite (dom (fst sb)) \<and>
     (\<forall>x u. fst sb x = Some u \<longrightarrow> (\<exists>i. snd sb x = Some i \<and> i \<in> true_ids atoms truth \<and> link atoms i x u))"

lemma atom_at_enum: "atom_at atoms i e \<longleftrightarrow> (i, e) \<in> set (enumerate 1 atoms)"
  unfolding atom_at_def by (rule enumerate_mem [symmetric])

lemma entails_refl: "entails atoms w used a a"
  by (simp add: entails_def equal_at_def)

lemma entails_trans: "entails atoms w used a b \<Longrightarrow> entails atoms w used b c \<Longrightarrow> entails atoms w used a c"
  by (simp add: entails_def equal_at_def)

lemma entails_mono: "entails atoms w used a b \<Longrightarrow> used \<subseteq> used' \<Longrightarrow> entails atoms w used' a b"
  unfolding entails_def by blast

lemma bind_var_ok:
  assumes "sub_ok atoms truth sb" "bind_var a b i sb = Some sb'" "truth i" "atom_at atoms i e"
    "a = eq_t1 e \<and> b = eq_t2 e \<or> a = eq_t2 e \<and> b = eq_t1 e"
  shows "sub_ok atoms truth sb'"
proof -
  obtain x where x: "a = TVar x" "sb' = ((fst sb)(x \<mapsto> b), (snd sb)(x \<mapsto> i))"
    using assms(2) by (auto simp: bind_var_def split: trm.splits if_splits)
  have "link atoms i x b" using assms(4,5) x(1) by (auto simp: link_def)
  moreover have "i \<in> true_ids atoms truth" using assms(3,4) by (simp add: true_ids_def atom_at_def)
  ultimately show ?thesis using assms(1) x(2) by (auto simp: sub_ok_def)
qed

lemma collect_ok:
  assumes "sub_ok atoms truth sb" "atom_at atoms i e"
  shows "sub_ok atoms truth (collect truth (i, e) sb)"
  using assms bind_var_ok [OF assms(1) _ _ assms(2)]
  by (auto simp: collect_def split: option.splits)

lemma collect_all_ok: "sub_ok atoms truth (fold (collect truth) (enumerate 1 atoms) (Map.empty, Map.empty))"
proof -
  have "sub_ok atoms truth (fold (collect truth) es sb)" if "\<forall>(i, e) \<in> set es. atom_at atoms i e" "sub_ok atoms truth sb" for es sb
    using that
  proof (induction es arbitrary: sb)
    case (Cons ie es)
    obtain i e where ie: "ie = (i, e)" by fastforce
    have "sub_ok atoms truth (collect truth (i, e) sb)" using Cons.prems by (intro collect_ok) (simp_all add: ie)
    then show ?case using Cons ie by simp
  qed simp
  from this [of "enumerate 1 atoms"] show ?thesis by (simp add: sub_ok_def atom_at_enum split_beta)
qed

lemma link_step:
  assumes ar: "\<forall>e \<in> set atoms. arith_atom e" and l: "link atoms i x u"
  shows "entails atoms w {i} (TVar x) u" "arith u"
proof -
  obtain e where e: "atom_at atoms i e" "eq_t1 e = TVar x \<and> eq_t2 e = u \<or> eq_t2 e = TVar x \<and> eq_t1 e = u"
    using l by (auto simp: link_def)
  then have "e \<in> set atoms" by (auto simp: atom_at_def)
  then show "arith u" using ar e(2) by (auto simp: arith_atom_def)
  have "\<forall>e'. atom_at atoms i e' \<longrightarrow> atom_true w \<sigma> e' \<Longrightarrow> equal_at w \<sigma> (TVar x) u" for \<sigma>
    using e by (auto simp: atom_true_def equal_at_def)
  then show "entails atoms w {i} (TVar x) u" by (simp add: entails_def)
qed

lemma chase_ok:
  assumes ar: "\<forall>e \<in> set atoms. arith_atom e" and sb: "sub_ok atoms truth sb" and t: "arith t"
    and r: "loop (chase_body sb) (t, met, used) = Some (t', used')"
  shows "used \<subseteq> used' \<and> used' \<subseteq> used \<union> true_ids atoms truth \<and> entails atoms w used' t t' \<and> arith t'"
proof -
  let ?I = "\<lambda>(t', met, used'). used \<subseteq> used' \<and> used' \<subseteq> used \<union> true_ids atoms truth \<and> entails atoms w used' t t' \<and> arith t'"
  let ?Q = "\<lambda>(t', used'). used \<subseteq> used' \<and> used' \<subseteq> used \<union> true_ids atoms truth \<and> entails atoms w used' t t' \<and> arith t'"
  have "?Q (t', used')"
  proof (rule loop_partial [OF r, where I = ?I])
    show "?I (t, met, used)" using t by (simp add: entails_refl)
  next
    fix st st' assume I: "?I st" and b: "chase_body sb st = Some (Inr st')"
    obtain u m us where st: "st = (u, m, us)" by (metis prod_cases3)
    obtain x v i where x: "u = TVar x" "fst sb x = Some v" "snd sb x = Some i" "st' = (v, insert x m, insert i us)"
      using b by (auto simp: st chase_body_def bind_eq_Some_conv split: trm.splits option.splits if_splits)
    have i: "i \<in> true_ids atoms truth" "link atoms i x v" using sb x(2,3) unfolding sub_ok_def by (metis option.inject)+
    have "entails atoms w (insert i us) t u" using I by (auto simp: st intro: entails_mono)
    moreover have "entails atoms w (insert i us) u v" using link_step(1) [OF ar i(2)] x(1) by (auto intro: entails_mono)
    ultimately have "entails atoms w (insert i us) t v" by (rule entails_trans)
    then show "?I st'" using I i(1) link_step(2) [OF ar i(2)] by (auto simp: st x(4))
  next
    fix st r assume I: "?I st" and b: "chase_body sb st = Some (Inl r)"
    obtain u m us where st: "st = (u, m, us)" by (metis prod_cases3)
    have "r = (u, us)" using b by (auto simp: st chase_body_def bind_eq_Some_conv split: trm.splits option.splits if_splits)
    then show "?Q r" using I by (simp add: st)
  qed
  then show ?thesis by simp
qed

lemma with_args_ok:
  assumes "arith t" "list_all2 (entails atoms w used) (targs t) as" "\<forall>a \<in> set as. arith a"
  shows "entails atoms w used t (with_args t as)" "arith (with_args t as)"
proof -
  have len: "length as = length (targs t)" using assms(2) by (simp add: list_all2_lengthD)
  have "equal_at w \<sigma> t (with_args t as)" if \<sigma>: "\<forall>i \<in> used. \<forall>e. atom_at atoms i e \<longrightarrow> atom_true w \<sigma> e" for \<sigma>
  proof -
    have eq: "list_all2 (\<lambda>a b. teval \<sigma> a mod 2 ^ w = teval \<sigma> b mod 2 ^ w) (targs t) as"
      using assms(2) \<sigma> by (auto simp: entails_def equal_at_def elim!: list_all2_mono)
    have sum: "(\<Sum>a \<leftarrow> xs. teval \<sigma> a) mod 2 ^ w = (\<Sum>a \<leftarrow> ys. teval \<sigma> a) mod 2 ^ w"
      if "list_all2 (\<lambda>a b. teval \<sigma> a mod 2 ^ w = teval \<sigma> b mod 2 ^ w) xs ys" for xs ys
      using that by (induction rule: list_all2_induct) (auto intro: mod_add_cong)
    show ?thesis
      using assms(1) eq sum unfolding equal_at_def
      by (cases t) (auto simp: list_all2_Cons1 intro!: mod_diff_cong mod_minus_cong mod_mult_cong)
  qed
  then show "entails atoms w used t (with_args t as)" by (simp add: entails_def)
  show "arith (with_args t as)" using assms(1,3) len
    by (cases t) (auto simp: length_Suc_conv numeral_2_eq_2)
qed

lemma arith_targs: "arith t \<Longrightarrow> a \<in> set (targs t) \<Longrightarrow> arith a"
  by (cases t) auto

lemma apply_all_ok:
  assumes ar: "\<forall>e \<in> set atoms. arith_atom e"
  shows "apply_all sb ts used = Some (ts', used') \<Longrightarrow> sub_ok atoms truth sb \<Longrightarrow> \<forall>t \<in> set ts. arith t \<Longrightarrow>
    used \<subseteq> used' \<and> used' \<subseteq> used \<union> true_ids atoms truth \<and> list_all2 (entails atoms w used') ts ts' \<and> (\<forall>t \<in> set ts'. arith t)"
proof -
  let ?P = "\<lambda>sb ts used r. sub_ok atoms truth sb \<longrightarrow> (\<forall>t \<in> set ts. arith t) \<longrightarrow>
    used \<subseteq> snd r \<and> snd r \<subseteq> used \<union> true_ids atoms truth \<and> list_all2 (entails atoms w (snd r)) ts (fst r) \<and> (\<forall>t \<in> set (fst r). arith t)"
  assume r: "apply_all sb ts used = Some (ts', used')"
  have "?P sb ts used (ts', used')"
  proof (rule apply_all.raw_induct [OF _ r, where P = ?P])
    fix ap sb ts used r
    assume IH: "\<And>sb ts used r. ap sb ts used = Some r \<Longrightarrow> ?P sb ts used r"
      and eq: "(case ts of [] \<Rightarrow> Some ([], used)
        | t # ts \<Rightarrow> do { (t, used) \<leftarrow> loop (chase_body sb) (t, {}, used); (as, used) \<leftarrow> ap sb (targs t) used;
            (ts, used) \<leftarrow> ap sb ts used; Some (with_args t as # ts, used) }) = Some r"
    show "?P sb ts used r"
    proof (intro impI)
      assume sb: "sub_ok atoms truth sb" and ts: "\<forall>t \<in> set ts. arith t"
      show "used \<subseteq> snd r \<and> snd r \<subseteq> used \<union> true_ids atoms truth \<and> list_all2 (entails atoms w (snd r)) ts (fst r) \<and> (\<forall>t \<in> set (fst r). arith t)"
      proof (cases ts)
        case Nil
        then show ?thesis using eq by auto
      next
        case (Cons t us)
        obtain t' u1 as u2 us' u3 where c: "loop (chase_body sb) (t, {}, used) = Some (t', u1)" "ap sb (targs t') u1 = Some (as, u2)"
          "ap sb us u2 = Some (us', u3)" "r = (with_args t' as # us', u3)"
          using eq Cons by (auto simp: bind_eq_Some_conv)
        have t: "arith t" using ts Cons by simp
        note c1 = chase_ok [OF ar sb t c(1), of w]
        have "\<forall>a \<in> set (targs t'). arith a" using c1 arith_targs by blast
        then have c2: "u1 \<subseteq> u2" "u2 \<subseteq> u1 \<union> true_ids atoms truth" "list_all2 (entails atoms w u2) (targs t') as" "\<forall>a \<in> set as. arith a"
          using IH [OF c(2)] sb by simp_all
        have "\<forall>t \<in> set us. arith t" using ts Cons by simp
        then have c3: "u2 \<subseteq> u3" "u3 \<subseteq> u2 \<union> true_ids atoms truth" "list_all2 (entails atoms w u3) us us'" "\<forall>a \<in> set us'. arith a"
          using IH [OF c(3)] sb by simp_all
        have at': "arith t'" using c1 by blast
        note wa = with_args_ok [OF at' c2(3,4)]
        have "entails atoms w u3 t t'" using c1 c2(1) c3(1) by (blast intro: entails_mono)
        moreover have "entails atoms w u3 t' (with_args t' as)" by (rule entails_mono [OF wa(1) c3(1)])
        ultimately have "entails atoms w u3 t (with_args t' as)" by (rule entails_trans)
        then show ?thesis using c1 c2 c3 wa(2) unfolding c(4) Cons by auto
      qed
    qed
  qed
  then show "sub_ok atoms truth sb \<Longrightarrow> \<forall>t \<in> set ts. arith t \<Longrightarrow>
    used \<subseteq> used' \<and> used' \<subseteq> used \<union> true_ids atoms truth \<and> list_all2 (entails atoms w used') ts ts' \<and> (\<forall>t \<in> set ts'. arith t)" by simp
qed

lemma check_diseqs_ok:
  assumes ar: "\<forall>e \<in> set atoms. arith_atom e" and sb: "sub_ok atoms truth sb"
  shows "check_diseqs truth sb w es = Some (Some C) \<Longrightarrow> \<forall>(i, e) \<in> set es. atom_at atoms i e \<Longrightarrow>
    \<exists>i e used. atom_at atoms i e \<and> \<not> truth i \<and> C = insert i used \<and> used \<subseteq> true_ids atoms truth \<and> entails atoms w used (eq_t1 e) (eq_t2 e)"
proof (induction es)
  case (Cons ie es)
  obtain i e where ie: "ie = (i, e)" by fastforce
  show ?case
  proof (cases "truth i")
    case True
    then show ?thesis using Cons ie by simp
  next
    case False
    then obtain ab used eq where c: "apply_all sb [eq_t1 e, eq_t2 e] {} = Some (ab, used)" "provably_equal (ab ! 0) (ab ! 1) w = Some eq"
      "(if eq then Some (Some (insert i used)) else check_diseqs truth sb w es) = Some (Some C)"
      using Cons.prems(1) by (auto simp: ie bind_eq_Some_conv)
    have at: "atom_at atoms i e" using Cons.prems(2) by (simp add: ie)
    then have "e \<in> set atoms" by (auto simp: atom_at_def)
    then have "\<forall>t \<in> set [eq_t1 e, eq_t2 e]. arith t" using ar by (simp add: arith_atom_def)
    note ap = apply_all_ok [OF ar c(1) sb this, of w]
    show ?thesis
    proof (cases eq)
      case True
      obtain a b where ab: "ab = [a, b]" "entails atoms w used (eq_t1 e) a" "entails atoms w used (eq_t2 e) b"
        using ap by (auto simp: list_all2_Cons1)
      have "entails atoms w used a b" using provably_equal_sound c(2) True by (simp add: ab(1) entails_def equal_at_def)
      moreover have "entails atoms w used b (eq_t2 e)" using ab(3) by (simp add: entails_def equal_at_def)
      ultimately have "entails atoms w used (eq_t1 e) (eq_t2 e)" using ab(2) entails_trans by blast
      then show ?thesis using at False c(3) True ap by auto
    next
      case False
      then show ?thesis using Cons.IH Cons.prems(2) c(3) by simp
    qed
  qed
qed simp

lemma theory_check_sound:
  assumes ar: "\<forall>e \<in> set atoms. arith_atom e" and r: "theory_check atoms truth w = Some (Some C)"
  shows "finite C" "C \<subseteq> {1..length atoms}" "\<not> (\<exists>\<sigma>. \<forall>i \<in> C. truth i = atom_true w \<sigma> (atoms ! (i - 1)))"
proof -
  obtain i e used where c: "atom_at atoms i e" "\<not> truth i" "C = insert i used" "used \<subseteq> true_ids atoms truth" "entails atoms w used (eq_t1 e) (eq_t2 e)"
    using check_diseqs_ok [OF ar collect_all_ok r [unfolded theory_check_def]] by (auto simp: atom_at_enum)
  show sub: "C \<subseteq> {1..length atoms}" using c(1,3,4) by (auto simp: true_ids_def atom_at_def)
  then show "finite C" by (rule finite_subset) simp
  show "\<not> (\<exists>\<sigma>. \<forall>i \<in> C. truth i = atom_true w \<sigma> (atoms ! (i - 1)))"
  proof
    assume "\<exists>\<sigma>. \<forall>i \<in> C. truth i = atom_true w \<sigma> (atoms ! (i - 1))"
    then obtain \<sigma> where \<sigma>: "\<forall>i \<in> C. truth i = atom_true w \<sigma> (atoms ! (i - 1))" by blast
    have "atom_true w \<sigma> e'" if "j \<in> used" "atom_at atoms j e'" for j e'
      using \<sigma> c(3,4) that by (auto simp: atom_at_def true_ids_def)
    then have "atom_true w \<sigma> e" using c(5) by (auto simp: entails_def atom_true_def)
    moreover have "e = atoms ! (i - 1)" using c(1) by (simp add: atom_at_def)
    ultimately show False using \<sigma> c(2,3) by auto
  qed
qed

subsection \<open>The theory check returns\<close>

text \<open>Equalities that do not rewrite a variable into a larger term over itself, directly or in a cycle.\<close>

fun below :: "(string \<Rightarrow> nat) \<Rightarrow> trm \<Rightarrow> nat \<Rightarrow> bool" where
  "below rank (TVar y) r = (rank y = r)"
| "below rank t r = (\<forall>y \<in> tvars t. rank y < r)"

definition ranked :: "eq_atom list \<Rightarrow> bool" where
  "ranked atoms \<longleftrightarrow> (\<exists>rank. \<forall>e \<in> set atoms.
     (\<forall>x. eq_t1 e = TVar x \<longrightarrow> below rank (eq_t2 e) (rank x)) \<and> (\<forall>x. eq_t2 e = TVar x \<longrightarrow> below rank (eq_t1 e) (rank x)))"

definition descends :: "(string \<Rightarrow> nat) \<Rightarrow> subst \<Rightarrow> bool" where
  "descends rank sb \<longleftrightarrow> finite (dom (fst sb)) \<and> (\<forall>x u. fst sb x = Some u \<longrightarrow> snd sb x \<noteq> None \<and> below rank u (rank x))"

lemma chase_returns:
  assumes d: "descends rank sb"
  shows "\<exists>t' used'. loop (chase_body sb) (TVar x, {}, used) = Some (t', used') \<and> below rank t' (rank x)"
proof -
  let ?I = "\<lambda>(t, met, used :: nat set). below rank t (rank x) \<and> met \<subseteq> dom (fst sb)"
  let ?f = "\<lambda>(t, met, used). card (dom (fst sb) - met)"
  have "\<exists>r. loop (chase_body sb) (TVar x, {}, used) = Some r \<and> below rank (fst r) (rank x)"
  proof (rule loop_measure [where I = ?I and f = ?f])
    fix st assume I: "?I st"
    obtain t met us where st: "st = (t, met, us)" by (metis prod_cases3)
    show "\<exists>r. chase_body sb st = Some r \<and> (case r of Inl r \<Rightarrow> below rank (fst r) (rank x) | Inr s' \<Rightarrow> ?I s' \<and> ?f s' < ?f st)"
    proof (cases "\<exists>y u. t = TVar y \<and> fst sb y = Some u \<and> y \<notin> met")
      case True
      then obtain y u where y: "t = TVar y" "fst sb y = Some u" "y \<notin> met" by blast
      then obtain i where i: "snd sb y = Some i" using d by (fastforce simp: descends_def)
      have "below rank u (rank y)" using d y(2) unfolding descends_def by blast
      then have "below rank u (rank x)" using y(1) I by (simp add: st)
      moreover have "card (dom (fst sb) - insert y met) < card (dom (fst sb) - met)"
        using d y(2,3) by (intro psubset_card_mono) (auto simp: descends_def)
      ultimately show ?thesis using y i I by (auto simp: st chase_body_def)
    next
      case False
      then have "chase_body sb st = Some (Inl (t, us))"
        by (auto simp: st chase_body_def split: trm.splits option.splits)
      then show ?thesis using I by (simp add: st)
    qed
  qed simp
  then show ?thesis by auto
qed

lemma chase_other: "(\<And>x. t \<noteq> TVar x) \<Longrightarrow> loop (chase_body sb) (t, {}, used) = Some (t, used)"
  by (rule loop_done) (simp add: chase_body_def split: trm.splits)

lemma apply_all_list:
  assumes "\<forall>t \<in> set ts. \<forall>used. \<exists>r. apply_all sb [t] used = Some r"
  shows "\<exists>r. apply_all sb ts used = Some r"
  using assms
proof (induction ts arbitrary: used)
  case Nil
  then show ?case by (simp add: apply_all.simps)
next
  case (Cons t ts)
  obtain r where "apply_all sb [t] used = Some r" using Cons.prems by fastforce
  then obtain t' u1 as u2 where 1: "loop (chase_body sb) (t, {}, used) = Some (t', u1)" "apply_all sb (targs t') u1 = Some (as, u2)"
    by (subst (asm) apply_all.simps) (auto simp: bind_eq_Some_conv)
  obtain r2 where "apply_all sb ts u2 = Some r2" using Cons by fastforce
  then show ?case using 1 by (subst apply_all.simps) (simp add: split_beta)
qed

lemma apply_one:
  assumes c: "loop (chase_body sb) (t, {}, used) = Some (t', u1)" and a: "\<exists>r. apply_all sb (targs t') u1 = Some r"
  shows "\<exists>r. apply_all sb [t] used = Some r"
proof -
  have "apply_all sb [] u = Some ([], u)" for u by (subst apply_all.simps) simp
  then show ?thesis using c a by (subst apply_all.simps) (auto simp: split_beta)
qed

lemma tvars_targs: "a \<in> set (targs t) \<Longrightarrow> tvars a \<subseteq> tvars t"
  by (cases t) auto

lemma apply_returns:
  assumes d: "descends rank sb"
  shows "\<forall>x \<in> tvars t. rank x < r \<Longrightarrow> \<exists>res. apply_all sb [t] used = Some res"
proof (induction r arbitrary: t used rule: less_induct)
  case (less r)
  show ?case
    using less.prems
  proof (induction "size t" arbitrary: t used rule: less_induct)
    case (less t)
    note inner = less.hyps and vars = less.prems
    show ?case
    proof (cases "\<exists>x. t = TVar x")
      case True
      then obtain x where x: "t = TVar x" by blast
      obtain t' u1 where c: "loop (chase_body sb) (TVar x, {}, used) = Some (t', u1)" "below rank t' (rank x)"
        using chase_returns [OF d] by blast
      have "\<exists>res. apply_all sb [a] us = Some res" if "a \<in> set (targs t')" for a us
      proof -
        have "\<forall>y \<in> tvars a. rank y < rank x" using c(2) that tvars_targs [OF that] by (cases t') auto
        moreover have "rank x < r" using vars x by simp
        ultimately show ?thesis using \<open>\<And>y t used. y < r \<Longrightarrow> \<forall>x \<in> tvars t. rank x < y \<Longrightarrow> \<exists>res. apply_all sb [t] used = Some res\<close> by blast
      qed
      then show ?thesis unfolding x by (intro apply_one [OF c(1)] apply_all_list) blast
    next
      case False
      have "\<exists>res. apply_all sb [a] us = Some res" if a: "a \<in> set (targs t)" for a us
        by (rule inner [OF size_targs [OF a]]) (use vars tvars_targs [OF a] in blast)
      then show ?thesis using False by (intro apply_one [OF chase_other] apply_all_list) blast+
    qed
  qed
qed

lemma check_returns:
  assumes ar: "\<forall>e \<in> set atoms. arith_atom e" and sb: "sub_ok atoms truth sb" and d: "descends rank sb"
  shows "\<forall>(i, e) \<in> set es. atom_at atoms i e \<Longrightarrow> \<exists>r. check_diseqs truth sb w es = Some r"
proof (induction es)
  case (Cons ie es)
  obtain i e where ie: "ie = (i, e)" by fastforce
  have at: "atom_at atoms i e" using Cons.prems by (simp add: ie)
  then have "e \<in> set atoms" by (auto simp: atom_at_def)
  then have e: "\<forall>t \<in> set [eq_t1 e, eq_t2 e]. arith t" using ar by (simp add: arith_atom_def)
  have fin: "finite (tvars (eq_t1 e) \<union> tvars (eq_t2 e))" by simp
  obtain r where r: "\<forall>x \<in> tvars (eq_t1 e) \<union> tvars (eq_t2 e). rank x < r"
    using finite_nat_set_iff_bounded [of "rank ` (tvars (eq_t1 e) \<union> tvars (eq_t2 e))"] fin by auto
  have "\<exists>res. apply_all sb [eq_t1 e, eq_t2 e] {} = Some res"
    by (rule apply_all_list) (use apply_returns [OF d, of _ r] r in auto)
  then obtain ab used where ap: "apply_all sb [eq_t1 e, eq_t2 e] {} = Some (ab, used)" by auto
  have ok: "list_all2 (entails atoms w used) [eq_t1 e, eq_t2 e] ab" "\<forall>t \<in> set ab. arith t"
    using apply_all_ok [OF ar ap sb e, of w] by blast+
  then obtain a b where ab: "ab = [a, b]" "arith a" "arith b" by (auto simp: list_all2_Cons1)
  obtain q where "provably_equal a b w = Some q" using provably_equal_returns [OF ab(2,3)] by blast
  then show ?case using Cons ap ab(1) by (auto simp: ie)
qed simp

lemma theory_check_returns:
  assumes ar: "\<forall>e \<in> set atoms. arith_atom e" and rk: "ranked atoms"
  shows "\<exists>r. theory_check atoms truth w = Some r"
proof -
  obtain rank where rank: "\<forall>e \<in> set atoms. (\<forall>x. eq_t1 e = TVar x \<longrightarrow> below rank (eq_t2 e) (rank x)) \<and> (\<forall>x. eq_t2 e = TVar x \<longrightarrow> below rank (eq_t1 e) (rank x))"
    using rk by (auto simp: ranked_def)
  let ?sb = "fold (collect truth) (enumerate 1 atoms) (Map.empty, Map.empty)"
  have sb: "sub_ok atoms truth ?sb" by (rule collect_all_ok)
  have "descends rank ?sb"
    unfolding descends_def
  proof (intro conjI allI impI)
    show "finite (dom (fst ?sb))" using sb by (simp add: sub_ok_def)
    fix x u assume x: "fst ?sb x = Some u"
    then obtain i where i: "snd ?sb x = Some i" "link atoms i x u" using sb by (auto simp: sub_ok_def)
    then show "snd ?sb x \<noteq> None" by simp
    obtain e where e: "atom_at atoms i e" "eq_t1 e = TVar x \<and> eq_t2 e = u \<or> eq_t2 e = TVar x \<and> eq_t1 e = u"
      using i(2) by (auto simp: link_def)
    then have "e \<in> set atoms" by (auto simp: atom_at_def)
    then show "below rank u (rank x)" using rank e(2) by auto
  qed
  then show ?thesis using check_returns [OF ar sb] unfolding theory_check_def by (simp add: atom_at_enum)
qed

subsection \<open>The loop\<close>

lemma inv_new_vars: "inv s \<Longrightarrow> inv (snd (new_vars k s)) \<and> n_vars (snd (new_vars k s)) = n_vars s + k \<and>
    mods (snd (new_vars k s)) = mods s"
  by (induction k arbitrary: s) (simp_all add: split_beta Let_def inv_new_var)

definition cnf_ok :: "nat \<Rightarrow> int list list \<Rightarrow> bool" where
  "cnf_ok N cnf \<longleftrightarrow> (\<forall>c \<in> set cnf. \<forall>l \<in> set c. lit_ok N l)"

text \<open>The formula under a valuation of the words.\<close>

definition formula :: "eq_atom list \<Rightarrow> int list list \<Rightarrow> nat \<Rightarrow> (string \<Rightarrow> int) \<Rightarrow> bool" where
  "formula atoms cnf w \<sigma> \<longleftrightarrow> (\<forall>c \<in> set cnf. \<exists>l \<in> set c. atom_true w \<sigma> (atoms ! (nat \<bar>l\<bar> - 1)) = (l > 0))"

definition theory_val :: "eq_atom list \<Rightarrow> nat \<Rightarrow> (string \<Rightarrow> int) \<Rightarrow> nat \<Rightarrow> bool" where
  "theory_val atoms w \<sigma> i = atom_true w \<sigma> (atoms ! (i - 1))"

lemma formula_sat: "cnf_ok N cnf \<Longrightarrow> formula atoms cnf w \<sigma> \<longleftrightarrow> (\<forall>c \<in> set cnf. sat_clause (theory_val atoms w \<sigma>) c)"
proof -
  assume ok: "cnf_ok N cnf"
  have "(atom_true w \<sigma> (atoms ! (nat \<bar>l\<bar> - 1)) = (l > 0)) = sat_lit (theory_val atoms w \<sigma>) l" if "c \<in> set cnf" "l \<in> set c" for c l
    by (auto simp: sat_lit_def lvar_def theory_val_def)
  then show ?thesis by (simp add: formula_def sat_clause_def cong: ball_cong bex_cong)
qed

lemma add_cnf_ok:
  "inv s \<Longrightarrow> cnf_ok (n_vars s) cnf \<Longrightarrow> inv (add_cnf cnf s) \<and> n_vars (add_cnf cnf s) = n_vars s \<and>
    mods (add_cnf cnf s) = mods s \<inter> {m. \<forall>c \<in> set cnf. sat_clause m c}"
proof (induction cnf arbitrary: s)
  case (Cons c cnf)
  have c: "\<forall>l \<in> set c. lit_ok (n_vars s) l" using Cons.prems(2) by (simp add: cnf_ok_def)
  note a = add_clause_cases [OF Cons.prems(1) c]
  then have "inv (snd (add_clause c s))" "cnf_ok (n_vars (snd (add_clause c s))) cnf" using Cons.prems(2) by (auto simp: cnf_ok_def)
  from Cons.IH [OF this] a show ?case by auto
qed simp

text \<open>A blocking clause is false under the assignment it blocks, and true under any that differs there.\<close>

lemma blocking_ok:
  assumes "set ids \<subseteq> {1..N}"
  shows "\<forall>l \<in> set (blocking truth ids). lit_ok N l" "sat_clause m (blocking truth ids) \<longleftrightarrow> (\<exists>i \<in> set ids. m i \<noteq> truth i)"
proof -
  show "\<forall>l \<in> set (blocking truth ids). lit_ok N l" using assms by (auto simp: blocking_def lit_ok_def lvar_def)
  have "sat_lit m (if truth i then - int i else int i) = (m i \<noteq> truth i)" if "i \<in> set ids" for i
    using assms that by (auto simp: sat_lit_def lvar_def)
  moreover have "sat_clause m (blocking truth ids) \<longleftrightarrow> (\<exists>i \<in> set ids. sat_lit m (if truth i then - int i else int i))"
    unfolding sat_clause_def blocking_def set_map by blast
  ultimately show "sat_clause m (blocking truth ids) \<longleftrightarrow> (\<exists>i \<in> set ids. m i \<noteq> truth i)"
    by (metis (no_types, lifting))
qed

text \<open>The assignments of the atoms that are still open.\<close>

definition open_asg :: "nat \<Rightarrow> solver \<Rightarrow> nat set set" where
  "open_asg N s = (\<lambda>m. {i \<in> {1..N}. m i}) ` mods s"

lemma open_less:
  assumes s: "inv s" "n_vars s = N" and m: "m \<in> mods s" and ids: "set ids \<subseteq> {1..N}" and mt: "\<forall>i \<in> {1..N}. m i = truth i"
  shows "card (open_asg N (snd (add_clause (blocking truth ids) s))) < card (open_asg N s)"
proof -
  note b = blocking_ok [OF ids]
  have "\<forall>l \<in> set (blocking truth ids). lit_ok (n_vars s) l" using b(1) s(2) by simp
  from add_clause_cases [OF s(1) this]
  have ms: "mods (snd (add_clause (blocking truth ids) s)) = mods s \<inter> {m. \<exists>i \<in> set ids. m i \<noteq> truth i}" using b(2) by simp
  have fin: "finite (open_asg N s)"
    by (rule finite_subset [of _ "Pow {1..N}"]) (auto simp: open_asg_def)
  have "open_asg N (snd (add_clause (blocking truth ids) s)) \<subseteq> open_asg N s" unfolding open_asg_def ms by blast
  moreover have "{i \<in> {1..N}. m i} \<in> open_asg N s" using m by (simp add: open_asg_def)
  moreover have "{i \<in> {1..N}. m i} \<notin> open_asg N (snd (add_clause (blocking truth ids) s))"
  proof
    assume "{i \<in> {1..N}. m i} \<in> open_asg N (snd (add_clause (blocking truth ids) s))"
    then obtain m' i where m': "{i \<in> {1..N}. m i} = {i \<in> {1..N}. m' i}" "i \<in> set ids" "m' i \<noteq> truth i" by (auto simp: open_asg_def ms)
    then have "i \<in> {1..N}" using ids by blast
    then have "m' i = m i" using m'(1) by blast
    then show False using m'(3) mt \<open>i \<in> {1..N}\<close> by simp
  qed
  ultimately have "open_asg N (snd (add_clause (blocking truth ids) s)) \<subset> open_asg N s" by blast
  then show ?thesis by (rule psubset_card_mono [OF fin])
qed

definition smt_inv :: "eq_atom list \<Rightarrow> int list list \<Rightarrow> nat \<Rightarrow> sig set \<Rightarrow> smt_state \<Rightarrow> bool" where
  "smt_inv atoms cnf w P0 = (\<lambda>(s, lemmas, n). inv s \<and> n_vars s = length atoms \<and> (\<exists>P. pool_ok n P \<and> P0 \<subseteq> P) \<and>
     mods s \<subseteq> {m. \<forall>c \<in> set cnf. sat_clause m c} \<and> (\<forall>\<sigma>. formula atoms cnf w \<sigma> \<longrightarrow> theory_val atoms w \<sigma> \<in> mods s))"

definition smt_answer :: "eq_atom list \<Rightarrow> int list list \<Rightarrow> nat \<Rightarrow> bool \<Rightarrow> smt_result \<Rightarrow> bool" where
  "smt_answer atoms cnf w allow r \<longleftrightarrow> (case r of
     SMT_UNSAT lemmas \<Rightarrow> \<not> (\<exists>\<sigma>. formula atoms cnf w \<sigma>)
   | SMT_SAT a \<Rightarrow> \<not> allow \<and> (\<exists>m. a = map (\<lambda>i. (i, m i)) [1..<length atoms + 1] \<and> (\<forall>c \<in> set cnf. sat_clause m c))
   | SMT_SAT_BB wit \<Rightarrow> allow \<and> formula atoms cnf w (wit_val wit))"

lemma smt_learn:
  assumes I: "smt_inv atoms cnf w P0 (s, lemmas, n)" and m: "m \<in> mods s" "\<forall>i \<in> {1..length atoms}. m i = truth i"
    and ids: "set ids \<subseteq> {1..length atoms}" and P: "pool_ok n' P" "P0 \<subseteq> P"
    and refuted: "\<not> (\<exists>\<sigma>. \<forall>i \<in> set ids. truth i = theory_val atoms w \<sigma> i)"
  shows "smt_inv atoms cnf w P0 (snd (add_clause (blocking truth ids) s), lemmas', n') \<and>
    card (open_asg (length atoms) (snd (add_clause (blocking truth ids) s))) < card (open_asg (length atoms) s)"
proof
  have s: "inv s" "n_vars s = length atoms" using I by (simp_all add: smt_inv_def)
  note b = blocking_ok(1) [OF ids, of truth] blocking_ok(2) [OF ids, of _ truth]
  have "\<forall>l \<in> set (blocking truth ids). lit_ok (n_vars s) l" using b(1) s(2) by simp
  note a = add_clause_cases [OF s(1) this]
  have "theory_val atoms w \<sigma> \<in> mods (snd (add_clause (blocking truth ids) s))" if "formula atoms cnf w \<sigma>" for \<sigma>
  proof -
    have "theory_val atoms w \<sigma> \<in> mods s" using I that by (simp add: smt_inv_def)
    moreover have "\<exists>i \<in> set ids. theory_val atoms w \<sigma> i \<noteq> truth i" using refuted by blast
    ultimately show ?thesis using a b(2) by simp
  qed
  moreover have "mods (snd (add_clause (blocking truth ids) s)) \<subseteq> {m. \<forall>c \<in> set cnf. sat_clause m c}"
    using I a by (auto simp: smt_inv_def)
  ultimately show "smt_inv atoms cnf w P0 (snd (add_clause (blocking truth ids) s), lemmas', n')"
    unfolding smt_inv_def prod.case using a s P by auto
  show "card (open_asg (length atoms) (snd (add_clause (blocking truth ids) s))) < card (open_asg (length atoms) s)"
    by (rule open_less [OF s m(1) ids m(2)])
qed

lemma theory_val_mod: "i \<in> {1..length atoms} \<Longrightarrow> theory_val atoms w \<sigma> i = atom_true w \<sigma> (atoms ! (i - 1))"
  by (simp add: theory_val_def)

lemma dpllt_body_ok:
  assumes ar: "\<forall>e \<in> set atoms. arith_atom e" and tc: "\<forall>truth. theory_check atoms truth w \<noteq> None" and cnf: "cnf_ok (length atoms) cnf"
    and I: "smt_inv atoms cnf w P0 (s, lemmas, n)"
  shows "\<exists>x. dpllt_body atoms w allow (s, lemmas, n) = Some x \<and> (case x of
     Inl (r, n') \<Rightarrow> smt_answer atoms cnf w allow r \<and> (\<exists>P. pool_ok n' P \<and> P0 \<subseteq> P)
   | Inr (s', lemmas', n') \<Rightarrow> smt_inv atoms cnf w P0 (s', lemmas', n') \<and> card (open_asg (length atoms) s') < card (open_asg (length atoms) s))"
proof -
  let ?N = "length atoms" and ?all = "[1..<length atoms + 1]"
  have s: "inv s" "n_vars s = ?N" "mods s \<subseteq> {m. \<forall>c \<in> set cnf. sat_clause m c}"
    "\<And>\<sigma>. formula atoms cnf w \<sigma> \<Longrightarrow> theory_val atoms w \<sigma> \<in> mods s" using I by (auto simp: smt_inv_def)
  obtain P where P: "pool_ok n P" "P0 \<subseteq> P" using I by (auto simp: smt_inv_def)
  obtain sat s1 where r: "solve [] s = Some (sat, s1)" "solved [] s (sat, s1)" using solve_ok [of s "[]"] s(1) by auto
  show ?thesis
  proof (cases sat)
    case False
    then have "mods s = {}" using r(2) by (auto simp: solved_def)
    then have "smt_answer atoms cnf w allow (SMT_UNSAT lemmas)" using s(4) by (auto simp: smt_answer_def)
    then show ?thesis using r(1) False P by (auto simp: dpllt_body_def)
  next
    case True
    let ?truth = "\<lambda>i. get_value i s1" and ?s = "cancel_until 0 s1"
    have m: "?truth \<in> mods s" "inv s1" "n_vars s1 = ?N" "mods s1 = mods s" using r(2) True s(2) by (simp_all add: solved_def)
    have b1: "binv s1" using m(2) by (simp add: inv_def)
    have mods': "mods ?s = mods s" using keeps_cancel [OF b1, of 0] m(4) by (simp add: keeps_def)
    have I': "smt_inv atoms cnf w P0 (?s, lemmas, n)"
      using I inv_cancel [OF m(2), of 0] m(3) mods' by (simp add: smt_inv_def)
    have m': "?truth \<in> mods ?s" using m(1) mods' by simp
    have same: "card (open_asg ?N ?s) = card (open_asg ?N s)" by (simp add: open_asg_def mods')
    obtain cf where cf: "theory_check atoms ?truth w = Some cf" using tc by blast
    show ?thesis
    proof (cases cf)
      case (Some C)
      note C = theory_check_sound [OF ar cf [unfolded Some]]
      have ids: "set (sorted_list_of_set C) = C" "set (sorted_list_of_set C) \<subseteq> {1..?N}" using C(1,2) by simp_all
      have ref: "\<not> (\<exists>\<sigma>. \<forall>i \<in> set (sorted_list_of_set C). ?truth i = theory_val atoms w \<sigma> i)"
        using C(3) unfolding ids(1) theory_val_def .
      let ?lem = "blocking ?truth (sorted_list_of_set C)"
      note L = smt_learn [OF I' m' _ ids(2) P ref, of "lemmas @ [?lem]"]
      have "dpllt_body atoms w allow (s, lemmas, n) = Some (Inr (snd (add_clause ?lem ?s), lemmas @ [?lem], n))"
        using r(1) True cf Some by (simp add: dpllt_body_def Let_def)
      then show ?thesis using L same by simp
    next
      case None
      show ?thesis
      proof (cases allow)
        case False
        have "\<forall>c \<in> set cnf. sat_clause ?truth c" using m(1) s(3) by blast
        then have "smt_answer atoms cnf w allow (SMT_SAT (map (\<lambda>i. (i, ?truth i)) ?all))" using False by (auto simp: smt_answer_def)
        moreover have "dpllt_body atoms w allow (s, lemmas, n) = Some (Inl (SMT_SAT (map (\<lambda>i. (i, ?truth i)) ?all), n))"
          using r(1) True cf None False by (simp add: dpllt_body_def Let_def)
        ultimately show ?thesis using P by auto
      next
        case True': True
        obtain rb n' P' where rb: "bitblast_all atoms ?truth w n = Some (rb, n')" "pool_ok n' P'" "P \<subseteq> P'"
          "case rb of None \<Rightarrow> \<not> (\<exists>\<sigma>. \<forall>(i, e) \<in> set (enumerate 1 atoms). ?truth i = atom_true w \<sigma> e)
            | Some wit \<Rightarrow> \<forall>(i, e) \<in> set (enumerate 1 atoms). ?truth i = atom_true w (wit_val wit) e"
          using bitblast_all_ok [OF ar P(1)] by blast
        have en: "(\<forall>(i, e) \<in> set (enumerate 1 atoms). ?truth i = atom_true w \<sigma> e) \<longleftrightarrow> (\<forall>i \<in> {1..?N}. ?truth i = theory_val atoms w \<sigma> i)" for \<sigma>
        proof -
          have "(\<forall>p \<in> set (enumerate 1 atoms). case p of (i, e) \<Rightarrow> ?truth i = atom_true w \<sigma> e) \<longleftrightarrow>
              (\<forall>i e. atom_at atoms i e \<longrightarrow> ?truth i = atom_true w \<sigma> e)" unfolding atom_at_enum by blast
          then show ?thesis by (auto simp: atom_at_def theory_val_def)
        qed
        have P0': "P0 \<subseteq> P'" using P(2) rb(3) by blast
        show ?thesis
        proof (cases rb)
          case None': None
          let ?lem = "blocking ?truth ?all"
          have ids: "set ?all = {1..?N}" by auto
          have ref: "\<not> (\<exists>\<sigma>. \<forall>i \<in> set ?all. ?truth i = theory_val atoms w \<sigma> i)" using rb(4) unfolding ids en None' option.case .
          note L = smt_learn [OF I' m' _ equalityD1 [OF ids] rb(2) P0' ref, of "lemmas @ [?lem]"]
          have "dpllt_body atoms w allow (s, lemmas, n) = Some (Inr (snd (add_clause ?lem ?s), lemmas @ [?lem], n'))"
            using r(1) True True' cf None rb(1) None' by (simp add: dpllt_body_def Let_def)
          then show ?thesis using L same by simp
        next
          case (Some wit)
          have w: "\<forall>i \<in> {1..?N}. ?truth i = theory_val atoms w (wit_val wit) i" using rb(4) Some en by simp
          have "sat_clause (theory_val atoms w (wit_val wit)) c" if c: "c \<in> set cnf" for c
          proof -
            have "sat_lit (theory_val atoms w (wit_val wit)) l = sat_lit ?truth l" if "l \<in> set c" for l
            proof -
              have "lit_ok ?N l" using cnf c that by (simp add: cnf_ok_def)
              then have "lvar l \<in> {1..?N}" by (auto simp: lit_ok_def lvar_def)
              then show ?thesis using w by (simp add: sat_lit_def)
            qed
            moreover have "sat_clause ?truth c" using m(1) s(3) c by blast
            ultimately show ?thesis by (simp add: sat_clause_def)
          qed
          then have "smt_answer atoms cnf w allow (SMT_SAT_BB wit)" using formula_sat [OF cnf] True' by (simp add: smt_answer_def)
          moreover have "dpllt_body atoms w allow (s, lemmas, n) = Some (Inl (SMT_SAT_BB wit, n'))"
            using r(1) True True' cf None rb(1) Some by (simp add: dpllt_body_def Let_def)
          ultimately show ?thesis using rb(2) P0' by auto
        qed
      qed
    qed
  qed
qed

lemma dpllt_ok:
  assumes ar: "\<forall>e \<in> set atoms. arith_atom e" and tc: "\<forall>truth. theory_check atoms truth w \<noteq> None" and cnf: "cnf_ok (length atoms) cnf"
    and P: "pool_ok n P"
  shows "\<exists>r n' P'. dpllt atoms cnf w allow n = Some (r, n') \<and> pool_ok n' P' \<and> P \<subseteq> P' \<and> smt_answer atoms cnf w allow r"
proof -
  let ?s0 = "snd (new_vars (length atoms) (Solver :: solver))"
  have s0: "inv ?s0" "n_vars ?s0 = length atoms" "mods ?s0 = UNIV"
    using inv_new_vars [OF inv_Solver, of "length atoms"] mods_Solver by (auto simp: Solver_def)
  have c0: "cnf_ok (n_vars ?s0) cnf" using cnf s0(2) by simp
  note a = add_cnf_ok [OF s0(1) c0]
  have "smt_inv atoms cnf w P (add_cnf cnf ?s0, [], n)"
    using a s0 P formula_sat [OF cnf] by (auto simp: smt_inv_def)
  then have "\<exists>rn. dpllt atoms cnf w allow n = Some rn \<and> smt_answer atoms cnf w allow (fst rn) \<and> (\<exists>P'. pool_ok (snd rn) P' \<and> P \<subseteq> P')"
    unfolding dpllt_def
  proof (rule loop_measure [where I = "smt_inv atoms cnf w P" and f = "\<lambda>(s, _). card (open_asg (length atoms) s)"])
    fix st assume I: "smt_inv atoms cnf w P st"
    obtain s ls k where st: "st = (s, ls, k)" by (metis prod_cases3)
    obtain x where x: "dpllt_body atoms w allow (s, ls, k) = Some x" "case x of
         Inl (r, n') \<Rightarrow> smt_answer atoms cnf w allow r \<and> (\<exists>P'. pool_ok n' P' \<and> P \<subseteq> P')
       | Inr (s', lemmas', n') \<Rightarrow> smt_inv atoms cnf w P (s', lemmas', n') \<and> card (open_asg (length atoms) s') < card (open_asg (length atoms) s)"
      using dpllt_body_ok [OF ar tc cnf I [unfolded st], of allow] by blast
    then show "\<exists>x. dpllt_body atoms w allow st = Some x \<and> (case x of
        Inl rn \<Rightarrow> smt_answer atoms cnf w allow (fst rn) \<and> (\<exists>P'. pool_ok (snd rn) P' \<and> P \<subseteq> P')
      | Inr s' \<Rightarrow> smt_inv atoms cnf w P s' \<and> (case s' of (s, _) \<Rightarrow> card (open_asg (length atoms) s)) < (case st of (s, _) \<Rightarrow> card (open_asg (length atoms) s)))"
      by (auto simp: st split: sum.splits)
  qed
  then show ?thesis by auto
qed

end
