(* ===== verification/Smt_Array.thy ===== *)
theory Smt_Array
  imports Smt_Loop
begin

text \<open>
  The theory of arrays of \<open>smt.py\<close>: \<open>_tkey\<close>, \<open>_has_arrays\<close>, the read-over-write reduction
  \<open>_eliminate_arrays\<close>, and \<open>solve\<close>. The local variables that the closures of \<open>_eliminate_arrays\<close> update
  are the record \<open>arr_state\<close>.
\<close>

subsection \<open>Keys\<close>

datatype tkey = KVar string | KConst int | KNode string "tkey list"

fun term_key :: "trm \<Rightarrow> tkey" where
  "term_key (TVar x) = KVar x"
| "term_key (TConst v) = KConst v"
| "term_key (TAdd ts) = KNode ''add'' (map term_key ts)"
| "term_key (TSub a b) = KNode ''sub'' [term_key a, term_key b]"
| "term_key (TNeg a) = KNode ''neg'' [term_key a]"
| "term_key (TMul a b) = KNode ''mul'' [term_key a, term_key b]"
| "term_key (TSelect a i) = KNode ''select'' [term_key a, term_key i]"
| "term_key (TStore a i v) = KNode ''store'' [term_key a, term_key i, term_key v]"
| "term_key (TIte c a b) = KNode ''ite'' [term_key c, term_key a, term_key b]"
| "term_key (TBit k a b) = KNode (kind (TBit k a b)) [term_key a, term_key b]"
| "term_key (TNot a) = KNode ''not'' [term_key a]"
| "term_key (TCmp k a b) = KNode (kind (TCmp k a b)) [term_key a, term_key b]"
| "term_key (TExtract a _ _) = KNode ''extract'' [term_key a]"
| "term_key (TConcat ts) = KNode ''concat'' (map term_key ts)"
| "term_key (TZext a _) = KNode ''zext'' [term_key a]"
| "term_key (TShift k a b) = KNode (kind (TShift k a b)) [term_key a, term_key b]"

fun scan_arrays :: "trm \<Rightarrow> bool" where
  "scan_arrays (TSelect _ _) = True"
| "scan_arrays (TStore _ _ _) = True"
| "scan_arrays t = (\<exists>a \<in> set (targs t). scan_arrays a)"

definition has_arrays :: "eq_atom list \<Rightarrow> bool" where
  "has_arrays atoms \<longleftrightarrow> (\<exists>e \<in> set atoms. scan_arrays (eq_t1 e) \<or> scan_arrays (eq_t2 e))"

subsection \<open>Read over write\<close>

record arr_state =
  new_atoms :: "eq_atom list"
  atom_id :: "tkey \<times> tkey \<rightharpoonup> nat"
  extra :: "int list list"
  sel_id :: "tkey \<times> tkey \<rightharpoonup> trm"
  reads_of :: "string \<Rightarrow> (trm \<times> trm) list"
  sel_ctr :: nat

definition arr_start :: arr_state where
  "arr_start = \<lparr>new_atoms = [], atom_id = Map.empty, extra = [], sel_id = Map.empty, reads_of = (\<lambda>_. []), sel_ctr = 0\<rparr>"

text \<open>\<open>A(a, b)\<close>: the index of the atom, in either orientation.\<close>

definition atom_index :: "trm \<Rightarrow> trm \<Rightarrow> arr_state \<Rightarrow> nat \<times> arr_state" where
  "atom_index a b st =
     (case atom_id st (term_key a, term_key b) of
        Some i \<Rightarrow> (i, st)
      | None \<Rightarrow>
          (case atom_id st (term_key b, term_key a) of
             Some i \<Rightarrow> (i, st)
           | None \<Rightarrow>
               let i = length (new_atoms st) + 1
               in (i, st\<lparr>new_atoms := new_atoms st @ [Eq a b], atom_id := (atom_id st)((term_key a, term_key b) \<mapsto> i)\<rparr>)))"

definition add_extra :: "int list \<Rightarrow> arr_state \<Rightarrow> arr_state" where
  "add_extra c st = st\<lparr>extra := extra st @ [c]\<rparr>"

text \<open>Congruence with an earlier read \<open>(jk, vk)\<close> of the same array.\<close>

definition congruent :: "trm \<Rightarrow> trm \<Rightarrow> trm \<times> trm \<Rightarrow> arr_state \<Rightarrow> arr_state" where
  "congruent jj vS = (\<lambda>(jk, vk) st.
     let (p, st) = atom_index jj jk st; (q, st) = atom_index vS vk st in add_extra [- int p, int q] st)"

text \<open>\<open>elim\<close> on a list of terms, from left to right.\<close>

partial_function (option) elim_all :: "trm list \<Rightarrow> arr_state \<Rightarrow> (trm list \<times> arr_state) option" where
  "elim_all ts st =
     (case ts of
        [] \<Rightarrow> Some ([], st)
      | t # ts \<Rightarrow> do {
          (t, st) \<leftarrow>
            (case t of
               TVar x \<Rightarrow> Some (t, st)
             | TConst v \<Rightarrow> Some (t, st)
             | TStore a i v \<Rightarrow> None
             | TSelect base idx \<Rightarrow> do {
                 (js, st) \<leftarrow> elim_all [idx] st;
                 let jj = hd js;
                 (case sel_id st (term_key base, term_key jj) of
                    Some v \<Rightarrow> Some (v, st)
                  | None \<Rightarrow>
                      let c = sel_ctr st + 1;
                          vS = TVar (''__sel'' @ show_nat c);
                          st = st\<lparr>sel_ctr := c, sel_id := (sel_id st)((term_key base, term_key jj) \<mapsto> vS)\<rparr>
                      in (case base of
                            TStore a i v \<Rightarrow> do {
                              (ks, st) \<leftarrow> elim_all [i] st;
                              let (p, st) = atom_index (hd ks) jj st;
                              (vs, st) \<leftarrow> elim_all [v] st;
                              let (q, st) = atom_index vS (hd vs) st;
                              let st = add_extra [- int p, int q] st;
                              (rs, st) \<leftarrow> elim_all [TSelect a jj] st;
                              let (q, st) = atom_index vS (hd rs) st;
                              Some (vS, add_extra [int p, int q] st) }
                          | TVar x \<Rightarrow>
                              let st = fold (congruent jj vS) (reads_of st x) st
                              in Some (vS, st\<lparr>reads_of := (reads_of st)(x := reads_of st x @ [(jj, vS)])\<rparr>)
                          | _ \<Rightarrow> None)) }
             | _ \<Rightarrow> do { (as, st) \<leftarrow> elim_all (targs t) st; Some (with_args t as, st) });
          (ts, st) \<leftarrow> elim_all ts st;
          Some (t # ts, st) })"

fun remap_atoms :: "eq_atom list \<Rightarrow> arr_state \<Rightarrow> (nat list \<times> arr_state) option" where
  "remap_atoms [] st = Some ([], st)"
| "remap_atoms (e # es) st = do {
     (ab, st) \<leftarrow> elim_all [eq_t1 e, eq_t2 e] st;
     let (i, st) = atom_index (ab ! 0) (ab ! 1) st;
     (ids, st) \<leftarrow> remap_atoms es st;
     Some (i # ids, st) }"

text \<open>\<open>lit\<close>: an index outside of the atoms is a key error.\<close>

definition remap_lit :: "nat list \<Rightarrow> int \<Rightarrow> int option" where
  "remap_lit ids l =
     (if 1 \<le> \<bar>l\<bar> \<and> \<bar>l\<bar> \<le> int (length ids)
      then Some (if l > 0 then int (ids ! (nat l - 1)) else - int (ids ! (nat (- l) - 1))) else None)"

definition eliminate_arrays :: "eq_atom list \<Rightarrow> int list list \<Rightarrow> (eq_atom list \<times> int list list) option" where
  "eliminate_arrays atoms cnf = do {
     (ids, st) \<leftarrow> remap_atoms atoms arr_start;
     cnf' \<leftarrow> those (map (\<lambda>c. those (map (remap_lit ids) c)) cnf);
     Some (new_atoms st, cnf' @ extra st) }"

definition smt_solve :: "eq_atom list \<Rightarrow> int list list \<Rightarrow> nat \<Rightarrow> bool \<Rightarrow> nat \<Rightarrow> (smt_result \<times> nat) option" where
  "smt_solve atoms cnf w allow_bitblast n = do {
     (atoms, cnf) \<leftarrow> (if has_arrays atoms then eliminate_arrays atoms cnf else Some (atoms, cnf));
     dpllt atoms cnf w allow_bitblast n }"

lemma arith_no_arrays: "arith t \<Longrightarrow> \<not> scan_arrays t"
  by (induction t) auto

lemma smt_solve_ok:
  assumes "\<forall>e \<in> set atoms. arith_atom e" "ranked atoms" "cnf_ok (length atoms) cnf" "pool_ok n P"
  shows "\<exists>r n' P'. smt_solve atoms cnf w allow n = Some (r, n') \<and> pool_ok n' P' \<and> P \<subseteq> P' \<and> smt_answer atoms cnf w allow r"
proof -
  have "\<not> has_arrays atoms" using assms(1) arith_no_arrays by (auto simp: has_arrays_def arith_atom_def)
  moreover have "\<forall>truth. theory_check atoms truth w \<noteq> None" using theory_check_returns [OF assms(1,2)] by blast
  ultimately show ?thesis
    using dpllt_ok [OF assms(1) _ assms(3,4), of w allow] by (simp add: smt_solve_def)
qed

end
