(* ===== verification/Csc.thy ===== *)
theory Csc
  imports Prelude "HOL-Library.Word"
begin

text \<open>
  The abstract syntax of the constraint compiler \<open>csc.py\<close> and the functions on it: the evaluator
  \<open>ev\<close>, the classification \<open>has_var_mul\<close>, the lowering passes \<open>expand\<close> and \<open>lower_dist\<close>, the
  printer \<open>sv\<close> and the weights of a \<open>dist\<close>. Python's integers are \<open>int\<close>; a negative shift count,
  an unknown name, and a node without an evaluation rule raise (\<open>None\<close>).
\<close>

unbundle bit_operations_syntax

subsection \<open>Nodes\<close>

datatype cnode =
    Num int
  | Field string
  | Bit_sel string int
  | Part_sel string int int
  | Unop string cnode
  | Binop string cnode cnode
  | Impl cnode cnode
  | Inrange cnode cnode cnode
  | Inset cnode "cnode list"
  | Aref string cnode
  | Foreach string string cnode
  | Unique "cnode list"
  | Dist cnode "item list"
and item = Item cnode cnode cnode string   \<comment> \<open>low, high, weight, \<open>=\<close> or \<open>/\<close>\<close>

type_synonym env = "string \<Rightarrow> int option"
type_synonym arrays = "string \<Rightarrow> (int \<times> int) option"   \<comment> \<open>number of elements, width\<close>

subsection \<open>The evaluator\<close>

definition shl :: "int \<Rightarrow> int \<Rightarrow> int option" where
  "shl a b = (if b < 0 then None else Some (push_bit (nat b) a))"

definition shr :: "int \<Rightarrow> int \<Rightarrow> int option" where
  "shr a b = (if b < 0 then None else Some (drop_bit (nat b) a))"

text \<open>\<open>(1 << k) - 1\<close>\<close>

definition ones :: "int \<Rightarrow> int option" where
  "ones k = do { m \<leftarrow> shl 1 k; Some (m - 1) }"

text \<open>
  The table of the binary operators is a dictionary display: all its entries are computed before
  the one of the operator is taken, the two shifts included.
\<close>

definition ev_bin :: "string \<Rightarrow> int \<Rightarrow> int \<Rightarrow> int option" where
  "ev_bin op a b =
     do { l \<leftarrow> shl a b; r \<leftarrow> shr a b;
          map_of [(''||'', of_bool (a \<noteq> 0 \<or> b \<noteq> 0)), (''&&'', of_bool (a \<noteq> 0 \<and> b \<noteq> 0)),
                  (''|'', a OR b), (''^'', a XOR b), (''&'', a AND b), (''=='', of_bool (a = b)),
                  (''!='', of_bool (a \<noteq> b)), (''<'', of_bool (a < b)), (''<='', of_bool (a \<le> b)),
                  (''>'', of_bool (a > b)), (''>='', of_bool (a \<ge> b)), (''<<'', l), (''>>'', r),
                  (''+'', a + b), (''-'', a - b), (''*'', a * b),
                  (''/'', if b \<noteq> 0 then a div b else 0), (''%'', if b \<noteq> 0 then a mod b else 0)] op }"

definition ev_un :: "string \<Rightarrow> int \<Rightarrow> int option" where
  "ev_un op e = map_of [(''!'', of_bool (e = 0)), (''~'', NOT e), (''-'', - e)] op"

fun ev :: "cnode \<Rightarrow> env \<Rightarrow> int option" where
  "ev (Num v) env = Some v"
| "ev (Field x) env = env x"
| "ev (Bit_sel x i) env = do { v \<leftarrow> env x; s \<leftarrow> shr v i; Some (s AND 1) }"
| "ev (Part_sel x hi lo) env =
     do { v \<leftarrow> env x; s \<leftarrow> shr v lo; m \<leftarrow> ones (hi - lo + 1); Some (s AND m) }"
| "ev (Unop op e) env = do { v \<leftarrow> ev e env; ev_un op v }"
| "ev (Inrange e lo hi) env =
     do { x \<leftarrow> ev e env; l \<leftarrow> ev lo env;
          if l \<le> x then do { h \<leftarrow> ev hi env; Some (of_bool (x \<le> h)) } else Some 0 }"
| "ev (Inset e vs) env =
     do { x \<leftarrow> ev e env; ys \<leftarrow> those (map (\<lambda>v. ev v env) vs); Some (of_bool (x \<in> set ys)) }"
| "ev (Impl a b) env = do { x \<leftarrow> ev a env; if x = 0 then Some 1 else ev b env }"
| "ev (Binop op a b) env = do { x \<leftarrow> ev a env; y \<leftarrow> ev b env; ev_bin op x y }"
| "ev (Aref _ _) env = None"
| "ev (Foreach _ _ _) env = None"
| "ev (Unique _) env = None"
| "ev (Dist _ _) env = None"

subsection \<open>Classification\<close>

fun is_const :: "cnode \<Rightarrow> bool" where
  "is_const (Num _) = True"
| "is_const _ = False"

text \<open>Only children that are tuples are searched; the lists of \<open>inside\<close>, \<open>unique\<close>, \<open>dist\<close> are not.\<close>

fun has_var_mul :: "cnode \<Rightarrow> bool" where
  "has_var_mul (Binop op a b) =
     (op = ''*'' \<and> \<not> is_const a \<and> \<not> is_const b \<or> has_var_mul a \<or> has_var_mul b)"
| "has_var_mul (Unop _ e) = has_var_mul e"
| "has_var_mul (Impl a b) = (has_var_mul a \<or> has_var_mul b)"
| "has_var_mul (Inrange e lo hi) = (has_var_mul e \<or> has_var_mul lo \<or> has_var_mul hi)"
| "has_var_mul (Inset e vs) = has_var_mul e"
| "has_var_mul (Aref _ i) = has_var_mul i"
| "has_var_mul (Foreach _ _ b) = has_var_mul b"
| "has_var_mul (Dist e _) = has_var_mul e"
| "has_var_mul _ = False"

subsection \<open>Unrolling and lowering\<close>

definition elem_name :: "string \<Rightarrow> int \<Rightarrow> string" where
  "elem_name x i = x @ ''__'' @ show_int i"

text \<open>A whole array in a \<open>unique\<close> list stands for its elements.\<close>

fun array_elems :: "arrays \<Rightarrow> cnode \<Rightarrow> cnode list option" where
  "array_elems arrays (Field x) =
     (case arrays x of None \<Rightarrow> None | Some (n, w) \<Rightarrow> Some (map (\<lambda>k. Field (elem_name x k)) [0..n - 1]))"
| "array_elems arrays _ = None"

fun all_pairs_differ :: "cnode list \<Rightarrow> cnode \<Rightarrow> cnode" where
  "all_pairs_differ [] out = out"
| "all_pairs_differ (a # items) out =
     all_pairs_differ items (foldl (\<lambda>out b. Binop ''&&'' out (Binop ''!='' a b)) out items)"

fun expand :: "arrays \<Rightarrow> env \<Rightarrow> cnode \<Rightarrow> cnode option"
  and expand_item :: "arrays \<Rightarrow> env \<Rightarrow> item \<Rightarrow> item option" where
  "expand arrays env (Num v) = Some (Num v)"
| "expand arrays env (Field x) = Some (case env x of Some v \<Rightarrow> Num v | None \<Rightarrow> Field x)"
| "expand arrays env (Bit_sel x i) = Some (Bit_sel x i)"
| "expand arrays env (Part_sel x hi lo) = Some (Part_sel x hi lo)"
| "expand arrays env (Unop op e) = do { e \<leftarrow> expand arrays env e; Some (Unop op e) }"
| "expand arrays env (Binop op a b) =
     do { a \<leftarrow> expand arrays env a; b \<leftarrow> expand arrays env b; Some (Binop op a b) }"
| "expand arrays env (Impl a b) =
     do { a \<leftarrow> expand arrays env a; b \<leftarrow> expand arrays env b; Some (Impl a b) }"
| "expand arrays env (Inrange e lo hi) =
     do { e \<leftarrow> expand arrays env e; lo \<leftarrow> expand arrays env lo; hi \<leftarrow> expand arrays env hi;
          Some (Inrange e lo hi) }"
| "expand arrays env (Inset e vs) =
     do { e \<leftarrow> expand arrays env e; vs \<leftarrow> those (map (expand arrays env) vs); Some (Inset e vs) }"
| "expand arrays env (Aref x i) =
     do { idx \<leftarrow> expand arrays env i;
          case idx of Num k \<Rightarrow> Some (Field (elem_name x k)) | _ \<Rightarrow> None }"
| "expand arrays env (Foreach arr iv body) =
     do { (n, w) \<leftarrow> arrays arr;
          bs \<leftarrow> those (map (\<lambda>i. expand arrays (env(iv \<mapsto> i)) body) [0..n - 1]);
          Some (foldl (Binop ''&&'') (Num 1) bs) }"
| "expand arrays env (Unique us) =
     do { items \<leftarrow> those (map (\<lambda>u. case array_elems arrays u of Some es \<Rightarrow> Some es
            | None \<Rightarrow> do { e \<leftarrow> expand arrays env u; Some [e] }) us);
          Some (all_pairs_differ (concat items) (Num 1)) }"
| "expand arrays env (Dist e items) =
     do { e \<leftarrow> expand arrays env e; items \<leftarrow> those (map (expand_item arrays env) items);
          Some (Dist e items) }"
| "expand_item arrays env (Item lo hi wt k) =
     do { lo \<leftarrow> expand arrays env lo; hi \<leftarrow> expand arrays env hi; wt \<leftarrow> expand arrays env wt;
          Some (Item lo hi wt k) }"

fun lower_dist :: "cnode \<Rightarrow> cnode" where
  "lower_dist (Dist left items) =
     foldl (\<lambda>out it. case it of Item lo hi wt k \<Rightarrow>
       Binop ''||'' out (Binop ''&&'' (Binop ''>='' left lo) (Binop ''<='' left hi))) (Num 0) items"
| "lower_dist (Unop op e) = Unop op (lower_dist e)"
| "lower_dist (Binop op a b) = Binop op (lower_dist a) (lower_dist b)"
| "lower_dist (Impl a b) = Impl (lower_dist a) (lower_dist b)"
| "lower_dist (Inrange e lo hi) = Inrange (lower_dist e) (lower_dist lo) (lower_dist hi)"
| "lower_dist (Inset e vs) = Inset (lower_dist e) (map lower_dist vs)"
| "lower_dist (Aref x i) = Aref x (lower_dist i)"
| "lower_dist (Foreach arr iv b) = Foreach arr iv (lower_dist b)"
| "lower_dist (Unique us) = Unique (map lower_dist us)"
| "lower_dist n = n"

subsection \<open>The printer\<close>

fun sv :: "cnode \<Rightarrow> string option" where
  "sv (Num v) = Some (show_int v)"
| "sv (Field x) = Some x"
| "sv (Bit_sel x i) = Some (x @ ''['' @ show_int i @ '']'')"
| "sv (Part_sel x hi lo) = Some (x @ ''['' @ show_int hi @ '':'' @ show_int lo @ '']'')"
| "sv (Unop op e) = do { s \<leftarrow> sv e; Some (''('' @ op @ s @ '')'') }"
| "sv (Impl a b) = do { s \<leftarrow> sv a; t \<leftarrow> sv b; Some (''((!('' @ s @ '')) || ('' @ t @ ''))'') }"
| "sv (Inrange e lo hi) =
     do { l \<leftarrow> sv e; s \<leftarrow> sv lo; t \<leftarrow> sv hi;
          Some (''(('' @ l @ '') >= '' @ s @ '' && ('' @ l @ '') <= '' @ t @ '')'') }"
| "sv (Inset e vs) =
     do { l \<leftarrow> sv e; ss \<leftarrow> those (map sv vs);
          Some (''('' @ join '' || '' (map (\<lambda>s. ''('' @ l @ '')=='' @ s) ss) @ '')'') }"
| "sv (Binop op a b) = do { s \<leftarrow> sv a; t \<leftarrow> sv b; Some (''('' @ s @ '' '' @ op @ '' '' @ t @ '')'') }"
| "sv (Aref _ _) = None"
| "sv (Foreach _ _ _) = None"
| "sv (Unique _) = None"
| "sv (Dist _ _) = None"

subsection \<open>Weights\<close>

text \<open>\<open>a // b\<close>\<close>

definition floordiv :: "int \<Rightarrow> int \<Rightarrow> int option" where
  "floordiv a b = (if b = 0 then None else Some (a div b))"

definition no_env :: env where
  "no_env = Map.empty"

fun weight_scale :: "item list \<Rightarrow> int \<Rightarrow> int option" where
  "weight_scale [] scale = Some scale"
| "weight_scale (Item lo hi wt k # items) scale =
     (if k = ''/'' then
        do { h \<leftarrow> ev hi no_env; l \<leftarrow> ev lo no_env;
             scale \<leftarrow> floordiv (scale * (h - l + 1)) (gcd scale (h - l + 1));
             weight_scale items scale }
      else weight_scale items scale)"

definition add_at :: "int \<Rightarrow> int list \<Rightarrow> int \<Rightarrow> int list" where
  "add_at per pv v =
     (if 0 \<le> v \<and> v < int (length pv) then pv[nat v := pv ! nat v + per] else pv)"

fun add_weights :: "int \<Rightarrow> item list \<Rightarrow> int list \<Rightarrow> int list option" where
  "add_weights scale [] pv = Some pv"
| "add_weights scale (Item lo hi wt k # items) pv =
     do { l \<leftarrow> ev lo no_env; h \<leftarrow> ev hi no_env; ww \<leftarrow> ev wt no_env;
          per \<leftarrow> (if k = ''='' then Some (ww * scale) else floordiv (ww * scale) (h - l + 1));
          add_weights scale items (foldl (add_at per) pv [l..h]) }"

definition dist_weights :: "item list \<Rightarrow> int \<Rightarrow> int list option" where
  "dist_weights items w =
     do { N \<leftarrow> shl 1 w; scale \<leftarrow> weight_scale items 1;
          add_weights scale items (replicate (nat N) 0) }"

end
