(* ===== verification/Csc_Parse.thy ===== *)
theory Csc_Parse
  imports Csc
begin

text \<open>
  The lexer and the recursive-descent parser of \<open>csc.py\<close> (\<open>lex\<close>, \<open>numval\<close>, class \<open>P\<close>). The
  parser's position is the list of the tokens that are left; its recursion is on a fuel argument,
  and running out of fuel is an outcome of its own, \<open>Out_of_fuel\<close>, different from an exception:
  \<open>parse_spec_terminates\<close> shows that it never occurs. Characters are those of an 8-bit alphabet (Latin-1).
\<close>

subsection \<open>The lexer\<close>

datatype tok = NUM int | ID string | OP string | EOF

definition is_space :: "char \<Rightarrow> bool" where
  "is_space c \<longleftrightarrow> (let k = of_char c :: nat in
     9 \<le> k \<and> k \<le> 13 \<or> 28 \<le> k \<and> k \<le> 32 \<or> k = 133 \<or> k = 160)"

definition is_digit :: "char \<Rightarrow> bool" where
  "is_digit c \<longleftrightarrow> (let k = of_char c :: nat in 48 \<le> k \<and> k \<le> 57)"

definition is_alpha :: "char \<Rightarrow> bool" where   \<comment> \<open>\<open>[A-Za-z_]\<close>\<close>
  "is_alpha c \<longleftrightarrow> (let k = of_char c :: nat in
     65 \<le> k \<and> k \<le> 90 \<or> 97 \<le> k \<and> k \<le> 122 \<or> k = 95)"

definition is_word :: "char \<Rightarrow> bool" where   \<comment> \<open>\<open>\w\<close>\<close>
  "is_word c \<longleftrightarrow> is_digit c \<or> is_alpha c \<or> (let k = of_char c :: nat in
     192 \<le> k \<and> k \<noteq> 215 \<and> k \<noteq> 247 \<or> k \<in> {170, 178, 179, 181, 185, 186, 188, 189, 190})"

definition is_hex :: "char \<Rightarrow> bool" where   \<comment> \<open>\<open>[0-9a-fA-F_]\<close>\<close>
  "is_hex c \<longleftrightarrow> is_digit c \<or> (let k = of_char c :: nat in
     97 \<le> k \<and> k \<le> 102 \<or> 65 \<le> k \<and> k \<le> 70 \<or> k = 95)"

definition digit_val :: "char \<Rightarrow> int" where
  "digit_val c = (let k = of_char c :: nat in
     int (if k \<le> 57 then k - 48 else if k \<le> 70 then k - 55 else k - 87))"

text \<open>\<open>int(s, base)\<close> on the strings the token pattern admits; base 2 accepts the prefix \<open>0b\<close>.\<close>

definition py_int :: "int \<Rightarrow> string \<Rightarrow> int option" where
  "py_int base s =
     (let ds = (if base = 2 \<and> (take 2 s = ''0b'' \<or> take 2 s = ''0B'') then drop 2 s else s)
      in if ds = [] \<or> list_ex (\<lambda>c. digit_val c \<ge> base) ds then None
         else Some (foldl (\<lambda>v c. v * base + digit_val c) 0 ds))"

definition base_of :: "char \<Rightarrow> int option" where
  "base_of c = map_of [(CHR ''h'', 16), (CHR ''d'', 10), (CHR ''b'', 2)] c"

text \<open>
  \<open>numval\<close> on the two forms of a number: decimal digits, or a base character and the characters
  after it (the size before the quote is ignored).
\<close>

definition numval_sized :: "char \<Rightarrow> string \<Rightarrow> int option" where
  "numval_sized b rest = do { base \<leftarrow> base_of b; py_int base (filter (\<lambda>c. c \<noteq> CHR ''_'') rest) }"

definition numval_plain :: "string \<Rightarrow> int option" where
  "numval_plain ds = py_int 10 ds"

fun is_sized :: "string \<Rightarrow> bool" where   \<comment> \<open>\<open>'[hdb][0-9a-fA-F_]+\<close> matches here\<close>
  "is_sized (q # b # h # _) = (q = CHR 0x27 \<and> b \<in> set ''hdb'' \<and> is_hex h)"
| "is_sized _ = False"

fun skip_comment :: "string \<Rightarrow> string option" where   \<comment> \<open>after the first \<open>*/\<close>, if there is one\<close>
  "skip_comment [] = None"
| "skip_comment (c # cs) =
     (if c = CHR ''*'' \<and> take 1 cs = ''/'' then Some (drop 1 cs) else skip_comment cs)"

definition two_ops :: "string list" where
  "two_ops = [''->'', ''=='', ''!='', ''<='', ''>='', ''<<'', ''>>'', ''&&'', ''||'']"

definition one_ops :: string where
  "one_ops = ''[](){};:,+-*/%&|^~!<>=.''"

text \<open>One match of the token pattern: the token, if it is one, and the rest of the text.\<close>

definition lex_op :: "string \<Rightarrow> (tok list \<times> string) option" where
  "lex_op s =
     (if take 2 s \<in> set two_ops then Some ([OP (take 2 s)], drop 2 s)
      else if s \<noteq> [] \<and> hd s \<in> set one_ops then Some ([OP [hd s]], tl s)
      else None)"

definition lex_num :: "string \<Rightarrow> (tok list \<times> string) option" where
  "lex_num s =
     (let ds = takeWhile is_digit s; r = dropWhile is_digit s in
      if is_sized r
      then do { v \<leftarrow> numval_sized (r ! 1) (takeWhile is_hex (drop 2 r));
                Some ([NUM v], dropWhile is_hex (drop 2 r)) }
      else do { v \<leftarrow> numval_plain ds; Some ([NUM v], r) })"

definition lex_one :: "string \<Rightarrow> (tok list \<times> string) option" where
  "lex_one s =
     (if is_space (hd s) then Some ([], dropWhile is_space s)
      else if take 2 s = ''//'' then Some ([], dropWhile (\<lambda>c. c \<noteq> CHR 0x0A) s)
      else if take 2 s = ''/*'' \<and> skip_comment (drop 2 s) \<noteq> None
        then Some ([], the (skip_comment (drop 2 s)))
      else if is_digit (hd s) \<or> is_sized s then lex_num s
      else if is_alpha (hd s) then Some ([ID (takeWhile is_word s)], dropWhile is_word s)
      else lex_op s)"

lemma skip_comment_shorter: "skip_comment cs = Some r \<Longrightarrow> length r < length cs"
  by (induction cs) (auto split: if_splits)

lemma dropWhile_shorter: "P x \<Longrightarrow> length (dropWhile P (x # xs)) < Suc (length xs)"
  by (simp add: le_imp_less_Suc length_dropWhile_le)

lemma lex_one_shorter: "s \<noteq> [] \<Longrightarrow> lex_one s = Some (ts, r) \<Longrightarrow> length r < length s"
proof -
  assume s: "s \<noteq> []" and 1: "lex_one s = Some (ts, r)"
  obtain c cs where c: "s = c # cs" using s by (cases s) auto
  have num: "length r < length s" if "lex_num s = Some (ts, r)" "is_digit c \<or> is_sized s"
  proof (cases "is_sized (dropWhile is_digit s)")
    case True
    then obtain q b h t where d: "dropWhile is_digit s = q # b # h # t"
      by (cases "dropWhile is_digit s" rule: is_sized.cases) auto
    have "length (dropWhile is_digit s) \<le> length s" by (rule length_dropWhile_le)
    moreover have "length (dropWhile is_hex (h # t)) \<le> length (h # t)" by (rule length_dropWhile_le)
    ultimately show ?thesis
      using that(1) True by (auto simp: lex_num_def Let_def d split: bind_splits)
  next
    case False
    then have "is_digit c" using that(2) c by (cases "is_digit c") auto
    then show ?thesis
      using that(1) False dropWhile_shorter [of is_digit c cs] c
      by (auto simp: lex_num_def Let_def split: bind_splits)
  qed
  have op: "length r < length s" if "lex_op s = Some (ts, r)"
    using that s by (auto simp: lex_op_def split: if_splits)
  show ?thesis
    using 1 num op dropWhile_shorter [of is_space c cs] dropWhile_shorter [of is_word c cs]
      dropWhile_shorter [of "\<lambda>c. c \<noteq> CHR 0x0A" c cs] skip_comment_shorter [of "drop 2 s"]
    unfolding c lex_one_def
    by (auto split: if_splits simp: is_word_def)
qed

function lex :: "string \<Rightarrow> tok list option" where
  "lex s = (if s = [] then Some [EOF]
            else case lex_one s of None \<Rightarrow> None
                 | Some (ts, r) \<Rightarrow> do { rest \<leftarrow> lex r; Some (ts @ rest) })"
  by auto
termination
  by (relation "measure length") (auto dest: lex_one_shorter)

declare lex.simps [simp del]

subsection \<open>The token stream\<close>

text \<open>
  The value of a token, as a string: Python keeps a number as an integer and the value of the
  end as \<open>None\<close>, but the parser compares a value only with words and symbols, and puts it only
  into names, where it is formatted.
\<close>

fun tok_val :: "tok \<Rightarrow> string" where
  "tok_val (NUM v) = show_int v"
| "tok_val (ID x) = x"
| "tok_val (OP x) = x"
| "tok_val EOF = []"

text \<open>
  The outcome of a run: a result, an exception (\<open>SyntaxError\<close>, \<open>IndexError\<close>, and what the evaluator
  raises), or that the fuel of the recursion ran out, which is neither.
\<close>

datatype 'a parse_result = Returned 'a | Raised | Out_of_fuel

fun and_then :: "'a parse_result \<Rightarrow> ('a \<Rightarrow> 'b parse_result) \<Rightarrow> 'b parse_result" where
  "and_then (Returned x) f = f x"
| "and_then Raised f = Raised"
| "and_then Out_of_fuel f = Out_of_fuel"

primrec of_option :: "'a option \<Rightarrow> 'a parse_result" where
  "of_option (Some x) = Returned x"
| "of_option None = Raised"

primrec to_option :: "'a parse_result \<Rightarrow> 'a option" where
  "to_option (Returned x) = Some x"
| "to_option Raised = None"
| "to_option Out_of_fuel = None"

fun peek :: "tok list \<Rightarrow> tok parse_result" where
  "peek [] = Raised"
| "peek (t # ts) = Returned t"

fun nextok :: "tok list \<Rightarrow> (tok \<times> tok list) parse_result" where
  "nextok [] = Raised"
| "nextok (t # ts) = Returned (t, ts)"

fun eat :: "string \<Rightarrow> tok list \<Rightarrow> tok list parse_result" where
  "eat v [] = Raised"
| "eat v (t # ts) = (if tok_val t = v then Returned ts else Raised)"

definition is_tok :: "string \<Rightarrow> tok list \<Rightarrow> bool parse_result" where
  "is_tok v ts =
     and_then (peek ts) (\<lambda>t.
     Returned (tok_val t = v))"

subsection \<open>Expressions\<close>

definition PREC :: "string \<Rightarrow> int option" where
  "PREC = map_of [(''->'', 1), (''||'', 2), (''&&'', 3), (''|'', 4), (''^'', 5), (''&'', 6),
     (''=='', 7), (''!='', 7), (''<'', 8), (''<='', 8), (''>'', 8), (''>='', 8), (''<<'', 9),
     (''>>'', 9), (''+'', 10), (''-'', 10), (''*'', 11), (''/'', 11), (''%'', 11)]"

type_synonym 'a parsed = "('a \<times> tok list) parse_result"

text \<open>
  The rules of the grammar, with \<open>pe\<close> for \<open>self.parse_expr\<close>; the loops, which Python runs until
  they meet their end, have fuel of their own.
\<close>

type_synonym expr_parser = "int \<Rightarrow> tok list \<Rightarrow> cnode parsed"

primrec more_exprs :: "expr_parser \<Rightarrow> nat \<Rightarrow> tok list \<Rightarrow> cnode list parsed" where
  "more_exprs pe 0 ts = Out_of_fuel"
| "more_exprs pe (Suc k) ts =
     and_then (is_tok '','' ts) (\<lambda>comma.
     if comma then
       and_then (eat '','' ts) (\<lambda>ts.
       and_then (pe 0 ts) (\<lambda>(e, ts).
       and_then (more_exprs pe k ts) (\<lambda>(es, ts).
       Returned (e # es, ts))))
     else Returned ([], ts))"

text \<open>\<open>[ expr : expr ]\<close>, a part that several rules share\<close>

definition parse_range :: "expr_parser \<Rightarrow> tok list \<Rightarrow> (cnode \<times> cnode) parsed" where
  "parse_range pe ts =
     and_then (eat ''['' ts) (\<lambda>ts.
     and_then (pe 0 ts) (\<lambda>(lo, ts).
     and_then (eat '':'' ts) (\<lambda>ts.
     and_then (pe 0 ts) (\<lambda>(hi, ts).
     and_then (eat '']'' ts) (\<lambda>ts.
     Returned ((lo, hi), ts))))))"

definition parse_inside :: "expr_parser \<Rightarrow> nat \<Rightarrow> cnode \<Rightarrow> tok list \<Rightarrow> cnode parsed" where
  "parse_inside pe k left ts =
     and_then (eat ''{'' ts) (\<lambda>ts.
     and_then (is_tok ''['' ts) (\<lambda>range.
     if range then
       and_then (parse_range pe ts) (\<lambda>((lo, hi), ts).
       and_then (eat ''}'' ts) (\<lambda>ts.
       Returned (Inrange left lo hi, ts)))
     else
       and_then (pe 0 ts) (\<lambda>(e, ts).
       and_then (more_exprs pe k ts) (\<lambda>(es, ts).
       and_then (eat ''}'' ts) (\<lambda>ts.
       Returned (Inset left (e # es), ts))))))"

definition parse_select :: "arrays \<Rightarrow> expr_parser \<Rightarrow> string \<Rightarrow> tok list \<Rightarrow> cnode parsed" where
  "parse_select arrays pe v ts =
     and_then (eat ''['' ts) (\<lambda>ts.
     and_then (pe 0 ts) (\<lambda>(a, ts).
     and_then (is_tok '':'' ts) (\<lambda>part.
     if arrays v \<noteq> None then
       and_then (eat '']'' ts) (\<lambda>ts.
       Returned (Aref v a, ts))
     else if part then
       and_then (eat '':'' ts) (\<lambda>ts.
       and_then (pe 0 ts) (\<lambda>(b, ts).
       and_then (eat '']'' ts) (\<lambda>ts.
       and_then (of_option (ev a no_env)) (\<lambda>hi.
       and_then (of_option (ev b no_env)) (\<lambda>lo.
       Returned (Part_sel v hi lo, ts))))))
     else
       and_then (eat '']'' ts) (\<lambda>ts.
       and_then (of_option (ev a no_env)) (\<lambda>i.
       Returned (Bit_sel v i, ts))))))"

definition parse_primary :: "arrays \<Rightarrow> expr_parser \<Rightarrow> nat \<Rightarrow> tok list \<Rightarrow> cnode parsed" where
  "parse_primary arrays pe k ts =
     and_then (nextok ts) (\<lambda>(t, ts).
     case t of
         NUM v \<Rightarrow> Returned (Num v, ts)
       | OP x \<Rightarrow>
           if x = ''('' then
             and_then (pe 0 ts) (\<lambda>(e, ts).
             and_then (eat '')'' ts) (\<lambda>ts.
             Returned (e, ts)))
           else Raised
       | ID v \<Rightarrow>
           and_then (is_tok ''['' ts) (\<lambda>sel.
           and_then (if sel then parse_select arrays pe v ts else Returned (Field v, ts)) (\<lambda>(node, ts).
           and_then (is_tok ''inside'' ts) (\<lambda>ins.
           if ins then
             and_then (nextok ts) (\<lambda>(_, ts).
             parse_inside pe k node ts)
           else Returned (node, ts))))
       | EOF \<Rightarrow> Raised)"

primrec parse_unary :: "arrays \<Rightarrow> expr_parser \<Rightarrow> nat \<Rightarrow> tok list \<Rightarrow> cnode parsed" where
  "parse_unary arrays pe 0 ts = Out_of_fuel"
| "parse_unary arrays pe (Suc k) ts =
     and_then (peek ts) (\<lambda>t.
     if tok_val t \<in> {''!'', ''~'', ''-''} then
       and_then (nextok ts) (\<lambda>(_, ts).
       and_then (parse_unary arrays pe k ts) (\<lambda>(e, ts).
       Returned (Unop (tok_val t) e, ts)))
     else parse_primary arrays pe k ts)"

primrec expr_loop :: "expr_parser \<Rightarrow> nat \<Rightarrow> int \<Rightarrow> cnode \<Rightarrow> tok list \<Rightarrow> cnode parsed" where
  "expr_loop pe 0 minp left ts = Out_of_fuel"
| "expr_loop pe (Suc k) minp left ts =
     and_then (peek ts) (\<lambda>t.
     if tok_val t = ''inside'' then
       and_then (nextok ts) (\<lambda>(_, ts).
       and_then (parse_inside pe k left ts) (\<lambda>(left, ts).
       expr_loop pe k minp left ts))
     else
       case PREC (tok_val t) of
         None \<Rightarrow> Returned (left, ts)
       | Some p \<Rightarrow>
             if p < minp then Returned (left, ts)
             else
               and_then (nextok ts) (\<lambda>(_, ts).
               and_then (pe (p + (if tok_val t = ''->'' then 0 else 1)) ts) (\<lambda>(right, ts).
               expr_loop pe k minp
                 (if tok_val t = ''->'' then Impl left right else Binop (tok_val t) left right) ts)))"

primrec parse_expr :: "arrays \<Rightarrow> nat \<Rightarrow> expr_parser" where
  "parse_expr arrays 0 = (\<lambda>minp ts. Out_of_fuel)"
| "parse_expr arrays (Suc k) = (\<lambda>minp ts.
     and_then (parse_unary arrays (parse_expr arrays k) (Suc k) ts) (\<lambda>(left, ts).
     expr_loop (parse_expr arrays k) (Suc k) minp left ts))"

definition parse_setlist :: "expr_parser \<Rightarrow> nat \<Rightarrow> tok list \<Rightarrow> cnode list parsed" where
  "parse_setlist pe k ts =
     and_then (eat ''{'' ts) (\<lambda>ts.
     and_then (pe 0 ts) (\<lambda>(e, ts).
     and_then (more_exprs pe k ts) (\<lambda>(es, ts).
     and_then (eat ''}'' ts) (\<lambda>ts.
     Returned (e # es, ts)))))"

subsection \<open>Statements\<close>

primrec dist_items :: "expr_parser \<Rightarrow> nat \<Rightarrow> tok list \<Rightarrow> item list parsed" where
  "dist_items pe 0 ts = Out_of_fuel"
| "dist_items pe (Suc k) ts =
     and_then (is_tok ''}'' ts) (\<lambda>stop.
     if stop then Returned ([], ts)
     else
       and_then (is_tok ''['' ts) (\<lambda>range.
       and_then
         (if range then parse_range pe ts
         else
           and_then (pe 0 ts) (\<lambda>(lo, ts).
           Returned ((lo, lo), ts)))
         (\<lambda>((lo, hi), ts).
       and_then (eat '':'' ts) (\<lambda>ts.
       and_then (nextok ts) (\<lambda>(kind, ts).
       and_then (pe 0 ts) (\<lambda>(wt, ts).
       and_then (is_tok '','' ts) (\<lambda>comma.
       and_then (if comma then eat '','' ts else Returned ts) (\<lambda>ts.
       and_then (dist_items pe k ts) (\<lambda>(items, ts).
       Returned (Item lo hi wt (tok_val kind) # items, ts))))))))))"

definition parse_dist :: "expr_parser \<Rightarrow> nat \<Rightarrow> cnode \<Rightarrow> tok list \<Rightarrow> cnode parsed" where
  "parse_dist pe k left ts =
     and_then (nextok ts) (\<lambda>(_, ts).
     and_then (eat ''{'' ts) (\<lambda>ts.
     and_then (dist_items pe k ts) (\<lambda>(items, ts).
     and_then (eat ''}'' ts) (\<lambda>ts.
     Returned (Dist left items, ts)))))"

text \<open>\<open>if self.is_(';'): self.eat(';')\<close>\<close>

definition opt_semi :: "tok list \<Rightarrow> tok list parse_result" where
  "opt_semi ts =
     and_then (is_tok '';'' ts) (\<lambda>semi.
     if semi then eat '';'' ts else Returned ts)"

fun skip_solve :: "tok list \<Rightarrow> tok list parse_result" where
  "skip_solve [] = Raised"
| "skip_solve (t # ts) = (if tok_val t = '';'' \<or> t = EOF then Returned (t # ts) else skip_solve ts)"

type_synonym stmt_parser = "tok list \<Rightarrow> cnode parsed"

primrec block_loop :: "stmt_parser \<Rightarrow> nat \<Rightarrow> cnode \<Rightarrow> tok list \<Rightarrow> cnode parsed" where
  "block_loop ps 0 node ts = Out_of_fuel"
| "block_loop ps (Suc k) node ts =
     and_then (is_tok ''}'' ts) (\<lambda>stop.
     if stop then Returned (node, ts)
     else
       and_then (ps ts) (\<lambda>(s, ts).
       block_loop ps k (Binop ''&&'' node s) ts))"

definition parse_block :: "stmt_parser \<Rightarrow> nat \<Rightarrow> tok list \<Rightarrow> cnode parsed" where
  "parse_block ps k ts =
     and_then (eat ''{'' ts) (\<lambda>ts.
     and_then (block_loop ps k (Num 1) ts) (\<lambda>(node, ts).
     and_then (eat ''}'' ts) (\<lambda>ts.
     Returned (node, ts))))"

text \<open>\<open>self.parse_block() if self.is_('{') else self.parse_stmt()\<close>\<close>

definition parse_body :: "stmt_parser \<Rightarrow> nat \<Rightarrow> tok list \<Rightarrow> cnode parsed" where
  "parse_body ps k ts =
     and_then (is_tok ''{'' ts) (\<lambda>block.
     if block then parse_block ps k ts else ps ts)"

definition parse_if :: "expr_parser \<Rightarrow> stmt_parser \<Rightarrow> nat \<Rightarrow> tok list \<Rightarrow> cnode parsed" where
  "parse_if pe ps k ts =
     and_then (nextok ts) (\<lambda>(_, ts).
     and_then (eat ''('' ts) (\<lambda>ts.
     and_then (pe 0 ts) (\<lambda>(c, ts).
     and_then (eat '')'' ts) (\<lambda>ts.
     and_then (parse_body ps k ts) (\<lambda>(body, ts).
     and_then (is_tok ''else'' ts) (\<lambda>els.
     if els then
       and_then (nextok ts) (\<lambda>(_, ts).
       and_then (parse_body ps k ts) (\<lambda>(eb, ts).
       Returned (Binop ''&&'' (Impl c body) (Impl (Unop ''!'' c) eb), ts)))
     else Returned (Impl c body, ts)))))))"

definition parse_foreach :: "stmt_parser \<Rightarrow> nat \<Rightarrow> tok list \<Rightarrow> cnode parsed" where
  "parse_foreach ps k ts =
     and_then (nextok ts) (\<lambda>(_, ts).
     and_then (eat ''('' ts) (\<lambda>ts.
     and_then (nextok ts) (\<lambda>(arr, ts).
     and_then (eat ''['' ts) (\<lambda>ts.
     and_then (nextok ts) (\<lambda>(iv, ts).
     and_then (eat '']'' ts) (\<lambda>ts.
     and_then (eat '')'' ts) (\<lambda>ts.
     and_then (parse_body ps k ts) (\<lambda>(body, ts).
     Returned (Foreach (tok_val arr) (tok_val iv) body, ts)))))))))"

definition parse_simple :: "expr_parser \<Rightarrow> nat \<Rightarrow> tok list \<Rightarrow> cnode parsed" where
  "parse_simple pe k ts =
     and_then (pe 0 ts) (\<lambda>(e, ts).
     and_then (is_tok ''dist'' ts) (\<lambda>dist.
     and_then (if dist then parse_dist pe k e ts else Returned (e, ts)) (\<lambda>(e, ts).
     and_then (opt_semi ts) (\<lambda>ts.
     Returned (e, ts)))))"

primrec parse_stmt :: "arrays \<Rightarrow> nat \<Rightarrow> stmt_parser" where
  "parse_stmt arrays 0 = (\<lambda>ts. Out_of_fuel)"
| "parse_stmt arrays (Suc k) = (\<lambda>ts.
     and_then (peek ts) (\<lambda>t.
     if tok_val t = ''{'' then parse_block (parse_stmt arrays k) k ts
     else if tok_val t = ''if'' then parse_if (parse_expr arrays k) (parse_stmt arrays k) k ts
     else if tok_val t = ''solve'' then
       and_then (skip_solve ts) (\<lambda>ts.
       and_then (opt_semi ts) (\<lambda>ts.
       Returned (Num 1, ts)))
     else if tok_val t = ''foreach'' then parse_foreach (parse_stmt arrays k) k ts
     else if tok_val t = ''unique'' then
       and_then (nextok ts) (\<lambda>(_, ts).
       and_then (parse_setlist (parse_expr arrays k) k ts) (\<lambda>(items, ts).
       and_then (opt_semi ts) (\<lambda>ts.
       Returned (Unique items, ts))))
     else parse_simple (parse_expr arrays k) k ts))"

subsection \<open>Specifications\<close>

definition parse_field :: "arrays \<Rightarrow> nat \<Rightarrow> tok list \<Rightarrow> (string \<times> int \<times> int) parsed" where
  "parse_field arrays k ts =
     and_then (is_tok ''rand'' ts) (\<lambda>rand.
     and_then
       (if rand then
         and_then (nextok ts) (\<lambda>(_, ts).
         Returned ts)
       else Returned ts)
       (\<lambda>ts.
     and_then (nextok ts) (\<lambda>(_, ts).
     and_then (is_tok ''['' ts) (\<lambda>wide.
     and_then
       (if wide then
         and_then (parse_range (parse_expr arrays k) ts) (\<lambda>((hi, lo), ts).
         and_then (of_option (ev hi no_env)) (\<lambda>h.
         and_then (of_option (ev lo no_env)) (\<lambda>l.
         Returned (h - l + 1, ts))))
       else Returned (1, ts))
       (\<lambda>(w, ts).
     and_then (nextok ts) (\<lambda>(name, ts).
     and_then (is_tok ''['' ts) (\<lambda>array.
     and_then
       (if array then
         and_then (eat ''['' ts) (\<lambda>ts.
         and_then (parse_expr arrays k 0 ts) (\<lambda>(e, ts).
         and_then (of_option (ev e no_env)) (\<lambda>n.
         and_then (eat '']'' ts) (\<lambda>ts.
         Returned (n, ts)))))
       else Returned (0, ts))
       (\<lambda>(n, ts).
     and_then (eat '';'' ts) (\<lambda>ts.
     Returned ((tok_val name, w, n), ts))))))))))"

primrec parse_consts :: "arrays \<Rightarrow> nat \<Rightarrow> tok list \<Rightarrow> cnode list parsed" where
  "parse_consts arrays 0 ts = Out_of_fuel"
| "parse_consts arrays (Suc k) ts =
     and_then (is_tok ''}'' ts) (\<lambda>stop.
     if stop then Returned ([], ts)
     else
       and_then (parse_stmt arrays (Suc k) ts) (\<lambda>(s, ts).
       and_then (parse_consts arrays k ts) (\<lambda>(ss, ts).
       Returned (s # ss, ts))))"

record spec =
  sp_fields :: "(string \<times> int \<times> int) list"
  sp_consts :: "cnode list"
  sp_bit :: int
  sp_arrays :: arrays

definition add_field :: "string \<times> int \<times> int \<Rightarrow> spec \<Rightarrow> spec" where
  "add_field f sp = (case f of (nm, w, n) \<Rightarrow>
     if n \<noteq> 0 then
       sp\<lparr>sp_arrays := (sp_arrays sp)(nm \<mapsto> (n, w)),
          sp_fields := sp_fields sp @ map (\<lambda>k. (elem_name nm k, w, sp_bit sp + k * w)) [0..n - 1],
          sp_bit := sp_bit sp + max 0 n * w\<rparr>
     else sp\<lparr>sp_fields := sp_fields sp @ [(nm, w, sp_bit sp)], sp_bit := sp_bit sp + w\<rparr>)"

primrec spec_loop :: "nat \<Rightarrow> spec \<Rightarrow> tok list \<Rightarrow> spec parsed" where
  "spec_loop 0 sp ts = Out_of_fuel"
| "spec_loop (Suc k) sp ts =
     and_then (peek ts) (\<lambda>t.
     if t = EOF then Returned (sp, ts)
     else if tok_val t = ''class'' then
       and_then (nextok ts) (\<lambda>(_, ts).
       and_then (nextok ts) (\<lambda>(_, ts).
       and_then (eat '';'' ts) (\<lambda>ts.
       spec_loop k sp ts)))
     else if tok_val t = ''endclass'' then
       and_then (nextok ts) (\<lambda>(_, ts).
       spec_loop k sp ts)
     else if tok_val t \<in> {''rand'', ''bit'', ''logic''} then
       and_then (parse_field (sp_arrays sp) k ts) (\<lambda>(f, ts).
       spec_loop k (add_field f sp) ts)
     else if tok_val t = ''constraint'' then
       and_then (nextok ts) (\<lambda>(_, ts).
       and_then (nextok ts) (\<lambda>(_, ts).
       and_then (eat ''{'' ts) (\<lambda>ts.
       and_then (parse_consts (sp_arrays sp) k ts) (\<lambda>(cs, ts).
       and_then (eat ''}'' ts) (\<lambda>ts.
       spec_loop k (sp\<lparr>sp_consts := sp_consts sp @ cs\<rparr>) ts)))))
     else Raised)"

definition empty_spec :: spec where
  "empty_spec = \<lparr>sp_fields = [], sp_consts = [], sp_bit = 0, sp_arrays = Map.empty\<rparr>"

definition parse_spec :: "tok list \<Rightarrow> ((string \<times> int \<times> int) list \<times> cnode list \<times> arrays) parse_result" where
  "parse_spec ts =
     and_then (spec_loop (length ts + 1) empty_spec ts) (\<lambda>(sp, _).
     Returned (sp_fields sp, sp_consts sp, sp_arrays sp))"

subsection \<open>The fuel is enough\<close>

text \<open>
  Two runs agree when they have the same outcome, the fuel does not run out, and a result leaves fewer
  than \<open>n\<close> tokens. The rules follow the structure of the parsers, so that enough fuel is shown rule by
  rule.
\<close>

definition agree :: "nat \<Rightarrow> 'a parsed \<Rightarrow> 'a parsed \<Rightarrow> bool" where
  "agree n r r' \<longleftrightarrow> r = r' \<and> r \<noteq> Out_of_fuel \<and> (\<forall>x ts. r = Returned (x, ts) \<longrightarrow> length ts < n)"

lemma agree_Returned: "length ts < n \<Longrightarrow> agree n (Returned (x, ts)) (Returned (x, ts))"
  and agree_Raised: "agree n Raised Raised"
  by (auto simp: agree_def)

lemma agree_bind:
  assumes "agree m r r'" and "\<And>x ts. length ts < m \<Longrightarrow> agree n (f x ts) (f' x ts)"
  shows "agree n (and_then r (\<lambda>(x, ts). f x ts)) (and_then r' (\<lambda>(x, ts). f' x ts))"
proof (cases r)
  case (Returned y)
  obtain x ts where "y = (x, ts)" by (cases y)
  then show ?thesis using assms(1) assms(2) [of ts x] Returned by (auto simp: agree_def)
qed (use assms(1) in \<open>auto simp: agree_def\<close>)

lemma agree_eat:
  "(\<And>t r. ts = t # r \<Longrightarrow> agree n (f r) (f' r)) \<Longrightarrow>
     agree n (and_then (eat v ts) f) (and_then (eat v ts) f')"
  by (cases ts) (auto simp: agree_def)

lemma agree_nextok:
  "(\<And>t r. ts = t # r \<Longrightarrow> agree n (f t r) (f' t r)) \<Longrightarrow>
     agree n (and_then (nextok ts) (\<lambda>(t, ts). f t ts)) (and_then (nextok ts) (\<lambda>(t, ts). f' t ts))"
  by (cases ts) (auto simp: agree_def)

lemma agree_peek:
  "(\<And>t r. ts = t # r \<Longrightarrow> agree n (f t) (f' t)) \<Longrightarrow>
     agree n (and_then (peek ts) f) (and_then (peek ts) f')"
  by (cases ts) (auto simp: agree_def)

lemma agree_is_tok:
  "(\<And>b. ts \<noteq> [] \<Longrightarrow> agree n (f b) (f' b)) \<Longrightarrow>
     agree n (and_then (is_tok v ts) f) (and_then (is_tok v ts) f')"
  by (cases ts) (simp_all add: is_tok_def agree_Raised)

lemma agree_ev:
  "(\<And>i. agree n (f i) (f' i)) \<Longrightarrow> agree n (and_then (of_option (ev e env)) f) (and_then (of_option (ev e env)) f')"
  by (cases "ev e env") (simp_all add: agree_Raised)

lemma agree_if:
  "(b \<Longrightarrow> agree n r r') \<Longrightarrow> (\<not> b \<Longrightarrow> agree n s s') \<Longrightarrow>
     agree n (if b then r else s) (if b then r' else s')"
  by simp

lemma agree_prod:
  "(\<And>a b. x = (a, b) \<Longrightarrow> agree n (f a b ts) (f' a b ts)) \<Longrightarrow>
     agree n ((case x of (a, b) \<Rightarrow> f a b) ts) ((case x of (a, b) \<Rightarrow> f' a b) ts)"
  by (cases x) simp

lemma agree_tok:
  assumes "\<And>v. t = NUM v \<Longrightarrow> agree n (f1 v) (g1 v)" and "\<And>v. t = ID v \<Longrightarrow> agree n (f2 v) (g2 v)"
    and "\<And>v. t = OP v \<Longrightarrow> agree n (f3 v) (g3 v)" and "t = EOF \<Longrightarrow> agree n f4 g4"
  shows "agree n (case t of NUM v \<Rightarrow> f1 v | ID v \<Rightarrow> f2 v | OP v \<Rightarrow> f3 v | EOF \<Rightarrow> f4)
    (case t of NUM v \<Rightarrow> g1 v | ID v \<Rightarrow> g2 v | OP v \<Rightarrow> g3 v | EOF \<Rightarrow> g4)"
  using assms by (cases t) auto

lemma agree_opt:
  "agree n f1 g1 \<Longrightarrow> (\<And>p. agree n (f2 p) (g2 p)) \<Longrightarrow>
     agree n (case x of None \<Rightarrow> f1 | Some p \<Rightarrow> f2 p) (case x of None \<Rightarrow> g1 | Some p \<Rightarrow> g2 p)"
  by (cases x) auto

lemma agree_weaken: "agree m r r' \<Longrightarrow> m \<le> n \<Longrightarrow> agree n r r'"
  by (fastforce simp: agree_def)

lemma agree_bind_if:
  "(b \<Longrightarrow> agree n (and_then r f) (and_then r' f')) \<Longrightarrow>
   (\<not> b \<Longrightarrow> agree n (and_then s f) (and_then s' f')) \<Longrightarrow>
     agree n (and_then (if b then r else s) f) (and_then (if b then r' else s') f')"
  by simp

lemma agree_bind_Returned: "agree n (f x) (f' x) \<Longrightarrow> agree n (and_then (Returned x) f) (and_then (Returned x) f')"
  by simp

lemma agree_split:
  "agree n (f x ts) (f' x ts) \<Longrightarrow>
     agree n (case (x, ts) of (x, ts) \<Rightarrow> f x ts) (case (x, ts) of (x, ts) \<Rightarrow> f' x ts)"
  by simp

lemma and_then_assoc: "and_then (and_then r g) f = and_then r (\<lambda>x. and_then (g x) f)"
  by (cases r) simp_all

lemma agree_assoc:
  "agree n (and_then r (\<lambda>x. and_then (g x) f)) (and_then r' (\<lambda>x. and_then (g' x) f')) \<Longrightarrow>
     agree n (and_then (and_then r g) f) (and_then (and_then r' g') f')"
  by (simp add: and_then_assoc)

lemma agree_unsplit:
  "agree n (and_then r (\<lambda>(x, ts). and_then (g x ts) f)) (and_then r' (\<lambda>(x, ts). and_then (g' x ts) f')) \<Longrightarrow>
     agree n (and_then r (\<lambda>x. and_then (case x of (x, ts) \<Rightarrow> g x ts) f))
       (and_then r' (\<lambda>x. and_then (case x of (x, ts) \<Rightarrow> g' x ts) f'))"
  by (simp add: case_prod_unfold)

lemma agree_prod_bind:
  "(\<And>a b. x = (a, b) \<Longrightarrow> agree n (and_then (g a b ts) f) (and_then (g' a b ts) f')) \<Longrightarrow>
     agree n (and_then ((case x of (a, b) \<Rightarrow> g a b) ts) f)
       (and_then ((case x of (a, b) \<Rightarrow> g' a b) ts) f')"
  by (cases x) simp

lemmas agree_rules = agree_eat agree_nextok agree_peek agree_is_tok agree_ev agree_if
  agree_prod agree_tok agree_opt agree_Returned agree_Raised agree_bind_if agree_bind_Returned agree_split
  agree_unsplit agree_assoc agree_prod_bind

definition exprs_agree :: "nat \<Rightarrow> expr_parser \<Rightarrow> expr_parser \<Rightarrow> bool" where
  "exprs_agree N pe pe' \<longleftrightarrow> (\<forall>m ts. length ts < N \<longrightarrow> agree (length ts) (pe m ts) (pe' m ts))"

lemma exprs_agreeD: "exprs_agree N pe pe' \<Longrightarrow> length ts < N \<Longrightarrow> agree (length ts) (pe m ts) (pe' m ts)"
  by (simp add: exprs_agree_def)

lemma exprs_agree_mono: "exprs_agree N pe pe' \<Longrightarrow> M \<le> N \<Longrightarrow> exprs_agree M pe pe'"
  by (simp add: exprs_agree_def)

lemmas agree_expr = exprs_agreeD [THEN agree_bind]

lemma more_exprs_agree:
  assumes "exprs_agree N pe pe'"
  shows "length ts \<le> N \<Longrightarrow> length ts < k \<Longrightarrow> length ts < k' \<Longrightarrow>
    agree (Suc (length ts)) (more_exprs pe k ts) (more_exprs pe' k' ts)"
proof (induction k arbitrary: k' ts)
  case (Suc k)
  obtain j where j: "k' = Suc j" using Suc.prems by (cases k') auto
  show ?case
    unfolding j more_exprs.simps
    by (intro agree_rules agree_expr [OF assms] Suc.IH [THEN agree_bind]) (use Suc.prems j in auto)
qed simp

lemma parse_range_agree:
  assumes "exprs_agree N pe pe'" and "length ts \<le> N"
  shows "agree (length ts) (parse_range pe ts) (parse_range pe' ts)"
  unfolding parse_range_def by (intro agree_rules agree_expr [OF assms(1)]) (use assms(2) in auto)

lemma parse_inside_agree:
  assumes "exprs_agree N pe pe'" and "length ts \<le> N" and "length ts \<le> k" and "length ts \<le> k'"
  shows "agree (length ts) (parse_inside pe k left ts) (parse_inside pe' k' left ts)"
  unfolding parse_inside_def
  by (intro agree_rules agree_expr [OF assms(1)] parse_range_agree [OF assms(1), THEN agree_bind]
      more_exprs_agree [OF assms(1), THEN agree_bind]) (use assms(2-) in auto)

lemma parse_select_agree:
  assumes "exprs_agree N pe pe'" and "length ts \<le> N"
  shows "agree (length ts) (parse_select arrays pe v ts) (parse_select arrays pe' v ts)"
  unfolding parse_select_def by (intro agree_rules agree_expr [OF assms(1)]) (use assms(2) in auto)

lemma parse_primary_agree:
  assumes "exprs_agree N pe pe'" and "length ts \<le> N" and "length ts \<le> k" and "length ts \<le> k'"
  shows "agree (length ts) (parse_primary arrays pe k ts) (parse_primary arrays pe' k' ts)"
  unfolding parse_primary_def
  by (intro agree_rules agree_expr [OF assms(1)] parse_select_agree [OF assms(1), THEN agree_bind]
      parse_inside_agree [OF assms(1), THEN agree_weaken]) (use assms(2-) in auto)

lemma parse_unary_agree:
  assumes "exprs_agree N pe pe'"
  shows "length ts \<le> N \<Longrightarrow> length ts < k \<Longrightarrow> length ts < k' \<Longrightarrow>
    agree (length ts) (parse_unary arrays pe k ts) (parse_unary arrays pe' k' ts)"
proof (induction k arbitrary: k' ts)
  case (Suc k)
  obtain j where j: "k' = Suc j" using Suc.prems by (cases k') auto
  show ?case
    unfolding j parse_unary.simps
    by (intro agree_rules Suc.IH [THEN agree_bind] parse_primary_agree [OF assms])
      (use Suc.prems j in auto)
qed simp

lemma expr_loop_agree:
  assumes "exprs_agree N pe pe'"
  shows "length ts \<le> N \<Longrightarrow> length ts < k \<Longrightarrow> length ts < k' \<Longrightarrow>
    agree (Suc (length ts)) (expr_loop pe k minp left ts) (expr_loop pe' k' minp left ts)"
proof (induction k arbitrary: k' ts left)
  case (Suc k)
  obtain j where j: "k' = Suc j" using Suc.prems by (cases k') auto
  show ?case
    unfolding j expr_loop.simps
    by (intro agree_rules agree_expr [OF assms] parse_inside_agree [OF assms, THEN agree_bind]
        Suc.IH [THEN agree_weaken]) (use Suc.prems j in auto)
qed simp

lemma parse_expr_agree:
  "length ts < k \<Longrightarrow> length ts < k' \<Longrightarrow>
     agree (length ts) (parse_expr arrays k minp ts) (parse_expr arrays k' minp ts)"
proof (induction k arbitrary: k' minp ts)
  case (Suc k)
  obtain j where j: "k' = Suc j" using Suc.prems by (cases k') auto
  have ag: "exprs_agree (length ts) (parse_expr arrays k) (parse_expr arrays j)"
    unfolding exprs_agree_def using Suc.IH Suc.prems j by auto
  show ?case
    unfolding j parse_expr.simps
    by (intro parse_unary_agree [OF ag, THEN agree_bind] expr_loop_agree [OF ag, THEN agree_weaken])
      (use Suc.prems j in auto)
qed simp

lemma parse_exprs_agree: "N \<le> k \<Longrightarrow> N \<le> k' \<Longrightarrow> exprs_agree N (parse_expr arrays k) (parse_expr arrays k')"
  unfolding exprs_agree_def by (auto intro: parse_expr_agree)

lemma parse_setlist_agree:
  assumes "exprs_agree N pe pe'" and "length ts \<le> N" and "length ts \<le> k" and "length ts \<le> k'"
  shows "agree (length ts) (parse_setlist pe k ts) (parse_setlist pe' k' ts)"
  unfolding parse_setlist_def
  by (intro agree_rules agree_expr [OF assms(1)] more_exprs_agree [OF assms(1), THEN agree_bind])
    (use assms(2-) in auto)

lemma dist_items_agree:
  assumes "exprs_agree N pe pe'"
  shows "length ts < N \<Longrightarrow> length ts < k \<Longrightarrow> length ts < k' \<Longrightarrow>
    agree (Suc (length ts)) (dist_items pe k ts) (dist_items pe' k' ts)"
proof (induction k arbitrary: k' ts)
  case (Suc k)
  obtain j where j: "k' = Suc j" using Suc.prems by (cases k') auto
  show ?case
    unfolding j dist_items.simps
    by (intro agree_rules agree_expr [OF assms] parse_range_agree [OF assms, THEN agree_bind]
        Suc.IH [THEN agree_bind]) (use Suc.prems j in auto)
qed simp

lemma parse_dist_agree:
  assumes "exprs_agree N pe pe'" and "length ts \<le> N" and "length ts \<le> k" and "length ts \<le> k'"
  shows "agree (length ts) (parse_dist pe k left ts) (parse_dist pe' k' left ts)"
  unfolding parse_dist_def
  by (intro agree_rules dist_items_agree [OF assms(1), THEN agree_bind]) (use assms(2-) in auto)

lemma opt_semi_length: "opt_semi ts = Returned r \<Longrightarrow> length r \<le> length ts"
  by (cases ts) (auto simp: opt_semi_def is_tok_def split: if_splits)

lemma opt_semi_fuel: "opt_semi ts \<noteq> Out_of_fuel"
  by (cases ts) (simp_all add: opt_semi_def is_tok_def)

lemma agree_semi:
  "(\<And>r. length r \<le> length ts \<Longrightarrow> agree n (f r) (f' r)) \<Longrightarrow>
     agree n (and_then (opt_semi ts) f) (and_then (opt_semi ts) f')"
  by (cases "opt_semi ts") (simp_all add: agree_Raised opt_semi_length opt_semi_fuel)

lemma skip_solve_length: "skip_solve ts = Returned r \<Longrightarrow> length r \<le> length ts"
  by (induction ts) (auto split: if_splits)

lemma skip_solve_fuel: "skip_solve ts \<noteq> Out_of_fuel"
  by (induction ts) simp_all

lemma agree_skip:
  assumes "ts \<noteq> [] \<and> tok_val (hd ts) = ''solve''"
    and "\<And>r. length r < length ts \<Longrightarrow> agree n (f r) (f' r)"
  shows "agree n (and_then (skip_solve ts) f) (and_then (skip_solve ts) f')"
proof -
  obtain t r where ts: "ts = t # r" using assms(1) by (cases ts) auto
  then have s: "skip_solve ts = skip_solve r" using assms(1) by (cases t) auto
  show ?thesis
    unfolding s
    by (cases "skip_solve r")
      (use ts in \<open>auto simp: agree_Raised skip_solve_fuel less_Suc_eq_le dest!: skip_solve_length intro!: assms(2)\<close>)
qed

lemmas agree_stmt_rules = agree_rules agree_semi

definition stmts_agree :: "nat \<Rightarrow> stmt_parser \<Rightarrow> stmt_parser \<Rightarrow> bool" where
  "stmts_agree N ps ps' \<longleftrightarrow> (\<forall>ts. length ts < N \<longrightarrow> agree (length ts) (ps ts) (ps' ts))"

lemma stmts_agreeD: "stmts_agree N ps ps' \<Longrightarrow> length ts < N \<Longrightarrow> agree (length ts) (ps ts) (ps' ts)"
  by (simp add: stmts_agree_def)

lemmas agree_stmt = stmts_agreeD [THEN agree_bind]

lemma block_loop_agree:
  assumes "stmts_agree N ps ps'"
  shows "length ts < N \<Longrightarrow> length ts < k \<Longrightarrow> length ts < k' \<Longrightarrow>
    agree (Suc (length ts)) (block_loop ps k node ts) (block_loop ps' k' node ts)"
proof (induction k arbitrary: k' ts node)
  case (Suc k)
  obtain j where j: "k' = Suc j" using Suc.prems by (cases k') auto
  show ?case
    unfolding j block_loop.simps
    by (intro agree_rules agree_stmt [OF assms] Suc.IH [THEN agree_weaken]) (use Suc.prems j in auto)
qed simp

lemma parse_block_agree:
  assumes "stmts_agree N ps ps'" and "length ts \<le> N" and "length ts \<le> k" and "length ts \<le> k'"
  shows "agree (length ts) (parse_block ps k ts) (parse_block ps' k' ts)"
  unfolding parse_block_def
  by (intro agree_rules block_loop_agree [OF assms(1), THEN agree_bind]) (use assms(2-) in auto)

lemma parse_body_agree:
  assumes "stmts_agree N ps ps'" and "length ts < N" and "length ts \<le> k" and "length ts \<le> k'"
  shows "agree (length ts) (parse_body ps k ts) (parse_body ps' k' ts)"
  unfolding parse_body_def
  by (intro agree_rules parse_block_agree [OF assms(1)] stmts_agreeD [OF assms(1)]) (use assms(2-) in auto)

lemma parse_if_agree:
  assumes "exprs_agree N pe pe'" and "stmts_agree N ps ps'"
    and "length ts \<le> N" and "length ts \<le> k" and "length ts \<le> k'"
  shows "agree (length ts) (parse_if pe ps k ts) (parse_if pe' ps' k' ts)"
  unfolding parse_if_def
  by (intro agree_rules agree_expr [OF assms(1)] parse_body_agree [OF assms(2), THEN agree_bind])
    (use assms(3-) in auto)

lemma parse_foreach_agree:
  assumes "stmts_agree N ps ps'" and "length ts \<le> N" and "length ts \<le> k" and "length ts \<le> k'"
  shows "agree (length ts) (parse_foreach ps k ts) (parse_foreach ps' k' ts)"
  unfolding parse_foreach_def
  by (intro agree_rules parse_body_agree [OF assms(1), THEN agree_bind]) (use assms(2-) in auto)

lemma parse_simple_agree:
  assumes "exprs_agree N pe pe'" and "length ts < N" and "length ts \<le> k" and "length ts \<le> k'"
  shows "agree (length ts) (parse_simple pe k ts) (parse_simple pe' k' ts)"
  unfolding parse_simple_def
  by (intro agree_stmt_rules agree_expr [OF assms(1)] parse_dist_agree [OF assms(1), THEN agree_bind])
    (use assms(2-) in auto)

lemma parse_stmt_agree:
  "length ts + 1 < k \<Longrightarrow> length ts + 1 < k' \<Longrightarrow>
     agree (length ts) (parse_stmt arrays k ts) (parse_stmt arrays k' ts)"
proof (induction k arbitrary: k' ts)
  case (Suc k)
  obtain j where j: "k' = Suc j" using Suc.prems by (cases k') auto
  have pe: "exprs_agree (Suc (length ts)) (parse_expr arrays k) (parse_expr arrays j)"
    by (rule parse_exprs_agree) (use Suc.prems j in auto)
  have ps: "stmts_agree (length ts) (parse_stmt arrays k) (parse_stmt arrays j)"
    unfolding stmts_agree_def using Suc.IH Suc.prems j by auto
  note pe' = exprs_agree_mono [OF pe, of "length ts"]
  show ?case
    unfolding j parse_stmt.simps
    by (intro agree_stmt_rules agree_skip parse_block_agree [OF ps] parse_if_agree [OF pe' ps]
        parse_foreach_agree [OF ps] parse_simple_agree [OF pe] parse_setlist_agree [OF pe, THEN agree_bind])
      (use Suc.prems j in auto)
qed simp

lemma parse_stmts_agree:
  "N < k \<Longrightarrow> N < k' \<Longrightarrow> stmts_agree N (parse_stmt arrays k) (parse_stmt arrays k')"
  unfolding stmts_agree_def by (auto intro: parse_stmt_agree)

lemma parse_field_agree:
  assumes "length ts \<le> k" and "length ts \<le> k'"
  shows "agree (length ts) (parse_field arrays k ts) (parse_field arrays k' ts)"
  unfolding parse_field_def
  by (intro agree_rules agree_expr [OF parse_exprs_agree [OF assms]]
      parse_range_agree [OF parse_exprs_agree [OF assms], THEN agree_bind]) (use assms in auto)

lemma parse_consts_agree:
  "length ts + 1 < k \<Longrightarrow> length ts + 1 < k' \<Longrightarrow>
    agree (Suc (length ts)) (parse_consts arrays k ts) (parse_consts arrays k' ts)"
proof (induction k arbitrary: k' ts)
  case (Suc k)
  obtain j where j: "k' = Suc j" using Suc.prems by (cases k') auto
  have ps: "stmts_agree (Suc (length ts)) (parse_stmt arrays (Suc k)) (parse_stmt arrays (Suc j))"
    by (rule parse_stmts_agree) (use Suc.prems j in auto)
  show ?case
    unfolding j parse_consts.simps
    by (intro agree_rules agree_stmt [OF ps] Suc.IH [THEN agree_bind]) (use Suc.prems j in auto)
qed simp

lemma spec_loop_agree:
  "length ts < k \<Longrightarrow> length ts < k' \<Longrightarrow> agree (Suc (length ts)) (spec_loop k sp ts) (spec_loop k' sp ts)"
proof (induction k arbitrary: k' sp ts)
  case (Suc k)
  obtain j where j: "k' = Suc j" using Suc.prems by (cases k') auto
  show ?case
    unfolding j spec_loop.simps
    by (intro agree_rules parse_field_agree [THEN agree_bind] parse_consts_agree [THEN agree_bind]
        Suc.IH [THEN agree_weaken]) (use Suc.prems j in auto)
qed simp

text \<open>C32. The parser terminates on every token list, accepted or not. With any fuel beyond the number of
  tokens its loop ends, by a result or by an exception, without using the fuel up, and its outcome is
  that of \<open>parse_spec\<close>, which therefore never runs out either. A loop that does not consume a token
  would use up every fuel.\<close>

theorem parse_spec_terminates:
  assumes "length ts < k"
  shows "spec_loop k empty_spec ts \<noteq> Out_of_fuel \<and> parse_spec ts \<noteq> Out_of_fuel \<and>
    parse_spec ts = and_then (spec_loop k empty_spec ts)
      (\<lambda>(sp, _). Returned (sp_fields sp, sp_consts sp, sp_arrays sp))"
proof -
  have "agree (Suc (length ts)) (spec_loop (length ts + 1) empty_spec ts) (spec_loop k empty_spec ts)"
    by (rule spec_loop_agree) (use assms in simp_all)
  then show ?thesis
    by (cases "spec_loop k empty_spec ts") (auto simp: parse_spec_def agree_def split: prod.splits)
qed

lemma parse_spec_terminates_witness:
  "spec_loop 9 empty_spec [ID ''endclass'', ID ''bit'', ID ''a'', OP '';'', EOF] \<noteq> Out_of_fuel \<and>
    parse_spec [ID ''endclass'', ID ''bit'', ID ''a'', OP '';'', EOF] \<noteq> Out_of_fuel \<and>
    parse_spec [ID ''endclass'', ID ''bit'', ID ''a'', OP '';'', EOF] =
      and_then (spec_loop 9 empty_spec [ID ''endclass'', ID ''bit'', ID ''a'', OP '';'', EOF])
        (\<lambda>(sp, _). Returned (sp_fields sp, sp_consts sp, sp_arrays sp))"
  by (rule parse_spec_terminates) simp

end
