(* ===== verification/Csc_Print.thy ===== *)
theory Csc_Print
  imports Csc_Parse
begin

text \<open>
  The printer \<open>sv\<close> against the lexer and the parser: the text of a printable constraint is read
  back as a constraint with the same value.
\<close>

subsection \<open>Printable constraints\<close>

definition is_ident :: "string \<Rightarrow> bool" where
  "is_ident x \<longleftrightarrow> x \<noteq> [] \<and> is_alpha (hd x) \<and> list_all is_word x \<and> x \<noteq> ''inside''"

definition bin_ops :: "string list" where
  "bin_ops = [''||'', ''&&'', ''|'', ''^'', ''&'', ''=='', ''!='', ''<'', ''<='', ''>'', ''>='',
     ''<<'', ''>>'', ''+'', ''-'', ''*'', ''/'', ''%'']"

fun printable :: "cnode \<Rightarrow> bool" where
  "printable (Num v) = True"
| "printable (Field x) = is_ident x"
| "printable (Bit_sel x i) = is_ident x"
| "printable (Part_sel x hi lo) = is_ident x"
| "printable (Unop op e) = (op \<in> {''!'', ''~'', ''-''} \<and> printable e)"
| "printable (Binop op a b) = (op \<in> set bin_ops \<and> printable a \<and> printable b)"
| "printable (Impl a b) = (printable a \<and> printable b)"
| "printable (Inrange e lo hi) = (printable e \<and> printable lo \<and> printable hi)"
| "printable (Inset e vs) = (vs \<noteq> [] \<and> printable e \<and> list_all printable vs)"
| "printable _ = False"

text \<open>What the parser reads from the text.\<close>

definition re_num :: "int \<Rightarrow> cnode" where
  "re_num v = (if v < 0 then Unop ''-'' (Num (- v)) else Num v)"

definition any_of :: "cnode list \<Rightarrow> cnode" where
  "any_of es = foldl (Binop ''||'') (hd es) (tl es)"

fun reread :: "cnode \<Rightarrow> cnode" where
  "reread (Num v) = re_num v"
| "reread (Unop op e) = Unop op (reread e)"
| "reread (Binop op a b) = Binop op (reread a) (reread b)"
| "reread (Impl a b) = Binop ''||'' (Unop ''!'' (reread a)) (reread b)"
| "reread (Inrange e lo hi) =
     Binop ''&&'' (Binop ''>='' (reread e) (reread lo)) (Binop ''<='' (reread e) (reread hi))"
| "reread (Inset e vs) = any_of (map (\<lambda>v. Binop ''=='' (reread e) (reread v)) vs)"
| "reread n = n"

lemma show_nat_digit: "c \<in> set (show_nat n) \<Longrightarrow> is_digit c"
proof (induction n rule: show_nat.induct)
  case (1 n)
  have d: "is_digit (digit k)" if "k < 10" for k using that by (simp add: is_digit_def digit_def)
  show ?case using 1 d by (subst (asm) (2) show_nat.simps) (auto split: if_splits)
qed

lemma show_nat_head: "is_digit (hd (show_nat n))"
  using show_nat_digit [of "hd (show_nat n)" n] show_nat_not_Nil [of n] by simp

subsection \<open>The tokens of the text\<close>

definition num_toks :: "int \<Rightarrow> tok list" where
  "num_toks v = (if v < 0 then [OP ''-'', NUM (- v)] else [NUM v])"

fun toks :: "cnode \<Rightarrow> tok list" where
  "toks (Num v) = num_toks v"
| "toks (Field x) = [ID x]"
| "toks (Bit_sel x i) = ID x # OP ''['' # num_toks i @ [OP '']'']"
| "toks (Part_sel x hi lo) = ID x # OP ''['' # num_toks hi @ OP '':'' # num_toks lo @ [OP '']'']"
| "toks (Unop op e) = OP ''('' # OP op # toks e @ [OP '')'']"
| "toks (Binop op a b) = OP ''('' # toks a @ OP op # toks b @ [OP '')'']"
| "toks (Impl a b) = OP ''('' # OP ''('' # OP ''!'' # OP ''('' # toks a @ OP '')'' # OP '')'' #
     OP ''||'' # OP ''('' # toks b @ [OP '')'', OP '')'']"
| "toks (Inrange e lo hi) = OP ''('' # OP ''('' # toks e @ OP '')'' # OP ''>='' # toks lo @
     OP ''&&'' # OP ''('' # toks e @ OP '')'' # OP ''<='' # toks hi @ [OP '')'']"
| "toks (Inset e []) = [OP ''('', OP '')'']"
| "toks (Inset e (v # vs)) = OP ''('' # OP ''('' # toks e @ OP '')'' # OP ''=='' # toks v @
     concat (map (\<lambda>v. OP ''||'' # OP ''('' # toks e @ OP '')'' # OP ''=='' # toks v) vs) @ [OP '')'']"
| "toks _ = []"

lemma toks_Inset:
  "vs \<noteq> [] \<Longrightarrow> toks (Inset e vs) = OP ''('' # OP ''('' # toks e @ OP '')'' # OP ''=='' # toks (hd vs) @
     concat (map (\<lambda>v. OP ''||'' # OP ''('' # toks e @ OP '')'' # OP ''=='' # toks v) (tl vs)) @ [OP '')'']"
  by (cases vs) auto

subsection \<open>Parsing the tokens\<close>

definition closes :: "tok list \<Rightarrow> bool" where   \<comment> \<open>the next token does not continue a primary\<close>
  "closes rest \<longleftrightarrow> rest \<noteq> [] \<and> tok_val (hd rest) \<noteq> ''['' \<and> tok_val (hd rest) \<noteq> ''inside''"

lemma closes_Cons [simp]: "closes (t # ts) \<longleftrightarrow> tok_val t \<noteq> ''['' \<and> tok_val t \<noteq> ''inside''"
  by (simp add: closes_def)

definition reads_as :: "arrays \<Rightarrow> cnode \<Rightarrow> cnode \<Rightarrow> bool" where
  "reads_as arrays n n' \<longleftrightarrow> (\<forall>k j rest. length (toks n) \<le> k \<longrightarrow>
     length (toks n) \<le> j \<longrightarrow> closes rest \<longrightarrow>
     parse_unary arrays (parse_expr arrays k) j (toks n @ rest) = Returned (n', rest))"

lemma reads_asD:
  "reads_as arrays n n' \<Longrightarrow> length (toks n) \<le> k \<Longrightarrow> length (toks n) \<le> j \<Longrightarrow> closes rest \<Longrightarrow>
     parse_unary arrays (parse_expr arrays k) j (toks n @ rest) = Returned (n', rest)"
  by (simp add: reads_as_def)

text \<open>An operand and then the loop.\<close>

lemma parse_expr_operand:
  "parse_unary arrays (parse_expr arrays k) (Suc k) ts = Returned (l, ts') \<Longrightarrow>
     parse_expr arrays (Suc k) minp ts = expr_loop (parse_expr arrays k) (Suc k) minp l ts'"
  by (simp del: parse_unary.simps expr_loop.simps)

lemma parse_unary_op:
  "op \<in> {''!'', ''~'', ''-''} \<Longrightarrow> parse_unary arrays pe k ts = Returned (e, ts') \<Longrightarrow>
     parse_unary arrays pe (Suc k) (OP op # ts) = Returned (Unop op e, ts')"
  by auto

lemma parse_operand:
  "reads_as arrays n n' \<Longrightarrow> length (toks n) < k \<Longrightarrow> closes rest \<Longrightarrow>
     parse_expr arrays k minp (toks n @ rest) = expr_loop (parse_expr arrays (k - 1)) k minp n' rest"
  by (cases k) (simp_all add: reads_asD del: parse_unary.simps expr_loop.simps)

text \<open>The loop stops at a token that is no operator of this level.\<close>

definition ends :: "int \<Rightarrow> tok \<Rightarrow> bool" where
  "ends minp t \<longleftrightarrow> tok_val t \<noteq> ''inside'' \<and> (case PREC (tok_val t) of None \<Rightarrow> True | Some p \<Rightarrow> p < minp)"

lemma loop_ends: "ends minp t \<Longrightarrow> 0 < k \<Longrightarrow> expr_loop pe k minp left (t # rest) = Returned (left, t # rest)"
  by (cases k) (auto simp: ends_def split: option.splits)

lemma loop_op:
  assumes "PREC op = Some p" and "minp \<le> p" and "op \<noteq> ''inside''" and "op \<noteq> ''->''"
    and "pe (p + 1) ts = Returned (right, ts')"
  shows "expr_loop pe (Suc k) minp left (OP op # ts) = expr_loop pe k minp (Binop op left right) ts'"
  using assms by simp

lemma parse_single:
  "reads_as arrays n n' \<Longrightarrow> length (toks n) < k \<Longrightarrow> tok_val t \<noteq> ''['' \<Longrightarrow> ends minp t \<Longrightarrow>
     parse_expr arrays k minp (toks n @ t # rest) = Returned (n', t # rest)"
  by (subst parse_operand) (auto simp: loop_ends ends_def)

lemma ends_close [simp]: "ends minp (OP '')'')" "ends minp (OP '']'')" "ends minp (OP '':'')"
  by (simp_all add: ends_def PREC_def)

text \<open>A parenthesis around a complete expression.\<close>

lemma parse_paren:
  assumes "parse_expr arrays k 0 ts = Returned (e, OP '')'' # rest)"
  shows "parse_unary arrays (parse_expr arrays k) (Suc j) (OP ''('' # ts) = Returned (e, rest)"
  using assms by (simp add: parse_primary_def)

lemma reads_paren:
  assumes "\<And>k rest. length (toks n) \<le> k + 1 \<Longrightarrow>
      parse_expr arrays k 0 (ts @ OP '')'' # rest) = Returned (n', OP '')'' # rest)"
    and "toks n = OP ''('' # ts @ [OP '')'']"
  shows "reads_as arrays n n'"
  unfolding reads_as_def
proof (intro allI impI)
  fix k j rest
  assume "length (toks n) \<le> k" "length (toks n) \<le> j"
  moreover from this obtain i where "j = Suc i" using assms(2) by (cases j) auto
  ultimately show "parse_unary arrays (parse_expr arrays k) j (toks n @ rest) = Returned (n', rest)"
    using assms parse_paren [of arrays k "ts @ OP '')'' # rest" n' rest i]
    by (simp del: parse_unary.simps)
qed

lemma bin_step:
  assumes "reads_as arrays b b'" and "length (toks b) < k" and "PREC op = Some p" and "minp \<le> p"
    and "op \<noteq> ''inside''" and "op \<noteq> ''->''" and "ends (p + 1) t" and "tok_val t \<noteq> ''[''"
  shows "expr_loop (parse_expr arrays k) (Suc j) minp left (OP op # toks b @ t # rest) =
    expr_loop (parse_expr arrays k) j minp (Binop op left b') (t # rest)"
  by (rule loop_op [OF assms(3-6)]) (rule parse_single [OF assms(1,2,8,7)])

text \<open>\<open>(e) op v\<close>\<close>

lemma paren_rel:
  assumes e: "reads_as arrays e e'" and v: "reads_as arrays v v'"
    and k: "length (toks e) + 2 < k" "length (toks v) + 1 < k"
    and op: "PREC op = Some p" "minp \<le> p" "op \<noteq> ''inside''" "op \<noteq> ''->''"
    and t: "ends (p + 1) t" "tok_val t \<noteq> ''[''"
  shows "parse_expr arrays k minp (OP ''('' # toks e @ OP '')'' # OP op # toks v @ t # rest) =
    expr_loop (parse_expr arrays (k - 1)) (k - 1) minp (Binop op e' v') (t # rest)"
proof -
  obtain j where j: "k = Suc j" using k by (cases k) auto
  have "parse_expr arrays j 0 (toks e @ OP '')'' # OP op # toks v @ t # rest) =
      Returned (e', OP '')'' # OP op # toks v @ t # rest)"
    by (rule parse_single [OF e]) (use k j in auto)
  from parse_paren [OF this]
  have "parse_expr arrays k minp (OP ''('' # toks e @ OP '')'' # OP op # toks v @ t # rest) =
      expr_loop (parse_expr arrays j) (Suc j) minp e' (OP op # toks v @ t # rest)"
    unfolding j parse_expr.simps by (simp del: parse_unary.simps expr_loop.simps)
  also have "\<dots> = expr_loop (parse_expr arrays j) j minp (Binop op e' v') (t # rest)"
    by (rule bin_step [OF v _ op t]) (use k j in simp)
  finally show ?thesis by (simp add: j)
qed

lemma PREC_bin: "op \<in> set bin_ops \<Longrightarrow> \<exists>p. PREC op = Some p \<and> 0 \<le> p \<and> op \<noteq> ''inside'' \<and> op \<noteq> ''->''"
  by (auto simp: bin_ops_def PREC_def)

lemma reads_Binop:
  assumes a: "reads_as arrays a a'" and b: "reads_as arrays b b'" and op: "op \<in> set bin_ops"
  shows "reads_as arrays (Binop op a b) (Binop op a' b')"
proof (rule reads_paren [where ts = "toks a @ OP op # toks b"])
  fix k rest assume k: "length (toks (Binop op a b)) \<le> k + 1"
  obtain p where p: "PREC op = Some p" "0 \<le> p" "op \<noteq> ''inside''" "op \<noteq> ''->''"
    using PREC_bin [OF op] by blast
  obtain j where j: "k = Suc (Suc j)" using k by (cases k; cases "k - 1") auto
  have b': "op \<noteq> ''[''" using op by (auto simp: bin_ops_def)
  have "parse_expr arrays k 0 (toks a @ OP op # toks b @ OP '')'' # rest) =
      expr_loop (parse_expr arrays (k - 1)) k 0 a' (OP op # toks b @ OP '')'' # rest)"
    by (rule parse_operand [OF a]) (use k p b' in auto)
  also have "\<dots> = expr_loop (parse_expr arrays (k - 1)) (Suc j) 0 (Binop op a' b') (OP '')'' # rest)"
    unfolding j by (rule bin_step [OF b _ p]) (use k j in auto)
  also have "\<dots> = Returned (Binop op a' b', OP '')'' # rest)" by (rule loop_ends) auto
  finally show "parse_expr arrays k 0 ((toks a @ OP op # toks b) @ OP '')'' # rest) =
      Returned (Binop op a' b', OP '')'' # rest)" by simp
qed simp

lemma reads_Unop:
  assumes e: "reads_as arrays e e'" and op: "op \<in> {''!'', ''~'', ''-''}"
  shows "reads_as arrays (Unop op e) (Unop op e')"
proof (rule reads_paren [where ts = "OP op # toks e"])
  fix k rest assume k: "length (toks (Unop op e)) \<le> k + 1"
  obtain j where j: "k = Suc (Suc j)" using k by (cases k; cases "k - 1") auto
  have "parse_unary arrays (parse_expr arrays (Suc j)) (Suc j) (toks e @ OP '')'' # rest) =
      Returned (e', OP '')'' # rest)"
    by (rule reads_asD [OF e]) (use k j in auto)
  from parse_expr_operand [OF parse_unary_op [OF op this]]
  show "parse_expr arrays k 0 ((OP op # toks e) @ OP '')'' # rest) =
      Returned (Unop op e', OP '')'' # rest)"
    by (simp add: j loop_ends del: expr_loop.simps parse_expr.simps)
qed simp

text \<open>\<open>(e)\<close> and \<open>!(e)\<close> before a token that ends the expression\<close>

lemma parse_paren_expr:
  assumes e: "reads_as arrays e e'" and k: "length (toks e) + 1 < k" and t: "ends minp t"
  shows "parse_expr arrays k minp (OP ''('' # toks e @ OP '')'' # t # rest) = Returned (e', t # rest)"
proof -
  obtain j where j: "k = Suc j" using k by (cases k) auto
  have "parse_expr arrays j 0 (toks e @ OP '')'' # t # rest) = Returned (e', OP '')'' # t # rest)"
    by (rule parse_single [OF e]) (use k j in auto)
  from parse_expr_operand [OF parse_paren [OF this]] show ?thesis
    by (simp add: j loop_ends t del: expr_loop.simps parse_expr.simps)
qed

lemma parse_not_expr:
  assumes e: "reads_as arrays e e'" and k: "length (toks e) + 2 < k" and t: "ends minp t"
  shows "parse_expr arrays k minp (OP ''!'' # OP ''('' # toks e @ OP '')'' # t # rest) =
    Returned (Unop ''!'' e', t # rest)"
proof -
  obtain j where j: "k = Suc (Suc j)" using k by (cases k; cases "k - 1") auto
  have "parse_expr arrays (Suc j) 0 (toks e @ OP '')'' # t # rest) = Returned (e', OP '')'' # t # rest)"
    by (rule parse_single [OF e]) (use k j in auto)
  from parse_expr_operand [OF parse_unary_op [OF _ parse_paren [OF this]]] show ?thesis
    by (simp add: j loop_ends t del: expr_loop.simps parse_expr.simps)
qed

lemma reads_Impl:
  assumes a: "reads_as arrays a a'" and b: "reads_as arrays b b'"
  shows "reads_as arrays (Impl a b) (Binop ''||'' (Unop ''!'' a') b')"
proof (rule reads_paren)
  let ?l = "OP ''('' # OP ''!'' # OP ''('' # toks a @ [OP '')'', OP '')'']"
  let ?r = "OP ''('' # toks b @ [OP '')'']"
  show "toks (Impl a b) = OP ''('' # (?l @ OP ''||'' # ?r) @ [OP '')'']" by simp
  fix k rest assume k: "length (toks (Impl a b)) \<le> k + 1"
  define j where "j = k - 1"
  have j: "k = Suc j" and ja: "length (toks a) + 5 \<le> j" "length (toks b) + 5 \<le> j"
    using k by (auto simp: j_def)
  have "parse_expr arrays j 0 (OP ''!'' # OP ''('' # toks a @ OP '')'' # OP '')'' # ts) =
      Returned (Unop ''!'' a', OP '')'' # ts)" for ts
    by (rule parse_not_expr [OF a]) (use ja in auto)
  note l = parse_expr_operand [OF parse_paren [OF this]]
  have "parse_expr arrays j 3 (OP ''('' # toks b @ OP '')'' # OP '')'' # rest) =
      Returned (b', OP '')'' # rest)"
    by (rule parse_paren_expr [OF b]) (use ja in auto)
  then have "expr_loop (parse_expr arrays j) (Suc j) 0 (Unop ''!'' a')
      (OP ''||'' # OP ''('' # toks b @ OP '')'' # OP '')'' # rest) =
      expr_loop (parse_expr arrays j) j 0 (Binop ''||'' (Unop ''!'' a') b') (OP '')'' # rest)"
    by (intro loop_op [where p = 2]) (auto simp: PREC_def)
  also have "\<dots> = Returned (Binop ''||'' (Unop ''!'' a') b', OP '')'' # rest)"
    by (rule loop_ends) (use ja in auto)
  finally show "parse_expr arrays k 0 ((?l @ OP ''||'' # ?r) @ OP '')'' # rest) =
      Returned (Binop ''||'' (Unop ''!'' a') b', OP '')'' # rest)"
    by (simp add: j l del: expr_loop.simps parse_expr.simps)
qed

lemma reads_Inrange:
  assumes e: "reads_as arrays e e'" and lo: "reads_as arrays lo lo'" and hi: "reads_as arrays hi hi'"
  shows "reads_as arrays (Inrange e lo hi) (Binop ''&&'' (Binop ''>='' e' lo') (Binop ''<='' e' hi'))"
proof (rule reads_paren)
  let ?l = "OP ''('' # toks e @ OP '')'' # OP ''>='' # toks lo"
  let ?r = "OP ''('' # toks e @ OP '')'' # OP ''<='' # toks hi"
  show "toks (Inrange e lo hi) = OP ''('' # (?l @ OP ''&&'' # ?r) @ [OP '')'']" by simp
  fix k rest assume k: "length (toks (Inrange e lo hi)) \<le> k + 1"
  define j where "j = k - 2"
  have j: "k = Suc (Suc j)"
    and ja: "length (toks e) + 3 \<le> j" "length (toks lo) + 3 \<le> j" "length (toks hi) + 3 \<le> j"
    using k by (auto simp: j_def)
  have end8: "ends 9 (OP ''&&'')" by (simp add: ends_def PREC_def)
  have "parse_expr arrays k 0 (OP ''('' # toks e @ OP '')'' # OP ''>='' # toks lo @
        OP ''&&'' # ?r @ OP '')'' # rest) =
      expr_loop (parse_expr arrays (k - 1)) (k - 1) 0 (Binop ''>='' e' lo') (OP ''&&'' # ?r @ OP '')'' # rest)"
    by (rule paren_rel [OF e lo, where p = 8]) (use ja j end8 in \<open>auto simp: PREC_def\<close>)
  also have "\<dots> = expr_loop (parse_expr arrays (Suc j)) j 0
      (Binop ''&&'' (Binop ''>='' e' lo') (Binop ''<='' e' hi')) (OP '')'' # rest)"
  proof -
    have "parse_expr arrays (Suc j) 4 (?r @ OP '')'' # rest) =
        expr_loop (parse_expr arrays (Suc j - 1)) (Suc j - 1) 4 (Binop ''<='' e' hi') (OP '')'' # rest)"
      unfolding append_Cons append_assoc
      by (rule paren_rel [OF e hi, where p = 8]) (use ja in \<open>auto simp: PREC_def\<close>)
    also have "\<dots> = Returned (Binop ''<='' e' hi', OP '')'' # rest)" by (rule loop_ends) (use ja in auto)
    finally have r: "parse_expr arrays (Suc j) (3 + 1) (?r @ OP '')'' # rest) =
        Returned (Binop ''<='' e' hi', OP '')'' # rest)" by simp
    show ?thesis unfolding j diff_Suc_1 by (rule loop_op [where p = 3 and pe = "parse_expr arrays (Suc j)", OF _ _ _ _ r]) (auto simp: PREC_def)
  qed
  also have "\<dots> = Returned (Binop ''&&'' (Binop ''>='' e' lo') (Binop ''<='' e' hi'), OP '')'' # rest)"
    by (rule loop_ends) (use ja in auto)
  finally show "parse_expr arrays k 0 ((?l @ OP ''&&'' # ?r) @ OP '')'' # rest) =
      Returned (Binop ''&&'' (Binop ''>='' e' lo') (Binop ''<='' e' hi'), OP '')'' # rest)"
    by simp
qed

text \<open>The rest of a disjunction of comparisons\<close>

lemma loop_any:
  assumes e: "reads_as arrays e e'" and k: "length (toks e) + 2 < k"
  shows "list_all2 (reads_as arrays) vs vs' \<Longrightarrow> list_all (\<lambda>v. length (toks v) + 1 < k) vs \<Longrightarrow>
    length vs < j \<Longrightarrow>
    expr_loop (parse_expr arrays k) j 0 left
      (concat (map (\<lambda>v. OP ''||'' # OP ''('' # toks e @ OP '')'' # OP ''=='' # toks v) vs) @ OP '')'' # rest) =
    Returned (foldl (Binop ''||'') left (map (\<lambda>v'. Binop ''=='' e' v') vs'), OP '')'' # rest)"
proof (induction vs arbitrary: vs' j left)
  case Nil
  then show ?case by (simp add: loop_ends)
next
  case (Cons v vs)
  obtain v' ws where vs': "vs' = v' # ws" and v: "reads_as arrays v v'" and ws: "list_all2 (reads_as arrays) vs ws"
    using Cons.prems(1) by (cases vs') auto
  obtain i where j: "j = Suc i" using Cons.prems(3) by (cases j) auto
  let ?more = "concat (map (\<lambda>v. OP ''||'' # OP ''('' # toks e @ OP '')'' # OP ''=='' # toks v) vs)"
  obtain t ts where t: "?more @ OP '')'' # rest = t # ts" "ends 3 t" "ends 8 t" "tok_val t \<noteq> ''[''"
    by (cases vs) (auto simp: ends_def PREC_def)
  have "parse_expr arrays k 3 (OP ''('' # toks e @ OP '')'' # OP ''=='' # toks v @ t # ts) =
      expr_loop (parse_expr arrays (k - 1)) (k - 1) 3 (Binop ''=='' e' v') (t # ts)"
    by (rule paren_rel [OF e v, where p = 7]) (use k Cons.prems(2) t in \<open>auto simp: PREC_def\<close>)
  also have "\<dots> = Returned (Binop ''=='' e' v', t # ts)" by (rule loop_ends) (use t k in auto)
  finally have "parse_expr arrays k (2 + 1) (OP ''('' # toks e @ OP '')'' # OP ''=='' # toks v @ t # ts) =
      Returned (Binop ''=='' e' v', t # ts)" by simp
  then have "expr_loop (parse_expr arrays k) (Suc i) 0 left
        (OP ''||'' # OP ''('' # toks e @ OP '')'' # OP ''=='' # toks v @ t # ts) =
      expr_loop (parse_expr arrays k) i 0 (Binop ''||'' left (Binop ''=='' e' v')) (t # ts)"
    by (intro loop_op [where p = 2 and pe = "parse_expr arrays k"]) (auto simp: PREC_def)
  with Cons.IH [OF ws, of i "Binop ''||'' left (Binop ''=='' e' v')"] Cons.prems(2,3) show ?case
    by (simp add: j vs' t(1) [symmetric] del: expr_loop.simps)
qed

lemma reads_Inset:
  assumes e: "reads_as arrays e e'" and vs: "list_all2 (reads_as arrays) vs vs'" and "vs \<noteq> []"
  shows "reads_as arrays (Inset e vs) (any_of (map (\<lambda>v'. Binop ''=='' e' v') vs'))"
proof -
  obtain v us where v: "vs = v # us" using assms(3) by (cases vs) auto
  obtain v' us' where v': "vs' = v' # us'" and rv: "reads_as arrays v v'"
    and us: "list_all2 (reads_as arrays) us us'"
    using vs v by (cases vs') auto
  let ?more = "concat (map (\<lambda>v. OP ''||'' # OP ''('' # toks e @ OP '')'' # OP ''=='' # toks v) us)"
  show ?thesis
  proof (rule reads_paren)
    show "toks (Inset e vs) = OP ''('' # (OP ''('' # toks e @ OP '')'' # OP ''=='' # toks v @ ?more) @ [OP '')'']"
      by (simp add: v)
    fix k rest assume "length (toks (Inset e vs)) \<le> k + 1"
    then have k: "length (toks e) + length (toks v) + length ?more + 4 \<le> k" by (simp add: v)
    define j where "j = k - 2"
    have j: "k = Suc (Suc j)" using k by (simp add: j_def)
    have us_le: "length us \<le> length ?more" by (induction us) auto
    have "length (toks u) + 1 < length ?more" if "u \<in> set us" for u
      using that by (induction us) auto
    then have sh: "list_all (\<lambda>v. length (toks v) + 1 < Suc j) us"
      using k j by (fastforce simp: list_all_iff)
    obtain t ts where t: "?more @ OP '')'' # rest = t # ts" "ends 8 t" "tok_val t \<noteq> ''[''"
      by (cases us) (auto simp: ends_def PREC_def)
    have "parse_expr arrays k 0 (OP ''('' # toks e @ OP '')'' # OP ''=='' # toks v @ t # ts) =
        expr_loop (parse_expr arrays (k - 1)) (k - 1) 0 (Binop ''=='' e' v') (t # ts)"
      by (rule paren_rel [OF e rv, where p = 7]) (use k t in \<open>auto simp: PREC_def\<close>)
    also have "\<dots> = Returned (foldl (Binop ''||'') (Binop ''=='' e' v') (map (\<lambda>v'. Binop ''=='' e' v') us'),
        OP '')'' # rest)"
      unfolding t(1) [symmetric] j diff_Suc_1
      by (rule loop_any [OF e _ us sh]) (use k j us_le in auto)
    finally show "parse_expr arrays k 0
        ((OP ''('' # toks e @ OP '')'' # OP ''=='' # toks v @ ?more) @ OP '')'' # rest) =
      Returned (any_of (map (\<lambda>v'. Binop ''=='' e' v') vs'), OP '')'' # rest)"
      by (simp add: v' any_of_def t(1))
  qed
qed

lemma reads_num: "reads_as arrays (Num v) (re_num v)"
  unfolding reads_as_def
proof (intro allI impI)
  fix k j rest assume "length (toks (Num v)) \<le> j"
  then have "0 < j" and "v < 0 \<Longrightarrow> 1 < j" by (auto simp: num_toks_def split: if_splits)
  then obtain i where j: "j = Suc i" "v < 0 \<Longrightarrow> 0 < i" by (cases j) auto
  have 1: "tok_val (NUM w) \<notin> {''!'', ''~'', ''-''}" if "0 \<le> w" for w
    using that show_nat_head [of "nat w"] by (cases "show_nat (nat w)") (auto simp: show_int_def is_digit_def)
  show "parse_unary arrays (parse_expr arrays k) j (toks (Num v) @ rest) = Returned (re_num v, rest)"
  proof (cases "v < 0")
    case True
    then obtain l where "i = Suc l" using j by (cases i) auto
    then show ?thesis using True 1 [of "- v"] j by (simp add: num_toks_def re_num_def parse_primary_def)
  next
    case False
    then show ?thesis using 1 [of v] j by (simp add: num_toks_def re_num_def parse_primary_def)
  qed
qed

text \<open>Names, and the numbers of a select\<close>

lemma parse_num:
  assumes "tok_val t \<noteq> ''[''" and "ends 0 t" and "2 < k"
  shows "parse_expr arrays k 0 (num_toks v @ t # rest) = Returned (re_num v, t # rest)"
  using parse_single [OF reads_num, of v k t 0 arrays rest] assms by (simp add: num_toks_def)

lemma ev_re_num [simp]: "ev (re_num v) env = Some v"
  by (simp add: re_num_def ev_un_def)

lemma ident_head: "is_ident x \<Longrightarrow> x \<noteq> ''!'' \<and> x \<noteq> ''~'' \<and> x \<noteq> ''-'' \<and> x \<noteq> ''inside''"
  by (auto simp: is_ident_def is_alpha_def)

lemma reads_Field:
  assumes "is_ident x"
  shows "reads_as arrays (Field x) (Field x)"
  unfolding reads_as_def
proof (intro allI impI)
  fix k j rest assume j: "length (toks (Field x)) \<le> j" and r: "closes rest"
  obtain i where i: "j = Suc i" using j by (cases j) auto
  obtain t ts where "rest = t # ts" using r by (cases rest) (auto simp: closes_def)
  then show "parse_unary arrays (parse_expr arrays k) j (toks (Field x) @ rest) = Returned (Field x, rest)"
    using ident_head [OF assms] r by (simp add: i parse_primary_def is_tok_def closes_def)
qed

lemma reads_Bit_sel:
  assumes "is_ident x" and "arrays x = None"
  shows "reads_as arrays (Bit_sel x b) (Bit_sel x b)"
  unfolding reads_as_def
proof (intro allI impI)
  fix k j rest
  assume k: "length (toks (Bit_sel x b)) \<le> k" "length (toks (Bit_sel x b)) \<le> j" and r: "closes rest"
  obtain i where i: "j = Suc i" using k by (cases j) auto
  obtain t ts where rest: "rest = t # ts" using r by (cases rest) (auto simp: closes_def)
  have "parse_expr arrays k 0 (num_toks b @ OP '']'' # rest) = Returned (re_num b, OP '']'' # rest)"
    by (rule parse_num) (use k in auto)
  then show "parse_unary arrays (parse_expr arrays k) j (toks (Bit_sel x b) @ rest) =
      Returned (Bit_sel x b, rest)"
    using ident_head [OF assms(1)] r
    by (simp add: i parse_primary_def parse_select_def is_tok_def rest assms)
qed

lemma reads_Part_sel:
  assumes "is_ident x" and "arrays x = None"
  shows "reads_as arrays (Part_sel x hi lo) (Part_sel x hi lo)"
  unfolding reads_as_def
proof (intro allI impI)
  fix k j rest
  assume k: "length (toks (Part_sel x hi lo)) \<le> k" "length (toks (Part_sel x hi lo)) \<le> j"
    and r: "closes rest"
  obtain i where i: "j = Suc i" using k by (cases j) auto
  obtain t ts where rest: "rest = t # ts" using r by (cases rest) (auto simp: closes_def)
  have lo: "parse_expr arrays k 0 (num_toks lo @ OP '']'' # rest) = Returned (re_num lo, OP '']'' # rest)"
    by (rule parse_num) (use k in auto)
  have hi: "parse_expr arrays k 0 (num_toks hi @ OP '':'' # num_toks lo @ OP '']'' # rest) =
      Returned (re_num hi, OP '':'' # num_toks lo @ OP '']'' # rest)"
    by (rule parse_num) (use k in auto)
  show "parse_unary arrays (parse_expr arrays k) j (toks (Part_sel x hi lo) @ rest) =
      Returned (Part_sel x hi lo, rest)"
    using ident_head [OF assms(1)] r lo hi
    by (simp add: i parse_primary_def parse_select_def is_tok_def rest assms)
qed

fun names :: "cnode \<Rightarrow> string set" where
  "names (Field x) = {x}"
| "names (Bit_sel x i) = {x}"
| "names (Part_sel x hi lo) = {x}"
| "names (Unop op e) = names e"
| "names (Binop op a b) = names a \<union> names b"
| "names (Impl a b) = names a \<union> names b"
| "names (Inrange e lo hi) = names e \<union> names lo \<union> names hi"
| "names (Inset e vs) = names e \<union> \<Union> (set (map names vs))"
| "names _ = {}"

lemma reads_reread:
  "printable n \<Longrightarrow> names n \<inter> dom arrays = {} \<Longrightarrow> reads_as arrays n (reread n)"
proof (induction n rule: printable.induct)
  case (1 v)
  show ?case unfolding reread.simps by (rule reads_num)
next
  case (2 x)
  then show ?case by (simp add: reads_Field)
next
  case (3 x i)
  then have "arrays x = None" by (cases "arrays x") auto
  then show ?case using 3 by (simp add: reads_Bit_sel)
next
  case (4 x hi lo)
  then have "arrays x = None" by (cases "arrays x") auto
  then show ?case using 4 by (simp add: reads_Part_sel)
next
  case (5 op e)
  then show ?case by (simp add: reads_Unop)
next
  case (6 op a b)
  then have "reads_as arrays a (reread a)" and "reads_as arrays b (reread b)"
    by (simp_all add: Int_Un_distrib2)
  then show ?case using 6(3) by (simp add: reads_Binop)
next
  case (7 a b)
  then have "reads_as arrays a (reread a)" and "reads_as arrays b (reread b)"
    by (simp_all add: Int_Un_distrib2)
  then show ?case by (simp add: reads_Impl)
next
  case (8 e lo hi)
  then have "reads_as arrays e (reread e)" "reads_as arrays lo (reread lo)" "reads_as arrays hi (reread hi)"
    by (simp_all add: Int_Un_distrib2)
  then show ?case by (simp add: reads_Inrange)
next
  case (9 e vs)
  have "reads_as arrays v (reread v)" if "v \<in> set vs" for v
    using 9(2) [OF that] 9(3,4) that by (auto simp: list_all_iff)
  then have vs: "list_all2 (reads_as arrays) vs (map reread vs)"
    by (auto simp: list_all2_conv_all_nth)
  have "reads_as arrays e (reread e)" using 9(1,3,4) by (auto simp: Int_Un_distrib2)
  from reads_Inset [OF this vs] 9(3) show ?case by (simp add: comp_def)
qed simp_all

lemma parse_toks:
  assumes "printable n" and "names n \<inter> dom arrays = {}" and "length (toks n) < k"
  shows "parse_expr arrays k 0 (toks n @ [EOF]) = Returned (reread n, [EOF])"
  by (rule parse_single [OF reads_reread [OF assms(1,2)] assms(3)]) (auto simp: ends_def PREC_def)

subsection \<open>Lexing the text\<close>

text \<open>A piece of text lexes to its tokens whatever follows, if the next character separates.\<close>

definition sep :: "string \<Rightarrow> bool" where
  "sep r \<longleftrightarrow> r = [] \<or> \<not> is_word (hd r) \<and> hd r \<noteq> CHR 0x27"

definition lexes :: "string \<Rightarrow> tok list \<Rightarrow> bool" where
  "lexes s ts \<longleftrightarrow> (\<forall>r. sep r \<longrightarrow> lex (s @ r) = map_option (append ts) (lex r))"

lemma lexesD: "lexes s ts \<Longrightarrow> sep r \<Longrightarrow> lex (s @ r) = map_option (append ts) (lex r)"
  by (simp add: lexes_def)

lemma sep_Cons: "sep (c # r) \<longleftrightarrow> \<not> is_word c \<and> c \<noteq> CHR 0x27"
  by (simp add: sep_def)

lemma lex_step: "s \<noteq> [] \<Longrightarrow> lex_one s = Some (ts, r) \<Longrightarrow> lex s = map_option (append ts) (lex r)"
  by (subst lex.simps) (simp add: map_option_case bind_eq_Some_conv split: option.splits)

lemma lex_spaces: "lex (dropWhile is_space s) = lex s"
proof (cases "s \<noteq> [] \<and> is_space (hd s)")
  case True
  then have "lex s = map_option (append []) (lex (dropWhile is_space s))"
    by (intro lex_step) (auto simp: lex_one_def)
  then show ?thesis by (cases "lex (dropWhile is_space s)") simp_all
next
  case False
  then show ?thesis by (cases s) auto
qed

lemma lex_space: "lex (CHR '' '' # s) = lex s"
  using lex_spaces [of "CHR '' '' # s"] lex_spaces [of s] by (simp add: is_space_def)

lemma is_sized_quote [simp]: "q \<noteq> CHR 0x27 \<Longrightarrow> \<not> is_sized (q # s)"
  by (cases "q # s" rule: is_sized.cases) auto

text \<open>Brackets and colons lex by themselves, and an operator before a blank does.\<close>

lemma lexes_bracket:
  assumes "lexes s ts" and "c \<in> set ''()[]:''"
  shows "lexes (c # s) (OP [c] # ts)"
  unfolding lexes_def
proof (intro allI impI)
  fix r assume r: "sep r"
  have "lex_one (c # s @ r) = Some ([OP [c]], s @ r)"
    using assms(2) by (auto simp: lex_one_def lex_op_def two_ops_def one_ops_def is_space_def
        is_digit_def is_alpha_def split: list.splits)
  then have "lex (c # s @ r) = map_option (append [OP [c]]) (lex (s @ r))" by (intro lex_step) simp_all
  then show "lex ((c # s) @ r) = map_option (append (OP [c] # ts)) (lex r)"
    using lexesD [OF assms(1) r] by (cases "lex r") simp_all
qed

lemma lexes_blank: "lexes s ts \<Longrightarrow> lexes (CHR '' '' # s) ts"
  by (simp add: lexes_def lex_space)

lemma lexes_step:
  assumes "\<And>r. lex_one (o' @ s @ r) = Some ([OP op], s @ r)" and "lexes s ts" and "o' \<noteq> []"
  shows "lexes (o' @ s) (OP op # ts)"
  unfolding lexes_def
proof (intro allI impI)
  fix r assume r: "sep r"
  have "lex (o' @ s @ r) = map_option (append [OP op]) (lex (s @ r))"
    using assms(3) by (intro lex_step assms(1)) simp
  then show "lex ((o' @ s) @ r) = map_option (append (OP op # ts)) (lex r)"
    using lexesD [OF assms(2) r] by (cases "lex r") simp_all
qed

lemmas lex_one_simps = lex_one_def lex_op_def two_ops_def one_ops_def is_space_def is_digit_def is_alpha_def

lemma lexes_bin:
  assumes "lexes s ts" and "op \<in> set bin_ops"
  shows "lexes (op @ CHR '' '' # s) (OP op # ts)"
proof -
  have "lex_one (op @ (CHR '' '' # s) @ r) = Some ([OP op], (CHR '' '' # s) @ r)" for r
    using assms(2) unfolding bin_ops_def list.set insert_iff empty_iff
    by (elim disjE FalseE) (simp_all add: lex_one_simps)
  moreover have "op \<noteq> []" using assms(2) by (auto simp: bin_ops_def)
  ultimately show ?thesis by (intro lexes_step lexes_blank assms(1))
qed

lemma lexes_eqeq:
  assumes "lexes s ts"
  shows "lexes (''=='' @ s) (OP ''=='' # ts)"
  by (rule lexes_step) (use assms in \<open>auto simp: lex_one_simps\<close>)

definition starts :: "string \<Rightarrow> bool" where   \<comment> \<open>does not extend a unary operator\<close>
  "starts s \<longleftrightarrow> s \<noteq> [] \<and> hd s \<noteq> CHR ''='' \<and> hd s \<noteq> CHR ''>''"

lemma lexes_un:
  assumes "lexes s ts" and "starts s" and "op \<in> {''!'', ''~'', ''-''}"
  shows "lexes (op @ s) (OP op # ts)"
proof (rule lexes_step)
  obtain c t where "s = c # t" "c \<noteq> CHR ''=''" "c \<noteq> CHR ''>''"
    using assms(2) by (cases s) (auto simp: starts_def)
  then show "lex_one (op @ s @ r) = Some ([OP op], s @ r)" for r
    using assms(3) unfolding insert_iff empty_iff
    by (elim disjE FalseE) (simp_all add: lex_one_simps)
qed (use assms in auto)

text \<open>Names and numbers\<close>

lemma takeWhile_sep:
  "list_all is_word x \<Longrightarrow> sep r \<Longrightarrow> takeWhile is_word (x @ r) = x \<and> dropWhile is_word (x @ r) = r"
  by (cases r) (auto simp: sep_def list_all_iff takeWhile_append2 dropWhile_append2)

lemma lexes_ident:
  assumes "is_ident x"
  shows "lexes x [ID x]"
  unfolding lexes_def
proof (intro allI impI)
  fix r assume r: "sep r"
  obtain c cs where x: "x = c # cs" and c: "is_alpha c" and w: "list_all is_word x"
    using assms by (cases x) (auto simp: is_ident_def)
  have "\<not> is_space c" "\<not> is_digit c" "c \<noteq> CHR ''/''" "c \<noteq> CHR 0x27"
    using c by (auto simp: is_alpha_def is_space_def is_digit_def Let_def)
  then have "lex_one (x @ r) = Some ([ID x], r)"
    using c takeWhile_sep [OF w r] unfolding x
    by (auto simp: lex_one_def elim: is_sized.elims)
  then show "lex (x @ r) = map_option (append [ID x]) (lex r)" by (intro lex_step) (simp add: x)
qed

lemma digit_val_digit: "k < 10 \<Longrightarrow> digit_val (digit k) = int k"
  by (simp add: digit_val_def digit_def)

lemma foldl_digits:
  "foldl (\<lambda>v c. v * 10 + digit_val c) 0 (show_nat n) = int n"
proof (induction n rule: show_nat.induct)
  case (1 n)
  show ?case
  proof (cases "n < 10")
    case True
    then show ?thesis by (subst show_nat.simps) (simp add: digit_val_digit)
  next
    case False
    have "foldl (\<lambda>v c. v * 10 + digit_val c) 0 (show_nat n) = int (n div 10) * 10 + int (n mod 10)"
      using 1 [OF False] False by (subst show_nat.simps) (simp add: digit_val_digit del: zdiv_int zmod_int)
    also have "\<dots> = int n" by presburger
    finally show ?thesis .
  qed
qed

lemma py_int_nat: "py_int 10 (show_nat n) = Some (int n)"
proof -
  have "\<not> list_ex (\<lambda>c. 10 \<le> digit_val c) (show_nat n)"
    using show_nat_digit [of _ n] by (fastforce simp: list_ex_iff digit_val_def is_digit_def Let_def)
  then show ?thesis by (simp add: py_int_def foldl_digits show_nat_not_Nil)
qed

lemma lexes_nat: "lexes (show_nat n) [NUM (int n)]"
  unfolding lexes_def
proof (intro allI impI)
  fix r assume r: "sep r"
  obtain c cs where n: "show_nat n = c # cs" using show_nat_not_Nil by (cases "show_nat n") auto
  have c: "is_digit c" using show_nat_digit [of c n] n by simp
  then have "\<not> is_space c" "c \<noteq> CHR ''/''" by (auto simp: is_space_def is_digit_def Let_def)
  moreover have "takeWhile is_digit (show_nat n @ r) = show_nat n \<and> dropWhile is_digit (show_nat n @ r) = r"
    using r show_nat_digit [of _ n]
    by (cases r) (auto simp: sep_def is_word_def takeWhile_append2 dropWhile_append2)
  moreover have "\<not> is_sized r" using r by (cases r) (auto simp: sep_def)
  ultimately have "lex_one (show_nat n @ r) = Some ([NUM (int n)], r)"
    using c by (simp add: lex_one_def n lex_num_def numval_plain_def py_int_nat [of n, unfolded n])
  then show "lex (show_nat n @ r) = map_option (append [NUM (int n)]) (lex r)"
    by (intro lex_step) (simp add: n)
qed

lemma starts_nat: "starts (show_nat n)"
  using show_nat_head [of n] show_nat_not_Nil [of n] by (auto simp: starts_def is_digit_def)

lemma lexes_int: "lexes (show_int v) (num_toks v)"
  using lexes_un [OF lexes_nat starts_nat, of "''-''" "nat (- v)"] lexes_nat [of "nat v"]
  by (cases "v < 0") (simp_all add: show_int_def num_toks_def)

lemma lexes_append:
  assumes "lexes s ts" and "lexes s' ts'" and "sep s'" and "s' \<noteq> []"
  shows "lexes (s @ s') (ts @ ts')"
  unfolding lexes_def
proof (intro allI impI)
  fix r assume r: "sep r"
  have "sep (s' @ r)" using assms(3,4) by (cases s') (auto simp: sep_def)
  then show "lex ((s @ s') @ r) = map_option (append (ts @ ts')) (lex r)"
    using lexesD [OF assms(1), of "s' @ r"] lexesD [OF assms(2) r] by (cases "lex r") simp_all
qed

lemma lexes_Nil: "lexes [] []"
  by (simp add: lexes_def option.map_ident [unfolded id_def] map_option_case split: option.splits)

lemma seps [simp]: "sep (CHR ''('' # s)" "sep (CHR '')'' # s)" "sep (CHR '']'' # s)" "sep (CHR ''['' # s)"
    "sep (CHR '':'' # s)" "sep (CHR '' '' # s)"
  by (simp_all add: sep_def is_word_def is_digit_def is_alpha_def)

text \<open>The combination that the printer uses: a piece, then a bracket.\<close>

lemma lexes_then:
  "lexes s ts \<Longrightarrow> lexes r rs \<Longrightarrow> c \<in> set ''()[]:'' \<Longrightarrow> lexes (s @ c # r) (ts @ OP [c] # rs)"
  by (rule lexes_append) (auto intro: lexes_bracket)

lemma lexes_then_op:
  "lexes s ts \<Longrightarrow> lexes r rs \<Longrightarrow> op \<in> set bin_ops \<Longrightarrow>
     lexes (s @ CHR '' '' # op @ CHR '' '' # r) (ts @ OP op # rs)"
  by (rule lexes_append) (auto intro!: lexes_blank lexes_bin)

lemmas lexes_close = lexes_then [OF _ lexes_Nil, of _ _ "CHR '')''", simplified]

lemma those_SomeD: "those (map f xs) = Some ys \<Longrightarrow> list_all2 (\<lambda>x y. f x = Some y) xs ys"
  by (induction xs arbitrary: ys) (auto split: option.splits)

lemma lexes_not: "lexes s ts \<Longrightarrow> starts s \<Longrightarrow> lexes (CHR ''!'' # s) (OP ''!'' # ts)"
  using lexes_un [of s ts "''!''"] by simp

lemmas lexes_or = lexes_bin [where op = "''||''", simplified bin_ops_def, simplified, THEN lexes_blank]
  and lexes_and = lexes_bin [where op = "''&&''", simplified bin_ops_def, simplified, THEN lexes_blank]
  and lexes_ge = lexes_bin [where op = "''>=''", simplified bin_ops_def, simplified, THEN lexes_blank]
  and lexes_le = lexes_bin [where op = "''<=''", simplified bin_ops_def, simplified, THEN lexes_blank]
  and lexes_eq = lexes_eqeq [simplified]

lemma lexes_join:
  assumes l: "lexes l tl'"
  shows "list_all2 lexes ss tss \<Longrightarrow> ss \<noteq> [] \<Longrightarrow>
    lexes (join '' || '' (map (\<lambda>s. CHR ''('' # l @ '')=='' @ s) ss) @ '')'')
      (OP ''('' # tl' @ OP '')'' # OP ''=='' # hd tss @
         concat (map (\<lambda>ts. OP ''||'' # OP ''('' # tl' @ OP '')'' # OP ''=='' # ts) (tl tss)) @ [OP '')''])"
proof (induction ss arbitrary: tss)
  case (Cons s ss)
  obtain ts us where tss: "tss = ts # us" and s: "lexes s ts" and us: "list_all2 lexes ss us"
    using Cons.prems(1) by (cases tss) auto
  show ?case
  proof (cases ss)
    case Nil
    then have "us = []" using us by simp
    then show ?thesis
      using Nil lexes_bracket [OF lexes_then [OF l lexes_eq [OF lexes_close [OF s]], of "CHR '')''"], of "CHR ''(''"]
      by (simp add: tss)
  next
    case (Cons s' ss')
    obtain ts' us' where us': "us = ts' # us'" using us Cons by (cases us) auto
    let ?t = "join '' || '' (map (\<lambda>s. CHR ''('' # l @ '')=='' @ s) ss) @ '')''"
    let ?u = "OP ''('' # tl' @ OP '')'' # OP ''=='' # hd us @
         concat (map (\<lambda>ts. OP ''||'' # OP ''('' # tl' @ OP '')'' # OP ''=='' # ts) (tl us)) @ [OP '')'']"
    have "lexes ?t ?u" using Cons.IH [OF us] Cons by simp
    from lexes_append [OF s lexes_or [OF this]]
    have "lexes (s @ '' || '' @ ?t) (ts @ OP ''||'' # ?u)" by simp
    from lexes_bracket [OF lexes_then [OF l lexes_eq [OF this], of "CHR '')''"], of "CHR ''(''"]
    show ?thesis using Cons by (simp add: tss us')
  qed
qed simp

lemma sv_lexes: "sv n = Some s \<Longrightarrow> printable n \<Longrightarrow> lexes s (toks n) \<and> starts s"
proof (induction n arbitrary: s rule: printable.induct)
  case (1 v)
  have "starts (show_int v)" using starts_nat by (auto simp: show_int_def starts_def)
  then show ?case using 1 lexes_int by auto
next
  case (2 x)
  then show ?case using lexes_ident [of x] by (auto simp: starts_def is_ident_def is_alpha_def)
next
  case (3 x i)
  have "lexes (x @ CHR ''['' # show_int i @ CHR '']'' # []) ([ID x] @ OP ''['' # num_toks i @ OP '']'' # [])"
    by (intro lexes_then lexes_ident lexes_int lexes_Nil) (use 3 in auto)
  then show ?case using 3 by (auto simp: starts_def is_ident_def is_alpha_def)
next
  case (4 x hi lo)
  have "lexes (x @ CHR ''['' # show_int hi @ CHR '':'' # show_int lo @ CHR '']'' # [])
      ([ID x] @ OP ''['' # num_toks hi @ OP '':'' # num_toks lo @ OP '']'' # [])"
    by (intro lexes_then lexes_ident lexes_int lexes_Nil) (use 4 in auto)
  then show ?case using 4 by (auto simp: starts_def is_ident_def is_alpha_def)
next
  case (5 op e)
  obtain t where t: "sv e = Some t" "s = ''('' @ op @ t @ '')''" using 5 by (auto split: bind_splits)
  have e: "lexes t (toks e)" "starts t" using 5 t by auto
  then have "starts (t @ '')'')" by (auto simp: starts_def)
  from lexes_bracket [OF lexes_un [OF lexes_close [OF e(1)] this, of op], of "CHR ''(''"]
  show ?case using 5 t by (auto simp: starts_def)
next
  case (6 op a b)
  obtain t u where t: "sv a = Some t" "sv b = Some u" "s = ''('' @ t @ '' '' @ op @ '' '' @ u @ '')''"
    using 6 by (auto split: bind_splits)
  have "lexes t (toks a)" "lexes u (toks b)" using 6 t by auto
  from lexes_bracket [OF lexes_then_op [OF this(1) lexes_close [OF this(2)], of op], of "CHR ''(''"]
  show ?case using 6 t by (auto simp: starts_def)
next
  case (7 a b)
  obtain t u where t: "sv a = Some t" "sv b = Some u" "s = ''((!('' @ t @ '')) || ('' @ u @ ''))''"
    using 7 by (auto split: bind_splits)
  have l: "lexes t (toks a)" "lexes u (toks b)" using 7 t by auto
  have "lexes (CHR ''('' # CHR ''('' # CHR ''!'' # CHR ''('' # t @ CHR '')'' # CHR '')'' #
        CHR '' '' # CHR ''|'' # CHR ''|'' # CHR '' '' # CHR ''('' # u @ CHR '')'' # CHR '')'' # [])
      (OP ''('' # OP ''('' # OP ''!'' # OP ''('' # toks a @ OP '')'' # OP '')'' #
        OP ''||'' # OP ''('' # toks b @ OP '')'' # OP '')'' # [])"
    by (intro lexes_bracket lexes_not lexes_then lexes_or lexes_Nil l) (auto simp: starts_def)
  then show ?case using t by (auto simp: starts_def)
next
  case (8 e lo hi)
  obtain l t u where t: "sv e = Some l" "sv lo = Some t" "sv hi = Some u"
      "s = ''(('' @ l @ '') >= '' @ t @ '' && ('' @ l @ '') <= '' @ u @ '')''"
    using 8 by (auto split: bind_splits)
  have l: "lexes l (toks e)" "lexes t (toks lo)" "lexes u (toks hi)" using 8 t by auto
  have "lexes (t @ CHR '' '' # CHR ''&'' # CHR ''&'' # CHR '' '' # CHR ''('' # l @ CHR '')'' #
        CHR '' '' # CHR ''<'' # CHR ''='' # CHR '' '' # u @ CHR '')'' # [])
      (toks lo @ OP ''&&'' # OP ''('' # toks e @ OP '')'' # OP ''<='' # toks hi @ OP '')'' # [])"
    using lexes_append [OF l(2) lexes_and [OF lexes_bracket [OF lexes_then [OF l(1)
        lexes_le [OF lexes_close [OF l(3)]], of "CHR '')''"], of "CHR ''(''"]]] by simp
  from lexes_bracket [OF lexes_bracket [OF lexes_then [OF l(1) lexes_ge [OF this], of "CHR '')''"],
      of "CHR ''(''"], of "CHR ''(''"]
  show ?case using t by (auto simp: starts_def)
next
  case (9 e vs)
  obtain l ss where t: "sv e = Some l" "those (map sv vs) = Some ss"
      "s = ''('' @ join '' || '' (map (\<lambda>s. ''('' @ l @ '')=='' @ s) ss) @ '')''"
    using 9 by (auto split: bind_splits)
  have l: "lexes l (toks e)" using 9 t by auto
  have ss: "list_all2 (\<lambda>v s. sv v = Some s) vs ss" using those_SomeD [OF t(2)] .
  have "list_all2 lexes ss (map toks vs)"
    unfolding list_all2_conv_all_nth
  proof (intro conjI allI impI)
    show "length ss = length (map toks vs)" using ss by (auto dest: list_all2_lengthD)
    fix i assume i: "i < length ss"
    then have "i < length vs" "sv (vs ! i) = Some (ss ! i)"
      using ss by (auto simp: list_all2_conv_all_nth)
    then show "lexes (ss ! i) (map toks vs ! i)"
      using 9(2) [of "vs ! i" "ss ! i"] 9(4) by (auto simp: list_all_iff)
  qed
  moreover have ne: "vs \<noteq> []" "ss \<noteq> []" using 9(4) ss by auto
  ultimately have "lexes (CHR ''('' # join '' || '' (map (\<lambda>s. CHR ''('' # l @ '')=='' @ s) ss) @ '')'')
      (toks (Inset e vs))"
    using lexes_bracket [OF lexes_join [OF l], of ss "map toks vs" "CHR ''(''"] ne
    by (simp add: toks_Inset hd_map map_tl [symmetric] comp_def)
  then show ?case using t by (simp add: starts_def)
qed simp_all

lemma lex_sv: "sv n = Some s \<Longrightarrow> printable n \<Longrightarrow> lex s = Some (toks n @ [EOF])"
  using sv_lexes [of n s] lexesD [of s "toks n" "[]"] by (simp add: sep_def lex.simps)

lemma sv_printable: "printable n \<Longrightarrow> \<exists>s. sv n = Some s"
proof (induction n rule: printable.induct)
  case (9 e vs)
  have "\<exists>ss. those (map sv us) = Some ss" if "set us \<subseteq> set vs" for us
    using that
  proof (induction us)
    case (Cons u us)
    then have "\<exists>s. sv u = Some s" using 9(2) [of u] 9(3) by (auto simp: list_all_iff)
    then show ?case using Cons by auto
  qed simp
  then show ?case using 9 by fastforce
qed auto

subsection \<open>The value of the text\<close>

text \<open>
  The printed form of an implication is a disjunction, which is 0 or 1; \<open>ev\<close> gives an implication
  the value of its consequent. The two agree where consequents are truth values.
\<close>

fun is_bool :: "cnode \<Rightarrow> bool" where
  "is_bool (Unop op e) = (op = ''!'')"
| "is_bool (Binop op a b) = (op \<in> {''||'', ''&&'', ''=='', ''!='', ''<'', ''<='', ''>'', ''>=''})"
| "is_bool (Impl a b) = is_bool b"
| "is_bool (Inrange e lo hi) = True"
| "is_bool (Inset e vs) = True"
| "is_bool _ = False"

fun impl_ok :: "cnode \<Rightarrow> bool" where
  "impl_ok (Unop op e) = impl_ok e"
| "impl_ok (Binop op a b) = (impl_ok a \<and> impl_ok b)"
| "impl_ok (Impl a b) = (impl_ok a \<and> impl_ok b \<and> is_bool b)"
| "impl_ok (Inrange e lo hi) = (impl_ok e \<and> impl_ok lo \<and> impl_ok hi)"
| "impl_ok (Inset e vs) = (impl_ok e \<and> list_all impl_ok vs)"
| "impl_ok _ = True"

lemma ev_bin_Some:
  "ev_bin op a b = Some v \<Longrightarrow> 0 \<le> b"
  by (auto simp: ev_bin_def shl_def split: bind_splits if_splits)

lemma is_bool_ev: "is_bool n \<Longrightarrow> ev n env = Some v \<Longrightarrow> v = 0 \<or> v = 1"
proof (induction n arbitrary: v rule: is_bool.induct)
  case (1 op e)
  then show ?case by (auto simp: ev_un_def split: bind_splits)
next
  case (2 op a b)
  obtain x y where e: "ev_bin op x y = Some v" using 2 by (auto split: bind_splits)
  have "op \<in> {''||'', ''&&'', ''=='', ''!='', ''<'', ''<='', ''>'', ''>=''}" using 2 by simp
  then show ?case
    using e unfolding insert_iff empty_iff
    by (elim disjE FalseE) (auto simp: ev_bin_def split: bind_splits)
next
  case (3 a b)
  then show ?case by (auto split: bind_splits if_splits)
qed (auto split: bind_splits if_splits)

lemma ev_or: "ev_bin ''||'' a b = Some v \<Longrightarrow> v = of_bool (a \<noteq> 0 \<or> b \<noteq> 0)"
  and ev_and: "ev_bin ''&&'' a b = Some v \<Longrightarrow> v = of_bool (a \<noteq> 0 \<and> b \<noteq> 0)"
  and ev_eqeq: "ev_bin ''=='' a b = Some v \<Longrightarrow> v = of_bool (a = b)"
  and ev_ge: "ev_bin ''>='' a b = Some v \<Longrightarrow> v = of_bool (a \<ge> b)"
  and ev_le: "ev_bin ''<='' a b = Some v \<Longrightarrow> v = of_bool (a \<le> b)"
  by (auto simp: ev_bin_def split: bind_splits)

lemma foldl_or_value:
  assumes "ev (foldl (Binop ''||'') n (map (Binop ''=='' e) vs)) env = Some v"
  shows "\<exists>x y ys. ev n env = Some x \<and> (vs \<noteq> [] \<longrightarrow> ev e env = Some y) \<and>
    those (map (\<lambda>v. ev v env) vs) = Some ys \<and>
    (v \<noteq> 0 \<longleftrightarrow> x \<noteq> 0 \<or> (vs \<noteq> [] \<and> y \<in> set ys)) \<and> (vs \<noteq> [] \<longrightarrow> v = 0 \<or> v = 1) \<and> (vs = [] \<longrightarrow> v = x)"
  using assms
proof (induction vs arbitrary: n v)
  case (Cons u vs)
  let ?n = "Binop ''||'' n (Binop ''=='' e u)"
  obtain x y ys where IH: "ev ?n env = Some x" "vs \<noteq> [] \<longrightarrow> ev e env = Some y"
      "those (map (\<lambda>v. ev v env) vs) = Some ys" "v \<noteq> 0 \<longleftrightarrow> x \<noteq> 0 \<or> (vs \<noteq> [] \<and> y \<in> set ys)"
      "vs \<noteq> [] \<longrightarrow> v = 0 \<or> v = 1" "vs = [] \<longrightarrow> v = x"
    using Cons.IH [of ?n v] Cons.prems by auto
  obtain w a b c where n: "ev n env = Some w" "ev e env = Some a" "ev u env = Some b"
      "ev_bin ''=='' a b = Some c" "ev_bin ''||'' w c = Some x"
    using IH(1) by (auto split: bind_splits)
  have c: "c = of_bool (a = b)" and x: "x = of_bool (w \<noteq> 0 \<or> c \<noteq> 0)"
    using ev_eqeq [OF n(4)] ev_or [OF n(5)] by simp_all
  have y: "vs \<noteq> [] \<Longrightarrow> y = a" using IH(2) n(2) by simp
  show ?case
    by (rule exI [of _ w], rule exI [of _ a], rule exI [of _ "b # ys"])
      (use n IH c x y in \<open>cases "vs = []"; auto split: if_splits\<close>)
qed simp

lemma reread_value: "impl_ok n \<Longrightarrow> printable n \<Longrightarrow> ev (reread n) env = Some v \<Longrightarrow> ev n env = Some v"
proof (induction n arbitrary: v rule: reread.induct)
  case (1 v)
  then show ?case by (simp add: re_num_def ev_un_def split: if_splits)
next
  case (2 op e)
  then show ?case by (auto split: bind_splits)
next
  case (3 op a b)
  then show ?case by (auto split: bind_splits)
next
  case (4 a b)
  obtain x y nx where e: "ev (reread a) env = Some x" "ev (reread b) env = Some y"
      "ev_un ''!'' x = Some nx" "ev_bin ''||'' nx y = Some v"
    using 4(5) by (auto split: bind_splits)
  have ab: "ev a env = Some x" "ev b env = Some y" using 4 e by auto
  moreover have "y = 0 \<or> y = 1" using is_bool_ev [OF _ ab(2)] 4(3) by simp
  ultimately show ?case using e(3) ev_or [OF e(4)] by (auto simp: ev_un_def)
next
  case (5 e lo hi)
  obtain x l h p q where e: "ev (reread e) env = Some x" "ev (reread lo) env = Some l"
      "ev (reread hi) env = Some h" "ev_bin ''>='' x l = Some p" "ev_bin ''<='' x h = Some q"
      "ev_bin ''&&'' p q = Some v"
    using 5(7) by (auto split: bind_splits)
  have "ev e env = Some x" "ev lo env = Some l" "ev hi env = Some h" using 5 e by auto
  then show ?case using ev_ge [OF e(4)] ev_le [OF e(5)] ev_and [OF e(6)] by auto
next
  case (6 e vs)
  obtain u us where vs: "vs = u # us" using 6(4) by (cases vs) auto
  let ?eq = "Binop ''=='' (reread e)"
  have "ev (foldl (Binop ''||'') (?eq (reread u)) (map ?eq (map reread us))) env = Some v"
    using 6(5) by (simp add: vs any_of_def comp_def)
  then obtain x y ys where f: "ev (?eq (reread u)) env = Some x" "us \<noteq> [] \<longrightarrow> ev (reread e) env = Some y"
      "those (map (\<lambda>v. ev v env) (map reread us)) = Some ys"
      "v \<noteq> 0 \<longleftrightarrow> x \<noteq> 0 \<or> (us \<noteq> [] \<and> y \<in> set ys)" "us \<noteq> [] \<longrightarrow> v = 0 \<or> v = 1" "us = [] \<longrightarrow> v = x"
    using foldl_or_value [where n = "?eq (reread u)" and vs = "map reread us"] by fastforce
  obtain a b where e: "ev (reread e) env = Some a" "ev (reread u) env = Some b" "ev_bin ''=='' a b = Some x"
    using f(1) by (auto split: bind_splits)
  have a: "ev e env = Some a" using 6(1) [of u a] 6(3,4) e(1) vs by simp
  have el: "ev w env = Some z" if "w \<in> set vs" "ev (reread w) env = Some z" for w z
    using 6(2) [OF that(1)] 6(3,4) that by (auto simp: list_all_iff)
  have "those (map (\<lambda>v. ev v env) ws) = Some zs"
    if "those (map (\<lambda>v. ev v env) (map reread ws)) = Some zs" "set ws \<subseteq> set vs" for ws zs
    using that by (induction ws arbitrary: zs) (auto split: option.splits dest: el)
  then have "those (map (\<lambda>v. ev v env) us) = Some ys" using f(3) vs by auto
  moreover have "ev u env = Some b" using el [OF _ e(2)] vs by simp
  moreover have "x = of_bool (a = b)" using ev_eqeq [OF e(3)] .
  ultimately show ?case using a f e(1) vs by (cases "us = []") auto
qed simp_all

text \<open>C27. The checker that the compiler prints is the constraint: for a printable constraint (its names
  are identifiers and no arrays, its operators are those of the language, the consequents of its
  implications are truth values) \<open>sv\<close> prints a text, the lexer and the parser read that text to
  the end, and wherever the expression that was read has a value, the constraint has the same value.\<close>

theorem sv_roundtrip:
  assumes "printable n" and "impl_ok n" and "names n \<inter> dom arrays = {}"
  shows "\<exists>s ts n'. sv n = Some s \<and> lex s = Some ts \<and>
    parse_expr arrays (length ts) 0 ts = Returned (n', [EOF]) \<and>
    (\<forall>env. ev n' env = None \<or> ev n' env = ev n env)"
proof -
  obtain s where s: "sv n = Some s" using sv_printable [OF assms(1)] by blast
  have "parse_expr arrays (length (toks n @ [EOF])) 0 (toks n @ [EOF]) = Returned (reread n, [EOF])"
    by (rule parse_toks [OF assms(1,3)]) simp
  moreover have "ev (reread n) env = None \<or> ev (reread n) env = ev n env" for env
    using reread_value [OF assms(2,1), of env] by (cases "ev (reread n) env") auto
  ultimately show ?thesis using s lex_sv [OF s assms(1)] by blast
qed

lemma sv_roundtrip_witness:
  "\<exists>s ts n'. sv (Impl (Inset (Field ''a'') [Num 3, Num 5]) (Binop ''<'' (Bit_sel ''b'' 2) (Num 1))) = Some s \<and>
    lex s = Some ts \<and> parse_expr Map.empty (length ts) 0 ts = Returned (n', [EOF]) \<and>
    (\<forall>env. ev n' env = None \<or> ev n' env =
      ev (Impl (Inset (Field ''a'') [Num 3, Num 5]) (Binop ''<'' (Bit_sel ''b'' 2) (Num 1))) env)"
  by (rule sv_roundtrip) (simp_all add: is_ident_def is_alpha_def is_word_def bin_ops_def)

end
