(* ===== verification/Csc_Bdd.thy ===== *)
theory Csc_Bdd
  imports Csc
begin

text \<open>
  The enumeration BDD of \<open>csc.py\<close> (\<open>compile_bdd\<close>) and the unranking walk that the compiler puts
  into the modules and packages it generates. The lemmas show that a node counts the solutions of
  its msk, that the walk is a bijection from the ranks onto the solutions, and that the generated
  sampler only produces solutions.
\<close>

subsection \<open>Construction\<close>

type_synonym field = "string \<times> int \<times> int"   \<comment> \<open>name, width, lowest bit\<close>
type_synonym bdd = "(nat \<times> nat \<times> nat) list"   \<comment> \<open>low child, high child, number of solutions\<close>
type_synonym uniq = "nat \<times> nat \<Rightarrow> nat option"

fun field_env :: "field list \<Rightarrow> int \<Rightarrow> env \<Rightarrow> env option" where
  "field_env [] s env = Some env"
| "field_env ((nm, w, lo) # fs) s env =
     do { v \<leftarrow> shr s lo; m \<leftarrow> ones w; field_env fs s (env(nm \<mapsto> v AND m)) }"

text \<open>\<open>all(ev(c, env) for c in consts)\<close>\<close>

fun all_true :: "cnode list \<Rightarrow> env \<Rightarrow> bool option" where
  "all_true [] env = Some True"
| "all_true (c # cs) env = do { v \<leftarrow> ev c env; if v \<noteq> 0 then all_true cs env else Some False }"

definition predicate :: "field list \<Rightarrow> cnode list \<Rightarrow> int \<Rightarrow> bool option" where
  "predicate fields consts s = do { env \<leftarrow> field_env fields s no_env; all_true consts env }"

definition cof :: "nat \<Rightarrow> nat \<Rightarrow> nat \<times> nat" where
  "cof msk n = foldl (\<lambda>(lo, hi) sp.
       (if bit msk (2 * sp) then lo OR push_bit sp 1 else lo,
        if bit msk (2 * sp + 1) then hi OR push_bit sp 1 else hi)) (0, 0) [0..<2 ^ (n - 1)]"

definition count_of :: "bdd \<Rightarrow> nat \<Rightarrow> nat" where
  "count_of nodes i = snd (snd (nodes ! i))"

text \<open>\<open>build level msk\<close> with \<open>level = nvars - r\<close>: the recursion ends where the level is \<open>nvars\<close>.\<close>

fun build :: "nat \<Rightarrow> nat \<Rightarrow> nat \<Rightarrow> bdd \<times> uniq \<Rightarrow> nat \<times> bdd \<times> uniq" where
  "build nvars 0 msk st = (if bit msk 0 then 1 else 0, st)"
| "build nvars (Suc r) msk st =
     (let key = (nvars - Suc r, msk) in
      case snd st key of Some idx \<Rightarrow> (idx, st)
      | None \<Rightarrow>
          let (lm, hm) = cof msk (Suc r);
              (lo, st1) = build nvars r lm st;
              (hi, nodes, uniq) = build nvars r hm st1;
              idx = length nodes
          in (idx, nodes @ [(lo, hi, count_of nodes lo + count_of nodes hi)], uniq(key \<mapsto> idx)))"

fun root_mask :: "field list \<Rightarrow> cnode list \<Rightarrow> nat list \<Rightarrow> nat \<Rightarrow> nat option" where
  "root_mask fields consts [] m = Some m"
| "root_mask fields consts (s # ss) m =
     do { b \<leftarrow> predicate fields consts (int s);
          root_mask fields consts ss (if b then m OR push_bit s 1 else m) }"

definition compile_bdd :: "field list \<Rightarrow> cnode list \<Rightarrow> int \<Rightarrow> (bdd \<times> nat \<times> nat) option" where
  "compile_bdd fields consts nvars =
     do { N \<leftarrow> shl 1 nvars;
          m \<leftarrow> root_mask fields consts [0..<nat N] 0;
          case build (nat nvars) (nat nvars) m ([(0, 0, 0), (1, 1, 1)], Map.empty) of
            (root, nodes, uniq) \<Rightarrow> Some (nodes, root, count_of nodes root) }"

definition clog2 :: "nat \<Rightarrow> nat option" where
  "clog2 x = loop (\<lambda>b. if push_bit b 1 < x then Some (Inr (b + 1)) else Some (Inl b)) (1 :: nat)"

subsection \<open>The generated walk\<close>

text \<open>
  The functions of the generated package, as \<open>emit_pkg\<close> prints them: the tables are \<open>case\<close>
  statements with a default of zero, counts and ranks are 16 bits wide, the product is 32 bits wide.
\<close>

definition f_lo :: "bdd \<Rightarrow> nat \<Rightarrow> nat" where
  "f_lo nodes i = (if i < length nodes then fst (nodes ! i) else 0)"

definition f_hi :: "bdd \<Rightarrow> nat \<Rightarrow> nat" where
  "f_hi nodes i = (if i < length nodes then fst (snd (nodes ! i)) else 0)"

definition f_clo :: "bdd \<Rightarrow> nat \<Rightarrow> 16 word" where
  "f_clo nodes i = (if i < length nodes then word_of_nat (count_of nodes (fst (nodes ! i))) else 0)"

definition lstep :: "16 word \<Rightarrow> 16 word" where
  "lstep s = (drop_bit 1 s) XOR (if bit s 0 then 0xB400 else 0)"

definition lemire :: "16 word \<Rightarrow> 16 word \<Rightarrow> 16 word" where
  "lemire x NSOL = (let prod = (ucast x :: 32 word) * ucast NSOL in ucast (drop_bit 16 prod))"

definition walk_step :: "bdd \<Rightarrow> 16 word \<times> nat \<times> nat \<Rightarrow> nat \<Rightarrow> 16 word \<times> nat \<times> nat" where
  "walk_step nodes st lvl = (case st of (R, idx, acc) \<Rightarrow>
     let clo = f_clo nodes idx in
     if R < clo then (R, f_lo nodes idx, acc)
     else (R - clo, f_hi nodes idx, acc OR push_bit lvl 1))"

definition walk :: "bdd \<Rightarrow> nat \<Rightarrow> nat \<Rightarrow> 16 word \<Rightarrow> nat" where
  "walk nodes root nvars R = snd (snd (foldl (walk_step nodes) (R, root, 0) [0..<nvars]))"

definition unrank :: "bdd \<Rightarrow> nat \<Rightarrow> nat \<Rightarrow> nat \<Rightarrow> 16 word \<Rightarrow> nat" where
  "unrank nodes root nsol nvars lfsr = walk nodes root nvars (lemire lfsr (word_of_nat nsol))"

subsection \<open>Solutions of a mask\<close>

definition sols :: "nat \<Rightarrow> nat \<Rightarrow> nat set" where
  "sols r msk = {s. s < 2 ^ r \<and> bit msk s}"

lemma finite_sols [simp]: "finite (sols r msk)"
  by (simp add: sols_def)

lemma bit_or_push: "bit (m OR push_bit s (1 :: nat)) t \<longleftrightarrow> bit m t \<or> t = s"
  by (auto simp: bit_simps)

lemma bit_or_pow [simp]: "bit (m OR 2 ^ s :: nat) t \<longleftrightarrow> bit m t \<or> t = s"
  using bit_or_push [of m s t] by (simp add: push_bit_eq_mult)

lemma foldl_cof:
  assumes "foldl (\<lambda>(lo, hi) sp.
       (if bit msk (2 * sp) then lo OR push_bit sp 1 else lo,
        if bit msk (2 * sp + 1) then hi OR push_bit sp 1 else hi)) (lo0, hi0) ks = (lo, hi)"
  shows "bit lo t \<longleftrightarrow> bit (lo0 :: nat) t \<or> (t \<in> set ks \<and> bit msk (2 * t))"
    and "bit hi t \<longleftrightarrow> bit (hi0 :: nat) t \<or> (t \<in> set ks \<and> bit msk (2 * t + 1))"
  using assms by (induction ks arbitrary: lo0 hi0) (auto simp: bit_or_push split: if_splits)

lemma cof_bits:
  assumes "cof msk (Suc r) = (lm, hm)" and "t < 2 ^ r"
  shows "bit lm t \<longleftrightarrow> bit msk (2 * t)" and "bit hm t \<longleftrightarrow> bit msk (2 * t + 1)"
  using foldl_cof [where ks = "[0..<2 ^ r]" and msk = msk and lo = lm and hi = hm and t = t
      and lo0 = 0 and hi0 = 0] assms
  by (simp_all add: cof_def)

lemma sols_0: "sols 0 msk = (if bit msk 0 then {0} else {})"
  by (auto simp: sols_def)

lemma sols_Suc:
  assumes "cof msk (Suc r) = (lm, hm)"
  shows "sols (Suc r) msk = (\<lambda>s. 2 * s) ` sols r lm \<union> (\<lambda>s. 2 * s + 1) ` sols r hm"
proof (rule set_eqI)
  fix s :: nat
  have "s = 2 * (s div 2) \<or> s = 2 * (s div 2) + 1" by presburger
  then obtain t where "s = 2 * t \<or> s = 2 * t + 1" by blast
  then show "s \<in> sols (Suc r) msk \<longleftrightarrow>
      s \<in> (\<lambda>s. 2 * s) ` sols r lm \<union> (\<lambda>s. 2 * s + 1) ` sols r hm"
  proof
    assume s: "s = 2 * t"
    have "s < 2 ^ Suc r \<longleftrightarrow> t < 2 ^ r" using s by simp
    moreover have "s \<notin> (\<lambda>s. 2 * s + 1) ` sols r hm" using s by auto presburger
    ultimately show ?thesis using cof_bits(1) [OF assms, of t] s by (auto simp: sols_def)
  next
    assume s: "s = 2 * t + 1"
    have "s < 2 ^ Suc r \<longleftrightarrow> t < 2 ^ r" using s by auto
    moreover have "s \<notin> (\<lambda>s. 2 * s) ` sols r lm" using s by auto presburger
    ultimately show ?thesis using cof_bits(2) [OF assms, of t] s by (auto simp: sols_def)
  qed
qed

lemma card_sols_Suc:
  assumes "cof msk (Suc r) = (lm, hm)"
  shows "card (sols (Suc r) msk) = card (sols r lm) + card (sols r hm)"
proof -
  have "(\<lambda>s. 2 * s) ` sols r lm \<inter> (\<lambda>s. 2 * s + 1) ` sols r hm = {}" by auto presburger
  then show ?thesis
    by (simp add: sols_Suc [OF assms] card_Un_disjoint card_image inj_on_def)
qed

subsection \<open>What a node stands for\<close>

text \<open>\<open>node_ok nodes r msk i\<close>: the node \<open>i\<close>, \<open>r\<close> levels above the leaves, represents the mask.\<close>

fun node_ok :: "bdd \<Rightarrow> nat \<Rightarrow> nat \<Rightarrow> nat \<Rightarrow> bool" where
  "node_ok nodes 0 msk i = (2 \<le> length nodes \<and> i = (if bit msk 0 then 1 else 0) \<and>
     nodes ! 0 = (0, 0, 0) \<and> nodes ! 1 = (1, 1, 1))"
| "node_ok nodes (Suc r) msk i = (i < length nodes \<and>
     count_of nodes i = count_of nodes (f_lo nodes i) + count_of nodes (f_hi nodes i) \<and>
     node_ok nodes r (fst (cof msk (Suc r))) (f_lo nodes i) \<and>
     node_ok nodes r (snd (cof msk (Suc r))) (f_hi nodes i))"

lemma node_ok_less: "node_ok nodes r msk i \<Longrightarrow> i < length nodes"
  by (cases r) auto

lemma count_of_append [simp]: "i < length nodes \<Longrightarrow> count_of (nodes @ xs) i = count_of nodes i"
  by (simp add: count_of_def nth_append)

lemma f_lo_append [simp]: "i < length nodes \<Longrightarrow> f_lo (nodes @ xs) i = f_lo nodes i"
  by (simp add: f_lo_def nth_append)

lemma f_hi_append [simp]: "i < length nodes \<Longrightarrow> f_hi (nodes @ xs) i = f_hi nodes i"
  by (simp add: f_hi_def nth_append)

lemma node_ok_append: "node_ok nodes r msk i \<Longrightarrow> node_ok (nodes @ xs) r msk i"
proof (induction r arbitrary: msk i)
  case 0
  then show ?case by (auto simp: nth_append)
next
  case (Suc r)
  then have "f_lo nodes i < length nodes" and "f_hi nodes i < length nodes"
    by (auto dest: node_ok_less)
  then show ?case using Suc by simp
qed

lemma node_ok_count: "node_ok nodes r msk i \<Longrightarrow> count_of nodes i = card (sols r msk)"
proof (induction r arbitrary: msk i)
  case 0
  then show ?case by (auto simp: count_of_def sols_0)
next
  case (Suc r)
  obtain lm hm where c: "cof msk (Suc r) = (lm, hm)" by fastforce
  show ?case
    using Suc.IH [of lm "f_lo nodes i"] Suc.IH [of hm "f_hi nodes i"] Suc.prems
    by (simp add: card_sols_Suc [OF c] c)
qed

definition uniq_ok :: "nat \<Rightarrow> bdd \<times> uniq \<Rightarrow> bool" where
  "uniq_ok nvars st \<longleftrightarrow> 2 \<le> length (fst st) \<and> fst st ! 0 = (0, 0, 0) \<and> fst st ! 1 = (1, 1, 1) \<and>
     (\<forall>r msk i. r < nvars \<longrightarrow> snd st (nvars - Suc r, msk) = Some i \<longrightarrow> node_ok (fst st) (Suc r) msk i)"

lemma uniq_okD:
  "uniq_ok nvars st \<Longrightarrow> Suc r \<le> nvars \<Longrightarrow> snd st (nvars - Suc r, msk) = Some i \<Longrightarrow>
     node_ok (fst st) (Suc r) msk i"
  by (auto simp: uniq_ok_def simp del: node_ok.simps dest!: Suc_le_lessD)

lemma build_ok:
  assumes "r \<le> nvars" and "uniq_ok nvars st" and "build nvars r msk st = (i, st')"
  shows "uniq_ok nvars st' \<and> node_ok (fst st') r msk i \<and> (\<exists>xs. fst st' = fst st @ xs)"
  using assms
proof (induction r arbitrary: msk st i st')
  case 0
  then show ?case by (auto simp: uniq_ok_def)
next
  case (Suc r)
  show ?case
  proof (cases "snd st (nvars - Suc r, msk)")
    case (Some j)
    then have "j = i" and "st' = st" using Suc.prems(3) by (auto simp: Let_def)
    moreover have "node_ok (fst st) (Suc r) msk j"
      by (rule uniq_okD [OF Suc.prems(2,1) Some])
    ultimately show ?thesis using Suc.prems(2) by simp
  next
    case None
    obtain lm hm where c: "cof msk (Suc r) = (lm, hm)" by fastforce
    obtain lo st1 where b1: "build nvars r lm st = (lo, st1)" by (metis surj_pair)
    obtain hi nodes uniq where b2: "build nvars r hm st1 = (hi, nodes, uniq)" by (metis prod_cases3)
    let ?new = "(lo, hi, count_of nodes lo + count_of nodes hi)"
    have r: "r \<le> nvars" using Suc.prems(1) by simp
    note 1 = Suc.IH [OF r Suc.prems(2) b1]
    then have 2: "uniq_ok nvars (nodes, uniq) \<and> node_ok nodes r hm hi \<and> (\<exists>xs. nodes = fst st1 @ xs)"
      using Suc.IH [OF r _ b2] by auto
    then obtain xs where xs: "nodes = fst st1 @ xs" by blast
    have lo: "node_ok nodes r lm lo" using 1 node_ok_append [of "fst st1" r lm lo xs] xs by simp
    have i: "i = length nodes" and st': "st' = (nodes @ [?new], uniq((nvars - Suc r, msk) \<mapsto> i))"
      using Suc.prems(3) None by (auto simp: c b1 b2 Let_def)
    have new: "node_ok (nodes @ [?new]) (Suc r) msk i"
      using lo 2 node_ok_append [OF lo] node_ok_append [of nodes r hm hi] i
      by (auto simp: c f_lo_def f_hi_def count_of_def nth_append dest: node_ok_less)
    have "uniq_ok nvars st'"
      unfolding uniq_ok_def
    proof (intro conjI allI impI)
      fix r' msk' j
      assume r': "r' < nvars" and j: "snd st' (nvars - Suc r', msk') = Some j"
      show "node_ok (fst st') (Suc r') msk' j"
      proof (cases "(nvars - Suc r', msk') = (nvars - Suc r, msk)")
        case True
        then have "r' = r" using r' Suc.prems(1) by auto
        then show ?thesis using True j new st' by simp
      next
        case False
        then have "uniq (nvars - Suc r', msk') = Some j" using j st' by auto
        then have "node_ok nodes (Suc r') msk' j" using 2 r' by (auto simp: uniq_ok_def)
        then show ?thesis
          using node_ok_append [of nodes "Suc r'" msk' j "[?new]"] st' by (simp del: node_ok.simps)
      qed
    qed (use 2 st' in \<open>auto simp: uniq_ok_def nth_append\<close>)
    moreover have "\<exists>xs. fst st' = fst st @ xs" using 1 2 st' by auto
    ultimately show ?thesis using new st' by simp
  qed
qed

subsection \<open>The whole enumeration\<close>

definition solutions :: "field list \<Rightarrow> cnode list \<Rightarrow> int \<Rightarrow> nat set" where
  "solutions fields consts nvars =
     {s. s < 2 ^ nat nvars \<and> predicate fields consts (int s) = Some True}"

lemma root_mask_bits:
  "root_mask fields consts ss m0 = Some m \<Longrightarrow>
     bit m t \<longleftrightarrow> bit m0 t \<or> (t \<in> set ss \<and> predicate fields consts (int t) = Some True)"
proof (induction ss arbitrary: m0)
  case (Cons s ss)
  then obtain b where b: "predicate fields consts (int s) = Some b"
    and m: "root_mask fields consts ss (if b then m0 OR push_bit s 1 else m0) = Some m"
    by (auto split: bind_splits)
  show ?case using Cons.IH [OF m] b by (cases b) (auto simp: bit_or_push)
qed simp

lemma compile_bdd_node:
  assumes "compile_bdd fields consts nvars = Some (nodes, root, nsol)"
  obtains m where "node_ok nodes (nat nvars) m root" and "nsol = card (sols (nat nvars) m)"
    and "sols (nat nvars) m = solutions fields consts nvars"
proof -
  obtain m uniq where nv: "0 \<le> nvars"
    and m: "root_mask fields consts [0..<2 ^ nat nvars] 0 = Some m"
    and b: "build (nat nvars) (nat nvars) m ([(0, 0, 0), (1, 1, 1)], Map.empty) = (root, nodes, uniq)"
    and n: "nsol = count_of nodes root"
    using assms
    by (auto simp: compile_bdd_def shl_def nat_power_eq split: bind_splits if_splits prod.splits)
  have "uniq_ok (nat nvars) ([(0, 0, 0), (1, 1, 1)], Map.empty)" by (simp add: uniq_ok_def)
  from build_ok [OF order_refl this b] have ok: "node_ok nodes (nat nvars) m root" by simp
  show thesis
  proof (rule that [OF ok])
    show "nsol = card (sols (nat nvars) m)" using node_ok_count [OF ok] n by simp
    show "sols (nat nvars) m = solutions fields consts nvars"
      using root_mask_bits [OF m] by (auto simp: sols_def solutions_def)
  qed
qed

subsection \<open>The walk is a bijection from the ranks onto the solutions\<close>

text \<open>The walk without wrap-around, in the order of the levels.\<close>

fun rank_walk :: "bdd \<Rightarrow> nat \<Rightarrow> nat \<Rightarrow> nat \<Rightarrow> nat" where
  "rank_walk nodes 0 i R = 0"
| "rank_walk nodes (Suc r) i R =
     (let clo = count_of nodes (f_lo nodes i) in
      if R < clo then 2 * rank_walk nodes r (f_lo nodes i) R
      else 2 * rank_walk nodes r (f_hi nodes i) (R - clo) + 1)"

lemma rank_walk_bij:
  "node_ok nodes r msk i \<Longrightarrow> bij_betw (rank_walk nodes r i) {..<card (sols r msk)} (sols r msk)"
proof (induction r arbitrary: msk i)
  case 0
  then show ?case by (auto simp: sols_0 bij_betw_def inj_on_def)
next
  case (Suc r)
  obtain lm hm where c: "cof msk (Suc r) = (lm, hm)" by fastforce
  let ?lo = "f_lo nodes i" and ?hi = "f_hi nodes i"
  let ?a = "card (sols r lm)" and ?b = "card (sols r hm)"
  have ok: "node_ok nodes r lm ?lo" "node_ok nodes r hm ?hi" using Suc.prems c by auto
  have n: "count_of nodes ?lo = ?a" using node_ok_count [OF ok(1)] .
  have lo: "bij_betw (rank_walk nodes r ?lo) {..<?a} (sols r lm)" by (rule Suc.IH [OF ok(1)])
  have hi: "bij_betw (rank_walk nodes r ?hi) {..<?b} (sols r hm)" by (rule Suc.IH [OF ok(2)])
  have 1: "bij_betw (rank_walk nodes (Suc r) i) {..<?a} ((\<lambda>s. 2 * s) ` sols r lm)"
  proof (rule bij_betw_cong [THEN iffD1])
    show "bij_betw ((\<lambda>s. 2 * s) \<circ> rank_walk nodes r ?lo) {..<?a} ((\<lambda>s. 2 * s) ` sols r lm)"
      using lo by (rule bij_betw_trans) (simp add: bij_betw_def inj_on_def)
  qed (simp add: n Let_def)
  have shift: "bij_betw (\<lambda>R. R - ?a) {?a..<?a + ?b} {..<?b}"
    by (rule bij_betw_byWitness [where f' = "\<lambda>R. R + ?a"]) auto
  have 2: "bij_betw (rank_walk nodes (Suc r) i) {?a..<?a + ?b} ((\<lambda>s. 2 * s + 1) ` sols r hm)"
  proof (rule bij_betw_cong [THEN iffD1])
    have "bij_betw (rank_walk nodes r ?hi \<circ> (\<lambda>R. R - ?a)) {?a..<?a + ?b} (sols r hm)"
      using shift hi by (rule bij_betw_trans)
    then show "bij_betw ((\<lambda>s. 2 * s + 1) \<circ> (rank_walk nodes r ?hi \<circ> (\<lambda>R. R - ?a)))
        {?a..<?a + ?b} ((\<lambda>s. 2 * s + 1) ` sols r hm)"
      by (rule bij_betw_trans) (simp add: bij_betw_def inj_on_def)
  qed (simp add: n Let_def)
  have "(\<lambda>s. 2 * s) ` sols r lm \<inter> (\<lambda>s. 2 * s + 1) ` sols r hm = {}" by auto presburger
  with 1 2 have "bij_betw (rank_walk nodes (Suc r) i) ({..<?a} \<union> {?a..<?a + ?b})
      ((\<lambda>s. 2 * s) ` sols r lm \<union> (\<lambda>s. 2 * s + 1) ` sols r hm)"
    by (rule bij_betw_combine)
  moreover have "{..<?a} \<union> {?a..<?a + ?b} = {..<card (sols (Suc r) msk)}"
    by (auto simp: card_sols_Suc [OF c])
  ultimately show ?case by (simp only: sols_Suc [OF c])
qed

text \<open>The generated loop computes it, as long as the counts fit into 16 bits.\<close>

lemma unat_count:
  assumes "node_ok nodes (Suc r) msk i" and "count_of nodes i < 2 ^ 16"
  shows "unat (f_clo nodes i) = count_of nodes (f_lo nodes i)"
    and "count_of nodes (f_lo nodes i) < 2 ^ 16" and "count_of nodes (f_hi nodes i) < 2 ^ 16"
proof -
  show l: "count_of nodes (f_lo nodes i) < 2 ^ 16" and "count_of nodes (f_hi nodes i) < 2 ^ 16"
    using assms by auto
  show "unat (f_clo nodes i) = count_of nodes (f_lo nodes i)"
    using l assms(1) by (simp add: f_clo_def f_lo_def unat_of_nat take_bit_nat_eq_self)
qed

lemma push_bit_odd: "push_bit l 1 OR push_bit (Suc l) t = push_bit l (2 * t + 1 :: nat)"
proof -
  have "1 OR push_bit 1 t = push_bit 1 t + of_bool (even (push_bit 1 t))" by (rule one_or_eq)
  also have "\<dots> = 2 * t + 1" by (simp add: push_bit_eq_mult)
  finally have "2 * t + 1 = 1 OR push_bit 1 t" by (rule sym)
  then show ?thesis by (simp only: push_bit_or push_bit_push_bit) simp
qed

lemma foldl_walk:
  "node_ok nodes r msk i \<Longrightarrow> count_of nodes i < 2 ^ 16 \<Longrightarrow>
     snd (snd (foldl (walk_step nodes) (R, i, acc) [l..<l + r])) =
       acc OR push_bit l (rank_walk nodes r i (unat R))"
proof (induction r arbitrary: msk i R acc l)
  case (Suc r)
  note c = unat_count [OF Suc.prems]
  have ok: "node_ok nodes r (fst (cof msk (Suc r))) (f_lo nodes i)"
       "node_ok nodes r (snd (cof msk (Suc r))) (f_hi nodes i)"
    using Suc.prems(1) by auto
  have up: "[l..<l + Suc r] = l # [Suc l..<Suc l + r]" by (simp add: upt_conv_Cons)
  show ?case
  proof (cases "R < f_clo nodes i")
    case True
    then have "unat R < count_of nodes (f_lo nodes i)" using c(1) by (simp add: word_less_nat_alt)
    then show ?thesis
      using Suc.IH [OF ok(1) c(2), of R acc "Suc l"] True
      unfolding up by (simp add: walk_step_def Let_def push_bit_eq_mult mult_ac del: upt_Suc)
  next
    case False
    then have R: "\<not> unat R < count_of nodes (f_lo nodes i)"
      "unat (R - f_clo nodes i) = unat R - count_of nodes (f_lo nodes i)"
      using c(1) by (auto simp: word_less_nat_alt word_le_nat_alt unat_sub)
    let ?t = "rank_walk nodes r (f_hi nodes i) (unat R - count_of nodes (f_lo nodes i))"
    have "push_bit l 1 OR push_bit (Suc l) ?t = push_bit l (2 * ?t + 1)"
      by (rule push_bit_odd)
    then show ?thesis
      using Suc.IH [OF ok(2) c(3), of "R - f_clo nodes i" "acc OR push_bit l 1" "Suc l"] False R
      unfolding up by (simp add: walk_step_def Let_def or.assoc del: upt_Suc)
  qed
qed simp

lemma walk_rank:
  assumes "node_ok nodes nvars msk root" and "count_of nodes root < 2 ^ 16"
  shows "walk nodes root nvars R = rank_walk nodes nvars root (unat R)"
  using foldl_walk [OF assms, of R 0 0] by (simp add: walk_def)

subsection \<open>Range reduction\<close>

lemma unat_16: "unat (x :: 16 word) < 2 ^ 16"
  using unsigned_less [of x] by simp

lemma unat_lemire: "unat (lemire x NSOL) = unat x * unat NSOL div 2 ^ 16"
proof -
  have u: "unat (ucast y :: 32 word) = unat y" for y :: "16 word"
    using unat_16 [of y] by (simp add: unsigned_ucast_eq take_bit_nat_eq_self)
  have x: "unat x < 2 ^ 16" and n: "unat NSOL < 2 ^ 16" by (rule unat_16)+
  then have "unat x * unat NSOL < 2 ^ 16 * 2 ^ 16" by (intro mult_strict_mono) auto
  then have p: "unat ((ucast x :: 32 word) * ucast NSOL) = unat x * unat NSOL"
    using u by (simp add: unat_word_ariths)
  have "unat x * unat NSOL div 2 ^ 16 < 2 ^ 16"
    using \<open>unat x * unat NSOL < 2 ^ 16 * 2 ^ 16\<close> by (simp add: less_mult_imp_div_less)
  moreover define d where "d = drop_bit 16 ((ucast x :: 32 word) * ucast NSOL)"
  moreover have "unat d = unat x * unat NSOL div 2 ^ 16"
    unfolding d_def unat_drop_bit_eq p by (rule drop_bit_eq_div)
  moreover have "lemire x NSOL = ucast d" by (simp only: lemire_def Let_def d_def)
  ultimately show ?thesis by (simp add: unsigned_ucast_eq take_bit_nat_eq_self)
qed

text \<open>Every rank below the count is reached from a nonzero value of the shift register.\<close>

lemma lemire_less: "0 < NSOL \<Longrightarrow> lemire x NSOL < NSOL"
proof -
  assume "0 < NSOL"
  then have "0 < unat NSOL" by (simp add: unat_gt_0)
  then have "unat x * unat NSOL < 2 ^ 16 * unat NSOL" using unat_16 [of x] by simp
  then have "unat x * unat NSOL div 2 ^ 16 < unat NSOL" by (simp add: less_mult_imp_div_less mult.commute)
  then show ?thesis by (simp add: word_less_nat_alt unat_lemire)
qed

lemma lemire_onto:
  assumes "R < NSOL"
  shows "\<exists>x. x \<noteq> 0 \<and> lemire x NSOL = R"
proof (cases "R = 0")
  case True
  have "unat NSOL < 2 ^ 16" using unat_16 [of NSOL] by simp
  then have "unat (lemire 1 NSOL) = 0" by (simp add: unat_lemire)
  then show ?thesis using True by (intro exI [of _ 1]) (simp add: unat_eq_zero)
next
  case False
  define n r x where "n = unat NSOL" and "r = unat R" and "x = (r * 2 ^ 16 + n - 1) div n"
  have r: "0 < r" "r < n" "n < 2 ^ 16"
    using assms False unat_16 [of NSOL] by (auto simp: n_def r_def word_less_nat_alt unat_gt_0)
  have le: "x * n \<le> r * 2 ^ 16 + n - 1" unfolding x_def by simp
  have ge: "r * 2 ^ 16 \<le> x * n"
  proof -
    have "r * 2 ^ 16 + n - 1 < x * n + n"
      unfolding x_def using r dividend_less_div_times [of n "r * 2 ^ 16 + n - 1"] by simp
    then show ?thesis using r by linarith
  qed
  have x: "x < 2 ^ 16"
  proof (rule ccontr)
    assume "\<not> x < 2 ^ 16"
    then have "2 ^ 16 * n \<le> x * n" by (intro mult_right_mono) auto
    moreover have "r * 2 ^ 16 + n \<le> (n - 1) * 2 ^ 16 + n" using r by simp
    moreover have "(n - 1) * 2 ^ 16 + n = 2 ^ 16 * n + n - 2 ^ 16"
      using r by (cases n) auto
    ultimately have "2 ^ 16 * n \<le> 2 ^ 16 * n + n - 2 ^ 16 - 1" using le by linarith
    then show False using r by auto
  qed
  have "x * n div 2 ^ 16 = r"
    using le ge r by (intro div_nat_eqI) (auto simp: algebra_simps)
  then have "unat (lemire (word_of_nat x) NSOL) = unat R"
    using x by (simp add: unat_lemire n_def r_def unat_of_nat take_bit_nat_eq_self)
  moreover have "(word_of_nat x :: 16 word) \<noteq> 0"
    using ge r x by (auto simp: word_of_nat_eq_0_iff dest: nat_dvd_not_less)
  ultimately show ?thesis by (blast intro: word_unat_eq_iff [THEN iffD2])
qed

subsection \<open>Correctness of the compiled sampler\<close>

text \<open>The number of solutions that \<open>compile_bdd\<close> returns is the number of assignments of the
  fields' bits under which every constraint evaluates to a true value.\<close>

theorem compile_bdd_counts:
  assumes "compile_bdd fields consts nvars = Some (nodes, root, nsol)"
  shows "nsol = card (solutions fields consts nvars)"
  using compile_bdd_node [OF assms] by metis

lemma walk_bij:
  assumes "compile_bdd fields consts nvars = Some (nodes, root, nsol)" and "nsol < 2 ^ 16"
  shows "bij_betw (walk nodes root (nat nvars)) {R. unat R < nsol} (solutions fields consts nvars)"
proof -
  obtain m where ok: "node_ok nodes (nat nvars) m root" and n: "nsol = card (sols (nat nvars) m)"
    and sol: "sols (nat nvars) m = solutions fields consts nvars"
    using compile_bdd_node [OF assms(1)] .
  have c: "count_of nodes root < 2 ^ 16" using node_ok_count [OF ok] n assms(2) by simp
  have "bij_betw (unat :: 16 word \<Rightarrow> nat) {R. unat R < nsol} {..<nsol}"
    using assms(2)
    by (intro bij_betw_byWitness [where f' = word_of_nat]) (auto simp: unat_of_nat take_bit_nat_eq_self)
  from bij_betw_trans [OF this [unfolded n] rank_walk_bij [OF ok]]
  have "bij_betw (rank_walk nodes (nat nvars) root \<circ> unat) {R :: 16 word. unat R < nsol} (sols (nat nvars) m)"
    by (simp only: n)
  then show ?thesis
    unfolding sol by (rule bij_betw_cong [THEN iffD1, rotated]) (simp add: walk_rank [OF ok c])
qed

text \<open>C28. The walk that the compiler generates is a bijection between the ranks below the number of
  solutions and the solutions, if that number fits into the 16 bits of the generated counters: the
  package can produce every solution, each from exactly one rank, and nothing else.\<close>

theorem unrank_bijection:
  assumes "compile_bdd fields consts nvars = Some (nodes, root, nsol)" and "nsol < 2 ^ 16"
  shows "bij_betw (walk nodes root (nat nvars)) {R. unat R < nsol} (solutions fields consts nvars)"
  using assms by (rule walk_bij)

text \<open>C29. The sampler is sound and complete: the values it returns over all nonzero states of its
  shift register are exactly the solutions of the constraints.\<close>

theorem sampler_complete:
  assumes "compile_bdd fields consts nvars = Some (nodes, root, nsol)" and "nsol < 2 ^ 16" and "0 < nsol"
  shows "unrank nodes root nsol (nat nvars) ` {x. x \<noteq> 0} = solutions fields consts nvars"
proof -
  define N where "N = (word_of_nat nsol :: 16 word)"
  have N: "unat N = nsol" using assms(2) by (simp add: N_def unat_of_nat take_bit_nat_eq_self)
  then have "0 < N" using assms(3) by (simp add: word_less_nat_alt)
  then have "(\<lambda>x. lemire x N) ` {x. x \<noteq> 0} = {R. R < N}"
    using lemire_less lemire_onto by (auto simp: image_iff) (metis)
  also have "{R. R < N} = {R. unat R < nsol}" by (simp add: word_less_nat_alt N)
  finally have "(\<lambda>x. lemire x N) ` {x. x \<noteq> 0} = {R. unat R < nsol}" .
  moreover have "unrank nodes root nsol (nat nvars) = walk nodes root (nat nvars) \<circ> (\<lambda>x. lemire x N)"
    by (simp add: fun_eq_iff unrank_def N_def)
  ultimately show ?thesis
    using bij_betw_imp_surj_on [OF walk_bij [OF assms(1,2)]] by (metis image_comp)
qed

text \<open>A concrete specification: a two-bit field that is not zero.\<close>

definition demo_bdd :: bdd where
  "demo_bdd = [(0, 0, 0), (1, 1, 1), (0, 1, 1), (1, 1, 2), (2, 3, 3)]"

lemma compile_demo:
  "compile_bdd [(''a'', 2, 0)] [Binop ''!='' (Field ''a'') (Num 0)] 2 = Some (demo_bdd, 4, 3)"
  by code_simp

lemma compile_bdd_counts_witness:
  "3 = card (solutions [(''a'', 2, 0)] [Binop ''!='' (Field ''a'') (Num 0)] 2)"
  by (rule compile_bdd_counts [OF compile_demo])

lemma unrank_bijection_witness:
  "bij_betw (walk demo_bdd 4 2) {R. unat R < 3} (solutions [(''a'', 2, 0)] [Binop ''!='' (Field ''a'') (Num 0)] 2)"
  using unrank_bijection [OF compile_demo] by simp

lemma sampler_complete_witness:
  "unrank demo_bdd 4 3 2 ` {x. x \<noteq> 0} = solutions [(''a'', 2, 0)] [Binop ''!='' (Field ''a'') (Num 0)] 2"
  using sampler_complete [OF compile_demo] by simp

end
