(* ===== verification/Csc_Gen.thy ===== *)
theory Csc_Gen
  imports Csc_Parse Csc_Bdd Float64
begin

text \<open>
  The code generator of \<open>csc.py\<close>: the texts of the sampler, the test benches and the package, the
  driver \<open>main\<close>, and the clocked sampler that \<open>emit_sampler\<close> describes. The lemmas show that the
  clocked sampler delivers what the package function computes, that the weighted sampler draws
  every value in proportion to its weight, and what the lowering passes guarantee.
\<close>

subsection \<open>Texts\<close>

abbreviation nl :: string where
  "nl \<equiv> [CHR 0x0A]"

definition sized :: "nat \<Rightarrow> nat \<Rightarrow> string" where   \<comment> \<open>\<open>W'di\<close>\<close>
  "sized W i = show_nat W @ [CHR 0x27] @ ''d'' @ show_nat i"

definition arms :: "nat \<Rightarrow> nat \<Rightarrow> (nat \<Rightarrow> string) \<Rightarrow> string" where
  "arms W NN f = join nl (map (\<lambda>i. ''      '' @ sized W i @ '': r = '' @ f i @ '';'') [0..<NN])"

definition lo_arms :: "nat \<Rightarrow> bdd \<Rightarrow> string" where
  "lo_arms W nodes = arms W (length nodes) (\<lambda>i. sized W (fst (nodes ! i)))"

definition hi_arms :: "nat \<Rightarrow> bdd \<Rightarrow> string" where
  "hi_arms W nodes = arms W (length nodes) (\<lambda>i. sized W (fst (snd (nodes ! i))))"

definition clo_arms :: "nat \<Rightarrow> bdd \<Rightarrow> string" where
  "clo_arms W nodes = arms W (length nodes) (\<lambda>i. sized 16 (count_of nodes (fst (nodes ! i))))"

definition emit_sampler :: "bdd \<Rightarrow> nat \<Rightarrow> nat \<Rightarrow> int \<Rightarrow> string option" where
  \<open>emit_sampler nodes rt nsol nvars =
     do { b \<leftarrow> clog2 (length nodes); a \<leftarrow> clog2 (nat nvars);
          let W = max 1 b; AW = max 1 a; lo = lo_arms W nodes; hi = hi_arms W nodes;
              clo = clo_arms W nodes in
     Some (concat [
     ''// GENERATED by csc.py -- Tier-1 BDD unrank sampler.'', nl,
     ''module csc_sampler (input logic clk, rst_n, req, output logic valid,'', nl,
     ''  output logic ['', show_int (nvars - 1), '':0] sample_o);'', nl,
     ''  localparam logic [15:0] NSOL=16\'d'', show_nat nsol,
     '', SEED=16\'hACE1, TAPS=16\'hB400;'', nl,
     ''  localparam logic ['', show_nat (W - 1), '':0] ROOT='', show_nat W, ''\'d'', show_nat rt,
     '';'', nl,
     ''  function automatic logic ['', show_nat (W - 1), '':0] f_lo(input logic ['',
     show_nat (W - 1), '':0] i);'', nl,
     ''    logic ['', show_nat (W - 1), '':0] r; case(i)'', nl,
     lo, nl,
     ''      default: r=\'0; endcase f_lo=r; endfunction'', nl,
     ''  function automatic logic ['', show_nat (W - 1), '':0] f_hi(input logic ['',
     show_nat (W - 1), '':0] i);'', nl,
     ''    logic ['', show_nat (W - 1), '':0] r; case(i)'', nl,
     hi, nl,
     ''      default: r=\'0; endcase f_hi=r; endfunction'', nl,
     ''  function automatic logic [15:0] f_clo(input logic ['', show_nat (W - 1), '':0] i);'', nl,
     ''    logic [15:0] r; case(i)'', nl,
     clo, nl,
     ''      default: r=\'0; endcase f_clo=r; endfunction'', nl,
     ''  function automatic logic [15:0] lstep(input logic [15:0] s);'', nl,
     ''    lstep=(s>>1)^(s[0]?TAPS:16\'h0); endfunction'', nl,
     ''  typedef enum logic [1:0] {IDLE,WALK,EMIT} st_e; st_e st;'', nl,
     ''  logic [15:0] lfsr,R; logic ['', show_nat (W - 1), '':0] idx; logic [4:0] lvl; logic ['',
     show_int (nvars - 1), '':0] acc;'', nl,
     ''  logic [15:0] clo_c; logic bitc; assign clo_c=f_clo(idx); assign bitc=(R>=clo_c);'', nl,
     ''  logic [31:0] prod_c; assign prod_c = {16\'h0,lfsr} * {16\'h0,NSOL}; // Lemire range reduction'',
     nl,
     ''  always_ff @(posedge clk or negedge rst_n) if(!rst_n) begin'', nl,
     ''      st<=IDLE; lfsr<=SEED; valid<=0; sample_o<=\'0; idx<=\'0; R<=\'0; lvl<=\'0; acc<=\'0;'',
     nl,
     ''    end else begin valid<=0; case(st)'', nl,
     ''      IDLE: if(req) begin R<=prod_c[31:16]; idx<=ROOT; lvl<=\'0; acc<=\'0; st<=WALK; end'',
     nl,
     ''      WALK: begin acc[lvl['', show_nat (AW - 1),
     '':0]]<=bitc; idx<=bitc?f_hi(idx):f_lo(idx);'', nl,
     ''                  R<=bitc?(R-clo_c):R; lvl<=lvl+5\'d1;'', nl,
     ''                  if(lvl==5\'d'', show_int (nvars - 1), '') st<=EMIT; end'', nl,
     ''      EMIT: begin sample_o<=acc; valid<=1; lfsr<=lstep(lfsr); st<=IDLE; end'', nl,
     ''      default: st<=IDLE; endcase end'', nl,
     ''endmodule'', nl
     ]) }\<close>

definition emit_pkg :: "bdd \<Rightarrow> nat \<Rightarrow> nat \<Rightarrow> int \<Rightarrow> string \<Rightarrow> string option" where
  \<open>emit_pkg nodes rt nsol nvars pkgname =
     do { b \<leftarrow> clog2 (length nodes);
          let W = max 1 b; lo = lo_arms W nodes; hi = hi_arms W nodes; clo = clo_arms W nodes in
     Some (concat [
     ''// GENERATED by csc.py -- unrank as a package function (for ConstraintActor).'', nl,
     ''package '', pkgname, '';'', nl,
     ''  localparam logic [15:0] NSOL = 16\'d'', show_nat nsol, '';'', nl,
     ''  localparam logic [15:0] SEED = 16\'hACE1, TAPS = 16\'hB400;'', nl,
     ''  localparam logic ['', show_nat (W - 1), '':0] ROOT = '', show_nat W, ''\'d'',
     show_nat rt, '';'', nl,
     ''  function automatic logic ['', show_nat (W - 1), '':0] f_lo(input logic ['',
     show_nat (W - 1), '':0] i);'', nl,
     ''    logic ['', show_nat (W - 1), '':0] r; case(i)'', nl,
     lo, nl,
     ''      default: r=\'0; endcase f_lo=r; endfunction'', nl,
     ''  function automatic logic ['', show_nat (W - 1), '':0] f_hi(input logic ['',
     show_nat (W - 1), '':0] i);'', nl,
     ''    logic ['', show_nat (W - 1), '':0] r; case(i)'', nl,
     hi, nl,
     ''      default: r=\'0; endcase f_hi=r; endfunction'', nl,
     ''  function automatic logic [15:0] f_clo(input logic ['', show_nat (W - 1), '':0] i);'', nl,
     ''    logic [15:0] r; case(i)'', nl,
     clo, nl,
     ''      default: r=\'0; endcase f_clo=r; endfunction'', nl,
     ''  function automatic logic [15:0] lstep(input logic [15:0] s);'', nl,
     ''    lstep=(s>>1)^(s[0]?TAPS:16\'h0); endfunction'', nl,
     ''  function automatic logic ['', show_int (nvars - 1),
     '':0] unrank(input logic [15:0] lfsr_val);'', nl,
     ''    logic [15:0] R, clo; logic ['', show_nat (W - 1), '':0] idx; logic ['',
     show_int (nvars - 1), '':0] acc; logic [31:0] prod;'', nl,
     ''    prod = {16\'h0,lfsr_val} * {16\'h0,NSOL}; R = prod[31:16];  // Lemire range reduction'',
     nl,
     ''    idx = ROOT; acc = \'0;'', nl,
     ''    for (int lvl=0; lvl<'', show_int nvars, ''; lvl++) begin'', nl,
     ''      clo = f_clo(idx);'', nl,
     ''      if (R < clo) begin acc[lvl] = 1\'b0; idx = f_lo(idx); end'', nl,
     ''      else         begin acc[lvl] = 1\'b1; R = R - clo; idx = f_hi(idx); end'', nl,
     ''    end'', nl,
     ''    return acc;'', nl,
     ''  endfunction'', nl,
     ''endpackage'', nl
     ]) }\<close>

text \<open>The declarations of the fields and the conjunction of the printed constraints\<close>

definition field_decl :: "field \<Rightarrow> string" where
  "field_decl f = (case f of (nm, w, lo) \<Rightarrow> concat [''    automatic logic ['', show_int (w - 1),
     '':0] '', nm, '' = sample['', show_int (lo + w - 1), '':'', show_int lo, ''];''])"

definition emit_tb :: "field list \<Rightarrow> cnode list \<Rightarrow> int \<Rightarrow> nat \<Rightarrow> string option" where
  \<open>emit_tb flds consts nvars nsol =
     do { cs \<leftarrow> those (map sv consts);
          let legal = join '' && '' (map (\<lambda>c. ''('' @ c @ '')'') cs);
              decl = join nl (map field_decl flds) in
     Some (concat [
     ''// GENERATED by csc.py -- self-checking testbench (checker = the constraint).'', nl,
     ''module tb_top;'', nl,
     ''  logic clk=0, rst_n=0, req=0, v; logic ['', show_int (nvars - 1), '':0] s;'', nl,
     ''  localparam int N=200000;'', nl,
     ''  csc_sampler dut(.clk,.rst_n,.req,.valid(v),.sample_o(s));'', nl,
     ''  always #5 clk=~clk;'', nl,
     ''  function automatic bit legal(input logic ['', show_int (nvars - 1), '':0] sample);'', nl,
     decl, nl,
     ''    legal = '', legal, '';'', nl,
     ''  endfunction'', nl,
     ''  integer i, n=0, bad=0; bit seen [int];'', nl,
     ''  initial begin'', nl,
     ''    rst_n=0; repeat(3)@(posedge clk); rst_n=1; @(posedge clk); req=1;'', nl,
     ''    while(n<N) begin @(posedge clk); if(v) begin'', nl,
     ''      n++; if(!legal(s)) bad++; seen[s]=1; end end'', nl,
     ''    $display("checked=%0d illegal=%0d distinct=%0d / nsol='', show_nat nsol,
     ''", n, bad, seen.size());'', nl,
     ''    if(bad==0 && seen.size()=='', show_nat nsol, '')'', nl,
     ''      $display(">>> csc: all legal AND full coverage ('', show_nat nsol, '' solutions)");'',
     nl,
     ''    $finish;'', nl,
     ''  end'', nl,
     ''endmodule'', nl
     ]) }\<close>

text \<open>The weights are read as \<open>pv\<close>; \<open>cum\<close> lists their partial sums, \<open>vs\<close> the values that occur.\<close>

definition cum :: "int list \<Rightarrow> nat \<Rightarrow> int" where
  "cum pv v = sum_list (take v pv)"

definition weighted :: "int list \<Rightarrow> nat list" where
  "weighted pv = filter (\<lambda>v. 0 < pv ! v) [0..<length pv]"

definition emit_dist_sampler :: "int \<Rightarrow> int list \<Rightarrow> string option" where
  \<open>emit_dist_sampler w pv =
     do { let total = sum_list pv;
          a \<leftarrow> clog2 (nat (total + 1));
          let pw = 16 + max 1 a;
          case weighted pv of [] \<Rightarrow> None
          | v0 # vs \<Rightarrow>
     let chain = join nl (map (\<lambda>v. concat [''      if (R >= 32\'d'', show_int (cum pv v), '') out = '',
           show_int w, ''\'d'', show_nat v, '';'']) vs) in
     Some (concat [
     ''// GENERATED by csc.py -- WEIGHTED (dist) sampler: cumulative-weight select.'', nl,
     ''module csc_sampler (input logic clk, rst_n, req, output logic valid,'', nl,
     ''  output logic ['', show_int (w - 1), '':0] sample_o);'', nl,
     ''  localparam logic [31:0] TOTAL = 32\'d'', show_int total, '';'', nl,
     ''  localparam logic [15:0] SEED = 16\'hACE1, TAPS = 16\'hB400;'', nl,
     ''  function automatic logic [15:0] lstep(input logic [15:0] s);'', nl,
     ''    lstep = (s>>1) ^ (s[0]?TAPS:16\'h0); endfunction'', nl,
     ''  logic [15:0] lfsr; logic [31:0] R; logic ['', show_int (w - 1), '':0] out;'', nl,
     ''  logic ['', show_nat (pw - 1), '':0] prod; assign prod = '', show_nat pw, ''\'(lfsr) * '',
     show_nat pw, ''\'(TOTAL);'', nl,
     ''  assign R = 32\'(prod['', show_nat (pw - 1),
     '':16]);                       // Lemire range reduction (sized)'', nl,
     ''  always_comb begin out = '', show_int w, ''\'d'', show_nat v0, '';'', nl,
     chain, nl,
     ''  end'', nl,
     ''  always_ff @(posedge clk or negedge rst_n) if(!rst_n) begin'', nl,
     ''      lfsr<=SEED; valid<=0; sample_o<=\'0;'', nl,
     ''    end else begin valid<=0;'', nl,
     ''      if(req) begin sample_o<=out; valid<=1; lfsr<=lstep(lfsr); end end'', nl,
     ''endmodule'', nl
     ]) }\<close>

text \<open>\<open>{p/t:.6f}\<close>: the quotient is rounded to a double, and the double to six decimals.\<close>

definition pad6 :: "string \<Rightarrow> string" where
  "pad6 s = replicate (6 - length s) CHR ''0'' @ s"

definition show_ratio :: "int \<Rightarrow> int \<Rightarrow> string option" where
  "show_ratio p t =
     (if t = 0 then None
      else let q = rnd (of_int p / of_int t); k = nat (round_even (\<bar>q\<bar> * 10 ^ 6)) in
        Some ((if q < 0 then ''-'' else []) @ show_nat (k div 10 ^ 6) @ ''.'' @ pad6 (show_nat (k mod 10 ^ 6))))"

definition dist_row :: "int list \<Rightarrow> nat \<Rightarrow> string option" where
  \<open>dist_row pv v =
     do { r \<leftarrow> show_ratio (pv ! v) (sum_list pv);
          Some (concat [''      $display("  v=%0d  observed=%6.4f  expected=%6.4f", '', show_nat v,
            '', hist['', show_nat v, '']*1.0/n, '', r, '');'']) }\<close>

definition emit_dist_tb :: "int \<Rightarrow> int list \<Rightarrow> string option" where
  \<open>emit_dist_tb w pv =
     do { N \<leftarrow> shl 1 w;
          rs \<leftarrow> those (map (dist_row pv) (weighted pv));
          let rows = join nl rs;
     Some (concat [
     ''module tb_top;'', nl,
     ''  logic clk=0, rst_n=0, req=0, v; logic ['', show_int (w - 1), '':0] s;'', nl,
     ''  localparam int NS=1000000;'', nl,
     ''  csc_sampler dut(.clk,.rst_n,.req,.valid(v),.sample_o(s));'', nl,
     ''  always #5 clk=~clk;'', nl,
     ''  integer i,n=0; integer hist[0:'', show_int (N - 1), ''];'', nl,
     ''  initial begin'', nl,
     ''    for(i=0;i<'', show_int N, '';i++) hist[i]=0;'', nl,
     ''    rst_n=0; repeat(3)@(posedge clk); rst_n=1; @(posedge clk); req=1;'', nl,
     ''    while(n<NS) begin @(posedge clk); if(v) begin n++; hist[s]++; end end'', nl,
     ''    $display("weighted (dist) sample, n=%0d:", n);'', nl,
     rows, nl,
     ''    $finish;'', nl,
     ''  end'', nl,
     ''endmodule'', nl
     ]) }\<close>
subsection \<open>The driver\<close>

text \<open>\<open>os.path.join(out, name)\<close> for a name without a slash\<close>

definition join_path :: "string \<Rightarrow> string \<Rightarrow> string" where
  "join_path out name =
     (if out = [] \<or> last out = CHR ''/'' then out @ name else out @ ''/'' @ name)"

definition tier2_msg :: string where
  "tier2_msg = ''[csc] CLASSIFY -> Tier-2 (variable*variable product): route to the '' @
     ''constructive arithmetic template (02_constructive_samplers/03_reactive_constraints), not the BDD.''"

type_synonym outcome = "string list \<times> (string \<times> string) list"   \<comment> \<open>printed lines, written files\<close>

definition main_dist :: "string \<Rightarrow> string \<Rightarrow> string \<Rightarrow> string \<Rightarrow> int \<Rightarrow> item list \<Rightarrow> outcome option" where
  "main_dist spec_path base out nm w items =
     do { pv \<leftarrow> dist_weights items w;
          sampler \<leftarrow> emit_dist_sampler w pv;
          tb \<leftarrow> emit_dist_tb w pv;
          Some ([concat [''[csc] '', spec_path, '': dist on '', nm, '' -> WEIGHTED sampler ('',
                   show_nat (length (filter (\<lambda>x. x \<noteq> 0) pv)), '' values, total weight '',
                   show_int (sum_list pv), '')''],
                 concat [''[csc] emitted weighted '', base, ''_sampler.sv + '', base, ''_tb.sv'']],
                [(join_path out (base @ ''_sampler.sv''), sampler), (join_path out (base @ ''_tb.sv''), tb)]) }"

definition main_bdd :: "string \<Rightarrow> string \<Rightarrow> string \<Rightarrow> field list \<Rightarrow> cnode list \<Rightarrow> outcome option" where
  "main_bdd spec_path base out flds cs =
     (let consts = map lower_dist cs;
          nvars = sum_list (map (\<lambda>(_, w, _). w) flds);
          msg = concat [''[csc] '', spec_path, '': '', show_nat (length flds), '' fields, '', show_int nvars,
            '' vars, '', show_nat (length consts), '' constraints'']
      in if list_ex has_var_mul consts then Some ([msg, tier2_msg], [])
      else if nvars > 18 then
        Some ([msg, concat [''[csc] '', show_int nvars, '' vars > 18: enumeration BDD too wide; '',
                 ''swap in CUDD apply-based construction.'']], [])
      else do {
        (nodes, rt, nsol) \<leftarrow> compile_bdd flds consts nvars;
        sampler \<leftarrow> emit_sampler nodes rt nsol nvars;
        tb \<leftarrow> emit_tb flds consts nvars nsol;
        pkg \<leftarrow> emit_pkg nodes rt nsol nvars (base @ ''_pkg'');
        Some ([msg, ''[csc] CLASSIFY -> Tier-1 (boolean/relational): enumeration BDD + unrank.'',
               concat [''[csc] solutions='', show_nat nsol, ''  BDD nodes='', show_nat (length nodes)],
               concat [''[csc] emitted '', base, ''_sampler.sv + '', base, ''_tb.sv + '', base, ''_pkg.sv'']],
              [(join_path out (base @ ''_sampler.sv''), sampler), (join_path out (base @ ''_tb.sv''), tb),
               (join_path out (base @ ''_pkg.sv''), pkg)]) })"

text \<open>
  \<open>main\<close> on the path of the specification, its base name, the directory of the outputs, and the text.
\<close>

definition csc_main :: "string \<Rightarrow> string \<Rightarrow> string \<Rightarrow> string \<Rightarrow> outcome option" where
  "csc_main spec_path base out text =
     do { ts \<leftarrow> lex text;
          (flds, cs, arrays) \<leftarrow> to_option (parse_spec ts);
          consts \<leftarrow> those (map (expand arrays no_env) cs);
          case (flds, consts) of
            ([(nm, w, _)], [Dist e items]) \<Rightarrow> main_dist spec_path base out nm w items
          | _ \<Rightarrow> main_bdd spec_path base out flds consts }"

subsection \<open>The clocked sampler\<close>

text \<open>The registers and the clocked process of the module that \<open>emit_sampler\<close> writes.\<close>

datatype sampler_state = IDLE | WALK | EMIT

record sampler =
  st :: sampler_state
  lfsr :: "16 word"
  rank :: "16 word"       \<comment> \<open>\<open>R\<close>\<close>
  node_idx :: nat         \<comment> \<open>\<open>idx\<close>\<close>
  lvl :: "5 word"
  acc :: nat
  valid :: bool
  sample_o :: nat

definition sampler_reset :: sampler where
  "sampler_reset = \<lparr>st = IDLE, lfsr = 0xACE1, rank = 0, node_idx = 0, lvl = 0, acc = 0,
     valid = False, sample_o = 0\<rparr>"

definition sampler_step :: "bdd \<Rightarrow> nat \<Rightarrow> nat \<Rightarrow> nat \<Rightarrow> nat \<Rightarrow> sampler \<Rightarrow> bool \<Rightarrow> sampler" where
  "sampler_step nodes rt nsol nvars AW s0 req =
     (let s = s0\<lparr>valid := False\<rparr> in
      case st s of
        IDLE \<Rightarrow>
          if req then s\<lparr>rank := lemire (lfsr s) (word_of_nat nsol), node_idx := rt, lvl := 0, acc := 0, st := WALK\<rparr>
          else s
      | WALK \<Rightarrow>
          let clo_c = f_clo nodes (node_idx s); bitc = (clo_c \<le> rank s); i = take_bit AW (unat (lvl s)) in
          s\<lparr>acc := (if bitc then set_bit i (acc s) else unset_bit i (acc s)),
            node_idx := (if bitc then f_hi nodes (node_idx s) else f_lo nodes (node_idx s)),
            rank := (if bitc then rank s - clo_c else rank s),
            lvl := lvl s + 1,
            st := (if lvl s = word_of_nat (nvars - 1) then EMIT else WALK)\<rparr>
      | EMIT \<Rightarrow> s\<lparr>sample_o := acc s, valid := True, lfsr := lstep (lfsr s), st := IDLE\<rparr>)"

lemma step_walk:
  assumes "st s = WALK" and "unat (lvl s) = l" and "l < 2 ^ AW" and "\<not> bit (acc s) l"
  shows "sampler_step nodes rt nsol nvars AW s req =
    (case walk_step nodes (rank s, node_idx s, acc s) l of (R, i, a) \<Rightarrow>
       s\<lparr>valid := False, rank := R, node_idx := i, acc := a, lvl := lvl s + 1,
         st := (if lvl s = word_of_nat (nvars - 1) then EMIT else WALK)\<rparr>)"
proof -
  have "unset_bit l (acc s) = acc s" 
    by (rule bit_eqI) (use assms(4) in \<open>auto simp: bit_unset_bit_iff\<close>)
  moreover have "take_bit AW l = l" using assms(3) by (simp add: take_bit_nat_eq_self)
  ultimately show ?thesis
    using assms(1,2)
    by (simp add: sampler_step_def walk_step_def Let_def set_bit_eq_or not_le)
qed

lemma walk_step_acc:
  "walk_step nodes (R, i, a) l = (R', i', a') \<Longrightarrow> (bit a' k \<longleftrightarrow> bit a k \<or> (bit a' l \<and> k = l)) \<or> bit a l"
  by (auto simp: walk_step_def Let_def split: if_splits)

lemma walk_steps:
  assumes "n \<le> 32" and "n \<le> 2 ^ AW"
  shows "l < n \<Longrightarrow> st s = WALK \<Longrightarrow> unat (lvl s) = l \<Longrightarrow> (\<forall>k\<ge>l. \<not> bit (acc s) k) \<Longrightarrow>
    length reqs = n - l \<Longrightarrow>
    (let s' = foldl (sampler_step nodes rt nsol n AW) s reqs;
         r = foldl (walk_step nodes) (rank s, node_idx s, acc s) [l..<n] in
     st s' = EMIT \<and> acc s' = snd (snd r) \<and> lfsr s' = lfsr s)"
proof (induction "n - l" arbitrary: l s reqs)
  case (Suc d)
  obtain q qs where reqs: "reqs = q # qs" using Suc by (cases reqs) auto
  obtain R i a where w: "walk_step nodes (rank s, node_idx s, acc s) l = (R, i, a)" by (metis prod_cases3)
  let ?last = "lvl s = word_of_nat (n - 1)"
  let ?s = "s\<lparr>valid := False, rank := R, node_idx := i, acc := a, lvl := lvl s + 1,
      st := (if ?last then EMIT else WALK)\<rparr>"
  have step: "sampler_step nodes rt nsol n AW s q = ?s"
    using step_walk [OF Suc.prems(2,3), of AW] Suc.prems(1,4) assms(2) w by simp
  have "unat (word_of_nat (n - 1) :: 5 word) = n - 1"
    unfolding unat_of_nat by (rule mod_less) (use Suc.prems(1) assms(1) in auto)
  then have last: "?last \<longleftrightarrow> l = n - 1" by (simp only: word_unat_eq_iff Suc.prems(3))
  have up: "[l..<n] = l # [Suc l..<n]" using Suc.prems(1) by (simp add: upt_conv_Cons)
  show ?case
  proof (cases "l = n - 1")
    case True
    then have "qs = []" "[Suc l..<n] = []" using Suc.prems(1,5) reqs by auto
    then show ?thesis unfolding reqs up foldl.simps step w using last True by (simp add: Let_def)
  next
    case False
    have a: "\<forall>k\<ge>Suc l. \<not> bit a k"
      using walk_step_acc [OF w] Suc.prems(4) by (metis Suc_leD order_refl not_less_eq_eq)
    have "unat (lvl s + 1) = Suc l"
      using Suc.prems(1,3) assms(1) False by (simp add: unat_word_ariths)
    then have "let s' = foldl (sampler_step nodes rt nsol n AW) ?s qs;
         r = foldl (walk_step nodes) (rank ?s, node_idx ?s, acc ?s) [Suc l..<n] in
       st s' = EMIT \<and> acc s' = snd (snd r) \<and> lfsr s' = lfsr ?s"
      by (intro Suc.hyps(1)) (use Suc False last a reqs in auto)
    then show ?thesis unfolding reqs up foldl.simps step w using last by simp
  qed
qed simp

lemma clog2_bound:
  "\<exists>b. clog2 x = Some b \<and> x \<le> 2 ^ b \<and> 1 \<le> b"
  unfolding clog2_def
proof (rule loop_measure [where I = "\<lambda>b. 1 \<le> b" and f = "\<lambda>b. x - b"])
  fix b :: nat assume b: "1 \<le> b"
  have "b < x" if "2 ^ b < x" using that less_exp [of b] by linarith
  then show "\<exists>y. (if push_bit b 1 < x then Some (Inr (b + 1)) else Some (Inl b)) = Some y \<and>
      (case y of Inl r \<Rightarrow> x \<le> 2 ^ r \<and> 1 \<le> r | Inr b' \<Rightarrow> 1 \<le> b' \<and> x - b' < x - b)"
    using b by (auto simp: push_bit_eq_mult)
qed simp

text \<open>C30. The clocked sampler implements the package function: from the idle state, a request is
  answered \<open>nvars + 1\<close> clocks later with a valid sample, which is the value that \<open>unrank\<close> computes
  from the shift register, and the register has advanced by one step, whatever the later requests.\<close>

theorem sampler_refines_unrank:
  assumes "1 \<le> nvars" and "nvars \<le> 18" and "clog2 nvars = Some AW"
    and "st s = IDLE" and "length reqs = nvars + 1"
  shows "let s' = foldl (sampler_step nodes rt nsol nvars (max 1 AW)) s (True # reqs) in
    valid s' \<and> st s' = IDLE \<and> sample_o s' = unrank nodes rt nsol nvars (lfsr s) \<and> lfsr s' = lstep (lfsr s)"
proof -
  let ?step = "sampler_step nodes rt nsol nvars (max 1 AW)"
  define s1 where "s1 = ?step s True"
  have s1: "st s1 = WALK" "lvl s1 = 0" "acc s1 = 0" "node_idx s1 = rt" "lfsr s1 = lfsr s"
      "rank s1 = lemire (lfsr s) (word_of_nat nsol)"
    using assms(4) by (simp_all add: s1_def sampler_step_def Let_def)
  obtain qs q where reqs: "reqs = qs @ [q]" "length qs = nvars"
    using assms(5) by (cases reqs rule: rev_cases) auto
  have "nvars \<le> 2 ^ AW" using clog2_bound [of nvars] assms(3) by auto
  also have "\<dots> \<le> 2 ^ max 1 AW" by (rule power_increasing) auto
  finally have aw: "nvars \<le> 2 ^ max 1 AW" .
  define s2 where "s2 = foldl ?step s1 qs"
  have "st s2 = EMIT \<and> acc s2 = walk nodes rt nvars (lemire (lfsr s) (word_of_nat nsol)) \<and> lfsr s2 = lfsr s"
    using walk_steps [of nvars "max 1 AW" 0 s1 qs nodes rt nsol] s1 aw assms(1,2) reqs(2)
    by (simp add: s2_def walk_def Let_def)
  then have "valid (?step s2 q) \<and> st (?step s2 q) = IDLE \<and> lfsr (?step s2 q) = lstep (lfsr s) \<and>
      sample_o (?step s2 q) = unrank nodes rt nsol nvars (lfsr s)"
    by (simp add: sampler_step_def Let_def unrank_def)
  moreover have "foldl ?step s (True # reqs) = ?step s2 q" by (simp add: reqs(1) s1_def s2_def)
  ultimately show ?thesis by (simp only: Let_def)
qed

lemma clog2_2: "clog2 2 = Some 1"
  unfolding clog2_def by (subst loop_done) (simp_all add: push_bit_eq_mult)

lemma sampler_refines_unrank_witness:
  "let s' = foldl (sampler_step demo_bdd 4 3 2 (max 1 1)) sampler_reset [True, False, False, False] in
    valid s' \<and> st s' = IDLE \<and> sample_o s' = unrank demo_bdd 4 3 2 (lfsr sampler_reset) \<and>
    lfsr s' = lstep (lfsr sampler_reset)"
  by (rule sampler_refines_unrank) (simp_all add: clog2_2 sampler_reset_def)

subsection \<open>The weighted sampler\<close>

text \<open>
  The module that \<open>emit_dist_sampler\<close> writes. \<open>TOTAL\<close>, \<open>R\<close> and the thresholds have 32 bits, so a literal
  that needs more is truncated; the product has \<open>pw\<close> bits. \<open>dist_out\<close> is the combinational choice, the
  last value whose threshold is reached.
\<close>

definition dist_width :: "int list \<Rightarrow> nat option" where   \<comment> \<open>\<open>pw\<close>\<close>
  "dist_width pv = do { a \<leftarrow> clog2 (nat (sum_list pv + 1)); Some (16 + max 1 a) }"

definition dist_out :: "int list \<Rightarrow> 32 word \<Rightarrow> nat" where
  "dist_out pv R =
     foldl (\<lambda>out v. if R \<ge> word_of_int (cum pv v) then v else out) (hd (weighted pv)) (tl (weighted pv))"

definition dist_range :: "nat \<Rightarrow> int list \<Rightarrow> 16 word \<Rightarrow> 32 word" where   \<comment> \<open>\<open>R\<close>\<close>
  "dist_range pw pv s =
     (let TOTAL = word_of_int (sum_list pv) :: 32 word;
          prod = take_bit pw (take_bit pw (unat s) * take_bit pw (unat TOTAL))
      in word_of_nat (drop_bit 16 prod))"

record dist_sampler =
  d_lfsr :: "16 word"
  d_valid :: bool
  d_sample :: nat

definition dist_reset :: dist_sampler where
  "dist_reset = \<lparr>d_lfsr = 0xACE1, d_valid = False, d_sample = 0\<rparr>"

definition dist_step :: "nat \<Rightarrow> int list \<Rightarrow> dist_sampler \<Rightarrow> bool \<Rightarrow> dist_sampler" where
  "dist_step pw pv s0 req =
     (let s = s0\<lparr>d_valid := False\<rparr> in
      if req then s\<lparr>d_sample := dist_out pv (dist_range pw pv (d_lfsr s)), d_valid := True, d_lfsr := lstep (d_lfsr s)\<rparr>
      else s)"

lemma cum_mono:
  assumes "list_all (\<lambda>x. 0 \<le> x) pv" and "i \<le> j"
  shows "cum pv i \<le> cum pv j"
proof -
  have "take j pv = take i pv @ take (j - i) (drop i pv)"
    using assms(2) take_add [of i "j - i" pv] by simp
  moreover have "0 \<le> sum_list (take (j - i) (drop i pv))"
    using assms(1) by (intro sum_list_nonneg) (auto simp: list_all_iff dest!: in_set_takeD in_set_dropD)
  ultimately show ?thesis by (simp add: cum_def)
qed

lemma cum_Suc: "v < length pv \<Longrightarrow> cum pv (Suc v) = cum pv v + pv ! v"
  by (simp add: cum_def take_Suc_conv_app_nth)

lemma foldl_last:
  assumes "sorted_wrt (<) (v0 # vs)" and "\<And>u v. u \<le> v \<Longrightarrow> f u \<le> (f v :: int)" and "f v0 \<le> R"
  shows "foldl (\<lambda>out v. if R \<ge> f v then v else out) v0 vs = Max {v \<in> set (v0 # vs). f v \<le> R}"
  using assms(1)
proof (induction vs rule: rev_induct)
  case Nil
  have "{v \<in> set [v0]. f v \<le> R} = {v0}" using assms(3) by auto
  then show ?case by simp
next
  case (snoc v vs)
  have IH: "foldl (\<lambda>out v. if R \<ge> f v then v else out) v0 vs = Max {v \<in> set (v0 # vs). f v \<le> R}"
    using snoc by (auto simp: sorted_wrt_append)
  show ?case
  proof (cases "f v \<le> R")
    case True
    have "{u \<in> set (v0 # vs @ [v]). f u \<le> R} = insert v {u \<in> set (v0 # vs). f u \<le> R}" using True by auto
    moreover have "\<And>u. u \<in> set (v0 # vs) \<Longrightarrow> u < v" using snoc.prems by (auto simp: sorted_wrt_append)
    ultimately have "Max {u \<in> set (v0 # vs @ [v]). f u \<le> R} = v"
      by (intro Max_eqI) (auto intro: less_imp_le)
    then show ?thesis using True by simp
  next
    case False
    then have "{u \<in> set (v0 # vs @ [v]). f u \<le> R} = {u \<in> set (v0 # vs). f u \<le> R}" by auto
    then show ?thesis using False IH by simp
  qed
qed

lemma threshold_le: "0 \<le> c \<Longrightarrow> c < 2 ^ 32 \<Longrightarrow> (word_of_int c :: 32 word) \<le> R \<longleftrightarrow> c \<le> uint R"
  by (simp add: word_le_def uint_word_of_int)

lemma dist_out_iff:
  fixes W :: "32 word"
  defines "R \<equiv> uint W"
  assumes nn: "list_all (\<lambda>x. 0 \<le> x) pv" and R: "R < sum_list pv" and fits: "sum_list pv < 2 ^ 32" and v: "v < length pv"
  shows "dist_out pv W = v \<longleftrightarrow> cum pv v \<le> R \<and> R < cum pv (Suc v)"
proof -
  have R0: "0 \<le> R" by (simp add: R_def)
  let ?P = "\<lambda>v. v < length pv \<and> 0 < pv ! v \<and> cum pv v \<le> R"
  have mono: "\<And>u v. u \<le> v \<Longrightarrow> cum pv u \<le> cum pv v" by (rule cum_mono [OF nn])
  have end_: "cum pv (length pv) = sum_list pv" by (simp add: cum_def)
  define w where "w = Max {v. v \<le> length pv \<and> cum pv v \<le> R}"
  have fin: "finite {v. v \<le> length pv \<and> cum pv v \<le> R}" by (rule finite_subset [of _ "{..length pv}"]) auto
  have "0 \<in> {v. v \<le> length pv \<and> cum pv v \<le> R}" using R0 by (simp add: cum_def)
  then have "w \<in> {v. v \<le> length pv \<and> cum pv v \<le> R}" unfolding w_def by (intro Max_in [OF fin]) blast
  then have w: "w \<le> length pv" "cum pv w \<le> R" by simp_all
  have wmax: "\<And>v. v \<le> length pv \<Longrightarrow> cum pv v \<le> R \<Longrightarrow> v \<le> w"
    unfolding w_def by (rule Max_ge [OF fin]) simp
  have w_lt: "w < length pv" using w end_ R by (cases "w = length pv") auto
  then have up: "R < cum pv (Suc w)" using wmax [of "Suc w"] by (auto simp: not_le [symmetric])
  then have pos: "0 < pv ! w" using cum_Suc [OF w_lt] w(2) by simp
  have wmem: "w \<in> set (weighted pv)" using w_lt pos by (simp add: weighted_def)
  obtain v0 vs where ws: "weighted pv = v0 # vs" using wmem by (cases "weighted pv") auto
  have srt: "sorted_wrt (<) (v0 # vs)"
    unfolding ws [symmetric] weighted_def by (rule sorted_wrt_filter) simp
  have "v0 \<le> w" using wmem srt ws by (auto intro: less_imp_le)
  then have "cum pv v0 \<le> R" using mono [of v0 w] w(2) by simp
  note last = foldl_last [where f = "cum pv", OF srt mono this]
  have "(word_of_int (cum pv u) :: 32 word) \<le> W \<longleftrightarrow> cum pv u \<le> R" if "u \<in> set vs" for u
  proof -
    have "u \<in> set (weighted pv)" using that ws by simp
    then have "u \<le> length pv" by (auto simp: weighted_def)
    then have "0 \<le> cum pv u" "cum pv u < 2 ^ 32" using mono [of 0 u] mono [of u "length pv"] end_ fits by (simp_all add: cum_def)
    then show ?thesis unfolding R_def by (rule threshold_le)
  qed
  then have "dist_out pv W = foldl (\<lambda>out v. if R \<ge> cum pv v then v else out) v0 vs"
    unfolding dist_out_def ws list.sel by (intro foldl_cong) auto
  then have d: "dist_out pv W = Max {v \<in> set (v0 # vs). cum pv v \<le> R}" using last by simp
  have "Max {v \<in> set (v0 # vs). cum pv v \<le> R} = w"
  proof (rule Max_eqI)
    fix u assume "u \<in> {v \<in> set (v0 # vs). cum pv v \<le> R}"
    then have "u \<in> set (weighted pv)" "cum pv u \<le> R" by (auto simp: ws)
    then show "u \<le> w" using wmax [of u] by (simp add: weighted_def)
  qed (use wmem w ws in auto)
  then have dw: "dist_out pv W = w" using d by simp
  show ?thesis
  proof
    assume "dist_out pv W = v"
    then show "cum pv v \<le> R \<and> R < cum pv (Suc v)" using dw w up by simp
  next
    assume c: "cum pv v \<le> R \<and> R < cum pv (Suc v)"
    then have "v \<le> w" using wmax [of v] v by simp
    moreover have "\<not> Suc v \<le> w" using c mono [of "Suc v" w] w(2) by auto
    ultimately show "dist_out pv W = v" using dw by simp
  qed
qed

text \<open>The ranks that select a value, counted over the words below the total weight.\<close>

lemma card_words:
  assumes "0 \<le> a" "a \<le> b" "b \<le> 2 ^ LENGTH('a)"
  shows "int (card {x :: 'a :: len word. a \<le> uint x \<and> uint x < b}) = b - a"
proof -
  have "bij_betw uint {x :: 'a word. a \<le> uint x \<and> uint x < b} {a..<b}"
    unfolding bij_betw_def
  proof
    show "inj_on uint {x :: 'a word. a \<le> uint x \<and> uint x < b}" by (intro inj_onI word_uint_eqI)
    show "uint ` {x :: 'a word. a \<le> uint x \<and> uint x < b} = {a..<b}"
    proof (intro equalityI subsetI)
      fix i assume i: "i \<in> {a..<b}"
      then have "uint (word_of_int i :: 'a word) = i"
        using assms by (simp add: uint_word_of_int take_bit_int_eq_self_iff)
      then show "i \<in> uint ` {x :: 'a word. a \<le> uint x \<and> uint x < b}"
        using i by (intro image_eqI [of _ _ "word_of_int i :: 'a word"]) auto
    qed auto
  qed
  then show ?thesis using assms(2) by (simp add: bij_betw_same_card)
qed

lemma dist_width_bound: "\<exists>pw. dist_width pv = Some pw \<and> 16 < pw \<and> nat (sum_list pv) < 2 ^ (pw - 16)"
proof -
  obtain b where b: "clog2 (nat (sum_list pv + 1)) = Some b" "nat (sum_list pv + 1) \<le> 2 ^ b" "1 \<le> b"
    using clog2_bound by blast
  then show ?thesis by (auto simp: dist_width_def max_def)
qed

text \<open>The range reduction is exact: the product does not overflow its \<open>pw\<close> bits.\<close>

lemma uint_dist_range:
  assumes pw: "16 < pw" "nat (sum_list pv) < 2 ^ (pw - 16)" and T: "0 \<le> sum_list pv" "sum_list pv < 2 ^ 32"
  shows "uint (dist_range pw pv s) = uint s * sum_list pv div 2 ^ 16"
proof -
  let ?t = "nat (sum_list pv)"
  have t: "unat (word_of_int (sum_list pv) :: 32 word) = ?t"
    using T by (simp add: unat_eq_nat_uint uint_word_of_int take_bit_int_eq_self)
  have s: "unat s < 2 ^ 16" using unsigned_less [of s, where ?'a = nat] by simp
  have p: "(2 :: nat) ^ pw = 2 ^ 16 * 2 ^ (pw - 16)" using pw(1) power_add [of "2 :: nat" 16 "pw - 16"] by simp
  have "unat s * ?t < 2 ^ 16 * 2 ^ (pw - 16)" by (rule mult_strict_mono' [OF s pw(2)]) simp_all
  moreover have "(2 :: nat) ^ 16 \<le> 2 ^ pw" "(2 :: nat) ^ (pw - 16) \<le> 2 ^ pw"
    by (rule power_increasing; use pw(1) in simp)+
  ultimately have "unat s * ?t < 2 ^ pw" "unat s < 2 ^ pw" "?t < 2 ^ pw" using s pw(2) p by linarith+
  then have m: "take_bit pw (take_bit pw (unat s) * take_bit pw ?t) = unat s * ?t"
    by (simp only: take_bit_nat_eq_self)
  have "unat s * ?t div 2 ^ 16 \<le> 2 ^ 16 * ?t div 2 ^ 16"
    by (rule div_le_mono, rule mult_le_mono1) (use s in simp)
  also have "\<dots> = ?t" by simp
  also have "?t < 2 ^ 32" using T by (simp add: nat_less_iff)
  finally have lt: "unat s * ?t div 2 ^ 16 < 2 ^ 32" .
  have "unat (dist_range pw pv s) = unat s * ?t div 2 ^ 16"
    using lt unfolding dist_range_def Let_def t m by (simp add: drop_bit_eq_div unat_of_nat take_bit_nat_eq_self unsigned_of_nat)
  then have "uint (dist_range pw pv s) = int (unat s * ?t div 2 ^ 16)" unfolding uint_nat by (rule arg_cong)
  also have "\<dots> = int (unat s) * int ?t div 2 ^ 16" by (simp add: zdiv_int)
  also have "\<dots> = uint s * sum_list pv div 2 ^ 16" using T(1) by (simp only: uint_nat int_nat_eq if_True)
  finally show ?thesis .
qed

text \<open>\<open>reach T c\<close> is the first 16-bit number whose reduction to the range \<open>T\<close> is at least \<open>c\<close>.\<close>

definition reach :: "int \<Rightarrow> int \<Rightarrow> int" where
  "reach T c = (c * 2 ^ 16 + T - 1) div T"

lemma le_div_int_iff: "0 < q \<Longrightarrow> (m :: int) \<le> n div q \<longleftrightarrow> m * q \<le> n"
proof
  assume q: "0 < q" and "m \<le> n div q"
  then have "m * q \<le> n div q * q" by (intro mult_right_mono) simp_all
  also have "\<dots> \<le> n" using q by (simp flip: minus_mod_eq_div_mult)
  finally show "m * q \<le> n" .
next
  assume q: "0 < q" and "m * q \<le> n"
  then have "m * q div q \<le> n div q" by (intro zdiv_mono1)
  then show "m \<le> n div q" using q by simp
qed

lemma reach_iff: "0 < T \<Longrightarrow> c \<le> x * T div 2 ^ 16 \<longleftrightarrow> reach T c \<le> x"
proof -
  assume T: "0 < T"
  have "c \<le> x * T div 2 ^ 16 \<longleftrightarrow> c * 2 ^ 16 \<le> x * T" by (rule le_div_int_iff) simp
  also have "\<dots> \<longleftrightarrow> \<not> (x + 1) * T \<le> c * 2 ^ 16 + T - 1" by (auto simp: algebra_simps)
  also have "\<dots> \<longleftrightarrow> \<not> x + 1 \<le> reach T c" using T by (simp add: reach_def le_div_int_iff)
  finally show ?thesis by linarith
qed

lemma reach_bounds: "0 < T \<Longrightarrow> c * 2 ^ 16 \<le> T * reach T c \<and> T * reach T c < c * 2 ^ 16 + T"
proof -
  assume T: "0 < T"
  let ?n = "c * 2 ^ 16 + T - 1"
  have "?n = T * reach T c + ?n mod T" by (simp add: reach_def)
  moreover have "0 \<le> ?n mod T" "?n mod T < T" using T by simp_all
  ultimately show ?thesis by linarith
qed

text \<open>C31. The weighted sampler draws every value in proportion to its weight, as long as the total weight
  fits the 32 bits of the module's registers and literals: of the range numbers \<open>R\<close> below the total weight
  exactly \<open>pv ! v\<close> select \<open>v\<close>, and among the \<open>2 ^ 16\<close> contents of the shift register the number of those on
  which a request answers \<open>v\<close> differs from \<open>2 ^ 16 * pv ! v / total\<close> by less than one. (The order in
  which the register runs through its states is not part of the claim.)\<close>

theorem dist_out_weights:
  assumes "list_all (\<lambda>x. 0 \<le> x) pv" and "v < length pv" and "0 < sum_list pv" and "sum_list pv < 2 ^ 32"
  shows "\<exists>pw. dist_width pv = Some pw \<and>
    int (card {R :: 32 word. R < word_of_int (sum_list pv) \<and> dist_out pv R = v}) = pv ! v \<and>
    \<bar>sum_list pv * int (card {x. d_sample (dist_step pw pv (s\<lparr>d_lfsr := x\<rparr>) True) = v}) - 2 ^ 16 * pv ! v\<bar> < sum_list pv"
proof -
  let ?T = "sum_list pv" and ?a = "cum pv v" and ?b = "cum pv (Suc v)"
  have le: "?b \<le> ?T" and ge: "0 \<le> ?a" and ab: "?b = ?a + pv ! v" "?a \<le> ?b"
    using cum_mono [OF assms(1), of "Suc v" "length pv"] cum_mono [OF assms(1), of 0 v] cum_mono [OF assms(1), of v "Suc v"]
      cum_Suc [OF assms(2)] assms(2) by (simp_all add: cum_def)
  have iff: "dist_out pv R = v \<longleftrightarrow> ?a \<le> uint R \<and> uint R < ?b" if "uint R < ?T" for R
    by (rule dist_out_iff [OF assms(1) that assms(4,2)])
  have T: "uint (word_of_int ?T :: 32 word) = ?T" using assms(3,4) by (simp add: uint_word_of_int take_bit_int_eq_self)
  have "{R :: 32 word. R < word_of_int ?T \<and> dist_out pv R = v} = {R. ?a \<le> uint R \<and> uint R < ?b}"
    using iff le by (auto simp: word_less_def T)
  then have 1: "int (card {R :: 32 word. R < word_of_int ?T \<and> dist_out pv R = v}) = pv ! v"
    using card_words [where 'a = 32, of ?a ?b] ge ab le assms(4) by simp
  obtain pw where pw: "dist_width pv = Some pw" "16 < pw" "nat ?T < 2 ^ (pw - 16)" using dist_width_bound by blast
  have r: "uint (dist_range pw pv x) = uint x * ?T div 2 ^ 16" for x
    by (rule uint_dist_range [OF pw(2,3)]) (use assms(3,4) in simp_all)
  have "d_sample (dist_step pw pv (s\<lparr>d_lfsr := x\<rparr>) True) = v \<longleftrightarrow> reach ?T ?a \<le> uint x \<and> uint x < reach ?T ?b" for x
  proof -
    have x: "uint x < 2 ^ 16" using uint_lt2p [of x] by simp
    have "uint x * ?T < 2 ^ 16 * ?T" using x assms(3) by (rule mult_strict_right_mono)
    then have "uint x * ?T div 2 ^ 16 < ?T" by (simp add: div_less_iff_less_mult mult.commute)
    then have "uint (dist_range pw pv x) < ?T" by (simp add: r)
    then show ?thesis
      using iff [of "dist_range pw pv x"] reach_iff [OF assms(3), of ?a "uint x"] reach_iff [OF assms(3), of ?b "uint x"]
      by (auto simp: dist_step_def r not_le [symmetric])
  qed
  then have set: "{x. d_sample (dist_step pw pv (s\<lparr>d_lfsr := x\<rparr>) True) = v} = {x. reach ?T ?a \<le> uint x \<and> uint x < reach ?T ?b}"
    by blast
  have "0 \<le> reach ?T ?a" using ge assms(3) by (simp add: reach_def pos_imp_zdiv_nonneg_iff)
  moreover have "reach ?T ?a \<le> reach ?T ?b" using ab(2) assms(3) by (simp add: reach_def zdiv_mono1)
  moreover have "reach ?T ?b \<le> 2 ^ 16"
    using reach_iff [OF assms(3), of ?b "2 ^ 16"] le by simp
  ultimately have "int (card {x. d_sample (dist_step pw pv (s\<lparr>d_lfsr := x\<rparr>) True) = v}) = reach ?T ?b - reach ?T ?a"
    unfolding set using card_words [where 'a = 16, of "reach ?T ?a" "reach ?T ?b"] by simp
  then have n: "?T * int (card {x. d_sample (dist_step pw pv (s\<lparr>d_lfsr := x\<rparr>) True) = v}) =
      ?T * reach ?T ?b - ?T * reach ?T ?a" by (simp add: right_diff_distrib)
  have b16: "?b * 2 ^ 16 = ?a * 2 ^ 16 + 2 ^ 16 * pv ! v" using ab(1) by (simp add: algebra_simps)
  have "\<bar>?T * int (card {x. d_sample (dist_step pw pv (s\<lparr>d_lfsr := x\<rparr>) True) = v}) - 2 ^ 16 * pv ! v\<bar> < ?T"
    unfolding n using b16 reach_bounds [OF assms(3), of ?a] reach_bounds [OF assms(3), of ?b] unfolding abs_less_iff by linarith
  then show ?thesis using 1 pw(1) by blast
qed

lemma dist_out_weights_witness:
  "\<exists>pw. dist_width [2, 0, 5] = Some pw \<and>
    int (card {R :: 32 word. R < word_of_int (sum_list [2, 0, 5]) \<and> dist_out [2, 0, 5] R = 2}) = [2, 0, 5] ! 2 \<and>
    \<bar>sum_list [2, 0, 5] * int (card {x. d_sample (dist_step pw [2, 0, 5] (dist_reset\<lparr>d_lfsr := x\<rparr>) True) = 2})
      - 2 ^ 16 * [2, 0, 5] ! 2\<bar> < sum_list [2, 0, 5]"
  by (rule dist_out_weights) simp_all

text \<open>Beyond 32 bits the thresholds are truncated: with the weights \<open>2 ^ 32\<close> and \<open>1\<close> the first value, by far
  the likelier one, is never drawn.\<close>

lemma dist_out_truncates: "dist_out [2 ^ 32, 1] R = 1"
proof -
  have "weighted [2 ^ 32, 1] = [0, 1]" by (simp add: weighted_def upt_rec)
  moreover have "(word_of_int (cum [2 ^ 32, 1] 1) :: 32 word) = 0"
    by (simp add: cum_def word_of_int_eq_0_iff dvd_def)
  ultimately show ?thesis by (simp add: dist_out_def)
qed

end
