(* ===== verification/Csc_Lower.thy ===== *)
theory Csc_Lower
  imports Csc_Parse
begin

text \<open>
  What the lowering passes of \<open>csc.py\<close> guarantee: the result of \<open>expand\<close> has no loops, no
  \<open>unique\<close> and no array references left, \<open>unique\<close> becomes pairwise difference, and
  \<open>lower_dist\<close> turns a distribution into membership in its ranges. At the end, what can go wrong when an
  expression that the parser returned is evaluated.
\<close>

subsection \<open>The result of expand\<close>

fun flat :: "cnode \<Rightarrow> bool" and flat_item :: "item \<Rightarrow> bool" where
  "flat (Aref x i) = False"
| "flat (Foreach a i b) = False"
| "flat (Unique us) = False"
| "flat (Unop op e) = flat e"
| "flat (Binop op a b) = (flat a \<and> flat b)"
| "flat (Impl a b) = (flat a \<and> flat b)"
| "flat (Inrange e lo hi) = (flat e \<and> flat lo \<and> flat hi)"
| "flat (Inset e vs) = (flat e \<and> list_all flat vs)"
| "flat (Dist e items) = (flat e \<and> list_all flat_item items)"
| "flat n = True"
| "flat_item (Item lo hi wt k) = (flat lo \<and> flat hi \<and> flat wt)"

lemma those_all:
  "those (map f xs) = Some ys \<Longrightarrow> (\<And>x y. x \<in> set xs \<Longrightarrow> f x = Some y \<Longrightarrow> P y) \<Longrightarrow> list_all P ys"
proof (induction xs arbitrary: ys)
  case (Cons x xs)
  obtain y zs where y: "f x = Some y" and zs: "those (map f xs) = Some zs" and ys: "ys = y # zs"
    using Cons.prems(1) by (auto split: option.splits)
  have "list_all P zs" by (rule Cons.IH [OF zs]) (rule Cons.prems(2), auto)
  moreover have "P y" by (rule Cons.prems(2) [OF _ y]) simp
  ultimately show ?case using ys by simp
qed simp

lemma flat_conj: "flat z \<Longrightarrow> list_all flat bs \<Longrightarrow> flat (foldl (Binop op) z bs)"
  by (induction bs arbitrary: z) auto

lemma flat_pairs: "list_all flat items \<Longrightarrow> flat out \<Longrightarrow> flat (all_pairs_differ items out)"
proof (induction items out rule: all_pairs_differ.induct)
  case (2 a items out)
  have "flat (foldl (\<lambda>out b. Binop ''&&'' out (Binop ''!='' a b)) z bs)"
    if "flat z" "flat a" "list_all flat bs" for z bs
    using that by (induction bs arbitrary: z) auto
  then show ?case using 2 by simp
qed simp

lemma array_elems_flat: "array_elems arrays u = Some es \<Longrightarrow> list_all flat es"
  by (cases u) (auto simp: list_all_iff split: option.splits)

lemma expand_is_flat:
  "expand arrays env n = Some n' \<Longrightarrow> flat n'"
  "expand_item arrays env it = Some it' \<Longrightarrow> flat_item it'"
proof (induction arrays env n and arrays env it arbitrary: n' and it' rule: expand_expand_item.induct)
  case (9 arrays env e vs)
  obtain e' vs' where "expand arrays env e = Some e'" "those (map (expand arrays env) vs) = Some vs'"
      "n' = Inset e' vs'"
    using 9(3) by (auto split: bind_splits)
  then show ?case using 9(1) those_all [where P = flat, OF _ 9(2)] by fastforce
next
  case (10 arrays env x i)
  then show ?case by (auto split: bind_splits cnode.splits)
next
  case (11 arrays env arr iv body)
  obtain m w bs where a: "arrays arr = Some (m, w)"
    and bs: "those (map (\<lambda>i. expand arrays (env(iv \<mapsto> i)) body) [0..m - 1]) = Some bs"
    and n': "n' = foldl (Binop ''&&'') (Num 1) bs"
    using 11(2) by (auto split: bind_splits)
  have "list_all flat bs" by (rule those_all [OF bs]) (use 11(1) a in blast)
  then show ?case using n' flat_conj by simp
next
  case (12 arrays env us)
  let ?f = "\<lambda>u. case array_elems arrays u of Some es \<Rightarrow> Some es
            | None \<Rightarrow> do { e \<leftarrow> expand arrays env u; Some [e] }"
  obtain items where items: "those (map ?f us) = Some items"
    and n': "n' = all_pairs_differ (concat items) (Num 1)"
    using 12 by (auto split: bind_splits)
  have "list_all (list_all flat) items"
  proof (rule those_all [OF items])
    fix u y assume u: "u \<in> set us" and y: "?f u = Some y"
    show "list_all flat y"
    proof (cases "array_elems arrays u")
      case None
      then obtain e where "expand arrays env u = Some e" "y = [e]" using y by (auto split: bind_splits)
      then show ?thesis using 12(1) [OF u None] by simp
    next
      case (Some es)
      then show ?thesis using y array_elems_flat by simp
    qed
  qed
  then have "list_all flat (concat items)" by (auto simp: list_all_iff)
  then show ?case using n' flat_pairs by simp
next
  case (13 arrays env e items)
  obtain e' items' where "expand arrays env e = Some e'"
      "those (map (expand_item arrays env) items) = Some items'" "n' = Dist e' items'"
    using 13(3) by (auto split: bind_splits)
  then show ?case using 13(1) those_all [where P = flat_item, OF _ 13(2)] by fastforce
qed (auto split: bind_splits option.splits)

text \<open>C33. Expansion has a type: whatever it returns contains no loop, no \<open>unique\<close> and no array
  reference, so that only the distributions are left to be lowered before evaluation.\<close>

theorem expand_flat:
  assumes "expand arrays env n = Some n'"
  shows "flat n'"
  using assms by (rule expand_is_flat)

lemma expand_flat_witness:
  "flat (Binop ''&&'' (Num 1) (Binop ''!='' (Field ''a__0'') (Field ''a__1'')))"
  by (rule expand_flat [where arrays = "[''a'' \<mapsto> (2, 4)]" and env = no_env and n = "Unique [Field ''a'']"])
    code_simp

subsection \<open>Distributions\<close>

text \<open>The range of an item, and membership in it\<close>

definition in_item :: "env \<Rightarrow> int \<Rightarrow> item \<Rightarrow> bool" where
  "in_item env x it = (case it of Item lo hi wt k \<Rightarrow>
     (case (ev lo env, ev hi env) of (Some l, Some h) \<Rightarrow> l \<le> x \<and> x \<le> h | _ \<Rightarrow> False))"

lemma ev_in_range:
  assumes "ev (Binop ''&&'' (Binop ''>='' e lo) (Binop ''<='' e hi)) env = Some v" and "ev e env = Some x"
  shows "v = of_bool (in_item env x (Item lo hi wt k))"
  using assms by (auto simp: in_item_def ev_bin_def split: bind_splits)

lemma lower_dist_foldl:
  assumes "ev (foldl (\<lambda>out it. case it of Item lo hi wt k \<Rightarrow>
       Binop ''||'' out (Binop ''&&'' (Binop ''>='' e lo) (Binop ''<='' e hi))) z items) env = Some v"
    and "items \<noteq> [] \<Longrightarrow> ev e env = Some x"
  shows "\<exists>y. ev z env = Some y \<and> (v \<noteq> 0 \<longleftrightarrow> y \<noteq> 0 \<or> list_ex (in_item env x) items)"
  using assms
proof (induction items arbitrary: z v)
  case (Cons it items)
  obtain lo hi wt k where it: "it = Item lo hi wt k" by (cases it)
  let ?r = "Binop ''&&'' (Binop ''>='' e lo) (Binop ''<='' e hi)"
  obtain y where y: "ev (Binop ''||'' z ?r) env = Some y"
      "v \<noteq> 0 \<longleftrightarrow> y \<noteq> 0 \<or> list_ex (in_item env x) items"
    using Cons.IH [of "Binop ''||'' z ?r" v] Cons.prems by (auto simp: it)
  obtain a b where ab: "ev z env = Some a" "ev ?r env = Some b" "ev_bin ''||'' a b = Some y"
    using y(1) by (auto simp del: ev.simps(9) simp: ev.simps(9) [of "''||''"] split: bind_splits)
  have "b = of_bool (in_item env x it)" using ev_in_range [OF ab(2)] Cons.prems(2) it by simp
  moreover have "y = of_bool (a \<noteq> 0 \<or> b \<noteq> 0)" using ab(3) by (auto simp: ev_bin_def split: bind_splits)
  ultimately show ?case using y(2) ab(1) by auto
qed simp

text \<open>C34. Lowering a distribution keeps its legality: where the lowered node has a value, it is true
  exactly if the value of the expression lies in the range of one of the items.\<close>

theorem lower_dist_legal:
  assumes "ev (lower_dist (Dist e items)) env = Some v" and "ev e env = Some x"
  shows "v \<noteq> 0 \<longleftrightarrow> list_ex (in_item env x) items"
  using lower_dist_foldl [of e "Num 0" items env v x] assms by simp

lemma lower_dist_legal_witness:
  "(1::int) \<noteq> 0 \<longleftrightarrow> list_ex (in_item [''a'' \<mapsto> 4] 4)
     [Item (Num 0) (Num 0) (Num 1) ''='', Item (Num 3) (Num 5) (Num 2) ''/'']"
  by (rule lower_dist_legal [where e = "Field ''a''"]) code_simp+

subsection \<open>Errors\<close>

text \<open>
  Why an expression has no value: an unbound name, an array element (\<open>expand\<close> replaces those), a select
  with a negative shift count, or a negative right operand, whatever the operator is, because the table of
  the operators computes both shifts always. Only the operands that are evaluated count: the conclusion
  of an implication is not when the premise is 0, nor the upper bound of a range below its lower one.
\<close>

fun faults :: "env \<Rightarrow> cnode \<Rightarrow> bool" where
  "faults env (Num v) = False"
| "faults env (Field x) = (x \<notin> dom env)"
| "faults env (Bit_sel x i) = (x \<notin> dom env \<or> i < 0)"
| "faults env (Part_sel x hi lo) = (x \<notin> dom env \<or> lo < 0 \<or> hi + 1 < lo)"
| "faults env (Unop op e) = faults env e"
| "faults env (Binop op a b) = (faults env a \<or> faults env b \<or> the (ev b env) < 0)"
| "faults env (Impl a b) = (faults env a \<or> the (ev a env) \<noteq> 0 \<and> faults env b)"
| "faults env (Inrange e lo hi) =
     (faults env e \<or> faults env lo \<or> the (ev lo env) \<le> the (ev e env) \<and> faults env hi)"
| "faults env (Inset e vs) = (faults env e \<or> list_ex (faults env) vs)"
| "faults env _ = True"

text \<open>The nodes that the expression parser builds: every operator has an entry in the evaluator's table.\<close>

fun ops_known :: "cnode \<Rightarrow> bool" where
  "ops_known (Unop op e) = (op \<in> {''!'', ''~'', ''-''} \<and> ops_known e)"
| "ops_known (Binop op a b) = (PREC op \<noteq> None \<and> op \<noteq> ''->'' \<and> ops_known a \<and> ops_known b)"
| "ops_known (Impl a b) = (ops_known a \<and> ops_known b)"
| "ops_known (Inrange e lo hi) = (ops_known e \<and> ops_known lo \<and> ops_known hi)"
| "ops_known (Inset e vs) = (ops_known e \<and> list_all ops_known vs)"
| "ops_known (Foreach _ _ _) = False"
| "ops_known (Unique _) = False"
| "ops_known (Dist _ _) = False"
| "ops_known _ = True"

lemma ev_bin_known: "PREC op \<noteq> None \<Longrightarrow> op \<noteq> ''->'' \<Longrightarrow> ev_bin op x y = None \<longleftrightarrow> y < 0"
  by (auto simp: ev_bin_def PREC_def shl_def shr_def split: if_splits)

lemma ev_un_known: "op \<in> {''!'', ''~'', ''-''} \<Longrightarrow> ev_un op x \<noteq> None"
  by (auto simp: ev_un_def)

lemma those_None_iff: "those xs = None \<longleftrightarrow> None \<in> set xs"
  by (induction xs) (auto split: option.splits)

lemma ev_faults: "ops_known e \<Longrightarrow> ev e env = None \<longleftrightarrow> faults env e"
proof (induction e env rule: ev.induct)
  case (3 x i env)
  then show ?case by (auto simp: shr_def domIff split: bind_splits)
next
  case (4 x hi lo env)
  then show ?case by (auto simp: shr_def shl_def ones_def domIff split: bind_splits)
next
  case (5 op e env)
  then show ?case using ev_un_known [of op] by (cases "ev e env") auto
next
  case (6 e lo hi env)
  then show ?case by (cases "ev e env"; cases "ev lo env"; cases "ev hi env") auto
next
  case (7 e vs env)
  show ?case
  proof (cases "ev e env")
    case None
    then show ?thesis using 7 by simp
  next
    case (Some x)
    have "ev v env = None \<longleftrightarrow> faults env v" if "v \<in> set vs" for v
      using 7(2) [OF Some that] 7(3) that by (simp add: list_all_iff)
    then have "None \<in> set (map (\<lambda>v. ev v env) vs) \<longleftrightarrow> list_ex (faults env) vs"
      by (simp add: list_ex_iff image_iff eq_commute [of None])
    moreover have "\<not> faults env e" using 7(1,3) Some by simp
    ultimately show ?thesis using Some those_None_iff [of "map (\<lambda>v. ev v env) vs"]
      by (cases "those (map (\<lambda>v. ev v env) vs)") auto
  qed
next
  case (8 a b env)
  then show ?case by (cases "ev a env") auto
next
  case (9 op a b env)
  then show ?case using ev_bin_known [of op] by (cases "ev a env"; cases "ev b env") auto
qed (auto simp: domIff)

text \<open>The parser builds such nodes only.\<close>

lemma and_then_Returned: "and_then r f = Returned y \<longleftrightarrow> (\<exists>x. r = Returned x \<and> f x = Returned y)"
  by (cases r) auto

definition builds_known :: "expr_parser \<Rightarrow> bool" where
  "builds_known pe \<longleftrightarrow> (\<forall>m ts e r. pe m ts = Returned (e, r) \<longrightarrow> ops_known e)"

lemma builds_knownD: "builds_known pe \<Longrightarrow> pe m ts = Returned (e, r) \<Longrightarrow> ops_known e"
  unfolding builds_known_def by blast

lemma more_exprs_known:
  assumes "builds_known pe"
  shows "more_exprs pe k ts = Returned (es, r) \<Longrightarrow> list_all ops_known es"
proof (induction k arbitrary: ts es r)
  case (Suc k)
  then show ?case
    by (auto simp: and_then_Returned split: if_splits dest: builds_knownD [OF assms])
qed simp

lemma parse_inside_known:
  assumes "builds_known pe" "ops_known left" "parse_inside pe k left ts = Returned (e, r)"
  shows "ops_known e"
  using assms(2,3) unfolding parse_inside_def parse_range_def
  by (auto simp: and_then_Returned split: if_splits dest: builds_knownD [OF assms(1)] more_exprs_known [OF assms(1)])

lemma parse_select_known:
  assumes "builds_known pe" "parse_select arrays pe v ts = Returned (e, r)"
  shows "ops_known e"
  using assms(2) unfolding parse_select_def
  by (auto simp: and_then_Returned split: if_splits dest: builds_knownD [OF assms(1)])

lemma parse_primary_known:
  assumes "builds_known pe" "parse_primary arrays pe k ts = Returned (e, r)"
  shows "ops_known e"
proof -
  obtain t r0 where ts: "ts = t # r0" using assms(2) by (cases ts) (auto simp: parse_primary_def)
  show ?thesis
  proof (cases t)
    case (ID v)
    obtain b node r1 c where node: "(if b then parse_select arrays pe v r0 else Returned (Field v, r0)) = Returned (node, r1)"
      and ins: "(if c then and_then (nextok r1) (\<lambda>(_, ts). parse_inside pe k node ts) else Returned (node, r1)) = Returned (e, r)"
      using assms(2) unfolding ts parse_primary_def ID by (simp add: and_then_Returned split_beta) (simp only: fst_conv snd_conv, blast)
    have "ops_known node" using node parse_select_known [OF assms(1)] by (cases b) auto
    then show ?thesis using ins parse_inside_known [OF assms(1)]
      by (cases c) (auto simp: and_then_Returned split: prod.splits)
  next
    case (OP x)
    then show ?thesis using assms(2) ts
      by (auto simp: parse_primary_def and_then_Returned split: if_splits dest: builds_knownD [OF assms(1)])
  qed (use assms(2) ts in \<open>auto simp: parse_primary_def\<close>)
qed

lemma parse_unary_known:
  assumes "builds_known pe"
  shows "parse_unary arrays pe k ts = Returned (e, r) \<Longrightarrow> ops_known e"
proof (induction k arbitrary: ts e r)
  case (Suc k)
  then show ?case
    by (auto simp: and_then_Returned split: if_splits dest: parse_primary_known [OF assms])
qed simp

lemma expr_loop_known:
  assumes "builds_known pe"
  shows "ops_known left \<Longrightarrow> expr_loop pe k minp left ts = Returned (e, r) \<Longrightarrow> ops_known e"
proof (induction k arbitrary: left ts)
  case (Suc k)
  then show ?case
    by (auto simp: and_then_Returned split: if_splits option.splits
        dest: builds_knownD [OF assms] parse_inside_known [OF assms] elim!: Suc.IH [rotated])
qed simp

lemma parse_expr_known: "builds_known (parse_expr arrays k)"
proof (induction k)
  case (Suc k)
  then show ?case
    unfolding builds_known_def [of "parse_expr arrays (Suc k)"]
    by (auto simp: and_then_Returned simp del: parse_unary.simps expr_loop.simps
        dest: parse_unary_known [OF Suc] expr_loop_known [OF Suc, rotated])
qed (simp add: builds_known_def)

text \<open>C35. An expression that the parser returned has no value exactly if a name, a select or a right operand
  that is evaluated is at fault; an operator that the evaluator does not know cannot occur.\<close>

theorem parsed_raises:
  assumes "parse_expr arrays k minp ts = Returned (e, rest)"
  shows "ev e env = None \<longleftrightarrow> faults env e"
  by (rule ev_faults [OF builds_knownD [OF parse_expr_known assms]])

lemma parsed_raises_witness:
  "ev (Binop ''+'' (Field ''a'') (Unop ''-'' (Num 1))) [''a'' \<mapsto> 2] = None \<longleftrightarrow>
     faults [''a'' \<mapsto> 2] (Binop ''+'' (Field ''a'') (Unop ''-'' (Num 1)))"
proof (rule parsed_raises)
  show "parse_expr Map.empty 6 0 [ID ''a'', OP ''+'', OP ''-'', NUM 1, EOF] =
      Returned (Binop ''+'' (Field ''a'') (Unop ''-'' (Num 1)), [EOF])"
    by code_simp
qed

end
