(* ===== verification/Word_Mc.thy ===== *)
theory Word_Mc
  imports Smt_Term Query
begin

unbundle bit_operations_syntax

text \<open>
  The word-level model checker \<open>word.py\<close>: width inference, the bit-blaster with its read-over-write
  treatment of memories (class \<open>_Blaster\<close>), the word-level transition systems (class \<open>WordTS\<close>), and
  bounded model checking and induction over them. The blaster's record carries the counter of the
  node identities. A width is a natural number, so that an extraction whose bounds are reversed
  (for which Python would compute a negative width) raises; Python's iteration over the set of the
  names is an order that \<open>wbmc\<close> takes as an argument.
\<close>

subsection \<open>Widths\<close>

datatype wsort = Word_sort nat | Mem_sort nat nat   \<comment> \<open>address width, data width\<close>

type_synonym wenv = "string \<rightharpoonup> wsort"

fun mem_dw :: "wenv \<Rightarrow> trm \<Rightarrow> nat option" where
  "mem_dw wenv (TStore a i v) = mem_dw wenv a"
| "mem_dw wenv (TVar x) = (case wenv x of Some (Mem_sort aw dw) \<Rightarrow> Some dw | _ \<Rightarrow> None)"
| "mem_dw wenv _ = None"

fun mem_aw :: "wenv \<Rightarrow> trm \<Rightarrow> nat option" where
  "mem_aw wenv (TStore a i v) = mem_aw wenv a"
| "mem_aw wenv (TVar x) = (case wenv x of Some (Mem_sort aw dw) \<Rightarrow> Some aw | _ \<Rightarrow> None)"
| "mem_aw wenv _ = None"

fun maxw :: "nat option \<Rightarrow> nat option \<Rightarrow> nat option" where
  "maxw None b = b"
| "maxw a None = a"
| "maxw (Some a) (Some b) = Some (max a b)"

text \<open>The outer option is an exception, the inner one Python's \<open>None\<close>, no width of its own.\<close>

fun width_of :: "wenv \<Rightarrow> trm \<Rightarrow> nat option option" where
  "width_of wenv (TVar x) =
     (case wenv x of None \<Rightarrow> None | Some (Mem_sort _ _) \<Rightarrow> Some None | Some (Word_sort w) \<Rightarrow> Some (Some w))"
| "width_of wenv (TConst v) = Some None"
| "width_of wenv (TCmp k a b) = Some (Some 1)"
| "width_of wenv (TExtract a hi lo) = (if lo \<le> hi + 1 then Some (Some (hi + 1 - lo)) else None)"
| "width_of wenv (TZext a w) = Some (Some w)"
| "width_of wenv (TConcat ts) =
     do { ws \<leftarrow> those (map (width_of wenv) ts); vs \<leftarrow> those ws; Some (Some (sum_list vs)) }"
| "width_of wenv (TSelect a i) = do { dw \<leftarrow> mem_dw wenv a; Some (Some dw) }"
| "width_of wenv (TIte c a b) = do { x \<leftarrow> width_of wenv a; y \<leftarrow> width_of wenv b; Some (maxw x y) }"
| "width_of wenv (TNot a) = width_of wenv a"
| "width_of wenv (TAdd ts) = do { ws \<leftarrow> those (map (width_of wenv) ts); Some (foldl maxw None ws) }"
| "width_of wenv (TSub a b) = do { x \<leftarrow> width_of wenv a; y \<leftarrow> width_of wenv b; Some (maxw x y) }"
| "width_of wenv (TMul a b) = do { x \<leftarrow> width_of wenv a; y \<leftarrow> width_of wenv b; Some (maxw x y) }"
| "width_of wenv (TBit k a b) = do { x \<leftarrow> width_of wenv a; y \<leftarrow> width_of wenv b; Some (maxw x y) }"
| "width_of wenv (TNeg a) = width_of wenv a"
| "width_of wenv (TShift k a b) = do { x \<leftarrow> width_of wenv a; y \<leftarrow> width_of wenv b; Some (maxw x y) }"
| "width_of wenv (TStore a i v) = None"

text \<open>\<open>w or d\<close>: a width of 0 counts as missing.\<close>

fun orw :: "nat option \<Rightarrow> nat option \<Rightarrow> nat option" where
  "orw (Some (Suc w)) d = Some (Suc w)"
| "orw _ d = d"

subsection \<open>The blaster\<close>

record blaster =
  bl_s :: solver
  bl_wenv :: wenv
  bl_env :: "string \<rightharpoonup> bv"
  bl_tenv :: env
  bl_reads :: "string \<rightharpoonup> (bv \<times> bv) list"
  bl_memo :: lit_memo
  bl_ids :: nat

definition Blaster :: "solver \<Rightarrow> nat \<Rightarrow> blaster" where
  "Blaster s n = \<lparr>bl_s = s, bl_wenv = Map.empty, bl_env = Map.empty, bl_tenv = Map.empty,
     bl_reads = Map.empty, bl_memo = Map.empty, bl_ids = n\<rparr>"

definition gate :: "'a alloc \<Rightarrow> blaster \<Rightarrow> 'a \<times> blaster" where   \<comment> \<open>build gates\<close>
  "gate m B = (let (x, n) = run_state m (bl_ids B) in (x, B\<lparr>bl_ids := n\<rparr>))"

primrec leaf_lits :: "string list \<Rightarrow> blaster \<Rightarrow> blaster" where
  "leaf_lits [] B = B"
| "leaf_lits (x # xs) B =
     (let (v, s) = new_var (bl_s B)
      in leaf_lits xs (B\<lparr>bl_s := s, bl_tenv := (bl_tenv B)(x \<mapsto> int v)\<rparr>))"

definition fresh_bv :: "string \<Rightarrow> nat \<Rightarrow> blaster \<Rightarrow> bv \<times> blaster" where
  "fresh_bv x w B = (let (b, B) = gate (bv_var x w) B in (b, leaf_lits (map (bit_name x) [0..<w]) B))"

definition fit :: "bv \<Rightarrow> nat option \<Rightarrow> bv" where
  "fit b w = (case w of None \<Rightarrow> b
     | Some w \<Rightarrow> if length b = w then b else take w b @ replicate (w - length b) FALSE_s)"

definition b_lit :: "sig \<Rightarrow> blaster \<Rightarrow> (int \<times> blaster) option" where
  "b_lit g B =
     do { (l, memo, s) \<leftarrow> tseitin add_clause g (bl_tenv B) (bl_memo B) (bl_s B);
          Some (l, B\<lparr>bl_memo := memo, bl_s := s\<rparr>) }"

definition b_assert :: "sig \<Rightarrow> blaster \<Rightarrow> blaster option" where
  "b_assert g B = do { (l, B) \<leftarrow> b_lit g B; Some (B\<lparr>bl_s := snd (add_clause [l] (bl_s B))\<rparr>) }"

text \<open>Equal addresses read equal values.\<close>

primrec congruent_reads :: "bv \<Rightarrow> bv \<Rightarrow> (bv \<times> bv) list \<Rightarrow> blaster \<Rightarrow> blaster option" where
  "congruent_reads j rv [] B = Some B"
| "congruent_reads j rv (r # rl) B =
     (case r of (jk, rk) \<Rightarrow>
        let (g, B) = gate (do { e \<leftarrow> bv_eq j jk; ne \<leftarrow> NOT_s e; v \<leftarrow> bv_eq rv rk; OR_s [ne, v] }) B
        in do { B \<leftarrow> b_assert g B; congruent_reads j rv rl B })"

definition read_name :: "string \<Rightarrow> nat \<Rightarrow> string" where
  "read_name x k = ''__rd_'' @ map (\<lambda>c. if c = CHR ''@'' then CHR ''_'' else c) x @ ''_'' @ show_nat k"

definition read_base :: "string \<Rightarrow> bv \<Rightarrow> blaster \<Rightarrow> (bv \<times> blaster) option" where
  "read_base x j B =
     (case bl_wenv B x of
        Some (Mem_sort aw dw) \<Rightarrow>
          let rl = (case bl_reads B x of None \<Rightarrow> [] | Some rl \<Rightarrow> rl);
              (rv, B) = fresh_bv (read_name x (length rl)) dw B
          in do { B \<leftarrow> congruent_reads j rv rl B; Some (rv, B\<lparr>bl_reads := (bl_reads B)(x \<mapsto> rl @ [(j, rv)])\<rparr>) }
      | _ \<Rightarrow> None)"

text \<open>Unsigned comparison by the borrow of a subtraction\<close>

primrec borrow_bits :: "sig \<Rightarrow> (sig \<times> sig) list \<Rightarrow> sig alloc" where
  "borrow_bits borrow [] = State_Monad.return borrow"
| "borrow_bits borrow (p # ps) =
     (case p of (x, y) \<Rightarrow>
        do { nx \<leftarrow> NOT_s x; a \<leftarrow> AND_s [nx, y]; d \<leftarrow> XOR_s x y; nd \<leftarrow> NOT_s d; c \<leftarrow> AND_s [borrow, nd];
             b \<leftarrow> OR_s [a, c]; borrow_bits b ps })"

definition ucmp :: "cmpop \<Rightarrow> bv \<Rightarrow> bv \<Rightarrow> sig alloc" where
  "ucmp k a b =
     (let w = max (length a) (length b) in
      do { lt \<leftarrow> borrow_bits FALSE_s (zip (pad a w) (pad b w));
           if k = ULT_k then State_Monad.return lt
           else if k = UGE_k then NOT_s lt
           else do { nlt \<leftarrow> NOT_s lt; e \<leftarrow> bv_eq a b; ne \<leftarrow> NOT_s e; gt \<leftarrow> AND_s [nlt, ne];
                     if k = UGT_k then State_Monad.return gt else NOT_s gt } })"

text \<open>\<open>bits[amt:]\<close> and \<open>bits[:w]\<close>\<close>

definition py_drop :: "int \<Rightarrow> 'a list \<Rightarrow> 'a list" where
  "py_drop i xs = drop (nat (if i < 0 then max 0 (int (length xs) + i) else i)) xs"

definition take_opt :: "nat option \<Rightarrow> 'a list \<Rightarrow> 'a list" where
  "take_opt w xs = (case w of None \<Rightarrow> xs | Some w \<Rightarrow> take w xs)"

definition shift :: "shop \<Rightarrow> bv \<Rightarrow> trm \<Rightarrow> nat option \<Rightarrow> bv option" where
  "shift k a amt w =
     (case amt of
        TConst i \<Rightarrow> (case k of
          SHL_k \<Rightarrow> Some (take_opt w (replicate (nat i) FALSE_s @ a))
        | LSHR_k \<Rightarrow> Some (take_opt w (py_drop i a @ replicate (nat i) FALSE_s)))
      | _ \<Rightarrow> None)"

definition head_sig :: "bv \<times> blaster \<Rightarrow> (sig \<times> blaster) option" where
  "head_sig r = (case r of ([], B) \<Rightarrow> None | (x # xs, B) \<Rightarrow> Some (x, B))"

fun bit_gate :: "bitop \<Rightarrow> sig \<times> sig \<Rightarrow> sig alloc" where
  "bit_gate AND_k (x, y) = AND_s [x, y]"
| "bit_gate OR_k (x, y) = OR_s [x, y]"
| "bit_gate XOR_k (x, y) = XOR_s x y"

text \<open>The width a two-argument operator works at: \<open>w or width_of(t)\<close>\<close>

definition op_width :: "nat option \<Rightarrow> trm \<Rightarrow> blaster \<Rightarrow> nat option option" where
  "op_width w t B = (if orw w None = None then width_of (bl_wenv B) t else Some w)"

lemma size_list_rev: "size_list f (rev xs) = size_list f xs"
  by (induction xs) (simp_all add: size_list_append)

function go :: "trm \<Rightarrow> nat option \<Rightarrow> blaster \<Rightarrow> (bv \<times> blaster) option"
  and read_arr :: "trm \<Rightarrow> bv \<Rightarrow> blaster \<Rightarrow> (bv \<times> blaster) option"
  and go_concat :: "trm list \<Rightarrow> blaster \<Rightarrow> (bv \<times> blaster) option" where
  "go (TConst v) w B = Some (gate (bv_const v (the (orw w (Some 1)))) B)"
| "go (TVar x) w B = do { b \<leftarrow> bl_env B x; Some (fit b w, B) }"
| "go (TSelect a i) w B =
     do { aw \<leftarrow> mem_aw (bl_wenv B) a; (j, B) \<leftarrow> go i (Some aw) B; (v, B) \<leftarrow> read_arr a j B;
          Some (fit v w, B) }"
| "go (TExtract a hi lo) w B =
     do { (b, B) \<leftarrow> go a None B; Some (take (hi + 1 - lo) (drop lo b), B) }"
| "go (TConcat ts) w B = go_concat (rev ts) B"
| "go (TZext a n) w B = do { (b, B) \<leftarrow> go a None B; Some (fit b (Some n), B) }"
| "go (TIte c a b) w B =
     do { r \<leftarrow> go c (Some 1) B; (x, B) \<leftarrow> head_sig r;
          nw \<leftarrow> op_width w (TIte c a b) B;
          (y, B) \<leftarrow> go a nw B; (z, B) \<leftarrow> go b nw B; Some (gate (bv_ite x y z) B) }"
| "go (TCmp k a b) w B =
     do { wa \<leftarrow> width_of (bl_wenv B) a; wb \<leftarrow> width_of (bl_wenv B) b;
          let aw = orw (maxw wa wb) (orw w (Some 1));
          (x, B) \<leftarrow> go a aw B; (y, B) \<leftarrow> go b aw B;
          let (e, B) = gate (bv_eq x y) B;
          (case k of EQ_k \<Rightarrow> Some ([e], B)
           | NE_k \<Rightarrow> Some (apfst (\<lambda>g. [g]) (gate (NOT_s e) B))
           | _ \<Rightarrow> Some (apfst (\<lambda>g. [g]) (gate (ucmp k x y) B))) }"
| "go (TNot a) w B = do { (x, B) \<leftarrow> go a w B; Some (gate (alloc_map NOT_s x) B) }"
| "go (TNeg a) w B =
     do { nw \<leftarrow> op_width w (TNeg a) B; width \<leftarrow> nw;
          let (z, B) = gate (bv_const 0 width) B;
          (x, B) \<leftarrow> go a nw B; Some (gate (bv_sub z x nw) B) }"
| "go (TAdd []) w B = None"
| "go (TAdd [a]) w B = None"
| "go (TAdd (a # b # ts)) w B =
     do { nw \<leftarrow> op_width w (TAdd (a # b # ts)) B;
          (x, B) \<leftarrow> go a nw B; (y, B) \<leftarrow> go b nw B; Some (gate (bv_add x y nw) B) }"
| "go (TSub a b) w B =
     do { nw \<leftarrow> op_width w (TSub a b) B;
          (x, B) \<leftarrow> go a nw B; (y, B) \<leftarrow> go b nw B; Some (gate (bv_sub x y nw) B) }"
| "go (TMul a b) w B =
     do { nw \<leftarrow> op_width w (TMul a b) B;
          (x, B) \<leftarrow> go a nw B; (y, B) \<leftarrow> go b nw B; Some (gate (bv_mul x y nw) B) }"
| "go (TBit k a b) w B =
     do { nw \<leftarrow> op_width w (TBit k a b) B;
          (x, B) \<leftarrow> go a nw B; (y, B) \<leftarrow> go b nw B;
          Some (gate (alloc_map (bit_gate k) (zip x (fit y nw))) B) }"
| "go (TShift k a b) w B =
     do { nw \<leftarrow> op_width w (TShift k a b) B;
          (x, B) \<leftarrow> go a nw B; (y, B) \<leftarrow> go b nw B; r \<leftarrow> shift k x b nw; Some (r, B) }"
| "go (TStore a i v) w B = None"
| "read_arr (TStore a i v) j B =
     do { (ib, B) \<leftarrow> go i (Some (length j)) B;
          dw \<leftarrow> mem_dw (bl_wenv B) (TStore a i v);
          (vb, B) \<leftarrow> go v (Some dw) B;
          let (e, B) = gate (bv_eq ib (fit j (Some (length ib)))) B;
          (r, B) \<leftarrow> read_arr a j B;
          Some (gate (bv_ite e vb r) B) }"
| "read_arr (TVar x) j B = read_base x j B"
| "read_arr (TConst v) j B = None"
| "read_arr (TAdd ts) j B = None"
| "read_arr (TSub a b) j B = None"
| "read_arr (TNeg a) j B = None"
| "read_arr (TMul a b) j B = None"
| "read_arr (TSelect a i) j B = None"
| "read_arr (TIte c a b) j B = None"
| "read_arr (TBit k a b) j B = None"
| "read_arr (TNot a) j B = None"
| "read_arr (TCmp k a b) j B = None"
| "read_arr (TExtract a hi lo) j B = None"
| "read_arr (TConcat ts) j B = None"
| "read_arr (TZext a n) j B = None"
| "read_arr (TShift k a b) j B = None"
| "go_concat [] B = Some ([], B)"
| "go_concat (t # ts) B =
     do { (x, B) \<leftarrow> go t None B; (ys, B) \<leftarrow> go_concat ts B; Some (x @ ys, B) }"
  by pat_completeness auto

termination
  by (relation "measure (\<lambda>x. case x of
      Inl (t, w, B) \<Rightarrow> size t | Inr (Inl (t, j, B)) \<Rightarrow> size t | Inr (Inr (ts, B)) \<Rightarrow> size_list size ts)")
    (auto simp: size_list_rev)

subsection \<open>Transition systems\<close>

record word_ts =
  wt_name :: string
  wt_widths :: "(string \<times> wsort) list"     \<comment> \<open>a dictionary, in insertion order\<close>
  wt_inputs :: "string list"
  wt_state :: "string list"
  wt_init :: "string \<rightharpoonup> trm"
  wt_next :: "string \<rightharpoonup> trm"
  wt_prop :: "trm option"
  wt_assumptions :: "trm list"

definition WordTS :: "string \<Rightarrow> word_ts" where
  "WordTS x = \<lparr>wt_name = x, wt_widths = [], wt_inputs = [], wt_state = [], wt_init = Map.empty,
     wt_next = Map.empty, wt_prop = None, wt_assumptions = []\<rparr>"

text \<open>A dictionary assignment under a key that may be missing\<close>

definition put_opt :: "'a \<Rightarrow> 'b option \<Rightarrow> ('a \<rightharpoonup> 'b) \<Rightarrow> ('a \<rightharpoonup> 'b)" where
  "put_opt x v m = (case v of None \<Rightarrow> m | Some y \<Rightarrow> m(x \<mapsto> y))"

definition add_word :: "string \<Rightarrow> nat \<Rightarrow> trm option \<Rightarrow> trm option \<Rightarrow> word_ts \<Rightarrow> word_ts" where
  "add_word x w ini nxt ts =
     ts\<lparr>wt_widths := AList.update x (Word_sort w) (wt_widths ts), wt_state := wt_state ts @ [x],
        wt_init := put_opt x ini (wt_init ts), wt_next := put_opt x nxt (wt_next ts)\<rparr>"

definition add_mem :: "string \<Rightarrow> nat \<Rightarrow> nat \<Rightarrow> trm option \<Rightarrow> word_ts \<Rightarrow> word_ts" where
  "add_mem x aw dw nxt ts =
     ts\<lparr>wt_widths := AList.update x (Mem_sort aw dw) (wt_widths ts), wt_state := wt_state ts @ [x],
        wt_next := put_opt x nxt (wt_next ts)\<rparr>"

definition add_word_input :: "string \<Rightarrow> nat \<Rightarrow> word_ts \<Rightarrow> word_ts" where
  "add_word_input x w ts =
     ts\<lparr>wt_widths := AList.update x (Word_sort w) (wt_widths ts), wt_inputs := wt_inputs ts @ [x]\<rparr>"

definition at_frame :: "string \<Rightarrow> nat \<Rightarrow> string" where   \<comment> \<open>\<open>x@frame\<close>\<close>
  "at_frame x f = x @ ''@'' @ show_nat f"

text \<open>\<open>_subst_cur\<close>: a name is replaced by its current term. \<open>_rename\<close> is the case of tagged names.\<close>

function subst_cur :: "(string \<rightharpoonup> trm) \<Rightarrow> trm \<Rightarrow> trm" where
  "subst_cur cur t =
     (case t of
        TVar x \<Rightarrow> (case cur x of Some u \<Rightarrow> u | None \<Rightarrow> t)
      | _ \<Rightarrow> if targs t \<noteq> [] then with_args t (map (subst_cur cur) (targs t)) else t)"
  by auto
termination
  by (relation "measure (\<lambda>(_, t). size t)")
    (auto simp: less_Suc_eq_le intro: size_list_estimation' [OF _ order_refl])

declare subst_cur.simps [simp del]

definition rename :: "nat \<Rightarrow> string set \<Rightarrow> trm \<Rightarrow> trm" where
  "rename f names t = subst_cur (\<lambda>x. if x \<in> names then Some (TVar (at_frame x f)) else None) t"

definition is_mem :: "word_ts \<Rightarrow> string \<Rightarrow> bool option" where   \<comment> \<open>\<open>isinstance(ts.widths[n], tuple)\<close>\<close>
  "is_mem ts x = map_option (\<lambda>d. case d of Mem_sort _ _ \<Rightarrow> True | _ \<Rightarrow> False) (map_of (wt_widths ts) x)"

definition word_width :: "word_ts \<Rightarrow> string \<Rightarrow> nat option" where
  "word_width ts x = (case map_of (wt_widths ts) x of Some (Word_sort w) \<Rightarrow> Some w | _ \<Rightarrow> None)"

text \<open>\<open>alloc(frame)\<close>\<close>

primrec alloc_words :: "nat \<Rightarrow> (string \<times> wsort) list \<Rightarrow> blaster \<Rightarrow> blaster" where
  "alloc_words f [] B = B"
| "alloc_words f (d # ds) B =
     (let tag = at_frame (fst d) f; B = B\<lparr>bl_wenv := (bl_wenv B)(tag \<mapsto> snd d)\<rparr>
      in case snd d of
           Mem_sort _ _ \<Rightarrow> alloc_words f ds B
         | Word_sort w \<Rightarrow>
             let (b, B) = fresh_bv tag w B in alloc_words f ds (B\<lparr>bl_env := (bl_env B)(tag \<mapsto> b)\<rparr>))"

definition alloc_frame :: "word_ts \<Rightarrow> nat \<Rightarrow> blaster \<Rightarrow> blaster" where
  "alloc_frame ts f B = alloc_words f (wt_widths ts) B"

text \<open>\<open>B._assert(bv_eq(B.env[tag], B.go(t, width)))\<close>\<close>

definition pin_word :: "string \<Rightarrow> trm \<Rightarrow> nat \<Rightarrow> blaster \<Rightarrow> blaster option" where
  "pin_word tag t w B =
     do { b \<leftarrow> bl_env B tag; (x, B) \<leftarrow> go t (Some w) B; let (e, B) = gate (bv_eq b x) B; b_assert e B }"

text \<open>\<open>B.sig(t)\<close>, and its assertion\<close>

definition b_sig :: "trm \<Rightarrow> blaster \<Rightarrow> (sig \<times> blaster) option" where
  "b_sig t B = do { r \<leftarrow> go t (Some 1) B; head_sig r }"

definition assert_term :: "(string \<rightharpoonup> trm) \<Rightarrow> trm \<Rightarrow> blaster \<Rightarrow> blaster option" where
  "assert_term cur t B = do { (g, B) \<leftarrow> b_sig (subst_cur cur t) B; b_assert g B }"

primrec assert_terms :: "(string \<rightharpoonup> trm) \<Rightarrow> trm list \<Rightarrow> blaster \<Rightarrow> blaster option" where
  "assert_terms cur [] B = Some B"
| "assert_terms cur (t # ts) B = do { B \<leftarrow> assert_term cur t B; assert_terms cur ts B }"

text \<open>The query for the negated property: \<open>s.solve([B.lit(NOT(B.sig(...)))])\<close>\<close>

definition solve_bad :: "(string \<rightharpoonup> trm) \<Rightarrow> trm option \<Rightarrow> blaster \<Rightarrow> (bool \<times> blaster) option" where
  "solve_bad cur prop B =
     do { p \<leftarrow> prop; (g, B) \<leftarrow> b_sig (subst_cur cur p) B;
          let (bad, B) = gate (NOT_s g) B;
          (l, B) \<leftarrow> b_lit bad B;
          (sat, s) \<leftarrow> solve [l] (bl_s B);
          Some (sat, B\<lparr>bl_s := s\<rparr>) }"

subsection \<open>Bounded model checking\<close>

primrec pin_inits :: "word_ts \<Rightarrow> string list \<Rightarrow> blaster \<Rightarrow> blaster option" where
  "pin_inits ts [] B = Some B"
| "pin_inits ts (x # xs) B =
     (case wt_init ts x of
        None \<Rightarrow> pin_inits ts xs B
      | Some i \<Rightarrow> do {
          mem \<leftarrow> is_mem ts x;
          if mem then pin_inits ts xs B
          else do { w \<leftarrow> word_width ts x;
                    B \<leftarrow> pin_word (at_frame x 0) (rename 0 (fst ` set (wt_widths ts)) i) w B;
                    pin_inits ts xs B } })"

text \<open>One frame further: the terms of the names at the next frame, in the order of the set.\<close>

primrec advance :: "word_ts \<Rightarrow> nat \<Rightarrow> (string \<rightharpoonup> trm) \<Rightarrow> string list \<Rightarrow> (string \<rightharpoonup> trm) \<Rightarrow> blaster \<Rightarrow>
    ((string \<rightharpoonup> trm) \<times> blaster) option" where
  "advance ts f cur [] nxt B = Some (nxt, B)"
| "advance ts f cur (x # xs) nxt B =
     (if x \<in> set (wt_state ts) then
        (case wt_next ts x of
           Some t \<Rightarrow> do {
             let e = subst_cur cur t;
             mem \<leftarrow> is_mem ts x;
             if mem then advance ts f cur xs (nxt(x \<mapsto> e)) B
             else do { w \<leftarrow> word_width ts x; B \<leftarrow> pin_word (at_frame x (f + 1)) e w B;
                       advance ts f cur xs (nxt(x \<mapsto> TVar (at_frame x (f + 1)))) B } }
         | None \<Rightarrow> do { u \<leftarrow> cur x; advance ts f cur xs (nxt(x \<mapsto> u)) B })
      else advance ts f cur xs (nxt(x \<mapsto> TVar (at_frame x (f + 1)))) B)"

datatype word_result = W_CEX nat "(string \<times> nat) list option" | W_SAFE_UP_TO int

definition bit_value :: "blaster \<Rightarrow> sig \<Rightarrow> bool option" where
  "bit_value B g = (case g of
     SVar i x \<Rightarrow> do { l \<leftarrow> bl_tenv B x; Some (get_value (nat l) (bl_s B)) } | _ \<Rightarrow> Some False)"

definition word_value :: "blaster \<Rightarrow> bv \<Rightarrow> nat option" where
  "word_value B b =
     do { vs \<leftarrow> those (map (bit_value B) b);
          Some (fold (\<lambda>(i, v) n. if v then n OR push_bit i 1 else n) (zip [0 ..< length vs] vs) (0 :: nat)) }"

definition model_words :: "word_ts \<Rightarrow> nat \<Rightarrow> blaster \<Rightarrow> (string \<times> nat) list option" where
  "model_words ts frames B =
     those [map_option (Pair (at_frame x f)) (word_value B b).
       (x, d) \<leftarrow> wt_widths ts, (case d of Word_sort _ \<Rightarrow> True | _ \<Rightarrow> False), f \<leftarrow> [0..<frames],
       b \<leftarrow> (case bl_env B (at_frame x f) of None \<Rightarrow> [] | Some b \<Rightarrow> [b])]"

text \<open>The frames that are left; \<open>frames\<close> is their number \<open>k + 1\<close>, and the last one is not advanced.\<close>

primrec wbmc_frames :: "word_ts \<Rightarrow> int \<Rightarrow> string list \<Rightarrow> bool \<Rightarrow> nat list \<Rightarrow> (string \<rightharpoonup> trm) \<Rightarrow> blaster \<Rightarrow>
    word_result option" where
  "wbmc_frames ts k order want_model [] cur B = Some (W_SAFE_UP_TO k)"
| "wbmc_frames ts k order want_model (f # fs) cur B =
     do { B \<leftarrow> assert_terms cur (wt_assumptions ts) B;
          (sat, B) \<leftarrow> solve_bad cur (wt_prop ts) B;
          if sat then
            (if want_model then do { m \<leftarrow> model_words ts (nat (k + 1)) B; Some (W_CEX f (Some m)) }
             else Some (W_CEX f None))
          else if int f < k then do {
            (cur, B) \<leftarrow> advance ts f cur order Map.empty (alloc_frame ts (f + 1) B);
            wbmc_frames ts k order want_model fs cur B }
          else wbmc_frames ts k order want_model fs cur B }"

definition frame_terms :: "word_ts \<Rightarrow> nat \<Rightarrow> string \<rightharpoonup> trm" where
  "frame_terms ts f x = (if x \<in> fst ` set (wt_widths ts) then Some (TVar (at_frame x f)) else None)"

definition wbmc :: "word_ts \<Rightarrow> int \<Rightarrow> bool \<Rightarrow> string list \<Rightarrow> nat \<Rightarrow> word_result option" where
  "wbmc ts k want_model order n =
     do { B \<leftarrow> pin_inits ts (wt_state ts) (alloc_frame ts 0 (Blaster Solver n));
          wbmc_frames ts k order want_model [0..<nat (k + 1)] (frame_terms ts 0) B }"

subsection \<open>Induction\<close>

datatype wind_result = WI_CEX nat | WI_UNKNOWN nat | WI_SAFE nat

text \<open>The transition of one frame: words are pinned, the term of a memory is substituted.\<close>

primrec pin_nexts :: "word_ts \<Rightarrow> nat \<Rightarrow> (string \<rightharpoonup> trm) \<Rightarrow> string list \<Rightarrow> (string \<rightharpoonup> trm) \<Rightarrow> blaster \<Rightarrow>
    ((string \<rightharpoonup> trm) \<times> blaster) option" where
  "pin_nexts ts f cur [] nxt B = Some (nxt, B)"
| "pin_nexts ts f cur (x # xs) nxt B =
     (case wt_next ts x of
        None \<Rightarrow> pin_nexts ts f cur xs nxt B
      | Some t \<Rightarrow> do {
          mem \<leftarrow> is_mem ts x;
          if mem then pin_nexts ts f cur xs (nxt(x \<mapsto> subst_cur cur t)) B
          else do { w \<leftarrow> word_width ts x;
                    B \<leftarrow> pin_word (at_frame x (f + 1)) (subst_cur cur t) w B;
                    pin_nexts ts f cur xs nxt B } })"

primrec ind_frames :: "word_ts \<Rightarrow> nat list \<Rightarrow> (string \<rightharpoonup> trm) \<Rightarrow> blaster \<Rightarrow> ((string \<rightharpoonup> trm) \<times> blaster) option" where
  "ind_frames ts [] cur B = Some (cur, B)"
| "ind_frames ts (f # fs) cur B =
     do { (nxt, B) \<leftarrow> pin_nexts ts f cur (wt_state ts) (frame_terms ts (f + 1)) B;
          B \<leftarrow> assert_terms cur (wt_assumptions ts) B;
          p \<leftarrow> wt_prop ts;
          B \<leftarrow> assert_term cur p B;
          ind_frames ts fs nxt B }"

definition w_kinduction :: "word_ts \<Rightarrow> nat \<Rightarrow> string list \<Rightarrow> nat \<Rightarrow> wind_result option" where
  "w_kinduction ts k order n =
     do { base \<leftarrow> wbmc ts (int k - 1) False order n;
          case base of
            W_CEX d m \<Rightarrow> Some (WI_CEX d)
          | W_SAFE_UP_TO d \<Rightarrow> do {
              let B = foldl (\<lambda>B f. alloc_frame ts f B) (Blaster Solver n) [0..<k + 1];
              (cur, B) \<leftarrow> ind_frames ts [0..<k] (frame_terms ts 0) B;
              B \<leftarrow> assert_terms cur (wt_assumptions ts) B;
              (sat, B) \<leftarrow> solve_bad cur (wt_prop ts) B;
              Some (if sat then WI_UNKNOWN k else WI_SAFE k) } }"

subsection \<open>The comparison circuits\<close>

lemma builds_borrow_bits:
  "insert c (set (map fst ps) \<union> set (map snd ps)) \<subseteq> A \<union> {TRUE_s, FALSE_s} \<Longrightarrow>
   builds A (\<lambda>r. {r}) (borrow_bits c ps)
     (denotes (\<lambda>\<rho>. bvv \<rho> (map fst ps) < bvv \<rho> (map snd ps) + of_bool (sval \<rho> c))
        (bv_vars (map fst ps) \<union> bv_vars (map snd ps) \<union> svars c))"
proof (induction ps arbitrary: c A)
  case Nil
  then show ?case by (auto simp: denotes_def intro!: builds_return)
next
  case (Cons p ps)
  obtain x y where p: "p = (x, y)" by (cases p)
  let ?and = "\<lambda>xs. denotes (\<lambda>\<rho>. \<forall>z \<in> set xs. sval \<rho> z) (\<Union>z \<in> set xs. svars z)"
  have 1: "builds A (\<lambda>r. {r}) (NOT_s x) (denotes (\<lambda>\<rho>. \<not> sval \<rho> x) (svars x))"
    by (rule builds_NOT_in) (use Cons.prems p in auto)
  have 2: "builds (A \<union> {nx}) (\<lambda>r. {r}) (AND_s [nx, y]) (?and [nx, y])" for nx
    by (rule builds_AND_of) (use Cons.prems p in auto)
  have 3: "builds (A \<union> {nx} \<union> {a}) (\<lambda>r. {r}) (XOR_s x y)
      (denotes (\<lambda>\<rho>. sval \<rho> x \<noteq> sval \<rho> y) (svars x \<union> svars y))" for nx a
    by (rule builds_XOR_of) (use Cons.prems p in auto)
  have 4: "builds (A \<union> {nx} \<union> {a} \<union> {d}) (\<lambda>r. {r}) (NOT_s d) (denotes (\<lambda>\<rho>. \<not> sval \<rho> d) (svars d))" for nx a d
    by (rule builds_NOT_in) auto
  have 5: "builds (A \<union> {nx} \<union> {a} \<union> {d} \<union> {nd}) (\<lambda>r. {r}) (AND_s [c, nd]) (?and [c, nd])" for nx a d nd
    by (rule builds_AND_of) (use Cons.prems in auto)
  have 6: "builds (A \<union> {nx} \<union> {a} \<union> {d} \<union> {nd} \<union> {e}) (\<lambda>r. {r}) (OR_s [a, e])
      (denotes (\<lambda>\<rho>. \<exists>z \<in> set [a, e]. sval \<rho> z) (\<Union>z \<in> set [a, e]. svars z))" for nx a d nd e
    by (rule builds_OR_of) auto
  have 7: "builds (A \<union> {nx} \<union> {a} \<union> {d} \<union> {nd} \<union> {e} \<union> {b}) (\<lambda>r. {r}) (borrow_bits b ps)
     (denotes (\<lambda>\<rho>. bvv \<rho> (map fst (p # ps)) < bvv \<rho> (map snd (p # ps)) + of_bool (sval \<rho> c))
        (bv_vars (map fst (p # ps)) \<union> bv_vars (map snd (p # ps)) \<union> svars c))"
    if nx: "denotes (\<lambda>\<rho>. \<not> sval \<rho> x) (svars x) nx" and a: "?and [nx, y] a"
      and d: "denotes (\<lambda>\<rho>. sval \<rho> x \<noteq> sval \<rho> y) (svars x \<union> svars y) d"
      and nd: "denotes (\<lambda>\<rho>. \<not> sval \<rho> d) (svars d) nd" and e: "?and [c, nd] e"
      and b: "denotes (\<lambda>\<rho>. \<exists>z \<in> set [a, e]. sval \<rho> z) (\<Union>z \<in> set [a, e]. svars z) b" for nx a d nd e b
  proof -
    have b_val: "sval \<rho> b \<longleftrightarrow> \<not> sval \<rho> x \<and> sval \<rho> y \<or> sval \<rho> c \<and> sval \<rho> x = sval \<rho> y" for \<rho>
      using nx a d nd e b by (simp add: denotes_def)
    have "svars nx \<subseteq> svars x" "svars d \<subseteq> svars x \<union> svars y" using nx d by (simp_all add: denotes_def)
    then have "svars a \<subseteq> svars x \<union> svars y" "svars e \<subseteq> svars x \<union> svars y \<union> svars c"
      using a nd e by (auto simp: denotes_def)
    then have X: "svars b \<subseteq> svars x \<union> svars y \<union> svars c" using b by (auto simp: denotes_def)
    have 8: "builds (A \<union> {nx} \<union> {a} \<union> {d} \<union> {nd} \<union> {e} \<union> {b}) (\<lambda>r. {r}) (borrow_bits b ps)
     (denotes (\<lambda>\<rho>. bvv \<rho> (map fst ps) < bvv \<rho> (map snd ps) + of_bool (sval \<rho> b))
        (bv_vars (map fst ps) \<union> bv_vars (map snd ps) \<union> svars b))"
      by (rule Cons.IH) (use Cons.prems in auto)
    have v: "bvv \<rho> (map fst ps) < bvv \<rho> (map snd ps) + of_bool (sval \<rho> b) \<longleftrightarrow>
        bvv \<rho> (map fst (p # ps)) < bvv \<rho> (map snd (p # ps)) + of_bool (sval \<rho> c)" for \<rho>
      by (cases "sval \<rho> x"; cases "sval \<rho> y"; cases "sval \<rho> c") (simp_all add: b_val p, arith+)
    show ?thesis by (rule builds_sig_weaken [OF 8 _ v]) (use X p in auto)
  qed
  show ?case unfolding borrow_bits.simps p prod.case
    by (rule builds_bind [OF 1 builds_bind [OF 2 builds_bind [OF 3 builds_bind [OF 4
         builds_bind [OF 5 builds_bind [OF 6 7 [unfolded p]]]]]]])
qed

lemma builds_ult:
  assumes "set a \<union> set b \<subseteq> A \<union> {TRUE_s, FALSE_s}"
  shows "builds A (\<lambda>r. {r})
    (borrow_bits FALSE_s (zip (pad a (max (length a) (length b))) (pad b (max (length a) (length b)))))
    (denotes (\<lambda>\<rho>. bvv \<rho> a < bvv \<rho> b) (bv_vars a \<union> bv_vars b))"
proof -
  let ?w = "max (length a) (length b)"
  let ?z = "zip (pad a ?w) (pad b ?w)"
  have l: "length (pad a ?w) = length (pad b ?w)" by simp
  have z: "map fst ?z = pad a ?w" "map snd ?z = pad b ?w" using l by (simp_all only: map_fst_zip map_snd_zip)
  show ?thesis
    by (rule builds_sig_weaken [OF builds_borrow_bits [where A = A]])
      (use assms set_pad [of a ?w] set_pad [of b ?w] in \<open>unfold z, auto\<close>)
qed

lemma builds_ugt:
  assumes "set a \<union> set b \<subseteq> A" and lt: "denotes (\<lambda>\<rho>. bvv \<rho> a < bvv \<rho> b) (bv_vars a \<union> bv_vars b) lt"
  shows "builds (A \<union> {lt}) (\<lambda>r. {r}) (do { nlt \<leftarrow> NOT_s lt; e \<leftarrow> bv_eq a b; ne \<leftarrow> NOT_s e; AND_s [nlt, ne] })
    (denotes (\<lambda>\<rho>. bvv \<rho> b < bvv \<rho> a) (bv_vars a \<union> bv_vars b))"
proof -
  let ?eq = "denotes (\<lambda>\<rho>. bvv \<rho> a = bvv \<rho> b) (bv_vars a \<union> bv_vars b)"
  have 1: "builds (A \<union> {lt}) (\<lambda>r. {r}) (NOT_s lt) (denotes (\<lambda>\<rho>. \<not> sval \<rho> lt) (svars lt))"
    by (rule builds_NOT_in) auto
  have 2: "builds (A \<union> {lt} \<union> {nlt}) (\<lambda>r. {r}) (bv_eq a b) ?eq" for nlt
    by (rule builds_bv_eq) (use assms in auto)
  have 3: "builds (A \<union> {lt} \<union> {nlt} \<union> {e}) (\<lambda>r. {r}) (NOT_s e) (denotes (\<lambda>\<rho>. \<not> sval \<rho> e) (svars e))" for nlt e
    by (rule builds_NOT_in) auto
  have 4: "builds (A \<union> {lt} \<union> {nlt} \<union> {e} \<union> {ne}) (\<lambda>r. {r}) (AND_s [nlt, ne])
      (denotes (\<lambda>\<rho>. bvv \<rho> b < bvv \<rho> a) (bv_vars a \<union> bv_vars b))"
    if "denotes (\<lambda>\<rho>. \<not> sval \<rho> lt) (svars lt) nlt" "?eq e" "denotes (\<lambda>\<rho>. \<not> sval \<rho> e) (svars e) ne" for nlt e ne
    by (rule builds_sig_weaken [OF builds_AND_of [where A = "{nlt, ne}"]])
      (use that lt in \<open>auto simp: denotes_def\<close>)
  show ?thesis by (rule builds_bind [OF 1 builds_bind [OF 2 builds_bind [OF 3 4]]])
qed

lemma builds_NOT_denotes:
  "denotes f X g \<Longrightarrow> builds (A \<union> {g}) (\<lambda>r. {r}) (NOT_s g) (denotes (\<lambda>\<rho>. \<not> f \<rho>) X)"
  by (rule builds_sig_weaken [OF builds_NOT_in [where A = "{g}"]]) (auto simp: denotes_def)

text \<open>C36. The comparison circuits of the blaster compute the unsigned comparisons they are named after,
  for operands of any two widths (the shorter one is extended by zeros) under every valuation.\<close>

theorem ucmp_correct:
  "builds (set a \<union> set b) (\<lambda>r. {r}) (ucmp ULT_k a b)
     (denotes (\<lambda>\<rho>. bvv \<rho> a < bvv \<rho> b) (bv_vars a \<union> bv_vars b)) \<and>
   builds (set a \<union> set b) (\<lambda>r. {r}) (ucmp UGE_k a b)
     (denotes (\<lambda>\<rho>. bvv \<rho> b \<le> bvv \<rho> a) (bv_vars a \<union> bv_vars b)) \<and>
   builds (set a \<union> set b) (\<lambda>r. {r}) (ucmp UGT_k a b)
     (denotes (\<lambda>\<rho>. bvv \<rho> b < bvv \<rho> a) (bv_vars a \<union> bv_vars b)) \<and>
   builds (set a \<union> set b) (\<lambda>r. {r}) (ucmp ULE_k a b)
     (denotes (\<lambda>\<rho>. bvv \<rho> a \<le> bvv \<rho> b) (bv_vars a \<union> bv_vars b))"
proof -
  let ?A = "set a \<union> set b" and ?X = "bv_vars a \<union> bv_vars b"
  let ?lt = "\<lambda>\<rho>. bvv \<rho> a < bvv \<rho> b" and ?gt = "\<lambda>\<rho>. bvv \<rho> b < bvv \<rho> a"
  have lt: "builds ?A (\<lambda>r. {r})
      (borrow_bits FALSE_s (zip (pad a (max (length a) (length b))) (pad b (max (length a) (length b))))) (denotes ?lt ?X)"
    by (rule builds_ult) blast
  have 1: "builds (?A \<union> {l}) (\<lambda>r. {r}) (State_Monad.return l) (denotes ?lt ?X)" if "denotes ?lt ?X l" for l
    by (rule builds_return) (use that in auto)
  have 2: "builds (?A \<union> {l}) (\<lambda>r. {r}) (NOT_s l) (denotes (\<lambda>\<rho>. bvv \<rho> b \<le> bvv \<rho> a) ?X)" if "denotes ?lt ?X l" for l
    using builds_NOT_denotes [OF that] by (simp add: not_less)
  have gt: "builds (?A \<union> {l}) (\<lambda>r. {r}) (do { nlt \<leftarrow> NOT_s l; e \<leftarrow> bv_eq a b; ne \<leftarrow> NOT_s e; AND_s [nlt, ne] }) (denotes ?gt ?X)"
    if "denotes ?lt ?X l" for l
    by (rule builds_ugt [OF order_refl that])
  have 3: "builds (?A \<union> {l} \<union> {g}) (\<lambda>r. {r}) (State_Monad.return g) (denotes ?gt ?X)" if "denotes ?gt ?X g" for l g
    by (rule builds_return) (use that in auto)
  have 4: "builds (?A \<union> {l} \<union> {g}) (\<lambda>r. {r}) (NOT_s g) (denotes (\<lambda>\<rho>. bvv \<rho> a \<le> bvv \<rho> b) ?X)" if "denotes ?gt ?X g" for l g
    using builds_NOT_denotes [OF that] by (simp add: not_less)
  show ?thesis
    unfolding ucmp_def Let_def
    using builds_bind [OF lt 1] builds_bind [OF lt 2] builds_bind [OF lt builds_bind [OF gt 3]]
      builds_bind [OF lt builds_bind [OF gt 4]]
    by (simp add: State_Monad.bind_assoc)
qed

end
