(* ===== verification/Sec.thy ===== *)
theory Sec
  imports Smt_Array
begin

text \<open>
  Two clients of the SMT engine: the sequential equivalence of the pipelined ALU (\<open>sec.py\<close>), with the
  proof that the miter decides the equivalence and that the forwarding pipeline computes the in-order
  results, and the memory contracts (\<open>memproof.py\<close>). Registers are Python integers; a register outside
  \<open>range(nregs)\<close> has no initial value and raises KeyError. What the drivers print is left out.
\<close>

subsection \<open>The in-order reference\<close>

type_synonym instr = "int \<times> int \<times> int"   \<comment> \<open>\<open>(rd, rs1, rs2)\<close>\<close>

definition rf_init :: "int \<Rightarrow> int \<Rightarrow> trm option" where   \<comment> \<open>\<open>init[r]\<close>\<close>
  "rf_init nregs r = (if 0 \<le> r \<and> r < nregs then Some (TVar (''rf'' @ show_int r @ ''_init'')) else None)"

definition latest :: "instr list \<Rightarrow> int \<Rightarrow> nat list \<Rightarrow> nat option" where
  "latest program src js = find (\<lambda>j. fst (program ! j) = src) js"

definition arch :: "instr list \<Rightarrow> int \<Rightarrow> trm list \<Rightarrow> int \<Rightarrow> nat \<Rightarrow> trm option" where
  "arch program nregs seq src i =
     (if src = 0 then Some (TConst 0)
      else case latest program src (rev [0..<i]) of
        Some j \<Rightarrow> Some (seq ! j)
      | None \<Rightarrow> rf_init nregs src)"

primrec build_seq :: "instr list \<Rightarrow> int \<Rightarrow> instr list \<Rightarrow> trm list \<Rightarrow> trm list option" where
  "build_seq program nregs [] seq = Some seq"
| "build_seq program nregs (p # ps) seq =
     (case p of (rd, rs1, rs2) \<Rightarrow>
        do { a \<leftarrow> arch program nregs seq rs1 (length seq);
             b \<leftarrow> arch program nregs seq rs2 (length seq);
             build_seq program nregs ps (seq @ [TAdd [a, b]]) })"

subsection \<open>The pipeline\<close>

datatype sec_bug = No_mem_fwd | No_wb_fwd | Swap_operands

definition fwd :: "instr list \<Rightarrow> int \<Rightarrow> sec_bug option \<Rightarrow> trm list \<Rightarrow> int \<Rightarrow> nat \<Rightarrow> (trm \<times> string) option" where
  "fwd program nregs bug pip src i =
     (if src = 0 then Some (TConst 0, ''x0'')
      else if 1 \<le> i \<and> fst (program ! (i - 1)) = src \<and> bug \<noteq> Some No_mem_fwd then
        Some (pip ! (i - 1), ''MEM(I'' @ show_nat (i - 1) @ '')'')
      else if 2 \<le> i \<and> fst (program ! (i - 2)) = src \<and> bug \<noteq> Some No_wb_fwd then
        Some (pip ! (i - 2), ''WB(I'' @ show_nat (i - 2) @ '')'')
      else case latest program src (rev [0..<i - 2]) of
        Some j \<Rightarrow> Some (pip ! j, ''RF(I'' @ show_nat j @ '')'')
      | None \<Rightarrow> map_option (\<lambda>t. (t, ''RF(rf'' @ show_int src @ ''_init)'')) (rf_init nregs src))"

primrec build_pip :: "instr list \<Rightarrow> int \<Rightarrow> sec_bug option \<Rightarrow> instr list \<Rightarrow> trm list \<Rightarrow> string list \<Rightarrow>
    (trm list \<times> string list) option" where
  "build_pip program nregs bug [] pip ns = Some (pip, ns)"
| "build_pip program nregs bug (p # ps) pip ns =
     (case p of (rd, rs1, rs2) \<Rightarrow>
        do { (va, na) \<leftarrow> fwd program nregs bug pip rs1 (length pip);
             (vb, nb) \<leftarrow> fwd program nregs bug pip rs2 (length pip);
             let (va, vb) = (if bug = Some Swap_operands \<and> length pip = 1 then (vb, va) else (va, vb));
             build_pip program nregs bug ps (pip @ [TAdd [va, vb]])
               (ns @ [''I'' @ show_nat (length pip) @ '': r'' @ show_int rd @ '' = r'' @ show_int rs1 @ ''['' @ na
                 @ ''] + r'' @ show_int rs2 @ ''['' @ nb @ '']'']) })"

record sec_desc =
  sd_program :: "instr list"
  sd_notes :: "string list"
  sd_nmiter :: nat

definition build_sec :: "instr list \<Rightarrow> int \<Rightarrow> sec_bug option \<Rightarrow>
    (eq_atom list \<times> int list list \<times> sec_desc) option" where
  "build_sec program nregs bug =
     do { seq \<leftarrow> build_seq program nregs program [];
          (pip, ns) \<leftarrow> build_pip program nregs bug program [] [];
          let miters = map2 Eq pip seq;
          Some (miters, [map (\<lambda>m. - int (m + 1)) [0..<length miters]],
            \<lparr>sd_program = program, sd_notes = ns, sd_nmiter = length miters\<rparr>) }"

datatype sec_verdict = EQUIVALENT | DIFFERS

definition prove_sec :: "instr list \<Rightarrow> int \<Rightarrow> nat \<Rightarrow> sec_bug option \<Rightarrow> nat \<Rightarrow> (sec_verdict \<times> nat) option" where
  "prove_sec program nregs w bug n =
     do { (atoms, cnf, desc) \<leftarrow> build_sec program nregs bug;
          (res, n) \<leftarrow> smt_solve atoms cnf w True n;
          Some (case res of SMT_UNSAT _ \<Rightarrow> EQUIVALENT | _ \<Rightarrow> DIFFERS, n) }"

text \<open>\<open>DEFAULT_PROGRAM\<close>\<close>

definition default_program :: "instr list" where
  "default_program = [(1, 2, 3), (4, 1, 5), (6, 1, 4), (7, 6, 1)]"

subsection \<open>The in-order machine\<close>

text \<open>The specification: one instruction after the other over a register file of \<open>w\<close>-bit words, in
  which register 0 reads as zero. The results of the instructions, in order.\<close>

fun inorder :: "nat \<Rightarrow> (int \<Rightarrow> int) \<Rightarrow> instr list \<Rightarrow> int list" where
  "inorder w rf [] = []"
| "inorder w rf ((rd, rs1, rs2) # ps) =
     (let rd_val = (\<lambda>r. if r = 0 then 0 else rf r); v = (rd_val rs1 + rd_val rs2) mod 2 ^ w
      in v # inorder w (rf(rd := v)) ps)"

definition sec_values :: "nat \<Rightarrow> (string \<Rightarrow> int) \<Rightarrow> trm list \<Rightarrow> int list" where
  "sec_values w \<sigma> ts = map (\<lambda>t. teval \<sigma> t mod 2 ^ w) ts"

definition init_file :: "(string \<Rightarrow> int) \<Rightarrow> int \<Rightarrow> int" where
  "init_file \<sigma> r = \<sigma> (''rf'' @ show_int r @ ''_init'')"

definition regs_ok :: "int \<Rightarrow> instr list \<Rightarrow> bool" where
  "regs_ok nregs program = list_all (\<lambda>(rd, rs1, rs2). 0 \<le> rs1 \<and> rs1 < nregs \<and> 0 \<le> rs2 \<and> rs2 < nregs) program"

definition pip_terms :: "instr list \<Rightarrow> int \<Rightarrow> sec_bug option \<Rightarrow> trm list" where
  "pip_terms program nregs bug = fst (the (build_pip program nregs bug program [] []))"


subsection \<open>Both models build the in-order results\<close>

lemma latest_Some: "latest program src js = Some j \<Longrightarrow> j \<in> set js \<and> fst (program ! j) = src"
  by (auto simp: latest_def find_Some_iff)

lemma latest_Cons [simp]: "latest program src [] = None"
  "latest program src (j # js) = (if fst (program ! j) = src then Some j else latest program src js)"
  by (simp_all add: latest_def)

lemma upto_two: "2 \<le> i \<Longrightarrow> rev [0..<i] = (i - 1) # (i - 2) # rev [0..<i - 2]"
  by (cases i; cases "i - 1") auto

lemma fwd_arch: "map_option fst (fwd program nregs None seq src i) = arch program nregs seq src i"
proof -
  consider "i = 0" | "i = 1" | "2 \<le> i" by linarith
  then show ?thesis
  proof cases
    case 3
    then show ?thesis
      by (auto simp: fwd_def arch_def upto_two option.map_comp comp_def option.map_ident split: option.splits)
  qed (auto simp: fwd_def arch_def option.map_comp comp_def option.map_ident split: option.splits)
qed

lemma fwd_None: "fwd program nregs None seq src i = None \<longleftrightarrow> arch program nregs seq src i = None"
  "fwd program nregs None seq src i = Some (t, s) \<Longrightarrow> arch program nregs seq src i = Some t"
proof -
  have eq: "arch program nregs seq src i = map_option fst (fwd program nregs None seq src i)" by (simp add: fwd_arch)
  show "fwd program nregs None seq src i = None \<longleftrightarrow> arch program nregs seq src i = None" by (simp add: eq)
  show "fwd program nregs None seq src i = Some (t, s) \<Longrightarrow> arch program nregs seq src i = Some t" by (simp add: eq)
qed

lemma build_pip_seq:
  "map_option fst (build_pip program nregs None ps seq ns) = build_seq program nregs ps seq"
proof (induction ps arbitrary: seq ns)
  case (Cons p ps)
  obtain rd rs1 rs2 where p: "p = (rd, rs1, rs2)" by (cases p) auto
  show ?case
  proof (cases "fwd program nregs None seq rs1 (length seq)")
    case None
    with fwd_None(1) have "arch program nregs seq rs1 (length seq) = None" by blast
    with None show ?thesis by (simp add: p)
  next
    case (Some r)
    then obtain a na where a: "fwd program nregs None seq rs1 (length seq) = Some (a, na)" by (cases r) auto
    note a' = fwd_None(2) [OF a]
    show ?thesis
    proof (cases "fwd program nregs None seq rs2 (length seq)")
      case None
      with fwd_None(1) have "arch program nregs seq rs2 (length seq) = None" by blast
      with None a a' show ?thesis by (simp add: p)
    next
      case (Some r)
      then obtain b nb where b: "fwd program nregs None seq rs2 (length seq) = Some (b, nb)" by (cases r) auto
      show ?thesis using a a' b fwd_None(2) [OF b] Cons.IH by (simp add: p)
    qed
  qed
qed simp

definition sum_term :: "trm \<Rightarrow> bool" where
  "sum_term t \<longleftrightarrow> arith t \<and> (\<exists>ts. t = TAdd ts)"

text \<open>What a read of a source register builds, in every variant of the pipeline\<close>

lemma fwd_ok:
  assumes "0 \<le> src" "src < nregs" "list_all arith pip"
  obtains t s where "fwd program nregs bug pip src (length pip) = Some (t, s)" "arith t"
proof -
  have nth: "arith (pip ! j)" if "j < length pip" for j using assms(3) that by (simp add: list_all_length)
  have j: "j < length pip" if "latest program src (rev [0..<length pip - 2]) = Some j" for j
    using latest_Some [OF that] by auto
  have "\<exists>t s. fwd program nregs bug pip src (length pip) = Some (t, s) \<and> arith t"
    using assms(1,2) by (auto simp: fwd_def rf_init_def dest: j intro!: nth split: option.split)
  then show ?thesis using that by blast
qed

lemma build_pip_ok:
  assumes "regs_ok nregs ps" "list_all sum_term pip"
  shows "\<exists>rest ns'. build_pip program nregs bug ps pip ns = Some (pip @ rest, ns') \<and>
    length rest = length ps \<and> list_all sum_term rest"
  using assms
proof (induction ps arbitrary: pip ns)
  case (Cons p ps)
  obtain rd rs1 rs2 where p: "p = (rd, rs1, rs2)" by (cases p) auto
  have ar: "list_all arith pip" using Cons.prems(2) by (auto simp: list_all_iff sum_term_def)
  have regs: "0 \<le> rs1" "rs1 < nregs" "0 \<le> rs2" "rs2 < nregs" using Cons.prems(1) by (simp_all add: regs_ok_def p)
  obtain a na where a: "fwd program nregs bug pip rs1 (length pip) = Some (a, na)" "arith a"
    by (rule fwd_ok [OF regs(1,2) ar])
  obtain b nb where b: "fwd program nregs bug pip rs2 (length pip) = Some (b, nb)" "arith b"
    by (rule fwd_ok [OF regs(3,4) ar])
  have s: "sum_term (TAdd [a, b])" "sum_term (TAdd [b, a])" using a(2) b(2) by (simp_all add: sum_term_def)
  have r: "regs_ok nregs ps" using Cons.prems(1) by (simp add: regs_ok_def)
  have IH: "\<exists>rest ns'. build_pip program nregs bug ps (pip @ [t]) ns = Some (pip @ rest, ns') \<and>
      length rest = Suc (length ps) \<and> list_all sum_term rest" if "sum_term t" for t ns
    using Cons.IH [OF r, of "pip @ [t]" ns] Cons.prems(2) that by auto
  show ?case
  proof (cases "bug = Some Swap_operands \<and> length pip = 1")
    case True
    then show ?thesis using IH [OF s(2)] a b by (simp add: p Let_def)
  next
    case False
    then show ?thesis using IH [OF s(1)] by (auto simp: p a b Let_def)
  qed
qed simp

lemma build_seq_inorder:
  assumes "program = pre @ ps" "length seq = length pre" "regs_ok nregs ps"
    and "\<And>src. 0 \<le> src \<Longrightarrow> src < nregs \<Longrightarrow> \<exists>t. arch program nregs seq src (length seq) = Some t \<and>
      teval \<sigma> t mod 2 ^ w = (if src = 0 then 0 else rf src) mod 2 ^ w"
  shows "\<exists>rest. build_seq program nregs ps seq = Some (seq @ rest) \<and> sec_values w \<sigma> rest = inorder w rf ps"
  using assms
proof (induction ps arbitrary: pre seq rf)
  case Nil
  then show ?case by (simp add: sec_values_def)
next
  case (Cons p ps)
  obtain rd rs1 rs2 where p: "p = (rd, rs1, rs2)" by (cases p) auto
  have regs: "0 \<le> rs1" "rs1 < nregs" "0 \<le> rs2" "rs2 < nregs" and r: "regs_ok nregs ps"
    using Cons.prems(3) by (simp_all add: regs_ok_def p)
  obtain a where a: "arch program nregs seq rs1 (length seq) = Some a"
      "teval \<sigma> a mod 2 ^ w = (if rs1 = 0 then 0 else rf rs1) mod 2 ^ w"
    using Cons.prems(4) regs by blast
  obtain b where b: "arch program nregs seq rs2 (length seq) = Some b"
      "teval \<sigma> b mod 2 ^ w = (if rs2 = 0 then 0 else rf rs2) mod 2 ^ w"
    using Cons.prems(4) regs by blast
  let ?v = "((if rs1 = 0 then 0 else rf rs1) + (if rs2 = 0 then 0 else rf rs2)) mod 2 ^ w"
  let ?t = "TAdd [a, b]"
  define rf' where "rf' = rf(rd := ?v)"
  have t: "teval \<sigma> ?t mod 2 ^ w = ?v"
    using a(2) b(2) by (simp only: teval.simps list.map sum_list.Cons sum_list.Nil add_0_right) (metis mod_add_eq)
  have at: "program ! length seq = p" using Cons.prems(1,2) by simp
  have step: "\<exists>u. arch program nregs (seq @ [?t]) src (length (seq @ [?t])) = Some u \<and>
      teval \<sigma> u mod 2 ^ w = (if src = 0 then 0 else rf' src) mod 2 ^ w" if src: "0 \<le> src" "src < nregs" for src
  proof (cases "src = 0 \<or> src = rd")
    case True
    then show ?thesis using t by (auto simp: arch_def at p rf'_def)
  next
    case False
    obtain u where u: "arch program nregs seq src (length seq) = Some u"
      "teval \<sigma> u mod 2 ^ w = (if src = 0 then 0 else rf src) mod 2 ^ w"
      using Cons.prems(4) src by blast
    have "arch program nregs (seq @ [?t]) src (length (seq @ [?t])) = arch program nregs seq src (length seq)"
      using False latest_Some [of program src "rev [0..<length seq]"]
      by (auto simp: arch_def at p nth_append split: option.splits)
    with u False show ?thesis by (simp add: rf'_def)
  qed
  obtain rest where rest: "build_seq program nregs ps (seq @ [?t]) = Some ((seq @ [?t]) @ rest)"
      "sec_values w \<sigma> rest = inorder w rf' ps"
    using Cons.IH [of "pre @ [p]" "seq @ [?t]" rf', OF _ _ r step] Cons.prems(1,2) by auto
  then show ?case using a b t by (simp add: p sec_values_def Let_def rf'_def)
qed

subsection \<open>The miter decides the equivalence\<close>

lemma build_sec_ok:
  assumes "regs_ok nregs program"
  obtains seq pip desc where "build_sec program nregs bug =
      Some (map2 Eq pip seq, [map (\<lambda>m. - int (m + 1)) [0..<length program]], desc)"
    "pip = pip_terms program nregs bug" "bug = None \<Longrightarrow> pip = seq" "length pip = length program" "length seq = length program"
    "list_all sum_term pip" "list_all sum_term seq" "\<And>\<sigma> w. sec_values w \<sigma> seq = inorder w (init_file \<sigma>) program"
proof -
  obtain pip ns where pip: "build_pip program nregs bug program [] [] = Some (pip, ns)"
      "length pip = length program" "list_all sum_term pip"
    using build_pip_ok [OF assms, of "[]" program bug "[]"] by auto
  obtain seq ns' where seq': "build_pip program nregs None program [] [] = Some (seq, ns')"
      "length seq = length program" "list_all sum_term seq"
    using build_pip_ok [OF assms, of "[]" program None "[]"] by auto
  have seq: "build_seq program nregs program [] = Some seq"
    using build_pip_seq [of program nregs program "[]" "[]"] seq'(1) by simp
  have "\<exists>t. arch program nregs [] src (length []) = Some t \<and>
      teval \<sigma> t mod 2 ^ w = (if src = 0 then 0 else init_file \<sigma> src) mod 2 ^ w" if "0 \<le> src" "src < nregs" for \<sigma> src w
    using that by (simp add: arch_def rf_init_def init_file_def)
  from build_seq_inorder [of program "[]" program "[]", OF _ _ assms this]
  have val: "sec_values w \<sigma> seq = inorder w (init_file \<sigma>) program" for \<sigma> w
    using seq by simp
  show ?thesis
  proof (rule that)
    show "build_sec program nregs bug = Some (map2 Eq pip seq, [map (\<lambda>m. - int (m + 1)) [0..<length program]],
        \<lparr>sd_program = program, sd_notes = ns, sd_nmiter = length program\<rparr>)"
      using pip seq seq'(2) by (simp add: build_sec_def)
    show "pip = pip_terms program nregs bug" using pip by (simp add: pip_terms_def)
    show "pip = seq" if "bug = None" using that pip(1) seq'(1) by simp
  qed (use pip seq' val in simp_all)
qed

lemma miter_formula:
  assumes "length pip = k" "length seq = k"
  shows "formula (map2 Eq pip seq) [map (\<lambda>m. - int (m + 1)) [0..<k]] w \<sigma> \<longleftrightarrow> sec_values w \<sigma> pip \<noteq> sec_values w \<sigma> seq"
proof -
  have "formula (map2 Eq pip seq) [map (\<lambda>m. - int (m + 1)) [0..<k]] w \<sigma> \<longleftrightarrow>
      (\<exists>m < k. \<not> atom_true w \<sigma> (Eq (pip ! m) (seq ! m)))"
    using assms by (auto simp: formula_def nat_add_distrib)
  then show ?thesis
    using assms by (auto simp: sec_values_def list_eq_iff_nth_eq atom_true_def equal_at_def Eq_def)
qed

text \<open>C37. The word-level miter decides the pipeline: for every program over existing registers and every
  variant of the forwarding, \<open>prove_sec\<close> returns, and it answers \<open>EQUIVALENT\<close> exactly if for all
  initial register values the results of the pipeline are those of the in-order machine modulo
  \<open>2 ^ w\<close>; without an injected defect it always does.\<close>

theorem prove_sec_decides:
  assumes "regs_ok nregs program" and "pool_ok n P"
  shows "\<exists>v n'. prove_sec program nregs w bug n = Some (v, n') \<and>
    (v = EQUIVALENT \<longleftrightarrow> (\<forall>\<sigma>. sec_values w \<sigma> (pip_terms program nregs bug) = inorder w (init_file \<sigma>) program)) \<and>
    (bug = None \<longrightarrow> v = EQUIVALENT)"
proof -
  obtain seq pip desc where b: "build_sec program nregs bug =
      Some (map2 Eq pip seq, [map (\<lambda>m. - int (m + 1)) [0..<length program]], desc)"
    and pip: "pip = pip_terms program nregs bug" "bug = None \<Longrightarrow> pip = seq" "length pip = length program" "list_all sum_term pip"
    and seq: "length seq = length program" "list_all sum_term seq" "\<And>\<sigma> w. sec_values w \<sigma> seq = inorder w (init_file \<sigma>) program"
    using build_sec_ok [OF assms(1)] by metis
  let ?atoms = "map2 Eq pip seq" and ?cnf = "[map (\<lambda>m. - int (m + 1)) [0..<length program]]"
  have sums: "sum_term (eq_t1 e) \<and> sum_term (eq_t2 e)" if "e \<in> set ?atoms" for e
    using that pip(4) seq(2) by (auto simp: list_all_iff Eq_def dest: set_zip_leftD set_zip_rightD)
  have 1: "\<forall>e \<in> set ?atoms. arith_atom e" using sums by (simp add: arith_atom_def sum_term_def)
  have "\<not> eq_t1 e = TVar x \<and> \<not> eq_t2 e = TVar x" if "e \<in> set ?atoms" for e x
    using sums [OF that] by (auto simp: sum_term_def)
  then have 2: "ranked ?atoms" unfolding ranked_def by blast
  have 3: "cnf_ok (length ?atoms) ?cnf" using pip(3) seq(1) by (auto simp: cnf_ok_def lit_ok_def lvar_def)
  have f: "formula ?atoms ?cnf w \<sigma> \<longleftrightarrow> sec_values w \<sigma> pip \<noteq> inorder w (init_file \<sigma>) program" for \<sigma>
    using miter_formula [OF pip(3) seq(1)] seq(3) by simp
  obtain r n' where r: "smt_solve ?atoms ?cnf w True n = Some (r, n')" "smt_answer ?atoms ?cnf w True r"
    using smt_solve_ok [OF 1 2 3 assms(2)] by blast
  let ?v = "case r of SMT_UNSAT _ \<Rightarrow> EQUIVALENT | _ \<Rightarrow> DIFFERS"
  have "prove_sec program nregs w bug n = Some (?v, n')" using b r(1) by (simp add: prove_sec_def)
  moreover have v: "?v = EQUIVALENT \<longleftrightarrow> (\<forall>\<sigma>. \<not> formula ?atoms ?cnf w \<sigma>)"
    using r(2) by (cases r) (auto simp: smt_answer_def)
  moreover have "?v = EQUIVALENT" if "bug = None" unfolding v using f pip(2) [OF that] seq(3) by simp
  moreover have "(\<forall>\<sigma>. \<not> formula ?atoms ?cnf w \<sigma>) \<longleftrightarrow>
      (\<forall>\<sigma>. sec_values w \<sigma> (pip_terms program nregs bug) = inorder w (init_file \<sigma>) program)"
    using f pip(1) by simp
  ultimately show ?thesis by blast
qed

theorem prove_sec_decides_witness:
  "\<exists>v n'. prove_sec default_program 8 8 None 2 = Some (v, n') \<and>
    (v = EQUIVALENT \<longleftrightarrow> (\<forall>\<sigma>. sec_values 8 \<sigma> (pip_terms default_program 8 None) = inorder 8 (init_file \<sigma>) default_program)) \<and>
    ((None :: sec_bug option) = None \<longrightarrow> v = EQUIVALENT)"
  by (rule prove_sec_decides [OF _ pool_ok_start]) (simp add: regs_ok_def default_program_def)

subsection \<open>The memory contracts\<close>

definition build_write_then_read :: "bool \<Rightarrow> eq_atom list \<times> int list list \<times> string" where
  "build_write_then_read bug =
     (let mem = TVar ''mem''; A = TVar ''A''; shadow = TVar ''shadow''; a = TVar ''a''; d = TVar ''d'';
          mem2 = TStore mem a d;
          sn = TVar ''shadow_next'';
          hit = Eq a A;
          ih = Eq (TSelect mem A) shadow;
          read2 = TSelect mem2 A;
          goal = Eq read2 sn;
          def_hit = Eq sn d;
          def_miss = Eq sn shadow
      in ([hit, ih, goal, def_hit, def_miss],
          if bug then ([[5], [2], [- 3]], ''BUG: shadow not updated when the write targets the watched address'')
          else ([[- 1, 4], [1, 5], [2], [- 3]], concat [''shadow'', [CHR 0x27], '' = (a==A) ? d : shadow''])))"

text \<open>The pushes that are left; the atoms and clauses collected so far\<close>

primrec fifo_pushes :: "nat list \<Rightarrow> trm \<Rightarrow> eq_atom list \<Rightarrow> int list list \<Rightarrow> trm \<times> eq_atom list \<times> int list list" where
  "fifo_pushes [] buf atoms cnf = (buf, atoms, cnf)"
| "fifo_pushes (k # ks) buf atoms cnf =
     (let Q = TVar (''Q'' @ show_nat k); dat = TVar (''d'' @ show_nat k); atoms = atoms @ [Eq Q (TVar ''P'')]
      in fifo_pushes ks (TStore buf Q dat) atoms (cnf @ [[- int (length atoms)]]))"

definition build_fifo_token :: "nat \<Rightarrow> bool \<Rightarrow> eq_atom list \<times> int list list \<times> string" where
  "build_fifo_token n_intervening bug =
     (let P = TVar ''P''; tok = TVar ''tok'';
          (buf, atoms, cnf) = fifo_pushes [0..<n_intervening] (TStore (TVar ''mem'') P tok) [] [];
          (cnf, note) =
            (if bug \<and> 0 < n_intervening
             then (drop 1 cnf, ''BUG: no-overflow invariant dropped -- a push may overwrite the unread token'')
             else (cnf, show_nat n_intervening @ '' disjoint pushes; the token in slot P is never overwritten''));
          atoms = atoms @ [Eq (TSelect buf P) tok]
      in (atoms, cnf @ [[- int (length atoms)]], note))"

definition run_contract :: "(bool \<Rightarrow> eq_atom list \<times> int list list \<times> string) \<Rightarrow> nat \<Rightarrow> bool \<Rightarrow> nat \<Rightarrow> (bool \<times> nat) option" where
  "run_contract builder w bug n =
     (let (atoms, cnf, note) = builder bug
      in do { (res, n) \<leftarrow> smt_solve atoms cnf w True n;
              Some (case res of SMT_UNSAT _ \<Rightarrow> True | _ \<Rightarrow> False, n) })"

definition prove_mem :: "nat \<Rightarrow> bool \<Rightarrow> nat \<Rightarrow> (bool \<times> nat) option" where
  "prove_mem w bug n =
     do { (ok_wtr, n) \<leftarrow> run_contract build_write_then_read w bug n;
          (ok_fifo, n) \<leftarrow> run_contract (build_fifo_token 3) w bug n;
          Some (ok_wtr \<and> ok_fifo, n) }"

end
