(* ===== verification/Smt_Read.thy ===== *)
theory Smt_Read
  imports Smt_Term Csc_Parse
begin

text \<open>
  The SMT-LIB reader \<open>smt_frontend.py\<close>: tokens, S-expressions, the lowering to terms, and the command
  loop that collects the atoms, the clauses and the width. A Python string is indexed like a list, which
  the reader does with an atom in the place of a list; \<open>sx_get\<close> covers both. The recursive parser runs
  on fuel, and any fuel beyond twice the number of tokens gives the same result.
\<close>

subsection \<open>Tokens\<close>

text \<open>\<open>re.sub(r";[^\\n]*", "", src)\<close>\<close>

fun strip_comments :: "bool \<Rightarrow> string \<Rightarrow> string" where   \<comment> \<open>the flag: inside a comment\<close>
  "strip_comments _ [] = []"
| "strip_comments True (c # cs) = (if c = CHR 0x0A then c # strip_comments False cs else strip_comments True cs)"
| "strip_comments False (c # cs) = (if c = CHR '';'' then strip_comments True cs else c # strip_comments False cs)"

definition sx_char :: "char \<Rightarrow> bool" where   \<comment> \<open>\<open>[^\\s()]\<close>\<close>
  "sx_char c \<longleftrightarrow> \<not> is_space c \<and> c \<noteq> CHR ''('' \<and> c \<noteq> CHR '')''"

text \<open>\<open>re.findall(r"\\(|\\)|[^\\s()]+", src)\<close>\<close>

function sx_tokens :: "string \<Rightarrow> string list" where
  "sx_tokens [] = []"
| "sx_tokens (c # cs) =
     (if c = CHR ''('' \<or> c = CHR '')'' then [c] # sx_tokens cs
      else if is_space c then sx_tokens cs
      else (c # takeWhile sx_char cs) # sx_tokens (dropWhile sx_char cs))"
  by pat_completeness auto
termination
  by (relation "measure length") (auto simp: less_Suc_eq_le length_dropWhile_le)

subsection \<open>S-expressions\<close>

datatype sexpr = Sym string | Sx "sexpr list"

fun parse_sx :: "nat \<Rightarrow> string list \<Rightarrow> (sexpr \<times> string list) option"
  and sx_items :: "nat \<Rightarrow> string list \<Rightarrow> (sexpr list \<times> string list) option" where
  "parse_sx (Suc k) (t # ts) =
     (if t = ''('' then map_option (apfst Sx) (sx_items k ts) else Some (Sym t, ts))"
| "parse_sx _ _ = None"
| "sx_items (Suc k) (t # ts) =
     (if t = '')'' then Some ([], ts)
      else case parse_sx k (t # ts) of
        None \<Rightarrow> None
      | Some (x, r) \<Rightarrow> map_option (apfst (Cons x)) (sx_items k r))"
| "sx_items _ _ = None"

fun sx_all :: "nat \<Rightarrow> string list \<Rightarrow> sexpr list option" where
  "sx_all k [] = Some []"
| "sx_all 0 ts = None"
| "sx_all (Suc k) ts =
     (case parse_sx (2 * length ts + 1) ts of None \<Rightarrow> None | Some (x, r) \<Rightarrow> map_option (Cons x) (sx_all k r))"

definition sexprs :: "string \<Rightarrow> sexpr list option" where
  "sexprs src = (let ts = sx_tokens (strip_comments False src) in sx_all (length ts) ts)"

subsection \<open>Numbers\<close>

text \<open>\<open>int(s, base)\<close> of Python on a string without blanks: a sign, for the bases 16 and 2 a prefix, and
  digits that single underscores may separate.\<close>

definition base_digit :: "int \<Rightarrow> char \<Rightarrow> int option" where
  "base_digit base c =
     (let k = of_char c :: int;
          d = (if 48 \<le> k \<and> k \<le> 57 then k - 48 else if 97 \<le> k \<and> k \<le> 122 then k - 87
               else if 65 \<le> k \<and> k \<le> 90 then k - 55 else 36)
      in if d < base then Some d else None)"

fun int_digits :: "int \<Rightarrow> bool \<Rightarrow> string \<Rightarrow> int \<Rightarrow> int option" where   \<comment> \<open>the flag: the last character was a digit\<close>
  "int_digits base ok [] v = (if ok then Some v else None)"
| "int_digits base ok (c # cs) v =
     (if c = CHR ''_'' then if ok then int_digits base False cs v else None
      else case base_digit base c of None \<Rightarrow> None | Some d \<Rightarrow> int_digits base True cs (v * base + d))"

definition base_prefix :: "int \<Rightarrow> string \<Rightarrow> string" where   \<comment> \<open>without \<open>0x\<close> or \<open>0b\<close>, which an underscore may follow\<close>
  "base_prefix base s =
     (if (base = 16 \<and> (take 2 s = ''0x'' \<or> take 2 s = ''0X'') \<or> base = 2 \<and> (take 2 s = ''0b'' \<or> take 2 s = ''0B''))
      then (if take 1 (drop 2 s) = ''_'' then drop 3 s else drop 2 s)
      else s)"

definition int_of :: "int \<Rightarrow> string \<Rightarrow> int option" where
  "int_of base s =
     (if take 1 s = ''-'' then map_option uminus (int_digits base False (base_prefix base (drop 1 s)) 0)
      else int_digits base False (base_prefix base (if take 1 s = ''+'' then drop 1 s else s)) 0)"

subsection \<open>Terms\<close>

type_synonym sx_defs = "string \<rightharpoonup> trm"

fun sx_get :: "sexpr \<Rightarrow> nat \<Rightarrow> sexpr option" where
  "sx_get (Sym s) i = (if i < length s then Some (Sym [s ! i]) else None)"
| "sx_get (Sx xs) i = (if i < length xs then Some (xs ! i) else None)"

definition sx_atom :: "string \<Rightarrow> sx_defs \<Rightarrow> trm option" where
  "sx_atom s defs =
     (case defs s of
        Some t \<Rightarrow> Some t
      | None \<Rightarrow>
          if take 2 s = ''#x'' then map_option TConst (int_of 16 (drop 2 s))
          else if take 2 s = ''#b'' then map_option TConst (int_of 2 (drop 2 s))
          else map_option TConst (int_of 10 s))"

fun bv_literal :: "sexpr \<Rightarrow> string option" where   \<comment> \<open>\<open>isinstance(s[1], str) and s[1].startswith("bv")\<close>, then \<open>s[1][2:]\<close>\<close>
  "bv_literal (Sym s) = (if take 2 s = ''bv'' then Some (drop 2 s) else None)"
| "bv_literal (Sx _) = None"

function sx_term :: "sexpr \<Rightarrow> sx_defs \<Rightarrow> trm option" and sx_sum :: "sexpr list \<Rightarrow> trm \<Rightarrow> sx_defs \<Rightarrow> trm option" where
  "sx_term (Sym s) defs = sx_atom s defs"
| "sx_term (Sx []) defs = None"
| "sx_term (Sx [op]) defs = None"
| "sx_term (Sx (op # x # xs)) defs =
     (if op = Sym ''_'' then (case bv_literal x of None \<Rightarrow> None | Some ds \<Rightarrow> map_option TConst (int_of 10 ds))
      else if op = Sym ''bvadd'' then (case sx_term x defs of None \<Rightarrow> None | Some t \<Rightarrow> sx_sum xs t defs)
      else if op = Sym ''bvsub'' \<or> op = Sym ''bvmul'' then
        (case xs of
           [] \<Rightarrow> None
         | y # ys \<Rightarrow> (case sx_term x defs of
             None \<Rightarrow> None
           | Some a \<Rightarrow> map_option (if op = Sym ''bvsub'' then TSub a else TMul a) (sx_term y defs)))
      else if op = Sym ''bvneg'' then map_option TNeg (sx_term x defs)
      else None)"
| "sx_sum [] t defs = Some t"
| "sx_sum (x # xs) t defs = (case sx_term x defs of None \<Rightarrow> None | Some u \<Rightarrow> sx_sum xs (TAdd [t, u]) defs)"
  by pat_completeness auto
termination
  by (relation "measure (\<lambda>x. case x of Inl (s, _) \<Rightarrow> size s | Inr (xs, _, _) \<Rightarrow> size_list size xs)") auto

fun sort_width :: "sexpr \<Rightarrow> int option" where
  "sort_width (Sx [x, y, z]) =
     (if y = Sym ''BitVec'' then (case z of Sym ds \<Rightarrow> int_of 10 ds | Sx _ \<Rightarrow> None) else Some 1)"
| "sort_width _ = Some 1"

subsection \<open>Commands\<close>

record reader =
  rd_defs :: sx_defs
  rd_width :: int
  rd_atoms :: "eq_atom list"
  rd_cnf :: "int list list"

definition push_atom :: "sexpr \<Rightarrow> bool \<Rightarrow> reader \<Rightarrow> reader option" where   \<comment> \<open>the atom of \<open>f[1]\<close> and \<open>f[2]\<close>, with a sign\<close>
  "push_atom f sg R =
     do { x \<leftarrow> sx_get f 1; a \<leftarrow> sx_term x (rd_defs R);
          y \<leftarrow> sx_get f 2; b \<leftarrow> sx_term y (rd_defs R);
          let i = int (length (rd_atoms R)) + 1;
          Some (R\<lparr>rd_atoms := rd_atoms R @ [Eq a b], rd_cnf := rd_cnf R @ [[if sg then i else - i]]\<rparr>) }"

definition assert_sx :: "sexpr \<Rightarrow> reader \<Rightarrow> reader option" where
  "assert_sx f R =
     do { h \<leftarrow> sx_get f 0;
          if h = Sym ''not'' then
            do { inner \<leftarrow> sx_get f 1; h' \<leftarrow> sx_get inner 0;
                 if h' = Sym ''='' then push_atom inner False R else None }
          else if h = Sym ''='' then push_atom f True R
          else if h = Sym ''distinct'' then push_atom f False R
          else None }"

definition sx_name :: "sexpr \<Rightarrow> string option" where   \<comment> \<open>a dictionary key: a list is not hashable\<close>
  "sx_name x = (case x of Sym s \<Rightarrow> Some s | Sx _ \<Rightarrow> None)"

definition sx_command :: "sexpr \<Rightarrow> reader \<Rightarrow> reader option" where
  "sx_command s R =
     do { cmd \<leftarrow> sx_get s 0;
          if cmd = Sym ''declare-fun'' then
            do { so \<leftarrow> sx_get s 3; w \<leftarrow> sort_width so; n \<leftarrow> sx_get s 1; x \<leftarrow> sx_name n;
                 Some (R\<lparr>rd_width := max (rd_width R) w, rd_defs := (rd_defs R)(x \<mapsto> TVar x)\<rparr>) }
          else if cmd = Sym ''define-fun'' then
            do { so \<leftarrow> sx_get s 3; w \<leftarrow> sort_width so; n \<leftarrow> sx_get s 1; x \<leftarrow> sx_name n;
                 b \<leftarrow> sx_get s 4; t \<leftarrow> sx_term b (rd_defs R);
                 Some (R\<lparr>rd_width := max (rd_width R) w, rd_defs := (rd_defs R)(x \<mapsto> t)\<rparr>) }
          else if cmd = Sym ''assert'' then do { f \<leftarrow> sx_get s 1; assert_sx f R }
          else Some R }"

primrec sx_commands :: "sexpr list \<Rightarrow> reader \<Rightarrow> reader option" where
  "sx_commands [] R = Some R"
| "sx_commands (s # ss) R = do { R \<leftarrow> sx_command s R; sx_commands ss R }"

definition read_smt :: "string \<Rightarrow> (eq_atom list \<times> int list list \<times> int) option" where
  "read_smt src =
     do { ss \<leftarrow> sexprs src;
          R \<leftarrow> sx_commands ss \<lparr>rd_defs = Map.empty, rd_width = 1, rd_atoms = [], rd_cnf = []\<rparr>;
          Some (rd_atoms R, rd_cnf R, rd_width R) }"

text \<open>The self-test of the source.\<close>

lemma read_commutativity:
  "read_smt (''(set-logic QF_BV)(declare-fun a () (_ BitVec 8)) (declare-fun b () (_ BitVec 8))'' @
     ''(assert (not (= (bvadd a b) (bvadd b a)))) ; commutativity'') =
   Some ([Eq (TAdd [TVar ''a'', TVar ''b'']) (TAdd [TVar ''b'', TVar ''a''])], [[- 1]], 8)"
  by code_simp

subsection \<open>Fuel\<close>

lemma parse_shorter:
  "parse_sx k ts = Some (x, r) \<Longrightarrow> length r < length ts"
  "sx_items k ts = Some (xs, r) \<Longrightarrow> length r < length ts"
proof (induction k ts and k ts arbitrary: x r and xs r rule: parse_sx_sx_items.induct)
  case (3 k t ts)
  show ?case
  proof (cases "t = '')''")
    case False
    with 3(3) obtain y r1 ys where y: "parse_sx k (t # ts) = Some (y, r1)" "sx_items k r1 = Some (ys, r)"
      by (auto split: option.splits)
    from 3(1) [OF False y(1)] 3(2) [OF False y(1) refl y(2)] show ?thesis by simp
  qed (use 3 in auto)
qed (fastforce split: if_splits)+

lemma parse_fuel:
  "2 * length ts \<le> Suc k \<Longrightarrow> 2 * length ts \<le> Suc k' \<Longrightarrow> parse_sx k ts = parse_sx k' ts"
  "2 * length ts \<le> k \<Longrightarrow> 2 * length ts \<le> k' \<Longrightarrow> sx_items k ts = sx_items k' ts"
proof (induction "length ts" arbitrary: ts k k' rule: less_induct)
  case less
  {
    case 1
    show ?case
    proof (cases ts)
      case (Cons t r)
      obtain j j' where k: "k = Suc j" "k' = Suc j'" using 1 Cons by (cases k; cases k') auto
      have "sx_items j r = sx_items j' r" by (rule less(2)) (use 1 Cons k in auto)
      then show ?thesis by (simp add: Cons k)
    qed (cases k; cases k'; simp)
  }
  note p = this
  {
    case 2
    show ?case
    proof (cases ts)
      case (Cons t r)
      obtain j j' where k: "k = Suc j" "k' = Suc j'" using 2 Cons by (cases k; cases k') auto
      have hd: "parse_sx j ts = parse_sx j' ts" by (rule p) (use 2 Cons k in auto)
      have tl: "sx_items j r' = sx_items j' r'" if "parse_sx j' ts = Some (x, r')" for x r'
        by (rule less(2)) (use 2 k parse_shorter(1) [OF that] in auto)
      then show ?thesis using hd by (auto simp: Cons k split: option.split)
    qed (cases k; cases k'; simp)
  }
qed

text \<open>The number of S-expressions never exceeds the number of tokens.\<close>

lemma sx_all_fuel:
  "length ts \<le> k \<Longrightarrow> length ts \<le> k' \<Longrightarrow> sx_all k ts = sx_all k' ts"
proof (induction "length ts" arbitrary: ts k k' rule: less_induct)
  case less
  show ?case
  proof (cases ts)
    case (Cons t r)
    obtain j j' where k: "k = Suc j" "k' = Suc j'" using less.prems Cons by (cases k; cases k') auto
    have "sx_all j r' = sx_all j' r'" if "parse_sx (2 * length ts + 1) ts = Some (x, r')" for x r'
      by (rule less(1)) (use less.prems k parse_shorter(1) [OF that] in auto)
    then show ?thesis by (auto simp: Cons k split: option.split)
  qed simp
qed

end
