(* ===== verification/Tier1.thy ===== *)
theory Tier1
  imports Csc_Gen
begin

text \<open>
  The hand-written tier-1 sampler generator \<open>build_bdd.py\<close>: its constraint, the enumeration BDD under
  the variable order \<open>ORDER\<close>, \<open>unrank\<close>, the self-test, the reference stream and the emitted texts.
  The values that the module computes when it is imported (\<open>nodes\<close>, \<open>ROOT\<close>, \<open>NSOL\<close>) are
  constants here. The lemmas show that unranking is a bijection from the ranks onto the legal
  assignments, so that the self-test passes and the reference stream is legal; they reuse the
  counting lemmas of the compiler's BDD.
\<close>

subsection \<open>The constraint\<close>

abbreviation (input) NV :: nat where
  "NV \<equiv> 12"

definition legal :: "nat \<Rightarrow> bool" where   \<comment> \<open>\<open>predicate\<close>\<close>
  "legal idx =
     (let b = map (\<lambda>i. of_bool (bit idx i) :: nat) [0..<NV];
          addr0 = b ! 0; addr1 = b ! 1; addr7 = b ! 7; knd = b ! 8; prio_msb = b ! 11;
          prioval = b ! 9 + 2 * b ! 10 + 4 * b ! 11
      in if addr0 \<noteq> 0 \<or> addr1 \<noteq> 0 then False
         else if knd = 1 \<and> addr7 = 1 then False
         else if prioval = 0 then False
         else if knd = 0 \<and> prio_msb \<noteq> 0 then False
         else True)"

definition ORDER :: "nat list" where
  "ORDER = [8, 0, 1, 7, 11, 9, 10, 2, 3, 4, 5, 6]"

subsection \<open>The BDD\<close>

definition cofactors :: "nat \<Rightarrow> nat \<Rightarrow> nat \<times> nat" where
  "cofactors msk n = foldl (\<lambda>(lo, hi) sp.
       (if bit msk (2 * sp) then lo OR push_bit sp 1 else lo,
        if bit msk (2 * sp + 1) then hi OR push_bit sp 1 else hi)) (0, 0) [0..<2 ^ (n - 1)]"

text \<open>\<open>build(NV - r, msk)\<close>; the state is \<open>nodes\<close> and \<open>unique\<close>.\<close>

fun bb_build :: "nat \<Rightarrow> nat \<Rightarrow> bdd \<times> uniq \<Rightarrow> nat \<times> bdd \<times> uniq" where
  "bb_build 0 msk nu = (if bit msk 0 then 1 else 0, nu)"
| "bb_build (Suc r) msk nu =
     (let key = (NV - Suc r, msk) in
      case snd nu key of
        Some idx \<Rightarrow> (idx, nu)
      | None \<Rightarrow>
          let (lo_mask, hi_mask) = cofactors msk (Suc r);
              (lo, st1) = bb_build r lo_mask nu;
              (hi, nodes, unique) = bb_build r hi_mask st1;
              idx = length nodes
          in (idx, nodes @ [(lo, hi, count_of nodes lo + count_of nodes hi)], unique(key \<mapsto> idx)))"

definition permuted :: "nat \<Rightarrow> nat" where   \<comment> \<open>the assignment of the path \<open>s\<close>\<close>
  "permuted s = (\<Sum>j \<leftarrow> [0..<NV]. push_bit (ORDER ! j) (of_bool (bit s j)))"

definition bb_root_mask :: nat where
  "bb_root_mask = foldl (\<lambda>m s. if legal (permuted s) then m OR push_bit s 1 else m) 0 [0..<2 ^ NV]"

definition bb_module :: "nat \<times> bdd \<times> uniq" where
  "bb_module = bb_build NV bb_root_mask ([(0, 0, 0), (1, 1, 1)], Map.empty)"

definition bb_ROOT :: nat where
  "bb_ROOT = fst bb_module"

definition bb_nodes :: bdd where
  "bb_nodes = fst (snd bb_module)"

definition bb_NSOL :: nat where
  "bb_NSOL = count_of bb_nodes bb_ROOT"

subsection \<open>Unranking and the self-test\<close>

text \<open>One level of the walk: the rank, the node, the assignment\<close>

definition bb_level :: "nat \<times> nat \<times> nat list \<Rightarrow> nat \<Rightarrow> nat \<times> nat \<times> nat list" where
  "bb_level nu level = (case nu of (R, idx, assign) \<Rightarrow>
     let (lo, hi, _) = bb_nodes ! idx; clo = count_of bb_nodes lo
     in if R < clo then (R, lo, assign[ORDER ! level := 0])
        else (R - clo, hi, assign[ORDER ! level := 1]))"

definition bb_unrank :: "nat \<Rightarrow> nat option" where   \<comment> \<open>\<open>None\<close>: the assertion fails\<close>
  "bb_unrank R =
     (let (R, idx, assign) = foldl bb_level (R, bb_ROOT, replicate NV 0) [0..<NV]
      in if idx = 1 then Some (\<Sum>i \<leftarrow> [0..<NV]. push_bit i (assign ! i)) else None)"

definition bb_selftest :: "(nat \<times> nat) option" where
  "bb_selftest =
     (let brute = filter legal [0..<2 ^ NV] in
      if bb_NSOL \<noteq> length brute then None
      else do { idxs \<leftarrow> those (map bb_unrank [0..<bb_NSOL]);
                if list_all legal idxs \<and> set idxs = set brute then Some (length brute, length bb_nodes) else None })"

definition bb_lfsr :: "nat \<Rightarrow> nat" where
  "bb_lfsr s = (drop_bit 1 s) XOR (if bit s 0 then 0xB400 else 0)"

primrec bb_stream_from :: "nat \<Rightarrow> nat \<Rightarrow> nat list option" where
  "bb_stream_from s 0 = Some []"
| "bb_stream_from s (Suc n) =
     do { x \<leftarrow> bb_unrank (s mod bb_NSOL); xs \<leftarrow> bb_stream_from (bb_lfsr s) n; Some (x # xs) }"

definition bb_stream :: "nat \<Rightarrow> nat list option" where   \<comment> \<open>from \<open>SEED\<close>\<close>
  "bb_stream n = bb_stream_from 0xACE1 n"

definition bb_fields :: "nat \<Rightarrow> nat \<times> nat \<times> nat" where
  "bb_fields idx = (idx AND 0xFF, drop_bit 8 idx AND 1, drop_bit 9 idx AND 7)"

definition bb_clog2 :: "nat \<Rightarrow> nat option" where
  "bb_clog2 x = loop (\<lambda>b. if push_bit b 1 < x then Some (Inr (b + 1)) else Some (Inl b)) (1 :: nat)"

subsection \<open>The emitted texts\<close>

definition order_arms :: string where
  "order_arms = join nl (map (\<lambda>k. ''      '' @ sized 4 k @ '': r = '' @ sized 4 (ORDER ! k) @ '';'') [0..<NV])"

definition bb_emit_sv :: "bdd \<Rightarrow> nat \<Rightarrow> string option" where
  \<open>bb_emit_sv nodes rt =
     do { b \<leftarrow> bb_clog2 (length nodes);
          let W = max 1 b; nsol = count_of nodes rt; lo = lo_arms W nodes; hi = hi_arms W nodes;
              clo = clo_arms W nodes; od = order_arms in
     Some (concat [
     ''// GENERATED by build_bdd.py -- do not edit.  Tier-1 BDD UNRANK sampler.'', nl,
     ''// One uniform R in [0,'', show_nat nsol,
     '') decodes into the R-th satisfying assignment of the'', nl,
     ''// compiled constraint: zero rejection, fixed '', ''12'',
     ''-step latency, provably uniform.'', nl,
     ''// ROM is case() functions (Verilator- and yosys-frontend-clean).'', nl,
     ''module bdd_constraint_sampler ('', nl,
     ''  input  logic            clk,'', nl,
     ''  input  logic            rst_n,'', nl,
     ''  input  logic            req,'', nl,
     ''  output logic            valid,'', nl,
     ''  output logic ['', ''11'',
     '':0] sample_o    // bit i = variable i (addr[7:0],kind,prio[2:0])'', nl,
     '');'', nl,
     ''  localparam logic [15:0] NSOL = 16\'d'', show_nat nsol, '';'', nl,
     ''  localparam logic [15:0] SEED = 16\'h'', ''ACE1'', '';'', nl,
     ''  localparam logic [15:0] TAPS = 16\'h'', ''B400'', '';'', nl,
     ''  localparam logic ['', show_nat (W - 1), '':0]  ROOT = '', show_nat W, ''\'d'',
     show_nat rt, '';'', nl,
     nl,
     ''  function automatic logic ['', show_nat (W - 1), '':0] f_lo(input logic ['',
     show_nat (W - 1), '':0] i);'', nl,
     ''    logic ['', show_nat (W - 1), '':0] r; case (i)'', nl,
     lo, nl,
     ''      default: r = \'0; endcase f_lo = r;'', nl,
     ''  endfunction'', nl,
     ''  function automatic logic ['', show_nat (W - 1), '':0] f_hi(input logic ['',
     show_nat (W - 1), '':0] i);'', nl,
     ''    logic ['', show_nat (W - 1), '':0] r; case (i)'', nl,
     hi, nl,
     ''      default: r = \'0; endcase f_hi = r;'', nl,
     ''  endfunction'', nl,
     ''  function automatic logic [15:0] f_clo(input logic ['', show_nat (W - 1),
     '':0] i);  // count(lo child)'', nl,
     ''    logic [15:0] r; case (i)'', nl,
     clo, nl,
     ''      default: r = \'0; endcase f_clo = r;'', nl,
     ''  endfunction'', nl,
     ''  function automatic logic [3:0] f_ord(input logic [3:0] lvl);'', nl,
     ''    logic [3:0] r; case (lvl)'', nl,
     od, nl,
     ''      default: r = \'0; endcase f_ord = r;'', nl,
     ''  endfunction'', nl,
     nl,
     ''  typedef enum logic [1:0] {S_IDLE, S_WALK, S_EMIT} st_e;'', nl,
     ''  st_e             state;'', nl,
     ''  logic [15:0]     lfsr;'', nl,
     ''  logic ['', show_nat (W - 1), '':0]  idx;'', nl,
     ''  logic [15:0]     R;'', nl,
     ''  logic [4:0]      level;'', nl,
     ''  logic ['', ''11'', '':0] acc;'', nl,
     nl,
     ''  function automatic logic [15:0] lfsr_step(input logic [15:0] s);'', nl,
     ''    lfsr_step = (s >> 1) ^ (s[0] ? TAPS : 16\'h0);'', nl,
     ''  endfunction'', nl,
     nl,
     ''  logic [15:0] clo_c; logic bit_c;'', nl,
     ''  assign clo_c = f_clo(idx);'', nl,
     ''  assign bit_c = (R >= clo_c);          // 0 -> low child, 1 -> high child'', nl,
     nl,
     ''  always_ff @(posedge clk or negedge rst_n) begin'', nl,
     ''    if (!rst_n) begin'', nl,
     ''      state <= S_IDLE; lfsr <= SEED; valid <= 1\'b0; sample_o <= \'0;'', nl,
     ''      idx <= \'0; R <= \'0; level <= \'0; acc <= \'0;'', nl,
     ''    end else begin'', nl,
     ''      valid <= 1\'b0;'', nl,
     ''      case (state)'', nl,
     ''        S_IDLE: if (req) begin'', nl,
     ''          R <= lfsr % NSOL; idx <= ROOT; level <= \'0; acc <= \'0; state <= S_WALK;'', nl,
     ''        end'', nl,
     ''        S_WALK: begin'', nl,
     ''          acc[f_ord(level[3:0])] <= bit_c;'', nl,
     ''          idx <= bit_c ? f_hi(idx) : f_lo(idx);'', nl,
     ''          R   <= bit_c ? (R - clo_c) : R;'', nl,
     ''          level <= level + 5\'d1;'', nl,
     ''          if (level == 5\'d'', ''11'', '') state <= S_EMIT;'', nl,
     ''        end'', nl,
     ''        S_EMIT: begin'', nl,
     ''          sample_o <= acc; valid <= 1\'b1; lfsr <= lfsr_step(lfsr); state <= S_IDLE;'', nl,
     ''        end'', nl,
     ''        default: state <= S_IDLE;'', nl,
     ''      endcase'', nl,
     ''    end'', nl,
     ''  end'', nl,
     ''endmodule'', nl
     ]) }\<close>

definition bb_emit_pkg :: "bdd \<Rightarrow> nat \<Rightarrow> string option" where
  \<open>bb_emit_pkg nodes rt =
     do { b \<leftarrow> bb_clog2 (length nodes);
          let W = max 1 b; nsol = count_of nodes rt; lo = lo_arms W nodes; hi = hi_arms W nodes;
              clo = clo_arms W nodes; od = order_arms in
     Some (concat [
     ''// GENERATED by build_bdd.py.  Unrank as package functions (shared by the'', nl,
     ''// class-based ConstraintActor in sim and, structurally, the RTL module on fabric).'', nl,
     ''package bdd_unrank_pkg;'', nl,
     ''  localparam logic [15:0] NSOL = 16\'d'', show_nat nsol, '';'', nl,
     ''  localparam logic [15:0] SEED = 16\'h'', ''ACE1'', '';'', nl,
     ''  localparam logic [15:0] TAPS = 16\'h'', ''B400'', '';'', nl,
     ''  localparam logic ['', show_nat (W - 1), '':0] ROOT = '', show_nat W, ''\'d'', show_nat rt,
     '';'', nl,
     ''  function automatic logic ['', show_nat (W - 1), '':0] f_lo(input logic ['',
     show_nat (W - 1), '':0] i);'', nl,
     ''    logic ['', show_nat (W - 1), '':0] r; case (i)'', nl,
     lo, nl,
     ''      default: r=\'0; endcase f_lo=r; endfunction'', nl,
     ''  function automatic logic ['', show_nat (W - 1), '':0] f_hi(input logic ['',
     show_nat (W - 1), '':0] i);'', nl,
     ''    logic ['', show_nat (W - 1), '':0] r; case (i)'', nl,
     hi, nl,
     ''      default: r=\'0; endcase f_hi=r; endfunction'', nl,
     ''  function automatic logic [15:0] f_clo(input logic ['', show_nat (W - 1), '':0] i);'', nl,
     ''    logic [15:0] r; case (i)'', nl,
     clo, nl,
     ''      default: r=\'0; endcase f_clo=r; endfunction'', nl,
     ''  function automatic logic [3:0] f_ord(input logic [3:0] lvl);'', nl,
     ''    logic [3:0] r; case (lvl)'', nl,
     od, nl,
     ''      default: r=\'0; endcase f_ord=r; endfunction'', nl,
     ''  function automatic logic [15:0] lfsr_step(input logic [15:0] s);'', nl,
     ''    lfsr_step = (s >> 1) ^ (s[0] ? TAPS : 16\'h0); endfunction'', nl,
     ''  function automatic logic ['', ''11'', '':0] bdd_unrank(input logic [15:0] lfsr_val);'',
     nl,
     ''    logic [15:0] R; logic ['', show_nat (W - 1), '':0] idx; logic ['', ''11'',
     '':0] acc; logic [15:0] clo;'', nl,
     ''    R = lfsr_val % NSOL; idx = ROOT; acc = \'0;'', nl,
     ''    for (int level=0; level<'', ''12'', ''; level++) begin'', nl,
     ''      clo = f_clo(idx);'', nl,
     ''      if (R < clo) begin acc[f_ord(level[3:0])]=1\'b0; idx=f_lo(idx); end'', nl,
     ''      else         begin acc[f_ord(level[3:0])]=1\'b1; R=R-clo; idx=f_hi(idx); end'', nl,
     ''    end'', nl,
     ''    return acc;'', nl,
     ''  endfunction'', nl,
     ''endpackage'', nl
     ]) }\<close>

subsection \<open>The permutation of the variables\<close>

definition POS :: "nat list" where   \<comment> \<open>the level of a variable\<close>
  "POS = [1, 2, 7, 8, 9, 10, 11, 3, 0, 5, 6, 4]"

lemma upt_12: "[0..<12] = [0, 1, 2, 3, 4, 5, 6, 7, 8, 9, 10, 11 :: nat]"
  by (simp add: upt_rec)

lemma permuted_horner: "permuted s = horner_sum of_bool 2 (map (\<lambda>i. bit s (POS ! i)) [0..<12])"
  unfolding permuted_def upt_12 ORDER_def POS_def
  by (simp add: push_bit_eq_mult algebra_simps)

lemma bit_permuted: "bit (permuted s) i \<longleftrightarrow> i < 12 \<and> bit s (POS ! i)"
  by (auto simp: permuted_horner bit_horner_sum_bit_iff)

lemma permuted_less: "permuted s < 2 ^ 12"
  using horner_sum_of_bool_2_less [of "map (\<lambda>i. bit s (POS ! i)) [0..<12]"] by (simp add: permuted_horner)

lemma POS_ORDER: "j < 12 \<Longrightarrow> POS ! (ORDER ! j) = j" "j < 12 \<Longrightarrow> ORDER ! j < 12"
  by (auto simp: POS_def ORDER_def less_Suc_eq numeral_eq_Suc)

lemma bit_eq_below:
  fixes s t :: nat
  assumes "s < 2 ^ n" "t < 2 ^ n" "\<And>j. j < n \<Longrightarrow> bit s j = bit t j"
  shows "s = t"
proof (rule bit_eqI)
  fix j
  have "\<not> bit u j" if "u < 2 ^ n" "n \<le> j" for u :: nat
    using that by (metis bit_take_bit_iff not_le take_bit_nat_eq_self)
  then show "bit s j = bit t j" using assms by (cases "j < n") auto
qed

lemma permuted_bij: "bij_betw permuted {..<2 ^ 12} {..<2 ^ 12}"
proof -
  have "inj_on permuted {..<2 ^ 12}"
  proof (rule inj_onI)
    fix s t assume nu: "s \<in> {..<2 ^ 12}" "t \<in> {..<2 ^ 12}" "permuted s = permuted t"
    have "bit s j = bit t j" if "j < 12" for j
      using bit_permuted [of s "ORDER ! j"] bit_permuted [of t "ORDER ! j"] nu(3) POS_ORDER [OF that] by simp
    with nu show "s = t" by (intro bit_eq_below [of s 12 t]) auto
  qed
  moreover have "permuted ` {..<2 ^ 12} \<subseteq> {..<2 ^ 12}" using permuted_less by auto
  ultimately show ?thesis unfolding bij_betw_def using endo_inj_surj [of "{..<2 ^ 12 :: nat}" permuted] by blast
qed

subsection \<open>The nodes count the legal assignments\<close>

lemma bb_build_eq: "bb_build r msk nu = build 12 r msk nu"
proof (induction r arbitrary: msk nu)
  case (Suc r)
  have "cofactors msk n = cof msk n" for n by (simp add: cofactors_def cof_def)
  with Suc show ?case by (simp add: Let_def split: option.split prod.split)
qed simp

lemma bit_foldl_mask:
  "bit (foldl (\<lambda>m s. if Q s then m OR push_bit s 1 else m) m0 ss) t \<longleftrightarrow> bit m0 t \<or> t \<in> set ss \<and> Q t"
  for m0 :: nat
  by (induction ss arbitrary: m0) (auto simp: bit_or_push)

lemma bit_root_mask: "s < 2 ^ 12 \<Longrightarrow> bit bb_root_mask s \<longleftrightarrow> legal (permuted s)"
  unfolding bb_root_mask_def bit_foldl_mask set_upt atLeastLessThan_iff by (simp only: bit_0_eq bot_apply) simp

lemma bb_node: "node_ok bb_nodes 12 bb_root_mask bb_ROOT"
proof -
  obtain i nodes u where b: "build 12 12 bb_root_mask ([(0, 0, 0), (1, 1, 1)], Map.empty) = (i, nodes, u)"
    by (metis prod_cases3)
  have "uniq_ok 12 ([(0, 0, 0), (1, 1, 1)], Map.empty)" by (simp add: uniq_ok_def)
  from build_ok [OF order_refl this b] show ?thesis
    unfolding bb_nodes_def bb_ROOT_def bb_module_def bb_build_eq b by simp
qed

lemma permuted_sols: "permuted ` sols 12 bb_root_mask = {i. i < 2 ^ 12 \<and> legal i}"
proof (intro set_eqI iffI)
  fix i assume "i \<in> permuted ` sols 12 bb_root_mask"
  then obtain s where s: "s < 2 ^ 12" "bit bb_root_mask s" "i = permuted s" by (auto simp only: sols_def image_iff mem_Collect_eq)
  then show "i \<in> {i. i < 2 ^ 12 \<and> legal i}" using bit_root_mask [OF s(1)] permuted_less by (simp only: mem_Collect_eq)
next
  fix i assume i: "i \<in> {i. i < 2 ^ 12 \<and> legal i}"
  then have "i \<in> permuted ` {..<2 ^ 12}" using permuted_bij by (simp only: bij_betw_def lessThan_iff mem_Collect_eq)
  then obtain s where s: "s < 2 ^ 12" "i = permuted s" by (auto simp only: image_iff lessThan_iff)
  then have "s \<in> sols 12 bb_root_mask" using i bit_root_mask [OF s(1)] by (simp only: sols_def mem_Collect_eq)
  then show "i \<in> permuted ` sols 12 bb_root_mask" using s(2) by (rule rev_image_eqI)
qed

lemma bb_NSOL_card: "bb_NSOL = card (sols 12 bb_root_mask)"
  using node_ok_count [OF bb_node] by (simp add: bb_NSOL_def)

subsection \<open>Unranking follows the ranks\<close>

lemma bb_levels:
  "node_ok bb_nodes r msk i \<Longrightarrow> R < card (sols r msk) \<Longrightarrow> r \<le> 12 \<Longrightarrow>
   foldl bb_level (R, i, a) [12 - r..<12] =
     (0, 1, foldl (\<lambda>a j. a[ORDER ! (12 - r + j) := of_bool (bit (rank_walk bb_nodes r i R) j)]) a [0..<r])"
proof (induction r arbitrary: msk i R a)
  case 0
  then show ?case by (auto simp: sols_0 split: if_splits)
next
  case (Suc r)
  obtain lm hm where c: "cof msk (Suc r) = (lm, hm)" by fastforce
  let ?lo = "f_lo bb_nodes i" and ?hi = "f_hi bb_nodes i"
  have n: "node_ok bb_nodes r lm ?lo" "node_ok bb_nodes r hm ?hi" and i: "i < length bb_nodes"
    using Suc.prems(1) node_ok_less [OF Suc.prems(1)] by (auto simp: c)
  have clo: "count_of bb_nodes ?lo = card (sols r lm)" using node_ok_count [OF n(1)] .
  have tot: "card (sols (Suc r) msk) = card (sols r lm) + card (sols r hm)"
    using card_sols_Suc [OF c] by simp
  have u: "[12 - Suc r..<12] = (12 - Suc r) # [12 - r..<12]"
    using Suc.prems(3) upt_conv_Cons [of "12 - Suc r" 12] Suc_diff_Suc [of r 12] by simp
  have shift: "foldl (\<lambda>a j. a[ORDER ! (12 - Suc r + j) := of_bool (bit (2 * W + of_bool b) j)]) a [0..<Suc r]
      = foldl (\<lambda>a j. a[ORDER ! (12 - r + j) := of_bool (bit W j)]) (a[ORDER ! (12 - Suc r) := of_bool b]) [0..<r]"
    for W :: nat and b and a :: "nat list"
  proof -
    have "[0..<Suc r] = 0 # map Suc [0..<r]" by (simp add: map_Suc_upt upt_conv_Cons)
    moreover have "12 - Suc r + Suc j = 12 - r + j" for j using Suc.prems(3) by auto
    ultimately show ?thesis by (simp add: foldl_map bit_Suc bit_0)
  qed
  have nu: "bb_level (R, i, a) (12 - Suc r) =
      (if R < card (sols r lm) then (R, ?lo, a[ORDER ! (12 - Suc r) := 0])
       else (R - card (sols r lm), ?hi, a[ORDER ! (12 - Suc r) := 1]))"
    using i by (simp add: bb_level_def f_lo_def f_hi_def clo [symmetric] split: prod.split)
  show ?case
  proof (cases "R < card (sols r lm)")
    case True
    then have "rank_walk bb_nodes (Suc r) i R = 2 * rank_walk bb_nodes r ?lo R + of_bool False"
      by (simp add: clo)
    with True show ?thesis
      unfolding u using Suc.IH [OF n(1) True, of "a[ORDER ! (12 - Suc r) := 0]"] Suc.prems(3) nu
        shift [of "rank_walk bb_nodes r ?lo R" False a] by simp
  next
    case False
    let ?R = "R - card (sols r lm)"
    have R: "?R < card (sols r hm)" using False Suc.prems(2) tot by simp
    have "rank_walk bb_nodes (Suc r) i R = 2 * rank_walk bb_nodes r ?hi ?R + of_bool True"
      using False by (simp add: clo)
    with False show ?thesis
      unfolding u using Suc.IH [OF n(2) R, of "a[ORDER ! (12 - Suc r) := 1]"] Suc.prems(3) nu
        shift [of "rank_walk bb_nodes r ?hi ?R" True a] by simp
  qed
qed

lemma replicate_12: "replicate 12 x = [x, x, x, x, x, x, x, x, x, x, x, x]"
  by (simp add: numeral_eq_Suc)

lemma assign_bits:
  "foldl (\<lambda>a j. a[ORDER ! j := of_bool (bit W j)]) (replicate 12 (0 :: nat)) [0..<12] =
     map (\<lambda>i. of_bool (bit W (POS ! i))) [0..<12]" for W :: nat
  unfolding replicate_12 upt_12 ORDER_def POS_def by simp

lemma horner_sum_pushes:
  "(\<Sum>i \<leftarrow> [0..<12]. push_bit i (map (\<lambda>i. of_bool (f i)) [0..<12] ! i)) =
     (horner_sum of_bool 2 (map f [0..<12]) :: nat)"
  unfolding upt_12 by (simp add: push_bit_eq_mult algebra_simps)

lemma bb_unrank_walk:
  assumes "R < bb_NSOL"
  shows "bb_unrank R = Some (permuted (rank_walk bb_nodes 12 bb_ROOT R))"
proof -
  let ?W = "rank_walk bb_nodes 12 bb_ROOT R"
  have "foldl bb_level (R, bb_ROOT, replicate 12 0) [0..<12] =
     (0, 1, foldl (\<lambda>a j. a[ORDER ! j := of_bool (bit ?W j)]) (replicate 12 0) [0..<12])"
    using bb_levels [OF bb_node, of R "replicate 12 0"] assms by (simp add: bb_NSOL_card)
  moreover have "(\<Sum>i \<leftarrow> [0..<12]. push_bit i (foldl (\<lambda>a j. a[ORDER ! j := of_bool (bit W j)]) (replicate 12 0) [0..<12] ! i))
      = permuted W" for W
    unfolding assign_bits permuted_horner horner_sum_pushes ..
  ultimately show ?thesis by (simp add: bb_unrank_def)
qed

lemma bb_unrank_bij: "bij_betw (\<lambda>R. the (bb_unrank R)) {..<bb_NSOL} {i. i < 2 ^ 12 \<and> legal i}"
proof -
  have "bij_betw permuted (sols 12 bb_root_mask) {i. i < 2 ^ 12 \<and> legal i}"
    using permuted_bij permuted_sols by (auto simp: bij_betw_def sols_def intro: inj_on_subset)
  from bij_betw_trans [OF rank_walk_bij [OF bb_node] this] 
  have "bij_betw (permuted \<circ> rank_walk bb_nodes 12 bb_ROOT) {..<bb_NSOL} {i. i < 2 ^ 12 \<and> legal i}"
    unfolding bb_NSOL_card .
  moreover have "(permuted \<circ> rank_walk bb_nodes 12 bb_ROOT) R = the (bb_unrank R)" if "R \<in> {..<bb_NSOL}" for R
    using that by (simp add: bb_unrank_walk)
  ultimately show ?thesis using bij_betw_cong by (metis (no_types, lifting))
qed

lemma legal_512: "legal 512"
proof -
  have "512 = (2 :: nat) ^ 9" by simp
  then have "bit (512 :: nat) i \<longleftrightarrow> i = 9" for i by (simp only: bit_exp_iff) auto
  then show ?thesis by (simp add: legal_def upt_12)
qed

text \<open>C38. The tier-1 generator is right about its constraint: its self-test passes (the count at the root
  is the number of legal assignments, every rank unranks to a legal assignment, every legal one is
  reached), each of them by exactly one rank, and the whole reference stream is defined and legal.\<close>

theorem tier1_selftest_passes:
  "bb_selftest = Some (card {i. i < 2 ^ 12 \<and> legal i}, length bb_nodes) \<and>
   bij_betw (\<lambda>R. the (bb_unrank R)) {..<bb_NSOL} {i. i < 2 ^ 12 \<and> legal i} \<and>
   (\<exists>xs. bb_stream n = Some xs \<and> length xs = n \<and> list_all legal xs)"
proof (intro conjI)
  have brute: "set (filter legal [0..<2 ^ 12]) = {i. i < 2 ^ 12 \<and> legal i}" by auto
  have len: "length (filter legal [0..<2 ^ 12]) = card {i. i < 2 ^ 12 \<and> legal i}"
    using distinct_card [of "filter legal [0..<2 ^ 12]"] brute by simp
  have N: "bb_NSOL = card {i. i < 2 ^ 12 \<and> legal i}" using bij_betw_same_card [OF bb_unrank_bij] by simp
  have leg: "legal (the (bb_unrank R))" if "R < bb_NSOL" for R
    using bb_unrank_bij that by (auto simp: bij_betw_def)
  have "those (map bb_unrank [0..<bb_NSOL]) = Some (map (\<lambda>R. the (bb_unrank R)) [0..<bb_NSOL])"
    by (rule those_map_cong) (simp add: bb_unrank_walk)
  moreover have "set (map (\<lambda>R. the (bb_unrank R)) [0..<bb_NSOL]) = {i. i < 2 ^ 12 \<and> legal i}"
    using bb_unrank_bij by (simp add: bij_betw_def atLeast0LessThan)
  moreover have "list_all legal (map (\<lambda>R. the (bb_unrank R)) [0..<bb_NSOL])" using leg by (simp add: list_all_iff)
  ultimately show "bb_selftest = Some (card {i. i < 2 ^ 12 \<and> legal i}, length bb_nodes)"
    unfolding bb_selftest_def Let_def using N len brute by simp
  show "bij_betw (\<lambda>R. the (bb_unrank R)) {..<bb_NSOL} {i. i < 2 ^ 12 \<and> legal i}" by (rule bb_unrank_bij)
  have "512 \<in> {i. i < 2 ^ 12 \<and> legal i}" by (simp add: legal_512)
  moreover have "finite {i. i < 2 ^ 12 \<and> legal i}" by simp
  ultimately have pos: "0 < bb_NSOL" unfolding N card_gt_0_iff by blast
  have "\<exists>xs. bb_stream_from s n = Some xs \<and> length xs = n \<and> list_all legal xs" for s
  proof (induction n arbitrary: s)
    case (Suc n)
    have "s mod bb_NSOL < bb_NSOL" using pos by simp
    then obtain x where "bb_unrank (s mod bb_NSOL) = Some x" "legal x" using leg bb_unrank_walk by fastforce
    with Suc.IH [of "bb_lfsr s"] show ?case by auto
  qed simp
  then show "\<exists>xs. bb_stream n = Some xs \<and> length xs = n \<and> list_all legal xs" by (simp add: bb_stream_def)
qed

end
