(* ===== verification/Tier2.thy ===== *)
theory Tier2
  imports Prelude "HOL-Library.Word"
begin

unbundle bit_operations_syntax

text \<open>
  The reference of the constructive tier-2 sampler (\<open>ref.py\<close>) for \<open>A * B < LIMIT\<close>: two shift registers,
  the division that bounds \<open>B\<close>, and the loop of \<open>run\<close> with its violation counter and its histogram. The
  division raises when the first register is zero and the histogram when it has more than 16 bits; the
  lemmas show that neither happens, and that the multiplier, the checker, never fires.
\<close>

subsection \<open>The sampler\<close>

definition LIMIT :: nat where
  "LIMIT = push_bit 24 1"

abbreviation (input) BMAX :: nat where
  "BMAX \<equiv> 0xFFFF"

definition mul_step :: "nat \<Rightarrow> nat \<Rightarrow> nat" where   \<comment> \<open>\<open>step(s, taps)\<close>\<close>
  "mul_step s taps = (drop_bit 1 s) XOR (if odd s then taps else 0)"

definition bound_b :: "nat \<Rightarrow> nat option" where   \<comment> \<open>\<open>q\<close> and \<open>boundB\<close>\<close>
  "bound_b A = (if A = 0 then None else let q = (LIMIT - 1) div A in Some (if q > BMAX then BMAX else q))"

record mul_run =
  mr_a :: nat
  mr_b :: nat
  mr_viol :: nat
  mr_first :: "(nat \<times> nat) list"
  mr_buckets :: "nat list"

definition mul_cycle :: "nat \<Rightarrow> mul_run \<Rightarrow> mul_run option" where
  "mul_cycle i m =
     (let A = mr_a m in
      do { boundB \<leftarrow> bound_b A;
           let B = mr_b m mod (boundB + 1);
           if drop_bit 13 A < length (mr_buckets m) then
             Some (m\<lparr>mr_viol := (if A * B \<ge> LIMIT then mr_viol m + 1 else mr_viol m),
               mr_first := (if i < 20 then mr_first m @ [(A, B)] else mr_first m),
               mr_buckets := (mr_buckets m)[drop_bit 13 A := mr_buckets m ! drop_bit 13 A + 1],
               mr_a := mul_step A 0xB400, mr_b := mul_step (mr_b m) 0x8016\<rparr>)
           else None })"

primrec mul_cycles :: "nat list \<Rightarrow> mul_run \<Rightarrow> mul_run option" where
  "mul_cycles [] m = Some m"
| "mul_cycles (i # is) m = do { m \<leftarrow> mul_cycle i m; mul_cycles is m }"

definition mul_ref :: "nat \<Rightarrow> ((nat \<times> nat) list \<times> nat \<times> nat list) option" where   \<comment> \<open>\<open>run(n)\<close>\<close>
  "mul_ref n =
     do { m \<leftarrow> mul_cycles [0..<n] \<lparr>mr_a = 0xACE1, mr_b = 0x1234, mr_viol = 0, mr_first = [], mr_buckets = replicate 8 0\<rparr>;
          Some (mr_first m, mr_viol m, mr_buckets m) }"

subsection \<open>The argument of the source\<close>

lemma bound_b_sound:
  assumes "bound_b A = Some k" and "B \<le> k"
  shows "A * B < LIMIT"
proof -
  have A: "0 < A" and k: "k \<le> (LIMIT - 1) div A"
    using assms(1) by (auto simp: bound_b_def Let_def split: if_splits)
  have "A * B \<le> A * ((LIMIT - 1) div A)" using assms(2) k by (meson le_trans mult_le_mono2)
  also have "\<dots> \<le> LIMIT - 1" by simp
  also have "\<dots> < LIMIT" by (simp add: LIMIT_def push_bit_eq_mult)
  finally show ?thesis .
qed

text \<open>The register keeps to its 16 bits and never becomes zero.\<close>

lemma xor_less_2p:
  fixes x y :: nat
  assumes "x < 2 ^ n" "y < 2 ^ n"
  shows "x XOR y < 2 ^ n"
proof -
  have "take_bit n (x XOR y) = x XOR y"
    using assms by (simp add: take_bit_xor take_bit_nat_eq_self)
  then show ?thesis by (metis take_bit_nat_less_exp)
qed

lemma mul_step_range:
  assumes "0 < s" "s < 2 ^ 16"
  shows "0 < mul_step s 0xB400" "mul_step s 0xB400 < 2 ^ 16"
proof -
  have half: "drop_bit 1 s < 2 ^ 15" using assms(2) by (simp add: drop_bit_eq_div)
  show "mul_step s 0xB400 < 2 ^ 16"
    unfolding mul_step_def by (rule xor_less_2p) (use half in \<open>simp_all\<close>)
  show "0 < mul_step s 0xB400"
  proof (cases "odd s")
    case False
    then show ?thesis using assms(1) by (auto simp: mul_step_def drop_bit_eq_div elim!: evenE)
  next
    case True
    have eq: "x = y" if "x XOR y = 0" for x y :: nat
      using that by (metis xor.assoc xor.left_neutral xor.right_neutral xor_self_eq)
    have "drop_bit 1 s \<noteq> 0xB400" using half by simp
    then have "drop_bit 1 s XOR 0xB400 \<noteq> 0" using eq by blast
    then show ?thesis using True by (simp add: mul_step_def)
  qed
qed

definition mul_ok :: "nat \<Rightarrow> mul_run \<Rightarrow> bool" where
  "mul_ok n m \<longleftrightarrow> 0 < mr_a m \<and> mr_a m < 2 ^ 16 \<and> mr_viol m = 0 \<and> length (mr_buckets m) = 8 \<and>
     sum_list (mr_buckets m) = n \<and> list_all (\<lambda>(A, B). A * B < LIMIT) (mr_first m) \<and> length (mr_first m) = min n 20"

lemma mul_cycle_ok:
  assumes "mul_ok i m"
  shows "\<exists>m'. mul_cycle i m = Some m' \<and> mul_ok (Suc i) m'"
proof -
  have a: "0 < mr_a m" "mr_a m < 2 ^ 16" using assms by (simp_all add: mul_ok_def)
  obtain k where k: "bound_b (mr_a m) = Some k" using a(1) by (simp add: bound_b_def Let_def)
  have lim: "mr_a m * (mr_b m mod (k + 1)) < LIMIT" by (rule bound_b_sound [OF k]) simp
  have idx: "drop_bit 13 (mr_a m) < 8" using a(2) by (simp add: drop_bit_eq_div)
  then have "sum_list ((mr_buckets m)[drop_bit 13 (mr_a m) := mr_buckets m ! drop_bit 13 (mr_a m) + 1]) = Suc i"
    using assms by (simp add: mul_ok_def sum_list_update)
  then show ?thesis
    using assms k lim idx mul_step_range [OF a] by (simp add: mul_ok_def mul_cycle_def Let_def not_le min_def)
qed

text \<open>C39. The reference of the constructive sampler never raises and never violates its constraint: for any
  number of cycles the checker fires zero times, the recorded samples satisfy \<open>A * B < LIMIT\<close>, and the
  histogram counts every cycle.\<close>

theorem mul_ref_correct:
  "\<exists>first buckets. mul_ref n = Some (first, 0, buckets) \<and> length first = min n 20 \<and>
     list_all (\<lambda>(A, B). A * B < LIMIT) first \<and> length buckets = 8 \<and> sum_list buckets = n"
proof -
  have "mul_ok i m \<Longrightarrow> \<exists>m'. mul_cycles [i..<i + k] m = Some m' \<and> mul_ok (i + k) m'" for i k m
  proof (induction k arbitrary: i m)
    case (Suc k)
    then obtain m' where "mul_cycle i m = Some m'" "mul_ok (Suc i) m'" using mul_cycle_ok by blast
    moreover have "[i..<i + Suc k] = i # [Suc i..<Suc i + k]" by (simp add: upt_conv_Cons del: upt_Suc)
    ultimately show ?case using Suc.IH [of "Suc i" m'] by (simp del: upt_Suc)
  qed simp
  note cycles = this
  define m0 where "m0 = \<lparr>mr_a = 0xACE1, mr_b = 0x1234, mr_viol = 0, mr_first = [], mr_buckets = replicate 8 0\<rparr>"
  have "mul_ok 0 m0" by (simp add: m0_def mul_ok_def sum_list_replicate)
  from cycles [OF this, of n] obtain m where m: "mul_cycles [0..<n] m0 = Some m" "mul_ok n m" by auto
  then have "mul_ref n = Some (mr_first m, 0, mr_buckets m)" by (simp add: mul_ref_def mul_ok_def flip: m0_def)
  then show ?thesis using m(2) by (simp add: mul_ok_def)
qed

end
