(* ===== verification/Sat_Gen.thy ===== *)
theory Sat_Gen
  imports Prelude "HOL-Library.Product_Lexorder"
begin

text \<open>
  The generators and references of the SAT engine's examples: the hard 3-colouring instances of \<open>gen4.py\<close>
  (random graphs, the exact colourability test, unit propagation and the backtrack count), the planted
  instances of \<open>gen5.py\<close>, and the exact legal sets of \<open>solve_ref.py\<close> and \<open>solve_ref_t.py\<close>. The
  generator of random numbers is its state; the order in which Python iterates a set is a parameter.
  The rejection loop of \<open>gen\<close> and the propagation loop are \<open>loop\<close>s; the recursion of \<open>solve_cp\<close> runs on
  fuel, of which one more than the number of nodes is enough, since every level fixes a node.
\<close>

subsection \<open>Random numbers and graphs\<close>

definition LCG :: "int \<Rightarrow> nat" where
  "LCG x = nat (take_bit 31 x)"

text \<open>\<open>r(n)\<close>: the number and the next state; modulo zero raises.\<close>

definition lcg_r :: "nat \<Rightarrow> nat \<Rightarrow> (nat \<times> nat) option" where
  "lcg_r n s = (let s = take_bit 31 (s * 1103515245 + 12345)
     in if n = 0 then None else Some (drop_bit 10 s mod n, s))"

type_synonym edges = "(nat \<times> nat) set"
type_synonym graph = "nat set list"

definition gen_body :: "nat \<Rightarrow> int \<Rightarrow> nat \<times> edges \<Rightarrow> (edges + nat \<times> edges) option" where
  "gen_body N EDGES x = (case x of (s, E) \<Rightarrow>
     if int (card E) < EDGES then
       do { (a, s) \<leftarrow> lcg_r N s; (b, s) \<leftarrow> lcg_r N s;
            Some (Inr (s, if a \<noteq> b then insert (min a b, max a b) E else E)) }
     else Some (Inl E))"

definition gen_graph :: "nat \<Rightarrow> int \<Rightarrow> int \<Rightarrow> (nat \<times> nat) list option" where   \<comment> \<open>\<open>gen(seed)\<close>\<close>
  "gen_graph N EDGES seed = map_option sorted_list_of_set (loop (gen_body N EDGES) (LCG seed, {}))"

definition add_edge :: "graph \<Rightarrow> nat \<times> nat \<Rightarrow> graph" where
  "add_edge A e = (case e of (u, v) \<Rightarrow>
     let A = A[u := insert v (A ! u)] in A[v := insert u (A ! v)])"

definition adj :: "nat \<Rightarrow> (nat \<times> nat) list \<Rightarrow> graph" where
  "adj N E = foldl add_edge (replicate N {}) E"

definition node_mask :: "nat set \<Rightarrow> nat" where   \<comment> \<open>\<open>sum(1<<j for j in A[i])\<close>\<close>
  "node_mask S = (\<Sum>j \<in> S. push_bit j 1)"

subsection \<open>Exact colourability\<close>

text \<open>\<open>go\<close> over the nodes that are left; the colouring is restored on failure.\<close>

primrec colour_rest :: "graph \<Rightarrow> nat list \<Rightarrow> nat list \<Rightarrow> bool" where
  "colour_rest A [] col = True"
| "colour_rest A (v # vs) col =
     list_ex (\<lambda>c. (\<forall>w \<in> A ! v. col ! w \<noteq> c) \<and> colour_rest A vs (col[v := c])) [1, 2, 3]"

definition is_sat :: "nat \<Rightarrow> graph \<Rightarrow> bool" where
  "is_sat N A = colour_rest A (sort_key (\<lambda>x. - int (card (A ! x))) [0..<N]) (replicate N 0)"

subsection \<open>Unit propagation and the backtrack count\<close>

type_synonym domains = "nat set list"

text \<open>The neighbours that are left; \<open>None\<close> is a conflict.\<close>

primrec prop_nbrs :: "nat \<Rightarrow> nat list \<Rightarrow> nat list \<Rightarrow> domains \<Rightarrow> (nat list \<times> domains) option" where
  "prop_nbrs c [] q dm = Some (q, dm)"
| "prop_nbrs c (w # ws) q dm =
     (if c \<in> dm ! w then
        (let d = dm ! w - {c}; dm = dm[w := d]
         in if d = {} then None else prop_nbrs c ws (if card d = 1 then q @ [w] else q) dm)
      else prop_nbrs c ws q dm)"

definition prop_body :: "(nat set \<Rightarrow> nat list) \<Rightarrow> graph \<Rightarrow> nat list \<times> domains \<Rightarrow>
    (domains option + nat list \<times> domains) option" where
  "prop_body ord A x = (case x of (q, dm) \<Rightarrow>
     if q = [] then Some (Inl (Some dm))
     else let v = last q; q = butlast q in
       if card (dm ! v) \<noteq> 1 then Some (Inr (q, dm))
       else case prop_nbrs (the_elem (dm ! v)) (ord (A ! v)) q dm of
         None \<Rightarrow> Some (Inl None)
       | Some st \<Rightarrow> Some (Inr st))"

definition prop_units :: "(nat set \<Rightarrow> nat list) \<Rightarrow> graph \<Rightarrow> domains \<Rightarrow> nat list \<Rightarrow> domains option option" where
  "prop_units ord A dm seeds = loop (prop_body ord A) (seeds, dm)"

text \<open>The shuffle of the values, \<open>k\<close> from the last index down to 1\<close>

primrec shuffle_down :: "nat \<Rightarrow> nat list \<Rightarrow> nat \<Rightarrow> (nat list \<times> nat) option" where
  "shuffle_down 0 cs s = Some (cs, s)"
| "shuffle_down (Suc k) cs s = do { (j, s) \<leftarrow> lcg_r (Suc k + 1) s; shuffle_down k (swap (Suc k) j cs) s }"

text \<open>The values of the chosen node; the counters are the backtracks and the generator.\<close>

primrec try_values :: "(domains \<Rightarrow> nat \<times> nat \<Rightarrow> (bool \<times> nat \<times> nat) option) \<Rightarrow> (nat set \<Rightarrow> nat list) \<Rightarrow> graph \<Rightarrow>
    nat \<Rightarrow> domains \<Rightarrow> nat list \<Rightarrow> nat \<times> nat \<Rightarrow> (bool \<times> nat \<times> nat) option" where
  "try_values rec ord A v dm [] bs = (case bs of (bt, s) \<Rightarrow> Some (False, bt + 1, s))"
| "try_values rec ord A v dm (c # cs) bs =
     (case prop_units ord A (dm[v := {c}]) [v] of
        None \<Rightarrow> None
      | Some None \<Rightarrow> try_values rec ord A v dm cs bs
      | Some (Some nd) \<Rightarrow>
          (case rec nd bs of
             None \<Rightarrow> None
           | Some (ok, bs) \<Rightarrow> if ok then Some (True, bs) else try_values rec ord A v dm cs bs))"

primrec cp_rec :: "(nat set \<Rightarrow> nat list) \<Rightarrow> nat \<Rightarrow> graph \<Rightarrow> nat \<Rightarrow> nat \<Rightarrow> domains \<Rightarrow> nat \<times> nat \<Rightarrow>
    (bool \<times> nat \<times> nat) option" where
  "cp_rec ord N A cap 0 dm bs = None"
| "cp_rec ord N A cap (Suc k) dm bs =
     (case bs of (bt, s) \<Rightarrow>
        if bt > cap then Some (True, bs)
        else let un = filter (\<lambda>v. card (dm ! v) > 1) [0..<N] in
          if un = [] then Some (True, bs)
          else do {
            (i, s) \<leftarrow> lcg_r (length un) s;
            let v = un ! i; let cs = ord (dm ! v);
            (cs, s) \<leftarrow> shuffle_down (length cs - 1) cs s;
            try_values (cp_rec ord N A cap k) ord A v dm cs (bt, s) })"

definition solve_cp :: "(nat set \<Rightarrow> nat list) \<Rightarrow> nat \<Rightarrow> graph \<Rightarrow> nat \<Rightarrow> nat \<Rightarrow> (nat \<times> nat) option" where
  "solve_cp ord N A s cap =
     do { (_, bt, s) \<leftarrow> cp_rec ord N A cap (N + 1) (replicate N {1, 2, 3}) (0, s); Some (bt, s) }"

subsection \<open>The hardest instance (\<open>gen4.py\<close>)\<close>

primrec cp_total :: "(nat set \<Rightarrow> nat list) \<Rightarrow> nat \<Rightarrow> graph \<Rightarrow> nat \<Rightarrow> nat \<Rightarrow> nat option" where   \<comment> \<open>the sum over some runs\<close>
  "cp_total ord N A s 0 = Some 0"
| "cp_total ord N A s (Suc k) =
     do { (bt, s) \<leftarrow> solve_cp ord N A s 4000; t \<leftarrow> cp_total ord N A s k; Some (bt + t) }"

primrec scan_seeds :: "(nat set \<Rightarrow> nat list) \<Rightarrow> nat \<Rightarrow> int \<Rightarrow> nat list \<Rightarrow> (nat \<times> nat) option \<Rightarrow> nat list \<Rightarrow>
    ((nat \<times> nat) option \<times> nat list) option" where
  "scan_seeds ord N EDGES [] best sats = Some (best, sats)"
| "scan_seeds ord N EDGES (seed # seeds) best sats =
     do { E \<leftarrow> gen_graph N EDGES (int seed);
          let A = adj N E;
          if \<not> is_sat N A then scan_seeds ord N EDGES seeds best sats
          else do {
            t \<leftarrow> cp_total ord N A (LCG (int (seed * 13 + 5))) 4;
            let h = t div 4;
            scan_seeds ord N EDGES seeds
              (case best of None \<Rightarrow> Some (seed, h) | Some (s0, h0) \<Rightarrow> if h > h0 then Some (seed, h) else best)
              (sats @ [seed]) } }"

definition edge_line :: "string \<Rightarrow> nat list \<Rightarrow> string" where   \<comment> \<open>\<open>"E0='{" + ... + "};"\<close>\<close>
  "edge_line nm xs = nm @ ''='' @ [CHR 0x27] @ ''{'' @ join '','' (map show_nat xs) @ ''};''"

definition gen4_text :: "(nat set \<Rightarrow> nat list) \<Rightarrow> int \<Rightarrow> string option" where
  \<open>gen4_text ord EDGES =
     do { (best, sats) \<leftarrow> scan_seeds ord 16 EDGES [1..<600] None [];
          (seed, h) \<leftarrow> best;
          E \<leftarrow> gen_graph 16 EDGES (int seed);
          let masks = map node_mask (adj 16 E); let nl = [CHR 0x0A];
          Some (join nl (
            [concat [''// HARD-WITH-PROP SAT 3-col: seed='', show_nat seed, '' edges='', show_int EDGES,
               '' avg-CP-backtracks='', show_nat h, '' nsat='', show_nat (length sats), '' satseeds=['',
               join '', '' (map show_nat (take 10 sats)), '']''],
             ''  function automatic logic [N-1:0] nbr(input int i);'' @ nl @ ''    case (i)''] @
            map (\<lambda>i. concat [''      '', show_nat i, '': nbr = 16\'d'', show_nat (masks ! i), '';'']) [0..<16] @
            [''      default: nbr=\'0;'' @ nl @ ''    endcase'' @ nl @ ''  endfunction'',
             edge_line ''E0'' (map fst E), edge_line ''E1'' (map snd E)]) @ nl) }\<close>

subsection \<open>Planted instances (\<open>gen5.py\<close>)\<close>

primrec plant :: "nat \<Rightarrow> nat \<Rightarrow> (nat list \<times> nat) option" where   \<comment> \<open>\<open>[1 + r.r(3) for _ in range(n)]\<close>\<close>
  "plant 0 s = Some ([], s)"
| "plant (Suc n) s = do { (c, s) \<leftarrow> lcg_r 3 s; (cs, s) \<leftarrow> plant n s; Some ((1 + c) # cs, s) }"

definition planted_body :: "nat \<Rightarrow> int \<Rightarrow> nat list \<Rightarrow> nat \<times> int \<times> edges \<Rightarrow> (edges + nat \<times> int \<times> edges) option" where
  "planted_body N M col x = (case x of (s, guard, E) \<Rightarrow>
     if int (card E) < M \<and> guard < M * 100 then
       do { (a, s) \<leftarrow> lcg_r N s; (b, s) \<leftarrow> lcg_r N s;
            Some (Inr (s, guard + 1,
              if a \<noteq> b \<and> col ! a \<noteq> col ! b then insert (min a b, max a b) E else E)) }
     else Some (Inl E))"

definition planted :: "nat \<Rightarrow> int \<Rightarrow> int \<Rightarrow> (nat list \<times> (nat \<times> nat) list) option" where
  "planted N M seed =
     do { (col, s) \<leftarrow> plant N (LCG seed);
          E \<leftarrow> loop (planted_body N M col) (s, 0, {});
          Some (col, sorted_list_of_set E) }"

definition hex_char :: "nat \<Rightarrow> char" where
  "hex_char d = ''0123456789abcdef'' ! d"

definition hex16 :: "nat \<Rightarrow> string" where   \<comment> \<open>\<open>:016x\<close> of a number below \<open>2 ^ 64\<close>\<close>
  "hex16 n = map (\<lambda>k. hex_char (n div 16 ^ k mod 16)) (rev [0..<16])"

text \<open>\<open>2 * len / 64\<close> with two decimals, rounded half to even as Python does\<close>

definition avgdeg_text :: "nat \<Rightarrow> string" where
  "avgdeg_text len =
     (let h = len * 25 div 8; r = len * 25 mod 8;
          k = (if r > 4 \<or> r = 4 \<and> odd h then h + 1 else h)
      in show_nat (k div 100) @ ''.'' @ show_nat (k mod 100 div 10) @ show_nat (k mod 10))"

text \<open>The file \<open>nbr.hex\<close> and the lines that are printed\<close>

definition gen5_texts :: "int \<Rightarrow> int \<Rightarrow> (string \<times> string list) option" where
  "gen5_texts M seed =
     do { (col, E) \<leftarrow> planted 64 M seed;
          let A = adj 64 E;
          let degs = rev (sort (map card A));
          let ok = list_all (\<lambda>(u, v). col ! u \<noteq> col ! v) E;
          Some (concat (map (\<lambda>S. hex16 (node_mask S) @ [CHR 0x0A]) A),
            [concat [''// PLANTED 3-col: N=64 M='', show_nat (length E), '' seed='', show_int seed, '' avgdeg='',
               avgdeg_text (length E), '' planted-proper='', if ok then ''True'' else ''False''],
             concat [''// (nbr.hex written; SAT by construction). degrees max='', show_nat (hd degs), '' min='', show_nat (last degs)],
             edge_line ''E0'' (map fst E), edge_line ''E1'' (map snd E),
             ''NE='' @ show_nat (length E)]) }"

subsection \<open>Exact legal sets (\<open>solve_ref.py\<close>, \<open>solve_ref_t.py\<close>)\<close>

primrec permutations :: "nat \<Rightarrow> 'a list \<Rightarrow> 'a list list" where   \<comment> \<open>of \<open>itertools\<close>, by position\<close>
  "permutations 0 xs = [[]]"
| "permutations (Suc k) xs =
     concat (map (\<lambda>i. map (Cons (xs ! i)) (permutations k (take i xs @ drop (Suc i) xs))) [0..<length xs])"

definition ref_ok :: "nat list \<Rightarrow> bool" where
  "ref_ok p \<longleftrightarrow> sum_list p = 25 \<and> card (set p) = 5 \<and> p ! 0 < p ! 1"

definition ref_sols :: "nat list set" where
  "ref_sols = set (filter ref_ok (permutations 5 [1..<10]))"

definition ref_code :: "nat list \<Rightarrow> nat" where
  "ref_code p = foldl (\<lambda>n d. n * 10 + d) 0 p"

definition ref_lines :: "string list" where
  "ref_lines =
     (let subsets = sort ` ref_sols; codes = sorted_list_of_set (ref_code ` ref_sols)
      in [''exact legal solutions (all-different, sum==25, v0<v1): '' @ show_nat (card ref_sols),
          ''underlying distinct 5-subsets of [1,9] summing to 25: '' @ show_nat (card subsets),
          ''min code='' @ show_nat (hd codes) @ ''  max code='' @ show_nat (last codes)])"

definition ref_t_ok :: "int \<Rightarrow> nat list \<Rightarrow> bool" where
  "ref_t_ok PLIMIT p \<longleftrightarrow> ref_ok p \<and> int (p ! 2 * p ! 3) < PLIMIT"

definition ref_t_sols :: "int \<Rightarrow> nat list set" where
  "ref_t_sols PLIMIT = set (filter (ref_t_ok PLIMIT) (permutations 5 [1..<10]))"

definition ref_t_lines :: "int \<Rightarrow> string list" where
  "ref_t_lines PLIMIT =
     (let n = card (ref_t_sols PLIMIT); base = length (filter ref_ok (permutations 5 [1..<10]))
      in [concat [''PLIMIT='', show_int PLIMIT, '': legal solutions (sum25, v0<v1, v2*v3<PLIMIT) = '', show_nat n],
          concat [''  (base without product: '', show_nat base, ''; product removed '', show_int (int base - int n), '')'']])"

subsection \<open>The legal sets are exact\<close>

lemma permutations_set:
  "distinct xs \<Longrightarrow> set (permutations k xs) = {p. length p = k \<and> distinct p \<and> set p \<subseteq> set xs}"
proof (induction k arbitrary: xs)
  case (Suc k)
  have rest: "distinct (take i xs @ drop (Suc i) xs)" "set (take i xs @ drop (Suc i) xs) = set xs - {xs ! i}"
    if "i < length xs" for i
  proof -
    have eq: "xs = take i xs @ xs ! i # drop (Suc i) xs" using that by (simp add: id_take_nth_drop)
    with Suc.prems have "distinct (take i xs @ xs ! i # drop (Suc i) xs)" by simp
    then show "distinct (take i xs @ drop (Suc i) xs)" by auto
    have "set xs = set (take i xs @ xs ! i # drop (Suc i) xs)" using eq by simp
    with \<open>distinct (take i xs @ xs ! i # drop (Suc i) xs)\<close>
    show "set (take i xs @ drop (Suc i) xs) = set xs - {xs ! i}" by auto
  qed
  have "p \<in> set (permutations (Suc k) xs) \<longleftrightarrow> length p = Suc k \<and> distinct p \<and> set p \<subseteq> set xs" for p
  proof (cases p)
    case (Cons x ps)
    have "p \<in> set (permutations (Suc k) xs) \<longleftrightarrow>
        (\<exists>i < length xs. x = xs ! i \<and> ps \<in> set (permutations k (take i xs @ drop (Suc i) xs)))"
      by (auto simp: Cons)
    also have "\<dots> \<longleftrightarrow> (\<exists>i < length xs. x = xs ! i \<and> length ps = k \<and> distinct ps \<and> set ps \<subseteq> set xs - {xs ! i})"
      using Suc.IH [OF rest(1)] rest(2) by auto
    also have "\<dots> \<longleftrightarrow> x \<in> set xs \<and> length ps = k \<and> distinct ps \<and> set ps \<subseteq> set xs - {x}"
      by (metis in_set_conv_nth)
    also have "\<dots> \<longleftrightarrow> length p = Suc k \<and> distinct p \<and> set p \<subseteq> set xs"
      by (auto simp: Cons)
    finally show ?thesis .
  qed auto
  then show ?case by blast
qed auto

theorem ref_sols_exact:
  "p \<in> ref_sols \<longleftrightarrow> length p = 5 \<and> distinct p \<and> set p \<subseteq> {1..9} \<and> sum_list p = 25 \<and> p ! 0 < p ! 1"
proof -
  have "set [1..<10] = {1..9 :: nat}" by auto
  then show ?thesis
    using permutations_set [of "[1..<10 :: nat]" 5] distinct_card [of p] by (auto simp: ref_sols_def ref_ok_def)
qed

subsection \<open>The colourability test is exact\<close>

definition proper :: "graph \<Rightarrow> (nat \<Rightarrow> nat) \<Rightarrow> bool" where
  "proper A f \<longleftrightarrow> (\<forall>v < length A. f v \<in> {1, 2, 3} \<and> (\<forall>w \<in> A ! v. f v \<noteq> f w))"

definition symmetric :: "graph \<Rightarrow> bool" where
  "symmetric A \<longleftrightarrow> (\<forall>v < length A. \<forall>w \<in> A ! v. w < length A \<and> w \<noteq> v \<and> v \<in> A ! w)"

lemma symmetricD: "symmetric A \<Longrightarrow> v < length A \<Longrightarrow> w \<in> A ! v \<Longrightarrow> w < length A \<and> w \<noteq> v \<and> v \<in> A ! w"
  unfolding symmetric_def by blast

text \<open>The coloured nodes are coloured properly; the others carry 0, which is no colour.\<close>

definition partial_colouring :: "graph \<Rightarrow> nat set \<Rightarrow> nat list \<Rightarrow> bool" where
  "partial_colouring A S col \<longleftrightarrow> length col = length A \<and> (\<forall>v < length A. v \<notin> S \<longrightarrow> col ! v = 0) \<and>
     (\<forall>v \<in> S. v < length A \<and> col ! v \<in> {1, 2, 3} \<and> (\<forall>w \<in> A ! v. w \<in> S \<longrightarrow> col ! v \<noteq> col ! w))"

lemma colour_rest_iff:
  assumes "symmetric A"
  shows "partial_colouring A S col \<Longrightarrow> distinct vs \<Longrightarrow> set vs = {..<length A} - S \<Longrightarrow>
    colour_rest A vs col \<longleftrightarrow> (\<exists>f. proper A f \<and> (\<forall>v \<in> S. f v = col ! v))"
proof (induction vs arbitrary: S col)
  case Nil
  then have S: "S = {..<length A}" by (auto simp: partial_colouring_def)
  have "proper A (\<lambda>v. col ! v)"
    using Nil(1) assms S unfolding proper_def partial_colouring_def symmetric_def by (metis lessThan_iff)
  then show ?case by auto
next
  case (Cons v vs)
  have v: "v < length A" "v \<notin> S" using Cons.prems(3) by auto
  have pc: "partial_colouring A (insert v S) (col[v := c])" if c: "c \<in> {1, 2, 3}" "\<forall>w \<in> A ! v. col ! w \<noteq> c" for c
  proof -
    have len: "length col = length A" using Cons.prems(1) by (simp add: partial_colouring_def)
    have at: "col[v := c] ! x = (if x = v then c else col ! x)" for x using v(1) len by (simp add: nth_list_update)
    have "x < length A \<and> col[v := c] ! x \<in> {1, 2, 3} \<and> (\<forall>w \<in> A ! x. w \<in> insert v S \<longrightarrow> col[v := c] ! x \<noteq> col[v := c] ! w)"
      if x: "x \<in> insert v S" for x
    proof (cases "x = v")
      case True
      have "w \<noteq> v" if "w \<in> A ! v" for w using symmetricD [OF assms v(1) that] by simp
      then show ?thesis using c v(1) True by (auto simp: at)
    next
      case False
      then have xS: "x \<in> S" using x by simp
      then have old: "x < length A" "col ! x \<in> {1, 2, 3}" "\<forall>w \<in> A ! x. w \<in> S \<longrightarrow> col ! x \<noteq> col ! w"
        using Cons.prems(1) by (auto simp: partial_colouring_def)
      have "v \<in> A ! x \<Longrightarrow> x \<in> A ! v" using symmetricD [OF assms old(1)] by blast
      then show ?thesis using c(2) old False by (auto simp: at)
    qed
    moreover have "x \<notin> insert v S \<Longrightarrow> col[v := c] ! x = 0" if "x < length A" for x
      using Cons.prems(1) that by (simp add: at partial_colouring_def)
    ultimately show ?thesis unfolding partial_colouring_def length_list_update using len by blast
  qed
  have rest: "distinct vs" "set vs = {..<length A} - insert v S" using Cons.prems(2,3) by auto
  have nb: "w < length A \<and> w \<noteq> v" if "w \<in> A ! v" for w using symmetricD [OF assms v(1) that] by simp
  have ext: "(\<forall>x \<in> insert v S. f x = col[v := c] ! x) \<longleftrightarrow> f v = c \<and> (\<forall>x \<in> S. f x = col ! x)" for f c
    using v Cons.prems(1) by (auto simp: partial_colouring_def nth_list_update)
  have "colour_rest A (v # vs) col \<longleftrightarrow>
      (\<exists>c \<in> {1, 2, 3}. (\<forall>w \<in> A ! v. col ! w \<noteq> c) \<and> (\<exists>f. proper A f \<and> f v = c \<and> (\<forall>x \<in> S. f x = col ! x)))"
    using Cons.IH [OF pc rest] ext by auto
  also have "\<dots> \<longleftrightarrow> (\<exists>f. proper A f \<and> (\<forall>x \<in> S. f x = col ! x))"
  proof
    assume "\<exists>f. proper A f \<and> (\<forall>x \<in> S. f x = col ! x)"
    then obtain f where f: "proper A f" "\<forall>x \<in> S. f x = col ! x" by blast
    have "col ! w \<noteq> f v" if "w \<in> A ! v" for w
    proof (cases "w \<in> S")
      case True
      have "f v \<noteq> f w" using f(1) v(1) that unfolding proper_def by blast
      then show ?thesis using f(2) True by simp
    next
      case False
      then have "col ! w = 0" using Cons.prems(1) nb [OF that] by (simp add: partial_colouring_def)
      then show ?thesis using f(1) v by (auto simp: proper_def)
    qed
    moreover have "f v \<in> {1, 2, 3}" using f(1) v by (simp add: proper_def)
    ultimately show "\<exists>c \<in> {1, 2, 3}. (\<forall>w \<in> A ! v. col ! w \<noteq> c) \<and> (\<exists>f. proper A f \<and> f v = c \<and> (\<forall>x \<in> S. f x = col ! x))"
      using f by blast
  qed blast
  finally show ?case .
qed

theorem is_sat_exact:
  assumes "symmetric A" and "length A = N"
  shows "is_sat N A \<longleftrightarrow> (\<exists>f. proper A f)"
proof -
  let ?vs = "sort_key (\<lambda>x. - int (card (A ! x))) [0..<N]"
  have "partial_colouring A {} (replicate N 0)" using assms(2) by (simp add: partial_colouring_def)
  from colour_rest_iff [OF assms(1) this, of ?vs] assms(2) show ?thesis
    by (simp add: is_sat_def atLeast0LessThan)
qed

text \<open>Both generators build symmetric graphs without loops.\<close>

lemma add_edge_at:
  assumes "u < length A" "v < length A" "u \<noteq> v" "x < length A"
  shows "w \<in> add_edge A (u, v) ! x \<longleftrightarrow> w \<in> A ! x \<or> x = u \<and> w = v \<or> x = v \<and> w = u"
  using assms by (auto simp: add_edge_def Let_def nth_list_update)

lemma length_add_edge [simp]: "length (add_edge A e) = length A"
  by (cases e) (simp add: add_edge_def Let_def)

lemma add_edge_ok:
  assumes "symmetric A" "u < length A" "v < length A" "u \<noteq> v"
  shows "symmetric (add_edge A (u, v))"
  unfolding symmetric_def length_add_edge
proof (intro allI impI ballI)
  fix x w assume x: "x < length A" and w: "w \<in> add_edge A (u, v) ! x"
  have old: "w < length A \<and> w \<noteq> x \<and> x \<in> A ! w" if "w \<in> A ! x" using symmetricD [OF assms(1) x that] .
  show "w < length A \<and> w \<noteq> x \<and> x \<in> add_edge A (u, v) ! w"
    using w old assms(2-4) unfolding add_edge_at [OF assms(2-4) x]
    by (elim disjE) (auto simp: add_edge_at [OF assms(2-4)])
qed

lemma adj_ok:
  assumes "\<forall>(u, v) \<in> set E. u < N \<and> v < N \<and> u \<noteq> v"
  shows "symmetric (adj N E) \<and> length (adj N E) = N"
proof -
  have "symmetric A \<Longrightarrow> length A = N \<Longrightarrow> symmetric (foldl add_edge A E) \<and> length (foldl add_edge A E) = N" for A
    using assms
  proof (induction E arbitrary: A)
    case (Cons e E)
    then show ?case using add_edge_ok [of A] by (cases e) auto
  qed simp
  moreover have "symmetric (replicate N {})" by (simp add: symmetric_def)
  ultimately show ?thesis by (simp add: adj_def)
qed

lemma adj_edges:
  assumes "\<forall>(u, v) \<in> set E. u < N \<and> v < N \<and> u \<noteq> v" and "v < N" "w \<in> adj N E ! v"
  shows "(v, w) \<in> set E \<or> (w, v) \<in> set E"
proof -
  have "length A = N \<Longrightarrow> w \<in> foldl add_edge A E ! v \<Longrightarrow> w \<in> A ! v \<or> (v, w) \<in> set E \<or> (w, v) \<in> set E" for A
    using assms(1)
  proof (induction E arbitrary: A)
    case (Cons e E)
    obtain a b where e: "e = (a, b)" by (cases e)
    have ab: "a < N" "b < N" "a \<noteq> b" using Cons.prems(3) e by auto
    have "length (add_edge A e) = N" using Cons.prems(1) by simp
    with Cons.IH [of "add_edge A e"] Cons.prems have "w \<in> add_edge A e ! v \<or> (v, w) \<in> set E \<or> (w, v) \<in> set E" by auto
    moreover have "w \<in> A ! v \<or> (v, w) = e \<or> (w, v) = e" if "w \<in> add_edge A e ! v"
      using that Cons.prems(1) ab assms(2) add_edge_at [of a A b v w] by (auto simp: e)
    ultimately show ?case by auto
  qed simp
  from this [of "replicate N {}"] assms(2,3) show ?thesis by (simp add: adj_def)
qed

subsection \<open>Planted instances are colourable\<close>

lemma lcg_r_less: "lcg_r n s = Some (k, s') \<Longrightarrow> k < n"
  by (auto simp: lcg_r_def Let_def split: if_splits)

lemma lcg_r_total: "0 < n \<Longrightarrow> \<exists>k s'. lcg_r n s = Some (k, s')"
  by (simp add: lcg_r_def Let_def)

lemma plant_ok: "\<exists>col s'. plant n s = Some (col, s') \<and> length col = n \<and> set col \<subseteq> {1, 2, 3}"
proof (induction n arbitrary: s)
  case (Suc n)
  obtain c s1 where c: "lcg_r 3 s = Some (c, s1)" "c < 3" using lcg_r_total [of 3 s] lcg_r_less by fastforce
  obtain col s2 where "plant n s1 = Some (col, s2)" "length col = n" "set col \<subseteq> {1, 2, 3}" using Suc by blast
  with c show ?case by auto
qed simp

definition planted_ok :: "nat \<Rightarrow> nat list \<Rightarrow> edges \<Rightarrow> bool" where
  "planted_ok N col E \<longleftrightarrow> finite E \<and> (\<forall>(u, v) \<in> E. u < v \<and> v < N \<and> col ! u \<noteq> col ! v)"

lemma planted_loop:
  assumes "0 < N"
  shows "\<exists>E. loop (planted_body N M col) (s, 0, {}) = Some E \<and> planted_ok N col E"
proof (rule loop_measure [where I = "\<lambda>(s, g, E). planted_ok N col E" and f = "\<lambda>(s, g, E). nat (M * 100 - g)"])
  show "case (s, 0, {}) of (s, g, E) \<Rightarrow> planted_ok N col E" by (simp add: planted_ok_def)
  fix x :: "nat \<times> int \<times> edges"
  assume I: "case x of (s, g, E) \<Rightarrow> planted_ok N col E"
  obtain s g E where x: "x = (s, g, E)" by (cases x) auto
  obtain a s1 where a: "lcg_r N s = Some (a, s1)" "a < N" using lcg_r_total [OF assms] lcg_r_less by blast
  obtain b s2 where b: "lcg_r N s1 = Some (b, s2)" "b < N" using lcg_r_total [OF assms] lcg_r_less by blast
  have "planted_ok N col (insert (min a b, max a b) E)" if "a \<noteq> b" "col ! a \<noteq> col ! b"
    using I that a(2) b(2) by (auto simp: x planted_ok_def min_def max_def)
  then show "\<exists>y. planted_body N M col x = Some y \<and> (case y of Inl r \<Rightarrow> planted_ok N col r
      | Inr y' \<Rightarrow> (case y' of (s, g, E) \<Rightarrow> planted_ok N col E) \<and>
          (case y' of (s, g, E) \<Rightarrow> nat (M * 100 - g)) < (case x of (s, g, E) \<Rightarrow> nat (M * 100 - g)))"
    using I a(1) b(1) by (auto simp: x planted_body_def)
qed

text \<open>C40. The planted generator ends, whatever the density and the seed, and its instance is colourable: the
  colouring it drew is proper for the graph it emits, and the exact test accepts that graph.\<close>

theorem planted_colourable:
  assumes "0 < N"
  shows "\<exists>col E. planted N M seed = Some (col, E) \<and> proper (adj N E) (\<lambda>v. col ! v) \<and> is_sat N (adj N E)"
proof -
  obtain col s where c: "plant N (LCG seed) = Some (col, s)" "length col = N" "set col \<subseteq> {1, 2, 3}"
    using plant_ok by blast
  obtain E where E: "loop (planted_body N M col) (s, 0, {}) = Some E" "planted_ok N col E"
    using planted_loop [OF assms] by blast
  let ?E = "sorted_list_of_set E"
  have set: "set ?E = E" using E(2) by (simp add: planted_ok_def)
  have ok: "\<forall>(u, v) \<in> set ?E. u < N \<and> v < N \<and> u \<noteq> v" using E(2) unfolding set by (auto simp: planted_ok_def)
  have len: "symmetric (adj N ?E)" "length (adj N ?E) = N" using adj_ok [OF ok] by auto
  have "col ! v \<noteq> col ! w" if "v < N" "w \<in> adj N ?E ! v" for v w
    using adj_edges [OF ok that] E(2) unfolding set by (auto simp: planted_ok_def)
  moreover have "col ! v \<in> {1, 2, 3}" if "v < N" for v using c(2,3) that by (auto dest!: nth_mem)
  ultimately have "proper (adj N ?E) (\<lambda>v. col ! v)" using len(2) by (simp add: proper_def)
  moreover have "is_sat N (adj N ?E)" using is_sat_exact [OF len] calculation by blast
  ultimately show ?thesis using c(1) E(1) by (simp add: planted_def)
qed

theorem planted_colourable_witness:
  "\<exists>col E. planted 64 150 1 = Some (col, E) \<and> proper (adj 64 E) (\<lambda>v. col ! v) \<and> is_sat 64 (adj 64 E)"
  by (rule planted_colourable) simp

subsection \<open>The fuel of the backtrack count\<close>

definition shrinks :: "domains \<Rightarrow> domains \<Rightarrow> bool" where
  "shrinks dm' dm \<longleftrightarrow> length dm' = length dm \<and> (\<forall>w < length dm. dm' ! w \<subseteq> dm ! w)"

lemma shrinks_trans: "shrinks c b \<Longrightarrow> shrinks b a \<Longrightarrow> shrinks c a"
  by (auto simp: shrinks_def)

lemma prop_nbrs_shrinks: "prop_nbrs c ws q dm = Some (q', dm') \<Longrightarrow> shrinks dm' dm"
proof (induction ws arbitrary: q dm)
  case (Cons w ws)
  have "dm[w := dm ! w - {c}] ! x \<subseteq> dm ! x" if "x < length dm" for x
    using that by (cases "x = w") auto
  then have "shrinks (dm[w := dm ! w - {c}]) dm" by (simp add: shrinks_def)
  with Cons show ?case by (auto simp: Let_def split: if_splits intro: shrinks_trans)
qed (simp add: shrinks_def)

lemma prop_units_shrinks:
  assumes "prop_units ord A dm seeds = Some (Some nd)"
  shows "shrinks nd dm"
proof -
  have "case Some nd of None \<Rightarrow> True | Some nd \<Rightarrow> shrinks nd dm"
  proof (rule loop_partial [where I = "\<lambda>(q, d). shrinks d dm" and body = "prop_body ord A" and s = "(seeds, dm)"])
    show "loop (prop_body ord A) (seeds, dm) = Some (Some nd)" using assms by (simp add: prop_units_def)
    show "case (seeds, dm) of (q, d) \<Rightarrow> shrinks d dm" by (simp add: shrinks_def)
    show "case s' of (q, d) \<Rightarrow> shrinks d dm"
      if "case s of (q, d) \<Rightarrow> shrinks d dm" "prop_body ord A s = Some (Inr s')" for s s'
      using that by (auto simp: prop_body_def Let_def split: if_splits option.splits prod.splits
          dest!: prop_nbrs_shrinks intro: shrinks_trans)
    show "case r of None \<Rightarrow> True | Some nd \<Rightarrow> shrinks nd dm"
      if "case s of (q, d) \<Rightarrow> shrinks d dm" "prop_body ord A s = Some (Inl r)" for s and r :: "domains option"
      using that by (auto simp: prop_body_def Let_def split: if_splits option.splits prod.splits)
  qed
  then show ?thesis by simp
qed

definition undecided :: "nat \<Rightarrow> domains \<Rightarrow> nat list" where
  "undecided N dm = filter (\<lambda>v. card (dm ! v) > 1) [0..<N]"

lemma undecided_shrinks:
  assumes "shrinks nd (dm[v := {c}])" "length dm = N" "\<forall>w < N. finite (dm ! w)" "v \<in> set (undecided N dm)"
  shows "length (undecided N nd) < length (undecided N dm) \<and> (\<forall>w < N. finite (nd ! w)) \<and> length nd = N"
proof -
  have sub: "nd ! w \<subseteq> (if w = v then {c} else dm ! w)" if "w < N" for w
  proof -
    have "nd ! w \<subseteq> dm[v := {c}] ! w" using assms(1,2) that by (simp add: shrinks_def)
    then show ?thesis using assms(2) that by (cases "w = v") simp_all
  qed
  have fin: "finite (nd ! w)" if "w < N" for w
    using sub [OF that] assms(3) that by (auto split: if_splits intro: finite_subset)
  have "set (undecided N nd) \<subseteq> set (undecided N dm) - {v}"
  proof
    fix w assume w: "w \<in> set (undecided N nd)"
    then have wN: "w < N" and two: "card (nd ! w) > 1" by (auto simp: undecided_def)
    have "w \<noteq> v" using two card_mono [OF _ sub [OF wN]] by auto
    moreover have "card (nd ! w) \<le> card (dm ! w)" using card_mono [OF _ sub [OF wN]] assms(3) wN \<open>w \<noteq> v\<close> by simp
    ultimately show "w \<in> set (undecided N dm) - {v}" using wN two by (simp add: undecided_def)
  qed
  then have "card (set (undecided N nd)) < card (set (undecided N dm))"
    using assms(4) by (intro psubset_card_mono) auto
  moreover have "card (set (undecided N d)) = length (undecided N d)" for d
    by (rule distinct_card) (simp add: undecided_def)
  ultimately show ?thesis using fin assms(1,2) by (simp add: shrinks_def)
qed

lemma try_values_cong:
  assumes "\<And>c nd bs. prop_units ord A (dm[v := {c}]) [v] = Some (Some nd) \<Longrightarrow> rec nd bs = rec' nd bs"
  shows "try_values rec ord A v dm cs bs = try_values rec' ord A v dm cs bs"
  by (induction cs arbitrary: bs) (auto simp: assms split: option.split)

lemma cp_rec_fuel:
  "length dm = N \<Longrightarrow> \<forall>w < N. finite (dm ! w) \<Longrightarrow> length (undecided N dm) < k \<Longrightarrow> length (undecided N dm) < k' \<Longrightarrow>
   cp_rec ord N A cap k dm bs = cp_rec ord N A cap k' dm bs"
proof (induction k arbitrary: k' dm bs)
  case (Suc k)
  obtain j where k': "k' = Suc j" using Suc.prems(4) by (cases k') auto
  have "try_values (cp_rec ord N A cap k) ord A (undecided N dm ! i) dm cs st =
      try_values (cp_rec ord N A cap j) ord A (undecided N dm ! i) dm cs st"
    if "i < length (undecided N dm)" for i cs st
  proof (rule try_values_cong)
    fix c nd bs
    assume "prop_units ord A (dm[undecided N dm ! i := {c}]) [undecided N dm ! i] = Some (Some nd)"
    from undecided_shrinks [OF prop_units_shrinks [OF this] Suc.prems(1,2)] that
    have "length (undecided N nd) < length (undecided N dm)" "\<forall>w < N. finite (nd ! w)" "length nd = N" by auto
    then show "cp_rec ord N A cap k nd bs = cp_rec ord N A cap j nd bs"
      using Suc.IH [of nd j bs] Suc.prems(3,4) k' by simp
  qed
  note vals = this
  have step: "(do { (i, s) \<leftarrow> lcg_r (length (undecided N dm)) s;
            (cs, s) \<leftarrow> shuffle_down (length (ord (dm ! (undecided N dm ! i))) - 1) (ord (dm ! (undecided N dm ! i))) s;
            try_values (cp_rec ord N A cap k) ord A (undecided N dm ! i) dm cs (bt, s) }) =
       (do { (i, s) \<leftarrow> lcg_r (length (undecided N dm)) s;
            (cs, s) \<leftarrow> shuffle_down (length (ord (dm ! (undecided N dm ! i))) - 1) (ord (dm ! (undecided N dm ! i))) s;
            try_values (cp_rec ord N A cap j) ord A (undecided N dm ! i) dm cs (bt, s) })" for bt s
  proof (cases "lcg_r (length (undecided N dm)) s")
    case (Some r)
    then obtain i s1 where r: "lcg_r (length (undecided N dm)) s = Some (i, s1)" by (cases r) auto
    show ?thesis using vals [OF lcg_r_less [OF r]] by (simp add: r)
  qed simp
  show ?case using step by (cases bs) (simp add: k' Let_def undecided_def)
qed simp

end
