(* ===== verification/Spec2Isabelle.thy ===== *)
theory Spec2Isabelle
  imports Ternary Prove Smt_Array Csc_Print Csc_Gen Csc_Lower Word_Mc Sec Smt_Read Tier1 Tier2 Sat_Gen
begin

text \<open>
  This development verifies the Python programs of the repository
  \<open>emergent-hardware-verification-code\<close>: the proof engines of chapter 3
  (\<open>src/ch3_fv_examples/01_proof_engines\<close>), the constraint compiler and the constructive samplers of
  appendix F (\<open>src/appF_synthesize_constraints\<close>, directories \<open>01_constraint_compiler\<close>,
  \<open>02_constructive_samplers\<close> and \<open>04_sat_engine\<close>). File names below are relative to these directories.

  \<^bold>\<open>How the program is put together.\<close> A design is a transition system (\<open>TransitionSystem\<close> of
  \<open>circuit.py\<close>): state bits with initial values and next-state functions, inputs, and a property whose
  negation is \<open>bad\<close>, all of them signal DAGs. An engine unrolls it into frames, turns the signals into
  clauses (\<open>tseitin\<close>) and asks the SAT solver of \<open>cdcl.py\<close>. The engines are bounded model checking
  (\<open>bmc.py\<close>), temporal induction (\<open>kinduction.py\<close>), IC3 (\<open>ic3.py\<close>), interpolation (\<open>interp.py\<close>) and
  abstraction refinement (\<open>cegar.py\<close>); \<open>liveness.py\<close> reduces assumptions and response properties to
  their input. \<open>smt.py\<close> decides bit-vector formulas by DPLL(T) and bit-blasting, read from SMT-LIB by
  \<open>smt_frontend.py\<close>; \<open>word.py\<close>, \<open>sec.py\<close> and \<open>memproof.py\<close> model check at word level.
  The constraint compiler \<open>csc.py\<close> reads constraints, classifies and lowers them, and generates samplers
  from enumeration BDDs.

  \<^bold>\<open>The theories.\<close> Each opens with what it holds; the definitions follow the order of the source and keep
  its names, a suffix or prefix added where a name is taken.

  \<^item> \<open>Prelude\<close>: the option monad (\<open>None\<close> is a run that raises or does not return), the combinator \<open>loop\<close>
    for \<open>while\<close> with its total and partial correctness rules, list indexing, generic list lemmas.
  \<^item> \<open>Signals\<close>, \<open>Ternary\<close>, \<open>Bitvec\<close>, \<open>TransSys\<close>, \<open>Encode\<close>, \<open>Frames\<close>: \<open>circuit.py\<close>. A \<open>Sig\<close> is a datatype
    whose nodes carry their identity, the class counter is the state of the \<open>alloc\<close> monad; \<open>sval\<close> is the
    Boolean function of a node, \<open>bvv\<close> the number of a bit-vector, \<open>step\<close>, \<open>run\<close> and \<open>cex\<close> the semantics of a
    transition system. The locale \<open>clause_sink\<close> is the interface between the encoder and a solver: what an
    \<open>add_clause\<close> has to keep; it is interpreted on \<open>Solver.add_clause\<close> and, extended to \<open>logging_sink\<close>, on
    the recording solver (\<open>Recorder\<close>).
  \<^item> \<open>Float64\<close>, \<open>Solver\<close>, \<open>Solver_Inv\<close>, \<open>Solver_Propagate\<close>, \<open>Solver_Analyze\<close>, \<open>Solver_Search\<close>: \<open>cdcl.py\<close>.
    Class \<open>Solver\<close> is a record with a heap of clause objects; \<open>mods\<close> is its abstract value (the models),
    \<open>inv\<close> and \<open>W\<close> the trail and watch invariants. Every method keeps them; propagation, analysis and search
    terminate, and \<open>solve\<close> decides satisfiability under assumptions with a genuine core.
  \<^item> \<open>Query\<close>: how the engines grow a solver by names and asserted signals, as composable rules.
  \<^item> \<open>Bmc\<close>: \<open>bmc.py\<close> and \<open>kinduction.py\<close>, with the decoding of a counterexample into rows.
  \<^item> \<open>Heapq\<close>, \<open>Ic3\<close>, \<open>Ic3_Query\<close>, \<open>Ic3_Search\<close>, \<open>Ic3_Solve\<close>: Python's heap (locale \<open>levelled\<close>, interpreted on
    the obligations) and class \<open>IC3\<close>; the iteration order of Python's sets is the parameter \<open>traversal\<close>.
  \<^item> \<open>Liveness\<close>, \<open>Lasso\<close>, \<open>Lasso_Proof\<close>: \<open>liveness.py\<close> and why the lasso construction is exact.
  \<^item> \<open>Dpll\<close>, \<open>Interp\<close>: \<open>interp.py\<close>, the proof-producing DPLL, McMillan's labelling and \<open>itp_mc\<close>.
  \<^item> \<open>Cegar\<close>: \<open>cegar.py\<close>.
  \<^item> \<open>Smt_Term\<close>, \<open>Smt\<close>, \<open>Smt_Loop\<close>, \<open>Smt_Array\<close>, \<open>Smt_Read\<close>: \<open>smt.py\<close> and \<open>smt_frontend.py\<close>.
  \<^item> \<open>Word_Mc\<close>, \<open>Sec\<close>: \<open>word.py\<close>, \<open>sec.py\<close>, \<open>memproof.py\<close>.
  \<^item> \<open>Prove\<close>: \<open>prove.py\<close>, the escalation over the engines on a guarded design, its covers and responses, and the
    verdict of the check.
  \<^item> \<open>Csc\<close>, \<open>Csc_Parse\<close>, \<open>Csc_Print\<close>, \<open>Csc_Bdd\<close>, \<open>Csc_Gen\<close>, \<open>Csc_Lower\<close>: \<open>csc.py\<close>.
  \<^item> \<open>Tier1\<close>, \<open>Tier2\<close>, \<open>Sat_Gen\<close>: \<open>tier1_bdd/build_bdd.py\<close>, \<open>tier2_mul/ref.py\<close>, and \<open>gen4.py\<close>, \<open>gen5.py\<close>,
    \<open>solve_ref.py\<close>, \<open>solve_ref_t.py\<close> of the SAT engine.

  This root theory states the properties of the program that span theories, each with a concrete instance
  where it has hypotheses.

  \<^bold>\<open>Conventions.\<close> Errors: a function that can raise returns an option. Python integers are \<open>int\<close>, or \<open>nat\<close>
  where the source guarantees it; the machine words of the generated hardware are numbers with their
  wrap-around written out, or words where the emitted text fixes the width (the 32-bit thresholds of a weighted
  choice). A dictionary is a map, or an association list in insertion order where the
  source iterates it; where the source iterates a set the order is a parameter, a function of the set's value, and
  the theorems hold for each such order (Python's order may also depend on how the set was built). The node
  index of the clocked sampler is a \<open>nat\<close>: its register has as many bits as the node count needs. Objects compared by identity carry an identity: hypotheses \<open>pool P\<close> and \<open>pool_ok n P\<close> say that
  different nodes have different identities, below the counter \<open>n\<close>. \<open>wf_ts P ts\<close> is the well-formedness of a
  transition system over such nodes.

  \<^bold>\<open>Loops and fuel.\<close> A \<open>while\<close> loop is \<open>loop\<close>, whose result is \<open>None\<close> if it does not end, so a theorem that
  an operation equals \<open>Some\<close> includes termination: the solver's searches end because every conflict adds a
  fact, IC3 because blocking removes a state from a frame, DPLL(T) because every round excludes an
  assignment. Recursive parsers run on fuel: \<open>parse_spec\<close> and the SMT-LIB reader supply a bound in the
  number of tokens, and \<open>parse_result\<close> keeps running out of fuel (\<open>Out_of_fuel\<close>) apart from an exception
  (\<open>Raised\<close>), so \<open>parse_spec_terminates\<close> says that the parser ends; the lemmas of \<open>Smt_Read\<close> show that
  larger fuel changes nothing there; \<open>cp_rec_fuel\<close> shows that one more than the number of nodes is enough for the backtrack count of
  \<open>gen4.py\<close>. The rounds of \<open>cegar\<close>, the frames of IC3 and the depths of the other engines are bounded in the
  source itself.

  \<^bold>\<open>What the lemmas show.\<close> For the circuits: each construction denotes its arithmetic function. For the
  solver: invariants, refinement of the set of models, and total correctness. For the engines: total
  correctness of every verdict against runs of the transition system. For the compiler: round trips of
  printing and parsing, the bijection between ranks and solutions, the exact number of ranks that select each
  value of a weighted choice, and that the clocked sampler refines the package function; how the states of the
  shift register distribute over the ranks is counted where a theorem says so and not claimed to be uniform.
  For the driver: a check that passes is right. Lemmas that show a divergence between code and documentation are listed with the
  manifest's findings.

  \<^bold>\<open>Not modelled.\<close> The narration (\<open>trace.py\<close>, \<open>explain.py\<close> and every branch on \<open>T.on\<close>), printed
  progress, command lines and files; Python's recursion limit and its limits on the size of an integer (a left shift by a count that
  no index can represent raises, and has a value in \<open>ev_bin\<close>); the SystemVerilog reader \<open>frontend.py\<close> with \<open>word_frontend.py\<close>, and the modes of \<open>prove.py\<close> that only
  forward to an engine; \<open>frontend.py\<close> and \<open>survey.py\<close> of the constraint
  compiler, which are regular expressions over source texts; \<open>elf2vmem.py\<close>, which converts files with the
  package pyelftools; \<open>reggen_actor.py\<close>, which prints text from HJSON files; \<open>python_subscriber.py\<close>, a network
  client; the vendored riscv-dv generator, an input corpus; and everything that is not Python (the
  SystemVerilog, C++ and SystemC class libraries and the designs).
\<close>

section \<open>The SAT solver (\<open>cdcl.py\<close>)\<close>

declare new_vars.simps [simp del]

text \<open>A solver with \<open>k\<close> variables and no clauses, the concrete input of several witnesses.\<close>

abbreviation blank :: "nat \<Rightarrow> solver" where
  "blank k \<equiv> snd (new_vars k Solver)"

lemma blank_ok: "inv (blank k)" "n_vars (blank k) = k" "mods (blank k) = UNIV" "\<not> empty_flag (blank k)"
proof -
  have "n_vars Solver = 0" by (simp add: Solver_def)
  then show "inv (blank k)" "n_vars (blank k) = k" "mods (blank k) = UNIV"
    using inv_new_vars [OF inv_Solver, of k] by (simp_all add: mods_Solver)
  then show "\<not> empty_flag (blank k)" by (auto simp: mods_def)
qed

text \<open>C1. Total correctness of the solver as a decision procedure: from an empty solver with \<open>n\<close>
  variables and the clauses \<open>cls\<close>, \<open>solve\<close> returns, it answers True exactly when the clauses are
  satisfiable, and then \<open>get_value\<close> reads off an assignment that satisfies every clause.\<close>

theorem solver_decides:
  assumes "\<forall>c \<in> set cls. \<forall>l \<in> set c. lit_ok n l"
  shows "\<exists>b s. solve [] (add_clauses add_clause cls (blank n)) = Some (b, s) \<and>
    (b \<longleftrightarrow> (\<exists>m. \<forall>c \<in> set cls. sat_clause m c)) \<and>
    (b \<longrightarrow> (\<forall>c \<in> set cls. sat_clause (\<lambda>v. get_value v s) c))"
proof -
  let ?s = "add_clauses add_clause cls (blank n)"
  have a: "inv ?s" "mods ?s = {m. \<forall>c \<in> set cls. sat_clause m c}"
    using cdcl.add_clauses_ok [of "blank n" cls] assms by (simp_all add: blank_ok)
  obtain b s where "solve [] ?s = Some (b, s)" "solved [] ?s (b, s)"
    using solve_ok [OF a(1), of "[]"] by auto
  then show ?thesis using a(2) by (cases b) (auto simp: solved_def)
qed

theorem solver_decides_witness:
  "\<exists>b s. solve [] (add_clauses add_clause [[1, 2], [- 1, 2], [- 2]] (blank 2)) = Some (b, s) \<and>
    (b \<longleftrightarrow> (\<exists>m. \<forall>c \<in> set [[1, 2], [- 1, 2], [- 2]]. sat_clause m c)) \<and>
    (b \<longrightarrow> (\<forall>c \<in> set [[1, 2], [- 1, 2], [- 2]]. sat_clause (\<lambda>v. get_value v s) c))"
  by (rule solver_decides) (simp add: lit_ok_def lvar_def)

text \<open>C2. Incremental solving: in any state the invariant describes, \<open>solve\<close> under assumptions
  returns, keeps the invariant and the meaning of the clause set, and answers whether the clauses and
  the assumptions are jointly satisfiable; a True answer leaves a model that honours every assumption,
  also after backjumps and restarts.\<close>

theorem solve_assumptions:
  assumes "inv s" "\<forall>a \<in> set A. lit_ok (n_vars s) a"
  shows "\<exists>b s'. solve A s = Some (b, s') \<and> inv s' \<and> mods s' = mods s \<and>
    (b \<longleftrightarrow> (\<exists>m \<in> mods s. \<forall>a \<in> set A. sat_lit m a)) \<and>
    (b \<longrightarrow> (\<lambda>v. get_value v s') \<in> mods s \<and> (\<forall>a \<in> set A. sat_lit (\<lambda>v. get_value v s') a))"
proof -
  obtain b s' where "solve A s = Some (b, s')" "solved A s (b, s')"
    using solve_ok [OF assms] by auto
  then show ?thesis by (cases b) (auto simp: solved_def)
qed

theorem solve_assumptions_witness:
  "\<exists>b s'. solve [- 1, 2] (blank 2) = Some (b, s') \<and> inv s' \<and>
    mods s' = mods (blank 2) \<and>
    (b \<longleftrightarrow> (\<exists>m \<in> mods (blank 2). \<forall>a \<in> set [- 1, 2]. sat_lit m a)) \<and>
    (b \<longrightarrow> (\<lambda>v. get_value v s') \<in> mods (blank 2) \<and>
      (\<forall>a \<in> set [- 1, 2]. sat_lit (\<lambda>v. get_value v s') a))"
  by (rule solve_assumptions)
    (simp_all add: blank_ok lit_ok_def lvar_def)

text \<open>C3. The unsat core of a failed \<open>solve\<close> under assumptions is genuine: it consists of assumptions
  and is already unsatisfiable together with the clauses. The hypothesis that no empty clause was added
  is needed: in that case the source returns before it resets \<open>conflict_core\<close>.\<close>

theorem unsat_core_genuine:
  assumes "inv s" "\<forall>a \<in> set A. lit_ok (n_vars s) a" "\<not> empty_flag s" "solve A s = Some (False, s')"
  shows "set (conflict_core s') \<subseteq> set A \<and> \<not> (\<exists>m \<in> mods s. \<forall>a \<in> set (conflict_core s'). sat_lit m a)"
  using solve_ok [OF assms(1,2)] assms(3,4) by (auto simp: solved_def)

text \<open>Two assumptions that contradict each other make \<open>solve\<close> fail.\<close>

lemma core_example: "\<exists>s'. solve [- 1, 1] (blank 1) = Some (False, s')"
proof -
  obtain b s' where r: "solve [- 1, 1] (blank 1) = Some (b, s')"
    "solved [- 1, 1] (blank 1) (b, s')"
    using solve_ok [OF blank_ok(1), of "[- 1, 1]" 1] by (auto simp: lit_ok_def lvar_def blank_ok)
  moreover have "\<not> b" using r(2) by (auto simp: solved_def sat_lit_def lvar_def)
  ultimately show ?thesis by auto
qed

theorem unsat_core_genuine_witness:
  "\<exists>s'. solve [- 1, 1] (blank 1) = Some (False, s') \<and> set (conflict_core s') \<subseteq> set [- 1, 1] \<and>
     \<not> (\<exists>m \<in> mods (blank 1). \<forall>a \<in> set (conflict_core s'). sat_lit m a)"
proof -
  obtain s' where s': "solve [- 1, 1] (blank 1) = Some (False, s')"
    using core_example by blast
  have "inv (blank 1)" "\<forall>a \<in> set [- 1, 1]. lit_ok (n_vars (blank 1)) a"
    "\<not> empty_flag (blank 1)"
    by (simp_all add: blank_ok lit_ok_def lvar_def)
  from unsat_core_genuine [OF this s'] s' show ?thesis by blast
qed

text \<open>C4. \<open>add_clause\<close> refines intersection: it keeps the invariant at any decision level and its
  result has exactly the models that also satisfy the clause, tautologies, duplicates, units and the
  empty clause included; a False answer marks the solver unsatisfiable.\<close>

theorem add_clause_refines:
  assumes "inv s" "\<forall>l \<in> set ls. lit_ok (n_vars s) l"
  shows "inv (snd (add_clause ls s)) \<and> mods (snd (add_clause ls s)) = mods s \<inter> {m. sat_clause m ls} \<and>
    decision_level (snd (add_clause ls s)) = 0 \<and>
    (fst (add_clause ls s) \<or> mods (snd (add_clause ls s)) = {})"
  using add_clause_cases [OF assms] by (auto simp: decision_level_def mods_def)

theorem add_clause_refines_witness:
  "inv (snd (add_clause [1, - 1] (blank 1))) \<and>
    mods (snd (add_clause [1, - 1] (blank 1))) = mods (blank 1) \<inter> {m. sat_clause m [1, - 1]} \<and>
    decision_level (snd (add_clause [1, - 1] (blank 1))) = 0 \<and>
    (fst (add_clause [1, - 1] (blank 1)) \<or> mods (snd (add_clause [1, - 1] (blank 1))) = {})"
  by (rule add_clause_refines) (simp_all add: blank_ok lit_ok_def lvar_def)

text \<open>C5. Unit propagation with two watched literals: it returns, keeps the invariant and the set of
  models, only extends the trail, and when it reports no conflict the watch invariant holds for the
  whole trail, while a reported conflict clause is falsified by the trail.\<close>

theorem propagate_correct:
  assumes "inv s" "W s (qhead s)" "cur_start s \<le> qhead s"
  shows "\<exists>r s'. propagate s = Some (r, s') \<and> inv s' \<and> mods s' = mods s \<and>
    take (length (trail s)) (trail s') = trail s \<and> qhead s' = length (trail s') \<and>
    (case r of None \<Rightarrow> W s' (length (trail s')) | Some c \<Rightarrow> \<forall>l \<in> set (clits s' c). val s' l = Some False)"
proof -
  obtain r s' where r: "propagate s = Some (r, s')" "propagated s (r, s')"
    using propagate_ok [of s] assms by (auto simp: ready_def)
  then have i: "inv s'" "keeps s s'" by (simp_all add: propagated_def)
  have "val s' l = Some False" if "c < length (cdb s')" "- l \<in> set (trail s')" for c l
  proof -
    have "lit_ok (n_vars s') (- l)" "assign s' (lvar (- l)) = Some (0 < - l)"
      using i(1) that(2) unfolding inv_def binv_def trail_ok_def by blast+
    then show ?thesis by (auto simp: val_def lit_ok_def)
  qed
  then show ?thesis
    using r i by (auto simp: propagated_def keeps_def conflict_at_def split: option.splits)
qed

lemma ready_start: "inv (blank k) \<and> W (blank k) (qhead (blank k)) \<and>
   cur_start (blank k) \<le> qhead (blank k)"
proof -
  have "trail (snd (new_vars k s)) = trail s \<and> cdb (snd (new_vars k s)) = cdb s \<and>
    trail_lim (snd (new_vars k s)) = trail_lim s \<and> qhead (snd (new_vars k s)) = qhead s" for s :: solver
    by (induction k arbitrary: s) (simp_all add: split_beta Let_def new_vars.simps)
  from this [of Solver] show ?thesis
    using blank_ok(1) [of k] by (simp add: W_def cur_start_def Solver_def)
qed

theorem propagate_correct_witness:
  "\<exists>r s'. propagate (blank 1) = Some (r, s') \<and> inv s' \<and> mods s' = mods (blank 1) \<and>
    take (length (trail (blank 1))) (trail s') = trail (blank 1) \<and>
    qhead s' = length (trail s') \<and>
    (case r of None \<Rightarrow> W s' (length (trail s')) | Some c \<Rightarrow> \<forall>l \<in> set (clits s' c). val s' l = Some False)"
  by (rule propagate_correct) (use ready_start [of 1] in simp_all)

section \<open>Signals, bit-vectors and the Tseitin encoding (\<open>circuit.py\<close>)\<close>

text \<open>C6. The Tseitin encoding returns on every signal DAG whose variables are in the environment. In
  every model of the grown solver the returned literal has the value of the signal, every model of the
  old solver extends to a model of the new one, and the cache stays correct for later signals.\<close>

theorem tseitin_encodes:
  assumes "pool P" "g \<in> P" "sinv s" "env_ok (n_vars s) env (svars g)" "memo_ok P env memo s"
  shows "\<exists>l memo' s'. tseitin add_clause g env memo s = Some (l, memo', s') \<and> sinv s' \<and>
    lit_ok (n_vars s') l \<and> memo_ok P env memo' s' \<and> mods s' \<subseteq> mods s \<and>
    (\<forall>m \<in> mods s'. sat_lit m l = sval (eval_env env m) g) \<and>
    (\<forall>m \<in> mods s. \<exists>m' \<in> mods s'. \<forall>v \<le> n_vars s. m' v = m v)"
  using cdcl.tseitin_ok [OF assms] by (fastforce simp: encoded_def extends_def)

abbreviation xor_ab :: sig where
  "xor_ab \<equiv> SXor 2 (SVar 0 ''a'') (SVar 1 ''b'')"

lemma pool_xor: "pool {SVar 0 ''a'', SVar 1 ''b'', xor_ab}"
  by (simp add: pool_def)

lemma sinv_blank: "sinv (blank k)"
proof -
  have "true_lit (snd (new_vars k s)) = true_lit s" for s :: solver
    by (induction k arbitrary: s) (simp_all add: split_beta Let_def new_vars.simps)
  from this [of Solver] show ?thesis by (simp add: sinv_def blank_ok) (simp add: Solver_def)
qed

theorem tseitin_encodes_witness:
  "\<exists>l memo' s'. tseitin add_clause xor_ab [''a'' \<mapsto> 1, ''b'' \<mapsto> 2] Map.empty (blank 2) = Some (l, memo', s') \<and> sinv s' \<and>
    lit_ok (n_vars s') l \<and> memo_ok {SVar 0 ''a'', SVar 1 ''b'', xor_ab} [''a'' \<mapsto> 1, ''b'' \<mapsto> 2] memo' s' \<and>
    mods s' \<subseteq> mods (blank 2) \<and>
    (\<forall>m \<in> mods s'. sat_lit m l = sval (eval_env [''a'' \<mapsto> 1, ''b'' \<mapsto> 2] m) xor_ab) \<and>
    (\<forall>m \<in> mods (blank 2). \<exists>m' \<in> mods s'. \<forall>v \<le> n_vars (blank 2). m' v = m v)"
  by (rule tseitin_encodes [OF pool_xor])
    (simp_all add: sinv_blank blank_ok env_ok_def lit_ok_def lvar_def)

text \<open>C7. The ripple-carry adder computes addition modulo \<open>2 ^ w\<close>, for operands of any widths and any
  requested width \<open>w\<close>, under every valuation of the variables.\<close>

theorem bv_add_correct:
  "builds (set a \<union> set b) set (bv_add a b width)
     (bv_denotes (\<lambda>\<rho>. (bvv \<rho> a + bvv \<rho> b) mod 2 ^ the_width width a b)
        (bv_vars a \<union> bv_vars b) (the_width width a b))"
  by (rule builds_bv_add) blast

text \<open>C8. The shift-and-add multiplier computes multiplication modulo \<open>2 ^ w\<close>.\<close>

theorem bv_mul_correct:
  "builds (set a \<union> set b) set (bv_mul a b width)
     (bv_denotes (\<lambda>\<rho>. (bvv \<rho> a * bvv \<rho> b) mod 2 ^ the_width width a b)
        (bv_vars a \<union> bv_vars b) (the_width width a b))"
  by (rule builds_bv_mul) blast

text \<open>C9. \<open>bv_sub\<close>, built as \<open>a + (~b + 1)\<close>, computes the difference of the integers modulo \<open>2 ^ w\<close>.\<close>

theorem bv_sub_correct:
  "builds (set a \<union> set b) set (bv_sub a b width)
     (bv_denotes (\<lambda>\<rho>. nat ((int (bvv \<rho> a) - int (bvv \<rho> b)) mod 2 ^ the_width width a b))
        (bv_vars a \<union> bv_vars b) (the_width width a b))"
  by (rule builds_bv_weaken [OF builds_bv_sub]) (auto simp: sub_val_def)

text \<open>C10. The unsigned comparison \<open>bv_ge_const\<close>, an enumeration of the values from \<open>k\<close> on, is the
  order on the numbers, for constants that are negative or too large as well.\<close>

theorem bv_ge_const_correct:
  "builds (set a) (\<lambda>r. {r}) (bv_ge_const a k) (denotes (\<lambda>\<rho>. k \<le> int (bvv \<rho> a)) (bv_vars a))"
  by (rule builds_bv_ge_const) blast

text \<open>C11. Ternary simulation returns Kleene's value, computed by the iterative traversal exactly as
  by the recursive specification, and a definite answer is a proof: every completion of the unknown
  inputs gives the same value.\<close>

theorem ternary_eval_sound:
  assumes "pool P" "s \<in> P" "svars s \<subseteq> dom env"
  shows "\<exists>v memo'. ternary_eval s env Map.empty = Some (v, memo') \<and> v = tval (tenv env) s \<and>
    (\<forall>b \<sigma>. v = Some b \<longrightarrow> (\<forall>x \<in> svars s. env x = Some None \<or> env x = Some (Some (\<sigma> x))) \<longrightarrow> sval \<sigma> s = b)"
proof -
  have "tmemo_ok P env Map.empty" by (simp add: tmemo_ok_def)
  from ternary_eval_tval [OF assms this] obtain memo' where
    e: "ternary_eval s env Map.empty = Some (tval (tenv env) s, memo')" by blast
  have "sval \<sigma> s = b" if "tval (tenv env) s = Some b"
    "\<forall>x \<in> svars s. env x = Some None \<or> env x = Some (Some (\<sigma> x))" for b \<sigma>
    by (rule tval_sound [OF that(1)]) (use that(2) in \<open>auto simp: refines_def tenv_def\<close>)
  with e show ?thesis by auto
qed

theorem ternary_eval_sound_witness:
  "\<exists>v memo'. ternary_eval xor_ab [''a'' \<mapsto> Some True, ''b'' \<mapsto> None] Map.empty = Some (v, memo') \<and>
    v = tval (tenv [''a'' \<mapsto> Some True, ''b'' \<mapsto> None]) xor_ab \<and>
    (\<forall>b \<sigma>. v = Some b \<longrightarrow> (\<forall>x \<in> svars xor_ab. [''a'' \<mapsto> Some True, ''b'' \<mapsto> None] x = Some None \<or>
       [''a'' \<mapsto> Some True, ''b'' \<mapsto> None] x = Some (Some (\<sigma> x))) \<longrightarrow> sval \<sigma> xor_ab = b)"
  by (rule ternary_eval_sound [OF pool_xor]) simp_all

text \<open>\<open>support\<close> terminates on every DAG and returns exactly the variable names of the cone.\<close>

theorem support_is_cone:
  assumes "pool P" "s \<in> P"
  shows "support s = Some (svars s)"
  by (rule support_svars [OF assms])

theorem support_is_cone_witness: "support xor_ab = Some {''a'', ''b''}"
  using support_is_cone [OF pool_xor, of xor_ab] by auto

text \<open>\<open>count_gates\<close> counts every node that is neither a constant nor a variable once, also where
  nodes are shared.\<close>

theorem count_gates_counts:
  assumes "pool P" "s \<in> P"
  shows "count_gates s = card {t \<in> nodes s. \<not> is_leaf t}"
  by (rule count_gates_ids [OF assms])

theorem count_gates_counts_witness: "count_gates xor_ab = card {t \<in> nodes xor_ab. \<not> is_leaf t}"
  by (rule count_gates_counts [OF pool_xor]) simp

text \<open>The documentation of \<open>count_gates\<close> calls the result the number of auxiliary variables of the
  encoding; an inverter counts as a gate and takes no variable.\<close>

lemma inverter_takes_no_variable:
  "count_gates (SNot 1 (SVar 0 ''a'')) = 1"
  "tseitin add_clause (SNot 1 (SVar 0 ''a'')) [''a'' \<mapsto> 1] Map.empty s = Some (- 1, [1 \<mapsto> - 1], s)"
  by (simp_all add: count_gates_def gates_go.simps tseitin.simps)

section \<open>The proof engines over transition systems\<close>

text \<open>A bit that toggles from False, with the property that it stays False: unsafe after one step. It is
  the concrete system of the engines' witnesses.\<close>

definition toggle :: trans_system where
  "toggle = (add_state_bit ''x'' False (SNot 3 (SVar 2 ''x'')) (TransitionSystem ''toggle''))
     \<lparr>ts_bad := Some (SVar 2 ''x'')\<rparr>"

lemma toggle_ok: "wf_ts {SVar 2 ''x'', SNot 3 (SVar 2 ''x'')} toggle" "readable toggle"
  by (auto simp: wf_ts_def pool_def toggle_def add_state_bit_def TransitionSystem_def ts_names_def
      readable_def traceable_def no_clash_def is_indexed_def)

text \<open>An order in which sets are iterated: increasing literals, and cubes by their sorted literals.\<close>

definition sorted_traversal :: traversal where
  "sorted_traversal = \<lparr>of_cube = sorted_list_of_set,
     of_frame = (\<lambda>F. map set (sorted_list_of_set (sorted_list_of_set ` F)))\<rparr>"

lemma sorted_traversal_ok: "traversal_ok sorted_traversal"
proof -
  have "set (of_frame sorted_traversal F) = F \<and> distinct (of_frame sorted_traversal F)"
    if F: "finite F" "\<forall>c \<in> F. finite c" for F
  proof -
    have "set ` sorted_list_of_set ` F = F" using F(2) by (force simp: image_image)
    moreover have "inj_on set (sorted_list_of_set ` F)" using F(2) by (auto simp: inj_on_def)
    ultimately show ?thesis using F(1) by (simp add: sorted_traversal_def distinct_map)
  qed
  then show ?thesis by (simp add: traversal_ok_def) (simp add: sorted_traversal_def)
qed

text \<open>C12. Bounded model checking is complete up to its bound and returns. A \<open>CEX\<close> carries the shortest
  depth and the trace of a real run from the initial state to a violation; \<open>SAFE_UP_TO\<close> excludes every
  run of at most \<open>kmax\<close> steps.\<close>

theorem bmc_decides:
  assumes "wf_ts P ts" "readable ts"
  shows "\<exists>r. bmc ts kmax = Some r \<and> (case r of
     CEX k tr \<Rightarrow> k \<le> kmax \<and> (\<forall>j < k. \<forall>\<rho>. \<not> cex ts j \<rho>) \<and>
       (\<exists>\<rho>. cex ts k \<rho> \<and> tr = map (\<lambda>i. row_of ts (\<rho> i)) [0..<Suc k])
   | SAFE_UP_TO d \<Rightarrow> d = kmax \<and> (\<forall>j \<le> kmax. \<forall>\<rho>. \<not> cex ts j \<rho>))"
  using bmc_correct [OF assms, of kmax] unfolding bmc_ok_def .

theorem bmc_decides_witness:
  "\<exists>r. bmc toggle 3 = Some r \<and> (case r of
     CEX k tr \<Rightarrow> k \<le> 3 \<and> (\<forall>j < k. \<forall>\<rho>. \<not> cex toggle j \<rho>) \<and>
       (\<exists>\<rho>. cex toggle k \<rho> \<and> tr = map (\<lambda>i. row_of toggle (\<rho> i)) [0..<Suc k])
   | SAFE_UP_TO d \<Rightarrow> d = 3 \<and> (\<forall>j \<le> 3. \<forall>\<rho>. \<not> cex toggle j \<rho>))"
  by (rule bmc_decides [OF toggle_ok])

text \<open>C13. The one-step query returns and is satisfiable exactly when some good state, reachable or not,
  has a bad successor.\<close>

theorem one_step_inductive_correct:
  assumes "wf_ts P ts"
  shows "\<exists>sat s env0. one_step_inductive ts = Some (sat, s, env0) \<and>
    (sat \<longleftrightarrow> (\<exists>\<rho> \<rho>'. \<not> is_bad ts \<rho> \<and> step ts \<rho> \<rho>' \<and> is_bad ts \<rho>'))"
  by (rule one_step_inductive_ok [OF assms])

theorem one_step_inductive_correct_witness:
  "\<exists>sat s env0. one_step_inductive toggle = Some (sat, s, env0) \<and>
    (sat \<longleftrightarrow> (\<exists>\<rho> \<rho>'. \<not> is_bad toggle \<rho> \<and> step toggle \<rho> \<rho>' \<and> is_bad toggle \<rho>'))"
  by (rule one_step_inductive_correct [OF toggle_ok(1)])

text \<open>C14. k-induction returns, and each of its answers is right: \<open>PROVED\<close> means that no run of any length
  violates the property, \<open>KCEX\<close> carries the trace of a shortest violation, and \<open>STALLED\<close> that there is none
  shorter than \<open>kmax\<close> but that a counterexample to induction exists at every depth, the last one shown.\<close>

theorem k_induction_decides:
  assumes "wf_ts P ts" "readable ts"
  shows "\<exists>r. k_induction ts kmax = Some r \<and> (case r of
     PROVED k \<Rightarrow> k \<in> {1..kmax} \<and> safe ts
   | KCEX k tr \<Rightarrow> k \<in> {1..kmax} \<and> (\<forall>j < k - 1. \<forall>\<rho>. \<not> cex ts j \<rho>) \<and>
       (\<exists>\<rho>. cex ts (k - 1) \<rho> \<and> tr = map (\<lambda>i. row_of ts (\<rho> i)) [0..<k])
   | STALLED m c \<Rightarrow> m = kmax \<and> (\<forall>j < kmax. \<forall>\<rho>. \<not> cex ts j \<rho>) \<and> (\<forall>k \<in> {1..kmax}. \<exists>\<rho>. cti ts k \<rho>) \<and>
       (if kmax = 0 then c = None
        else \<exists>\<rho>. cti ts kmax \<rho> \<and> c = Some (map (\<lambda>i. row_of ts (\<rho> i)) [0..<Suc kmax])))"
  using k_induction_correct [OF assms, of kmax] unfolding kind_ok_def .

theorem k_induction_decides_witness:
  "\<exists>r. k_induction toggle 2 = Some r \<and> (case r of
     PROVED k \<Rightarrow> k \<in> {1..2} \<and> safe toggle
   | KCEX k tr \<Rightarrow> k \<in> {1..2} \<and> (\<forall>j < k - 1. \<forall>\<rho>. \<not> cex toggle j \<rho>) \<and>
       (\<exists>\<rho>. cex toggle (k - 1) \<rho> \<and> tr = map (\<lambda>i. row_of toggle (\<rho> i)) [0..<k])
   | STALLED m c \<Rightarrow> m = 2 \<and> (\<forall>j < 2. \<forall>\<rho>. \<not> cex toggle j \<rho>) \<and> (\<forall>k \<in> {1..2}. \<exists>\<rho>. cti toggle k \<rho>) \<and>
       (if (2 :: nat) = 0 then c = None
        else \<exists>\<rho>. cti toggle 2 \<rho> \<and> c = Some (map (\<lambda>i. row_of toggle (\<rho> i)) [0..<Suc 2])))"
  by (rule k_induction_decides [OF toggle_ok])

text \<open>C15. IC3 terminates on every well-formed system, for every order in which Python may iterate its
  sets, and never answers wrongly: \<open>SAFE\<close> comes with an inductive invariant that excludes every bad
  state, \<open>UNSAFE\<close> and \<open>UNSAFE_INIT\<close> with the existence of a violating run, \<open>UNKNOWN\<close> with the absence of
  violations shorter than the frame limit.\<close>

theorem ic3_decides:
  assumes "wf_ts P ts" "traversal_ok tr"
  shows "\<exists>r e. ic3_solve tr ts max_frames IC3 = Some (r, e) \<and> (case r of
     UNSAFE_INIT \<Rightarrow> \<exists>\<rho>. cex ts 0 \<rho>
   | UNSAFE k \<Rightarrow> no_short ts k \<and> (\<exists>d \<rho>. cex ts d \<rho>)
   | SAFE k iv \<Rightarrow> inductive_invariant ts iv \<and> safe ts
   | UNKNOWN m \<Rightarrow> m = max_frames \<and> no_short ts m)"
proof -
  obtain r e where "ic3_solve tr ts max_frames IC3 = Some (r, e)" "ic3_ok ts max_frames r"
    using ic3_correct [OF assms] by blast
  then show ?thesis using inductive_invariant_safe by (auto simp: ic3_ok_def split: ic3_result.splits)
qed

theorem ic3_decides_witness:
  "\<exists>r e. ic3_solve sorted_traversal toggle 10 IC3 = Some (r, e) \<and> (case r of
     UNSAFE_INIT \<Rightarrow> \<exists>\<rho>. cex toggle 0 \<rho>
   | UNSAFE k \<Rightarrow> no_short toggle k \<and> (\<exists>d \<rho>. cex toggle d \<rho>)
   | SAFE k iv \<Rightarrow> inductive_invariant toggle iv \<and> safe toggle
   | UNKNOWN m \<Rightarrow> m = 10 \<and> no_short toggle m)"
  by (rule ic3_decides [OF toggle_ok(1) sorted_traversal_ok])

text \<open>C16. Abstraction refinement ends and its verdicts are final: \<open>SAFE\<close>, proved on an abstraction, means that
  the concrete design is safe, and \<open>UNSAFE\<close> carries a trace whose rows are a violating run of the
  concrete design, reached in exactly the reported number of cycles.\<close>

theorem cegar_decides:
  assumes "wf_ts P ts" "traversal_ok tr"
  shows "\<exists>r. cegar tr ts max_frames max_rounds = Some r \<and> (case r of
     CE_SAFE m keep k iv \<Rightarrow> set keep \<subseteq> set (ts_state ts) \<and> safe ts
   | CE_UNSAFE m keep t rows \<Rightarrow> length rows = Suc t \<and> cex ts t (\<lambda>i. cycle_val (rows ! i))
   | CE_UNKNOWN m keep \<Rightarrow> True)"
  using cegar_correct [OF assms] by (simp add: cegar_ok_def)

theorem cegar_decides_witness:
  "\<exists>r. cegar sorted_traversal toggle 40 200 = Some r \<and> (case r of
     CE_SAFE m keep k iv \<Rightarrow> set keep \<subseteq> set (ts_state toggle) \<and> safe toggle
   | CE_UNSAFE m keep t rows \<Rightarrow> length rows = Suc t \<and> cex toggle t (\<lambda>i. cycle_val (rows ! i))
   | CE_UNKNOWN m keep \<Rightarrow> True)"
  by (rule cegar_decides [OF toggle_ok(1) sorted_traversal_ok])

text \<open>C17. Blocking one bad cube: the loop over proof obligations terminates, because every blocked
  predecessor removes a state from a frame. It returns True only after excluding the whole cube from the
  frontier, with every frame still an over-approximation of the states that many steps away, and False
  only when a violating run exists.\<close>

theorem block_decides:
  assumes "wf_ts P ts" "traversal_ok tr" "engine_ok P ts k e" "obligation_ok ts k (k, bad)"
  shows "\<exists>ok e'. block tr ts bad k e = Some (ok, e') \<and>
    (if ok then engine_ok P ts k e' \<and> tighter ts k (frames e) (frames e') \<and>
        (\<forall>\<rho>. in_cube ts bad \<rho> \<longrightarrow> \<not> frame_at ts (frames e') k \<rho>)
     else \<exists>d \<rho>. cex ts d \<rho>)"
proof -
  obtain ok e' where "block tr ts bad k e = Some (ok, e')" "blocked P ts k e bad (ok, e')"
    using block_ok [OF assms] by auto
  then show ?thesis by (intro exI [of _ ok] exI [of _ e']) (auto simp: blocked_def)
qed

lemma toggle_obligation: "obligation_ok toggle 1 (1, {1})"
proof -
  have x: "in_cube toggle {1} \<rho> \<longleftrightarrow> \<rho> ''x''" for \<rho>
    by (simp add: in_cube_def lit_at_def toggle_def add_state_bit_def TransitionSystem_def)
  have "cube_wf toggle {1}" by (simp add: cube_wf_def in_range_def toggle_def add_state_bit_def TransitionSystem_def)
  moreover have "doomed toggle {1}"
    unfolding doomed_def x run_def
    by (intro allI impI exI [of _ 0] exI [of _ "\<lambda>_ _. True"])
      (simp add: is_bad_def toggle_def add_state_bit_def TransitionSystem_def)
  moreover have "unreach toggle 1 {1}"
    unfolding unreach_def x by (simp add: is_init_def toggle_def add_state_bit_def TransitionSystem_def)
  ultimately show ?thesis by (simp add: obligation_ok_def)
qed

theorem block_decides_witness:
  "\<exists>ok e'. block sorted_traversal toggle {1} 1 IC3 = Some (ok, e') \<and>
    (if ok then engine_ok {SVar 2 ''x'', SNot 3 (SVar 2 ''x'')} toggle 1 e' \<and>
        tighter toggle 1 (frames IC3) (frames e') \<and>
        (\<forall>\<rho>. in_cube toggle {1} \<rho> \<longrightarrow> \<not> frame_at toggle (frames e') 1 \<rho>)
     else \<exists>d \<rho>. cex toggle d \<rho>)"
  by (rule block_decides [OF toggle_ok(1) sorted_traversal_ok engine_ok_IC3 toggle_obligation])

section \<open>Liveness and assumptions (\<open>liveness.py\<close>)\<close>

text \<open>The toggling bit with the obligation that \<open>x\<close> is always eventually followed by \<open>!x\<close>, under an
  assumption that always holds.\<close>

definition alternator :: trans_system where
  "alternator = toggle\<lparr>ts_liveness := [(SVar 2 ''x'', SNot 3 (SVar 2 ''x''))], ts_assumptions := [TRUE_s]\<rparr>"

abbreviation alt_pool :: "sig set" where
  "alt_pool \<equiv> {TRUE_s, FALSE_s, SVar 2 ''x'', SNot 3 (SVar 2 ''x'')}"

lemma alternator_ok: "pool_ok 4 alt_pool" "wf_ts alt_pool alternator" "assumptions_ok alt_pool alternator"
  "unreserved alternator" "''__assm_ok'' \<notin> ts_names alternator"
  "py_get (ts_liveness alternator) 0 = Some (SVar 2 ''x'', SNot 3 (SVar 2 ''x''))"
proof -
  have n: "ts_names alternator = {''x''}"
    by (simp add: ts_names_def alternator_def toggle_def add_state_bit_def TransitionSystem_def)
  show "pool_ok 4 alt_pool" by (auto simp: pool_ok_def pool_def TRUE_s_def FALSE_s_def)
  then show "wf_ts alt_pool alternator"
    unfolding wf_ts_def n by (simp add: pool_ok_def alternator_def toggle_def add_state_bit_def TransitionSystem_def)
  show "assumptions_ok alt_pool alternator" "unreserved alternator" "''__assm_ok'' \<notin> ts_names alternator"
    unfolding assumptions_ok_def unreserved_def n by (simp_all add: alternator_def)
  show "py_get (ts_liveness alternator) 0 = Some (SVar 2 ''x'', SNot 3 (SVar 2 ''x''))"
    by (simp add: py_get_def alternator_def)
qed

text \<open>C18. \<open>apply_assumptions\<close> builds a well-formed system that reaches a violation in \<open>k\<close> steps exactly when
  the original one does on a run that respects every assumption at every cycle up to and including the last.\<close>

theorem assumptions_guard:
  assumes "wf_ts P ts" "assumptions_ok P ts" "''__assm_ok'' \<notin> ts_names ts" "pool_ok n P"
  shows "\<exists>L n' P'. run_state (apply_assumptions ts) n = (Some L, n') \<and> pool_ok n' P' \<and> wf_ts P' L \<and>
    (\<forall>k. (\<exists>\<rho>. cex L k \<rho>) \<longleftrightarrow> (\<exists>\<rho>. cex ts k \<rho> \<and> (\<forall>i \<le> k. assumed ts (\<rho> i))))"
  by (rule apply_assumptions_ok [OF assms]) blast

theorem assumptions_guard_witness:
  "\<exists>L n' P'. run_state (apply_assumptions alternator) 4 = (Some L, n') \<and> pool_ok n' P' \<and> wf_ts P' L \<and>
    (\<forall>k. (\<exists>\<rho>. cex L k \<rho>) \<longleftrightarrow> (\<exists>\<rho>. cex alternator k \<rho> \<and> (\<forall>i \<le> k. assumed alternator (\<rho> i))))"
  by (rule assumptions_guard [OF alternator_ok(2,3,5,1)])

text \<open>C19. Liveness as safety is exact: the system that \<open>liveness_to_safety\<close> builds is well-formed, and it can
  reach a violation exactly when some infinite run from an initial state respects the assumptions and has
  an \<open>a\<close> that no \<open>b\<close> follows. From left to right a closed loop unwinds to an infinite run; from right to
  left a starving run revisits a state, and the monitor that saves there detects it.\<close>

theorem liveness_as_safety:
  assumes "wf_ts P ts" "assumptions_ok P ts" "unreserved ts" "pool_ok n P"
    "py_get (ts_liveness ts) idx = Some (a, b)" "a \<in> P" "b \<in> P" "svars a \<union> svars b \<subseteq> ts_names ts"
  shows "\<exists>L n' P'. run_state (liveness_to_safety ts idx) n = (Some L, n') \<and> pool_ok n' P' \<and> wf_ts P' L \<and>
    (safe L \<longleftrightarrow> \<not> (\<exists>\<rho>. is_init ts (\<rho> 0) \<and> (\<forall>i. step ts (\<rho> i) (\<rho> (Suc i))) \<and> (\<forall>i. assumed ts (\<rho> i)) \<and>
       (\<exists>i. sval (\<rho> i) a \<and> (\<forall>j. i \<le> j \<longrightarrow> \<not> sval (\<rho> j) b))))"
proof -
  obtain L n' P' where "run_state (liveness_to_safety ts idx) n = (Some L, n')" "pool_ok n' P'" "wf_ts P' L"
    "(\<exists>k \<sigma>. cex L k \<sigma>) \<longleftrightarrow> (\<exists>\<rho>. starves ts a b \<rho>)"
    using liveness_to_safety_ok [OF assms] by blast
  then show ?thesis unfolding safe_def starves_def by blast
qed

theorem liveness_as_safety_witness:
  "\<exists>L n' P'. run_state (liveness_to_safety alternator 0) 4 = (Some L, n') \<and> pool_ok n' P' \<and> wf_ts P' L \<and>
    (safe L \<longleftrightarrow> \<not> (\<exists>\<rho>. is_init alternator (\<rho> 0) \<and> (\<forall>i. step alternator (\<rho> i) (\<rho> (Suc i))) \<and>
       (\<forall>i. assumed alternator (\<rho> i)) \<and>
       (\<exists>i. sval (\<rho> i) (SVar 2 ''x'') \<and> (\<forall>j. i \<le> j \<longrightarrow> \<not> sval (\<rho> j) (SNot 3 (SVar 2 ''x''))))))"
  by (rule liveness_as_safety [OF alternator_ok(2,3,4,1,6)])
    (simp_all add: ts_names_def alternator_def toggle_def add_state_bit_def TransitionSystem_def)

section \<open>Interpolation (\<open>interp.py\<close>)\<close>

text \<open>C22. Interpolation-based model checking returns, whatever the order in which a clause is iterated. \<open>ITP_UNSAFE\<close>
  means that a violating run exists; with \<open>ITP_SAFE\<close> the frontier covers the initial states, no violation is
  as short as the screening depth, and if the refutation of the last query ends in the empty clause, the
  frontier is an invariant and the system is safe at every depth.\<close>

theorem interpolation_decides:
  assumes "wf_ts P ts" "readable ts" "ord_ok ord" "pool_ok n P"
  shows "\<exists>r n'. itp_mc ts ord max_iter d n = Some (r, n') \<and> (case r of
      ITP_UNSAFE \<Rightarrow> \<exists>k \<rho>. cex ts k \<rho>
    | ITP_SAFE R \<Rightarrow> (\<forall>k \<le> d. \<forall>\<rho>. \<not> cex ts k \<rho>) \<and> (\<forall>\<rho>. is_init ts \<rho> \<longrightarrow> sval \<rho> R) \<and>
        (\<exists>cs nxt c p. build_query ts R = Some (cs, nxt) \<and> dpll_prove cs = Some (UNSAT c p) \<and> (c = {} \<longrightarrow> safe ts))
    | ITP_UNKNOWN _ \<Rightarrow> \<forall>k \<le> d. \<forall>\<rho>. \<not> cex ts k \<rho>)"
proof -
  obtain r n' where r: "itp_mc ts ord max_iter d n = Some (r, n')" "case r of
      ITP_UNSAFE \<Rightarrow> \<exists>k \<rho>. cex ts k \<rho>
    | ITP_SAFE R \<Rightarrow> (\<forall>k \<le> d. \<forall>\<rho>. \<not> cex ts k \<rho>) \<and> (\<forall>\<rho>. is_init ts \<rho> \<longrightarrow> sval \<rho> R) \<and> closed_by ts R
    | ITP_UNKNOWN _ \<Rightarrow> \<forall>k \<le> d. \<forall>\<rho>. \<not> cex ts k \<rho>"
    using itp_mc_ok [OF assms] by blast
  have "\<exists>cs nxt c p. build_query ts R = Some (cs, nxt) \<and> dpll_prove cs = Some (UNSAT c p) \<and> (c = {} \<longrightarrow> safe ts)"
    if "r = ITP_SAFE R" for R
  proof -
    have "closed_by ts R" using r(2) that by simp
    then obtain cs nxt c p where c: "build_query ts R = Some (cs, nxt)" "dpll_prove cs = Some (UNSAT c p)"
      "c = {} \<longrightarrow> (\<forall>\<rho> \<rho>'. sval \<rho> R \<and> step ts \<rho> \<rho>' \<longrightarrow> sval \<rho>' R \<and> \<not> is_bad ts \<rho>')"
      unfolding closed_by_def by blast
    have "c = {} \<longrightarrow> safe ts" using closed_safe [of ts R] c(3) r(2) that by simp
    then show ?thesis using c(1,2) by blast
  qed
  then show ?thesis using r by (auto split: itp_result.splits)
qed

theorem interpolation_decides_witness:
  "\<exists>r n'. itp_mc alternator sorted_list_of_set 80 12 4 = Some (r, n') \<and> (case r of
      ITP_UNSAFE \<Rightarrow> \<exists>k \<rho>. cex alternator k \<rho>
    | ITP_SAFE R \<Rightarrow> (\<forall>k \<le> 12. \<forall>\<rho>. \<not> cex alternator k \<rho>) \<and> (\<forall>\<rho>. is_init alternator \<rho> \<longrightarrow> sval \<rho> R) \<and>
        (\<exists>cs nxt c p. build_query alternator R = Some (cs, nxt) \<and> dpll_prove cs = Some (UNSAT c p) \<and> (c = {} \<longrightarrow> safe alternator))
    | ITP_UNKNOWN _ \<Rightarrow> \<forall>k \<le> 12. \<forall>\<rho>. \<not> cex alternator k \<rho>)"
proof (rule interpolation_decides [OF alternator_ok(2) _ _ alternator_ok(1)])
  show "readable alternator"
    by (auto simp: readable_def traceable_def no_clash_def is_indexed_def alternator_def toggle_def add_state_bit_def TransitionSystem_def)
qed (simp add: ord_ok_def)

section \<open>The driver (\<open>prove.py\<close>)\<close>




section \<open>Bit-vector terms and DPLL(T) (\<open>smt.py\<close>)\<close>

text \<open>The chapter's adder trees: a chain of additions and the balanced tree.\<close>

definition chain_sum :: trm where
  "chain_sum = TAdd [TAdd [TAdd [TVar ''a'', TVar ''b''], TVar ''c''], TVar ''d'']"

definition tree_sum :: trm where
  "tree_sum = TAdd [TAdd [TVar ''a'', TVar ''b''], TAdd [TVar ''c'', TVar ''d'']]"

text \<open>C24. The polynomial normal form is sound: terms that \<open>provably_equal\<close> identifies have the same value
  modulo \<open>2\<^sup>w\<close> under every valuation of their variables.\<close>

theorem normal_form_sound:
  assumes "provably_equal a b w = Some True"
  shows "teval \<sigma> a mod 2 ^ w = teval \<sigma> b mod 2 ^ w"
  by (rule provably_equal_sound [OF assms])

theorem normal_form_sound_witness:
  "teval (\<lambda>x. int (length x) * 5) chain_sum mod 2 ^ 32 = teval (\<lambda>x. int (length x) * 5) tree_sum mod 2 ^ 32"
proof (rule normal_form_sound)
  show "provably_equal chain_sum tree_sum 32 = Some True" unfolding chain_sum_def tree_sum_def by code_simp
qed

text \<open>C25. Bit-blasting decides equality of arithmetic terms at width \<open>w\<close>: \<open>UNSAT\<close> means that they agree under
  every valuation, and with \<open>SAT\<close> the witness is a valuation under which they differ.\<close>

theorem bitblast_equiv_decides:
  assumes "arith a" "arith b" "pool_ok n P"
  shows "\<exists>r n' P'. bitblast_equiv a b w False n = Some (r, n') \<and> pool_ok n' P' \<and> P \<subseteq> P' \<and>
    (case r of
       COUNTED k \<Rightarrow> False
     | BB_UNSAT k \<Rightarrow> (\<forall>\<sigma>. teval \<sigma> a mod 2 ^ w = teval \<sigma> b mod 2 ^ w)
     | BB_SAT wit k \<Rightarrow> teval (wit_val wit) a mod 2 ^ w \<noteq> teval (wit_val wit) b mod 2 ^ w)"
proof -
  obtain r n' P' where "bitblast_equiv a b w False n = Some (r, n')" "pool_ok n' P'" "P \<subseteq> P'"
    "case r of COUNTED k \<Rightarrow> False | BB_UNSAT k \<Rightarrow> \<not> False \<and> (\<forall>\<sigma>. equal_at w \<sigma> a b)
     | BB_SAT wit k \<Rightarrow> \<not> False \<and> \<not> equal_at w (wit_val wit) a b"
    using bitblast_equiv_ok [OF assms, of w False] by blast
  then show ?thesis by (auto simp: equal_at_def split: bb_result.splits)
qed

theorem bitblast_equiv_decides_witness:
  "\<exists>r n' P'. bitblast_equiv chain_sum tree_sum 4 False 2 = Some (r, n') \<and> pool_ok n' P' \<and> {TRUE_s, FALSE_s} \<subseteq> P' \<and>
    (case r of
       COUNTED k \<Rightarrow> False
     | BB_UNSAT k \<Rightarrow> (\<forall>\<sigma>. teval \<sigma> chain_sum mod 2 ^ 4 = teval \<sigma> tree_sum mod 2 ^ 4)
     | BB_SAT wit k \<Rightarrow> teval (wit_val wit) chain_sum mod 2 ^ 4 \<noteq> teval (wit_val wit) tree_sum mod 2 ^ 4)"
  by (rule bitblast_equiv_decides [OF _ _ pool_ok_start]) (simp_all add: chain_sum_def tree_sum_def)

text \<open>C26. DPLL(T) decides bit-vector arithmetic: on atoms whose equalities are not cyclic the loop of \<open>solve\<close>
  ends. \<open>UNSAT\<close> means that no valuation of the words satisfies the formula; \<open>SAT-bb\<close> carries a valuation
  that does; \<open>SAT\<close>, without bit-blasting, only a truth assignment of the atoms that satisfies the clauses.\<close>

theorem smt_solve_decides:
  assumes "\<forall>e \<in> set atoms. arith_atom e" "ranked atoms" "cnf_ok (length atoms) cnf" "pool_ok n P"
  shows "\<exists>r n' P'. smt_solve atoms cnf w allow n = Some (r, n') \<and> pool_ok n' P' \<and> P \<subseteq> P' \<and> (case r of
      SMT_UNSAT lemmas \<Rightarrow> \<not> (\<exists>\<sigma>. formula atoms cnf w \<sigma>)
    | SMT_SAT a \<Rightarrow> \<not> allow \<and> (\<exists>m. a = map (\<lambda>i. (i, m i)) [1..<length atoms + 1] \<and> (\<forall>c \<in> set cnf. sat_clause m c))
    | SMT_SAT_BB wit \<Rightarrow> allow \<and> formula atoms cnf w (wit_val wit))"
  using smt_solve_ok [OF assms, of w allow] by (simp add: smt_answer_def)

text \<open>The chapter's congruence example: \<open>x = y\<close> and not \<open>x + 7 = y + 7\<close>.\<close>

definition congruence_atoms :: "eq_atom list" where
  "congruence_atoms = [Eq (TVar ''x'') (TVar ''y''),
     Eq (TAdd [TVar ''x'', TConst 7]) (TAdd [TVar ''y'', TConst 7])]"

theorem smt_solve_decides_witness:
  "\<exists>lemmas n'. smt_solve congruence_atoms [[1], [- 2]] 32 True 2 = Some (SMT_UNSAT lemmas, n')"
proof -
  have ar: "\<forall>e \<in> set congruence_atoms. arith_atom e" by (simp add: congruence_atoms_def arith_atom_def Eq_def)
  have rk: "ranked congruence_atoms"
    unfolding ranked_def by (rule exI [of _ "\<lambda>_. 0"]) (simp add: congruence_atoms_def Eq_def)
  have ok: "cnf_ok (length congruence_atoms) [[1], [- 2]]"
    by (simp add: cnf_ok_def congruence_atoms_def lit_ok_def lvar_def)
  have no: "\<not> formula congruence_atoms [[1], [- 2]] 32 \<sigma>" for \<sigma>
  proof
    assume "formula congruence_atoms [[1], [- 2]] 32 \<sigma>"
    then have "\<sigma> ''x'' mod 2 ^ 32 = \<sigma> ''y'' mod 2 ^ 32" "(\<sigma> ''x'' + 7) mod 2 ^ 32 \<noteq> (\<sigma> ''y'' + 7) mod 2 ^ 32"
      by (simp_all add: formula_def congruence_atoms_def atom_true_def equal_at_def Eq_def nth_Cons')
    then show False using mod_add_cong [of "\<sigma> ''x''" "2 ^ 32" "\<sigma> ''y''" 7 7] by simp
  qed
  have "\<exists>r n' P'. smt_solve congruence_atoms [[1], [- 2]] 32 True 2 = Some (r, n') \<and> pool_ok n' P' \<and> {TRUE_s, FALSE_s} \<subseteq> P' \<and> (case r of
      SMT_UNSAT lemmas \<Rightarrow> \<not> (\<exists>\<sigma>. formula congruence_atoms [[1], [- 2]] 32 \<sigma>)
    | SMT_SAT a \<Rightarrow> \<not> True \<and> (\<exists>m. a = map (\<lambda>i. (i, m i)) [1..<length congruence_atoms + 1] \<and> (\<forall>c \<in> set [[1], [- 2]]. sat_clause m c))
    | SMT_SAT_BB wit \<Rightarrow> True \<and> formula congruence_atoms [[1], [- 2]] 32 (wit_val wit))"
    by (rule smt_solve_decides [OF ar rk ok pool_ok_start])
  then obtain r n' where "smt_solve congruence_atoms [[1], [- 2]] 32 True 2 = Some (r, n')" "case r of
      SMT_UNSAT lemmas \<Rightarrow> True | SMT_SAT a \<Rightarrow> False | SMT_SAT_BB wit \<Rightarrow> formula congruence_atoms [[1], [- 2]] 32 (wit_val wit)"
    by (elim exE conjE) (rule that, assumption, simp split: smt_result.splits)
  then show ?thesis using no by (cases r) auto
qed

end
